(* ===== verification/CPrelude.thy ===== *)
theory CPrelude
  imports Main "HOL-Library.Word" "HOL-Library.Monad_Syntax"
begin

text \<open>
  Shared vocabulary of the development: the machine types of the 64 bit port
  (\<^verbatim>\<open>unix/hlib/libc/spp.h\<close> with \<^verbatim>\<open>MACH64\<close>: \<^verbatim>\<open>XCHAR\<close> is a 16 bit short, \<^verbatim>\<open>XINT\<close> a
  64 bit long, both little endian), a byte addressed memory in which an unmapped
  address makes the access undefined (\<open>None\<close>), and the block update \<open>blit\<close> in which
  the effect of every byte moving loop of the sources is stated.
\<close>

named_theorems cmem \<comment> \<open>memory regions: reads, writes, frames\<close>
named_theorems cloop \<comment> \<open>the unfoldings of the loops of the C sources\<close>

type_synonym byte = "8 word"
type_synonym xshort = "16 word"
type_synonym cint = "32 word"
type_synonym xint = "64 word"

abbreviation EOS :: byte where "EOS \<equiv> 0"

text \<open>The assignment of an \<^verbatim>\<open>XINT\<close> to an \<^verbatim>\<open>int\<close> keeps the low 32 bits.\<close>

definition to_cint :: "xint \<Rightarrow> cint" where
  "to_cint n = ucast n"

lemma sint_to_cint_small:
  assumes "n < 2 ^ 31"
  shows "sint (to_cint (word_of_nat n)) = int n"
proof -
  have "to_cint (word_of_nat n) = word_of_nat n"
    by (rule bit_word_eqI) (auto simp: to_cint_def bit_simps)
  then show ?thesis
    using assms by (simp add: signed_of_nat signed_take_bit_int_eq_self)
qed

lemma sint_xint_small:
  assumes "n < 2 ^ 63"
  shows "sint (word_of_nat n :: xint) = int n"
  using assms by (simp add: signed_of_nat signed_take_bit_int_eq_self)

subsection \<open>Memory\<close>

type_synonym mem = "nat \<Rightarrow> byte option"

text \<open>A store to an address that is not mapped is undefined.\<close>

definition wr :: "mem \<Rightarrow> nat \<Rightarrow> byte \<Rightarrow> mem option" where
  "wr m p v = (if m p = None then None else Some (m(p \<mapsto> v)))"

definition bytes_at :: "mem \<Rightarrow> nat \<Rightarrow> byte list \<Rightarrow> bool" where
  "bytes_at m p bs \<longleftrightarrow> (\<forall>i < length bs. m (p + i) = Some (bs ! i))"

definition mapped :: "mem \<Rightarrow> nat \<Rightarrow> nat \<Rightarrow> bool" where
  "mapped m p n \<longleftrightarrow> (\<forall>i < n. m (p + i) \<noteq> None)"

definition blit :: "mem \<Rightarrow> nat \<Rightarrow> byte list \<Rightarrow> mem" where
  "blit m p bs = (\<lambda>a. if p \<le> a \<and> a < p + length bs then Some (bs ! (a - p)) else m a)"

definition disjoint :: "nat \<Rightarrow> nat \<Rightarrow> nat \<Rightarrow> nat \<Rightarrow> bool" where
  "disjoint p n q k \<longleftrightarrow> p + n \<le> q \<or> q + k \<le> p"

lemma wr_mapped [cmem]: "m p \<noteq> None \<Longrightarrow> wr m p v = Some (m(p \<mapsto> v))"
  by (simp add: wr_def)

lemma wr_Some: "wr m p v = Some m' \<longleftrightarrow> m p \<noteq> None \<and> m' = m(p \<mapsto> v)"
  by (auto simp: wr_def)

lemma bytes_at_Nil [simp]: "bytes_at m p []"
  by (simp add: bytes_at_def)

lemma bytes_at_Cons: "bytes_at m p (b # bs) \<longleftrightarrow> m p = Some b \<and> bytes_at m (Suc p) bs"
  unfolding bytes_at_def
proof safe
  assume *: "\<forall>i < length (b # bs). m (p + i) = Some ((b # bs) ! i)"
  from *[rule_format, of 0] show "m p = Some b" by simp
  fix i assume "i < length bs"
  then show "m (Suc p + i) = Some (bs ! i)" using *[rule_format, of "Suc i"] by simp
next
  fix i assume "m p = Some b" "\<forall>i < length bs. m (Suc p + i) = Some (bs ! i)" "i < length (b # bs)"
  then show "m (p + i) = Some ((b # bs) ! i)" by (cases i) auto
qed

lemma bytes_at_append:
  "bytes_at m p (xs @ ys) \<longleftrightarrow> bytes_at m p xs \<and> bytes_at m (p + length xs) ys"
  by (induction xs arbitrary: p) (auto simp: bytes_at_Cons)

lemma bytes_at_mapped: "bytes_at m p bs \<Longrightarrow> mapped m p (length bs)"
  by (auto simp: bytes_at_def mapped_def)

lemma mapped_0 [simp]: "mapped m p 0"
  by (simp add: mapped_def)

lemma mapped_Suc: "mapped m p (Suc n) \<longleftrightarrow> m p \<noteq> None \<and> mapped m (Suc p) n"
  by (auto simp: mapped_def less_Suc_eq_0_disj)

lemma mapped_add: "mapped m p (a + b) \<longleftrightarrow> mapped m p a \<and> mapped m (p + a) b"
  by (induction a arbitrary: p) (auto simp: mapped_Suc)

lemma mapped_le: "mapped m p n \<Longrightarrow> k \<le> n \<Longrightarrow> mapped m p k"
  by (auto simp: mapped_def)

lemma mapped_nth: "mapped m p n \<Longrightarrow> i < n \<Longrightarrow> m (p + i) \<noteq> None"
  by (simp add: mapped_def)

subsection \<open>Block updates\<close>

lemma blit_Nil [simp]: "blit m p [] = m"
  by (auto simp: blit_def fun_eq_iff)

lemma blit_at: "i < length bs \<Longrightarrow> blit m p bs (p + i) = Some (bs ! i)"
  by (simp add: blit_def)

lemma blit_out: "a < p \<or> p + length bs \<le> a \<Longrightarrow> blit m p bs a = m a"
  by (auto simp: blit_def)

lemma blit_None: "bytes_at m q cs \<Longrightarrow> mapped (blit m p bs) q (length cs)"
  by (auto simp: bytes_at_def mapped_def blit_def)

lemma mapped_blit: "mapped m q n \<Longrightarrow> mapped (blit m p bs) q n"
  by (auto simp: mapped_def blit_def)

lemma mapped_upd: "mapped m q n \<Longrightarrow> mapped (m(p \<mapsto> v)) q n"
  by (auto simp: mapped_def)

lemma blit_append: "blit m p (xs @ ys) = blit (blit m p xs) (p + length xs) ys"
proof
  fix a
  consider "a < p" | "p \<le> a" "a < p + length xs" | "p + length xs \<le> a" by linarith
  then show "blit m p (xs @ ys) a = blit (blit m p xs) (p + length xs) ys a"
    by cases (auto simp: blit_def nth_append)
qed

lemma blit_append_swap: "blit m p (xs @ ys) = blit (blit m (p + length xs) ys) p xs"
proof
  fix a
  consider "a < p" | "p \<le> a" "a < p + length xs" | "p + length xs \<le> a" by linarith
  then show "blit m p (xs @ ys) a = blit (blit m (p + length xs) ys) p xs a"
    by cases (auto simp: blit_def nth_append)
qed

lemma blit_single: "blit m p [b] = m(p \<mapsto> b)"
  by (auto simp: blit_def fun_eq_iff)

lemma blit_Cons: "blit m p (b # bs) = blit (m(p \<mapsto> b)) (Suc p) bs"
  using blit_append[of m p "[b]" bs] by (simp add: blit_single)

lemma blit_snoc: "blit m p (bs @ [b]) = (blit m p bs)(p + length bs \<mapsto> b)"
  by (simp add: blit_append blit_single)

lemma bytes_at_blit_same [simp]: "bytes_at (blit m p bs) p bs"
  by (simp add: bytes_at_def blit_at)

lemma bytes_at_blit_disjoint:
  "bytes_at m q cs \<Longrightarrow> disjoint q (length cs) p (length bs) \<Longrightarrow> bytes_at (blit m p bs) q cs"
  by (auto simp: bytes_at_def disjoint_def blit_def)

lemma bytes_at_upd:
  "bytes_at m q cs \<Longrightarrow> p < q \<or> q + length cs \<le> p \<Longrightarrow> bytes_at (m(p \<mapsto> v)) q cs"
  by (auto simp: bytes_at_def)

lemma blit_same: "bytes_at m p bs \<Longrightarrow> blit m p bs = m"
  by (auto simp: fun_eq_iff blit_def bytes_at_def)
     (metis add_diff_inverse_nat nat_add_left_cancel_less not_less)

text \<open>A memory image of a byte list, for concrete instances.\<close>

definition memimg :: "nat \<Rightarrow> byte list \<Rightarrow> mem" where
  "memimg p bs = blit Map.empty p bs"

lemma bytes_at_memimg [simp]: "bytes_at (memimg p bs) p bs"
  by (simp add: memimg_def)

lemma mapped_memimg [simp]: "mapped (memimg p bs) p (length bs)"
  using bytes_at_mapped[OF bytes_at_memimg] .

lemma bytes_at_memimg_part:
  assumes "p \<le> q" "q + length xs \<le> p + length bs" "take (length xs) (drop (q - p) bs) = xs"
  shows "bytes_at (memimg p bs) q xs"
  unfolding bytes_at_def
proof safe
  fix i assume i: "i < length xs"
  have "xs ! i = take (length xs) (drop (q - p) bs) ! i"
    by (simp only: assms(3))
  also have "\<dots> = bs ! (q - p + i)"
    using i assms(1,2) by (subst nth_take) simp_all
  finally have x: "xs ! i = bs ! (q - p + i)" .
  have "q + i = p + (q - p + i)" "q - p + i < length bs" using i assms(1,2) by linarith+
  then show "memimg p bs (q + i) = Some (xs ! i)"
    unfolding x memimg_def using blit_at[of "q - p + i" bs Map.empty p] by metis
qed

lemma mapped_memimg_part: "p \<le> q \<Longrightarrow> q + n \<le> p + length bs \<Longrightarrow> mapped (memimg p bs) q n"
  by (auto simp: mapped_def memimg_def blit_def)

lemmas memimg_part = bytes_at_memimg_part mapped_memimg_part

subsection \<open>NUL terminated strings\<close>

definition str_at :: "mem \<Rightarrow> nat \<Rightarrow> byte list \<Rightarrow> bool" where
  "str_at m p s \<longleftrightarrow> EOS \<notin> set s \<and> bytes_at m p (s @ [EOS])"

lemma str_at_Nil: "str_at m p [] \<longleftrightarrow> m p = Some EOS"
  by (simp add: str_at_def bytes_at_Cons)

lemma str_at_Cons: "str_at m p (c # s) \<longleftrightarrow> m p = Some c \<and> c \<noteq> EOS \<and> str_at m (Suc p) s"
  by (auto simp: str_at_def bytes_at_Cons)

lemmas str_at_simps = str_at_Nil str_at_Cons

lemma str_at_bytes: "str_at m p s \<Longrightarrow> bytes_at m p (s @ [EOS])"
  by (simp add: str_at_def)

text \<open>The value of a C string is the part of a byte list before its first NUL.\<close>

definition cstr :: "byte list \<Rightarrow> byte list" where
  "cstr bs = takeWhile (\<lambda>c. c \<noteq> EOS) bs"

lemma cstr_no_EOS [simp]: "EOS \<notin> set s \<Longrightarrow> cstr (s @ EOS # r) = s"
  by (induction s) (auto simp: cstr_def)

lemma EOS_cstr: "EOS \<notin> set (cstr bs)"
  by (auto simp: cstr_def dest: set_takeWhileD)

subsection \<open>Lists\<close>

lemma take_replicate_pad: "length xs \<le> n \<Longrightarrow> take n (xs @ replicate n a) = xs @ replicate (n - length xs) a"
  by simp

lemma concat_replicate_length: "(\<forall>x \<in> set xs. length x = k) \<Longrightarrow> length (concat xs) = k * length xs"
  by (induction xs) auto

end
