(* ===== verification/Bytes.thy ===== *)
theory Bytes
  imports CPrelude
begin

text \<open>
  Byte moving loops of the portable kernel library: the copy loops of \<^verbatim>\<open>BYTMOV\<close>
  (\<^verbatim>\<open>unix/boot/bootlib/_bytmov.c\<close>) and the element conversion loops of the \<^verbatim>\<open>acht\<close>
  family (\<^verbatim>\<open>sys/osb\<close>), with the locale \<open>element_conv\<close> in which the loops are proved
  correct once, for every overlap of the two arrays they are documented for.
\<close>

section \<open>Copy loops\<close>

text \<open>\<open>*op++ = *ip++\<close>, \<open>n\<close> times.\<close>

primrec copy_up :: "nat \<Rightarrow> mem \<Rightarrow> nat \<Rightarrow> nat \<Rightarrow> mem option" where
  "copy_up 0 m ip op = Some m"
| "copy_up (Suc n) m ip op = do {
     c \<leftarrow> m ip;
     m' \<leftarrow> wr m op c;
     copy_up n m' (Suc ip) (Suc op) }"

text \<open>\<open>*--op = *--ip\<close>, \<open>n\<close> times.\<close>

primrec copy_down :: "nat \<Rightarrow> mem \<Rightarrow> nat \<Rightarrow> nat \<Rightarrow> mem option" where
  "copy_down 0 m ip op = Some m"
| "copy_down (Suc n) m ip op = do {
     c \<leftarrow> m (ip - 1);
     m' \<leftarrow> wr m (op - 1) c;
     copy_down n m' (ip - 1) (op - 1) }"

lemma copy_up_blit [cmem]:
  assumes "bytes_at m ip bs" "mapped m op (length bs)"
    and "op \<le> ip \<or> ip + length bs \<le> op"
  shows "copy_up (length bs) m ip op = Some (blit m op bs)"
  using assms
proof (induction bs arbitrary: m ip op)
  case (Cons c bs)
  then have m: "m ip = Some c" "m op \<noteq> None" "mapped m (Suc op) (length bs)"
    and at: "bytes_at m (Suc ip) bs"
    by (auto simp: bytes_at_Cons mapped_Suc)
  let ?m = "m(op \<mapsto> c)"
  have "copy_up (length bs) ?m (Suc ip) (Suc op) = Some (blit ?m (Suc op) bs)"
    using m at Cons.prems by (intro Cons.IH bytes_at_upd mapped_upd) auto
  with m show ?case by (simp add: wr_mapped blit_Cons)
qed simp

lemma copy_down_blit [cmem]:
  assumes "bytes_at m ip bs" "mapped m op (length bs)" "ip \<le> op \<or> op + length bs \<le> ip"
  shows "copy_down (length bs) m (ip + length bs) (op + length bs) = Some (blit m op bs)"
  using assms
proof (induction bs arbitrary: m rule: rev_induct)
  case (snoc c bs)
  let ?n = "length bs"
  from snoc.prems have at: "bytes_at m ip bs" and c: "m (ip + ?n) = Some c"
    by (auto simp: bytes_at_append bytes_at_Cons)
  have mp: "mapped m op ?n" and op: "m (op + ?n) \<noteq> None"
    using snoc.prems(2) by (auto simp: mapped_def)
  let ?m = "m(op + ?n \<mapsto> c)"
  have "copy_down ?n ?m (ip + ?n) (op + ?n) = Some (blit ?m op bs)"
    using at mp snoc.prems by (intro snoc.IH bytes_at_upd mapped_upd) auto
  moreover have "blit ?m op bs = blit m op (bs @ [c])"
    by (simp add: blit_append_swap blit_single)
  ultimately show ?case
    using c op by (simp add: wr_mapped)
qed simp

subsection \<open>BYTMOV and its C front end\<close>

definition BYTMOV :: "mem \<Rightarrow> nat \<Rightarrow> nat \<Rightarrow> nat \<Rightarrow> nat \<Rightarrow> xint \<Rightarrow> mem option" where
  "BYTMOV m a aoff b boff nbytes =
     (let n = nat (sint (to_cint nbytes));
          ap = a + aoff - 1;
          bp = b + boff - 1
      in if ap = bp then Some m
         else if bp < ap then copy_up n m ap bp
         else copy_down n m (ap + n) (bp + n))"

text \<open>
  \<^verbatim>\<open>os_amovb\<close> passes the address of its \<^verbatim>\<open>int\<close> count where \<^verbatim>\<open>BYTMOV\<close> reads an \<^verbatim>\<open>XINT\<close>; the count is taken as the
  sign extended value, since what lies behind it in memory is not known.
\<close>

definition os_amovb :: "mem \<Rightarrow> nat \<Rightarrow> nat \<Rightarrow> cint \<Rightarrow> mem option" where
  "os_amovb m a b nbytes =
     (let a_wp = a; b_wp = b;
          a_off = a - a_wp + 1;
          b_off = b - b_wp + 1
      in BYTMOV m a_wp a_off b_wp b_off (scast nbytes))"

text \<open>
  C11. \<^verbatim>\<open>BYTMOV\<close> is \<^verbatim>\<open>memmove\<close>: whatever the overlap of the two fields, named by a base
  address and a one-indexed byte offset, the output field gets the original bytes of the
  input field and no other byte of memory changes.
\<close>

theorem bytmov_memmove:
  assumes "bytes_at m ap bs" "mapped m bp (length bs)" "length bs < 2 ^ 31"
    and "a + aoff = Suc ap" "b + boff = Suc bp"
  shows "BYTMOV m a aoff b boff (word_of_nat (length bs)) = Some (blit m bp bs)"
proof -
  have p: "a + aoff - 1 = ap" "b + boff - 1 = bp" using assms(4,5) by simp_all
  have n: "nat (sint (to_cint (word_of_nat (length bs)))) = length bs"
    using sint_to_cint_small[OF assms(3)] by simp
  have eq: "BYTMOV m a aoff b boff (word_of_nat (length bs))
      = (if ap = bp then Some m else if bp < ap then copy_up (length bs) m ap bp
         else copy_down (length bs) m (ap + length bs) (bp + length bs))"
    unfolding BYTMOV_def Let_def p n ..
  consider "ap = bp" | "bp < ap" | "ap < bp" by linarith
  then show ?thesis
  proof cases
    case 1
    with assms(1) show ?thesis unfolding eq by (simp add: blit_same)
  next
    case 2
    with assms(1,2) show ?thesis unfolding eq by (simp add: copy_up_blit)
  next
    case 3
    with assms(1,2) show ?thesis unfolding eq by (simp add: copy_down_blit)
  qed
qed

theorem bytmov_memmove_witness:
  "BYTMOV (memimg 10 [1, 2, 3, 4, 5]) 10 1 10 3 (word_of_nat (length [1, 2, 3 :: byte]))
    = Some (blit (memimg 10 [1, 2, 3, 4, 5]) 12 [1, 2, 3])"
  by (rule bytmov_memmove[of _ 10]) (simp_all add: memimg_part)

section \<open>Typed elements in memory\<close>

primrec ldn :: "nat \<Rightarrow> mem \<Rightarrow> nat \<Rightarrow> byte list option" where
  "ldn 0 m p = Some []"
| "ldn (Suc k) m p = do { b \<leftarrow> m p; bs \<leftarrow> ldn k m (Suc p); Some (b # bs) }"

primrec stn :: "byte list \<Rightarrow> mem \<Rightarrow> nat \<Rightarrow> mem option" where
  "stn [] m p = Some m"
| "stn (b # bs) m p = do { m' \<leftarrow> wr m p b; stn bs m' (Suc p) }"

lemma ldn_bytes_at [cmem]: "bytes_at m p bs \<Longrightarrow> ldn (length bs) m p = Some bs"
  by (induction bs arbitrary: p) (auto simp: bytes_at_Cons)

lemma stn_blit [cmem]: "mapped m p (length bs) \<Longrightarrow> stn bs m p = Some (blit m p bs)"
proof (induction bs arbitrary: m p)
  case (Cons b bs)
  then have "m p \<noteq> None" "mapped (m(p \<mapsto> b)) (Suc p) (length bs)"
    by (auto simp: mapped_Suc intro: mapped_upd)
  with Cons.IH show ?case by (simp add: wr_mapped blit_Cons)
qed simp

text \<open>Little endian values of byte lists, read unsigned and in two's complement.\<close>

primrec le_val :: "byte list \<Rightarrow> int" where
  "le_val [] = 0"
| "le_val (b # bs) = uint b + 256 * le_val bs"

definition le_sval :: "byte list \<Rightarrow> int" where
  "le_sval bs = (let v = le_val bs; n = 256 ^ length bs in if n \<le> 2 * v then v - n else v)"

primrec le_enc :: "nat \<Rightarrow> int \<Rightarrow> byte list" where
  "le_enc 0 v = []"
| "le_enc (Suc l) v = word_of_int v # le_enc l (v div 256)"

lemma length_le_enc [simp]: "length (le_enc l v) = l"
  by (induction l arbitrary: v) auto

lemma le_val_nonneg: "0 \<le> le_val bs"
  by (induction bs) auto

lemma uint_byte_less: "uint (b :: byte) < 256"
  using uint_lt2p[of b] by simp

lemma le_val_less: "le_val bs < 256 ^ length bs"
proof (induction bs)
  case (Cons b bs)
  then have "le_val bs + 1 \<le> 256 ^ length bs" by simp
  with uint_byte_less[of b] show ?case by simp
qed simp

lemma le_enc_le_val: "le_enc (length bs) (le_val bs) = bs"
proof (induction bs)
  case (Cons b bs)
  have "uint (word_of_int (uint b + 256 * le_val bs) :: byte) = uint b"
    using uint_byte_less[of b] by (simp only: uint_word_of_int) simp
  then have "word_of_int (uint b + 256 * le_val bs) = b"
    by (simp only: word_uint_eq_iff)
  moreover have "(uint b + 256 * le_val bs) div 256 = le_val bs"
    using uint_byte_less[of b] by (simp add: div_add1_eq)
  ultimately show ?case using Cons.IH by simp
qed simp

lemma le_val_le_enc: "le_val (le_enc l v) = v mod 256 ^ l"
proof (induction l arbitrary: v)
  case (Suc l)
  have "uint (word_of_int v :: byte) = v mod 256"
    by (simp add: uint_word_of_int)
  moreover have "v mod 256 + 256 * (v div 256 mod 256 ^ l) = v mod (256 * 256 ^ l)"
    using zmod_zmult2_eq[of "256 ^ l" v 256] by simp
  ultimately show ?case by (simp add: Suc.IH)
qed simp

lemma le_sval_cong: "le_sval bs mod 256 ^ length bs = le_val bs"
  using le_val_less[of bs] le_val_nonneg[of bs] by (auto simp: le_sval_def Let_def)

lemma le_enc_mod: "le_enc l (v mod 256 ^ l) = le_enc l v"
  by (metis le_enc_le_val le_val_le_enc length_le_enc)

lemma le_enc_le_sval: "le_enc (length bs) (le_sval bs) = bs"
  by (metis le_enc_le_val le_enc_mod le_sval_cong)

text \<open>The C conversions of an unsigned and of a signed integer to \<open>l\<close> bytes.\<close>

definition uconv :: "nat \<Rightarrow> byte list \<Rightarrow> byte list" where
  "uconv l x = le_enc l (le_val x)"

definition sconv :: "nat \<Rightarrow> byte list \<Rightarrow> byte list" where
  "sconv l x = le_enc l (le_sval x)"

section \<open>Element conversion loops\<close>

text \<open>\<open>for (ip=a, op=b; --n >= 0; ) *op++ = *ip++\<close> over elements of \<open>k\<close> and \<open>l\<close> bytes.\<close>

primrec conv_fwd ::
  "(byte list \<Rightarrow> byte list) \<Rightarrow> nat \<Rightarrow> nat \<Rightarrow> nat \<Rightarrow> mem \<Rightarrow> nat \<Rightarrow> nat \<Rightarrow> mem option" where
  "conv_fwd conv k l 0 m ip op = Some m"
| "conv_fwd conv k l (Suc n) m ip op = do {
     x \<leftarrow> ldn k m ip;
     m' \<leftarrow> stn (conv x) m op;
     conv_fwd conv k l n m' (ip + k) (op + l) }"

text \<open>\<open>for (ip = &a[n], op = &b[n]; ip > a; ) *--op = *--ip\<close>.\<close>

primrec conv_bwd ::
  "(byte list \<Rightarrow> byte list) \<Rightarrow> nat \<Rightarrow> nat \<Rightarrow> nat \<Rightarrow> mem \<Rightarrow> nat \<Rightarrow> nat \<Rightarrow> mem option" where
  "conv_bwd conv k l 0 m a b = Some m"
| "conv_bwd conv k l (Suc n) m a b = do {
     x \<leftarrow> ldn k m (a + k * n);
     m' \<leftarrow> stn (conv x) m (b + l * n);
     conv_bwd conv k l n m' a b }"

text \<open>
  The interface of an element conversion: it turns \<open>k\<close> source bytes into \<open>l\<close>
  destination bytes. The two loops are correct for every such conversion.
\<close>

locale element_conv =
  fixes conv :: "byte list \<Rightarrow> byte list" and k l :: nat
  assumes length_conv: "length x = k \<Longrightarrow> length (conv x) = l"
begin

definition elems :: "byte list list \<Rightarrow> bool" where
  "elems xs \<longleftrightarrow> (\<forall>x \<in> set xs. length x = k)"

lemma length_concat_conv: "elems xs \<Longrightarrow> length (concat (map conv xs)) = l * length xs"
  by (induction xs) (auto simp: elems_def length_conv)

lemma length_concat_elems: "elems xs \<Longrightarrow> length (concat xs) = k * length xs"
  by (auto simp: elems_def concat_replicate_length)

lemma conv_fwd_blit:
  assumes "elems xs" "bytes_at m ip (concat xs)" "mapped m op (l * length xs)"
    and "l \<le> k \<and> op \<le> ip \<or> disjoint ip (k * length xs) op (l * length xs)"
  shows "conv_fwd conv k l (length xs) m ip op = Some (blit m op (concat (map conv xs)))"
  using assms
proof (induction xs arbitrary: m ip op)
  case (Cons x xs)
  from Cons.prems have x: "length x = k" and xs: "elems xs" by (auto simp: elems_def)
  from Cons.prems(2) x have ld: "ldn k m ip = Some x" and at: "bytes_at m (ip + k) (concat xs)"
    using ldn_bytes_at by (auto simp: bytes_at_append)
  from Cons.prems(3) have mp: "mapped m op l" "mapped m (op + l) (l * length xs)"
    by (auto simp: mapped_add)
  let ?m = "blit m op (conv x)"
  have "disjoint (ip + k) (length (concat xs)) op (length (conv x))"
    using Cons.prems(4) x xs by (auto simp: disjoint_def length_conv length_concat_elems)
  then have "conv_fwd conv k l (length xs) ?m (ip + k) (op + l)
      = Some (blit ?m (op + l) (concat (map conv xs)))"
    using at mp xs Cons.prems(4)
    by (intro Cons.IH bytes_at_blit_disjoint mapped_blit) (auto simp: disjoint_def)
  with ld mp x show ?case by (simp add: stn_blit length_conv blit_append)
qed simp

lemma conv_bwd_blit:
  assumes "elems xs" "bytes_at m a (concat xs)" "mapped m b (l * length xs)"
    and "k \<le> l \<and> a \<le> b \<or> disjoint a (k * length xs) b (l * length xs)"
  shows "conv_bwd conv k l (length xs) m a b = Some (blit m b (concat (map conv xs)))"
  using assms
proof (induction xs arbitrary: m rule: rev_induct)
  case (snoc x xs)
  let ?n = "length xs"
  from snoc.prems have x: "length x = k" and xs: "elems xs" by (auto simp: elems_def)
  from snoc.prems(2) x have ld: "ldn k m (a + k * ?n) = Some x" and at: "bytes_at m a (concat xs)"
    using ldn_bytes_at length_concat_elems[OF xs] by (auto simp: bytes_at_append)
  from snoc.prems(3) have mp: "mapped m b (l * ?n)" "mapped m (b + l * ?n) l"
    using mapped_add[of m b "l * ?n" l] by (auto simp: add.commute)
  let ?m = "blit m (b + l * ?n) (conv x)"
  have "k \<le> l \<Longrightarrow> a \<le> b \<Longrightarrow> a + k * ?n \<le> b + l * ?n" by (intro add_mono mult_le_mono1)
  then have "disjoint a (length (concat xs)) (b + l * ?n) (length (conv x))"
    using snoc.prems(4) x xs by (auto simp: disjoint_def length_conv length_concat_elems)
  then have "conv_bwd conv k l ?n ?m a b = Some (blit ?m b (concat (map conv xs)))"
    using at mp xs snoc.prems(4)
    by (intro snoc.IH bytes_at_blit_disjoint mapped_blit) (auto simp: disjoint_def)
  moreover have "blit ?m b (concat (map conv xs)) = blit m b (concat (map conv (xs @ [x])))"
    using length_concat_conv[OF xs] by (simp add: blit_append_swap)
  ultimately show ?case using ld mp x by (simp add: stn_blit length_conv)
qed simp

end

text \<open>
  A widening conversion and the narrowing one that undoes it: run over one array in
  place, the backward loop and then the forward loop restore the array.
\<close>

locale conv_pair = up: element_conv up k l + dn: element_conv dn l k for up dn k l +
  assumes widens: "k \<le> l"
    and dn_up: "length x = k \<Longrightarrow> dn (up x) = x"
begin

lemma map_dn_up: "up.elems xs \<Longrightarrow> map dn (map up xs) = xs"
  by (induction xs) (auto simp: up.elems_def dn_up)

lemma elems_up: "up.elems xs \<Longrightarrow> dn.elems (map up xs)"
  by (auto simp: up.elems_def dn.elems_def up.length_conv)

lemma in_place_roundtrip:
  assumes "up.elems xs" "bytes_at m a (concat xs)" "mapped m a (l * length xs)"
  shows "conv_bwd up k l (length xs) m a a = Some (blit m a (concat (map up xs)))"
    and "conv_fwd dn l k (length xs) (blit m a (concat (map up xs))) a a
      = Some (blit (blit m a (concat (map up xs))) a (concat xs))"
proof -
  show "conv_bwd up k l (length xs) m a a = Some (blit m a (concat (map up xs)))"
    using assms widens by (intro up.conv_bwd_blit) auto
  have "mapped (blit m a (concat (map up xs))) a (k * length (map up xs))"
    using widens mapped_le[OF assms(3), of "k * length xs"] by (auto intro: mapped_blit)
  then show "conv_fwd dn l k (length xs) (blit m a (concat (map up xs))) a a
      = Some (blit (blit m a (concat (map up xs))) a (concat xs))"
    using dn.conv_fwd_blit[of "map up xs" "blit m a (concat (map up xs))" a a]
      elems_up[OF assms(1)] map_dn_up[OF assms(1)] widens by simp
qed

end

interpretation uconv: element_conv "uconv l" k l for k l
  by unfold_locales (simp add: uconv_def)

interpretation sconv: element_conv "sconv l" k l for k l
  by unfold_locales (simp add: sconv_def)

end
