(* ===== verification/Acht.thy ===== *)
theory Acht
  imports Bytes
begin

text \<open>
  The \<^verbatim>\<open>acht\<close> pixel conversion family of \<^verbatim>\<open>sys/osb\<close> (integer instances of the
  generic sources \<^verbatim>\<open>achtb.gc\<close>, \<^verbatim>\<open>achtu.gc\<close>, \<^verbatim>\<open>achtzb.gc\<close> and \<^verbatim>\<open>achtzu.gc\<close>), the
  \<^verbatim>\<open>ipak\<close>/\<^verbatim>\<open>iupk\<close> array packers and the counted string packers \<^verbatim>\<open>chrpak.c\<close> and
  \<^verbatim>\<open>chrupk.c\<close>. Each is one of the two loops of \<open>Bytes\<close> over its element conversion;
  the direction is the one the source chooses from the element sizes.
\<close>

abbreviation sz_ubyte :: nat where "sz_ubyte \<equiv> 1"
abbreviation sz_char :: nat where "sz_char \<equiv> 2"
abbreviation sz_short :: nat where "sz_short \<equiv> 2"
abbreviation sz_ushort :: nat where "sz_ushort \<equiv> 2"
abbreviation sz_int32 :: nat where "sz_int32 \<equiv> 4"
abbreviation sz_int :: nat where "sz_int \<equiv> 8"
abbreviation sz_long :: nat where "sz_long \<equiv> 8"

section \<open>Unpacking unsigned bytes\<close>

text \<open>The element count is used as an \<^verbatim>\<open>XINT\<close> index here; a negative one runs no iteration.\<close>

definition ACHTBB :: "mem \<Rightarrow> nat \<Rightarrow> nat \<Rightarrow> xint \<Rightarrow> mem option" where
  "ACHTBB m a b npix = conv_bwd (uconv sz_ubyte) sz_ubyte sz_ubyte (nat (sint npix)) m a b"

definition ACHTBC :: "mem \<Rightarrow> nat \<Rightarrow> nat \<Rightarrow> xint \<Rightarrow> mem option" where
  "ACHTBC m a b npix = conv_bwd (uconv sz_char) sz_ubyte sz_char (nat (sint npix)) m a b"

definition ACHTBS :: "mem \<Rightarrow> nat \<Rightarrow> nat \<Rightarrow> xint \<Rightarrow> mem option" where
  "ACHTBS m a b npix = conv_bwd (uconv sz_short) sz_ubyte sz_short (nat (sint npix)) m a b"

definition ACHTBU :: "mem \<Rightarrow> nat \<Rightarrow> nat \<Rightarrow> xint \<Rightarrow> mem option" where
  "ACHTBU m a b npix = conv_bwd (uconv sz_ushort) sz_ubyte sz_ushort (nat (sint npix)) m a b"

definition ACHTBI :: "mem \<Rightarrow> nat \<Rightarrow> nat \<Rightarrow> xint \<Rightarrow> mem option" where
  "ACHTBI m a b npix = conv_bwd (uconv sz_int) sz_ubyte sz_int (nat (sint npix)) m a b"

definition ACHTBL :: "mem \<Rightarrow> nat \<Rightarrow> nat \<Rightarrow> xint \<Rightarrow> mem option" where
  "ACHTBL m a b npix = conv_bwd (uconv sz_long) sz_ubyte sz_long (nat (sint npix)) m a b"

section \<open>Packing into unsigned bytes\<close>

text \<open>From here on the count is first assigned to an \<^verbatim>\<open>int\<close>.\<close>

definition count :: "xint \<Rightarrow> nat" where
  "count npix = nat (sint (to_cint npix))"

definition ACHTCB :: "mem \<Rightarrow> nat \<Rightarrow> nat \<Rightarrow> xint \<Rightarrow> mem option" where
  "ACHTCB m a b npix = conv_fwd (sconv sz_ubyte) sz_char sz_ubyte (count npix) m a b"

definition ACHTSB :: "mem \<Rightarrow> nat \<Rightarrow> nat \<Rightarrow> xint \<Rightarrow> mem option" where
  "ACHTSB m a b npix = conv_fwd (sconv sz_ubyte) sz_short sz_ubyte (count npix) m a b"

definition ACHTIB :: "mem \<Rightarrow> nat \<Rightarrow> nat \<Rightarrow> xint \<Rightarrow> mem option" where
  "ACHTIB m a b npix = conv_fwd (sconv sz_ubyte) sz_int sz_ubyte (count npix) m a b"

definition ACHTLB :: "mem \<Rightarrow> nat \<Rightarrow> nat \<Rightarrow> xint \<Rightarrow> mem option" where
  "ACHTLB m a b npix = conv_fwd (sconv sz_ubyte) sz_long sz_ubyte (count npix) m a b"

section \<open>Unpacking unsigned shorts\<close>

definition ACHTUB :: "mem \<Rightarrow> nat \<Rightarrow> nat \<Rightarrow> xint \<Rightarrow> mem option" where
  "ACHTUB m a b npix =
     (let n = count npix in
      if sz_ubyte \<ge> sz_ushort
      then conv_bwd (uconv sz_ubyte) sz_ushort sz_ubyte n m a b
      else conv_fwd (uconv sz_ubyte) sz_ushort sz_ubyte n m a b)"

definition ACHTUC :: "mem \<Rightarrow> nat \<Rightarrow> nat \<Rightarrow> xint \<Rightarrow> mem option" where
  "ACHTUC m a b npix =
     (let n = count npix in
      if sz_char \<ge> sz_ushort
      then conv_bwd (uconv sz_char) sz_ushort sz_char n m a b
      else conv_fwd (uconv sz_char) sz_ushort sz_char n m a b)"

definition ACHTUS :: "mem \<Rightarrow> nat \<Rightarrow> nat \<Rightarrow> xint \<Rightarrow> mem option" where
  "ACHTUS m a b npix =
     (let n = count npix in
      if sz_short \<ge> sz_ushort
      then conv_bwd (uconv sz_short) sz_ushort sz_short n m a b
      else conv_fwd (uconv sz_short) sz_ushort sz_short n m a b)"

definition ACHTUU :: "mem \<Rightarrow> nat \<Rightarrow> nat \<Rightarrow> xint \<Rightarrow> mem option" where
  "ACHTUU m a b npix =
     (let n = count npix in
      if sz_ushort \<ge> sz_ushort
      then conv_bwd (uconv sz_ushort) sz_ushort sz_ushort n m a b
      else conv_fwd (uconv sz_ushort) sz_ushort sz_ushort n m a b)"

definition ACHTUI :: "mem \<Rightarrow> nat \<Rightarrow> nat \<Rightarrow> xint \<Rightarrow> mem option" where
  "ACHTUI m a b npix =
     (let n = count npix in
      if sz_int \<ge> sz_ushort
      then conv_bwd (uconv sz_int) sz_ushort sz_int n m a b
      else conv_fwd (uconv sz_int) sz_ushort sz_int n m a b)"

definition ACHTUL :: "mem \<Rightarrow> nat \<Rightarrow> nat \<Rightarrow> xint \<Rightarrow> mem option" where
  "ACHTUL m a b npix =
     (let n = count npix in
      if sz_long \<ge> sz_ushort
      then conv_bwd (uconv sz_long) sz_ushort sz_long n m a b
      else conv_fwd (uconv sz_long) sz_ushort sz_long n m a b)"

section \<open>Packing into unsigned shorts\<close>

definition ACHTCU :: "mem \<Rightarrow> nat \<Rightarrow> nat \<Rightarrow> xint \<Rightarrow> mem option" where
  "ACHTCU m a b npix =
     (let n = count npix in
      if sz_ushort > sz_char
      then conv_bwd (sconv sz_ushort) sz_char sz_ushort n m a b
      else conv_fwd (sconv sz_ushort) sz_char sz_ushort n m a b)"

definition ACHTSU :: "mem \<Rightarrow> nat \<Rightarrow> nat \<Rightarrow> xint \<Rightarrow> mem option" where
  "ACHTSU m a b npix =
     (let n = count npix in
      if sz_ushort > sz_short
      then conv_bwd (sconv sz_ushort) sz_short sz_ushort n m a b
      else conv_fwd (sconv sz_ushort) sz_short sz_ushort n m a b)"

definition ACHTIU :: "mem \<Rightarrow> nat \<Rightarrow> nat \<Rightarrow> xint \<Rightarrow> mem option" where
  "ACHTIU m a b npix =
     (let n = count npix in
      if sz_ushort > sz_int
      then conv_bwd (sconv sz_ushort) sz_int sz_ushort n m a b
      else conv_fwd (sconv sz_ushort) sz_int sz_ushort n m a b)"

definition ACHTLU :: "mem \<Rightarrow> nat \<Rightarrow> nat \<Rightarrow> xint \<Rightarrow> mem option" where
  "ACHTLU m a b npix =
     (let n = count npix in
      if sz_ushort > sz_long
      then conv_bwd (sconv sz_ushort) sz_long sz_ushort n m a b
      else conv_fwd (sconv sz_ushort) sz_long sz_ushort n m a b)"

section \<open>Packing and unpacking integers\<close>

text \<open>
  \<^verbatim>\<open>IPAK16\<close> runs directly over its arrays; the other three convert into a scratch array
  and move that over the output, so that every element is read before any is written.
  The scratch allocation is taken to succeed.
\<close>

primrec ld_elems :: "nat \<Rightarrow> nat \<Rightarrow> mem \<Rightarrow> nat \<Rightarrow> byte list list option" where
  "ld_elems k 0 m p = Some []"
| "ld_elems k (Suc n) m p = do {
     x \<leftarrow> ldn k m p;
     xs \<leftarrow> ld_elems k n m (p + k);
     Some (x # xs) }"

definition via_scratch ::
  "(byte list \<Rightarrow> byte list) \<Rightarrow> nat \<Rightarrow> nat \<Rightarrow> mem \<Rightarrow> nat \<Rightarrow> nat \<Rightarrow> mem option" where
  "via_scratch conv k n m a b = do {
     xs \<leftarrow> ld_elems k n m a;
     stn (concat (map conv xs)) m b }"

definition IPAK16 :: "mem \<Rightarrow> nat \<Rightarrow> nat \<Rightarrow> xint \<Rightarrow> mem option" where
  "IPAK16 m a b nelems = conv_fwd (sconv sz_short) sz_int32 sz_short (nat (sint nelems)) m a b"

definition IPAK32 :: "mem \<Rightarrow> nat \<Rightarrow> nat \<Rightarrow> xint \<Rightarrow> mem option" where
  "IPAK32 m a b nelems = via_scratch (sconv sz_int32) sz_int (nat (sint nelems)) m a b"

definition IUPK16 :: "mem \<Rightarrow> nat \<Rightarrow> nat \<Rightarrow> xint \<Rightarrow> mem option" where
  "IUPK16 m a b nelems = via_scratch (sconv sz_int32) sz_short (nat (sint nelems)) m a b"

definition IUPK32 :: "mem \<Rightarrow> nat \<Rightarrow> nat \<Rightarrow> xint \<Rightarrow> mem option" where
  "IUPK32 m a b nelems = via_scratch (sconv sz_int) sz_int32 (nat (sint nelems)) m a b"

section \<open>Counted strings\<close>

definition chrpak_elem :: "byte list \<Rightarrow> byte list" where
  "chrpak_elem x = (let ch = le_sval x in le_enc sz_ubyte (if ch \<ge> 0 then ch else ch + 256))"

definition chrupk_elem :: "byte list \<Rightarrow> byte list" where
  "chrupk_elem x = (let ch = le_val x in le_enc sz_char (if ch \<le> 127 then ch else ch - 256))"

definition CHRPAK :: "mem \<Rightarrow> nat \<Rightarrow> nat \<Rightarrow> nat \<Rightarrow> nat \<Rightarrow> xint \<Rightarrow> mem option" where
  "CHRPAK m a a_off b b_off nchars =
     conv_fwd chrpak_elem sz_char sz_ubyte (count nchars) m
       (a + sz_char * a_off - sz_char) (b + b_off - 1)"

definition CHRUPK :: "mem \<Rightarrow> nat \<Rightarrow> nat \<Rightarrow> nat \<Rightarrow> nat \<Rightarrow> xint \<Rightarrow> mem option" where
  "CHRUPK m a a_off b b_off nchars =
     conv_bwd chrupk_elem sz_ubyte sz_char (count nchars) m
       (a + a_off - 1) (b + sz_char * b_off - sz_char)"

interpretation chrpak: element_conv chrpak_elem sz_char sz_ubyte
  by unfold_locales (simp add: chrpak_elem_def Let_def)

interpretation chrupk: element_conv chrupk_elem sz_ubyte sz_char
  by unfold_locales (simp add: chrupk_elem_def Let_def)

section \<open>What the conversions do to single elements\<close>

lemma length_1_eq: "length x = Suc 0 \<longleftrightarrow> (\<exists>b. x = [b])"
  by (auto simp: length_Suc_conv)

lemma uconv_pad: "length x \<le> l \<Longrightarrow> uconv l x = x @ replicate (l - length x) 0"
proof (induction x arbitrary: l)
  case Nil
  have "le_enc l 0 = replicate l 0"
    by (induction l) auto
  then show ?case by (simp add: uconv_def)
next
  case (Cons b x)
  then obtain l' where l: "l = Suc l'" "length x \<le> l'" by (cases l) auto
  have "le_enc (length (b # x)) (le_val (b # x)) = b # x"
    by (rule le_enc_le_val)
  then have "word_of_int (uint b + 256 * le_val x) = b"
    by simp
  moreover have "(uint b + 256 * le_val x) div 256 = le_val x"
    using uint_byte_less[of b] by (simp add: div_add1_eq)
  ultimately show ?case using Cons.IH[OF l(2)] l by (simp add: uconv_def)
qed

lemma take_le_enc: "k \<le> l \<Longrightarrow> take k (le_enc l v) = le_enc k v"
proof (induction k arbitrary: l v)
  case (Suc k)
  then show ?case by (cases l) auto
qed simp

lemma le_val_mod: "le_val bs mod 256 ^ k = le_val (take k bs)"
proof (cases "k \<le> length bs")
  case True
  have "le_enc k (le_val bs) = take k bs"
    using take_le_enc[OF True, of "le_val bs"] by (simp add: le_enc_le_val)
  then show ?thesis by (metis le_val_le_enc)
next
  case False
  then have "le_val bs < 256 ^ k"
    using le_val_less[of bs] power_increasing[of "length bs" k "256 :: int"] by linarith
  with False le_val_nonneg[of bs] show ?thesis by simp
qed

lemma sconv_narrow:
  assumes "k \<le> length x"
  shows "sconv k x = take k x"
proof -
  have "(256 :: int) ^ k dvd 256 ^ length x" using assms by (rule le_imp_power_dvd)
  then have "le_sval x mod 256 ^ k = le_val x mod 256 ^ k"
    by (metis le_sval_cong mod_mod_cancel)
  then have "le_enc k (le_sval x) = le_enc k (le_val x)"
    by (metis le_enc_mod)
  also have "\<dots> = take k x"
    using take_le_enc[OF assms, of "le_val x"] by (simp add: le_enc_le_val)
  finally show ?thesis by (simp add: sconv_def)
qed

lemma sconv_uconv: "length x = k \<Longrightarrow> k \<le> l \<Longrightarrow> sconv k (uconv l x) = x"
  by (simp add: uconv_pad sconv_narrow)

lemma chrpak_chrupk:
  assumes "length x = sz_ubyte"
  shows "chrpak_elem (chrupk_elem x) = x"
proof -
  from assms obtain b where x: "x = [b]" by (auto simp: length_1_eq)
  have b: "0 \<le> uint b" "uint b < 256" using uint_byte_less[of b] by auto
  let ?ch = "if uint b \<le> 127 then uint b else uint b - 256"
  have v: "le_val (le_enc 2 ?ch) = ?ch mod 65536"
    by (simp add: le_val_le_enc)
  have s: "le_sval (le_enc 2 ?ch) = ?ch"
  proof (cases "uint b \<le> 127")
    case True
    with b v show ?thesis by (simp add: le_sval_def Let_def)
  next
    case False
    with b have "?ch mod 65536 = uint b + 65280"
      using mod_add_self2[of "uint b - 256" 65536] by (simp add: mod_pos_pos_trivial)
    with False v show ?thesis by (simp add: le_sval_def Let_def)
  qed
  have "le_enc 1 (uint b) = [b]" using le_enc_le_val[of "[b]"] by simp
  with b show ?thesis
    by (auto simp: x chrupk_elem_def chrpak_elem_def s[simplified] Let_def)
qed

lemma uconv_pair: "k \<le> l \<Longrightarrow> conv_pair (uconv l) (sconv k) k l"
  by unfold_locales (auto simp: sconv_uconv)

interpretation bc: conv_pair "uconv sz_char" "sconv sz_ubyte" sz_ubyte sz_char
  by (rule uconv_pair) simp

interpretation bi: conv_pair "uconv sz_int" "sconv sz_ubyte" sz_ubyte sz_int
  by (rule uconv_pair) simp

interpretation uu: conv_pair "uconv sz_short" "sconv sz_ushort" sz_ushort sz_short
  by (rule uconv_pair) simp

interpretation ui: conv_pair "uconv sz_int" "sconv sz_ushort" sz_ushort sz_int
  by (rule uconv_pair) simp

interpretation chars: conv_pair chrupk_elem chrpak_elem sz_ubyte sz_char
  by unfold_locales (auto simp: chrpak_chrupk)

section \<open>Properties\<close>

text \<open>Unpacking an array of \<open>n\<close> elements in place and packing it again gives the bytes back.\<close>

definition restores ::
  "(mem \<Rightarrow> nat \<Rightarrow> nat \<Rightarrow> xint \<Rightarrow> mem option) \<Rightarrow> (mem \<Rightarrow> nat \<Rightarrow> nat \<Rightarrow> xint \<Rightarrow> mem option)
    \<Rightarrow> mem \<Rightarrow> nat \<Rightarrow> byte list \<Rightarrow> nat \<Rightarrow> bool" where
  "restores unp pk m a bs n \<longleftrightarrow>
     (case do { m1 \<leftarrow> unp m a a (word_of_nat n); pk m1 a a (word_of_nat n) } of
        Some m2 \<Rightarrow> bytes_at m2 a bs | None \<Rightarrow> False)"

lemma count_of_nat: "n < 2 ^ 31 \<Longrightarrow> count (word_of_nat n) = n"
  by (simp add: count_def sint_to_cint_small)

lemma xcount_of_nat: "n < 2 ^ 31 \<Longrightarrow> nat (sint (word_of_nat n :: xint)) = n"
  by (simp add: sint_xint_small)

lemma bytes_as_elems: "concat (map (\<lambda>b. [b]) bs) = bs" "\<forall>x \<in> set (map (\<lambda>b. [b]) bs). length x = 1"
  by (induction bs) auto

lemma restores_pair:
  assumes "conv_pair up dn k l" "\<forall>x \<in> set xs. length x = k" "bytes_at m a (concat xs)"
    and "mapped m a (l * length xs)"
    and "unp m a a (word_of_nat (length xs)) = conv_bwd up k l (length xs) m a a"
    and "\<And>m1. pk m1 a a (word_of_nat (length xs)) = conv_fwd dn l k (length xs) m1 a a"
  shows "restores unp pk m a (concat xs) (length xs)"
  using conv_pair.in_place_roundtrip[OF assms(1) _ assms(3,4)] assms(2,5,6)
  by (simp add: restores_def uconv.elems_def)

text \<open>Arrays of single bytes, as the byte unpacking routines read them.\<close>

lemma restores_bytes:
  assumes "conv_pair up dn 1 l" "bytes_at m a bs" "mapped m a (l * length bs)"
    and "unp m a a (word_of_nat (length bs)) = conv_bwd up 1 l (length bs) m a a"
    and "\<And>m1. pk m1 a a (word_of_nat (length bs)) = conv_fwd dn l 1 (length bs) m1 a a"
  shows "restores unp pk m a bs (length bs)"
proof -
  have "restores unp pk m a (concat (map (\<lambda>b. [b]) bs)) (length (map (\<lambda>b. [b]) bs))"
    using assms by (intro restores_pair[OF assms(1)]) (auto simp: bytes_as_elems)
  then show ?thesis by (simp add: bytes_as_elems)
qed

lemmas acht_unpack_defs = ACHTBC_def ACHTBS_def ACHTBI_def ACHTBL_def ACHTUS_def ACHTUI_def ACHTUL_def
lemmas acht_pack_defs = ACHTCB_def ACHTSB_def ACHTIB_def ACHTLB_def ACHTSU_def ACHTIU_def ACHTLU_def

text \<open>
  Unsigned bytes unpacked in place to 16 bit characters, to shorts, to integers or to
  longs by \<^verbatim>\<open>ACHTBx\<close> and packed again in place by \<^verbatim>\<open>ACHTxB\<close> are the original bytes.
\<close>

theorem acht_bytes_roundtrip:
  assumes "bytes_at m a bs" "mapped m a (sz_long * length bs)" "length bs < 2 ^ 31"
  shows "restores ACHTBC ACHTCB m a bs (length bs) \<and> restores ACHTBS ACHTSB m a bs (length bs)
    \<and> restores ACHTBI ACHTIB m a bs (length bs) \<and> restores ACHTBL ACHTLB m a bs (length bs)"
proof -
  have mp: "mapped m a (2 * length bs)"
    using assms(2) by (rule mapped_le) simp
  note n = count_of_nat[OF assms(3)] xcount_of_nat[OF assms(3)]
  show ?thesis
    unfolding acht_unpack_defs acht_pack_defs
    using assms(1,2) mp
    by (intro conjI restores_bytes[OF bc.conv_pair_axioms] restores_bytes[OF bi.conv_pair_axioms])
       (simp_all only: n)
qed

theorem acht_bytes_roundtrip_witness:
  "restores ACHTBC ACHTCB (memimg 0 ([200, 200, 200] @ replicate 21 0)) 0 [200, 200, 200] (length [200, 200, 200 :: byte])
    \<and> restores ACHTBS ACHTSB (memimg 0 ([200, 200, 200] @ replicate 21 0)) 0 [200, 200, 200] (length [200, 200, 200 :: byte])
    \<and> restores ACHTBI ACHTIB (memimg 0 ([200, 200, 200] @ replicate 21 0)) 0 [200, 200, 200] (length [200, 200, 200 :: byte])
    \<and> restores ACHTBL ACHTLB (memimg 0 ([200, 200, 200] @ replicate 21 0)) 0 [200, 200, 200] (length [200, 200, 200 :: byte])"
  by (rule acht_bytes_roundtrip) (simp_all add: memimg_part)

text \<open>
  Unsigned shorts unpacked in place by \<^verbatim>\<open>ACHTUx\<close> to shorts, integers or longs and
  packed again in place by \<^verbatim>\<open>ACHTxU\<close> are the original shorts.
\<close>

theorem acht_shorts_roundtrip:
  assumes "bytes_at m a (concat xs)" "\<forall>x \<in> set xs. length x = sz_ushort"
    and "mapped m a (sz_long * length xs)" "length xs < 2 ^ 31"
  shows "restores ACHTUS ACHTSU m a (concat xs) (length xs)
    \<and> restores ACHTUI ACHTIU m a (concat xs) (length xs)
    \<and> restores ACHTUL ACHTLU m a (concat xs) (length xs)"
proof -
  have mp: "mapped m a (2 * length xs)"
    using assms(3) by (rule mapped_le) simp
  note n = count_of_nat[OF assms(4)]
  show ?thesis
    using assms(1-3) mp
    by (intro conjI restores_pair[OF uu.conv_pair_axioms] restores_pair[OF ui.conv_pair_axioms])
       (simp_all add: n acht_unpack_defs acht_pack_defs)
qed

theorem acht_shorts_roundtrip_witness:
  "restores ACHTUS ACHTSU (memimg 0 ([9, 9, 9, 9] @ replicate 12 0)) 0 (concat [[9, 9], [9, 9]]) (length [[9, 9 :: byte], [9, 9]])
    \<and> restores ACHTUI ACHTIU (memimg 0 ([9, 9, 9, 9] @ replicate 12 0)) 0 (concat [[9, 9], [9, 9]]) (length [[9, 9 :: byte], [9, 9]])
    \<and> restores ACHTUL ACHTLU (memimg 0 ([9, 9, 9, 9] @ replicate 12 0)) 0 (concat [[9, 9], [9, 9]]) (length [[9, 9 :: byte], [9, 9]])"
  by (rule acht_shorts_roundtrip) (simp_all add: memimg_part)

text \<open>
  A packed character string unpacked in place by \<^verbatim>\<open>CHRUPK\<close> and packed again in place
  by \<^verbatim>\<open>CHRPAK\<close> is the original string, bytes above 127 included: the signed 16 bit
  characters they become are mapped back to the same byte.
\<close>

theorem chrupk_chrpak_roundtrip:
  assumes "bytes_at m a bs" "mapped m a (sz_char * length bs)" "length bs < 2 ^ 31"
  shows "restores (\<lambda>m a b. CHRUPK m a 1 b 1) (\<lambda>m a b. CHRPAK m a 1 b 1) m a bs (length bs)"
  using assms(1,2) count_of_nat[OF assms(3)]
  by (intro restores_bytes[OF chars.conv_pair_axioms]) (simp_all add: CHRUPK_def CHRPAK_def)

theorem chrupk_chrpak_roundtrip_witness:
  "restores (\<lambda>m a b. CHRUPK m a 1 b 1) (\<lambda>m a b. CHRPAK m a 1 b 1) (memimg 0 [65, 200, 0, 0]) 0
    [65, 200] (length [65, 200 :: byte])"
  by (rule chrupk_chrpak_roundtrip) (simp_all add: memimg_part)

end
