(* ===== verification/LibcStr.thy ===== *)
theory LibcStr
  imports CPrelude
begin

text \<open>
  The string routines of \<^verbatim>\<open>sys/libc\<close> (\<^verbatim>\<open>strlen.c\<close>, \<^verbatim>\<open>strcpy.c\<close>, \<^verbatim>\<open>strcat.c\<close>,
  \<^verbatim>\<open>strncat.c\<close>, \<^verbatim>\<open>strncpy.c\<close>, \<^verbatim>\<open>strcmp.c\<close>, \<^verbatim>\<open>strncmp.c\<close>, \<^verbatim>\<open>index.c\<close>, \<^verbatim>\<open>rindex.c\<close>), the
  character classes of \<^verbatim>\<open>ctype.c\<close> and the integer scanners \<^verbatim>\<open>atoi.c\<close> and \<^verbatim>\<open>atol.c\<close>, over
  byte memory. A loop runs as long as the memory lets it: a value \<open>Some\<close> means that
  it returned without touching an unmapped byte.
\<close>

text \<open>A \<^verbatim>\<open>char\<close> is signed; decrementing the least \<^verbatim>\<open>int\<close> is undefined.\<close>

definition cval :: "byte \<Rightarrow> int" where
  "cval c = sint c"

definition int_range :: "int \<Rightarrow> int option" where
  "int_range v = (if - (2 ^ 31) \<le> v \<and> v < 2 ^ 31 then Some v else None)"

definition long_range :: "int \<Rightarrow> int option" where
  "long_range v = (if - (2 ^ 63) \<le> v \<and> v < 2 ^ 63 then Some v else None)"

abbreviation bchar :: "char \<Rightarrow> byte" where
  "bchar c \<equiv> of_char c"

definition bstr :: "string \<Rightarrow> byte list" where
  "bstr s = map of_char s"

section \<open>Length and copies\<close>

text \<open>\<open>while (*ip++) ;\<close> leaves \<open>ip\<close> behind the terminator.\<close>

partial_function (option) skip_nul :: "mem \<Rightarrow> nat \<Rightarrow> nat option" where
  "skip_nul m ip = do {
     c \<leftarrow> m ip;
     if c \<noteq> EOS then skip_nul m (Suc ip) else Some (Suc ip) }"

definition strlen :: "mem \<Rightarrow> nat \<Rightarrow> nat option" where
  "strlen m s = do { ip \<leftarrow> skip_nul m s; Some (ip - s - 1) }"

text \<open>\<open>for ( ; (*op++ = *ip++); ) ;\<close>\<close>

partial_function (option) copy_str :: "mem \<Rightarrow> nat \<Rightarrow> nat \<Rightarrow> mem option" where
  "copy_str m ip op = do {
     c \<leftarrow> m ip;
     m' \<leftarrow> wr m op c;
     if c \<noteq> EOS then copy_str m' (Suc ip) (Suc op) else Some m' }"

definition strcpy :: "mem \<Rightarrow> nat \<Rightarrow> nat \<Rightarrow> mem option" where
  "strcpy m s1 s2 = copy_str m s2 s1"

definition strcat :: "mem \<Rightarrow> nat \<Rightarrow> nat \<Rightarrow> mem option" where
  "strcat m s1 s2 = do { op \<leftarrow> skip_nul m s1; copy_str m s2 (op - 1) }"

text \<open>\<open>for ( ; (*op++ = *ip++) && --n >= 0; ) ;\<close> returns where \<open>op\<close> has come to.\<close>

partial_function (option) copy_counted :: "mem \<Rightarrow> nat \<Rightarrow> nat \<Rightarrow> int \<Rightarrow> (mem \<times> nat) option" where
  "copy_counted m ip op n = do {
     c \<leftarrow> m ip;
     m' \<leftarrow> wr m op c;
     if c = EOS then Some (m', Suc op)
     else do {
       n' \<leftarrow> int_range (n - 1);
       if 0 \<le> n' then copy_counted m' (Suc ip) (Suc op) n' else Some (m', Suc op) } }"

definition strncat :: "mem \<Rightarrow> nat \<Rightarrow> nat \<Rightarrow> int \<Rightarrow> mem option" where
  "strncat m s1 s2 n = do {
     e \<leftarrow> skip_nul m s1;
     r \<leftarrow> copy_counted m s2 (e - 1) n;
     wr (fst r) (snd r - 1) EOS }"

text \<open>\<open>for ( ; --n >= 0 && (*op++ = *ip++); ) ;\<close> returns \<open>op\<close> and \<open>n\<close> for the padding loop.\<close>

partial_function (option) copy_upto :: "mem \<Rightarrow> nat \<Rightarrow> nat \<Rightarrow> int \<Rightarrow> (mem \<times> nat \<times> int) option" where
  "copy_upto m ip op n = do {
     n' \<leftarrow> int_range (n - 1);
     if 0 \<le> n' then do {
       c \<leftarrow> m ip;
       m' \<leftarrow> wr m op c;
       if c \<noteq> EOS then copy_upto m' (Suc ip) (Suc op) n' else Some (m', Suc op, n') }
     else Some (m, op, n') }"

text \<open>\<open>while (--n >= 0) *op++ = EOS;\<close>\<close>

partial_function (option) pad_nul :: "mem \<Rightarrow> nat \<Rightarrow> int \<Rightarrow> mem option" where
  "pad_nul m op n = do {
     n' \<leftarrow> int_range (n - 1);
     if 0 \<le> n' then do { m' \<leftarrow> wr m op EOS; pad_nul m' (Suc op) n' } else Some m }"

definition strncpy :: "mem \<Rightarrow> nat \<Rightarrow> nat \<Rightarrow> int \<Rightarrow> mem option" where
  "strncpy m s1 s2 n = do {
     (m', op, n') \<leftarrow> copy_upto m s2 s1 n;
     pad_nul m' op n' }"

text \<open>\<^verbatim>\<open>strdup\<close>: the block that \<^verbatim>\<open>calloc\<close> returned is the argument \<open>out\<close>.\<close>

definition strdup :: "mem \<Rightarrow> nat \<Rightarrow> nat \<Rightarrow> mem option" where
  "strdup m out str = do {
     len \<leftarrow> strlen m str;
     n \<leftarrow> strlen m str;
     copy_str (blit m out (replicate (n + 1) EOS)) str out }"

section \<open>Comparison and search\<close>

text \<open>The two strings may lie in different memories: that is how a literal is passed.\<close>

partial_function (option) strcmp :: "mem \<Rightarrow> nat \<Rightarrow> mem \<Rightarrow> nat \<Rightarrow> int option" where
  "strcmp m s1 m2 s2 = do {
     a \<leftarrow> m s1;
     b \<leftarrow> m2 s2;
     if a = b then if a = EOS then Some 0 else strcmp m (Suc s1) m2 (Suc s2)
     else Some (cval a - cval b) }"

partial_function (option) strncmp :: "mem \<Rightarrow> nat \<Rightarrow> mem \<Rightarrow> nat \<Rightarrow> int \<Rightarrow> int option" where
  "strncmp m s1 m2 s2 n = do {
     n' \<leftarrow> int_range (n - 1);
     if n' < 0 then Some 0
     else do {
       a \<leftarrow> m s1;
       b \<leftarrow> m2 s2;
       if a = b then if a = EOS then Some 0 else strncmp m (Suc s1) m2 (Suc s2) n'
       else Some (cval a - cval b) } }"

text \<open>A search returns the address of the match, or \<open>None\<close> inside \<open>Some\<close> for \<^verbatim>\<open>NULL\<close>.\<close>

partial_function (option) index_loop :: "mem \<Rightarrow> nat \<Rightarrow> int \<Rightarrow> nat option option" where
  "index_loop m ip ch = do {
     c \<leftarrow> m ip;
     if cval c = ch then Some (Some ip)
     else if c \<noteq> EOS then index_loop m (Suc ip) ch
     else Some None }"

definition index :: "mem \<Rightarrow> nat \<Rightarrow> int \<Rightarrow> nat option option" where
  "index m str ch = index_loop m str ch"

partial_function (option) rindex_loop ::
  "mem \<Rightarrow> nat \<Rightarrow> int \<Rightarrow> nat option \<Rightarrow> nat option option" where
  "rindex_loop m ip ch lst = do {
     c \<leftarrow> m ip;
     let lst' = (if cval c = ch then Some ip else lst);
     if c \<noteq> EOS then rindex_loop m (Suc ip) ch lst' else Some lst' }"

definition rindex :: "mem \<Rightarrow> nat \<Rightarrow> int \<Rightarrow> nat option option" where
  "rindex m str ch = rindex_loop m str ch None"

section \<open>Character classes\<close>

definition cU :: nat where "cU = 1"
definition cL :: nat where "cL = 2"
definition cN :: nat where "cN = 4"
definition cS :: nat where "cS = 8"
definition cP :: nat where "cP = 16"
definition cC :: nat where "cC = 32"
definition cX :: nat where "cX = 64"

definition u_ctype :: "nat list" where
  "u_ctype = [0,
     cC, cC, cC, cC, cC, cC, cC, cC,
     cC, cS, cS, cS, cS, cS, cC, cC,
     cC, cC, cC, cC, cC, cC, cC, cC,
     cC, cC, cC, cC, cC, cC, cC, cC,
     cS, cP, cP, cP, cP, cP, cP, cP,
     cP, cP, cP, cP, cP, cP, cP, cP,
     cN, cN, cN, cN, cN, cN, cN, cN,
     cN, cN, cP, cP, cP, cP, cP, cP,
     cP, cU + cX, cU + cX, cU + cX, cU + cX, cU + cX, cU + cX, cU,
     cU, cU, cU, cU, cU, cU, cU, cU,
     cU, cU, cU, cU, cU, cU, cU, cU,
     cU, cU, cU, cP, cP, cP, cP, cP,
     cP, cL + cX, cL + cX, cL + cX, cL + cX, cL + cX, cL + cX, cL,
     cL, cL, cL, cL, cL, cL, cL, cL,
     cL, cL, cL, cL, cL, cL, cL, cL,
     cL, cL, cL, cP, cP, cP, cP, cC]"

text \<open>
  \<open>(u_ctype_+1)[(unsigned int)c]\<close>: a negative character becomes an index near \<open>2 ^ 32\<close>,
  which is outside the table in a 64 bit address space.
\<close>

definition ctype_of :: "int \<Rightarrow> nat option" where
  "ctype_of c = (let i = nat (c mod 2 ^ 32) in
     if Suc i < length u_ctype then Some (u_ctype ! Suc i) else None)"

definition has_class :: "nat \<Rightarrow> int \<Rightarrow> bool option" where
  "has_class k c = do { v \<leftarrow> ctype_of c; Some (and v k \<noteq> 0) }"

definition isspace :: "int \<Rightarrow> bool option" where "isspace = has_class cS"
definition isdigit :: "int \<Rightarrow> bool option" where "isdigit = has_class cN"
definition isalnum :: "int \<Rightarrow> bool option" where "isalnum = has_class (cU + cL + cN)"

section \<open>Integer scanners\<close>

partial_function (option) skip_space :: "mem \<Rightarrow> nat \<Rightarrow> nat option" where
  "skip_space m ip = do {
     c \<leftarrow> m ip;
     sp \<leftarrow> isspace (cval c);
     if sp then skip_space m (Suc ip) else Some ip }"

text \<open>\<open>while (isdigit (ch = *ip++)) val = val * 10 + tointeg(ch);\<close> in the range \<open>rg\<close>.\<close>

partial_function (option) digits_loop ::
  "(int \<Rightarrow> int option) \<Rightarrow> mem \<Rightarrow> nat \<Rightarrow> int \<Rightarrow> int option" where
  "digits_loop rg m ip val = do {
     c \<leftarrow> m ip;
     d \<leftarrow> isdigit (cval c);
     if d then do {
       v \<leftarrow> rg (val * 10);
       v' \<leftarrow> rg (v + (cval c - 48));
       digits_loop rg m (Suc ip) v' }
     else Some val }"

definition INDEFL :: int where "INDEFL = 0x80000001"
definition INDEFI :: int where "INDEFI = INDEFL - 2 ^ 32"

text \<open>
  The test for \<^verbatim>\<open>INDEF\<close>. Its last step assigns to \<open>ch\<close> the character behind the word,
  which is the character the sign test looks at next.
\<close>

definition indef_test :: "mem \<Rightarrow> nat \<Rightarrow> int \<Rightarrow> (bool \<times> int) option" where
  "indef_test m ip ch =
     (if ch = 73 then do {
        r \<leftarrow> strncmp m ip (memimg 0 (bstr ''INDEF'' @ [EOS])) 0 5;
        if r = 0 then do {
          c \<leftarrow> m (ip + 5);
          al \<leftarrow> isalnum (cval c);
          Some (\<not> (al \<or> cval c = 95), cval c) }
        else Some (False, ch) }
      else Some (False, ch))"

text \<open>The common tail of both scanners: sign, digits, and the negated result.\<close>

definition signed_digits :: "(int \<Rightarrow> int option) \<Rightarrow> mem \<Rightarrow> nat \<Rightarrow> int \<Rightarrow> int option" where
  "signed_digits rg m ip ch =
     (let neg = (ch = 45);
          ip' = (if ch = 45 \<or> ch = 43 then Suc ip else ip)
      in do {
        v \<leftarrow> digits_loop rg m ip' 0;
        if neg then rg (- v) else Some v })"

definition atoi :: "mem \<Rightarrow> nat \<Rightarrow> int option" where
  "atoi m str = do {
     c \<leftarrow> m str;
     if c = EOS then Some 0
     else do {
       ip \<leftarrow> skip_space m str;
       c \<leftarrow> m ip;
       (indef, ch) \<leftarrow> indef_test m ip (cval c);
       if indef then Some INDEFI else signed_digits int_range m ip ch } }"

text \<open>\<^verbatim>\<open>atol\<close> steps back by one character before it looks at the sign.\<close>

definition atol :: "mem \<Rightarrow> nat \<Rightarrow> int option" where
  "atol m str = do {
     c \<leftarrow> m str;
     if c = EOS then Some 0
     else do {
       ip \<leftarrow> skip_space m str;
       if ip = 0 then None
       else do {
         c \<leftarrow> m (ip - 1);
         (indef, ch) \<leftarrow> indef_test m (ip - 1) (cval c);
         if indef then Some INDEFL else signed_digits long_range m (ip - 1) ch } } }"

section \<open>What the loops do on strings\<close>

declare skip_nul.simps [cloop] copy_str.simps [cloop] strcmp.simps [cloop] index_loop.simps [cloop]
  rindex_loop.simps [cloop] copy_counted.simps [cloop] copy_upto.simps [cloop] pad_nul.simps [cloop]
  strncmp.simps [cloop] skip_space.simps [cloop] digits_loop.simps [cloop]

lemma str_at_length: "str_at m p s \<Longrightarrow> mapped m p (Suc (length s))"
  using bytes_at_mapped[of m p "s @ [EOS]"] by (simp add: str_at_def)

lemma skip_nul_str: "str_at m p s \<Longrightarrow> skip_nul m p = Some (Suc (p + length s))"
proof (induction s arbitrary: p)
  case Nil
  then show ?case by (subst skip_nul.simps) (simp add: str_at_simps)
next
  case (Cons c s)
  then show ?case by (subst skip_nul.simps) (simp add: str_at_simps)
qed

lemma strlen_str: "str_at m p s \<Longrightarrow> strlen m p = Some (length s)"
  by (simp add: strlen_def skip_nul_str)

lemma str_at_upd: "str_at m q s \<Longrightarrow> p < q \<or> q + length s < p \<Longrightarrow> str_at (m(p \<mapsto> v)) q s"
  by (auto simp: str_at_def intro!: bytes_at_upd)

lemma str_at_blit: "EOS \<notin> set s \<Longrightarrow> str_at (blit m p (s @ [EOS])) p s"
  by (simp add: str_at_def)

lemma str_at_blit_disjoint:
  "str_at m q s \<Longrightarrow> disjoint q (Suc (length s)) p (length bs) \<Longrightarrow> str_at (blit m p bs) q s"
  by (auto simp: str_at_def intro!: bytes_at_blit_disjoint)

lemma copy_str_blit:
  assumes "str_at m ip s" "mapped m op (Suc (length s))" "op \<le> ip \<or> ip + length s < op"
  shows "copy_str m ip op = Some (blit m op (s @ [EOS]))"
  using assms
proof (induction s arbitrary: m ip op)
  case Nil
  then show ?case
    by (subst copy_str.simps) (auto simp: str_at_simps mapped_Suc wr_mapped blit_single)
next
  case (Cons c s)
  let ?m = "m(op \<mapsto> c)"
  have "copy_str ?m (Suc ip) (Suc op) = Some (blit ?m (Suc op) (s @ [EOS]))"
    using Cons.prems by (intro Cons.IH str_at_upd mapped_upd) (auto simp: str_at_simps mapped_Suc)
  with Cons.prems show ?case
    by (subst copy_str.simps) (auto simp: str_at_simps mapped_Suc wr_mapped blit_Cons)
qed

lemma int_range_dec: "0 \<le> n \<Longrightarrow> n < 2 ^ 31 \<Longrightarrow> int_range (n - 1) = Some (n - 1)"
  by (simp add: int_range_def)

lemma copy_counted_blit:
  assumes "str_at m ip s" "mapped m op (Suc (min (length s) n))" "op \<le> ip \<or> ip + length s < op" "n < 2 ^ 31"
  shows "\<exists>c. copy_counted m ip op (int n)
    = Some (blit m op (take n s @ [c]), Suc (op + min (length s) n))"
  using assms
proof (induction s arbitrary: m ip op n)
  case Nil
  then show ?case
    by (subst copy_counted.simps) (auto simp: str_at_simps mapped_Suc wr_mapped blit_single)
next
  case (Cons c s)
  have wr: "m ip = Some c" "c \<noteq> EOS" "wr m op c = Some (m(op \<mapsto> c))"
    using Cons.prems by (auto simp: str_at_simps mapped_Suc wr_mapped)
  show ?case
  proof (cases n)
    case 0
    then have "copy_counted m ip op (int n) = Some (blit m op (take n (c # s) @ [c]), Suc (op + min (length (c # s)) n))"
      using wr by (subst copy_counted.simps) (simp add: int_range_def blit_single)
    then show ?thesis by blast
  next
    case (Suc k)
    have "str_at (m(op \<mapsto> c)) (Suc ip) s" "mapped (m(op \<mapsto> c)) (Suc op) (Suc (min (length s) k))"
      using Cons.prems Suc by (auto simp: str_at_simps mapped_Suc[of m op] intro!: str_at_upd mapped_upd)
    moreover have "Suc op \<le> Suc ip \<or> Suc ip + length s < Suc op" "k < 2 ^ 31"
      using Cons.prems Suc by auto
    ultimately obtain d where "copy_counted (m(op \<mapsto> c)) (Suc ip) (Suc op) (int k)
        = Some (blit (m(op \<mapsto> c)) (Suc op) (take k s @ [d]), Suc (Suc op + min (length s) k))"
      using Cons.IH by blast
    moreover have "int_range (int n - 1) = Some (int k)"
      using Suc Cons.prems(4) by (simp add: int_range_def)
    ultimately have "copy_counted m ip op (int n)
        = Some (blit m op (take n (c # s) @ [d]), Suc (op + min (length (c # s)) n))"
      using wr Suc by (subst copy_counted.simps) (simp add: blit_Cons)
    then show ?thesis by blast
  qed
qed

lemma pad_nul_blit:
  "mapped m op n \<Longrightarrow> n < 2 ^ 31 \<Longrightarrow> pad_nul m op (int n) = Some (blit m op (replicate n EOS))"
proof (induction n arbitrary: m op)
  case 0
  then show ?case by (subst pad_nul.simps) (simp add: int_range_def)
next
  case (Suc n)
  then have "pad_nul (m(op \<mapsto> EOS)) (Suc op) (int n) = Some (blit (m(op \<mapsto> EOS)) (Suc op) (replicate n EOS))"
    by (intro Suc.IH mapped_upd) (auto simp: mapped_Suc)
  moreover have "int_range (int (Suc n) - 1) = Some (int n)"
    using Suc.prems by (simp add: int_range_def)
  moreover have "wr m op EOS = Some (m(op \<mapsto> EOS))"
    using Suc.prems by (auto simp: mapped_Suc wr_mapped)
  ultimately show ?case
    by (subst pad_nul.simps) (simp add: blit_Cons)
qed

lemma copy_upto_blit:
  assumes "str_at m ip s" "mapped m op (min (Suc (length s)) n)" "op \<le> ip \<or> ip + length s < op" "n < 2 ^ 31"
  shows "copy_upto m ip op (int n)
    = Some (blit m op (take n (s @ [EOS])), op + min (Suc (length s)) n,
        if n \<le> length s then -1 else int (n - Suc (length s)))"
  using assms
proof (induction s arbitrary: m ip op n)
  case Nil
  show ?case
  proof (cases n)
    case 0
    then show ?thesis by (subst copy_upto.simps) (simp add: int_range_def)
  next
    case (Suc k)
    have "wr m op EOS = Some (m(op \<mapsto> EOS))" "m ip = Some EOS"
      using Nil Suc by (auto simp: mapped_Suc wr_mapped str_at_simps)
    moreover have "int_range (int n - 1) = Some (int k)"
      using Suc Nil.prems(4) by (simp add: int_range_def)
    ultimately show ?thesis
      using Suc by (subst copy_upto.simps) (simp add: blit_single)
  qed
next
  case (Cons c s)
  show ?case
  proof (cases n)
    case 0
    then show ?thesis by (subst copy_upto.simps) (simp add: int_range_def)
  next
    case (Suc k)
    have wr: "m ip = Some c" "c \<noteq> EOS" "wr m op c = Some (m(op \<mapsto> c))"
      using Cons.prems Suc by (auto simp: str_at_simps mapped_Suc wr_mapped)
    have "str_at (m(op \<mapsto> c)) (Suc ip) s" "mapped (m(op \<mapsto> c)) (Suc op) (min (Suc (length s)) k)"
      using Cons.prems Suc by (auto simp: str_at_simps mapped_Suc[of m op] intro!: str_at_upd mapped_upd)
    moreover have "Suc op \<le> Suc ip \<or> Suc ip + length s < Suc op" "k < 2 ^ 31"
      using Cons.prems Suc by auto
    ultimately have "copy_upto (m(op \<mapsto> c)) (Suc ip) (Suc op) (int k)
      = Some (blit (m(op \<mapsto> c)) (Suc op) (take k (s @ [EOS])), Suc op + min (Suc (length s)) k,
          if k \<le> length s then -1 else int (k - Suc (length s)))"
      using Cons.IH by blast
    moreover have "int_range (int n - 1) = Some (int k)"
      using Suc Cons.prems(4) by (simp add: int_range_def)
    ultimately show ?thesis
      using wr Suc by (subst copy_upto.simps) (simp add: blit_Cons)
  qed
qed

section \<open>Properties of the string routines\<close>

lemma append_at:
  assumes "bytes_at m p s" "EOS \<notin> set s" "EOS \<notin> set t"
  shows "str_at (blit m (p + length s) (t @ [EOS])) p (s @ t)"
proof -
  have "bytes_at (blit m (p + length s) (t @ [EOS])) p s"
    using assms(1) by (intro bytes_at_blit_disjoint) (auto simp: disjoint_def)
  then show ?thesis
    using assms bytes_at_blit_same[of m "p + length s" "t @ [EOS]"]
    by (auto simp: str_at_def bytes_at_append)
qed

lemma append_at_str: "str_at m p s \<Longrightarrow> EOS \<notin> set t \<Longrightarrow> str_at (blit m (p + length s) (t @ [EOS])) p (s @ t)"
  by (rule append_at) (auto simp: str_at_def bytes_at_append)

text \<open>
  \<^verbatim>\<open>strcat\<close> appends: with room behind the first string and the second string not in
  that room, the only bytes written are those of the second string and its terminator,
  and the first address then holds the concatenation.
\<close>

theorem strcat_appends:
  assumes "str_at m p s" "str_at m q t" "mapped m (p + length s) (Suc (length t))"
    and "q + length t < p + length s \<or> p + length s + length t < q"
  shows "strcat m p q = Some (blit m (p + length s) (t @ [EOS]))
    \<and> str_at (blit m (p + length s) (t @ [EOS])) p (s @ t)"
proof
  have "p + length s \<le> q \<or> q + length t < p + length s" using assms(4) by linarith
  then show "strcat m p q = Some (blit m (p + length s) (t @ [EOS]))"
    using assms by (simp add: strcat_def skip_nul_str copy_str_blit)
  show "str_at (blit m (p + length s) (t @ [EOS])) p (s @ t)"
    using assms(1,2) by (intro append_at_str) (auto simp: str_at_def)
qed

theorem strcat_appends_witness:
  "strcat (memimg 0 [65, 0, 0, 0, 66, 67, 0]) 0 4
     = Some (blit (memimg 0 [65, 0, 0, 0, 66, 67, 0]) (0 + length [65 :: byte]) ([66, 67] @ [EOS]))
   \<and> str_at (blit (memimg 0 [65, 0, 0, 0, 66, 67, 0]) (0 + length [65 :: byte]) ([66, 67] @ [EOS])) 0 ([65] @ [66, 67])"
  by (rule strcat_appends) (simp_all add: str_at_def memimg_part)

text \<open>
  \<^verbatim>\<open>strncat\<close> appends at most \<open>n\<close> characters and always terminates the result.
\<close>

theorem strncat_appends:
  assumes "str_at m p s" "str_at m q t" "mapped m (p + length s) (Suc (length t))"
    and "q + length t < p + length s \<or> p + length s + length t < q" "n < 2 ^ 31"
  shows "strncat m p q (int n) = Some (blit m (p + length s) (take n t @ [EOS]))
    \<and> str_at (blit m (p + length s) (take n t @ [EOS])) p (s @ take n t)"
proof
  have d: "p + length s \<le> q \<or> q + length t < p + length s" using assms(4) by linarith
  have mp: "mapped m (p + length s) (Suc (min (length t) n))"
    using assms(3) by (rule mapped_le) simp
  then obtain c where c: "copy_counted m q (p + length s) (int n)
      = Some (blit m (p + length s) (take n t @ [c]), Suc (p + length s + min (length t) n))"
    using copy_counted_blit[OF assms(2) mp d assms(5)] by blast
  have "blit m (p + length s) (take n t @ [c]) (p + length s + min (length t) n) \<noteq> None"
    by (simp add: blit_snoc)
  then have "wr (blit m (p + length s) (take n t @ [c])) (p + length s + min (length t) n) EOS
      = Some (blit m (p + length s) (take n t @ [EOS]))"
    by (simp add: wr_mapped blit_snoc)
  then show "strncat m p q (int n) = Some (blit m (p + length s) (take n t @ [EOS]))"
    using assms(1) c by (simp add: strncat_def skip_nul_str)
  show "str_at (blit m (p + length s) (take n t @ [EOS])) p (s @ take n t)"
    using assms(1,2) by (intro append_at_str) (auto simp: str_at_def dest: in_set_takeD)
qed

theorem strncat_appends_witness:
  "strncat (memimg 0 [65, 0, 0, 0, 66, 67, 0]) 0 4 (int 1)
     = Some (blit (memimg 0 [65, 0, 0, 0, 66, 67, 0]) (0 + length [65 :: byte]) (take 1 [66, 67] @ [EOS]))
   \<and> str_at (blit (memimg 0 [65, 0, 0, 0, 66, 67, 0]) (0 + length [65 :: byte]) (take 1 [66, 67] @ [EOS])) 0
       ([65] @ take 1 [66, 67])"
  by (rule strncat_appends) (simp_all add: str_at_def memimg_part)

text \<open>
  \<^verbatim>\<open>strncpy\<close> writes exactly \<open>n\<close> bytes: the string cut off or padded with NULs.
\<close>

theorem strncpy_pads:
  assumes "str_at m q t" "mapped m p n" "p \<le> q \<or> q + length t < p" "n < 2 ^ 31"
  shows "strncpy m p q (int n) = Some (blit m p (take n (t @ replicate n EOS)))"
proof -
  have mp: "mapped m p (min (Suc (length t)) n)"
    using assms(2) by (rule mapped_le) simp
  note c = copy_upto_blit[OF assms(1) mp assms(3,4)]
  show ?thesis
  proof (cases "n \<le> length t")
    case True
    then have "pad_nul m' op (-1) = Some m'" for m' op
      by (subst pad_nul.simps) (simp add: int_range_def)
    with c True show ?thesis by (simp add: strncpy_def)
  next
    case False
    let ?k = "n - Suc (length t)"
    have n: "n = Suc (length t) + ?k" using False by simp
    then have "mapped m (p + Suc (length t)) ?k"
      using assms(2) mapped_add[of m p "Suc (length t)" ?k] by simp
    then have "pad_nul (blit m p (t @ [EOS])) (p + Suc (length t)) (int ?k)
        = Some (blit (blit m p (t @ [EOS])) (p + Suc (length t)) (replicate ?k EOS))"
      using assms(4) by (intro pad_nul_blit mapped_blit) auto
    also have "blit (blit m p (t @ [EOS])) (p + Suc (length t)) (replicate ?k EOS)
        = blit m p ((t @ [EOS]) @ replicate ?k EOS)"
      by (simp only: blit_append[of m p "t @ [EOS]"]) simp
    also have "(t @ [EOS]) @ replicate ?k EOS = take n (t @ replicate n EOS)"
      using False by (simp add: Suc_diff_Suc flip: replicate_Suc)
    finally show ?thesis using c False by (simp add: strncpy_def)
  qed
qed

theorem strncpy_pads_witness:
  "strncpy (memimg 0 [9, 9, 9, 65, 0]) 0 3 (int 3)
     = Some (blit (memimg 0 [9, 9, 9, 65, 0]) 0 (take 3 ([65] @ replicate 3 EOS)))"
  by (rule strncpy_pads) (simp_all add: str_at_def memimg_part)

section \<open>Properties of comparison and search\<close>

lemma cval_eq [simp]: "cval a = cval b \<longleftrightarrow> a = b"
  by (auto simp: cval_def intro: signed_word_eqI)

lemma cval_EOS [simp]: "cval EOS = 0"
  by (simp add: cval_def)

lemma cval_eq_0 [simp]: "cval a = 0 \<longleftrightarrow> a = EOS"
  using cval_eq[of a EOS] by (simp del: cval_eq)

lemma cval_pos: "a \<noteq> EOS \<Longrightarrow> \<not> cval a < 0 \<Longrightarrow> 0 < cval a"
  using cval_eq_0[of a] by linarith

text \<open>The characters a comparison looks at, terminator included, as signed values.\<close>

definition cvals :: "byte list \<Rightarrow> int list" where
  "cvals s = map cval (s @ [EOS])"

lemma cvals_simps [simp]: "cvals [] = [0]" "cvals (c # s) = cval c # cvals s"
  by (simp_all add: cvals_def)

lemma strncmp_lex:
  assumes "str_at m p s" "str_at m2 q t" "n < 2 ^ 31"
  shows "\<exists>r. strncmp m p m2 q (int n) = Some r \<and> (r = 0 \<longleftrightarrow> take n s = take n t)
    \<and> (r < 0 \<longleftrightarrow> ord_class.lexordp (take n (cvals s)) (take n (cvals t)))"
  using assms
proof (induction s arbitrary: p q t n)
  case Nil
  then show ?case
    by (cases n; cases t) (subst strncmp.simps; auto simp: str_at_simps int_range_def dest: cval_pos)+
next
  case (Cons a s)
  show ?case
  proof (cases n)
    case 0
    then show ?thesis by (subst strncmp.simps) (simp add: int_range_def)
  next
    case (Suc k)
    then have k: "int_range (int n - 1) = Some (int k)" "k < 2 ^ 31"
      using Cons.prems(3) by (simp_all add: int_range_def)
    show ?thesis
    proof (cases t)
      case Nil
      with Cons.prems k Suc show ?thesis by (subst strncmp.simps) (auto simp: str_at_simps)
    next
      case (Cons b t')
      with Cons.prems have at: "str_at m (Suc p) s" "str_at m2 (Suc q) t'" "m p = Some a" "m2 q = Some b"
        "a \<noteq> EOS" "b \<noteq> EOS" by (auto simp: str_at_simps)
      show ?thesis
      proof (cases "a = b")
        case True
        with at k Suc Cons Cons.IH[OF at(1,2) k(2)] show ?thesis by (subst strncmp.simps) auto
      next
        case False
        then have "cval a < cval b \<or> cval b < cval a" using cval_eq[of a b] by linarith
        with at k Suc Cons False show ?thesis by (subst strncmp.simps) auto
      qed
    qed
  qed
qed

text \<open>
  \<^verbatim>\<open>strcmp\<close> of two strings returns zero exactly when they are equal and a negative
  number exactly when the first precedes the second lexicographically in the order of
  signed characters, the terminator taking part as zero.
\<close>

theorem strcmp_lexicographic:
  assumes "str_at m p s" "str_at m2 q t"
  shows "\<exists>r. strcmp m p m2 q = Some r \<and> (r = 0 \<longleftrightarrow> s = t) \<and> (r < 0 \<longleftrightarrow> ord_class.lexordp (cvals s) (cvals t))"
  using assms
proof (induction s arbitrary: p q t)
  case Nil
  then show ?case
    by (cases t) (subst strcmp.simps; auto simp: str_at_simps dest: cval_pos)+
next
  case (Cons a s)
  show ?case
  proof (cases t)
    case Nil
    with Cons.prems show ?thesis by (subst strcmp.simps) (auto simp: str_at_simps)
  next
    case (Cons b t')
    with Cons.prems have at: "str_at m (Suc p) s" "str_at m2 (Suc q) t'" "m p = Some a" "m2 q = Some b"
      "a \<noteq> EOS" "b \<noteq> EOS" by (auto simp: str_at_simps)
    show ?thesis
    proof (cases "a = b")
      case True
      with at Cons Cons.IH[OF at(1,2)] show ?thesis by (subst strcmp.simps) auto
    next
      case False
      then have "cval a < cval b \<or> cval b < cval a" using cval_eq[of a b] by linarith
      with at Cons False show ?thesis by (subst strcmp.simps) auto
    qed
  qed
qed

theorem strcmp_lexicographic_witness:
  "\<exists>r. strcmp (memimg 0 [65, 66, 0]) 0 (memimg 0 [65, 200, 0]) 0 = Some r
     \<and> (r = 0 \<longleftrightarrow> [65, 66 :: byte] = [65, 200]) \<and> (r < 0 \<longleftrightarrow> ord_class.lexordp (cvals [65, 66]) (cvals [65, 200]))"
  by (rule strcmp_lexicographic) (simp_all add: str_at_def memimg_part)

lemma index_loop_str:
  "str_at m p s \<Longrightarrow> index_loop m p (cval c)
    = Some (if c \<in> set (s @ [EOS]) then Some (p + length (takeWhile (\<lambda>x. x \<noteq> c) s)) else None)"
proof (induction s arbitrary: p)
  case Nil
  then show ?case by (subst index_loop.simps) (auto simp: str_at_simps)
next
  case (Cons a s)
  then show ?case by (subst index_loop.simps) (auto simp: str_at_simps)
qed

lemma rindex_loop_str:
  "str_at m p s \<Longrightarrow> rindex_loop m p (cval c) lst
    = Some (if c = EOS then Some (p + length s)
        else if c \<in> set s then Some (p + length s - 1 - length (takeWhile (\<lambda>x. x \<noteq> c) (rev s))) else lst)"
proof (induction s arbitrary: p lst)
  case Nil
  then show ?case by (subst rindex_loop.simps) (auto simp: str_at_simps)
next
  case (Cons a s)
  have tw: "length (takeWhile (\<lambda>x. x \<noteq> c) (rev s @ [a]))
      = (if c \<in> set s then length (takeWhile (\<lambda>x. x \<noteq> c) (rev s)) else if a = c then length s else Suc (length s))"
    by (auto simp: takeWhile_append takeWhile_eq_all_conv[THEN iffD2])
  from Cons show ?case
    by (subst rindex_loop.simps) (auto simp: str_at_simps tw Let_def)
qed

text \<open>
  \<^verbatim>\<open>index\<close> and \<^verbatim>\<open>rindex\<close> of a character of a string return the addresses of its first
  and of its last occurrence, \<^verbatim>\<open>NULL\<close> if it does not occur; the terminator counts as a
  character of the string.
\<close>

theorem index_rindex_spec:
  assumes "str_at m p s"
  shows "index m p (cval c) = Some (if c \<in> set (s @ [EOS])
      then Some (p + length (takeWhile (\<lambda>x. x \<noteq> c) (s @ [EOS]))) else None)
    \<and> rindex m p (cval c) = Some (if c \<in> set (s @ [EOS])
      then Some (p + length s - length (takeWhile (\<lambda>x. x \<noteq> c) (rev (s @ [EOS])))) else None)"
proof -
  have no: "EOS \<notin> set s" using assms by (simp add: str_at_def)
  then have all: "takeWhile (\<lambda>x. x \<noteq> EOS) s = s"
    by (auto simp: takeWhile_eq_all_conv)
  have "length (takeWhile (\<lambda>x. x \<noteq> c) (s @ [EOS])) = length (takeWhile (\<lambda>x. x \<noteq> c) s)"
    if "c \<in> set (s @ [EOS])"
    using that no by (cases "c = EOS") (auto simp: takeWhile_append all)
  with no all show ?thesis
    using assms by (simp add: index_def rindex_def index_loop_str rindex_loop_str)
qed

theorem index_rindex_spec_witness:
  "index (memimg 3 [65, 66, 65, 0]) 3 (cval 65) = Some (if (65 :: byte) \<in> set ([65, 66, 65] @ [EOS])
      then Some (3 + length (takeWhile (\<lambda>x. x \<noteq> 65) ([65, 66, 65] @ [EOS]))) else None)
    \<and> rindex (memimg 3 [65, 66, 65, 0]) 3 (cval 65) = Some (if (65 :: byte) \<in> set ([65, 66, 65] @ [EOS])
      then Some (3 + length [65, 66, 65 :: byte]
        - length (takeWhile (\<lambda>x. x \<noteq> 65) (rev ([65, 66, 65] @ [EOS])))) else None)"
  by (rule index_rindex_spec) (simp add: str_at_def memimg_part)

section \<open>Properties of the integer scanners\<close>

definition is_digit :: "byte \<Rightarrow> bool" where
  "is_digit c \<longleftrightarrow> 48 \<le> cval c \<and> cval c \<le> 57"

definition is_space :: "byte \<Rightarrow> bool" where
  "is_space c \<longleftrightarrow> 9 \<le> cval c \<and> cval c \<le> 13 \<or> cval c = 32"

definition is_ascii :: "byte \<Rightarrow> bool" where
  "is_ascii c \<longleftrightarrow> 0 \<le> cval c"

lemma cval_range: "- 128 \<le> cval c" "cval c < 128"
  using sint_range_size[of c] by (simp_all add: cval_def word_size)

lemma ctype_table:
  "\<forall>i < 128. and (u_ctype ! Suc i) cS \<noteq> 0 \<longleftrightarrow> 9 \<le> i \<and> i \<le> 13 \<or> i = 32"
  "\<forall>i < 128. and (u_ctype ! Suc i) cN \<noteq> 0 \<longleftrightarrow> 48 \<le> i \<and> i \<le> 57"
  by code_simp+

lemma ctype_ascii: "is_ascii c \<Longrightarrow> ctype_of (cval c) = Some (u_ctype ! Suc (nat (cval c)))"
proof -
  assume "is_ascii c"
  then have "cval c mod 2 ^ 32 = cval c" "nat (cval c) < 128"
    using cval_range[of c] by (simp_all add: is_ascii_def)
  moreover have "length u_ctype = 129" by (simp add: u_ctype_def)
  ultimately show ?thesis by (simp add: ctype_of_def Let_def)
qed

lemma isspace_ascii: "is_ascii c \<Longrightarrow> isspace (cval c) = Some (is_space c)"
  using ctype_table(1)[rule_format, of "nat (cval c)"] cval_range[of c]
  by (auto simp: isspace_def has_class_def ctype_ascii is_space_def is_ascii_def)

lemma isdigit_ascii: "is_ascii c \<Longrightarrow> isdigit (cval c) = Some (is_digit c)"
  using ctype_table(2)[rule_format, of "nat (cval c)"] cval_range[of c]
  by (auto simp: isdigit_def has_class_def ctype_ascii is_digit_def is_ascii_def)

lemma digit_space_ascii: "is_digit c \<Longrightarrow> is_ascii c" "is_space c \<Longrightarrow> is_ascii c"
  by (auto simp: is_digit_def is_space_def is_ascii_def)

lemma skip_space_at:
  "bytes_at m p (ws @ [c]) \<Longrightarrow> list_all is_space ws \<Longrightarrow> is_ascii c \<Longrightarrow> \<not> is_space c
    \<Longrightarrow> skip_space m p = Some (p + length ws)"
proof (induction ws arbitrary: p)
  case Nil
  then show ?case by (subst skip_space.simps) (simp add: bytes_at_Cons isspace_ascii)
next
  case (Cons w ws)
  then show ?case by (subst skip_space.simps) (simp add: bytes_at_Cons isspace_ascii digit_space_ascii)
qed

text \<open>The value of a digit string, from the number \<open>v\<close> read before it.\<close>

definition dec_value :: "int \<Rightarrow> byte list \<Rightarrow> int" where
  "dec_value v ds = foldl (\<lambda>v c. v * 10 + (cval c - 48)) v ds"

lemma dec_value_Cons: "dec_value v (c # ds) = dec_value (v * 10 + (cval c - 48)) ds"
  by (simp add: dec_value_def)

lemma dec_value_mono: "list_all is_digit ds \<Longrightarrow> 0 \<le> v \<Longrightarrow> v \<le> dec_value v ds"
proof (induction ds arbitrary: v)
  case (Cons c ds)
  then have "v \<le> v * 10 + (cval c - 48)" by (simp add: is_digit_def)
  also have "\<dots> \<le> dec_value (v * 10 + (cval c - 48)) ds"
    using Cons by (intro Cons.IH) (auto simp: is_digit_def)
  finally show ?case by (simp add: dec_value_Cons)
qed (simp add: dec_value_def)

text \<open>
  The digit loop reads the value of the digits as long as it stays in the range \<open>rg\<close>,
  which accepts every number from zero to \<open>lim\<close>.
\<close>

lemma digits_loop_at:
  assumes "\<And>v. 0 \<le> v \<Longrightarrow> v \<le> lim \<Longrightarrow> rg v = Some v"
  shows "bytes_at m p (ds @ [c]) \<Longrightarrow> list_all is_digit ds \<Longrightarrow> is_ascii c \<Longrightarrow> \<not> is_digit c
    \<Longrightarrow> 0 \<le> v \<Longrightarrow> dec_value v ds \<le> lim \<Longrightarrow> digits_loop rg m p v = Some (dec_value v ds)"
proof (induction ds arbitrary: p v)
  case Nil
  then show ?case
    by (subst digits_loop.simps) (simp add: bytes_at_Cons isdigit_ascii dec_value_def)
next
  case (Cons d ds)
  let ?v = "v * 10 + (cval d - 48)"
  have d: "48 \<le> cval d" "cval d \<le> 57" using Cons.prems(2) by (auto simp: is_digit_def)
  have "0 \<le> ?v" using d Cons.prems(5) by simp
  moreover have "?v \<le> dec_value ?v ds" using Cons.prems calculation by (intro dec_value_mono) auto
  moreover have "dec_value ?v ds \<le> lim" using Cons.prems(6) by (simp add: dec_value_Cons)
  ultimately have "rg (v * 10) = Some (v * 10)" "rg ?v = Some ?v" "digits_loop rg m (Suc p) ?v = Some (dec_value ?v ds)"
    using assms Cons d by (auto simp: bytes_at_Cons)
  with Cons.prems show ?case
    by (subst digits_loop.simps) (simp add: bytes_at_Cons isdigit_ascii digit_space_ascii dec_value_Cons)
qed

lemma indef_test_no: "ch \<noteq> 73 \<Longrightarrow> indef_test m ip ch = Some (False, ch)"
  by (simp add: indef_test_def)

text \<open>
  \<^verbatim>\<open>atoi\<close> reads white space, an optional sign and a digit string whose value is below
  \<open>2 ^ 31\<close> up to the first character that is not a digit, and returns the signed value.
\<close>

theorem atoi_decimal:
  assumes "bytes_at m p (ws @ sg @ ds @ [c])" "list_all is_space ws" "sg \<in> {[], [43], [45]}"
    and "list_all is_digit ds" "ds \<noteq> []" "is_ascii c" "\<not> is_digit c" "dec_value 0 ds < 2 ^ 31"
  shows "atoi m p = Some (if sg = [45] then - dec_value 0 ds else dec_value 0 ds)"
proof -
  obtain d ds' where ds: "ds = d # ds'" "is_digit d" using assms(4,5) by (cases ds) auto
  obtain e r where er: "sg @ ds @ [c] = e # r" "e = (if sg = [] then d else hd sg)"
    using assms(3) ds by auto
  have e: "is_ascii e" "\<not> is_space e" "cval e \<noteq> 73" "e \<noteq> EOS"
    and sgn: "cval e = 45 \<longleftrightarrow> sg = [45]" "cval e = 43 \<longleftrightarrow> sg = [43]"
    using assms(3) ds er by (auto simp: is_ascii_def is_space_def is_digit_def cval_def)
  have "bytes_at m p (ws @ [e])"
    using assms(1) er by (auto simp: bytes_at_append bytes_at_Cons)
  then have sk: "skip_space m p = Some (p + length ws)" and me: "m (p + length ws) = Some e"
    using skip_space_at assms(2) e by (auto simp: bytes_at_append bytes_at_Cons)
  have first: "\<exists>x. m p = Some x \<and> x \<noteq> EOS"
    using assms(1,2) me e
    by (cases ws) (auto simp: bytes_at_Cons is_space_def)
  have rg: "int_range v = Some v" if "0 \<le> v" "v \<le> 2 ^ 31 - 1" for v
    using that by (simp add: int_range_def)
  have "bytes_at m (p + length ws + length sg) (ds @ [c])"
    using assms(1) by (simp add: bytes_at_append add.assoc)
  then have "digits_loop int_range m (p + length ws + length sg) 0 = Some (dec_value 0 ds)"
    using digits_loop_at[of "2 ^ 31 - 1" int_range m _ ds c 0] rg assms(4,6-8) by auto
  moreover have "0 \<le> dec_value 0 ds" using dec_value_mono[OF assms(4), of 0] by simp
  ultimately show ?thesis
    using first sk me e(3) sgn assms(3,8)
    by (auto simp: atoi_def indef_test_no signed_digits_def int_range_def Let_def)
qed

theorem atoi_decimal_witness:
  "atoi (memimg 0 [32, 45, 52, 50, 0]) 0
     = Some (if [45 :: byte] = [45] then - dec_value 0 [52, 50] else dec_value 0 [52, 50])"
  by (rule atoi_decimal[where ws = "[32]" and c = 0])
     (simp_all add: memimg_part is_space_def is_digit_def is_ascii_def cval_def dec_value_def)

text \<open>
  \<^verbatim>\<open>atol\<close> looks for the sign one character before the number: unless that
  character is a digit, a sign or an \<^verbatim>\<open>I\<close>, every unsigned decimal string reads as zero.
\<close>

theorem atol_reads_zero:
  assumes "bytes_at m p (b # ws @ ds @ [c])" "list_all is_space ws" "list_all is_digit ds" "ds \<noteq> []"
    and "is_ascii b" "\<not> is_digit b" "b \<notin> {43, 45, 73}"
  shows "atol m (Suc p) = Some 0"
proof -
  obtain d ds' where ds: "ds = d # ds'" "is_digit d" using assms(3,4) by (cases ds) auto
  then have d: "is_ascii d" "\<not> is_space d" "d \<noteq> EOS"
    by (auto simp: is_ascii_def is_space_def is_digit_def cval_def)
  have "bytes_at m (Suc p) (ws @ [d])"
    using assms(1) ds by (auto simp: bytes_at_append bytes_at_Cons)
  then have sk: "skip_space m (Suc p) = Some (Suc p + length ws)"
    using skip_space_at assms(2) d by auto
  have first: "\<exists>x. m (Suc p) = Some x \<and> x \<noteq> EOS"
    using assms(1,2) ds d(3) by (cases ws) (auto simp: bytes_at_Cons is_space_def)
  let ?e = "last (b # ws)"
  obtain bl e' where bl: "b # ws = bl @ [e']" by (metis rev_exhaust list.distinct(1))
  then have "length bl = length ws" "?e = e'" by (metis length_append_singleton length_Cons nat.inject, simp)
  moreover have "bytes_at m p (bl @ e' # ds @ [c])"
    using assms(1) bl by (metis append_Cons append_assoc append_Nil)
  ultimately have me: "m (p + length ws) = Some ?e"
    by (simp add: bytes_at_append bytes_at_Cons)
  have e: "is_ascii ?e" "\<not> is_digit ?e" "cval ?e \<noteq> 73" "cval ?e \<noteq> 43" "cval ?e \<noteq> 45"
  proof -
    have "is_space ?e \<or> ?e = b" using assms(2) by (cases ws) (auto simp: list_all_iff)
    then show "is_ascii ?e" "\<not> is_digit ?e" "cval ?e \<noteq> 73" "cval ?e \<noteq> 43" "cval ?e \<noteq> 45"
      using assms(5-7) cval_eq[of b 73] cval_eq[of b 43] cval_eq[of b 45]
      by (auto simp: is_space_def is_digit_def is_ascii_def cval_def simp del: cval_eq)
  qed
  have "digits_loop long_range m (p + length ws) 0 = Some 0"
    using me e by (subst digits_loop.simps) (simp add: isdigit_ascii)
  then show ?thesis
    using first sk me e by (auto simp: atol_def indef_test_no signed_digits_def Let_def)
qed

theorem atol_reads_zero_witness: "atol (memimg 0 [10, 32, 49, 50, 51, 0]) (Suc 0) = Some 0"
  by (rule atol_reads_zero[where b = 10 and ws = "[32]" and ds = "[49, 50, 51]" and c = 0])
     (simp_all add: memimg_part is_space_def is_digit_def is_ascii_def cval_def)

end
