(* ===== verification/Strpak.thy ===== *)
theory Strpak
  imports Acht LibcStr
begin

text \<open>
  \<^verbatim>\<open>sys/osb/strpak.c\<close> and \<^verbatim>\<open>sys/osb/strupk.c\<close>: the conversion between packed host
  strings and the 16 bit character strings of the portable system, in place or not.
\<close>

text \<open>
  \<open>while ((*op++ = *ip++) != XEOS && --n >= 0) ;\<close> where the value tested is that of the
  assignment to a \<^verbatim>\<open>char\<close>, hence the low byte.
\<close>

partial_function (option) pack_counted :: "mem \<Rightarrow> nat \<Rightarrow> nat \<Rightarrow> int \<Rightarrow> (mem \<times> nat) option" where
  "pack_counted m ip op n = do {
     x \<leftarrow> ldn sz_char m ip;
     let c = hd x;
     m' \<leftarrow> wr m op c;
     if c = EOS then Some (m', Suc op)
     else do {
       n' \<leftarrow> int_range (n - 1);
       if 0 \<le> n' then pack_counted m' (ip + sz_char) (Suc op) n' else Some (m', Suc op) } }"

definition STRPAK :: "mem \<Rightarrow> nat \<Rightarrow> nat \<Rightarrow> xint \<Rightarrow> mem option" where
  "STRPAK m instr outstr maxch = do {
     r \<leftarrow> pack_counted m instr outstr (sint (to_cint maxch));
     wr (fst r) (snd r - 1) EOS }"

text \<open>
  The length is counted first, so that the string can be unpacked from right to left; an
  index before the output string is undefined. The counter is an \<^verbatim>\<open>int\<close> in C and a natural number here: the string
  has fewer than \<open>2 ^ 31\<close> bytes.
\<close>

definition STRUPK :: "mem \<Rightarrow> nat \<Rightarrow> nat \<Rightarrow> xint \<Rightarrow> mem option" where
  "STRUPK m instr outstr maxch = do {
     e \<leftarrow> skip_nul m instr;
     let len = int (e - instr - 1);
     let n = (if len < sint maxch then len else sint maxch);
     if n < 0 then None
     else do {
       m1 \<leftarrow> stn [EOS, EOS] m (outstr + sz_char * nat n);
       m2 \<leftarrow> conv_bwd (sconv sz_char) sz_ubyte sz_char (nat n) m1 instr outstr;
       stn [EOS, EOS] m2 (outstr + sz_char * nat (sint maxch)) } }"

section \<open>What the two conversions compute\<close>

text \<open>A character widened to 16 bits, and a string of them.\<close>

definition wide :: "byte list \<Rightarrow> byte list" where
  "wide s = concat (map (\<lambda>c. sconv sz_char [c]) s)"

lemma sconv_char: "sconv 2 [c] = [c, sconv 2 [c] ! 1]"
proof -
  obtain x y where xy: "sconv 2 [c] = [x, y]"
    by (auto simp: sconv_def numeral_2_eq_2)
  have "take 1 (le_enc 2 (le_sval [c])) = le_enc 1 (le_sval [c])"
    by (rule take_le_enc) simp
  also have "\<dots> = [c]" using le_enc_le_sval[of "[c]"] by simp
  finally show ?thesis using xy by (simp add: sconv_def)
qed

lemma wide_simps [simp]: "wide [] = []" "wide (c # s) = c # (sconv 2 [c] ! 1) # wide s"
  using sconv_char[of c] by (simp_all add: wide_def)

lemma length_wide [simp]: "length (wide s) = 2 * length s"
  by (induction s) auto

lemma wide_append: "wide (s @ t) = wide s @ wide t"
  by (simp add: wide_def)

lemma wide_elems: "concat (map (sconv 2) (map (\<lambda>c. [c]) s)) = wide s"
  by (simp add: wide_def comp_def)

lemma ldn_char: "bytes_at m p [a, b] \<Longrightarrow> ldn 2 m p = Some [a, b]"
  by (simp add: numeral_2_eq_2 bytes_at_Cons)

lemma stn_char: "mapped m p 2 \<Longrightarrow> stn [a, b] m p = Some (blit m p [a, b])"
  using stn_blit[of m p "[a, b]"] by (simp add: numeral_2_eq_2 del: stn.simps)

lemma pack_counted_wide:
  assumes "bytes_at m ip (wide s @ [EOS, EOS])" "EOS \<notin> set s" "mapped m op (Suc (length s))"
    and "op \<le> ip \<or> ip + 2 * length s + 2 \<le> op" "length s \<le> n" "n < 2 ^ 31"
  shows "pack_counted m ip op (int n) = Some (blit m op (s @ [EOS]), Suc (op + length s))"
  using assms
proof (induction s arbitrary: m ip op n)
  case Nil
  then have "ldn 2 m ip = Some [EOS, EOS]" "wr m op EOS = Some (m(op \<mapsto> EOS))"
    by (auto simp: ldn_char mapped_Suc wr_mapped)
  then show ?case by (subst pack_counted.simps) (simp add: Let_def blit_single)
next
  case (Cons c s)
  let ?e = "sconv 2 [c] ! 1"
  obtain k where n: "n = Suc k" "length s \<le> k" using Cons.prems(5) by (cases n) auto
  have at: "bytes_at m ip ([c, ?e] @ (wide s @ [EOS, EOS]))"
    using Cons.prems(1) by simp
  then have ld: "ldn 2 m ip = Some [c, ?e]" and at': "bytes_at m (ip + 2) (wide s @ [EOS, EOS])"
    using ldn_char[of m ip c ?e] unfolding bytes_at_append[of m ip "[c, ?e]"] by auto
  have wr: "wr m op c = Some (m(op \<mapsto> c))" "c \<noteq> EOS"
    using Cons.prems(2,3) by (auto simp: mapped_Suc wr_mapped)
  have "bytes_at (m(op \<mapsto> c)) (ip + 2) (wide s @ [EOS, EOS])"
    using at' Cons.prems(4) by (intro bytes_at_upd) auto
  moreover have "mapped (m(op \<mapsto> c)) (Suc op) (Suc (length s))"
    using Cons.prems(3) by (intro mapped_upd) (simp add: mapped_Suc)
  moreover have "EOS \<notin> set s" "Suc op \<le> ip + 2 \<or> ip + 2 + 2 * length s + 2 \<le> Suc op"
    "length s \<le> k" "k < 2 ^ 31"
    using Cons.prems n by auto
  ultimately have "pack_counted (m(op \<mapsto> c)) (ip + 2) (Suc op) (int k)
      = Some (blit (m(op \<mapsto> c)) (Suc op) (s @ [EOS]), Suc (Suc op + length s))"
    using Cons.IH by blast
  moreover have "int_range (int n - 1) = Some (int k)"
    using n Cons.prems(6) by (simp add: int_range_def)
  ultimately show ?case
    using ld wr by (subst pack_counted.simps) (simp add: Let_def blit_Cons)
qed

lemma STRPAK_wide:
  assumes "bytes_at m p (wide s @ [EOS, EOS])" "EOS \<notin> set s" "mapped m q (Suc (length s))"
    and "q \<le> p \<or> p + 2 * length s + 2 \<le> q" "length s \<le> n" "n < 2 ^ 31"
  shows "STRPAK m p q (word_of_nat n) = Some (blit m q (s @ [EOS]))"
proof -
  have "blit m q (s @ [EOS]) (q + length s) = Some EOS"
    by (simp add: blit_snoc)
  then have "wr (blit m q (s @ [EOS])) (q + length s) EOS = Some (blit m q (s @ [EOS]))"
    by (auto simp: wr_def fun_upd_idem)
  then show ?thesis
    using pack_counted_wide[OF assms] assms(6) by (simp add: STRPAK_def sint_to_cint_small)
qed

text \<open>
  Unpacking: with \<open>n\<close> the number of characters kept, the wide string and its terminator
  end up at the output address, and a terminator at the end of the output buffer.
\<close>

lemma STRUPK_wide:
  fixes s :: "byte list" and maxch :: nat
  defines "n \<equiv> min (length s) maxch"
  assumes "str_at m p s" "mapped m q (2 * maxch + 2)" "maxch < 2 ^ 31"
    and "p = q \<or> disjoint p (Suc (length s)) q (2 * maxch + 2)"
  shows "\<exists>m'. STRUPK m p q (word_of_nat maxch) = Some m' \<and> bytes_at m' q (wide (take n s) @ [EOS, EOS])
    \<and> (\<forall>a. mapped m a k \<longrightarrow> mapped m' a k)"
proof -
  have n: "n \<le> length s" "n \<le> maxch" by (auto simp: n_def)
  let ?t = "take n s"
  let ?m1 = "blit m (q + 2 * n) [EOS, EOS]"
  let ?m2 = "blit ?m1 q (wide ?t)"
  let ?m3 = "blit ?m2 (q + 2 * maxch) [EOS, EOS]"
  have lt: "length ?t = n" using n by simp
  have z: "mapped m (q + 2 * n) 2" "mapped m (q + 2 * maxch) 2" "mapped m q (2 * n)"
    using assms(3) n mapped_le[of m q "2 * maxch + 2" "2 * n + 2"] mapped_add[of m q "2 * n" 2]
      mapped_add[of m q "2 * maxch" 2] by (auto intro: mapped_le)
  have st: "stn [EOS, EOS] m (q + 2 * n) = Some ?m1"
    using z(1) by (rule stn_char)
  have "bytes_at m p (take n s @ (drop n s @ [EOS]))"
    using assms(2) by (metis append_assoc append_take_drop_id str_at_def)
  then have "bytes_at m p ?t"
    unfolding bytes_at_append[of m p "take n s"] by simp
  then have at: "bytes_at ?m1 p ?t"
  proof (cases "p = q \<and> n = 0")
    case False
    with n assms(5) lt show ?thesis
      by (intro bytes_at_blit_disjoint[OF \<open>bytes_at m p ?t\<close>]) (auto simp: disjoint_def)
  qed simp
  have "conv_bwd (sconv 2) 1 2 (length (map (\<lambda>c. [c]) ?t)) ?m1 p q
      = Some (blit ?m1 q (concat (map (sconv 2) (map (\<lambda>c. [c]) ?t))))"
    using at assms(5) n lt z
    by (intro sconv.conv_bwd_blit)
       (auto simp: bytes_as_elems uconv.elems_def sconv.elems_def disjoint_def intro: mapped_blit)
  then have cv: "conv_bwd (sconv 2) 1 2 n ?m1 p q = Some ?m2"
    unfolding wide_elems using lt by simp
  have st3: "stn [EOS, EOS] ?m2 (q + 2 * maxch) = Some ?m3"
    using z(2) by (intro stn_char mapped_blit)
  have sk: "skip_nul m p = Some (Suc (p + length s))" using assms(2) by (rule skip_nul_str)
  have len: "int (Suc (p + length s) - p - 1) = int (length s)" by simp
  have sx: "sint (word_of_nat maxch :: xint) = int maxch"
    using assms(4) by (intro sint_xint_small) simp
  have mn: "(if int (length s) < int maxch then int (length s) else int maxch) = int n"
    by (simp add: n_def)
  have "STRUPK m p q (word_of_nat maxch) = Some ?m3"
    unfolding STRUPK_def sk bind.bind_lunit Let_def len sx mn
    using st cv st3 by (simp del: stn.simps)
  moreover have "bytes_at ?m3 q (wide ?t @ [EOS, EOS])"
  proof -
    have "bytes_at ?m2 q (wide ?t @ [EOS, EOS])"
      using lt bytes_at_blit_disjoint[of ?m1 "q + 2 * n" "[EOS, EOS]" q "wide ?t"]
      by (simp add: bytes_at_append disjoint_def)
    show ?thesis
    proof (cases "n = maxch")
      case True
      have "blit ?m2 (q + 2 * n) [EOS, EOS] = ?m2"
        using \<open>bytes_at ?m2 q _\<close> lt by (intro blit_same) (simp add: bytes_at_append)
      with True \<open>bytes_at ?m2 q _\<close> show ?thesis by simp
    next
      case False
      with n lt show ?thesis
        by (intro bytes_at_blit_disjoint[OF \<open>bytes_at ?m2 q _\<close>]) (auto simp: disjoint_def)
    qed
  qed
  moreover have "\<forall>a. mapped m a k \<longrightarrow> mapped ?m3 a k" by (auto intro: mapped_blit)
  ultimately show ?thesis by blast
qed

section \<open>Properties\<close>

text \<open>
  C34. A host string unpacked by \<^verbatim>\<open>STRUPK\<close> in place into a buffer of \<open>maxch\<close> characters and
  packed again in place by \<^verbatim>\<open>STRPAK\<close> is the original string, cut at \<open>maxch\<close> characters;
  in particular a string that fits survives unchanged, characters above 127 included.
\<close>

theorem strupk_strpak_roundtrip:
  assumes "str_at m p s" "mapped m p (2 * maxch + 2)" "maxch < 2 ^ 31"
  shows "\<exists>m1 m2. STRUPK m p p (word_of_nat maxch) = Some m1
    \<and> STRPAK m1 p p (word_of_nat maxch) = Some m2 \<and> str_at m2 p (take maxch s)"
proof -
  let ?t = "take (min (length s) maxch) s"
  have t: "?t = take maxch s" "length ?t \<le> maxch" by (simp_all add: min_def)
  have no: "EOS \<notin> set ?t" using assms(1) by (auto simp: str_at_def dest: in_set_takeD)
  obtain m1 where m1: "STRUPK m p p (word_of_nat maxch) = Some m1" "bytes_at m1 p (wide ?t @ [EOS, EOS])"
    "mapped m1 p (Suc (length ?t))"
    using STRUPK_wide[OF assms(1-3), of "Suc (length ?t)"] mapped_le[OF assms(2), of "Suc (length ?t)"] t
    by auto
  moreover have "STRPAK m1 p p (word_of_nat maxch) = Some (blit m1 p (?t @ [EOS]))"
    using m1 no t(2) assms(3) by (intro STRPAK_wide) auto
  moreover have "str_at (blit m1 p (?t @ [EOS])) p ?t"
    using no by (rule str_at_blit)
  ultimately show ?thesis using t(1) by metis
qed

theorem strupk_strpak_roundtrip_witness:
  "\<exists>m1 m2. STRUPK (memimg 0 [65, 200, 0, 1, 2, 3]) 0 0 (word_of_nat 2) = Some m1
    \<and> STRPAK m1 0 0 (word_of_nat 2) = Some m2 \<and> str_at m2 0 (take 2 [65, 200])"
  by (rule strupk_strpak_roundtrip) (simp_all add: str_at_def memimg_part)

end
