(* ===== verification/Osb.thy ===== *)
theory Osb
  imports Bytes
begin

text \<open>
  Byte order, integer width and bit field routines of \<^verbatim>\<open>sys/osb\<close>: \<^verbatim>\<open>bswap2.c\<close>,
  \<^verbatim>\<open>bswap4.c\<close>, \<^verbatim>\<open>bswap8.c\<close>, \<^verbatim>\<open>i32to64.c\<close>, \<^verbatim>\<open>i64to32.c\<close>, \<^verbatim>\<open>bitfields.c\<close>, \<^verbatim>\<open>shift.c\<close>,
  \<^verbatim>\<open>and.c\<close>, \<^verbatim>\<open>or.c\<close>, \<^verbatim>\<open>not.c\<close>, \<^verbatim>\<open>imul32.c\<close>, \<^verbatim>\<open>iand32.c\<close>, \<^verbatim>\<open>aclrb.c\<close>.
\<close>

unbundle bit_operations_syntax

section \<open>Byte swapping\<close>

primrec bswap2_loop :: "nat \<Rightarrow> mem \<Rightarrow> nat \<Rightarrow> nat \<Rightarrow> mem option" where
  "bswap2_loop 0 m ip op = Some m"
| "bswap2_loop (Suc n) m ip op = do {
     temp \<leftarrow> m ip;
     c \<leftarrow> m (ip + 1);
     m1 \<leftarrow> wr m op c;
     m2 \<leftarrow> wr m1 (op + 1) temp;
     bswap2_loop n m2 (ip + 2) (op + 2) }"

definition BSWAP2 :: "mem \<Rightarrow> nat \<Rightarrow> nat \<Rightarrow> nat \<Rightarrow> nat \<Rightarrow> xint \<Rightarrow> mem option" where
  "BSWAP2 m a aoff b boff nbytes =
     (let ip = a + aoff - 1;
          op = b + boff - 1;
          len = nat (sint (nbytes AND NOT 1))
      in do {
        m1 \<leftarrow> bswap2_loop (len div 2) m ip op;
        if nbytes AND 1 \<noteq> 0 then do { c \<leftarrow> m1 (ip + len); wr m1 (op + len) c }
        else Some m1 })"

text \<open>
  One group goes through the static buffer \<open>temp\<close>: all its bytes are read before the
  reversed group is written.
\<close>

primrec swap_groups :: "nat \<Rightarrow> nat \<Rightarrow> mem \<Rightarrow> nat \<Rightarrow> nat \<Rightarrow> mem option" where
  "swap_groups k 0 m ip op = Some m"
| "swap_groups k (Suc n) m ip op = do {
     temp \<leftarrow> ldn k m ip;
     m' \<leftarrow> stn (rev temp) m op;
     swap_groups k n m' (ip + k) (op + k) }"

definition BSWAP4 :: "mem \<Rightarrow> nat \<Rightarrow> nat \<Rightarrow> nat \<Rightarrow> nat \<Rightarrow> xint \<Rightarrow> mem option" where
  "BSWAP4 m a aoff b boff nbytes =
     (let ip = a + aoff - 1;
          op = b + boff - 1;
          n = nat (sint (to_cint (signed_drop_bit 2 nbytes)));
          r = unat (nbytes AND 3)
      in do {
        m1 \<leftarrow> swap_groups 4 n m ip op;
        copy_up r m1 (ip + 4 * n) (op + 4 * n) })"

definition BSWAP8 :: "mem \<Rightarrow> nat \<Rightarrow> nat \<Rightarrow> nat \<Rightarrow> nat \<Rightarrow> xint \<Rightarrow> mem option" where
  "BSWAP8 m a aoff b boff nbytes =
     (let ip = a + aoff - 1;
          op = b + boff - 1;
          n = nat (sint (to_cint (signed_drop_bit 3 nbytes)));
          r = unat (nbytes AND 3)
      in do {
        m1 \<leftarrow> swap_groups 8 n m ip op;
        copy_up r m1 (ip + 8 * n) (op + 8 * n) })"

section \<open>Big endian 32 and 64 bit integers\<close>

text \<open>\<open>*ope = *ipe; ope--; ipe--\<close>, \<open>n\<close> times: the pointers are inclusive.\<close>

primrec copy_dnp :: "nat \<Rightarrow> mem \<Rightarrow> nat \<Rightarrow> nat \<Rightarrow> mem option" where
  "copy_dnp 0 m ipe ope = Some m"
| "copy_dnp (Suc n) m ipe ope = do {
     c \<leftarrow> m ipe;
     m' \<leftarrow> wr m ope c;
     copy_dnp n m' (ipe - 1) (ope - 1) }"

primrec fill_down :: "nat \<Rightarrow> mem \<Rightarrow> nat \<Rightarrow> byte \<Rightarrow> mem option" where
  "fill_down 0 m op c = Some m"
| "fill_down (Suc n) m op c = do { m' \<leftarrow> wr m (op - 1) c; fill_down n m' (op - 1) c }"

primrec i32to64_expand :: "nat \<Rightarrow> mem \<Rightarrow> nat \<Rightarrow> nat \<Rightarrow> nat \<Rightarrow> mem option" where
  "i32to64_expand 0 m op j k = Some m"
| "i32to64_expand (Suc n) m op j k = do {
     m1 \<leftarrow> copy_down 4 m (op + k) (op + j);
     c \<leftarrow> m1 (op + (k - 4));
     m2 \<leftarrow> fill_down 4 m1 (op + (j - 4)) (if c AND 0x80 \<noteq> 0 then 0xff else 0);
     i32to64_expand n m2 op (j - 8) (k - 4) }"

definition I32TO64 :: "mem \<Rightarrow> nat \<Rightarrow> nat \<Rightarrow> xint \<Rightarrow> mem option" where
  "I32TO64 m ip op nelems =
     (let n = nat (sint nelems); j = n * 8; k = n * 4 in do {
        m1 \<leftarrow> (if ip < op then copy_down k m (ip + k) (op + k)
               else if op < ip then copy_up k m ip op
               else Some m);
        i32to64_expand n m1 op j k })"

primrec i64to32_fwd :: "nat \<Rightarrow> mem \<Rightarrow> nat \<Rightarrow> nat \<Rightarrow> mem option" where
  "i64to32_fwd 0 m ip op = Some m"
| "i64to32_fwd (Suc n) m ip op = do {
     m' \<leftarrow> copy_up 4 m (ip + 4) op;
     i64to32_fwd n m' (ip + 4 + 4) (op + 4) }"

primrec i64to32_bwd :: "nat \<Rightarrow> mem \<Rightarrow> nat \<Rightarrow> nat \<Rightarrow> mem option" where
  "i64to32_bwd 0 m ipe ope = Some m"
| "i64to32_bwd (Suc n) m ipe ope = do {
     m' \<leftarrow> copy_dnp 4 m ipe ope;
     i64to32_bwd n m' (ipe - 4 - 4) (ope - 4) }"

primrec i64to32_mix :: "nat \<Rightarrow> mem \<Rightarrow> nat \<Rightarrow> nat \<Rightarrow> nat \<Rightarrow> nat \<Rightarrow> mem option" where
  "i64to32_mix 0 m ip op ipe ope = Some m"
| "i64to32_mix (Suc n) m ip op ipe ope = do {
     m1 \<leftarrow> (if op < ip + 4 then copy_up 4 m (ip + 4) op else Some m);
     m2 \<leftarrow> (if ipe < ope then copy_dnp 4 m1 ipe ope else Some m1);
     i64to32_mix n m2 (ip + 4 + 4) (op + 4) (ipe - 4 - 4) (ope - 4) }"

definition I64TO32 :: "mem \<Rightarrow> nat \<Rightarrow> nat \<Rightarrow> xint \<Rightarrow> mem option" where
  "I64TO32 m ip op nelems =
     (let n = nat (sint nelems) in
      if op \<le> ip then i64to32_fwd n m ip op
      else
        (let ipe = ip + n * 8 - 1; ope = op + n * 4 - 1 in
         if ipe \<le> ope then i64to32_bwd n m ipe ope
         else i64to32_mix n m ip op ipe ope))"

section \<open>Bit fields, shifts and bitwise operators\<close>

text \<open>Entry \<open>n\<close> of the table \<open>bitmask\<close> has the \<open>n\<close> low bits set; the table ends past 64.\<close>

definition bitmask :: "xint \<Rightarrow> xint option" where
  "bitmask nbits = (if nbits \<le> 64 then Some (mask (unat nbits)) else None)"

text \<open>A shift by the width of the word or more is undefined.\<close>

definition shl64 :: "xint \<Rightarrow> xint \<Rightarrow> xint option" where
  "shl64 w s = (if s < 64 then Some (push_bit (unat s) w) else None)"

definition shr64 :: "xint \<Rightarrow> xint \<Rightarrow> xint option" where
  "shr64 w s = (if s < 64 then Some (drop_bit (unat s) w) else None)"

definition BITPAK :: "xint \<Rightarrow> xint \<Rightarrow> xint \<Rightarrow> xint \<Rightarrow> xint option" where
  "BITPAK ival wordp offset nbits =
     (let shift = offset - 1 in do {
        bm \<leftarrow> bitmask nbits;
        msk \<leftarrow> shl64 bm shift;
        v \<leftarrow> shl64 ival shift;
        Some ((wordp AND NOT msk) OR (v AND msk)) })"

definition BITUPK :: "xint \<Rightarrow> xint \<Rightarrow> xint \<Rightarrow> xint option" where
  "BITUPK wordp offset nbits = do {
     w \<leftarrow> shr64 wordp (offset - 1);
     bm \<leftarrow> bitmask nbits;
     Some (w AND bm) }"

text \<open>
  Arithmetic shifts. Left shifts that overflow keep the low bits; the short version is
  computed in \<^verbatim>\<open>int\<close> and truncated.
\<close>

definition SHIFTI :: "xint \<Rightarrow> xint \<Rightarrow> xint option" where
  "SHIFTI a bits =
     (if sint bits > 0
      then (if sint bits < 64 then Some (push_bit (nat (sint bits)) a) else None)
      else (if - sint bits < 64 then Some (signed_drop_bit (nat (- sint bits)) a) else None))"

definition SHIFTL :: "xint \<Rightarrow> xint \<Rightarrow> xint option" where
  "SHIFTL a bits =
     (if sint bits > 0
      then (if sint bits < 64 then Some (push_bit (nat (sint bits)) a) else None)
      else (if - sint bits < 64 then Some (signed_drop_bit (nat (- sint bits)) a) else None))"

definition SHIFTS :: "xshort \<Rightarrow> xshort \<Rightarrow> xshort option" where
  "SHIFTS a bits =
     (if sint bits > 0
      then (if sint bits < 32 then Some (ucast (push_bit (nat (sint bits)) (scast a :: cint))) else None)
      else (if - sint bits < 32
            then Some (ucast (signed_drop_bit (nat (- sint bits)) (scast a :: cint))) else None))"

definition ANDI :: "xint \<Rightarrow> xint \<Rightarrow> xint" where "ANDI a b = a AND b"
definition ANDS :: "xshort \<Rightarrow> xshort \<Rightarrow> xshort" where "ANDS a b = a AND b"
definition ANDL :: "xint \<Rightarrow> xint \<Rightarrow> xint" where "ANDL a b = a AND b"
definition ORI :: "xint \<Rightarrow> xint \<Rightarrow> xint" where "ORI a b = a OR b"
definition ORS :: "xshort \<Rightarrow> xshort \<Rightarrow> xshort" where "ORS a b = a OR b"
definition ORL :: "xint \<Rightarrow> xint \<Rightarrow> xint" where "ORL a b = a OR b"
definition NOTI :: "xint \<Rightarrow> xint" where "NOTI a = NOT a"
definition NOTS :: "xshort \<Rightarrow> xshort" where "NOTS a = NOT a"
definition NOTL :: "xint \<Rightarrow> xint" where "NOTL a = NOT a"

text \<open>\<^verbatim>\<open>iand32\<close> takes the high half of its first argument and the low half of its second.\<close>

definition iand32 :: "xint \<Rightarrow> xint \<Rightarrow> xint" where
  "iand32 a b =
     (let ia = (ucast (signed_drop_bit 32 a) :: cint); ib = (ucast b :: cint)
      in scast (ia AND ib))"

definition IMUL32 :: "xint \<Rightarrow> xint \<Rightarrow> cint" where
  "IMUL32 a b = (let ia = (ucast a :: cint); ib = (ucast b :: cint) in ia * ib)"

primrec aclrb_loop :: "nat \<Rightarrow> mem \<Rightarrow> nat \<Rightarrow> mem option" where
  "aclrb_loop 0 m p = Some m"
| "aclrb_loop (Suc n) m p = do { m' \<leftarrow> wr m p 0; aclrb_loop n m' (Suc p) }"

definition ACLRB :: "mem \<Rightarrow> nat \<Rightarrow> xint \<Rightarrow> mem option" where
  "ACLRB m a nbytes = aclrb_loop (nat (sint (to_cint nbytes))) m a"


section \<open>Correctness of the width conversions\<close>

text \<open>A big endian element of 4 bytes is widened by copies of its sign.\<close>

definition be_widen :: "byte list \<Rightarrow> byte list" where
  "be_widen x = replicate 4 (if hd x AND 0x80 \<noteq> 0 then 0xff else 0) @ x"

lemma fill_down_blit:
  "mapped m op n \<Longrightarrow> fill_down n m (op + n) c = Some (blit m op (replicate n c))"
proof (induction n arbitrary: m)
  case (Suc n)
  then have mp: "mapped m op n" and top: "m (op + n) \<noteq> None" by (auto simp: mapped_def)
  let ?m = "m(op + n \<mapsto> c)"
  have "fill_down n ?m (op + n) c = Some (blit ?m op (replicate n c))"
    using mp by (intro Suc.IH mapped_upd)
  moreover have "blit ?m op (replicate n c) = blit m op (replicate (Suc n) c)"
    by (subst replicate_append_same [symmetric, THEN trans [OF replicate_Suc]])
       (simp add: blit_append_swap blit_single)
  ultimately show ?case
    using top by (simp add: wr_mapped)
qed simp

lemma copy_dnp_down:
  "n \<le> Suc p \<Longrightarrow> n \<le> Suc q \<Longrightarrow> copy_dnp n m p q = copy_down n m (Suc p) (Suc q)"
proof (induction n arbitrary: m p q)
  case (Suc n)
  show ?case
  proof (cases n)
    case 0
    then show ?thesis by simp
  next
    case Suc': (Suc k)
    with Suc.prems have "Suc (p - 1) = p" "Suc (q - 1) = q" by auto
    moreover have "copy_dnp n m' (p - 1) (q - 1) = copy_down n m' (Suc (p - 1)) (Suc (q - 1))" for m'
      using Suc.prems by (intro Suc.IH) auto
    ultimately show ?thesis by simp
  qed
qed simp

lemma i32to64_expand_blit:
  assumes "\<forall>x \<in> set xs. length x = 4" "bytes_at m op (concat xs)" "mapped m op (8 * length xs)"
  shows "i32to64_expand (length xs) m op (8 * length xs) (4 * length xs)
    = Some (blit m op (concat (map be_widen xs)))"
  using assms
proof (induction xs arbitrary: m rule: rev_induct)
  case (snoc x xs)
  let ?n = "length xs" let ?k = "op + 4 * length xs" let ?j = "op + 8 * length xs"
  from snoc.prems have len: "length x = 4" "length (concat xs) = 4 * ?n"
    and at: "bytes_at m op (concat xs)" "bytes_at m ?k x"
    using concat_replicate_length[of xs 4] by (auto simp: bytes_at_append)
  have mp: "mapped m op (8 * ?n)" "mapped m ?j 8"
    using snoc.prems(3) mapped_add[of m op "8 * ?n" 8] by (auto simp: add.commute)
  then have mp4: "mapped m ?j 4" "mapped m (?j + 4) 4"
    using mapped_add[of m ?j 4 4] by auto
  let ?c = "if hd x AND 0x80 \<noteq> 0 then 0xff else 0 :: byte"
  let ?m1 = "blit m (?j + 4) x"
  have s1: "copy_down 4 m (op + (4 * ?n + 4)) (op + (8 * ?n + 8)) = Some ?m1"
    using copy_down_blit[of m ?k x "?j + 4"] len at mp4 by (simp add: algebra_simps)
  have hd: "?m1 ?k = Some (hd x)"
  proof -
    have "?m1 ?k = m ?k" by (rule blit_out) simp
    also have "\<dots> = Some (hd x)" using at(2) len by (cases x) (auto simp: bytes_at_Cons)
    finally show ?thesis .
  qed
  let ?m2 = "blit ?m1 ?j (replicate 4 ?c)"
  have s2: "fill_down 4 ?m1 (op + (8 * ?n + 4)) ?c = Some ?m2"
    using fill_down_blit[of ?m1 ?j 4 ?c] mp4 by (simp add: mapped_blit algebra_simps)
  have m2: "?m2 = blit m ?j (be_widen x)"
    by (simp add: be_widen_def blit_append_swap)
  have "disjoint op (length (concat xs)) ?j (length (be_widen x))"
    using len by (simp add: disjoint_def)
  then have "i32to64_expand ?n ?m2 op (8 * ?n) (4 * ?n) = Some (blit ?m2 op (concat (map be_widen xs)))"
    using snoc.prems at mp unfolding m2
    by (intro snoc.IH bytes_at_blit_disjoint mapped_blit) auto
  moreover have "length (concat (map be_widen xs)) = 8 * ?n"
    using snoc.prems(1) by (induction xs) (auto simp: be_widen_def)
  then have "blit ?m2 op (concat (map be_widen xs)) = blit m op (concat (map be_widen (xs @ [x])))"
    unfolding m2 by (simp add: blit_append_swap)
  ultimately show ?case
    using s1 s2 hd by (simp add: algebra_simps)
qed simp

lemma blit_blit_same: "length xs \<le> length ys \<Longrightarrow> blit (blit m p xs) p ys = blit m p ys"
  by (auto simp: blit_def fun_eq_iff)

lemma I32TO64_blit:
  assumes "\<forall>x \<in> set xs. length x = 4" "bytes_at m a (concat xs)" "mapped m b (8 * length xs)"
    and "length xs < 2 ^ 63"
  shows "I32TO64 m a b (word_of_nat (length xs)) = Some (blit m b (concat (map be_widen xs)))"
proof -
  let ?n = "length xs"
  have len: "length (concat xs) = 4 * ?n"
    using assms(1) by (simp add: concat_replicate_length)
  have mp: "mapped m b (length (concat xs))"
    using assms(3) by (rule mapped_le) (simp add: len)
  have 1: "(if a < b then copy_down (?n * 4) m (a + ?n * 4) (b + ?n * 4)
      else if b < a then copy_up (?n * 4) m a b else Some m) = Some (blit m b (concat xs))"
    using copy_down_blit[of m a "concat xs" b] copy_up_blit[of m a "concat xs" b] assms(2) mp
    by (auto simp: len mult.commute blit_same)
  have "i32to64_expand ?n (blit m b (concat xs)) b (8 * ?n) (4 * ?n)
      = Some (blit (blit m b (concat xs)) b (concat (map be_widen xs)))"
    using assms by (intro i32to64_expand_blit mapped_blit) auto
  also have "blit (blit m b (concat xs)) b (concat (map be_widen xs)) = blit m b (concat (map be_widen xs))"
    using assms(1) by (intro blit_blit_same) (induction xs, auto simp: be_widen_def)
  finally show ?thesis
    using 1 sint_xint_small[OF assms(4)] by (simp add: I32TO64_def Let_def mult.commute)
qed


text \<open>
  The state of \<^verbatim>\<open>I64TO32\<close> after the elements of \<open>S\<close> have been moved: the low half of
  element \<open>j\<close> stands at \<open>b + 4 * j\<close>, everything else is as it was.
\<close>

definition lo_upd :: "nat \<Rightarrow> byte list list \<Rightarrow> nat set \<Rightarrow> mem \<Rightarrow> mem" where
  "lo_upd b xs S m =
     (\<lambda>p. if b \<le> p \<and> (p - b) div 4 \<in> S
          then Some (xs ! ((p - b) div 4) ! (4 + (p - b) mod 4)) else m p)"

lemma lo_upd_empty [simp]: "lo_upd b xs {} m = m"
  by (simp add: lo_upd_def)

lemma mapped_lo_upd: "mapped m p n \<Longrightarrow> mapped (lo_upd b xs S m) p n"
  by (auto simp: mapped_def lo_upd_def)

lemma div4_eq: "b \<le> p \<Longrightarrow> (p - b) div 4 = j \<longleftrightarrow> b + 4 * j \<le> p \<and> p < b + 4 * j + 4" for p b j :: nat
proof -
  assume b: "b \<le> p"
  have "x div 4 = j \<longleftrightarrow> 4 * j \<le> x \<and> x < 4 * j + 4" for x :: nat by arith
  from this[of "p - b"] b show ?thesis by auto
qed

lemma lo_upd_insert:
  assumes "length (xs ! j) = 8"
  shows "blit (lo_upd b xs S m) (b + 4 * j) (drop 4 (xs ! j)) = lo_upd b xs (insert j S) m"
proof
  fix p
  show "blit (lo_upd b xs S m) (b + 4 * j) (drop 4 (xs ! j)) p = lo_upd b xs (insert j S) m p"
  proof (cases "b + 4 * j \<le> p \<and> p < b + 4 * j + 4")
    case True
    then have j: "(p - b) div 4 = j" and bp: "b \<le> p" by (auto simp: div4_eq)
    then have "(p - b) mod 4 = p - (b + 4 * j)"
      by (simp add: modulo_nat_def)
    with True j bp assms show ?thesis
      by (simp add: blit_def lo_upd_def add.commute)
  next
    case False
    then have "b \<le> p \<Longrightarrow> (p - b) div 4 \<noteq> j" by (simp add: div4_eq)
    with False assms show ?thesis by (auto simp: blit_def lo_upd_def)
  qed
qed

lemma lo_upd_src:
  assumes "bytes_at m a (concat xs)" "\<forall>x \<in> set xs. length x = 8" "j < length xs"
    and "\<forall>s \<in> S. b + 4 * s + 4 \<le> a + 8 * j + 4 \<or> a + 8 * j + 8 \<le> b + 4 * s"
  shows "bytes_at (lo_upd b xs S m) (a + 8 * j + 4) (drop 4 (xs ! j))"
proof -
  have src: "bytes_at m (a + 8 * j) (xs ! j)"
  proof -
    have "concat xs = concat (take j xs) @ xs ! j @ concat (drop (Suc j) xs)"
      using assms(3) by (metis concat.simps(2) concat_append id_take_nth_drop)
    moreover have "length (concat (take j xs)) = 8 * j"
      using assms(2,3) concat_replicate_length[of "take j xs" 8] by (auto dest: in_set_takeD)
    ultimately show ?thesis
      using assms(1) by (metis bytes_at_append)
  qed
  have len: "length (xs ! j) = 8" using assms(2,3) by simp
  show ?thesis
    unfolding bytes_at_def
  proof safe
    fix i assume i: "i < length (drop 4 (xs ! j))"
    let ?p = "a + 8 * j + 4 + i"
    have "(?p - b) div 4 \<notin> S" if "b \<le> ?p"
    proof
      assume "(?p - b) div 4 \<in> S"
      moreover have "b + 4 * ((?p - b) div 4) \<le> ?p" "?p < b + 4 * ((?p - b) div 4) + 4"
        using that by auto
      ultimately show False using assms(4) i len by fastforce
    qed
    then have "lo_upd b xs S m ?p = m (a + 8 * j + (4 + i))"
      by (auto simp: lo_upd_def add.assoc)
    also have "\<dots> = Some (xs ! j ! (4 + i))"
      using src i len by (simp add: bytes_at_def)
    finally show "lo_upd b xs S m ?p = Some (drop 4 (xs ! j) ! i)"
      using len by simp
  qed
qed

text \<open>One element moved upwards through memory, and one moved downwards.\<close>

lemma lo_step_up:
  assumes "bytes_at m a (concat xs)" "\<forall>x \<in> set xs. length x = 8" "j < length xs"
    and "\<forall>s \<in> S. b + 4 * s + 4 \<le> a + 8 * j + 4 \<or> a + 8 * j + 8 \<le> b + 4 * s"
    and "mapped m b (4 * length xs)" "b + 4 * j \<le> a + 8 * j + 4"
  shows "copy_up 4 (lo_upd b xs S m) (a + 8 * j + 4) (b + 4 * j) = Some (lo_upd b xs (insert j S) m)"
proof -
  have len: "length (drop 4 (xs ! j)) = 4" using assms(2,3) by simp
  have "mapped m b (4 * j + 4)" using assms(3,5) by (auto elim!: mapped_le)
  then have "mapped (lo_upd b xs S m) (b + 4 * j) 4" by (simp add: mapped_add mapped_lo_upd)
  with copy_up_blit[OF lo_upd_src[OF assms(1-4)]] assms(6) len
  show ?thesis by (simp add: lo_upd_insert assms(2,3))
qed

lemma lo_step_down:
  assumes "bytes_at m a (concat xs)" "\<forall>x \<in> set xs. length x = 8" "j < length xs"
    and "\<forall>s \<in> S. b + 4 * s + 4 \<le> a + 8 * j + 4 \<or> a + 8 * j + 8 \<le> b + 4 * s"
    and "mapped m b (4 * length xs)" "a + 8 * j + 4 \<le> b + 4 * j"
  shows "copy_dnp 4 (lo_upd b xs S m) (a + 8 * j + 7) (b + 4 * j + 3) = Some (lo_upd b xs (insert j S) m)"
proof -
  have len: "length (drop 4 (xs ! j)) = 4" using assms(2,3) by simp
  have "mapped m b (4 * j + 4)" using assms(3,5) by (auto elim!: mapped_le)
  then have "mapped (lo_upd b xs S m) (b + 4 * j) 4" by (simp add: mapped_add mapped_lo_upd)
  then have "copy_down 4 (lo_upd b xs S m) (a + 8 * j + 4 + 4) (b + 4 * j + 4)
      = Some (lo_upd b xs (insert j S) m)"
    using copy_down_blit[OF lo_upd_src[OF assms(1-4)], of "b + 4 * j"] assms(6) len
    by (simp add: lo_upd_insert assms(2,3))
  then show ?thesis by (simp add: copy_dnp_down algebra_simps)
qed

lemma lo_upd_all:
  assumes "bytes_at m a (concat xs)" "\<forall>x \<in> set xs. length x = 8"
    and "\<forall>j < length xs. j \<in> S \<or> b + 4 * j = a + 8 * j + 4" "\<forall>s \<in> S. s < length xs"
  shows "lo_upd b xs S m = blit m b (concat (map (drop 4) xs))"
proof
  fix p
  have len: "length (concat (map (drop 4) xs)) = 4 * length xs"
    using assms(2) by (subst concat_replicate_length[where k = 4]) auto
  show "lo_upd b xs S m p = blit m b (concat (map (drop 4) xs)) p"
  proof (cases "b \<le> p \<and> p < b + 4 * length xs")
    case True
    define j r where "j = (p - b) div 4" and "r = (p - b) mod 4"
    have j: "j < length xs" and p: "p = b + 4 * j + r" and r: "r < 4"
      using True by (auto simp: j_def r_def less_mult_imp_div_less)
    have l8: "length (xs ! j) = 8" using assms(2) j by simp
    have "bytes_at (blit m b (concat (map (drop 4) xs))) (b + 4 * j) (drop 4 (xs ! j))"
    proof -
      have "concat (map (drop 4) xs)
          = concat (map (drop 4) (take j xs)) @ drop 4 (xs ! j) @ concat (map (drop 4) (drop (Suc j) xs))"
        using j by (metis concat.simps(2) concat_append id_take_nth_drop list.simps(9) map_append)
      moreover have "length (concat (map (drop 4) (take j xs))) = 4 * j"
        using assms(2) j by (subst concat_replicate_length[where k = 4]) (auto dest: in_set_takeD)
      ultimately show ?thesis
        using bytes_at_blit_same[of m b "concat (map (drop 4) xs)"] by (metis bytes_at_append)
    qed
    then have rhs: "blit m b (concat (map (drop 4) xs)) p = Some (xs ! j ! (4 + r))"
      using p r l8 by (simp add: bytes_at_def)
    show ?thesis
    proof (cases "j \<in> S")
      case True
      with p rhs r show ?thesis by (simp add: lo_upd_def)
    next
      case False
      with assms(3) j have eq: "b + 4 * j = a + 8 * j + 4" by auto
      have "bytes_at (lo_upd b xs {} m) (a + 8 * j + 4) (drop 4 (xs ! j))"
        using assms j by (intro lo_upd_src) auto
      then have "m p = Some (xs ! j ! (4 + r))"
        using p r l8 by (simp add: eq bytes_at_def)
      moreover have "lo_upd b xs S m p = m p"
        using False p r by (simp add: lo_upd_def)
      ultimately show ?thesis using rhs by simp
    qed
  next
    case False
    moreover have "b \<le> p \<Longrightarrow> (p - b) div 4 \<notin> S"
      using False assms(4) by (metis le_add_diff_inverse less_mult_imp_div_less mult.commute
          nat_add_left_cancel_less div_less_iff_less_mult zero_less_numeral)
    ultimately show ?thesis by (auto simp: lo_upd_def blit_def len)
  qed
qed


lemma i64to32_fwd_upd:
  assumes "bytes_at m a (concat xs)" "\<forall>x \<in> set xs. length x = 8" "mapped m b (4 * length xs)"
    and "b \<le> a" "j + n \<le> length xs"
  shows "i64to32_fwd n (lo_upd b xs {..<j} m) (a + 8 * j) (b + 4 * j)
    = Some (lo_upd b xs {..<j + n} m)"
  using assms(5)
proof (induction n arbitrary: j)
  case (Suc n)
  have "copy_up 4 (lo_upd b xs {..<j} m) (a + 8 * j + 4) (b + 4 * j)
      = Some (lo_upd b xs (insert j {..<j}) m)"
    using assms Suc.prems by (intro lo_step_up) auto
  with Suc.IH[of "Suc j"] Suc.prems show ?case
    by (simp add: lessThan_Suc algebra_simps)
qed simp

lemma i64to32_bwd_upd:
  assumes "bytes_at m a (concat xs)" "\<forall>x \<in> set xs. length x = 8" "mapped m b (4 * length xs)"
    and "a + 4 * length xs \<le> b" "n \<le> length xs"
  shows "i64to32_bwd n (lo_upd b xs {n..<length xs} m) (a + 8 * n - 1) (b + 4 * n - 1)
    = Some (lo_upd b xs {..<length xs} m)"
  using assms(5)
proof (induction n)
  case (Suc n)
  have ivl: "insert n {Suc n..<length xs} = {n..<length xs}" using Suc.prems by auto
  have "copy_dnp 4 (lo_upd b xs {Suc n..<length xs} m) (a + 8 * n + 7) (b + 4 * n + 3)
      = Some (lo_upd b xs (insert n {Suc n..<length xs}) m)"
    using assms Suc.prems by (intro lo_step_down) auto
  with Suc.IH Suc.prems show ?case
    by (simp add: ivl add.commute)
qed (auto simp: lessThan_atLeast0)

text \<open>
  The interleaved loop: with \<open>d\<close> the distance of the arrays, element \<open>j\<close> is moved by the
  forward half of the loop when \<open>d < 4 * (j + 1)\<close>, by the backward half when
  \<open>4 * (j + 1) < d\<close>, and stands at its place already when these are equal.
\<close>

definition mix_done :: "nat \<Rightarrow> nat \<Rightarrow> nat \<Rightarrow> nat set" where
  "mix_done d n i = {j. j < i \<and> d < 4 * (j + 1)} \<union> {j. n - i \<le> j \<and> j < n \<and> 4 * (j + 1) < d}"

lemma mix_less: "4 * (s + 1) < d \<Longrightarrow> d < 4 * (i + 1) \<Longrightarrow> s < i" for s d i :: nat
  by arith

lemma mix_done_0 [simp]: "mix_done d n 0 = {}"
  by (auto simp: mix_done_def)

lemma mix_step:
  assumes "bytes_at m a (concat xs)" "\<forall>x \<in> set xs. length x = 8" "mapped m b (4 * length xs)"
    and d: "b = a + d" and n: "n = length xs" "i < n"
  shows "do {
      m1 \<leftarrow> (if b + 4 * i < a + 8 * i + 4
            then copy_up 4 (lo_upd b xs (mix_done d n i) m) (a + 8 * i + 4) (b + 4 * i)
            else Some (lo_upd b xs (mix_done d n i) m));
      if a + 8 * (n - i) - 1 < b + 4 * (n - i) - 1
      then copy_dnp 4 m1 (a + 8 * (n - i) - 1) (b + 4 * (n - i) - 1) else Some m1 }
    = Some (lo_upd b xs (mix_done d n (Suc i)) m)"
proof -
  define k where "k = n - Suc i"
  have k: "n - i = Suc k" "k < length xs" using n by (auto simp: k_def)
  define F where "F = (if d < 4 * (i + 1) then insert i (mix_done d n i) else mix_done d n i)"
  have ptr: "a + 8 * (n - i) - 1 = a + 8 * k + 7" "b + 4 * (n - i) - 1 = b + 4 * k + 3"
    using k by auto
  have 1: "(if b + 4 * i < a + 8 * i + 4
            then copy_up 4 (lo_upd b xs (mix_done d n i) m) (a + 8 * i + 4) (b + 4 * i)
            else Some (lo_upd b xs (mix_done d n i) m)) = Some (lo_upd b xs F m)"
  proof (cases "d < 4 * (i + 1)")
    case True
    then have "copy_up 4 (lo_upd b xs (mix_done d n i) m) (a + 8 * i + 4) (b + 4 * i)
        = Some (lo_upd b xs (insert i (mix_done d n i)) m)"
      using assms True mix_less[of _ d i] by (intro lo_step_up) (fastforce simp: mix_done_def)+
    with True d show ?thesis by (simp add: F_def)
  qed (use d in \<open>auto simp: F_def\<close>)
  have memF: "s \<in> F \<Longrightarrow> d < 4 * (s + 1) \<or> k < s \<and> 4 * (s + 1) < d" for s
    using k n by (auto simp: F_def mix_done_def split: if_splits)
  have 2: "(if a + 8 * (n - i) - 1 < b + 4 * (n - i) - 1
      then copy_dnp 4 (lo_upd b xs F m) (a + 8 * (n - i) - 1) (b + 4 * (n - i) - 1)
      else Some (lo_upd b xs F m))
    = Some (lo_upd b xs (if 4 * (k + 1) < d then insert k F else F) m)"
  proof (cases "4 * (k + 1) < d")
    case True
    have src: "a + 8 * k + 8 \<le> b + 4 * s" if "s \<in> F" for s
    proof -
      have "k < s" using memF[OF that] True mix_less[of k d s] by blast
      with True d show ?thesis by simp
    qed
    have "copy_dnp 4 (lo_upd b xs F m) (a + 8 * k + 7) (b + 4 * k + 3)
        = Some (lo_upd b xs (insert k F) m)"
    proof (rule lo_step_down[OF assms(1,2) k(2) _ assms(3)])
      show "\<forall>s \<in> F. b + 4 * s + 4 \<le> a + 8 * k + 4 \<or> a + 8 * k + 8 \<le> b + 4 * s"
        using src by blast
      show "a + 8 * k + 4 \<le> b + 4 * k" using True d by simp
    qed
    moreover have "a + 8 * k + 7 < b + 4 * k + 3" using True d by simp
    ultimately show ?thesis using True by (simp only: ptr if_True)
  qed (use d k in auto)
  have "(if 4 * (k + 1) < d then insert k F else F) = mix_done d n (Suc i)"
    using n by (auto simp: F_def mix_done_def k_def)
  with 1 2 show ?thesis by simp
qed

lemma i64to32_mix_upd:
  assumes "bytes_at m a (concat xs)" "\<forall>x \<in> set xs. length x = 8" "mapped m b (4 * length xs)"
    and "b = a + d" "n = length xs" "i + k = n"
  shows "i64to32_mix k (lo_upd b xs (mix_done d n i) m) (a + 8 * i) (b + 4 * i)
      (a + 8 * (n - i) - 1) (b + 4 * (n - i) - 1) = Some (lo_upd b xs (mix_done d n n) m)"
  using assms(6)
proof (induction k arbitrary: i)
  case (Suc k)
  then have i: "i < n" by simp
  have ptr: "a + 8 * (n - i) - 1 - 4 - 4 = a + 8 * (n - Suc i) - 1"
    "b + 4 * (n - i) - 1 - 4 = b + 4 * (n - Suc i) - 1"
    using i by auto
  show ?case
    using mix_step[OF assms(1-5) i] Suc.IH[of "Suc i"] Suc.prems ptr
    by (auto simp: algebra_simps bind_eq_Some_conv split: if_splits)
qed simp

lemma I64TO32_blit:
  assumes "bytes_at m a (concat xs)" "\<forall>x \<in> set xs. length x = 8" "mapped m b (4 * length xs)"
    and "length xs < 2 ^ 63"
  shows "I64TO32 m a b (word_of_nat (length xs)) = Some (blit m b (concat (map (drop 4) xs)))"
proof -
  let ?n = "length xs"
  have cnt: "nat (sint (word_of_nat ?n :: xint)) = ?n"
    using sint_xint_small[OF assms(4)] by simp
  consider (fwd) "b \<le> a" | (bwd) "a < b" "a + ?n * 8 - 1 \<le> b + ?n * 4 - 1"
    | (mix) d where "a < b" "\<not> a + ?n * 8 - 1 \<le> b + ?n * 4 - 1" "b = a + d"
    by (metis le_Suc_ex less_imp_le not_less)
  then show ?thesis
  proof cases
    case fwd
    have "i64to32_fwd ?n (lo_upd b xs {..<0} m) (a + 8 * 0) (b + 4 * 0)
        = Some (lo_upd b xs {..<0 + ?n} m)"
      using assms fwd by (intro i64to32_fwd_upd) auto
    with fwd cnt lo_upd_all[OF assms(1,2), of "{..<?n}" b] show ?thesis
      by (simp add: I64TO32_def)
  next
    case bwd
    have "i64to32_bwd ?n (lo_upd b xs {?n..<?n} m) (a + 8 * ?n - 1) (b + 4 * ?n - 1)
        = Some (lo_upd b xs {..<?n} m)"
      using assms bwd by (intro i64to32_bwd_upd) auto
    with bwd cnt lo_upd_all[OF assms(1,2), of "{..<?n}" b] show ?thesis
      by (simp add: I64TO32_def Let_def mult.commute)
  next
    case (mix d)
    have "i64to32_mix ?n (lo_upd b xs (mix_done d ?n 0) m) (a + 8 * 0) (b + 4 * 0)
        (a + 8 * (?n - 0) - 1) (b + 4 * (?n - 0) - 1) = Some (lo_upd b xs (mix_done d ?n ?n) m)"
      using assms mix by (intro i64to32_mix_upd) auto
    moreover have "lo_upd b xs (mix_done d ?n ?n) m = blit m b (concat (map (drop 4) xs))"
      using assms(1,2) mix by (intro lo_upd_all) (auto simp: mix_done_def)
    ultimately show ?thesis
      using mix cnt by (simp add: I64TO32_def Let_def mult.commute)
  qed
qed


section \<open>Byte groups\<close>

interpretation swap: element_conv rev k k for k
  by unfold_locales simp

lemma swap_groups_conv: "swap_groups k n m ip op = conv_fwd rev k k n m ip op"
  by (induction n arbitrary: m ip op) auto

lemma shifted_count: "N < 2 ^ 31 \<Longrightarrow> nat (sint (to_cint (signed_drop_bit k (word_of_nat N)))) = N div 2 ^ k"
proof -
  assume N: "N < 2 ^ 31"
  have "sint (signed_drop_bit k (word_of_nat N :: xint)) = drop_bit k (sint (word_of_nat N :: xint))"
    by (rule sint_signed_drop_bit_eq)
  also have "\<dots> = int (N div 2 ^ k)"
    using N sint_xint_small[of N] by (simp add: drop_bit_eq_div zdiv_int)
  finally have "word_of_int (sint (signed_drop_bit k (word_of_nat N :: xint))) = (word_of_int (int (N div 2 ^ k)) :: xint)"
    by simp
  then have "signed_drop_bit k (word_of_nat N) = (word_of_nat (N div 2 ^ k) :: xint)"
    by simp
  moreover have "N div 2 ^ k < 2 ^ 31"
    using N by (meson div_le_dividend le_less_trans)
  ultimately show ?thesis by (simp add: sint_to_cint_small)
qed

lemma unat_and_3: "N < 2 ^ 63 \<Longrightarrow> unat (word_of_nat N AND 3 :: xint) = N mod 4"
proof -
  assume N: "N < 2 ^ 63"
  have "(3 :: xint) = mask 2" by (simp add: mask_eq_exp_minus_1)
  then have "word_of_nat N AND 3 = (take_bit 2 (word_of_nat N) :: xint)"
    by (simp add: take_bit_eq_mask)
  then have "unat (word_of_nat N AND 3 :: xint) = take_bit 2 (unat (word_of_nat N :: xint))"
    by (simp only: unsigned_take_bit_eq)
  also have "unat (word_of_nat N :: xint) = N"
    using N by (simp add: unat_of_nat)
  finally show ?thesis by (simp add: take_bit_eq_mod)
qed

subsection \<open>Bit fields\<close>

lemma unat_small: "N < 2 ^ 63 \<Longrightarrow> unat (word_of_nat N :: xint) = N"
  by (simp add: unat_of_nat)

lemma field_small:
  assumes "s < 64" "n \<le> 64"
  shows "bitmask (word_of_nat n) = Some (mask n)"
    and "shl64 v (word_of_nat s) = Some (push_bit s v)"
    and "shr64 v (word_of_nat s) = Some (drop_bit s v)"
  using assms unat_small[of s] unat_small[of n]
  by (simp_all add: bitmask_def shl64_def shr64_def word_less_nat_alt word_le_nat_alt)

lemma BITPAK_eq:
  assumes "s < 64" "n \<le> 64"
  shows "BITPAK v w (word_of_nat (Suc s)) (word_of_nat n)
    = Some ((w AND NOT (push_bit s (mask n))) OR (push_bit s v AND push_bit s (mask n)))"
  using assms by (simp add: BITPAK_def field_small)

lemma BITUPK_eq:
  assumes "s < 64" "n \<le> 64"
  shows "BITUPK w (word_of_nat (Suc s)) (word_of_nat n) = Some (drop_bit s w AND mask n)"
  using assms by (simp add: BITUPK_def field_small)

lemma BITPAK_bits:
  assumes "s + n \<le> 64"
  shows "bit ((w AND NOT (push_bit s (mask n))) OR (push_bit s v AND push_bit s (mask n)) :: xint) i
    \<longleftrightarrow> (if s \<le> i \<and> i < s + n then bit v (i - s) else bit w i)"
  using assms bit_imp_le_length[of w i] by (auto simp: bit_simps)

lemma BITUPK_bits: "bit (drop_bit s w AND mask n :: xint) i \<longleftrightarrow> i < n \<and> bit w (s + i)"
  using bit_imp_le_length[of w "s + i"] by (auto simp: bit_simps)

lemma field_of_packed:
  assumes "s + n \<le> 64"
  shows "drop_bit s ((w AND NOT (push_bit s (mask n))) OR (push_bit s v AND push_bit s (mask n)) :: xint) AND mask n
    = v AND mask n"
proof (rule bit_word_eqI)
  fix i
  show "bit (drop_bit s ((w AND NOT (push_bit s (mask n))) OR (push_bit s v AND push_bit s (mask n)) :: xint)
      AND mask n) i \<longleftrightarrow> bit (v AND mask n) i"
    by (simp only: BITUPK_bits BITPAK_bits[OF assms]) (auto simp: bit_simps dest: bit_imp_le_length)
qed

text \<open>
  Both group swaps: the whole groups are reversed, and \<open>r\<close> bytes behind them are copied.
\<close>

lemma swap_and_tail:
  assumes xs: "\<forall>x \<in> set xs. length x = k" and at: "bytes_at m ip (concat xs @ tail)"
    and mp: "mapped m op (k * length xs + length tail)"
    and ov: "op \<le> ip \<or> ip + k * length xs + length tail \<le> op"
  shows "do { m1 \<leftarrow> swap_groups k (length xs) m ip op;
      copy_up (length tail) m1 (ip + k * length xs) (op + k * length xs) }
    = Some (blit m op (concat (map rev xs) @ tail))"
proof -
  let ?n = "k * length xs"
  have el: "element_conv.elems k xs"
    using xs by (simp add: swap.elems_def)
  have len: "length (concat xs) = ?n" "length (concat (map rev xs)) = ?n"
    using xs concat_replicate_length[of xs k] concat_replicate_length[of "map rev xs" k] by auto
  let ?m = "blit m op (concat (map rev xs))"
  from mp have mp2: "mapped m op ?n" "mapped m (op + ?n) (length tail)"
    by (auto simp: mapped_add)
  have "conv_fwd rev k k (length xs) m ip op = Some ?m"
    using el at mp2 ov by (intro swap.conv_fwd_blit) (auto simp: bytes_at_append disjoint_def)
  moreover have "bytes_at ?m (ip + ?n) tail"
    using at ov len by (intro bytes_at_blit_disjoint) (auto simp: bytes_at_append disjoint_def)
  then have "copy_up (length tail) ?m (ip + ?n) (op + ?n) = Some (blit ?m (op + ?n) tail)"
    using mp2 ov by (intro copy_up_blit mapped_blit) auto
  ultimately show ?thesis
    by (simp add: swap_groups_conv blit_append len)
qed

lemma groups_exist:
  "0 < k \<Longrightarrow> \<exists>xs tail. bs = concat xs @ tail \<and> (\<forall>x \<in> set xs. length x = k) \<and> length tail < k"
proof (induction bs rule: length_induct)
  case (1 bs)
  show ?case
  proof (cases "length bs < k")
    case True
    then have "bs = concat [] @ bs \<and> (\<forall>x \<in> set []. length x = k) \<and> length bs < k" by simp
    then show ?thesis by blast
  next
    case False
    with "1.prems" have "length (drop k bs) < length bs" by simp
    with 1 obtain xs tail where *: "drop k bs = concat xs @ tail"
      "\<forall>x \<in> set xs. length x = k" "length tail < k" by blast
    have "bs = take k bs @ drop k bs" by simp
    with * False have "bs = concat (take k bs # xs) @ tail \<and> (\<forall>x \<in> set (take k bs # xs). length x = k)"
      by simp
    with *(3) show ?thesis by blast
  qed
qed

lemma BSWAP4_eq:
  assumes "4 * n + r < 2 ^ 31" "r < 4"
  shows "BSWAP4 m a 1 b 1 (word_of_nat (4 * n + r))
    = do { m1 \<leftarrow> swap_groups 4 n m a b; copy_up r m1 (a + 4 * n) (b + 4 * n) }"
  using assms shifted_count[of "4 * n + r" 2] unat_and_3[of "4 * n + r"]
  by (simp add: BSWAP4_def Let_def del: of_nat_add of_nat_mult)

lemma BSWAP8_eq:
  assumes "8 * n + r < 2 ^ 31" "r < 8"
  shows "BSWAP8 m a 1 b 1 (word_of_nat (8 * n + r))
    = do { m1 \<leftarrow> swap_groups 8 n m a b; copy_up (r mod 4) m1 (a + 8 * n) (b + 8 * n) }"
proof -
  have "(8 * n + r) mod 4 = r mod 4"
    by presburger
  then show ?thesis
    using assms shifted_count[of "8 * n + r" 3] unat_and_3[of "8 * n + r"]
    by (simp add: BSWAP8_def Let_def del: of_nat_add of_nat_mult)
qed


section \<open>Properties\<close>

text \<open>
  C31. \<^verbatim>\<open>I32TO64\<close> widens an array of big endian 32 bit integers to 64 bits by sign
  extension for every position of the output array relative to the input array,
  overlapping or not, and touches nothing outside the output array.
\<close>

theorem i32to64_any_overlap:
  assumes "\<forall>x \<in> set xs. length x = 4" "bytes_at m a (concat xs)" "mapped m b (8 * length xs)"
    and "length xs < 2 ^ 63"
  shows "I32TO64 m a b (word_of_nat (length xs)) = Some (blit m b (concat (map be_widen xs)))"
  using assms by (rule I32TO64_blit)

theorem i32to64_any_overlap_witness:
  "I32TO64 (memimg 5 [0x80, 1, 2, 3, 0, 0, 0, 0, 0]) 5 6 1
    = Some (blit (memimg 5 [0x80, 1, 2, 3, 0, 0, 0, 0, 0]) 6 [0xff, 0xff, 0xff, 0xff, 0x80, 1, 2, 3])"
proof -
  have "be_widen [0x80, 1, 2, 3] = [0xff, 0xff, 0xff, 0xff, 0x80, 1, 2, 3]" by code_simp
  then show ?thesis
    using i32to64_any_overlap[of "[[0x80, 1, 2, 3]]" "memimg 5 [0x80, 1, 2, 3, 0, 0, 0, 0, 0]" 5 6]
    by (simp add: memimg_part)
qed

text \<open>
  C32. \<^verbatim>\<open>I64TO32\<close> moves the low halves of big endian 64 bit integers to the output array
  for every position of the two arrays: all three of its loops, the interleaved one
  included, give the same result as a copy through a scratch array.
\<close>

theorem i64to32_any_overlap:
  assumes "bytes_at m a (concat xs)" "\<forall>x \<in> set xs. length x = 8" "mapped m b (4 * length xs)"
    and "length xs < 2 ^ 63"
  shows "I64TO32 m a b (word_of_nat (length xs)) = Some (blit m b (concat (map (drop 4) xs)))"
  using assms by (rule I64TO32_blit)

theorem i64to32_any_overlap_witness:
  "I64TO32 (memimg 0 [0, 0, 0, 0, 1, 2, 3, 4, 0, 0, 0, 0, 5, 6, 7, 8]) 0 2 2
    = Some (blit (memimg 0 [0, 0, 0, 0, 1, 2, 3, 4, 0, 0, 0, 0, 5, 6, 7, 8]) 2 [1, 2, 3, 4, 5, 6, 7, 8])"
  using i64to32_any_overlap[of "memimg 0 [0, 0, 0, 0, 1, 2, 3, 4, 0, 0, 0, 0, 5, 6, 7, 8]" 0
      "[[0, 0, 0, 0, 1, 2, 3, 4], [0, 0, 0, 0, 5, 6, 7, 8]]" 2]
  by (simp add: memimg_part)

text \<open>
  Widening in place with \<^verbatim>\<open>I32TO64\<close> and narrowing in place with \<^verbatim>\<open>I64TO32\<close> restores
  the original integers.
\<close>

theorem i32_i64_roundtrip:
  assumes "\<forall>x \<in> set xs. length x = 4" "bytes_at m a (concat xs)" "mapped m a (8 * length xs)"
    and "length xs < 2 ^ 63"
  shows "\<exists>m1 m2. I32TO64 m a a (word_of_nat (length xs)) = Some m1
    \<and> I64TO32 m1 a a (word_of_nat (length xs)) = Some m2 \<and> bytes_at m2 a (concat xs)"
proof -
  let ?ys = "map be_widen xs"
  let ?m1 = "blit m a (concat ?ys)"
  have "I32TO64 m a a (word_of_nat (length xs)) = Some ?m1"
    using assms by (rule I32TO64_blit)
  moreover have "\<forall>y \<in> set ?ys. length y = 8" "mapped ?m1 a (4 * length ?ys)"
    using assms mapped_le[OF assms(3), of "4 * length xs"] by (auto simp: be_widen_def intro: mapped_blit)
  then have "I64TO32 ?m1 a a (word_of_nat (length ?ys)) = Some (blit ?m1 a (concat (map (drop 4) ?ys)))"
    using assms(4) by (intro I64TO32_blit) auto
  moreover have "map (drop 4) ?ys = xs"
    by (simp add: be_widen_def comp_def)
  ultimately show ?thesis by auto
qed

theorem i32_i64_roundtrip_witness:
  "\<exists>m1 m2. I32TO64 (memimg 0 [0xff, 0, 0, 1, 7, 7, 7, 7]) 0 0 (word_of_nat 1) = Some m1
    \<and> I64TO32 m1 0 0 (word_of_nat 1) = Some m2 \<and> bytes_at m2 0 [0xff, 0, 0, 1]"
  using i32_i64_roundtrip[of "[[0xff, 0, 0, 1]]" "memimg 0 [0xff, 0, 0, 1, 7, 7, 7, 7]" 0]
  by (simp add: memimg_part)

text \<open>
  C33. A field of \<open>n\<close> bits put into a word by \<^verbatim>\<open>BITPAK\<close> at the one-indexed offset
  \<open>Suc s\<close> is what \<^verbatim>\<open>BITUPK\<close> gets back, and every bit outside the field is kept.
\<close>

theorem bitpak_bitupk:
  assumes "s < 64" "s + n \<le> 64"
  shows "\<exists>w'. BITPAK v w (word_of_nat (Suc s)) (word_of_nat n) = Some w'
    \<and> BITUPK w' (word_of_nat (Suc s)) (word_of_nat n) = Some (v AND mask n)
    \<and> (\<forall>i. i < s \<or> s + n \<le> i \<longrightarrow> bit w' i = bit w i)"
proof (intro exI conjI allI impI)
  let ?w = "(w AND NOT (push_bit s (mask n))) OR (push_bit s v AND push_bit s (mask n))"
  show "BITPAK v w (word_of_nat (Suc s)) (word_of_nat n) = Some ?w"
    using assms BITPAK_eq[of s n v w] by linarith
  show "BITUPK ?w (word_of_nat (Suc s)) (word_of_nat n) = Some (v AND mask n)"
    using assms BITUPK_eq[of s n ?w] by (simp only: field_of_packed)
  show "bit ?w i = bit w i" if "i < s \<or> s + n \<le> i" for i
    using assms that by (auto simp: BITPAK_bits)
qed

theorem bitpak_bitupk_witness:
  "\<exists>w'. BITPAK 0x1f5 0xffff (word_of_nat (Suc 4)) (word_of_nat 8) = Some w'
    \<and> BITUPK w' (word_of_nat (Suc 4)) (word_of_nat 8) = Some (0x1f5 AND mask 8)
    \<and> (\<forall>i. i < 4 \<or> 4 + 8 \<le> i \<longrightarrow> bit w' i = bit (0xffff :: xint) i)"
  by (rule bitpak_bitupk) simp_all

text \<open>
  \<^verbatim>\<open>BSWAP4\<close> applied twice to an array in place is the identity, whatever the length
  of the array: whole groups are reversed and back, the odd bytes stay.
\<close>

theorem bswap4_involution:
  assumes "bytes_at m a bs" "length bs < 2 ^ 31"
  shows "Option.bind (BSWAP4 m a 1 a 1 (word_of_nat (length bs)))
    (\<lambda>m1. BSWAP4 m1 a 1 a 1 (word_of_nat (length bs))) = Some m"
proof -
  obtain xs tail where bs: "bs = concat xs @ tail" "\<forall>x \<in> set xs. length x = 4" "length tail < 4"
    using groups_exist[of 4 bs] by auto
  let ?ys = "map rev xs"
  have len: "length bs = 4 * length xs + length tail"
    using bs concat_replicate_length[of xs 4] by simp
  have mp: "mapped m a (4 * length xs + length tail)"
    using bytes_at_mapped[OF assms(1)] by (simp add: len)
  let ?m1 = "blit m a (concat ?ys @ tail)"
  have 1: "BSWAP4 m a 1 a 1 (word_of_nat (length bs)) = Some ?m1"
    using swap_and_tail[of xs 4 m a tail a] bs assms mp BSWAP4_eq[of "length xs" "length tail"] len
    by simp
  have "BSWAP4 ?m1 a 1 a 1 (word_of_nat (length bs)) = Some (blit ?m1 a (concat (map rev ?ys) @ tail))"
    using swap_and_tail[of ?ys 4 ?m1 a tail a] bs assms mp BSWAP4_eq[of "length xs" "length tail"] len
    by (simp add: mapped_blit)
  also have "map rev ?ys = xs" by (simp add: comp_def)
  also have "blit ?m1 a (concat xs @ tail) = m"
    using bs assms(1) concat_replicate_length[of ?ys 4] concat_replicate_length[of xs 4]
    by (simp add: blit_blit_same blit_same)
  finally show ?thesis using 1 by simp
qed

theorem bswap4_involution_witness:
  "Option.bind (BSWAP4 (memimg 3 [1, 2, 3, 4, 5]) 3 1 3 1 (word_of_nat 5))
    (\<lambda>m1. BSWAP4 m1 3 1 3 1 (word_of_nat 5)) = Some (memimg 3 [1, 2, 3, 4, 5])"
  using bswap4_involution[of "memimg 3 [1, 2, 3, 4, 5]" 3 "[1, 2, 3, 4, 5]"] by simp

text \<open>
  \<^verbatim>\<open>BSWAP8\<close> takes the number of odd bytes modulo 4 although its groups have 8 bytes:
  of \<open>r\<close> odd bytes only the first \<open>r mod 4\<close> are moved to a disjoint output array, so with
  four to seven odd bytes the last four stay what they were in the output.
\<close>

theorem bswap8_odd_bytes:
  assumes "\<forall>x \<in> set xs. length x = 8" "bytes_at m a (concat xs @ tail)" "length tail < 8"
    and "mapped m b (8 * length xs + length tail)" "disjoint a (8 * length xs + length tail) b (8 * length xs + length tail)"
    and "8 * length xs + length tail < 2 ^ 31"
  shows "BSWAP8 m a 1 b 1 (word_of_nat (8 * length xs + length tail))
    = Some (blit m b (concat (map rev xs) @ take (length tail mod 4) tail))"
proof -
  let ?t = "take (length tail mod 4) tail"
  have lt: "length ?t = length tail mod 4" "length ?t \<le> length tail" by auto
  have "bytes_at m a (concat xs @ ?t)"
    using assms(2) by (metis append_take_drop_id append_assoc bytes_at_append)
  moreover have "mapped m b (8 * length xs + length ?t)"
    using assms(4) by (rule mapped_le) simp
  moreover have "b \<le> a \<or> a + 8 * length xs + length ?t \<le> b"
    using assms(5) lt(2) by (auto simp: disjoint_def)
  ultimately show ?thesis
    using swap_and_tail[of xs 8 m a ?t b] assms(1,3,6) BSWAP8_eq[of "length xs" "length tail"] lt(1)
    by simp
qed

theorem bswap8_odd_bytes_witness:
  "BSWAP8 (memimg 0 [1, 2, 3, 4, 5, 0, 0, 0, 0, 0]) 0 1 5 1 (word_of_nat (8 * 0 + 5))
    = Some (blit (memimg 0 [1, 2, 3, 4, 5, 0, 0, 0, 0, 0]) 5 [1])"
  using bswap8_odd_bytes[of "[]" "memimg 0 [1, 2, 3, 4, 5, 0, 0, 0, 0, 0]" 0 "[1, 2, 3, 4, 5]" 5]
  by (simp add: memimg_part disjoint_def)

end
