(* ===== verification/Qsort.thy ===== *)
theory Qsort
  imports Main "HOL-Library.Multiset"
begin

text \<open>
  The quicker sort of \<^verbatim>\<open>sys/libc/qsort.c\<close>, of which \<^verbatim>\<open>unix/os/zopdir.c\<close> keeps a private
  copy (\<^verbatim>\<open>d_qsort\<close>). An array of \<open>n\<close> elements of \<open>qsz\<close> bytes is a list; a pointer
  \<open>base + k * qsz\<close> is the index \<open>k\<close>, and the inner byte loops, which exchange or shift whole
  elements one byte column at a time, are element operations. The comparison routine is
  a parameter. Reading below the array is undefined (\<open>None\<close>).
\<close>

definition THRESH :: nat where "THRESH = 4"
definition MTHRESH :: nat where "MTHRESH = 6"

type_synonym 'a compar = "'a \<Rightarrow> 'a \<Rightarrow> int"

definition swap :: "'a list \<Rightarrow> nat \<Rightarrow> nat \<Rightarrow> 'a list" where
  "swap xs i j = xs[i := xs ! j, j := xs ! i]"

section \<open>Partitioning\<close>

text \<open>\<open>while (i < mid && (*qcmp)(i, mid) <= 0) i += qsz;\<close>\<close>

function scan_up :: "'a compar \<Rightarrow> 'a list \<Rightarrow> nat \<Rightarrow> nat \<Rightarrow> nat" where
  "scan_up cmp xs i mid =
     (if i < mid \<and> cmp (xs ! i) (xs ! mid) \<le> 0 then scan_up cmp xs (Suc i) mid else i)"
  by pat_completeness auto
termination by (relation "measure (\<lambda>(cmp, xs, i, mid). mid - i)") auto

text \<open>The part of the second loop that continues: \<open>j\<close> goes down past elements not below \<open>mid\<close>.\<close>

function scan_down :: "'a compar \<Rightarrow> 'a list \<Rightarrow> nat \<Rightarrow> nat \<Rightarrow> nat" where
  "scan_down cmp xs mid j =
     (if mid < j \<and> cmp (xs ! mid) (xs ! j) \<le> 0 then scan_down cmp xs mid (j - 1) else j)"
  by pat_completeness auto
termination by (relation "measure (\<lambda>(cmp, xs, mid, j). j)") auto

declare scan_up.simps [simp del] scan_down.simps [simp del]

lemma scan_up_go: "i < mid \<and> cmp (xs ! i) (xs ! mid) \<le> 0 \<Longrightarrow> scan_up cmp xs i mid = scan_up cmp xs (Suc i) mid"
  by (subst scan_up.simps) (rule if_P)

lemma scan_up_halt: "\<not> (i < mid \<and> cmp (xs ! i) (xs ! mid) \<le> 0) \<Longrightarrow> scan_up cmp xs i mid = i"
  by (subst scan_up.simps) (rule if_not_P)

lemma scan_down_go: "mid < j \<and> cmp (xs ! mid) (xs ! j) \<le> 0 \<Longrightarrow> scan_down cmp xs mid j = scan_down cmp xs mid (j - 1)"
  by (subst scan_down.simps) (rule if_P)

lemma scan_down_halt: "\<not> (mid < j \<and> cmp (xs ! mid) (xs ! j) \<le> 0) \<Longrightarrow> scan_down cmp xs mid j = j"
  by (subst scan_down.simps) (rule if_not_P)

lemma scan_up_bounds: "i \<le> scan_up cmp xs i mid" "i \<le> mid \<Longrightarrow> scan_up cmp xs i mid \<le> mid"
  by (induction cmp xs i mid rule: scan_up.induct; subst scan_up.simps; force)+

lemma scan_down_bounds: "scan_down cmp xs mid j \<le> j" "mid \<le> j \<Longrightarrow> mid \<le> scan_down cmp xs mid j"
  by (induction cmp xs mid j rule: scan_down.induct; subst scan_down.simps; force)+

text \<open>
  One turn of the partitioning loop: \<open>mid\<close> is the place of the discriminator, everything
  below \<open>i\<close> and above \<open>j\<close> is on its side. \<open>Inl\<close> is the final place, \<open>Inr\<close> the next state.
\<close>

definition part_step ::
  "'a compar \<Rightarrow> 'a list \<Rightarrow> nat \<Rightarrow> nat \<Rightarrow> nat \<Rightarrow> nat + 'a list \<times> nat \<times> nat \<times> nat" where
  "part_step cmp xs i j mid =
     (let i' = scan_up cmp xs i mid;
          j' = scan_down cmp xs mid j
      in if mid < j'
         then if i' = mid then Inr (swap xs i' j', Suc i', j', j')
              else Inr (swap xs i' j', Suc i', j' - 1, mid)
         else if i' = mid then Inl mid
              else Inr (swap xs i' mid, i', j' - 1, i'))"

lemma part_step_decreases:
  assumes "part_step cmp xs i j mid = Inr (ys, i', j', mid')"
  shows "((cmp, ys, i', j', mid'), (cmp, xs, i, j, mid)) \<in> measures
    [\<lambda>(cmp, xs, i, j, mid). if i \<le> mid then 0 else Suc j,
     \<lambda>(cmp, xs, i, j, mid). j - i, \<lambda>(cmp, xs, i, j, mid). mid - i]"
proof -
  let ?i = "scan_up cmp xs i mid" and ?j = "scan_down cmp xs mid j"
  have b: "i \<le> ?i" "i \<le> mid \<longrightarrow> ?i \<le> mid" "?j \<le> j" "mid < i \<longrightarrow> ?i = i"
    using scan_up_bounds(1)[of i cmp xs mid] scan_up_bounds(2)[of i mid cmp xs]
      scan_down_bounds(1)[of cmp xs mid j] scan_up.simps[of cmp xs i mid]
    by simp_all
  show ?thesis
    using assms b unfolding part_step_def Let_def
    by (cases "i \<le> mid") (auto split: if_splits)
qed

function part_loop :: "'a compar \<Rightarrow> 'a list \<Rightarrow> nat \<Rightarrow> nat \<Rightarrow> nat \<Rightarrow> 'a list \<times> nat" where
  "part_loop cmp xs i j mid =
     (case part_step cmp xs i j mid of
        Inl mid' \<Rightarrow> (xs, mid')
      | Inr (ys, i', j', mid') \<Rightarrow> part_loop cmp ys i' j' mid')"
  by pat_completeness auto
termination
  by (relation "measures [\<lambda>(cmp, xs, i, j, mid). if i \<le> mid then 0 else Suc j,
     \<lambda>(cmp, xs, i, j, mid). j - i, \<lambda>(cmp, xs, i, j, mid). mid - i]")
     (auto simp del: in_measures intro: part_step_decreases)

declare part_loop.simps [simp del]

section \<open>Permutations of a segment\<close>

text \<open>
  \<open>ys\<close> is \<open>xs\<close> with the elements of the segment from \<open>a\<close> to \<open>b\<close> in another order.
\<close>

definition perm_in :: "nat \<Rightarrow> nat \<Rightarrow> 'a list \<Rightarrow> 'a list \<Rightarrow> bool" where
  "perm_in a b xs ys \<longleftrightarrow> length ys = length xs \<and> mset ys = mset xs
     \<and> (\<forall>k. k < a \<or> b \<le> k \<longrightarrow> ys ! k = xs ! k)
     \<and> (\<forall>P. (\<forall>k. a \<le> k \<and> k < b \<longrightarrow> P (xs ! k)) \<longrightarrow> (\<forall>k. a \<le> k \<and> k < b \<longrightarrow> P (ys ! k)))"

named_theorems perm_rules

lemma perm_in_refl [perm_rules]: "perm_in a b xs xs"
  by (simp add: perm_in_def)

lemma perm_in_trans: "perm_in a b xs ys \<Longrightarrow> perm_in a b ys zs \<Longrightarrow> perm_in a b xs zs"
  unfolding perm_in_def by metis

lemma perm_in_length: "perm_in a b xs ys \<Longrightarrow> length ys = length xs"
  by (simp add: perm_in_def)

lemma perm_in_mset: "perm_in a b xs ys \<Longrightarrow> mset ys = mset xs"
  by (simp add: perm_in_def)

lemma perm_in_outside: "perm_in a b xs ys \<Longrightarrow> k < a \<or> b \<le> k \<Longrightarrow> ys ! k = xs ! k"
  unfolding perm_in_def by blast

lemma perm_in_all:
  "perm_in a b xs ys \<Longrightarrow> (\<And>k. a \<le> k \<Longrightarrow> k < b \<Longrightarrow> P (xs ! k)) \<Longrightarrow> a \<le> k \<Longrightarrow> k < b \<Longrightarrow> P (ys ! k)"
  unfolding perm_in_def by blast

lemma perm_in_widen:
  assumes "perm_in a b xs ys" "c \<le> a" "b \<le> d"
  shows "perm_in c d xs ys"
  unfolding perm_in_def
proof (intro conjI allI impI)
  show "length ys = length xs" using assms(1) by (rule perm_in_length)
  show "mset ys = mset xs" using assms(1) by (rule perm_in_mset)
  show "ys ! k = xs ! k" if "k < c \<or> d \<le> k" for k
    using that assms by (intro perm_in_outside[OF assms(1)]) auto
  fix P k assume P: "\<forall>k. c \<le> k \<and> k < d \<longrightarrow> P (xs ! k)" and k: "c \<le> k \<and> k < d"
  show "P (ys ! k)"
  proof (cases "a \<le> k \<and> k < b")
    case True
    moreover have "\<forall>k. a \<le> k \<and> k < b \<longrightarrow> P (xs ! k)" using P assms(2,3) by fastforce
    ultimately show ?thesis using assms(1) unfolding perm_in_def by blast
  next
    case False
    then have "ys ! k = xs ! k" by (intro perm_in_outside[OF assms(1)]) auto
    moreover have "P (xs ! k)" using P k by blast
    ultimately show ?thesis by simp
  qed
qed

lemma swap_nth:
  "i < length xs \<Longrightarrow> j < length xs \<Longrightarrow> swap xs i j ! k = (if k = j then xs ! i else if k = i then xs ! j else xs ! k)"
  by (simp add: swap_def nth_list_update)

lemma length_swap [simp]: "length (swap xs i j) = length xs"
  by (simp add: swap_def)

lemma perm_in_swap [perm_rules]:
  assumes "a \<le> i" "i < b" "a \<le> j" "j < b" "b \<le> length xs"
  shows "perm_in a b xs (swap xs i j)"
proof -
  have "mset (swap xs i j) = mset xs"
    using assms mset_swap[of j xs i] by (simp add: swap_def)
  with assms show ?thesis by (auto simp: perm_in_def swap_nth)
qed

section \<open>The sort\<close>

text \<open>
  The choice of the discriminator: of the first, the middle and the last element the
  median is exchanged with the middle one.
\<close>

definition median :: "'a compar \<Rightarrow> 'a list \<Rightarrow> nat \<Rightarrow> nat \<Rightarrow> nat \<Rightarrow> 'a list" where
  "median cmp xs base mid maxval =
     (let j = (if cmp (xs ! base) (xs ! mid) > 0 then base else mid);
          tmp = maxval - 1;
          j' = (if cmp (xs ! j) (xs ! tmp) > 0
                then let l = (if j = base then mid else base)
                     in if cmp (xs ! l) (xs ! tmp) < 0 then tmp else l
                else j)
      in if j' \<noteq> mid then swap xs mid j' else xs)"

definition partition_seg :: "'a compar \<Rightarrow> 'a list \<Rightarrow> nat \<Rightarrow> nat \<Rightarrow> 'a list \<times> nat" where
  "partition_seg cmp xs base maxval =
     (let lo = maxval - base;
          mid = base + lo div 2;
          ys = (if MTHRESH \<le> lo then median cmp xs base mid maxval else xs)
      in part_loop cmp ys base (maxval - 1) mid)"

lemma part_step_bounds:
  assumes "part_step cmp xs i j mid = Inr (ys, i', j', mid')" "i \<le> mid" "mid \<le> j" "j < b" "a \<le> i"
  shows "i' \<le> mid' \<and> mid' \<le> j' \<and> j' < b \<and> a \<le> i'"
proof -
  let ?i = "scan_up cmp xs i mid" and ?j = "scan_down cmp xs mid j"
  have b: "i \<le> ?i" "?i \<le> mid" "?j \<le> j" "mid \<le> ?j"
    using scan_up_bounds(1)[of i cmp xs mid] scan_up_bounds(2)[of i mid cmp xs] assms(2,3)
      scan_down_bounds(1)[of cmp xs mid j] scan_down_bounds(2)[of mid j cmp xs]
    by simp_all
  show ?thesis
    using assms b unfolding part_step_def Let_def
    by (cases "mid < ?j"; cases "?i = mid") auto
qed

lemma part_step_Inl: "part_step cmp xs i j mid = Inl m \<Longrightarrow> m = mid"
  by (auto simp: part_step_def Let_def split: if_splits)

text \<open>Rule of the loop: an invariant of its steps that gives the result at the exit.\<close>

lemma part_loop_rule:
  assumes "I xs i j mid"
    and "\<And>xs i j mid ys i' j' mid'. I xs i j mid \<Longrightarrow> part_step cmp xs i j mid = Inr (ys, i', j', mid')
      \<Longrightarrow> I ys i' j' mid'"
    and "\<And>xs i j mid. I xs i j mid \<Longrightarrow> part_step cmp xs i j mid = Inl mid \<Longrightarrow> Q xs mid"
    and "part_loop cmp xs i j mid = (ys, m)"
  shows "Q ys m"
  using assms(1,4)
proof (induction cmp\<equiv>cmp xs i j mid rule: part_loop.induct)
  case (1 xs i j mid)
  show ?case
  proof (cases "part_step cmp xs i j mid")
    case (Inl m')
    then have "m' = mid" by (rule part_step_Inl)
    moreover have "(xs, m') = (ys, m)" using 1(3) Inl by (subst (asm) part_loop.simps) simp
    ultimately show ?thesis using assms(3)[OF 1(2)] Inl by simp
  next
    case (Inr r)
    then obtain zs i' j' mid' where r: "part_step cmp xs i j mid = Inr (zs, i', j', mid')" by (cases r) auto
    have "part_loop cmp zs i' j' mid' = (ys, m)"
      using 1(3) r by (subst (asm) part_loop.simps) simp
    then show ?thesis
      using 1(1)[OF r refl refl refl assms(2)[OF 1(2) r]] by blast
  qed
qed

lemma part_loop_bounds:
  assumes "i \<le> mid" "mid \<le> j" "j < b" "a \<le> i" "part_loop cmp xs i j mid = (ys, m)"
  shows "a \<le> m \<and> m < b"
proof (rule part_loop_rule[where I = "\<lambda>xs i j mid. i \<le> mid \<and> mid \<le> j \<and> j < b \<and> a \<le> i", OF _ _ _ assms(5)])
  show "i \<le> mid \<and> mid \<le> j \<and> j < b \<and> a \<le> i" using assms by blast
  show "i' \<le> mid' \<and> mid' \<le> j' \<and> j' < b \<and> a \<le> i'"
    if "i \<le> mid \<and> mid \<le> j \<and> j < b \<and> a \<le> i" "part_step cmp xs i j mid = Inr (ys, i', j', mid')"
    for xs i j mid ys i' j' mid'
    using part_step_bounds[OF that(2)] that(1) by blast
qed auto

lemma partition_seg_bounds:
  "partition_seg cmp xs base maxval = (ys, m) \<Longrightarrow> base < maxval \<Longrightarrow> base \<le> m \<and> m < maxval"
proof -
  assume *: "partition_seg cmp xs base maxval = (ys, m)" and "base < maxval"
  then have "base \<le> base + (maxval - base) div 2" "base + (maxval - base) div 2 \<le> maxval - 1" "maxval - 1 < maxval"
    by auto
  from part_loop_bounds[OF this order_refl] * show "base \<le> m \<and> m < maxval"
    unfolding partition_seg_def Let_def by blast
qed

lemma partition_seg_empty:
  assumes "partition_seg cmp xs base maxval = (ys, m)" "\<not> base < maxval"
  shows "m = base"
proof -
  have "scan_up cmp xs base base = base" "scan_down cmp xs base (maxval - 1) = maxval - 1"
    using assms(2) by (auto intro!: scan_up_halt scan_down_halt)
  then have "part_step cmp xs base (maxval - 1) base = Inl base"
    using assms(2) by (simp add: part_step_def Let_def)
  then have "part_loop cmp xs base (maxval - 1) base = (xs, base)"
    by (subst part_loop.simps) simp
  moreover have "partition_seg cmp xs base maxval = part_loop cmp xs base (maxval - 1) base"
    using assms(2) by (simp add: partition_seg_def Let_def MTHRESH_def)
  ultimately show ?thesis using assms(1) by simp
qed

lemma partition_seg_range:
  "(ys, mid) = partition_seg cmp xs base maxval
    \<Longrightarrow> base \<le> mid \<and> (mid < maxval \<or> mid = base \<and> maxval \<le> base)"
  using partition_seg_bounds[of cmp xs base maxval ys mid] partition_seg_empty[of cmp xs base maxval ys mid]
  by (cases "base < maxval") auto

text \<open>
  \<^verbatim>\<open>qst\<close>: the smaller side is sorted by the recursive call first, the other by the next
  turn of the outer loop, each only if it has at least \<^verbatim>\<open>THRESH\<close> elements.
\<close>

function qst :: "'a compar \<Rightarrow> 'a list \<Rightarrow> nat \<Rightarrow> nat \<Rightarrow> 'a list" where
  "qst cmp xs base maxval =
     (case partition_seg cmp xs base maxval of (ys, mid) \<Rightarrow>
        let lo = mid - base; hi = maxval - Suc mid
        in if lo \<le> hi
           then let zs = (if THRESH \<le> lo then qst cmp ys base mid else ys)
                in if THRESH \<le> hi then qst cmp zs (Suc mid) maxval else zs
           else let zs = (if THRESH \<le> hi then qst cmp ys (Suc mid) maxval else ys)
                in if THRESH \<le> lo then qst cmp zs base mid else zs)"
  by pat_completeness auto
termination
proof (relation "measure (\<lambda>(cmp, xs, base, maxval). maxval - base)", goal_cases)
  case 1
  then show ?case by simp
next
  case (2 cmp xs base maxval ys mid lo hi)
  from partition_seg_range[OF this(1)] this(2-) show ?case by (auto simp: THRESH_def)
next
  case (3 cmp xs base maxval ys mid lo hi)
  from partition_seg_range[OF this(1)] this(2-) show ?case by (auto simp: THRESH_def)
next
  case (4 cmp xs base maxval ys mid lo hi)
  from partition_seg_range[OF this(1)] this(2-) show ?case by (auto simp: THRESH_def)
next
  case (5 cmp xs base maxval ys mid lo hi)
  from partition_seg_range[OF this(1)] this(2-) show ?case by (auto simp: THRESH_def)
qed

declare qst.simps [simp del]

text \<open>\<open>for (j=lo=base; (lo += qsz) < hi; ) if ((*qcmp)(j, lo) > 0) j = lo;\<close>\<close>

function find_min :: "'a compar \<Rightarrow> 'a list \<Rightarrow> nat \<Rightarrow> nat \<Rightarrow> nat \<Rightarrow> nat" where
  "find_min cmp xs j lo hi =
     (if Suc lo < hi
      then find_min cmp xs (if cmp (xs ! j) (xs ! Suc lo) > 0 then Suc lo else j) (Suc lo) hi
      else j)"
  by pat_completeness auto
termination by (relation "measure (\<lambda>(cmp, xs, j, lo, hi). hi - lo)") auto

text \<open>\<open>while ((*qcmp)(hi -= qsz, minval) > 0) ;\<close> with \<open>hi\<close> advanced by one element after it.\<close>

fun find_slot :: "'a compar \<Rightarrow> 'a list \<Rightarrow> nat \<Rightarrow> nat \<Rightarrow> nat option" where
  "find_slot cmp xs 0 minval = None"
| "find_slot cmp xs (Suc hi) minval =
     (if cmp (xs ! hi) (xs ! minval) > 0 then find_slot cmp xs hi minval else Some (Suc hi))"

text \<open>\<open>c = *lo; for (i=j=lo; (j -= qsz) >= hi; i=j) *i = *j; *i = c;\<close> for one byte column.\<close>

fun shift_in :: "'a list \<Rightarrow> nat \<Rightarrow> nat \<Rightarrow> 'a \<Rightarrow> 'a list" where
  "shift_in xs 0 hi c = xs[0 := c]"
| "shift_in xs (Suc i) hi c =
     (if hi \<le> i then shift_in (xs[Suc i := xs ! i]) i hi c else xs[Suc i := c])"

function insertion :: "'a compar \<Rightarrow> 'a list \<Rightarrow> nat \<Rightarrow> nat \<Rightarrow> 'a list option" where
  "insertion cmp xs minval maxval =
     (if Suc minval < maxval
      then case find_slot cmp xs (Suc minval) (Suc minval) of
             None \<Rightarrow> None
           | Some hi \<Rightarrow>
               insertion cmp (if hi \<noteq> Suc minval then shift_in xs (Suc minval) hi (xs ! Suc minval) else xs)
                 (Suc minval) maxval
      else Some xs)"
  by pat_completeness auto
termination by (relation "measure (\<lambda>(cmp, xs, minval, maxval). maxval - minval)") auto

declare find_min.simps [simp del] insertion.simps [simp del]

definition qsort :: "'a list \<Rightarrow> 'a compar \<Rightarrow> 'a list option" where
  "qsort xs cmp =
     (let n = length xs
      in if n \<le> 1 then Some xs
         else let ys = (if THRESH \<le> n then qst cmp xs 0 n else xs);
                  hi = (if THRESH \<le> n then THRESH else n);
                  j = find_min cmp ys 0 0 hi;
                  zs = (if j \<noteq> 0 then swap ys 0 j else ys)
              in insertion cmp zs 0 n)"

section \<open>The insertion step\<close>

lemma shift_in_eq:
  "i < length xs \<Longrightarrow> hi \<le> i \<Longrightarrow> shift_in xs i hi c = take hi xs @ c # drop hi (take i xs) @ drop (Suc i) xs"
proof (induction i arbitrary: xs)
  case 0
  then show ?case by (cases xs) auto
next
  case (Suc i)
  show ?case
  proof (cases "hi \<le> i")
    case True
    let ?ys = "xs[Suc i := xs ! i]"
    have "shift_in ?ys i hi c = take hi ?ys @ c # drop hi (take i ?ys) @ drop (Suc i) ?ys"
      using Suc True by (intro Suc.IH) auto
    moreover have "drop (Suc i) ?ys = xs ! i # drop (Suc (Suc i)) xs"
      using Suc.prems(1) by (subst Cons_nth_drop_Suc[symmetric]) auto
    moreover have "drop hi (take (Suc i) xs) = drop hi (take i xs) @ [xs ! i]"
      using Suc.prems(1) True by (simp add: take_Suc_conv_app_nth)
    ultimately show ?thesis using True by simp
  next
    case False
    then have "hi = Suc i" using Suc.prems(2) by simp
    with Suc.prems(1) show ?thesis by (simp add: upd_conv_take_nth_drop)
  qed
qed

lemma find_slot_ge: "find_slot cmp xs hi mv = Some h \<Longrightarrow> 0 < h \<and> h \<le> hi"
  by (induction cmp xs hi mv rule: find_slot.induct) (auto split: if_splits)

text \<open>The array with the element at \<open>m\<close> moved to \<open>hi\<close>.\<close>

definition moved :: "'a list \<Rightarrow> nat \<Rightarrow> nat \<Rightarrow> 'a list" where
  "moved xs m hi = take hi xs @ xs ! m # drop hi (take m xs) @ drop (Suc m) xs"

lemma insert_eq_moved:
  assumes "m < length xs" "hi \<le> m"
  shows "(if hi \<noteq> m then shift_in xs m hi (xs ! m) else xs) = moved xs m hi"
  using assms by (auto simp: moved_def shift_in_eq id_take_nth_drop[symmetric])

lemma split_at_slot:
  assumes "m < length xs" "hi \<le> m"
  shows "xs = take hi xs @ drop hi (take m xs) @ xs ! m # drop (Suc m) xs"
proof -
  have "take hi xs @ drop hi (take m xs) = take m xs"
    using assms(2) by (metis append_take_drop_id min.absorb1 take_take)
  then show ?thesis using id_take_nth_drop[OF assms(1)] by (metis append_assoc)
qed

lemma mset_moved: "m < length xs \<Longrightarrow> hi \<le> m \<Longrightarrow> mset (moved xs m hi) = mset xs"
proof -
  assume "m < length xs" "hi \<le> m"
  from arg_cong[OF split_at_slot[OF this], of mset] show ?thesis by (simp add: moved_def)
qed

lemma length_moved: "m < length xs \<Longrightarrow> hi \<le> m \<Longrightarrow> length (moved xs m hi) = length xs"
  using mset_moved[of m xs hi] by (metis size_mset)

section \<open>Correctness for a total preorder\<close>

lemma scan_up_passed: "i \<le> k \<Longrightarrow> k < scan_up cmp xs i mid \<Longrightarrow> cmp (xs ! k) (xs ! mid) \<le> 0"
proof (induction cmp xs i mid rule: scan_up.induct)
  case (1 cmp xs i mid)
  show ?case
  proof (cases "i < mid \<and> cmp (xs ! i) (xs ! mid) \<le> 0")
    case True
    then have "scan_up cmp xs i mid = scan_up cmp xs (Suc i) mid" by (rule scan_up_go)
    with True 1 show ?thesis by (cases "k = i") auto
  next
    case False
    then have "scan_up cmp xs i mid = i" by (rule scan_up_halt)
    with 1(2,3) show ?thesis by simp
  qed
qed

lemma scan_up_stop: "scan_up cmp xs i mid < mid \<Longrightarrow> 0 < cmp (xs ! scan_up cmp xs i mid) (xs ! mid)"
proof (induction cmp xs i mid rule: scan_up.induct)
  case (1 cmp xs i mid)
  show ?case
  proof (cases "i < mid \<and> cmp (xs ! i) (xs ! mid) \<le> 0")
    case True
    then have "scan_up cmp xs i mid = scan_up cmp xs (Suc i) mid" by (rule scan_up_go)
    with True 1 show ?thesis by simp
  next
    case False
    then have "scan_up cmp xs i mid = i" by (rule scan_up_halt)
    with False 1(2) show ?thesis by simp
  qed
qed

lemma scan_down_passed: "scan_down cmp xs mid j < k \<Longrightarrow> k \<le> j \<Longrightarrow> cmp (xs ! mid) (xs ! k) \<le> 0"
proof (induction cmp xs mid j rule: scan_down.induct)
  case (1 cmp xs mid j)
  show ?case
  proof (cases "mid < j \<and> cmp (xs ! mid) (xs ! j) \<le> 0")
    case True
    then have "scan_down cmp xs mid j = scan_down cmp xs mid (j - 1)" by (rule scan_down_go)
    with True 1 show ?thesis by (cases "k = j") auto
  next
    case False
    then have "scan_down cmp xs mid j = j" by (rule scan_down_halt)
    with 1(2,3) show ?thesis by simp
  qed
qed

lemma scan_down_stop: "mid < scan_down cmp xs mid j \<Longrightarrow> 0 < cmp (xs ! mid) (xs ! scan_down cmp xs mid j)"
proof (induction cmp xs mid j rule: scan_down.induct)
  case (1 cmp xs mid j)
  show ?case
  proof (cases "mid < j \<and> cmp (xs ! mid) (xs ! j) \<le> 0")
    case True
    then have "scan_down cmp xs mid j = scan_down cmp xs mid (j - 1)" by (rule scan_down_go)
    with True 1 show ?thesis by simp
  next
    case False
    then have "scan_down cmp xs mid j = j" by (rule scan_down_halt)
    with False 1(2) show ?thesis by simp
  qed
qed

text \<open>
  The contract of a comparison routine: a total preorder. Everything the sort promises is
  proved here from these two laws.
\<close>

locale cmp_order =
  fixes cmp :: "'a compar"
  assumes total: "0 < cmp x y \<Longrightarrow> cmp y x \<le> 0"
    and trans: "cmp x y \<le> 0 \<Longrightarrow> cmp y z \<le> 0 \<Longrightarrow> cmp x z \<le> 0"
begin

lemma refl: "cmp x x \<le> 0"
  using total[of x x] by linarith

lemma le_cases: "cmp x y \<le> 0 \<or> cmp y x \<le> 0"
  using total[of x y] by linarith

text \<open>The invariant of the partitioning loop over the segment from \<open>a\<close> to \<open>b\<close> of \<open>xs0\<close>.\<close>

definition part_inv :: "'a list \<Rightarrow> nat \<Rightarrow> nat \<Rightarrow> 'a list \<Rightarrow> nat \<Rightarrow> nat \<Rightarrow> nat \<Rightarrow> bool" where
  "part_inv xs0 a b xs i j mid \<longleftrightarrow> perm_in a b xs0 xs \<and> a \<le> i \<and> i \<le> mid \<and> mid \<le> j \<and> j < b
     \<and> b \<le> length xs \<and> (\<forall>k. a \<le> k \<and> k < i \<longrightarrow> cmp (xs ! k) (xs ! mid) \<le> 0)
     \<and> (\<forall>k. j < k \<and> k < b \<longrightarrow> cmp (xs ! mid) (xs ! k) \<le> 0)"

definition parted :: "'a list \<Rightarrow> nat \<Rightarrow> nat \<Rightarrow> 'a list \<Rightarrow> nat \<Rightarrow> bool" where
  "parted xs0 a b ys m \<longleftrightarrow> perm_in a b xs0 ys \<and> a \<le> m \<and> m < b
     \<and> (\<forall>k. a \<le> k \<and> k < m \<longrightarrow> cmp (ys ! k) (ys ! m) \<le> 0)
     \<and> (\<forall>k. m < k \<and> k < b \<longrightarrow> cmp (ys ! m) (ys ! k) \<le> 0)"

lemma part_inv_scan:
  assumes "part_inv xs0 a b xs i j mid"
  shows "part_inv xs0 a b xs (scan_up cmp xs i mid) (scan_down cmp xs mid j) mid"
proof -
  let ?i = "scan_up cmp xs i mid" and ?j = "scan_down cmp xs mid j"
  have "i \<le> ?i" "?i \<le> mid" "?j \<le> j" "mid \<le> ?j"
    using assms scan_up_bounds(1)[of i cmp xs mid] scan_up_bounds(2)[of i mid cmp xs]
      scan_down_bounds(1)[of cmp xs mid j] scan_down_bounds(2)[of mid j cmp xs]
    by (auto simp: part_inv_def)
  moreover have "cmp (xs ! k) (xs ! mid) \<le> 0" if "a \<le> k" "k < ?i" for k
    using that assms scan_up_passed[of i k cmp xs mid] by (cases "k < i") (auto simp: part_inv_def)
  moreover have "cmp (xs ! mid) (xs ! k) \<le> 0" if "?j < k" "k < b" for k
    using that assms scan_down_passed[of cmp xs mid j k] by (cases "j < k") (auto simp: part_inv_def)
  ultimately show ?thesis using assms by (auto simp: part_inv_def)
qed

text \<open>The three exchanges, from a state in which both scans have stopped.\<close>

lemma exchange_mid_right:
  assumes "part_inv xs0 a b xs mid j mid" "mid < j" "0 < cmp (xs ! mid) (xs ! j)"
  shows "part_inv xs0 a b (swap xs mid j) (Suc mid) j j"
proof -
  have l: "mid < length xs" "j < length xs" using assms by (auto simp: part_inv_def)
  have "perm_in a b xs (swap xs mid j)"
    using assms by (intro perm_in_swap) (auto simp: part_inv_def)
  then have p: "perm_in a b xs0 (swap xs mid j)"
    using assms(1) perm_in_trans by (auto simp: part_inv_def)
  have "cmp (swap xs mid j ! k) (xs ! mid) \<le> 0" if "a \<le> k" "k < Suc mid" for k
    using that assms total[OF assms(3)] l by (cases "k = mid") (auto simp: part_inv_def swap_nth)
  moreover have "cmp (xs ! mid) (swap xs mid j ! k) \<le> 0" if "j < k" "k < b" for k
    using that assms l by (auto simp: part_inv_def swap_nth)
  ultimately show ?thesis
    using p assms l by (auto simp: part_inv_def swap_nth)
qed

lemma exchange_both:
  assumes "part_inv xs0 a b xs i j mid" "i < mid" "mid < j"
    and "0 < cmp (xs ! i) (xs ! mid)" "0 < cmp (xs ! mid) (xs ! j)"
  shows "part_inv xs0 a b (swap xs i j) (Suc i) (j - 1) mid"
proof -
  have l: "i < length xs" "mid < length xs" "j < length xs" using assms by (auto simp: part_inv_def)
  have "perm_in a b xs (swap xs i j)"
    using assms by (intro perm_in_swap) (auto simp: part_inv_def)
  then have p: "perm_in a b xs0 (swap xs i j)"
    using assms(1) perm_in_trans by (auto simp: part_inv_def)
  have m: "swap xs i j ! mid = xs ! mid" using assms l by (simp add: swap_nth)
  have "cmp (swap xs i j ! k) (xs ! mid) \<le> 0" if "a \<le> k" "k < Suc i" for k
    using that assms total[OF assms(5)] l by (cases "k = i") (auto simp: part_inv_def swap_nth)
  moreover have "cmp (xs ! mid) (swap xs i j ! k) \<le> 0" if "j - 1 < k" "k < b" for k
    using that assms total[OF assms(4)] l by (cases "k = j") (auto simp: part_inv_def swap_nth)
  ultimately show ?thesis
    using p assms m by (auto simp: part_inv_def)
qed

lemma exchange_left_mid:
  assumes "part_inv xs0 a b xs i mid mid" "i < mid" "0 < cmp (xs ! i) (xs ! mid)"
  shows "part_inv xs0 a b (swap xs i mid) i (mid - 1) i"
proof -
  have l: "i < length xs" "mid < length xs" using assms by (auto simp: part_inv_def)
  have "perm_in a b xs (swap xs i mid)"
    using assms by (intro perm_in_swap) (auto simp: part_inv_def)
  then have p: "perm_in a b xs0 (swap xs i mid)"
    using assms(1) perm_in_trans by (auto simp: part_inv_def)
  have m: "swap xs i mid ! i = xs ! mid" using assms l by (simp add: swap_nth)
  have "cmp (swap xs i mid ! k) (xs ! mid) \<le> 0" if "a \<le> k" "k < i" for k
    using that assms l by (auto simp: part_inv_def swap_nth)
  moreover have "cmp (xs ! mid) (swap xs i mid ! k) \<le> 0" if "mid - 1 < k" "k < b" for k
    using that assms total[OF assms(3)] l by (cases "k = mid") (auto simp: part_inv_def swap_nth)
  ultimately show ?thesis
    using p assms m by (auto simp: part_inv_def)
qed

lemma part_step_inv:
  assumes "part_inv xs0 a b xs i j mid" "part_step cmp xs i j mid = Inr (ys, i', j', mid')"
  shows "part_inv xs0 a b ys i' j' mid'"
proof -
  let ?i = "scan_up cmp xs i mid" and ?j = "scan_down cmp xs mid j"
  note inv = part_inv_scan[OF assms(1)]
  then have b: "?i \<le> mid" "mid \<le> ?j" by (auto simp: part_inv_def)
  consider "mid < ?j" "?i = mid" | "mid < ?j" "?i < mid" | "?j = mid" "?i < mid"
    using assms(2) b by (cases "mid < ?j"; cases "?i = mid") (auto simp: part_step_def Let_def)
  then show ?thesis
  proof cases
    case 1
    with inv have "part_inv xs0 a b (swap xs mid ?j) (Suc mid) ?j ?j"
      using scan_down_stop[of mid cmp xs j] by (intro exchange_mid_right) auto
    with assms(2) 1 show ?thesis by (auto simp: part_step_def Let_def)
  next
    case 2
    with inv have "part_inv xs0 a b (swap xs ?i ?j) (Suc ?i) (?j - 1) mid"
      using scan_down_stop[of mid cmp xs j] scan_up_stop[of cmp xs i mid] by (intro exchange_both) auto
    with assms(2) 2 show ?thesis by (auto simp: part_step_def Let_def)
  next
    case 3
    with inv have "part_inv xs0 a b (swap xs ?i mid) ?i (mid - 1) ?i"
      using scan_up_stop[of cmp xs i mid] by (intro exchange_left_mid) auto
    with assms(2) 3 show ?thesis by (auto simp: part_step_def Let_def)
  qed
qed

lemma part_step_exit:
  assumes "part_inv xs0 a b xs i j mid" "part_step cmp xs i j mid = Inl mid"
  shows "parted xs0 a b xs mid"
proof -
  have "\<not> mid < scan_down cmp xs mid j" "scan_up cmp xs i mid = mid"
    using assms(2) by (auto simp: part_step_def Let_def split: if_splits)
  then show ?thesis
    using part_inv_scan[OF assms(1)] unfolding part_inv_def parted_def by auto
qed

lemma part_loop_parted:
  assumes "part_inv xs0 a b xs i j mid" "part_loop cmp xs i j mid = (ys, m)"
  shows "parted xs0 a b ys m"
  using part_step_inv part_step_exit
  by (rule part_loop_rule[where I = "part_inv xs0 a b", OF assms(1) _ _ assms(2)])

lemma median_perm:
  assumes "base \<le> mid" "mid < maxval" "maxval \<le> length xs"
  shows "perm_in base maxval xs (median cmp xs base mid maxval)"
  using assms unfolding median_def Let_def
  by (auto intro!: perm_in_swap perm_in_refl)

lemma partition_seg_parted:
  assumes "partition_seg cmp xs base maxval = (ys, m)" "base < maxval" "maxval \<le> length xs"
  shows "parted xs base maxval ys m"
proof -
  let ?mid = "base + (maxval - base) div 2"
  let ?xs = "if MTHRESH \<le> maxval - base then median cmp xs base ?mid maxval else xs"
  have mid: "base \<le> ?mid" "?mid < maxval" using assms(2) by auto
  then have p: "perm_in base maxval xs ?xs"
    using assms(3) by (auto intro: median_perm perm_in_refl)
  then have "part_inv xs base maxval ?xs base (maxval - 1) ?mid"
    using mid assms(2,3) perm_in_length[OF p] unfolding part_inv_def by auto
  then show ?thesis
    using assms(1) unfolding partition_seg_def Let_def by (rule part_loop_parted)
qed

lemma parted_left:
  assumes "parted xs0 a b ys m" "perm_in a m ys zs"
  shows "parted xs0 a b zs m"
proof -
  have m: "a \<le> m" "m < b" "zs ! m = ys ! m"
    using assms(1) perm_in_outside[OF assms(2), of m] by (auto simp: parted_def)
  have "perm_in a b xs0 zs"
    using assms m perm_in_trans[of a b xs0 ys zs] perm_in_widen[OF assms(2), of a b] by (simp add: parted_def)
  moreover have "cmp (zs ! k) (ys ! m) \<le> 0" if "a \<le> k" "k < m" for k
    using assms(1) perm_in_all[OF assms(2), of "\<lambda>x. cmp x (ys ! m) \<le> 0"] that by (auto simp: parted_def)
  moreover have "cmp (ys ! m) (zs ! k) \<le> 0" if "m < k" "k < b" for k
    using assms(1) perm_in_outside[OF assms(2), of k] that by (auto simp: parted_def)
  ultimately show ?thesis using m by (auto simp: parted_def)
qed

lemma parted_right:
  assumes "parted xs0 a b ys m" "perm_in (Suc m) b ys zs"
  shows "parted xs0 a b zs m"
proof -
  have m: "a \<le> m" "m < b" "zs ! m = ys ! m"
    using assms(1) perm_in_outside[OF assms(2), of m] by (auto simp: parted_def)
  have "perm_in a b xs0 zs"
    using assms m perm_in_trans[of a b xs0 ys zs] perm_in_widen[OF assms(2), of a b] by (simp add: parted_def)
  moreover have "cmp (ys ! m) (zs ! k) \<le> 0" if "m < k" "k < b" for k
    using assms(1) perm_in_all[OF assms(2), of "\<lambda>x. cmp (ys ! m) x \<le> 0"] that by (auto simp: parted_def)
  moreover have "cmp (zs ! k) (ys ! m) \<le> 0" if "a \<le> k" "k < m" for k
    using assms(1) perm_in_outside[OF assms(2), of k] that by (auto simp: parted_def)
  ultimately show ?thesis using m by (auto simp: parted_def)
qed

text \<open>A least element of the segment is among its first \<^verbatim>\<open>THRESH\<close> elements.\<close>

definition min_first :: "'a list \<Rightarrow> nat \<Rightarrow> nat \<Rightarrow> bool" where
  "min_first xs a b \<longleftrightarrow>
     (\<exists>k. a \<le> k \<and> k < a + THRESH \<and> k < b \<and> (\<forall>l. a \<le> l \<and> l < b \<longrightarrow> cmp (xs ! k) (xs ! l) \<le> 0))"

lemma exists_min: "a \<le> m \<Longrightarrow> \<exists>k. a \<le> k \<and> k \<le> m \<and> (\<forall>l. a \<le> l \<and> l \<le> m \<longrightarrow> cmp (xs ! k) (xs ! l) \<le> 0)"
proof (induction m)
  case 0
  then show ?case using refl by auto
next
  case (Suc m)
  show ?case
  proof (cases "a = Suc m")
    case True
    then show ?thesis using refl by (intro exI[of _ "Suc m"]) auto
  next
    case False
    then obtain k where k: "a \<le> k" "k \<le> m" "\<forall>l. a \<le> l \<and> l \<le> m \<longrightarrow> cmp (xs ! k) (xs ! l) \<le> 0"
      using Suc by auto
    show ?thesis
    proof (cases "cmp (xs ! k) (xs ! Suc m) \<le> 0")
      case True
      with k show ?thesis by (intro exI[of _ k]) (auto simp: le_Suc_eq)
    next
      case False
      then have "cmp (xs ! Suc m) (xs ! k) \<le> 0" using total by simp
      with k Suc.prems refl show ?thesis
        by (intro exI[of _ "Suc m"]) (auto simp: le_Suc_eq intro: trans)
    qed
  qed
qed

lemma min_first_parted:
  assumes "parted xs0 a b zs m" "m - a < THRESH \<or> min_first zs a m"
  shows "min_first zs a b"
proof -
  have m: "a \<le> m" "m < b" "\<And>k. a \<le> k \<Longrightarrow> k < m \<Longrightarrow> cmp (zs ! k) (zs ! m) \<le> 0"
    "\<And>k. m < k \<Longrightarrow> k < b \<Longrightarrow> cmp (zs ! m) (zs ! k) \<le> 0"
    using assms(1) by (auto simp: parted_def)
  obtain k where k: "a \<le> k" "k < a + THRESH" "k \<le> m" "\<forall>l. a \<le> l \<and> l \<le> m \<longrightarrow> cmp (zs ! k) (zs ! l) \<le> 0"
  proof (cases "m - a < THRESH")
    case True
    with exists_min[OF m(1), of zs] that m(1) show ?thesis by force
  next
    case False
    with assms(2) obtain k where "a \<le> k" "k < a + THRESH" "k < m" "\<forall>l. a \<le> l \<and> l < m \<longrightarrow> cmp (zs ! k) (zs ! l) \<le> 0"
      by (auto simp: min_first_def)
    with that m(3)[of k] show ?thesis by (auto simp: le_less)
  qed
  have "cmp (zs ! k) (zs ! l) \<le> 0" if "a \<le> l" "l < b" for l
    using k(1,3,4) m that trans[of "zs ! k" "zs ! m" "zs ! l"] by (cases "l \<le> m") auto
  with k m show ?thesis unfolding min_first_def by (intro exI[of _ k]) auto
qed

lemma min_first_cong: "min_first xs a b \<Longrightarrow> (\<And>k. a \<le> k \<Longrightarrow> k < b \<Longrightarrow> ys ! k = xs ! k) \<Longrightarrow> min_first ys a b"
  unfolding min_first_def by metis

lemma qst_spec:
  "base < maxval \<Longrightarrow> maxval \<le> length xs
    \<Longrightarrow> perm_in base maxval xs (qst cmp xs base maxval) \<and> min_first (qst cmp xs base maxval) base maxval"
proof (induction "maxval - base" arbitrary: xs base maxval rule: less_induct)
  case less
  obtain ys m where ys: "partition_seg cmp xs base maxval = (ys, m)" by fastforce
  have pt: "parted xs base maxval ys m" using ys less.prems by (rule partition_seg_parted)
  then have m: "base \<le> m" "m < maxval" "maxval \<le> length ys"
    using less.prems by (auto simp: parted_def dest: perm_in_length)
  let ?L = "\<lambda>zs. if THRESH \<le> m - base then qst cmp zs base m else zs"
  let ?R = "\<lambda>zs. if THRESH \<le> maxval - Suc m then qst cmp zs (Suc m) maxval else zs"
  have L: "perm_in base m zs (?L zs) \<and> (m - base < THRESH \<or> min_first (?L zs) base m)"
    if "maxval \<le> length zs" for zs
    using less.hyps[of m base zs] that m by (auto simp: THRESH_def intro: perm_in_refl)
  have R: "perm_in (Suc m) maxval zs (?R zs)" if "maxval \<le> length zs" for zs
    using less.hyps[of maxval "Suc m" zs] that m by (auto simp: THRESH_def intro: perm_in_refl)
  have done1: "perm_in base maxval xs (?R (?L ys)) \<and> min_first (?R (?L ys)) base maxval"
  proof -
    have a: "perm_in base m ys (?L ys)" and b: "m - base < THRESH \<or> min_first (?L ys) base m"
      using L m(3) by blast+
    have "maxval \<le> length (?L ys)" using a m(3) by (simp only: perm_in_length)
    then have c: "perm_in (Suc m) maxval (?L ys) (?R (?L ys))" by (rule R)
    have "parted xs base maxval (?R (?L ys)) m"
      using parted_right[OF parted_left[OF pt a] c] .
    moreover have "m - base < THRESH \<or> min_first (?R (?L ys)) base m"
      using b min_first_cong[of "?L ys" base m "?R (?L ys)"] perm_in_outside[OF c] by auto
    ultimately show ?thesis using min_first_parted by (auto simp: parted_def)
  qed
  have done2: "perm_in base maxval xs (?L (?R ys)) \<and> min_first (?L (?R ys)) base maxval"
  proof -
    have a: "perm_in (Suc m) maxval ys (?R ys)" using m(3) by (rule R)
    have "maxval \<le> length (?R ys)" using a m(3) by (simp only: perm_in_length)
    then have b: "perm_in base m (?R ys) (?L (?R ys))" "m - base < THRESH \<or> min_first (?L (?R ys)) base m"
      using L by blast+
    have "parted xs base maxval (?L (?R ys)) m"
      using parted_left[OF parted_right[OF pt a] b(1)] .
    with b(2) show ?thesis using min_first_parted by (auto simp: parted_def)
  qed
  have "qst cmp xs base maxval = (if m - base \<le> maxval - Suc m then ?R (?L ys) else ?L (?R ys))"
    by (subst qst.simps) (simp add: ys Let_def)
  then show ?case using done1 done2 by presburger
qed

lemma find_min_spec:
  "j \<le> lo \<Longrightarrow> lo < hi \<Longrightarrow> (\<forall>l \<le> lo. cmp (xs ! j) (xs ! l) \<le> 0)
    \<Longrightarrow> find_min cmp xs j lo hi < hi \<and> (\<forall>l < hi. cmp (xs ! find_min cmp xs j lo hi) (xs ! l) \<le> 0)"
proof (induction "hi - lo" arbitrary: j lo rule: less_induct)
  case less
  show ?case
  proof (cases "Suc lo < hi")
    case False
    with less.prems show ?thesis by (subst (1 2) find_min.simps) auto
  next
    case True
    let ?j = "if cmp (xs ! j) (xs ! Suc lo) > 0 then Suc lo else j"
    have "\<forall>l \<le> Suc lo. cmp (xs ! ?j) (xs ! l) \<le> 0"
      using less.prems refl total[of "xs ! j" "xs ! Suc lo"] by (auto simp: le_Suc_eq intro: trans)
    then have "find_min cmp xs ?j (Suc lo) hi < hi
        \<and> (\<forall>l < hi. cmp (xs ! find_min cmp xs ?j (Suc lo) hi) (xs ! l) \<le> 0)"
      using less.prems True by (intro less.hyps) auto
    moreover have "find_min cmp xs j lo hi = find_min cmp xs ?j (Suc lo) hi"
      using True by (subst find_min.simps) simp
    ultimately show ?thesis by simp
  qed
qed

lemma find_slot_sentinel:
  "cmp (xs ! 0) (xs ! mv) \<le> 0 \<Longrightarrow> 0 < hi \<Longrightarrow> \<exists>h. find_slot cmp xs hi mv = Some h \<and> 0 < h \<and> h \<le> hi
    \<and> cmp (xs ! (h - 1)) (xs ! mv) \<le> 0 \<and> (\<forall>k. h \<le> k \<and> k < hi \<longrightarrow> 0 < cmp (xs ! k) (xs ! mv))"
proof (induction hi)
  case (Suc hi)
  show ?case
  proof (cases "0 < cmp (xs ! hi) (xs ! mv)")
    case True
    with Suc.prems have "0 < hi" by (cases hi) auto
    with Suc True show ?thesis by (auto simp: less_Suc_eq le_Suc_eq)
  qed auto
qed simp

text \<open>Sorted as far as \<open>m\<close>, with a least element as sentinel in the first place.\<close>

definition ins_inv :: "'a list \<Rightarrow> nat \<Rightarrow> bool" where
  "ins_inv xs m \<longleftrightarrow> m \<le> length xs \<and> sorted_wrt (\<lambda>x y. cmp x y \<le> 0) (take m xs)
     \<and> (\<forall>l < length xs. cmp (xs ! 0) (xs ! l) \<le> 0)"

lemma moved_inv:
  assumes inv: "ins_inv xs m" and m: "m < length xs" and h: "0 < h" "h \<le> m"
    and le: "cmp (xs ! (h - 1)) (xs ! m) \<le> 0"
    and gt: "\<And>k. h \<le> k \<Longrightarrow> k < m \<Longrightarrow> 0 < cmp (xs ! k) (xs ! m)"
  shows "ins_inv (moved xs m h) (Suc m)"
proof -
  let ?x = "xs ! m" and ?u = "take h xs" and ?v = "drop h (take m xs)"
  have uv: "take m xs = ?u @ ?v"
    using h(2) by (metis append_take_drop_id min.absorb1 take_take)
  then have s: "sorted_wrt (\<lambda>x y. cmp x y \<le> 0) (?u @ ?v)" using inv by (simp add: ins_inv_def)
  have v: "cmp ?x y \<le> 0" if "y \<in> set ?v" for y
  proof -
    from that obtain k where "k < length ?v" "y = ?v ! k" by (auto simp: in_set_conv_nth)
    with m h have "y = xs ! (h + k)" "h + k < m" by auto
    with gt[of "h + k"] total show ?thesis by simp
  qed
  have u: "cmp y ?x \<le> 0" if "y \<in> set ?u" for y
  proof -
    from that obtain k where k: "k < h" "y = xs ! k" using m h by (auto simp: in_set_conv_nth)
    show ?thesis
    proof (cases "k = h - 1")
      case False
      have "sorted_wrt (\<lambda>x y. cmp x y \<le> 0) ?u" using s by (simp add: sorted_wrt_append)
      then have "cmp (xs ! k) (xs ! (h - 1)) \<le> 0"
        using False k m h sorted_wrt_nth_less[of "\<lambda>x y. cmp x y \<le> 0" ?u k "h - 1"] by auto
      with le k trans show ?thesis by blast
    qed (use le k in simp)
  qed
  have "sorted_wrt (\<lambda>x y. cmp x y \<le> 0) (?u @ ?x # ?v)"
    using s u v by (auto simp: sorted_wrt_append)
  moreover have "take (Suc m) (moved xs m h) = ?u @ ?x # ?v"
    using m h by (simp add: moved_def min_def Suc_diff_le)
  moreover have "cmp (moved xs m h ! 0) (moved xs m h ! l) \<le> 0" if "l < length (moved xs m h)" for l
  proof -
    have "moved xs m h ! 0 = xs ! 0" using h m by (cases xs; cases h) (auto simp: moved_def)
    moreover have "moved xs m h ! l \<in> set xs"
      using that mset_moved[OF m h(2)] by (metis mset_eq_setD nth_mem)
    ultimately show ?thesis using inv by (auto simp: ins_inv_def in_set_conv_nth)
  qed
  ultimately show ?thesis
    using m length_moved[OF m h(2)] by (auto simp: ins_inv_def)
qed

lemma insertion_spec:
  "ins_inv xs (Suc m) \<Longrightarrow> n = length xs \<Longrightarrow> \<exists>ys. insertion cmp xs m n = Some ys \<and> mset ys = mset xs
    \<and> sorted_wrt (\<lambda>x y. cmp x y \<le> 0) ys"
proof (induction "n - m" arbitrary: xs m rule: less_induct)
  case less
  show ?case
  proof (cases "Suc m < n")
    case False
    then have "take (Suc m) xs = xs" using less.prems by simp
    with False less.prems show ?thesis by (subst insertion.simps) (auto simp: ins_inv_def)
  next
    case True
    let ?m = "Suc m"
    have "cmp (xs ! 0) (xs ! ?m) \<le> 0" using less.prems True by (simp add: ins_inv_def)
    then obtain h where h: "find_slot cmp xs ?m ?m = Some h" "0 < h" "h \<le> ?m" "cmp (xs ! (h - 1)) (xs ! ?m) \<le> 0"
      "\<And>k. h \<le> k \<Longrightarrow> k < ?m \<Longrightarrow> 0 < cmp (xs ! k) (xs ! ?m)"
      using find_slot_sentinel[of xs ?m ?m] by auto
    let ?ys = "moved xs ?m h"
    have l: "?m < length xs" using True less.prems(2) by simp
    have "ins_inv ?ys (Suc ?m)" using less.prems(1) l h(2-5) by (rule moved_inv)
    moreover have "n - ?m < n - m" "n = length ?ys"
      using True less.prems(2) length_moved[OF l h(3)] by auto
    ultimately obtain zs where "insertion cmp ?ys ?m n = Some zs" "mset zs = mset ?ys"
      "sorted_wrt (\<lambda>x y. cmp x y \<le> 0) zs"
      using less.hyps by blast
    moreover have "insertion cmp xs m n = insertion cmp ?ys ?m n"
      using True h(1) insert_eq_moved[OF l h(3)] by (subst insertion.simps) simp
    ultimately show ?thesis using mset_moved[OF l h(3)] by simp
  qed
qed

lemma sentinel_swap:
  assumes "j < length ys" "\<forall>l < length ys. cmp (ys ! j) (ys ! l) \<le> 0"
  shows "length (swap ys 0 j) = length ys" "mset (swap ys 0 j) = mset ys" "ins_inv (swap ys 0 j) (Suc 0)"
proof -
  have l: "0 < length ys" using assms(1) by linarith
  have p: "perm_in 0 (length ys) ys (swap ys 0 j)"
    using assms(1) l by (intro perm_in_swap) auto
  then show "mset (swap ys 0 j) = mset ys" by (rule perm_in_mset)
  show len: "length (swap ys 0 j) = length ys" by simp
  have "swap ys 0 j ! 0 = ys ! j" using l assms(1) by (simp add: swap_nth)
  then have "cmp (swap ys 0 j ! 0) (swap ys 0 j ! l) \<le> 0" if "l < length ys" for l
    using that assms(2) perm_in_all[OF p, of "\<lambda>x. cmp (ys ! j) x \<le> 0" l] by simp
  moreover have "Suc 0 \<le> length ys" using l by linarith
  ultimately show "ins_inv (swap ys 0 j) (Suc 0)"
    using l by (auto simp: ins_inv_def take_Suc_conv_app_nth Suc_le_eq)
qed

lemma swap_same: "swap ys i i = ys"
  by (simp add: swap_def)

lemma qsort_sorts:
  "\<exists>ys. qsort xs cmp = Some ys \<and> mset ys = mset xs \<and> sorted_wrt (\<lambda>x y. cmp x y \<le> 0) ys"
proof (cases "length xs \<le> 1")
  case True
  then show ?thesis by (cases xs) (auto simp: qsort_def)
next
  case False
  let ?n = "length xs" and ?ys = "if THRESH \<le> length xs then qst cmp xs 0 (length xs) else xs"
  let ?hi = "if THRESH \<le> ?n then THRESH else ?n"
  let ?j = "find_min cmp ?ys 0 0 ?hi"
  let ?zs = "swap ?ys 0 ?j"
  have pos: "0 < length xs" using False by linarith
  then have q: "perm_in 0 ?n xs ?ys" "THRESH \<le> ?n \<Longrightarrow> min_first ?ys 0 ?n"
    using qst_spec[of 0 ?n xs] by (auto intro: perm_in_refl)
  have l: "length ?ys = ?n" using q(1) by (rule perm_in_length)
  have hi: "0 < ?hi" using pos by (simp add: THRESH_def)
  have "\<forall>l \<le> 0. cmp (?ys ! 0) (?ys ! l) \<le> 0" using refl by simp
  note * = find_min_spec[OF order.refl hi this]
  then have j: "?j < ?hi" "\<forall>l < ?hi. cmp (?ys ! ?j) (?ys ! l) \<le> 0" by blast+
  have jn: "?j < ?n" using j(1) by (auto split: if_splits)
  have "cmp (?ys ! ?j) (?ys ! l) \<le> 0" if "l < ?n" for l
  proof (cases "THRESH \<le> ?n")
    case True
    then obtain k where "k < THRESH" "\<forall>l. l < ?n \<longrightarrow> cmp (?ys ! k) (?ys ! l) \<le> 0"
      using q(2) by (auto simp: min_first_def)
    with j(2) True that show ?thesis using trans by auto
  qed (use j(2) that in auto)
  then have zs: "length ?zs = ?n" "mset ?zs = mset xs" "ins_inv ?zs (Suc 0)"
    using sentinel_swap[of ?j ?ys, unfolded l, OF jn] perm_in_mset[OF q(1)] by metis+
  then obtain ws where "insertion cmp ?zs 0 ?n = Some ws" "mset ws = mset ?zs" "sorted_wrt (\<lambda>x y. cmp x y \<le> 0) ws"
    using insertion_spec[of ?zs 0 ?n] by metis
  moreover have "(if ?j \<noteq> 0 then swap ?ys 0 ?j else ?ys) = ?zs"
    by (metis swap_same)
  then have "qsort xs cmp = insertion cmp ?zs 0 ?n"
    using False unfolding qsort_def Let_def by simp
  ultimately show ?thesis
    using zs(2) by (intro exI[of _ ws]) simp
qed

end

end
