(* ===== verification/Zopdir.thy ===== *)
theory Zopdir
  imports Qsort CPrelude "HOL-Library.List_Lexorder"
begin

text \<open>
  The kernel directory driver \<^verbatim>\<open>unix/os/zopdir.c\<close>: \<^verbatim>\<open>ZOPDIR\<close> reads a directory into a
  growing string buffer and a growing table of offsets, sorts the table with the private
  copy of the quicker sort, and \<^verbatim>\<open>ZGFDIR\<close> hands out one name per call. Buffers are byte and
  offset lists of their allocated size, so that a store behind the end has no result
  (\<open>None\<close>); the contents that \<^verbatim>\<open>malloc\<close> and \<^verbatim>\<open>realloc\<close> leave in new memory are zeros
  here and are never looked at. Allocations are taken to succeed, except that the caller
  of the model says what \<^verbatim>\<open>realloc\<close> to size zero returns.
\<close>

definition SZ_FNAME :: nat where "SZ_FNAME = 255"
definition SZ_PATHNAME :: nat where "SZ_PATHNAME = 511"
definition DEF_SBUFLEN :: nat where "DEF_SBUFLEN = 8192"
definition DEF_MAXENTRIES :: nat where "DEF_MAXENTRIES = 512"
definition XERR :: int where "XERR = -1"
definition XEOF :: int where "XEOF = -2"
definition XOK :: int where "XOK = 0"

record dir =
  nentries :: nat
  entry :: nat
  sbuf :: "byte list"
  soff :: "nat list"

text \<open>What \<^verbatim>\<open>readdir\<close> returns one by one: inode number and name.\<close>

type_synonym dirents = "(int \<times> byte list) list"

section \<open>Comparison\<close>

text \<open>The standard \<^verbatim>\<open>strcmp\<close>: the order of unsigned characters.\<close>

fun c_strcmp :: "byte list \<Rightarrow> byte list \<Rightarrow> int" where
  "c_strcmp [] [] = 0"
| "c_strcmp [] (d # t) = -1"
| "c_strcmp (c # s) [] = 1"
| "c_strcmp (c # s) (d # t) = (if c = d then c_strcmp s t else if c < d then -1 else 1)"

text \<open>The string at an offset of the buffer.\<close>

definition str_in :: "byte list \<Rightarrow> nat \<Rightarrow> byte list" where
  "str_in buf off = cstr (drop off buf)"

definition d_compar :: "byte list \<Rightarrow> nat \<Rightarrow> nat \<Rightarrow> int" where
  "d_compar buf a b = c_strcmp (str_in buf a) (str_in buf b)"

lemma c_strcmp_le: "c_strcmp s t \<le> 0 \<longleftrightarrow> s \<le> t"
  by (induction s t rule: c_strcmp.induct) (auto simp: Cons_le_Cons)

lemma c_strcmp_pos: "0 < c_strcmp s t \<longleftrightarrow> t < s"
  using c_strcmp_le[of s t] by (metis not_le)

interpretation dirs: cmp_order "d_compar buf" for buf
  by unfold_locales (auto simp: d_compar_def c_strcmp_le c_strcmp_pos)

text \<open>\<^verbatim>\<open>d_qsort\<close> has the text of the library routine.\<close>

definition d_qsort :: "nat list \<Rightarrow> nat compar \<Rightarrow> nat list option" where
  "d_qsort base compar = qsort base compar"

section \<open>Reading a directory\<close>

text \<open>\<^verbatim>\<open>_getfile\<close>: the next entry with an inode number, and what is left to read.\<close>

fun getfile :: "dirents \<Rightarrow> (byte list \<times> dirents) option" where
  "getfile [] = None"
| "getfile ((ino, name) # ents) = (if ino \<noteq> 0 then Some (name, ents) else getfile ents)"

text \<open>The stores of \<^verbatim>\<open>_getfile\<close> into the buffer, terminator included.\<close>

definition put_bytes :: "byte list \<Rightarrow> nat \<Rightarrow> byte list \<Rightarrow> byte list option" where
  "put_bytes buf p bs =
     (if p + length bs \<le> length buf then Some (take p buf @ bs @ drop (p + length bs) buf) else None)"

lemma getfile_decreases: "getfile ents = Some (name, rest) \<Longrightarrow> length rest < length ents"
  by (induction ents rule: getfile.induct) (auto split: if_splits)

text \<open>
  The loop: the name goes to \<open>op\<close>, its offset into the table, then both grow by doubling
  if the next entry might not fit. The lengths are \<^verbatim>\<open>int\<close> in C and do not overflow as long as the names take less
  than 1 GiB.
\<close>

function read_entries ::
  "dirents \<Rightarrow> byte list \<Rightarrow> nat \<Rightarrow> nat list \<Rightarrow> nat \<Rightarrow> (byte list \<times> nat \<times> nat list \<times> nat) option" where
  "read_entries ents buf op off n =
     (case getfile ents of
        None \<Rightarrow> Some (buf, op, off, n)
      | Some (name, rest) \<Rightarrow>
          (case put_bytes buf op (name @ [EOS]) of
             None \<Rightarrow> None
           | Some buf1 \<Rightarrow>
               if length off \<le> n then None
               else
                 let off1 = off[n := op];
                     n1 = Suc n;
                     op1 = op + length name + 1;
                     off2 = (if length off1 \<le> n1 then off1 @ replicate (length off1) 0 else off1);
                     buf2 = (if length buf1 \<le> op1 + SZ_FNAME + 1 then buf1 @ replicate (length buf1) EOS else buf1)
                 in read_entries rest buf2 op1 off2 n1))"
  by pat_completeness auto
termination
  by (relation "measure (\<lambda>(ents, _). length ents)") (auto dest: getfile_decreases)

declare read_entries.simps [simp del]

text \<open>The host file name: a trailing slash is removed. The buffer has \<open>SZ_PATHNAME+1\<close> bytes.\<close>

definition dir_osfn :: "byte list \<Rightarrow> byte list option" where
  "dir_osfn fname =
     (if fname = [] \<or> SZ_PATHNAME < length fname then None
      else if last fname = of_char CHR ''/'' \<and> 1 < length fname then Some (butlast fname)
      else Some fname)"

type_synonym zfd = "nat \<Rightarrow> dir option"

text \<open>
  The arguments \<open>opendir\<close> (what the host finds under a name: its entries and its file
  descriptor) and \<open>null0\<close> (whether \<^verbatim>\<open>realloc\<close> to size zero returns \<^verbatim>\<open>NULL\<close>) stand for the
  host. The result is the channel or \<open>XERR\<close>, and the descriptor table.
\<close>

definition ZOPDIR ::
  "(byte list \<Rightarrow> (dirents \<times> nat) option) \<Rightarrow> bool \<Rightarrow> byte list \<Rightarrow> zfd \<Rightarrow> (int \<times> zfd) option" where
  "ZOPDIR opendir null0 fname zfd = do {
     osfn \<leftarrow> dir_osfn fname;
     (case opendir osfn of
        None \<Rightarrow> Some (XERR, zfd)
      | Some (ents, fd) \<Rightarrow> do {
          (buf, op, off, n) \<leftarrow> read_entries ents (replicate DEF_SBUFLEN EOS) 0 (replicate DEF_MAXENTRIES 0) 0;
          off' \<leftarrow> d_qsort (take n off) (d_compar buf);
          if n = 0 \<and> null0 then Some (XERR, zfd)
          else if op = 0 \<and> null0 then Some (XERR, zfd)
          else Some (int fd, zfd(fd \<mapsto> \<lparr>nentries = n, entry = 0, sbuf = take op buf, soff = off'\<rparr>)) }) }"

definition ZCLDIR :: "nat \<Rightarrow> zfd \<Rightarrow> (int \<times> zfd) option" where
  "ZCLDIR chan zfd = (case zfd chan of None \<Rightarrow> None | Some dp \<Rightarrow> Some (XOK, zfd(chan := None)))"

section \<open>Handing out the names\<close>

text \<open>\<open>for (n = *maxch, nchars=0; --n >= 0 && (*op++ = *ip++); ) nchars++;\<close>\<close>

fun gf_copy :: "nat \<Rightarrow> byte list \<Rightarrow> byte list option" where
  "gf_copy 0 ip = Some []"
| "gf_copy (Suc n) [] = None"
| "gf_copy (Suc n) (c # ip) = (if c \<noteq> EOS then map_option ((#) c) (gf_copy n ip) else Some [])"

text \<open>The string left in \<open>outstr\<close> and the status; at the end \<open>outstr\<close> is not touched.\<close>

definition ZGFDIR :: "nat \<Rightarrow> int \<Rightarrow> zfd \<Rightarrow> (byte list option \<times> int \<times> zfd) option" where
  "ZGFDIR chan maxch zfd =
     (case zfd chan of
        None \<Rightarrow> None
      | Some dp \<Rightarrow>
          if entry dp < nentries dp
          then if length (soff dp) \<le> entry dp then None
               else (let off = soff dp ! entry dp
                 in case gf_copy (nat maxch) (drop off (sbuf dp)) of
                      None \<Rightarrow> None
                    | Some s \<Rightarrow> Some (Some s, int (length s), zfd(chan \<mapsto> dp\<lparr>entry := Suc (entry dp)\<rparr>)))
          else Some (None, XEOF, zfd))"

section \<open>What the buffer and the table hold\<close>

text \<open>The names the driver sees, their image in the buffer and their offsets.\<close>

definition live :: "dirents \<Rightarrow> byte list list" where
  "live ents = map snd (filter (\<lambda>(ino, name). ino \<noteq> 0) ents)"

definition stored :: "byte list list \<Rightarrow> byte list" where
  "stored ns = concat (map (\<lambda>s. s @ [EOS]) ns)"

definition offsets :: "byte list list \<Rightarrow> nat list" where
  "offsets ns = map (\<lambda>i. length (stored (take i ns))) [0..<length ns]"

definition read_inv :: "byte list list \<Rightarrow> byte list \<Rightarrow> nat \<Rightarrow> nat list \<Rightarrow> nat \<Rightarrow> bool" where
  "read_inv ns buf op off n \<longleftrightarrow> n = length ns \<and> op = length (stored ns) \<and> take op buf = stored ns
     \<and> op + SZ_FNAME + 1 < length buf \<and> 2 * SZ_FNAME + 2 \<le> length buf
     \<and> n < length off \<and> take n off = offsets ns"

lemma stored_append [simp]: "stored (xs @ ys) = stored xs @ stored ys"
  by (simp add: stored_def)

lemma stored_simps [simp]: "stored [] = []" "stored (s # ns) = s @ EOS # stored ns"
  by (simp_all add: stored_def)

lemma offsets_snoc: "offsets (ns @ [s]) = offsets ns @ [length (stored ns)]"
  by (simp add: offsets_def)

lemma getfile_live:
  "getfile ents = None \<Longrightarrow> live ents = []"
  "getfile ents = Some (name, rest) \<Longrightarrow> live ents = name # live rest"
  by (induction ents rule: getfile.induct) (auto simp: live_def split: if_splits)

lemma read_inv_step:
  assumes "read_inv ns buf op off n" "length name \<le> SZ_FNAME"
  defines "buf1 \<equiv> take op buf @ (name @ [EOS]) @ drop (op + length (name @ [EOS])) buf"
    and "off1 \<equiv> off[n := op]" and "op1 \<equiv> op + length name + 1"
  shows "put_bytes buf op (name @ [EOS]) = Some buf1"
    and "read_inv (ns @ [name])
      (if length buf1 \<le> op1 + SZ_FNAME + 1 then buf1 @ replicate (length buf1) EOS else buf1) op1
      (if length off1 \<le> Suc n then off1 @ replicate (length off1) 0 else off1) (Suc n)"
proof -
  have i: "n = length ns" "op = length (stored ns)" "take op buf = stored ns"
    "op + SZ_FNAME + 1 < length buf" "2 * SZ_FNAME + 2 \<le> length buf" "n < length off" "take n off = offsets ns"
    using assms(1) by (auto simp: read_inv_def)
  then show "put_bytes buf op (name @ [EOS]) = Some buf1"
    using assms(2) by (simp add: put_bytes_def buf1_def)
  have l: "length buf1 = length buf" "op1 \<le> length buf"
    using i(4) assms(2) by (auto simp: buf1_def op1_def)
  have t: "take op1 buf1 = stored (ns @ [name])" "op1 = length (stored (ns @ [name]))"
    using i(2,3) by (simp_all add: buf1_def op1_def)
  have o: "take (Suc n) off1 = offsets (ns @ [name])"
    using i by (simp add: off1_def offsets_snoc take_Suc_conv_app_nth)
  have "take op1 (buf1 @ replicate (length buf1) EOS) = stored (ns @ [name])" using t l by simp
  moreover have "take (Suc n) (off1 @ replicate (length off1) 0) = offsets (ns @ [name])"
    using o i(6) by (simp add: off1_def)
  ultimately show "read_inv (ns @ [name])
      (if length buf1 \<le> op1 + SZ_FNAME + 1 then buf1 @ replicate (length buf1) EOS else buf1) op1
      (if length off1 \<le> Suc n then off1 @ replicate (length off1) 0 else off1) (Suc n)"
    using t o i(1,5,6) l unfolding read_inv_def by (auto simp: off1_def)
qed

lemma read_entries_inv:
  "read_inv ns buf op off n \<Longrightarrow> \<forall>s \<in> set (live ents). length s \<le> SZ_FNAME
    \<Longrightarrow> \<exists>buf' op' off' n'. read_entries ents buf op off n = Some (buf', op', off', n')
      \<and> read_inv (ns @ live ents) buf' op' off' n'"
proof (induction ents buf op off n arbitrary: ns rule: read_entries.induct)
  case (1 ents buf op off n)
  show ?case
  proof (cases "getfile ents")
    case None
    with 1(2) getfile_live(1) show ?thesis by (subst read_entries.simps) simp
  next
    case (Some r)
    then obtain name rest where g: "getfile ents = Some (name, rest)" by (cases r) auto
    note lv = getfile_live(2)[OF g]
    then have "length name \<le> SZ_FNAME" using 1(3) by simp
    note st = read_inv_step[OF 1(2) this]
    have n: "\<not> length off \<le> n" using 1(2) by (simp add: read_inv_def)
    note IH = 1(1)[OF g refl st(1) n refl refl refl refl refl st(2)]
    have "\<forall>s \<in> set (live rest). length s \<le> SZ_FNAME" using 1(3) lv by simp
    from IH[OF this] show ?thesis
      by (subst read_entries.simps) (simp only: g st(1) n option.case prod.case Let_def if_False lv append_assoc append_Cons append_Nil)
  qed
qed

lemma read_inv_start: "read_inv [] (replicate DEF_SBUFLEN EOS) 0 (replicate DEF_MAXENTRIES 0) 0"
  by (simp add: read_inv_def offsets_def SZ_FNAME_def DEF_SBUFLEN_def DEF_MAXENTRIES_def)

lemma stored_split:
  assumes "i < length ns"
  shows "stored ns = stored (take i ns) @ ns ! i @ EOS # stored (drop (Suc i) ns)"
  by (subst id_take_nth_drop[OF assms]) simp

lemma str_in_stored:
  assumes "i < length ns" "EOS \<notin> set (ns ! i)"
  shows "str_in (stored ns @ r) (offsets ns ! i) = ns ! i"
proof -
  have "drop (offsets ns ! i) (stored ns @ r) = ns ! i @ EOS # stored (drop (Suc i) ns) @ r"
    using assms(1) by (subst stored_split[OF assms(1)]) (simp add: offsets_def)
  with assms(2) show ?thesis by (simp add: str_in_def)
qed

lemma map_str_in_offsets:
  assumes "\<forall>s \<in> set ns. EOS \<notin> set s"
  shows "map (str_in (stored ns @ r)) (offsets ns) = ns"
proof (rule nth_equalityI)
  show l: "length (map (str_in (stored ns @ r)) (offsets ns)) = length ns"
    by (simp add: offsets_def)
  fix i assume "i < length (map (str_in (stored ns @ r)) (offsets ns))"
  with l have "i < length ns" "i < length (offsets ns)" by simp_all
  with assms show "map (str_in (stored ns @ r)) (offsets ns) ! i = ns ! i"
    using str_in_stored[of i ns r] by simp
qed

text \<open>The names a descriptor still has to hand out.\<close>

definition listing :: "dir \<Rightarrow> byte list list" where
  "listing dp = map (str_in (sbuf dp)) (drop (entry dp) (soff dp))"

definition dir_ok :: "dir \<Rightarrow> bool" where
  "dir_ok dp \<longleftrightarrow> nentries dp = length (soff dp) \<and> entry dp \<le> nentries dp
     \<and> (\<forall>off \<in> set (soff dp). EOS \<in> set (drop off (sbuf dp)))"

lemma offsets_terminated:
  assumes "off \<in> set (offsets ns)"
  shows "EOS \<in> set (drop off (stored ns))"
proof -
  from assms obtain i where i: "i < length ns" "off = length (stored (take i ns))"
    by (auto simp: offsets_def)
  then have "drop off (stored ns) = ns ! i @ EOS # stored (drop (Suc i) ns)"
    by (subst stored_split[OF i(1)]) simp
  then show ?thesis by simp
qed

lemma ZOPDIR_opens:
  assumes "dir_osfn fname = Some osfn" "opendir osfn = Some (ents, fd)" "live ents \<noteq> []"
    and "\<forall>s \<in> set (live ents). length s \<le> SZ_FNAME \<and> EOS \<notin> set s"
  shows "\<exists>dp. ZOPDIR opendir null0 fname zfd = Some (int fd, zfd(fd \<mapsto> dp)) \<and> dir_ok dp
    \<and> sorted (listing dp) \<and> mset (listing dp) = mset (live ents) \<and> (\<forall>s \<in> set (listing dp). length s \<le> SZ_FNAME)"
proof -
  let ?ns = "live ents"
  obtain buf op off n where rd: "read_entries ents (replicate DEF_SBUFLEN EOS) 0 (replicate DEF_MAXENTRIES 0) 0
      = Some (buf, op, off, n)" and inv: "read_inv ?ns buf op off n"
    using read_entries_inv[OF read_inv_start, of ents] assms(4) by auto
  then have i: "n = length ?ns" "op = length (stored ?ns)" "take op buf = stored ?ns" "take n off = offsets ?ns"
    by (auto simp: read_inv_def)
  obtain offs where q: "qsort (offsets ?ns) (d_compar buf) = Some offs" "mset offs = mset (offsets ?ns)"
    "sorted_wrt (\<lambda>x y. d_compar buf x y \<le> 0) offs"
    using dirs.qsort_sorts by blast
  let ?dp = "\<lparr>nentries = n, entry = 0, sbuf = take op buf, soff = offs\<rparr>"
  have buf: "buf = stored ?ns @ drop op buf" using i(3) by (metis append_take_drop_id)
  have str: "str_in buf x = str_in (stored ?ns) x" if "x \<in> set (offsets ?ns)" for x
    using offsets_terminated[OF that] that
    by (subst buf, unfold str_in_def cstr_def) (auto simp: offsets_def takeWhile_append1)
  have "set offs = set (offsets ?ns)" using q(2) by (metis mset_eq_setD)
  then have ls: "listing ?dp = map (str_in buf) offs"
    using i(3) str by (auto simp: listing_def)
  have "mset (listing ?dp) = mset (map (str_in buf) (offsets ?ns))"
    using ls q(2) by simp
  also have "map (str_in buf) (offsets ?ns) = ?ns"
    using assms(4) by (subst buf) (rule map_str_in_offsets, blast)
  finally have ms: "mset (listing ?dp) = mset ?ns" .
  have "sorted (listing ?dp)"
    using q(3) unfolding ls sorted_map by (simp add: d_compar_def c_strcmp_le)
  moreover have "dir_ok ?dp"
    using q(2) i offsets_terminated[of _ ?ns] \<open>set offs = _\<close> mset_eq_length[OF q(2)]
    by (auto simp: dir_ok_def offsets_def)
  moreover have "ZOPDIR opendir null0 fname zfd = Some (int fd, zfd(fd \<mapsto> ?dp))"
    using assms(1-3) rd q(1) i(1,2,4) by (cases "live ents") (auto simp: ZOPDIR_def d_qsort_def)
  ultimately show ?thesis
    using ms assms(4) mset_eq_setD[OF ms] by blast
qed

lemma gf_copy_cstr: "EOS \<in> set ip \<Longrightarrow> length (cstr ip) \<le> n \<Longrightarrow> gf_copy n ip = Some (cstr ip)"
proof (induction n ip rule: gf_copy.induct)
  case (1 ip)
  then show ?case by (auto simp: cstr_def)
qed (auto simp: cstr_def)

lemma ZGFDIR_next:
  assumes "zfd fd = Some dp" "dir_ok dp" "listing dp = s # rest" "int (length s) \<le> maxch"
  shows "\<exists>dp'. ZGFDIR fd maxch zfd = Some (Some s, int (length s), zfd(fd \<mapsto> dp'))
    \<and> dir_ok dp' \<and> listing dp' = rest"
proof -
  let ?off = "soff dp ! entry dp"
  have e: "entry dp < length (soff dp)"
    using assms(3) by (auto simp: listing_def intro: ccontr)
  then have "drop (entry dp) (soff dp) = ?off # drop (Suc (entry dp)) (soff dp)"
    by (rule Cons_nth_drop_Suc[symmetric])
  with assms(3) have s: "s = str_in (sbuf dp) ?off" "rest = map (str_in (sbuf dp)) (drop (Suc (entry dp)) (soff dp))"
    by (auto simp: listing_def)
  have "gf_copy (nat maxch) (drop ?off (sbuf dp)) = Some s"
    using assms(2,4) e s(1) unfolding str_in_def dir_ok_def by (auto intro!: gf_copy_cstr)
  then have "ZGFDIR fd maxch zfd = Some (Some s, int (length s), zfd(fd \<mapsto> dp\<lparr>entry := Suc (entry dp)\<rparr>))"
    using assms(1,2) e by (simp add: ZGFDIR_def dir_ok_def)
  moreover have "dir_ok (dp\<lparr>entry := Suc (entry dp)\<rparr>)" "listing (dp\<lparr>entry := Suc (entry dp)\<rparr>) = rest"
    using assms(2) e s(2) by (auto simp: dir_ok_def listing_def)
  ultimately show ?thesis by blast
qed

text \<open>A sequence of calls of \<^verbatim>\<open>ZGFDIR\<close> with what each returned.\<close>

fun read_dir :: "nat \<Rightarrow> nat \<Rightarrow> int \<Rightarrow> zfd \<Rightarrow> (byte list option \<times> int) list option" where
  "read_dir 0 chan maxch zfd = Some []"
| "read_dir (Suc k) chan maxch zfd =
     (case ZGFDIR chan maxch zfd of
        None \<Rightarrow> None
      | Some (s, status, zfd') \<Rightarrow> map_option ((#) (s, status)) (read_dir k chan maxch zfd'))"

lemma read_dir_eof:
  assumes "zfd fd = Some dp" "dir_ok dp" "listing dp = []"
  shows "read_dir k fd maxch zfd = Some (replicate k (None, XEOF))"
proof (induction k)
  case (Suc k)
  have "\<not> entry dp < nentries dp" using assms by (simp add: listing_def dir_ok_def)
  with assms(1) have "ZGFDIR fd maxch zfd = Some (None, XEOF, zfd)" by (simp add: ZGFDIR_def)
  with Suc show ?case by simp
qed simp

lemma read_dir_listing:
  "zfd fd = Some dp \<Longrightarrow> dir_ok dp \<Longrightarrow> \<forall>s \<in> set (listing dp). int (length s) \<le> maxch
    \<Longrightarrow> read_dir (length (listing dp) + k) fd maxch zfd
      = Some (map (\<lambda>s. (Some s, int (length s))) (listing dp) @ replicate k (None, XEOF))"
proof (induction "listing dp" arbitrary: dp zfd)
  case Nil
  then have "listing dp = []" by simp
  with read_dir_eof[of zfd fd dp k maxch] Nil.prems(1,2) show ?case by simp
next
  case (Cons s rest)
  note ls = Cons.hyps(2)[symmetric]
  have "int (length s) \<le> maxch" using Cons.prems(3) ls by simp
  then obtain dp' where st: "ZGFDIR fd maxch zfd = Some (Some s, int (length s), zfd(fd \<mapsto> dp'))"
    "dir_ok dp'" "listing dp' = rest"
    using ZGFDIR_next[of zfd fd dp s rest maxch] Cons.prems(1,2) ls by blast
  have "read_dir (length (listing dp') + k) fd maxch (zfd(fd \<mapsto> dp'))
      = Some (map (\<lambda>s. (Some s, int (length s))) (listing dp') @ replicate k (None, XEOF))"
    using st(2,3) Cons.prems(3) ls by (intro Cons.hyps(1)) auto
  with st ls show ?case by simp
qed

section \<open>Properties\<close>

text \<open>
  C6. Opening a directory that is not empty and reading it to the end returns every name
  exactly once, in ascending order of unsigned characters, and from then on the end of
  file status. No byte is stored outside the string buffer or the offset table, however
  many entries there are.
\<close>

theorem directory_listing_sorted:
  assumes "dir_osfn fname = Some osfn" "opendir osfn = Some (ents, fd)" "live ents \<noteq> []"
    and "\<forall>s \<in> set (live ents). length s \<le> SZ_FNAME \<and> EOS \<notin> set s" "int SZ_FNAME \<le> maxch"
  shows "\<exists>zfd' names. ZOPDIR opendir null0 fname zfd = Some (int fd, zfd')
    \<and> sorted names \<and> mset names = mset (live ents)
    \<and> read_dir (length names + k) fd maxch zfd'
      = Some (map (\<lambda>s. (Some s, int (length s))) names @ replicate k (None, XEOF))"
proof -
  obtain dp where dp: "ZOPDIR opendir null0 fname zfd = Some (int fd, zfd(fd \<mapsto> dp))" "dir_ok dp"
    "sorted (listing dp)" "mset (listing dp) = mset (live ents)" "\<forall>s \<in> set (listing dp). length s \<le> SZ_FNAME"
    using ZOPDIR_opens[of fname osfn opendir ents fd] assms(1-4) by blast
  then have "\<forall>s \<in> set (listing dp). int (length s) \<le> maxch"
    using assms(5) by fastforce
  with dp show ?thesis using read_dir_listing[of "zfd(fd \<mapsto> dp)" fd dp maxch k] by auto
qed

theorem directory_listing_sorted_witness:
  "\<exists>zfd' names. ZOPDIR (\<lambda>_. Some ([(7, [98]), (0, [120]), (5, [97])], 3)) True [100, 47] Map.empty = Some (int 3, zfd')
    \<and> sorted names \<and> mset names = mset (live [(7, [98]), (0, [120]), (5, [97])])
    \<and> read_dir (length names + 2) 3 300 zfd'
      = Some (map (\<lambda>s. (Some s, int (length s))) names @ replicate 2 (None, XEOF))"
  by (rule directory_listing_sorted[where osfn = "[100]"])
     (simp_all add: dir_osfn_def live_def SZ_FNAME_def SZ_PATHNAME_def)

end
