(* ===== verification/Tar.thy ===== *)
theory Tar
  imports LibcStr
begin

text \<open>
  The tar header that \<^verbatim>\<open>unix/boot/wtar/wtar.c\<close> writes and \<^verbatim>\<open>unix/boot/rtar/rtar.c\<close> reads:
  the 512 byte block with its fields at fixed offsets, the conversions of \<^verbatim>\<open>sprintf\<close> and
  \<^verbatim>\<open>sscanf\<close> the two programs use on it, the checksum, the encoder \<^verbatim>\<open>putheader\<close> and the
  decoding half of \<^verbatim>\<open>getheader\<close>. A store behind the block, a field that is not terminated
  where the program copies a string out of it, and a conversion out of range have no
  result (\<open>None\<close>).
\<close>

definition TBLOCK :: nat where "TBLOCK = 512"
definition NBLOCK :: nat where "NBLOCK = 20"
definition NAMSIZ :: nat where "NAMSIZ = 100"
definition SZ_TAPEBUFFER :: nat where "SZ_TAPEBUFFER = TBLOCK * NBLOCK"

definition LF_LINK :: nat where "LF_LINK = 1"
definition LF_SYMLINK :: nat where "LF_SYMLINK = 2"
definition LF_DIR :: nat where "LF_DIR = 5"

record fheader =
  fh_name :: "byte list"
  fh_mode :: cint
  fh_uid :: cint
  fh_gid :: cint
  fh_isdir :: bool
  fh_size :: xint
  fh_mtime :: xint
  fh_linkflag :: nat
  fh_linkname :: "byte list"

text \<open>Offsets of the members of \<^verbatim>\<open>struct header\<close>.\<close>

definition o_name :: nat where "o_name = 0"
definition o_mode :: nat where "o_mode = 100"
definition o_uid :: nat where "o_uid = 108"
definition o_gid :: nat where "o_gid = 116"
definition o_size :: nat where "o_size = 124"
definition o_mtime :: nat where "o_mtime = 136"
definition o_chksum :: nat where "o_chksum = 148"
definition o_linkflag :: nat where "o_linkflag = 156"
definition o_linkname :: nat where "o_linkname = 157"

lemmas o_defs = o_name_def o_mode_def o_uid_def o_gid_def o_size_def o_mtime_def o_chksum_def
  o_linkflag_def o_linkname_def

section \<open>Formatted conversion\<close>

text \<open>Octal digits of an unsigned number, most significant first; \<^verbatim>\<open>%<w>o\<close> pads with blanks.\<close>

fun oct_digits :: "nat \<Rightarrow> byte list" where
  "oct_digits n = (if n < 8 then [word_of_nat (48 + n)]
     else oct_digits (n div 8) @ [word_of_nat (48 + n mod 8)])"

declare oct_digits.simps [simp del]

definition blank :: byte where "blank = 32"

definition fmt_o :: "nat \<Rightarrow> nat \<Rightarrow> byte list" where
  "fmt_o w n = replicate (w - length (oct_digits n)) blank @ oct_digits n"

definition is_oct :: "byte \<Rightarrow> bool" where
  "is_oct c \<longleftrightarrow> 48 \<le> cval c \<and> cval c \<le> 55"

fun scan_oct :: "byte list \<Rightarrow> int \<Rightarrow> int option" where
  "scan_oct [] v = None"
| "scan_oct (c # cs) v = (if is_oct c then scan_oct cs (v * 8 + (cval c - 48)) else Some v)"

text \<open>
  \<open>sscanf (p, "%o", &x)\<close> for an object of the given number of bits: the inner \<open>None\<close> is a
  matching failure, which leaves the object as it was.
\<close>

definition sscanf_o :: "nat \<Rightarrow> byte list \<Rightarrow> int option option" where
  "sscanf_o bits bs =
     (case dropWhile is_space bs of
        [] \<Rightarrow> None
      | c # cs \<Rightarrow>
          let ds = (if c = bchar CHR ''-'' \<or> c = bchar CHR ''+'' then cs else c # cs)
          in case ds of
               [] \<Rightarrow> None
             | d # _ \<Rightarrow>
                 if is_oct d
                 then (case scan_oct ds 0 of
                         None \<Rightarrow> None
                       | Some v \<Rightarrow>
                           if v < 2 ^ bits then Some (Some (if c = bchar CHR ''-'' then - v else v)) else None)
                 else Some None)"

section \<open>Encoding\<close>

text \<open>Stores into the header block.\<close>

definition put_at :: "byte list \<Rightarrow> nat \<Rightarrow> byte list \<Rightarrow> byte list option" where
  "put_at hb p bs =
     (if p + length bs \<le> length hb then Some (take p hb @ bs @ drop (p + length bs) hb) else None)"

definition put_str :: "byte list \<Rightarrow> nat \<Rightarrow> byte list \<Rightarrow> byte list option" where
  "put_str hb p s = put_at hb p (s @ [EOS])"

definition cchksum :: "byte list \<Rightarrow> int" where
  "cchksum bs = sum_list (map cval bs)"

definition linkflag_char :: "nat \<Rightarrow> byte" where
  "linkflag_char lf =
     (if lf = LF_SYMLINK then bchar CHR ''2'' else if lf = LF_DIR then bchar CHR ''5'' else bchar CHR ''0'')"

text \<open>
  The checksum is formatted into \<open>chksum[10]\<close> and eight bytes of that array are copied. A
  negative sum would need twelve bytes. The byte behind the terminator was never set: it
  is the argument \<open>junk\<close>.
\<close>

definition chksum_field :: "byte \<Rightarrow> int \<Rightarrow> byte list option" where
  "chksum_field junk tot =
     (let s = fmt_o 6 (nat (tot mod 2 ^ 32))
      in if 10 < length s + 1 then None else Some (take 8 (s @ [EOS, junk])))"

definition encode_header :: "byte \<Rightarrow> fheader \<Rightarrow> byte list option" where
  "encode_header junk fh = do {
     hb \<leftarrow> Some (replicate TBLOCK EOS);
     hb \<leftarrow> put_str hb o_name (fh_name fh);
     hb \<leftarrow> put_str hb o_mode (fmt_o 6 (unat (fh_mode fh)) @ [blank]);
     hb \<leftarrow> put_str hb o_uid (fmt_o 6 (unat (fh_uid fh)) @ [blank]);
     hb \<leftarrow> put_str hb o_gid (fmt_o 6 (unat (fh_gid fh)) @ [blank]);
     hb \<leftarrow> put_str hb o_size (fmt_o 11 (unat (fh_size fh)) @ [blank]);
     hb \<leftarrow> put_str hb o_mtime (fmt_o 11 (unat (fh_mtime fh)) @ [blank]);
     hb \<leftarrow> put_at hb o_linkflag [linkflag_char (fh_linkflag fh)];
     hb \<leftarrow> put_str hb o_linkname (fh_linkname fh);
     hb \<leftarrow> put_at hb o_chksum (replicate 8 blank);
     f \<leftarrow> chksum_field junk (cchksum hb);
     put_at hb o_chksum f }"

section \<open>Decoding\<close>

text \<open>A string copied out of a field into an array of \<open>NAMSIZ\<close> bytes.\<close>

definition get_str :: "byte list \<Rightarrow> nat \<Rightarrow> byte list option" where
  "get_str hb p =
     (let s = cstr (drop p hb) in if length s < NAMSIZ \<and> p + length s < length hb then Some s else None)"

definition get_oct :: "nat \<Rightarrow> byte list \<Rightarrow> nat \<Rightarrow> int \<Rightarrow> int option" where
  "get_oct bits hb p old = do {
     r \<leftarrow> sscanf_o bits (drop p hb);
     Some (case r of None \<Rightarrow> old | Some v \<Rightarrow> v) }"

text \<open>Is the last character of the name a slash? An empty name is read before its beginning.\<close>

definition ends_in_slash :: "byte list \<Rightarrow> bool option" where
  "ends_in_slash s = (if s = [] then None else Some (last s = bchar CHR ''/''))"

text \<open>The decoding of the fields into the structure \<open>fh\<close>, which may hold an older header.\<close>

definition decode_header :: "byte list \<Rightarrow> fheader \<Rightarrow> fheader option" where
  "decode_header hb fh = do {
     name \<leftarrow> get_str hb o_name;
     isdir \<leftarrow> ends_in_slash name;
     mode \<leftarrow> get_oct 32 hb o_mode (sint (fh_mode fh));
     uid \<leftarrow> get_oct 32 hb o_uid (sint (fh_uid fh));
     gid \<leftarrow> get_oct 32 hb o_gid (sint (fh_gid fh));
     size \<leftarrow> get_oct 64 hb o_size (sint (fh_size fh));
     mtime \<leftarrow> get_oct 64 hb o_mtime (sint (fh_mtime fh));
     let n = cval (hb ! o_linkflag);
     let lf = (if 48 \<le> n \<and> n \<le> 57 then nat (n - 48) else 0);
     linkname \<leftarrow> (if lf \<noteq> 0 then get_str hb o_linkname else Some (fh_linkname fh));
     Some \<lparr>fh_name = name, fh_mode = word_of_int mode, fh_uid = word_of_int uid,
       fh_gid = word_of_int gid, fh_isdir = isdir, fh_size = word_of_int size,
       fh_mtime = word_of_int mtime, fh_linkflag = lf, fh_linkname = linkname\<rparr> }"

text \<open>The checksum test of \<^verbatim>\<open>getheader\<close>: the field is blanked before the block is summed.\<close>

definition blank_chksum :: "byte list \<Rightarrow> byte list" where
  "blank_chksum hb = take o_chksum hb @ replicate 8 blank @ drop (o_chksum + 8) hb"

definition zero_header :: "byte list \<Rightarrow> bool" where
  "zero_header hb \<longleftrightarrow> hb ! o_chksum = EOS \<and> cchksum hb = 0"

section \<open>Conversion round trip\<close>

lemma cval_digit: "d < 8 \<Longrightarrow> cval (word_of_nat (48 + d)) = 48 + int d"
proof -
  assume "d < 8"
  then have "d \<in> {0, 1, 2, 3, 4, 5, 6, 7}" by auto
  then show ?thesis by (auto simp: cval_def)
qed

lemma oct_digits_simp: "n < 8 \<Longrightarrow> oct_digits n = [word_of_nat (48 + n)]"
  "8 \<le> n \<Longrightarrow> oct_digits n = oct_digits (n div 8) @ [word_of_nat (48 + n mod 8)]"
  by (subst oct_digits.simps; simp)+

lemma oct_digits_is_oct: "list_all is_oct (oct_digits n)"
proof (induction n rule: oct_digits.induct)
  case (1 n)
  show ?case
  proof (cases "n < 8")
    case True
    then show ?thesis using cval_digit[OF True] by (simp add: oct_digits_simp is_oct_def)
  next
    case False
    with 1 cval_digit[of "n mod 8"] show ?thesis by (simp add: oct_digits_simp is_oct_def)
  qed
qed

lemma oct_digits_nonempty: "oct_digits n \<noteq> []"
  by (subst oct_digits.simps) simp

lemma scan_oct_digits: "scan_oct (oct_digits n @ rest) v = scan_oct rest (v * 8 ^ length (oct_digits n) + int n)"
proof (induction n arbitrary: rest rule: oct_digits.induct)
  case (1 n)
  show ?case
  proof (cases "n < 8")
    case True
    then show ?thesis using cval_digit[OF True] by (simp add: oct_digits_simp is_oct_def)
  next
    case False
    have "int (n div 8) * 8 + int (n mod 8) = int n"
      using div_mult_mod_eq[of n 8] by linarith
    then have e: "(v * 8 ^ length (oct_digits (n div 8)) + int (n div 8)) * 8 + int (n mod 8)
        = v * 8 ^ Suc (length (oct_digits (n div 8))) + int n"
      by (simp add: algebra_simps)
    have d: "is_oct (word_of_nat (48 + n mod 8))" "cval (word_of_nat (48 + n mod 8)) - 48 = int (n mod 8)"
      using cval_digit[of "n mod 8"] by (auto simp: is_oct_def)
    have "scan_oct (oct_digits n @ rest) v
        = scan_oct (word_of_nat (48 + n mod 8) # rest) (v * 8 ^ length (oct_digits (n div 8)) + int (n div 8))"
      using False 1 by (simp add: oct_digits_simp)
    also have "\<dots> = scan_oct rest ((v * 8 ^ length (oct_digits (n div 8)) + int (n div 8)) * 8 + int (n mod 8))"
      unfolding scan_oct.simps d(2) using d(1) by (rule if_P)
    finally show ?thesis
      using False unfolding e by (simp add: oct_digits_simp)
  qed
qed

lemma oct_digits_length: "0 < k \<Longrightarrow> length (oct_digits n) \<le> k \<longleftrightarrow> n < 8 ^ k"
proof (induction n arbitrary: k rule: oct_digits.induct)
  case (1 n)
  show ?case
  proof (cases "n < 8")
    case True
    have "(8 :: nat) ^ 1 \<le> 8 ^ k" using 1(2) by (intro power_increasing) auto
    with True 1(2) show ?thesis by (simp add: oct_digits_simp)
  next
    case False
    obtain k' where k: "k = Suc k'" using 1(2) by (cases k) auto
    show ?thesis
    proof (cases "k' = 0")
      case True
      then show ?thesis using False k oct_digits_nonempty[of "n div 8"] by (simp add: oct_digits_simp)
    next
      case k': False
      have "length (oct_digits (n div 8)) \<le> k' \<longleftrightarrow> n div 8 < 8 ^ k'" using 1(1) False k' by simp
      also have "\<dots> \<longleftrightarrow> n < 8 ^ k" using k by (simp add: div_less_iff_less_mult mult.commute)
      finally show ?thesis using False k by (simp add: oct_digits_simp)
    qed
  qed
qed

lemma length_fmt_o: "0 < w \<Longrightarrow> length (fmt_o w n) = max w (length (oct_digits n))"
  by (auto simp: fmt_o_def)

lemma length_fmt_o_le: "0 < w \<Longrightarrow> w \<le> k \<Longrightarrow> n < 8 ^ k \<Longrightarrow> length (fmt_o w n) \<le> k"
  using oct_digits_length[of k n] by (simp add: length_fmt_o)

lemma is_oct_not_space: "is_oct c \<Longrightarrow> \<not> is_space c" "is_oct c \<Longrightarrow> c \<noteq> bchar CHR ''-''" "is_oct c \<Longrightarrow> c \<noteq> bchar CHR ''+''"
  by (auto simp: is_oct_def is_space_def cval_def)

text \<open>What \<^verbatim>\<open>sprintf\<close> wrote, followed by a byte that is no octal digit, is what \<^verbatim>\<open>sscanf\<close> reads.\<close>

lemma sscanf_fmt:
  assumes "\<not> is_oct c" "int n < 2 ^ bits"
  shows "sscanf_o bits (fmt_o w n @ c # rest) = Some (Some (int n))"
proof -
  obtain d ds where d: "oct_digits n = d # ds" "is_oct d"
    using oct_digits_nonempty[of n] oct_digits_is_oct[of n] by (cases "oct_digits n") auto
  have "is_space blank" by (simp add: is_space_def blank_def cval_def)
  then have "dropWhile is_space (replicate k blank @ d # xs) = d # xs" for k xs
    using is_oct_not_space(1)[OF d(2)] by (induction k) auto
  then have "dropWhile is_space (fmt_o w n @ c # rest) = d # ds @ c # rest"
    using d by (simp add: fmt_o_def)
  moreover have "scan_oct (d # ds @ c # rest) 0 = Some (int n)"
    using scan_oct_digits[of n "c # rest" 0] assms(1) d(1) by simp
  ultimately show ?thesis
    using is_oct_not_space(2,3)[OF d(2)] d(2) assms(2) by (simp add: sscanf_o_def Let_def)
qed

section \<open>The layout of an encoded block\<close>

lemma put_at_exact:
  "length A = p \<Longrightarrow> length bs = length B \<Longrightarrow> put_at (A @ B @ D) p bs = Some (A @ bs @ D)"
  by (simp add: put_at_def)

text \<open>A field of \<open>w\<close> bytes filled with a string that may use it up to the last byte.\<close>

definition fld :: "nat \<Rightarrow> byte list \<Rightarrow> byte list" where
  "fld w s = s @ replicate (w - length s) EOS"

lemma length_fld: "length s \<le> w \<Longrightarrow> length (fld w s) = w"
  by (simp add: fld_def)

lemma put_str_fld:
  assumes "length A = p" "length s \<le> w" "w < k"
  shows "put_str (A @ replicate k EOS) p s = Some ((A @ fld w s) @ replicate (k - w) EOS)"
proof -
  have "replicate k EOS = replicate (Suc (length s)) EOS @ replicate (k - Suc (length s)) EOS"
    using assms(2,3) replicate_add[of "Suc (length s)" "k - Suc (length s)" EOS] by (simp del: replicate_Suc)
  then have "put_str (A @ replicate k EOS) p s
      = Some (A @ (s @ [EOS]) @ replicate (k - Suc (length s)) EOS)"
    using assms(1) put_at_exact[of A p "s @ [EOS]" "replicate (Suc (length s)) EOS"]
    by (simp add: put_str_def)
  also have "(s @ [EOS]) @ replicate (k - Suc (length s)) EOS = s @ replicate (k - length s) EOS"
    using assms(2,3) by (simp add: Suc_diff_Suc flip: replicate_Suc)
  also have "\<dots> = fld w s @ replicate (k - w) EOS"
    using assms(2,3) by (simp add: fld_def flip: replicate_add)
  finally show ?thesis by simp
qed

text \<open>The headers that can be encoded without loss.\<close>

definition header_ok :: "fheader \<Rightarrow> bool" where
  "header_ok fh \<longleftrightarrow> fh_name fh \<noteq> [] \<and> EOS \<notin> set (fh_name fh) \<and> length (fh_name fh) < NAMSIZ
     \<and> EOS \<notin> set (fh_linkname fh) \<and> length (fh_linkname fh) < NAMSIZ
     \<and> unat (fh_mode fh) < 8 ^ 7 \<and> unat (fh_uid fh) < 8 ^ 7 \<and> unat (fh_gid fh) < 8 ^ 7
     \<and> unat (fh_size fh) < 8 ^ 11 \<and> unat (fh_mtime fh) < 8 ^ 11
     \<and> fh_linkflag fh \<in> {0, LF_SYMLINK, LF_DIR}"

text \<open>The bytes before and behind the checksum field.\<close>

definition hdr_front :: "fheader \<Rightarrow> byte list" where
  "hdr_front fh = fld 100 (fh_name fh) @ fld 8 (fmt_o 6 (unat (fh_mode fh)) @ [blank])
     @ fld 8 (fmt_o 6 (unat (fh_uid fh)) @ [blank]) @ fld 8 (fmt_o 6 (unat (fh_gid fh)) @ [blank])
     @ fld 12 (fmt_o 11 (unat (fh_size fh)) @ [blank]) @ fld 12 (fmt_o 11 (unat (fh_mtime fh)) @ [blank])"

definition hdr_back :: "fheader \<Rightarrow> byte list" where
  "hdr_back fh = linkflag_char (fh_linkflag fh) # fld 100 (fh_linkname fh) @ replicate 255 EOS"

definition hdr_sum :: "fheader \<Rightarrow> int" where
  "hdr_sum fh = cchksum (hdr_front fh @ replicate 8 blank @ hdr_back fh)"

lemma hdr_lengths:
  assumes "header_ok fh"
  shows "length (fh_name fh) \<le> 100" "length (fh_linkname fh) \<le> 100"
    "length (fmt_o 6 (unat (fh_mode fh)) @ [blank]) \<le> 8" "length (fmt_o 6 (unat (fh_uid fh)) @ [blank]) \<le> 8"
    "length (fmt_o 6 (unat (fh_gid fh)) @ [blank]) \<le> 8" "length (fmt_o 11 (unat (fh_size fh)) @ [blank]) \<le> 12"
    "length (fmt_o 11 (unat (fh_mtime fh)) @ [blank]) \<le> 12"
  using assms length_fmt_o_le[of 6 7] length_fmt_o_le[of 11 11]
  by (auto simp: header_ok_def NAMSIZ_def)

lemma length_hdr:
  assumes "header_ok fh"
  shows "length (hdr_front fh) = 148" "length (hdr_back fh) = 356"
  using hdr_lengths[OF assms] by (simp_all add: hdr_front_def hdr_back_def length_fld)

lemma encode_header_eq:
  assumes "header_ok fh"
  shows "encode_header junk fh = do {
    f \<leftarrow> chksum_field junk (hdr_sum fh); put_at (hdr_front fh @ replicate 8 blank @ hdr_back fh) o_chksum f }"
proof -
  note l = hdr_lengths[OF assms]
  let ?N = "fld 100 (fh_name fh)" and ?M = "fld 8 (fmt_o 6 (unat (fh_mode fh)) @ [blank])"
  let ?U = "fld 8 (fmt_o 6 (unat (fh_uid fh)) @ [blank])" and ?G = "fld 8 (fmt_o 6 (unat (fh_gid fh)) @ [blank])"
  let ?S = "fld 12 (fmt_o 11 (unat (fh_size fh)) @ [blank])" and ?T = "fld 12 (fmt_o 11 (unat (fh_mtime fh)) @ [blank])"
  have 1: "put_str (replicate TBLOCK EOS) o_name (fh_name fh) = Some (?N @ replicate 412 EOS)"
    using put_str_fld[of "[]" 0 "fh_name fh" 100 512] l by (simp add: TBLOCK_def o_name_def)
  have 2: "put_str (?N @ replicate 412 EOS) o_mode (fmt_o 6 (unat (fh_mode fh)) @ [blank]) = Some ((?N @ ?M) @ replicate 404 EOS)"
    using l by (subst put_str_fld[of _ _ _ 8]) (simp_all add: length_fld o_mode_def del: length_append)
  have 3: "put_str ((?N @ ?M) @ replicate 404 EOS) o_uid (fmt_o 6 (unat (fh_uid fh)) @ [blank]) = Some ((?N @ ?M @ ?U) @ replicate 396 EOS)"
    using l by (subst put_str_fld[of _ _ _ 8]) (simp_all add: length_fld o_uid_def)
  have 4: "put_str ((?N @ ?M @ ?U) @ replicate 396 EOS) o_gid (fmt_o 6 (unat (fh_gid fh)) @ [blank]) = Some ((?N @ ?M @ ?U @ ?G) @ replicate 388 EOS)"
    using l by (subst put_str_fld[of _ _ _ 8]) (simp_all add: length_fld o_gid_def)
  have 5: "put_str ((?N @ ?M @ ?U @ ?G) @ replicate 388 EOS) o_size (fmt_o 11 (unat (fh_size fh)) @ [blank]) = Some ((?N @ ?M @ ?U @ ?G @ ?S) @ replicate 376 EOS)"
    using l by (subst put_str_fld[of _ _ _ 12]) (simp_all add: length_fld o_size_def)
  have 6: "put_str ((?N @ ?M @ ?U @ ?G @ ?S) @ replicate 376 EOS) o_mtime (fmt_o 11 (unat (fh_mtime fh)) @ [blank]) = Some (hdr_front fh @ replicate 364 EOS)"
    using l by (subst put_str_fld[of _ _ _ 12]) (simp_all add: length_fld o_mtime_def hdr_front_def)
  let ?A = "hdr_front fh @ replicate 8 EOS"
  have z: "hdr_front fh @ replicate 364 EOS = ?A @ [EOS] @ replicate 355 EOS"
    by (simp flip: replicate_add replicate_Suc)
  have 7: "put_at (hdr_front fh @ replicate 364 EOS) o_linkflag [linkflag_char (fh_linkflag fh)]
      = Some ((?A @ [linkflag_char (fh_linkflag fh)]) @ replicate 355 EOS)"
    unfolding z using length_hdr[OF assms] put_at_exact[of ?A 156 "[linkflag_char (fh_linkflag fh)]" "[EOS]"]
    by (simp add: o_linkflag_def)
  have 8: "put_str ((?A @ [linkflag_char (fh_linkflag fh)]) @ replicate 355 EOS) o_linkname (fh_linkname fh)
      = Some (?A @ hdr_back fh)"
    using l length_hdr[OF assms] by (subst put_str_fld[of _ _ _ 100]) (simp_all add: o_linkname_def hdr_back_def)
  have 9: "put_at (?A @ hdr_back fh) o_chksum (replicate 8 blank) = Some (hdr_front fh @ replicate 8 blank @ hdr_back fh)"
    using length_hdr[OF assms] put_at_exact[of "hdr_front fh" 148 "replicate 8 blank" "replicate 8 EOS"]
    by (simp add: o_chksum_def)
  show ?thesis
    unfolding encode_header_def bind.bind_lunit 1 2 3 4 5 6 7 8 9 hdr_sum_def ..
qed

section \<open>Decoding an encoded block\<close>

text \<open>The end of a number field: the digits are followed by a byte that is no digit.\<close>

lemma fld_fmt:
  assumes "length (fmt_o v n @ [blank]) \<le> w"
  shows "\<exists>r. fld w (fmt_o v n @ [blank]) = fmt_o v n @ blank # r"
  by (simp add: fld_def)

lemma blank_not_oct: "\<not> is_oct blank" "\<not> is_oct EOS"
  by (simp_all add: is_oct_def blank_def cval_def)

lemma get_oct_fmt:
  assumes "drop p hb = fld w (fmt_o v n @ [blank]) @ rest" "int n < 2 ^ bits"
  shows "get_oct bits hb p old = Some (int n)"
  using assms sscanf_fmt[OF blank_not_oct(1) assms(2)]
  by (simp add: get_oct_def fld_def)

lemma get_str_fld:
  assumes "drop p hb = fld NAMSIZ s @ rest" "EOS \<notin> set s" "length s < NAMSIZ"
  shows "get_str hb p = Some s"
proof -
  have "fld NAMSIZ s = s @ EOS # replicate (NAMSIZ - length s - 1) EOS"
    using assms(3) by (simp add: fld_def Suc_diff_Suc flip: replicate_Suc)
  then have d: "drop p hb = s @ EOS # replicate (NAMSIZ - length s - 1) EOS @ rest"
    using assms(1) by simp
  then have "length (drop p hb) > length s" by simp
  then have "p + length s < length hb" by simp
  with d assms(2,3) show ?thesis by (simp add: get_str_def)
qed

lemma word_of_unat: "word_of_int (int (unat w)) = (w :: 'a :: len word)"
  by simp

lemma linkflag_decode:
  "lf \<in> {0, LF_SYMLINK, LF_DIR} \<Longrightarrow> cval (linkflag_char lf) = 48 + int lf"
  by (auto simp: linkflag_char_def LF_SYMLINK_def LF_DIR_def cval_def)

lemma decode_hdr:
  assumes "header_ok fh" "length C = 8"
  defines "hb \<equiv> hdr_front fh @ C @ hdr_back fh"
  shows "decode_header hb old = Some (fh\<lparr>fh_isdir := (last (fh_name fh) = bchar CHR ''/''),
    fh_linkname := (if fh_linkflag fh = 0 then fh_linkname old else fh_linkname fh)\<rparr>)"
proof -
  note l = hdr_lengths[OF assms(1)] and ok = assms(1)[unfolded header_ok_def]
  note ll = length_hdr[OF assms(1)]
  have name: "get_str hb o_name = Some (fh_name fh)"
    using ok by (intro get_str_fld) (auto simp: hb_def hdr_front_def o_name_def NAMSIZ_def)
  have mode: "get_oct 32 hb o_mode x = Some (int (unat (fh_mode fh)))" for x
    using l unsigned_less[of "fh_mode fh"]
    by (intro get_oct_fmt) (simp add: hb_def hdr_front_def o_mode_def length_fld, simp)
  have uid: "get_oct 32 hb o_uid x = Some (int (unat (fh_uid fh)))" for x
    using l unsigned_less[of "fh_uid fh"]
    by (intro get_oct_fmt) (simp add: hb_def hdr_front_def o_uid_def length_fld, simp)
  have gid: "get_oct 32 hb o_gid x = Some (int (unat (fh_gid fh)))" for x
    using l unsigned_less[of "fh_gid fh"]
    by (intro get_oct_fmt) (simp add: hb_def hdr_front_def o_gid_def length_fld, simp)
  have size: "get_oct 64 hb o_size x = Some (int (unat (fh_size fh)))" for x
    using l unsigned_less[of "fh_size fh"]
    by (intro get_oct_fmt) (simp add: hb_def hdr_front_def o_size_def length_fld, simp)
  have mtime: "get_oct 64 hb o_mtime x = Some (int (unat (fh_mtime fh)))" for x
    using l unsigned_less[of "fh_mtime fh"]
    by (intro get_oct_fmt) (simp add: hb_def hdr_front_def o_mtime_def length_fld, simp)
  have link: "get_str hb o_linkname = Some (fh_linkname fh)"
    using ok ll assms(2)
    by (intro get_str_fld[where rest = "replicate 255 EOS"])
       (auto simp: hb_def o_linkname_def NAMSIZ_def hdr_back_def)
  have lf: "hb ! o_linkflag = linkflag_char (fh_linkflag fh)"
    using ll assms(2) by (simp add: hb_def o_linkflag_def hdr_back_def nth_append)
  have "cval (hb ! o_linkflag) = 48 + int (fh_linkflag fh)" "fh_linkflag fh \<le> 9"
    using linkflag_decode[of "fh_linkflag fh"] ok by (auto simp: lf LF_SYMLINK_def LF_DIR_def)
  then show ?thesis
    using ok by (simp add: decode_header_def name mode uid gid size mtime link ends_in_slash_def Let_def)
qed

text \<open>The checksum: its range, and that the field read back is the sum that was written.\<close>

lemma cchksum_append: "cchksum (xs @ ys) = cchksum xs + cchksum ys"
  by (simp add: cchksum_def)

lemma cchksum_le: "cchksum bs \<le> 127 * int (length bs)"
proof (induction bs)
  case (Cons b bs)
  then show ?case using cval_range(2)[of b] by (simp add: cchksum_def)
qed (simp add: cchksum_def)

lemma hdr_sum_le: "header_ok fh \<Longrightarrow> hdr_sum fh \<le> 65024"
  using cchksum_le[of "hdr_front fh @ replicate 8 blank @ hdr_back fh"] length_hdr[of fh]
  by (simp add: hdr_sum_def)

lemma encode_header_ok:
  assumes "header_ok fh" "0 \<le> hdr_sum fh"
  shows "encode_header junk fh
    = Some (hdr_front fh @ (fmt_o 6 (nat (hdr_sum fh)) @ [EOS, junk]) @ hdr_back fh)"
proof -
  let ?s = "fmt_o 6 (nat (hdr_sum fh))"
  have "hdr_sum fh mod 2 ^ 32 = hdr_sum fh" using assms(2) hdr_sum_le[OF assms(1)] by simp
  moreover have "length ?s \<le> 6"
    using hdr_sum_le[OF assms(1)] assms(2) by (intro length_fmt_o_le) auto
  then have l: "length ?s = 6" by (simp add: length_fmt_o)
  ultimately have "chksum_field junk (hdr_sum fh) = Some (?s @ [EOS, junk])"
    by (simp add: chksum_field_def Let_def)
  moreover have "put_at (hdr_front fh @ replicate 8 blank @ hdr_back fh) o_chksum (?s @ [EOS, junk])
      = Some (hdr_front fh @ (?s @ [EOS, junk]) @ hdr_back fh)"
    using length_hdr[OF assms(1)] l by (intro put_at_exact) (simp_all add: o_chksum_def)
  ultimately show ?thesis
    unfolding encode_header_eq[OF assms(1)] by simp
qed

lemma header_block:
  assumes "header_ok fh" "0 \<le> hdr_sum fh" "encode_header junk fh = Some hb"
  shows "length hb = TBLOCK" "\<not> zero_header hb"
    "sscanf_o 32 (drop o_chksum hb) = Some (Some (cchksum (blank_chksum hb)))"
    "decode_header (blank_chksum hb) old = Some (fh\<lparr>fh_isdir := (last (fh_name fh) = bchar CHR ''/''),
       fh_linkname := (if fh_linkflag fh = 0 then fh_linkname old else fh_linkname fh)\<rparr>)"
proof -
  let ?s = "fmt_o 6 (nat (hdr_sum fh))"
  have hb: "hb = hdr_front fh @ (?s @ [EOS, junk]) @ hdr_back fh"
    using encode_header_ok[OF assms(1,2), of junk] assms(3) by simp
  have "length ?s \<le> 6"
    using hdr_sum_le[OF assms(1)] assms(2) by (intro length_fmt_o_le) auto
  then have l: "length ?s = 6" by (simp add: length_fmt_o)
  note ll = length_hdr[OF assms(1)]
  show "length hb = TBLOCK" using hb l ll by (simp add: TBLOCK_def)
  have bc: "blank_chksum hb = hdr_front fh @ replicate 8 blank @ hdr_back fh"
    using l ll by (simp add: hb blank_chksum_def o_chksum_def)
  have "sscanf_o 32 (?s @ EOS # junk # hdr_back fh) = Some (Some (int (nat (hdr_sum fh))))"
    using hdr_sum_le[OF assms(1)] by (intro sscanf_fmt blank_not_oct) auto
  moreover have "drop o_chksum hb = ?s @ EOS # junk # hdr_back fh"
    using ll by (simp add: hb o_chksum_def)
  ultimately show "sscanf_o 32 (drop o_chksum hb) = Some (Some (cchksum (blank_chksum hb)))"
    using assms(2) by (simp add: bc hdr_sum_def)
  have "hb ! o_chksum = hd ?s"
    using ll l by (cases ?s) (auto simp: hb o_chksum_def nth_append)
  moreover have "hd ?s \<noteq> EOS"
  proof -
    have "x \<noteq> EOS" if "x \<in> set ?s" for x
      using that oct_digits_is_oct[of "nat (hdr_sum fh)"] blank_not_oct(2)
      by (auto simp: fmt_o_def list_all_iff blank_def)
    moreover have "hd ?s \<in> set ?s" using l by (cases ?s) auto
    ultimately show ?thesis by blast
  qed
  ultimately show "\<not> zero_header hb" by (simp add: zero_header_def)
  show "decode_header (blank_chksum hb) old = Some (fh\<lparr>fh_isdir := (last (fh_name fh) = bchar CHR ''/''),
       fh_linkname := (if fh_linkflag fh = 0 then fh_linkname old else fh_linkname fh)\<rparr>)"
    unfolding bc using assms(1) by (rule decode_hdr) simp
qed

text \<open>Names in ASCII never make the sum negative.\<close>

lemma cchksum_ascii: "list_all is_ascii bs \<Longrightarrow> 0 \<le> cchksum bs"
  by (induction bs) (auto simp: cchksum_def is_ascii_def)

lemma fld_ascii: "list_all is_ascii s \<Longrightarrow> list_all is_ascii (fld w s)"
  by (auto simp: fld_def list_all_iff is_ascii_def)

lemma fmt_o_ascii: "list_all is_ascii (fmt_o w n)"
  using oct_digits_is_oct[of n]
  by (auto simp: fmt_o_def list_all_iff is_oct_def is_ascii_def blank_def cval_def)

lemma hdr_sum_ascii:
  assumes "list_all is_ascii (fh_name fh)" "list_all is_ascii (fh_linkname fh)"
  shows "0 \<le> hdr_sum fh"
proof -
  have b: "is_ascii blank" "is_ascii EOS" "is_ascii (linkflag_char lf)" for lf
    by (auto simp: is_ascii_def blank_def cval_def linkflag_char_def)
  have r: "list_all is_ascii (replicate n c)" if "is_ascii c" for n c
    using that by (simp add: list_all_iff)
  show ?thesis
    unfolding hdr_sum_def hdr_front_def hdr_back_def
    using assms b by (intro cchksum_ascii) (simp add: fld_ascii fmt_o_ascii r)
qed

section \<open>Properties\<close>

text \<open>
  C10. A header block written by \<^verbatim>\<open>putheader\<close> for a header whose name and link name fit, whose
  mode and owner have at most seven octal digits and whose size and time have at most
  eleven, passes the checksum test of \<^verbatim>\<open>getheader\<close>, is not taken for the end of the
  archive and decodes to the same header, whatever the uninitialised checksum byte holds.
\<close>

theorem header_roundtrip:
  assumes "header_ok fh" "0 \<le> hdr_sum fh"
  shows "\<exists>hb. encode_header junk fh = Some hb \<and> length hb = TBLOCK \<and> \<not> zero_header hb
    \<and> sscanf_o 32 (drop o_chksum hb) = Some (Some (cchksum (blank_chksum hb)))
    \<and> decode_header (blank_chksum hb) old = Some (fh\<lparr>fh_isdir := (last (fh_name fh) = bchar CHR ''/''),
       fh_linkname := (if fh_linkflag fh = 0 then fh_linkname old else fh_linkname fh)\<rparr>)"
  using encode_header_ok[OF assms, of junk] header_block[OF assms] by blast

definition sample_header :: fheader where
  "sample_header = \<lparr>fh_name = bstr ''a/b'', fh_mode = 420, fh_uid = 1000, fh_gid = 100, fh_isdir = False,
     fh_size = 1300, fh_mtime = 1700000000, fh_linkflag = 0, fh_linkname = []\<rparr>"

lemma sample_header_ok: "header_ok sample_header"
  by (simp add: header_ok_def sample_header_def bstr_def NAMSIZ_def)

lemma sample_header_sum: "0 \<le> hdr_sum sample_header"
  by (rule hdr_sum_ascii) (simp_all add: sample_header_def bstr_def is_ascii_def cval_def)

theorem header_roundtrip_witness:
  "\<exists>hb. encode_header 7 sample_header = Some hb \<and> length hb = TBLOCK \<and> \<not> zero_header hb
    \<and> sscanf_o 32 (drop o_chksum hb) = Some (Some (cchksum (blank_chksum hb)))
    \<and> decode_header (blank_chksum hb) sample_header = Some (sample_header\<lparr>
        fh_isdir := (last (fh_name sample_header) = bchar CHR ''/''),
        fh_linkname := (if fh_linkflag sample_header = 0 then fh_linkname sample_header else fh_linkname sample_header)\<rparr>)"
  using sample_header_ok sample_header_sum by (rule header_roundtrip)

end
