(* ===== verification/Wtar.thy ===== *)
theory Wtar
  imports Tar
begin

text \<open>
  The archive writer \<^verbatim>\<open>unix/boot/wtar/wtar.c\<close>: the blocked output stream (\<^verbatim>\<open>putblock\<close>,
  \<^verbatim>\<open>endtar\<close>), the copying and padding of file data (\<^verbatim>\<open>copyfile\<close>), the header of one file
  (\<^verbatim>\<open>tarfileout\<close>), the directory walk (\<^verbatim>\<open>putfiles\<close>), the file mode and path name
  conversions, and \<^verbatim>\<open>os_filetype\<close> of the boot library, which decides how a file is padded.
  What the host tells about a file is a record passed in; reads of a file are a list of
  results, at whose end every further read returns zero bytes.
\<close>

definition TEXT_FILE :: nat where "TEXT_FILE = 11"
definition BINARY_FILE :: nat where "BINARY_FILE = 12"
definition DIRECTORY_FILE :: nat where "DIRECTORY_FILE = 13"
definition FI_DIRECTORY :: nat where "FI_DIRECTORY = 2"
definition FI_EXECUTABLE :: nat where "FI_EXECUTABLE = 3"
definition MAXERR :: nat where "MAXERR = 20"

section \<open>The blocked output stream\<close>

record wtape =
  wt_block :: "byte list"
  wt_next :: nat
  wt_nblocks :: nat
  wt_writes :: "byte list list"

text \<open>
  \<^verbatim>\<open>putblock\<close> with a buffer, or with \<^verbatim>\<open>NULL\<close> to flush. A failing \<^verbatim>\<open>tape_write\<close> only prints a
  warning, so the buffers handed to it are recorded and its result is not.
\<close>

definition wt_flush :: "nat \<Rightarrow> wtape \<Rightarrow> wtape" where
  "wt_flush nbytes wt =
     (if 0 < nbytes
      then wt\<lparr>wt_writes := wt_writes wt @ [take nbytes (wt_block wt)], wt_next := 0, wt_nblocks := 0\<rparr>
      else wt)"

definition putblock :: "wtape \<Rightarrow> byte list option \<Rightarrow> wtape option" where
  "putblock wt buf =
     (case buf of
        Some b \<Rightarrow>
          if length b < TBLOCK then None
          else do {
            blk \<leftarrow> put_at (wt_block wt) (wt_next wt) (take TBLOCK b);
            let n = Suc (wt_nblocks wt);
            Some (wt_flush (if n = NBLOCK then SZ_TAPEBUFFER else 0)
              (wt\<lparr>wt_block := blk, wt_next := wt_next wt + TBLOCK, wt_nblocks := n\<rparr>)) }
      | None \<Rightarrow> Some (wt_flush (if 0 < wt_nblocks wt then SZ_TAPEBUFFER else 0) wt))"

definition endtar :: "wtape \<Rightarrow> wtape option" where
  "endtar wt = do {
     wt1 \<leftarrow> putblock wt (Some (replicate TBLOCK EOS));
     wt2 \<leftarrow> putblock wt1 (Some (replicate TBLOCK EOS));
     putblock wt2 None }"

section \<open>File data\<close>

datatype rd = RdErr | RdData "byte list"

text \<open>Leaving the program after too many errors is \<open>Exit\<close>.\<close>

datatype 'a outcome = Exit | Done 'a

text \<open>
  The read loop. The block buffer has two blocks; \<open>nbytes\<close> bytes of it are filled. The
  result is the state at the label \<^verbatim>\<open>pad_\<close>: buffer, bytes in it, blocks left to write.
\<close>

fun copy_loop ::
  "rd list \<Rightarrow> byte list \<Rightarrow> nat \<Rightarrow> nat \<Rightarrow> nat \<Rightarrow> wtape
    \<Rightarrow> (byte list \<times> nat \<times> nat \<times> nat \<times> wtape) outcome option" where
  "copy_loop [] buf nbytes blocks nerrs wt = Some (Done (buf, nbytes, blocks, nerrs, wt))"
| "copy_loop (r # rs) buf nbytes blocks nerrs wt =
     (if blocks = 0 then Some (Done (buf, nbytes, blocks, nerrs, wt))
      else case r of
        RdErr \<Rightarrow>
          if MAXERR < nerrs then Some Exit else copy_loop rs buf nbytes blocks (Suc nerrs) wt
      | RdData d \<Rightarrow>
          if d = [] then Some (Done (buf, nbytes, blocks, nerrs, wt))
          else do {
            buf1 \<leftarrow> put_at buf nbytes d;
            let n = nbytes + length d;
            if n < TBLOCK then copy_loop rs buf1 n blocks nerrs wt
            else do {
              wt1 \<leftarrow> putblock wt (Some buf1);
              let nleft = n - TBLOCK;
              buf2 \<leftarrow> put_at buf1 0 (take nleft (drop TBLOCK buf1));
              copy_loop rs buf2 nleft (blocks - 1) nerrs wt1 } })"

text \<open>\<open>for (i=nbytes; i < TBLOCK; i++)\<close>: newlines every 64 columns in a tx file.\<close>

definition newline :: byte where "newline = 10"

function fill_block :: "bool \<Rightarrow> nat \<Rightarrow> byte list \<Rightarrow> byte list" where
  "fill_block tx i buf =
     (if i < TBLOCK
      then fill_block tx (Suc i)
        (buf[i := if tx \<and> i mod 64 = 0 then newline else if tx then blank else EOS])
      else buf)"
  by pat_completeness auto
termination by (relation "measure (\<lambda>(tx, i, buf). TBLOCK - i)") auto

declare fill_block.simps [simp del]

fun pad_loop :: "bool \<Rightarrow> nat \<Rightarrow> byte list \<Rightarrow> nat \<Rightarrow> wtape \<Rightarrow> wtape option" where
  "pad_loop tx 0 buf nbytes wt = Some wt"
| "pad_loop tx (Suc blocks) buf nbytes wt =
     (let buf1 = fill_block tx nbytes buf;
          buf2 = (if tx then buf1[TBLOCK - 1 := newline] else buf1)
      in do { wt1 \<leftarrow> putblock wt (Some buf2); pad_loop tx blocks buf2 0 wt1 })"

text \<open>The number of blocks is computed as a long and assigned to an \<^verbatim>\<open>int\<close>.\<close>

definition file_blocks :: "xint \<Rightarrow> nat" where
  "file_blocks sz = nat (sint (to_cint (word_of_int ((sint sz + 511) div 512))))"

text \<open>
  \<open>opened\<close> is \<open>None\<close> when \<^verbatim>\<open>os_open\<close> fails, else the results of the reads; \<open>buf0\<close> is the
  uninitialised block buffer.
\<close>

definition wt_copyfile ::
  "rd list option \<Rightarrow> byte list \<Rightarrow> fheader \<Rightarrow> nat \<Rightarrow> nat \<Rightarrow> wtape \<Rightarrow> (nat \<times> wtape) outcome option" where
  "wt_copyfile opened buf0 fh ftype nerrs wt =
     (let blocks = file_blocks (fh_size fh); tx = (ftype = TEXT_FILE)
      in case opened of
           None \<Rightarrow> do { wt' \<leftarrow> pad_loop tx blocks buf0 0 wt; Some (Done (nerrs, wt')) }
         | Some reads \<Rightarrow> do {
             r \<leftarrow> copy_loop reads buf0 0 blocks nerrs wt;
             (case r of
                Exit \<Rightarrow> Some Exit
              | Done (buf, nbytes, left, nerrs', wt1) \<Rightarrow> do {
                  wt' \<leftarrow> pad_loop tx left buf nbytes wt1; Some (Done (nerrs', wt')) }) })"

section \<open>Modes, path names and file types\<close>

definition u_fmode :: "nat \<Rightarrow> nat \<Rightarrow> nat" where
  "u_fmode iraf_fmode ftype =
     (let i = iraf_fmode; ex = (ftype = FI_DIRECTORY \<or> ftype = FI_EXECUTABLE);
          m = 0;
          m = (if and i 1 \<noteq> 0 then or m 256 else m);
          m = (if and i 2 \<noteq> 0 then or m 128 else m);
          m = (if ex then or m 64 else m);
          m = (if and i 4 \<noteq> 0 then or m 32 else m);
          m = (if and i 8 \<noteq> 0 then or m 16 else m);
          m = (if ex then or m 8 else m);
          m = (if and i 16 \<noteq> 0 then or m 4 else m);
          m = (if and i 32 \<noteq> 0 then or m 2 else m);
          m = (if ex then or m 1 else m)
      in m)"

abbreviation slash :: byte where "slash \<equiv> 0x2f"

text \<open>The copy loop of \<^verbatim>\<open>dname\<close>: of a run of slashes the last one is copied.\<close>

fun dname_copy :: "byte list \<Rightarrow> byte list" where
  "dname_copy [] = []"
| "dname_copy [c] = [c]"
| "dname_copy (c # d # s) = (if c = slash \<and> d = slash then dname_copy (d # s) else c # dname_copy (d # s))"

definition SZ_PATHBUF :: nat where "SZ_PATHBUF = 512"

definition dname :: "byte list \<Rightarrow> byte list option" where
  "dname dir =
     (let p = dname_copy dir;
          p' = (if p \<noteq> [] \<and> last p \<noteq> slash then p @ [slash] else p)
      in if length p' < SZ_PATHBUF then Some p' else None)"

text \<open>Extensions, in the order of the tables; the comparison ignores case.\<close>

definition srcextn :: "byte list list" where
  "srcextn = map bstr [''.x'', ''.h'', ''.f'', ''.f77'', ''.f90'', ''.s'', ''.c'', ''.cpp'', ''.hlp'',
     ''.mip'', ''.imh'', ''.pix'', ''.gki'', ''.vdm'', ''.fits'', ''.fit'', ''.ftz'', ''.pl'', ''.gif'',
     ''.jpeg'', ''.jpg'', ''.tiff'', ''.tif'', ''.png'', ''.gz'', ''.tar'', ''.jar'', ''.java'', ''.py'',
     ''.pdf'', ''.ps'', ''.hqx'', ''.std'']"

definition binextn :: "byte list list" where
  "binextn = map bstr [''.o'', ''.e'', ''.a'', ''.so'', ''.pyc'']"

definition lower :: "byte \<Rightarrow> byte" where
  "lower c = (if 65 \<le> c \<and> c \<le> 90 then c + 32 else c)"

definition extension :: "byte list \<Rightarrow> byte list option" where
  "extension fname =
     (if 0x2e \<in> set fname then Some (0x2e # rev (takeWhile (\<lambda>c. c \<noteq> 0x2e) (rev fname))) else None)"

definition ext_in :: "byte list list \<Rightarrow> byte list \<Rightarrow> bool" where
  "ext_in tab e =
     list_ex (\<lambda>t. (case e of _ # c # _ \<Rightarrow> t ! 1 = c | _ \<Rightarrow> False) \<and> map lower t = map lower e) tab"

text \<open>\<open>isdir\<close> and \<open>istext\<close> are what \<^verbatim>\<open>os_access\<close> finds out about the file.\<close>

definition os_filetype :: "byte list \<Rightarrow> bool \<Rightarrow> bool \<Rightarrow> nat" where
  "os_filetype fname isdir istext =
     (let deflt = (if isdir then DIRECTORY_FILE else if istext then TEXT_FILE else BINARY_FILE)
      in case extension fname of
           None \<Rightarrow> deflt
         | Some e \<Rightarrow> if ext_in srcextn e then TEXT_FILE
                     else if ext_in binextn e then BINARY_FILE else deflt)"

section \<open>One file\<close>

text \<open>What the host says about a file; \<open>fi_link\<close> is the value of a symbolic link.\<close>

record finfo =
  fi_ok :: bool
  fi_size :: xint
  fi_perm :: nat
  fi_type :: nat
  fi_mtime :: xint
  fi_owner :: "cint \<times> cint"
  fi_lstat :: "cint \<times> cint \<times> cint \<times> xint"
  fi_link :: "byte list"
  fi_reads :: "rd list option"

record wstate =
  ws_tape :: wtape
  ws_nerrs :: nat
  ws_omitbinary :: bool

text \<open>
  The header that \<^verbatim>\<open>tarfileout\<close> builds: a name or a link that does not fit its array of
  \<open>NAMSIZ\<close> bytes is stored behind it. \<open>fi_mtime\<close> is the time after \<^verbatim>\<open>os_utime\<close>, which converts the host's answer to
  UNIX time.
\<close>

definition make_header :: "byte list \<Rightarrow> finfo \<Rightarrow> nat \<Rightarrow> byte list \<Rightarrow> fheader option" where
  "make_header fname fi ftype path = do {
     let name0 = path @ fname;
     name \<leftarrow> (if NAMSIZ \<le> length name0 then None
             else if ftype = DIRECTORY_FILE then dname name0 else Some name0);
     if NAMSIZ \<le> length name then None
     else
       let fh = \<lparr>fh_name = name, fh_mode = word_of_nat (u_fmode (fi_perm fi) (fi_type fi)),
             fh_uid = fst (fi_owner fi), fh_gid = snd (fi_owner fi), fh_isdir = (ftype = DIRECTORY_FILE),
             fh_size = (if ftype = DIRECTORY_FILE then 0 else fi_size fi), fh_mtime = fi_mtime fi,
             fh_linkflag = (if ftype = DIRECTORY_FILE then LF_DIR else 0), fh_linkname = []\<rparr>
       in if ftype = LF_SYMLINK
          then if NAMSIZ \<le> length (fi_link fi) then None
               else Some (case fi_lstat fi of (uid, gid, mode, mtime) \<Rightarrow>
                 fh\<lparr>fh_uid := uid, fh_gid := gid, fh_mode := mode, fh_mtime := mtime, fh_size := 0,
                    fh_linkflag := LF_SYMLINK, fh_linkname := fi_link fi\<rparr>)
          else Some fh }"

text \<open>\<^verbatim>\<open>putheader\<close> always returns \<open>TBLOCK\<close>, so the test for \<^verbatim>\<open>EOF\<close> never fires.\<close>

definition putheader :: "byte \<Rightarrow> fheader \<Rightarrow> wtape \<Rightarrow> wtape option" where
  "putheader junk fh wt = do { hb \<leftarrow> encode_header junk fh; putblock wt (Some hb) }"

definition tarfileout ::
  "byte \<Rightarrow> byte list \<Rightarrow> byte list \<Rightarrow> finfo \<Rightarrow> nat \<Rightarrow> byte list \<Rightarrow> wstate \<Rightarrow> wstate outcome option" where
  "tarfileout junk buf0 fname fi ftype path ws =
     (if ftype = BINARY_FILE \<and> ws_omitbinary ws then Some (Done ws)
      else if \<not> fi_ok fi then Some (Done ws)
      else do {
        fh \<leftarrow> make_header fname fi ftype path;
        wt \<leftarrow> putheader junk fh (ws_tape ws);
        if 0 <s fh_size fh \<and> \<not> fh_isdir fh \<and> fh_linkflag fh = 0
        then do {
          r \<leftarrow> wt_copyfile (fi_reads fi) buf0 fh ftype (ws_nerrs ws) wt;
          Some (case r of Exit \<Rightarrow> Exit
            | Done (n, wt') \<Rightarrow> Done (ws\<lparr>ws_tape := wt', ws_nerrs := n\<rparr>)) }
        else Some (Done (ws\<lparr>ws_tape := wt\<rparr>)) })"

section \<open>The directory walk\<close>

text \<open>
  A directory as the host shows it: name, information, and its entries in the order in
  which \<^verbatim>\<open>os_gfdir\<close> returns them, or no entries if it cannot be opened or entered. An entry
  that is no directory carries the type \<^verbatim>\<open>putfiles\<close> finds for it.
\<close>

datatype node =
    Leaf "byte list" finfo nat
  | Dir "byte list" finfo "node list option"

fun node_name :: "node \<Rightarrow> byte list" where
  "node_name (Leaf n _ _) = n"
| "node_name (Dir n _ _) = n"

text \<open>
  \<^verbatim>\<open>putfiles\<close>, and its loop over the entries. The new path is formatted into an array of
  \<open>SZ_PATHBUF\<close> bytes.
\<close>

fun putnode :: "byte \<Rightarrow> byte list \<Rightarrow> node \<Rightarrow> byte list \<Rightarrow> wstate \<Rightarrow> wstate outcome option"
  and putnodes :: "byte \<Rightarrow> byte list \<Rightarrow> node list \<Rightarrow> byte list \<Rightarrow> wstate \<Rightarrow> wstate outcome option" where
  "putnode junk buf0 (Leaf fname fi ftype) path ws = tarfileout junk buf0 fname fi ftype path ws"
| "putnode junk buf0 (Dir dir fi entries) path ws = do {
     r \<leftarrow> tarfileout junk buf0 dir fi DIRECTORY_FILE path ws;
     (case r of
        Exit \<Rightarrow> Some Exit
      | Done ws1 \<Rightarrow>
          (case entries of
             None \<Rightarrow> Some (Done ws1)
           | Some es \<Rightarrow> do {
               p \<leftarrow> dname path;
               if SZ_PATHBUF \<le> length (p @ dir) then None
               else do { newpath \<leftarrow> dname (p @ dir); putnodes junk buf0 es newpath ws1 } })) }"
| "putnodes junk buf0 [] path ws = Some (Done ws)"
| "putnodes junk buf0 (n # ns) path ws = do {
     r \<leftarrow> putnode junk buf0 n path ws;
     (case r of Exit \<Rightarrow> Some Exit | Done ws1 \<Rightarrow> putnodes junk buf0 ns path ws1) }"

section \<open>The stream contract\<close>

text \<open>All bytes handed over so far, written to the tape or not.\<close>

definition wt_stream :: "wtape \<Rightarrow> byte list" where
  "wt_stream wt = concat (wt_writes wt) @ take (wt_next wt) (wt_block wt)"

definition wt_inv :: "wtape \<Rightarrow> bool" where
  "wt_inv wt \<longleftrightarrow> length (wt_block wt) = SZ_TAPEBUFFER \<and> wt_next wt = TBLOCK * wt_nblocks wt
     \<and> wt_nblocks wt < NBLOCK \<and> (\<forall>w \<in> set (wt_writes wt). length w = SZ_TAPEBUFFER)"

lemma putblock_stream:
  assumes "wt_inv wt" "TBLOCK \<le> length b"
  shows "\<exists>wt'. putblock wt (Some b) = Some wt' \<and> wt_inv wt' \<and> wt_stream wt' = wt_stream wt @ take TBLOCK b"
proof -
  let ?n = "wt_nblocks wt" and ?p = "wt_next wt"
  let ?blk = "take ?p (wt_block wt) @ take TBLOCK b @ drop (?p + TBLOCK) (wt_block wt)"
  have i: "length (wt_block wt) = SZ_TAPEBUFFER" "?p = TBLOCK * ?n" "?n < NBLOCK"
    "\<forall>w \<in> set (wt_writes wt). length w = SZ_TAPEBUFFER"
    using assms(1) by (auto simp: wt_inv_def)
  have "TBLOCK * Suc ?n \<le> TBLOCK * NBLOCK" using i(3) by (intro mult_le_mono2) simp
  then have fit: "?p + TBLOCK \<le> SZ_TAPEBUFFER" using i(2) by (simp add: SZ_TAPEBUFFER_def)
  obtain blk where put: "put_at (wt_block wt) ?p (take TBLOCK b) = Some blk"
    and l: "length blk = SZ_TAPEBUFFER" "take (?p + TBLOCK) blk = take ?p (wt_block wt) @ take TBLOCK b"
  proof
    show "put_at (wt_block wt) ?p (take TBLOCK b) = Some ?blk"
      using fit i(1) assms(2) by (simp add: put_at_def min_def)
    show "length ?blk = SZ_TAPEBUFFER" "take (?p + TBLOCK) ?blk = take ?p (wt_block wt) @ take TBLOCK b"
      using fit i(1) assms(2) by (auto simp: min_def)
  qed
  show ?thesis
  proof (cases "Suc ?n = NBLOCK")
    case True
    then have "?p + TBLOCK = SZ_TAPEBUFFER" using i(2) by (simp add: SZ_TAPEBUFFER_def flip: True)
    then have t: "take SZ_TAPEBUFFER blk = take ?p (wt_block wt) @ take TBLOCK b" using l(2) by simp
    let ?wt = "wt\<lparr>wt_block := blk, wt_next := 0, wt_nblocks := 0, wt_writes := wt_writes wt @ [take SZ_TAPEBUFFER blk]\<rparr>"
    have "putblock wt (Some b) = Some ?wt"
      using True put assms(2) by (simp add: putblock_def Let_def wt_flush_def SZ_TAPEBUFFER_def TBLOCK_def NBLOCK_def)
    moreover have "wt_inv ?wt"
      using i l(1) by (auto simp: wt_inv_def NBLOCK_def)
    moreover have "wt_stream ?wt = wt_stream wt @ take TBLOCK b"
      by (simp add: wt_stream_def t)
    ultimately show ?thesis by blast
  next
    case False
    let ?wt = "wt\<lparr>wt_block := blk, wt_next := ?p + TBLOCK, wt_nblocks := Suc ?n\<rparr>"
    have "putblock wt (Some b) = Some ?wt"
      using False put assms(2) by (simp add: putblock_def Let_def wt_flush_def)
    moreover have "wt_inv ?wt"
      using i l(1) False by (auto simp: wt_inv_def)
    moreover have "wt_stream ?wt = wt_stream wt @ take TBLOCK b"
      by (simp add: wt_stream_def l(2))
    ultimately show ?thesis by blast
  qed
qed

text \<open>
  The interface of a block sink, and what its client \<^verbatim>\<open>copyfile\<close> relies on: every block
  given to it is appended to a stream.
\<close>

locale block_sink =
  fixes put :: "'s \<Rightarrow> byte list option \<Rightarrow> 's option" and stream :: "'s \<Rightarrow> byte list" and inv :: "'s \<Rightarrow> bool"
  assumes put_appends: "inv s \<Longrightarrow> TBLOCK \<le> length b
    \<Longrightarrow> \<exists>s'. put s (Some b) = Some s' \<and> inv s' \<and> stream s' = stream s @ take TBLOCK b"
begin

lemma put_appendsE:
  assumes "inv s" "TBLOCK \<le> length b"
  obtains s' where "put s (Some b) = Some s'" "inv s'" "stream s' = stream s @ take TBLOCK b"
  using put_appends[OF assms] by blast

end

interpretation tape: block_sink putblock wt_stream wt_inv
  by unfold_locales (rule putblock_stream)

text \<open>Padding of a block from column \<open>k\<close> on.\<close>

definition pad_byte :: "bool \<Rightarrow> nat \<Rightarrow> byte" where
  "pad_byte tx i = (if tx then if i mod 64 = 0 \<or> i = TBLOCK - 1 then newline else blank else EOS)"

definition padding :: "bool \<Rightarrow> nat \<Rightarrow> byte list" where
  "padding tx k = map (pad_byte tx) [k..<TBLOCK]"

lemma length_padding [simp]: "length (padding tx k) = TBLOCK - k"
  by (simp add: padding_def)

lemma length_fill_block [simp]: "length (fill_block tx i buf) = length buf"
  by (induction tx i buf rule: fill_block.induct) (subst fill_block.simps, simp)

lemma fill_block_nth:
  "TBLOCK \<le> length buf \<Longrightarrow> j < length buf \<Longrightarrow> fill_block tx i buf ! j
    = (if i \<le> j \<and> j < TBLOCK then if tx \<and> j mod 64 = 0 then newline else if tx then blank else EOS else buf ! j)"
proof (induction tx i buf rule: fill_block.induct)
  case (1 tx i buf)
  show ?case
  proof (cases "i < TBLOCK")
    case True
    let ?buf = "buf[i := if tx \<and> i mod 64 = 0 then newline else if tx then blank else EOS]"
    have "fill_block tx i buf = fill_block tx (Suc i) ?buf"
      using True by (subst fill_block.simps) (rule if_P)
    with 1 True show ?thesis by (cases "j = i") auto
  next
    case False
    then have "fill_block tx i buf = buf" by (subst fill_block.simps) (rule if_not_P)
    moreover have "(i \<le> j \<and> j < TBLOCK) = False" using False by auto
    ultimately show ?thesis by (simp only: if_False)
  qed
qed

definition padded :: "bool \<Rightarrow> nat \<Rightarrow> byte list \<Rightarrow> byte list" where
  "padded tx k buf = (let b = fill_block tx k buf in if tx then b[TBLOCK - 1 := newline] else b)"

lemma take_padded:
  assumes "TBLOCK \<le> length buf" "k < TBLOCK"
  shows "take TBLOCK (padded tx k buf) = take k buf @ padding tx k"
proof (rule nth_equalityI)
  show "length (take TBLOCK (padded tx k buf)) = length (take k buf @ padding tx k)"
    using assms by (simp add: padded_def Let_def)
  fix i assume "i < length (take TBLOCK (padded tx k buf))"
  then have i: "i < TBLOCK" by simp
  then have n: "padded tx k buf ! i = (if tx \<and> i = TBLOCK - 1 then newline else fill_block tx k buf ! i)"
    using assms by (auto simp: padded_def Let_def nth_list_update)
  have f: "fill_block tx k buf ! i
      = (if k \<le> i then if tx \<and> i mod 64 = 0 then newline else if tx then blank else EOS else buf ! i)"
    using i assms by (subst fill_block_nth) auto
  show "take TBLOCK (padded tx k buf) ! i = (take k buf @ padding tx k) ! i"
    using i assms unfolding nth_take[OF i] n f
    by (auto simp: nth_append padding_def pad_byte_def)
qed

lemma length_padded [simp]: "length (padded tx k buf) = length buf"
  by (simp add: padded_def Let_def)

lemma pad_loop_stream:
  "wt_inv wt \<Longrightarrow> TBLOCK \<le> length buf \<Longrightarrow> k < TBLOCK \<Longrightarrow> \<exists>wt'. pad_loop tx blocks buf k wt = Some wt' \<and> wt_inv wt'
    \<and> wt_stream wt' = wt_stream wt @ (if blocks = 0 then []
        else take k buf @ padding tx k @ concat (replicate (blocks - 1) (padding tx 0)))"
proof (induction blocks arbitrary: buf k wt)
  case (Suc blocks)
  let ?buf = "padded tx k buf"
  obtain wt1 where wt1: "putblock wt (Some ?buf) = Some wt1" "wt_inv wt1"
    "wt_stream wt1 = wt_stream wt @ take k buf @ padding tx k"
    using tape.put_appendsE[of wt ?buf] Suc.prems take_padded[of buf k tx] by auto
  have "TBLOCK \<le> length ?buf" "(0 :: nat) < TBLOCK" using Suc.prems by (simp_all add: TBLOCK_def)
  from Suc.IH[OF wt1(2) this] obtain wt' where wt': "pad_loop tx blocks ?buf 0 wt1 = Some wt'" "wt_inv wt'"
    "wt_stream wt' = wt_stream wt1 @ (if blocks = 0 then []
      else take 0 ?buf @ padding tx 0 @ concat (replicate (blocks - 1) (padding tx 0)))"
    by blast
  have "pad_loop tx (Suc blocks) buf k wt = Some wt'"
    using wt1(1) wt'(1) by (simp add: padded_def Let_def)
  moreover have "concat (replicate blocks (padding tx 0))
      = (if blocks = 0 then [] else padding tx 0 @ concat (replicate (blocks - 1) (padding tx 0)))"
    by (cases blocks) auto
  ultimately show ?case using wt'(2,3) wt1(3) by auto
qed simp

section \<open>What \<^verbatim>\<open>copyfile\<close> writes\<close>

text \<open>
  The bytes of a file that end up on the tape: as many blocks as the header says, filled
  from the file and padded behind its end.
\<close>

definition block_image :: "bool \<Rightarrow> nat \<Rightarrow> byte list \<Rightarrow> byte list" where
  "block_image tx blocks bs =
     (if TBLOCK * blocks \<le> length bs then take (TBLOCK * blocks) bs
      else bs @ padding tx (length bs mod TBLOCK)
        @ concat (replicate (blocks - 1 - length bs div TBLOCK) (padding tx 0)))"

definition rd_bytes :: "rd list \<Rightarrow> byte list" where
  "rd_bytes rs = concat (map (\<lambda>r. case r of RdErr \<Rightarrow> [] | RdData d \<Rightarrow> d) rs)"

text \<open>Reads that return between one byte and a block.\<close>

definition rd_ok :: "rd list \<Rightarrow> bool" where
  "rd_ok rs \<longleftrightarrow> (\<forall>r \<in> set rs. \<exists>d. r = RdData d \<and> d \<noteq> [] \<and> length d \<le> TBLOCK)"

lemma take_front: "n \<le> length f \<Longrightarrow> take n (f @ x) = take n f"
  by simp

lemma take_overflow: "n \<le> length f \<Longrightarrow> k = length f - n \<Longrightarrow> take k (drop n (f @ x)) = drop n f"
  by simp

lemma moved_rest:
  assumes "length r = k" "k \<le> length b"
  shows "length (r @ drop k b) = length b" "take k (r @ drop k b) = r"
  using assms by simp_all

text \<open>
  The effect of the loop from a stream \<open>s\<close>, with \<open>bytes\<close> the bytes pending and still to be
  read: as many full blocks as possible are in the stream \<open>s'\<close>, \<open>left\<close> blocks remain, and
  if there are any, \<open>pend\<close> holds the rest of the bytes.
\<close>

definition copy_post :: "nat \<Rightarrow> byte list \<Rightarrow> byte list \<Rightarrow> byte list \<Rightarrow> nat \<Rightarrow> byte list \<Rightarrow> nat \<Rightarrow> bool" where
  "copy_post blocks bytes s s' left pend n \<longleftrightarrow>
     (let m = min blocks (length bytes div TBLOCK)
      in left = blocks - m \<and> s' = s @ take (TBLOCK * m) bytes
        \<and> (0 < left \<longrightarrow> pend = drop (TBLOCK * m) bytes \<and> n = length bytes - TBLOCK * m))"

lemma copy_post_block:
  assumes "copy_post (b - 1) fl (s @ h) s' left pend n" "length h = TBLOCK" "b \<noteq> 0"
  shows "copy_post b (h @ fl) s s' left pend n"
proof -
  have "(TBLOCK + x) div TBLOCK = Suc (x div TBLOCK)" for x
    by (simp add: TBLOCK_def)
  then have m: "min b (length (h @ fl) div TBLOCK) = Suc (min (b - 1) (length fl div TBLOCK))"
    using assms(2,3) by (simp add: min_Suc_Suc[symmetric])
  show ?thesis
    using assms unfolding copy_post_def m by (auto simp: Let_def)
qed

lemma copy_post_end: "length pend < TBLOCK \<Longrightarrow> copy_post blocks pend s s blocks pend (length pend)"
  by (simp add: copy_post_def)

lemma copy_post_full: "copy_post 0 bytes s s 0 pend n"
  by (simp add: copy_post_def)

lemma copy_loop_stream:
  "wt_inv wt \<Longrightarrow> rd_ok rs \<Longrightarrow> length buf = 2 * TBLOCK \<Longrightarrow> nbytes < TBLOCK
    \<Longrightarrow> \<exists>buf' nbytes' left wt'. copy_loop rs buf nbytes blocks nerrs wt = Some (Done (buf', nbytes', left, nerrs, wt'))
      \<and> wt_inv wt' \<and> length buf' = 2 * TBLOCK \<and> nbytes' < TBLOCK
      \<and> copy_post blocks (take nbytes buf @ rd_bytes rs) (wt_stream wt) (wt_stream wt') left (take nbytes' buf') nbytes'"
proof (induction rs arbitrary: buf nbytes blocks wt)
  case Nil
  then show ?case using copy_post_end[of "take nbytes buf"] by (auto simp: rd_bytes_def min_def)
next
  case (Cons r rs)
  obtain d where d: "r = RdData d" "d \<noteq> []" "length d \<le> TBLOCK" and rs: "rd_ok rs"
    using Cons.prems(2) by (auto simp: rd_ok_def)
  show ?case
  proof (cases "blocks = 0")
    case True
    then show ?thesis using Cons.prems by (simp add: copy_post_full)
  next
    case False
    let ?n = "nbytes + length d" and ?pend = "take nbytes buf"
    let ?f = "?pend @ d" and ?buf1 = "(?pend @ d) @ drop (nbytes + length d) buf"
    have lp: "length ?pend = nbytes" using Cons.prems(3,4) by (simp add: TBLOCK_def)
    have put: "put_at buf nbytes d = Some ?buf1"
      using Cons.prems(3,4) d(3) by (simp add: put_at_def TBLOCK_def)
    have l1: "length ?buf1 = 2 * TBLOCK" "take ?n ?buf1 = ?f"
      using Cons.prems(3,4) d(3) lp by (simp_all add: TBLOCK_def)
    have rb: "?pend @ rd_bytes (r # rs) = ?f @ rd_bytes rs" using d(1) by (simp add: rd_bytes_def)
    show ?thesis
    proof (cases "?n < TBLOCK")
      case True
      have "copy_loop (r # rs) buf nbytes blocks nerrs wt = copy_loop rs ?buf1 ?n blocks nerrs wt"
        using False d(1,2) put True by simp
      then show ?thesis using Cons.IH[OF Cons.prems(1) rs l1(1) True, of blocks] unfolding l1(2) rb by metis
    next
      case full: False
      let ?k = "?n - TBLOCK"
      let ?rest = "drop TBLOCK ?f" and ?head = "take TBLOCK ?f"
      have nk: "TBLOCK \<le> length ?f" "?k < TBLOCK" "length ?rest = ?k" "length ?f = ?n"
        using full Cons.prems(4) d(3) lp by auto
      have t1: "take TBLOCK ?buf1 = ?head" "take ?k (drop TBLOCK ?buf1) = ?rest"
        using take_front[OF nk(1)] take_overflow[OF nk(1)] nk(4) by metis+
      have "TBLOCK \<le> length ?buf1" unfolding l1(1) by simp
      then obtain wt1 where wt1: "putblock wt (Some ?buf1) = Some wt1" "wt_inv wt1"
        "wt_stream wt1 = wt_stream wt @ ?head"
        using tape.put_appendsE[OF Cons.prems(1)] unfolding t1(1)[symmetric] by blast
      let ?buf2 = "?rest @ drop ?k ?buf1"
      have put2: "put_at ?buf1 0 ?rest = Some ?buf2"
        unfolding put_at_def l1(1) nk(3) using nk(2) by simp
      have "?k \<le> length ?buf1" unfolding l1(1) using nk(2) by linarith
      note mr = moved_rest[OF nk(3) this]
      note l2 = trans[OF mr(1) l1(1)] mr(2)
      have "copy_loop (r # rs) buf nbytes blocks nerrs wt = do {
          wt1 \<leftarrow> putblock wt (Some ?buf1);
          buf2 \<leftarrow> put_at ?buf1 0 (take ?k (drop TBLOCK ?buf1));
          copy_loop rs buf2 ?k (blocks - 1) nerrs wt1 }"
        unfolding copy_loop.simps d(1) rd.case using False d(2) full
        by (simp only: if_False put bind.bind_lunit Let_def)
      then have step: "copy_loop (r # rs) buf nbytes blocks nerrs wt = copy_loop rs ?buf2 ?k (blocks - 1) nerrs wt1"
        unfolding t1(2) put2 wt1(1) bind.bind_lunit .
      have all: "?head @ ?rest @ rd_bytes rs = ?pend @ rd_bytes (r # rs)"
        unfolding rb by (metis append_assoc append_take_drop_id)
      have lh: "length ?head = TBLOCK" using nk(1) by simp
      show ?thesis
        using Cons.IH[OF wt1(2) rs l2(1) nk(2), of "blocks - 1"] copy_post_block[OF _ lh False]
        unfolding l2(2) wt1(3) step all[symmetric] by metis
    qed
  qed
qed

lemma copy_and_pad:
  assumes "wt_inv wt" "rd_ok rs" "length buf0 = 2 * TBLOCK" "opened = Some rs"
  shows "\<exists>wt'. wt_copyfile opened buf0 fh ftype nerrs wt = Some (Done (nerrs, wt')) \<and> wt_inv wt'
    \<and> wt_stream wt' = wt_stream wt @ block_image (ftype = TEXT_FILE) (file_blocks (fh_size fh)) (rd_bytes rs)"
proof -
  let ?blocks = "file_blocks (fh_size fh)" and ?tx = "ftype = TEXT_FILE" and ?bs = "rd_bytes rs"
  have z: "(0 :: nat) < TBLOCK" by (simp add: TBLOCK_def)
  let ?m = "min ?blocks (length ?bs div TBLOCK)"
  obtain buf nbytes left wt1 where cl: "copy_loop rs buf0 0 ?blocks nerrs wt = Some (Done (buf, nbytes, left, nerrs, wt1))"
    "wt_inv wt1" "length buf = 2 * TBLOCK" "nbytes < TBLOCK" "left = ?blocks - ?m"
    "wt_stream wt1 = wt_stream wt @ take (TBLOCK * ?m) ?bs"
    "0 < left \<Longrightarrow> take nbytes buf = drop (TBLOCK * ?m) ?bs \<and> nbytes = length ?bs - TBLOCK * ?m"
    using copy_loop_stream[OF assms(1-3) z, of ?blocks nerrs] unfolding copy_post_def Let_def by auto
  have "TBLOCK \<le> length buf" using cl(3) by simp
  from pad_loop_stream[OF cl(2) this cl(4), of ?tx left] obtain wt' where
    wt': "pad_loop ?tx left buf nbytes wt1 = Some wt'" "wt_inv wt'"
    "wt_stream wt' = wt_stream wt1 @ (if left = 0 then []
        else take nbytes buf @ padding ?tx nbytes @ concat (replicate (left - 1) (padding ?tx 0)))"
    by blast
  have "take (TBLOCK * ?m) ?bs @ (if left = 0 then []
        else take nbytes buf @ padding ?tx nbytes @ concat (replicate (left - 1) (padding ?tx 0)))
      = block_image ?tx ?blocks ?bs"
  proof (cases "TBLOCK * ?blocks \<le> length ?bs")
    case True
    then have "?blocks \<le> length ?bs div TBLOCK" using z by (simp add: less_eq_div_iff_mult_less_eq mult.commute)
    then have "?m = ?blocks" "left = 0" using cl(5) by simp_all
    with True show ?thesis by (simp add: block_image_def)
  next
    case False
    then have "length ?bs div TBLOCK < ?blocks" using z by (simp add: div_less_iff_less_mult mult.commute)
    then have m: "?m = length ?bs div TBLOCK" "0 < left" "left = ?blocks - length ?bs div TBLOCK"
      using cl(5) by simp_all
    have nb: "nbytes = length ?bs mod TBLOCK"
      using cl(7)[OF m(2)] m(1) by (simp add: minus_mult_div_eq_mod)
    have "take (TBLOCK * ?m) ?bs @ take nbytes buf = ?bs" by (metis cl(7)[OF m(2)] append_take_drop_id)
    then show ?thesis using False m nb by (auto simp: block_image_def)
  qed
  then show ?thesis
    using cl(1,6) wt' assms(4) by (auto simp: wt_copyfile_def Let_def)
qed

text \<open>A file whose length is the size in the header is written whole, padded to full blocks.\<close>

lemma file_blocks_eq:
  assumes "unat sz < 2 ^ 39"
  shows "file_blocks sz = (unat sz + 511) div 512"
proof -
  have u: "sint sz = int (unat sz)"
    using assms sint_xint_small[of "unat sz"] by simp
  have "(unat sz + 511) div 512 < 2 ^ 31" using assms by simp
  then have "sint (to_cint (word_of_nat ((unat sz + 511) div 512))) = int ((unat sz + 511) div 512)"
    by (rule sint_to_cint_small)
  moreover have "(sint sz + 511) div 512 = int ((unat sz + 511) div 512)"
    using u by (simp add: zdiv_int)
  ultimately show ?thesis by (simp add: file_blocks_def)
qed

lemma block_image_whole:
  assumes "n = (length bs + 511) div 512"
  shows "block_image tx n bs = bs @ (if length bs mod 512 = 0 then [] else padding tx (length bs mod 512))"
proof (cases "length bs mod 512 = 0")
  case True
  then have "512 * n = length bs" using assms by (auto elim!: dvdE simp: mod_0_imp_dvd)
  with True show ?thesis by (simp add: block_image_def TBLOCK_def)
next
  case False
  define q r where "q = length bs div 512" and "r = length bs mod 512"
  have l: "length bs = 512 * q + r" "0 < r" "r < 512" using False by (simp_all add: q_def r_def)
  then have "n = Suc q" using assms by simp
  with l False show ?thesis by (simp add: block_image_def TBLOCK_def)
qed

lemma endtar_stream:
  assumes "wt_inv wt"
  shows "\<exists>wt' stale. endtar wt = Some wt' \<and> wt_inv wt' \<and> wt_nblocks wt' = 0
    \<and> concat (wt_writes wt') = wt_stream wt @ replicate 1024 EOS @ stale"
proof -
  let ?z = "replicate TBLOCK EOS"
  obtain wt1 where 1: "putblock wt (Some ?z) = Some wt1" "wt_inv wt1" "wt_stream wt1 = wt_stream wt @ ?z"
    using tape.put_appendsE[OF assms, of ?z] by auto
  obtain wt2 where 2: "putblock wt1 (Some ?z) = Some wt2" "wt_inv wt2" "wt_stream wt2 = wt_stream wt1 @ ?z"
    using tape.put_appendsE[OF 1(2), of ?z] by auto
  have z: "?z @ ?z = replicate 1024 EOS" by (simp add: TBLOCK_def flip: replicate_add)
  then have s: "wt_stream wt2 = wt_stream wt @ replicate 1024 EOS"
    using 1(3) 2(3) by (metis append_assoc)
  have e: "endtar wt = putblock wt2 None"
    by (simp add: endtar_def 1(1) 2(1))
  show ?thesis
  proof (cases "wt_nblocks wt2 = 0")
    case True
    then have "endtar wt = Some wt2" by (simp add: e putblock_def wt_flush_def)
    moreover have "concat (wt_writes wt2) = wt_stream wt2"
      using 2(2) True by (simp add: wt_inv_def wt_stream_def)
    ultimately show ?thesis using 2(2) True s by (intro exI[of _ wt2] exI[of _ "[]"]) simp
  next
    case False
    let ?wt = "wt2\<lparr>wt_writes := wt_writes wt2 @ [wt_block wt2], wt_next := 0, wt_nblocks := 0\<rparr>"
    have bl: "length (wt_block wt2) = SZ_TAPEBUFFER" using 2(2) by (simp add: wt_inv_def)
    then have "endtar wt = Some ?wt"
      using False by (simp add: e putblock_def wt_flush_def SZ_TAPEBUFFER_def TBLOCK_def NBLOCK_def)
    moreover have "concat (wt_writes ?wt) = wt_stream wt2 @ drop (wt_next wt2) (wt_block wt2)"
      by (simp add: wt_stream_def)
    moreover have "wt_inv ?wt" using 2(2) bl by (auto simp: wt_inv_def NBLOCK_def)
    ultimately show ?thesis
      using s by (intro exI[of _ ?wt] exI[of _ "drop (wt_next wt2) (wt_block wt2)"]) simp
  qed
qed

section \<open>One entry of the archive\<close>

lemma sint_size_small:
  assumes "unat (sz :: xint) < 2 ^ 39"
  shows "sint sz = int (unat sz)" "0 <s sz \<longleftrightarrow> 0 < unat sz"
proof -
  show s: "sint sz = int (unat sz)" using assms sint_xint_small[of "unat sz"] by simp
  then show "0 <s sz \<longleftrightarrow> 0 < unat sz" by (simp only: word_sless_alt signed_0 of_nat_0_less_iff)
qed

lemma copyfile_whole:
  assumes "wt_inv wt" "rd_ok rs" "length buf0 = 2 * TBLOCK"
    "length (rd_bytes rs) = unat (fh_size fh)" "unat (fh_size fh) < 2 ^ 39"
  shows "\<exists>wt'. wt_copyfile (Some rs) buf0 fh ftype nerrs wt = Some (Done (nerrs, wt')) \<and> wt_inv wt'
    \<and> wt_stream wt' = wt_stream wt @ rd_bytes rs
        @ (if length (rd_bytes rs) mod 512 = 0 then [] else padding (ftype = TEXT_FILE) (length (rd_bytes rs) mod 512))"
  using copy_and_pad[OF assms(1-3) refl, of fh ftype nerrs] file_blocks_eq[OF assms(5)]
    block_image_whole[of _ "rd_bytes rs"] assms(4) by metis

text \<open>The bytes of one entry: the header block, and the padded data of a plain file.\<close>

definition entry_bytes :: "byte list \<Rightarrow> fheader \<Rightarrow> nat \<Rightarrow> byte list \<Rightarrow> byte list" where
  "entry_bytes hb fh ftype bs =
     hb @ (if fh_isdir fh \<or> fh_linkflag fh \<noteq> 0 then []
           else bs @ (if length bs mod 512 = 0 then [] else padding (ftype = TEXT_FILE) (length bs mod 512)))"

lemma tarfileout_appends:
  assumes "wt_inv (ws_tape ws)" "\<not> (ftype = BINARY_FILE \<and> ws_omitbinary ws)" "fi_ok fi"
    "make_header fname fi ftype path = Some fh" "header_ok fh" "0 \<le> hdr_sum fh"
    "fi_reads fi = Some rs" "rd_ok rs" "length (rd_bytes rs) = unat (fh_size fh)" "length buf0 = 2 * TBLOCK"
  shows "\<exists>hb ws'. encode_header junk fh = Some hb
    \<and> tarfileout junk buf0 fname fi ftype path ws = Some (Done ws') \<and> wt_inv (ws_tape ws')
    \<and> ws_nerrs ws' = ws_nerrs ws \<and> ws_omitbinary ws' = ws_omitbinary ws
    \<and> wt_stream (ws_tape ws') = wt_stream (ws_tape ws) @ entry_bytes hb fh ftype (rd_bytes rs)"
proof -
  obtain hb where hb: "encode_header junk fh = Some hb"
    using encode_header_ok[OF assms(5,6)] by blast
  have l: "TBLOCK \<le> length hb" using header_block(1)[OF assms(5,6) hb] by simp
  have "take TBLOCK hb = hb" using header_block(1)[OF assms(5,6) hb] by simp
  then obtain wt where wt: "putheader junk fh (ws_tape ws) = Some wt" "wt_inv wt"
    "wt_stream wt = wt_stream (ws_tape ws) @ hb"
    using tape.put_appendsE[OF assms(1) l] hb by (auto simp: putheader_def)
  have "unat (fh_size fh) < 8 ^ 11" using assms(5) by (simp add: header_ok_def)
  then have sz: "unat (fh_size fh) < 2 ^ 39" by simp
  let ?data = "0 <s fh_size fh \<and> \<not> fh_isdir fh \<and> fh_linkflag fh = 0"
  show ?thesis
  proof (cases ?data)
    case True
    obtain wt' where wt': "wt_copyfile (Some rs) buf0 fh ftype (ws_nerrs ws) wt = Some (Done (ws_nerrs ws, wt'))"
      "wt_inv wt'" "wt_stream wt' = wt_stream wt @ rd_bytes rs
        @ (if length (rd_bytes rs) mod 512 = 0 then [] else padding (ftype = TEXT_FILE) (length (rd_bytes rs) mod 512))"
      using copyfile_whole[OF wt(2) assms(8,10,9) sz, of ftype "ws_nerrs ws"] by blast
    have "tarfileout junk buf0 fname fi ftype path ws = Some (Done (ws\<lparr>ws_tape := wt', ws_nerrs := ws_nerrs ws\<rparr>))"
      using assms(2,3,4,7) wt(1) wt'(1) True by (auto simp: tarfileout_def)
    then show ?thesis using hb wt wt' True by (auto simp: entry_bytes_def)
  next
    case False
    then have "tarfileout junk buf0 fname fi ftype path ws = Some (Done (ws\<lparr>ws_tape := wt\<rparr>))"
      using assms(2,3,4) wt(1) by (auto simp: tarfileout_def)
    moreover have "entry_bytes hb fh ftype (rd_bytes rs) = hb"
      using False assms(9) sint_size_small(2)[OF sz] by (auto simp: entry_bytes_def)
    ultimately show ?thesis using hb wt by simp
  qed
qed

section \<open>Path names of directories\<close>

text \<open>No two slashes in a row.\<close>

fun no_runs :: "byte list \<Rightarrow> bool" where
  "no_runs (c # d # s) \<longleftrightarrow> \<not> (c = slash \<and> d = slash) \<and> no_runs (d # s)"
| "no_runs _ = True"

lemma dname_copy_hd: "dname_copy (d # s) \<noteq> [] \<and> hd (dname_copy (d # s)) = d"
  by (induction "d # s" arbitrary: d s rule: dname_copy.induct) auto

lemma dname_copy_no_runs: "no_runs (dname_copy s)"
proof (induction s rule: dname_copy.induct)
  case (3 c d s)
  show ?case
  proof (cases "c = slash \<and> d = slash")
    case False
    obtain r where "dname_copy (d # s) = d # r"
      using dname_copy_hd[of d s] by (cases "dname_copy (d # s)") auto
    with 3 False show ?thesis by (simp del: dname_copy.simps(2)) auto
  qed (use 3 in simp)
qed simp_all

lemma dname_copy_id: "no_runs s \<Longrightarrow> dname_copy s = s"
  by (induction s rule: no_runs.induct) auto

lemma no_runs_snoc: "no_runs p \<Longrightarrow> p = [] \<or> last p \<noteq> slash \<Longrightarrow> no_runs (p @ [slash])"
  by (induction p rule: no_runs.induct) (auto split: if_splits)

text \<open>The components of a path are kept.\<close>

fun components :: "byte list \<Rightarrow> byte list \<Rightarrow> byte list list" where
  "components cur [] = (if cur = [] then [] else [cur])"
| "components cur (c # s) =
     (if c = slash then (if cur = [] then [] else [cur]) @ components [] s else components (cur @ [c]) s)"

lemma components_dname_copy: "components cur (dname_copy s) = components cur s"
proof (induction s arbitrary: cur rule: dname_copy.induct)
  case (3 c d s)
  show ?case
  proof (cases "c = slash \<and> d = slash")
    case True
    then have "components cur (dname_copy (c # d # s)) = components cur (d # s)" using 3 by simp
    also have "\<dots> = components cur (c # d # s)" using True by simp
    finally show ?thesis .
  next
    case False
    then show ?thesis using 3 by auto
  qed
qed simp_all

lemma components_slash: "components cur (s @ [slash]) = components cur s"
  by (induction s arbitrary: cur) auto

section \<open>Properties\<close>

text \<open>
  C13. \<^verbatim>\<open>copyfile\<close> of the writer appends to the blocked stream exactly the bytes of the file, in
  whatever portions the reads return them, followed by the padding that completes the last
  block, when the file is as long as its header says.
\<close>

theorem copyfile_writes_padded:
  assumes "wt_inv wt" "rd_ok rs" "length buf0 = 2 * TBLOCK"
    "length (rd_bytes rs) = unat (fh_size fh)" "unat (fh_size fh) < 2 ^ 39"
  shows "\<exists>wt'. wt_copyfile (Some rs) buf0 fh ftype nerrs wt = Some (Done (nerrs, wt')) \<and> wt_inv wt'
    \<and> wt_stream wt' = wt_stream wt @ rd_bytes rs
        @ (if length (rd_bytes rs) mod 512 = 0 then [] else padding (ftype = TEXT_FILE) (length (rd_bytes rs) mod 512))"
  using assms by (rule copyfile_whole)

definition empty_tape :: wtape where
  "empty_tape = \<lparr>wt_block = replicate SZ_TAPEBUFFER 0, wt_next = 0, wt_nblocks = 0, wt_writes = []\<rparr>"

lemma empty_tape_inv: "wt_inv empty_tape" "wt_stream empty_tape = []"
  by (simp_all add: wt_inv_def wt_stream_def empty_tape_def NBLOCK_def)

theorem copyfile_writes_padded_witness:
  "\<exists>wt'. wt_copyfile (Some [RdData (replicate 500 1), RdData (replicate 500 2), RdData (replicate 300 3)])
      (replicate 1024 9) sample_header BINARY_FILE 0 empty_tape = Some (Done (0, wt')) \<and> wt_inv wt'
    \<and> wt_stream wt' = wt_stream empty_tape @ rd_bytes [RdData (replicate 500 1), RdData (replicate 500 2), RdData (replicate 300 3)]
        @ (if length (rd_bytes [RdData (replicate 500 1), RdData (replicate 500 2), RdData (replicate 300 3)]) mod 512 = 0 then []
           else padding (BINARY_FILE = TEXT_FILE)
             (length (rd_bytes [RdData (replicate 500 1), RdData (replicate 500 2), RdData (replicate 300 3)]) mod 512))"
  by (rule copyfile_writes_padded[OF empty_tape_inv(1)])
     (simp_all add: rd_ok_def rd_bytes_def sample_header_def TBLOCK_def)

text \<open>
  \<^verbatim>\<open>endtar\<close> completes the stream with two zero blocks and writes out what is buffered, so
  that what reached the tape, all in records of \<open>SZ_TAPEBUFFER\<close> bytes, is the stream, 1024
  zero bytes and the stale rest of the last buffer.
\<close>

theorem endtar_completes:
  assumes "wt_inv wt"
  shows "\<exists>wt' stale. endtar wt = Some wt' \<and> wt_nblocks wt' = 0
    \<and> concat (wt_writes wt') = wt_stream wt @ replicate 1024 EOS @ stale
    \<and> (\<forall>w \<in> set (wt_writes wt'). length w = SZ_TAPEBUFFER)"
  using endtar_stream[OF assms] unfolding wt_inv_def by blast

theorem endtar_completes_witness:
  "\<exists>wt' stale. endtar empty_tape = Some wt' \<and> wt_nblocks wt' = 0
    \<and> concat (wt_writes wt') = wt_stream empty_tape @ replicate 1024 EOS @ stale
    \<and> (\<forall>w \<in> set (wt_writes wt'). length w = SZ_TAPEBUFFER)"
  using empty_tape_inv(1) by (rule endtar_completes)

text \<open>
  \<^verbatim>\<open>dname\<close> normalises a directory path: the result has no run of slashes, ends in a slash
  unless it is empty, has the same components and is a fixed point of \<^verbatim>\<open>dname\<close>.
\<close>

theorem dname_normalises:
  assumes "dname dir = Some p"
  shows "no_runs p \<and> (p = [] \<or> last p = slash) \<and> components [] p = components [] dir \<and> dname p = Some p"
proof -
  have n: "no_runs p" "p = [] \<or> last p = slash" "components [] p = components [] dir"
    using assms dname_copy_no_runs[of dir] no_runs_snoc[of "dname_copy dir"]
      components_dname_copy[of "[]" dir]
    by (auto simp: dname_def Let_def components_slash split: if_splits)
  moreover have "dname p = Some p"
    using n(2) assms by (auto simp: dname_def dname_copy_id[OF n(1)] Let_def split: if_splits)
  ultimately show ?thesis by blast
qed

theorem dname_normalises_witness:
  "no_runs (bstr ''/a/bc/'') \<and> (bstr ''/a/bc/'' = [] \<or> last (bstr ''/a/bc/'') = slash)
    \<and> components [] (bstr ''/a/bc/'') = components [] (bstr ''//a///bc'') \<and> dname (bstr ''/a/bc/'') = Some (bstr ''/a/bc/'')"
  by (rule dname_normalises) (simp add: dname_def bstr_def SZ_PATHBUF_def)

text \<open>
  \<^verbatim>\<open>u_fmode\<close> turns the six IRAF permission bits, two per class, into a UNIX mode: the read
  and write bits of each class are kept, and every class may execute exactly the files that
  are directories or executables.
\<close>

theorem u_fmode_bits:
  "and (u_fmode i t) 438 = (if bit i 0 then 256 else 0) + (if bit i 1 then 128 else 0) + (if bit i 2 then 32 else 0)
      + (if bit i 3 then 16 else 0) + (if bit i 4 then 4 else 0) + (if bit i 5 then 2 else 0)
    \<and> and (u_fmode i t) 73 = (if t = FI_DIRECTORY \<or> t = FI_EXECUTABLE then 73 else 0) \<and> u_fmode i t < 512"
proof -
  have "and i 1 \<noteq> 0 \<longleftrightarrow> bit i 0" "and i 2 \<noteq> 0 \<longleftrightarrow> bit i 1" "and i 4 \<noteq> 0 \<longleftrightarrow> bit i 2"
    "and i 8 \<noteq> 0 \<longleftrightarrow> bit i 3" "and i 16 \<noteq> 0 \<longleftrightarrow> bit i 4" "and i 32 \<noteq> 0 \<longleftrightarrow> bit i 5"
    using and_exp_eq_0_iff_not_bit[of i 0] and_exp_eq_0_iff_not_bit[of i 1] and_exp_eq_0_iff_not_bit[of i 2]
      and_exp_eq_0_iff_not_bit[of i 3] and_exp_eq_0_iff_not_bit[of i 4] and_exp_eq_0_iff_not_bit[of i 5] by simp_all
  then have "u_fmode i t = (let ex = (t = FI_DIRECTORY \<or> t = FI_EXECUTABLE); m = 0; m = (if bit i 0 then or m 256 else m);
      m = (if bit i 1 then or m 128 else m); m = (if ex then or m 64 else m); m = (if bit i 2 then or m 32 else m);
      m = (if bit i 3 then or m 16 else m); m = (if ex then or m 8 else m); m = (if bit i 4 then or m 4 else m);
      m = (if bit i 5 then or m 2 else m); m = (if ex then or m 1 else m) in m)"
    unfolding u_fmode_def Let_def by presburger
  then show ?thesis
    by (cases "bit i 0"; cases "bit i 1"; cases "bit i 2"; cases "bit i 3"; cases "bit i 4"; cases "bit i 5";
        cases "t = FI_DIRECTORY \<or> t = FI_EXECUTABLE") (simp_all add: Let_def)
qed

text \<open>
  \<^verbatim>\<open>tarfileout\<close> appends to the stream one header block and, for a plain file, its padded
  data: this is the whole effect of adding a readable file whose name fits.
\<close>

theorem tarfileout_appends_entry:
  assumes "wt_inv (ws_tape ws)" "\<not> (ftype = BINARY_FILE \<and> ws_omitbinary ws)" "fi_ok fi"
    "make_header fname fi ftype path = Some fh" "header_ok fh" "0 \<le> hdr_sum fh"
    "fi_reads fi = Some rs" "rd_ok rs" "length (rd_bytes rs) = unat (fh_size fh)" "length buf0 = 2 * TBLOCK"
  shows "\<exists>hb ws'. encode_header junk fh = Some hb
    \<and> tarfileout junk buf0 fname fi ftype path ws = Some (Done ws') \<and> wt_inv (ws_tape ws')
    \<and> wt_stream (ws_tape ws') = wt_stream (ws_tape ws) @ entry_bytes hb fh ftype (rd_bytes rs)"
  using tarfileout_appends[OF assms, of junk] by blast

definition sample_info :: finfo where
  "sample_info = \<lparr>fi_ok = True, fi_size = 700, fi_perm = 23, fi_type = 1, fi_mtime = 1700000000,
     fi_owner = (1000, 100), fi_lstat = (0, 0, 0, 0), fi_link = [],
     fi_reads = Some [RdData (replicate 512 65), RdData (replicate 188 10)]\<rparr>"

definition sample_made :: fheader where
  "sample_made = \<lparr>fh_name = bstr ''d/f'', fh_mode = 420, fh_uid = 1000, fh_gid = 100, fh_isdir = False,
     fh_size = 700, fh_mtime = 1700000000, fh_linkflag = 0, fh_linkname = []\<rparr>"

lemma sample_made: "make_header (bstr ''f'') sample_info TEXT_FILE (bstr ''d/'') = Some sample_made"
  by (simp add: make_header_def sample_info_def sample_made_def bstr_def NAMSIZ_def TEXT_FILE_def DIRECTORY_FILE_def
      LF_SYMLINK_def u_fmode_def FI_DIRECTORY_def FI_EXECUTABLE_def Let_def)

lemma sample_made_ok: "header_ok sample_made" "0 \<le> hdr_sum sample_made"
  by (simp add: header_ok_def sample_made_def bstr_def NAMSIZ_def,
      rule hdr_sum_ascii) (simp_all add: sample_made_def bstr_def is_ascii_def cval_def)

theorem tarfileout_appends_entry_witness:
  "\<exists>hb ws'. encode_header 7 sample_made = Some hb
    \<and> tarfileout 7 (replicate 1024 0) (bstr ''f'') sample_info TEXT_FILE (bstr ''d/'')
        \<lparr>ws_tape = empty_tape, ws_nerrs = 0, ws_omitbinary = True\<rparr> = Some (Done ws') \<and> wt_inv (ws_tape ws')
    \<and> wt_stream (ws_tape ws') = wt_stream (ws_tape \<lparr>ws_tape = empty_tape, ws_nerrs = 0, ws_omitbinary = True\<rparr>)
        @ entry_bytes hb sample_made TEXT_FILE (rd_bytes [RdData (replicate 512 65), RdData (replicate 188 10)])"
  using empty_tape_inv(1) sample_made sample_made_ok
  by (intro tarfileout_appends_entry)
     (simp_all add: sample_info_def rd_ok_def rd_bytes_def sample_made_def TBLOCK_def TEXT_FILE_def BINARY_FILE_def)

end
