(* ===== verification/Rtar.thy ===== *)
theory Rtar
  imports Wtar
begin

text \<open>
  The archive reader \<^verbatim>\<open>unix/boot/rtar/rtar.c\<close>: the blocked input stream (\<^verbatim>\<open>getblock\<close>), the
  header reader with its recovery from checksum errors (\<^verbatim>\<open>getheader\<close>), the text/binary
  heuristic (\<^verbatim>\<open>filetype\<close>), the copying of file data with the removal of the padding
  (\<^verbatim>\<open>copyfile\<close>, \<^verbatim>\<open>strip_blanks\<close>), \<^verbatim>\<open>skipfile\<close>, \<^verbatim>\<open>matchfile\<close>, \<^verbatim>\<open>checkdir\<close>, and the main loop.
  The tape is a list of the results of successive reads, at whose end every further read
  returns zero bytes; what the program does to the host file system is a list of actions.
\<close>

definition MAXTRYS :: nat where "MAXTRYS = 100"
definition MAXLINELEN :: nat where "MAXLINELEN = 256"
definition SZ_PADBUF :: nat where "SZ_PADBUF = 8196"

section \<open>The blocked input stream\<close>

text \<open>\<open>tp_blocks\<close> is \<^verbatim>\<open>nblocks\<close>, which goes below zero at the end.\<close>

record tape =
  tp_reads :: "byte list list"
  tp_buf :: "byte list"
  tp_next :: nat
  tp_blocks :: int
  tp_eof :: bool

text \<open>\<^verbatim>\<open>tape_read\<close> fills the front of the buffer; a record longer than the buffer is cut.\<close>

definition tape_read :: "tape \<Rightarrow> nat \<times> tape" where
  "tape_read tp =
     (case tp_reads tp of
        [] \<Rightarrow> (0, tp)
      | r # rs \<Rightarrow>
          let d = take SZ_TAPEBUFFER r
          in (length d, tp\<lparr>tp_reads := rs, tp_buf := d @ drop (length d) (tp_buf tp)\<rparr>))"

text \<open>
  One turn of the loop of \<^verbatim>\<open>getblock\<close>: \<open>Inl\<close> leaves the loop with the offset of the block,
  if there is one, \<open>Inr\<close> goes round.
\<close>

definition getblock_turn :: "tape \<Rightarrow> nat option \<times> tape + tape" where
  "getblock_turn tp =
     (if tp_eof tp then Inl (None, tp)
      else
        let tp1 = tp\<lparr>tp_blocks := tp_blocks tp - 1\<rparr>
        in if 0 \<le> tp_blocks tp1
           then Inl (Some (tp_next tp1), tp1\<lparr>tp_next := tp_next tp1 + TBLOCK\<rparr>)
           else case tape_read tp1 of (nbytes, tp2) \<Rightarrow>
             if nbytes < TBLOCK then Inr (tp2\<lparr>tp_eof := True\<rparr>)
             else Inr (tp2\<lparr>tp_blocks := int ((nbytes + TBLOCK - 1) div TBLOCK), tp_next := 0\<rparr>))"

function getblock :: "tape \<Rightarrow> nat option \<times> tape" where
  "getblock tp = (case getblock_turn tp of Inl r \<Rightarrow> r | Inr tp' \<Rightarrow> getblock tp')"
  by pat_completeness auto
termination
proof (relation "measure (\<lambda>tp. if tp_eof tp then 0 else if 0 < tp_blocks tp then 1 else 2)")
  fix tp tp'
  assume t: "getblock_turn tp = Inr tp'"
  obtain n tp2 where r: "tape_read (tp\<lparr>tp_blocks := tp_blocks tp - 1\<rparr>) = (n, tp2)" by fastforce
  have "tp_eof tp2 = tp_eof tp"
    using r by (auto simp: tape_read_def Let_def split: list.splits)
  then show "(tp', tp) \<in> measure (\<lambda>tp. if tp_eof tp then 0 else if 0 < tp_blocks tp then 1 else 2)"
    using t r by (auto simp: getblock_turn_def Let_def TBLOCK_def split: if_splits)
qed simp

declare getblock.simps [simp del]

text \<open>The bytes of the block at an offset of the buffer.\<close>

definition block_at :: "tape \<Rightarrow> nat \<Rightarrow> byte list" where
  "block_at tp bp = take TBLOCK (drop bp (tp_buf tp))"

section \<open>Headers\<close>

datatype header_result = HeaderEof | HeaderExit | Header fheader

text \<open>
  \<^verbatim>\<open>getheader\<close>: the checksum field is blanked in the tape buffer itself. The variable
  \<^verbatim>\<open>tape_checksum\<close> keeps its value when the field cannot be scanned, and has none at first.
  The loop is bounded by the number of tries.
\<close>

function header_loop :: "nat \<Rightarrow> int option \<Rightarrow> tape \<Rightarrow> fheader \<Rightarrow> (header_result \<times> tape) option" where
  "header_loop ntrys tape_checksum tp fh =
     (case getblock tp of
        (None, tp1) \<Rightarrow> Some (HeaderEof, tp1)
      | (Some bp, tp1) \<Rightarrow>
          let hb = block_at tp1 bp
          in if length hb < TBLOCK then None
             else if zero_header hb then Some (HeaderEof, tp1)
             else (case sscanf_o 32 (drop o_chksum hb) of
                     None \<Rightarrow> None
                   | Some r \<Rightarrow>
                       let ck = (case r of None \<Rightarrow> tape_checksum | Some v \<Rightarrow> Some v);
                           hb1 = blank_chksum hb;
                           tp2 = tp1\<lparr>tp_buf := take bp (tp_buf tp1) @ hb1 @ drop (bp + TBLOCK) (tp_buf tp1)\<rparr>
                       in (case ck of
                             None \<Rightarrow> None
                           | Some v \<Rightarrow>
                               if cchksum hb1 \<noteq> v
                               then if ntrys \<noteq> 0 \<and> MAXTRYS \<le> ntrys then Some (HeaderExit, tp2)
                                    else header_loop (Suc ntrys) ck tp2 fh
                               else map_option (\<lambda>h. (Header h, tp2)) (decode_header hb1 fh))))"
  by pat_completeness auto
termination by (relation "measure (\<lambda>(ntrys, ck, tp, fh). Suc MAXTRYS - ntrys)") (auto simp: MAXTRYS_def)

declare header_loop.simps [simp del]

definition getheader :: "tape \<Rightarrow> fheader \<Rightarrow> (header_result \<times> tape) option" where
  "getheader tp fh = header_loop 0 None tp fh"

section \<open>Selection of files\<close>

text \<open>
  The comparison loop \<open>for (fn=fname, ln=*(files-1); *ln && *ln == *fn++; ) ln++;\<close> and the two
  tests behind it, on strings without their terminators.
\<close>

fun match_elem :: "byte list \<Rightarrow> byte list \<Rightarrow> bool" where
  "match_elem [] fn = True"
| "match_elem (l # ln) [] = (l = bchar CHR ''$'')"
| "match_elem (l # ln) (f # fn) = (if l = f then match_elem ln fn else False)"

fun match_list :: "byte list \<Rightarrow> byte list list \<Rightarrow> bool" where
  "match_list fname [] = False"
| "match_list fname (e # files) =
     ((case (e, fname) of ([], []) \<Rightarrow> True | (l # _, f # _) \<Rightarrow> l = f \<and> match_elem e fname | _ \<Rightarrow> False)
       \<or> match_list fname files)"

definition matchfile :: "byte list \<Rightarrow> byte list list \<Rightarrow> nat" where
  "matchfile fname files = (if files = [] \<or> match_list fname files then 1 else 0)"

section \<open>File data\<close>

text \<open>An output file: what was written, and which of the coming writes fail.\<close>

record outf =
  of_data :: "byte list"
  of_fail :: "bool list"

definition os_write :: "outf \<Rightarrow> byte list \<Rightarrow> bool \<times> outf" where
  "os_write out bs =
     (case of_fail out of
        True # f \<Rightarrow> (False, out\<lparr>of_fail := f\<rparr>)
      | False # f \<Rightarrow> (True, out\<lparr>of_data := of_data out @ bs, of_fail := f\<rparr>)
      | [] \<Rightarrow> (True, out\<lparr>of_data := of_data out @ bs\<rparr>))"

text \<open>
  \<open>hi\<close> says which bytes outside ASCII the host's \<^verbatim>\<open>isprint\<close> or \<^verbatim>\<open>isspace\<close> accepts.
\<close>

definition texty :: "(byte \<Rightarrow> bool) \<Rightarrow> byte \<Rightarrow> bool" where
  "texty hi c = (if cval c < 0 then hi c
     else 32 \<le> cval c \<and> cval c < 127 \<or> is_space c \<or> 7 \<le> cval c \<and> cval c \<le> 15)"

definition filetype :: "(byte \<Rightarrow> bool) \<Rightarrow> bool \<Rightarrow> tape \<Rightarrow> fheader \<Rightarrow> nat \<times> tape" where
  "filetype hi binaryout tp fh =
     (if fh_isdir fh then (DIRECTORY_FILE, tp)
      else if fh_size fh = 0 \<or> binaryout then (BINARY_FILE, tp)
      else case getblock tp of
        (None, tp1) \<Rightarrow> (BINARY_FILE, tp1)
      | (Some bp, tp1) \<Rightarrow>
          let tp2 = tp1\<lparr>tp_next := tp_next tp1 - TBLOCK, tp_blocks := tp_blocks tp1 + 1\<rparr>;
              nchars = (if sint (fh_size fh) < int TBLOCK then nat (sint (fh_size fh)) else TBLOCK);
              bs = take nchars (block_at tp1 bp);
              seen = takeWhile (\<lambda>c. c = newline \<or> texty hi c) bs
          in (if length seen < nchars \<or> MAXLINELEN < nchars \<and> newline \<notin> set seen
              then BINARY_FILE else TEXT_FILE, tp2))"

text \<open>
  The first loop of \<^verbatim>\<open>copyfile\<close>. After a failed write the byte count stays as it is, although
  the block has been taken from the tape.
\<close>

partial_function (option) write_blocks ::
  "tape \<Rightarrow> outf \<Rightarrow> int \<Rightarrow> int \<Rightarrow> nat \<Rightarrow> (tape \<times> outf \<times> int \<times> nat) outcome option" where
  "write_blocks tp out nbytes maxpad nerrs =
     (if nbytes \<le> maxpad then Some (Done (tp, out, nbytes, nerrs))
      else case getblock tp of
        (None, tp1) \<Rightarrow> Some (Done (tp1, out, nbytes, nerrs))
      | (Some bp, tp1) \<Rightarrow>
          (case os_write out (take (nat (if nbytes < int TBLOCK then nbytes else int TBLOCK)) (block_at tp1 bp)) of
             (ok, out1) \<Rightarrow>
               if ok then write_blocks tp1 out1 (nbytes - int TBLOCK) maxpad nerrs
               else if MAXERR < nerrs then Some Exit
               else write_blocks tp1 out1 nbytes maxpad (Suc nerrs)))"

text \<open>
  The fill loop of \<^verbatim>\<open>strip_blanks\<close>: each move copies one byte more than is counted. The byte
  behind the tape buffer is \<open>junk\<close>.
\<close>

partial_function (option) fill_pad ::
  "byte \<Rightarrow> tape \<Rightarrow> byte list \<Rightarrow> nat \<Rightarrow> int \<Rightarrow> (tape \<times> byte list \<times> nat) option" where
  "fill_pad junk tp padbuf op nbytes =
     (if nbytes \<le> 0 then Some (tp, padbuf, op)
      else case getblock tp of
        (None, tp1) \<Rightarrow> Some (tp1, padbuf, op)
      | (Some bp, tp1) \<Rightarrow>
          let n = nat (if nbytes < int TBLOCK then nbytes else int TBLOCK)
          in do {
            padbuf' \<leftarrow> put_at padbuf op (take (n + 1) (drop bp (tp_buf tp1 @ [junk])));
            fill_pad junk tp1 padbuf' (op + n) (nbytes - int n) })"

text \<open>\<open>for (ip=lastnl; ip > padbuf; --ip)\<close>\<close>

fun last_newline :: "byte list \<Rightarrow> nat \<Rightarrow> nat \<Rightarrow> nat" where
  "last_newline buf 0 lastnl = lastnl"
| "last_newline buf (Suc i) lastnl =
     (if buf ! Suc i = newline then last_newline buf i (Suc i)
      else if buf ! Suc i \<noteq> blank then lastnl
      else last_newline buf i lastnl)"

definition strip_blanks :: "byte \<Rightarrow> byte list \<Rightarrow> tape \<Rightarrow> outf \<Rightarrow> int \<Rightarrow> (tape \<times> outf) option" where
  "strip_blanks junk pad0 tp out nbytes = do {
     (tp1, padbuf, op) \<leftarrow> fill_pad junk tp pad0 0 nbytes;
     let n = (if op = 0 then 0 else Suc (last_newline padbuf (op - 1) (op - 1)));
     Some (tp1, snd (os_write out (take n padbuf))) }"

definition rt_copyfile ::
  "byte \<Rightarrow> byte list \<Rightarrow> bool \<Rightarrow> tape \<Rightarrow> outf \<Rightarrow> fheader \<Rightarrow> nat \<Rightarrow> nat \<Rightarrow> (tape \<times> outf \<times> nat) outcome option" where
  "rt_copyfile junk pad0 stripblanks tp out fh ftype nerrs =
     (if fh_linkflag fh \<noteq> 0 then Some (Done (tp, out, nerrs))
      else
        let maxpad = (if ftype = BINARY_FILE \<or> \<not> stripblanks then 0 else SZ_PADBUF)
        in do {
          r \<leftarrow> write_blocks tp out (sint (fh_size fh)) (int maxpad) nerrs;
          (case r of
             Exit \<Rightarrow> Some Exit
           | Done (tp1, out1, nbytes, nerrs1) \<Rightarrow>
               if 0 < nbytes
               then do { (tp2, out2) \<leftarrow> strip_blanks junk pad0 tp1 out1 nbytes; Some (Done (tp2, out2, nerrs1)) }
               else Some (Done (tp1, out1, nerrs1))) })"

partial_function (option) skip_blocks :: "tape \<Rightarrow> int \<Rightarrow> tape option" where
  "skip_blocks tp nbytes =
     (if nbytes \<le> 0 then Some tp
      else case getblock tp of
        (None, tp1) \<Rightarrow> Some tp1
      | (Some bp, tp1) \<Rightarrow> skip_blocks tp1 (nbytes - int TBLOCK))"

definition skipfile :: "tape \<Rightarrow> fheader \<Rightarrow> tape option" where
  "skipfile tp fh = (if fh_linkflag fh \<noteq> 0 then Some tp else skip_blocks tp (sint (fh_size fh)))"

section \<open>Creating files\<close>

text \<open>What the program asks of the host, in order. Modes are those passed along.\<close>

datatype action =
    Delete "byte list"
  | Symlink "byte list" "byte list"
  | Fcopy "byte list" "byte list"
  | SetMode "byte list" cint
  | SetOwner "byte list" cint cint
  | SetMtime "byte list" xint
  | MkDir "byte list" cint
  | CreateFile "byte list" cint nat
  | WriteFile "byte list" "byte list"

text \<open>How the host answers: which directories and files can be made, which writes fail.\<close>

record host =
  h_mkdir :: "byte list \<Rightarrow> bool"
  h_create :: "byte list \<Rightarrow> bool"
  h_fcopy :: "byte list \<Rightarrow> byte list \<Rightarrow> bool"
  h_wfail :: "byte list \<Rightarrow> bool list"

text \<open>
  The loop of \<^verbatim>\<open>checkdir\<close>: every prefix that ends before a slash must be a directory or be
  made one, except a slash at the very end. \<open>dirs\<close> says which directories exist.
\<close>

fun make_dirs ::
  "host \<Rightarrow> cint \<Rightarrow> cint \<Rightarrow> byte list \<Rightarrow> byte list \<Rightarrow> (byte list \<Rightarrow> bool)
    \<Rightarrow> bool \<times> (byte list \<Rightarrow> bool) \<times> action list" where
  "make_dirs h uid gid pre [] dirs = (True, dirs, [])"
| "make_dirs h uid gid pre (c # rest) dirs =
     (if c \<noteq> slash then make_dirs h uid gid (pre @ [c]) rest dirs
      else if rest = [] then (True, dirs, [])
      else if dirs pre then make_dirs h uid gid (pre @ [c]) rest dirs
      else if \<not> h_mkdir h pre then (False, dirs, [MkDir pre 0x1ed])
      else (case make_dirs h uid gid (pre @ [c]) rest (dirs(pre := True)) of
              (ok, dirs', acts) \<Rightarrow> (ok, dirs', MkDir pre 0x1ed # SetOwner pre uid gid # acts)))"

definition before_last_slash :: "byte list \<Rightarrow> byte list" where
  "before_last_slash path = rev (tl (dropWhile (\<lambda>c. c \<noteq> slash) (rev path)))"

definition checkdir ::
  "host \<Rightarrow> byte list \<Rightarrow> cint \<Rightarrow> cint \<Rightarrow> (byte list \<Rightarrow> bool) \<Rightarrow> bool \<times> (byte list \<Rightarrow> bool) \<times> action list" where
  "checkdir h path uid gid dirs =
     (if slash \<notin> set path then (True, dirs, [])
      else if dirs (before_last_slash path) then (True, dirs, [])
      else make_dirs h uid gid [] path dirs)"

record ropts =
  ro_first :: "byte list option"
  ro_files :: "byte list list"
  ro_strip :: bool
  ro_binaryout :: bool
  ro_omitbinary :: bool
  ro_extract :: bool
  ro_replace :: bool
  ro_exclude :: nat
  ro_links :: bool
  ro_setmtime :: bool
  ro_setuid :: bool
  ro_prefix :: "byte list"

text \<open>The name the file is created under.\<close>

definition strip_prefix :: "byte list \<Rightarrow> byte list \<Rightarrow> byte list" where
  "strip_prefix pre fname =
     (if pre \<noteq> [] \<and> take (length pre) fname = pre then drop (length pre) fname else fname)"

text \<open>
  \<^verbatim>\<open>newfile\<close>: success, the name field of the header, which loses the final slash of a
  directory in place, the directories and the actions.
\<close>

definition newfile ::
  "ropts \<Rightarrow> host \<Rightarrow> fheader \<Rightarrow> nat \<Rightarrow> (byte list \<Rightarrow> bool) \<Rightarrow> bool \<times> byte list \<times> (byte list \<Rightarrow> bool) \<times> action list" where
  "newfile opts h fh type dirs =
     (let fname = strip_prefix (ro_prefix opts) (fh_name fh)
      in case checkdir h fname (fh_uid fh) (fh_gid fh) dirs of
           (False, dirs1, acts) \<Rightarrow> (False, fh_name fh, dirs1, acts)
         | (True, dirs1, acts) \<Rightarrow>
             if type = DIRECTORY_FILE
             then (let cut = (fname \<noteq> [] \<and> last fname = slash);
                       fname' = (if cut then butlast fname else fname);
                       name' = (if cut then butlast (fh_name fh) else fh_name fh)
                   in (True, name', dirs1(fname' := dirs1 fname' \<or> h_mkdir h fname'), acts @ [MkDir fname' (fh_mode fh)]))
             else (h_create h fname, fh_name fh, dirs1,
               acts @ (if ro_replace opts then [Delete fname] else []) @ [CreateFile fname (fh_mode fh) type]))"

section \<open>The main loop\<close>

record rstate =
  rs_tape :: tape
  rs_advance :: bool
  rs_nerrs :: nat
  rs_dirs :: "byte list \<Rightarrow> bool"
  rs_acts :: "action list"

definition act :: "action list \<Rightarrow> rstate \<Rightarrow> rstate" where
  "act as st = st\<lparr>rs_acts := rs_acts st @ as\<rparr>"

definition restore_attrs :: "ropts \<Rightarrow> fheader \<Rightarrow> byte list \<Rightarrow> action list" where
  "restore_attrs opts fh name =
     [SetMode name (fh_mode fh)]
     @ (if ro_setuid opts then [SetOwner name (fh_uid fh) (fh_gid fh)] else [])
     @ (if ro_setmtime opts then [SetMtime name (fh_mtime fh)] else [])"

definition skip_step :: "rstate \<Rightarrow> fheader \<Rightarrow> rstate outcome option" where
  "skip_step st fh = do { tp \<leftarrow> skipfile (rs_tape st) fh; Some (Done (st\<lparr>rs_tape := tp\<rparr>)) }"

text \<open>Links: no data follows the header. A failing link or copy only prints a message.\<close>

definition link_step :: "ropts \<Rightarrow> host \<Rightarrow> rstate \<Rightarrow> fheader \<Rightarrow> rstate" where
  "link_step opts h st fh =
     (if \<not> ro_extract opts then st
      else
        let del = (if ro_replace opts then [Delete (fh_name fh)] else [])
        in if fh_linkflag fh = LF_SYMLINK
           then act (del @ [Symlink (fh_linkname fh) (fh_name fh)]) st
           else if fh_linkflag fh = LF_LINK \<and> \<not> ro_links opts
           then act (del @ [Fcopy (fh_linkname fh) (fh_name fh)]
                  @ (if h_fcopy h (fh_linkname fh) (fh_name fh) then restore_attrs opts fh (fh_name fh) else [])) st
           else st)"

definition extract_step ::
  "(byte \<Rightarrow> bool) \<Rightarrow> byte \<Rightarrow> byte list \<Rightarrow> ropts \<Rightarrow> host \<Rightarrow> rstate \<Rightarrow> fheader \<Rightarrow> rstate outcome option" where
  "extract_step hi junk pad0 opts h st fh =
     (case filetype hi (ro_binaryout opts) (rs_tape st) fh of (ftype, tp) \<Rightarrow>
        let st1 = st\<lparr>rs_tape := tp\<rparr>
        in if 0 <s fh_size fh \<and> ftype = BINARY_FILE \<and> ro_omitbinary opts then skip_step st1 fh
           else (case newfile opts h fh ftype (rs_dirs st1) of (ok, name, dirs, acts) \<Rightarrow>
             let st2 = act acts (st1\<lparr>rs_dirs := dirs\<rparr>); fh1 = fh\<lparr>fh_name := name\<rparr>
             in if \<not> ok then skip_step st2 fh1
                else if fh_isdir fh then Some (Done (act (restore_attrs opts fh1 name) st2))
                else (let fname = strip_prefix (ro_prefix opts) (fh_name fh);
                          out = \<lparr>of_data = [], of_fail = h_wfail h fname\<rparr>
                      in do {
                        r \<leftarrow> rt_copyfile junk pad0 (ro_strip opts) (rs_tape st2) out fh1 ftype (rs_nerrs st2);
                        Some (case r of
                          Exit \<Rightarrow> Exit
                        | Done (tp2, out2, n) \<Rightarrow>
                            Done (act (WriteFile fname (of_data out2) # restore_attrs opts fh1 name)
                              (st2\<lparr>rs_tape := tp2, rs_nerrs := n\<rparr>))) })))"

definition file_step ::
  "(byte \<Rightarrow> bool) \<Rightarrow> byte \<Rightarrow> byte list \<Rightarrow> ropts \<Rightarrow> host \<Rightarrow> rstate \<Rightarrow> fheader \<Rightarrow> rstate outcome option" where
  "file_step hi junk pad0 opts h st fh =
     (if rs_advance st \<and> Some (fh_name fh) \<noteq> ro_first opts then skip_step st fh
      else
        let st1 = st\<lparr>rs_advance := False\<rparr>
        in if matchfile (fh_name fh) (ro_files opts) = ro_exclude opts then skip_step st1 fh
           else if fh_linkflag fh = LF_SYMLINK \<or> fh_linkflag fh = LF_LINK
           then Some (Done (link_step opts h st1 fh))
           else if ro_extract opts then extract_step hi junk pad0 opts h st1 fh
           else skip_step st1 fh)"

text \<open>The header structure keeps the name as \<^verbatim>\<open>newfile\<close> left it, and its link name.\<close>

partial_function (option) rtar_loop ::
  "(byte \<Rightarrow> bool) \<Rightarrow> byte \<Rightarrow> byte list \<Rightarrow> ropts \<Rightarrow> host \<Rightarrow> rstate \<Rightarrow> fheader \<Rightarrow> rstate outcome option" where
  "rtar_loop hi junk pad0 opts h st fh = do {
     r \<leftarrow> getheader (rs_tape st) fh;
     (case r of (hr, tp) \<Rightarrow>
       (case hr of
          HeaderEof \<Rightarrow> Some (Done (st\<lparr>rs_tape := tp\<rparr>))
        | HeaderExit \<Rightarrow> Some Exit
        | Header fh1 \<Rightarrow> do {
            s \<leftarrow> file_step hi junk pad0 opts h (st\<lparr>rs_tape := tp\<rparr>) fh1;
            (case s of
               Exit \<Rightarrow> Some Exit
             | Done st1 \<Rightarrow> rtar_loop hi junk pad0 opts h st1 fh1) })) }"

section \<open>The stream contract\<close>

definition record_ok :: "byte list \<Rightarrow> bool" where
  "record_ok r \<longleftrightarrow> r \<noteq> [] \<and> length r \<le> SZ_TAPEBUFFER \<and> length r mod TBLOCK = 0"

text \<open>The bytes that are still to be delivered.\<close>

definition tp_stream :: "tape \<Rightarrow> byte list" where
  "tp_stream tp = take (TBLOCK * nat (tp_blocks tp)) (drop (tp_next tp) (tp_buf tp)) @ concat (tp_reads tp)"

definition tp_inv :: "tape \<Rightarrow> bool" where
  "tp_inv tp \<longleftrightarrow> length (tp_buf tp) = SZ_TAPEBUFFER \<and> \<not> tp_eof tp \<and> 0 \<le> tp_blocks tp
     \<and> tp_next tp + TBLOCK * nat (tp_blocks tp) \<le> SZ_TAPEBUFFER \<and> list_all record_ok (tp_reads tp)"

lemma record_blocks:
  assumes "record_ok r"
  shows "take SZ_TAPEBUFFER r = r" "TBLOCK \<le> length r" "(length r + TBLOCK - 1) div TBLOCK = length r div TBLOCK"
    "TBLOCK * (length r div TBLOCK) = length r"
proof -
  have m: "length r mod TBLOCK = 0" "r \<noteq> []" using assms by (auto simp: record_ok_def)
  show "take SZ_TAPEBUFFER r = r" using assms by (simp add: record_ok_def)
  show d: "TBLOCK * (length r div TBLOCK) = length r" using m by auto
  then obtain k where k: "length r = TBLOCK * k" by metis
  with m(2) have "0 < k" by (cases k) auto
  with k show "TBLOCK \<le> length r" by simp
  show "(length r + TBLOCK - 1) div TBLOCK = length r div TBLOCK"
    unfolding k by (simp add: TBLOCK_def)
qed

text \<open>What a delivered block says about the tape before and behind it.\<close>

definition delivered :: "tape \<Rightarrow> nat \<Rightarrow> tape \<Rightarrow> bool" where
  "delivered tp bp tp' \<longleftrightarrow> tp_inv tp' \<and> tp_next tp' = bp + TBLOCK \<and> bp + TBLOCK \<le> SZ_TAPEBUFFER
    \<and> block_at tp' bp = take TBLOCK (tp_stream tp) \<and> tp_stream tp' = drop TBLOCK (tp_stream tp)
    \<and> TBLOCK \<le> length (tp_stream tp)"

lemma getblock_buffered:
  assumes "tp_inv tp" "0 < tp_blocks tp"
  shows "\<exists>bp tp'. getblock tp = (Some bp, tp') \<and> delivered tp bp tp'"
proof -
  let ?tp = "tp\<lparr>tp_blocks := tp_blocks tp - 1, tp_next := tp_next tp + TBLOCK\<rparr>" and ?b = "drop (tp_next tp) (tp_buf tp)"
  obtain k where k: "nat (tp_blocks tp) = Suc k" "nat (tp_blocks tp - 1) = k"
    using assms(2) by (cases "nat (tp_blocks tp)") auto
  have i: "length (tp_buf tp) = SZ_TAPEBUFFER" "\<not> tp_eof tp" "tp_next tp + TBLOCK * Suc k \<le> SZ_TAPEBUFFER"
    "list_all record_ok (tp_reads tp)"
    using assms(1) k by (auto simp: tp_inv_def)
  have "getblock tp = (Some (tp_next tp), ?tp)"
    using i(2) assms(2) by (subst getblock.simps) (simp add: getblock_turn_def)
  moreover have "tp_inv ?tp" using i k assms(2) by (simp add: tp_inv_def)
  moreover have l: "TBLOCK \<le> length ?b" using i(1,3) by simp
  have s: "tp_stream tp = take TBLOCK ?b @ tp_stream ?tp"
    using k by (simp add: tp_stream_def take_add add.commute)
  have "length (take TBLOCK ?b) = TBLOCK" using l by simp
  with s have "tp_stream ?tp = drop TBLOCK (tp_stream tp)" "take TBLOCK (tp_stream tp) = take TBLOCK ?b"
    "TBLOCK \<le> length (tp_stream tp)"
    by (metis append_eq_conv_conj, metis append_eq_conv_conj, simp)
  moreover have "tp_next tp + TBLOCK \<le> SZ_TAPEBUFFER" using i(3) by simp
  ultimately show ?thesis by (simp add: block_at_def delivered_def)
qed

lemma getblock_refill:
  assumes "tp_inv tp" "tp_blocks tp = 0" "tp_reads tp = r # rs"
  shows "\<exists>tp'. getblock tp = getblock tp' \<and> tp_inv tp' \<and> 0 < tp_blocks tp' \<and> tp_stream tp' = tp_stream tp"
proof -
  have ok: "record_ok r" using assms(1,3) by (simp add: tp_inv_def)
  note b = record_blocks[OF ok]
  let ?tp = "tp\<lparr>tp_blocks := int (length r div TBLOCK), tp_next := 0, tp_reads := rs, tp_buf := r @ drop (length r) (tp_buf tp)\<rparr>"
  have "tape_read (tp\<lparr>tp_blocks := -1\<rparr>) = (length r, tp\<lparr>tp_blocks := -1, tp_reads := rs, tp_buf := r @ drop (length r) (tp_buf tp)\<rparr>)"
    using assms(3) b(1) by (simp add: tape_read_def Let_def)
  then have "getblock_turn tp = Inr ?tp"
    using assms(1,2) b(2,3) by (simp add: getblock_turn_def tp_inv_def)
  then have "getblock tp = getblock ?tp"
    by (subst getblock.simps) simp
  moreover have "tp_inv ?tp"
    using assms(1,3) ok b(4) by (auto simp: tp_inv_def record_ok_def)
  moreover have "0 < length r div TBLOCK" using b(2) by (simp add: div_greater_zero_iff TBLOCK_def)
  moreover have "tp_stream ?tp = tp_stream tp"
    using assms(2,3) b(4) by (simp add: tp_stream_def)
  ultimately show ?thesis by (intro exI[of _ ?tp]) simp
qed

lemma getblock_stream:
  assumes "tp_inv tp" "tp_stream tp \<noteq> []"
  shows "\<exists>bp tp'. getblock tp = (Some bp, tp') \<and> delivered tp bp tp'"
proof (cases "0 < tp_blocks tp")
  case True
  with assms(1) show ?thesis by (rule getblock_buffered)
next
  case False
  then have z: "tp_blocks tp = 0" using assms(1) by (simp add: tp_inv_def)
  then obtain r rs where "tp_reads tp = r # rs" using assms(2) by (cases "tp_reads tp") (auto simp: tp_stream_def)
  from getblock_refill[OF assms(1) z this] obtain tp2 where
    2: "getblock tp = getblock tp2" "tp_inv tp2" "0 < tp_blocks tp2" "tp_stream tp2 = tp_stream tp" by blast
  show ?thesis using getblock_buffered[OF 2(2,3)] unfolding 2(1) delivered_def 2(4) .
qed

lemma getblock_end:
  assumes "tp_inv tp" "tp_stream tp = []"
  shows "\<exists>tp'. getblock tp = (None, tp') \<and> tp_eof tp'"
proof -
  have "tp_blocks tp = 0"
  proof (rule ccontr)
    assume "tp_blocks tp \<noteq> 0"
    with assms show False using getblock_buffered[OF assms(1)] by (auto simp: tp_inv_def TBLOCK_def delivered_def)
  qed
  moreover have "tp_reads tp = []"
    using assms by (cases "tp_reads tp") (auto simp: tp_stream_def tp_inv_def record_ok_def)
  moreover have "\<not> tp_eof tp" using assms by (simp add: tp_inv_def)
  ultimately have "getblock_turn tp = Inr (tp\<lparr>tp_blocks := -1, tp_eof := True\<rparr>)"
    by (simp add: getblock_turn_def tape_read_def TBLOCK_def)
  then have "getblock tp = (None, tp\<lparr>tp_blocks := -1, tp_eof := True\<rparr>)"
    by (subst getblock.simps, simp) (subst getblock.simps, simp add: getblock_turn_def)
  then show ?thesis by simp
qed

text \<open>
  The interface of a block source, and what its clients rely on: as long as the stream has
  bytes, a block is delivered, and it is the front of the stream.
\<close>

locale block_source =
  fixes get :: "'s \<Rightarrow> 'p option \<times> 's" and block :: "'s \<Rightarrow> 'p \<Rightarrow> byte list"
    and stream :: "'s \<Rightarrow> byte list" and inv :: "'s \<Rightarrow> bool"
  assumes get_front: "inv s \<Longrightarrow> stream s \<noteq> [] \<Longrightarrow> \<exists>p s'. get s = (Some p, s') \<and> inv s'
      \<and> block s' p = take TBLOCK (stream s) \<and> stream s' = drop TBLOCK (stream s) \<and> TBLOCK \<le> length (stream s)"
    and get_end: "inv s \<Longrightarrow> stream s = [] \<Longrightarrow> fst (get s) = None"
begin

lemma get_frontE:
  assumes "inv s" "stream s \<noteq> []"
  obtains p s' where "get s = (Some p, s')" "inv s'" "block s' p = take TBLOCK (stream s)"
    "stream s' = drop TBLOCK (stream s)" "TBLOCK \<le> length (stream s)"
  using get_front[OF assms] by blast

text \<open>The length of the stream is a multiple of the block size.\<close>

lemma stream_whole: "inv s \<Longrightarrow> length (stream s) mod TBLOCK = 0"
proof (induction "length (stream s)" arbitrary: s rule: less_induct)
  case less
  show ?case
  proof (cases "stream s = []")
    case False
    from get_frontE[OF less.prems this] obtain s' where s': "inv s'" "stream s' = drop TBLOCK (stream s)"
      "TBLOCK \<le> length (stream s)" by metis
    then have "length (stream s) = TBLOCK + length (stream s')" by simp
    moreover from this have "length (stream s') < length (stream s)" by (simp add: TBLOCK_def)
    ultimately show ?thesis using less.hyps[of s'] s'(1) by simp
  qed simp
qed

end

interpretation input: block_source getblock block_at tp_stream tp_inv
proof
  show "\<exists>p s'. getblock s = (Some p, s') \<and> tp_inv s' \<and> block_at s' p = take TBLOCK (tp_stream s)
      \<and> tp_stream s' = drop TBLOCK (tp_stream s) \<and> TBLOCK \<le> length (tp_stream s)"
    if "tp_inv s" "tp_stream s \<noteq> []" for s
    using getblock_stream[OF that] by (auto simp: delivered_def)
  show "fst (getblock s) = None" if "tp_inv s" "tp_stream s = []" for s
    using getblock_end[OF that] by auto
qed


section \<open>Reading file data\<close>

text \<open>The number of blocks that hold \<open>n\<close> bytes.\<close>

definition nblk :: "int \<Rightarrow> nat" where
  "nblk n = nat ((n + 511) div 512)"

lemma nblk_le0: "n \<le> 0 \<Longrightarrow> nblk n = 0"
  by (simp add: nblk_def)

lemma nblk_pos: "0 < n \<Longrightarrow> nblk n = Suc (nblk (n - int TBLOCK))"
proof -
  assume "0 < n"
  have "(n + 511) div 512 = (n - 512 + 511) div 512 + 1" by simp
  moreover have "0 \<le> (n - 512 + 511) div 512" using \<open>0 < n\<close> by simp
  ultimately show ?thesis by (simp add: nblk_def TBLOCK_def nat_add_distrib)
qed

lemma nblk_covers: "n \<le> int (TBLOCK * nblk n)"
proof (cases "0 < n")
  case True
  then have "512 * ((n + 511) div 512) = n + 511 - (n + 511) mod 512" by (simp add: minus_mod_eq_mult_div)
  moreover have "(n + 511) mod 512 < 512" by simp
  ultimately have "n \<le> 512 * ((n + 511) div 512)" by linarith
  then show ?thesis using True by (simp add: nblk_def TBLOCK_def)
next
  case False
  then show ?thesis by (simp add: nblk_le0)
qed

text \<open>Losing the next blocks, when they are there.\<close>

lemma drop_blocks: "TBLOCK * Suc k \<le> length s \<Longrightarrow> s \<noteq> [] \<and> TBLOCK * k \<le> length (drop TBLOCK s)
    \<and> drop (TBLOCK * k) (drop TBLOCK s) = drop (TBLOCK * Suc k) s"
  by (auto simp: TBLOCK_def add.commute)

lemma skip_blocks_spec:
  "tp_inv tp \<Longrightarrow> TBLOCK * nblk nbytes \<le> length (tp_stream tp) \<Longrightarrow>
   \<exists>tp'. skip_blocks tp nbytes = Some tp' \<and> tp_inv tp' \<and> tp_stream tp' = drop (TBLOCK * nblk nbytes) (tp_stream tp)"
proof (induction "nblk nbytes" arbitrary: nbytes tp)
  case 0
  then have "nbytes \<le> 0" using nblk_pos[of nbytes] by linarith
  then show ?case using 0 by (subst skip_blocks.simps) simp
next
  case (Suc k)
  have pos: "0 < nbytes" using Suc(2) nblk_le0[of nbytes] by linarith
  then have k: "k = nblk (nbytes - int TBLOCK)" using Suc(2) nblk_pos[OF pos] by simp
  have len: "TBLOCK * Suc k \<le> length (tp_stream tp)" using Suc(2,4) by metis
  note d = drop_blocks[OF len]
  from input.get_frontE[OF Suc(3) conjunct1[OF d]] obtain bp tp1 where
    1: "getblock tp = (Some bp, tp1)" "tp_inv tp1" "tp_stream tp1 = drop TBLOCK (tp_stream tp)" by metis
  have "TBLOCK * nblk (nbytes - int TBLOCK) \<le> length (tp_stream tp1)"
    unfolding k[symmetric] 1(3) using d by blast
  from Suc(1)[OF k 1(2) this] obtain tp' where
    "skip_blocks tp1 (nbytes - int TBLOCK) = Some tp'" "tp_inv tp'"
    "tp_stream tp' = drop (TBLOCK * k) (tp_stream tp1)" using k by metis
  moreover have "skip_blocks tp nbytes = skip_blocks tp1 (nbytes - int TBLOCK)"
    using pos 1(1) by (subst skip_blocks.simps) simp
  ultimately show ?case using d 1(3) Suc(2) by metis
qed

text \<open>The bytes that the write loop hands on: all but the last \<open>maxpad\<close>, in whole blocks.\<close>

lemma take_min_block:
  "int TBLOCK \<le> int (length s) \<Longrightarrow>
   take (nat (if nbytes < int TBLOCK then nbytes else int TBLOCK)) (take TBLOCK s) = take (nat (min nbytes (int TBLOCK))) s"
  by (auto simp: TBLOCK_def take_Cons' split: if_splits)

lemma take_block_split:
  assumes "TBLOCK * Suc k \<le> length s" "0 < n"
  shows "take (nat (min n (int TBLOCK))) s @ take (nat (min (n - int TBLOCK) (int (TBLOCK * k)))) (drop TBLOCK s)
    = take (nat (min n (int (TBLOCK * Suc k)))) s"
proof (cases "n < int TBLOCK")
  case True
  have "int TBLOCK \<le> int (TBLOCK * Suc k)" by (simp only: of_nat_le_iff) simp
  then have "n \<le> int (TBLOCK * Suc k)" using True by linarith
  then have "min n (int TBLOCK) = n" "min (n - int TBLOCK) (int (TBLOCK * k)) \<le> 0" "min n (int (TBLOCK * Suc k)) = n"
    using True by (simp_all add: min_def)
  then show ?thesis by simp
next
  case False
  define r where "r = nat (min (n - int TBLOCK) (int (TBLOCK * k)))"
  have "min n (int (TBLOCK * Suc k)) = int TBLOCK + int r" "min n (int TBLOCK) = int TBLOCK"
    using False by (auto simp: r_def min_def)
  then have "take (nat (min n (int (TBLOCK * Suc k)))) s = take (TBLOCK + r) s" "take (nat (min n (int TBLOCK))) s = take TBLOCK s"
    by (simp_all add: nat_add_distrib)
  then show ?thesis by (simp add: take_add r_def)
qed

lemma write_blocks_spec:
  "tp_inv tp \<Longrightarrow> of_fail out = [] \<Longrightarrow> 0 \<le> maxpad \<Longrightarrow> TBLOCK * nblk (nbytes - maxpad) \<le> length (tp_stream tp) \<Longrightarrow>
   \<exists>tp'. write_blocks tp out nbytes maxpad nerrs = Some (Done (tp',
       out\<lparr>of_data := of_data out @ take (nat (min nbytes (int (TBLOCK * nblk (nbytes - maxpad))))) (tp_stream tp)\<rparr>,
       nbytes - int (TBLOCK * nblk (nbytes - maxpad)), nerrs))
     \<and> tp_inv tp' \<and> tp_stream tp' = drop (TBLOCK * nblk (nbytes - maxpad)) (tp_stream tp)"
proof (induction "nblk (nbytes - maxpad)" arbitrary: nbytes tp out)
  case 0
  then have "nbytes \<le> maxpad" using nblk_pos[of "nbytes - maxpad"] by linarith
  then have "write_blocks tp out nbytes maxpad nerrs = Some (Done (tp, out, nbytes, nerrs))"
    by (subst write_blocks.simps) simp
  then show ?case using 0(1)[symmetric] 0(2) by simp
next
  case (Suc k)
  have pos: "0 < nbytes - maxpad" using Suc(2) nblk_le0[of "nbytes - maxpad"] by linarith
  have k: "k = nblk (nbytes - int TBLOCK - maxpad)"
    using Suc(2) nblk_pos[OF pos] by (simp add: algebra_simps)
  have len: "TBLOCK * Suc k \<le> length (tp_stream tp)" using Suc(2,6) by metis
  note d = drop_blocks[OF len]
  from input.get_frontE[OF Suc(3) conjunct1[OF d]] obtain bp tp1 where
    1: "getblock tp = (Some bp, tp1)" "tp_inv tp1" "tp_stream tp1 = drop TBLOCK (tp_stream tp)"
    "block_at tp1 bp = take TBLOCK (tp_stream tp)" by metis
  let ?b = "take (nat (min nbytes (int TBLOCK))) (tp_stream tp)"
  let ?out = "out\<lparr>of_data := of_data out @ ?b\<rparr>"
  have b: "take (nat (if nbytes < int TBLOCK then nbytes else int TBLOCK)) (block_at tp1 bp) = ?b"
    unfolding 1(4) using len by (intro take_min_block) simp
  have "os_write out ?b = (True, ?out)" using Suc(4) by (simp add: os_write_def)
  then have step: "write_blocks tp out nbytes maxpad nerrs = write_blocks tp1 ?out (nbytes - int TBLOCK) maxpad nerrs"
    using pos 1(1) b by (subst write_blocks.simps) simp
  have "TBLOCK * nblk (nbytes - int TBLOCK - maxpad) \<le> length (tp_stream tp1)" "of_fail ?out = []"
    unfolding k[symmetric] 1(3) using d Suc(4) by simp_all
  from Suc(1)[OF k 1(2) this(2) Suc(5) this(1)] obtain tp' where
    2: "write_blocks tp1 ?out (nbytes - int TBLOCK) maxpad nerrs = Some (Done (tp',
       ?out\<lparr>of_data := of_data ?out @ take (nat (min (nbytes - int TBLOCK) (int (TBLOCK * k)))) (tp_stream tp1)\<rparr>,
       nbytes - int TBLOCK - int (TBLOCK * k), nerrs))" "tp_inv tp'"
    "tp_stream tp' = drop (TBLOCK * k) (tp_stream tp1)" unfolding k[symmetric] by blast
  have "nbytes - int TBLOCK - int (TBLOCK * k) = nbytes - int (TBLOCK * Suc k)" by simp
  moreover have "of_data ?out @ take (nat (min (nbytes - int TBLOCK) (int (TBLOCK * k)))) (tp_stream tp1)
      = of_data out @ take (nat (min nbytes (int (TBLOCK * Suc k)))) (tp_stream tp)"
    using take_block_split[OF len, of nbytes] pos Suc(5) 1(3) by simp
  ultimately show ?case
    using 2 d unfolding step Suc(2)[symmetric] 1(3) by simp
qed

text \<open>The pad buffer of \<^verbatim>\<open>strip_blanks\<close>: the fill loop collects the remaining bytes in it.\<close>

lemma put_at_grow:
  assumes "op + length b \<le> length buf" "n \<le> length b"
  shows "\<exists>buf'. put_at buf op b = Some buf' \<and> length buf' = length buf \<and> take (op + n) buf' = take op buf @ take n b"
  using assms by (auto simp: put_at_def take_add)

lemma fill_pad_spec:
  "tp_inv tp \<Longrightarrow> 0 \<le> nbytes \<Longrightarrow> int op + nbytes < int (length buf) \<Longrightarrow> TBLOCK * nblk nbytes \<le> length (tp_stream tp) \<Longrightarrow>
   \<exists>tp' buf'. fill_pad junk tp buf op nbytes = Some (tp', buf', op + nat nbytes)
     \<and> take (op + nat nbytes) buf' = take op buf @ take (nat nbytes) (tp_stream tp) \<and> length buf' = length buf
     \<and> tp_inv tp' \<and> tp_stream tp' = drop (TBLOCK * nblk nbytes) (tp_stream tp)"
proof (induction "nblk nbytes" arbitrary: nbytes tp op buf)
  case 0
  then have "nbytes = 0" using nblk_pos[of nbytes] by linarith
  then show ?case using 0 by (subst fill_pad.simps) (simp add: nblk_le0)
next
  case (Suc k)
  have pos: "0 < nbytes" using Suc(2) nblk_le0[of nbytes] by linarith
  have len: "TBLOCK * Suc k \<le> length (tp_stream tp)" using Suc(2,6) by metis
  note d = drop_blocks[OF len]
  obtain bp tp1 where
    1: "getblock tp = (Some bp, tp1)" and del: "delivered tp bp tp1"
    using getblock_stream[OF Suc(3) conjunct1[OF d]] by blast
  have 2: "tp_inv tp1" "tp_stream tp1 = drop TBLOCK (tp_stream tp)" "bp + TBLOCK \<le> length (tp_buf tp1)"
    "take TBLOCK (drop bp (tp_buf tp1)) = take TBLOCK (tp_stream tp)"
    using del by (auto simp: delivered_def tp_inv_def block_at_def)
  define n where "n = nat (if nbytes < int TBLOCK then nbytes else int TBLOCK)"
  have n: "n \<le> TBLOCK" "0 < n" "int n \<le> nbytes" "nbytes < int TBLOCK \<Longrightarrow> int n = nbytes" "\<not> nbytes < int TBLOCK \<Longrightarrow> n = TBLOCK"
    using pos by (auto simp: n_def TBLOCK_def)
  let ?b = "take (n + 1) (drop bp (tp_buf tp1 @ [junk]))"
  have lb: "length ?b = n + 1" using 2(3) n(1) by simp
  have "op + length ?b \<le> length buf" unfolding lb using Suc(5) n(3) by linarith
  from put_at_grow[OF this, of n] lb obtain buf1 where
    b1: "put_at buf op ?b = Some buf1" "length buf1 = length buf" "take (op + n) buf1 = take op buf @ take n ?b"
    by (metis le_add1)
  have "take n ?b = take n (drop bp (tp_buf tp1))"
  proof -
    have "n \<le> length (tp_buf tp1) - bp" "bp \<le> length (tp_buf tp1)" using 2(3) n(1) by linarith+
    then show ?thesis by simp
  qed
  also have "\<dots> = take n (take TBLOCK (drop bp (tp_buf tp1)))" using n(1) by (simp add: min_def)
  also have "\<dots> = take n (tp_stream tp)" unfolding 2(4) using n(1) by (simp add: min_def)
  finally have tb: "take n ?b = take n (tp_stream tp)" .
  have step: "fill_pad junk tp buf op nbytes = fill_pad junk tp1 buf1 (op + n) (nbytes - int n)"
    using pos 1 b1(1) n_def by (subst fill_pad.simps) (simp add: Let_def)
  have k: "k = nblk (nbytes - int n)"
    using Suc(2) nblk_pos[OF pos] n(4,5) nblk_le0[of "nbytes - int TBLOCK"] nblk_le0[of "nbytes - int n"]
    by (cases "nbytes < int TBLOCK") auto
  have "TBLOCK * nblk (nbytes - int n) \<le> length (tp_stream tp1)" unfolding k[symmetric] 2(2) using d by blast
  moreover have "int (op + n) + (nbytes - int n) < int (length buf1)" using Suc(5) b1(2) by simp
  moreover have "0 \<le> nbytes - int n" using n(3) by simp
  ultimately obtain tp' buf' where
    r: "fill_pad junk tp1 buf1 (op + n) (nbytes - int n) = Some (tp', buf', op + n + nat (nbytes - int n))"
    "take (op + n + nat (nbytes - int n)) buf' = take (op + n) buf1 @ take (nat (nbytes - int n)) (tp_stream tp1)"
    "length buf' = length buf1" "tp_inv tp'" "tp_stream tp' = drop (TBLOCK * k) (tp_stream tp1)"
    using Suc(1)[OF k 2(1)] unfolding k[symmetric] by blast
  have e: "op + n + nat (nbytes - int n) = op + nat nbytes" using n(3) by linarith
  have "take n (tp_stream tp) @ take (nat (nbytes - int n)) (tp_stream tp1) = take (nat nbytes) (tp_stream tp)"
  proof (cases "nbytes < int TBLOCK")
    case True
    then show ?thesis using n(4) by auto
  next
    case False
    then have "nat nbytes = TBLOCK + nat (nbytes - int n)" using n(3,5) by simp
    then show ?thesis using n(5)[OF False] 2(2) by (simp add: take_add)
  qed
  then have "take (op + nat nbytes) buf' = take op buf @ take (nat nbytes) (tp_stream tp)"
    using r(2) unfolding e b1(3) tb by simp
  moreover have "tp_stream tp' = drop (TBLOCK * Suc k) (tp_stream tp)" using r(5) 2(2) d by simp
  ultimately show ?case
    using r(1,3,4) b1(2) unfolding step e Suc(2)[symmetric] by (intro exI[of _ tp'] exI[of _ buf']) simp
qed


section \<open>Stripping the end of a text file\<close>

definition is_pad :: "byte \<Rightarrow> bool" where
  "is_pad c \<longleftrightarrow> c = newline \<or> c = blank"

text \<open>
  The run of blanks and newlines at the end of a text, its first byte aside, and the text
  that is kept: everything up to the first newline of that run.
\<close>

definition pad_run :: "byte list \<Rightarrow> byte list" where
  "pad_run t = rev (takeWhile is_pad (rev (tl t)))"

definition strip_tail :: "byte list \<Rightarrow> byte list" where
  "strip_tail t =
     (let ws = pad_run t
      in if newline \<in> set ws then take (length t - length ws) t @ takeWhile (\<lambda>c. c \<noteq> newline) ws @ [newline] else t)"

lemma takeWhile_stops: "x \<in> set xs \<Longrightarrow> \<not> P x \<Longrightarrow> length (takeWhile P xs) < length xs"
  by (induction xs) auto

lemma last_newline_spec:
  "last_newline (x # rev rs @ ys) (length rs) lastnl =
    (let ws = rev (takeWhile is_pad rs)
     in if newline \<in> set ws then Suc (length rs - length ws + length (takeWhile (\<lambda>c. c \<noteq> newline) ws)) else lastnl)"
proof (induction rs arbitrary: ys lastnl)
  case (Cons r rs)
  let ?ws = "rev (takeWhile is_pad rs)"
  have nth: "(x # rev (r # rs) @ ys) ! length (r # rs) = r"
    by (simp add: nth_append)
  have le: "length ?ws \<le> length rs" by (simp add: length_takeWhile_le)
  have b: "x # rev (r # rs) @ ys = x # rev rs @ (r # ys)" by simp
  show ?case
  proof (cases "is_pad r")
    case False
    then show ?thesis using nth by (simp add: is_pad_def)
  next
    case True
    have "last_newline (x # rev (r # rs) @ ys) (length (r # rs)) lastnl
        = last_newline (x # rev rs @ (r # ys)) (length rs) (if r = newline then length (r # rs) else lastnl)"
      using True nth unfolding b by (auto simp: is_pad_def)
    also have "\<dots> = (if newline \<in> set ?ws then Suc (length rs - length ?ws + length (takeWhile (\<lambda>c. c \<noteq> newline) ?ws))
        else if r = newline then length (r # rs) else lastnl)"
      unfolding Cons.IH[of "r # ys"] by (simp add: Let_def)
    finally have e: "last_newline (x # rev (r # rs) @ ys) (length (r # rs)) lastnl = \<dots>" .
    have w: "rev (takeWhile is_pad (r # rs)) = ?ws @ [r]" using True by simp
    show ?thesis
    proof (cases "newline \<in> set ?ws")
      case True
      then have "takeWhile (\<lambda>c. c \<noteq> newline) (?ws @ [r]) = takeWhile (\<lambda>c. c \<noteq> newline) ?ws"
        by (intro takeWhile_append1[of newline]) auto
      then show ?thesis using True unfolding e w Let_def by simp
    next
      case False
      then have "takeWhile (\<lambda>c. c \<noteq> newline) (?ws @ [newline]) = ?ws" by (subst takeWhile_append2) auto
      then show ?thesis using False le unfolding e w Let_def by auto
    qed
  qed
qed simp

lemma strip_prefix_kept:
  assumes "take n buf = t" "n = length t" "t \<noteq> []"
  shows "take (Suc (last_newline buf (n - 1) (n - 1))) buf = strip_tail t"
proof -
  obtain x s where t: "t = x # s" using assms(3) by (cases t) auto
  define ys where "ys = drop n buf"
  have buf: "buf = x # rev (rev s) @ ys" using assms(1) t unfolding ys_def by (metis append_Cons append_take_drop_id rev_rev_ident)
  have n: "n - 1 = length (rev s)" using assms(2) t by simp
  let ?ws = "rev (takeWhile is_pad (rev s))"
  have p: "pad_run t = ?ws" by (simp add: pad_run_def t)
  have split: "s = take (length s - length ?ws) s @ ?ws"
  proof -
    have "rev s = takeWhile is_pad (rev s) @ dropWhile is_pad (rev s)" by simp
    then have s: "s = rev (dropWhile is_pad (rev s)) @ ?ws" by (metis rev_append rev_rev_ident)
    then have "length s = length (rev (dropWhile is_pad (rev s))) + length ?ws" by (metis length_append)
    then show ?thesis using s by (metis add_diff_cancel_right' append_eq_conv_conj)
  qed
  define core where "core = take (length s - length ?ws) s"
  have lc: "length core = length s - length ?ws" by (simp add: core_def)
  have s: "s = core @ ?ws" using split unfolding core_def .
  let ?k = "length (takeWhile (\<lambda>c. c \<noteq> newline) ?ws)"
  show ?thesis
  proof (cases "newline \<in> set ?ws")
    case True
    have "last_newline buf (n - 1) (n - 1) = Suc (length core + ?k)"
      unfolding buf n last_newline_spec using True lc by (simp add: Let_def)
    moreover have "take (Suc ?k) ?ws = takeWhile (\<lambda>c. c \<noteq> newline) ?ws @ [newline]"
    proof -
      have "?k < length ?ws" "?ws ! ?k = newline"
        using True nth_length_takeWhile[of "\<lambda>c. c \<noteq> newline" ?ws] takeWhile_stops[of newline ?ws "\<lambda>c. c \<noteq> newline"]
        by auto
      then show ?thesis by (metis take_Suc_conv_app_nth takeWhile_eq_take)
    qed
    moreover have "take (Suc (Suc (length core + ?k))) buf = x # core @ take (Suc ?k) (?ws @ ys)"
      unfolding buf by (subst (1) s) (simp add: take_add)
    moreover have "Suc ?k \<le> length ?ws" using True takeWhile_stops[of newline ?ws "\<lambda>c. c \<noteq> newline"] by auto
    moreover have "take (length t - length ?ws) t = x # core"
    proof -
      have "length ?ws \<le> length s" by (metis s length_append le_add2)
      then show ?thesis by (simp add: t core_def Suc_diff_le del: length_rev)
    qed
    ultimately show ?thesis using True by (simp add: strip_tail_def p Let_def)
  next
    case False
    then have "last_newline buf (n - 1) (n - 1) = n - 1"
      unfolding buf n last_newline_spec by (simp add: Let_def)
    moreover have "Suc (n - 1) = n" using assms(2,3) by (cases t) auto
    ultimately show ?thesis using False assms(1) unfolding strip_tail_def p Let_def by simp
  qed
qed

text \<open>What is left of a text file on extraction.\<close>

definition stripped :: "byte list \<Rightarrow> byte list" where
  "stripped t = (let m = TBLOCK * nblk (int (length t) - int SZ_PADBUF) in take m t @ strip_tail (drop m t))"

lemma strip_blanks_spec:
  assumes "tp_inv tp" "0 < n" "n \<le> SZ_PADBUF" "length pad0 = SZ_PADBUF + 10" "of_fail out = []"
    "TBLOCK * nblk (int n) \<le> length (tp_stream tp)"
  shows "\<exists>tp'. strip_blanks junk pad0 tp out (int n)
      = Some (tp', out\<lparr>of_data := of_data out @ strip_tail (take n (tp_stream tp))\<rparr>)
    \<and> tp_inv tp' \<and> tp_stream tp' = drop (TBLOCK * nblk (int n)) (tp_stream tp)"
proof -
  have "int 0 + int n < int (length pad0)" using assms(3,4) by simp
  from fill_pad_spec[OF assms(1) _ this assms(6), of junk] obtain tp' buf where
    f: "fill_pad junk tp pad0 0 (int n) = Some (tp', buf, n)" "take n buf = take n (tp_stream tp)"
    "tp_inv tp'" "tp_stream tp' = drop (TBLOCK * nblk (int n)) (tp_stream tp)" by auto
  have "int n \<le> int (TBLOCK * nblk (int n))" by (rule nblk_covers)
  then have l: "length (take n (tp_stream tp)) = n" using assms(6) by (simp del: of_nat_mult)
  have "take n (tp_stream tp) \<noteq> []" using l assms(2) by fastforce
  from strip_prefix_kept[OF f(2) l[symmetric] this]
  have "take (Suc (last_newline buf (n - 1) (n - 1))) buf = strip_tail (take n (tp_stream tp))" .
  then show ?thesis using f(1,3,4) assms(2,5) by (simp add: strip_blanks_def os_write_def)
qed


section \<open>\<^verbatim>\<open>copyfile\<close> and \<^verbatim>\<open>skipfile\<close>\<close>

lemma nblk_split:
  assumes "k \<le> nblk n" "0 \<le> n"
  shows "nblk (n - int (TBLOCK * k)) = nblk n - k"
proof -
  have "(n - int (TBLOCK * k) + 511) div 512 = (n + 511 + (- int k) * 512) div 512"
    by (simp add: TBLOCK_def algebra_simps)
  also have "\<dots> = - int k + (n + 511) div 512" by (rule div_mult_self1) simp
  finally have "nblk (n - int (TBLOCK * k)) = nat ((n + 511) div 512 - int k)" by (simp add: nblk_def)
  then show ?thesis by (simp add: nblk_def nat_diff_distrib')
qed

lemma nblk_mono: "a \<le> b \<Longrightarrow> nblk a \<le> nblk b"
  unfolding nblk_def by (intro nat_mono zdiv_mono1) simp_all

text \<open>The number of blocks before the part that is stripped.\<close>

lemma nblk_front:
  assumes "m = nblk (int n - int SZ_PADBUF)"
  shows "m \<le> nblk (int n)" "int n - int (TBLOCK * m) \<le> int SZ_PADBUF" "0 < n \<Longrightarrow> TBLOCK * m < n"
proof -
  show "m \<le> nblk (int n)" unfolding assms by (intro nblk_mono) simp
  show "int n - int (TBLOCK * m) \<le> int SZ_PADBUF" using nblk_covers[of "int n - int SZ_PADBUF"] unfolding assms by linarith
  assume n: "0 < n"
  show "TBLOCK * m < n"
  proof (cases "int n - int SZ_PADBUF \<le> 0")
    case True
    then show ?thesis using n assms by (simp add: nblk_le0)
  next
    case False
    have "512 * ((int n - 8196 + 511) div 512) \<le> int n - 8196 + 511" by (simp add: minus_mod_eq_mult_div[symmetric])
    then show ?thesis using False by (simp add: assms nblk_def TBLOCK_def SZ_PADBUF_def)
  qed
qed

definition kept_data :: "nat \<Rightarrow> bool \<Rightarrow> byte list \<Rightarrow> byte list" where
  "kept_data ftype strip bs = (if ftype = BINARY_FILE \<or> \<not> strip then bs else stripped bs)"

lemma rt_copyfile_spec:
  assumes "tp_inv tp" "fh_linkflag fh = 0" "unat (fh_size fh) = n" "n < 2 ^ 39" "of_fail out = []"
    "length pad0 = SZ_PADBUF + 10" "TBLOCK * nblk (int n) \<le> length (tp_stream tp)"
  shows "\<exists>tp'. rt_copyfile junk pad0 strip tp out fh ftype nerrs
      = Some (Done (tp', out\<lparr>of_data := of_data out @ kept_data ftype strip (take n (tp_stream tp))\<rparr>, nerrs))
    \<and> tp_inv tp' \<and> tp_stream tp' = drop (TBLOCK * nblk (int n)) (tp_stream tp)"
proof -
  have sz: "sint (fh_size fh) = int n" using sint_size_small(1)[of "fh_size fh"] assms(3,4) by simp
  have cov: "int n \<le> int (TBLOCK * nblk (int n))" by (rule nblk_covers)
  show ?thesis
  proof (cases "ftype = BINARY_FILE \<or> \<not> strip")
    case True
    have "TBLOCK * nblk (int n - 0) \<le> length (tp_stream tp)" using assms(7) by simp
    from write_blocks_spec[OF assms(1,5) _ this, of nerrs] obtain tp' where
      w: "write_blocks tp out (int n) 0 nerrs = Some (Done (tp',
        out\<lparr>of_data := of_data out @ take (nat (min (int n) (int (TBLOCK * nblk (int n))))) (tp_stream tp)\<rparr>,
        int n - int (TBLOCK * nblk (int n)), nerrs))" "tp_inv tp'"
      "tp_stream tp' = drop (TBLOCK * nblk (int n)) (tp_stream tp)" by auto
    have "min (int n) (int (TBLOCK * nblk (int n))) = int n" using cov by simp
    moreover have "\<not> 0 < int n - int (TBLOCK * nblk (int n))" using cov by linarith
    ultimately show ?thesis
      using w True assms(2) by (auto simp: rt_copyfile_def sz kept_data_def Let_def)
  next
    case False
    define m where "m = nblk (int n - int SZ_PADBUF)"
    note f = nblk_front[OF m_def]
    have "TBLOCK * m \<le> TBLOCK * nblk (int n)" using f(1) by simp
    then have mlen: "TBLOCK * nblk (int n - int SZ_PADBUF) \<le> length (tp_stream tp)"
      using assms(7) unfolding m_def by linarith
    from write_blocks_spec[OF assms(1,5) _ this, of nerrs] obtain tp1 where
      w: "write_blocks tp out (int n) (int SZ_PADBUF) nerrs = Some (Done (tp1,
        out\<lparr>of_data := of_data out @ take (nat (min (int n) (int (TBLOCK * m)))) (tp_stream tp)\<rparr>,
        int n - int (TBLOCK * m), nerrs))" "tp_inv tp1"
      "tp_stream tp1 = drop (TBLOCK * m) (tp_stream tp)" unfolding m_def by auto
    show ?thesis
    proof (cases "n = 0")
      case True
      then have "m = 0" by (simp add: m_def nblk_le0)
      then show ?thesis
        using w True False assms(2)
        by (auto simp: rt_copyfile_def sz kept_data_def Let_def stripped_def strip_tail_def pad_run_def nblk_le0)
    next
      case n: False
      then have lt: "TBLOCK * m < n" using f(3) by simp
      define r where "r = n - TBLOCK * m"
      have r: "int n - int (TBLOCK * m) = int r" "0 < r" "r \<le> SZ_PADBUF" using lt f(2) unfolding r_def by linarith+
      have nr: "nblk (int r) = nblk (int n) - m" using nblk_split[OF f(1)] unfolding r(1)[symmetric] by simp
      have "TBLOCK * nblk (int r) \<le> length (tp_stream tp1)"
        using assms(7) unfolding nr w(3) by (simp add: diff_mult_distrib2)
      moreover let ?out = "out\<lparr>of_data := of_data out @ take (TBLOCK * m) (tp_stream tp)\<rparr>"
      have "of_fail ?out = []" using assms(5) by simp
      ultimately obtain tp' where
        b: "strip_blanks junk pad0 tp1 ?out (int r)
          = Some (tp', ?out\<lparr>of_data := of_data ?out @ strip_tail (take r (tp_stream tp1))\<rparr>)"
        "tp_inv tp'" "tp_stream tp' = drop (TBLOCK * nblk (int r)) (tp_stream tp1)"
        using strip_blanks_spec[OF w(2) r(2,3) assms(6)] by blast
      have "TBLOCK * m + TBLOCK * nblk (int r) = TBLOCK * nblk (int n)"
        using f(1) unfolding nr by (simp flip: distrib_left)
      then have s: "tp_stream tp' = drop (TBLOCK * nblk (int n)) (tp_stream tp)"
        unfolding b(3) w(3) by (simp add: add.commute)
      have mn: "nat (min (int n) (int (TBLOCK * m))) = TBLOCK * m" using lt by (simp add: min_def flip: of_nat_mult)
      have "length (take n (tp_stream tp)) = n" using assms(7) cov by (simp del: of_nat_mult)
      then have "stripped (take n (tp_stream tp)) = take (TBLOCK * m) (tp_stream tp) @ strip_tail (take r (tp_stream tp1))"
        using lt by (simp add: stripped_def m_def[symmetric] Let_def w(3) drop_take r_def min_def)
      then have "rt_copyfile junk pad0 strip tp out fh ftype nerrs
          = Some (Done (tp', out\<lparr>of_data := of_data out @ kept_data ftype strip (take n (tp_stream tp))\<rparr>, nerrs))"
        using w(1) b(1) r(1,2) False assms(2) by (simp add: rt_copyfile_def sz kept_data_def mn del: of_nat_mult)
      then show ?thesis using b(2) s by blast
    qed
  qed
qed

lemma skipfile_spec:
  assumes "tp_inv tp" "fh_linkflag fh = 0" "unat (fh_size fh) < 2 ^ 39"
    "TBLOCK * nblk (int (unat (fh_size fh))) \<le> length (tp_stream tp)"
  shows "\<exists>tp'. skipfile tp fh = Some tp' \<and> tp_inv tp'
    \<and> tp_stream tp' = drop (TBLOCK * nblk (int (unat (fh_size fh)))) (tp_stream tp)"
  using skip_blocks_spec[OF assms(1,4)] assms(2) sint_size_small(1)[OF assms(3)] by (simp add: skipfile_def)

section \<open>\<^verbatim>\<open>getheader\<close>\<close>

text \<open>A well formed header block at the front of the stream is decoded at the first try.\<close>

lemma getheader_header:
  assumes "tp_inv tp" "tp_stream tp = hb @ rest" "encode_header j fh = Some hb" "header_ok fh" "0 \<le> hdr_sum fh"
  shows "\<exists>tp'. getheader tp old = Some (Header (fh\<lparr>fh_isdir := (last (fh_name fh) = slash),
       fh_linkname := (if fh_linkflag fh = 0 then fh_linkname old else fh_linkname fh)\<rparr>), tp')
    \<and> tp_inv tp' \<and> tp_stream tp' = rest"
proof -
  note h = header_block[OF assms(4,5,3)]
  have "tp_stream tp \<noteq> []" using assms(2) h(1) by (auto simp: TBLOCK_def)
  from getblock_stream[OF assms(1) this] obtain bp tp1 where
    1: "getblock tp = (Some bp, tp1)" and del: "delivered tp bp tp1" by blast
  have d: "tp_inv tp1" "tp_next tp1 = bp + TBLOCK" "bp + TBLOCK \<le> SZ_TAPEBUFFER" "block_at tp1 bp = hb" "tp_stream tp1 = rest"
    using del assms(2) h(1) by (auto simp: delivered_def)
  let ?buf = "take bp (tp_buf tp1) @ blank_chksum hb @ drop (bp + TBLOCK) (tp_buf tp1)"
  let ?tp = "tp1\<lparr>tp_buf := ?buf\<rparr>"
  have lb: "length (blank_chksum hb) = TBLOCK" using h(1) by (simp add: blank_chksum_def TBLOCK_def o_chksum_def)
  have l1: "length (tp_buf tp1) = SZ_TAPEBUFFER" using d(1) by (simp add: tp_inv_def)
  have dr: "drop (bp + TBLOCK) ?buf = drop (bp + TBLOCK) (tp_buf tp1)" using lb l1 d(3) by simp
  have "length ?buf = SZ_TAPEBUFFER" using lb l1 d(3) by simp
  then have "tp_inv ?tp" using d(1) by (simp add: tp_inv_def)
  moreover have "tp_stream ?tp = rest" using d(2,5) dr by (simp add: tp_stream_def)
  moreover have b: "bchar CHR ''/'' = slash" by simp
  have "getheader tp old = Some (Header (fh\<lparr>fh_isdir := (last (fh_name fh) = slash),
       fh_linkname := (if fh_linkflag fh = 0 then fh_linkname old else fh_linkname fh)\<rparr>), ?tp)"
    unfolding getheader_def
    by (subst header_loop.simps) (simp add: 1 d(4) h[unfolded b] Let_def)
  ultimately show ?thesis by blast
qed

text \<open>A block of zeros ends the archive.\<close>

lemma getheader_zero:
  assumes "tp_inv tp" "tp_stream tp = replicate TBLOCK EOS @ rest"
  shows "\<exists>tp'. getheader tp old = Some (HeaderEof, tp') \<and> tp_inv tp' \<and> tp_stream tp' = rest"
proof -
  have "tp_stream tp \<noteq> []" using assms(2) by (auto simp: TBLOCK_def)
  from input.get_frontE[OF assms(1) this] obtain bp tp1 where
    1: "getblock tp = (Some bp, tp1)" "tp_inv tp1" "block_at tp1 bp = replicate TBLOCK EOS" "tp_stream tp1 = rest"
    using assms(2) by (metis append_eq_conv_conj length_replicate)
  have "cchksum (replicate n EOS) = 0" for n by (simp add: cchksum_def sum_list_replicate cval_def)
  then have z: "zero_header (replicate TBLOCK EOS)" by (simp add: zero_header_def o_chksum_def TBLOCK_def)
  have "getheader tp old = Some (HeaderEof, tp1)"
    unfolding getheader_def by (subst header_loop.simps) (simp add: 1(1,3) z)
  then show ?thesis using 1(2,4) by blast
qed

section \<open>Any tape\<close>

text \<open>
  Records of any length, in any state of the tape that the program can reach: the buffered
  blocks lie in the buffer.
\<close>

definition tp_safe :: "tape \<Rightarrow> bool" where
  "tp_safe tp \<longleftrightarrow> length (tp_buf tp) = SZ_TAPEBUFFER
     \<and> (0 < tp_blocks tp \<longrightarrow> tp_next tp + TBLOCK * nat (tp_blocks tp) \<le> SZ_TAPEBUFFER)"

lemma tp_inv_safe: "tp_inv tp \<Longrightarrow> tp_safe tp"
  by (simp add: tp_inv_def tp_safe_def)

lemma getblock_safe:
  "tp_safe tp \<Longrightarrow> tp_safe (snd (getblock tp))
    \<and> (case fst (getblock tp) of None \<Rightarrow> tp_eof (snd (getblock tp)) | Some bp \<Rightarrow> bp + TBLOCK \<le> SZ_TAPEBUFFER)"
proof (induction tp rule: getblock.induct)
  case (1 tp)
  show ?case
  proof (cases "getblock_turn tp")
    case (Inl r)
    then have g: "getblock tp = r" by (subst getblock.simps) simp
    consider (eof) "tp_eof tp" "r = (None, tp)"
      | (block) "\<not> tp_eof tp" "0 \<le> tp_blocks tp - 1"
          "r = (Some (tp_next tp), tp\<lparr>tp_blocks := tp_blocks tp - 1, tp_next := tp_next tp + TBLOCK\<rparr>)"
      using Inl by (auto simp: getblock_turn_def Let_def split: if_splits prod.splits)
    then show ?thesis
    proof cases
      case block
      then have "nat (tp_blocks tp) = Suc (nat (tp_blocks tp - 1))" by simp
      then show ?thesis using 1(2) block unfolding g by (auto simp: tp_safe_def)
    qed (use 1(2) in \<open>simp add: g\<close>)
  next
    case (Inr tp')
    then have g: "getblock tp = getblock tp'" by (subst getblock.simps) simp
    have "tp_safe tp'"
    proof -
      obtain k tp2 where r: "tape_read (tp\<lparr>tp_blocks := tp_blocks tp - 1\<rparr>) = (k, tp2)" by fastforce
      have t2: "length (tp_buf tp2) = SZ_TAPEBUFFER" "k \<le> SZ_TAPEBUFFER" "tp_blocks tp2 = tp_blocks tp - 1"
        using r 1(2) by (auto simp: tape_read_def tp_safe_def Let_def split: list.splits)
      have "(k + TBLOCK - 1) div TBLOCK \<le> (SZ_TAPEBUFFER + TBLOCK - 1) div TBLOCK"
        using t2(2) by (intro div_le_mono) simp
      then have "TBLOCK * ((k + TBLOCK - 1) div TBLOCK) \<le> SZ_TAPEBUFFER"
        by (simp add: SZ_TAPEBUFFER_def TBLOCK_def NBLOCK_def)
      moreover have "tp_blocks tp - 1 < 0 \<and> tp' = (if k < TBLOCK then tp2\<lparr>tp_eof := True\<rparr>
          else tp2\<lparr>tp_blocks := int ((k + TBLOCK - 1) div TBLOCK), tp_next := 0\<rparr>)"
        using Inr r by (simp add: getblock_turn_def Let_def split: if_splits)
      ultimately show ?thesis using t2 by (auto simp: tp_safe_def)
    qed
    then show ?thesis using 1(1)[OF Inr] unfolding g by blast
  qed
qed

lemma getblock_safeE:
  assumes "tp_safe tp"
  obtains tp1 where "getblock tp = (None, tp1)" "tp_safe tp1"
  | bp tp1 where "getblock tp = (Some bp, tp1)" "tp_safe tp1" "bp + TBLOCK \<le> length (tp_buf tp1)"
proof (cases "getblock tp")
  case (Pair p tp1)
  with getblock_safe[OF assms] that show ?thesis by (cases p) (auto simp: tp_safe_def)
qed

lemma write_blocks_total:
  "tp_safe tp \<Longrightarrow> \<exists>r. write_blocks tp out nbytes maxpad nerrs = Some r
    \<and> (case r of Exit \<Rightarrow> True | Done (tp', out', nbytes', nerrs') \<Rightarrow>
         tp_safe tp' \<and> (nbytes' \<le> maxpad \<or> tp_eof tp'))"
proof (induction "nat (nbytes - maxpad) + (Suc (Suc MAXERR) - nerrs)" arbitrary: tp out nbytes nerrs rule: less_induct)
  case less
  show ?case
  proof (cases "nbytes \<le> maxpad")
    case True
    then show ?thesis using less.prems by (subst write_blocks.simps) simp
  next
    case False
    show ?thesis
    proof (rule getblock_safeE[OF less.prems])
      fix tp1 assume "getblock tp = (None, tp1)" "tp_safe tp1"
      then show ?thesis using False getblock_safe[OF less.prems] by (subst write_blocks.simps) simp
    next
      fix bp tp1 assume g: "getblock tp = (Some bp, tp1)" "tp_safe tp1"
      obtain ok out1 where w: "os_write out (take (nat (if nbytes < int TBLOCK then nbytes else int TBLOCK)) (block_at tp1 bp)) = (ok, out1)"
        by (cases "os_write out (take (nat (if nbytes < int TBLOCK then nbytes else int TBLOCK)) (block_at tp1 bp))")
      show ?thesis
      proof (cases "ok \<or> nerrs \<le> MAXERR")
        case True
        have "nat (nbytes - int TBLOCK - maxpad) < nat (nbytes - maxpad)" using False by (simp add: TBLOCK_def)
        with less.hyps[OF _ g(2), of "nbytes - int TBLOCK" nerrs out1] less.hyps[OF _ g(2), of nbytes "Suc nerrs" out1] True
        show ?thesis using False g(1) w by (subst write_blocks.simps) (cases ok, auto)
      next
        case exit: False
        then show ?thesis using False g(1) w by (subst write_blocks.simps) simp
      qed
    qed
  qed
qed

lemma fill_pad_total:
  "tp_safe tp \<Longrightarrow> int op + nbytes < int (length buf) \<Longrightarrow> op \<le> length buf \<Longrightarrow>
    \<exists>tp' buf' op'. fill_pad junk tp buf op nbytes = Some (tp', buf', op') \<and> tp_safe tp' \<and> op' \<le> length buf' \<and> length buf' = length buf"
proof (induction "nat nbytes" arbitrary: tp buf op nbytes rule: less_induct)
  case less
  show ?case
  proof (cases "nbytes \<le> 0")
    case True
    then show ?thesis using less.prems by (subst fill_pad.simps) simp
  next
    case False
    show ?thesis
    proof (rule getblock_safeE[OF less.prems(1)])
      fix tp1 assume "getblock tp = (None, tp1)" "tp_safe tp1"
      then show ?thesis using False less.prems by (subst fill_pad.simps) simp
    next
      fix bp tp1 assume g: "getblock tp = (Some bp, tp1)" "tp_safe tp1" "bp + TBLOCK \<le> length (tp_buf tp1)"
      define n where "n = nat (if nbytes < int TBLOCK then nbytes else int TBLOCK)"
      have n: "0 < n" "n \<le> TBLOCK" "int n \<le> nbytes" using False by (auto simp: n_def TBLOCK_def)
      let ?b = "take (n + 1) (drop bp (tp_buf tp1 @ [junk]))"
      have lb: "length ?b = n + 1" using g(3) n(2) by simp
      have "op + length ?b \<le> length buf" unfolding lb using less.prems(2) n(3) by linarith
      from put_at_grow[OF this le0] obtain buf1 where b1: "put_at buf op ?b = Some buf1" "length buf1 = length buf" by blast
      have "nat (nbytes - int n) < nat nbytes" "int (op + n) + (nbytes - int n) < int (length buf1)" "op + n \<le> length buf1"
        using n less.prems(2) b1(2) by linarith+
      from less.hyps[OF this(1) g(2) this(2,3)] show ?thesis
        using False g(1) b1 n_def by (subst fill_pad.simps) (simp add: Let_def)
    qed
  qed
qed

lemma rt_copyfile_total:
  assumes "tp_safe tp" "length pad0 = SZ_PADBUF + 10"
  shows "\<exists>r. rt_copyfile junk pad0 strip tp out fh ftype nerrs = Some r"
proof -
  let ?pad = "if ftype = BINARY_FILE \<or> \<not> strip then 0 else SZ_PADBUF"
  obtain r where w: "write_blocks tp out (sint (fh_size fh)) (int ?pad) nerrs = Some r"
    and r: "case r of Exit \<Rightarrow> True | Done (tp', out', nbytes', nerrs') \<Rightarrow> tp_safe tp' \<and> (nbytes' \<le> int ?pad \<or> tp_eof tp')"
    using write_blocks_total[OF assms(1)] by blast
  show ?thesis
  proof (cases r)
    case Exit
    then show ?thesis using w by (auto simp: rt_copyfile_def Let_def)
  next
    case (Done x)
    obtain tp1 out1 nbytes nerrs1 where x: "x = (tp1, out1, nbytes, nerrs1)" by (cases x)
    have s: "tp_safe tp1" "nbytes \<le> int ?pad \<or> tp_eof tp1" using r Done x by auto
    have "\<exists>y. strip_blanks junk pad0 tp1 out1 nbytes = Some y"
    proof (cases "tp_eof tp1")
      case True
      then have "getblock tp1 = (None, tp1)" by (subst getblock.simps) (simp add: getblock_turn_def)
      then show ?thesis unfolding strip_blanks_def by (subst fill_pad.simps) simp
    next
      case False
      then have "int 0 + nbytes < int (length pad0)" using s(2) assms(2) by (auto split: if_splits)
      from fill_pad_total[OF s(1) this le0, of junk] obtain tp2 buf2 op2 where
        "fill_pad junk tp1 pad0 0 nbytes = Some (tp2, buf2, op2)" by blast
      then show ?thesis by (simp add: strip_blanks_def)
    qed
    then show ?thesis using w Done x by (auto simp: rt_copyfile_def Let_def)
  qed
qed

section \<open>Names\<close>

lemma match_elem_iff: "match_elem e f \<longleftrightarrow> (\<exists>r. f = e @ r) \<or> (\<exists>r. e = f @ bchar CHR ''$'' # r)"
  by (induction e f rule: match_elem.induct) auto

lemma match_list_iff:
  "match_list f files \<longleftrightarrow> (\<exists>e \<in> set files. (e = [] \<longleftrightarrow> f = []) \<and> match_elem e f)"
proof (induction files)
  case (Cons e files)
  have "(case (e, f) of ([], []) \<Rightarrow> True | (l # _, c # _) \<Rightarrow> l = c \<and> match_elem e f | _ \<Rightarrow> False)
      \<longleftrightarrow> (e = [] \<longleftrightarrow> f = []) \<and> match_elem e f"
    by (cases e; cases f) auto
  then show ?case using Cons by auto
qed simp

lemma make_dirs_ok:
  "make_dirs h uid gid pre s dirs = (True, dirs', as) \<Longrightarrow>
     (\<forall>a b. s = a @ slash # b \<and> b \<noteq> [] \<longrightarrow> dirs' (pre @ a)) \<and> (\<forall>d. dirs d \<longrightarrow> dirs' d)"
proof (induction s arbitrary: pre dirs as)
  case (Cons c s)
  have sub: "\<exists>d as'. make_dirs h uid gid (pre @ [c]) s d = (True, dirs', as') \<and> (\<forall>x. dirs x \<longrightarrow> d x)
      \<and> (c = slash \<longrightarrow> d pre)" if "\<not> (c = slash \<and> s = [])"
  proof (cases "c = slash \<and> \<not> dirs pre")
    case True
    then have "\<exists>as'. make_dirs h uid gid (pre @ [c]) s (dirs(pre := True)) = (True, dirs', as')"
      using Cons.prems that by (auto split: if_splits prod.splits simp del: fun_upd_apply)
    then show ?thesis by (metis fun_upd_apply)
  next
    case False
    then have "make_dirs h uid gid (pre @ [c]) s dirs = (True, dirs', as)" using Cons.prems that by (auto split: if_splits)
    then show ?thesis using False by blast
  qed
  show ?case
  proof (cases "c = slash \<and> s = []")
    case True
    then show ?thesis using Cons.prems by (auto simp: Cons_eq_append_conv)
  next
    case False
    from sub[OF this] obtain d as' where d: "make_dirs h uid gid (pre @ [c]) s d = (True, dirs', as')" "\<forall>x. dirs x \<longrightarrow> d x"
      "c = slash \<longrightarrow> d pre" by blast
    from Cons.IH[OF d(1)] have ih: "\<forall>a b. s = a @ slash # b \<and> b \<noteq> [] \<longrightarrow> dirs' ((pre @ [c]) @ a)" "\<forall>x. d x \<longrightarrow> dirs' x" by blast+
    show ?thesis using ih d(2,3) by (auto simp: Cons_eq_append_conv)
  qed
qed auto


lemma strip_tail_text:
  assumes "c \<noteq> newline" "c \<noteq> blank" "list_all is_pad ws"
  shows "strip_tail (s @ [c, newline] @ ws) = s @ [c, newline]"
proof -
  have w: "\<forall>x \<in> set (rev ws @ [newline]). is_pad x" using assms(3) by (auto simp: list_all_iff is_pad_def)
  have c: "\<not> is_pad c" using assms(1,2) by (simp add: is_pad_def)
  have r: "pad_run (s @ [c, newline] @ ws) = newline # ws"
  proof (cases s)
    case Nil
    have "takeWhile is_pad (rev ws @ [newline]) = rev ws @ [newline]" using w by (metis takeWhile_eq_all_conv)
    then show ?thesis using Nil by (simp add: pad_run_def)
  next
    case (Cons x s')
    have "takeWhile is_pad ((rev ws @ [newline]) @ (c # rev s')) = (rev ws @ [newline]) @ takeWhile is_pad (c # rev s')"
      by (rule takeWhile_append2) (use w in auto)
    then show ?thesis using Cons c by (simp add: pad_run_def)
  qed
  show ?thesis unfolding strip_tail_def r Let_def by simp
qed

section \<open>Properties\<close>

text \<open>A tape of two short records in front of a fresh reader.\<close>

definition sample_tape :: tape where
  "sample_tape = \<lparr>tp_reads = [replicate 1024 65, replicate 512 10], tp_buf = replicate SZ_TAPEBUFFER 0, tp_next = 0,
     tp_blocks = 0, tp_eof = False\<rparr>"

lemma sample_tape_inv: "tp_inv sample_tape"
  by (simp add: tp_inv_def sample_tape_def record_ok_def TBLOCK_def SZ_TAPEBUFFER_def NBLOCK_def)

lemma sample_tape_stream: "tp_stream sample_tape = replicate 1024 65 @ replicate 512 10"
  by (simp add: tp_stream_def sample_tape_def)

text \<open>
  C19. \<^verbatim>\<open>getblock\<close> delivers the byte stream of the tape block by block: whatever the sizes of the
  records, multiples of the block size, each call returns the next \<open>TBLOCK\<close> bytes, and keeps
  the invariant of the tape state.
\<close>

theorem getblock_delivers:
  assumes "tp_inv tp" "tp_stream tp \<noteq> []"
  shows "\<exists>bp tp'. getblock tp = (Some bp, tp') \<and> tp_inv tp' \<and> block_at tp' bp = take TBLOCK (tp_stream tp)
    \<and> tp_stream tp' = drop TBLOCK (tp_stream tp)"
  using input.get_front[OF assms] by blast

theorem getblock_delivers_witness:
  "\<exists>bp tp'. getblock sample_tape = (Some bp, tp') \<and> tp_inv tp' \<and> block_at tp' bp = take TBLOCK (tp_stream sample_tape)
    \<and> tp_stream tp' = drop TBLOCK (tp_stream sample_tape)"
  by (rule getblock_delivers[OF sample_tape_inv]) (simp add: sample_tape_stream)

text \<open>
  On any tape at all, with records of any length, \<^verbatim>\<open>getblock\<close> returns either the end of file,
  after which the end of file flag is set, or a block that lies inside the tape buffer.
\<close>

theorem getblock_in_buffer:
  assumes "tp_safe tp"
  shows "tp_safe (snd (getblock tp))
    \<and> (case fst (getblock tp) of None \<Rightarrow> tp_eof (snd (getblock tp)) | Some bp \<Rightarrow> bp + TBLOCK \<le> SZ_TAPEBUFFER)"
  using assms by (rule getblock_safe)

theorem getblock_in_buffer_witness:
  "tp_safe (snd (getblock (sample_tape\<lparr>tp_reads := [replicate 700 1]\<rparr>)))
    \<and> (case fst (getblock (sample_tape\<lparr>tp_reads := [replicate 700 1]\<rparr>)) of
         None \<Rightarrow> tp_eof (snd (getblock (sample_tape\<lparr>tp_reads := [replicate 700 1]\<rparr>))) | Some bp \<Rightarrow> bp + TBLOCK \<le> SZ_TAPEBUFFER)"
  by (rule getblock_in_buffer) (simp add: tp_safe_def sample_tape_def)

text \<open>
  C21. \<^verbatim>\<open>copyfile\<close> of the reader returns, or leaves the program after too many write errors, on
  any tape and whatever writes fail; the pad buffer of \<^verbatim>\<open>strip_blanks\<close> is never overrun.
\<close>

theorem copyfile_returns:
  assumes "tp_safe tp" "length pad0 = SZ_PADBUF + 10"
  shows "\<exists>r. rt_copyfile junk pad0 strip tp out fh ftype nerrs = Some r"
  using assms by (rule rt_copyfile_total)

theorem copyfile_returns_witness:
  "\<exists>r. rt_copyfile 0 (replicate 8206 0) True sample_tape \<lparr>of_data = [], of_fail = replicate 30 True\<rparr> sample_header TEXT_FILE 0 = Some r"
  by (rule copyfile_returns) (simp_all add: tp_inv_safe[OF sample_tape_inv] SZ_PADBUF_def)

text \<open>
  C12. \<^verbatim>\<open>copyfile\<close> writes the bytes of the file that follow the header on the tape, all of them for
  a binary file, and without the blank lines at the end for a text file, and leaves the tape
  at the next header.
\<close>

theorem copyfile_extracts:
  assumes "tp_inv tp" "fh_linkflag fh = 0" "unat (fh_size fh) = n" "n < 2 ^ 39" "of_fail out = []"
    "length pad0 = SZ_PADBUF + 10" "TBLOCK * nblk (int n) \<le> length (tp_stream tp)"
  shows "\<exists>tp'. rt_copyfile junk pad0 strip tp out fh ftype nerrs
      = Some (Done (tp', out\<lparr>of_data := of_data out @ kept_data ftype strip (take n (tp_stream tp))\<rparr>, nerrs))
    \<and> tp_inv tp' \<and> tp_stream tp' = drop (TBLOCK * nblk (int n)) (tp_stream tp)"
  using assms by (rule rt_copyfile_spec)

theorem copyfile_extracts_witness:
  "\<exists>tp'. rt_copyfile 0 (replicate 8206 0) True sample_tape \<lparr>of_data = [], of_fail = []\<rparr> sample_header TEXT_FILE 0
      = Some (Done (tp', \<lparr>of_data = [], of_fail = []\<rparr>\<lparr>of_data := of_data \<lparr>of_data = [], of_fail = []\<rparr>
          @ kept_data TEXT_FILE True (take 1300 (tp_stream sample_tape))\<rparr>, 0))
    \<and> tp_inv tp' \<and> tp_stream tp' = drop (TBLOCK * nblk (int 1300)) (tp_stream sample_tape)"
  by (rule copyfile_extracts[OF sample_tape_inv])
     (simp_all add: sample_header_def SZ_PADBUF_def sample_tape_stream nblk_def TBLOCK_def)

text \<open>
  \<^verbatim>\<open>strip_blanks\<close> removes exactly the padding of a text: of a rest that ends in a newline
  behind a byte that is neither blank nor newline, followed by blanks and newlines, it
  writes everything up to and including that newline.
\<close>

theorem strip_blanks_exact:
  assumes "tp_inv tp" "n \<le> SZ_PADBUF" "length pad0 = SZ_PADBUF + 10" "of_fail out = []"
    "TBLOCK * nblk (int n) \<le> length (tp_stream tp)" "take n (tp_stream tp) = s @ [c, newline] @ ws"
    "c \<noteq> newline" "c \<noteq> blank" "list_all is_pad ws"
  shows "\<exists>tp'. strip_blanks junk pad0 tp out (int n) = Some (tp', out\<lparr>of_data := of_data out @ s @ [c, newline]\<rparr>)
    \<and> tp_inv tp' \<and> tp_stream tp' = drop (TBLOCK * nblk (int n)) (tp_stream tp)"
proof -
  have "0 < n" using assms(6) by (cases n) auto
  then show ?thesis
    using strip_blanks_spec[OF assms(1) _ assms(2-5), of junk] strip_tail_text[OF assms(7-9), of s] assms(6) by simp
qed

definition padded_tape :: tape where
  "padded_tape = \<lparr>tp_reads = [replicate 200 97 @ [newline] @ replicate 311 blank], tp_buf = replicate SZ_TAPEBUFFER 0,
     tp_next = 0, tp_blocks = 0, tp_eof = False\<rparr>"

theorem strip_blanks_exact_witness:
  "\<exists>tp'. strip_blanks 0 (replicate 8206 0) padded_tape \<lparr>of_data = [], of_fail = []\<rparr> (int 300)
      = Some (tp', \<lparr>of_data = [], of_fail = []\<rparr>\<lparr>of_data := of_data \<lparr>of_data = [], of_fail = []\<rparr> @ replicate 199 97 @ [97, newline]\<rparr>)
    \<and> tp_inv tp' \<and> tp_stream tp' = drop (TBLOCK * nblk (int 300)) (tp_stream padded_tape)"
proof (rule strip_blanks_exact[where ws = "replicate 99 blank"])
  have "replicate 200 (97 :: byte) = replicate 199 97 @ [97]" by (simp add: replicate_append_same flip: replicate_Suc)
  then show "take 300 (tp_stream padded_tape) = replicate 199 97 @ [97, newline] @ replicate 99 blank"
    by (simp add: tp_stream_def padded_tape_def)
qed (simp_all add: tp_inv_def tp_stream_def padded_tape_def record_ok_def TBLOCK_def SZ_TAPEBUFFER_def NBLOCK_def SZ_PADBUF_def
    nblk_def newline_def blank_def is_pad_def list_all_iff)

text \<open>
  \<^verbatim>\<open>matchfile\<close> selects a file if there is no list, if an element of the list is a prefix of its
  name, or if an element is its whole name followed by a dollar sign; the empty element
  selects the empty name only.
\<close>

theorem matchfile_selects:
  "matchfile f files = (if files = [] \<or> (\<exists>e \<in> set files. (e = [] \<longleftrightarrow> f = [])
     \<and> ((\<exists>r. f = e @ r) \<or> (\<exists>r. e = f @ bchar CHR ''$'' # r))) then 1 else 0)"
  unfolding matchfile_def match_list_iff match_elem_iff ..

text \<open>
  When \<^verbatim>\<open>checkdir\<close> succeeds, either the directory of the file existed, or every directory on
  the way to the file now exists, and no directory has been lost.
\<close>

theorem checkdir_makes_parents:
  assumes "checkdir h path uid gid dirs = (True, dirs', as)"
  shows "(slash \<notin> set path \<or> dirs (before_last_slash path)
      \<or> (\<forall>a b. path = a @ slash # b \<and> b \<noteq> [] \<longrightarrow> dirs' a)) \<and> (\<forall>d. dirs d \<longrightarrow> dirs' d)"
  using assms make_dirs_ok[of h uid gid "[]" path dirs dirs' as] by (auto simp: checkdir_def split: if_splits)

definition open_host :: host where
  "open_host = \<lparr>h_mkdir = (\<lambda>_. True), h_create = (\<lambda>_. True), h_fcopy = (\<lambda>_ _. True), h_wfail = (\<lambda>_. [])\<rparr>"

theorem checkdir_makes_parents_witness:
  "fst (checkdir open_host (bstr ''a/b/c'') 0 0 (\<lambda>_. False))
    \<and> fst (snd (checkdir open_host (bstr ''a/b/c'') 0 0 (\<lambda>_. False))) (bstr ''a/b'')"
proof -
  let ?r = "checkdir open_host (bstr ''a/b/c'') 0 0 (\<lambda>_. False)"
  have ok: "fst ?r" by (simp add: checkdir_def bstr_def open_host_def)
  then have r: "?r = (True, fst (snd ?r), snd (snd ?r))" by (cases ?r) auto
  have "slash \<in> set (bstr ''a/b/c'')" "bstr ''a/b/c'' = bstr ''a/b'' @ slash # bstr ''c''" "bstr ''c'' \<noteq> []"
    by (simp_all add: bstr_def)
  then show ?thesis using checkdir_makes_parents[OF r] ok by blast
qed

end
