(* ===== verification/TarRound.thy ===== *)
theory TarRound
  imports Rtar
begin

text \<open>
  The two archive programs together: what \<^verbatim>\<open>putfiles\<close> of \<^verbatim>\<open>unix/boot/wtar/wtar.c\<close> writes for a
  directory tree, and what the main loop of \<^verbatim>\<open>unix/boot/rtar/rtar.c\<close> does with it. A member
  of the archive is a header, the type it was written with, and the bytes of the file.
\<close>

type_synonym member = "fheader \<times> nat \<times> byte list"

definition has_data :: "fheader \<Rightarrow> bool" where
  "has_data fh \<longleftrightarrow> 0 <s fh_size fh \<and> \<not> fh_isdir fh \<and> fh_linkflag fh = 0"

section \<open>The members of a tree\<close>

text \<open>The members in the order of the walk: a directory comes before its entries.\<close>

definition file_data :: "fheader \<Rightarrow> finfo \<Rightarrow> byte list" where
  "file_data fh fi = (if has_data fh then case fi_reads fi of None \<Rightarrow> [] | Some rs \<Rightarrow> rd_bytes rs else [])"

fun members :: "node \<Rightarrow> byte list \<Rightarrow> member list option"
  and members_of :: "node list \<Rightarrow> byte list \<Rightarrow> member list option" where
  "members (Leaf fname fi ftype) path = do {
     fh \<leftarrow> make_header fname fi ftype path; Some [(fh, ftype, file_data fh fi)] }"
| "members (Dir dir fi entries) path = do {
     fh \<leftarrow> make_header dir fi DIRECTORY_FILE path;
     ms \<leftarrow> (case entries of
              None \<Rightarrow> Some []
            | Some es \<Rightarrow> do {
                p \<leftarrow> dname path;
                if SZ_PATHBUF \<le> length (p @ dir) then None
                else do { newpath \<leftarrow> dname (p @ dir); members_of es newpath } });
     Some ((fh, DIRECTORY_FILE, file_data fh fi) # ms) }"
| "members_of [] path = Some []"
| "members_of (n # ns) path = do { ms \<leftarrow> members n path; ms' \<leftarrow> members_of ns path; Some (ms @ ms') }"

text \<open>Files that can be read: the reads return the bytes in portions of at most a block.\<close>

definition info_ok :: "finfo \<Rightarrow> bool" where
  "info_ok fi \<longleftrightarrow> fi_ok fi \<and> (\<exists>rs. fi_reads fi = Some rs \<and> rd_ok rs)"

fun node_ok :: "node \<Rightarrow> bool" where
  "node_ok (Leaf fname fi ftype) = info_ok fi"
| "node_ok (Dir dir fi entries) = (info_ok fi \<and> (case entries of None \<Rightarrow> True | Some es \<Rightarrow> list_all node_ok es))"

text \<open>
  A member that the reader can take apart: the header fits, its sum is not negative, the size
  is that of the data, and exactly the directories end in a slash.
\<close>

definition member_ok :: "member \<Rightarrow> bool" where
  "member_ok m = (case m of (fh, ftype, d) \<Rightarrow> header_ok fh \<and> 0 \<le> hdr_sum fh \<and> unat (fh_size fh) = length d
     \<and> (fh_isdir fh \<longleftrightarrow> last (fh_name fh) = slash) \<and> (fh_isdir fh \<or> fh_linkflag fh \<noteq> 0 \<longrightarrow> d = []))"

definition member_bytes :: "byte \<Rightarrow> member \<Rightarrow> byte list" where
  "member_bytes junk m = (case m of (fh, ftype, d) \<Rightarrow> entry_bytes (the (encode_header junk fh)) fh ftype d)"

lemma member_size:
  assumes "member_ok (fh, ftype, d)"
  shows "unat (fh_size fh) < 2 ^ 39" "length d < 2 ^ 39" "has_data fh \<longleftrightarrow> d \<noteq> []"
proof -
  have u: "unat (fh_size fh) = length d" and "unat (fh_size fh) < 8 ^ 11"
    using assms by (auto simp: member_ok_def header_ok_def)
  then show s: "unat (fh_size fh) < 2 ^ 39" "length d < 2 ^ 39" by simp_all
  show "has_data fh \<longleftrightarrow> d \<noteq> []"
    using sint_size_small(2)[OF s(1)] assms u by (auto simp: has_data_def member_ok_def)
qed

section \<open>What the walk writes\<close>

lemma tarfileout_member:
  assumes "wt_inv (ws_tape ws)" "\<not> ws_omitbinary ws" "info_ok fi"
    "make_header fname fi ftype path = Some fh" "member_ok (fh, ftype, file_data fh fi)" "length buf0 = 2 * TBLOCK"
  shows "\<exists>ws'. tarfileout junk buf0 fname fi ftype path ws = Some (Done ws') \<and> wt_inv (ws_tape ws')
    \<and> \<not> ws_omitbinary ws' \<and> wt_stream (ws_tape ws') = wt_stream (ws_tape ws) @ member_bytes junk (fh, ftype, file_data fh fi)"
proof (cases "has_data fh")
  case True
  obtain rs where rs: "fi_reads fi = Some rs" "rd_ok rs" "fi_ok fi" using assms(3) by (auto simp: info_ok_def)
  then have d: "file_data fh fi = rd_bytes rs" using True by (simp add: file_data_def)
  have m: "header_ok fh" "0 \<le> hdr_sum fh" "length (rd_bytes rs) = unat (fh_size fh)"
    using assms(5) by (auto simp: member_ok_def d)
  have "\<not> (ftype = BINARY_FILE \<and> ws_omitbinary ws)" using assms(2) by simp
  from tarfileout_appends[OF assms(1) this rs(3) assms(4) m(1,2) rs(1,2) m(3) assms(6), of junk]
  show ?thesis using assms(2) by (auto simp: member_bytes_def d)
next
  case False
  have m: "header_ok fh" "0 \<le> hdr_sum fh" using assms(5) by (auto simp: member_ok_def)
  obtain hb where hb: "encode_header junk fh = Some hb" using encode_header_ok[OF m] by blast
  have l: "length hb = TBLOCK" using header_block(1)[OF m hb] .
  then obtain wt where wt: "putheader junk fh (ws_tape ws) = Some wt" "wt_inv wt" "wt_stream wt = wt_stream (ws_tape ws) @ hb"
    using tape.put_appendsE[OF assms(1), of hb] hb by (auto simp: putheader_def)
  have "fi_ok fi" using assms(3) by (simp add: info_ok_def)
  then have "tarfileout junk buf0 fname fi ftype path ws = Some (Done (ws\<lparr>ws_tape := wt\<rparr>))"
    using False assms(2,4) wt(1) by (auto simp: tarfileout_def has_data_def)
  moreover have "member_bytes junk (fh, ftype, file_data fh fi) = hb"
    using False hb by (auto simp: member_bytes_def entry_bytes_def file_data_def)
  ultimately show ?thesis using wt assms(2) by auto
qed

lemma putnode_members:
  "wt_inv (ws_tape ws) \<Longrightarrow> \<not> ws_omitbinary ws \<Longrightarrow> length buf0 = 2 * TBLOCK \<Longrightarrow> node_ok n
    \<Longrightarrow> members n path = Some ms \<Longrightarrow> list_all member_ok ms
    \<Longrightarrow> \<exists>ws'. putnode junk buf0 n path ws = Some (Done ws') \<and> wt_inv (ws_tape ws') \<and> \<not> ws_omitbinary ws'
      \<and> wt_stream (ws_tape ws') = wt_stream (ws_tape ws) @ concat (map (member_bytes junk) ms)"
  "wt_inv (ws_tape ws) \<Longrightarrow> \<not> ws_omitbinary ws \<Longrightarrow> length buf0 = 2 * TBLOCK \<Longrightarrow> list_all node_ok ns
    \<Longrightarrow> members_of ns path = Some ms \<Longrightarrow> list_all member_ok ms
    \<Longrightarrow> \<exists>ws'. putnodes junk buf0 ns path ws = Some (Done ws') \<and> wt_inv (ws_tape ws') \<and> \<not> ws_omitbinary ws'
      \<and> wt_stream (ws_tape ws') = wt_stream (ws_tape ws) @ concat (map (member_bytes junk) ms)"
proof (induction junk buf0 n path ws and junk buf0 ns path ws arbitrary: ms and ms rule: putnode_putnodes.induct)
  case (1 junk buf0 fname fi ftype path ws)
  then obtain fh where "make_header fname fi ftype path = Some fh" "ms = [(fh, ftype, file_data fh fi)]"
    by (auto split: Option.bind_splits)
  with 1 tarfileout_member[of ws fi fname ftype path fh buf0 junk] show ?case by simp
next
  case (2 junk buf0 dir fi entries path ws)
  obtain fh ms' where m: "make_header dir fi DIRECTORY_FILE path = Some fh"
    "ms = (fh, DIRECTORY_FILE, file_data fh fi) # ms'"
    "(case entries of None \<Rightarrow> Some [] | Some es \<Rightarrow> do { p \<leftarrow> dname path;
        if SZ_PATHBUF \<le> length (p @ dir) then None
        else do { newpath \<leftarrow> dname (p @ dir); members_of es newpath } }) = Some ms'"
    using 2(6) by (auto split: Option.bind_splits)
  have "info_ok fi" "member_ok (fh, DIRECTORY_FILE, file_data fh fi)" using 2(5,7) m(2) by simp_all
  from tarfileout_member[OF 2(2,3) this(1) m(1) this(2) 2(4)] obtain ws1 where
    1: "tarfileout junk buf0 dir fi DIRECTORY_FILE path ws = Some (Done ws1)" "wt_inv (ws_tape ws1)" "\<not> ws_omitbinary ws1"
    "wt_stream (ws_tape ws1) = wt_stream (ws_tape ws) @ member_bytes junk (fh, DIRECTORY_FILE, file_data fh fi)" by blast
  show ?case
  proof (cases entries)
    case None
    then show ?thesis using 1 m(2,3) by simp
  next
    case (Some es)
    obtain p newpath where p: "dname path = Some p" "\<not> SZ_PATHBUF \<le> length (p @ dir)"
      "dname (p @ dir) = Some newpath" "members_of es newpath = Some ms'"
      using m(3) Some by (auto split: Option.bind_splits if_splits)
    have "list_all node_ok es" "list_all member_ok ms'" using 2(5,7) Some m(2) by simp_all
    with 2(1)[OF 1(1) refl Some p(1,2,3)] 1(2,3) 2(4) p(4) obtain ws2 where
      "putnodes junk buf0 es newpath ws1 = Some (Done ws2)" "wt_inv (ws_tape ws2)" "\<not> ws_omitbinary ws2"
      "wt_stream (ws_tape ws2) = wt_stream (ws_tape ws1) @ concat (map (member_bytes junk) ms')" by blast
    then show ?thesis using 1(1,4) Some p(1-3) m(2) by simp
  qed
next
  case (3 junk buf0 path ws)
  then show ?case by simp
next
  case (4 junk buf0 n ns path ws)
  obtain m1 m2 where m: "members n path = Some m1" "members_of ns path = Some m2" "ms = m1 @ m2"
    using 4(7) by (auto split: Option.bind_splits)
  have ok: "list_all member_ok m1" "list_all member_ok m2" using 4(8) m(3) by simp_all
  have "node_ok n" "list_all node_ok ns" using 4(6) by simp_all
  with 4(1)[OF 4(3-5) _ m(1) ok(1)] obtain ws1 where
    1: "putnode junk buf0 n path ws = Some (Done ws1)" "wt_inv (ws_tape ws1)" "\<not> ws_omitbinary ws1"
    "wt_stream (ws_tape ws1) = wt_stream (ws_tape ws) @ concat (map (member_bytes junk) m1)" by blast
  with 4(2)[OF 1(1) refl 1(2,3) 4(5) \<open>list_all node_ok ns\<close> m(2) ok(2)] show ?case using m(3) by auto
qed


section \<open>The reader without a tape\<close>

text \<open>The type \<^verbatim>\<open>filetype\<close> finds, from the bytes of the file.\<close>

definition data_type :: "(byte \<Rightarrow> bool) \<Rightarrow> byte list \<Rightarrow> nat" where
  "data_type hi d =
     (let p = take TBLOCK d; seen = takeWhile (\<lambda>c. c = newline \<or> texty hi c) p
      in if length seen < length p \<or> MAXLINELEN < length p \<and> newline \<notin> set seen then BINARY_FILE else TEXT_FILE)"

definition member_type :: "(byte \<Rightarrow> bool) \<Rightarrow> bool \<Rightarrow> fheader \<Rightarrow> byte list \<Rightarrow> nat" where
  "member_type hi binaryout fh d =
     (if fh_isdir fh then DIRECTORY_FILE else if d = [] \<or> binaryout then BINARY_FILE else data_type hi d)"

text \<open>
  The contract of one turn of the main loop: what it does to a member, given whole. The tape
  component of the state is not used.
\<close>

definition extract_member ::
  "(byte \<Rightarrow> bool) \<Rightarrow> ropts \<Rightarrow> host \<Rightarrow> rstate \<Rightarrow> fheader \<Rightarrow> byte list \<Rightarrow> rstate" where
  "extract_member hi opts h st fh d =
     (let ftype = member_type hi (ro_binaryout opts) fh d
      in if d \<noteq> [] \<and> ftype = BINARY_FILE \<and> ro_omitbinary opts then st
         else (case newfile opts h fh ftype (rs_dirs st) of (ok, name, dirs, acts) \<Rightarrow>
           let st1 = act acts (st\<lparr>rs_dirs := dirs\<rparr>)
           in if \<not> ok then st1
              else if fh_isdir fh then act (restore_attrs opts fh name) st1
              else act (WriteFile (strip_prefix (ro_prefix opts) (fh_name fh)) (kept_data ftype (ro_strip opts) d)
                  # restore_attrs opts fh name) st1))"

definition do_member ::
  "(byte \<Rightarrow> bool) \<Rightarrow> ropts \<Rightarrow> host \<Rightarrow> rstate \<Rightarrow> fheader \<Rightarrow> byte list \<Rightarrow> rstate" where
  "do_member hi opts h st fh d =
     (if rs_advance st \<and> Some (fh_name fh) \<noteq> ro_first opts then st
      else
        let st1 = st\<lparr>rs_advance := False\<rparr>
        in if matchfile (fh_name fh) (ro_files opts) = ro_exclude opts then st1
           else if fh_linkflag fh = LF_SYMLINK \<or> fh_linkflag fh = LF_LINK then link_step opts h st1 fh
           else if ro_extract opts then extract_member hi opts h st1 fh d
           else st1)"

lemma restore_attrs_cong [simp]:
  "restore_attrs opts (fh\<lparr>fh_linkname := x\<rparr>) name = restore_attrs opts fh name"
  "restore_attrs opts (fh\<lparr>fh_name := y\<rparr>) name = restore_attrs opts fh name"
  by (simp_all add: restore_attrs_def)

lemma newfile_linkname [simp]: "newfile opts h (fh\<lparr>fh_linkname := x\<rparr>) ftype dirs = newfile opts h fh ftype dirs"
  by (simp add: newfile_def Let_def cong: if_cong prod.case_cong bool.case_cong)

lemma act_tape [simp]: "act as (st\<lparr>rs_tape := tp\<rparr>) = (act as st)\<lparr>rs_tape := tp\<rparr>"
  "rs_tape (act as st) = rs_tape st" "rs_dirs (act as st) = rs_dirs st" "rs_nerrs (act as st) = rs_nerrs st"
  by (simp_all add: act_def)

lemma extract_member_linkname: "extract_member hi opts h st (fh\<lparr>fh_linkname := x\<rparr>) d = extract_member hi opts h st fh d"
  by (simp add: extract_member_def member_type_def Let_def split: prod.splits)

lemma do_member_linkname:
  "fh_linkflag fh = 0 \<Longrightarrow> do_member hi opts h st (fh\<lparr>fh_linkname := x\<rparr>) d = do_member hi opts h st fh d"
  by (simp add: do_member_def extract_member_linkname LF_SYMLINK_def LF_LINK_def Let_def)

lemma link_step_tape [simp]: "link_step opts h (st\<lparr>rs_tape := tp\<rparr>) fh = (link_step opts h st fh)\<lparr>rs_tape := tp\<rparr>"
  by (simp add: link_step_def Let_def)

lemma extract_member_tape: "extract_member hi opts h (st\<lparr>rs_tape := tp\<rparr>) fh d = (extract_member hi opts h st fh d)\<lparr>rs_tape := tp\<rparr>"
  by (simp add: extract_member_def Let_def act_def split: prod.splits)

lemma do_member_tape: "do_member hi opts h (st\<lparr>rs_tape := tp\<rparr>) fh d = (do_member hi opts h st fh d)\<lparr>rs_tape := tp\<rparr>"
proof -
  have "st\<lparr>rs_tape := tp, rs_advance := False\<rparr> = (st\<lparr>rs_advance := False\<rparr>)\<lparr>rs_tape := tp\<rparr>" by simp
  then show ?thesis
    unfolding do_member_def Let_def by (simp only: link_step_tape extract_member_tape rstate.select_convs
      rstate.surjective rstate.update_convs if_distrib[of "\<lambda>x. x\<lparr>rs_tape := tp\<rparr>"]) simp
qed

section \<open>The reader on a tape with whole members\<close>

definition padded_data :: "nat \<Rightarrow> byte list \<Rightarrow> byte list" where
  "padded_data ftype d = d @ (if length d mod 512 = 0 then [] else padding (ftype = TEXT_FILE) (length d mod 512))"

lemma length_padded_data: "length (padded_data ftype d) = TBLOCK * nblk (int (length d))"
proof (cases "length d mod 512 = 0")
  case True
  then obtain q where "length d = 512 * q" by (auto simp: mod_eq_0_iff_dvd)
  then show ?thesis by (simp add: padded_data_def nblk_def TBLOCK_def nat_mult_distrib)
next
  case False
  define q r where "q = length d div 512" and "r = length d mod 512"
  have l: "length d = 512 * q + r" "0 < r" "r < 512" using False by (simp_all add: q_def r_def)
  have "(int (length d) + 511) div 512 = int q + 1" using l by simp
  then have "nblk (int (length d)) = Suc q" by (simp add: nblk_def nat_add_distrib)
  then show ?thesis using False l by (simp add: padded_data_def TBLOCK_def)
qed

lemma take_padded_data: "take (length d) (padded_data ftype d @ rest) = d"
  by (simp add: padded_data_def)

lemma getblock_pushed_back:
  assumes "tp_inv tp" "delivered tp bp tp1"
  defines "tp2 \<equiv> tp1\<lparr>tp_next := tp_next tp1 - TBLOCK, tp_blocks := tp_blocks tp1 + 1\<rparr>"
  shows "tp_inv tp2" "tp_stream tp2 = tp_stream tp"
proof -
  have d: "tp_inv tp1" "tp_next tp1 = bp + TBLOCK" "block_at tp1 bp = take TBLOCK (tp_stream tp)"
    "tp_stream tp1 = drop TBLOCK (tp_stream tp)"
    using assms(2) by (auto simp: delivered_def)
  have b: "nat (tp_blocks tp1 + 1) = Suc (nat (tp_blocks tp1))" using d(1) by (simp add: tp_inv_def nat_add_distrib)
  show "tp_inv tp2" using d(1,2) b by (simp add: tp_inv_def tp2_def)
  have "tp_stream tp2 = block_at tp1 bp @ tp_stream tp1"
    using d(2) b by (simp add: tp_stream_def tp2_def block_at_def take_add add.commute)
  then show "tp_stream tp2 = tp_stream tp" using d(3,4) by simp
qed

text \<open>What the reader needs to know of a decoded header and the data behind it.\<close>

definition data_ok :: "fheader \<Rightarrow> byte list \<Rightarrow> bool" where
  "data_ok fh d \<longleftrightarrow> unat (fh_size fh) = length d \<and> length d < 2 ^ 39 \<and> fh_linkflag fh \<in> {0, LF_SYMLINK, LF_DIR}
     \<and> (fh_isdir fh \<or> fh_linkflag fh \<noteq> 0 \<longrightarrow> d = [])"

lemma data_ok_cong [simp]:
  "data_ok (fh\<lparr>fh_name := y\<rparr>) d = data_ok fh d" "data_ok (fh\<lparr>fh_linkname := x\<rparr>) d = data_ok fh d"
  by (simp_all add: data_ok_def)

lemma data_okD:
  assumes "data_ok fh d"
  shows "unat (fh_size fh) = length d" "unat (fh_size fh) < 2 ^ 39" "sint (fh_size fh) = int (length d)"
    "fh_size fh = 0 \<longleftrightarrow> d = []" "0 <s fh_size fh \<longleftrightarrow> d \<noteq> []"
proof -
  show s: "unat (fh_size fh) = length d" "unat (fh_size fh) < 2 ^ 39" using assms by (simp_all add: data_ok_def)
  show "sint (fh_size fh) = int (length d)" "0 <s fh_size fh \<longleftrightarrow> d \<noteq> []" using sint_size_small[OF s(2)] s(1) by simp_all
  show "fh_size fh = 0 \<longleftrightarrow> d = []" using s(1) by (metis length_0_conv unat_eq_zero)
qed

lemma filetype_member:
  assumes "tp_inv tp" "data_ok fh d" "tp_stream tp = padded_data ft d @ rest"
  shows "\<exists>tp'. filetype hi bin tp fh = (member_type hi bin fh d, tp') \<and> tp_inv tp' \<and> tp_stream tp' = tp_stream tp"
proof (cases "fh_isdir fh \<or> d = [] \<or> bin")
  case True
  then show ?thesis using assms(1) data_okD(4)[OF assms(2)] by (auto simp: filetype_def member_type_def)
next
  case False
  then have ne: "tp_stream tp \<noteq> []" using assms(3) by (auto simp: padded_data_def)
  from getblock_stream[OF assms(1) ne] obtain bp tp1 where
    g: "getblock tp = (Some bp, tp1)" and del: "delivered tp bp tp1" by blast
  have b: "block_at tp1 bp = take TBLOCK (tp_stream tp)" using del by (simp add: delivered_def)
  define n where "n = (if sint (fh_size fh) < int TBLOCK then nat (sint (fh_size fh)) else TBLOCK)"
  have n: "n = min (length d) TBLOCK" by (auto simp: n_def data_okD(3)[OF assms(2)] min_def)
  have "take n (block_at tp1 bp) = take n (take (length d) (tp_stream tp))"
    unfolding b n by (simp add: min.commute min.left_commute)
  also have "\<dots> = take TBLOCK d" using assms(3) take_padded_data n by (simp add: min_def)
  finally have t: "take n (block_at tp1 bp) = take TBLOCK d" .
  have l: "length (take TBLOCK d) = n" using n by (simp add: min.commute)
  have "filetype hi bin tp fh = (data_type hi d, tp1\<lparr>tp_next := tp_next tp1 - TBLOCK, tp_blocks := tp_blocks tp1 + 1\<rparr>)"
    using False data_okD(4)[OF assms(2)] g t l
    by (simp add: filetype_def Let_def n_def[symmetric] data_type_def)
  then show ?thesis
    using getblock_pushed_back[OF assms(1) del] False by (simp add: member_type_def)
qed

lemma skip_member:
  assumes "tp_inv tp" "data_ok fh d" "tp_stream tp = padded_data ft d @ rest"
  shows "\<exists>tp'. skipfile tp fh = Some tp' \<and> tp_inv tp' \<and> tp_stream tp' = rest"
proof (cases "fh_linkflag fh = 0")
  case True
  note s = data_okD[OF assms(2)]
  have l: "TBLOCK * nblk (int (unat (fh_size fh))) \<le> length (tp_stream tp)"
    using length_padded_data[of ft d] s(1) assms(3) by simp
  show ?thesis
    using skipfile_spec[OF assms(1) True s(2) l] assms(3) length_padded_data[of ft d] s(1) by simp
next
  case False
  then have "d = []" using assms(2) by (simp add: data_ok_def)
  then show ?thesis using False assms(1,3) by (simp add: skipfile_def padded_data_def)
qed

lemma skip_step_member:
  assumes "tp_inv (rs_tape st)" "data_ok fh d" "tp_stream (rs_tape st) = padded_data ft d @ rest"
  shows "\<exists>tp'. skip_step st fh = Some (Done (st\<lparr>rs_tape := tp'\<rparr>)) \<and> tp_inv tp' \<and> tp_stream tp' = rest"
  using skip_member[OF assms] by (auto simp: skip_step_def)

lemma extract_step_member:
  assumes "tp_inv (rs_tape st)" "data_ok fh d" "fh_linkflag fh \<noteq> LF_SYMLINK" "fh_isdir fh \<or> fh_linkflag fh = 0"
    "tp_stream (rs_tape st) = padded_data ft d @ rest"
    "length pad0 = SZ_PADBUF + 10" "\<And>f. h_wfail h f = []"
  shows "\<exists>tp'. extract_step hi junk pad0 opts h st fh = Some (Done ((extract_member hi opts h st fh d)\<lparr>rs_tape := tp'\<rparr>))
    \<and> tp_inv tp' \<and> tp_stream tp' = rest"
proof -
  let ?ft = "member_type hi (ro_binaryout opts) fh d"
  obtain tp where tp: "filetype hi (ro_binaryout opts) (rs_tape st) fh = (?ft, tp)" "tp_inv tp"
    "tp_stream tp = padded_data ft d @ rest"
    using filetype_member[OF assms(1,2,5), of hi "ro_binaryout opts"] assms(5) by auto
  obtain ok name dirs acts where nf: "newfile opts h fh ?ft (rs_dirs st) = (ok, name, dirs, acts)"
    by (metis prod_cases4)
  note z = data_okD[OF assms(2)]
  let ?st1 = "st\<lparr>rs_tape := tp\<rparr>" and ?fh1 = "fh\<lparr>fh_name := name\<rparr>"
  let ?st2 = "act acts (?st1\<lparr>rs_dirs := dirs\<rparr>)"
  have ok1: "data_ok ?fh1 d" using assms(2) by simp
  consider (omit) "d \<noteq> [] \<and> ?ft = BINARY_FILE \<and> ro_omitbinary opts"
    | (fail) "\<not> (d \<noteq> [] \<and> ?ft = BINARY_FILE \<and> ro_omitbinary opts)" "\<not> ok"
    | (isdir) "\<not> (d \<noteq> [] \<and> ?ft = BINARY_FILE \<and> ro_omitbinary opts)" "ok" "fh_isdir fh"
    | (data) "\<not> (d \<noteq> [] \<and> ?ft = BINARY_FILE \<and> ro_omitbinary opts)" "ok" "\<not> fh_isdir fh" by blast
  then show ?thesis
  proof cases
    case omit
    then show ?thesis
      using skip_step_member[of ?st1 fh d ft rest] tp assms(2) z(5)
      by (auto simp: extract_step_def extract_member_def Let_def)
  next
    case fail
    have "extract_step hi junk pad0 opts h st fh = skip_step ?st2 ?fh1"
      using fail tp(1) nf z(5) by (auto simp: extract_step_def Let_def)
    moreover have "extract_member hi opts h st fh d = act acts (st\<lparr>rs_dirs := dirs\<rparr>)"
      using fail nf by (auto simp: extract_member_def Let_def)
    ultimately show ?thesis
      using skip_step_member[of ?st2 ?fh1 d ft rest] tp ok1 by (auto simp: act_def)
  next
    case isdir
    have "d = []" using isdir assms(2) by (simp add: data_ok_def)
    then have "extract_step hi junk pad0 opts h st fh = Some (Done (act (restore_attrs opts ?fh1 name) ?st2))"
      using isdir tp(1) nf z(5) by (auto simp: extract_step_def Let_def)
    moreover have "extract_member hi opts h st fh d = act (restore_attrs opts fh name) (act acts (st\<lparr>rs_dirs := dirs\<rparr>))"
      using isdir nf by (auto simp: extract_member_def Let_def)
    ultimately show ?thesis
      using tp(2,3) \<open>d = []\<close> by (intro exI[of _ tp]) (simp add: act_def padded_data_def)
  next
    case data
    let ?fname = "strip_prefix (ro_prefix opts) (fh_name fh)" and ?out = "\<lparr>of_data = [], of_fail = []\<rparr>"
    have l: "TBLOCK * nblk (int (length d)) \<le> length (tp_stream tp)"
      using length_padded_data[of ft d] tp(3) by simp
    have "fh_linkflag ?fh1 = 0" "unat (fh_size ?fh1) = length d" "length d < 2 ^ 39"
      using assms(2,4) data(3) by (simp_all add: data_ok_def)
    from rt_copyfile_spec[OF tp(2) this(1,2,3) _ assms(6) l, of ?out junk "ro_strip opts" ?ft "rs_nerrs st"] obtain tp' where
      c: "rt_copyfile junk pad0 (ro_strip opts) tp ?out ?fh1 ?ft (rs_nerrs st)
        = Some (Done (tp', ?out\<lparr>of_data := kept_data ?ft (ro_strip opts) d\<rparr>, rs_nerrs st))" "tp_inv tp'" "tp_stream tp' = rest"
      using tp(3) length_padded_data[of ft d] take_padded_data[of d ft rest] by auto
    have e: "extract_step hi junk pad0 opts h st fh = Some (Done (act (WriteFile ?fname (kept_data ?ft (ro_strip opts) d) # restore_attrs opts ?fh1 name)
        (?st2\<lparr>rs_tape := tp', rs_nerrs := rs_nerrs st\<rparr>)))"
      using data tp(1) nf z(5) c(1) assms(7) by (auto simp: extract_step_def Let_def act_def)
    have m: "extract_member hi opts h st fh d = act (WriteFile ?fname (kept_data ?ft (ro_strip opts) d) # restore_attrs opts fh name)
        (act acts (st\<lparr>rs_dirs := dirs\<rparr>))"
      using data nf by (auto simp: extract_member_def Let_def)
    show ?thesis unfolding e m using c(2,3) by (intro exI[of _ tp']) (simp add: act_def)
  qed
qed

lemma file_step_member:
  assumes "tp_inv (rs_tape st)" "data_ok fh d" "fh_isdir fh \<or> fh_linkflag fh = 0 \<or> fh_linkflag fh = LF_SYMLINK"
    "tp_stream (rs_tape st) = padded_data ft d @ rest" "length pad0 = SZ_PADBUF + 10" "\<And>f. h_wfail h f = []"
  shows "\<exists>tp'. file_step hi junk pad0 opts h st fh = Some (Done ((do_member hi opts h st fh d)\<lparr>rs_tape := tp'\<rparr>))
    \<and> tp_inv tp' \<and> tp_stream tp' = rest"
proof -
  let ?st1 = "st\<lparr>rs_advance := False\<rparr>"
  have lf: "fh_linkflag fh \<noteq> LF_LINK" using assms(2) by (auto simp: data_ok_def LF_LINK_def LF_SYMLINK_def LF_DIR_def)
  have t1: "tp_inv (rs_tape ?st1)" "tp_stream (rs_tape ?st1) = padded_data ft d @ rest" using assms(1,4) by simp_all
  note sk = skip_step_member[OF assms(1,2,4)] skip_step_member[OF t1(1) assms(2) t1(2)]
  consider (adv) "rs_advance st \<and> Some (fh_name fh) \<noteq> ro_first opts"
    | (excl) "\<not> (rs_advance st \<and> Some (fh_name fh) \<noteq> ro_first opts)" "matchfile (fh_name fh) (ro_files opts) = ro_exclude opts"
    | (sym) "\<not> (rs_advance st \<and> Some (fh_name fh) \<noteq> ro_first opts)" "matchfile (fh_name fh) (ro_files opts) \<noteq> ro_exclude opts"
        "fh_linkflag fh = LF_SYMLINK"
    | (ext) "\<not> (rs_advance st \<and> Some (fh_name fh) \<noteq> ro_first opts)" "matchfile (fh_name fh) (ro_files opts) \<noteq> ro_exclude opts"
        "fh_linkflag fh \<noteq> LF_SYMLINK" "ro_extract opts"
    | (list) "\<not> (rs_advance st \<and> Some (fh_name fh) \<noteq> ro_first opts)" "matchfile (fh_name fh) (ro_files opts) \<noteq> ro_exclude opts"
        "fh_linkflag fh \<noteq> LF_SYMLINK" "\<not> ro_extract opts" by blast
  then show ?thesis
  proof cases
    case adv then show ?thesis using sk(1) by (auto simp: file_step_def do_member_def)
  next
    case excl then show ?thesis using sk(2) by (auto simp: file_step_def do_member_def Let_def)
  next
    case sym
    then have "d = []" using assms(2) by (simp add: data_ok_def LF_SYMLINK_def)
    then have s: "tp_stream (rs_tape st) = rest" using assms(4) by (simp add: padded_data_def)
    have "file_step hi junk pad0 opts h st fh = Some (Done (link_step opts h ?st1 fh))"
      "do_member hi opts h st fh d = link_step opts h ?st1 fh"
      using sym by (auto simp: file_step_def do_member_def Let_def)
    moreover have "(link_step opts h ?st1 fh)\<lparr>rs_tape := rs_tape st\<rparr> = link_step opts h ?st1 fh"
      by (simp add: link_step_def Let_def act_def)
    ultimately show ?thesis using assms(1) s by (intro exI[of _ "rs_tape st"]) simp
  next
    case ext
    have "fh_isdir fh \<or> fh_linkflag fh = 0" using assms(3) ext(3) by simp
    from extract_step_member[OF t1(1) assms(2) ext(3) this t1(2) assms(5,6), of hi junk opts]
    show ?thesis using ext lf by (auto simp: file_step_def do_member_def Let_def)
  next
    case list then show ?thesis using sk(2) lf by (auto simp: file_step_def do_member_def Let_def)
  qed
qed


section \<open>The whole archive\<close>

definition do_members :: "(byte \<Rightarrow> bool) \<Rightarrow> ropts \<Rightarrow> host \<Rightarrow> member list \<Rightarrow> rstate \<Rightarrow> rstate" where
  "do_members hi opts h ms st = foldl (\<lambda>st (fh, ft, d). do_member hi opts h st fh d) st ms"

lemma do_members_simps [simp]:
  "do_members hi opts h [] st = st"
  "do_members hi opts h ((fh, ft, d) # ms) st = do_members hi opts h ms (do_member hi opts h st fh d)"
  by (simp_all add: do_members_def)

lemma do_members_tape: "do_members hi opts h ms (st\<lparr>rs_tape := tp\<rparr>) = (do_members hi opts h ms st)\<lparr>rs_tape := tp\<rparr>"
proof (induction ms arbitrary: st)
  case (Cons m ms)
  then show ?case by (cases m) (simp add: do_member_tape)
qed simp

lemma member_bytes_eq:
  assumes "member_ok (fh, ft, d)"
  shows "\<exists>hb. encode_header junk fh = Some hb \<and> member_bytes junk (fh, ft, d) = hb @ padded_data ft d"
proof -
  have m: "header_ok fh" "0 \<le> hdr_sum fh" "fh_isdir fh \<or> fh_linkflag fh \<noteq> 0 \<Longrightarrow> d = []"
    using assms by (auto simp: member_ok_def)
  obtain hb where "encode_header junk fh = Some hb" using encode_header_ok[OF m(1,2)] by blast
  then show ?thesis using m(3) by (auto simp: member_bytes_def entry_bytes_def padded_data_def)
qed

text \<open>Directories are the members whose link flag says so; there is no other use of that flag.\<close>

definition dirs_flagged :: "member \<Rightarrow> bool" where
  "dirs_flagged m = (case m of (fh, ft, d) \<Rightarrow> fh_linkflag fh = LF_DIR \<longrightarrow> fh_isdir fh)"

lemma rtar_loop_members:
  assumes "length pad0 = SZ_PADBUF + 10" "\<And>f. h_wfail h f = []"
  shows "tp_inv (rs_tape st) \<Longrightarrow> list_all member_ok ms \<Longrightarrow> list_all dirs_flagged ms
    \<Longrightarrow> tp_stream (rs_tape st) = concat (map (member_bytes junk) ms) @ replicate 1024 EOS @ stale
    \<Longrightarrow> \<exists>tp'. rtar_loop hi j pad0 opts h st old = Some (Done ((do_members hi opts h ms st)\<lparr>rs_tape := tp'\<rparr>))
      \<and> tp_inv tp' \<and> tp_stream tp' = replicate TBLOCK EOS @ stale"
proof (induction ms arbitrary: st old)
  case Nil
  have "tp_stream (rs_tape st) = replicate TBLOCK EOS @ replicate TBLOCK EOS @ stale"
    using Nil(4) by (simp add: TBLOCK_def flip: replicate_add append_assoc)
  from getheader_zero[OF Nil(1) this, of old] obtain tp' where
    "getheader (rs_tape st) old = Some (HeaderEof, tp')" "tp_inv tp'" "tp_stream tp' = replicate TBLOCK EOS @ stale" by blast
  then show ?case by (subst rtar_loop.simps) (simp, intro exI[of _ tp'], simp)
next
  case (Cons m ms)
  obtain fh ft d where m: "m = (fh, ft, d)" by (cases m)
  have mok: "member_ok (fh, ft, d)" "dirs_flagged (fh, ft, d)" using Cons.prems(2,3) m by simp_all
  then have h: "header_ok fh" "0 \<le> hdr_sum fh" by (auto simp: member_ok_def)
  obtain hb where hb: "encode_header junk fh = Some hb" "member_bytes junk m = hb @ padded_data ft d"
    using member_bytes_eq[OF mok(1), of junk] m by blast
  let ?rest = "concat (map (member_bytes junk) ms) @ replicate 1024 EOS @ stale"
  let ?fh = "fh\<lparr>fh_linkname := (if fh_linkflag fh = 0 then fh_linkname old else fh_linkname fh)\<rparr>"
  have dir: "(last (fh_name fh) = slash) = fh_isdir fh" using mok(1) by (simp add: member_ok_def)
  have "tp_stream (rs_tape st) = hb @ (padded_data ft d @ ?rest)" using Cons.prems(4) hb(2) by simp
  from getheader_header[OF Cons.prems(1) this hb(1) h, of old] obtain tp1 where
    1: "getheader (rs_tape st) old = Some (Header ?fh, tp1)" "tp_inv tp1" "tp_stream tp1 = padded_data ft d @ ?rest"
    unfolding dir by auto
  let ?st1 = "st\<lparr>rs_tape := tp1\<rparr>"
  have ok: "data_ok ?fh d" "fh_isdir ?fh \<or> fh_linkflag ?fh = 0 \<or> fh_linkflag ?fh = LF_SYMLINK"
    using mok h(1) member_size(2)[OF mok(1)]
    by (auto simp: data_ok_def member_ok_def header_ok_def dirs_flagged_def)
  obtain tp2 where
    2: "file_step hi j pad0 opts h ?st1 ?fh = Some (Done ((do_member hi opts h ?st1 ?fh d)\<lparr>rs_tape := tp2\<rparr>))"
    "tp_inv tp2" "tp_stream tp2 = ?rest"
    using file_step_member[of ?st1 ?fh d ft ?rest pad0 h hi j opts] 1(2,3) ok assms by auto
  have same: "do_member hi opts h st ?fh d = do_member hi opts h st fh d"
    using do_member_linkname[of fh hi opts h st "fh_linkname old" d] by simp
  let ?st2 = "(do_member hi opts h st fh d)\<lparr>rs_tape := tp2\<rparr>"
  have s2: "(do_member hi opts h ?st1 ?fh d)\<lparr>rs_tape := tp2\<rparr> = ?st2"
    unfolding do_member_tape same by simp
  have "tp_inv (rs_tape ?st2)" "tp_stream (rs_tape ?st2) = ?rest" "list_all member_ok ms" "list_all dirs_flagged ms"
    using 2 Cons.prems(2,3) by simp_all
  from Cons.IH[OF this(1,3,4,2), of ?fh] obtain tp' where
    3: "rtar_loop hi j pad0 opts h ?st2 ?fh = Some (Done ((do_members hi opts h ms ?st2)\<lparr>rs_tape := tp'\<rparr>))"
    "tp_inv tp'" "tp_stream tp' = replicate TBLOCK EOS @ stale" by blast
  have "rtar_loop hi j pad0 opts h st old = rtar_loop hi j pad0 opts h ?st2 ?fh"
    by (subst rtar_loop.simps) (simp add: 1(1) 2(1)[unfolded s2])
  then show ?case using 3 unfolding m do_members_simps do_members_tape by auto
qed

text \<open>The tape that the writer leaves, put before the reader.\<close>

definition fresh_tape :: "byte list list \<Rightarrow> byte list \<Rightarrow> tape" where
  "fresh_tape recs buf = \<lparr>tp_reads = recs, tp_buf = buf, tp_next = 0, tp_blocks = 0, tp_eof = False\<rparr>"

lemma fresh_tape_inv:
  assumes "length buf = SZ_TAPEBUFFER" "\<forall>w \<in> set recs. length w = SZ_TAPEBUFFER"
  shows "tp_inv (fresh_tape recs buf)" "tp_stream (fresh_tape recs buf) = concat recs"
proof -
  have "record_ok w" if "w \<in> set recs" for w
    using assms(2) that by (auto simp: record_ok_def SZ_TAPEBUFFER_def TBLOCK_def NBLOCK_def)
  then show "tp_inv (fresh_tape recs buf)" using assms(1) by (simp add: tp_inv_def fresh_tape_def list_all_iff)
qed (simp add: tp_stream_def fresh_tape_def)

lemma archive_read_back:
  assumes "wt_inv (ws_tape ws)" "wt_stream (ws_tape ws) = []" "\<not> ws_omitbinary ws" "length buf0 = 2 * TBLOCK" "list_all node_ok ns"
    "members_of ns path = Some ms" "list_all member_ok ms" "list_all dirs_flagged ms"
    "length tbuf = SZ_TAPEBUFFER" "length pad0 = SZ_PADBUF + 10" "\<And>f. h_wfail h f = []"
  shows "\<exists>ws1 wt. putnodes junk buf0 ns path ws = Some (Done ws1) \<and> endtar (ws_tape ws1) = Some wt
    \<and> (\<exists>tp. rtar_loop hi j pad0 opts h (st\<lparr>rs_tape := fresh_tape (wt_writes wt) tbuf\<rparr>) old
          = Some (Done ((do_members hi opts h ms st)\<lparr>rs_tape := tp\<rparr>)))"
proof -
  obtain ws1 where ws1: "putnodes junk buf0 ns path ws = Some (Done ws1)" "wt_inv (ws_tape ws1)"
    "wt_stream (ws_tape ws1) = concat (map (member_bytes junk) ms)"
    using putnode_members(2)[OF assms(1,3-7)] assms(2) by auto
  obtain wt stale where wt: "endtar (ws_tape ws1) = Some wt" "wt_inv wt"
    "concat (wt_writes wt) = concat (map (member_bytes junk) ms) @ replicate 1024 EOS @ stale"
    using endtar_stream[OF ws1(2)] unfolding ws1(3) by blast
  let ?tp = "fresh_tape (wt_writes wt) tbuf"
  have t: "tp_inv ?tp" "tp_stream ?tp = concat (map (member_bytes junk) ms) @ replicate 1024 EOS @ stale"
    using fresh_tape_inv[OF assms(9), of "wt_writes wt"] wt(2,3) by (auto simp: wt_inv_def)
  have "\<exists>tp. rtar_loop hi j pad0 opts h (st\<lparr>rs_tape := ?tp\<rparr>) old
      = Some (Done ((do_members hi opts h ms (st\<lparr>rs_tape := ?tp\<rparr>))\<lparr>rs_tape := tp\<rparr>))"
    using rtar_loop_members[OF assms(10,11), where st = "st\<lparr>rs_tape := ?tp\<rparr>"] t assms(7,8) by fastforce
  then show ?thesis using ws1(1) wt(1) unfolding do_members_tape by auto
qed


text \<open>The writes of an extraction when nothing stands in the way.\<close>

definition writes :: "action list \<Rightarrow> (byte list \<times> byte list) list" where
  "writes as = concat (map (\<lambda>a. case a of WriteFile f d \<Rightarrow> [(f, d)] | _ \<Rightarrow> []) as)"

lemma writes_simps [simp]: "writes [] = []" "writes (as @ bs) = writes as @ writes bs"
  "writes (WriteFile f d # as) = (f, d) # writes as" "writes (MkDir f m # as) = writes as"
  "writes (CreateFile f m t # as) = writes as" "writes (Delete f # as) = writes as" "writes (Symlink f l # as) = writes as"
  "writes (SetMode f m # as) = writes as" "writes (SetOwner f u g # as) = writes as" "writes (SetMtime f v # as) = writes as"
  "writes (Fcopy f l # as) = writes as"
  by (simp_all add: writes_def)

lemma make_dirs_writes:
  "(\<And>f. h_mkdir h f) \<Longrightarrow> \<exists>dirs' as. make_dirs h uid gid pre s dirs = (True, dirs', as) \<and> writes as = []"
proof (induction s arbitrary: pre dirs)
  case (Cons c s)
  obtain d1 a1 d2 a2 where "make_dirs h uid gid (pre @ [c]) s dirs = (True, d1, a1)" "writes a1 = []"
    "make_dirs h uid gid (pre @ [c]) s (dirs(pre := True)) = (True, d2, a2)" "writes a2 = []"
    using Cons(1)[OF Cons(2), of "pre @ [c]" dirs] Cons(1)[OF Cons(2), of "pre @ [c]" "dirs(pre := True)"] by blast
  then show ?case using Cons(2)[of pre] by (auto simp del: fun_upd_apply)
qed simp

lemma checkdir_writes:
  "(\<And>f. h_mkdir h f) \<Longrightarrow> \<exists>dirs' as. checkdir h s uid gid dirs = (True, dirs', as) \<and> writes as = []"
  using make_dirs_writes[of h uid gid "[]" s dirs] by (simp add: checkdir_def)

lemma newfile_writes:
  assumes "\<And>f. h_mkdir h f" "\<And>f. h_create h f"
  shows "\<exists>name dirs' as. newfile opts h fh ft dirs = (True, name, dirs', as) \<and> writes as = []"
proof -
  obtain dirs' as where "checkdir h (strip_prefix (ro_prefix opts) (fh_name fh)) (fh_uid fh) (fh_gid fh) dirs = (True, dirs', as)"
    "writes as = []"
    using checkdir_writes[OF assms(1)] by blast
  then show ?thesis using assms(2) by (simp add: newfile_def Let_def)
qed

text \<open>Extraction of everything, nothing stripped off names or data: switches \<^verbatim>\<open>-x -n\<close>.\<close>

definition plain_opts :: ropts where
  "plain_opts = \<lparr>ro_first = None, ro_files = [], ro_strip = False, ro_binaryout = False, ro_omitbinary = False,
     ro_extract = True, ro_replace = False, ro_exclude = 0, ro_links = False, ro_setmtime = True,
     ro_setuid = True, ro_prefix = []\<rparr>"

definition is_file :: "member \<Rightarrow> bool" where
  "is_file m = (case m of (fh, ft, d) \<Rightarrow> \<not> fh_isdir fh \<and> fh_linkflag fh = 0)"

text \<open>
  The members a run of the reader brings back: the plain files that the file arguments select
  (or, with \<^verbatim>\<open>-e\<close>, do not select), without the binary files when \<^verbatim>\<open>-o\<close> is given.
\<close>

definition selected :: "(byte \<Rightarrow> bool) \<Rightarrow> ropts \<Rightarrow> member \<Rightarrow> bool" where
  "selected hi opts m = (case m of (fh, ft, d) \<Rightarrow>
     is_file m \<and> matchfile (fh_name fh) (ro_files opts) \<noteq> ro_exclude opts
     \<and> \<not> (ro_omitbinary opts \<and> d \<noteq> [] \<and> member_type hi (ro_binaryout opts) fh d = BINARY_FILE))"

text \<open>
  The file a member becomes: its name without the prefix of \<^verbatim>\<open>-p\<close>, and its bytes, of which a
  text file loses the blank lines at its end unless \<^verbatim>\<open>-n\<close> is given.
\<close>

definition restored :: "(byte \<Rightarrow> bool) \<Rightarrow> ropts \<Rightarrow> member \<Rightarrow> byte list \<times> byte list" where
  "restored hi opts m = (case m of (fh, ft, d) \<Rightarrow>
     (strip_prefix (ro_prefix opts) (fh_name fh), kept_data (member_type hi (ro_binaryout opts) fh d) (ro_strip opts) d))"

lemma writes_attrs [simp]: "writes (restore_attrs opts fh name) = []"
  by (simp add: restore_attrs_def)

lemma link_step_writes [simp]: "writes (rs_acts (link_step opts h st fh)) = writes (rs_acts st)"
  by (simp add: link_step_def act_def Let_def)

lemma rs_advance_simps [simp]:
  "rs_advance (act as st) = rs_advance st" "rs_advance (link_step opts h st fh) = rs_advance st"
  "rs_advance (extract_member hi opts h st fh d) = rs_advance st"
  by (simp_all add: act_def link_step_def extract_member_def Let_def split: prod.splits)

lemma extract_member_writes:
  assumes "\<And>f. h_mkdir h f" "\<And>f. h_create h f"
  shows "writes (rs_acts (extract_member hi opts h st fh d)) = writes (rs_acts st)
    @ (if fh_isdir fh \<or> d \<noteq> [] \<and> member_type hi (ro_binaryout opts) fh d = BINARY_FILE \<and> ro_omitbinary opts then []
       else [restored hi opts (fh, ft, d)])"
proof -
  obtain name dirs' as where "newfile opts h fh (member_type hi (ro_binaryout opts) fh d) (rs_dirs st) = (True, name, dirs', as)"
    "writes as = []"
    using newfile_writes[OF assms] by blast
  then show ?thesis by (simp add: extract_member_def Let_def act_def restored_def)
qed

lemma do_member_writes:
  assumes "\<And>f. h_mkdir h f" "\<And>f. h_create h f" "\<not> rs_advance st" "member_ok (fh, ft, d)" "dirs_flagged (fh, ft, d)"
    "ro_extract opts"
  shows "writes (rs_acts (do_member hi opts h st fh d))
      = writes (rs_acts st) @ map (restored hi opts) (filter (selected hi opts) [(fh, ft, d)])
    \<and> \<not> rs_advance (do_member hi opts h st fh d)"
proof -
  have lf: "fh_linkflag fh \<in> {0, LF_SYMLINK, LF_DIR}" "fh_linkflag fh = LF_DIR \<Longrightarrow> fh_isdir fh"
    using assms(4,5) by (auto simp: member_ok_def header_ok_def dirs_flagged_def)
  have sd: "LF_SYMLINK \<noteq> LF_DIR" "LF_SYMLINK \<noteq> 0" "LF_DIR \<noteq> LF_LINK" "LF_LINK \<noteq> 0" "LF_SYMLINK \<noteq> LF_LINK" "LF_DIR \<noteq> 0"
    by (simp_all add: LF_SYMLINK_def LF_DIR_def LF_LINK_def)
  show ?thesis
  proof (cases "fh_linkflag fh = LF_SYMLINK \<or> matchfile (fh_name fh) (ro_files opts) = ro_exclude opts")
    case True
    then show ?thesis
      using assms(3) sd by (auto simp: do_member_def is_file_def selected_def Let_def)
  next
    case False
    then have "do_member hi opts h st fh d = extract_member hi opts h (st\<lparr>rs_advance := False\<rparr>) fh d"
      using assms(3,6) lf(1) sd by (auto simp: do_member_def Let_def)
    moreover have "is_file (fh, ft, d) \<longleftrightarrow> \<not> fh_isdir fh" using False lf by (auto simp: is_file_def)
    ultimately show ?thesis
      using False extract_member_writes[OF assms(1,2), of hi opts "st\<lparr>rs_advance := False\<rparr>" fh d ft]
      by (auto simp: selected_def)
  qed
qed

lemma do_members_writes:
  assumes "\<And>f. h_mkdir h f" "\<And>f. h_create h f" "ro_extract opts"
  shows "\<not> rs_advance st \<Longrightarrow> list_all member_ok ms \<Longrightarrow> list_all dirs_flagged ms \<Longrightarrow>
    writes (rs_acts (do_members hi opts h ms st))
      = writes (rs_acts st) @ map (restored hi opts) (filter (selected hi opts) ms)"
proof (induction ms arbitrary: st)
  case (Cons m ms)
  obtain fh ft d where m: "m = (fh, ft, d)" by (cases m)
  then have "member_ok (fh, ft, d)" "dirs_flagged (fh, ft, d)" using Cons.prems by simp_all
  from do_member_writes[OF assms(1,2) Cons.prems(1) this assms(3), of hi]
  show ?case using Cons m by auto
qed simp


section \<open>Properties\<close>

text \<open>
  C2. Reading back an archive: for a tree of readable files whose headers fit, \<^verbatim>\<open>putfiles\<close> and
  \<^verbatim>\<open>endtar\<close> succeed, and the main loop of the reader, run on the records that were written,
  ends at the end of the archive having done to each member of the tree in turn what the
  tape free reader does to it, for all switches of the reader, when no write fails.
\<close>

theorem archive_refines_members:
  assumes "wt_inv (ws_tape ws)" "wt_stream (ws_tape ws) = []" "\<not> ws_omitbinary ws" "length buf0 = 2 * TBLOCK" "list_all node_ok ns"
    "members_of ns path = Some ms" "list_all member_ok ms" "list_all dirs_flagged ms"
    "length tbuf = SZ_TAPEBUFFER" "length pad0 = SZ_PADBUF + 10" "\<And>f. h_wfail h f = []"
  shows "\<exists>ws1 wt. putnodes junk buf0 ns path ws = Some (Done ws1) \<and> endtar (ws_tape ws1) = Some wt
    \<and> (\<exists>tp. rtar_loop hi j pad0 opts h (st\<lparr>rs_tape := fresh_tape (wt_writes wt) tbuf\<rparr>) old
          = Some (Done ((do_members hi opts h ms st)\<lparr>rs_tape := tp\<rparr>)))"
  using assms by (rule archive_read_back)

text \<open>A directory with two files in it: one long line and many empty ones, and a short text with empty lines.\<close>

definition sample_dir_info :: finfo where
  "sample_dir_info = \<lparr>fi_ok = True, fi_size = 4096, fi_perm = 23, fi_type = FI_DIRECTORY, fi_mtime = 1700000000,
     fi_owner = (1000, 100), fi_lstat = (0, 0, 0, 0), fi_link = [], fi_reads = Some []\<rparr>"

definition sample_text_info :: finfo where
  "sample_text_info = sample_info\<lparr>fi_size := 100, fi_reads := Some [RdData (replicate 60 65 @ replicate 40 10)]\<rparr>"

definition sample_tree :: "node list" where
  "sample_tree = [Dir (bstr ''d'') sample_dir_info
     (Some [Leaf (bstr ''f'') sample_info TEXT_FILE, Leaf (bstr ''t'') sample_text_info TEXT_FILE])]"

definition sample_dir_header :: fheader where
  "sample_dir_header = \<lparr>fh_name = bstr ''d/'', fh_mode = 493, fh_uid = 1000, fh_gid = 100, fh_isdir = True,
     fh_size = 0, fh_mtime = 1700000000, fh_linkflag = LF_DIR, fh_linkname = []\<rparr>"

definition sample_text_header :: fheader where
  "sample_text_header = sample_made\<lparr>fh_name := bstr ''d/t'', fh_size := 100\<rparr>"

definition sample_members :: "member list" where
  "sample_members = [(sample_dir_header, DIRECTORY_FILE, []),
     (sample_made, TEXT_FILE, replicate 512 65 @ replicate 188 10),
     (sample_text_header, TEXT_FILE, replicate 60 65 @ replicate 40 10)]"

lemma sample_dir_made: "make_header (bstr ''d'') sample_dir_info DIRECTORY_FILE [] = Some sample_dir_header"
  by (simp add: make_header_def sample_dir_info_def sample_dir_header_def bstr_def NAMSIZ_def TEXT_FILE_def DIRECTORY_FILE_def
      LF_SYMLINK_def u_fmode_def FI_DIRECTORY_def FI_EXECUTABLE_def Let_def dname_def SZ_PATHBUF_def)

lemma sample_text_made: "make_header (bstr ''t'') sample_text_info TEXT_FILE (bstr ''d/'') = Some sample_text_header"
  by (simp add: make_header_def sample_info_def sample_text_info_def sample_text_header_def sample_made_def bstr_def NAMSIZ_def
      TEXT_FILE_def DIRECTORY_FILE_def LF_SYMLINK_def u_fmode_def FI_DIRECTORY_def FI_EXECUTABLE_def Let_def)

lemma sample_tree_members: "members_of sample_tree [] = Some sample_members"
proof -
  have "dname [] = Some []" "dname ([] @ bstr ''d'') = Some (bstr ''d/'')" "length ([] @ bstr ''d'') < SZ_PATHBUF"
    by (simp_all add: dname_def SZ_PATHBUF_def bstr_def)
  moreover have "file_data sample_made sample_info = replicate 512 65 @ replicate 188 10"
    by (simp add: file_data_def has_data_def sample_made_def sample_info_def rd_bytes_def word_sless_alt)
  moreover have "file_data sample_dir_header sample_dir_info = []"
    by (simp add: file_data_def has_data_def sample_dir_header_def)
  moreover have "file_data sample_text_header sample_text_info = replicate 60 65 @ replicate 40 10"
    by (simp add: file_data_def has_data_def sample_made_def sample_text_header_def sample_text_info_def rd_bytes_def word_sless_alt)
  ultimately show ?thesis
    by (simp add: sample_tree_def sample_members_def sample_made sample_dir_made sample_text_made)
qed

lemma sample_members_ok: "list_all member_ok sample_members" "list_all dirs_flagged sample_members" "list_all node_ok sample_tree"
proof -
  have "0 \<le> hdr_sum sample_dir_header"
    by (rule hdr_sum_ascii) (simp_all add: sample_dir_header_def bstr_def is_ascii_def cval_def)
  then have "member_ok (sample_dir_header, DIRECTORY_FILE, [])"
    by (simp add: member_ok_def header_ok_def sample_dir_header_def bstr_def NAMSIZ_def LF_DIR_def)
  moreover have "member_ok (sample_made, TEXT_FILE, replicate 512 65 @ replicate 188 10)"
    using sample_made_ok by (simp add: member_ok_def) (simp add: sample_made_def bstr_def)
  moreover have "0 \<le> hdr_sum sample_text_header"
    by (rule hdr_sum_ascii) (simp_all add: sample_text_header_def sample_made_def bstr_def is_ascii_def cval_def)
  then have "member_ok (sample_text_header, TEXT_FILE, replicate 60 65 @ replicate 40 10)"
    by (simp add: member_ok_def header_ok_def sample_text_header_def sample_made_def bstr_def NAMSIZ_def)
  ultimately show "list_all member_ok sample_members" by (simp add: sample_members_def)
  show "list_all dirs_flagged sample_members"
    by (simp add: sample_members_def dirs_flagged_def sample_dir_header_def sample_text_header_def sample_made_def LF_DIR_def)
  show "list_all node_ok sample_tree"
    by (simp add: sample_tree_def info_ok_def sample_dir_info_def sample_text_info_def sample_info_def rd_ok_def TBLOCK_def)
qed

definition sample_wstate :: wstate where
  "sample_wstate = \<lparr>ws_tape = empty_tape, ws_nerrs = 0, ws_omitbinary = False\<rparr>"

definition sample_rstate :: rstate where
  "sample_rstate = \<lparr>rs_tape = fresh_tape [] [], rs_advance = False, rs_nerrs = 0, rs_dirs = (\<lambda>_. False), rs_acts = []\<rparr>"

theorem archive_refines_members_witness:
  "\<exists>ws1 wt. putnodes 7 (replicate 1024 0) sample_tree [] sample_wstate = Some (Done ws1) \<and> endtar (ws_tape ws1) = Some wt
    \<and> (\<exists>tp. rtar_loop (\<lambda>_. False) 0 (replicate 8206 0) plain_opts open_host
          (sample_rstate\<lparr>rs_tape := fresh_tape (wt_writes wt) (replicate 10240 0)\<rparr>) sample_header
          = Some (Done ((do_members (\<lambda>_. False) plain_opts open_host sample_members sample_rstate)\<lparr>rs_tape := tp\<rparr>)))"
  by (rule archive_refines_members[OF _ _ _ _ sample_members_ok(3) sample_tree_members sample_members_ok(1,2)])
     (simp_all add: sample_wstate_def empty_tape_inv open_host_def TBLOCK_def SZ_TAPEBUFFER_def NBLOCK_def SZ_PADBUF_def)

text \<open>
  C1. Extracting with \<^verbatim>\<open>-x\<close> and any other switches but \<^verbatim>\<open>-a\<close> (which skips to a file) an archive that
  \<^verbatim>\<open>wtar\<close> made of a tree of readable files whose headers fit, into a file system that lets every file
  be created and written, writes exactly the plain files of the tree that are selected, in the order
  of the walk. Each gets its name, less the prefix of \<^verbatim>\<open>-p\<close>, and its
  bytes, of which a text file loses the blank lines at its end, \<^verbatim>\<open>stripblanks\<close> being the
  default. With \<^verbatim>\<open>-n\<close>, which turns that off, each file has the bytes it had.
\<close>

theorem archive_restores_files:
  assumes "wt_inv (ws_tape ws)" "wt_stream (ws_tape ws) = []" "\<not> ws_omitbinary ws" "length buf0 = 2 * TBLOCK" "list_all node_ok ns"
    "members_of ns path = Some ms" "list_all member_ok ms" "list_all dirs_flagged ms"
    "length tbuf = SZ_TAPEBUFFER" "length pad0 = SZ_PADBUF + 10"
    "\<And>f. h_wfail h f = [] \<and> h_mkdir h f \<and> h_create h f" "rs_acts st = []" "\<not> rs_advance st" "ro_extract opts"
  shows "\<exists>ws1 wt st'. putnodes junk buf0 ns path ws = Some (Done ws1) \<and> endtar (ws_tape ws1) = Some wt
    \<and> rtar_loop hi j pad0 opts h (st\<lparr>rs_tape := fresh_tape (wt_writes wt) tbuf\<rparr>) old = Some (Done st')
    \<and> writes (rs_acts st') = map (restored hi opts) (filter (selected hi opts) ms)
    \<and> (\<not> ro_strip opts \<longrightarrow> map snd (writes (rs_acts st')) = map (\<lambda>(fh, ft, d). d) (filter (selected hi opts) ms))"
proof -
  have h: "h_wfail h f = []" "h_mkdir h f" "h_create h f" for f using assms(11) by blast+
  have w: "writes (rs_acts (do_members hi opts h ms st)) = map (restored hi opts) (filter (selected hi opts) ms)"
    using do_members_writes[OF h(2,3) assms(14,13,7,8), of hi] assms(12) by simp
  have "map snd (map (restored hi opts) xs) = map (\<lambda>(fh, ft, d). d) xs" if "\<not> ro_strip opts" for xs
    using that by (auto simp: restored_def kept_data_def)
  then show ?thesis
    using archive_read_back[OF assms(1-10) h(1), of junk hi j opts st old] w by fastforce
qed

text \<open>
  The tree above with the default switches of \<^verbatim>\<open>-x\<close>: of the 40 newlines at the end of the text
  file one is left; the other file begins with a line too long for a text file and is kept whole.
\<close>

lemma sample_strip: "strip_tail (replicate 60 65 @ replicate 40 newline) = replicate 60 (65::byte) @ [newline]"
proof -
  have "tl (replicate 60 (65::byte) @ replicate 40 newline) = replicate 59 65 @ replicate 40 newline" by simp
  moreover have "takeWhile is_pad (replicate 59 (65::byte)) = []" by (simp add: is_pad_def newline_def blank_def)
  ultimately have r: "pad_run (replicate 60 (65::byte) @ replicate 40 newline) = replicate 40 newline"
    by (simp add: pad_run_def takeWhile_append is_pad_def)
  have t: "takeWhile (\<lambda>c. c \<noteq> newline) (replicate 40 newline) = []" by simp
  show ?thesis unfolding strip_tail_def r Let_def t by simp
qed

lemma sample_types:
  "data_type (\<lambda>_. False) (replicate 60 65 @ replicate 40 10) = TEXT_FILE"
  "data_type (\<lambda>_. False) (replicate 512 65 @ replicate 188 10) = BINARY_FILE"
  by (simp_all add: data_type_def takeWhile_append texty_def cval_def TBLOCK_def MAXLINELEN_def newline_def)

lemma sample_restored:
  "map (restored (\<lambda>_. False) (plain_opts\<lparr>ro_strip := True\<rparr>)) (filter (selected (\<lambda>_. False) (plain_opts\<lparr>ro_strip := True\<rparr>)) sample_members)
    = [(bstr ''d/f'', replicate 512 65 @ replicate 188 10), (bstr ''d/t'', replicate 60 65 @ [newline])]"
proof -
  let ?t = "replicate 60 65 @ replicate 40 10 :: byte list" and ?f = "replicate 512 65 @ replicate 188 10 :: byte list"
  have "member_type (\<lambda>_. False) False sample_text_header ?t = TEXT_FILE" "member_type (\<lambda>_. False) False sample_made ?f = BINARY_FILE"
    using sample_types by (simp_all add: member_type_def sample_made_def sample_text_header_def)
  moreover have "stripped ?t = replicate 60 65 @ [newline]"
    using sample_strip by (simp add: stripped_def nblk_def SZ_PADBUF_def newline_def)
  moreover have "fh_name sample_text_header = bstr ''d/t''" "fh_linkflag sample_text_header = 0" "\<not> fh_isdir sample_text_header"
    "fh_name sample_made = bstr ''d/f''" "fh_linkflag sample_made = 0" "\<not> fh_isdir sample_made"
    by (simp_all add: sample_text_header_def sample_made_def)
  ultimately show ?thesis
    by (simp add: sample_members_def selected_def restored_def is_file_def sample_dir_header_def plain_opts_def
        kept_data_def matchfile_def strip_prefix_def TEXT_FILE_def BINARY_FILE_def)
qed

theorem archive_restores_files_witness:
  "\<exists>ws1 wt st'. putnodes 7 (replicate 1024 0) sample_tree [] sample_wstate = Some (Done ws1) \<and> endtar (ws_tape ws1) = Some wt
    \<and> rtar_loop (\<lambda>_. False) 0 (replicate 8206 0) (plain_opts\<lparr>ro_strip := True\<rparr>) open_host
        (sample_rstate\<lparr>rs_tape := fresh_tape (wt_writes wt) (replicate 10240 0)\<rparr>) sample_header = Some (Done st')
    \<and> writes (rs_acts st') = [(bstr ''d/f'', replicate 512 65 @ replicate 188 10), (bstr ''d/t'', replicate 60 65 @ [newline])]"
proof -
  have "\<exists>ws1 wt st'. putnodes 7 (replicate 1024 0) sample_tree [] sample_wstate = Some (Done ws1) \<and> endtar (ws_tape ws1) = Some wt
    \<and> rtar_loop (\<lambda>_. False) 0 (replicate 8206 0) (plain_opts\<lparr>ro_strip := True\<rparr>) open_host
        (sample_rstate\<lparr>rs_tape := fresh_tape (wt_writes wt) (replicate 10240 0)\<rparr>) sample_header = Some (Done st')
    \<and> writes (rs_acts st') = map (restored (\<lambda>_. False) (plain_opts\<lparr>ro_strip := True\<rparr>))
        (filter (selected (\<lambda>_. False) (plain_opts\<lparr>ro_strip := True\<rparr>)) sample_members)
    \<and> (\<not> ro_strip (plain_opts\<lparr>ro_strip := True\<rparr>) \<longrightarrow> map snd (writes (rs_acts st'))
        = map (\<lambda>(fh, ft, d). d) (filter (selected (\<lambda>_. False) (plain_opts\<lparr>ro_strip := True\<rparr>)) sample_members))"
    by (rule archive_restores_files[OF _ _ _ _ sample_members_ok(3) sample_tree_members sample_members_ok(1,2)])
       (simp_all add: sample_wstate_def empty_tape_inv open_host_def sample_rstate_def plain_opts_def
          TBLOCK_def SZ_TAPEBUFFER_def NBLOCK_def SZ_PADBUF_def)
  then show ?thesis unfolding sample_restored by blast
qed

end
