(* ===== verification/Mlb.thy ===== *)
theory Mlb
  imports LibcStr
begin

text \<open>
  The module list of a library in \<^verbatim>\<open>mkpkg\<close>, \<^verbatim>\<open>unix/boot/mkpkg/scanlib.c\<close>: an open hash table of
  names in a string buffer, with the date of each module.
\<close>

definition SZ_SBUF :: nat where "SZ_SBUF = 10240"
definition MAX_LIBFILES :: nat where "MAX_LIBFILES = 8192"

record mlb =
  ml_sbuf :: "byte list"
  ml_op :: nat
  ml_index :: "nat \<Rightarrow> nat"
  ml_fdate :: "nat \<Rightarrow> xint"
  ml_modified :: bool

text \<open>
  The hash of a name in a 32 bit integer, and the first slot. The remainder of a negative
  hash is not positive: the slot before the table is no slot.
\<close>

definition ml_hash :: "byte list \<Rightarrow> cint" where
  "ml_hash s = foldl (\<lambda>h c. h + (h + word_of_int (cval c))) 0 s"

definition ml_start :: "byte list \<Rightarrow> nat option" where
  "ml_start s =
     (let v = sint (ml_hash s)
      in if 0 \<le> v then Some (nat (v mod int MAX_LIBFILES))
         else if (- v) mod int MAX_LIBFILES = 0 then Some 0 else None)"

definition ml_name :: "mlb \<Rightarrow> nat \<Rightarrow> byte list" where
  "ml_name t i = cstr (drop (ml_index t i) (ml_sbuf t))"

text \<open>\<open>*ip == *modname && strncmp (modname, ip, keylen) == 0\<close>\<close>

definition ml_match :: "mlb \<Rightarrow> byte list \<Rightarrow> nat \<Rightarrow> bool" where
  "ml_match t m i \<longleftrightarrow> take (length m) (ml_name t i) = m"

datatype probed = Found nat | Free nat | Full

text \<open>The loop over the slots, from \<open>i\<close> on and back to \<open>start\<close>.\<close>

partial_function (option) ml_probe :: "mlb \<Rightarrow> byte list \<Rightarrow> nat \<Rightarrow> nat \<Rightarrow> probed option" where
  "ml_probe t m start i =
     (if ml_index t i = 0 then Some (Free i)
      else if ml_match t m i then Some (Found i)
      else
        let j = (if MAX_LIBFILES \<le> Suc i then 0 else Suc i)
        in if j = start then Some Full else ml_probe t m start j)"

definition mlb_setdate :: "byte list \<Rightarrow> xint \<Rightarrow> mlb \<Rightarrow> (bool \<times> mlb) option" where
  "mlb_setdate m fdate t =
     (if m = [] \<or> sint fdate \<le> 0 then Some (False, t)
      else do {
        start \<leftarrow> ml_start m;
        let t1 = t\<lparr>ml_modified := True\<rparr>;
        r \<leftarrow> ml_probe t1 m start start;
        (case r of
           Found i \<Rightarrow> Some (True, t1\<lparr>ml_fdate := (ml_fdate t1)(i := fdate)\<rparr>)
         | Full \<Rightarrow> Some (False, t1)
         | Free i \<Rightarrow>
             if SZ_SBUF \<le> ml_op t1 + length m + 1 then Some (False, t1)
             else Some (True, t1\<lparr>ml_index := (ml_index t1)(i := ml_op t1), ml_fdate := (ml_fdate t1)(i := fdate),
               ml_sbuf := take (ml_op t1) (ml_sbuf t1) @ m @ EOS # drop (ml_op t1 + length m + 1) (ml_sbuf t1),
               ml_op := ml_op t1 + length m + 1\<rparr>)) })"

definition mlb_getdate :: "byte list \<Rightarrow> mlb \<Rightarrow> xint option" where
  "mlb_getdate m t =
     (if m = [] then Some 0
      else do {
        start \<leftarrow> ml_start m;
        r \<leftarrow> ml_probe t m start start;
        Some (case r of Found i \<Rightarrow> ml_fdate t i | _ \<Rightarrow> 0) })"

definition mlb_clear :: "mlb \<Rightarrow> mlb" where
  "mlb_clear t = t\<lparr>ml_modified := False, ml_op := 1,
     ml_index := (\<lambda>i. if i < MAX_LIBFILES then 0 else ml_index t i)\<rparr>"

section \<open>The loop as a search\<close>

definition ml_slot :: "nat \<Rightarrow> nat \<Rightarrow> nat" where
  "ml_slot s d = (s + d) mod MAX_LIBFILES"

lemma MAX_pos [simp]: "0 < MAX_LIBFILES"
  by (simp add: MAX_LIBFILES_def)

lemma ml_slot_less [simp]: "ml_slot s d < MAX_LIBFILES"
  by (simp add: ml_slot_def)

lemma ml_slot_0: "s < MAX_LIBFILES \<Longrightarrow> ml_slot s 0 = s"
  by (simp add: ml_slot_def)

lemma ml_slot_Suc: "(if MAX_LIBFILES \<le> Suc (ml_slot s d) then 0 else Suc (ml_slot s d)) = ml_slot s (Suc d)"
proof -
  have "(s + d) mod MAX_LIBFILES < MAX_LIBFILES" by simp
  then have "MAX_LIBFILES \<le> Suc ((s + d) mod MAX_LIBFILES) \<longleftrightarrow> Suc ((s + d) mod MAX_LIBFILES) = MAX_LIBFILES" by linarith
  then show ?thesis unfolding ml_slot_def add_Suc_right mod_Suc by (simp only:)
qed

lemma ml_slot_inj:
  assumes "d < MAX_LIBFILES" "e < MAX_LIBFILES" "ml_slot s d = ml_slot s e"
  shows "d = e"
proof -
  have "int (s + d) mod int MAX_LIBFILES = int (s + e) mod int MAX_LIBFILES"
    using assms(3) unfolding ml_slot_def by (metis zmod_int)
  then have dv: "int MAX_LIBFILES dvd int d - int e" by (simp add: mod_eq_dvd_iff)
  have "\<bar>int d - int e\<bar> < int MAX_LIBFILES" using assms(1,2) by linarith
  then show ?thesis using dv dvd_imp_le_int[of "int d - int e" "int MAX_LIBFILES"] by fastforce
qed

lemma ml_slot_surj:
  assumes "s < MAX_LIBFILES" "i < MAX_LIBFILES"
  obtains d where "d < MAX_LIBFILES" "ml_slot s d = i"
proof (cases "s \<le> i")
  case True
  then have "i - s < MAX_LIBFILES" "ml_slot s (i - s) = i" using assms by (simp_all add: ml_slot_def)
  then show ?thesis using that by blast
next
  case False
  then have "s + (MAX_LIBFILES + i - s) = i + MAX_LIBFILES" "MAX_LIBFILES + i - s < MAX_LIBFILES" using assms by linarith+
  then have "ml_slot s (MAX_LIBFILES + i - s) = i" using assms(2) unfolding ml_slot_def by simp
  then show ?thesis using that \<open>MAX_LIBFILES + i - s < MAX_LIBFILES\<close> by blast
qed

lemma ml_slot_wraps: "s < MAX_LIBFILES \<Longrightarrow> d < MAX_LIBFILES \<Longrightarrow> ml_slot s (Suc d) = s \<longleftrightarrow> Suc d = MAX_LIBFILES"
proof
  assume a: "s < MAX_LIBFILES" "d < MAX_LIBFILES" "ml_slot s (Suc d) = s"
  show "Suc d = MAX_LIBFILES"
  proof (rule ccontr)
    assume "Suc d \<noteq> MAX_LIBFILES"
    then have "Suc d < MAX_LIBFILES" using a(2) by simp
    from ml_slot_inj[OF this MAX_pos, of s] a(1,3) show False by (simp add: ml_slot_0)
  qed
qed (simp add: ml_slot_def)

text \<open>The first offset whose slot is free or matches decides.\<close>

definition ml_search :: "mlb \<Rightarrow> byte list \<Rightarrow> nat \<Rightarrow> nat \<Rightarrow> probed" where
  "ml_search t m s d =
     (case List.find (\<lambda>e. ml_index t (ml_slot s e) = 0 \<or> ml_match t m (ml_slot s e)) [d..<MAX_LIBFILES] of
        None \<Rightarrow> Full
      | Some e \<Rightarrow> if ml_index t (ml_slot s e) = 0 then Free (ml_slot s e) else Found (ml_slot s e))"

lemma ml_search_Full:
  assumes "ml_search t m s 0 = Full" "e < MAX_LIBFILES"
  shows "ml_index t (ml_slot s e) \<noteq> 0"
proof -
  have "List.find (\<lambda>e. ml_index t (ml_slot s e) = 0 \<or> ml_match t m (ml_slot s e)) [0..<MAX_LIBFILES] = None"
  proof (rule ccontr)
    assume "List.find (\<lambda>e. ml_index t (ml_slot s e) = 0 \<or> ml_match t m (ml_slot s e)) [0..<MAX_LIBFILES] \<noteq> None"
    then obtain d where "List.find (\<lambda>e. ml_index t (ml_slot s e) = 0 \<or> ml_match t m (ml_slot s e)) [0..<MAX_LIBFILES] = Some d"
      by (meson not_None_eq)
    then have "ml_search t m s 0 = (if ml_index t (ml_slot s d) = 0 then Free (ml_slot s d) else Found (ml_slot s d))"
      unfolding ml_search_def by (simp only: option.case)
    then show False using assms(1) by (metis probed.distinct(3,5))
  qed
  note f = iffD1[OF find_None_iff this]
  have "e \<in> set [0..<MAX_LIBFILES]" using assms(2) unfolding set_upt by (simp only: atLeastLessThan_iff le0 simp_thms)
  then show ?thesis using f by (metis (lifting))
qed

lemma ml_probe_search:
  assumes "s < MAX_LIBFILES"
  shows "d < MAX_LIBFILES \<Longrightarrow> ml_probe t m s (ml_slot s d) = Some (ml_search t m s d)"
proof (induction "MAX_LIBFILES - d" arbitrary: d)
  case (Suc k)
  have u: "[d..<MAX_LIBFILES] = d # [Suc d..<MAX_LIBFILES]" using Suc(3) by (rule upt_conv_Cons)
  show ?case
  proof (cases "ml_index t (ml_slot s d) = 0 \<or> ml_match t m (ml_slot s d)")
    case True
    then show ?thesis by (subst ml_probe.simps) (auto simp: ml_search_def u)
  next
    case False
    then have sr: "ml_search t m s d = ml_search t m s (Suc d)" by (simp add: ml_search_def u)
    show ?thesis
    proof (cases "Suc d = MAX_LIBFILES")
      case True
      then have "ml_search t m s (Suc d) = Full" by (simp add: ml_search_def)
      moreover have "ml_slot s (Suc d) = s" using ml_slot_wraps[OF assms Suc(3)] True by simp
      ultimately show ?thesis using False sr
        by (subst ml_probe.simps) (simp only: ml_slot_Suc Let_def if_False if_True de_Morgan_disj simp_thms)
    next
      case n: False
      then have "Suc d < MAX_LIBFILES" "k = MAX_LIBFILES - Suc d" using Suc(2,3) by simp_all
      with Suc(1) have "ml_probe t m s (ml_slot s (Suc d)) = Some (ml_search t m s (Suc d))" by blast
      moreover have "ml_slot s (Suc d) \<noteq> s" using ml_slot_wraps[OF assms Suc(3)] n by simp
      ultimately show ?thesis using False sr
        by (subst ml_probe.simps) (simp only: ml_slot_Suc Let_def if_False if_True de_Morgan_disj simp_thms)
    qed
  qed
qed simp

section \<open>The table as a map\<close>

text \<open>No name is a proper prefix of another.\<close>

definition prefix_free :: "byte list set \<Rightarrow> bool" where
  "prefix_free N \<longleftrightarrow> (\<forall>a \<in> N. \<forall>b \<in> N. (\<exists>r. b = a @ r) \<longrightarrow> a = b)"

definition names_ok :: "byte list set \<Rightarrow> bool" where
  "names_ok N \<longleftrightarrow> prefix_free N \<and> (\<forall>n \<in> N. n \<noteq> [] \<and> EOS \<notin> set n \<and> ml_start n \<noteq> None)"

definition used :: "mlb \<Rightarrow> nat \<Rightarrow> bool" where
  "used t i \<longleftrightarrow> i < MAX_LIBFILES \<and> ml_index t i \<noteq> 0"

definition tab_ok :: "mlb \<Rightarrow> (byte list \<Rightarrow> xint option) \<Rightarrow> bool" where
  "tab_ok t M \<longleftrightarrow> length (ml_sbuf t) = SZ_SBUF \<and> 0 < ml_op t \<and> ml_op t \<le> SZ_SBUF
     \<and> (\<forall>i. used t i \<longrightarrow> ml_index t i + length (ml_name t i) < ml_op t \<and> M (ml_name t i) = Some (ml_fdate t i))
     \<and> (\<forall>i j. used t i \<and> used t j \<and> ml_name t i = ml_name t j \<longrightarrow> i = j)
     \<and> (\<forall>n \<in> dom M. \<exists>s d. ml_start n = Some s \<and> d < MAX_LIBFILES \<and> used t (ml_slot s d) \<and> ml_name t (ml_slot s d) = n
          \<and> (\<forall>e < d. used t (ml_slot s e)))
     \<and> names_ok (dom M)"

lemma tab_dom:
  assumes "tab_ok t M" "M n \<noteq> None" "ml_start n = Some s"
  obtains d where "d < MAX_LIBFILES" "used t (ml_slot s d)" "ml_name t (ml_slot s d) = n" "\<forall>e < d. used t (ml_slot s e)"
proof -
  have "n \<in> dom M" using assms(2) by blast
  moreover have "\<forall>n \<in> dom M. \<exists>s d. ml_start n = Some s \<and> d < MAX_LIBFILES \<and> used t (ml_slot s d) \<and> ml_name t (ml_slot s d) = n
          \<and> (\<forall>e < d. used t (ml_slot s e))"
    using assms(1) unfolding tab_ok_def by (elim conjE)
  ultimately obtain s' d where "ml_start n = Some s'" "d < MAX_LIBFILES" "used t (ml_slot s' d)" "ml_name t (ml_slot s' d) = n"
    "\<forall>e < d. used t (ml_slot s' e)" by blast
  then show thesis using that[of d] assms(3) by simp
qed

lemma tab_used:
  assumes "tab_ok t M"
  shows "used t i \<Longrightarrow> M (ml_name t i) = Some (ml_fdate t i)" "used t i \<Longrightarrow> ml_index t i + length (ml_name t i) < ml_op t"
    "used t i \<Longrightarrow> used t j \<Longrightarrow> ml_name t i = ml_name t j \<Longrightarrow> i = j"
    "length (ml_sbuf t) = SZ_SBUF" "0 < ml_op t" "ml_op t \<le> SZ_SBUF" "names_ok (dom M)"
  using assms unfolding tab_ok_def by blast+

lemma ml_start_less: "ml_start m = Some s \<Longrightarrow> s < MAX_LIBFILES"
  by (auto simp: ml_start_def Let_def nat_less_iff split: if_splits)

lemma prefix_take: "take (length m) n = m \<Longrightarrow> \<exists>r. n = m @ r"
  by (metis append_take_drop_id)

lemma tab_match:
  assumes "tab_ok t M" "names_ok (insert m (dom M))" "used t i"
  shows "ml_match t m i \<longleftrightarrow> ml_name t i = m"
proof
  assume "ml_match t m i"
  then obtain r where "ml_name t i = m @ r" using prefix_take by (auto simp: ml_match_def)
  moreover have "ml_name t i \<in> dom M" using tab_used(1)[OF assms(1,3)] by blast
  ultimately show "ml_name t i = m" using assms(2) unfolding names_ok_def prefix_free_def by (metis insert_iff)
qed (simp add: ml_match_def)

text \<open>The outcome of the search: the slot of the name, or no slot with that name.\<close>

lemma ml_search_tab:
  assumes "tab_ok t M" "names_ok (insert m (dom M))" "ml_start m = Some s"
  shows "case ml_search t m s 0 of
      Found i \<Rightarrow> used t i \<and> ml_name t i = m \<and> M m = Some (ml_fdate t i)
    | Free i \<Rightarrow> M m = None \<and> (\<exists>d < MAX_LIBFILES. i = ml_slot s d \<and> ml_index t i = 0 \<and> (\<forall>e < d. used t (ml_slot s e)))
    | Full \<Rightarrow> M m = None"
proof -
  let ?P = "\<lambda>e. ml_index t (ml_slot s e) = 0 \<or> ml_match t m (ml_slot s e)"
  have no: "M m = None" if "\<forall>e < d. used t (ml_slot s e) \<and> \<not> ml_match t m (ml_slot s e)"
    "d = MAX_LIBFILES \<or> ml_index t (ml_slot s d) = 0" for d
  proof (rule ccontr)
    assume "M m \<noteq> None"
    then obtain d' where d': "d' < MAX_LIBFILES" "used t (ml_slot s d')" "ml_name t (ml_slot s d') = m" "\<forall>e < d'. used t (ml_slot s e)"
      using tab_dom[OF assms(1) _ assms(3)] by blast
    have "ml_match t m (ml_slot s d')" using d'(3) by (simp add: ml_match_def)
    then have "\<not> d' < d" using that(1) by blast
    then have "d < d' \<or> d = d'" by linarith
    then show False using d' that(2) by (auto simp: used_def)
  qed
  show ?thesis
  proof (cases "List.find ?P [0..<MAX_LIBFILES]")
    case None
    then have "\<forall>e < MAX_LIBFILES. \<not> ?P e" by (auto simp: find_None_iff)
    then have "M m = None" by (intro no[of MAX_LIBFILES]) (auto simp: used_def)
    then show ?thesis using None by (simp add: ml_search_def)
  next
    case (Some d)
    then obtain k where k: "k < length [0..<MAX_LIBFILES]" "?P ([0..<MAX_LIBFILES] ! k)" "d = [0..<MAX_LIBFILES] ! k"
      "\<forall>e < k. \<not> ?P ([0..<MAX_LIBFILES] ! e)"
      unfolding find_Some_iff by blast
    have kn: "k < MAX_LIBFILES" "d = k" using k(1,3) by simp_all
    have "\<not> ?P e" if "e < k" for e using k(4) that kn(1) by (metis add_0 less_trans nth_upt)
    then have d: "d < MAX_LIBFILES" "?P d" "\<forall>e < d. \<not> ?P e" using kn k(2,3) by simp_all
    show ?thesis
    proof (cases "ml_index t (ml_slot s d) = 0")
      case True
      then have "M m = None" using d(1,3) by (intro no[of d]) (auto simp: used_def)
      then show ?thesis using Some True d by (auto simp: ml_search_def used_def)
    next
      case False
      then have u: "used t (ml_slot s d)" by (simp add: used_def)
      then have "ml_name t (ml_slot s d) = m" using d(2) False tab_match[OF assms(1,2) u] by simp
      moreover have "M (ml_name t (ml_slot s d)) = Some (ml_fdate t (ml_slot s d))" using tab_used(1)[OF assms(1) u] .
      ultimately show ?thesis using Some False u by (simp add: ml_search_def)
    qed
  qed
qed

lemma mlb_getdate_tab:
  assumes "tab_ok t M" "names_ok (insert m (dom M))"
  shows "mlb_getdate m t = Some (case M m of None \<Rightarrow> 0 | Some d \<Rightarrow> d)"
proof -
  obtain s where s: "ml_start m = Some s" "m \<noteq> []" using assms(2) by (auto simp: names_ok_def)
  have "ml_probe t m s s = Some (ml_search t m s 0)"
    using ml_probe_search[OF ml_start_less[OF s(1)] MAX_pos, of t m] ml_slot_0[OF ml_start_less[OF s(1)]] by simp
  then show ?thesis
    using ml_search_tab[OF assms s(1)] s by (auto simp: mlb_getdate_def split: probed.splits)
qed


text \<open>Entering a name: strings before the free end of the buffer are untouched.\<close>

lemma cstr_cong:
  "length (cstr xs) < k \<Longrightarrow> take k xs = take k ys \<Longrightarrow> k \<le> length xs \<Longrightarrow> cstr ys = cstr xs"
proof (induction xs arbitrary: ys k)
  case (Cons x xs)
  obtain k' where k: "k = Suc k'" using Cons.prems(1) by (cases k) auto
  then obtain ys' where ys: "ys = x # ys'" "take k' xs = take k' ys'" using Cons.prems(2) by (cases ys) auto
  show ?case
  proof (cases "x = EOS")
    case True
    then show ?thesis using ys(1) by (simp add: cstr_def)
  next
    case False
    then have c: "cstr (x # zs) = x # cstr zs" for zs by (simp add: cstr_def)
    have "length (cstr xs) < k'" "k' \<le> length xs" using Cons.prems(1,3) k c[of xs] by simp_all
    with Cons.IH[OF _ ys(2)] show ?thesis unfolding ys(1) c by simp
  qed
qed simp

definition entered :: "mlb \<Rightarrow> nat \<Rightarrow> byte list \<Rightarrow> xint \<Rightarrow> mlb" where
  "entered t i m fdate = t\<lparr>ml_index := (ml_index t)(i := ml_op t), ml_fdate := (ml_fdate t)(i := fdate),
     ml_sbuf := take (ml_op t) (ml_sbuf t) @ m @ EOS # drop (ml_op t + length m + 1) (ml_sbuf t),
     ml_op := ml_op t + length m + 1\<rparr>"

lemma entered_names:
  assumes "tab_ok t M" "EOS \<notin> set m" "ml_index t i = 0" "i < MAX_LIBFILES"
  shows "ml_name (entered t i m fdate) i = m" "j \<noteq> i \<Longrightarrow> used t j \<Longrightarrow> ml_name (entered t i m fdate) j = ml_name t j"
    "used (entered t i m fdate) j \<longleftrightarrow> j = i \<or> used t j"
proof -
  note u = tab_used[OF assms(1)]
  have l: "length (take (ml_op t) (ml_sbuf t)) = ml_op t" using u(4,6) by simp
  show "ml_name (entered t i m fdate) i = m"
    using assms(2) l by (simp add: ml_name_def entered_def)
  show "used (entered t i m fdate) j \<longleftrightarrow> j = i \<or> used t j"
    using assms(4) u(5) by (auto simp: used_def entered_def)
  assume j: "j \<noteq> i" "used t j"
  let ?p = "ml_index t j"
  have lt: "?p + length (ml_name t j) < ml_op t" using u(2)[OF j(2)] .
  let ?sb = "take (ml_op t) (ml_sbuf t) @ m @ EOS # drop (ml_op t + length m + 1) (ml_sbuf t)"
  have "take (ml_op t - ?p) (drop ?p ?sb) = take (ml_op t - ?p) (drop ?p (ml_sbuf t))"
    using lt u(4,6) by (simp add: drop_take[symmetric])
  then have "cstr (drop ?p ?sb) = cstr (drop ?p (ml_sbuf t))"
    using lt u(4,6) by (intro cstr_cong[of _ "ml_op t - ?p"]) (auto simp: ml_name_def)
  then show "ml_name (entered t i m fdate) j = ml_name t j" using j(1) by (simp add: ml_name_def entered_def)
qed

lemma entered_tab:
  assumes "tab_ok t M" "names_ok (insert m (dom M))" "ml_start m = Some s" "M m = None"
    "i = ml_slot s d" "d < MAX_LIBFILES" "ml_index t i = 0" "\<forall>e < d. used t (ml_slot s e)"
    "ml_op t + length m + 1 < SZ_SBUF"
  shows "tab_ok (entered t i m fdate) (M(m \<mapsto> fdate))"
proof -
  let ?t = "entered t i m fdate"
  have m: "EOS \<notin> set m" "m \<noteq> []" using assms(2) by (auto simp: names_ok_def)
  have i: "i < MAX_LIBFILES" using assms(5) by simp
  note u = tab_used[OF assms(1)] and en = entered_names[OF assms(1) m(1) assms(7) i, where fdate = fdate]
  have ni: "\<not> used t i" using assms(7) by (simp add: used_def)
  have nm: "ml_name t j \<noteq> m" if "used t j" for j using u(1)[OF that] assms(4) by auto
  have len: "length (ml_sbuf ?t) = SZ_SBUF" "0 < ml_op ?t" "ml_op ?t \<le> SZ_SBUF"
    using u(4,5,6) assms(9) by (simp_all add: entered_def)
  have names: "ml_index ?t j + length (ml_name ?t j) < ml_op ?t \<and> (M(m \<mapsto> fdate)) (ml_name ?t j) = Some (ml_fdate ?t j)"
    if "used ?t j" for j
  proof (cases "j = i")
    case True
    then show ?thesis using en(1) by (simp add: entered_def)
  next
    case False
    then have uj: "used t j" using that en(3) by blast
    have "ml_index ?t j = ml_index t j" "ml_fdate ?t j = ml_fdate t j" "ml_op t \<le> ml_op ?t" using False by (simp_all add: entered_def)
    then show ?thesis using en(2)[OF False uj] u(1,2)[OF uj] nm[OF uj] by simp
  qed
  have inj: "j = k" if "used ?t j" "used ?t k" "ml_name ?t j = ml_name ?t k" for j k
    using that en nm u(3) by metis
  have found: "\<exists>s d. ml_start n = Some s \<and> d < MAX_LIBFILES \<and> used ?t (ml_slot s d) \<and> ml_name ?t (ml_slot s d) = n
      \<and> (\<forall>e < d. used ?t (ml_slot s e))" if "n \<in> dom (M(m \<mapsto> fdate))" for n
  proof (cases "n = m")
    case True
    then show ?thesis using assms(3,5,6,8) en(1,3) by blast
  next
    case False
    then have n: "n \<in> dom M" using that by auto
    then obtain s' where s': "ml_start n = Some s'" using u(7) by (auto simp: names_ok_def)
    from tab_dom[OF assms(1) _ s'] n obtain d' where
      "d' < MAX_LIBFILES" "used t (ml_slot s' d')" "ml_name t (ml_slot s' d') = n" "\<forall>e < d'. used t (ml_slot s' e)" by blast
    then show ?thesis using s' en(2,3) ni by metis
  qed
  have "names_ok (dom (M(m \<mapsto> fdate)))" using assms(2) by simp
  then show ?thesis unfolding tab_ok_def using len names inj found by blast
qed

lemma mlb_setdate_tab:
  assumes "tab_ok t M" "names_ok (insert m (dom M))" "0 < sint fdate"
  shows "\<exists>ok t'. mlb_setdate m fdate t = Some (ok, t') \<and> (if ok then tab_ok t' (M(m \<mapsto> fdate)) else tab_ok t' M)
    \<and> (ok \<longleftrightarrow> M m \<noteq> None \<or> (\<exists>i < MAX_LIBFILES. ml_index t i = 0) \<and> ml_op t + length m + 1 < SZ_SBUF)
    \<and> ml_op t' \<le> ml_op t + length m + 1"
proof -
  obtain s where s: "ml_start m = Some s" "m \<noteq> []" using assms(2) by (auto simp: names_ok_def)
  let ?t = "t\<lparr>ml_modified := True\<rparr>"
  have nm: "ml_name (t\<lparr>ml_modified := b\<rparr>) = ml_name t" for b by (simp add: ml_name_def fun_eq_iff)
  have us: "used (t\<lparr>ml_modified := b\<rparr>) = used t" for b by (simp add: used_def fun_eq_iff)
  have ok: "tab_ok ?t M" using assms(1) by (simp add: tab_ok_def nm us)
  note u = tab_used[OF ok]
  have p: "ml_probe ?t m s s = Some (ml_search ?t m s 0)"
    using ml_probe_search[OF ml_start_less[OF s(1)] MAX_pos, of ?t m] ml_slot_0[OF ml_start_less[OF s(1)]] by simp
  have "\<not> sint fdate \<le> 0" using assms(3) by simp
  note st = ml_search_tab[OF ok assms(2) s(1)]
  show ?thesis
  proof (cases "ml_search ?t m s 0")
    case (Found i)
    then have f: "used ?t i" "ml_name ?t i = m" "M m = Some (ml_fdate ?t i)" using st by simp_all
    let ?t' = "?t\<lparr>ml_fdate := (ml_fdate ?t)(i := fdate)\<rparr>"
    have n': "ml_name ?t' = ml_name ?t" "used ?t' = used ?t" by (simp_all add: ml_name_def used_def fun_eq_iff)
    have "(M(m \<mapsto> fdate)) (ml_name ?t' j) = Some (ml_fdate ?t' j)" if "used ?t' j" for j
    proof (cases "j = i")
      case True
      then show ?thesis unfolding n' f(2)[symmetric] by simp
    next
      case False
      have uj: "used ?t j" using that unfolding n' .
      then have "ml_name ?t j \<noteq> m" using u(3)[OF uj f(1)] f(2) False by metis
      then show ?thesis unfolding n' using u(1)[OF uj] False by simp
    qed
    moreover have "dom (M(m \<mapsto> fdate)) = dom M" using f(3) by auto
    ultimately have "tab_ok ?t' (M(m \<mapsto> fdate))"
      using ok unfolding tab_ok_def n' by simp
    moreover have "mlb_setdate m fdate t = Some (True, ?t')"
      using s p Found \<open>\<not> sint fdate \<le> 0\<close> by (simp add: mlb_setdate_def Let_def)
    ultimately show ?thesis using f(3) by (intro exI[of _ True] exI[of _ ?t']) simp
  next
    case (Free i)
    then obtain d where f: "M m = None" "d < MAX_LIBFILES" "i = ml_slot s d" "ml_index ?t i = 0" "\<forall>e < d. used ?t (ml_slot s e)"
      using st by auto
    have ex: "\<exists>i < MAX_LIBFILES. ml_index t i = 0" using f(3,4) by (intro exI[of _ i]) simp
    show ?thesis
    proof (cases "SZ_SBUF \<le> ml_op ?t + length m + 1")
      case True
      then have "mlb_setdate m fdate t = Some (False, ?t)"
        using s p Free \<open>\<not> sint fdate \<le> 0\<close> by (simp add: mlb_setdate_def Let_def)
      then show ?thesis using f(1) ok True by (intro exI[of _ False] exI[of _ ?t]) simp
    next
      case False
      then have "tab_ok (entered ?t i m fdate) (M(m \<mapsto> fdate))"
        using entered_tab[OF ok assms(2) s(1) f(1,3,2,4,5), where fdate = fdate] by simp
      moreover have "mlb_setdate m fdate t = Some (True, entered ?t i m fdate)"
        using s p Free \<open>\<not> sint fdate \<le> 0\<close> False by (simp add: mlb_setdate_def Let_def entered_def)
      moreover have "ml_op (entered ?t i m fdate) = ml_op t + length m + 1" by (simp add: entered_def)
      ultimately show ?thesis using f(1) ex False
        by (intro exI[of _ True] exI[of _ "entered ?t i m fdate"]) simp
    qed
  next
    case Full
    then have "M m = None" using st by simp
    have "ml_index t i \<noteq> 0" if il: "i < MAX_LIBFILES" for i
    proof -
      obtain d where d: "d < MAX_LIBFILES" "ml_slot s d = i" by (rule ml_slot_surj[OF ml_start_less[OF s(1)] il])
      have "ml_index ?t (ml_slot s d) \<noteq> 0" using ml_search_Full[OF Full d(1)] .
      then show ?thesis using d(2) by simp
    qed
    then have "\<not> (\<exists>i < MAX_LIBFILES. ml_index t i = 0)" by blast
    moreover have "mlb_setdate m fdate t = Some (False, ?t)"
      using s p Full \<open>\<not> sint fdate \<le> 0\<close> by (simp add: mlb_setdate_def Let_def)
    ultimately show ?thesis using ok \<open>M m = None\<close> by (intro exI[of _ False] exI[of _ ?t]) simp
  qed
qed

lemma mlb_clear_tab:
  assumes "length (ml_sbuf t) = SZ_SBUF"
  shows "tab_ok (mlb_clear t) Map.empty"
  using assms by (simp add: tab_ok_def mlb_clear_def used_def names_ok_def prefix_free_def SZ_SBUF_def)



text \<open>A free slot is left as long as there are fewer names than slots.\<close>

lemma tab_free:
  assumes "tab_ok t M" "finite (dom M)" "card (dom M) < MAX_LIBFILES"
  shows "\<exists>i < MAX_LIBFILES. ml_index t i = 0"
proof (rule ccontr)
  assume "\<not> ?thesis"
  then have us: "used t i" if "i < MAX_LIBFILES" for i using that by (auto simp: used_def)
  note u = tab_used[OF assms(1)]
  have "inj_on (ml_name t) {..<MAX_LIBFILES}" using u(3) us by (auto simp: inj_on_def)
  moreover have "ml_name t ` {..<MAX_LIBFILES} \<subseteq> dom M" using u(1) us by blast
  ultimately have "card {..<MAX_LIBFILES} \<le> card (dom M)" using assms(2) by (rule card_inj_on_le)
  then show False using assms(3) by simp
qed

section \<open>The interface of a table of dates\<close>

text \<open>
  What the scanner and \<^verbatim>\<open>h_ardate\<close> rely on: entering a name updates the map or fails and leaves
  it, and a lookup returns the value or a default.
\<close>

fun enter_all :: "('k \<Rightarrow> 'v \<Rightarrow> 't \<Rightarrow> (bool \<times> 't) option) \<Rightarrow> ('k \<times> 'v) list \<Rightarrow> 't \<Rightarrow> (bool \<times> 't) option" where
  "enter_all setf [] t = Some (True, t)"
| "enter_all setf ((k, v) # kvs) t = do {
     (ok, t1) \<leftarrow> setf k v t; (oks, t2) \<leftarrow> enter_all setf kvs t1; Some (ok \<and> oks, t2) }"

locale date_table =
  fixes setf :: "'k \<Rightarrow> 'v \<Rightarrow> 't \<Rightarrow> (bool \<times> 't) option" and getf :: "'k \<Rightarrow> 't \<Rightarrow> 'v option"
    and rep :: "'t \<Rightarrow> ('k \<Rightarrow> 'v option) \<Rightarrow> bool" and keys :: "'k set \<Rightarrow> bool" and valid :: "'v \<Rightarrow> bool" and default :: 'v
  assumes set_law: "rep t M \<Longrightarrow> keys (insert k (dom M)) \<Longrightarrow> valid v
      \<Longrightarrow> \<exists>ok t'. setf k v t = Some (ok, t') \<and> (if ok then rep t' (M(k \<mapsto> v)) else rep t' M)"
    and get_law: "rep t M \<Longrightarrow> keys (insert k (dom M)) \<Longrightarrow> getf k t = Some (case M k of None \<Rightarrow> default | Some v \<Rightarrow> v)"
    and keys_mono: "keys N \<Longrightarrow> N' \<subseteq> N \<Longrightarrow> keys N'"
begin

lemma enter_all_rep:
  "rep t M \<Longrightarrow> keys (dom M \<union> fst ` set kvs) \<Longrightarrow> \<forall>(k, v) \<in> set kvs. valid v
    \<Longrightarrow> \<exists>ok t'. enter_all setf kvs t = Some (ok, t') \<and> (ok \<longrightarrow> rep t' (M ++ map_of (rev kvs)))"
proof (induction kvs arbitrary: t M)
  case Nil
  then show ?case by (intro exI[of _ True] exI[of _ t]) simp
next
  case (Cons kv kvs)
  obtain k v where kv: "kv = (k, v)" by (cases kv)
  have "keys (insert k (dom M))" using kv by (intro keys_mono[OF Cons.prems(2)]) auto
  from set_law[OF Cons.prems(1) this, of v] Cons.prems(3) kv obtain ok t1 where
    1: "setf k v t = Some (ok, t1)" "if ok then rep t1 (M(k \<mapsto> v)) else rep t1 M" by auto
  define M1 where "M1 = (if ok then M(k \<mapsto> v) else M)"
  have "rep t1 M1" using 1(2) by (simp add: M1_def)
  moreover have "keys (dom M1 \<union> fst ` set kvs)"
    using kv by (intro keys_mono[OF Cons.prems(2)]) (auto simp: M1_def)
  moreover have "\<forall>(k, v) \<in> set kvs. valid v" using Cons.prems(3) by simp
  ultimately obtain oks t2 where 2: "enter_all setf kvs t1 = Some (oks, t2)" "oks \<longrightarrow> rep t2 (M1 ++ map_of (rev kvs))"
    using Cons.IH by blast
  have "M(k \<mapsto> v) ++ map_of (rev kvs) = M ++ map_of (rev kvs @ [(k, v)])"
    by (simp add: map_add_assoc fun_eq_iff map_add_def split: option.splits)
  then have "enter_all setf (kv # kvs) t = Some (ok \<and> oks, t2) \<and> (ok \<and> oks \<longrightarrow> rep t2 (M ++ map_of (rev (kv # kvs))))"
    using 1(1) 2 kv by (cases ok) (simp_all add: M1_def)
  then show ?case by blast
qed

lemma get_after_enter:
  assumes "rep t Map.empty" "keys (insert k (fst ` set kvs))" "\<forall>(k, v) \<in> set kvs. valid v" "enter_all setf kvs t = Some (True, t')"
  shows "getf k t' = Some (case map_of (rev kvs) k of None \<Rightarrow> default | Some v \<Rightarrow> v)"
proof -
  have "rep t' (Map.empty ++ map_of (rev kvs))"
    using enter_all_rep[OF assms(1) keys_mono[OF assms(2)] assms(3)] assms(4) by fastforce
  moreover have "keys (insert k (dom (Map.empty ++ map_of (rev kvs))))"
    using assms(2) by (simp add: dom_map_of_conv_image_fst)
  ultimately show ?thesis using get_law by fastforce
qed

end

lemma names_ok_mono: "names_ok N \<Longrightarrow> N' \<subseteq> N \<Longrightarrow> names_ok N'"
  unfolding names_ok_def prefix_free_def by blast

interpretation dates: date_table mlb_setdate mlb_getdate tab_ok names_ok "\<lambda>v. 0 < sint v" 0
proof
  show "\<exists>ok t'. mlb_setdate k v t = Some (ok, t') \<and> (if ok then tab_ok t' (M(k \<mapsto> v)) else tab_ok t' M)"
    if "tab_ok t M" "names_ok (insert k (dom M))" "0 < sint v" for t M k v
    using mlb_setdate_tab[OF that] by blast
qed (auto intro: mlb_getdate_tab names_ok_mono)

text \<open>Enough room for all names.\<close>

lemma enter_all_fits:
  "tab_ok t M \<Longrightarrow> names_ok (dom M \<union> fst ` set kvs) \<Longrightarrow> \<forall>(k, v) \<in> set kvs. 0 < sint v
    \<Longrightarrow> finite (dom M) \<Longrightarrow> card (dom M) + length kvs \<le> MAX_LIBFILES
    \<Longrightarrow> ml_op t + sum_list (map (\<lambda>(k, v). length k + 1) kvs) < SZ_SBUF
    \<Longrightarrow> \<exists>t'. enter_all mlb_setdate kvs t = Some (True, t')"
proof (induction kvs arbitrary: t M)
  case (Cons kv kvs)
  obtain k v where kv: "kv = (k, v)" by (cases kv)
  have "names_ok (insert k (dom M))" using kv by (intro names_ok_mono[OF Cons.prems(2)]) auto
  from mlb_setdate_tab[OF Cons.prems(1) this, of v] Cons.prems(3) kv obtain ok t1 where
    1: "mlb_setdate k v t = Some (ok, t1)" "if ok then tab_ok t1 (M(k \<mapsto> v)) else tab_ok t1 M"
    "ok \<longleftrightarrow> M k \<noteq> None \<or> (\<exists>i < MAX_LIBFILES. ml_index t i = 0) \<and> ml_op t + length k + 1 < SZ_SBUF"
    "ml_op t1 \<le> ml_op t + length k + 1" by auto
  have "\<exists>i < MAX_LIBFILES. ml_index t i = 0" using Cons.prems(5) by (intro tab_free[OF Cons.prems(1,4)]) simp
  moreover have "ml_op t + length k + 1 < SZ_SBUF" using Cons.prems(6) kv by simp
  ultimately have ok: "ok" using 1(3) by blast
  have "tab_ok t1 (M(k \<mapsto> v))" using 1(2) ok by simp
  moreover have "dom (M(k \<mapsto> v)) \<union> fst ` set kvs \<subseteq> dom M \<union> fst ` set (kv # kvs)" using kv by auto
  then have "names_ok (dom (M(k \<mapsto> v)) \<union> fst ` set kvs)" using names_ok_mono[OF Cons.prems(2)] by blast
  moreover have "card (insert k (dom M)) \<le> Suc (card (dom M))" by (rule card_insert_le_m1) simp_all
  then have "card (dom (M(k \<mapsto> v))) + length kvs \<le> MAX_LIBFILES" using Cons.prems(5) by simp
  moreover have "ml_op t1 + sum_list (map (\<lambda>(k, v). length k + 1) kvs) < SZ_SBUF" using Cons.prems(6) 1(4) kv by simp
  moreover have "\<forall>(k, v) \<in> set kvs. 0 < sint v" "finite (dom (M(k \<mapsto> v)))" using Cons.prems(3,4) by simp_all
  ultimately obtain t' where "enter_all mlb_setdate kvs t1 = Some (True, t')" using Cons.IH[of t1 "M(k \<mapsto> v)"] by blast
  then show ?case using 1(1) ok kv by simp
qed simp

text \<open>
  C38. Entering a date: after \<^verbatim>\<open>mlb_setdate\<close> has succeeded, \<^verbatim>\<open>mlb_getdate\<close> returns the new date for
  that module and what it returned before for every other one.
\<close>

theorem mlb_setdate_getdate:
  assumes "tab_ok t M" "names_ok (insert k (insert k' (dom M)))" "0 < sint d" "mlb_setdate k d t = Some (True, t')"
  shows "mlb_getdate k' t' = (if k' = k then Some d else mlb_getdate k' t)"
proof -
  have n: "names_ok (insert k (dom M))" "names_ok (insert k' (dom M))" by (rule names_ok_mono[OF assms(2)]; blast)+
  obtain ok t1 where "mlb_setdate k d t = Some (ok, t1)" "if ok then tab_ok t1 (M(k \<mapsto> d)) else tab_ok t1 M"
    using dates.set_law[OF assms(1) n(1) assms(3)] by blast
  then have "tab_ok t' (M(k \<mapsto> d))" using assms(4) by simp
  moreover have "names_ok (insert k' (dom (M(k \<mapsto> d))))" using assms(2) by (simp add: insert_commute)
  ultimately have "mlb_getdate k' t' = Some (case (M(k \<mapsto> d)) k' of None \<Rightarrow> 0 | Some d \<Rightarrow> d)" by (rule dates.get_law)
  moreover have "mlb_getdate k' t = Some (case M k' of None \<Rightarrow> 0 | Some d \<Rightarrow> d)" by (rule dates.get_law[OF assms(1) n(2)])
  ultimately show ?thesis by simp
qed

definition empty_list :: mlb where
  "empty_list = mlb_clear \<lparr>ml_sbuf = replicate SZ_SBUF 0, ml_op = 0, ml_index = (\<lambda>_. 0), ml_fdate = (\<lambda>_. 0), ml_modified = False\<rparr>"

lemma empty_list_tab: "tab_ok empty_list Map.empty"
  unfolding empty_list_def by (rule mlb_clear_tab) simp

lemma demo_names: "names_ok {[97, 46, 111], [98, 46, 111]}"
  by (simp add: names_ok_def prefix_free_def ml_start_def ml_hash_def cval_def MAX_LIBFILES_def)

definition after_a :: mlb where
  "after_a = (case mlb_setdate [97, 46, 111] 75 empty_list of Some (_, t) \<Rightarrow> t | None \<Rightarrow> empty_list)"

lemma after_a: "mlb_setdate [97, 46, 111] 75 empty_list = Some (True, after_a)"
proof -
  have "names_ok {[97, 46, 111]}" by (rule names_ok_mono[OF demo_names]) simp
  then obtain ok t' where "mlb_setdate [97, 46, 111] 75 empty_list = Some (ok, t')"
    "ok \<longleftrightarrow> Map.empty [97, 46, 111] \<noteq> (None :: xint option)
       \<or> (\<exists>i < MAX_LIBFILES. ml_index empty_list i = 0) \<and> ml_op empty_list + length [97, 46, 111 :: byte] + 1 < SZ_SBUF"
    using mlb_setdate_tab[OF empty_list_tab, of "[97, 46, 111]" 75] by auto
  moreover have "ml_index empty_list 0 = 0" "ml_op empty_list + length [97, 46, 111 :: byte] + 1 < SZ_SBUF"
    by (simp_all add: empty_list_def mlb_clear_def SZ_SBUF_def)
  ultimately have "mlb_setdate [97, 46, 111] 75 empty_list = Some (True, t')" using MAX_pos by (metis (full_types))
  then show ?thesis by (simp add: after_a_def)
qed

theorem mlb_setdate_getdate_witness:
  "mlb_getdate [97, 46, 111] after_a = (if [97, 46, 111] = [97, 46, 111 :: byte] then Some 75 else mlb_getdate [97, 46, 111] empty_list)"
proof (rule mlb_setdate_getdate[OF empty_list_tab _ _ after_a])
  show "names_ok (insert [97, 46, 111] (insert [97, 46, 111] (dom (Map.empty :: byte list \<Rightarrow> xint option))))"
    by (rule names_ok_mono[OF demo_names]) simp
qed simp

end
