(* ===== verification/Arscan.thy ===== *)
theory Arscan
  imports Mlb
begin

text \<open>
  The scan of a Unix archive in \<^verbatim>\<open>mkpkg\<close>, \<^verbatim>\<open>h_scanlibrary\<close> and \<^verbatim>\<open>h_ardate\<close> of
  \<^verbatim>\<open>unix/boot/mkpkg/scanlib.c\<close> and \<^verbatim>\<open>makeobj\<close> of \<^verbatim>\<open>unix/boot/mkpkg/host.c\<close>: the headers of the
  members are decoded one after the other and each name is entered with its date in the module
  list. The file is its contents, or \<open>None\<close> when it cannot be opened.
\<close>

definition SZ_OBJNAME :: nat where "SZ_OBJNAME = 255"

definition ARMAG :: "byte list" where "ARMAG = [33, 60, 97, 114, 99, 104, 62, 10]"
definition ARFMAG :: "byte list" where "ARFMAG = [96, 10]"

text \<open>
  \<open>sscanf (s, "%ld", &x)\<close> for the bytes from \<open>s\<close> on: white space, a sign and digits; a value out of
  range is the nearest \<^verbatim>\<open>long\<close>.
\<close>

definition long_clamp :: "int \<Rightarrow> xint" where
  "long_clamp v = word_of_int (max (- (2 ^ 63)) (min (2 ^ 63 - 1) v))"

definition sscanf_ld :: "byte list \<Rightarrow> xint option" where
  "sscanf_ld bs =
     (let s = dropWhile is_space bs;
          neg = (s \<noteq> [] \<and> hd s = 45);
          ds = takeWhile is_digit (if s \<noteq> [] \<and> (hd s = 45 \<or> hd s = 43) then tl s else s)
      in if ds = [] then None else Some (long_clamp (if neg then - dec_value 0 ds else dec_value 0 ds)))"

text \<open>
  The module name: from the first byte that is no blank up to a blank or a slash, read as a string.
  Running off the end of the header is undefined.
\<close>

definition ar_modname :: "byte list \<Rightarrow> byte list option" where
  "ar_modname arf =
     (let s = dropWhile (\<lambda>c. c = 32) arf; w = takeWhile (\<lambda>c. c \<noteq> 32 \<and> c \<noteq> 47) s
      in if length w < length s then Some (cstr w) else None)"

definition scan_date :: "byte list \<Rightarrow> xint option \<Rightarrow> xint option" where
  "scan_date arf fdate = (case sscanf_ld (drop 16 arf) of Some v \<Rightarrow> Some v | None \<Rightarrow> fdate)"

text \<open>
  The loop over the members. \<open>fdate\<close> is the local variable, without a value at first; the seek
  is relative to the position behind the header and fails in front of the file.
\<close>

partial_function (option) scan_entries :: "byte list \<Rightarrow> nat \<Rightarrow> xint option \<Rightarrow> mlb \<Rightarrow> (int \<times> mlb) option" where
  "scan_entries f pos fdate t =
     (let got = take 60 (drop pos f); arf = got @ replicate (60 - length got) 0
      in if got = [] then Some (0, t)
         else if take 2 (drop 58 arf) \<noteq> ARFMAG then Some (-1, t)
         else do {
           m \<leftarrow> ar_modname arf;
           (fdate', t') \<leftarrow> (if m = [] then Some (fdate, t)
             else do {
               d \<leftarrow> scan_date arf fdate;
               (ok, t1) \<leftarrow> mlb_setdate m d t;
               Some (Some d, t1) });
           (case sscanf_ld (drop 48 arf) of
              None \<Rightarrow> Some (-1, t')
            | Some l \<Rightarrow>
                let p = int (pos + length got) + (if odd (sint l) then sint l + 1 else sint l)
                in scan_entries f (if p < 0 then pos + length got else nat p) fdate' t') })"

definition h_scanlibrary :: "byte list option \<Rightarrow> mlb \<Rightarrow> (int \<times> mlb) option" where
  "h_scanlibrary fp t =
     (let t1 = mlb_clear t
      in case fp of
           None \<Rightarrow> Some (0, t1)
         | Some f \<Rightarrow> if take 8 f \<noteq> ARMAG then Some (-1, t1) else scan_entries f 8 None t1)"

text \<open>The object file of a source: the text behind the last period is replaced.\<close>

definition stem :: "byte list \<Rightarrow> byte list" where
  "stem s = (if 46 \<in> set s then rev (tl (dropWhile (\<lambda>c. c \<noteq> 46) (rev s))) else s)"

definition makeobj :: "byte list \<Rightarrow> byte list option" where
  "makeobj fname =
     (if SZ_OBJNAME < length fname \<or> SZ_OBJNAME < length (stem fname) + 2 then None
      else Some (stem fname @ [46, 111]))"

definition h_ardate :: "byte list \<Rightarrow> mlb \<Rightarrow> xint option" where
  "h_ardate fname t = do { m \<leftarrow> makeobj fname; mlb_getdate m t }"

section \<open>Archives\<close>

text \<open>
  A member as \<^verbatim>\<open>ar\<close> writes it: the text of the name field, the digits of the date, the fields of owner,
  group and mode, the digits of the size, and the data. The name field is the module name with a slash behind it;
  the symbol table \<^verbatim>\<open>/\<close>, the table of long names \<^verbatim>\<open>//\<close> and the references \<^verbatim>\<open>/n\<close> to it have no
  module name.
\<close>

record ar_member =
  ar_field :: "byte list"
  ar_date :: "byte list"
  ar_ids :: "byte list"
  ar_size :: "byte list"
  ar_data :: "byte list"

definition ar_name :: "ar_member \<Rightarrow> byte list" where
  "ar_name m = takeWhile (\<lambda>c. c \<noteq> 47) (ar_field m)"

definition named :: "ar_member \<Rightarrow> bool" where
  "named m \<longleftrightarrow> ar_name m \<noteq> []"

definition pad_to :: "nat \<Rightarrow> byte list \<Rightarrow> byte list" where
  "pad_to n s = s @ replicate (n - length s) 32"

definition ar_header :: "ar_member \<Rightarrow> byte list" where
  "ar_header m = pad_to 16 (ar_field m) @ pad_to 12 (ar_date m) @ ar_ids m @ pad_to 10 (ar_size m) @ ARFMAG"

definition ar_entry :: "ar_member \<Rightarrow> byte list" where
  "ar_entry m = ar_header m @ ar_data m @ (if odd (length (ar_data m)) then [10] else [])"

definition archive :: "ar_member list \<Rightarrow> byte list" where
  "archive ms = ARMAG @ concat (map ar_entry ms)"

text \<open>
  The name field is not blank and ends with a slash or a blank. The date of a named member is a number; when its digits
  fill the field, the owner behind it must not go on with one.
\<close>

definition ar_ok :: "ar_member \<Rightarrow> bool" where
  "ar_ok m \<longleftrightarrow> ar_field m \<noteq> [] \<and> list_all (\<lambda>c. c \<noteq> EOS \<and> c \<noteq> 32) (ar_field m) \<and> length (ar_field m) \<le> 16
     \<and> (length (ar_field m) = 16 \<longrightarrow> 47 \<in> set (ar_field m))
     \<and> length (ar_date m) \<le> 12 \<and> length (ar_ids m) = 20
     \<and> (named m \<longrightarrow> ar_date m \<noteq> [] \<and> list_all is_digit (ar_date m)
          \<and> (length (ar_date m) = 12 \<longrightarrow> \<not> is_digit (hd (ar_ids m))))
     \<and> ar_size m \<noteq> [] \<and> list_all is_digit (ar_size m) \<and> length (ar_size m) \<le> 10
     \<and> dec_value 0 (ar_size m) = int (length (ar_data m))"

definition ar_dates :: "ar_member list \<Rightarrow> (byte list \<times> xint) list" where
  "ar_dates ms = map (\<lambda>m. (ar_name m, word_of_int (dec_value 0 (ar_date m)))) (filter named ms)"

lemma dec_value_less: "list_all is_digit ds \<Longrightarrow> 0 \<le> v \<Longrightarrow> dec_value v ds < (v + 1) * 10 ^ length ds"
proof (induction ds arbitrary: v)
  case (Cons c ds)
  have c: "0 \<le> cval c - 48" "cval c - 48 \<le> 9" using Cons.prems(1) by (auto simp: is_digit_def)
  have "dec_value (v * 10 + (cval c - 48)) ds < (v * 10 + (cval c - 48) + 1) * 10 ^ length ds"
    using Cons c by (intro Cons.IH) auto
  also have "\<dots> \<le> ((v + 1) * 10) * 10 ^ length ds" using c by (intro mult_right_mono) auto
  finally show ?case by (simp only: dec_value_Cons length_Cons power_Suc mult.assoc)
qed (simp add: dec_value_def)

lemma digits_long:
  assumes "list_all is_digit ds" "length ds \<le> 12"
  shows "long_clamp (dec_value 0 ds) = word_of_int (dec_value 0 ds)" "sint (word_of_int (dec_value 0 ds) :: xint) = dec_value 0 ds"
proof -
  have "dec_value 0 ds < 10 ^ length ds" using dec_value_less[OF assms(1), of 0] by simp
  also have "\<dots> \<le> (10::int) ^ 12" using assms(2) by (intro power_increasing) auto
  finally have b: "dec_value 0 ds < 10 ^ 12" "0 \<le> dec_value 0 ds" using dec_value_mono[OF assms(1), of 0] by simp_all
  then show "long_clamp (dec_value 0 ds) = word_of_int (dec_value 0 ds)" by (simp add: long_clamp_def)
  show "sint (word_of_int (dec_value 0 ds) :: xint) = dec_value 0 ds"
    using b by (simp add: sint_sbintrunc' signed_take_bit_int_eq_self)
qed

lemma digit_other: "is_digit c \<Longrightarrow> \<not> is_space c \<and> c \<noteq> 45 \<and> c \<noteq> 43"
  by (auto simp: is_digit_def is_space_def cval_def)

lemma not_digits: "\<not> is_digit 32" "\<not> is_digit 96"
  by (simp_all add: is_digit_def cval_def)

lemma sscanf_digits:
  assumes "list_all is_digit ds" "ds \<noteq> []" "length ds \<le> 12" "r = [] \<or> \<not> is_digit (hd r)"
  shows "sscanf_ld (ds @ r) = Some (word_of_int (dec_value 0 ds))"
proof -
  have h: "is_digit (hd ds)" using assms(1,2) by (cases ds) auto
  have d: "dropWhile is_space (ds @ r) = ds @ r" "hd (ds @ r) \<noteq> 45" "hd (ds @ r) \<noteq> 43" "ds @ r \<noteq> []"
    using digit_other[OF h] assms(2) by (cases ds; simp)+
  have "takeWhile is_digit r = []" using assms(4) by (cases r) auto
  then have "takeWhile is_digit (ds @ r) = ds" using assms(1) by (simp add: takeWhile_append2 list_all_iff)
  then show ?thesis using d assms(2) digits_long(1)[OF assms(1,3)] by (simp add: sscanf_ld_def Let_def)
qed

lemma length_pad_to [simp]: "length s \<le> n \<Longrightarrow> length (pad_to n s) = n"
  by (simp add: pad_to_def)

lemma ar_header_parts:
  assumes "ar_ok m"
  shows "length (ar_header m) = 60" "drop 16 (ar_header m) = pad_to 12 (ar_date m) @ ar_ids m @ pad_to 10 (ar_size m) @ ARFMAG"
    "drop 48 (ar_header m) = pad_to 10 (ar_size m) @ ARFMAG" "take 2 (drop 58 (ar_header m)) = ARFMAG"
  using assms by (simp_all add: ar_ok_def ar_header_def ARFMAG_def)

lemma pad_no_digit: "r \<noteq> [] \<Longrightarrow> \<not> is_digit (hd r) \<Longrightarrow> \<not> is_digit (hd (replicate k 32 @ r))"
  by (cases k) (simp_all add: not_digits)

lemma ar_header_date:
  assumes "ar_ok m" "named m"
  shows "scan_date (ar_header m) fdate = Some (word_of_int (dec_value 0 (ar_date m)))"
proof -
  have a: "list_all is_digit (ar_date m)" "ar_date m \<noteq> []" "length (ar_date m) \<le> 12" "ar_ids m \<noteq> []"
    "length (ar_date m) = 12 \<Longrightarrow> \<not> is_digit (hd (ar_ids m))"
    using assms by (auto simp: ar_ok_def)
  let ?r = "replicate (12 - length (ar_date m)) 32 @ ar_ids m @ pad_to 10 (ar_size m) @ ARFMAG"
  have "\<not> is_digit (hd ?r)"
  proof (cases "length (ar_date m) = 12")
    case False
    then obtain k where "12 - length (ar_date m) = Suc k" using a(3) by (cases "12 - length (ar_date m)") auto
    then show ?thesis by (simp add: not_digits)
  qed (use a in simp)
  then have "sscanf_ld (ar_date m @ ?r) = Some (word_of_int (dec_value 0 (ar_date m)))"
    by (intro sscanf_digits[OF a(1-3)] disjI2)
  then show ?thesis by (simp add: scan_date_def ar_header_parts[OF assms(1)] pad_to_def)
qed

lemma ar_header_size:
  assumes "ar_ok m"
  shows "sscanf_ld (drop 48 (ar_header m)) = Some (word_of_int (int (length (ar_data m))))"
    "sint (word_of_int (int (length (ar_data m))) :: xint) = int (length (ar_data m))"
proof -
  have a: "list_all is_digit (ar_size m)" "ar_size m \<noteq> []" "length (ar_size m) \<le> 12" "dec_value 0 (ar_size m) = int (length (ar_data m))"
    using assms by (auto simp: ar_ok_def)
  let ?r = "replicate (10 - length (ar_size m)) 32 @ ARFMAG"
  have "\<not> is_digit (hd ?r)" by (rule pad_no_digit) (simp_all add: ARFMAG_def not_digits)
  then have "sscanf_ld (ar_size m @ ?r) = Some (word_of_int (dec_value 0 (ar_size m)))"
    by (intro sscanf_digits[OF a(1-3)] disjI2)
  then show "sscanf_ld (drop 48 (ar_header m)) = Some (word_of_int (int (length (ar_data m))))"
    by (simp add: ar_header_parts[OF assms] pad_to_def a(4))
  show "sint (word_of_int (int (length (ar_data m))) :: xint) = int (length (ar_data m))"
    using digits_long(2)[OF a(1,3)] a(4) by simp
qed

lemma ar_header_name:
  assumes "ar_ok m"
  shows "ar_modname (ar_header m) = Some (ar_name m)"
proof -
  let ?stop = "\<lambda>c :: byte. c \<noteq> 32 \<and> c \<noteq> 47"
  have n: "ar_field m \<noteq> []" "\<forall>c \<in> set (ar_field m). c \<noteq> EOS \<and> c \<noteq> 32"
    using assms by (auto simp: ar_ok_def list_all_iff)
  let ?r = "replicate (16 - length (ar_field m)) 32 @ pad_to 12 (ar_date m) @ ar_ids m @ pad_to 10 (ar_size m) @ ARFMAG"
  have r: "ar_header m = ar_field m @ ?r" by (simp add: ar_header_def pad_to_def)
  have d: "dropWhile (\<lambda>c. c = 32) (ar_header m) = ar_header m" unfolding r using n by (cases "ar_field m") auto
  have f: "takeWhile ?stop (ar_field m) = ar_name m" unfolding ar_name_def using n(2) by (intro takeWhile_cong) auto
  have w: "takeWhile ?stop (ar_header m) = ar_name m"
  proof (cases "47 \<in> set (ar_field m)")
    case True
    then show ?thesis unfolding r using f by (subst takeWhile_append1 [of 47]) auto
  next
    case False
    then have all: "\<forall>c \<in> set (ar_field m). ?stop c" using n(2) by auto
    have "length (ar_field m) < 16" using assms False by (auto simp: ar_ok_def)
    then obtain k where "16 - length (ar_field m) = Suc k" by (cases "16 - length (ar_field m)") auto
    then have "takeWhile ?stop ?r = []" by simp
    moreover have "takeWhile ?stop (ar_field m @ ?r) = ar_field m @ takeWhile ?stop ?r" using all by (intro takeWhile_append2) auto
    ultimately show ?thesis unfolding r f [symmetric] using all by (simp add: takeWhile_eq_all_conv [THEN iffD2])
  qed
  have "length (ar_name m) \<le> length (ar_field m)" unfolding ar_name_def by (rule length_takeWhile_le)
  then have "length (ar_name m) < length (ar_header m)" unfolding r by (simp add: ARFMAG_def)
  moreover have "cstr (ar_name m) = ar_name m"
    unfolding cstr_def by (rule takeWhile_eq_all_conv [THEN iffD2]) (use n(2) set_takeWhileD in \<open>fastforce simp: ar_name_def\<close>)
  ultimately show ?thesis using d w by (simp add: ar_modname_def Let_def)
qed

text \<open>One member, then the members in order.\<close>

lemma scan_member:
  assumes "ar_ok m" "length pre = pos" "f = pre @ ar_entry m @ rest"
  shows "scan_entries f pos fdate t =
    (if named m then do { (ok, t1) \<leftarrow> mlb_setdate (ar_name m) (word_of_int (dec_value 0 (ar_date m))) t;
         scan_entries f (pos + length (ar_entry m)) (Some (word_of_int (dec_value 0 (ar_date m)))) t1 }
     else scan_entries f (pos + length (ar_entry m)) fdate t)"
proof -
  have got: "take 60 (drop pos f) = ar_header m" using assms by (simp add: ar_entry_def ar_header_parts)
  have ne: "ar_header m \<noteq> []" using ar_header_parts(1)[OF assms(1)] by auto
  let ?n = "int (length (ar_data m))"
  have p: "odd ?n \<Longrightarrow> nat (61 + (int pos + ?n)) = pos + length (ar_entry m)"
    "even ?n \<Longrightarrow> nat (int pos + 60 + ?n) = pos + length (ar_entry m)"
    by (simp_all add: ar_entry_def ar_header_parts(1)[OF assms(1)] nat_eq_iff)
  have fm: "length ARFMAG = 2" by (simp add: ARFMAG_def)
  show ?thesis
  proof (cases "named m")
    case True
    then show ?thesis
      using got ne p fm ar_header_parts(1,4)[OF assms(1)] ar_header_size[OF assms(1)]
      by (subst scan_entries.simps)
        (simp add: ar_header_name[OF assms(1)] ar_header_date[OF assms(1)] named_def Let_def split: bind_splits)
  next
    case False
    then show ?thesis
      using got ne p fm ar_header_parts(1,4)[OF assms(1)] ar_header_size[OF assms(1)]
      by (subst scan_entries.simps) (simp add: ar_header_name[OF assms(1)] named_def Let_def)
  qed
qed

lemma scan_members:
  "list_all ar_ok ms \<Longrightarrow> f = pre @ concat (map ar_entry ms) \<Longrightarrow>
   scan_entries f (length pre) fdate t = do { (ok, t') \<leftarrow> enter_all mlb_setdate (ar_dates ms) t; Some (0, t') }"
proof (induction ms arbitrary: pre fdate t)
  case Nil
  then show ?case by (subst scan_entries.simps) (simp add: ar_dates_def)
next
  case (Cons m ms)
  let ?d = "word_of_int (dec_value 0 (ar_date m)) :: xint"
  have "scan_entries f (length pre) fdate t = (if named m then do { (ok, t1) \<leftarrow> mlb_setdate (ar_name m) ?d t;
         scan_entries f (length (pre @ ar_entry m)) (Some ?d) t1 } else scan_entries f (length (pre @ ar_entry m)) fdate t)"
    using scan_member[of m pre "length pre" f "concat (map ar_entry ms)"] Cons.prems by simp
  moreover have "scan_entries f (length (pre @ ar_entry m)) fd t1
      = do { (ok, t') \<leftarrow> enter_all mlb_setdate (ar_dates ms) t1; Some (0, t') }" for fd t1
    using Cons.prems by (intro Cons.IH) simp_all
  ultimately show ?case by (simp add: ar_dates_def split: bind_splits prod.splits)
qed


lemma ARMAG_len: "length ARMAG = 8"
  by (simp add: ARMAG_def)

text \<open>
  C17. The scan of an archive followed by \<^verbatim>\<open>h_ardate\<close>: the members without a module name are passed
  over, and for members with decodable headers whose names fit the module list, the date of a source file is the
  date of the last member with the name of its object file, and zero when there is none.
\<close>

theorem h_scanlibrary_dates:
  assumes "list_all ar_ok ms" "length (ml_sbuf t) = SZ_SBUF" "makeobj fname = Some k"
    "names_ok (insert k (ar_name ` set (filter named ms)))" "list_all (\<lambda>m. 0 < dec_value 0 (ar_date m)) (filter named ms)"
    "length (filter named ms) \<le> MAX_LIBFILES" "sum_list (map (\<lambda>m. length (ar_name m) + 1) (filter named ms)) + 1 < SZ_SBUF"
  shows "do { (status, t') \<leftarrow> h_scanlibrary (Some (archive ms)) t; d \<leftarrow> h_ardate fname t'; Some (status, d) }
    = Some (0, case map_of (rev (ar_dates ms)) k of None \<Rightarrow> 0 | Some d \<Rightarrow> d)"
proof -
  have nm: "fst ` set (ar_dates ms) = ar_name ` set (filter named ms)" by (force simp: ar_dates_def)
  have pos: "\<forall>(n, d) \<in> set (ar_dates ms). 0 < sint d"
    using assms(1,5) by (auto simp: ar_dates_def list_all_iff ar_ok_def digits_long(2))
  have rep: "tab_ok (mlb_clear t) Map.empty" using mlb_clear_tab[OF assms(2)] .
  have sl: "map (\<lambda>(n, d). length n + 1) (ar_dates ms) = map (\<lambda>m. length (ar_name m) + 1) (filter named ms)" by (simp add: ar_dates_def)
  have "\<exists>t'. enter_all mlb_setdate (ar_dates ms) (mlb_clear t) = Some (True, t')"
  proof (rule enter_all_fits[OF rep])
    show "names_ok (dom Map.empty \<union> fst ` set (ar_dates ms))" using nm by (intro names_ok_mono[OF assms(4)]) auto
    show "ml_op (mlb_clear t) + sum_list (map (\<lambda>(n, d). length n + 1) (ar_dates ms)) < SZ_SBUF"
      using assms(7) unfolding sl by (simp add: mlb_clear_def)
  qed (use pos assms(6) in \<open>simp_all add: ar_dates_def\<close>)
  then obtain t' where t': "enter_all mlb_setdate (ar_dates ms) (mlb_clear t) = Some (True, t')" by blast
  have "scan_entries (archive ms) (length ARMAG) None (mlb_clear t) = Some (0, t')"
    using t' by (simp add: scan_members[OF assms(1) archive_def])
  then have "h_scanlibrary (Some (archive ms)) t = Some (0, t')"
    using ARMAG_len by (simp add: h_scanlibrary_def archive_def)
  moreover have "mlb_getdate k t' = Some (case map_of (rev (ar_dates ms)) k of None \<Rightarrow> 0 | Some d \<Rightarrow> d)"
    using assms(4) nm pos t' by (intro dates.get_after_enter[OF rep]) simp_all
  ultimately show ?thesis using assms(3) by (simp add: h_ardate_def)
qed

text \<open>An archive as it is on disk: the symbol table, the long names with blank fields and one object file of owner 0.\<close>

definition demo_ids :: "byte list" where
  "demo_ids = pad_to 6 [48] @ pad_to 6 [48] @ pad_to 8 [49, 48, 48, 54, 52, 52]"

definition demo_member :: ar_member where
  "demo_member = \<lparr>ar_field = [97, 46, 111, 47], ar_date = [55, 53], ar_ids = demo_ids, ar_size = [51], ar_data = [1, 2, 3]\<rparr>"

definition demo_archive :: "ar_member list" where
  "demo_archive =
     [\<lparr>ar_field = [47], ar_date = [48], ar_ids = demo_ids, ar_size = [52], ar_data = [0, 0, 0, 0]\<rparr>,
      \<lparr>ar_field = [47, 47], ar_date = [], ar_ids = replicate 20 32, ar_size = [50], ar_data = [98, 47]\<rparr>,
      demo_member]"

lemma demo_named: "filter named demo_archive = [demo_member]" "ar_name demo_member = [97, 46, 111]"
  by (simp_all add: demo_archive_def demo_member_def named_def ar_name_def)

lemma demo_archive_ok: "list_all ar_ok demo_archive"
  by (simp add: demo_archive_def demo_member_def ar_ok_def named_def ar_name_def demo_ids_def pad_to_def
      is_digit_def cval_def dec_value_def)

definition demo_list :: mlb where
  "demo_list = \<lparr>ml_sbuf = replicate SZ_SBUF 0, ml_op = 0, ml_index = (\<lambda>_. 0), ml_fdate = (\<lambda>_. 0), ml_modified = False\<rparr>"

theorem h_scanlibrary_dates_witness:
  "do { (status, t') \<leftarrow> h_scanlibrary (Some (archive demo_archive)) demo_list; d \<leftarrow> h_ardate [97, 46, 99] t'; Some (status, d) }
    = Some (0, 75)"
proof -
  have k: "makeobj [97, 46, 99] = Some [97, 46, 111]" by (simp add: makeobj_def stem_def SZ_OBJNAME_def)
  have "names_ok (insert [97, 46, 111] (ar_name ` set (filter named demo_archive)))"
    by (simp add: demo_named names_ok_def prefix_free_def ml_start_def ml_hash_def cval_def MAX_LIBFILES_def)
  from h_scanlibrary_dates[OF demo_archive_ok _ k this, of demo_list]
  show ?thesis
    by (simp add: demo_named ar_dates_def demo_list_def SZ_SBUF_def MAX_LIBFILES_def)
      (simp add: demo_member_def dec_value_def cval_def)
qed

end
