(* ===== verification/Symtab.thy ===== *)
theory Symtab
  imports LibcStr
begin

text \<open>
  The symbol table of \<^verbatim>\<open>mkpkg\<close>: \<^verbatim>\<open>putsym\<close>, \<^verbatim>\<open>getsym\<close> and \<^verbatim>\<open>mklower\<close> of \<^verbatim>\<open>unix/boot/mkpkg/tok.c\<close> over
  the string buffer of \<^verbatim>\<open>putstr\<close> in \<^verbatim>\<open>unix/boot/mkpkg/char.c\<close>. Names and values are offsets into the
  buffer. \<open>SExit\<close> is the exit through \<^verbatim>\<open>fatals\<close>, \<open>SUndef\<close> a store outside an array.
\<close>

definition SZ_STRBUF :: nat where "SZ_STRBUF = 10240"
definition MAX_SYMBOLS :: nat where "MAX_SYMBOLS = 256"
definition SZ_LOWER :: nat where "SZ_LOWER = 255"

datatype 'a sres = SRet 'a | SExit | SUndef

record symbols =
  sy_buf :: "byte list"
  sy_cp :: nat
  sy_tab :: "(nat \<times> nat) list"
  sy_n :: nat

text \<open>
  The loop of \<^verbatim>\<open>putstr\<close> at the position \<open>op\<close> with the rest of the string: the check follows every
  byte but the last.
\<close>

fun put_bytes :: "byte list \<Rightarrow> nat \<Rightarrow> byte list \<Rightarrow> (byte list \<times> nat) sres" where
  "put_bytes buf op [] = (if length buf \<le> op then SUndef else SRet (buf[op := EOS], Suc op))"
| "put_bytes buf op (c # s) =
     (if length buf \<le> op then SUndef
      else if SZ_STRBUF \<le> Suc op then SExit
      else put_bytes (buf[op := c]) (Suc op) s)"

definition putstr :: "byte list \<Rightarrow> symbols \<Rightarrow> (nat \<times> symbols) sres" where
  "putstr s t =
     (case put_bytes (sy_buf t) (sy_cp t) s of
        SRet (buf, op) \<Rightarrow> SRet (sy_cp t, t\<lparr>sy_buf := buf, sy_cp := op\<rparr>)
      | SExit \<Rightarrow> SExit | SUndef \<Rightarrow> SUndef)"

definition lower :: "byte \<Rightarrow> byte" where
  "lower c = (if 65 \<le> cval c \<and> cval c \<le> 90 then c + 32 else c)"

definition mklower :: "byte list \<Rightarrow> byte list" where
  "mklower s = map lower (take SZ_LOWER s)"

definition putsym :: "byte list \<Rightarrow> byte list \<Rightarrow> symbols \<Rightarrow> symbols sres" where
  "putsym name val t =
     (case putstr (mklower name) t of SExit \<Rightarrow> SExit | SUndef \<Rightarrow> SUndef
      | SRet (n, t1) \<Rightarrow>
          if length (sy_tab t1) \<le> sy_n t1 then SUndef
          else case putstr val t1 of SExit \<Rightarrow> SExit | SUndef \<Rightarrow> SUndef
          | SRet (v, t2) \<Rightarrow>
              let t3 = t2\<lparr>sy_tab := (sy_tab t2)[sy_n t2 := (n, v)], sy_n := sy_n t2 + 1\<rparr>
              in if MAX_SYMBOLS \<le> sy_n t3 then SExit else SRet t3)"

definition str_at :: "symbols \<Rightarrow> nat \<Rightarrow> byte list" where
  "str_at t p = cstr (drop p (sy_buf t))"

text \<open>The search runs from the last symbol down to the first.\<close>

fun find_sym :: "symbols \<Rightarrow> byte list \<Rightarrow> nat \<Rightarrow> byte list option" where
  "find_sym t symbol 0 = None"
| "find_sym t symbol (Suc i) =
     (let (n, v) = sy_tab t ! i
      in if str_at t n = symbol then Some (str_at t v) else find_sym t symbol i)"

definition getsym :: "byte list \<Rightarrow> symbols \<Rightarrow> byte list option" where
  "getsym name t = find_sym t (mklower name) (sy_n t)"

text \<open>\<^verbatim>\<open>do_call\<close> and \<^verbatim>\<open>pop_context\<close> drop what was defined since a mark.\<close>

definition sym_mark :: "symbols \<Rightarrow> nat \<times> nat" where
  "sym_mark t = (sy_cp t, sy_n t)"

definition sym_restore :: "nat \<times> nat \<Rightarrow> symbols \<Rightarrow> symbols" where
  "sym_restore m t = t\<lparr>sy_cp := fst m, sy_n := snd m\<rparr>"

section \<open>The table as an association list\<close>

definition sym_ok :: "symbols \<Rightarrow> bool" where
  "sym_ok t \<longleftrightarrow> length (sy_buf t) = SZ_STRBUF \<and> sy_cp t \<le> SZ_STRBUF \<and> length (sy_tab t) = MAX_SYMBOLS \<and> sy_n t < MAX_SYMBOLS
     \<and> (\<forall>i < sy_n t. fst (sy_tab t ! i) + length (str_at t (fst (sy_tab t ! i))) < sy_cp t
          \<and> snd (sy_tab t ! i) + length (str_at t (snd (sy_tab t ! i))) < sy_cp t)"

text \<open>Names and values, the last definition first.\<close>

definition sym_list :: "symbols \<Rightarrow> (byte list \<times> byte list) list" where
  "sym_list t = map (\<lambda>i. (str_at t (fst (sy_tab t ! i)), str_at t (snd (sy_tab t ! i)))) (rev [0..<sy_n t])"

lemma find_sym_map_of:
  "find_sym t symbol k = map_of (map (\<lambda>i. (str_at t (fst (sy_tab t ! i)), str_at t (snd (sy_tab t ! i)))) (rev [0..<k])) symbol"
  by (induction k) (auto simp: split_beta)

lemma getsym_map_of: "getsym name t = map_of (sym_list t) (mklower name)"
  by (simp add: getsym_def sym_list_def find_sym_map_of)

lemma put_bytes_spec:
  "length buf = SZ_STRBUF \<Longrightarrow> op < SZ_STRBUF \<Longrightarrow>
   put_bytes buf op s = (if op + length s < SZ_STRBUF
     then SRet (take op buf @ s @ EOS # drop (op + length s + 1) buf, op + length s + 1) else SExit)"
proof (induction s arbitrary: buf op)
  case Nil
  then show ?case by (simp add: upd_conv_take_nth_drop)
next
  case (Cons c s)
  show ?case
  proof (cases "Suc op < SZ_STRBUF")
    case True
    have tk: "take (Suc op) (buf[op := c]) = take op buf @ [c]" using Cons.prems by (simp add: take_Suc_conv_app_nth)
    have "put_bytes (buf[op := c]) (Suc op) s = (if Suc op + length s < SZ_STRBUF
       then SRet (take (Suc op) (buf[op := c]) @ s @ EOS # drop (Suc op + length s + 1) (buf[op := c]), Suc op + length s + 1) else SExit)"
      using Cons.prems True by (intro Cons.IH) simp_all
    then show ?thesis using Cons.prems True by (simp add: tk)
  qed (use Cons.prems in simp)
qed

text \<open>A string that ends in front of \<open>k\<close> depends on the first \<open>k\<close> bytes only.\<close>

lemma cstr_front:
  assumes "p + length (cstr (drop p xs)) < k" "k \<le> length xs" "take k ys = take k xs"
  shows "cstr (drop p ys) = cstr (drop p xs)"
proof -
  have "length (cstr as) < j \<Longrightarrow> j \<le> length as \<Longrightarrow> take j bs = take j as \<Longrightarrow> cstr bs = cstr as" for as bs :: "byte list" and j
  proof (induction as arbitrary: bs j)
    case (Cons a as)
    obtain j' where j: "j = Suc j'" using Cons.prems(1) by (cases j) auto
    then obtain bs' where b: "bs = a # bs'" "take j' bs' = take j' as" using Cons.prems(3) by (cases bs) auto
    show ?case using Cons.IH[of j' bs'] Cons.prems j b by (cases "a = EOS") (simp_all add: cstr_def)
  qed simp
  moreover have "take (k - p) (drop p ys) = take (k - p) (drop p xs)" using assms(3) by (metis drop_take)
  moreover have "length (cstr (drop p xs)) < k - p" "k - p \<le> length (drop p xs)" using assms(1,2) by simp_all
  ultimately show ?thesis by blast
qed

text \<open>Storing a string leaves all strings in front of it.\<close>

lemma putstr_effect:
  assumes "length (sy_buf t) = SZ_STRBUF" "sy_cp t < SZ_STRBUF" "EOS \<notin> set s"
  shows "if sy_cp t + length s < SZ_STRBUF
    then \<exists>buf. putstr s t = SRet (sy_cp t, t\<lparr>sy_buf := buf, sy_cp := sy_cp t + length s + 1\<rparr>) \<and> length buf = SZ_STRBUF
       \<and> take (sy_cp t) buf = take (sy_cp t) (sy_buf t) \<and> cstr (drop (sy_cp t) buf) = s
    else putstr s t = SExit"
proof -
  let ?b = "take (sy_cp t) (sy_buf t) @ s @ EOS # drop (sy_cp t + length s + 1) (sy_buf t)"
  have "sy_cp t + length s < SZ_STRBUF \<Longrightarrow> length ?b = SZ_STRBUF \<and> take (sy_cp t) ?b = take (sy_cp t) (sy_buf t) \<and> cstr (drop (sy_cp t) ?b) = s"
    using assms by simp
  then show ?thesis using put_bytes_spec[OF assms(1,2), of s]
    by (cases "sy_cp t + length s < SZ_STRBUF") (simp_all only: putstr_def if_True if_False sres.case prod.case, blast)
qed

lemma set_mklower: "EOS \<notin> set s \<Longrightarrow> EOS \<notin> set (mklower s)"
proof -
  have "lower c \<noteq> 0" if "c \<noteq> 0" for c
  proof (cases "65 \<le> cval c \<and> cval c \<le> 90")
    case True
    have "c + 32 \<noteq> 0"
    proof
      assume "c + 32 = 0"
      then have "c = - 32" by (simp add: eq_neg_iff_add_eq_0)
      then have "cval c = -32" by (simp add: cval_def)
      then show False using True by simp
    qed
    then show ?thesis using True by (simp add: lower_def)
  next
    case False
    then have "lower c = c" unfolding lower_def by (rule if_not_P)
    then show ?thesis using that by simp
  qed
  moreover assume "EOS \<notin> set s"
  ultimately show ?thesis by (metis (no_types, lifting) imageE in_set_takeD list.set_map mklower_def)
qed

definition sym_room :: "symbols \<Rightarrow> byte list \<Rightarrow> byte list \<Rightarrow> bool" where
  "sym_room t name val \<longleftrightarrow> sy_cp t + length (mklower name) + length val + 1 < SZ_STRBUF \<and> Suc (sy_n t) < MAX_SYMBOLS"

text \<open>A new symbol is the first of the list, the others stay.\<close>

lemma putsym_list:
  assumes "sym_ok t" "EOS \<notin> set name" "EOS \<notin> set val" "sym_room t name val"
  obtains t' where "putsym name val t = SRet t'" "sym_ok t'" "sym_list t' = (mklower name, val) # sym_list t"
    "sy_cp t \<le> sy_cp t'" "sy_n t' = Suc (sy_n t)" "take (sy_cp t) (sy_buf t') = take (sy_cp t) (sy_buf t)"
    "take (sy_n t) (sy_tab t') = take (sy_n t) (sy_tab t)"
proof -
  let ?nm = "mklower name" and ?cp = "sy_cp t" and ?k = "sy_n t"
  have ok: "length (sy_buf t) = SZ_STRBUF" "length (sy_tab t) = MAX_SYMBOLS" "?k < MAX_SYMBOLS" using assms(1) by (simp_all add: sym_ok_def)
  have r: "?cp + length ?nm + length val + 1 < SZ_STRBUF" "Suc ?k < MAX_SYMBOLS" using assms(4) by (simp_all add: sym_room_def)
  obtain b1 where b1: "putstr ?nm t = SRet (?cp, t\<lparr>sy_buf := b1, sy_cp := ?cp + length ?nm + 1\<rparr>)" "length b1 = SZ_STRBUF"
    "take ?cp b1 = take ?cp (sy_buf t)" "cstr (drop ?cp b1) = ?nm"
    using putstr_effect[OF ok(1) _ set_mklower[OF assms(2)]] r(1) by auto
  let ?t1 = "t\<lparr>sy_buf := b1, sy_cp := ?cp + length ?nm + 1\<rparr>"
  obtain b2 where b2: "putstr val ?t1 = SRet (?cp + length ?nm + 1, ?t1\<lparr>sy_buf := b2, sy_cp := ?cp + length ?nm + 1 + length val + 1\<rparr>)"
    "length b2 = SZ_STRBUF" "take (?cp + length ?nm + 1) b2 = take (?cp + length ?nm + 1) b1" "cstr (drop (?cp + length ?nm + 1) b2) = val"
    using putstr_effect[of ?t1 val] b1(2) assms(3) r(1) by auto
  let ?tab = "(sy_tab t)[?k := (?cp, ?cp + length ?nm + 1)]"
  let ?t' = "t\<lparr>sy_buf := b2, sy_cp := ?cp + length ?nm + 1 + length val + 1, sy_tab := ?tab, sy_n := ?k + 1\<rparr>"
  have run: "putsym name val t = SRet ?t'" using b1(1) b2(1) ok r(2) by (simp add: putsym_def Let_def)
  have front: "take ?cp b2 = take ?cp (sy_buf t)"
    using arg_cong[OF b2(3), of "take ?cp"] b1(3) by (simp add: min_def)
  have nm: "cstr (drop ?cp b2) = ?nm"
    using cstr_front[of ?cp b1 "?cp + length ?nm + 1" b2] b1(2,4) b2(3) r(1) by simp
  have old: "str_at ?t' p = str_at t p" if "p + length (str_at t p) < ?cp" for p
    using cstr_front[of p "sy_buf t" ?cp b2] that ok(1) front r(1) by (simp add: str_at_def)
  have oldi: "fst (sy_tab t ! i) + length (str_at t (fst (sy_tab t ! i))) < ?cp" "snd (sy_tab t ! i) + length (str_at t (snd (sy_tab t ! i))) < ?cp"
    if "i < ?k" for i using assms(1) that by (simp_all add: sym_ok_def)
  have new: "str_at ?t' ?cp = ?nm" "str_at ?t' (?cp + length ?nm + 1) = val" using nm b2(4) by (simp_all add: str_at_def)
  have same: "sy_tab ?t' ! i = sy_tab t ! i" if "i < ?k" for i using that by simp
  have last: "sy_tab ?t' ! ?k = (?cp, ?cp + length ?nm + 1)" using ok by simp
  have ent: "fst (sy_tab ?t' ! i) + length (str_at ?t' (fst (sy_tab ?t' ! i))) < sy_cp ?t'
      \<and> snd (sy_tab ?t' ! i) + length (str_at ?t' (snd (sy_tab ?t' ! i))) < sy_cp ?t'" if "i < sy_n ?t'" for i
  proof (cases "i = ?k")
    case True
    then show ?thesis using last new by simp
  next
    case False
    then have i: "i < ?k" using that by simp
    have "?cp < sy_cp ?t'" by simp
    then show ?thesis unfolding same[OF i] old[OF oldi(1)[OF i]] old[OF oldi(2)[OF i]] using oldi[OF i] by linarith
  qed
  have "sym_ok ?t'" unfolding sym_ok_def using ent b2(2) ok r by simp
  moreover have "sym_list ?t' = (?nm, val) # sym_list t"
  proof -
    have "sym_list ?t' = (str_at ?t' (fst (sy_tab ?t' ! ?k)), str_at ?t' (snd (sy_tab ?t' ! ?k)))
        # map (\<lambda>i. (str_at ?t' (fst (sy_tab ?t' ! i)), str_at ?t' (snd (sy_tab ?t' ! i)))) (rev [0..<?k])"
      by (simp add: sym_list_def)
    moreover have "map (\<lambda>i. (str_at ?t' (fst (sy_tab ?t' ! i)), str_at ?t' (snd (sy_tab ?t' ! i)))) (rev [0..<?k]) = sym_list t"
      unfolding sym_list_def by (rule map_cong[OF refl]) (use same old oldi in auto)
    ultimately show ?thesis using last new by simp
  qed
  ultimately show ?thesis using that[OF run] front by simp
qed

lemma putsym_full:
  assumes "sym_ok t" "EOS \<notin> set name" "EOS \<notin> set val" "sy_cp t < SZ_STRBUF" "\<not> sym_room t name val" "sy_cp t + length (mklower name) + 1 < SZ_STRBUF"
  shows "putsym name val t = SExit"
proof -
  let ?nm = "mklower name" and ?cp = "sy_cp t"
  have ok: "length (sy_buf t) = SZ_STRBUF" "length (sy_tab t) = MAX_SYMBOLS" "sy_n t < MAX_SYMBOLS" using assms(1) by (simp_all add: sym_ok_def)
  obtain b1 where b1: "putstr ?nm t = SRet (?cp, t\<lparr>sy_buf := b1, sy_cp := ?cp + length ?nm + 1\<rparr>)" "length b1 = SZ_STRBUF"
    using putstr_effect[OF ok(1) assms(4) set_mklower[OF assms(2)]] assms(6) by auto
  let ?t1 = "t\<lparr>sy_buf := b1, sy_cp := ?cp + length ?nm + 1\<rparr>"
  have "if sy_cp ?t1 + length val < SZ_STRBUF
    then \<exists>buf. putstr val ?t1 = SRet (sy_cp ?t1, ?t1\<lparr>sy_buf := buf, sy_cp := sy_cp ?t1 + length val + 1\<rparr>) \<and> length buf = SZ_STRBUF
       \<and> take (sy_cp ?t1) buf = take (sy_cp ?t1) (sy_buf ?t1) \<and> cstr (drop (sy_cp ?t1) buf) = val
    else putstr val ?t1 = SExit"
    using b1(2) assms(3,6) by (intro putstr_effect) simp_all
  then show ?thesis using b1(1) ok assms(5) by (auto simp: putsym_def Let_def sym_room_def split: if_splits)
qed


text \<open>
  A table of scoped definitions, as the commands of \<^verbatim>\<open>mkpkg\<close> see it: a definition hides older ones with
  the same key, and restoring a mark forgets what was defined since.
\<close>

fun define_all :: "('k \<Rightarrow> 'v \<Rightarrow> 't \<Rightarrow> 't option) \<Rightarrow> ('k \<times> 'v) list \<Rightarrow> 't \<Rightarrow> 't option" where
  "define_all def [] t = Some t"
| "define_all def ((k, v) # kvs) t = do { t1 \<leftarrow> def k v t; define_all def kvs t1 }"

locale scoped_table =
  fixes define_sym :: "'k \<Rightarrow> 'v \<Rightarrow> 't \<Rightarrow> 't option" and lookup_sym :: "'k \<Rightarrow> 't \<Rightarrow> 'v option"
    and mark_pos :: "'t \<Rightarrow> 'm" and restore_to :: "'m \<Rightarrow> 't \<Rightarrow> 't"
    and entries :: "'t \<Rightarrow> ('n \<times> 'v) list" and norm :: "'k \<Rightarrow> 'n" and inv :: "'t \<Rightarrow> bool" and extends :: "'t \<Rightarrow> 't \<Rightarrow> bool"
  assumes lookup_entries: "inv t \<Longrightarrow> lookup_sym k t = map_of (entries t) (norm k)"
    and define_entries: "inv t \<Longrightarrow> define_sym k v t = Some t' \<Longrightarrow> inv t' \<and> entries t' = (norm k, v) # entries t \<and> extends t t'"
    and extends_refl: "inv t \<Longrightarrow> extends t t"
    and extends_trans: "extends t1 t2 \<Longrightarrow> extends t2 t3 \<Longrightarrow> extends t1 t3"
    and restore_entries: "inv t \<Longrightarrow> inv t' \<Longrightarrow> extends t t' \<Longrightarrow> inv (restore_to (mark_pos t) t') \<and> entries (restore_to (mark_pos t) t') = entries t"
begin

lemma define_all_entries:
  "inv t \<Longrightarrow> define_all define_sym kvs t = Some t' \<Longrightarrow> inv t' \<and> entries t' = rev (map (\<lambda>(k, v). (norm k, v)) kvs) @ entries t \<and> extends t t'"
proof (induction kvs arbitrary: t)
  case (Cons kv kvs)
  obtain k v where kv: "kv = (k, v)" by (cases kv)
  obtain t1 where t1: "define_sym k v t = Some t1" "define_all define_sym kvs t1 = Some t'" using Cons.prems(2) kv by (auto split: bind_splits)
  note d = define_entries[OF Cons.prems(1) t1(1)]
  then show ?case using Cons.IH[OF _ t1(2)] extends_trans kv by fastforce
qed (simp add: extends_refl)

lemma scope_hides: "inv t \<Longrightarrow> define_all define_sym kvs t = Some t' \<Longrightarrow>
  lookup_sym k t' = (case map_of (rev (map (\<lambda>(k, v). (norm k, v)) kvs)) (norm k) of Some v \<Rightarrow> Some v | None \<Rightarrow> lookup_sym k t)"
  using define_all_entries[of t kvs t'] lookup_entries[of t k] lookup_entries[of t' k]
  by (auto simp: map_add_def split: option.splits)

lemma scope_ends: "inv t \<Longrightarrow> define_all define_sym kvs t = Some t' \<Longrightarrow> lookup_sym k (restore_to (mark_pos t) t') = lookup_sym k t"
  using define_all_entries[of t kvs t'] restore_entries[of t t'] lookup_entries by metis

end

text \<open>The model's own table, for keys and values that are C strings.\<close>

definition cstring :: "byte list \<Rightarrow> bool" where
  "cstring s \<longleftrightarrow> EOS \<notin> set s"

definition put_symbol :: "byte list \<Rightarrow> byte list \<Rightarrow> symbols \<Rightarrow> symbols option" where
  "put_symbol name val t =
     (if cstring name \<and> cstring val then (case putsym name val t of SRet t' \<Rightarrow> Some t' | SExit \<Rightarrow> None | SUndef \<Rightarrow> None) else None)"

definition sym_extends :: "symbols \<Rightarrow> symbols \<Rightarrow> bool" where
  "sym_extends t t' \<longleftrightarrow> sy_cp t \<le> sy_cp t' \<and> sy_n t \<le> sy_n t' \<and> take (sy_cp t) (sy_buf t') = take (sy_cp t) (sy_buf t)
     \<and> take (sy_n t) (sy_tab t') = take (sy_n t) (sy_tab t)"

lemma sym_extends_trans: "sym_extends t1 t2 \<Longrightarrow> sym_extends t2 t3 \<Longrightarrow> sym_extends t1 t3"
  unfolding sym_extends_def by (metis min.absorb1 order_trans take_take)

lemma putstr_full: "length (sy_buf t) = SZ_STRBUF \<Longrightarrow> SZ_STRBUF \<le> sy_cp t \<Longrightarrow> putstr s t = SUndef"
  by (cases s) (simp_all add: putstr_def)

lemma putsym_needs_room:
  assumes "sym_ok t" "EOS \<notin> set name" "EOS \<notin> set val" "putsym name val t = SRet t'"
  shows "sym_room t name val"
proof (rule ccontr)
  assume nr: "\<not> sym_room t name val"
  let ?nm = "mklower name"
  have ok: "length (sy_buf t) = SZ_STRBUF" "length (sy_tab t) = MAX_SYMBOLS" "sy_n t < MAX_SYMBOLS" using assms(1) by (simp_all add: sym_ok_def)
  have cp: "sy_cp t < SZ_STRBUF" using putstr_full[OF ok(1), of ?nm] assms(4) by (cases "sy_cp t < SZ_STRBUF") (auto simp: putsym_def)
  note p1 = putstr_effect[OF ok(1) cp set_mklower[OF assms(2)]]
  have fit: "sy_cp t + length ?nm < SZ_STRBUF" using p1 assms(4) by (cases "sy_cp t + length ?nm < SZ_STRBUF") (auto simp: putsym_def)
  then obtain b1 where b1: "putstr ?nm t = SRet (sy_cp t, t\<lparr>sy_buf := b1, sy_cp := sy_cp t + length ?nm + 1\<rparr>)" "length b1 = SZ_STRBUF"
    using p1 by auto
  have "sy_cp t + length ?nm + 1 < SZ_STRBUF"
    using putstr_full[of "t\<lparr>sy_buf := b1, sy_cp := sy_cp t + length ?nm + 1\<rparr>" val] b1 ok assms(4)
    by (cases "sy_cp t + length ?nm + 1 < SZ_STRBUF") (auto simp: putsym_def)
  then show False using putsym_full[OF assms(1-3) cp nr] assms(4) by simp
qed

lemma sym_restore_list:
  assumes "sym_ok t" "sym_ok t'" "sym_extends t t'"
  shows "sym_ok (sym_restore (sym_mark t) t') \<and> sym_list (sym_restore (sym_mark t) t') = sym_list t"
proof -
  let ?r = "sym_restore (sym_mark t) t'"
  have e: "sy_cp t \<le> sy_cp t'" "sy_n t \<le> sy_n t'" "take (sy_cp t) (sy_buf t') = take (sy_cp t) (sy_buf t)"
    "take (sy_n t) (sy_tab t') = take (sy_n t) (sy_tab t)" using assms(3) by (simp_all add: sym_extends_def)
  have ok: "length (sy_buf t) = SZ_STRBUF" "sy_cp t \<le> SZ_STRBUF" "length (sy_buf t') = SZ_STRBUF" "length (sy_tab t') = MAX_SYMBOLS"
    "sy_n t < MAX_SYMBOLS" using assms(1,2) by (simp_all add: sym_ok_def)
  have old: "str_at ?r p = str_at t p" if "p + length (str_at t p) < sy_cp t" for p
    using cstr_front[of p "sy_buf t" "sy_cp t" "sy_buf t'"] that ok e(3) by (simp add: str_at_def sym_restore_def)
  have same: "sy_tab ?r ! i = sy_tab t ! i" if "i < sy_n t" for i
    using arg_cong[OF e(4), of "\<lambda>l. l ! i"] that by (simp add: sym_restore_def)
  have oldi: "fst (sy_tab t ! i) + length (str_at t (fst (sy_tab t ! i))) < sy_cp t" "snd (sy_tab t ! i) + length (str_at t (snd (sy_tab t ! i))) < sy_cp t"
    if "i < sy_n t" for i using assms(1) that by (simp_all add: sym_ok_def)
  have n: "sy_n ?r = sy_n t" "sy_cp ?r = sy_cp t" "sy_buf ?r = sy_buf t'" "sy_tab ?r = sy_tab t'" by (simp_all add: sym_restore_def sym_mark_def)
  have "fst (sy_tab ?r ! i) + length (str_at ?r (fst (sy_tab ?r ! i))) < sy_cp t
      \<and> snd (sy_tab ?r ! i) + length (str_at ?r (snd (sy_tab ?r ! i))) < sy_cp t" if "i < sy_n t" for i
    unfolding same[OF that] old[OF oldi(1)[OF that]] old[OF oldi(2)[OF that]] using oldi[OF that] by (rule conjI)
  then have "sym_ok ?r" unfolding sym_ok_def n(1,2) unfolding n(3,4) using ok by (simp add: n(3,4))
  moreover have "sym_list ?r = sym_list t"
    unfolding sym_list_def n(1) by (rule map_cong[OF refl]) (use same old oldi in auto)
  ultimately show ?thesis ..
qed

interpretation symtab: scoped_table put_symbol getsym sym_mark sym_restore sym_list mklower sym_ok sym_extends
proof
  fix t t' :: symbols and k v
  assume t: "sym_ok t" "put_symbol k v t = Some t'"
  then have p: "putsym k v t = SRet t'" "EOS \<notin> set k" "EOS \<notin> set v"
    by (auto simp: put_symbol_def cstring_def split: if_splits sres.splits)
  show "sym_ok t' \<and> sym_list t' = (mklower k, v) # sym_list t \<and> sym_extends t t'"
  proof (rule putsym_list[OF t(1) p(2,3) putsym_needs_room[OF t(1) p(2,3,1)]])
    fix t''
    assume a: "putsym k v t = SRet t''" "sym_ok t''" "sym_list t'' = (mklower k, v) # sym_list t" "sy_cp t \<le> sy_cp t''"
      "sy_n t'' = Suc (sy_n t)" "take (sy_cp t) (sy_buf t'') = take (sy_cp t) (sy_buf t)" "take (sy_n t) (sy_tab t'') = take (sy_n t) (sy_tab t)"
    then have "t'' = t'" using p(1) by simp
    then show ?thesis using a(2-7) by (simp add: sym_extends_def)
  qed
next
  show "sym_extends t t" for t by (simp add: sym_extends_def)
qed (rule getsym_map_of, erule (1) sym_extends_trans, erule (2) sym_restore_list)


text \<open>
  C18. Scoped macros: after a series of \<^verbatim>\<open>putsym\<close> calls \<^verbatim>\<open>getsym\<close> returns the last value defined for a
  name without regard to case, or what it returned before, and after the buffer and the table are
  set back, as at the end of \<^verbatim>\<open>do_call\<close>, every name has its old value.
\<close>

theorem symbols_scoped:
  assumes "sym_ok t" "define_all put_symbol kvs t = Some t'"
  shows "getsym name t' = (case map_of (rev (map (\<lambda>(k, v). (mklower k, v)) kvs)) (mklower name) of Some v \<Rightarrow> Some v | None \<Rightarrow> getsym name t)
    \<and> getsym name (sym_restore (sym_mark t) t') = getsym name t"
  using symtab.scope_hides[OF assms] symtab.scope_ends[OF assms] by blast

definition no_symbols :: symbols where
  "no_symbols = \<lparr>sy_buf = replicate SZ_STRBUF 0, sy_cp = 0, sy_tab = replicate MAX_SYMBOLS (0, 0), sy_n = 0\<rparr>"

lemma no_symbols_ok: "sym_ok no_symbols"
  by (simp add: sym_ok_def no_symbols_def MAX_SYMBOLS_def)

definition one_symbol :: symbols where
  "one_symbol = (case put_symbol [88] [49] no_symbols of Some t \<Rightarrow> t | None \<Rightarrow> no_symbols)"

lemma one_symbol: "define_all put_symbol [([88], [49])] no_symbols = Some one_symbol"
proof -
  have "sym_room no_symbols [88] [49]" by (simp add: sym_room_def no_symbols_def mklower_def SZ_STRBUF_def MAX_SYMBOLS_def)
  then obtain t where "putsym [88] [49] no_symbols = SRet t" using putsym_list[OF no_symbols_ok, of "[88]" "[49]"] by auto
  then show ?thesis by (simp add: one_symbol_def put_symbol_def cstring_def)
qed

theorem symbols_scoped_witness:
  "getsym [120] one_symbol = (case map_of (rev (map (\<lambda>(k, v). (mklower k, v)) [([88], [49])])) (mklower [120]) of Some v \<Rightarrow> Some v
      | None \<Rightarrow> getsym [120] no_symbols)
    \<and> getsym [120] (sym_restore (sym_mark no_symbols) one_symbol) = getsym [120] no_symbols"
  by (rule symbols_scoped[OF no_symbols_ok one_symbol])

end
