(* ===== verification/Sflist.thy ===== *)
theory Sflist
  imports Symtab
begin

text \<open>
  The special file list of \<^verbatim>\<open>mkpkg\<close>, \<^verbatim>\<open>unix/boot/mkpkg/sflist.c\<close>: the search for a directory and for a
  file, and the pruning of the lists. Strings are offsets into the string buffer, pointers between
  the entries are indices of the array of entries. The comparison of directories is \<^verbatim>\<open>h_direq\<close> of
  \<^verbatim>\<open>unix/boot/mkpkg/host.c\<close>.
\<close>

record sfile =
  sf_stname :: nat
  sf_sfname :: nat
  sf_mkobj :: nat
  sf_next :: "nat option"

record sftab =
  sf_dirs :: "nat list"
  sf_flist :: "nat option list"
  sf_ndirs :: nat
  sf_files :: "sfile list"
  sf_nfiles :: nat

text \<open>
  One of the two loops of \<^verbatim>\<open>h_direq\<close>: behind every component that starts with \<open>iraf\<close> and is
  followed by a slash the name starts anew.
\<close>

function strip_iraf :: "byte list \<Rightarrow> byte list \<Rightarrow> byte list" where
  "strip_iraf dir [] = dir"
| "strip_iraf dir (c # ip) =
     (if c = 47 \<and> take 4 ip = [105, 114, 97, 102] then
        let r = dropWhile (\<lambda>c. c \<noteq> 47) ip in strip_iraf (if r = [] then dir else tl r) r
      else strip_iraf dir ip)"
  by pat_completeness auto
termination
  by (relation "measure (length \<circ> snd)") (auto simp: le_imp_less_Suc[OF length_dropWhile_le])

definition h_direq :: "byte list \<Rightarrow> byte list \<Rightarrow> bool" where
  "h_direq dir1 dir2 \<longleftrightarrow> strip_iraf dir1 dir1 = strip_iraf dir2 dir2"

definition sf_str :: "byte list \<Rightarrow> nat \<Rightarrow> byte list" where
  "sf_str buf p = cstr (drop p buf)"

fun dir_loop :: "byte list \<Rightarrow> sftab \<Rightarrow> byte list \<Rightarrow> nat list \<Rightarrow> nat option" where
  "dir_loop buf t dirname [] = None"
| "dir_loop buf t dirname (i # is) =
     (if h_direq (sf_str buf (sf_dirs t ! i)) dirname then sf_flist t ! i else dir_loop buf t dirname is)"

definition sf_dirsearch :: "byte list \<Rightarrow> sftab \<Rightarrow> byte list \<Rightarrow> nat option" where
  "sf_dirsearch buf t dirname = dir_loop buf t dirname [0..<sf_ndirs t]"

text \<open>The comparison of a listed name with a file name.\<close>

fun sf_match :: "byte list \<Rightarrow> byte list \<Rightarrow> bool" where
  "sf_match (c # p1) (d # p2) = (if c = d then sf_match p1 p2 else c = 42)"
| "sf_match (c # p1) [] = (c = 42)"
| "sf_match [] p2 = (p2 = [])"

partial_function (option) sf_filesearch :: "byte list \<Rightarrow> sftab \<Rightarrow> nat option \<Rightarrow> byte list \<Rightarrow> nat option option" where
  "sf_filesearch buf t sfp stname =
     (case sfp of None \<Rightarrow> Some None
      | Some i \<Rightarrow> if sf_match (sf_str buf (sf_stname (sf_files t ! i))) stname then Some (Some i)
                  else sf_filesearch buf t (sf_next (sf_files t ! i)) stname)"

text \<open>The first index that a loop of \<^verbatim>\<open>sf_prune\<close> finds, or the whole length.\<close>

definition cut_at :: "(nat \<Rightarrow> bool) \<Rightarrow> nat \<Rightarrow> nat" where
  "cut_at P n = (case List.find P [0..<n] of Some i \<Rightarrow> i | None \<Rightarrow> n)"

text \<open>The loop over the directories follows the pointer to the first file, which must not be null.\<close>

fun cut_dirs :: "sftab \<Rightarrow> nat \<Rightarrow> nat list \<Rightarrow> nat option" where
  "cut_dirs t cp [] = Some (sf_ndirs t)"
| "cut_dirs t cp (i # is) =
     (if cp \<le> sf_dirs t ! i then Some i
      else case sf_flist t ! i of None \<Rightarrow> None
        | Some k \<Rightarrow> if cp \<le> sf_stname (sf_files t ! k) then Some i else cut_dirs t cp is)"

definition unlink_beyond :: "nat \<Rightarrow> sfile \<Rightarrow> sfile" where
  "unlink_beyond n f = (case sf_next f of Some k \<Rightarrow> if n \<le> k then f\<lparr>sf_next := None\<rparr> else f | None \<Rightarrow> f)"

definition sf_prune :: "nat \<Rightarrow> sftab \<Rightarrow> sftab option" where
  "sf_prune cp t = do {
     nd \<leftarrow> cut_dirs t cp [0..<sf_ndirs t];
     let nf = cut_at (\<lambda>i. cp \<le> sf_stname (sf_files t ! i)) (sf_nfiles t);
     Some (t\<lparr>sf_ndirs := nd, sf_nfiles := nf,
       sf_files := map (unlink_beyond nf) (take nf (sf_files t)) @ drop nf (sf_files t)\<rparr>) }"

section \<open>The lists\<close>

fun sf_chain :: "sftab \<Rightarrow> nat option \<Rightarrow> nat list \<Rightarrow> bool" where
  "sf_chain t i [] \<longleftrightarrow> i = None"
| "sf_chain t i (j # js) \<longleftrightarrow> i = Some j \<and> j < sf_nfiles t \<and> sf_chain t (sf_next (sf_files t ! j)) js"

text \<open>
  The file entries are stored in the order of their strings, and every directory has a list with
  ascending entries, the first of them behind the name of the directory.
\<close>

definition sf_ok :: "sftab \<Rightarrow> (nat \<Rightarrow> nat list) \<Rightarrow> bool" where
  "sf_ok t ch \<longleftrightarrow> sf_ndirs t \<le> length (sf_dirs t) \<and> length (sf_flist t) = length (sf_dirs t) \<and> sf_nfiles t \<le> length (sf_files t)
     \<and> (\<forall>i j. i < j \<and> j < sf_nfiles t \<longrightarrow> sf_stname (sf_files t ! i) < sf_stname (sf_files t ! j))
     \<and> (\<forall>d < sf_ndirs t. ch d \<noteq> [] \<and> sf_chain t (sf_flist t ! d) (ch d) \<and> sorted_wrt (<) (ch d))"

definition dir_beyond :: "sftab \<Rightarrow> nat \<Rightarrow> nat \<Rightarrow> bool" where
  "dir_beyond t cp i \<longleftrightarrow> cp \<le> sf_dirs t ! i
     \<or> (case sf_flist t ! i of Some k \<Rightarrow> cp \<le> sf_stname (sf_files t ! k) | None \<Rightarrow> False)"

lemma find_in_chain:
  "sf_chain t i js \<Longrightarrow> sf_filesearch buf t i name = Some (List.find (\<lambda>j. sf_match (sf_str buf (sf_stname (sf_files t ! j))) name) js)"
  by (induction js arbitrary: i) (subst sf_filesearch.simps, simp)+

lemma sf_match_spec:
  "42 \<notin> set name \<Longrightarrow> sf_match pat name \<longleftrightarrow>
     (if 42 \<in> set pat then \<exists>r. name = takeWhile (\<lambda>c. c \<noteq> 42) pat @ r else name = pat)"
  by (induction pat name rule: sf_match.induct) auto

lemma cut_at_less: "i < cut_at P n \<Longrightarrow> \<not> P i \<and> i < n"
proof (cases "List.find P [0..<n]")
  case None
  then show "i < cut_at P n \<Longrightarrow> ?thesis" by (auto simp: cut_at_def find_None_iff)
next
  case (Some d)
  then have d: "d < n" "\<forall>j < d. \<not> P j" by (auto simp: find_Some_iff)
  then show "i < cut_at P n \<Longrightarrow> ?thesis" using Some by (simp add: cut_at_def)
qed

lemma cut_at_le: "cut_at P n \<le> n"
  by (auto simp: cut_at_def find_Some_iff split: option.splits)

lemma cut_at_holds: "cut_at P n < n \<Longrightarrow> P (cut_at P n)"
proof (cases "List.find P [0..<n]")
  case (Some d)
  then have "P d" by (auto simp: find_Some_iff)
  then show ?thesis using Some by (simp add: cut_at_def)
qed (simp add: cut_at_def)

lemma chain_head: "sf_chain t (sf_flist t ! d) ch \<Longrightarrow> ch \<noteq> [] \<Longrightarrow> sf_flist t ! d = Some (hd ch)"
  by (cases ch) simp_all

lemma cut_dirs_at:
  "(\<forall>i \<in> set is. sf_flist t ! i \<noteq> None) \<Longrightarrow>
   cut_dirs t cp is = Some (case List.find (dir_beyond t cp) is of Some i \<Rightarrow> i | None \<Rightarrow> sf_ndirs t)"
  by (induction "is") (auto simp: dir_beyond_def split: option.splits)

text \<open>The chain of a remaining directory is cut where the remaining entries end.\<close>

lemma chain_pruned:
  assumes "length (sf_files t) \<ge> sf_nfiles t" "nf \<le> sf_nfiles t" "sf_nfiles t' = nf"
    "sf_files t' = map (unlink_beyond nf) (take nf (sf_files t)) @ drop nf (sf_files t)"
  shows "sf_chain t i js \<Longrightarrow> sorted_wrt (<) js \<Longrightarrow> js \<noteq> [] \<Longrightarrow> hd js < nf \<Longrightarrow> sf_chain t' i (takeWhile (\<lambda>j. j < nf) js)"
proof (induction js arbitrary: i)
  case (Cons j js)
  have j: "j < nf" "i = Some j" "sf_chain t (sf_next (sf_files t ! j)) js" using Cons.prems by simp_all
  have f: "sf_files t' ! j = unlink_beyond nf (sf_files t ! j)" using assms(1,2,4) j(1) by (simp add: nth_append)
  show ?case
  proof (cases js)
    case Nil
    then show ?thesis using j f assms(3) by (simp add: unlink_beyond_def)
  next
    case (Cons k ks)
    then have k: "sf_next (sf_files t ! j) = Some k" using j(3) by simp
    show ?thesis
    proof (cases "k < nf")
      case True
      then have "sf_chain t' (Some k) (takeWhile (\<lambda>j. j < nf) js)" using Cons.IH[of "Some k"] Cons.prems j(3) k Cons by simp
      then show ?thesis using j f k True assms(3) by (simp add: unlink_beyond_def)
    next
      case False
      then show ?thesis using j f k Cons assms(3) by (simp add: unlink_beyond_def)
    qed
  qed
qed simp

text \<open>
  C37. Pruning at a point of the string buffer. Of the files exactly those whose name is in front of the point
  remain; of the directories those in front of the first one whose name, or whose first file, is beyond it.
  The names and offsets of what remains are unchanged, the list of every remaining directory is its old list
  up to the first file that is gone, and the table stays well formed.
\<close>

theorem sf_prune_keeps_front:
  assumes "sf_ok t ch"
  shows "\<exists>t'. sf_prune cp t = Some t' \<and> sf_ok t' (\<lambda>d. takeWhile (\<lambda>j. j < sf_nfiles t') (ch d))
    \<and> sf_nfiles t' \<le> sf_nfiles t \<and> sf_ndirs t' \<le> sf_ndirs t \<and> sf_dirs t' = sf_dirs t \<and> sf_flist t' = sf_flist t
    \<and> (\<forall>j < sf_nfiles t. j < sf_nfiles t' \<longleftrightarrow> sf_stname (sf_files t ! j) < cp)
    \<and> (\<forall>d < sf_ndirs t. d < sf_ndirs t' \<longleftrightarrow>
        (\<forall>i \<le> d. sf_dirs t ! i < cp \<and> sf_stname (sf_files t ! hd (ch i)) < cp))
    \<and> (\<forall>j < sf_nfiles t'. \<exists>nx. sf_files t' ! j = (sf_files t ! j)\<lparr>sf_next := nx\<rparr>)"
proof -
  let ?P = "\<lambda>i. cp \<le> sf_stname (sf_files t ! i)"
  let ?nf = "cut_at ?P (sf_nfiles t)" and ?nd = "cut_at (dir_beyond t cp) (sf_ndirs t)"
  let ?t' = "t\<lparr>sf_ndirs := ?nd, sf_nfiles := ?nf, sf_files := map (unlink_beyond ?nf) (take ?nf (sf_files t)) @ drop ?nf (sf_files t)\<rparr>"
  have len: "sf_ndirs t \<le> length (sf_dirs t)" "length (sf_flist t) = length (sf_dirs t)" "sf_nfiles t \<le> length (sf_files t)"
    and mono: "\<And>i j. i < j \<Longrightarrow> j < sf_nfiles t \<Longrightarrow> sf_stname (sf_files t ! i) < sf_stname (sf_files t ! j)"
    and ch: "\<And>d. d < sf_ndirs t \<Longrightarrow> ch d \<noteq> [] \<and> sf_chain t (sf_flist t ! d) (ch d) \<and> sorted_wrt (<) (ch d)"
    using assms by (simp_all add: sf_ok_def)
  have hd: "sf_flist t ! d = Some (hd (ch d))" if "d < sf_ndirs t" for d using chain_head ch[OF that] by blast
  have "cut_dirs t cp [0..<sf_ndirs t] = Some ?nd" using hd cut_dirs_at[of "[0..<sf_ndirs t]" t cp] by (simp add: cut_at_def)
  then have run: "sf_prune cp t = Some ?t'" by (simp add: sf_prune_def Let_def)
  have nf: "?nf \<le> sf_nfiles t" "?nd \<le> sf_ndirs t" by (rule cut_at_le)+
  have same: "sf_files ?t' ! j = unlink_beyond ?nf (sf_files t ! j)" if "j < ?nf" for j
    using that nf(1) len(3) by (simp add: nth_append)
  have st: "sf_stname (sf_files ?t' ! j) = sf_stname (sf_files t ! j)" if "j < ?nf" for j
    unfolding same[OF that] by (simp add: unlink_beyond_def split: option.splits)
  have files: "j < ?nf \<longleftrightarrow> sf_stname (sf_files t ! j) < cp" if j: "j < sf_nfiles t" for j
  proof
    show "sf_stname (sf_files t ! j) < cp" if "j < ?nf" using cut_at_less[OF that] by simp
    show "j < ?nf" if lt: "sf_stname (sf_files t ! j) < cp"
    proof (rule ccontr)
      assume "\<not> j < ?nf"
      then have ge: "?nf \<le> j" by simp
      then have "cp \<le> sf_stname (sf_files t ! ?nf)" using cut_at_holds[of ?P "sf_nfiles t"] j by simp
      moreover have "sf_stname (sf_files t ! ?nf) \<le> sf_stname (sf_files t ! j)"
        using mono[OF _ j, of ?nf] ge by (cases "?nf = j") simp_all
      ultimately show False using lt by linarith
    qed
  qed
  have beyond: "dir_beyond t cp i \<longleftrightarrow> \<not> (sf_dirs t ! i < cp \<and> sf_stname (sf_files t ! hd (ch i)) < cp)" if "i < sf_ndirs t" for i
    using hd[OF that] by (auto simp: dir_beyond_def)
  have dirs: "d < ?nd \<longleftrightarrow> (\<forall>i \<le> d. sf_dirs t ! i < cp \<and> sf_stname (sf_files t ! hd (ch i)) < cp)" if d: "d < sf_ndirs t" for d
  proof -
    have "d < ?nd \<longleftrightarrow> (\<forall>i \<le> d. \<not> dir_beyond t cp i)"
    proof
      show "\<forall>i \<le> d. \<not> dir_beyond t cp i" if "d < ?nd" using that cut_at_less[of _ "dir_beyond t cp" "sf_ndirs t"] by auto
      show "d < ?nd" if "\<forall>i \<le> d. \<not> dir_beyond t cp i"
        using that cut_at_holds[of "dir_beyond t cp" "sf_ndirs t"] d by (metis linorder_not_less order_le_less_trans)
    qed
    then show ?thesis using beyond d by auto
  qed
  have first: "hd (ch d) < ?nf" if "d < ?nd" for d
  proof -
    have d: "d < sf_ndirs t" using that nf(2) by simp
    have "hd (ch d) < sf_nfiles t" using ch[OF d] by (cases "ch d") simp_all
    then show ?thesis using files dirs[OF d] that by simp
  qed
  have "sf_ok ?t' (\<lambda>d. takeWhile (\<lambda>j. j < sf_nfiles ?t') (ch d))"
    unfolding sf_ok_def
  proof (intro conjI allI impI)
    fix i j assume "i < j \<and> j < sf_nfiles ?t'"
    then show "sf_stname (sf_files ?t' ! i) < sf_stname (sf_files ?t' ! j)" using st[of i] st[of j] mono nf(1) by simp
  next
    fix d assume "d < sf_ndirs ?t'"
    then have d: "d < ?nd" "d < sf_ndirs t" using nf(2) by simp_all
    show "takeWhile (\<lambda>j. j < sf_nfiles ?t') (ch d) \<noteq> []" using first[OF d(1)] ch[OF d(2)] by (cases "ch d") simp_all
    show "sf_chain ?t' (sf_flist ?t' ! d) (takeWhile (\<lambda>j. j < sf_nfiles ?t') (ch d))"
      using chain_pruned[OF len(3) nf(1), of ?t'] ch[OF d(2)] first[OF d(1)] by simp
    show "sorted_wrt (<) (takeWhile (\<lambda>j. j < sf_nfiles ?t') (ch d))" using ch[OF d(2)] by (simp add: sorted_wrt_takeWhile)
  qed (use len nf in simp_all)
  moreover have "\<exists>nx. sf_files ?t' ! j = (sf_files t ! j)\<lparr>sf_next := nx\<rparr>" if "j < sf_nfiles ?t'" for j
  proof -
    have "j < ?nf" using that by simp
    from same[OF this] show ?thesis
      by (cases "sf_files t ! j") (auto simp: unlink_beyond_def split: option.splits)
  qed
  ultimately show ?thesis using run nf files dirs by (intro exI[of _ ?t'] conjI) simp_all
qed

definition demo_sftab :: sftab where
  "demo_sftab = \<lparr>sf_dirs = [0, 40], sf_flist = [Some 0, Some 1], sf_ndirs = 2,
     sf_files = [\<lparr>sf_stname = 10, sf_sfname = 10, sf_mkobj = 15, sf_next = Some 2\<rparr>,
       \<lparr>sf_stname = 50, sf_sfname = 50, sf_mkobj = 55, sf_next = None\<rparr>, \<lparr>sf_stname = 60, sf_sfname = 60, sf_mkobj = 65, sf_next = None\<rparr>], sf_nfiles = 3\<rparr>"

definition demo_chain :: "nat \<Rightarrow> nat list" where
  "demo_chain d = (if d = 0 then [0, 2] else [1])"

lemma demo_sftab_ok: "sf_ok demo_sftab demo_chain"
proof -
  have "sf_stname (sf_files demo_sftab ! i) < sf_stname (sf_files demo_sftab ! j)" if "i < j" "j < 3" for i j
  proof -
    have "i = 0 \<and> j = 1 \<or> i = 0 \<and> j = 2 \<or> i = 1 \<and> j = 2" using that by linarith
    then show ?thesis by (auto simp: demo_sftab_def)
  qed
  moreover have "sf_chain demo_sftab (sf_flist demo_sftab ! d) (demo_chain d)" "sorted_wrt (<) (demo_chain d)" if "d < 2" for d
  proof -
    have "d = 0 \<or> d = 1" using that by linarith
    then show "sf_chain demo_sftab (sf_flist demo_sftab ! d) (demo_chain d)" by (auto simp: demo_sftab_def demo_chain_def)
    show "sorted_wrt (<) (demo_chain d)" by (simp add: demo_chain_def)
  qed
  moreover have "demo_chain d \<noteq> []" for d by (simp add: demo_chain_def)
  ultimately show ?thesis unfolding sf_ok_def by (simp add: demo_sftab_def)
qed

theorem sf_prune_keeps_front_witness:
  "\<exists>t'. sf_prune 55 demo_sftab = Some t' \<and> sf_nfiles t' = 2 \<and> sf_ndirs t' = 2"
proof -
  from sf_prune_keeps_front[OF demo_sftab_ok, of 55] obtain t' where t': "sf_prune 55 demo_sftab = Some t'"
    "sf_nfiles t' \<le> sf_nfiles demo_sftab" "sf_ndirs t' \<le> sf_ndirs demo_sftab"
    "\<forall>j < sf_nfiles demo_sftab. j < sf_nfiles t' \<longleftrightarrow> sf_stname (sf_files demo_sftab ! j) < 55"
    "\<forall>d < sf_ndirs demo_sftab. d < sf_ndirs t' \<longleftrightarrow>
        (\<forall>i \<le> d. sf_dirs demo_sftab ! i < 55 \<and> sf_stname (sf_files demo_sftab ! hd (demo_chain i)) < 55)" by blast
  have "1 < sf_nfiles t'" "\<not> 2 < sf_nfiles t'" "1 < sf_ndirs t'"
    using t'(4)[rule_format, of 1] t'(4)[rule_format, of 2] t'(5)[rule_format, of 1]
    by (simp_all add: demo_sftab_def demo_chain_def le_Suc_eq)
  then show ?thesis using t'(1-3) by (simp add: demo_sftab_def)
qed

text \<open>
  The search for a special file returns the first entry of the directory whose name is the file
  name, or whose text in front of an asterisk is a prefix of it, and null when there is none.
\<close>

theorem sf_filesearch_first:
  assumes "sf_ok t ch" "d < sf_ndirs t" "42 \<notin> set name"
  shows "sf_filesearch buf t (sf_flist t ! d) name = Some (List.find (\<lambda>j.
      let pat = sf_str buf (sf_stname (sf_files t ! j))
      in if 42 \<in> set pat then take (length (takeWhile (\<lambda>c. c \<noteq> 42) pat)) name = takeWhile (\<lambda>c. c \<noteq> 42) pat else name = pat) (ch d))"
proof -
  have "sf_chain t (sf_flist t ! d) (ch d)" using assms(1,2) by (simp add: sf_ok_def)
  moreover have "(\<exists>r. name = p @ r) \<longleftrightarrow> take (length p) name = p" for p by (metis append_eq_conv_conj append_take_drop_id)
  ultimately show ?thesis using find_in_chain sf_match_spec[OF assms(3)] by (simp add: Let_def)
qed

theorem sf_filesearch_first_witness:
  "sf_filesearch (replicate 70 0) demo_sftab (sf_flist demo_sftab ! 1) [97] = Some (List.find (\<lambda>j.
      let pat = sf_str (replicate 70 0) (sf_stname (sf_files demo_sftab ! j))
      in if 42 \<in> set pat then take (length (takeWhile (\<lambda>c. c \<noteq> 42) pat)) [97] = takeWhile (\<lambda>c. c \<noteq> 42) pat else [97] = pat) (demo_chain 1))"
  by (rule sf_filesearch_first[OF demo_sftab_ok]) (simp_all add: demo_sftab_def)

end
