(* ===== verification/Pushback.thy ===== *)
theory Pushback
  imports LibcStr
begin

text \<open>
  The character input of \<^verbatim>\<open>mkpkg\<close>, \<^verbatim>\<open>unix/boot/mkpkg/char.c\<close>: the file, a stack of strings pushed
  back in front of it, and one more character in front of them. \<open>Undef\<close> is an access outside an
  array, \<open>Fatals\<close> the exit through \<^verbatim>\<open>fatals\<close>.
\<close>

definition SZ_PBSTK :: nat where "SZ_PBSTK = 50"
definition SZ_PBBUF :: nat where "SZ_PBBUF = 2048"

record pushback =
  pb_ip :: nat
  pb_op :: nat
  pb_npb :: nat
  pb_stk :: "nat list"
  pb_buf :: "byte list"

record mk_context =
  cx_file :: "byte list"
  cx_stdin :: "byte list"
  cx_lineno :: int
  cx_pbchar :: int
  cx_pushback :: nat
  cx_pb :: "pushback option"

datatype 'a outcome = Ret 'a | Fatals | Undef

text \<open>\<^verbatim>\<open>malloc\<close> leaves the arrays of the descriptor unset: \<open>junk\<close> are their contents.\<close>

definition mk_pbbuf :: "nat list \<times> byte list \<Rightarrow> pushback" where
  "mk_pbbuf junk = \<lparr>pb_ip = 0, pb_op = 0, pb_npb = 0, pb_stk = fst junk, pb_buf = snd junk\<rparr>"

definition pb_cancel :: "mk_context \<Rightarrow> mk_context" where
  "pb_cancel cx = cx\<lparr>cx_pushback := 0, cx_pbchar := 0,
     cx_pb := (case cx_pb cx of None \<Rightarrow> None | Some pb \<Rightarrow> Some (pb\<lparr>pb_npb := 0, pb_ip := 0, pb_op := 0\<rparr>))\<rparr>"

definition nl :: "byte \<Rightarrow> int" where
  "nl c = (if c = 10 then 1 else 0)"

text \<open>The copying loop of \<^verbatim>\<open>m_pushstr\<close>: the new buffer, the end and the newlines in the copied text. Each
  store is checked against the end of the array; behind it the result is \<open>None\<close>.\<close>

definition put_byte :: "byte list \<Rightarrow> nat \<Rightarrow> byte \<Rightarrow> byte list option" where
  "put_byte buf op c = (if op < length buf then Some (buf[op := c]) else None)"

fun push_copy :: "byte list \<Rightarrow> nat \<Rightarrow> byte list \<Rightarrow> (byte list \<times> nat \<times> int) option" where
  "push_copy buf op [] = do { b \<leftarrow> put_byte buf op EOS; Some (b, Suc op, 0) }"
| "push_copy buf op (c # s) = do {
     b \<leftarrow> put_byte buf op c;
     if SZ_PBBUF \<le> Suc op then Some (b, Suc op, nl c)
     else do { (b, p, n) \<leftarrow> push_copy b (Suc op) s; Some (b, p, nl c + n) } }"

definition m_pushstr :: "nat list \<times> byte list \<Rightarrow> byte list \<Rightarrow> mk_context \<Rightarrow> mk_context outcome" where
  "m_pushstr junk str cx =
     (let pb = (case cx_pb cx of None \<Rightarrow> mk_pbbuf junk | Some pb \<Rightarrow> pb); n = pb_npb pb
      in if length (pb_stk pb) \<le> Suc n then Undef
         else case push_copy (pb_buf pb) (pb_op pb) str of
           None \<Rightarrow> Undef
         | Some (buf, op, lines) \<Rightarrow>
           let cx' = cx\<lparr>cx_pushback := cx_pushback cx + 1, cx_lineno := cx_lineno cx - lines,
                 cx_pb := Some \<lparr>pb_ip = pb_op pb, pb_op = op, pb_npb = n + 2,
                   pb_stk = (pb_stk pb)[n := pb_ip pb, Suc n := pb_op pb], pb_buf = buf\<rparr>\<rparr>
           in if SZ_PBSTK \<le> n + 2 + 2 \<or> SZ_PBBUF \<le> op then Fatals else Ret cx')"

definition m_ungetc :: "nat list \<times> byte list \<Rightarrow> int \<Rightarrow> mk_context \<Rightarrow> mk_context outcome" where
  "m_ungetc junk ch cx =
     (let cx1 = (if ch = 10 then cx\<lparr>cx_lineno := cx_lineno cx - 1\<rparr> else cx); ps = (word_of_int (cx_pbchar cx) :: byte)
      in case (if ps \<noteq> 0 then m_pushstr junk [ps] cx1 else Ret cx1) of
           Ret cx2 \<Rightarrow> Ret (cx2\<lparr>cx_pbchar := ch\<rparr>) | Fatals \<Rightarrow> Fatals | Undef \<Rightarrow> Undef)"

text \<open>The end of file stays the end of file.\<close>

definition k_getc :: "mk_context \<Rightarrow> int \<times> mk_context" where
  "k_getc cx = (case cx_file cx of [] \<Rightarrow> (-1, cx) | c # r \<Rightarrow> (uint c, cx\<lparr>cx_file := r\<rparr>))"

definition count_line :: "int \<Rightarrow> mk_context \<Rightarrow> (int \<times> mk_context) outcome" where
  "count_line ch cx = Ret (ch, if ch = 10 then cx\<lparr>cx_lineno := cx_lineno cx + 1\<rparr> else cx)"

text \<open>The loop of \<^verbatim>\<open>m_rawgetc\<close>: a pass ends with a character or takes a string off the stack.\<close>

function rawgetc_loop :: "pushback \<Rightarrow> mk_context \<Rightarrow> (int \<times> mk_context) outcome" where
  "rawgetc_loop pb cx =
     (if length (pb_buf pb) \<le> pb_ip pb then Undef
      else
        let ch = pb_buf pb ! pb_ip pb; pb1 = pb\<lparr>pb_ip := Suc (pb_ip pb)\<rparr>
        in if ch \<noteq> EOS then count_line (cval ch) (cx\<lparr>cx_pb := Some pb1\<rparr>)
           else if pb_npb pb < 2 \<or> length (pb_stk pb) < pb_npb pb then Undef
           else
             let n = pb_npb pb - 2;
                 pb2 = pb1\<lparr>pb_op := pb_stk pb ! Suc n, pb_ip := pb_stk pb ! n, pb_npb := n\<rparr>
             in if n = 0 then
                  (let (ch, cx') = k_getc (cx\<lparr>cx_pb := Some pb2, cx_pushback := 0\<rparr>) in count_line ch cx')
                else rawgetc_loop pb2 cx)"
  by pat_completeness auto
termination by (relation "measure (pb_npb \<circ> fst)") auto

declare rawgetc_loop.simps [simp del]

definition m_rawgetc :: "mk_context \<Rightarrow> (int \<times> mk_context) outcome" where
  "m_rawgetc cx =
     (if cx_pbchar cx \<noteq> 0 then count_line (cx_pbchar cx) (cx\<lparr>cx_pbchar := 0\<rparr>)
      else if cx_pushback cx = 0 then (let (ch, cx') = k_getc cx in count_line ch cx')
      else case cx_pb cx of None \<Rightarrow> Undef | Some pb \<Rightarrow> rawgetc_loop pb cx)"

section \<open>The pending input\<close>

text \<open>
  What is still to be read: the strings of the stack from the top down, then the file. The bottom
  of the stack is not read, it stands for the file.
\<close>

fun pb_text :: "byte list \<Rightarrow> nat list \<Rightarrow> nat \<Rightarrow> nat \<Rightarrow> byte list list" where
  "pb_text buf stk n ip =
     (if n < 2 then [] else cstr (drop ip buf) # pb_text buf stk (n - 2) (stk ! (n - 2)))"

declare pb_text.simps [simp del]

definition texts :: "mk_context \<Rightarrow> byte list list" where
  "texts cx = (case cx_pb cx of None \<Rightarrow> [] | Some pb \<Rightarrow> pb_text (pb_buf pb) (pb_stk pb) (pb_npb pb) (pb_ip pb))"

definition chars :: "byte list list \<Rightarrow> byte list \<Rightarrow> int list" where
  "chars ts f = map cval (concat ts) @ map uint f"

definition pending :: "mk_context \<Rightarrow> int list" where
  "pending cx = (if cx_pbchar cx \<noteq> 0 then [cx_pbchar cx] else []) @ chars (texts cx) (cx_file cx)"

text \<open>
  The shape of the stack: every string ends in front of the end of its part of the buffer, and
  the parts follow one another from the bottom.
\<close>

fun pb_shape :: "byte list \<Rightarrow> nat list \<Rightarrow> nat \<Rightarrow> nat \<Rightarrow> nat \<Rightarrow> bool" where
  "pb_shape buf stk n ip op \<longleftrightarrow>
     (if n = 0 then ip = 0 \<and> op = 0
      else 2 \<le> n \<and> ip + length (cstr (drop ip buf)) < op \<and> stk ! Suc (n - 2) \<le> ip
        \<and> pb_shape buf stk (n - 2) (stk ! (n - 2)) (stk ! Suc (n - 2)))"

declare pb_shape.simps [simp del]

definition pb_ok :: "pushback \<Rightarrow> bool" where
  "pb_ok pb \<longleftrightarrow> length (pb_buf pb) = SZ_PBBUF + 1 \<and> length (pb_stk pb) = SZ_PBSTK \<and> pb_op pb < SZ_PBBUF
     \<and> pb_npb pb + 2 < SZ_PBSTK \<and> pb_shape (pb_buf pb) (pb_stk pb) (pb_npb pb) (pb_ip pb) (pb_op pb)"

definition cx_ok :: "mk_context \<Rightarrow> bool" where
  "cx_ok cx \<longleftrightarrow> (case cx_pb cx of None \<Rightarrow> cx_pushback cx = 0
     | Some pb \<Rightarrow> pb_ok pb \<and> (cx_pushback cx = 0 \<longleftrightarrow> pb_npb pb = 0))"

lemma cx_ok_upd [simp]:
  "cx_ok (cx\<lparr>cx_lineno := l\<rparr>) = cx_ok cx" "cx_ok (cx\<lparr>cx_pbchar := ch\<rparr>) = cx_ok cx"
  "cx_ok (cx\<lparr>cx_stdin := inp\<rparr>) = cx_ok cx" "cx_ok (cx\<lparr>cx_file := f\<rparr>) = cx_ok cx"
  by (simp_all add: cx_ok_def split: option.splits)

lemma texts_upd [simp]:
  "texts (cx\<lparr>cx_lineno := l\<rparr>) = texts cx" "texts (cx\<lparr>cx_pbchar := ch\<rparr>) = texts cx"
  "texts (cx\<lparr>cx_stdin := inp\<rparr>) = texts cx" "texts (cx\<lparr>cx_file := f\<rparr>) = texts cx"
  by (simp_all add: texts_def)

definition junk_ok :: "nat list \<times> byte list \<Rightarrow> bool" where
  "junk_ok junk \<longleftrightarrow> length (fst junk) = SZ_PBSTK \<and> length (snd junk) = SZ_PBBUF + 1"

lemma pb_text_simps:
  "pb_text buf stk 0 ip = []"
  "pb_text buf stk (Suc (Suc n)) ip = cstr (drop ip buf) # pb_text buf stk n (stk ! n)"
  by (subst pb_text.simps, simp)+

lemma pb_shape_simps:
  "pb_shape buf stk 0 ip op \<longleftrightarrow> ip = 0 \<and> op = 0"
  "pb_shape buf stk (Suc 0) ip op \<longleftrightarrow> False"
  "pb_shape buf stk (Suc (Suc n)) ip op \<longleftrightarrow>
     ip + length (cstr (drop ip buf)) < op \<and> stk ! Suc n \<le> ip \<and> pb_shape buf stk n (stk ! n) (stk ! Suc n)"
  by (subst pb_shape.simps, simp)+

lemma mk_pbbuf_ok: "junk_ok junk \<Longrightarrow> pb_ok (mk_pbbuf junk)"
  by (simp add: pb_ok_def mk_pbbuf_def junk_ok_def SZ_PBBUF_def SZ_PBSTK_def pb_shape_simps)

lemma pb_cancel_ok: "cx_ok cx \<Longrightarrow> cx_ok (pb_cancel cx) \<and> pending (pb_cancel cx) = map uint (cx_file cx)"
  by (auto simp: cx_ok_def pb_cancel_def pb_ok_def pb_shape_simps pending_def chars_def texts_def pb_text_simps SZ_PBBUF_def SZ_PBSTK_def
      split: option.splits)

text \<open>The stack below is not touched by a push: the buffer changes from \<open>op\<close> on and the stack from \<open>n\<close> on.\<close>

lemma cstr_take_eq:
  assumes "ip + length (cstr (drop ip buf)) < k" "k \<le> length buf" "take k buf' = take k buf"
  shows "cstr (drop ip buf') = cstr (drop ip buf)"
proof -
  have eq: "take (k - ip) (drop ip buf') = take (k - ip) (drop ip buf)"
    using assms(3) by (metis drop_take)
  have "length (cstr xs) < j \<Longrightarrow> take j ys = take j xs \<Longrightarrow> j \<le> length xs \<Longrightarrow> cstr ys = cstr xs" for xs ys :: "byte list" and j
  proof (induction xs arbitrary: ys j)
    case (Cons x xs)
    obtain j' where j: "j = Suc j'" using Cons.prems(1) by (cases j) auto
    then obtain ys' where ys: "ys = x # ys'" "take j' ys' = take j' xs" using Cons.prems(2) by (cases ys) auto
    show ?case
    proof (cases "x = EOS")
      case False
      then have c: "cstr (x # zs) = x # cstr zs" for zs by (simp add: cstr_def)
      have "length (cstr xs) < j'" "j' \<le> length xs" using Cons.prems(1,3) j c[of xs] by simp_all
      with Cons.IH[OF _ ys(2)] show ?thesis unfolding ys(1) c by simp
    qed (use ys(1) in \<open>simp add: cstr_def\<close>)
  qed simp
  moreover have "length (cstr (drop ip buf)) < k - ip" "k - ip \<le> length (drop ip buf)" using assms(1,2) by simp_all
  ultimately show ?thesis using eq by blast
qed

lemma below_unchanged:
  assumes "pb_shape buf stk n ip op" "op \<le> length buf" "take op buf' = take op buf" "take n stk' = take n stk" "n \<le> length stk"
  shows "pb_shape buf' stk' n ip op \<and> pb_text buf' stk' n ip = pb_text buf stk n ip"
  using assms
proof (induction n arbitrary: ip op rule: induct_nat_012)
  case 0
  then show ?case by (simp add: pb_shape_simps pb_text_simps)
next
  case 1
  then show ?case by (simp add: pb_shape_simps)
next
  case (ge2 n)
  have st: "stk' ! n = stk ! n" "stk' ! Suc n = stk ! Suc n" using ge2.prems(4,5)
    by (metis lessI nth_take less_SucI, metis lessI nth_take)
  have s: "ip + length (cstr (drop ip buf)) < op" "stk ! Suc n \<le> ip" "pb_shape buf stk n (stk ! n) (stk ! Suc n)"
    using ge2.prems(1) by (simp_all add: pb_shape_simps)
  have c: "cstr (drop ip buf') = cstr (drop ip buf)" using cstr_take_eq[OF s(1) ge2.prems(2,3)] .
  have le: "stk ! Suc n \<le> op" using s by simp
  have "take (stk ! Suc n) buf' = take (stk ! Suc n) buf" using ge2.prems(3) le by (metis min.absorb1 take_take)
  moreover have "take n stk' = take n stk" 
    using arg_cong[OF ge2.prems(4), of "take n"] by (simp add: min_def)
  ultimately have "pb_shape buf' stk' n (stk ! n) (stk ! Suc n) \<and> pb_text buf' stk' n (stk ! n) = pb_text buf stk n (stk ! n)"
    using ge2.IH(1)[OF s(3)] ge2.prems(2,5) le by simp
  then show ?case using s c st by (simp add: pb_shape_simps pb_text_simps)
qed


text \<open>The copying loop: the whole string with its end when there is room.\<close>

lemma put_byte_Some [simp]: "op < length buf \<Longrightarrow> put_byte buf op c = Some (buf[op := c])"
  by (simp add: put_byte_def)

lemma push_copy_fits:
  "op + length s < SZ_PBBUF - 1 \<Longrightarrow> length buf = SZ_PBBUF + 1 \<Longrightarrow>
   push_copy buf op s = Some (take op buf @ s @ EOS # drop (op + length s + 1) buf, op + length s + 1,
     int (length (filter (\<lambda>c. c = 10) s)))"
proof (induction s arbitrary: op buf)
  case Nil
  then show ?case by (simp add: upd_conv_take_nth_drop)
next
  case (Cons c s)
  have "push_copy (buf[op := c]) (Suc op) s = Some (take (Suc op) (buf[op := c]) @ s @ EOS # drop (Suc op + length s + 1) (buf[op := c]),
      Suc op + length s + 1, int (length (filter (\<lambda>c. c = 10) s)))"
    using Cons.prems by (intro Cons.IH) simp_all
  moreover have "take (Suc op) (buf[op := c]) = take op buf @ [c]" using Cons.prems by (simp add: take_Suc_conv_app_nth)
  ultimately show ?case using Cons.prems by (simp add: nl_def)
qed

lemma push_copy_end:
  assumes "length buf = SZ_PBBUF + 1" "op < SZ_PBBUF"
  shows "\<exists>b k. push_copy buf op s = Some (b, min SZ_PBBUF (op + length s + 1), k)"
  using assms
proof (induction s arbitrary: op buf)
  case (Cons c s)
  show ?case
  proof (cases "SZ_PBBUF \<le> Suc op")
    case False
    then obtain b k where "push_copy (buf[op := c]) (Suc op) s = Some (b, min SZ_PBBUF (Suc op + length s + 1), k)"
      using Cons.IH [of "buf[op := c]" "Suc op"] Cons.prems by auto
    then show ?thesis using Cons.prems False by simp
  qed (use Cons.prems in simp)
qed simp

definition room :: "pushback \<Rightarrow> byte list \<Rightarrow> bool" where
  "room pb s \<longleftrightarrow> pb_npb pb + 4 < SZ_PBSTK \<and> pb_op pb + length s + 1 < SZ_PBBUF"

definition the_pb :: "nat list \<times> byte list \<Rightarrow> mk_context \<Rightarrow> pushback" where
  "the_pb junk cx = (case cx_pb cx of None \<Rightarrow> mk_pbbuf junk | Some pb \<Rightarrow> pb)"

definition newlines :: "byte list \<Rightarrow> int" where
  "newlines s = int (length (filter (\<lambda>c. c = 10) s))"

lemma the_pb_ok: "cx_ok cx \<Longrightarrow> junk_ok junk \<Longrightarrow> pb_ok (the_pb junk cx)"
  by (auto simp: the_pb_def cx_ok_def mk_pbbuf_ok split: option.splits)

lemma the_pb_texts:
  "cx_ok cx \<Longrightarrow> texts cx = pb_text (pb_buf (the_pb junk cx)) (pb_stk (the_pb junk cx)) (pb_npb (the_pb junk cx)) (pb_ip (the_pb junk cx))"
  by (auto simp: the_pb_def texts_def mk_pbbuf_def pb_text_simps split: option.splits)

text \<open>A push with room is a new text in front of the others; without room the program exits.\<close>

lemma m_pushstr_effect:
  assumes "cx_ok cx" "junk_ok junk" "EOS \<notin> set s"
  shows "if room (the_pb junk cx) s
    then \<exists>cx'. m_pushstr junk s cx = Ret cx' \<and> cx_ok cx' \<and> texts cx' = s # texts cx \<and> cx_pbchar cx' = cx_pbchar cx
       \<and> cx_file cx' = cx_file cx \<and> cx_stdin cx' = cx_stdin cx \<and> cx_lineno cx' = cx_lineno cx - newlines s
    else m_pushstr junk s cx = Fatals"
proof -
  define pb where "pb = the_pb junk cx"
  have ok: "pb_ok pb" using the_pb_ok[OF assms(1,2)] by (simp add: pb_def)
  then have l: "length (pb_buf pb) = SZ_PBBUF + 1" "length (pb_stk pb) = SZ_PBSTK" "pb_op pb < SZ_PBBUF" "pb_npb pb + 2 < SZ_PBSTK"
    and sh: "pb_shape (pb_buf pb) (pb_stk pb) (pb_npb pb) (pb_ip pb) (pb_op pb)" by (simp_all add: pb_ok_def)
  obtain buf op k where pc: "push_copy (pb_buf pb) (pb_op pb) s = Some (buf, op, k)"
    and op: "op = min SZ_PBBUF (pb_op pb + length s + 1)" using push_copy_end[OF l(1,3), of s] by blast
  let ?n = "pb_npb pb" and ?stk = "(pb_stk pb)[pb_npb pb := pb_ip pb, Suc (pb_npb pb) := pb_op pb]"
  let ?pb = "\<lparr>pb_ip = pb_op pb, pb_op = op, pb_npb = ?n + 2, pb_stk = ?stk, pb_buf = buf\<rparr>"
  let ?cx = "cx\<lparr>cx_pushback := cx_pushback cx + 1, cx_lineno := cx_lineno cx - k, cx_pb := Some ?pb\<rparr>"
  have run: "m_pushstr junk s cx = (if SZ_PBSTK \<le> ?n + 2 + 2 \<or> SZ_PBBUF \<le> op then Fatals else Ret ?cx)"
    using l pc by (simp add: m_pushstr_def the_pb_def[symmetric] pb_def[symmetric] Let_def)
  have cond: "(SZ_PBSTK \<le> ?n + 2 + 2 \<or> SZ_PBBUF \<le> op) = (\<not> room pb s)" using op by (auto simp: room_def)
  show ?thesis
  proof (cases "room pb s")
    case False
    then show ?thesis using run cond by (simp add: pb_def)
  next
    case True
    then have r: "?n + 4 < SZ_PBSTK" "pb_op pb + length s + 1 < SZ_PBBUF" by (simp_all add: room_def)
    then have b: "buf = take (pb_op pb) (pb_buf pb) @ s @ EOS # drop (pb_op pb + length s + 1) (pb_buf pb)"
      "op = pb_op pb + length s + 1" "k = newlines s"
      using push_copy_fits[OF _ l(1), of "pb_op pb" s] pc by (simp_all add: newlines_def)
    have len: "length buf = SZ_PBBUF + 1" using b(1) r l(1) by simp
    have c: "cstr (drop (pb_op pb) buf) = s" using b(1) l(1,3) assms(3) by simp
    have low: "pb_shape buf ?stk ?n (pb_ip pb) (pb_op pb) \<and> pb_text buf ?stk ?n (pb_ip pb) = pb_text (pb_buf pb) (pb_stk pb) ?n (pb_ip pb)"
      using l b(1) by (intro below_unchanged[OF sh]) simp_all
    have st: "?stk ! ?n = pb_ip pb" "?stk ! Suc ?n = pb_op pb" using l by simp_all
    have "pb_shape buf ?stk (?n + 2) (pb_op pb) op"
      using low c b(2) st by (simp add: pb_shape_simps)
    then have okc: "cx_ok ?cx" using r b(2) l(2) len by (simp add: cx_ok_def pb_ok_def)
    have "texts ?cx = s # texts cx"
      unfolding the_pb_texts[OF assms(1), of junk] pb_def[symmetric] using low c st by (simp add: texts_def pb_text_simps)
    then show ?thesis using True run cond okc b(3) by (simp add: pb_def[symmetric])
  qed
qed


text \<open>The next character: from the first text that is not used up, else from the file.\<close>

fun next_of :: "byte list list \<Rightarrow> byte list \<Rightarrow> int \<times> byte list list \<times> byte list" where
  "next_of ((c # t) # ts) f = (cval c, t # ts, f)"
| "next_of ([] # ts) f = next_of ts f"
| "next_of [] (c # f) = (uint c, [], f)"
| "next_of [] [] = (-1, [], [])"

definition next_done :: "mk_context \<Rightarrow> byte list list \<Rightarrow> int \<Rightarrow> mk_context \<Rightarrow> bool" where
  "next_done cx ts ch cx' \<longleftrightarrow> cx_ok cx' \<and> (ch, texts cx', cx_file cx') = next_of ts (cx_file cx) \<and> cx_pbchar cx' = cx_pbchar cx
     \<and> cx_stdin cx' = cx_stdin cx \<and> cx_lineno cx' = cx_lineno cx + (if ch = 10 then 1 else 0)"

lemma k_getc_done:
  "cx_ok cx \<Longrightarrow> texts cx = [] \<Longrightarrow> \<exists>ch cx'. (let (ch, cx') = k_getc cx in count_line ch cx') = Ret (ch, cx') \<and> next_done cx [] ch cx'"
  by (cases "cx_file cx") (auto simp: k_getc_def count_line_def next_done_def cx_ok_def texts_def split: option.splits)

lemma rawgetc_loop_done:
  "pb_ok pb \<Longrightarrow> pb_npb pb \<noteq> 0 \<Longrightarrow> cx_pushback cx \<noteq> 0 \<Longrightarrow>
   \<exists>ch cx'. rawgetc_loop pb cx = Ret (ch, cx') \<and> next_done cx (pb_text (pb_buf pb) (pb_stk pb) (pb_npb pb) (pb_ip pb)) ch cx'"
proof (induction "pb_npb pb" arbitrary: pb rule: less_induct)
  case less
  let ?buf = "pb_buf pb" and ?ip = "pb_ip pb" and ?stk = "pb_stk pb"
  have l: "length ?buf = SZ_PBBUF + 1" "length ?stk = SZ_PBSTK" "pb_op pb < SZ_PBBUF" "pb_npb pb + 2 < SZ_PBSTK"
    and sh: "pb_shape ?buf ?stk (pb_npb pb) ?ip (pb_op pb)" using less.prems(1) by (simp_all add: pb_ok_def)
  obtain n where n: "pb_npb pb = Suc (Suc n)" using sh less.prems(2)
    by (metis not0_implies_Suc pb_shape_simps(2))
  have s: "?ip + length (cstr (drop ?ip ?buf)) < pb_op pb" "?stk ! Suc n \<le> ?ip" "pb_shape ?buf ?stk n (?stk ! n) (?stk ! Suc n)"
    using sh by (simp_all add: n pb_shape_simps)
  have ip: "?ip < length ?buf" using s(1) l by simp
  then have d: "drop ?ip ?buf = ?buf ! ?ip # drop (Suc ?ip) ?buf" by (simp add: Cons_nth_drop_Suc)
  show ?case
  proof (cases "?buf ! ?ip = EOS")
    case False
    let ?cx = "cx\<lparr>cx_pb := Some (pb\<lparr>pb_ip := Suc ?ip\<rparr>)\<rparr>"
    have c: "cstr (drop ?ip ?buf) = ?buf ! ?ip # cstr (drop (Suc ?ip) ?buf)" using False unfolding d by (simp add: cstr_def)
    have "pb_ok (pb\<lparr>pb_ip := Suc ?ip\<rparr>)"
      using l s c less.prems(1) by (simp add: pb_ok_def n pb_shape_simps)
    then have "next_done cx (pb_text ?buf ?stk (pb_npb pb) ?ip) (cval (?buf ! ?ip))
        (if cval (?buf ! ?ip) = 10 then ?cx\<lparr>cx_lineno := cx_lineno ?cx + 1\<rparr> else ?cx)"
      using less.prems(3) c by (simp add: next_done_def cx_ok_def texts_def n pb_text_simps)
    moreover have "rawgetc_loop pb cx = count_line (cval (?buf ! ?ip)) ?cx"
      using False ip by (subst rawgetc_loop.simps) (simp add: Let_def)
    ultimately show ?thesis by (simp add: count_line_def)
  next
    case True
    let ?pb = "pb\<lparr>pb_op := ?stk ! Suc n, pb_ip := ?stk ! n, pb_npb := n\<rparr>"
    have c: "cstr (drop ?ip ?buf) = []" using True unfolding d by (simp add: cstr_def)
    have ok: "pb_ok ?pb" using l s c by (simp add: pb_ok_def n)
    have run: "rawgetc_loop pb cx = (if n = 0 then (let (ch, cx') = k_getc (cx\<lparr>cx_pb := Some ?pb, cx_pushback := 0\<rparr>) in count_line ch cx')
        else rawgetc_loop ?pb cx)"
      using True ip n l by (subst rawgetc_loop.simps) (simp add: Let_def)
    have tx: "next_done cx (pb_text ?buf ?stk (pb_npb pb) ?ip) = next_done cx (pb_text ?buf ?stk n (?stk ! n))"
      using c by (simp add: n pb_text_simps next_done_def fun_eq_iff)
    show ?thesis
    proof (cases "n = 0")
      case True
      let ?cx = "cx\<lparr>cx_pb := Some ?pb, cx_pushback := 0\<rparr>"
      have "cx_ok ?cx" "texts ?cx = []" using ok True by (simp_all add: cx_ok_def texts_def pb_text_simps)
      from k_getc_done[OF this] show ?thesis unfolding tx using run True by (simp add: pb_text_simps next_done_def)
    next
      case False
      have "\<exists>ch cx'. rawgetc_loop ?pb cx = Ret (ch, cx') \<and> next_done cx (pb_text (pb_buf ?pb) (pb_stk ?pb) (pb_npb ?pb) (pb_ip ?pb)) ch cx'"
        using ok False less.prems(3) n by (intro less.hyps) simp_all
      then show ?thesis unfolding tx using run False by simp
    qed
  qed
qed

lemma m_rawgetc_done:
  assumes "cx_ok cx" "cx_pbchar cx = 0"
  shows "\<exists>ch cx'. m_rawgetc cx = Ret (ch, cx') \<and> next_done cx (texts cx) ch cx'"
proof (cases "cx_pushback cx = 0")
  case True
  then have t: "texts cx = []" using assms(1) by (auto simp: cx_ok_def texts_def pb_text_simps split: option.splits)
  show ?thesis using k_getc_done[OF assms(1) t] assms(2) True t by (simp add: m_rawgetc_def)
next
  case False
  then obtain pb where pb: "cx_pb cx = Some pb" "pb_ok pb" "pb_npb pb \<noteq> 0" using assms(1) by (auto simp: cx_ok_def split: option.splits)
  show ?thesis using rawgetc_loop_done[OF pb(2,3) False] assms(2) False pb(1) by (simp add: m_rawgetc_def texts_def)
qed

lemma next_of_concat:
  "next_of ts f = (ch, ts', f') \<Longrightarrow>
   (case chars ts f of [] \<Rightarrow> ch = -1 \<and> chars ts' f' = [] | c # r \<Rightarrow> ch = c \<and> chars ts' f' = r)"
  by (induction ts f rule: next_of.induct) (auto simp: chars_def)

text \<open>The contract of \<^verbatim>\<open>m_rawgetc\<close>: it takes the first pending character, and at the end of the file \<^verbatim>\<open>EOF\<close>.\<close>

lemma m_rawgetc_pending:
  assumes "cx_ok cx"
  shows "\<exists>ch cx'. m_rawgetc cx = Ret (ch, cx') \<and> cx_ok cx' \<and> cx_pbchar cx' = 0 \<and> cx_stdin cx' = cx_stdin cx
    \<and> cx_lineno cx' = cx_lineno cx + (if ch = 10 then 1 else 0)
    \<and> (case pending cx of [] \<Rightarrow> ch = -1 \<and> pending cx' = [] | c # r \<Rightarrow> ch = c \<and> pending cx' = r)
    \<and> (cx_pbchar cx = 0 \<longrightarrow> (ch, texts cx', cx_file cx') = next_of (texts cx) (cx_file cx))
    \<and> (cx_pbchar cx \<noteq> 0 \<longrightarrow> texts cx' = texts cx \<and> cx_file cx' = cx_file cx)"
proof (cases "cx_pbchar cx = 0")
  case True
  obtain ch cx' where r: "m_rawgetc cx = Ret (ch, cx')" "next_done cx (texts cx) ch cx'" using m_rawgetc_done[OF assms True] by blast
  then have "next_of (texts cx) (cx_file cx) = (ch, texts cx', cx_file cx')" by (simp add: next_done_def)
  from next_of_concat[OF this] r True show ?thesis
    by (cases "chars (texts cx) (cx_file cx)") (simp_all add: next_done_def pending_def)
next
  case False
  then show ?thesis using assms by (simp add: m_rawgetc_def count_line_def pending_def)
qed


section \<open>Macro references\<close>

definition SZ_MNAME :: nat where "SZ_MNAME = 255"
definition SZ_CMD :: nat where "SZ_CMD = 2048"

text \<open>
  What a macro is looked up in: the symbol table, the environment and the file system; \<open>mh_fstdin\<close> tells
  whether the \<^verbatim>\<open>mkpkg\<close> file is the standard input.
\<close>

record mk_host =
  mh_fstdin :: bool
  mh_file :: "byte list \<Rightarrow> byte list option"
  mh_sym :: "byte list \<Rightarrow> byte list option"
  mh_env :: "byte list \<Rightarrow> byte list option"

text \<open>\<open>fgets (lbuf, n, stdin)\<close>\<close>

definition fgets_line :: "nat \<Rightarrow> byte list \<Rightarrow> byte list" where
  "fgets_line n inp =
     (let l = take (n - 1) inp; t = takeWhile (\<lambda>c. c \<noteq> 10) l in if length t < length l then t @ [10] else t)"

definition macro_value :: "mk_host \<Rightarrow> byte list \<Rightarrow> byte list \<Rightarrow> byte list \<times> byte list" where
  "macro_value h name inp =
     (if name \<noteq> [] \<and> hd name = 63 then
        if mh_fstdin h then (tl name, inp)
        else if inp = [] then (takeWhile (\<lambda>c. c \<noteq> 10) name, inp)
        else let line = fgets_line SZ_CMD inp
             in (takeWhile (\<lambda>c. c \<noteq> 10) (cstr line), drop (length line) inp)
      else if name \<noteq> [] \<and> hd name = 64 then
        (case mh_file h (tl name) of
           None \<Rightarrow> (tl name, inp)
         | Some f \<Rightarrow>
             (cstr (rev (dropWhile is_space (rev (map (\<lambda>c. if is_space c then 32 else c) (take SZ_CMD f))))), inp))
      else
        (case mh_sym h name of
           Some v \<Rightarrow> (cstr v, inp)
         | None \<Rightarrow> (case mh_env h name of Some v \<Rightarrow> (cstr v, inp) | None \<Rightarrow> (name, inp))))"

text \<open>
  The loop that reads the name, with the number of free bytes of the array; \<open>True\<close> when the right
  parenthesis was found.
\<close>

fun read_name :: "nat \<Rightarrow> byte list \<Rightarrow> mk_context \<Rightarrow> (bool \<times> byte list \<times> mk_context) outcome" where
  "read_name 0 name cx = Undef"
| "read_name (Suc k) name cx =
     (case m_rawgetc cx of
        Ret (ch, cx') \<Rightarrow>
          let c = word_of_int ch :: byte
          in if c = 41 then Ret (True, name, cx')
             else if c = 10 \<or> c = -1 then (if k = 0 then Undef else Ret (False, name @ [10], cx'))
             else read_name k (name @ [c]) cx'
      | Fatals \<Rightarrow> Fatals | Undef \<Rightarrow> Undef)"

partial_function (option) m_getc :: "mk_host \<Rightarrow> nat list \<times> byte list \<Rightarrow> mk_context \<Rightarrow> (int \<times> mk_context) outcome option" where
  "m_getc h junk cx =
     (case m_rawgetc cx of Fatals \<Rightarrow> Some Fatals | Undef \<Rightarrow> Some Undef
      | Ret (ch, cx1) \<Rightarrow>
        if ch \<noteq> 36 then Some (Ret (if ch = 9 then 32 else ch, cx1))
        else case m_rawgetc cx1 of Fatals \<Rightarrow> Some Fatals | Undef \<Rightarrow> Some Undef
        | Ret (nch, cx2) \<Rightarrow>
          if nch = 36 then Some (Ret (nch, cx2))
          else if nch \<noteq> 40 then
            (case m_ungetc junk nch cx2 of Fatals \<Rightarrow> Some Fatals | Undef \<Rightarrow> Some Undef | Ret cx3 \<Rightarrow> Some (Ret (ch, cx3)))
          else case read_name (SZ_MNAME + 1) [] cx2 of Fatals \<Rightarrow> Some Fatals | Undef \<Rightarrow> Some Undef
          | Ret (closed, name, cx3) \<Rightarrow>
            let (val, inp) = (if closed then macro_value h (cstr name) (cx_stdin cx3) else (cstr name, cx_stdin cx3))
            in case m_pushstr junk val (cx3\<lparr>cx_stdin := inp\<rparr>) of Fatals \<Rightarrow> Some Fatals | Undef \<Rightarrow> Some Undef
               | Ret cx4 \<Rightarrow> m_getc h junk cx4)"

text \<open>The specification works on the pending characters alone.\<close>

definition ends_name :: "int \<Rightarrow> bool" where
  "ends_name ch \<longleftrightarrow> (word_of_int ch :: byte) = 41 \<or> (word_of_int ch :: byte) = 10 \<or> (word_of_int ch :: byte) = -1"

definition split_name :: "int list \<Rightarrow> bool \<times> byte list \<times> int list" where
  "split_name p =
     (let nm = takeWhile (\<lambda>c. \<not> ends_name c) p; r = drop (length nm) p;
          closed = (r \<noteq> [] \<and> (word_of_int (hd r) :: byte) = 41)
      in (closed, map word_of_int nm @ (if closed then [] else [10]), tl r))"



text \<open>
  Why \<^verbatim>\<open>m_getc\<close> returns: a character taken at one level of the stack outweighs all that fits in the
  buffer at the next level.
\<close>

fun wt :: "byte list list \<Rightarrow> byte list \<Rightarrow> nat" where
  "wt [] f = length f * SZ_PBBUF ^ 25"
| "wt (t # ts) f = length t * SZ_PBBUF ^ (24 - length ts) + wt ts f"

lemma wt_next:
  "next_of ts f = (ch, ts', f') \<Longrightarrow> chars ts f \<noteq> [] \<Longrightarrow> length ts \<le> 24 \<Longrightarrow>
   wt ts' f' + SZ_PBBUF ^ (25 - length ts') \<le> wt ts f \<and> length ts' \<le> length ts"
proof (induction ts f rule: next_of.induct)
  case (2 ts f)
  then show ?case by (fastforce simp: chars_def)
qed (auto simp: chars_def)

lemma wt_next_end: "next_of ts f = (ch, ts', f') \<Longrightarrow> chars ts f = [] \<Longrightarrow> chars ts' f' = [] \<and> ts' = [] \<and> f' = []"
  by (induction ts f rule: next_of.induct) (auto simp: chars_def)

lemma texts_depth: "cx_ok cx \<Longrightarrow> length (texts cx) \<le> 23"
proof -
  have l: "2 * length (pb_text buf stk n ip) \<le> n" for buf stk n ip
  proof (induction n arbitrary: ip rule: induct_nat_012)
    case (ge2 n)
    then show ?case using ge2.IH(1)[of "stk ! n"] by (simp add: pb_text_simps)
  qed (simp_all add: pb_text.simps)
  assume "cx_ok cx"
  then show ?thesis
  proof (cases "cx_pb cx")
    case (Some pb)
    then have "pb_npb pb + 2 < 50" using \<open>cx_ok cx\<close> by (simp add: cx_ok_def pb_ok_def SZ_PBSTK_def)
    moreover have "2 * length (texts cx) \<le> pb_npb pb" using l Some by (simp add: texts_def)
    ultimately show ?thesis by linarith
  qed (simp add: texts_def)
qed

definition weight :: "mk_context \<Rightarrow> nat" where
  "weight cx = wt (texts cx) (cx_file cx)"

definition credit :: "mk_context \<Rightarrow> nat" where
  "credit cx = SZ_PBBUF ^ (25 - length (texts cx))"

text \<open>The two contracts of \<^verbatim>\<open>m_rawgetc\<close> used below: with a pending character, and at the end.\<close>

lemma rawgetc_char:
  assumes "cx_ok cx" "pending cx = c # r"
  obtains cx' where "m_rawgetc cx = Ret (c, cx')" "cx_ok cx'" "pending cx' = r" "cx_pbchar cx' = 0" "cx_stdin cx' = cx_stdin cx"
    "cx_pbchar cx = 0 \<longrightarrow> weight cx' + credit cx' \<le> weight cx" "weight cx' \<le> weight cx"
proof -
  obtain ch cx' where x: "m_rawgetc cx = Ret (ch, cx')" "cx_ok cx'" "cx_pbchar cx' = 0" "cx_stdin cx' = cx_stdin cx"
    "ch = c" "pending cx' = r"
    "cx_pbchar cx = 0 \<longrightarrow> (ch, texts cx', cx_file cx') = next_of (texts cx) (cx_file cx)"
    "cx_pbchar cx \<noteq> 0 \<longrightarrow> texts cx' = texts cx \<and> cx_file cx' = cx_file cx"
    using m_rawgetc_pending[OF assms(1)] assms(2) by auto
  have w: "weight cx' + credit cx' \<le> weight cx" if z: "cx_pbchar cx = 0"
    using wt_next[of "texts cx" "cx_file cx" ch "texts cx'" "cx_file cx'"] x(7) z texts_depth[OF assms(1)] assms(2)
    by (simp add: weight_def credit_def pending_def)
  have "weight cx' \<le> weight cx" using w x(8) by (cases "cx_pbchar cx = 0") (simp_all add: weight_def)
  then show ?thesis using that x w by simp
qed

lemma rawgetc_eof:
  assumes "cx_ok cx" "pending cx = []"
  obtains cx' where "m_rawgetc cx = Ret (-1, cx')" "cx_ok cx'" "pending cx' = []" "cx_pbchar cx' = 0" "cx_stdin cx' = cx_stdin cx"
  using m_rawgetc_pending[OF assms(1)] assms(2) that by auto

lemma split_name_simps:
  "split_name [] = (False, [10], [])"
  "ends_name c \<Longrightarrow> split_name (c # p) = ((word_of_int c :: byte) = 41, if (word_of_int c :: byte) = 41 then [] else [10], p)"
  "\<not> ends_name c \<Longrightarrow> split_name (c # p) = (let (b, nm, r) = split_name p in (b, word_of_int c # nm, r))"
  by (simp_all add: split_name_def Let_def)


text \<open>Reading the name does what \<open>split_name\<close> says, as long as the array is not full.\<close>

lemma read_name_splits:
  "cx_ok cx \<Longrightarrow> cx_pbchar cx = 0 \<Longrightarrow> split_name (pending cx) = (b, nm, r) \<Longrightarrow>
   if length nm < k then \<exists>cx'. read_name k acc cx = Ret (b, acc @ nm, cx') \<and> cx_ok cx' \<and> pending cx' = r \<and> cx_pbchar cx' = 0
       \<and> cx_stdin cx' = cx_stdin cx \<and> (weight cx' + credit cx' \<le> weight cx \<or> (\<not> b \<and> r = [] \<and> \<not> list_ex ends_name (pending cx)))
   else read_name k acc cx = Undef"
proof (induction k arbitrary: acc cx nm)
  case (Suc k)
  show ?case
  proof (cases "pending cx")
    case Nil
    obtain cx' where c: "m_rawgetc cx = Ret (-1, cx')" "cx_ok cx'" "pending cx' = []" "cx_pbchar cx' = 0" "cx_stdin cx' = cx_stdin cx"
      using rawgetc_eof[OF Suc.prems(1) Nil] .
    then show ?thesis using Suc.prems(3) Nil by (cases k) (auto simp: split_name_simps)
  next
    case (Cons c p)
    obtain cx' where c: "m_rawgetc cx = Ret (c, cx')" "cx_ok cx'" "pending cx' = p" "cx_pbchar cx' = 0" "cx_stdin cx' = cx_stdin cx"
      "cx_pbchar cx = 0 \<longrightarrow> weight cx' + credit cx' \<le> weight cx" "weight cx' \<le> weight cx"
      using rawgetc_char[OF Suc.prems(1) Cons] .
    show ?thesis
    proof (cases "ends_name c")
      case True
      then have s: "b = ((word_of_int c :: byte) = 41)" "nm = (if b then [] else [10])" "r = p"
        using Suc.prems(3) Cons by (auto simp: split_name_simps)
      have "b \<or> (word_of_int c :: byte) = 10 \<or> (word_of_int c :: byte) = -1" using True s(1) by (simp add: ends_name_def)
      then show ?thesis using c(1-6) Suc.prems(2) s by (cases b; cases k) (auto simp: Let_def)
    next
      case False
      then have n: "(word_of_int c :: byte) \<noteq> 41" "(word_of_int c :: byte) \<noteq> 10" "(word_of_int c :: byte) \<noteq> -1"
        by (simp_all add: ends_name_def)
      obtain b' nm' r' where sp: "split_name p = (b', nm', r')" by (cases "split_name p")
      have s: "nm = word_of_int c # nm'" "b' = b" "r' = r" using Suc.prems(3) Cons False sp by (simp_all add: split_name_simps)
      note ih = Suc.IH[OF c(2,4), of nm' "acc @ [word_of_int c]"]
      have rn: "read_name (Suc k) acc cx = read_name k (acc @ [word_of_int c]) cx'"
        using c(1) n by (simp add: Let_def)
      have le: "list_ex ends_name (pending cx) = list_ex ends_name p" using Cons False by simp
      show ?thesis
      proof (cases "length nm' < k")
        case True
        then obtain cx'' where d: "read_name k (acc @ [word_of_int c]) cx' = Ret (b, (acc @ [word_of_int c]) @ nm', cx'')"
          "cx_ok cx''" "pending cx'' = r" "cx_pbchar cx'' = 0" "cx_stdin cx'' = cx_stdin cx'"
          "weight cx'' + credit cx'' \<le> weight cx' \<or> (\<not> b \<and> r = [] \<and> \<not> list_ex ends_name p)"
          using ih sp s c(3) by auto
        have "weight cx'' + credit cx'' \<le> weight cx \<or> (\<not> b \<and> r = [] \<and> \<not> list_ex ends_name (pending cx))"
          using d(6) c(7) le by linarith
        then show ?thesis using True rn d(1-5) s c(5) by simp
      next
        case False
        then show ?thesis using ih sp s c(3) rn by simp
      qed
    qed
  qed
qed simp










text \<open>
  A macro reference at the front of the pending characters and one step of its expansion. The name,
  with the newline that stands for a missing parenthesis, has to fit in front of the end of an array
  of 256 bytes.
\<close>

fun macro_ref :: "int list \<Rightarrow> (bool \<times> byte list \<times> int list) option" where
  "macro_ref (c # d # p) = (if c = 36 \<and> d = 40 then Some (split_name p) else None)"
| "macro_ref p = None"

lemma macro_ref_other [simp]: "c \<noteq> 36 \<Longrightarrow> macro_ref (c # p) = None"
  by (cases p) simp_all








lemma ungetc_free:
  "cx_pbchar cx = 0 \<Longrightarrow> cx_ok cx \<Longrightarrow> \<exists>cx'. m_ungetc junk ch cx = Ret cx' \<and> cx_ok cx' \<and> cx_stdin cx' = cx_stdin cx
     \<and> pending cx' = (if ch = 0 then pending cx else ch # pending cx)"
  by (simp add: m_ungetc_def Let_def pending_def)




definition fresh_cx :: "byte list \<Rightarrow> mk_context" where
  "fresh_cx f = \<lparr>cx_file = f, cx_stdin = [], cx_lineno = 1, cx_pbchar = 0, cx_pushback = 0, cx_pb = None\<rparr>"

definition some_junk :: "nat list \<times> byte list" where
  "some_junk = (replicate SZ_PBSTK 7, replicate (SZ_PBBUF + 1) 88)"

definition no_macros :: mk_host where
  "no_macros = \<lparr>mh_fstdin = False, mh_file = (\<lambda>_. None), mh_sym = (\<lambda>n. if n = [97] then Some [120, 36] else None), mh_env = (\<lambda>_. None)\<rparr>"

lemma fresh_ok: "cx_ok (fresh_cx f)" "junk_ok some_junk"
  by (simp_all add: cx_ok_def fresh_cx_def junk_ok_def some_junk_def)


text \<open>
  C20. Pushing back a string: with room for it the string is the first pending input, the stack stays
  well formed and the line number goes back by its newlines; without room the program exits. No store
  is outside the stack or the buffer.
\<close>

theorem m_pushstr_pending:
  assumes "cx_ok cx" "junk_ok junk" "EOS \<notin> set s" "cx_pbchar cx = 0"
  shows "if room (the_pb junk cx) s
    then \<exists>cx'. m_pushstr junk s cx = Ret cx' \<and> cx_ok cx' \<and> pending cx' = map cval s @ pending cx
       \<and> cx_lineno cx' = cx_lineno cx - newlines s
    else m_pushstr junk s cx = Fatals"
proof (cases "room (the_pb junk cx) s")
  case True
  then obtain cx' where "m_pushstr junk s cx = Ret cx'" "cx_ok cx'" "texts cx' = s # texts cx" "cx_pbchar cx' = 0"
    "cx_file cx' = cx_file cx" "cx_lineno cx' = cx_lineno cx - newlines s"
    using m_pushstr_effect[OF assms(1-3)] assms(4) by auto
  then show ?thesis using True assms(4) by (simp add: pending_def chars_def)
qed (use m_pushstr_effect[OF assms(1-3)] in simp)

theorem m_pushstr_pending_witness:
  "if room (the_pb some_junk (fresh_cx [99])) [97, 10]
    then \<exists>cx'. m_pushstr some_junk [97, 10] (fresh_cx [99]) = Ret cx' \<and> cx_ok cx' \<and> pending cx' = map cval [97, 10] @ pending (fresh_cx [99])
       \<and> cx_lineno cx' = cx_lineno (fresh_cx [99]) - newlines [97, 10]
    else m_pushstr some_junk [97, 10] (fresh_cx [99]) = Fatals"
  by (rule m_pushstr_pending[OF fresh_ok]) (simp_all add: fresh_cx_def)

text \<open>
  A character put back is the next one to be read, and after it the input is as before, also when
  another character had already been put back.
\<close>

theorem m_ungetc_rawgetc:
  assumes "cx_ok cx" "junk_ok junk" "ch \<noteq> 0" "- 128 \<le> cx_pbchar cx" "cx_pbchar cx < 128" "m_ungetc junk ch cx = Ret cx'"
  shows "\<exists>cx''. m_rawgetc cx' = Ret (ch, cx'') \<and> cx_ok cx'' \<and> pending cx'' = pending cx"
proof -
  let ?v = "cx_pbchar cx"
  let ?cx1 = "if ch = 10 then cx\<lparr>cx_lineno := cx_lineno cx - 1\<rparr> else cx"
  have cv: "cval (word_of_int ?v) = ?v" using assms(4,5) by (simp add: cval_def sint_sbintrunc' signed_take_bit_int_eq_self)
  then have zero: "(word_of_int ?v :: byte) = 0 \<longleftrightarrow> ?v = 0"
    using word_of_int_0 by (metis cval_def signed_0)
  have "cx_ok cx' \<and> pending cx' = ch # pending cx"
  proof (cases "?v = 0")
    case True
    then show ?thesis using ungetc_free[OF True assms(1), of junk ch] assms(3,6) by auto
  next
    case False
    then obtain cx2 where c2: "m_pushstr junk [word_of_int ?v] ?cx1 = Ret cx2" "cx' = cx2\<lparr>cx_pbchar := ch\<rparr>"
      using assms(6) zero by (auto simp: m_ungetc_def Let_def split: outcome.splits)
    have ok1: "cx_ok ?cx1" using assms(1) by simp
    have "EOS \<notin> set [word_of_int ?v :: byte]" using zero False by simp
    from m_pushstr_effect[OF ok1 assms(2) this] c2(1) have e: "cx_ok cx2" "texts cx2 = [word_of_int ?v] # texts ?cx1"
      "cx_file cx2 = cx_file ?cx1" by (auto split: if_splits)
    have "texts ?cx1 = texts cx" "cx_file ?cx1 = cx_file cx" by simp_all
    then show ?thesis using e c2(2) cv False assms(3) by (simp add: pending_def chars_def)
  qed
  then show ?thesis using rawgetc_char[of cx' ch "pending cx"] by metis
qed

definition ungot_cx :: mk_context where
  "ungot_cx = (case m_ungetc some_junk 98 (fresh_cx [99]) of Ret cx \<Rightarrow> cx | _ \<Rightarrow> fresh_cx [])"

theorem m_ungetc_rawgetc_witness:
  "\<exists>cx''. m_rawgetc ungot_cx = Ret (98, cx'') \<and> cx_ok cx'' \<and> pending cx'' = pending (fresh_cx [99])"
  by (rule m_ungetc_rawgetc[OF fresh_ok]) (simp_all add: ungot_cx_def m_ungetc_def fresh_cx_def Let_def)

text \<open>
  The line count is wrong when a second character is put back behind a newline: the newline is
  counted back again when it moves to the string stack, and after reading both characters again the
  line number is one less than before.
\<close>

theorem m_ungetc_newline_twice:
  assumes "cx_ok cx" "junk_ok junk" "cx_pbchar cx = 0" "c \<noteq> 0" "c \<noteq> 10"
    "m_ungetc junk 10 cx = Ret cx1" "m_ungetc junk c cx1 = Ret cx2" "m_rawgetc cx2 = Ret (c, cx3)" "m_rawgetc cx3 = Ret (d, cx4)"
  shows "d = 10 \<and> pending cx4 = pending cx \<and> cx_lineno cx4 = cx_lineno cx - 1"
proof -
  have c1: "cx1 = cx\<lparr>cx_lineno := cx_lineno cx - 1, cx_pbchar := 10\<rparr>" using assms(3,6) by (simp add: m_ungetc_def Let_def)
  then have ok1: "cx_ok cx1" using assms(1) by simp
  have ne: "EOS \<notin> set [10 :: byte]" by simp
  obtain cx' where c2: "m_pushstr junk [10] cx1 = Ret cx'" "cx2 = cx'\<lparr>cx_pbchar := c\<rparr>"
    using assms(5,7) c1 by (auto simp: m_ungetc_def Let_def split: outcome.splits)
  from m_pushstr_effect[OF ok1 assms(2) ne] c2(1) have e: "cx_ok cx'" "texts cx' = [10] # texts cx1" "cx_file cx' = cx_file cx1"
    "cx_lineno cx' = cx_lineno cx1 - 1" by (auto simp: newlines_def split: if_splits)
  have p2: "pending cx2 = c # 10 # pending cx" "cx_lineno cx2 = cx_lineno cx - 2" "cx_ok cx2"
    using c2(2) e c1 assms(3,4) by (simp_all add: pending_def chars_def cval_def)
  have p3: "cx_ok cx3" "pending cx3 = 10 # pending cx" "cx_lineno cx3 = cx_lineno cx - 2"
    using m_rawgetc_pending[OF p2(3)] p2 assms(5,8) by auto
  show ?thesis using m_rawgetc_pending[OF p3(1)] p3 assms(9) by auto
qed


theorem m_ungetc_newline_twice_witness:
  "\<exists>cx1 cx2 cx3 cx4. m_ungetc some_junk 10 (fresh_cx [99]) = Ret cx1 \<and> m_ungetc some_junk 98 cx1 = Ret cx2
     \<and> m_rawgetc cx2 = Ret (98, cx3) \<and> m_rawgetc cx3 = Ret (10, cx4)
     \<and> (10 :: int) = 10 \<and> pending cx4 = pending (fresh_cx [99]) \<and> cx_lineno cx4 = cx_lineno (fresh_cx [99]) - 1"
proof -
  let ?cx = "fresh_cx [99]"
  obtain cx1 where c1: "cx1 = ?cx\<lparr>cx_lineno := 0, cx_pbchar := 10\<rparr>" by blast
  have u1: "m_ungetc some_junk 10 ?cx = Ret cx1" by (simp add: c1 m_ungetc_def fresh_cx_def Let_def)
  have ok1: "cx_ok cx1" using fresh_ok(1)[of "[99]"] by (simp add: c1)
  have ne: "EOS \<notin> set [10 :: byte]" by simp
  have "room (the_pb some_junk cx1) [10]"
    by (simp add: c1 fresh_cx_def the_pb_def mk_pbbuf_def room_def SZ_PBSTK_def SZ_PBBUF_def)
  then obtain cx' where c': "m_pushstr some_junk [10] cx1 = Ret cx'" "cx_ok cx'" "texts cx' = [10] # texts cx1" "cx_file cx' = cx_file cx1"
    using m_pushstr_effect[OF ok1 fresh_ok(2) ne] by auto
  let ?cx2 = "cx'\<lparr>cx_pbchar := 98\<rparr>"
  have u2: "m_ungetc some_junk 98 cx1 = Ret ?cx2" using c'(1) by (simp add: m_ungetc_def c1 Let_def)
  have "texts cx1 = []" "texts ?cx = []" by (simp_all add: c1 fresh_cx_def texts_def)
  then have p: "pending ?cx2 = 98 # 10 # pending ?cx" "cx_ok ?cx2"
    using c' by (simp_all add: pending_def chars_def cval_def c1, simp add: fresh_cx_def)
  obtain cx3 where c3: "m_rawgetc ?cx2 = Ret (98, cx3)" "cx_ok cx3" "pending cx3 = 10 # pending ?cx" using rawgetc_char[OF p(2,1)] by metis
  obtain cx4 where c4: "m_rawgetc cx3 = Ret (10, cx4)" using rawgetc_char[OF c3(2,3)] by metis
  have "(10 :: int) = 10 \<and> pending cx4 = pending ?cx \<and> cx_lineno cx4 = cx_lineno ?cx - 1"
    by (rule m_ungetc_newline_twice[OF fresh_ok _ _ _ u1 u2 c3(1) c4]) (simp_all add: fresh_cx_def)
  then show ?thesis using u1 u2 c3(1) c4 by blast
qed

text \<open>
  A macro reference whose name has no end within its first 256 characters is stored outside the
  name array.
\<close>

theorem m_getc_name_overflow:
  assumes "cx_ok cx" "junk_ok junk" "pending cx = 36 # 40 # nm @ r" "SZ_MNAME < length nm" "\<not> list_ex ends_name nm"
  shows "m_getc h junk cx = Some Undef"
proof -
  obtain cx1 where c1: "m_rawgetc cx = Ret (36, cx1)" "cx_ok cx1" "pending cx1 = 40 # nm @ r" using rawgetc_char[OF assms(1,3)] by metis
  obtain cx2 where c2: "m_rawgetc cx1 = Ret (40, cx2)" "cx_ok cx2" "pending cx2 = nm @ r" "cx_pbchar cx2 = 0" using rawgetc_char[OF c1(2,3)] by metis
  obtain b name q where sp: "split_name (pending cx2) = (b, name, q)" by (cases "split_name (pending cx2)")
  have "length nm \<le> length (takeWhile (\<lambda>c. \<not> ends_name c) (pending cx2))"
    using assms(5) c2(3) by (simp add: takeWhile_append2 list_ex_iff)
  then have "length nm \<le> length name" using sp by (auto simp: split_name_def Let_def)
  then have "read_name (SZ_MNAME + 1) [] cx2 = Undef" using read_name_splits[OF c2(2,4) sp, of "SZ_MNAME + 1" "[]"] assms(4) by simp
  then show ?thesis using c1(1) c2(1) by (subst m_getc.simps) simp
qed

theorem m_getc_name_overflow_witness:
  "m_getc no_macros some_junk (fresh_cx ([36, 40] @ replicate 256 97)) = Some Undef"
  by (rule m_getc_name_overflow[OF fresh_ok, of _ "replicate 256 97" "[]"])
    (simp_all add: fresh_cx_def pending_def chars_def texts_def SZ_MNAME_def ends_name_def list_ex_iff)

end
