(* ===== verification/Lru.thy ===== *)
theory Lru
  imports LibcStr
begin

text \<open>
  The doubly linked list of cache slots that \<^verbatim>\<open>unix/boot/mkpkg/fdcache.c\<close> and
  \<^verbatim>\<open>unix/boot/mkpkg/fncache.c\<close> keep in the order of last use. A slot is an index into the
  array of the cache, the null pointer is \<open>None\<close>. The record of the links is extended by
  each cache with its slots, so that the operations here serve both.
\<close>

record links =
  lk_up :: "nat \<Rightarrow> nat option"
  lk_dn :: "nat \<Rightarrow> nat option"
  lk_head :: "nat option"
  lk_tail :: "nat option"

definition list_unlink :: "nat \<Rightarrow> 'a links_scheme \<Rightarrow> 'a links_scheme" where
  "list_unlink fd s =
     (let s1 = (if lk_head s = Some fd then s\<lparr>lk_head := lk_dn s fd\<rparr> else s);
          s2 = (if lk_tail s1 = Some fd then s1\<lparr>lk_tail := lk_up s1 fd\<rparr> else s1);
          s3 = (case lk_up s2 fd of None \<Rightarrow> s2 | Some u \<Rightarrow> s2\<lparr>lk_dn := (lk_dn s2)(u := lk_dn s2 fd)\<rparr>)
      in (case lk_dn s3 fd of None \<Rightarrow> s3 | Some d \<Rightarrow> s3\<lparr>lk_up := (lk_up s3)(d := lk_up s3 fd)\<rparr>))"

text \<open>The old head is updated through its pointer, which must not be null.\<close>

definition list_tohead :: "nat \<Rightarrow> 'a links_scheme \<Rightarrow> 'a links_scheme option" where
  "list_tohead fd s =
     (if lk_head s = Some fd then Some s
      else
        let s1 = s\<lparr>lk_up := (lk_up s)(fd := None), lk_dn := (lk_dn s)(fd := lk_head s)\<rparr>
        in (case lk_head s1 of
              None \<Rightarrow> None
            | Some h \<Rightarrow> Some (s1\<lparr>lk_up := (lk_up s1)(h := Some fd), lk_head := Some fd\<rparr>)))"

definition list_totail :: "nat \<Rightarrow> 'a links_scheme \<Rightarrow> 'a links_scheme option" where
  "list_totail fd s =
     (if lk_tail s = Some fd then Some s
      else
        let s1 = s\<lparr>lk_up := (lk_up s)(fd := lk_tail s), lk_dn := (lk_dn s)(fd := None)\<rparr>
        in (case lk_tail s1 of
              None \<Rightarrow> None
            | Some t \<Rightarrow> Some (s1\<lparr>lk_dn := (lk_dn s1)(t := Some fd), lk_tail := Some fd\<rparr>)))"

text \<open>The search \<open>for (fd=head;  fd != NULL;  fd=fd->dnlnk)\<close>.\<close>

partial_function (option) find_from ::
  "(nat \<Rightarrow> nat option) \<Rightarrow> (nat \<Rightarrow> bool) \<Rightarrow> nat option \<Rightarrow> nat option option" where
  "find_from dn test p =
     (case p of None \<Rightarrow> Some None | Some fd \<Rightarrow> if test fd then Some (Some fd) else find_from dn test (dn fd))"

definition list_touch :: "nat \<Rightarrow> 'a links_scheme \<Rightarrow> 'a links_scheme option" where
  "list_touch fd s = list_tohead fd (list_unlink fd s)"

text \<open>
  The loop that builds the list: the slots from \<open>1\<close> on go to the head in turn. The first slot
  is alone in the list before.
\<close>

fun link_all :: "nat list \<Rightarrow> 'a links_scheme \<Rightarrow> 'a links_scheme option" where
  "link_all [] s = Some s"
| "link_all (i # is) s = do { s1 \<leftarrow> list_tohead i s; link_all is s1 }"

definition first_slot :: "'a links_scheme \<Rightarrow> 'a links_scheme" where
  "first_slot s = s\<lparr>lk_head := Some 0, lk_tail := Some 0, lk_up := (lk_up s)(0 := None), lk_dn := (lk_dn s)(0 := None)\<rparr>"

section \<open>The list as a list\<close>

primrec path :: "(nat \<Rightarrow> nat option) \<Rightarrow> nat option \<Rightarrow> nat list \<Rightarrow> nat option \<Rightarrow> bool" where
  "path f p [] q \<longleftrightarrow> p = q"
| "path f p (x # xs) q \<longleftrightarrow> p = Some x \<and> path f (f x) xs q"

lemma path_append [simp]: "path f p (xs @ ys) q \<longleftrightarrow> (\<exists>m. path f p xs m \<and> path f m ys q)"
  by (induction xs arbitrary: p) auto

lemma path_upd [simp]: "a \<notin> set xs \<Longrightarrow> path (f(a := v)) p xs q \<longleftrightarrow> path f p xs q"
  by (induction xs arbitrary: p) auto

lemma path_None [simp]: "path f None xs q \<longleftrightarrow> xs = [] \<and> q = None"
  by (cases xs) auto

definition dlist :: "'a links_scheme \<Rightarrow> nat list \<Rightarrow> bool" where
  "dlist s xs \<longleftrightarrow> distinct xs \<and> path (lk_dn s) (lk_head s) xs None \<and> path (lk_up s) (lk_tail s) (rev xs) None"

lemma dlist_unique: "dlist s xs \<Longrightarrow> dlist s ys \<Longrightarrow> xs = ys"
proof -
  have "path f p xs None \<Longrightarrow> path f p ys None \<Longrightarrow> xs = ys" for f p
  proof (induction xs arbitrary: p ys)
    case (Cons x xs)
    then show ?case by (cases ys) auto
  qed auto
  then show "dlist s xs \<Longrightarrow> dlist s ys \<Longrightarrow> xs = ys" by (auto simp: dlist_def)
qed

lemma unlink_dlist:
  assumes "dlist s (xs @ x # ys)"
  shows "dlist (list_unlink x s) (xs @ ys)"
proof -
  have d: "distinct (xs @ x # ys)" and dn: "path (lk_dn s) (lk_head s) (xs @ x # ys) None"
    and up: "path (lk_up s) (lk_tail s) (rev ys @ x # rev xs) None"
    using assms by (auto simp: dlist_def)
  have dn': "path (lk_dn s) (lk_head s) xs (Some x)" "path (lk_dn s) (lk_dn s x) ys None" using dn by auto
  have up': "path (lk_up s) (lk_tail s) (rev ys) (Some x)" "path (lk_up s) (lk_up s x) (rev xs) None" using up by auto
  show ?thesis
  proof (cases xs rule: rev_cases)
    case Nil
    note xs = Nil
    show ?thesis
    proof (cases ys)
      case Nil
      then show ?thesis using xs dn' up' by (simp add: dlist_def list_unlink_def Let_def)
    next
      case (Cons y ys')
      have "lk_tail s \<noteq> Some x" using up'(1) Cons d xs by (cases "rev ys'") auto
      then show ?thesis using xs Cons d dn' up' by (auto simp: dlist_def list_unlink_def Let_def)
    qed
  next
    case (snoc as u)
    note xs = snoc
    have h: "lk_head s \<noteq> Some x" using dn'(1) d snoc by (cases as) auto
    show ?thesis
    proof (cases ys)
      case Nil
      then show ?thesis using xs h d dn' up' by (auto simp: dlist_def list_unlink_def Let_def)
    next
      case (Cons y ys')
      have "lk_tail s \<noteq> Some x" using up'(1) Cons d by (cases "rev ys'") auto
      then show ?thesis using xs h Cons d dn' up' by (auto simp: dlist_def list_unlink_def Let_def)
    qed
  qed
qed

lemma tohead_dlist:
  assumes "dlist s xs" "xs \<noteq> []" "x \<notin> set xs"
  shows "\<exists>s'. list_tohead x s = Some s' \<and> dlist s' (x # xs)"
proof -
  obtain h ys where xs: "xs = h # ys" using assms(2) by (cases xs) auto
  have s: "lk_head s = Some h" "distinct xs" "path (lk_dn s) (lk_dn s h) ys None"
    "path (lk_up s) (lk_tail s) (rev ys) (Some h)" "lk_up s h = None"
    using assms(1) xs by (auto simp: dlist_def)
  show ?thesis using s assms(3) xs by (auto simp: list_tohead_def dlist_def Let_def)
qed

lemma totail_dlist:
  assumes "dlist s xs" "xs \<noteq> []" "x \<notin> set xs"
  shows "\<exists>s'. list_totail x s = Some s' \<and> dlist s' (xs @ [x])"
proof -
  obtain t ys where xs: "xs = ys @ [t]" using assms(2) by (cases xs rule: rev_cases) auto
  have s: "lk_tail s = Some t" "distinct xs" "path (lk_up s) (lk_up s t) (rev ys) None"
    "path (lk_dn s) (lk_head s) ys (Some t)" "lk_dn s t = None"
    using assms(1) xs by (auto simp: dlist_def)
  show ?thesis using s assms(3) xs by (auto simp: list_totail_def dlist_def Let_def)
qed

lemma find_from_path: "path dn p xs None \<Longrightarrow> find_from dn test p = Some (List.find test xs)"
  by (induction xs arbitrary: p) (subst find_from.simps, auto)+

lemma link_all_dlist:
  "dlist s xs \<Longrightarrow> xs \<noteq> [] \<Longrightarrow> distinct is \<Longrightarrow> set is \<inter> set xs = {} \<Longrightarrow> \<exists>s'. link_all is s = Some s' \<and> dlist s' (rev is @ xs)"
proof (induction "is" arbitrary: s xs)
  case (Cons i "is")
  obtain s1 where s1: "list_tohead i s = Some s1" "dlist s1 (i # xs)"
    using tohead_dlist[OF Cons.prems(1,2)] Cons.prems(4) by auto
  then show ?case using Cons.IH[OF s1(2)] Cons.prems by auto
qed simp

lemma first_slot_dlist: "dlist (first_slot s) [0]"
  by (simp add: dlist_def first_slot_def)

text \<open>The operations do not touch what the cache adds to the links.\<close>

lemma unlink_more [simp]: "links.more (list_unlink x s) = links.more s"
  by (simp add: list_unlink_def Let_def split: option.splits)

lemma tohead_more: "list_tohead x s = Some s' \<Longrightarrow> links.more s' = links.more s"
  by (auto simp: list_tohead_def Let_def split: if_splits option.splits)

lemma link_all_more: "link_all is s = Some s' \<Longrightarrow> links.more s' = links.more s"
  by (induction "is" arbitrary: s) (auto dest: tohead_more split: bind_splits)

text \<open>
  The interface of a list in order of last use, as the caches see it: touching an element
  moves it to the front and changes nothing else.
\<close>

locale recency_list =
  fixes touch :: "nat \<Rightarrow> 's \<Rightarrow> 's option" and order :: "'s \<Rightarrow> nat list \<Rightarrow> bool" and rest :: "'s \<Rightarrow> 'r"
  assumes touch_front: "order s (xs @ x # ys) \<Longrightarrow> xs @ ys \<noteq> []
      \<Longrightarrow> \<exists>s'. touch x s = Some s' \<and> order s' (x # xs @ ys) \<and> rest s' = rest s"
    and order_distinct: "order s xs \<Longrightarrow> distinct xs"
begin

lemma touchE:
  assumes "order s (xs @ x # ys)" "xs @ ys \<noteq> []"
  obtains s' where "touch x s = Some s'" "order s' (x # xs @ ys)" "rest s' = rest s"
  using touch_front[OF assms] by blast

text \<open>Reusing the least recently used element.\<close>

lemma touch_last:
  assumes "order s xs" "1 < length xs"
  obtains s' where "touch (last xs) s = Some s'" "order s' (last xs # butlast xs)" "rest s' = rest s"
proof -
  have xs: "xs = butlast xs @ last xs # []" using assms(2) by (metis append_butlast_last_id list.size(3) not_one_less_zero)
  have "butlast xs @ [] \<noteq> []" using assms(2) by (cases xs rule: rev_cases) auto
  with touchE[of s "butlast xs" "last xs" "[]"] assms(1) xs that show thesis by auto
qed

end

lemma touch_dlist:
  assumes "dlist s (xs @ x # ys)" "xs @ ys \<noteq> []"
  shows "\<exists>s'. list_touch x s = Some s' \<and> dlist s' (x # xs @ ys) \<and> links.more s' = links.more s"
proof -
  have "x \<notin> set (xs @ ys)" using assms(1) by (auto simp: dlist_def)
  from tohead_dlist[OF unlink_dlist[OF assms(1)] assms(2) this] show ?thesis
    using tohead_more[of x "list_unlink x s"] by (auto simp: list_touch_def)
qed

interpretation lru: recency_list list_touch dlist links.more
  by unfold_locales (rule touch_dlist, simp_all add: dlist_def)


section \<open>Entries in the order of last use\<close>

text \<open>A slot is empty or holds a name and what is known about it.\<close>

type_synonym 'v entry = "(byte list \<times> 'v) option"

definition is_for :: "byte list \<Rightarrow> 'v entry \<Rightarrow> bool" where
  "is_for k e \<longleftrightarrow> (case e of None \<Rightarrow> False | Some (n, d) \<Rightarrow> n = k)"

lemma find_split:
  "List.find P xs = Some x \<Longrightarrow> \<exists>as bs. xs = as @ x # bs \<and> P x \<and> (\<forall>y \<in> set as. \<not> P y)"
  by (induction xs) (auto split: if_splits, metis append_Nil empty_iff list.set(1), metis append_Cons set_ConsD)

lemma find_map: "List.find P (map f xs) = map_option f (List.find (P \<circ> f) xs)"
  by (induction xs) auto

text \<open>The search finds a slot: it comes to the front, and so does its entry.\<close>

lemma search_hit:
  assumes "dlist s xs" "1 < length xs" "List.find t xs = Some i"
  shows "\<exists>as bs s'. xs = as @ i # bs \<and> t i \<and> (\<forall>j \<in> set as. \<not> t j) \<and> find_from (lk_dn s) t (lk_head s) = Some (Some i)
    \<and> list_touch i s = Some s' \<and> dlist s' (i # as @ bs) \<and> links.more s' = links.more s"
proof -
  obtain as bs where xs: "xs = as @ i # bs" "t i" "\<forall>j \<in> set as. \<not> t j" using find_split[OF assms(3)] by blast
  have "as @ bs \<noteq> []" using assms(2) xs(1) by auto
  with lru.touchE[of s as i bs] assms(1) xs(1) obtain s' where
    "list_touch i s = Some s'" "dlist s' (i # as @ bs)" "links.more s' = links.more s" by blast
  moreover have "find_from (lk_dn s) t (lk_head s) = Some (Some i)"
    using find_from_path[of "lk_dn s" "lk_head s" xs t] assms(1,3) by (simp add: dlist_def)
  ultimately show ?thesis using xs by blast
qed

lemma entry_front:
  "(\<forall>j \<in> set as. f j \<noteq> f i) \<Longrightarrow> map f (i # as @ bs) = f i # remove1 (f i) (map f (as @ i # bs))"
  by (auto simp: remove1_append)

text \<open>The search finds none: the slot at the tail can be reused.\<close>

lemma search_miss:
  assumes "dlist s xs" "1 < length xs" "List.find t xs = None"
  shows "find_from (lk_dn s) t (lk_head s) = Some None \<and> lk_tail s = Some (last xs) \<and> last xs \<in> set xs
    \<and> last xs \<notin> set (butlast xs)
    \<and> (\<exists>s'. list_touch (last xs) s = Some s' \<and> dlist s' (last xs # butlast xs) \<and> links.more s' = links.more s)"
proof -
  have bl: "xs = butlast xs @ [last xs]" using assms(2) by (metis append_butlast_last_id list.size(3) not_one_less_zero)
  have "path (lk_up s) (lk_tail s) (rev (butlast xs @ [last xs])) None" using assms(1) bl by (simp add: dlist_def)
  then have tl: "lk_tail s = Some (last xs)" by simp
  have "distinct (butlast xs @ [last xs])" using assms(1) bl by (simp add: dlist_def)
  moreover have "last xs \<in> set xs" using assms(2) by (intro last_in_set) auto
  moreover have "find_from (lk_dn s) t (lk_head s) = Some None"
    using find_from_path[of "lk_dn s" "lk_head s" xs t] assms(1,3) by (simp add: dlist_def)
  moreover obtain s' where "list_touch (last xs) s = Some s'" "dlist s' (last xs # butlast xs)" "links.more s' = links.more s"
    using lru.touch_last[OF assms(1,2)] by blast
  ultimately show ?thesis using tl by auto
qed

end
