(* ===== verification/Fncache.thy ===== *)
theory Fncache
  imports Lru
begin

text \<open>
  The cache of system file names of \<^verbatim>\<open>mkpkg\<close>, \<^verbatim>\<open>unix/boot/mkpkg/fncache.c\<close>, and the search it
  stands in for, \<^verbatim>\<open>unix/boot/bootlib/ossysfile.c\<close>. The output of both is the integer they
  return and the bytes they store through \<open>fname\<close>. The host answers three questions: the path
  \<^verbatim>\<open>irafpath\<close> finds for a name, the value of \<^verbatim>\<open>pkglibs\<close>, and whether a file exists.
\<close>

definition FN_MAXFILES :: nat where "FN_MAXFILES = 20"
definition SZ_LNAME :: nat where "SZ_LNAME = 32"
definition SZ_FNAME :: nat where "SZ_FNAME = 32"

record syshost =
  irafpath :: "byte list \<Rightarrow> byte list"
  pkglibs :: "byte list option"
  exists :: "byte list \<Rightarrow> bool"

section \<open>The search\<close>

definition is_sep :: "byte \<Rightarrow> bool" where
  "is_sep c \<longleftrightarrow> is_space c \<or> c = bchar CHR '',''"

text \<open>
  The loop over the package libraries, with \<open>last\<close> the string in the output: the name is
  appended to each library in turn, in an array of \<open>maxch\<close> bytes.
\<close>

function search_libs :: "syshost \<Rightarrow> nat \<Rightarrow> byte list \<Rightarrow> byte list \<Rightarrow> byte list \<Rightarrow> (int \<times> byte list) option" where
  "search_libs h maxch sysfile ip left =
     (if ip = [] then Some (- 1, left @ [EOS])
      else
        let ip1 = dropWhile is_sep ip;
            f = takeWhile (\<lambda>c. \<not> is_sep c) ip1 @ sysfile
        in if maxch \<le> length f then None
           else if exists h f then Some (int (length f), f @ [EOS])
           else search_libs h maxch sysfile (dropWhile (\<lambda>c. \<not> is_sep c) ip1) f)"
  by pat_completeness auto
termination
proof (relation "measure (\<lambda>(h, maxch, sysfile, ip, left). length ip)")
  fix ip ip1 :: "byte list"
  assume a: "ip \<noteq> []" "ip1 = dropWhile is_sep ip"
  have "length (dropWhile (\<lambda>c. \<not> is_sep c) ip1) < length ip"
  proof (cases "is_sep (hd ip)")
    case True
    then have "length ip1 < length ip" using a by (cases ip) (auto simp: less_Suc_eq_le length_dropWhile_le)
    then show ?thesis using length_dropWhile_le[of "\<lambda>c. \<not> is_sep c" ip1] by linarith
  next
    case False
    then show ?thesis using a by (cases ip) (auto simp: less_Suc_eq_le length_dropWhile_le)
  qed
  then show "((h, maxch, sysfile, dropWhile (\<lambda>c. \<not> is_sep c) ip1, f), h, maxch, sysfile, ip, left)
      \<in> measure (\<lambda>(h, maxch, sysfile, ip, left). length ip)" for h :: syshost and maxch sysfile f left by simp
qed simp

declare search_libs.simps [simp del]

definition os_sysfile :: "syshost \<Rightarrow> byte list \<Rightarrow> nat \<Rightarrow> (int \<times> byte list) option" where
  "os_sysfile h sysfile maxch =
     (if maxch = 0 then None
      else
        let f = take (maxch - 1) (irafpath h sysfile)
        in if f \<noteq> sysfile then Some (int (length f), f @ [EOS])
           else (case pkglibs h of
                   None \<Rightarrow> Some (- 1, f @ [EOS])
                 | Some files \<Rightarrow> search_libs h maxch sysfile files f))"

section \<open>The cache\<close>

record fnslot =
  fn_nrefs :: cint
  fn_chk :: cint
  fn_lname :: "byte list"
  fn_fname :: "byte list"

record fncache = links +
  fn_slots :: "nat \<Rightarrow> fnslot"
  fn_hits :: cint
  fn_misses :: cint

definition fn_chksum :: "byte list \<Rightarrow> cint" where
  "fn_chksum s = word_of_int (sum_list (map cval s))"

text \<open>The bytes copied, the terminator included if there is room, and the length without it.\<close>

definition fn_strncpy :: "byte list \<Rightarrow> nat \<Rightarrow> int \<times> byte list" where
  "fn_strncpy s maxch = (let w = take maxch (s @ [EOS]) in (int (length w) - 1, w))"

text \<open>
  A slot keeps the two names as strings. The string that the search left in \<open>fname\<close> is copied
  into an array of \<open>SZ_FNAME + 1\<close> bytes.
\<close>

definition m_sysfile :: "syshost \<Rightarrow> byte list \<Rightarrow> nat \<Rightarrow> fncache \<Rightarrow> ((int \<times> byte list) \<times> fncache) option" where
  "m_sysfile h lname maxch c = do {
     let chk = fn_chksum lname;
     hit \<leftarrow> find_from (lk_dn c) (\<lambda>i. fn_chk (fn_slots c i) = chk \<and> fn_lname (fn_slots c i) = lname) (lk_head c);
     (case hit of
        Some i \<Rightarrow> do {
          c1 \<leftarrow> list_touch i c;
          let e = fn_slots c1 i;
          Some (fn_strncpy (fn_fname e) maxch,
            c1\<lparr>fn_slots := (fn_slots c1)(i := e\<lparr>fn_nrefs := fn_nrefs e + 1\<rparr>), fn_hits := fn_hits c1 + 1\<rparr>) }
      | None \<Rightarrow> do {
          let c0 = c\<lparr>fn_misses := fn_misses c + 1\<rparr>;
          r \<leftarrow> os_sysfile h lname maxch;
          let f = cstr (snd r);
          if int SZ_FNAME < fst r \<or> SZ_LNAME < length lname then Some (r, c0)
          else if SZ_FNAME < length f then None
          else (case lk_tail c0 of
                  None \<Rightarrow> None
                | Some t \<Rightarrow> do {
                    c1 \<leftarrow> list_touch t c0;
                    Some (r, c1\<lparr>fn_slots := (fn_slots c1)(t := \<lparr>fn_nrefs = 1, fn_chk = chk, fn_lname = lname, fn_fname = f\<rparr>)\<rparr>) }) }) }"

definition fn_clear_slot :: "fnslot \<Rightarrow> fnslot" where
  "fn_clear_slot e = e\<lparr>fn_nrefs := 0, fn_chk := - 1, fn_lname := []\<rparr>"

definition m_fninit :: "bool \<Rightarrow> fncache \<Rightarrow> fncache option" where
  "m_fninit debug c = do {
     let c0 = (if debug then c\<lparr>fn_hits := 0, fn_misses := 0\<rparr> else c);
     c2 \<leftarrow> link_all [1..<FN_MAXFILES] (first_slot c0);
     Some (c2\<lparr>fn_slots := (\<lambda>i. if i < FN_MAXFILES then fn_clear_slot (fn_slots c2 i) else fn_slots c2 i)\<rparr>) }"

section \<open>The contract\<close>

definition fn_entry :: "fnslot \<Rightarrow> byte list entry" where
  "fn_entry e = (if fn_chk e = fn_chksum (fn_lname e) then Some (fn_lname e, fn_fname e) else None)"

text \<open>The lookup in the list of entries, given what the search answers.\<close>

definition fn_lookup ::
  "int \<times> byte list \<Rightarrow> byte list \<Rightarrow> nat \<Rightarrow> byte list entry list \<Rightarrow> (int \<times> byte list) \<times> byte list entry list" where
  "fn_lookup r k maxch es =
     (case List.find (is_for k) es of
        Some e \<Rightarrow> (fn_strncpy (snd (the e)) maxch, e # remove1 e es)
      | None \<Rightarrow> if int SZ_FNAME < fst r \<or> SZ_LNAME < length k then (r, es)
                else (r, Some (k, cstr (snd r)) # butlast es))"

definition fn_holds :: "fncache \<Rightarrow> nat list \<Rightarrow> byte list entry list \<Rightarrow> bool" where
  "fn_holds c xs es \<longleftrightarrow> dlist c xs \<and> 1 < length xs \<and> es = map (\<lambda>i. fn_entry (fn_slots c i)) xs"

lemma fncache_more:
  "links.more c1 = links.more (c :: fncache) \<Longrightarrow> fn_slots c1 = fn_slots c \<and> fn_hits c1 = fn_hits c \<and> fn_misses c1 = fn_misses c"
  by (metis fncache.ext_inject fncache.surjective links.select_convs(5))

lemma fn_dlist_cong [simp]:
  "dlist (c\<lparr>fn_slots := sl\<rparr>) xs = dlist c xs" "dlist (c\<lparr>fn_hits := h\<rparr>) xs = dlist c xs"
  "dlist (c\<lparr>fn_misses := m\<rparr>) xs = dlist c xs"
  by (simp_all add: dlist_def)

lemma is_for_fn: "is_for k (fn_entry e) \<longleftrightarrow> fn_chk e = fn_chksum k \<and> fn_lname e = k"
  by (auto simp: is_for_def fn_entry_def)

lemma m_sysfile_lookup:
  assumes "fn_holds c xs es" "os_sysfile h k maxch = Some r" "length (cstr (snd r)) \<le> max SZ_FNAME (nat (fst r))"
  shows "\<exists>c' xs'. m_sysfile h k maxch c = Some (fst (fn_lookup r k maxch es), c') \<and> fn_holds c' xs' (snd (fn_lookup r k maxch es))"
proof -
  have hc: "dlist c xs" "1 < length xs" "es = map (\<lambda>i. fn_entry (fn_slots c i)) xs"
    using assms(1) by (auto simp: fn_holds_def)
  let ?t = "\<lambda>i. fn_chk (fn_slots c i) = fn_chksum k \<and> fn_lname (fn_slots c i) = k"
  have t: "is_for k \<circ> (\<lambda>i. fn_entry (fn_slots c i)) = ?t" by (simp add: fun_eq_iff is_for_fn)
  have fe: "List.find (is_for k) es = map_option (\<lambda>i. fn_entry (fn_slots c i)) (List.find ?t xs)"
    unfolding hc(3) find_map t ..
  show ?thesis
  proof (cases "List.find ?t xs")
    case (Some i)
    from search_hit[OF hc(1,2) Some] obtain as bs c1 where
      xs: "xs = as @ i # bs" "?t i" "\<forall>j \<in> set as. \<not> ?t j" and ff: "find_from (lk_dn c) ?t (lk_head c) = Some (Some i)"
      and c1: "list_touch i c = Some c1" "dlist c1 (i # as @ bs)" "links.more c1 = links.more c" by blast
    have more: "fn_slots c1 = fn_slots c" "fn_hits c1 = fn_hits c" using fncache_more[OF c1(3)] by auto
    let ?s = "fn_slots c i"
    let ?c = "c1\<lparr>fn_slots := (fn_slots c)(i := ?s\<lparr>fn_nrefs := fn_nrefs ?s + 1\<rparr>), fn_hits := fn_hits c + 1\<rparr>"
    have eo: "fn_entry (?s\<lparr>fn_nrefs := r\<rparr>) = fn_entry ?s" for r by (simp add: fn_entry_def)
    have "\<forall>j \<in> set as. fn_entry (fn_slots c j) \<noteq> fn_entry ?s" using xs(2,3) is_for_fn by metis
    then have r: "fn_entry ?s # remove1 (fn_entry ?s) es = map (\<lambda>j. fn_entry (fn_slots c j)) (i # as @ bs)"
      using entry_front[of as "\<lambda>j. fn_entry (fn_slots c j)" i bs] by (simp add: hc(3) xs(1))
    have "m_sysfile h k maxch c = Some (fn_strncpy (fn_fname ?s) maxch, ?c)" using ff c1(1) more by (simp add: m_sysfile_def Let_def)
    moreover have "snd (the (fn_entry ?s)) = fn_fname ?s" using xs(2) by (auto simp: fn_entry_def)
    moreover have "fn_holds ?c (i # as @ bs) (fn_entry ?s # remove1 (fn_entry ?s) es)"
      unfolding fn_holds_def r using c1(2) hc(2) xs(1) by (auto simp: eo)
    ultimately show ?thesis using Some fe by (auto simp: fn_lookup_def)
  next
    case None
    let ?c0 = "c\<lparr>fn_misses := fn_misses c + 1\<rparr>"
    have "dlist ?c0 xs" using hc(1) by simp
    note m = search_miss[OF this hc(2) None]
    have ff: "find_from (lk_dn c) ?t (lk_head c) = Some None" using m by simp
    show ?thesis
    proof (cases "int SZ_FNAME < fst r \<or> SZ_LNAME < length k")
      case True
      then have "m_sysfile h k maxch c = Some (r, ?c0)" using ff assms(2) by (simp add: m_sysfile_def Let_def)
      moreover have "fn_holds ?c0 xs es" using assms(1) by (simp add: fn_holds_def)
      ultimately show ?thesis using True None fe by (auto simp: fn_lookup_def)
    next
      case False
      define x where "x = last xs"
      obtain c1 where tl: "lk_tail c = Some x" and xin: "x \<notin> set (butlast xs)"
        and c1: "list_touch x ?c0 = Some c1" "dlist c1 (x # butlast xs)" "links.more c1 = links.more ?c0"
        using m unfolding x_def by auto
      have more: "fn_slots c1 = fn_slots c" using fncache_more[OF c1(3)] by simp
      let ?e = "\<lparr>fn_nrefs = 1, fn_chk = fn_chksum k, fn_lname = k, fn_fname = cstr (snd r)\<rparr>"
      let ?c = "c1\<lparr>fn_slots := (fn_slots c)(x := ?e)\<rparr>"
      have fits: "\<not> SZ_FNAME < length (cstr (snd r))" using False assms(3) by auto
      then have s: "m_sysfile h k maxch c = Some (r, ?c)"
        using ff False tl c1(1) more assms(2) by (simp add: m_sysfile_def Let_def)
      have "butlast es = map (\<lambda>i. fn_entry (((fn_slots c)(x := ?e)) i)) (butlast xs)"
        using xin hc(3) by (simp add: map_butlast[symmetric])
      then have "fn_holds ?c (x # butlast xs) (Some (k, cstr (snd r)) # butlast es)"
        using c1(2) hc(2) by (simp add: fn_holds_def fn_entry_def)
      then show ?thesis using s False None fe by (auto simp: fn_lookup_def)
    qed
  qed
qed

lemma m_fninit_empty:
  "\<exists>c'. m_fninit debug c = Some c' \<and> fn_holds c' (rev [0..<FN_MAXFILES]) (replicate FN_MAXFILES None)"
proof -
  let ?c0 = "if debug then c\<lparr>fn_hits := 0, fn_misses := 0\<rparr> else c"
  have r: "rev [1..<FN_MAXFILES] @ [0] = rev [0..<FN_MAXFILES]" by (simp add: upt_conv_Cons FN_MAXFILES_def)
  obtain c2 where c2: "link_all [1..<FN_MAXFILES] (first_slot ?c0) = Some c2" "dlist c2 (rev [0..<FN_MAXFILES])"
    using link_all_dlist[OF first_slot_dlist[of ?c0], of "[1..<FN_MAXFILES]"] unfolding r by auto
  let ?sl = "\<lambda>i. if i < FN_MAXFILES then fn_clear_slot (fn_slots c2 i) else fn_slots c2 i"
  have e: "fn_entry (fn_clear_slot s) = None" for s
    by (simp add: fn_entry_def fn_clear_slot_def fn_chksum_def)
  have "map (\<lambda>i. fn_entry (?sl i)) (rev [0..<FN_MAXFILES]) = replicate FN_MAXFILES None"
    by (rule nth_equalityI) (auto simp: rev_nth e)
  moreover have "m_fninit debug c = Some (c2\<lparr>fn_slots := ?sl\<rparr>)" using c2(1) unfolding m_fninit_def Let_def by simp
  ultimately show ?thesis using c2(2) by (intro exI[of _ "c2\<lparr>fn_slots := ?sl\<rparr>"]) (simp add: fn_holds_def FN_MAXFILES_def)
qed


section \<open>Properties\<close>

text \<open>
  C16. The linked cache of names implements its contract: \<^verbatim>\<open>m_sysfile\<close> returns what the lookup in
  the list of entries returns, and leaves the slots holding the entries the lookup leaves.
\<close>

theorem m_sysfile_refines_lookup:
  assumes "fn_holds c xs es" "os_sysfile h k maxch = Some r" "length (cstr (snd r)) \<le> max SZ_FNAME (nat (fst r))"
  shows "\<exists>c' xs'. m_sysfile h k maxch c = Some (fst (fn_lookup r k maxch es), c') \<and> fn_holds c' xs' (snd (fn_lookup r k maxch es))"
  using assms by (rule m_sysfile_lookup)

definition fn_cleared :: fncache where
  "fn_cleared = \<lparr>lk_up = (\<lambda>_. None), lk_dn = (\<lambda>_. None), lk_head = None, lk_tail = None,
     fn_slots = (\<lambda>_. \<lparr>fn_nrefs = 0, fn_chk = 0, fn_lname = [], fn_fname = []\<rparr>), fn_hits = 0, fn_misses = 0\<rparr>"

text \<open>A host with one header file and one package library.\<close>

definition sample_syshost :: syshost where
  "sample_syshost = \<lparr>irafpath = (\<lambda>n. if n = bstr ''a.h'' then bstr ''host/a.h'' else n),
     pkglibs = Some (bstr ''lib/,x/''), exists = (\<lambda>n. n = bstr ''x/b.h'')\<rparr>"

lemma sample_search: "os_sysfile sample_syshost (bstr ''a.h'') 512 = Some (8, bstr ''host/a.h'' @ [EOS])"
  by (simp add: os_sysfile_def sample_syshost_def bstr_def)

theorem m_sysfile_refines_lookup_witness:
  "\<exists>c c' xs'. m_fninit False fn_cleared = Some c
    \<and> m_sysfile sample_syshost (bstr ''a.h'') 512 c
       = Some (fst (fn_lookup (8, bstr ''host/a.h'' @ [EOS]) (bstr ''a.h'') 512 (replicate FN_MAXFILES None)), c')
    \<and> fn_holds c' xs' (snd (fn_lookup (8, bstr ''host/a.h'' @ [EOS]) (bstr ''a.h'') 512 (replicate FN_MAXFILES None)))"
proof -
  obtain c where c: "m_fninit False fn_cleared = Some c" "fn_holds c (rev [0..<FN_MAXFILES]) (replicate FN_MAXFILES None)"
    using m_fninit_empty by blast
  have "length (cstr (snd (8 :: int, bstr ''host/a.h'' @ [EOS]))) \<le> max SZ_FNAME (nat (fst (8 :: int, bstr ''host/a.h'' @ [EOS])))"
    by (simp add: SZ_FNAME_def bstr_def cstr_def)
  from m_sysfile_refines_lookup[OF c(2) sample_search this] c(1) show ?thesis by blast
qed

text \<open>
  C40. The second lookup of a name that is short enough to be kept returns the length of the
  string that the first search left in the output, whatever that search returned: a name that
  was found is found again, and a name that was not found (\<open>n = - 1\<close>) is found the second
  time, which the search itself never says.
\<close>

theorem m_sysfile_second_lookup:
  assumes "fn_holds c xs es" "List.find (is_for k) es = None" "os_sysfile h k maxch = Some (n, s @ [EOS])"
    "EOS \<notin> set s" "n \<le> int (length s)" "length k \<le> SZ_LNAME" "length s \<le> SZ_FNAME" "SZ_FNAME < maxch"
  shows "\<exists>c1 c2. m_sysfile h k maxch c = Some ((n, s @ [EOS]), c1)
    \<and> m_sysfile h k maxch c1 = Some ((int (length s), s @ [EOS]), c2)"
proof -
  have cs: "cstr (s @ [EOS]) = s" using assms(4) by simp
  have l: "length (cstr (snd (n, s @ [EOS]))) \<le> max SZ_FNAME (nat (fst (n, s @ [EOS])))" using assms(7) cs by simp
  have "\<not> (int SZ_FNAME < n \<or> SZ_LNAME < length k)" using assms(5-7) by linarith
  then have lk: "fn_lookup (n, s @ [EOS]) k maxch es = ((n, s @ [EOS]), Some (k, s) # butlast es)"
    using assms(2) cs by (simp add: fn_lookup_def)
  from m_sysfile_lookup[OF assms(1,3) l] obtain c1 xs1 where
    1: "m_sysfile h k maxch c = Some ((n, s @ [EOS]), c1)" "fn_holds c1 xs1 (Some (k, s) # butlast es)"
    unfolding lk by auto
  have "fn_lookup (n, s @ [EOS]) k maxch (Some (k, s) # butlast es) = ((int (length s), s @ [EOS]), Some (k, s) # butlast es)"
    using assms(7,8) by (simp add: fn_lookup_def is_for_def fn_strncpy_def Let_def)
  with m_sysfile_lookup[OF 1(2) assms(3) l] 1(1) show ?thesis by auto
qed

theorem m_sysfile_second_lookup_witness:
  "\<exists>c c1 c2. m_fninit False fn_cleared = Some c
    \<and> m_sysfile sample_syshost (bstr ''c.h'') 512 c = Some ((- 1, bstr ''x/c.h'' @ [EOS]), c1)
    \<and> m_sysfile sample_syshost (bstr ''c.h'') 512 c1 = Some ((int (length (bstr ''x/c.h'')), bstr ''x/c.h'' @ [EOS]), c2)"
proof -
  obtain c where c: "m_fninit False fn_cleared = Some c" "fn_holds c (rev [0..<FN_MAXFILES]) (replicate FN_MAXFILES None)"
    using m_fninit_empty by blast
  have "os_sysfile sample_syshost (bstr ''c.h'') 512 = Some (- 1, bstr ''x/c.h'' @ [EOS])"
    by (simp add: os_sysfile_def sample_syshost_def bstr_def search_libs.simps is_sep_def is_space_def Let_def cval_def)
  moreover have "List.find (is_for (bstr ''c.h'')) (replicate FN_MAXFILES None) = None"
    by (auto simp: find_None_iff is_for_def)
  moreover have "length (bstr ''c.h'') \<le> SZ_LNAME" "length (bstr ''x/c.h'') \<le> SZ_FNAME" "SZ_FNAME < 512"
    "EOS \<notin> set (bstr ''x/c.h'')"
    by (simp_all add: bstr_def SZ_LNAME_def SZ_FNAME_def)
  moreover have "- 1 \<le> int (length (bstr ''x/c.h''))" by simp
  ultimately show ?thesis using m_sysfile_second_lookup[OF c(2)] c(1) by blast
qed

end
