(* ===== verification/Tokens.thy ===== *)
theory Tokens
  imports Pushback Fncache
begin

text \<open>
  The scanners of \<^verbatim>\<open>unix/boot/mkpkg/tok.c\<close> over the macro expanded input of \<^verbatim>\<open>m_getc\<close>: strings,
  arguments, commands and keyword pairs. Every function returns \<open>None\<close> when it does not return;
  \<open>Undef\<close> is a store outside an array.
\<close>

definition SZ_COMMAND :: nat where "SZ_COMMAND = 2047"

text \<open>What the scanners use of the program: the macros, the garbage of a new descriptor, and the system files.\<close>

record mk_env =
  me_host :: mk_host
  me_junk :: "nat list \<times> byte list"
  me_sys :: syshost

fun pass :: "'a outcome option \<Rightarrow> ('a \<Rightarrow> 'b outcome option) \<Rightarrow> 'b outcome option" where
  "pass None k = None"
| "pass (Some (Ret x)) k = k x"
| "pass (Some Fatals) k = Some Fatals"
| "pass (Some Undef) k = Some Undef"

lemma pass_mono [partial_function_mono]:
  fixes B :: "('a \<Rightarrow> 'b option) \<Rightarrow> 'c outcome option" and C :: "'c \<Rightarrow> ('a \<Rightarrow> 'b option) \<Rightarrow> 'd outcome option"
  assumes "mono_option B" "\<And>y. mono_option (\<lambda>f. C y f)"
  shows "mono_option (\<lambda>f. pass (B f) (\<lambda>y. C y f))"
proof (rule monotoneI)
  fix f g :: "'a \<Rightarrow> 'b option"
  assume fg: "option.le_fun f g"
  have b: "option_ord (B f) (B g)" using assms(1) fg unfolding monotone_on_def by blast
  have c: "option_ord (C y f) (C y g)" for y using assms(2) fg unfolding monotone_on_def by blast
  show "option_ord (pass (B f) (\<lambda>y. C y f)) (pass (B g) (\<lambda>y. C y g))"
  proof (cases "B f")
    case (Some x)
    then have "B g = Some x" using b by (simp add: flat_ord_def)
    then show ?thesis using Some c by (cases x) (simp_all add: flat_ord_def)
  qed (simp add: flat_ord_def)
qed

text \<open>
  \<open>getstr (cx, outstr, maxch, delim)\<close> with an array of \<open>maxch + 1\<close> bytes: an escape stores up to two
  characters for one count.
\<close>

definition store :: "nat \<Rightarrow> byte list \<Rightarrow> int list \<Rightarrow> byte list outcome" where
  "store maxch acc cs = (if maxch < length acc + length cs - 1 then Undef else Ret (acc @ map word_of_int cs))"

definition end_str :: "nat \<Rightarrow> byte list \<Rightarrow> mk_context \<Rightarrow> (byte list \<times> mk_context) outcome option" where
  "end_str maxch acc cx = Some (if maxch < length acc then Undef else Ret (acc, cx))"

fun str_loop :: "mk_env \<Rightarrow> nat \<Rightarrow> int \<Rightarrow> nat \<Rightarrow> byte list \<Rightarrow> mk_context \<Rightarrow> (byte list \<times> mk_context) outcome option" where
  "str_loop e maxch delim 0 acc cx = end_str maxch acc cx"
| "str_loop e maxch delim (Suc n) acc cx =
     pass (m_getc (me_host e) (me_junk e) cx) (\<lambda>(ch, cx1).
       if ch = delim then end_str maxch acc cx1
       else if ch = 92 then
         pass (m_getc (me_host e) (me_junk e) cx1) (\<lambda>(ch, cx2).
           pass (Some (if ch = 10 then Ret acc else if ch = delim then store maxch acc [ch] else store maxch acc [92, ch])) (\<lambda>acc'.
             str_loop e maxch delim n acc' cx2))
       else if ch = 10 \<or> ch = -1 then
         pass (Some (m_ungetc (me_junk e) 10 cx1)) (\<lambda>cx2. end_str maxch acc cx2)
       else pass (Some (store maxch acc [ch])) (\<lambda>acc'. str_loop e maxch delim n acc' cx1))"

definition getstr :: "mk_env \<Rightarrow> nat \<Rightarrow> int \<Rightarrow> mk_context \<Rightarrow> (byte list \<times> mk_context) outcome option" where
  "getstr e maxch delim cx = str_loop e maxch delim maxch [] cx"

partial_function (option) skip_blanks :: "mk_env \<Rightarrow> mk_context \<Rightarrow> (int \<times> mk_context) outcome option" where
  "skip_blanks e cx = pass (m_getc (me_host e) (me_junk e) cx) (\<lambda>(ch, cx1).
     if ch = 32 then skip_blanks e cx1 else Some (Ret (ch, cx1)))"

text \<open>\<^verbatim>\<open>m_sysfile\<close> with its cache, or the name in angle brackets, which has to fit in the \<open>lim\<close> bytes that are left
  in the array.\<close>

definition sysfile_name :: "mk_env \<Rightarrow> byte list \<Rightarrow> nat \<Rightarrow> nat \<Rightarrow> fncache \<Rightarrow> (byte list \<times> fncache) outcome option" where
  "sysfile_name e tok maxch lim fn =
     (case m_sysfile (me_sys e) (cstr tok) maxch fn of
        None \<Rightarrow> Some Undef
      | Some ((n, nm), fn') \<Rightarrow>
          if 0 < n then Some (Ret (cstr nm, fn'))
          else if lim < length (cstr tok) + 3 then Some Undef
          else Some (Ret ([60] @ cstr tok @ [62], fn')))"

definition arg_delim :: "int \<Rightarrow> int" where
  "arg_delim ch = (if ch = 40 then 41 else if ch = 34 \<or> ch = 39 then ch else if ch = 60 then 62 else 32)"

definition getargs :: "mk_env \<Rightarrow> mk_context \<Rightarrow> fncache \<Rightarrow> (byte list \<times> mk_context \<times> fncache) outcome option" where
  "getargs e cx fn =
     pass (skip_blanks e cx) (\<lambda>(ch, cx1).
       let delim = arg_delim ch
       in pass (Some (if delim = 32 then m_ungetc (me_junk e) ch cx1 else Ret cx1)) (\<lambda>cx2.
          pass (getstr e SZ_COMMAND delim cx2) (\<lambda>(tok, cx3).
            if delim = 62 then pass (sysfile_name e tok SZ_PBBUF (SZ_PBBUF + 1) fn) (\<lambda>(args, fn'). Some (Ret (args, cx3, fn')))
            else Some (Ret (cstr tok, cx3, fn)))))"

text \<open>
  \<open>getcmd (cx, prefix, cmd, maxch)\<close>: \<open>op\<close> runs up to \<open>maxch\<close>; an escape can pass it by one. The flag
  tells whether the end of the command was stored.
\<close>

partial_function (option) cmd_loop :: "mk_env \<Rightarrow> nat \<Rightarrow> byte list \<Rightarrow> mk_context \<Rightarrow> (byte list \<times> bool \<times> mk_context) outcome option" where
  "cmd_loop e maxch acc cx =
     (if maxch \<le> length acc then Some (Ret (acc, False, cx))
      else pass (m_getc (me_host e) (me_junk e) cx) (\<lambda>(ch, cx1).
        if ch = -1 then Some (Ret (acc, False, cx1))
        else if ch = 92 then
          pass (m_getc (me_host e) (me_junk e) cx1) (\<lambda>(ch, cx2).
            cmd_loop e maxch (if ch = 10 then acc else acc @ [92, word_of_int ch]) cx2)
        else if ch = 10 then Some (Ret (acc, True, cx1))
        else if ch = 36 \<and> acc = [] then Some Undef
        else if ch = 36 \<and> last acc = 32 then
          pass (Some (m_ungetc (me_junk e) ch cx1)) (\<lambda>cx2. Some (Ret (acc, True, cx2)))
        else cmd_loop e maxch (acc @ [word_of_int ch]) cx1))"

definition getcmd :: "mk_env \<Rightarrow> byte list \<Rightarrow> nat \<Rightarrow> mk_context \<Rightarrow> (byte list \<times> bool \<times> mk_context) outcome option" where
  "getcmd e prefix maxch cx = cmd_loop e maxch prefix cx"

definition is_alpha :: "int \<Rightarrow> bool" where
  "is_alpha ch \<longleftrightarrow> 65 \<le> ch \<and> ch \<le> 90 \<or> 97 \<le> ch \<and> ch \<le> 122"

partial_function (option) key_loop :: "mk_env \<Rightarrow> byte list \<Rightarrow> mk_context \<Rightarrow> ((byte list + unit) \<times> mk_context) outcome option" where
  "key_loop e key cx =
     pass (m_getc (me_host e) (me_junk e) cx) (\<lambda>(ch, cx1).
       if ch = 61 then Some (if SZ_MNAME < length key then Undef else Ret (Inl key, cx1))
       else if ch = 32 then key_loop e key cx1
       else if ch = 10 then pass (Some (m_ungetc (me_junk e) 10 cx1)) (\<lambda>cx2. Some (Ret (Inr (), cx2)))
       else if SZ_MNAME < length key then Some Undef
       else key_loop e (key @ [word_of_int ch]) cx1)"

text \<open>\<open>getkwvpair\<close>: the keyword and the value, or \<open>None\<close> for \<^verbatim>\<open>ERR\<close>.\<close>

definition getkwvpair :: "mk_env \<Rightarrow> mk_context \<Rightarrow> fncache \<Rightarrow> ((byte list \<times> byte list) option \<times> mk_context \<times> fncache) outcome option" where
  "getkwvpair e cx fn =
     pass (skip_blanks e cx) (\<lambda>(ch, cx1).
       if \<not> is_alpha ch then pass (Some (m_ungetc (me_junk e) ch cx1)) (\<lambda>cx2. Some (Ret (None, cx2, fn)))
       else pass (key_loop e [word_of_int ch] cx1) (\<lambda>(key, cx2).
         case key of
           Inr _ \<Rightarrow> Some (Ret (None, cx2, fn))
         | Inl s \<Rightarrow> pass (getargs e cx2 fn) (\<lambda>(val, cx3, fn'). Some (Ret (Some (cstr s, val), cx3, fn')))))"

text \<open>\<open>getword (&str, outstr, maxch)\<close> on a C string: the word and the rest, behind the blank that ended it.\<close>

definition getword :: "nat \<Rightarrow> byte list \<Rightarrow> byte list \<times> byte list" where
  "getword maxch str =
     (let s = dropWhile is_space str; w = takeWhile (\<lambda>c. \<not> is_space c) s
      in if maxch \<le> length w then (take maxch w, drop maxch s) else (w, drop (Suc (length w)) s))"

section \<open>Input without macros\<close>

definition env_ok :: "mk_env \<Rightarrow> bool" where
  "env_ok e \<longleftrightarrow> junk_ok (me_junk e)"

text \<open>A context between two characters: \<open>at cx p\<close> when \<open>p\<close> is pending.\<close>

definition at :: "mk_context \<Rightarrow> int list \<Rightarrow> bool" where
  "at cx p \<longleftrightarrow> cx_ok cx \<and> pending cx = p"

lemma m_getc_plain:
  assumes "at cx (c # p)" "c \<noteq> 36"
  obtains cx' where "m_getc h junk cx = Some (Ret (if c = 9 then 32 else c, cx'))" "at cx' p" "cx_pbchar cx' = 0"
proof -
  obtain cx' where "m_rawgetc cx = Ret (c, cx')" "cx_ok cx'" "pending cx' = p" "cx_pbchar cx' = 0"
    using rawgetc_char[of cx c p] assms(1) by (auto simp: at_def)
  then show thesis using assms(2) by (intro that[of cx']) (simp_all add: at_def m_getc.simps[of h junk cx])
qed

lemma m_getc_eof:
  assumes "at cx []"
  obtains cx' where "m_getc h junk cx = Some (Ret (-1, cx'))" "at cx' []" "cx_pbchar cx' = 0"
proof -
  obtain cx' where "m_rawgetc cx = Ret (-1, cx')" "cx_ok cx'" "pending cx' = []" "cx_pbchar cx' = 0"
    using rawgetc_eof[of cx] assms by (auto simp: at_def)
  then show thesis by (intro that[of cx']) (simp_all add: at_def m_getc.simps[of h junk cx])
qed

text \<open>Characters that stand for themselves in a string with the delimiter \<open>d\<close>.\<close>

definition plain :: "int \<Rightarrow> int \<Rightarrow> bool" where
  "plain d c \<longleftrightarrow> c \<noteq> 36 \<and> c \<noteq> 9 \<and> c \<noteq> 92 \<and> c \<noteq> 10 \<and> c \<noteq> -1 \<and> c \<noteq> d"

definition quote :: "int \<Rightarrow> int list \<Rightarrow> int list" where
  "quote d s = concat (map (\<lambda>c. if c = d then [92, c] else [c]) s)"

lemma str_loop_quoted:
  "at cx (quote d s @ d # p) \<Longrightarrow> list_all (\<lambda>c. plain d c \<or> c = d) s \<Longrightarrow> d \<noteq> 36 \<Longrightarrow> d \<noteq> 9 \<Longrightarrow> d \<noteq> 92 \<Longrightarrow> d \<noteq> 10 \<Longrightarrow> length s < n
    \<Longrightarrow> length acc + length s \<le> maxch
    \<Longrightarrow> \<exists>cx'. str_loop e maxch d n acc cx = Some (Ret (acc @ map word_of_int s, cx')) \<and> at cx' p"
proof (induction s arbitrary: cx acc n)
  case Nil
  then obtain k where n: "n = Suc k" by (cases n) auto
  from Nil(1) have "at cx (d # p)" by (simp add: quote_def)
  from m_getc_plain[OF this Nil(3), of "me_host e" "me_junk e"] Nil(4) obtain cx' where
    "m_getc (me_host e) (me_junk e) cx = Some (Ret (d, cx'))" "at cx' p" by auto
  then show ?case using Nil(8) n by (simp add: end_str_def)
next
  case (Cons c s)
  obtain k where n: "n = Suc k" "length s < k" using Cons.prems(7) by (cases n) auto
  have st: "store maxch acc [c] = Ret (acc @ [word_of_int c])" using Cons.prems(8) by (simp add: store_def)
  have q: "quote d (c # s) = (if c = d then [92, c] else [c]) @ quote d s" by (simp add: quote_def)
  show ?case
  proof (cases "c = d")
    case True
    then have "at cx (92 # d # quote d s @ d # p)" using Cons.prems(1) q by simp
    from m_getc_plain[OF this, of "me_host e" "me_junk e"] obtain cx1 where
      1: "m_getc (me_host e) (me_junk e) cx = Some (Ret (92, cx1))" "at cx1 (d # quote d s @ d # p)" by auto
    from m_getc_plain[OF 1(2) Cons.prems(3), of "me_host e" "me_junk e"] Cons.prems(4) obtain cx2 where
      2: "m_getc (me_host e) (me_junk e) cx1 = Some (Ret (d, cx2))" "at cx2 (quote d s @ d # p)" by auto
    have "\<exists>cx'. str_loop e maxch d k (acc @ [word_of_int c]) cx2 = Some (Ret ((acc @ [word_of_int c]) @ map word_of_int s, cx')) \<and> at cx' p"
      using Cons.prems n(2) 2(2) by (intro Cons.IH) simp_all
    then show ?thesis using 1(1) 2(1) True n(1) st Cons.prems(5,6) by auto
  next
    case False
    then have pl: "plain d c" "at cx (c # quote d s @ d # p)" using Cons.prems(1,2) q by simp_all
    then have "c \<noteq> 36" by (simp add: plain_def)
    from m_getc_plain[OF pl(2) this, of "me_host e" "me_junk e"] pl(1) obtain cx1 where
      1: "m_getc (me_host e) (me_junk e) cx = Some (Ret (c, cx1))" "at cx1 (quote d s @ d # p)" by (auto simp: plain_def)
    have "\<exists>cx'. str_loop e maxch d k (acc @ [word_of_int c]) cx1 = Some (Ret ((acc @ [word_of_int c]) @ map word_of_int s, cx')) \<and> at cx' p"
      using Cons.prems n(2) 1(2) by (intro Cons.IH) simp_all
    then show ?thesis using 1(1) pl(1) n(1) st by (auto simp: plain_def)
  qed
qed


lemma skip_blanks_stops:
  "at cx (replicate k 32 @ c # p) \<Longrightarrow> c \<noteq> 36 \<Longrightarrow> c \<noteq> 9 \<Longrightarrow> c \<noteq> 32 \<Longrightarrow>
   \<exists>cx'. skip_blanks e cx = Some (Ret (c, cx')) \<and> at cx' p \<and> cx_pbchar cx' = 0"
proof (induction k arbitrary: cx)
  case 0
  then have "at cx (c # p)" by simp
  from m_getc_plain[OF this 0(2), of "me_host e" "me_junk e"] 0(3) obtain cx' where
    "m_getc (me_host e) (me_junk e) cx = Some (Ret (c, cx'))" "at cx' p" "cx_pbchar cx' = 0" by auto
  then show ?case using 0(4) by (subst skip_blanks.simps) simp
next
  case (Suc k)
  then have "at cx (32 # replicate k 32 @ c # p)" by simp
  from m_getc_plain[OF this, of "me_host e" "me_junk e"] obtain cx1 where
    1: "m_getc (me_host e) (me_junk e) cx = Some (Ret (32, cx1))" "at cx1 (replicate k 32 @ c # p)" by auto
  show ?case using Suc.IH[OF 1(2) Suc.prems(2-4)] 1(1) by (subst skip_blanks.simps) simp
qed

text \<open>The opening characters of an argument and their delimiters.\<close>

definition delimited :: "int \<Rightarrow> int \<Rightarrow> bool" where
  "delimited b d \<longleftrightarrow> b = 40 \<and> d = 41 \<or> b = 34 \<and> d = 34 \<or> b = 39 \<and> d = 39"

lemma getargs_reads:
  assumes "at cx (replicate k 32 @ b # quote d s @ d # p)" "delimited b d" "list_all (\<lambda>c. plain d c \<or> c = d) s" "length s < SZ_COMMAND"
  shows "\<exists>cx'. getargs e cx fn = Some (Ret (cstr (map word_of_int s), cx', fn)) \<and> at cx' p"
proof -
  have b: "b \<noteq> 36" "b \<noteq> 9" "b \<noteq> 32" "d \<noteq> 36" "d \<noteq> 9" "d \<noteq> 92" "d \<noteq> 10" "arg_delim b = d" "d \<noteq> 32" "d \<noteq> 62"
    using assms(2) by (auto simp: delimited_def arg_delim_def)
  from skip_blanks_stops[OF assms(1) b(1-3), of e] obtain cx1 where
    1: "skip_blanks e cx = Some (Ret (b, cx1))" "at cx1 (quote d s @ d # p)" by blast
  from str_loop_quoted[OF 1(2) assms(3) b(4-7), of SZ_COMMAND "[]" SZ_COMMAND e] assms(4) obtain cx2 where
    "str_loop e SZ_COMMAND d SZ_COMMAND [] cx1 = Some (Ret (map word_of_int s, cx2))" "at cx2 p" by auto
  then show ?thesis using 1(1) b(8-10) by (simp add: getargs_def getstr_def)
qed

lemma key_loop_reads:
  "at cx (key @ 61 # p) \<Longrightarrow> list_all (\<lambda>c. plain 61 c \<and> c \<noteq> 32) key \<Longrightarrow> length acc + length key \<le> SZ_MNAME \<Longrightarrow>
   \<exists>cx'. key_loop e acc cx = Some (Ret (Inl (acc @ map word_of_int key), cx')) \<and> at cx' p"
proof (induction key arbitrary: acc cx)
  case Nil
  then have "at cx (61 # p)" by simp
  from m_getc_plain[OF this, of "me_host e" "me_junk e"] obtain cx' where
    "m_getc (me_host e) (me_junk e) cx = Some (Ret (61, cx'))" "at cx' p" by auto
  then show ?case using Nil(3) by (subst key_loop.simps) simp
next
  case (Cons c key)
  then have a: "at cx (c # key @ 61 # p)" "plain 61 c" "c \<noteq> 32" by simp_all
  then have "c \<noteq> 36" by (simp add: plain_def)
  from m_getc_plain[OF a(1) this, of "me_host e" "me_junk e"] a(2) obtain cx1 where
    1: "m_getc (me_host e) (me_junk e) cx = Some (Ret (c, cx1))" "at cx1 (key @ 61 # p)" by (auto simp: plain_def)
  have "\<exists>cx'. key_loop e (acc @ [word_of_int c]) cx1 = Some (Ret (Inl ((acc @ [word_of_int c]) @ map word_of_int key), cx')) \<and> at cx' p"
    using Cons.prems 1(2) by (intro Cons.IH) simp_all
  then show ?case using 1(1) a(2,3) Cons.prems(3) by (subst key_loop.simps) (auto simp: plain_def)
qed

text \<open>
  C36. A keyword and a value in parentheses or quotes, as in the argument list of \<^verbatim>\<open>$call\<close>: \<^verbatim>\<open>getkwvpair\<close>
  returns both, with the escapes of the delimiter removed, and leaves the input behind the value.
\<close>

theorem getkwvpair_reads:
  assumes "cx_ok cx" "pending cx = replicate k 32 @ c # key @ 61 # replicate j 32 @ b # quote d s @ d # p" "is_alpha c"
    "list_all (\<lambda>c. plain 61 c \<and> c \<noteq> 32) key" "length key < SZ_MNAME" "delimited b d"
    "list_all (\<lambda>c. plain d c \<or> c = d) s" "length s < SZ_COMMAND"
  shows "\<exists>cx'. getkwvpair e cx fn = Some (Ret (Some (cstr (map word_of_int (c # key)), cstr (map word_of_int s)), cx', fn))
    \<and> cx_ok cx' \<and> pending cx' = p"
proof -
  have c: "c \<noteq> 36" "c \<noteq> 9" "c \<noteq> 32" using assms(3) by (auto simp: is_alpha_def)
  have "at cx (replicate k 32 @ c # key @ 61 # replicate j 32 @ b # quote d s @ d # p)" using assms(1,2) by (simp add: at_def)
  from skip_blanks_stops[OF this c, of e] obtain cx1 where
    1: "skip_blanks e cx = Some (Ret (c, cx1))" "at cx1 (key @ 61 # replicate j 32 @ b # quote d s @ d # p)" by blast
  from key_loop_reads[OF 1(2) assms(4), of "[word_of_int c]" e] assms(5) obtain cx2 where
    2: "key_loop e [word_of_int c] cx1 = Some (Ret (Inl (map word_of_int (c # key)), cx2))" "at cx2 (replicate j 32 @ b # quote d s @ d # p)"
    by auto
  from getargs_reads[OF 2(2) assms(6-8), of e fn] obtain cx3 where
    "getargs e cx2 fn = Some (Ret (cstr (map word_of_int s), cx3, fn))" "at cx3 p" by blast
  then show ?thesis using 1(1) 2(1) assms(3) by (simp add: getkwvpair_def at_def)
qed

definition demo_env :: mk_env where
  "demo_env = \<lparr>me_host = no_macros, me_junk = some_junk, me_sys = sample_syshost\<rparr>"

theorem getkwvpair_reads_witness:
  "\<exists>cx'. getkwvpair demo_env (fresh_cx [97, 98, 61, 40, 120, 92, 41, 41, 10]) fn_cleared
     = Some (Ret (Some (cstr (map word_of_int (97 # [98])), cstr (map word_of_int [120, 41])), cx', fn_cleared))
    \<and> cx_ok cx' \<and> pending cx' = [10]"
proof (rule getkwvpair_reads[where k = 0 and j = 0 and b = 40 and d = 41])
  show "pending (fresh_cx [97, 98, 61, 40, 120, 92, 41, 41, 10])
      = replicate 0 32 @ 97 # [98] @ 61 # replicate 0 32 @ 40 # quote 41 [120, 41] @ 41 # [10]"
    by (simp add: fresh_cx_def pending_def chars_def texts_def quote_def)
qed (simp_all add: fresh_ok is_alpha_def plain_def delimited_def SZ_MNAME_def SZ_COMMAND_def)

text \<open>
  \<^verbatim>\<open>getstr\<close> counts an escape sequence as one character but stores two: as many escapes as the
  array is meant to hold overrun it.
\<close>

theorem getstr_overflow:
  assumes "cx_ok cx" "pending cx = concat (replicate maxch [92, c]) @ p" "0 < maxch" "c \<noteq> 10" "c \<noteq> 36" "c \<noteq> 9" "c \<noteq> delim" "delim \<noteq> 92"
  shows "getstr e maxch delim cx = Some Undef"
proof -
  have "at cx (concat (replicate n [92, c]) @ p) \<Longrightarrow> length acc = 2 * (maxch - n) \<Longrightarrow> n \<le> maxch
    \<Longrightarrow> str_loop e maxch delim n acc cx = Some Undef" for n acc cx
  proof (induction n arbitrary: acc cx)
    case 0
    then show ?case using assms(3) by (simp add: end_str_def)
  next
    case (Suc n)
    then have a: "at cx (92 # c # concat (replicate n [92, c]) @ p)" by simp
    from m_getc_plain[OF a, of "me_host e" "me_junk e"] obtain cx1 where
      1: "m_getc (me_host e) (me_junk e) cx = Some (Ret (92, cx1))" "at cx1 (c # concat (replicate n [92, c]) @ p)" by auto
    from m_getc_plain[OF 1(2) assms(5), of "me_host e" "me_junk e"] assms(6) obtain cx2 where
      2: "m_getc (me_host e) (me_junk e) cx1 = Some (Ret (c, cx2))" "at cx2 (concat (replicate n [92, c]) @ p)" by auto
    show ?case
    proof (cases "maxch < length acc + 1")
      case True
      then show ?thesis using 1(1) 2(1) assms(4,7,8) by (simp add: store_def)
    next
      case False
      have "str_loop e maxch delim n (acc @ [92, word_of_int c]) cx2 = Some Undef"
        using Suc.prems 2(2) by (intro Suc.IH) simp_all
      then show ?thesis using 1(1) 2(1) assms(4,7,8) False by (simp add: store_def)
    qed
  qed
  then show ?thesis using assms(1,2) by (simp add: getstr_def at_def)
qed

theorem getstr_overflow_witness:
  "getstr demo_env 2 34 (fresh_cx [92, 97, 92, 97]) = Some Undef"
proof -
  have "replicate 2 x = [x, x]" for x :: "int list" by (simp add: numeral_2_eq_2)
  then have "pending (fresh_cx [92, 97, 92, 97]) = concat (replicate 2 [92, 97]) @ []"
    by (simp add: fresh_cx_def pending_def chars_def texts_def)
  then show ?thesis by (rule getstr_overflow[OF fresh_ok(1)]) simp_all
qed

end
