(* ===== verification/Fdcache.thy ===== *)
theory Fdcache
  imports Lru
begin

text \<open>
  The cache of file dates of \<^verbatim>\<open>mkpkg\<close>, \<^verbatim>\<open>unix/boot/mkpkg/fdcache.c\<close>: twenty slots in the order of
  last use, searched linearly by checksum and name. \<^verbatim>\<open>os_fdate\<close> of the boot library is an
  argument: the date the host gives for a name.
\<close>

definition MAX_FILES :: nat where "MAX_FILES = 20"
definition SZ_NAME :: nat where "SZ_NAME = 32"

record fdslot =
  fd_nrefs :: cint
  fd_chk :: cint
  fd_fdate :: xint
  fd_fname :: "byte list"

record fdcache = links +
  fd_slots :: "nat \<Rightarrow> fdslot"
  fd_hits :: cint
  fd_misses :: cint

definition fd_chksum :: "byte list \<Rightarrow> cint" where
  "fd_chksum s = word_of_int (sum_list (map cval s))"

definition m_fdate :: "(byte list \<Rightarrow> xint) \<Rightarrow> byte list \<Rightarrow> fdcache \<Rightarrow> (xint \<times> fdcache) option" where
  "m_fdate os fname c = do {
     let chk = fd_chksum fname;
     hit \<leftarrow> find_from (lk_dn c) (\<lambda>i. fd_chk (fd_slots c i) = chk \<and> cstr (fd_fname (fd_slots c i)) = fname) (lk_head c);
     (case hit of
        Some i \<Rightarrow> do {
          c1 \<leftarrow> list_touch i c;
          let e = fd_slots c1 i;
          Some (fd_fdate e, c1\<lparr>fd_slots := (fd_slots c1)(i := e\<lparr>fd_nrefs := fd_nrefs e + 1\<rparr>), fd_hits := fd_hits c1 + 1\<rparr>) }
      | None \<Rightarrow>
          let c0 = c\<lparr>fd_misses := fd_misses c + 1\<rparr>
          in if SZ_NAME < length fname then Some (os fname, c0)
             else (case lk_tail c0 of
                     None \<Rightarrow> None
                   | Some t \<Rightarrow> do {
                       c1 \<leftarrow> list_touch t c0;
                       let e = fd_slots c1 t;
                       let e' = e\<lparr>fd_fname := take SZ_NAME (fname @ replicate SZ_NAME EOS) @ drop SZ_NAME (fd_fname e),
                                 fd_chk := chk, fd_fdate := os fname, fd_nrefs := 1\<rparr>;
                       Some (fd_fdate e', c1\<lparr>fd_slots := (fd_slots c1)(t := e')\<rparr>) })) }"

text \<open>\<^verbatim>\<open>m_fdinit\<close>; the statistics it prints in debug mode are left out, their reset is not.\<close>

definition clear_slot :: "fdslot \<Rightarrow> fdslot" where
  "clear_slot e = e\<lparr>fd_nrefs := 0, fd_chk := - 1, fd_fname := (fd_fname e)[0 := EOS]\<rparr>"

definition m_fdinit :: "bool \<Rightarrow> fdcache \<Rightarrow> fdcache option" where
  "m_fdinit debug c = do {
     let c0 = (if debug then c\<lparr>fd_hits := 0, fd_misses := 0\<rparr> else c);
     let c1 = first_slot c0;
     c2 \<leftarrow> link_all [1..<MAX_FILES] c1;
     Some (c2\<lparr>fd_slots := (\<lambda>i. if i < MAX_FILES then clear_slot (fd_slots c2 i) else fd_slots c2 i)\<rparr>) }"

section \<open>The contract\<close>

text \<open>
  What the cache holds: the slots in the order of last use, each of them empty or a name with
  its date. \<open>lookup\<close> is the same operation on that list.
\<close>

definition entry_of :: "fdslot \<Rightarrow> xint entry" where
  "entry_of e = (let n = cstr (fd_fname e) in if fd_chk e = fd_chksum n then Some (n, fd_fdate e) else None)"

definition lookup :: "(byte list \<Rightarrow> xint) \<Rightarrow> byte list \<Rightarrow> xint entry list \<Rightarrow> xint \<times> xint entry list" where
  "lookup os k es =
     (case List.find (is_for k) es of
        Some e \<Rightarrow> (snd (the e), e # remove1 e es)
      | None \<Rightarrow> if SZ_NAME < length k then (os k, es) else (os k, Some (k, os k) # butlast es))"

definition slots_ok :: "(nat \<Rightarrow> fdslot) \<Rightarrow> nat list \<Rightarrow> bool" where
  "slots_ok sl xs \<longleftrightarrow> (\<forall>i \<in> set xs. length (fd_fname (sl i)) = Suc SZ_NAME \<and> last (fd_fname (sl i)) = EOS)"

text \<open>The cache in the order \<open>xs\<close> holding the entries \<open>es\<close>.\<close>

definition holds :: "fdcache \<Rightarrow> nat list \<Rightarrow> xint entry list \<Rightarrow> bool" where
  "holds c xs es \<longleftrightarrow> dlist c xs \<and> 1 < length xs \<and> slots_ok (fd_slots c) xs
     \<and> es = map (\<lambda>i. entry_of (fd_slots c i)) xs"

lemma fdcache_more:
  "links.more c1 = links.more (c :: fdcache) \<Longrightarrow> fd_slots c1 = fd_slots c \<and> fd_hits c1 = fd_hits c \<and> fd_misses c1 = fd_misses c"
  by (metis fdcache.ext_inject fdcache.surjective links.select_convs(5))

lemma dlist_cong [simp]:
  "dlist (c\<lparr>fd_slots := sl\<rparr>) xs = dlist c xs" "dlist (c\<lparr>fd_hits := h\<rparr>) xs = dlist c xs"
  "dlist (c\<lparr>fd_misses := m\<rparr>) xs = dlist c xs"
  by (simp_all add: dlist_def)

lemma is_for_slot: "is_for k (entry_of e) \<longleftrightarrow> fd_chk e = fd_chksum k \<and> cstr (fd_fname e) = k"
  by (auto simp: is_for_def entry_of_def Let_def)

text \<open>The array that \<^verbatim>\<open>strncpy\<close> leaves holds the name.\<close>

lemma stored_name:
  assumes "length k \<le> SZ_NAME" "EOS \<notin> set k" "length old = Suc SZ_NAME" "last old = EOS"
  shows "cstr (take SZ_NAME (k @ replicate SZ_NAME EOS) @ drop SZ_NAME old) = k"
    "length (take SZ_NAME (k @ replicate SZ_NAME EOS) @ drop SZ_NAME old) = Suc SZ_NAME"
    "last (take SZ_NAME (k @ replicate SZ_NAME EOS) @ drop SZ_NAME old) = EOS"
proof -
  have d: "drop SZ_NAME old = [EOS]"
    using assms(3,4) by (metis append_butlast_last_id append_eq_conv_conj diff_Suc_1 length_butlast length_0_conv nat.distinct(1))
  have "take SZ_NAME (k @ replicate SZ_NAME EOS) @ drop SZ_NAME old = k @ replicate (Suc (SZ_NAME - length k)) EOS"
    unfolding d using assms(1) by (simp add: take_replicate_pad replicate_append_same del: take_append)
  then have e: "take SZ_NAME (k @ replicate SZ_NAME EOS) @ drop SZ_NAME old = k @ EOS # replicate (SZ_NAME - length k) EOS"
    by simp
  show "cstr (take SZ_NAME (k @ replicate SZ_NAME EOS) @ drop SZ_NAME old) = k" unfolding e using assms(2) by simp
  show "length (take SZ_NAME (k @ replicate SZ_NAME EOS) @ drop SZ_NAME old) = Suc SZ_NAME"
    unfolding e using assms(1) by simp
  show "last (take SZ_NAME (k @ replicate SZ_NAME EOS) @ drop SZ_NAME old) = EOS" unfolding e by simp
qed

lemma m_fdate_hit:
  assumes "holds c xs es" "List.find (is_for k) es = Some e"
  shows "\<exists>c' xs'. m_fdate os k c = Some (snd (the e), c') \<and> holds c' xs' (e # remove1 e es)"
proof -
  have h: "dlist c xs" "1 < length xs" "slots_ok (fd_slots c) xs" "es = map (\<lambda>i. entry_of (fd_slots c i)) xs"
    using assms(1) by (auto simp: holds_def)
  let ?t = "\<lambda>i. fd_chk (fd_slots c i) = fd_chksum k \<and> cstr (fd_fname (fd_slots c i)) = k"
  have t: "is_for k \<circ> (\<lambda>i. entry_of (fd_slots c i)) = ?t" by (simp add: fun_eq_iff is_for_slot)
  obtain i where f: "List.find ?t xs = Some i" and e: "e = entry_of (fd_slots c i)"
    using assms(2) unfolding h(4) find_map t by auto
  from search_hit[OF h(1,2) f] obtain as bs c1 where
    xs: "xs = as @ i # bs" "?t i" "\<forall>j \<in> set as. \<not> ?t j" and ff: "find_from (lk_dn c) ?t (lk_head c) = Some (Some i)"
    and c1: "list_touch i c = Some c1" "dlist c1 (i # as @ bs)" "links.more c1 = links.more c" by blast
  have more: "fd_slots c1 = fd_slots c" "fd_hits c1 = fd_hits c" using fdcache_more[OF c1(3)] by auto
  let ?s = "fd_slots c i"
  let ?c = "c1\<lparr>fd_slots := (fd_slots c)(i := ?s\<lparr>fd_nrefs := fd_nrefs ?s + 1\<rparr>), fd_hits := fd_hits c + 1\<rparr>"
  have eo: "entry_of (?s\<lparr>fd_nrefs := r\<rparr>) = entry_of ?s" for r by (simp add: entry_of_def Let_def)
  have "\<forall>j \<in> set as. entry_of (fd_slots c j) \<noteq> entry_of (fd_slots c i)" using xs(2,3) is_for_slot by metis
  then have r: "e # remove1 e es = map (\<lambda>j. entry_of (fd_slots c j)) (i # as @ bs)"
    using entry_front[of as "\<lambda>j. entry_of (fd_slots c j)" i bs] e by (simp add: h(4) xs(1))
  have "snd (the e) = fd_fdate ?s" using xs(2) e by (auto simp: entry_of_def Let_def)
  then have "m_fdate os k c = Some (snd (the e), ?c)" using ff c1(1) more by (simp add: m_fdate_def Let_def)
  moreover have "holds ?c (i # as @ bs) (e # remove1 e es)"
    unfolding holds_def r using c1(2) h(2,3) xs(1) by (auto simp: slots_ok_def eo)
  ultimately show ?thesis by blast
qed

lemma m_fdate_miss:
  assumes "holds c xs es" "List.find (is_for k) es = None" "EOS \<notin> set k"
  shows "\<exists>c' xs'. m_fdate os k c = Some (os k, c')
    \<and> holds c' xs' (if SZ_NAME < length k then es else Some (k, os k) # butlast es)"
proof -
  have h: "dlist c xs" "1 < length xs" "slots_ok (fd_slots c) xs" "es = map (\<lambda>i. entry_of (fd_slots c i)) xs"
    using assms(1) by (auto simp: holds_def)
  let ?t = "\<lambda>i. fd_chk (fd_slots c i) = fd_chksum k \<and> cstr (fd_fname (fd_slots c i)) = k"
  have t: "is_for k \<circ> (\<lambda>i. entry_of (fd_slots c i)) = ?t" by (simp add: fun_eq_iff is_for_slot)
  have f: "List.find ?t xs = None" using assms(2) unfolding h(4) find_map t by auto
  let ?c0 = "c\<lparr>fd_misses := fd_misses c + 1\<rparr>"
  have "dlist ?c0 xs" using h(1) by simp
  note m = search_miss[OF this h(2) f]
  have ff: "find_from (lk_dn c) ?t (lk_head c) = Some None" using m by simp
  show ?thesis
  proof (cases "SZ_NAME < length k")
    case True
    then have "m_fdate os k c = Some (os k, ?c0)" using ff by (simp add: m_fdate_def Let_def)
    moreover have "holds ?c0 xs es" using assms(1) by (simp add: holds_def)
    ultimately show ?thesis using True by auto
  next
    case False
    define x where "x = last xs"
    obtain c1 where tl: "lk_tail c = Some x" and xin: "x \<in> set xs" "x \<notin> set (butlast xs)"
      and c1: "list_touch x ?c0 = Some c1" "dlist c1 (x # butlast xs)" "links.more c1 = links.more ?c0"
      using m unfolding x_def by auto
    have more: "fd_slots c1 = fd_slots c" using fdcache_more[OF c1(3)] by simp
    let ?s = "fd_slots c x"
    let ?e = "?s\<lparr>fd_fname := take SZ_NAME (k @ replicate SZ_NAME EOS) @ drop SZ_NAME (fd_fname ?s),
        fd_chk := fd_chksum k, fd_fdate := os k, fd_nrefs := 1\<rparr>"
    let ?c = "c1\<lparr>fd_slots := (fd_slots c)(x := ?e)\<rparr>"
    have so: "length (fd_fname ?s) = Suc SZ_NAME" "last (fd_fname ?s) = EOS"
      using h(3) xin(1) by (auto simp: slots_ok_def)
    have "length k \<le> SZ_NAME" using False by simp
    note n = stored_name[OF this assms(3) so]
    have "m_fdate os k c = Some (os k, ?c)"
      using ff False tl c1(1) more by (simp add: m_fdate_def Let_def)
    moreover have "entry_of ?e = Some (k, os k)" using n(1) by (simp add: entry_of_def Let_def)
    moreover have "slots_ok ((fd_slots c)(x := ?e)) (x # butlast xs)"
      using n(2,3) h(3) by (auto simp: slots_ok_def dest: in_set_butlastD)
    moreover have "butlast es = map (\<lambda>i. entry_of (((fd_slots c)(x := ?e)) i)) (butlast xs)"
      using xin(2) h(4) by (simp add: map_butlast[symmetric])
    ultimately have "holds ?c (x # butlast xs) (Some (k, os k) # butlast es)"
      using c1(2) h(2) by (simp add: holds_def)
    with \<open>m_fdate os k c = Some (os k, ?c)\<close> False show ?thesis by auto
  qed
qed

lemma m_fdate_lookup:
  assumes "holds c xs es" "EOS \<notin> set k"
  shows "\<exists>c' xs'. m_fdate os k c = Some (fst (lookup os k es), c') \<and> holds c' xs' (snd (lookup os k es))"
proof (cases "List.find (is_for k) es")
  case None
  from m_fdate_miss[OF assms(1) None assms(2), of os] show ?thesis using None by (auto simp: lookup_def)
next
  case (Some e)
  from m_fdate_hit[OF assms(1) Some, of os] show ?thesis using Some by (simp add: lookup_def)
qed


section \<open>Sequences of lookups\<close>

fun fdates :: "(byte list \<Rightarrow> xint) \<Rightarrow> byte list list \<Rightarrow> fdcache \<Rightarrow> (xint list \<times> fdcache) option" where
  "fdates os [] c = Some ([], c)"
| "fdates os (k # ks) c = do { (v, c1) \<leftarrow> m_fdate os k c; (vs, c2) \<leftarrow> fdates os ks c1; Some (v # vs, c2) }"

definition coherent :: "(byte list \<Rightarrow> xint) \<Rightarrow> xint entry list \<Rightarrow> bool" where
  "coherent os es \<longleftrightarrow> (\<forall>e \<in> set es. case e of None \<Rightarrow> True | Some (k, d) \<Rightarrow> d = os k)"

lemma lookup_coherent:
  assumes "coherent os es"
  shows "fst (lookup os k es) = os k" "coherent os (snd (lookup os k es))"
proof (atomize (full), cases "List.find (is_for k) es")
  case None
  then show "fst (lookup os k es) = os k \<and> coherent os (snd (lookup os k es))"
    using assms by (auto simp: lookup_def coherent_def dest: in_set_butlastD)
next
  case (Some e)
  from find_split[OF this] obtain as bs where "es = as @ e # bs" "is_for k e" by blast
  then have e: "e \<in> set es" "e = Some (k, os k)"
    using assms by (auto simp: coherent_def is_for_def split: option.splits)
  have "set (e # remove1 e es) \<subseteq> set es" using e(1) set_remove1_subset[of e es] by auto
  then have "coherent os (e # remove1 e es)" using assms unfolding coherent_def by blast
  then show "fst (lookup os k es) = os k \<and> coherent os (snd (lookup os k es))"
    using e(2) Some by (simp add: lookup_def)
qed

lemma fdates_coherent:
  "holds c xs es \<Longrightarrow> coherent os es \<Longrightarrow> \<forall>k \<in> set ks. EOS \<notin> set k \<Longrightarrow> \<exists>c'. fdates os ks c = Some (map os ks, c')"
proof (induction ks arbitrary: c xs es)
  case (Cons k ks)
  from m_fdate_lookup[OF Cons.prems(1), of k os] Cons.prems(3) obtain c1 xs1 where
    1: "m_fdate os k c = Some (fst (lookup os k es), c1)" "holds c1 xs1 (snd (lookup os k es))" by auto
  note lc = lookup_coherent[OF Cons.prems(2), of k]
  from Cons.IH[OF 1(2) lc(2)] Cons.prems(3) obtain c2 where "fdates os ks c1 = Some (map os ks, c2)" by auto
  then show ?case using 1(1) lc(1) by simp
qed simp

text \<open>The array of slots as the compiler clears it, or as an earlier use left it.\<close>

definition slots_sized :: "fdcache \<Rightarrow> bool" where
  "slots_sized c \<longleftrightarrow> slots_ok (fd_slots c) [0..<MAX_FILES]"

lemma m_fdinit_empty:
  assumes "slots_sized c"
  shows "\<exists>c'. m_fdinit debug c = Some c' \<and> holds c' (rev [0..<MAX_FILES]) (replicate MAX_FILES None)"
proof -
  let ?c0 = "if debug then c\<lparr>fd_hits := 0, fd_misses := 0\<rparr> else c"
  have r: "rev [1..<MAX_FILES] @ [0] = rev [0..<MAX_FILES]" by (simp add: upt_conv_Cons MAX_FILES_def)
  obtain c2 where c2: "link_all [1..<MAX_FILES] (first_slot ?c0) = Some c2" "dlist c2 (rev [0..<MAX_FILES])"
    using link_all_dlist[OF first_slot_dlist[of ?c0], of "[1..<MAX_FILES]"] unfolding r by auto
  have "links.more c2 = links.more ?c0" using link_all_more[OF c2(1)] by (simp add: first_slot_def)
  then have sl: "fd_slots c2 = fd_slots c" using fdcache_more[of c2 ?c0] by (simp split: if_splits)
  let ?sl = "\<lambda>i. if i < MAX_FILES then clear_slot (fd_slots c i) else fd_slots c i"
  have ok: "length (fd_fname (fd_slots c i)) = Suc SZ_NAME" "last (fd_fname (fd_slots c i)) = EOS" if "i < MAX_FILES" for i
    using assms that by (auto simp: slots_sized_def slots_ok_def)
  have e: "entry_of (clear_slot (fd_slots c i)) = None" if "i < MAX_FILES" for i
  proof -
    have "cstr ((fd_fname (fd_slots c i))[0 := EOS]) = []"
      using ok(1)[OF that] by (cases "fd_fname (fd_slots c i)") (auto simp: cstr_def)
    then show ?thesis by (simp add: entry_of_def clear_slot_def fd_chksum_def Let_def)
  qed
  have "map (\<lambda>i. entry_of (?sl i)) (rev [0..<MAX_FILES]) = replicate MAX_FILES None"
    by (rule nth_equalityI) (auto simp: rev_nth e)
  moreover have "last ((fd_fname (fd_slots c i))[0 := EOS]) = EOS" if "i < MAX_FILES" for i
    using ok[OF that] by (subst last_list_update) auto
  then have "slots_ok ?sl (rev [0..<MAX_FILES])" using ok by (auto simp: slots_ok_def clear_slot_def)
  moreover have "m_fdinit debug c = Some (c2\<lparr>fd_slots := ?sl\<rparr>)" using c2(1) unfolding m_fdinit_def Let_def sl[symmetric] by simp
  ultimately show ?thesis using c2(2) by (intro exI[of _ "c2\<lparr>fd_slots := ?sl\<rparr>"]) (simp add: holds_def MAX_FILES_def)
qed

section \<open>Properties\<close>

text \<open>
  C15. The linked cache implements its contract: \<^verbatim>\<open>m_fdate\<close> returns what the lookup in the list of
  entries in the order of last use returns, and leaves the slots holding the entries that
  the lookup leaves, the least recently used one replaced on a miss.
\<close>

theorem m_fdate_refines_lookup:
  assumes "holds c xs es" "EOS \<notin> set k"
  shows "\<exists>c' xs'. m_fdate os k c = Some (fst (lookup os k es), c') \<and> holds c' xs' (snd (lookup os k es))"
  using assms by (rule m_fdate_lookup)

definition cleared :: fdcache where
  "cleared = \<lparr>lk_up = (\<lambda>_. None), lk_dn = (\<lambda>_. None), lk_head = None, lk_tail = None,
     fd_slots = (\<lambda>_. \<lparr>fd_nrefs = 0, fd_chk = 0, fd_fdate = 0, fd_fname = replicate 33 EOS\<rparr>), fd_hits = 0, fd_misses = 0\<rparr>"

lemma cleared_sized: "slots_sized cleared"
  by (simp add: slots_sized_def slots_ok_def cleared_def SZ_NAME_def)

theorem m_fdate_refines_lookup_witness:
  "\<exists>c c' xs'. m_fdinit False cleared = Some c
    \<and> m_fdate (\<lambda>_. 7) (bstr ''a.h'') c = Some (fst (lookup (\<lambda>_. 7) (bstr ''a.h'') (replicate MAX_FILES None)), c')
    \<and> holds c' xs' (snd (lookup (\<lambda>_. 7) (bstr ''a.h'') (replicate MAX_FILES None)))"
proof -
  obtain c where c: "m_fdinit False cleared = Some c" "holds c (rev [0..<MAX_FILES]) (replicate MAX_FILES None)"
    using m_fdinit_empty[OF cleared_sized] by blast
  have "EOS \<notin> set (bstr ''a.h'')" by (simp add: bstr_def)
  from m_fdate_refines_lookup[OF c(2) this, of "\<lambda>_. 7"] c(1) show ?thesis by blast
qed

text \<open>
  C14. The cache is transparent: after \<^verbatim>\<open>m_fdinit\<close> every sequence of lookups returns the dates
  \<^verbatim>\<open>os_fdate\<close> gives, for names of any length and however many of them, as long as the host's
  answers do not change.
\<close>

theorem m_fdate_transparent:
  assumes "slots_sized c" "\<forall>k \<in> set ks. EOS \<notin> set k"
  shows "\<exists>c0 c'. m_fdinit debug c = Some c0 \<and> fdates os ks c0 = Some (map os ks, c')"
proof -
  obtain c0 where c0: "m_fdinit debug c = Some c0" "holds c0 (rev [0..<MAX_FILES]) (replicate MAX_FILES None)"
    using m_fdinit_empty[OF assms(1)] by blast
  have "coherent os (replicate MAX_FILES None)" by (simp add: coherent_def)
  from fdates_coherent[OF c0(2) this assms(2)] c0(1) show ?thesis by blast
qed

theorem m_fdate_transparent_witness:
  "\<exists>c0 c'. m_fdinit True cleared = Some c0
    \<and> fdates (\<lambda>k. word_of_nat (length k)) [bstr ''a.h'', bstr ''config.h'', bstr ''a.h''] c0
      = Some (map (\<lambda>k. word_of_nat (length k)) [bstr ''a.h'', bstr ''config.h'', bstr ''a.h''], c')"
  by (rule m_fdate_transparent[OF cleared_sized]) (simp add: bstr_def)

end
