(* ===== verification/Ifstack.thy ===== *)
theory Ifstack
  imports Tokens Symtab Fdcache
begin

text \<open>
  The conditional directives of \<^verbatim>\<open>mkpkg\<close>: \<^verbatim>\<open>do_if\<close>, \<^verbatim>\<open>do_else\<close>, \<^verbatim>\<open>do_endif\<close> and \<^verbatim>\<open>do_end\<close> of
  \<^verbatim>\<open>unix/boot/mkpkg/tok.c\<close> over the stack \<^verbatim>\<open>ifstate\<close> with its level \<^verbatim>\<open>iflev\<close>.
\<close>

definition PASS :: int where "PASS = 1"
definition STOP :: int where "STOP = 0"
definition SZ_IFSTACK :: nat where "SZ_IFSTACK = 50"
definition SZ_PREDBUF :: nat where "SZ_PREDBUF = 1024"
definition MAX_ARGS :: nat where "MAX_ARGS = 50"

record ifs =
  if_state :: "int list"
  if_lev :: int

definition state_at :: "ifs \<Rightarrow> int \<Rightarrow> int option" where
  "state_at s l = (if 0 \<le> l \<and> nat l < length (if_state s) then Some (if_state s ! nat l) else None)"

definition set_state :: "int \<Rightarrow> int \<Rightarrow> ifs \<Rightarrow> ifs option" where
  "set_state l v s = (if 0 \<le> l \<and> nat l < length (if_state s) then Some (s\<lparr>if_state := (if_state s)[nat l := v]\<rparr>) else None)"

text \<open>
  The end of \<^verbatim>\<open>do_if\<close>: the level is raised, and below a false clause the new clause is false without
  its predicate \<open>v\<close> being evaluated. The test of the level only prints a warning.
\<close>

definition if_enter :: "int \<Rightarrow> ifs \<Rightarrow> ifs option" where
  "if_enter v s = do {
     let l = if_lev s + 1;
     outer \<leftarrow> state_at s (l - 1);
     set_state l (if outer = STOP then STOP else v) (s\<lparr>if_lev := l\<rparr>) }"

definition do_else :: "ifs \<Rightarrow> ifs option" where
  "do_else s =
     (if if_lev s < 1 then Some s
      else do {
        outer \<leftarrow> state_at s (if_lev s - 1);
        if 1 < if_lev s \<and> outer = STOP then Some s
        else do {
          cur \<leftarrow> state_at s (if_lev s);
          set_state (if_lev s) (if cur = PASS then STOP else PASS) s } })"

definition do_endif :: "ifs \<Rightarrow> ifs" where
  "do_endif s = s\<lparr>if_lev := if_lev s - 1\<rparr>"

text \<open>\<open>old\<close> is the level saved in the previous context, if there is one.\<close>

definition do_end :: "int option \<Rightarrow> ifs \<Rightarrow> ifs" where
  "do_end old s = s\<lparr>if_lev := (case old of Some l \<Rightarrow> if 0 \<le> l then l else 0 | None \<Rightarrow> 0)\<rparr>"

section \<open>The predicate\<close>

partial_function (option) find_paren :: "mk_env \<Rightarrow> mk_context \<Rightarrow> mk_context outcome option" where
  "find_paren e cx = pass (m_getc (me_host e) (me_junk e) cx) (\<lambda>(ch, cx1).
     if ch = 40 then Some (Ret cx1) else find_paren e cx1)"

text \<open>
  The arguments: \<open>used\<close> bytes of the buffer are taken by the finished arguments \<open>args\<close>, \<open>cur\<close> is the
  current one.
\<close>

partial_function (option) pred_loop ::
  "mk_env \<Rightarrow> nat \<Rightarrow> byte list list \<Rightarrow> byte list \<Rightarrow> mk_context \<Rightarrow> fncache \<Rightarrow> (byte list list \<times> mk_context \<times> fncache) outcome option" where
  "pred_loop e used args cur cx fn =
     (if SZ_PREDBUF \<le> used + length cur then Some Undef
      else pass (m_getc (me_host e) (me_junk e) cx) (\<lambda>(ch, cx1).
        if ch = 41 then Some (Ret (args @ [cstr cur], cx1, fn))
        else if ch = 92 then
          pass (m_getc (me_host e) (me_junk e) cx1) (\<lambda>(ch, cx2).
            pred_loop e used args (if ch = 10 then cur else cur @ [word_of_int ch]) cx2 fn)
        else if ch = 10 \<or> ch = -1 \<or> ch = 32 then pred_loop e used args cur cx1 fn
        else if ch = 60 \<and> cur = [] then
          pass (getstr e SZ_COMMAND 62 cx1) (\<lambda>(tok, cx2).
            pass (sysfile_name e tok (SZ_PREDBUF - used) (SZ_PREDBUF - used) fn) (\<lambda>(nm, fn').
              pred_loop e used args nm cx2 fn'))
        else if ch = 58 \<or> ch = 44 then
          (if MAX_ARGS \<le> length args + 1 then Some Undef
           else pred_loop e (used + length cur + 1) (args @ [cstr cur]) [] cx1 fn)
        else pred_loop e used args (cur @ [word_of_int ch]) cx1 fn))"

text \<open>What the predicates ask of the system.\<close>

record if_host =
  ih_access :: "byte list \<Rightarrow> bool"
  ih_fdate :: "byte list \<Rightarrow> xint"

text \<open>The loops over the dates of \<^verbatim>\<open>$ifolder\<close> and \<^verbatim>\<open>$ifnewer\<close>, through the cache of dates.\<close>

fun older_loop :: "if_host \<Rightarrow> xint \<Rightarrow> byte list list \<Rightarrow> fdcache \<Rightarrow> (bool \<times> fdcache) option" where
  "older_loop h fdate [] fd = Some (False, fd)"
| "older_loop h fdate (a # as) fd = do {
     (alt, fd') \<leftarrow> m_fdate (ih_fdate h) a fd;
     if sint alt \<le> 0 then Some (True, fd')
     else if sint fdate < sint alt then Some (True, fd')
     else older_loop h fdate as fd' }"

fun newer_loop :: "if_host \<Rightarrow> xint \<Rightarrow> byte list list \<Rightarrow> fdcache \<Rightarrow> (bool \<times> fdcache) option" where
  "newer_loop h fdate [] fd = Some (False, fd)"
| "newer_loop h fdate (a # as) fd = do {
     (alt, fd') \<leftarrow> m_fdate (ih_fdate h) a fd;
     if sint alt \<le> 0 then newer_loop h fdate as fd'
     else if sint alt < sint fdate then Some (True, fd')
     else newer_loop h fdate as fd' }"

definition dated :: "(if_host \<Rightarrow> xint \<Rightarrow> byte list list \<Rightarrow> fdcache \<Rightarrow> (bool \<times> fdcache) option) \<Rightarrow>
    if_host \<Rightarrow> byte list list \<Rightarrow> fdcache \<Rightarrow> (bool \<times> fdcache) option" where
  "dated loop h argv fd =
     (case argv of
        a # b # bs \<Rightarrow>
          if \<not> ih_access h b then Some (True, fd)
          else let fdate = ih_fdate h a in if sint fdate \<le> 0 then Some (True, fd) else loop h fdate (b # bs) fd
      | _ \<Rightarrow> None)"

definition sym_value :: "mk_env \<Rightarrow> byte list \<Rightarrow> byte list option" where
  "sym_value e name = (case mh_sym (me_host e) name of Some v \<Rightarrow> Some v | None \<Rightarrow> mh_env (me_host e) name)"

text \<open>
  The value of the predicate for the key behind \<^verbatim>\<open>$if\<close>; an unknown key is false. With one argument
  the date predicates look at an unset pointer.
\<close>

definition if_value :: "mk_env \<Rightarrow> if_host \<Rightarrow> int \<Rightarrow> byte list \<Rightarrow> byte list list \<Rightarrow> fdcache \<Rightarrow> (bool \<times> fdcache) option" where
  "if_value e h status key argv fd =
     (if key = [100, 101, 102] then Some (sym_value e (hd argv) \<noteq> None, fd)
      else if key = [101, 113] then
        Some (case sym_value e (hd argv) of None \<Rightarrow> False | Some v \<Rightarrow> tl argv = [] \<or> v \<in> set (tl argv), fd)
      else if key = [102, 105, 108, 101] then Some (list_ex (ih_access h) argv, fd)
      else if key = [111, 108, 100, 101, 114] then dated older_loop h argv fd
      else if key = [110, 101, 119, 101, 114] then dated newer_loop h argv fd
      else if key = [101, 114, 114] then Some (status \<noteq> 0, fd)
      else Some (False, fd))"

definition if_key :: "byte list \<Rightarrow> bool \<times> byte list" where
  "if_key keyword =
     (let key = drop 3 keyword; negate = (key \<noteq> [] \<and> hd key = 110 \<and> take 5 key \<noteq> [110, 101, 119, 101, 114])
      in (negate, if negate then tl key else key))"

definition do_if :: "mk_env \<Rightarrow> if_host \<Rightarrow> int \<Rightarrow> byte list \<Rightarrow> mk_context \<Rightarrow> ifs \<Rightarrow> fncache \<Rightarrow> fdcache \<Rightarrow>
    (mk_context \<times> ifs \<times> fncache \<times> fdcache) outcome option" where
  "do_if e h status keyword cx s fn fd =
     (let (negate, key) = if_key keyword
      in pass (find_paren e cx) (\<lambda>cx1.
         pass (pred_loop e 0 [] [] cx1 fn) (\<lambda>(argv, cx2, fn').
         case state_at s (if_lev s) of
           None \<Rightarrow> Some Undef
         | Some outer \<Rightarrow>
             (case (if outer = STOP then Some (False, fd) else if_value e h status key argv fd) of
                None \<Rightarrow> Some Undef
              | Some (b, fd') \<Rightarrow>
                  (case if_enter (if b \<noteq> negate then PASS else STOP) s of
                     None \<Rightarrow> Some Undef
                   | Some s' \<Rightarrow> Some (Ret (cx2, s', fn', fd')))))))"

section \<open>The stack of conditions\<close>

text \<open>
  The directives of a file on an abstract stack: the value of the current clause of every open
  conditional, the innermost first. Text passes when all of them hold.
\<close>

datatype if_event = EIf bool | EElse | EEndif

fun conds_step :: "if_event \<Rightarrow> bool list \<Rightarrow> bool list option" where
  "conds_step (EIf b) cs = Some (b # cs)"
| "conds_step EElse [] = None"
| "conds_step EElse (c # cs) = Some ((\<not> c) # cs)"
| "conds_step EEndif [] = None"
| "conds_step EEndif (c # cs) = Some cs"

fun if_step :: "if_event \<Rightarrow> ifs \<Rightarrow> ifs option" where
  "if_step (EIf b) s = if_enter (if b then PASS else STOP) s"
| "if_step EElse s = do_else s"
| "if_step EEndif s = Some (do_endif s)"

fun run_events :: "(if_event \<Rightarrow> 's \<Rightarrow> 's option) \<Rightarrow> if_event list \<Rightarrow> 's \<Rightarrow> 's option" where
  "run_events f [] s = Some s"
| "run_events f (ev # evs) s = do { s' \<leftarrow> f ev s; run_events f evs s' }"

definition represents :: "ifs \<Rightarrow> bool list \<Rightarrow> bool" where
  "represents s cs \<longleftrightarrow> length (if_state s) = SZ_IFSTACK \<and> if_lev s = int (length cs) \<and> length cs < SZ_IFSTACK
     \<and> (\<forall>k \<le> length cs. if_state s ! k = (if list_all id (drop (length cs - k) cs) then PASS else STOP))"

lemma PASS_STOP [simp]: "PASS \<noteq> STOP" "STOP \<noteq> PASS"
  by (simp_all add: PASS_def STOP_def)

lemma same_lev: "if_lev s = x \<Longrightarrow> s\<lparr>if_lev := x\<rparr> = s"
  by (cases s) simp

lemma represents_top: "represents s cs \<Longrightarrow> state_at s (if_lev s) = Some (if list_all id cs then PASS else STOP)"
  by (simp add: represents_def state_at_def)

lemma represents_set:
  assumes "represents s cs" "length (c # cs) < SZ_IFSTACK" "v = (if list_all id (c # cs) then PASS else STOP)"
  shows "represents (s\<lparr>if_lev := int (length (c # cs)), if_state := (if_state s)[length (c # cs) := v]\<rparr>) (c # cs)"
proof -
  have "(if_state s)[length (c # cs) := v] ! k = (if list_all id (drop (length (c # cs) - k) (c # cs)) then PASS else STOP)"
    if k: "k \<le> length (c # cs)" for k
  proof (cases "k = length (c # cs)")
    case True
    then show ?thesis using assms by (simp add: represents_def)
  next
    case False
    then have "k \<le> length cs" "length (c # cs) - k = Suc (length cs - k)" using k by simp_all
    then show ?thesis using assms(1) False by (simp add: represents_def)
  qed
  then show ?thesis using assms(1,2) by (simp add: represents_def)
qed

lemma represents_pop: "represents s (c # cs) \<Longrightarrow> represents (s\<lparr>if_lev := int (length cs)\<rparr>) cs"
  unfolding represents_def by (auto simp: Suc_diff_le)

lemma if_step_represents:
  assumes "represents s cs" "conds_step ev cs = Some cs'" "length cs' < SZ_IFSTACK"
  shows "\<exists>s'. if_step ev s = Some s' \<and> represents s' cs'"
proof (cases ev)
  case (EIf b)
  then have cs': "cs' = b # cs" using assms(2) by simp
  have len: "length (if_state s) = SZ_IFSTACK" "if_lev s = int (length cs)" using assms(1) by (simp_all add: represents_def)
  have "if_enter (if b then PASS else STOP) s
      = Some (s\<lparr>if_lev := int (length (b # cs)), if_state := (if_state s)[length (b # cs) := if list_all id (b # cs) then PASS else STOP]\<rparr>)"
    using represents_top[OF assms(1)] len assms(3) cs' by (simp add: if_enter_def set_state_def nat_add_distrib)
  then show ?thesis using represents_set[OF assms(1) _ refl, of b] assms(3) cs' EIf by simp
next
  case EElse
  then obtain c ds where cs: "cs = c # ds" "cs' = (\<not> c) # ds" using assms(2) by (cases cs) auto
  let ?l = "length cs"
  have len: "length (if_state s) = SZ_IFSTACK" "if_lev s = int ?l" "?l < SZ_IFSTACK" using assms(1) by (simp_all add: represents_def)
  have pop: "represents (s\<lparr>if_lev := int (length ds)\<rparr>) ds" using represents_pop assms(1) cs(1) by blast
  have outer: "state_at s (if_lev s - 1) = Some (if list_all id ds then PASS else STOP)"
    using represents_top[OF pop] len cs(1) by (simp add: state_at_def)
  have cur: "state_at s (if_lev s) = Some (if list_all id cs then PASS else STOP)" using represents_top[OF assms(1)] .
  have upd: "represents (s\<lparr>if_lev := int (length cs'), if_state := (if_state s)[length cs' := if list_all id cs' then PASS else STOP]\<rparr>) cs'"
    using represents_set[OF pop _ refl, of "\<not> c"] assms(3) cs(2) by simp
  show ?thesis
  proof (cases "list_all id ds")
    case True
    then have "do_else s = Some (s\<lparr>if_state := (if_state s)[?l := if list_all id cs' then PASS else STOP]\<rparr>)"
      using len outer cur cs by (simp add: do_else_def set_state_def nat_add_distrib)
    moreover have "s\<lparr>if_lev := int (length cs'), if_state := x\<rparr> = s\<lparr>if_state := x\<rparr>" for x using len(2) cs by simp
    ultimately show ?thesis using upd cs EElse by simp
  next
    case False
    then have "ds \<noteq> []" by auto
    then have "do_else s = Some s" using len(2) outer False cs(1) by (cases ds) (auto simp: do_else_def)
    moreover have "represents s cs'"
    proof -
      have "if_state s ! ?l = STOP" using assms(1) cs(1) False by (simp add: represents_def)
      then have "(if_state s)[length cs' := if list_all id cs' then PASS else STOP] = if_state s"
        using cs False by (metis length_Cons list.pred_inject(2) list_update_id)
      then have "represents (s\<lparr>if_lev := int (length cs')\<rparr>) cs'" using upd by simp
      moreover have "s\<lparr>if_lev := int (length cs')\<rparr> = s" by (rule same_lev) (use len(2) cs in simp)
      ultimately show ?thesis by (simp only:)
    qed
    ultimately show ?thesis using EElse by simp
  qed
next
  case EEndif
  then obtain c where cs: "cs = c # cs'" using assms(2) by (cases cs) auto
  then have "if_lev s - 1 = int (length cs')" using assms(1) by (simp add: represents_def)
  then show ?thesis using represents_pop[of s c cs'] assms(1) cs EEndif by (simp add: do_endif_def)
qed


text \<open>
  C7. The conditional stack: for every nesting of at most 49 open conditionals the directives leave
  the top of \<^verbatim>\<open>ifstate\<close> at \<^verbatim>\<open>PASS\<close> exactly when the current clauses of all open conditionals hold.
\<close>

theorem if_stack_refines:
  assumes "represents s cs" "run_events conds_step evs cs = Some cs'"
    "\<forall>n \<le> length evs. \<forall>ds. run_events conds_step (take n evs) cs = Some ds \<longrightarrow> length ds < SZ_IFSTACK"
  shows "\<exists>s'. run_events if_step evs s = Some s' \<and> represents s' cs'
    \<and> state_at s' (if_lev s') = Some (if list_all id cs' then PASS else STOP)"
proof -
  have "\<exists>s'. run_events if_step evs s = Some s' \<and> represents s' cs'"
    using assms
  proof (induction evs arbitrary: s cs)
    case (Cons ev evs)
    obtain c1 where c1: "conds_step ev cs = Some c1" "run_events conds_step evs c1 = Some cs'" using Cons.prems(2) by (auto split: bind_splits)
    have tk: "run_events conds_step (take (Suc n) (ev # evs)) cs = run_events conds_step (take n evs) c1" for n using c1(1) by simp
    have le: "\<forall>n \<le> length evs. \<forall>ds. run_events conds_step (take n evs) c1 = Some ds \<longrightarrow> length ds < SZ_IFSTACK"
      using Cons.prems(3) tk by (metis Suc_le_mono length_Cons)
    have "length c1 < SZ_IFSTACK" using le[rule_format, of 0 c1] by simp
    from if_step_represents[OF Cons.prems(1) c1(1) this] obtain s1 where s1: "if_step ev s = Some s1" "represents s1 c1" by blast
    from Cons.IH[OF s1(2) c1(2) le] s1(1) show ?case by auto
  qed simp
  then show ?thesis using represents_top by blast
qed

definition no_ifs :: ifs where
  "no_ifs = \<lparr>if_state = PASS # replicate 49 7, if_lev = 0\<rparr>"

lemma no_ifs_represents: "represents no_ifs []"
  by (simp add: represents_def no_ifs_def SZ_IFSTACK_def)

theorem if_stack_refines_witness:
  "\<exists>s'. run_events if_step [EIf True, EIf False, EElse] no_ifs = Some s' \<and> represents s' [True, True]
    \<and> state_at s' (if_lev s') = Some (if list_all id [True, True] then PASS else STOP)"
proof (rule if_stack_refines[OF no_ifs_represents])
  show "\<forall>n \<le> length [EIf True, EIf False, EElse]. \<forall>ds.
      run_events conds_step (take n [EIf True, EIf False, EElse]) [] = Some ds \<longrightarrow> length ds < SZ_IFSTACK"
  proof (intro allI impI)
    fix n ds assume "n \<le> length [EIf True, EIf False, EElse]" "run_events conds_step (take n [EIf True, EIf False, EElse]) [] = Some ds"
    then have "n = 0 \<or> n = 1 \<or> n = 2 \<or> n = 3" "run_events conds_step (take n [EIf True, EIf False, EElse]) [] = Some ds" by auto
    then show "length ds < SZ_IFSTACK" by (auto simp: SZ_IFSTACK_def)
  qed
qed simp

text \<open>The scanners on the text of a predicate.\<close>

lemma find_paren_here: "at cx (40 # p) \<Longrightarrow> \<exists>cx'. find_paren e cx = Some (Ret cx') \<and> at cx' p"
proof -
  assume "at cx (40 # p)"
  from m_getc_plain[OF this, of "me_host e" "me_junk e"] obtain cx' where
    "m_getc (me_host e) (me_junk e) cx = Some (Ret (40, cx'))" "at cx' p" by auto
  then show ?thesis by (subst find_paren.simps) simp
qed

definition pred_char :: "int \<Rightarrow> bool" where
  "pred_char c \<longleftrightarrow> plain 41 c \<and> c \<noteq> 32 \<and> c \<noteq> 60 \<and> c \<noteq> 58 \<and> c \<noteq> 44"

lemma pred_loop_word:
  "at cx (s @ p) \<Longrightarrow> list_all pred_char s \<Longrightarrow> used + length cur + length s < SZ_PREDBUF \<Longrightarrow>
   \<exists>cx'. at cx' p \<and> pred_loop e used args cur cx fn = pred_loop e used args (cur @ map word_of_int s) cx' fn"
proof (induction s arbitrary: cx cur)
  case (Cons c s)
  then have a: "at cx (c # s @ p)" "pred_char c" by simp_all
  then have "c \<noteq> 36" by (simp add: pred_char_def plain_def)
  from m_getc_plain[OF a(1) this, of "me_host e" "me_junk e"] a(2) obtain cx1 where
    1: "m_getc (me_host e) (me_junk e) cx = Some (Ret (c, cx1))" "at cx1 (s @ p)" by (auto simp: pred_char_def plain_def)
  have step: "pred_loop e used args cur cx fn = pred_loop e used args (cur @ [word_of_int c]) cx1 fn"
    using 1(1) a(2) Cons.prems(3) by (subst pred_loop.simps) (simp add: pred_char_def plain_def)
  have "\<exists>cx'. at cx' p \<and> pred_loop e used args (cur @ [word_of_int c]) cx1 fn
      = pred_loop e used args ((cur @ [word_of_int c]) @ map word_of_int s) cx' fn"
    using Cons.prems 1(2) by (intro Cons.IH) simp_all
  then show ?case unfolding step by simp
qed (auto)

lemma pred_loop_one:
  assumes "at cx (s @ 41 # p)" "list_all pred_char s" "length s < SZ_PREDBUF"
  shows "\<exists>cx'. pred_loop e 0 [] [] cx fn = Some (Ret ([cstr (map word_of_int s)], cx', fn)) \<and> at cx' p"
proof -
  from pred_loop_word[OF assms(1,2), of 0 "[]" e "[]" fn] assms(3) obtain cx1 where
    1: "at cx1 (41 # p)" "pred_loop e 0 [] [] cx fn = pred_loop e 0 [] (map word_of_int s) cx1 fn" by auto
  from m_getc_plain[OF 1(1), of "me_host e" "me_junk e"] obtain cx2 where
    "m_getc (me_host e) (me_junk e) cx1 = Some (Ret (41, cx2))" "at cx2 p" by auto
  then show ?thesis unfolding 1(2) using assms(3) by (subst pred_loop.simps) simp
qed

text \<open>
  \<^verbatim>\<open>$ifdef (name)\<close> and \<^verbatim>\<open>$ifndef (name)\<close>: the directive opens a conditional that holds when the name is,
  or is not, defined as a macro or in the environment, below the conditionals that are open.
\<close>

theorem do_if_defined:
  assumes "cx_ok cx" "pending cx = 40 # s @ 41 # p" "list_all pred_char s" "length s < SZ_PREDBUF"
    "represents st cs" "Suc (length cs) < SZ_IFSTACK"
    "keyword = [36, 105, 102] @ (if negated then [110] else []) @ [100, 101, 102]"
  shows "\<exists>cx' st' v. do_if e h status keyword cx st fn fd = Some (Ret (cx', st', fn, fd)) \<and> cx_ok cx' \<and> pending cx' = p
    \<and> represents st' (v # cs) \<and> (list_all id cs \<longrightarrow> v = ((sym_value e (cstr (map word_of_int s)) \<noteq> None) \<noteq> negated))"
proof -
  let ?name = "cstr (map word_of_int s)"
  have key: "if_key keyword = (negated, [100, 101, 102])" unfolding assms(7) by (simp add: if_key_def)
  have "at cx (40 # s @ 41 # p)" using assms(1,2) by (simp add: at_def)
  from find_paren_here[OF this, of e] obtain cx1 where 1: "find_paren e cx = Some (Ret cx1)" "at cx1 (s @ 41 # p)" by blast
  from pred_loop_one[OF 1(2) assms(3,4), of e fn] obtain cx2 where
    2: "pred_loop e 0 [] [] cx1 fn = Some (Ret ([?name], cx2, fn))" "at cx2 p" by blast
  let ?b = "list_all id cs \<and> sym_value e ?name \<noteq> None"
  let ?v = "?b \<noteq> negated"
  from if_step_represents[OF assms(5), of "EIf ?v" "?v # cs"] assms(6) obtain st' where
    st': "if_enter (if ?v then PASS else STOP) st = Some st'" "represents st' (?v # cs)" by auto
  have top: "state_at st (if_lev st) = Some (if list_all id cs then PASS else STOP)" using represents_top[OF assms(5)] .
  have run: "do_if e h status keyword cx st fn fd = Some (Ret (cx2, st', fn, fd))"
  proof (cases "list_all id cs")
    case True
    then have "if_enter (if (sym_value e ?name \<noteq> None) \<noteq> negated then PASS else STOP) st = Some st'" using st'(1) by simp
    then show ?thesis using key 1(1) 2(1) top True by (simp add: do_if_def if_value_def)
  next
    case False
    then have "if_enter (if False \<noteq> negated then PASS else STOP) st = Some st'" using st'(1) by simp
    then show ?thesis using key 1(1) 2(1) top False by (simp add: do_if_def)
  qed
  show ?thesis using run st'(2) 2(2) by (intro exI[of _ cx2] exI[of _ st'] exI[of _ ?v]) (auto simp: at_def)
qed

theorem do_if_defined_witness:
  "\<exists>cx' st' v. do_if demo_env \<lparr>ih_access = (\<lambda>_. True), ih_fdate = (\<lambda>_. 5)\<rparr> 0 [36, 105, 102, 110, 100, 101, 102]
        (fresh_cx [40, 97, 41, 10]) no_ifs fn_cleared cleared = Some (Ret (cx', st', fn_cleared, cleared)) \<and> cx_ok cx' \<and> pending cx' = [10]
    \<and> represents st' (v # []) \<and> (list_all id [] \<longrightarrow> v = ((sym_value demo_env (cstr (map word_of_int [97])) \<noteq> None) \<noteq> True))"
proof (rule do_if_defined[OF fresh_ok(1) _ _ _ no_ifs_represents])
  show "pending (fresh_cx [40, 97, 41, 10]) = 40 # [97] @ 41 # [10]" by (simp add: fresh_cx_def pending_def chars_def texts_def)
qed (simp_all add: pred_char_def plain_def SZ_PREDBUF_def SZ_IFSTACK_def)

lemma find_paren_eof:
  assumes "find_paren e cx = Some out"
  shows "\<not> at cx []"
proof (rule find_paren.raw_induct[where P = "\<lambda>e cx out. \<not> at cx []", OF _ assms])
  fix f e cx out
  assume ih: "\<And>e cx out. f e cx = Some out \<Longrightarrow> \<not> at cx []"
    and run: "pass (m_getc (me_host e) (me_junk e) cx) (\<lambda>(ch, cx1). if ch = 40 then Some (Ret cx1) else f e cx1) = Some out"
  show "\<not> at cx []"
  proof
    assume "at cx []"
    from m_getc_eof[OF this, of "me_host e" "me_junk e"] obtain cx' where
      "m_getc (me_host e) (me_junk e) cx = Some (Ret (-1, cx'))" "at cx' []" by blast
    then show False using ih[of e cx' out] run by simp
  qed
qed

text \<open>
  C39. A conditional at the end of the file: without a left parenthesis in the rest of the input \<^verbatim>\<open>do_if\<close>
  never returns, it prints its warning for ever.
\<close>

theorem do_if_eof_loops:
  assumes "cx_ok cx" "pending cx = []"
  shows "do_if e h status keyword cx s fn fd = None"
proof -
  have "find_paren e cx = None" using assms find_paren_eof by (cases "find_paren e cx") (auto simp: at_def)
  then show ?thesis by (simp add: do_if_def split_beta)
qed

theorem do_if_eof_loops_witness:
  "do_if demo_env \<lparr>ih_access = (\<lambda>_. True), ih_fdate = (\<lambda>_. 5)\<rparr> 0 [36, 105, 102, 101, 113] (fresh_cx []) no_ifs fn_cleared cleared = None"
  by (rule do_if_eof_loops[OF fresh_ok(1)]) (simp add: fresh_cx_def pending_def chars_def texts_def)


text \<open>The date loops over a cache that holds current dates.\<close>

lemma date_loops:
  "holds c xs es \<Longrightarrow> coherent (ih_fdate h) es \<Longrightarrow> list_all (\<lambda>n. EOS \<notin> set n) ns \<Longrightarrow>
   (\<exists>c'. older_loop h d ns c = Some (list_ex (\<lambda>n. sint (ih_fdate h n) \<le> 0 \<or> sint d < sint (ih_fdate h n)) ns, c'))
   \<and> (\<exists>c'. newer_loop h d ns c = Some (list_ex (\<lambda>n. 0 < sint (ih_fdate h n) \<and> sint (ih_fdate h n) < sint d) ns, c'))"
proof (induction ns arbitrary: c xs es)
  case (Cons n ns)
  from m_fdate_lookup[OF Cons.prems(1), of n "ih_fdate h"] Cons.prems(3) obtain c1 xs1 where
    1: "m_fdate (ih_fdate h) n c = Some (fst (lookup (ih_fdate h) n es), c1)" "holds c1 xs1 (snd (lookup (ih_fdate h) n es))" by auto
  note lc = lookup_coherent[OF Cons.prems(2), of n]
  from Cons.IH[OF 1(2) lc(2)] Cons.prems(3) obtain c2 c3 where
    "older_loop h d ns c1 = Some (list_ex (\<lambda>n. sint (ih_fdate h n) \<le> 0 \<or> sint d < sint (ih_fdate h n)) ns, c2)"
    "newer_loop h d ns c1 = Some (list_ex (\<lambda>n. 0 < sint (ih_fdate h n) \<and> sint (ih_fdate h n) < sint d) ns, c3)" by auto
  then show ?case using 1(1) lc(1) by auto
qed simp

text \<open>
  C35. The date predicates as the code has them, over a cache that holds current dates: both are true when the first
  listed file or the named file is missing; else \<^verbatim>\<open>$ifolder\<close> is true exactly when some listed file is missing or
  younger than the named one, \<^verbatim>\<open>$ifnewer\<close> exactly when some listed file is there and older. This is not what the
  comments in the code say: there a missing listed file is ignored by both, and \<^verbatim>\<open>$ifnewer\<close> is false
  when the named file is missing.
\<close>

theorem if_dates:
  assumes "holds fd xs es" "coherent (ih_fdate h) es" "list_all (\<lambda>n. EOS \<notin> set n) (b # bs)"
  shows "map_option fst (if_value e h status [111, 108, 100, 101, 114] (a # b # bs) fd)
      = Some (\<not> ih_access h b \<or> sint (ih_fdate h a) \<le> 0
          \<or> (\<exists>n \<in> set (b # bs). sint (ih_fdate h n) \<le> 0 \<or> sint (ih_fdate h a) < sint (ih_fdate h n)))
    \<and> map_option fst (if_value e h status [110, 101, 119, 101, 114] (a # b # bs) fd)
      = Some (\<not> ih_access h b \<or> sint (ih_fdate h a) \<le> 0
          \<or> (\<exists>n \<in> set (b # bs). 0 < sint (ih_fdate h n) \<and> sint (ih_fdate h n) < sint (ih_fdate h a)))"
proof -
  from date_loops[OF assms, of "ih_fdate h a"] obtain c1 c2 where
    o: "older_loop h (ih_fdate h a) (b # bs) fd
      = Some (list_ex (\<lambda>n. sint (ih_fdate h n) \<le> 0 \<or> sint (ih_fdate h a) < sint (ih_fdate h n)) (b # bs), c1)"
    and n: "newer_loop h (ih_fdate h a) (b # bs) fd
      = Some (list_ex (\<lambda>n. 0 < sint (ih_fdate h n) \<and> sint (ih_fdate h n) < sint (ih_fdate h a)) (b # bs), c2)" by blast
  show ?thesis
  proof (cases "\<not> ih_access h b \<or> sint (ih_fdate h a) \<le> 0")
    case True
    then have "dated loop h (a # b # bs) fd = Some (True, fd)" for loop by (auto simp: dated_def Let_def)
    then show ?thesis using True by (simp add: if_value_def)
  next
    case False
    then have nz: "\<not> sint (ih_fdate h a) \<le> 0" "ih_access h b" by simp_all
    then have "dated older_loop h (a # b # bs) fd = older_loop h (ih_fdate h a) (b # bs) fd"
      "dated newer_loop h (a # b # bs) fd = newer_loop h (ih_fdate h a) (b # bs) fd"
      by (simp_all only: dated_def list.case Let_def simp_thms if_False)
    then show ?thesis unfolding if_value_def o n using nz by (auto simp: list_ex_iff)
  qed
qed

text \<open>The named file has date 2, the listed ones date 0 (missing) and 1: both predicates hold, the first because of the
  missing file alone.\<close>

definition sample_dates :: if_host where
  "sample_dates = \<lparr>ih_access = (\<lambda>_. True), ih_fdate = (\<lambda>n. word_of_nat (length n))\<rparr>"

theorem if_dates_witness:
  "\<exists>c0. m_fdinit True cleared = Some c0
    \<and> map_option fst (if_value demo_env sample_dates 0 [111, 108, 100, 101, 114] ([97, 97] # [] # [[98]]) c0) = Some True
    \<and> map_option fst (if_value demo_env sample_dates 0 [110, 101, 119, 101, 114] ([97, 97] # [] # [[98]]) c0) = Some True"
proof -
  obtain c0 where c0: "m_fdinit True cleared = Some c0" "holds c0 (rev [0..<MAX_FILES]) (replicate MAX_FILES None)"
    using m_fdinit_empty[OF cleared_sized] by blast
  have "coherent f (replicate MAX_FILES None)" for f by (simp add: coherent_def)
  from if_dates[OF c0(2) this, of "[]" "[[98]]" demo_env sample_dates 0 "[97, 97]"]
  show ?thesis using c0(1) by (simp add: sample_dates_def)
qed

text \<open>
  \<^verbatim>\<open>$ifnewer\<close> on a missing first file is true.
\<close>

theorem if_newer_missing:
  assumes "ih_access h b" "sint (ih_fdate h a) \<le> 0"
  shows "if_value e h status [110, 101, 119, 101, 114] (a # b # bs) fd = Some (True, fd)"
  using assms by (simp add: if_value_def dated_def Let_def)

theorem if_newer_missing_witness:
  "if_value demo_env \<lparr>ih_access = (\<lambda>_. True), ih_fdate = (\<lambda>_. 0)\<rparr> 0 [110, 101, 119, 101, 114] ([97] # [98] # []) cleared = Some (True, cleared)"
  by (rule if_newer_missing) simp_all

text \<open>
  The fiftieth open conditional is stored behind the end of \<^verbatim>\<open>ifstate\<close>: the test of the level in
  \<^verbatim>\<open>do_if\<close> comes one level too late, and only warns.
\<close>

theorem if_nesting_overflow:
  assumes "represents s cs" "Suc (length cs) = SZ_IFSTACK"
  shows "if_enter v s = None"
proof -
  have "if_lev s + 1 = int SZ_IFSTACK" "length (if_state s) = SZ_IFSTACK" using assms by (simp_all add: represents_def)
  then show ?thesis using represents_top[OF assms(1)] by (simp add: if_enter_def set_state_def)
qed

definition deep_ifs :: ifs where
  "deep_ifs = \<lparr>if_state = replicate 50 PASS, if_lev = 49\<rparr>"

theorem if_nesting_overflow_witness: "if_enter PASS deep_ifs = None"
proof (rule if_nesting_overflow)
  show "represents deep_ifs (replicate 49 True)"
    by (simp add: represents_def deep_ifs_def SZ_IFSTACK_def list_all_length)
qed (simp add: SZ_IFSTACK_def)

end
