(* ===== verification/Ygram.thy ===== *)
theory Ygram
  imports CPrelude
begin

text \<open>
  The grammar tables of the parser generator \<^verbatim>\<open>unix/boot/xyacc\<close>: the production
  memory the rule reader of \<^verbatim>\<open>y2.c\<close> fills, and the analysis \<^verbatim>\<open>y1.c\<close> makes of it
  before the states are generated: the table of productions per nonterminal
  (\<open>cpres\<close>) and the two marking loops of \<open>cempty\<close>.  The rules as the user wrote
  them and the derivation relation over them are the specification: \<open>cempty\<close>
  complains of exactly the nonterminals that derive no token string, and otherwise
  marks exactly those that derive the empty string.  A read outside an array is
  undefined in C and gives \<open>None\<close> here.
\<close>

type_synonym rule = "int \<times> int list"

text \<open>Symbols: tokens are numbered from 1, nonterminals from \<^verbatim>\<open>NTBASE\<close>.\<close>

abbreviation NTBASE :: int where "NTBASE \<equiv> 4096"

text \<open>The production memory \<^verbatim>\<open>mem0\<close>, the start of each production, the number of the
  last nonterminal, the words of a lookahead set and the slots of the table of sets.\<close>

record grammar =
  gmem :: "int list"
  prdptr :: "nat list"
  nnonter :: nat
  tbitset :: nat
  lsetsize :: nat

text \<open>What the grammar program aborts with.\<close>

datatype yerror =
    Undefined_nonterminal "nat list"
  | Never_derives "nat list"
  | Pyield

text \<open>An array read.\<close>

definition ent :: "'a list \<Rightarrow> nat \<Rightarrow> 'a option" where
  "ent xs i = (if i < length xs then Some (xs ! i) else None)"

lemma ent_Some [simp]: "i < length xs \<Longrightarrow> ent xs i = Some (xs ! i)"
  by (simp add: ent_def)

lemma ent_eq_Some: "ent xs i = Some x \<longleftrightarrow> i < length xs \<and> xs ! i = x"
  by (auto simp: ent_def)

subsection \<open>The rules in memory\<close>

text \<open>Each rule is its left hand side, its right hand side and its negated number; the
  added production, number 0, ends in 0.\<close>

primrec lay_rules :: "nat \<Rightarrow> rule list \<Rightarrow> int list" where
  "lay_rules n [] = []"
| "lay_rules n (r # rs) = fst r # snd r @ (- int n) # lay_rules (Suc n) rs"

primrec rule_ptrs :: "nat \<Rightarrow> rule list \<Rightarrow> nat list" where
  "rule_ptrs p [] = []"
| "rule_ptrs p (r # rs) = p # rule_ptrs (p + length (snd r) + 2) rs"

definition setup_rules :: "int \<Rightarrow> nat \<Rightarrow> nat \<Rightarrow> nat \<Rightarrow> rule list \<Rightarrow> grammar" where
  "setup_rules start nn tb lsz rs =
    \<lparr> gmem = [NTBASE, start, 1, 0] @ lay_rules 1 rs,
      prdptr = 0 # rule_ptrs 4 rs,
      nnonter = nn, tbitset = tb, lsetsize = lsz \<rparr>"

definition is_token :: "int \<Rightarrow> bool" where
  "is_token s \<longleftrightarrow> 0 < s \<and> s < NTBASE"

definition is_nonterm :: "nat \<Rightarrow> int \<Rightarrow> bool" where
  "is_nonterm nn s \<longleftrightarrow> NTBASE < s \<and> s \<le> NTBASE + int nn"

definition wf_rules :: "int \<Rightarrow> nat \<Rightarrow> rule list \<Rightarrow> bool" where
  "wf_rules start nn rs \<longleftrightarrow> is_nonterm nn start \<and> rs \<noteq> [] \<and>
    (\<forall>(A, r) \<in> set rs. is_nonterm nn A \<and> (\<forall>s \<in> set r. is_token s \<or> is_nonterm nn s))"

text \<open>The grammar with the added production.\<close>

definition all_rules :: "int \<Rightarrow> rule list \<Rightarrow> rule list" where
  "all_rules start rs = (NTBASE, [start, 1]) # rs"

text \<open>A production at its place in memory.\<close>

definition laid :: "int list \<Rightarrow> nat \<Rightarrow> rule \<Rightarrow> bool" where
  "laid m p r \<longleftrightarrow> (\<exists>t rest. drop p m = fst r # snd r @ t # rest \<and> t < 0)"

lemma laid_rule_ptrs:
  "list_all2 (laid (pre @ lay_rules (Suc n) rs)) (rule_ptrs (length pre) rs) rs"
proof (induction rs arbitrary: pre n)
  case (Cons r rs)
  have "laid (pre @ lay_rules (Suc n) (r # rs)) (length pre) r"
    by (auto simp: laid_def)
  moreover have "list_all2 (laid ((pre @ fst r # snd r @ [- int (Suc n)]) @ lay_rules (Suc (Suc n)) rs))
      (rule_ptrs (length (pre @ fst r # snd r @ [- int (Suc n)])) rs) rs"
    by (rule Cons.IH)
  ultimately show ?case by simp
qed simp

lemma laid_setup:
  "list_all2 (laid (gmem (setup_rules st nn tb lsz rs))) (rule_ptrs 4 rs) rs"
  using laid_rule_ptrs [of "[NTBASE, st, 1, 0]" 0 rs]
  by (simp add: setup_rules_def eval_nat_numeral)

lemma laid_D:
  assumes "laid m p (A, r)"
  obtains t rest where "p < length m" "m ! p = A" "drop (Suc p) m = r @ t # rest" "t < 0"
proof -
  from assms obtain t rest where d: "drop p m = A # r @ t # rest" and "t < 0"
    by (auto simp: laid_def)
  from d have "p < length m" by (metis drop_all linorder_not_less list.distinct(1))
  moreover from this d have "m ! p = A" "drop (Suc p) m = r @ t # rest"
    by (simp_all add: Cons_nth_drop_Suc [symmetric])
  ultimately show thesis using that \<open>t < 0\<close> by blast
qed

subsection \<open>Derivations\<close>

inductive dstep :: "rule list \<Rightarrow> int list \<Rightarrow> int list \<Rightarrow> bool" for rs where
  dstep: "(A, r) \<in> set rs \<Longrightarrow> dstep rs (u @ A # v) (u @ r @ v)"

abbreviation derives :: "rule list \<Rightarrow> int list \<Rightarrow> int list \<Rightarrow> bool" where
  "derives rs \<equiv> rtranclp (dstep rs)"

lemma dstep_ctxt: "dstep rs u v \<Longrightarrow> dstep rs (x @ u @ y) (x @ v @ y)"
  by (elim dstep.cases) (metis append.assoc append_Cons dstep.dstep)

lemma derives_ctxt: "derives rs u v \<Longrightarrow> derives rs (x @ u @ y) (x @ v @ y)"
  by (induction rule: rtranclp_induct) (auto intro: dstep_ctxt rtranclp.rtrancl_into_rtrancl)

lemma derives_append:
  assumes "derives rs u u'" "derives rs v v'"
  shows "derives rs (u @ v) (u' @ v')"
  using derives_ctxt [OF assms(1), of "[]" v] derives_ctxt [OF assms(2), of u' "[]"]
  by (metis append.right_neutral append_Nil rtranclp_trans)

lemma derives_rule: "(A, r) \<in> set rs \<Longrightarrow> derives rs [A] r"
  using dstep [of A r rs "[]" "[]"] by auto

text \<open>The nonterminals reached by a marking loop: with \<open>tk\<close> a token counts as derivable
  (what \<open>cempty\<close> looks for first), without it only the empty string does.\<close>

inductive marked :: "bool \<Rightarrow> rule list \<Rightarrow> int \<Rightarrow> bool" for tk rs where
  marked: "(A, r) \<in> set rs \<Longrightarrow> \<forall>s \<in> set r. s < NTBASE \<and> tk \<or> marked tk rs s \<Longrightarrow> marked tk rs A"

definition productive :: "rule list \<Rightarrow> int \<Rightarrow> bool" where
  "productive rs A \<longleftrightarrow> (\<exists>w. derives rs [A] w \<and> (\<forall>s \<in> set w. is_token s))"

definition nullable :: "rule list \<Rightarrow> int \<Rightarrow> bool" where
  "nullable rs A \<longleftrightarrow> derives rs [A] []"

text \<open>What a marking can derive.\<close>

abbreviation good :: "bool \<Rightarrow> int list \<Rightarrow> bool" where
  "good tk w \<equiv> (\<forall>s \<in> set w. is_token s \<and> tk)"

lemma derives_all:
  assumes "\<forall>s \<in> set r. \<exists>w. derives rs [s] w \<and> good tk w"
  shows "\<exists>w. derives rs r w \<and> good tk w"
  using assms
proof (induction r)
  case Nil
  then show ?case by (intro exI [of _ "[]"]) simp
next
  case (Cons s r)
  then obtain w1 w2 where "derives rs [s] w1" "good tk w1" "derives rs r w2" "good tk w2"
    by (metis list.set_intros(1) list.set_intros(2))
  then show ?case
    using derives_append [of rs "[s]" w1 r w2] by (intro exI [of _ "w1 @ w2"]) auto
qed

lemma marked_derives:
  assumes "marked tk rs A" "\<forall>(B, r) \<in> set rs. \<forall>s \<in> set r. s < NTBASE \<longrightarrow> is_token s"
  shows "\<exists>w. derives rs [A] w \<and> good tk w"
  using assms(1)
proof (induction rule: marked.induct)
  case (marked A r)
  have "\<forall>s \<in> set r. \<exists>w. derives rs [s] w \<and> good tk w"
  proof
    fix s assume s: "s \<in> set r"
    with marked consider "s < NTBASE" tk | "\<exists>w. derives rs [s] w \<and> good tk w" by blast
    then show "\<exists>w. derives rs [s] w \<and> good tk w"
    proof cases
      case 1
      with assms(2) marked(1) s have "is_token s" by blast
      with 1 show ?thesis by (intro exI [of _ "[s]"]) simp
    qed
  qed
  then obtain w where "derives rs r w" "good tk w" using derives_all by blast
  with derives_rule [OF marked(1)] show ?case by (metis rtranclp_trans)
qed

lemma derives_marked:
  assumes "derives rs u w" "good tk w"
  shows "\<forall>s \<in> set u. s < NTBASE \<and> tk \<or> marked tk rs s"
  using assms(1)
proof (induction rule: converse_rtranclp_induct)
  case base
  then show ?case using assms(2) by (auto simp: is_token_def)
next
  case (step u v)
  from step(1) obtain A r x y where "(A, r) \<in> set rs" "u = x @ A # y" "v = x @ r @ y"
    by (auto elim: dstep.cases)
  with step.IH show ?case using marked [of A r rs tk] by auto
qed

lemma nullable_marked:
  assumes "\<forall>(B, r) \<in> set rs. \<forall>s \<in> set r. s < NTBASE \<longrightarrow> is_token s"
  shows "nullable rs A \<longleftrightarrow> marked False rs A"
proof
  assume "nullable rs A"
  then show "marked False rs A"
    using derives_marked [of rs "[A]" "[]" False] by (simp add: nullable_def)
next
  assume "marked False rs A"
  from marked_derives [OF this assms] show "nullable rs A"
    by (metis list.set_intros(1) neq_Nil_conv nullable_def)
qed

lemma productive_marked:
  assumes "\<forall>(B, r) \<in> set rs. \<forall>s \<in> set r. s < NTBASE \<longrightarrow> is_token s" "NTBASE \<le> A"
  shows "productive rs A \<longleftrightarrow> marked True rs A"
  using marked_derives [of True rs A, OF _ assms(1)] derives_marked [of rs "[A]" _ True] assms(2)
  by (auto simp: productive_def)

end
