(* ===== verification/Yempty.thy ===== *)
theory Yempty
  imports Ygram
begin

text \<open>
  \<^verbatim>\<open>cpres\<close> and \<^verbatim>\<open>cempty\<close> of \<^verbatim>\<open>unix/boot/xyacc/y1.c\<close>.  Both loops of \<^verbatim>\<open>cempty\<close> look for a
  production whose left hand side is not marked and whose right hand side passes a
  test, mark the left hand side and start again; \<open>mark_loop\<close> is that loop with the
  test as an argument.  It ends because every turn turns one zero of \<^verbatim>\<open>pempty\<close> into a
  one; its result is the least set closed under the test (\<open>mark_loop_marked\<close>).
\<close>

subsection \<open>Definitions\<close>

definition aryfil :: "nat \<Rightarrow> 'a \<Rightarrow> 'a list" where
  "aryfil n c = replicate n c"

text \<open>The array index of a nonterminal.\<close>

abbreviation ntix :: "int \<Rightarrow> nat" where "ntix s \<equiv> nat (s - NTBASE)"

text \<open>The inner loop of the first search: stop at a nonterminal that is not known.\<close>

fun derivable :: "int list \<Rightarrow> int list \<Rightarrow> bool option" where
  "derivable pe [] = None"
| "derivable pe (s # m) =
    (if s < 0 then Some True
     else if s \<ge> NTBASE then do {
       e \<leftarrow> ent pe (ntix s);
       if e = 0 then Some False else derivable pe m
     } else derivable pe m)"

text \<open>The inner loop of the second: skip the nonterminals known to be empty.\<close>

fun empty_rhs :: "int list \<Rightarrow> int list \<Rightarrow> bool option" where
  "empty_rhs pe [] = None"
| "empty_rhs pe (s # m) =
    (if s \<ge> NTBASE then do {
       e \<leftarrow> ent pe (ntix s);
       if e = 1 then empty_rhs pe m else Some (s < 0)
     } else Some (s < 0))"

text \<open>One pass over the productions: the first left hand side to mark, if any.\<close>

fun ploop :: "(int list \<Rightarrow> int list \<Rightarrow> bool option) \<Rightarrow> int list \<Rightarrow> int list \<Rightarrow> nat list \<Rightarrow> nat option option" where
  "ploop f m pe [] = Some None"
| "ploop f m pe (p # ps) = do {
     A \<leftarrow> ent m p;
     e \<leftarrow> ent pe (ntix A);
     if e \<noteq> 0 then ploop f m pe ps
     else do {
       ok \<leftarrow> f pe (drop (Suc p) m);
       if ok then Some (Some (ntix A)) else ploop f m pe ps
     }
   }"

lemma ploop_SomeD: "ploop f m pe ps = Some (Some A) \<Longrightarrow> A < length pe \<and> pe ! A = 0"
  by (induction ps) (auto simp: ent_eq_Some split: Option.bind_splits if_splits)

lemma count_update_less:
  "A < length pe \<Longrightarrow> pe ! A = 0 \<Longrightarrow> count_list (pe[A := 1]) 0 < count_list pe (0 :: int)"
  by (induction pe arbitrary: A) (auto split: nat.splits)

text \<open>\<^verbatim>\<open>goto more\<close> and \<^verbatim>\<open>goto again\<close>.\<close>

function mark_loop :: "(int list \<Rightarrow> int list \<Rightarrow> bool option) \<Rightarrow> int list \<Rightarrow> nat list \<Rightarrow> int list \<Rightarrow> int list option" where
  "mark_loop f m ps pe =
    (case ploop f m pe ps of
       None \<Rightarrow> None
     | Some None \<Rightarrow> Some pe
     | Some (Some A) \<Rightarrow> mark_loop f m ps (pe[A := 1]))"
  by pat_completeness auto

termination
  by (relation "measure (\<lambda>(f, m, ps, pe). count_list pe 0)")
    (auto dest!: ploop_SomeD intro: count_update_less)

declare mark_loop.simps [simp del]

definition cempty :: "grammar \<Rightarrow> (yerror + int list) option" where
  "cempty g = do {
     pe \<leftarrow> mark_loop derivable (gmem g) (prdptr g) (aryfil (nnonter g + 1) 0);
     (let bad = filter (\<lambda>i. i \<noteq> 0 \<and> pe ! i \<noteq> 1) [0..<nnonter g + 1] in
      if bad \<noteq> [] then Some (Inl (Never_derives bad))
      else do {
        pe \<leftarrow> mark_loop empty_rhs (gmem g) (tl (prdptr g)) (aryfil (nnonter g + 1) 0);
        Some (Inr pe)
      })
   }"

text \<open>The right hand sides of the productions of nonterminal \<open>c\<close>.\<close>

fun yielding :: "int list \<Rightarrow> int \<Rightarrow> nat list \<Rightarrow> nat list option" where
  "yielding m c [] = Some []"
| "yielding m c (p # ps) = do {
     A \<leftarrow> ent m p;
     qs \<leftarrow> yielding m c ps;
     Some (if A = c then (p + 1) # qs else qs)
   }"

definition cpres :: "grammar \<Rightarrow> (yerror + nat list list) option" where
  "cpres g = do {
     pres \<leftarrow> those (map (\<lambda>i. yielding (gmem g) (NTBASE + int i) (prdptr g)) [0..<nnonter g + 1]);
     (let bad = filter (\<lambda>i. pres ! i = []) [0..<nnonter g + 1] in
      if bad \<noteq> [] then Some (Inl (Undefined_nonterminal bad))
      else if length (concat pres) \<noteq> length (prdptr g) then Some (Inl Pyield)
      else Some (Inr pres))
   }"

subsection \<open>The marking loops\<close>

definition in_pe :: "int list \<Rightarrow> int list \<Rightarrow> bool" where
  "in_pe pe r \<longleftrightarrow> (\<forall>s \<in> set r. s \<ge> NTBASE \<longrightarrow> ntix s < length pe)"

lemma derivable_eq:
  assumes "\<forall>s \<in> set r. 0 \<le> s" "in_pe pe r" "t < 0"
  shows "derivable pe (r @ t # m) = Some (\<forall>s \<in> set r. s \<ge> NTBASE \<longrightarrow> pe ! ntix s \<noteq> 0)"
  using assms by (induction r) (auto simp: in_pe_def)

lemma empty_rhs_eq:
  assumes "\<forall>s \<in> set r. 0 \<le> s" "in_pe pe r" "t < 0"
  shows "empty_rhs pe (r @ t # m) = Some (\<forall>s \<in> set r. s \<ge> NTBASE \<and> pe ! ntix s = 1)"
  using assms by (induction r) (auto simp: in_pe_def)

lemma ploop_total:
  assumes "\<forall>p \<in> set ps. \<exists>A ok. ent m p = Some A \<and> ntix A < length pe \<and> f pe (drop (Suc p) m) = Some ok"
  shows "\<exists>res. ploop f m pe ps = Some res \<and>
    (res = None \<longrightarrow> (\<forall>p \<in> set ps. pe ! ntix (m ! p) \<noteq> 0 \<or> f pe (drop (Suc p) m) = Some False)) \<and>
    (\<forall>B. res = Some B \<longrightarrow> (\<exists>p \<in> set ps. B = ntix (m ! p) \<and> pe ! B = 0 \<and>
       f pe (drop (Suc p) m) = Some True))"
  using assms
proof (induction ps)
  case (Cons p ps)
  from Cons.prems obtain A ok where A: "ent m p = Some A" "ntix A < length pe"
    "f pe (drop (Suc p) m) = Some ok" by auto
  from Cons obtain res where res: "ploop f m pe ps = Some res"
    "res = None \<longrightarrow> (\<forall>p \<in> set ps. pe ! ntix (m ! p) \<noteq> 0 \<or> f pe (drop (Suc p) m) = Some False)"
    "\<forall>B. res = Some B \<longrightarrow> (\<exists>p \<in> set ps. B = ntix (m ! p) \<and> pe ! B = 0 \<and>
       f pe (drop (Suc p) m) = Some True)" by auto
  from A have mp: "m ! p = A" by (simp add: ent_eq_Some)
  show ?case
  proof (cases "pe ! ntix A = 0 \<and> ok")
    case True
    then show ?thesis using A mp by auto
  next
    case False
    then have "ploop f m pe (p # ps) = Some res" using A res(1) by auto
    moreover have "pe ! ntix (m ! p) \<noteq> 0 \<or> f pe (drop (Suc p) m) = Some False"
      using False A mp by auto
    ultimately show ?thesis using res(2,3) by (cases res) auto
  qed
qed simp

text \<open>The invariant of the loop: zeros and ones, the ones are justified.\<close>

definition pe_ok :: "nat \<Rightarrow> int list \<Rightarrow> bool" where
  "pe_ok nn pe \<longleftrightarrow> length pe = nn + 1 \<and> (\<forall>e \<in> set pe. e = 0 \<or> e = 1)"

definition mark_inv :: "nat \<Rightarrow> bool \<Rightarrow> rule list \<Rightarrow> int list \<Rightarrow> bool" where
  "mark_inv nn tk rs pe \<longleftrightarrow> pe_ok nn pe \<and> (\<forall>i. 0 < i \<and> i \<le> nn \<and> pe ! i = 1 \<longrightarrow> marked tk rs (NTBASE + int i))"

definition marks :: "nat \<Rightarrow> bool \<Rightarrow> rule list \<Rightarrow> int list \<Rightarrow> bool" where
  "marks nn tk rs pe \<longleftrightarrow> pe_ok nn pe \<and> (\<forall>i. 0 < i \<and> i \<le> nn \<longrightarrow> (pe ! i = 1 \<longleftrightarrow> marked tk rs (NTBASE + int i)))"

text \<open>What the loop needs of its test and of the productions it looks at: each is a rule, or
  the added production, and the test of a rule asks whether every symbol is marked.\<close>

definition prod_test :: "(int list \<Rightarrow> int list \<Rightarrow> bool option) \<Rightarrow> int list \<Rightarrow> nat \<Rightarrow> bool \<Rightarrow> rule list \<Rightarrow> int list \<Rightarrow> nat \<Rightarrow> bool" where
  "prod_test f m nn tk rs pe p \<longleftrightarrow> p < length m \<and> ntix (m ! p) \<le> nn \<and> f pe (drop (Suc p) m) \<noteq> None \<and>
    (ntix (m ! p) \<noteq> 0 \<and> f pe (drop (Suc p) m) = Some True \<longrightarrow>
      (\<exists>r. (m ! p, r) \<in> set rs \<and> NTBASE \<le> m ! p \<and>
        (\<forall>s \<in> set r. s < NTBASE \<and> tk \<or> NTBASE < s \<and> ntix s \<le> nn \<and> pe ! ntix s = 1)))"

definition rule_test :: "(int list \<Rightarrow> int list \<Rightarrow> bool option) \<Rightarrow> int list \<Rightarrow> nat list \<Rightarrow> bool \<Rightarrow> int list \<Rightarrow> rule \<Rightarrow> bool" where
  "rule_test f m ps tk pe Ar \<longleftrightarrow> (\<exists>p \<in> set ps. m ! p = fst Ar \<and>
    ((\<forall>s \<in> set (snd Ar). s < NTBASE \<and> tk \<or> NTBASE < s \<and> pe ! ntix s = 1) \<longrightarrow>
      f pe (drop (Suc p) m) = Some True))"

definition tests :: "(int list \<Rightarrow> int list \<Rightarrow> bool option) \<Rightarrow> int list \<Rightarrow> nat list \<Rightarrow> nat \<Rightarrow> bool \<Rightarrow> rule list \<Rightarrow> bool" where
  "tests f m ps nn tk rs \<longleftrightarrow> (\<forall>pe. pe_ok nn pe \<longrightarrow>
    (\<forall>p \<in> set ps. prod_test f m nn tk rs pe p) \<and> (\<forall>Ar \<in> set rs. rule_test f m ps tk pe Ar))"

lemma mark_inv_step:
  assumes "prod_test f m nn tk rs pe p" "mark_inv nn tk rs pe" "f pe (drop (Suc p) m) = Some True"
  shows "mark_inv nn tk rs (pe[ntix (m ! p) := 1])"
proof -
  let ?B = "ntix (m ! p)"
  have pe: "pe_ok nn pe"
    and ju: "\<And>i. 0 < i \<Longrightarrow> i \<le> nn \<Longrightarrow> pe ! i = 1 \<Longrightarrow> marked tk rs (NTBASE + int i)"
    using assms(2) by (auto simp: mark_inv_def)
  have B: "marked tk rs (NTBASE + int ?B)" if nz: "?B \<noteq> 0"
  proof -
    from assms(1,3) nz obtain r where r: "(m ! p, r) \<in> set rs" "NTBASE \<le> m ! p"
      "\<forall>s \<in> set r. s < NTBASE \<and> tk \<or> NTBASE < s \<and> ntix s \<le> nn \<and> pe ! ntix s = 1"
      unfolding prod_test_def by blast
    have "\<forall>s \<in> set r. s < NTBASE \<and> tk \<or> marked tk rs s"
    proof
      fix s assume "s \<in> set r"
      with r(3) consider "s < NTBASE \<and> tk" | "NTBASE < s" "ntix s \<le> nn" "pe ! ntix s = 1" by blast
      then show "s < NTBASE \<and> tk \<or> marked tk rs s"
        using ju [of "ntix s"] by cases auto
    qed
    with r(1) have "marked tk rs (m ! p)" by (rule marked)
    with r(2) show ?thesis by simp
  qed
  have "pe_ok nn (pe[?B := 1])"
    using pe set_update_subset_insert [of pe ?B 1] by (auto simp: pe_ok_def)
  moreover have "marked tk rs (NTBASE + int i)" if "0 < i" "i \<le> nn" "pe[?B := 1] ! i = 1" for i
    using that ju [of i] B by (cases "i = ?B") auto
  ultimately show ?thesis by (auto simp: mark_inv_def)
qed

lemma mark_loop_closed:
  assumes "mark_inv nn tk rs pe"
    and rs: "\<forall>(A, r) \<in> set rs. is_nonterm nn A"
    and cl: "\<And>A r. (A, r) \<in> set rs \<Longrightarrow> \<forall>s \<in> set r. s < NTBASE \<and> tk \<or> NTBASE < s \<and> pe ! ntix s = 1 \<Longrightarrow>
      pe ! ntix A \<noteq> 0"
  shows "marks nn tk rs pe"
proof -
  have "NTBASE < A \<and> pe ! ntix A = 1" if "marked tk rs A" for A
    using that
  proof (induction rule: marked.induct)
    case (marked A r)
    then have "pe ! ntix A \<noteq> 0" by (intro cl [of A r]) auto
    moreover have A: "is_nonterm nn A" using rs marked(1) by auto
    moreover from A assms(1) have "ntix A < length pe"
      by (auto simp: is_nonterm_def mark_inv_def pe_ok_def)
    then have "pe ! ntix A = 0 \<or> pe ! ntix A = 1"
      using assms(1) nth_mem by (auto simp: mark_inv_def pe_ok_def)
    ultimately show ?case by (auto simp: is_nonterm_def)
  qed
  then have "pe ! i = 1" if "marked tk rs (NTBASE + int i)" for i
    using that by fastforce
  then show ?thesis using assms(1) unfolding marks_def mark_inv_def by blast
qed

lemma mark_loop_marked:
  assumes "tests f m ps nn tk rs" "mark_inv nn tk rs pe" "\<forall>(A, r) \<in> set rs. is_nonterm nn A"
  shows "\<exists>pe'. mark_loop f m ps pe = Some pe' \<and> marks nn tk rs pe'"
  using assms(1,2)
proof (induction f m ps pe rule: mark_loop.induct)
  case (1 f m ps pe)
  have pe: "pe_ok nn pe" using 1(3) by (auto simp: mark_inv_def)
  with 1(2) have prods: "\<forall>p \<in> set ps. prod_test f m nn tk rs pe p"
    and rules: "\<forall>Ar \<in> set rs. rule_test f m ps tk pe Ar"
    by (auto simp: tests_def)
  have tot: "\<forall>p \<in> set ps. \<exists>A ok. ent m p = Some A \<and> ntix A < length pe \<and> f pe (drop (Suc p) m) = Some ok"
    using prods pe by (auto simp: prod_test_def pe_ok_def)
  obtain res where res: "ploop f m pe ps = Some res"
    "res = None \<longrightarrow> (\<forall>p \<in> set ps. pe ! ntix (m ! p) \<noteq> 0 \<or> f pe (drop (Suc p) m) = Some False)"
    "\<forall>B. res = Some B \<longrightarrow> (\<exists>p \<in> set ps. B = ntix (m ! p) \<and> pe ! B = 0 \<and>
       f pe (drop (Suc p) m) = Some True)"
    using ploop_total [of ps m pe f] tot by blast
  show ?case
  proof (cases res)
    case (Some B)
    with res(3) obtain p where p: "p \<in> set ps" "B = ntix (m ! p)" "f pe (drop (Suc p) m) = Some True"
      by blast
    have "mark_inv nn tk rs (pe[B := 1])"
      using mark_inv_step [of f m nn tk rs pe p] prods p 1(3) by blast
    from 1(1) [OF _ _ 1(2) this] res(1) Some
    have "\<exists>pe'. mark_loop f m ps (pe[B := 1]) = Some pe' \<and> marks nn tk rs pe'" by simp
    then show ?thesis using res(1) Some by (subst mark_loop.simps) simp
  next
    case None
    have "marks nn tk rs pe"
    proof (rule mark_loop_closed [OF 1(3) assms(3)])
      fix A r
      assume "(A, r) \<in> set rs" and q: "\<forall>s \<in> set r. s < NTBASE \<and> tk \<or> NTBASE < s \<and> pe ! ntix s = 1"
      with rules have "rule_test f m ps tk pe (A, r)" by blast
      with q obtain p where "p \<in> set ps" "m ! p = A" "f pe (drop (Suc p) m) = Some True"
        by (auto simp: rule_test_def)
      with res(2) None show "pe ! ntix A \<noteq> 0" by auto
    qed
    then show ?thesis using res(1) None by (subst mark_loop.simps) simp
  qed
qed

subsection \<open>The rules the reader laid out\<close>

lemma laid_ptr:
  assumes "p \<in> set (rule_ptrs 4 rs)"
  obtains A r where "(A, r) \<in> set rs" "laid (gmem (setup_rules st nn tb lsz rs)) p (A, r)"
  using laid_setup [of st nn tb lsz rs] assms
  by (metis list_all2_conv_all_nth in_set_conv_nth surj_pair)

lemma laid_rule:
  assumes "(A, r) \<in> set rs"
  obtains p where "p \<in> set (rule_ptrs 4 rs)" "laid (gmem (setup_rules st nn tb lsz rs)) p (A, r)"
  using laid_setup [of st nn tb lsz rs] assms
  by (metis list_all2_conv_all_nth in_set_conv_nth)

lemma wf_rulesD:
  assumes "wf_rules st nn rs" "(A, r) \<in> set rs"
  shows "NTBASE < A" "ntix A \<le> nn" "\<forall>s \<in> set r. is_token s \<or> is_nonterm nn s"
  using assms by (auto simp: wf_rules_def is_nonterm_def)

lemma wf_rules_tokens:
  "wf_rules st nn rs \<Longrightarrow> \<forall>(B, r) \<in> set rs. \<forall>s \<in> set r. s < NTBASE \<longrightarrow> is_token s"
  by (fastforce simp: wf_rules_def is_nonterm_def)

lemma rhs_sym:
  assumes "wf_rules st nn rs" "(A, r) \<in> set rs" "s \<in> set r"
  shows "0 \<le> s" "NTBASE \<le> s \<Longrightarrow> NTBASE < s \<and> ntix s \<le> nn"
  using wf_rulesD(3) [OF assms(1,2)] assms(3) by (auto simp: is_token_def is_nonterm_def)

lemma pe_ok_ix: "pe_ok nn pe \<Longrightarrow> i \<le> nn \<Longrightarrow> pe ! i = 0 \<or> pe ! i = 1"
  by (simp add: pe_ok_def)


lemma derivable_laid:
  assumes wf: "wf_rules st nn rs" and "laid m p (A, r)" "(A, r) \<in> set rs" "pe_ok nn pe"
  shows "derivable pe (drop (Suc p) m) = Some (\<forall>s \<in> set r. NTBASE \<le> s \<longrightarrow> pe ! ntix s \<noteq> 0)"
  using assms(2)
proof (rule laid_D)
  fix t rest assume d: "drop (Suc p) m = r @ t # rest" "t < 0"
  have "\<forall>s \<in> set r. 0 \<le> s" "in_pe pe r"
    using rhs_sym [OF wf assms(3)] assms(4) by (auto simp: in_pe_def pe_ok_def less_Suc_eq_le)
  then show ?thesis unfolding d(1) using d(2) by (rule derivable_eq)
qed

lemma empty_rhs_laid:
  assumes wf: "wf_rules st nn rs" and "laid m p (A, r)" "(A, r) \<in> set rs" "pe_ok nn pe"
  shows "empty_rhs pe (drop (Suc p) m) = Some (\<forall>s \<in> set r. NTBASE \<le> s \<and> pe ! ntix s = 1)"
  using assms(2)
proof (rule laid_D)
  fix t rest assume d: "drop (Suc p) m = r @ t # rest" "t < 0"
  have "\<forall>s \<in> set r. 0 \<le> s" "in_pe pe r"
    using rhs_sym [OF wf assms(3)] assms(4) by (auto simp: in_pe_def pe_ok_def less_Suc_eq_le)
  then show ?thesis unfolding d(1) using d(2) by (rule empty_rhs_eq)
qed

text \<open>The added production runs into the first rule: its 0 does not stop the scan.\<close>

lemma derivable_added:
  assumes wf: "wf_rules st nn rs" and "pe_ok nn pe"
  shows "derivable pe (drop (Suc 0) (gmem (setup_rules st nn tb lsz rs))) \<noteq> None"
proof -
  from wf obtain A r rs' where rs: "rs = (A, r) # rs'"
    by (metis wf_rules_def neq_Nil_conv surj_pair)
  have m: "drop (Suc 0) (gmem (setup_rules st nn tb lsz rs)) =
      (st # 1 # 0 # A # r) @ (- 1) # lay_rules 2 rs'"
    by (simp add: setup_rules_def rs numeral_2_eq_2)
  have Ar: "(A, r) \<in> set rs" by (simp add: rs)
  have "\<forall>s \<in> set (st # 1 # 0 # A # r). 0 \<le> s" "in_pe pe (st # 1 # 0 # A # r)"
    using rhs_sym [OF wf Ar] wf_rulesD(1,2) [OF wf Ar] wf assms
    by (auto simp: in_pe_def pe_ok_def less_Suc_eq_le wf_rules_def is_nonterm_def)
  then show ?thesis unfolding m by (subst derivable_eq) auto
qed

lemma rule_head:
  assumes "laid m p (A, r)" shows "p < length m" "m ! p = A"
  using assms by (auto elim: laid_D)

lemma tests_derivable:
  assumes wf: "wf_rules st nn rs"
  shows "tests derivable (gmem (setup_rules st nn tb lsz rs)) (0 # rule_ptrs 4 rs) nn True rs"
  unfolding tests_def
proof safe
  let ?m = "gmem (setup_rules st nn tb lsz rs)"
  fix pe assume pe: "pe_ok nn pe"
  fix p assume "p \<in> set (0 # rule_ptrs 4 rs)"
  then consider "p = 0" | "p \<in> set (rule_ptrs 4 rs)" by auto
  then show "prod_test derivable ?m nn True rs pe p"
  proof cases
    case 1
    then show ?thesis using derivable_added [OF wf pe]
      by (simp add: prod_test_def) (simp add: setup_rules_def)
  next
    case 2
    then obtain A r where l: "(A, r) \<in> set rs" "laid ?m p (A, r)" by (rule laid_ptr)
    note sy = rhs_sym [OF wf l(1)]
    have "s < NTBASE \<or> NTBASE < s \<and> ntix s \<le> nn \<and> pe ! ntix s = 1"
      if "s \<in> set r" "NTBASE \<le> s \<longrightarrow> pe ! ntix s \<noteq> 0" for s
      using that sy(2) [OF that(1)] pe_ok_ix [OF pe, of "ntix s"] by auto
    then show ?thesis
      using l(1) wf_rulesD(1,2) [OF wf l(1)] rule_head [OF l(2)] derivable_laid [OF wf l(2,1) pe]
      by (auto simp: prod_test_def)
  qed
next
  let ?m = "gmem (setup_rules st nn tb lsz rs)"
  fix pe A r assume pe: "pe_ok nn pe" and Ar: "(A, r) \<in> set rs"
  from Ar obtain p where p: "p \<in> set (rule_ptrs 4 rs)" "laid ?m p (A, r)" by (rule laid_rule)
  then show "rule_test derivable ?m (0 # rule_ptrs 4 rs) True pe (A, r)"
    using derivable_laid [OF wf p(2) Ar pe] rule_head(2) [OF p(2)]
    unfolding rule_test_def by (intro bexI [of _ p]) fastforce+
qed

lemma tests_empty:
  assumes wf: "wf_rules st nn rs"
  shows "tests empty_rhs (gmem (setup_rules st nn tb lsz rs)) (rule_ptrs 4 rs) nn False rs"
  unfolding tests_def
proof safe
  let ?m = "gmem (setup_rules st nn tb lsz rs)"
  fix pe p assume pe: "pe_ok nn pe" and "p \<in> set (rule_ptrs 4 rs)"
  then obtain A r where l: "(A, r) \<in> set rs" "laid ?m p (A, r)" by (metis laid_ptr)
  show "prod_test empty_rhs ?m nn False rs pe p"
    using l(1) rhs_sym(2) [OF wf l(1)] wf_rulesD(1,2) [OF wf l(1)] rule_head [OF l(2)]
      empty_rhs_laid [OF wf l(2,1) pe]
    by (auto simp: prod_test_def)
next
  let ?m = "gmem (setup_rules st nn tb lsz rs)"
  fix pe A r assume pe: "pe_ok nn pe" and Ar: "(A, r) \<in> set rs"
  from Ar obtain p where p: "p \<in> set (rule_ptrs 4 rs)" "laid ?m p (A, r)" by (rule laid_rule)
  then show "rule_test empty_rhs ?m (rule_ptrs 4 rs) False pe (A, r)"
    using empty_rhs_laid [OF wf p(2) Ar pe] rule_head(2) [OF p(2)]
    unfolding rule_test_def by (intro bexI [of _ p]) fastforce+
qed

lemma mark_inv_zero: "mark_inv nn tk rs (aryfil (nn + 1) 0)"
  by (auto simp: mark_inv_def pe_ok_def aryfil_def simp del: replicate.simps)

lemma setup_rules_sel [simp]:
  "prdptr (setup_rules st nn tb lsz rs) = 0 # rule_ptrs 4 rs"
  "nnonter (setup_rules st nn tb lsz rs) = nn"
  "tbitset (setup_rules st nn tb lsz rs) = tb"
  "lsetsize (setup_rules st nn tb lsz rs) = lsz"
  by (simp_all add: setup_rules_def)

definition unproductive :: "nat \<Rightarrow> rule list \<Rightarrow> nat list" where
  "unproductive nn rs = filter (\<lambda>i. i \<noteq> 0 \<and> \<not> marked True rs (NTBASE + int i)) [0..<nn + 1]"

lemma cempty_marks:
  assumes wf: "wf_rules st nn rs"
  shows "if unproductive nn rs = [] then
      \<exists>pe. cempty (setup_rules st nn tb lsz rs) = Some (Inr pe) \<and> marks nn False rs pe
    else cempty (setup_rules st nn tb lsz rs) = Some (Inl (Never_derives (unproductive nn rs)))"
proof -
  let ?g = "setup_rules st nn tb lsz rs"
  have nt: "\<forall>(A, r) \<in> set rs. is_nonterm nn A" using wf by (auto simp: wf_rules_def)
  obtain pe1 where 1: "mark_loop derivable (gmem ?g) (0 # rule_ptrs 4 rs) (aryfil (nn + 1) 0) = Some pe1"
    "marks nn True rs pe1"
    using mark_loop_marked [OF tests_derivable [OF wf] mark_inv_zero nt] by blast
  obtain pe2 where 2: "mark_loop empty_rhs (gmem ?g) (rule_ptrs 4 rs) (aryfil (nn + 1) 0) = Some pe2"
    "marks nn False rs pe2"
    using mark_loop_marked [OF tests_empty [OF wf] mark_inv_zero nt] by blast
  have "filter (\<lambda>i. i \<noteq> 0 \<and> pe1 ! i \<noteq> 1) [0..<nn + 1] = unproductive nn rs"
    unfolding unproductive_def using 1(2) by (intro filter_cong) (auto simp: marks_def)
  then show ?thesis
    using 1(1) 2 by (simp add: cempty_def Let_def del: upt_Suc)
qed

subsection \<open>The productions of a nonterminal\<close>

lemma yielding_eq:
  "\<forall>p \<in> set ps. p < length m \<Longrightarrow> yielding m c ps = Some (map Suc (filter (\<lambda>p. m ! p = c) ps))"
  by (induction ps) auto

lemma ptr_head:
  fixes tb lsz
  assumes wf: "wf_rules st nn rs" and p: "p \<in> set (0 # rule_ptrs 4 rs)"
  defines "m \<equiv> gmem (setup_rules st nn tb lsz rs)"
  shows "p < length m" "NTBASE \<le> m ! p" "ntix (m ! p) \<le> nn"
proof -
  have "p < length m \<and> NTBASE \<le> m ! p \<and> ntix (m ! p) \<le> nn"
  proof (cases "p = 0")
    case True
    then show ?thesis by (simp add: m_def setup_rules_def)
  next
    case False
    with p have "p \<in> set (rule_ptrs 4 rs)" by simp
    then obtain A r where l: "(A, r) \<in> set rs" "laid m p (A, r)" unfolding m_def by (rule laid_ptr)
    then show ?thesis using rule_head [OF l(2)] wf_rulesD(1,2) [OF wf l(1)] by auto
  qed
  then show "p < length m" "NTBASE \<le> m ! p" "ntix (m ! p) \<le> nn" by auto
qed

lemma length_classes:
  fixes h :: "'a \<Rightarrow> nat"
  assumes "\<forall>p \<in> set ps. h p < n"
  shows "length (concat (map (\<lambda>i. filter (\<lambda>p. h p = i) ps) [0..<n])) = length ps"
  using assms
proof (induction ps)
  case (Cons p ps)
  have "length (concat (map (\<lambda>i. filter (\<lambda>q. h q = i) (p # ps)) [0..<n])) =
      (\<Sum>i = 0..<n. (if h p = i then 1 else 0) + length (filter (\<lambda>q. h q = i) ps))"
    by (auto simp: length_concat comp_def interv_sum_list_conv_sum_set_nat intro!: sum.cong)
  also have "\<dots> = 1 + length ps"
    using Cons by (simp add: sum.distrib length_concat comp_def interv_sum_list_conv_sum_set_nat)
  finally show ?case by simp
qed (simp add: length_concat comp_def)

text \<open>The rows of the table: for each nonterminal the places just after its occurrences as a
  left hand side.\<close>

definition pres_row :: "grammar \<Rightarrow> nat \<Rightarrow> nat list" where
  "pres_row g i = map Suc (filter (\<lambda>p. gmem g ! p = NTBASE + int i) (prdptr g))"

definition undefined_nts :: "nat \<Rightarrow> rule list \<Rightarrow> nat list" where
  "undefined_nts nn rs = filter (\<lambda>i. i \<noteq> 0 \<and> NTBASE + int i \<notin> fst ` set rs) [0..<nn + 1]"

lemma those_Some: "those (map (\<lambda>x. Some (f x)) xs) = Some (map f xs)"
  by (induction xs) auto

lemma pres_row_empty:
  assumes wf: "wf_rules st nn rs" and i: "i \<le> nn"
  shows "pres_row (setup_rules st nn tb lsz rs) i = [] \<longleftrightarrow> i \<noteq> 0 \<and> NTBASE + int i \<notin> fst ` set rs"
proof -
  let ?m = "gmem (setup_rules st nn tb lsz rs)"
  have m0: "?m ! 0 = NTBASE" by (simp add: setup_rules_def)
  have "(\<exists>p \<in> set (rule_ptrs 4 rs). ?m ! p = A) \<longleftrightarrow> A \<in> fst ` set rs" for A
  proof
    assume "\<exists>p \<in> set (rule_ptrs 4 rs). ?m ! p = A"
    then obtain p where p: "p \<in> set (rule_ptrs 4 rs)" "?m ! p = A" by blast
    from p(1) obtain B r where "(B, r) \<in> set rs" "laid ?m p (B, r)" by (rule laid_ptr)
    with p(2) rule_head(2) show "A \<in> fst ` set rs" by force
  next
    assume "A \<in> fst ` set rs"
    then obtain r where "(A, r) \<in> set rs" by force
    then obtain p where "p \<in> set (rule_ptrs 4 rs)" "laid ?m p (A, r)" by (rule laid_rule)
    with rule_head(2) show "\<exists>p \<in> set (rule_ptrs 4 rs). ?m ! p = A" by blast
  qed
  from this [of "NTBASE + int i"] m0 show ?thesis
    using wf_rulesD(1) [OF wf] by (auto simp: pres_row_def filter_empty_conv)
qed

lemma cpres_rows:
  fixes tb lsz
  assumes wf: "wf_rules st nn rs"
  defines "g \<equiv> setup_rules st nn tb lsz rs"
  shows "cpres g = (if undefined_nts nn rs = [] then Some (Inr (map (pres_row g) [0..<nn + 1]))
    else Some (Inl (Undefined_nonterminal (undefined_nts nn rs))))"
proof -
  have "\<forall>p \<in> set (prdptr g). p < length (gmem g)"
    using ptr_head(1) [OF wf] unfolding g_def by simp
  from yielding_eq [OF this]
  have rows: "those (map (\<lambda>i. yielding (gmem g) (NTBASE + int i) (prdptr g)) [0..<nn + 1]) =
      Some (map (pres_row g) [0..<nn + 1])"
    by (simp add: those_Some pres_row_def del: upt_Suc)
  have bad: "filter (\<lambda>i. map (pres_row g) [0..<nn + 1] ! i = []) [0..<nn + 1] = undefined_nts nn rs"
    unfolding undefined_nts_def using pres_row_empty [OF wf]
    by (intro filter_cong) (auto simp: g_def simp del: upt_Suc)
  have map_eq: "map (pres_row g) [0..<nn + 1] =
      map (map Suc) (map (\<lambda>i. filter (\<lambda>p. ntix (gmem g ! p) = i) (prdptr g)) [0..<nn + 1])"
    using ptr_head(2) [OF wf]
    by (fastforce simp: pres_row_def g_def simp del: upt_Suc intro!: filter_cong)
  have "\<forall>p \<in> set (prdptr g). ntix (gmem g ! p) < nn + 1"
    using ptr_head(3) [OF wf] by (simp add: g_def less_Suc_eq_le)
  then have "length (concat (map (\<lambda>i. filter (\<lambda>p. ntix (gmem g ! p) = i) (prdptr g)) [0..<nn + 1])) =
      length (prdptr g)"
    by (rule length_classes)
  then have "length (concat (map (pres_row g) [0..<nn + 1])) = length (prdptr g)"
    unfolding map_eq by (simp only: map_concat [symmetric] length_map)
  then show ?thesis
    using rows bad by (simp add: cpres_def g_def Let_def del: upt_Suc)
qed

end
