(* ===== verification/Ysets.thy ===== *)
theory Ysets
  imports Ygram
begin

text \<open>
  Lookahead sets of \<^verbatim>\<open>unix/boot/xyacc\<close>: bit vectors of \<^verbatim>\<open>tbitset\<close> words with the macros
  \<^verbatim>\<open>BIT\<close> and \<^verbatim>\<open>SETBIT\<close> of \<^verbatim>\<open>dextern.h\<close>, the union that reports whether it added
  something (\<open>setunion\<close>) and the table of distinct sets (\<open>flset\<close>) of \<^verbatim>\<open>y1.c\<close>.  The
  locale \<open>set_union\<close> states what the two fixpoint computations of \<^verbatim>\<open>y1.c\<close> rely on;
  it is interpreted on \<open>setunion\<close>.
\<close>

type_synonym lset = "32 word list"

definition BIT :: "lset \<Rightarrow> nat \<Rightarrow> bool" where
  "BIT a i \<longleftrightarrow> and (a ! (i div 32)) (push_bit (i mod 32) 1) \<noteq> 0"

definition SETBIT :: "lset \<Rightarrow> nat \<Rightarrow> lset option" where
  "SETBIT a i = do {
     w \<leftarrow> ent a (i div 32);
     Some (a[i div 32 := or w (push_bit (i mod 32) 1)])
   }"

fun setunion :: "lset \<Rightarrow> lset \<Rightarrow> lset \<times> bool" where
  "setunion (x # a) (y # b) =
    (let (a', sub) = setunion a b in (or x y # a', or x y \<noteq> x \<or> sub))"
| "setunion a b = (a, False)"

text \<open>The tokens of a set.\<close>

definition members :: "lset \<Rightarrow> nat set" where
  "members a = {i. i < 32 * length a \<and> BIT a i}"

lemma members_list: "members a = set (filter (BIT a) [0..<32 * length a])"
  by (auto simp: members_def)

subsection \<open>Bits\<close>

lemma BIT_bit: "BIT a i \<longleftrightarrow> bit (a ! (i div 32)) (i mod 32)"
  by (simp only: BIT_def bit_iff_and_push_bit_not_eq_0)

lemma members_bit: "members a = {i. i < 32 * length a \<and> bit (a ! (i div 32)) (i mod 32)}"
  by (simp add: members_def BIT_bit)

lemma members_lt: "i \<in> members a \<Longrightarrow> i < 32 * length a"
  by (simp add: members_def)

lemma finite_members [simp]: "finite (members a)"
  by (simp add: members_def)

lemma card_members: "card (members a) \<le> 32 * length a"
  using card_mono [of "{..<32 * length a}" "members a"] by (auto simp: members_def)

lemma word_of_members:
  "k < length a \<Longrightarrow> n < 32 \<Longrightarrow> bit (a ! k) n \<longleftrightarrow> 32 * k + n \<in> members a"
  by (auto simp: members_bit)

lemma lset_eqI:
  assumes "length a = length b" "members a = members b"
  shows "a = b"
proof (rule nth_equalityI [OF assms(1)])
  fix k assume k: "k < length a"
  show "a ! k = b ! k"
  proof (rule bit_word_eqI)
    fix n assume "n < LENGTH(32)"
    then show "bit (a ! k) n = bit (b ! k) n"
      using word_of_members [of k a n] word_of_members [of k b n] k assms by simp
  qed
qed

lemma SETBIT_Some:
  assumes "i < 32 * length a"
  shows "\<exists>a'. SETBIT a i = Some a' \<and> length a' = length a \<and> members a' = insert i (members a)"
proof -
  let ?a = "a[i div 32 := or (a ! (i div 32)) (push_bit (i mod 32) 1)]"
  have i: "i div 32 < length a" using assms by (simp add: less_mult_imp_div_less mult.commute)
  have "bit (?a ! (j div 32)) (j mod 32) \<longleftrightarrow> j = i \<or> bit (a ! (j div 32)) (j mod 32)"
    if "j < 32 * length a" for j
  proof (cases "j div 32 = i div 32")
    case True
    have "j = i \<longleftrightarrow> j mod 32 = i mod 32" using True by (metis div_mult_mod_eq)
    then show ?thesis using True i by (auto simp: bit_simps)
  qed auto
  then have "members ?a = insert i (members a)" using assms by (auto simp: members_bit)
  then show ?thesis using i by (simp add: SETBIT_def)
qed

lemma members_zero [simp]: "members (replicate n 0) = {}"
proof -
  have "i div 32 < n" if "i < n * 32" for i using that by (simp add: less_mult_imp_div_less)
  then show ?thesis by (auto simp: members_bit mult.commute)
qed

subsection \<open>Union\<close>

lemma length_setunion [simp]: "length (fst (setunion a b)) = length a"
  by (induction a b rule: setunion.induct) (auto split: prod.splits)

lemma setunion_nth:
  "k < length a \<Longrightarrow> fst (setunion a b) ! k = (if k < length b then or (a ! k) (b ! k) else a ! k)"
  by (induction a b arbitrary: k rule: setunion.induct) (auto split: prod.splits nat.splits simp: nth_Cons)

lemma setunion_same: "\<not> snd (setunion a b) \<Longrightarrow> fst (setunion a b) = a"
  by (induction a b rule: setunion.induct) (auto split: prod.splits)

lemma setunion_changed: "snd (setunion a b) \<Longrightarrow> fst (setunion a b) \<noteq> a"
  by (induction a b rule: setunion.induct) (auto split: prod.splits)

lemma members_setunion:
  "members (fst (setunion a b)) = members a \<union> (members b \<inter> {..<32 * length a})"
proof -
  have "i div 32 < length c \<longleftrightarrow> i < 32 * length c" for i and c :: lset
    by (simp add: div_less_iff_less_mult mult.commute)
  then show ?thesis
    by (auto simp: members_bit setunion_nth bit_simps split: if_splits)
qed

lemma snd_setunion: "snd (setunion a b) \<longleftrightarrow> \<not> members b \<inter> {..<32 * length a} \<subseteq> members a"
proof
  assume s: "snd (setunion a b)"
  show "\<not> members b \<inter> {..<32 * length a} \<subseteq> members a"
  proof
    assume "members b \<inter> {..<32 * length a} \<subseteq> members a"
    then have "fst (setunion a b) = a"
      by (intro lset_eqI) (auto simp: members_setunion)
    with setunion_changed [OF s] show False by simp
  qed
next
  assume n: "\<not> members b \<inter> {..<32 * length a} \<subseteq> members a"
  show "snd (setunion a b)"
  proof (rule ccontr)
    assume "\<not> snd (setunion a b)"
    from setunion_same [OF this] n members_setunion [of a b] show False by auto
  qed
qed

text \<open>The room left in a set bounds the number of times it can change.\<close>

definition room :: "lset \<Rightarrow> nat" where
  "room a = 32 * length a - card (members a)"

lemma room_setunion_le: "room (fst (setunion a b)) \<le> room a"
  unfolding room_def length_setunion
  by (rule diff_le_mono2, rule card_mono) (auto simp: members_setunion)

lemma room_setunion_less:
  assumes "snd (setunion a b)"
  shows "room (fst (setunion a b)) < room a"
proof -
  have "members a \<subset> members (fst (setunion a b))"
    using assms by (auto simp: members_setunion snd_setunion)
  then have "card (members a) < card (members (fst (setunion a b)))"
    by (simp add: psubset_card_mono)
  then show ?thesis using card_members [of "fst (setunion a b)"] by (simp add: room_def)
qed

subsection \<open>The interface\<close>

text \<open>A family of sets and the merge of one into another, reporting a change.\<close>

locale set_union =
  fixes ok :: "'a \<Rightarrow> bool" and elems :: "'a \<Rightarrow> 'b set" and merge :: "'a \<Rightarrow> 'a \<Rightarrow> 'a \<times> bool"
  assumes merge_ok: "ok a \<Longrightarrow> ok b \<Longrightarrow> ok (fst (merge a b))"
    and merge_elems: "ok a \<Longrightarrow> ok b \<Longrightarrow> elems (fst (merge a b)) = elems a \<union> elems b"
    and merge_changed: "ok a \<Longrightarrow> ok b \<Longrightarrow> snd (merge a b) \<longleftrightarrow> \<not> elems b \<subseteq> elems a"
    and merge_same: "\<not> snd (merge a b) \<Longrightarrow> fst (merge a b) = a"

text \<open>A pass over a list of inclusions: merge the second set into the first, for each.\<close>

primrec unite :: "('a \<Rightarrow> 'a \<Rightarrow> 'a \<times> bool) \<Rightarrow> (nat \<times> nat) list \<Rightarrow> 'a list \<Rightarrow> 'a list \<times> bool" where
  "unite mg [] L = (L, False)"
| "unite mg (e # es) L =
    (let r = mg (L ! fst e) (L ! snd e); r' = unite mg es (L[fst e := fst r])
     in (fst r', snd r \<or> snd r'))"

lemma unite_append:
  "unite mg (es @ fs) L =
    (let r = unite mg es L; r' = unite mg fs (fst r) in (fst r', snd r \<or> snd r'))"
  by (induction es arbitrary: L) (auto simp: Let_def)

lemma length_unite [simp]: "length (fst (unite mg es L)) = length L"
  by (induction es arbitrary: L) (auto simp: Let_def)

definition in_range :: "nat \<Rightarrow> (nat \<times> nat) list \<Rightarrow> bool" where
  "in_range n es \<longleftrightarrow> (\<forall>e \<in> set es. fst e < n \<and> snd e < n)"

context set_union
begin

lemma update_ok: "\<forall>a \<in> set L. ok a \<Longrightarrow> ok x \<Longrightarrow> \<forall>a \<in> set (L[i := x]). ok a"
  by (metis insert_iff set_update_subset_insert subsetD)

lemma unite_ok:
  "\<forall>a \<in> set L. ok a \<Longrightarrow> in_range (length L) es \<Longrightarrow> \<forall>a \<in> set (fst (unite merge es L)). ok a"
proof (induction es arbitrary: L)
  case (Cons e es)
  then have "ok (fst (merge (L ! fst e) (L ! snd e)))"
    by (intro merge_ok) (auto simp: in_range_def)
  with Cons.prems(1) have "\<forall>a \<in> set (L[fst e := fst (merge (L ! fst e) (L ! snd e))]). ok a"
    by (rule update_ok)
  with Cons show ?case by (simp add: Let_def in_range_def)
qed simp

lemma unite_mono:
  "\<forall>a \<in> set L. ok a \<Longrightarrow> in_range (length L) es \<Longrightarrow> i < length L \<Longrightarrow>
    elems (L ! i) \<subseteq> elems (fst (unite merge es L) ! i)"
proof (induction es arbitrary: L)
  case (Cons e es)
  let ?x = "fst (merge (L ! fst e) (L ! snd e))"
  have o: "ok (L ! fst e)" "ok (L ! snd e)" using Cons.prems by (auto simp: in_range_def)
  have "elems (L ! i) \<subseteq> elems (L[fst e := ?x] ! i)"
    using merge_elems [OF o] Cons.prems(3) by (cases "i = fst e") auto
  also have "\<dots> \<subseteq> elems (fst (unite merge es (L[fst e := ?x])) ! i)"
    using Cons.prems update_ok [OF Cons.prems(1) merge_ok [OF o]]
    by (intro Cons.IH) (auto simp: in_range_def)
  finally show ?case by (simp add: Let_def)
qed simp

lemma unite_sound:
  assumes "\<forall>a \<in> set L. ok a" "in_range (length L) es"
    and "\<forall>i < length L. elems (L ! i) \<subseteq> F i" "\<forall>e \<in> set es. F (snd e) \<subseteq> F (fst e)"
  shows "\<forall>i < length L. elems (fst (unite merge es L) ! i) \<subseteq> F i"
  using assms
proof (induction es arbitrary: L)
  case (Cons e es)
  let ?x = "fst (merge (L ! fst e) (L ! snd e))"
  have o: "ok (L ! fst e)" "ok (L ! snd e)" using Cons.prems by (auto simp: in_range_def)
  have "elems ?x \<subseteq> F (fst e)"
  proof -
    have "fst e < length L" "snd e < length L" using Cons.prems(2) by (auto simp: in_range_def)
    then have "elems (L ! fst e) \<subseteq> F (fst e)" "elems (L ! snd e) \<subseteq> F (snd e)"
      using Cons.prems(3) by blast+
    moreover have "F (snd e) \<subseteq> F (fst e)" using Cons.prems(4) by simp
    ultimately show ?thesis unfolding merge_elems [OF o] by blast
  qed
  then have "\<forall>i < length L. elems (L[fst e := ?x] ! i) \<subseteq> F i"
    using Cons.prems(2,3) by (simp add: in_range_def nth_list_update)
  then have "\<forall>i < length (L[fst e := ?x]). elems (fst (unite merge es (L[fst e := ?x])) ! i) \<subseteq> F i"
    using Cons.prems update_ok [OF Cons.prems(1) merge_ok [OF o]]
    by (intro Cons.IH) (auto simp: in_range_def)
  then show ?case by (simp add: Let_def)
qed simp

lemma unite_stable:
  assumes "\<forall>a \<in> set L. ok a" "in_range (length L) es" "\<not> snd (unite merge es L)"
  shows "fst (unite merge es L) = L \<and> (\<forall>e \<in> set es. elems (L ! snd e) \<subseteq> elems (L ! fst e))"
  using assms
proof (induction es)
  case (Cons e es)
  have o: "ok (L ! fst e)" "ok (L ! snd e)" using Cons.prems by (auto simp: in_range_def)
  have ns: "\<not> snd (merge (L ! fst e) (L ! snd e))" using Cons.prems(3) by (simp add: Let_def)
  from merge_same [OF this] have "L[fst e := fst (merge (L ! fst e) (L ! snd e))] = L" by simp
  then have "\<not> snd (unite merge es L)" and f: "fst (unite merge (e # es) L) = fst (unite merge es L)"
    using Cons.prems(3) by (simp_all add: Let_def)
  moreover from Cons.prems(2) have "in_range (length L) es" by (simp add: in_range_def)
  ultimately have "fst (unite merge es L) = L \<and> (\<forall>e \<in> set es. elems (L ! snd e) \<subseteq> elems (L ! fst e))"
    using Cons.IH Cons.prems(1) by blast
  then show ?case using merge_changed [OF o] ns f by simp
qed simp

end

interpretation lsets: set_union "\<lambda>a. length a = n" members setunion for n
proof
  fix a b :: lset assume l: "length a = n" "length b = n"
  then have "members b \<inter> {..<32 * length a} = members b" by (auto dest: members_lt)
  then show "members (fst (setunion a b)) = members a \<union> members b"
    "snd (setunion a b) \<longleftrightarrow> \<not> members b \<subseteq> members a"
    by (simp_all add: members_setunion snd_setunion)
qed (auto simp: setunion_same)

lemma unite_room:
  assumes "\<forall>e \<in> set es. fst e < length L"
  shows "sum_list (map room (fst (unite setunion es L))) \<le> sum_list (map room L) \<and>
    (snd (unite setunion es L) \<longrightarrow> sum_list (map room (fst (unite setunion es L))) < sum_list (map room L))"
  using assms
proof (induction es arbitrary: L)
  case (Cons e es)
  let ?r = "setunion (L ! fst e) (L ! snd e)" and ?S = "\<lambda>L. sum_list (map room L)"
  let ?L = "L[fst e := fst ?r]"
  have e: "fst e < length L" using Cons.prems by simp
  have "?S ?L + room (L ! fst e) = ?S L + room (fst ?r)"
    using e elem_le_sum_list [of "fst e" "map room L"]
    by (simp add: map_update sum_list_update)
  then have "?S ?L \<le> ?S L" "snd ?r \<Longrightarrow> ?S ?L < ?S L"
    using room_setunion_le [of "L ! fst e" "L ! snd e"]
      room_setunion_less [of "L ! fst e" "L ! snd e"] by auto
  moreover have "?S (fst (unite setunion es ?L)) \<le> ?S ?L \<and>
      (snd (unite setunion es ?L) \<longrightarrow> ?S (fst (unite setunion es ?L)) < ?S ?L)"
    using Cons by simp
  ultimately show ?case by (auto simp: Let_def)
qed simp

subsection \<open>The table of distinct sets\<close>

text \<open>The search runs down from the newest entry; a full table (\<^verbatim>\<open>exp_lkst\<close>) is not modelled.\<close>

primrec lk_search :: "lset list \<Rightarrow> lset \<Rightarrow> nat \<Rightarrow> nat option" where
  "lk_search lk p 0 = None"
| "lk_search lk p (Suc q) = (if lk ! q = p then Some q else lk_search lk p q)"

definition flset :: "nat \<Rightarrow> lset list \<Rightarrow> lset \<Rightarrow> (lset list \<times> nat) option" where
  "flset lsz lk p =
    (case lk_search lk p (length lk) of
       Some q \<Rightarrow> Some (lk, q)
     | None \<Rightarrow> if length lk + 1 \<ge> lsz then None else Some (lk @ [p], length lk))"

lemma lk_search_Some: "lk_search lk p n = Some q \<Longrightarrow> q < n \<and> lk ! q = p"
  by (induction n) (auto split: if_splits)

lemma lk_search_None: "lk_search lk p n = None \<longleftrightarrow> (\<forall>q < n. lk ! q \<noteq> p)"
  by (induction n) (auto simp: less_Suc_eq)

lemma flset_spec:
  assumes "flset lsz lk p = Some (lk', q)" "distinct lk"
  shows "q < length lk' \<and> lk' ! q = p \<and> distinct lk' \<and> set lk' = insert p (set lk) \<and> (\<exists>x. lk' = lk @ x)"
proof (cases "lk_search lk p (length lk)")
  case None
  then have "p \<notin> set lk" by (auto simp: lk_search_None in_set_conv_nth)
  with None assms show ?thesis by (auto simp: flset_def nth_append split: if_splits)
next
  case (Some r)
  with lk_search_Some [OF Some] assms show ?thesis by (auto simp: flset_def)
qed

lemma flset_total: "length lk + 1 < lsz \<Longrightarrow> \<exists>lk' q. flset lsz lk p = Some (lk', q) \<and> length lk' \<le> length lk + 1"
  by (auto simp: flset_def split: option.splits)

end
