(* ===== verification/Yfirst.thy ===== *)
theory Yfirst
  imports Yempty Ysets
begin

text \<open>
  \<^verbatim>\<open>cpfir\<close> of \<^verbatim>\<open>unix/boot/xyacc/y1.c\<close>: the set of tokens that can begin a string
  derived from each nonterminal.  The initial fill takes the token after a prefix of
  nullable nonterminals, the loop then merges sets along those prefixes until nothing
  changes; it ends because every turn adds a bit to some set.  The result is FIRST as the
  derivation relation defines it.
\<close>

subsection \<open>Definitions\<close>

text \<open>The initial fill from one production, read from its first symbol on.\<close>

fun first_fill :: "int list \<Rightarrow> lset \<Rightarrow> int list \<Rightarrow> lset option" where
  "first_fill pe l [] = None"
| "first_fill pe l (ch # m) =
    (if ch \<le> 0 then Some l
     else if ch < NTBASE then SETBIT l (nat ch)
     else do {
       e \<leftarrow> ent pe (ntix ch);
       if e = 0 then Some l else first_fill pe l m
     })"

fun fill_row :: "int list \<Rightarrow> int list \<Rightarrow> lset \<Rightarrow> nat list \<Rightarrow> lset option" where
  "fill_row pe m l [] = Some l"
| "fill_row pe m l (s # ss) = do {
     l' \<leftarrow> first_fill pe l (drop s m);
     fill_row pe m l' ss
   }"

text \<open>One production of the transitive pass, then the rows, then the nonterminals.\<close>

fun trans_prod :: "int list \<Rightarrow> lset list \<Rightarrow> nat \<Rightarrow> int list \<Rightarrow> (lset list \<times> bool) option" where
  "trans_prod pe L i [] = None"
| "trans_prod pe L i (s # m) =
    (if s < NTBASE then Some (L, False)
     else do {
       a \<leftarrow> ent L i;
       b \<leftarrow> ent L (ntix s);
       e \<leftarrow> ent pe (ntix s);
       let u = setunion a b;
       if e = 0 then Some (L[i := fst u], snd u)
       else do {
         r \<leftarrow> trans_prod pe (L[i := fst u]) i m;
         Some (fst r, snd u \<or> snd r)
       }
     })"

fun trans_row :: "int list \<Rightarrow> int list \<Rightarrow> lset list \<Rightarrow> nat \<Rightarrow> nat list \<Rightarrow> (lset list \<times> bool) option" where
  "trans_row pe m L i [] = Some (L, False)"
| "trans_row pe m L i (s # ss) = do {
     r \<leftarrow> trans_prod pe L i (drop s m);
     r' \<leftarrow> trans_row pe m (fst r) i ss;
     Some (fst r', snd r \<or> snd r')
   }"

fun trans_pass :: "int list \<Rightarrow> int list \<Rightarrow> nat list list \<Rightarrow> lset list \<Rightarrow> nat list \<Rightarrow> (lset list \<times> bool) option" where
  "trans_pass pe m pres L [] = Some (L, False)"
| "trans_pass pe m pres L (i # is) = do {
     row \<leftarrow> ent pres i;
     r \<leftarrow> trans_row pe m L i row;
     r' \<leftarrow> trans_pass pe m pres (fst r) is;
     Some (fst r', snd r \<or> snd r')
   }"

text \<open>A pass is a list of merges, and so the room left in the sets shrinks with every change.\<close>

abbreviation total_room :: "lset list \<Rightarrow> nat" where "total_room L \<equiv> sum_list (map room L)"

definition shrinks :: "lset list \<Rightarrow> (lset list \<times> bool) option \<Rightarrow> bool" where
  "shrinks L r \<longleftrightarrow> (\<forall>L' c. r = Some (L', c) \<longrightarrow>
    total_room L' \<le> total_room L \<and> (c \<longrightarrow> total_room L' < total_room L))"

lemma shrinks_step: "i < length L \<Longrightarrow> shrinks L (Some (L[i := fst (setunion (L ! i) (L ! j))], snd (setunion (L ! i) (L ! j))))"
  using unite_room [of "[(i, j)]" L] by (simp add: shrinks_def Let_def)

lemma shrinks_seq:
  assumes "shrinks L (Some (L', c))" "shrinks L' (Some (L'', d))"
  shows "shrinks L (Some (L'', c \<or> d))"
  using assms by (auto simp: shrinks_def)

lemma shrinks_trans_prod: "trans_prod pe L i m = Some r \<Longrightarrow> shrinks L (Some r)"
proof (induction pe L i m arbitrary: r rule: trans_prod.induct)
  case (2 pe L i s m)
  show ?case
  proof (cases "s < NTBASE")
    case True
    then show ?thesis using 2(2) by (auto simp: shrinks_def)
  next
    case False
    then obtain "i < length L" "ntix s < length L" "ntix s < length pe"
      using 2(2) by (auto simp: ent_eq_Some split: Option.bind_splits)
    note i = this
    let ?u = "setunion (L ! i) (L ! ntix s)"
    show ?thesis
    proof (cases "pe ! ntix s = 0")
      case True
      then show ?thesis using False i 2(2) shrinks_step [OF i(1)] by (auto simp: Let_def)
    next
      case nz: False
      then obtain r' where r': "trans_prod pe (L[i := fst ?u]) i m = Some r'" "r = (fst r', snd ?u \<or> snd r')"
        using False i 2(2) by (auto simp: Let_def split: Option.bind_splits)
      have "shrinks (L[i := fst ?u]) (Some r')"
        using 2(1) [OF False ent_Some [OF i(1)] ent_Some [OF i(2)] ent_Some [OF i(3)] refl nz r'(1)] .
      then show ?thesis using shrinks_seq [OF shrinks_step [OF i(1)], of "ntix s" "fst r'" "snd r'"] r'(2)
        by simp
    qed
  qed
qed simp

lemma shrinks_trans_row: "trans_row pe m L i ss = Some r \<Longrightarrow> shrinks L (Some r)"
proof (induction ss arbitrary: L r)
  case (Cons s ss)
  then obtain a b where "trans_prod pe L i (drop s m) = Some a" "trans_row pe m (fst a) i ss = Some b"
    "r = (fst b, snd a \<or> snd b)" by (auto split: Option.bind_splits)
  with Cons.IH [of "fst a" b] shrinks_trans_prod [of pe L i "drop s m" a]
  show ?case using shrinks_seq [of L "fst a" "snd a" "fst b" "snd b"] by simp
qed (simp add: shrinks_def)

lemma shrinks_trans_pass: "trans_pass pe m pres L is = Some r \<Longrightarrow> shrinks L (Some r)"
proof (induction "is" arbitrary: L r)
  case (Cons i "is")
  then obtain row a b where "trans_row pe m L i row = Some a" "trans_pass pe m pres (fst a) is = Some b"
    "r = (fst b, snd a \<or> snd b)" by (auto split: Option.bind_splits)
  with Cons.IH [of "fst a" b] shrinks_trans_row [of pe m L i row a]
  show ?case using shrinks_seq [of L "fst a" "snd a" "fst b" "snd b"] by simp
qed (simp add: shrinks_def)

text \<open>\<^verbatim>\<open>while (changes)\<close>.\<close>

function trans_loop :: "int list \<Rightarrow> int list \<Rightarrow> nat list list \<Rightarrow> nat \<Rightarrow> lset list \<Rightarrow> lset list option" where
  "trans_loop pe m pres nn L =
    (case trans_pass pe m pres L [0..<nn + 1] of
       None \<Rightarrow> None
     | Some (L', changes) \<Rightarrow> if changes then trans_loop pe m pres nn L' else Some L')"
  by pat_completeness auto

termination
  by (relation "measure (\<lambda>(pe, m, pres, nn, L). total_room L)")
    (auto dest!: shrinks_trans_pass simp: shrinks_def)

declare trans_loop.simps [simp del]

fun intern :: "nat \<Rightarrow> lset list \<Rightarrow> lset list \<Rightarrow> (lset list \<times> nat list) option" where
  "intern lsz lk [] = Some (lk, [])"
| "intern lsz lk (l # ls) = do {
     r \<leftarrow> flset lsz lk l;
     r' \<leftarrow> intern lsz (fst r) ls;
     Some (fst r', snd r # snd r')
   }"

definition cpfir :: "grammar \<Rightarrow> int list \<Rightarrow> nat list list \<Rightarrow> lset list \<Rightarrow> (lset list \<times> nat list) option" where
  "cpfir g pe pres lk = do {
     L \<leftarrow> those (map (\<lambda>i. do { row \<leftarrow> ent pres i; fill_row pe (gmem g) (aryfil (tbitset g) 0) row })
            [0..<nnonter g + 1]);
     L' \<leftarrow> trans_loop pe (gmem g) pres (nnonter g) L;
     intern (lsetsize g) lk L'
   }"

subsection \<open>FIRST\<close>

definition First :: "rule list \<Rightarrow> int \<Rightarrow> nat set" where
  "First rs A = {nat t | t w. is_token t \<and> derives rs [A] (t # w)}"

inductive begins :: "rule list \<Rightarrow> int \<Rightarrow> int \<Rightarrow> bool" for rs where
  begins: "(A, u @ s # v) \<in> set rs \<Longrightarrow> \<forall>n \<in> set u. nullable rs n \<Longrightarrow> is_token t \<Longrightarrow>
    s = t \<or> begins rs s t \<Longrightarrow> begins rs A t"

lemma begins_token: "begins rs A t \<Longrightarrow> is_token t"
  by (induction rule: begins.induct)

lemma derives_nulls: "\<forall>n \<in> set u. nullable rs n \<Longrightarrow> derives rs u []"
proof (induction u)
  case (Cons n u)
  then show ?case using derives_append [of rs "[n]" "[]" u "[]"] by (simp add: nullable_def)
qed simp

lemma begins_derives: "begins rs A t \<Longrightarrow> \<exists>w. derives rs [A] (t # w)"
proof (induction rule: begins.induct)
  case (begins A u s v t)
  obtain w where w: "derives rs [s] (t # w)" using begins(4) by blast
  have "derives rs (u @ [s] @ v) ([] @ (t # w) @ v)"
    by (intro derives_append derives_nulls begins(2) w) simp
  then show ?case
    using derives_rule [OF begins(1)] by (auto intro!: exI [of _ "w @ v"])
qed

lemma derives_begins:
  assumes "derives rs x (t # w)" "is_token t"
  shows "\<exists>u s v. x = u @ s # v \<and> (\<forall>n \<in> set u. nullable rs n) \<and> (s = t \<or> begins rs s t)"
  using assms(1)
proof (induction rule: converse_rtranclp_induct)
  case base
  show ?case by (intro exI [of _ "[]"] exI [of _ t] exI [of _ w]) simp
next
  case (step x y)
  from step(1) obtain A r p q where A: "(A, r) \<in> set rs" "x = p @ A # q" "y = p @ r @ q"
    by (auto elim: dstep.cases)
  from step.IH obtain u s v where u: "y = u @ s # v" "\<forall>n \<in> set u. nullable rs n" "s = t \<or> begins rs s t"
    by blast
  have "p @ r @ q = u @ s # v" using A(3) u(1) by simp
  then consider p' where "p = u @ s # p'"
    | u' v' where "u = p @ u'" "r = u' @ s # v'"
    | u' where "u = p @ r @ u'" "q = u' @ s # v"
  proof -
    assume eq: "p @ r @ q = u @ s # v"
    consider us where "u @ us = p" "us @ r @ q = s # v" | us where "u = p @ us" "r @ q = us @ s # v"
      using eq by (auto simp: append_eq_append_conv2)
    then show thesis
    proof cases
      case 1
      show thesis
      proof (cases us)
        case Nil
        with 1(2) show thesis
          by (cases r) (use 1(1) that(2,3) Nil in auto)
      next
        case (Cons a us')
        with 1 that(1) show thesis by auto
      qed
    next
      case 2
      consider vs where "us @ vs = r" "vs @ q = s # v" | vs where "us = r @ vs" "q = vs @ s # v"
        using 2(2) by (auto simp: append_eq_append_conv2)
      then show thesis
      proof cases
        case 1
        show thesis
        proof (cases vs)
          case Nil
          with 1 2 that(3) [of "[]"] show thesis by auto
        next
          case (Cons a vs')
          with 1 2 that(2) show thesis by auto
        qed
      next
        case 3: 2
        with 2 that(3) show thesis by auto
      qed
    qed
  qed
  then show ?case
  proof cases
    case 1
    with A(2) u(2,3) show ?thesis by (intro exI [of _ u] exI [of _ s] exI [of _ "p' @ A # q"]) simp
  next
    case 2
    have "begins rs A t" using A(1) 2 u(2,3) assms(2) by (intro begins [of A u' s v']) auto
    with A(2) u(2) 2 show ?thesis by (intro exI [of _ p] exI [of _ A] exI [of _ q]) simp
  next
    case 3
    have "derives rs r []" using u(2) 3 by (intro derives_nulls) auto
    with derives_rule [OF A(1)] have "nullable rs A" unfolding nullable_def by (rule rtranclp_trans)
    with A(2) u(2,3) 3 show ?thesis by (intro exI [of _ "p @ A # u'"] exI [of _ s] exI [of _ v]) auto
  qed
qed

lemma First_begins: "NTBASE \<le> A \<Longrightarrow> First rs A = {nat t | t. begins rs A t}"
proof -
  assume A: "NTBASE \<le> A"
  have "begins rs A t" if "is_token t" "derives rs [A] (t # w)" for t w
  proof -
    from derives_begins [OF that(2,1)] obtain u s v where
      "[A] = u @ s # v" "s = t \<or> begins rs s t" by blast
    then have "s = A" by (cases u) auto
    with \<open>s = t \<or> begins rs s t\<close> A that(1) show ?thesis by (auto simp: is_token_def)
  qed
  then show ?thesis
    unfolding First_def using begins_derives begins_token by blast
qed

subsection \<open>The right hand sides in memory\<close>

definition rhs_at :: "int list \<Rightarrow> nat \<Rightarrow> int list" where
  "rhs_at m s = takeWhile (\<lambda>x. 0 < x) (drop s m)"

definition good_item :: "nat \<Rightarrow> int list \<Rightarrow> nat \<Rightarrow> bool" where
  "good_item nn m s \<longleftrightarrow> (\<exists>t rest. drop s m = rhs_at m s @ t # rest \<and> t \<le> 0) \<and>
    (\<forall>x \<in> set (rhs_at m s). is_token x \<or> is_nonterm nn x)"

lemma good_itemI:
  assumes "drop s m = r @ t # rest" "t \<le> 0" "\<forall>x \<in> set r. is_token x \<or> is_nonterm nn x"
  shows "rhs_at m s = r" "good_item nn m s"
proof -
  have "\<forall>x \<in> set r. 0 < x" using assms(3) by (auto simp: is_token_def is_nonterm_def)
  with assms(1,2) show r: "rhs_at m s = r"
    by (simp add: rhs_at_def takeWhile_append2)
  show "good_item nn m s" unfolding good_item_def r using assms by blast
qed

lemma pres_row_good:
  fixes tb lsz
  assumes wf: "wf_rules st nn rs" and s: "s \<in> set (pres_row (setup_rules st nn tb lsz rs) i)"
  defines "m \<equiv> gmem (setup_rules st nn tb lsz rs)"
  shows "good_item nn m s \<and> (NTBASE + int i, rhs_at m s) \<in> set (all_rules st rs)"
proof -
  from s obtain p where p: "s = Suc p" "p = 0 \<or> p \<in> set (rule_ptrs 4 rs)" "m ! p = NTBASE + int i"
    unfolding pres_row_def m_def setup_rules_sel by (auto simp del: filter.simps)
  show ?thesis
  proof (cases "p = 0")
    case True
    have d: "drop s m = [st, 1] @ 0 # lay_rules 1 rs" using p(1) True by (simp add: m_def setup_rules_def)
    have "\<forall>x \<in> set [st, 1]. is_token x \<or> is_nonterm nn x"
      using wf by (simp add: wf_rules_def is_token_def)
    from good_itemI [OF d order_refl this] p(3) True show ?thesis
      by (simp add: all_rules_def m_def setup_rules_def)
  next
    case False
    with p(2) have "p \<in> set (rule_ptrs 4 rs)" by simp
    then obtain A r where l: "(A, r) \<in> set rs" "laid m p (A, r)" unfolding m_def by (rule laid_ptr)
    from l(2) obtain t rest where d: "drop (Suc p) m = r @ t # rest" "t < 0" "m ! p = A"
      by (rule laid_D)
    from good_itemI [OF d(1) less_imp_le [OF d(2)] wf_rulesD(3) [OF wf l(1)]] l(1) d(3) p(1,3)
    show ?thesis by (simp add: all_rules_def)
  qed
qed

lemma pres_row_rule:
  fixes tb lsz
  assumes wf: "wf_rules st nn rs" and r: "(NTBASE + int i, r) \<in> set (all_rules st rs)"
  defines "g \<equiv> setup_rules st nn tb lsz rs"
  obtains s where "s \<in> set (pres_row g i)" "rhs_at (gmem g) s = r"
proof -
  consider "i = 0" "r = [st, 1]" | "(NTBASE + int i, r) \<in> set rs" using r by (auto simp: all_rules_def)
  then show thesis
  proof cases
    case 1
    have d: "drop 1 (gmem g) = [st, 1] @ 0 # lay_rules 1 rs" by (simp add: g_def setup_rules_def)
    have "\<forall>x \<in> set [st, 1]. is_token x \<or> is_nonterm nn x"
      using wf by (simp add: wf_rules_def is_token_def)
    from good_itemI(1) [OF d order_refl this] 1 that [of 1]
    show thesis by (simp add: pres_row_def g_def setup_rules_def)
  next
    case 2
    then obtain p where p: "p \<in> set (rule_ptrs 4 rs)" "laid (gmem g) p (NTBASE + int i, r)"
      unfolding g_def by (rule laid_rule)
    from p(2) obtain t rest where d: "drop (Suc p) (gmem g) = r @ t # rest" "t < 0"
      "gmem g ! p = NTBASE + int i"
      by (rule laid_D)
    from good_itemI(1) [OF d(1) less_imp_le [OF d(2)] wf_rulesD(3) [OF wf 2]] p(1) d(3)
    show thesis by (intro that [of "Suc p"]) (auto simp: pres_row_def g_def)
  qed
qed

lemma added_not_in_rhs:
  assumes wf: "wf_rules st nn rs" and r: "(A, r) \<in> set (all_rules st rs)" and x: "x \<in> set r"
  shows "is_token x \<or> is_nonterm nn x"
  using assms by (auto simp: all_rules_def wf_rules_def is_token_def)

lemma nullable_all_rules:
  assumes wf: "wf_rules st nn rs"
  shows "nullable (all_rules st rs) A \<longleftrightarrow> marked False rs A"
proof -
  have "\<forall>(B, r) \<in> set (all_rules st rs). \<forall>s \<in> set r. s < NTBASE \<longrightarrow> is_token s"
    using added_not_in_rhs [OF wf] by (fastforce simp: is_nonterm_def)
  from nullable_marked [OF this] have "nullable (all_rules st rs) A \<longleftrightarrow> marked False (all_rules st rs) A" .
  also have "\<dots> \<longleftrightarrow> marked False rs A"
  proof
    have one: "\<not> marked False (all_rules st rs) 1"
    proof
      assume "marked False (all_rules st rs) 1"
      then obtain r where "(1, r) \<in> set (all_rules st rs)" by (metis marked.cases)
      with wf_rulesD(1) [OF wf] show False by (fastforce simp: all_rules_def)
    qed
    assume "marked False (all_rules st rs) A"
    then show "marked False rs A"
    proof (induction rule: marked.induct)
      case (marked A r)
      then have "r \<noteq> [st, 1]" using one by auto
      then show ?case using marked by (intro marked.marked [of A r]) (auto simp: all_rules_def)
    qed
  next
    assume "marked False rs A"
    then show "marked False (all_rules st rs) A"
    proof (induction rule: marked.induct)
      case (marked A r)
      show ?case by (rule marked.marked [of A r]) (use marked in \<open>auto simp: all_rules_def\<close>)
    qed
  qed
  finally show ?thesis .
qed

subsection \<open>A pass is a list of merges\<close>

definition nt_null :: "int list \<Rightarrow> int \<Rightarrow> bool" where
  "nt_null pe x \<longleftrightarrow> NTBASE \<le> x \<and> pe ! ntix x \<noteq> 0"

fun visited :: "int list \<Rightarrow> int list \<Rightarrow> int list" where
  "visited pe [] = []"
| "visited pe (x # r) = (if x < NTBASE then [] else x # (if pe ! ntix x = 0 then [] else visited pe r))"

fun first_tok :: "int list \<Rightarrow> int list \<Rightarrow> int option" where
  "first_tok pe [] = None"
| "first_tok pe (x # r) = (if x < NTBASE then Some x else if pe ! ntix x = 0 then None else first_tok pe r)"

lemma prefix_Cons:
  "(\<exists>u v. x # r = u @ c # v \<and> (\<forall>y \<in> set u. Q y)) \<longleftrightarrow>
    x = c \<or> Q x \<and> (\<exists>u v. r = u @ c # v \<and> (\<forall>y \<in> set u. Q y))"
proof
  assume "x = c \<or> Q x \<and> (\<exists>u v. r = u @ c # v \<and> (\<forall>y \<in> set u. Q y))"
  then show "\<exists>u v. x # r = u @ c # v \<and> (\<forall>y \<in> set u. Q y)"
  proof (elim disjE conjE exE)
    assume "x = c" then show ?thesis by (intro exI [of _ "[]"] exI [of _ r]) simp
  next
    fix u v assume "Q x" "r = u @ c # v" "\<forall>y \<in> set u. Q y"
    then show ?thesis by (intro exI [of _ "x # u"] exI [of _ v]) simp
  qed
qed (auto simp: Cons_eq_append_conv)

text \<open>The symbol \<open>c\<close> after a prefix of nonterminals marked empty.\<close>

definition after_nulls :: "int list \<Rightarrow> int list \<Rightarrow> int \<Rightarrow> bool" where
  "after_nulls pe r c \<longleftrightarrow> (\<exists>u v. r = u @ c # v \<and> (\<forall>x \<in> set u. nt_null pe x))"

lemma after_nulls_simps [simp]:
  "\<not> after_nulls pe [] c"
  "after_nulls pe (x # r) c \<longleftrightarrow> x = c \<or> nt_null pe x \<and> after_nulls pe r c"
  unfolding after_nulls_def prefix_Cons by simp_all

lemma visited_iff: "c \<in> set (visited pe r) \<longleftrightarrow> NTBASE \<le> c \<and> after_nulls pe r c"
  by (induction r) (auto simp: nt_null_def)

lemma first_tok_iff: "first_tok pe r = Some c \<longleftrightarrow> c < NTBASE \<and> after_nulls pe r c"
  by (induction r) (auto simp: nt_null_def)

definition nts_lt :: "nat \<Rightarrow> int list \<Rightarrow> bool" where
  "nts_lt n r \<longleftrightarrow> (\<forall>x \<in> set r. NTBASE \<le> x \<longrightarrow> ntix x < n)"

lemma trans_prod_unite:
  assumes "nts_lt (length L) r" "nts_lt (length pe) r" "i < length L" "t < NTBASE"
  shows "trans_prod pe L i (r @ t # m) =
    Some (unite setunion (map (\<lambda>c. (i, ntix c)) (visited pe r)) L)"
  using assms by (induction r arbitrary: L) (auto simp: nts_lt_def Let_def)

definition row_edges :: "int list \<Rightarrow> int list \<Rightarrow> nat \<Rightarrow> nat list \<Rightarrow> (nat \<times> nat) list" where
  "row_edges pe m i ss = concat (map (\<lambda>s. map (\<lambda>c. (i, ntix c)) (visited pe (rhs_at m s))) ss)"

lemma good_nts_lt: "good_item nn m s \<Longrightarrow> nn < n \<Longrightarrow> nts_lt n (rhs_at m s)"
  by (fastforce simp: good_item_def nts_lt_def is_token_def is_nonterm_def)

lemma good_drop:
  assumes "good_item nn m s"
  obtains t rest where "drop s m = rhs_at m s @ t # rest" "t \<le> 0"
  using assms by (auto simp: good_item_def)

lemma trans_row_unite:
  assumes "\<forall>s \<in> set ss. good_item nn m s" "nn < length L" "nn < length pe" "i < length L"
  shows "trans_row pe m L i ss = Some (unite setunion (row_edges pe m i ss) L)"
  using assms
proof (induction ss arbitrary: L)
  case Nil
  then show ?case by (simp add: row_edges_def)
next
  case (Cons s ss)
  then have g: "good_item nn m s" by simp
  from g obtain t rest where d: "drop s m = rhs_at m s @ t # rest" "t \<le> 0" by (rule good_drop)
  have "trans_prod pe L i (drop s m) =
      Some (unite setunion (map (\<lambda>c. (i, ntix c)) (visited pe (rhs_at m s))) L)"
    unfolding d(1) using good_nts_lt [OF g] Cons.prems d(2) by (intro trans_prod_unite) auto
  then show ?case
    using Cons by (simp add: row_edges_def unite_append Let_def)
qed

definition edges :: "int list \<Rightarrow> int list \<Rightarrow> nat list list \<Rightarrow> nat list \<Rightarrow> (nat \<times> nat) list" where
  "edges pe m pres is = concat (map (\<lambda>i. row_edges pe m i (pres ! i)) is)"

lemma set_edges:
  "set (edges pe m pres is) =
    (\<Union>i \<in> set is. \<Union>s \<in> set (pres ! i). (\<lambda>c. (i, ntix c)) ` set (visited pe (rhs_at m s)))"
  by (simp add: edges_def row_edges_def)

lemma trans_pass_unite:
  assumes "\<forall>i \<in> set is. i < length pres \<and> i < length L \<and> (\<forall>s \<in> set (pres ! i). good_item nn m s)"
    and "nn < length L" "nn < length pe"
  shows "trans_pass pe m pres L is = Some (unite setunion (edges pe m pres is) L)"
  using assms
proof (induction "is" arbitrary: L)
  case (Cons i "is")
  then have "trans_row pe m L i (pres ! i) = Some (unite setunion (row_edges pe m i (pres ! i)) L)"
    by (intro trans_row_unite) auto
  then show ?case using Cons by (simp add: edges_def unite_append Let_def)
qed (simp add: edges_def)

subsection \<open>The fill\<close>

definition tokens_fit :: "nat \<Rightarrow> rule list \<Rightarrow> bool" where
  "tokens_fit tb rs \<longleftrightarrow> (\<forall>(A, r) \<in> set rs. \<forall>s \<in> set r. is_token s \<longrightarrow> nat s < 32 * tb)"

lemma first_fill_eq:
  assumes "\<forall>x \<in> set r. 0 < x" "nts_lt (length pe) r" "\<forall>x \<in> set r. is_token x \<longrightarrow> nat x < 32 * length l"
    and "t \<le> 0"
  shows "\<exists>l'. first_fill pe l (r @ t # m) = Some l' \<and> length l' = length l \<and>
    members l' = members l \<union> nat ` set_option (first_tok pe r)"
  using assms(1-3)
proof (induction r)
  case Nil
  then show ?case using assms(4) by simp
next
  case (Cons x r)
  show ?case
  proof (cases "x < NTBASE")
    case True
    then have "nat x < 32 * length l" using Cons.prems by (auto simp: is_token_def)
    from SETBIT_Some [OF this] True Cons.prems(1) show ?thesis by auto
  next
    case False
    then show ?thesis using Cons by (auto simp: nts_lt_def)
  qed
qed

lemma fill_row_eq:
  assumes "\<forall>s \<in> set ss. good_item nn m s \<and> (\<forall>x \<in> set (rhs_at m s). is_token x \<longrightarrow> nat x < 32 * length l)"
    and "nn < length pe"
  shows "\<exists>l'. fill_row pe m l ss = Some l' \<and> length l' = length l \<and>
    members l' = members l \<union> {nat c | c s. s \<in> set ss \<and> first_tok pe (rhs_at m s) = Some c}"
  using assms(1)
proof (induction ss arbitrary: l)
  case (Cons s ss)
  then have g: "good_item nn m s" by simp
  then obtain t rest where d: "drop s m = rhs_at m s @ t # rest" "t \<le> 0" by (rule good_drop)
  have pos: "\<forall>x \<in> set (rhs_at m s). 0 < x" by (auto simp: rhs_at_def dest: set_takeWhileD)
  have fit: "\<forall>x \<in> set (rhs_at m s). is_token x \<longrightarrow> nat x < 32 * length l" using Cons.prems by simp
  have "\<exists>l'. first_fill pe l (drop s m) = Some l' \<and> length l' = length l \<and>
      members l' = members l \<union> nat ` set_option (first_tok pe (rhs_at m s))"
    unfolding d(1) by (rule first_fill_eq [OF pos good_nts_lt [OF g assms(2)] fit d(2)])
  then obtain l1 where l1: "first_fill pe l (drop s m) = Some l1" "length l1 = length l"
    "members l1 = members l \<union> nat ` set_option (first_tok pe (rhs_at m s))"
    by blast
  from Cons.IH [of l1] Cons.prems l1(2) obtain l2 where l2: "fill_row pe m l1 ss = Some l2"
    "length l2 = length l1"
    "members l2 = members l1 \<union> {nat c | c s. s \<in> set ss \<and> first_tok pe (rhs_at m s) = Some c}"
    by auto
  have "members l2 = members l \<union> {nat c | c q. q \<in> set (s # ss) \<and> first_tok pe (rhs_at m q) = Some c}"
    unfolding l2(3) l1(3) by (auto simp: elem_set)
  with l1(1,2) l2(1,2) show ?case by auto
qed simp

lemma those_map_Some:
  "\<forall>x \<in> set xs. \<exists>y. f x = Some y \<and> P x y \<Longrightarrow> \<exists>ys. those (map f xs) = Some ys \<and> list_all2 P xs ys"
  by (induction xs) auto

lemma intern_total:
  assumes "length lk + length ls < lsz" "distinct lk"
  shows "\<exists>lk' qs. intern lsz lk ls = Some (lk', qs) \<and> distinct lk' \<and> (\<exists>x. lk' = lk @ x) \<and>
    list_all2 (\<lambda>l q. q < length lk' \<and> lk' ! q = l) ls qs \<and> length lk' \<le> length lk + length ls"
  using assms
proof (induction ls arbitrary: lk)
  case (Cons l ls)
  obtain lk1 q where q: "flset lsz lk l = Some (lk1, q)" "length lk1 \<le> length lk + 1"
    using flset_total [of lk lsz l] Cons.prems(1) by auto
  from flset_spec [OF q(1) Cons.prems(2)]
  have q1: "q < length lk1" "lk1 ! q = l" "distinct lk1" and "\<exists>x. lk1 = lk @ x" by auto
  then obtain x where x: "lk1 = lk @ x" by blast
  from Cons.IH [of lk1] Cons.prems q(2) q1(3) obtain lk' qs y where i: "intern lsz lk1 ls = Some (lk', qs)"
    "distinct lk'" "lk' = lk1 @ y" "list_all2 (\<lambda>l q. q < length lk' \<and> lk' ! q = l) ls qs"
    "length lk' \<le> length lk1 + length ls" by auto
  have "q < length lk' \<and> lk' ! q = l" using q1(1,2) i(3) by (simp add: nth_append)
  with q i x show ?case by auto
qed auto

subsection \<open>The loop computes FIRST\<close>

definition rows_good :: "int list \<Rightarrow> nat list list \<Rightarrow> nat \<Rightarrow> bool" where
  "rows_good m pres nn \<longleftrightarrow> length pres = nn + 1 \<and> (\<forall>row \<in> set pres. \<forall>s \<in> set row. good_item nn m s)"

lemma edges_in_range:
  assumes "rows_good m pres nn"
  shows "in_range (nn + 1) (edges pe m pres [0..<nn + 1])"
proof -
  have "fst e < nn + 1 \<and> snd e < nn + 1"
    if e: "e \<in> set (row_edges pe m i (pres ! i))" "i < nn + 1" for e i
  proof -
    from e(1) obtain s c where s: "s \<in> set (pres ! i)" "c \<in> set (visited pe (rhs_at m s))" "e = (i, ntix c)"
      by (auto simp: row_edges_def)
    have "good_item nn m s" using assms s(1) e(2) by (force simp: rows_good_def)
    then have "nts_lt (nn + 1) (rhs_at m s)" by (rule good_nts_lt) simp
    moreover have "c \<in> set (rhs_at m s)" "NTBASE \<le> c"
      using s(2) by (auto simp: visited_iff after_nulls_def)
    ultimately show ?thesis using s(3) e(2) by (simp add: nts_lt_def)
  qed
  then show ?thesis by (fastforce simp: edges_def in_range_def simp del: upt_Suc)
qed

lemma trans_loop_closed:
  assumes rows: "rows_good m pres nn" and pe: "nn < length pe"
    and F: "\<forall>e \<in> set (edges pe m pres [0..<nn + 1]). F (snd e) \<subseteq> F (fst e)"
    and "length L = nn + 1" "\<forall>l \<in> set L. length l = tb" "\<forall>i < length L. members (L ! i) \<subseteq> F i"
  shows "\<exists>L'. trans_loop pe m pres nn L = Some L' \<and> length L' = nn + 1 \<and> (\<forall>l \<in> set L'. length l = tb) \<and>
    (\<forall>i < nn + 1. members (L ! i) \<subseteq> members (L' ! i) \<and> members (L' ! i) \<subseteq> F i) \<and>
    (\<forall>e \<in> set (edges pe m pres [0..<nn + 1]). members (L' ! snd e) \<subseteq> members (L' ! fst e))"
  using assms
proof (induction pe m pres nn L rule: trans_loop.induct)
  case (1 pe m pres nn L)
  let ?es = "edges pe m pres [0..<nn + 1]"
  let ?u = "unite setunion ?es L"
  note rows = 1(2) and pe = 1(3) and F = 1(4) and L = 1(5-7)
  have ir: "in_range (length L) ?es" using edges_in_range [OF rows] L(1) by simp
  have pass: "trans_pass pe m pres L [0..<nn + 1] = Some ?u"
    using rows pe L(1) by (intro trans_pass_unite) (auto simp: rows_good_def)
  show ?case
  proof (cases "snd ?u")
    case True
    have l1: "length (fst ?u) = nn + 1" "\<forall>l \<in> set (fst ?u). length l = tb"
      using lsets.unite_ok [OF L(2) ir] L(1) by simp_all
    have s1: "\<forall>i < length (fst ?u). members (fst ?u ! i) \<subseteq> F i"
      using lsets.unite_sound [OF L(2) ir L(3) F] by simp
    then obtain L' where L': "trans_loop pe m pres nn (fst ?u) = Some L'"
      "length L' = nn + 1" "\<forall>l \<in> set L'. length l = tb"
      "\<forall>i < nn + 1. members (fst ?u ! i) \<subseteq> members (L' ! i) \<and> members (L' ! i) \<subseteq> F i"
      "\<forall>e \<in> set ?es. members (L' ! snd e) \<subseteq> members (L' ! fst e)"
      using 1(1) [OF pass prod.collapse True rows pe F l1 s1] by blast
    have "\<forall>i < nn + 1. members (L ! i) \<subseteq> members (fst ?u ! i)"
      using lsets.unite_mono [OF L(2) ir] L(1) by simp
    moreover have "trans_loop pe m pres nn L = trans_loop pe m pres nn (fst ?u)"
      using True by (subst trans_loop.simps) (simp only: pass option.case prod.case_eq_if if_True)
    ultimately show ?thesis using L' by (intro exI [of _ L'] conjI) (simp, simp, simp, blast, simp)
  next
    case False
    have "trans_loop pe m pres nn L = Some (fst ?u)"
      using False by (subst trans_loop.simps) (simp only: pass option.case prod.case_eq_if if_False)
    with lsets.unite_stable [OF L(2) ir False] L show ?thesis by simp
  qed
qed

subsection \<open>Correctness of \<open>cpfir\<close>\<close>

lemma nt_null_nullable:
  assumes wf: "wf_rules st nn rs" and pe: "marks nn False rs pe" and x: "is_token x \<or> is_nonterm nn x"
  shows "nt_null pe x \<longleftrightarrow> nullable (all_rules st rs) x"
proof (cases "NTBASE \<le> x")
  case True
  with x have r: "0 < ntix x" "ntix x \<le> nn" "x = NTBASE + int (ntix x)"
    by (auto simp: is_token_def is_nonterm_def)
  from pe r(2) have "pe ! ntix x = 0 \<or> pe ! ntix x = 1" by (auto simp: marks_def pe_ok_def)
  moreover have "pe ! ntix x = 1 \<longleftrightarrow> marked False rs x" using pe r by (auto simp: marks_def)
  ultimately show ?thesis using True nullable_all_rules [OF wf] by (auto simp: nt_null_def)
next
  case False
  have "\<not> marked False rs x"
  proof
    assume "marked False rs x"
    then obtain r where "(x, r) \<in> set rs" by (metis marked.cases)
    from wf_rulesD(1) [OF wf this] False show False by simp
  qed
  then show ?thesis using False nullable_all_rules [OF wf] by (simp add: nt_null_def)
qed

lemma after_nulls_nullable:
  assumes "wf_rules st nn rs" "marks nn False rs pe" "\<forall>x \<in> set r. is_token x \<or> is_nonterm nn x"
  shows "after_nulls pe r c \<longleftrightarrow> (\<exists>u v. r = u @ c # v \<and> (\<forall>x \<in> set u. nullable (all_rules st rs) x))"
proof -
  have "(\<forall>x \<in> set u. nt_null pe x) \<longleftrightarrow> (\<forall>x \<in> set u. nullable (all_rules st rs) x)"
    if "r = u @ c # v" for u v
    using nt_null_nullable [OF assms(1,2)] assms(3) that by simp
  then show ?thesis unfolding after_nulls_def by blast
qed

text \<open>The sets the loop starts from and its inclusions are those of the rules.\<close>

lemma cpfir_sets:
  fixes tb lsz
  assumes wf: "wf_rules st nn rs" and pe: "marks nn False rs pe"
    and fit: "tokens_fit tb (all_rules st rs)"
  defines "g \<equiv> setup_rules st nn tb lsz rs"
  defines "pres \<equiv> map (pres_row g) [0..<nn + 1]"
  shows "\<exists>L L'. those (map (\<lambda>i. do { row \<leftarrow> ent pres i; fill_row pe (gmem g) (aryfil tb 0) row }) [0..<nn + 1]) = Some L \<and>
    trans_loop pe (gmem g) pres nn L = Some L' \<and> length L' = nn + 1 \<and> (\<forall>l \<in> set L'. length l = tb) \<and>
    (\<forall>i \<le> nn. members (L' ! i) = First (all_rules st rs) (NTBASE + int i))"
proof -
  let ?m = "gmem g" and ?R = "all_rules st rs"
  let ?F = "\<lambda>i. {nat t | t. begins ?R (NTBASE + int i) t}"
  have row: "good_item nn ?m s" "(NTBASE + int i, rhs_at ?m s) \<in> set ?R" if "s \<in> set (pres_row g i)" for i s
    using pres_row_good [OF wf] that unfolding g_def by blast+
  have lpe: "nn < length pe" using pe by (simp add: marks_def pe_ok_def)
  have "\<exists>l. (do { row \<leftarrow> ent pres i; fill_row pe ?m (aryfil tb 0) row }) = Some l \<and>
      (length l = tb \<and> members l = {nat c | c s. s \<in> set (pres_row g i) \<and> first_tok pe (rhs_at ?m s) = Some c})"
    if i: "i < nn + 1" for i
  proof -
    have "\<forall>s \<in> set (pres_row g i). good_item nn ?m s \<and>
        (\<forall>x \<in> set (rhs_at ?m s). is_token x \<longrightarrow> nat x < 32 * length (aryfil tb 0 :: lset))"
      using row fit by (fastforce simp: tokens_fit_def aryfil_def)
    from fill_row_eq [OF this lpe] i show ?thesis
      by (simp add: pres_def aryfil_def del: upt_Suc)
  qed
  then obtain L where L: "those (map (\<lambda>i. do { row \<leftarrow> ent pres i; fill_row pe ?m (aryfil tb 0) row }) [0..<nn + 1]) = Some L"
    "list_all2 (\<lambda>i l. length l = tb \<and> members l = {nat c | c s. s \<in> set (pres_row g i) \<and> first_tok pe (rhs_at ?m s) = Some c})
       [0..<nn + 1] L"
    using those_map_Some [of "[0..<nn + 1]"
      "\<lambda>i. do { row \<leftarrow> ent pres i; fill_row pe ?m (aryfil tb 0) row }"
      "\<lambda>i l. length l = tb \<and> members l = {nat c | c s. s \<in> set (pres_row g i) \<and> first_tok pe (rhs_at ?m s) = Some c}"]
    by auto
  then have lL: "length L = nn + 1" by (simp add: list_all2_lengthD [symmetric])
  have Li: "length (L ! i) = tb"
      "members (L ! i) = {nat c | c s. s \<in> set (pres_row g i) \<and> first_tok pe (rhs_at ?m s) = Some c}"
    if "i < nn + 1" for i
    using list_all2_nthD [OF L(2), of i] that by (simp_all del: upt_Suc)
  have prefix: "after_nulls pe (rhs_at ?m s) c \<longleftrightarrow>
      (\<exists>u v. rhs_at ?m s = u @ c # v \<and> (\<forall>x \<in> set u. nullable ?R x))"
    if "s \<in> set (pres_row g i)" for s i c
    using row(1) [OF that] by (intro after_nulls_nullable [OF wf pe]) (simp add: good_item_def)
  have edge: "e \<in> set (edges pe ?m pres [0..<nn + 1]) \<longleftrightarrow>
      (\<exists>i s c. i < nn + 1 \<and> s \<in> set (pres_row g i) \<and> NTBASE \<le> c \<and> after_nulls pe (rhs_at ?m s) c \<and> e = (i, ntix c))" for e
  proof -
    have "e \<in> set (edges pe ?m pres [0..<nn + 1]) \<longleftrightarrow>
      (\<exists>i \<in> {0..<nn + 1}. \<exists>s \<in> set (pres_row g i). \<exists>c \<in> set (visited pe (rhs_at ?m s)). e = (i, ntix c))"
      by (simp add: set_edges image_iff pres_def del: upt_Suc)
    then show ?thesis unfolding Bex_def visited_iff by (metis atLeastLessThan_iff zero_le)
  qed
  have F: "\<forall>e \<in> set (edges pe ?m pres [0..<nn + 1]). ?F (snd e) \<subseteq> ?F (fst e)"
  proof
    fix e assume "e \<in> set (edges pe ?m pres [0..<nn + 1])"
    then obtain i s c where e: "s \<in> set (pres_row g i)" "NTBASE \<le> c" "after_nulls pe (rhs_at ?m s) c"
      "e = (i, ntix c)" using edge by blast
    then obtain u v where u: "rhs_at ?m s = u @ c # v" "\<forall>x \<in> set u. nullable ?R x"
      using prefix by blast
    have "begins ?R (NTBASE + int i) t" if "begins ?R c t" for t
      using row(2) [OF e(1)] u that begins_token [OF that] by (intro begins [of _ u c v]) auto
    with e(2,4) show "?F (snd e) \<subseteq> ?F (fst e)" by auto
  qed
  have rows: "rows_good ?m pres nn"
    using row(1) by (auto simp: rows_good_def pres_def simp del: upt_Suc)
  have lens: "\<forall>l \<in> set L. length l = tb" using Li(1) lL by (auto simp: in_set_conv_nth)
  have sound: "\<forall>i < length L. members (L ! i) \<subseteq> ?F i"
  proof (intro allI impI subsetI)
    fix i x assume "i < length L" "x \<in> members (L ! i)"
    with Li(2) lL obtain c s where c: "x = nat c" "s \<in> set (pres_row g i)" "first_tok pe (rhs_at ?m s) = Some c"
      by auto
    then obtain u v where u: "rhs_at ?m s = u @ c # v" "\<forall>x \<in> set u. nullable ?R x" "c < NTBASE"
      using prefix by (auto simp: first_tok_iff)
    have "is_token c \<or> is_nonterm nn c" using row(1) [OF c(2)] u(1) by (simp add: good_item_def)
    with u(3) have "is_token c" by (simp add: is_nonterm_def)
    then have "begins ?R (NTBASE + int i) c"
      using row(2) [OF c(2)] u by (intro begins [of _ u c v]) auto
    with c(1) show "x \<in> ?F i" by blast
  qed
  obtain L' where L': "trans_loop pe ?m pres nn L = Some L'" "length L' = nn + 1"
    "\<forall>l \<in> set L'. length l = tb"
    "\<And>i. i < nn + 1 \<Longrightarrow> members (L ! i) \<subseteq> members (L' ! i) \<and> members (L' ! i) \<subseteq> ?F i"
    "\<And>e. e \<in> set (edges pe ?m pres [0..<nn + 1]) \<Longrightarrow> members (L' ! snd e) \<subseteq> members (L' ! fst e)"
    using trans_loop_closed [OF rows lpe F lL lens sound] by blast
  have complete: "\<forall>i \<le> nn. A = NTBASE + int i \<longrightarrow> nat t \<in> members (L' ! i)" if "begins ?R A t" for A t
    using that
  proof (induction rule: begins.induct)
    case (begins A u c v t)
    show ?case
    proof (intro allI impI)
      fix i assume i: "i \<le> nn" "A = NTBASE + int i"
      obtain s where s: "s \<in> set (pres_row g i)" "rhs_at ?m s = u @ c # v"
        using pres_row_rule [OF wf, of i "u @ c # v" tb lsz] begins(1) i(2) unfolding g_def by blast
      with begins(2) prefix have an: "after_nulls pe (rhs_at ?m s) c" by blast
      have c: "is_token c \<or> is_nonterm nn c" using added_not_in_rhs [OF wf begins(1)] by simp
      from begins(4) consider "c = t" | "begins ?R c t" "\<forall>i \<le> nn. c = NTBASE + int i \<longrightarrow> nat t \<in> members (L' ! i)"
        by blast
      then show "nat t \<in> members (L' ! i)"
      proof cases
        case 1
        with an begins(3) have "first_tok pe (rhs_at ?m s) = Some t" by (simp add: first_tok_iff is_token_def)
        with s(1) i(1) Li(2) [of i] L'(4) [of i] show ?thesis by auto
      next
        case 2
        from 2(1) obtain r where "(c, r) \<in> set ?R" by (metis begins.cases)
        then have "NTBASE \<le> c" using wf_rulesD(1) [OF wf] by (fastforce simp: all_rules_def)
        with c have n: "NTBASE \<le> c" "ntix c \<le> nn" "c = NTBASE + int (ntix c)"
          by (auto simp: is_token_def is_nonterm_def)
        have "(i, ntix c) \<in> set (edges pe ?m pres [0..<nn + 1])"
          unfolding edge using s(1) i(1) n(1) an by (metis Suc_eq_plus1 less_Suc_eq_le)
        from L'(5) [OF this] 2(2) n show ?thesis by auto
      qed
    qed
  qed
  have "members (L' ! i) = First ?R (NTBASE + int i)" if "i \<le> nn" for i
    using complete L'(4) [of i] that unfolding First_begins [of "NTBASE + int i", simplified]
    by (fastforce simp: less_Suc_eq_le)
  then show ?thesis using L(1) L'(1-3) by blast
qed

lemma cpfir_correct:
  assumes wf: "wf_rules st nn rs" and pe: "marks nn False rs pe"
    and fit: "tokens_fit tb (all_rules st rs)"
    and pres: "cpres (setup_rules st nn tb lsz rs) = Some (Inr pres)" and lsz: "nn + 1 < lsz"
  shows "\<exists>lk pf. cpfir (setup_rules st nn tb lsz rs) pe pres [] = Some (lk, pf) \<and> length pf = nn + 1 \<and>
    distinct lk \<and> (\<forall>i \<le> nn. pf ! i < length lk \<and> length (lk ! (pf ! i)) = tb \<and>
      members (lk ! (pf ! i)) = First (all_rules st rs) (NTBASE + int i))"
proof -
  let ?g = "setup_rules st nn tb lsz rs"
  have p: "pres = map (pres_row ?g) [0..<nn + 1]"
    using pres unfolding cpres_rows [OF wf] by (simp split: if_splits)
  obtain L L' where L: "those (map (\<lambda>i. do { row \<leftarrow> ent pres i; fill_row pe (gmem ?g) (aryfil tb 0) row }) [0..<nn + 1]) = Some L"
    "trans_loop pe (gmem ?g) pres nn L = Some L'" "length L' = nn + 1" "\<forall>l \<in> set L'. length l = tb"
    "\<forall>i \<le> nn. members (L' ! i) = First (all_rules st rs) (NTBASE + int i)"
    using cpfir_sets [OF wf pe fit, of lsz] unfolding p by blast
  obtain lk pf where i: "intern lsz [] L' = Some (lk, pf)" "distinct lk"
    "list_all2 (\<lambda>l q. q < length lk \<and> lk ! q = l) L' pf"
    using intern_total [of "[]" L' lsz] L(3) lsz by auto
  from i(3) have "length pf = nn + 1" "\<And>j. j < nn + 1 \<Longrightarrow> pf ! j < length lk \<and> lk ! (pf ! j) = L' ! j"
    using L(3) by (auto simp: list_all2_conv_all_nth)
  then show ?thesis
    using L i(1,2) by (simp add: cpfir_def less_Suc_eq_le del: upt_Suc)
qed

subsection \<open>The analysis \<open>main\<close> makes before generating states\<close>

record tables =
  tgram :: grammar
  tpempty :: "int list"
  tpres :: "nat list list"
  tlkst :: "lset list"
  tpfirst :: "nat list"

definition analyse :: "grammar \<Rightarrow> (yerror + tables) option" where
  "analyse g = do {
     r \<leftarrow> cpres g;
     (case r of Inl e \<Rightarrow> Some (Inl e) | Inr pres \<Rightarrow> do {
       r \<leftarrow> cempty g;
       (case r of Inl e \<Rightarrow> Some (Inl e) | Inr pe \<Rightarrow> do {
         f \<leftarrow> cpfir g pe pres [];
         Some (Inr \<lparr> tgram = g, tpempty = pe, tpres = pres, tlkst = fst f, tpfirst = snd f \<rparr>)
       })
     })
   }"

text \<open>What the rest of the program may assume of the tables.\<close>

definition tables_ok :: "int \<Rightarrow> nat \<Rightarrow> nat \<Rightarrow> nat \<Rightarrow> rule list \<Rightarrow> tables \<Rightarrow> bool" where
  "tables_ok st nn tb lsz rs T \<longleftrightarrow> wf_rules st nn rs \<and> tokens_fit tb (all_rules st rs) \<and>
    tgram T = setup_rules st nn tb lsz rs \<and> marks nn False rs (tpempty T) \<and>
    tpres T = map (pres_row (tgram T)) [0..<nn + 1] \<and>
    length (tpfirst T) = nn + 1 \<and> distinct (tlkst T) \<and>
    (\<forall>i \<le> nn. tpfirst T ! i < length (tlkst T) \<and> length (tlkst T ! (tpfirst T ! i)) = tb \<and>
      members (tlkst T ! (tpfirst T ! i)) = First (all_rules st rs) (NTBASE + int i))"

lemma analyse_cases:
  assumes wf: "wf_rules st nn rs" and fit: "tokens_fit tb (all_rules st rs)" and lsz: "nn + 1 < lsz"
  shows "if undefined_nts nn rs \<noteq> [] then
      analyse (setup_rules st nn tb lsz rs) = Some (Inl (Undefined_nonterminal (undefined_nts nn rs)))
    else if unproductive nn rs \<noteq> [] then
      analyse (setup_rules st nn tb lsz rs) = Some (Inl (Never_derives (unproductive nn rs)))
    else \<exists>T. analyse (setup_rules st nn tb lsz rs) = Some (Inr T) \<and> tables_ok st nn tb lsz rs T"
proof -
  let ?g = "setup_rules st nn tb lsz rs" and ?pres = "map (pres_row (setup_rules st nn tb lsz rs)) [0..<nn + 1]"
  note p = cpres_rows [OF wf, of tb lsz] and e = cempty_marks [OF wf, of tb lsz]
  show ?thesis
  proof (cases "undefined_nts nn rs = [] \<and> unproductive nn rs = []")
    case True
    then obtain pe where pe: "cempty ?g = Some (Inr pe)" "marks nn False rs pe" using e by auto
    have pres: "cpres ?g = Some (Inr ?pres)" using p True by simp
    from cpfir_correct [OF wf pe(2) fit pres lsz] obtain lk pf where
      f: "cpfir ?g pe ?pres [] = Some (lk, pf)" "length pf = nn + 1" "distinct lk"
      "\<forall>i \<le> nn. pf ! i < length lk \<and> length (lk ! (pf ! i)) = tb \<and>
        members (lk ! (pf ! i)) = First (all_rules st rs) (NTBASE + int i)" by blast
    then show ?thesis
      using True pres pe wf fit by (simp add: analyse_def tables_ok_def del: upt_Suc)
  next
    case False
    then show ?thesis using p e by (auto simp: analyse_def del: upt_Suc)
  qed
qed

lemma analyse_tables_ok:
  assumes "wf_rules st nn rs" "tokens_fit tb (all_rules st rs)" "nn + 1 < lsz"
    and "analyse (setup_rules st nn tb lsz rs) = Some (Inr T)"
  shows "tables_ok st nn tb lsz rs T"
  using analyse_cases [OF assms(1-3)] assms(4) by (auto split: if_splits)

lemma set_undefined: "set (undefined_nts nn rs) = {i. 0 < i \<and> i \<le> nn \<and> NTBASE + int i \<notin> fst ` set rs}"
  by (auto simp: undefined_nts_def simp del: upt_Suc)

lemma set_unproductive:
  assumes "wf_rules st nn rs"
  shows "set (unproductive nn rs) = {i. 0 < i \<and> i \<le> nn \<and> \<not> productive rs (NTBASE + int i)}"
proof -
  have "\<forall>(B, r) \<in> set rs. \<forall>s \<in> set r. s < NTBASE \<longrightarrow> is_token s"
    using assms by (fastforce simp: wf_rules_def is_nonterm_def)
  from productive_marked [OF this] show ?thesis by (auto simp: unproductive_def simp del: upt_Suc)
qed

lemma tables_rows:
  assumes T: "tables_ok st nn tb lsz rs T" and i: "i \<le> nn"
  shows "rhs_at (gmem (tgram T)) ` set (tpres T ! i) = {r. (NTBASE + int i, r) \<in> set (all_rules st rs)}"
proof -
  have t: "wf_rules st nn rs" "tgram T = setup_rules st nn tb lsz rs" "tpres T ! i = pres_row (tgram T) i"
    using T i by (simp_all add: tables_ok_def del: upt_Suc)
  show ?thesis unfolding t(2,3)
  proof (intro equalityI subsetI)
    fix r assume "r \<in> rhs_at (gmem (setup_rules st nn tb lsz rs)) ` set (pres_row (setup_rules st nn tb lsz rs) i)"
    then show "r \<in> {r. (NTBASE + int i, r) \<in> set (all_rules st rs)}" using pres_row_good [OF t(1)] by auto
  next
    fix r assume "r \<in> {r. (NTBASE + int i, r) \<in> set (all_rules st rs)}"
    then have "(NTBASE + int i, r) \<in> set (all_rules st rs)" by simp
    then obtain s where "s \<in> set (pres_row (setup_rules st nn tb lsz rs) i)"
      "rhs_at (gmem (setup_rules st nn tb lsz rs)) s = r" by (rule pres_row_rule [OF t(1)])
    then show "r \<in> rhs_at (gmem (setup_rules st nn tb lsz rs)) ` set (pres_row (setup_rules st nn tb lsz rs) i)"
      by blast
  qed
qed

text \<open>
  C25. The analysis of a grammar ends, and ends in one of three ways. Some nonterminal has no
  rule, and exactly those without one are reported; or all have rules and some derive no string
  of tokens, and exactly those are reported; or the tables are built: they list for each
  nonterminal its right hand sides, mark it exactly when it derives the empty string, and hold
  as its set exactly the tokens that strings derived from it begin with.
\<close>

theorem analyse_correct:
  assumes "wf_rules st nn rs" "tokens_fit tb (all_rules st rs)" "nn + 1 < lsz"
  shows "(\<exists>is. analyse (setup_rules st nn tb lsz rs) = Some (Inl (Undefined_nonterminal is)) \<and> is \<noteq> [] \<and>
      set is = {i. 0 < i \<and> i \<le> nn \<and> NTBASE + int i \<notin> fst ` set rs}) \<or>
    {i. 0 < i \<and> i \<le> nn \<and> NTBASE + int i \<notin> fst ` set rs} = {} \<and>
    (\<exists>is. analyse (setup_rules st nn tb lsz rs) = Some (Inl (Never_derives is)) \<and> is \<noteq> [] \<and>
      set is = {i. 0 < i \<and> i \<le> nn \<and> \<not> productive rs (NTBASE + int i)}) \<or>
    {i. 0 < i \<and> i \<le> nn \<and> \<not> productive rs (NTBASE + int i)} = {} \<and>
    (\<exists>T. analyse (setup_rules st nn tb lsz rs) = Some (Inr T) \<and>
      (\<forall>i \<le> nn. rhs_at (gmem (tgram T)) ` set (tpres T ! i) = {r. (NTBASE + int i, r) \<in> set (all_rules st rs)}) \<and>
      (\<forall>i \<in> {1..nn}. tpempty T ! i = 1 \<longleftrightarrow> nullable (all_rules st rs) (NTBASE + int i)) \<and>
      (\<forall>i \<le> nn. members (tlkst T ! (tpfirst T ! i)) = First (all_rules st rs) (NTBASE + int i)))"
proof -
  consider "undefined_nts nn rs \<noteq> []" | "undefined_nts nn rs = []" "unproductive nn rs \<noteq> []"
    | "undefined_nts nn rs = []" "unproductive nn rs = []" by blast
  then show ?thesis
  proof cases
    case 1
    with analyse_cases [OF assms] set_undefined [of nn rs] show ?thesis by simp
  next
    case 2
    with analyse_cases [OF assms] set_undefined [of nn rs] set_unproductive [OF assms(1)] show ?thesis by simp
  next
    case 3
    with analyse_cases [OF assms] obtain T where T: "analyse (setup_rules st nn tb lsz rs) = Some (Inr T)"
      "tables_ok st nn tb lsz rs T" by auto
    from T(2) have m: "marks nn False rs (tpempty T)"
      "\<forall>i \<le> nn. members (tlkst T ! (tpfirst T ! i)) = First (all_rules st rs) (NTBASE + int i)"
      by (simp_all add: tables_ok_def)
    have "\<forall>i \<in> {1..nn}. tpempty T ! i = 1 \<longleftrightarrow> nullable (all_rules st rs) (NTBASE + int i)"
      using m(1) nullable_all_rules [OF assms(1)] by (simp add: marks_def)
    moreover have "{i. 0 < i \<and> i \<le> nn \<and> \<not> productive rs (NTBASE + int i)} = {}"
      using set_unproductive [OF assms(1)] 3 by simp
    ultimately show ?thesis using T m(2) tables_rows [OF T(2)] by blast
  qed
qed

text \<open>A grammar for the witnesses: \<open>S: A;  A: x A y | ;\<close> with the tokens 2 and 3.\<close>

definition demo_rules :: "rule list" where
  "demo_rules = [(4097, [4098]), (4098, [2, 4098, 3]), (4098, [])]"

definition demo_tables :: tables where
  "demo_tables = \<lparr> tgram = setup_rules 4097 2 1 4801 demo_rules, tpempty = [0, 1, 1],
    tpres = [[1], [5], [8, 13]], tlkst = [[6], [4]], tpfirst = [0, 1, 1] \<rparr>"

lemma demo_wf: "wf_rules 4097 2 demo_rules" "tokens_fit 1 (all_rules 4097 demo_rules)"
  by code_simp+

lemma demo_analyse: "analyse (setup_rules 4097 2 1 4801 demo_rules) = Some (Inr demo_tables)"
  by code_simp

lemma demo_tables_ok: "tables_ok 4097 2 1 4801 demo_rules demo_tables"
  by (rule analyse_tables_ok [OF demo_wf _ demo_analyse]) simp

theorem analyse_correct_witness:
  "nullable (all_rules 4097 demo_rules) 4098 \<and> First (all_rules 4097 demo_rules) 4098 = {2}"
proof -
  have "members [4] = {2}" unfolding members_list by code_simp
  moreover have "tpempty demo_tables ! 2 = 1" "tlkst demo_tables ! (tpfirst demo_tables ! 2) = [4]"
    by (simp_all add: demo_tables_def)
  moreover from analyse_correct [OF demo_wf, of 4801]
  have "\<forall>i \<in> {1..2}. tpempty demo_tables ! i = 1 \<longleftrightarrow> nullable (all_rules 4097 demo_rules) (NTBASE + int i)"
    "\<forall>i \<le> 2. members (tlkst demo_tables ! (tpfirst demo_tables ! i)) = First (all_rules 4097 demo_rules) (NTBASE + int i)"
    unfolding demo_analyse by simp_all
  from this [rule_format, of 2] have "tpempty demo_tables ! 2 = 1 \<longleftrightarrow> nullable (all_rules 4097 demo_rules) 4098"
    "members (tlkst demo_tables ! (tpfirst demo_tables ! 2)) = First (all_rules 4097 demo_rules) 4098" by simp_all
  ultimately show ?thesis by simp
qed

end
