(* ===== verification/Yclosure.thy ===== *)
theory Yclosure
  imports Yfirst
begin

text \<open>
  \<^verbatim>\<open>closure\<close> of \<^verbatim>\<open>unix/boot/xyacc/y1.c\<close>: the working sets of a state.  The kernel is copied
  to the working sets, every entry flagged; an entry with the dot before a nonterminal
  is worked off together with the flagged entries after it that have the same symbol, and
  the productions of the symbol are entered with the union of their lookaheads; an entry whose
  lookahead grows is flagged again.  The invariant is that of a worklist: an entry that
  is not flagged has its productions entered with all it contributes.  The loop ends
  because each turn that asks for another enters a production or adds a token to a set.
\<close>

subsection \<open>Definitions\<close>

record item =
  pitem :: nat
  look :: nat

record wset =
  wpitem :: nat
  wflag :: bool
  wlset :: lset

text \<open>The working set array: the entries in use (\<^verbatim>\<open>cwp\<close> of them), then the sets of the
  others, with what they last held.\<close>

record wstate =
  wused :: "wset list"
  wfree :: "lset list"

definition wsetsz :: "wstate \<Rightarrow> nat" where
  "wsetsz st = length (wused st) + length (wfree st)"

abbreviation WSETSIZE :: nat where "WSETSIZE \<equiv> 350"

text \<open>The array grows by \<^verbatim>\<open>WSETSIZE\<close> entries, whose sets lie in a block of as many sets
  as the array had: they fit only if it had \<^verbatim>\<open>WSETSIZE\<close> already.\<close>

definition exp_wsets :: "nat \<Rightarrow> wstate \<Rightarrow> wstate option" where
  "exp_wsets tb st =
    (if wsetsz st < WSETSIZE then None
     else Some (st\<lparr>wfree := wfree st @ replicate WSETSIZE (replicate tb 0)\<rparr>))"

text \<open>The kernel.\<close>

definition cl_kernel :: "tables \<Rightarrow> item list \<Rightarrow> wstate \<Rightarrow> wstate option" where
  "cl_kernel T K st = do {
     ls \<leftarrow> those (map (\<lambda>k. ent (tlkst T) (look k)) K);
     let slots = map wlset (wused st) @ wfree st;
     if length slots < length K then None
     else Some \<lparr> wused = map2 (\<lambda>k l. \<lparr> wpitem = pitem k, wflag = True, wlset = l \<rparr>) K ls,
                 wfree = drop (length K) slots \<rparr>
   }"

text \<open>What an entry adds to the lookahead: the symbols after the one the dot is before.\<close>

fun follow_set :: "tables \<Rightarrow> lset \<Rightarrow> lset \<Rightarrow> int list \<Rightarrow> lset option" where
  "follow_set T vl cl [] = None"
| "follow_set T vl cl (ch # m) =
    (if ch \<le> 0 then Some (fst (setunion cl vl))
     else if ch < NTBASE then SETBIT cl (nat ch)
     else do {
       f \<leftarrow> ent (tpfirst T) (ntix ch);
       l \<leftarrow> ent (tlkst T) f;
       e \<leftarrow> ent (tpempty T) (ntix ch);
       let cl' = fst (setunion cl l);
       if e = 0 then Some cl' else follow_set T vl cl' m
     })"

text \<open>The flagged entries with the dot before \<open>c\<close>, from the current one on.\<close>

fun gather :: "tables \<Rightarrow> bool \<Rightarrow> int \<Rightarrow> lset \<Rightarrow> wset list \<Rightarrow> (wset list \<times> lset) option" where
  "gather T nl c cl [] = Some ([], cl)"
| "gather T nl c cl (v # vs) =
    (if wflag v then do {
       x \<leftarrow> ent (gmem (tgram T)) (wpitem v);
       if x = c then do {
         cl' \<leftarrow> (if nl then Some cl else follow_set T (wlset v) cl (drop (Suc (wpitem v)) (gmem (tgram T))));
         r \<leftarrow> gather T nl c cl' vs;
         Some (v\<lparr>wflag := False\<rparr> # fst r, snd r)
       } else do {
         r \<leftarrow> gather T nl c cl vs;
         Some (v # fst r, snd r)
       }
     } else do {
       r \<leftarrow> gather T nl c cl vs;
       Some (v # fst r, snd r)
     })"

text \<open>Entering a production.\<close>

primrec find_item :: "wset list \<Rightarrow> nat \<Rightarrow> nat option" where
  "find_item [] s = None"
| "find_item (v # vs) s = (if wpitem v = s then Some 0 else map_option Suc (find_item vs s))"

definition add_prod :: "tables \<Rightarrow> bool \<Rightarrow> lset \<Rightarrow> nat \<Rightarrow> wstate \<Rightarrow> bool \<Rightarrow> (wstate \<times> bool) option" where
  "add_prod T nl cl s st work =
    (case find_item (wused st) s of
       Some k \<Rightarrow>
         if nl then Some (st, work)
         else let v = wused st ! k; u = setunion (wlset v) cl in
           if snd u then Some (st\<lparr>wused := (wused st)[k := v\<lparr>wlset := fst u, wflag := True\<rparr>]\<rparr>, True)
           else Some (st, work)
     | None \<Rightarrow> do {
         st \<leftarrow> (if length (wused st) + 1 \<ge> wsetsz st then exp_wsets (tbitset (tgram T)) st else Some st);
         (case wfree st of
            [] \<Rightarrow> None
          | l # ls \<Rightarrow> Some
              (\<lparr> wused = wused st @ [\<lparr> wpitem = s, wflag = True, wlset = if nl then l else cl \<rparr>],
                 wfree = ls \<rparr>, if nl then work else True))
       })"

fun add_prods :: "tables \<Rightarrow> bool \<Rightarrow> lset \<Rightarrow> nat list \<Rightarrow> wstate \<Rightarrow> bool \<Rightarrow> (wstate \<times> bool) option" where
  "add_prods T nl cl [] st work = Some (st, work)"
| "add_prods T nl cl (s # ss) st work = do {
     r \<leftarrow> add_prod T nl cl s st work;
     add_prods T nl cl ss (fst r) (snd r)
   }"

text \<open>Working off the entry \<open>i\<close>.\<close>

definition close_one :: "tables \<Rightarrow> bool \<Rightarrow> nat \<Rightarrow> wstate \<Rightarrow> bool \<Rightarrow> (wstate \<times> bool) option" where
  "close_one T nl i st work = do {
     u \<leftarrow> ent (wused st) i;
     if \<not> wflag u then Some (st, work)
     else do {
       c \<leftarrow> ent (gmem (tgram T)) (wpitem u);
       if c < NTBASE then Some (st\<lparr>wused := (wused st)[i := u\<lparr>wflag := False\<rparr>]\<rparr>, work)
       else do {
         r \<leftarrow> gather T nl c (aryfil (tbitset (tgram T)) 0) (drop i (wused st));
         row \<leftarrow> ent (tpres T) (ntix c);
         add_prods T nl (snd r) row (st\<lparr>wused := take i (wused st) @ fst r\<rparr>) work
       }
     }
   }"

subsection \<open>Every step shrinks what is left\<close>

definition unseen :: "tables \<Rightarrow> wset list \<Rightarrow> nat" where
  "unseen T ws = card (set (concat (tpres T)) - wpitem ` set ws)"

text \<open>The measure of the outer loop.\<close>

definition left :: "tables \<Rightarrow> wset list \<Rightarrow> nat" where
  "left T ws = sum_list (map (room \<circ> wlset) ws) + unseen T ws * (32 * tbitset (tgram T) + 1)"

lemma find_item_Some: "find_item ws s = Some k \<Longrightarrow> k < length ws \<and> wpitem (ws ! k) = s"
  by (induction ws arbitrary: k) (auto split: if_splits)

lemma find_item_None: "find_item ws s = None \<longleftrightarrow> s \<notin> wpitem ` set ws"
  by (induction ws) auto

lemma unseen_new:
  assumes "s \<in> set (concat (tpres T))" "s \<notin> wpitem ` set ws" "wpitem v = s"
  shows "Suc (unseen T (ws @ [v])) = unseen T ws"
proof -
  have "set (concat (tpres T)) - wpitem ` set (ws @ [v]) = (set (concat (tpres T)) - wpitem ` set ws) - {s}"
    using assms(3) by auto
  then show ?thesis
    unfolding unseen_def using assms(1,2) by (simp only:) (rule card_Suc_Diff1, auto)
qed

lemma unseen_pitems: "map wpitem ws' = map wpitem ws \<Longrightarrow> unseen T ws' = unseen T ws"
  unfolding unseen_def by (metis set_map)

text \<open>The effect of a step on the two measures.\<close>

definition progress :: "tables \<Rightarrow> bool \<Rightarrow> wset list \<Rightarrow> bool \<Rightarrow> wset list \<Rightarrow> bool \<Rightarrow> bool" where
  "progress T nl ws w ws' w' \<longleftrightarrow>
    unseen T ws' + length ws' \<le> unseen T ws + length ws \<and> length ws \<le> length ws' \<and>
    (if nl then w' = w else left T ws' \<le> left T ws \<and> (w' \<longrightarrow> w \<or> left T ws' < left T ws))"

lemma progress_refl: "progress T nl ws w ws w"
  by (simp add: progress_def)

lemma progress_trans:
  "progress T nl ws w ws' w' \<Longrightarrow> progress T nl ws' w' ws'' w'' \<Longrightarrow> progress T nl ws w ws'' w''"
  by (auto simp: progress_def split: if_splits)

lemma progress_flags:
  assumes "map wpitem ws' = map wpitem ws" "map wlset ws' = map wlset ws"
  shows "progress T nl ws w ws' w"
  using assms unseen_pitems [OF assms(1)] map_eq_imp_length_eq [OF assms(1)]
  unfolding progress_def left_def by (simp flip: map_map)

lemma progress_add_prod:
  assumes r: "add_prod T nl cl s st w = Some (st', w')"
    and s: "s \<in> set (concat (tpres T))" and cl: "length cl = tbitset (tgram T)"
  shows "progress T nl (wused st) w (wused st') w'"
proof (cases "find_item (wused st) s")
  case (Some k)
  let ?ws = "wused st" and ?v = "wused st ! k"
  let ?u = "setunion (wlset ?v) cl"
  note k = find_item_Some [OF Some]
  show ?thesis
  proof (cases "nl \<or> \<not> snd ?u")
    case True
    then show ?thesis using r Some by (auto simp: add_prod_def Let_def progress_refl split: if_splits)
  next
    case False
    let ?x = "?v\<lparr>wlset := fst ?u, wflag := True\<rparr>"
    have e: "wused st' = ?ws[k := ?x]" "w'" and nl: "\<not> nl"
      using r Some False by (auto simp: add_prod_def Let_def)
    have "map wpitem (?ws[k := ?x]) = map wpitem ?ws"
      using k by (simp add: map_update) (metis list_update_id nth_map)
    from unseen_pitems [OF this] have u: "unseen T (?ws[k := ?x]) = unseen T ?ws" .
    have "sum_list (map (room \<circ> wlset) (?ws[k := ?x])) + room (wlset ?v) =
        sum_list (map (room \<circ> wlset) ?ws) + room (fst ?u)"
      using k elem_le_sum_list [of k "map (room \<circ> wlset) ?ws"]
      by (simp add: map_update sum_list_update)
    moreover have "room (fst ?u) < room (wlset ?v)" using False by (intro room_setunion_less) simp
    ultimately show ?thesis unfolding progress_def left_def e(1) u using e(2) nl by simp
  qed
next
  case None
  let ?st = "if length (wused st) + 1 \<ge> wsetsz st then exp_wsets (tbitset (tgram T)) st else Some st"
  from r None obtain st1 l where st1: "?st = Some st1"
    "wused st' = wused st1 @ [\<lparr> wpitem = s, wflag = True, wlset = if nl then l else cl \<rparr>]"
    "w' = (if nl then w else True)"
    by (auto simp: add_prod_def split: Option.bind_splits list.splits)
  have "wused st1 = wused st" using st1(1) by (auto simp: exp_wsets_def split: if_splits)
  with st1(2) have e: "wused st' = wused st @ [\<lparr> wpitem = s, wflag = True, wlset = if nl then l else cl \<rparr>]"
    by simp
  have u: "unseen T (wused st) = Suc (unseen T (wused st'))"
    unfolding e using None s by (intro unseen_new [symmetric]) (auto simp: find_item_None)
  have "room cl \<le> 32 * tbitset (tgram T)" by (simp add: room_def cl)
  then show ?thesis
    unfolding progress_def left_def u using e st1(3) by simp
qed

lemma progress_add_prods:
  "add_prods T nl cl ss st w = Some (st', w') \<Longrightarrow> set ss \<subseteq> set (concat (tpres T)) \<Longrightarrow>
    length cl = tbitset (tgram T) \<Longrightarrow> progress T nl (wused st) w (wused st') w'"
proof (induction ss arbitrary: st w)
  case (Cons s ss)
  then obtain r where r: "add_prod T nl cl s st w = Some r" "add_prods T nl cl ss (fst r) (snd r) = Some (st', w')"
    by (auto split: Option.bind_splits)
  have "progress T nl (wused st) w (wused (fst r)) (snd r)"
    using progress_add_prod [of T nl cl s st w "fst r" "snd r"] r(1) Cons.prems by auto
  moreover have "progress T nl (wused (fst r)) (snd r) (wused st') w'"
    using Cons.IH [OF r(2)] Cons.prems by simp
  ultimately show ?case by (rule progress_trans)
qed (simp add: progress_refl)

lemma follow_set_length: "follow_set T vl cl m = Some cl' \<Longrightarrow> length cl' = length cl"
  by (induction T vl cl m rule: follow_set.induct)
    (auto simp: SETBIT_def Let_def split: if_splits Option.bind_splits)

lemma gather_length:
  "gather T nl c cl vs = Some r \<Longrightarrow> length (snd r) = length cl \<and>
    map wpitem (fst r) = map wpitem vs \<and> map wlset (fst r) = map wlset vs"
proof (induction vs arbitrary: cl r)
  case (Cons v vs)
  from Cons.prems obtain cl' r' v' where r': "gather T nl c cl' vs = Some r'" "r = (v' # fst r', snd r')"
    "wpitem v' = wpitem v" "wlset v' = wlset v" "length cl' = length cl"
    by (auto split: if_splits Option.bind_splits dest: follow_set_length)
  with Cons.IH [OF r'(1)] show ?case by simp
qed auto

lemma progress_close_one:
  assumes "close_one T nl i st w = Some (st', w')"
  shows "progress T nl (wused st) w (wused st') w'"
proof -
  from assms obtain u where u: "i < length (wused st)" "wused st ! i = u"
    by (auto simp: close_one_def ent_eq_Some split: Option.bind_splits)
  show ?thesis
  proof (cases "wflag u")
    case False
    then show ?thesis using assms u by (auto simp: close_one_def progress_refl)
  next
    case True
    with assms u obtain c where c: "ent (gmem (tgram T)) (wpitem u) = Some c"
      by (auto simp: close_one_def split: Option.bind_splits)
    show ?thesis
    proof (cases "c < NTBASE")
      case True
      then have e: "wused st' = (wused st)[i := u\<lparr>wflag := False\<rparr>]" "w' = w"
        using assms u c \<open>wflag u\<close> by (auto simp: close_one_def)
      have "map wpitem ((wused st)[i := u\<lparr>wflag := False\<rparr>]) = map wpitem (wused st)"
        "map wlset ((wused st)[i := u\<lparr>wflag := False\<rparr>]) = map wlset (wused st)"
        using u by (simp_all add: map_update) (metis list_update_id nth_map)+
      then show ?thesis unfolding e by (rule progress_flags)
    next
      case False
      let ?z = "aryfil (tbitset (tgram T)) 0"
      from False assms u c \<open>wflag u\<close> obtain r row where r:
        "gather T nl c ?z (drop i (wused st)) = Some r" "ent (tpres T) (ntix c) = Some row"
        "add_prods T nl (snd r) row (st\<lparr>wused := take i (wused st) @ fst r\<rparr>) w = Some (st', w')"
        by (auto simp: close_one_def split: Option.bind_splits)
      note g = gather_length [OF r(1)]
      have "set row \<subseteq> set (concat (tpres T))" using r(2) nth_mem by (fastforce simp: ent_eq_Some)
      from progress_add_prods [OF r(3) this] g
      have "progress T nl (take i (wused st) @ fst r) w (wused st') w'" by (simp add: aryfil_def)
      moreover have "progress T nl (wused st) w (take i (wused st) @ fst r) w"
        using g by (intro progress_flags) (simp_all flip: take_map drop_map)
      ultimately show ?thesis by (meson progress_trans)
    qed
  qed
qed

subsection \<open>The loops\<close>

function cl_pass :: "tables \<Rightarrow> bool \<Rightarrow> nat \<Rightarrow> wstate \<Rightarrow> bool \<Rightarrow> (wstate \<times> bool) option" where
  "cl_pass T nl i st work =
    (if i < length (wused st) then
       case close_one T nl i st work of
         None \<Rightarrow> None
       | Some (st', work') \<Rightarrow> cl_pass T nl (i + 1) st' work'
     else Some (st, work))"
  by pat_completeness auto

termination
  by (relation "measure (\<lambda>(T, nl, i, st, work). unseen T (wused st) + length (wused st) - i)")
    (auto dest!: progress_close_one simp: progress_def)

declare cl_pass.simps [simp del]

lemma progress_cl_pass:
  "cl_pass T nl i st w = Some (st', w') \<Longrightarrow> progress T nl (wused st) w (wused st') w'"
proof (induction T nl i st w rule: cl_pass.induct)
  case (1 T nl i st w)
  show ?case
  proof (cases "i < length (wused st)")
    case True
    with 1(2) obtain st1 w1 where c: "close_one T nl i st w = Some (st1, w1)"
      "cl_pass T nl (i + 1) st1 w1 = Some (st', w')"
      by (subst (asm) cl_pass.simps) (auto split: option.splits)
    from progress_close_one [OF c(1)] 1(1) [OF True c(1) refl c(2)] show ?thesis
      by (rule progress_trans)
  next
    case False
    with 1(2) show ?thesis by (subst (asm) cl_pass.simps) (simp add: progress_refl)
  qed
qed

function cl_loop :: "tables \<Rightarrow> bool \<Rightarrow> wstate \<Rightarrow> wstate option" where
  "cl_loop T nl st =
    (case cl_pass T nl 0 st False of
       None \<Rightarrow> None
     | Some (st', work) \<Rightarrow> if work then cl_loop T nl st' else Some st')"
  by pat_completeness auto

termination
  by (relation "measure (\<lambda>(T, nl, st). left T (wused st))")
    (auto dest!: progress_cl_pass simp: progress_def split: if_splits)

declare cl_loop.simps [simp del]

definition closure :: "tables \<Rightarrow> bool \<Rightarrow> item list \<Rightarrow> wstate \<Rightarrow> wstate option" where
  "closure T nl K st = do { st \<leftarrow> cl_kernel T K st; cl_loop T nl st }"

end
