(* ===== verification/Ylr.thy ===== *)
theory Ylr
  imports Yclosure
begin

text \<open>
  What \<open>closure\<close> computes: the closure of the kernel in the sense of LR(1), an item being a
  place in the production memory.  \<open>lr_item\<close> and \<open>lr_look\<close> define it by derivations; the worklist
  invariant \<open>wclosed\<close> (an entry off the list has its productions entered with all it
  contributes) makes the result a closed set, the invariant \<open>winv\<close> keeps it inside the closure.
\<close>

subsection \<open>The closure of a kernel\<close>

definition firsts :: "rule list \<Rightarrow> int list \<Rightarrow> nat set" where
  "firsts rs r = {nat t | t w. is_token t \<and> derives rs r (t # w)}"

definition nulls :: "rule list \<Rightarrow> int list \<Rightarrow> bool" where
  "nulls rs r \<longleftrightarrow> derives rs r []"

inductive lr_item :: "grammar \<Rightarrow> nat set \<Rightarrow> nat \<Rightarrow> bool" for g K where
  kernel: "p \<in> K \<Longrightarrow> lr_item g K p"
| enter: "lr_item g K p \<Longrightarrow> NTBASE \<le> gmem g ! p \<Longrightarrow> s \<in> set (pres_row g (ntix (gmem g ! p))) \<Longrightarrow>
    lr_item g K s"

inductive lr_look :: "rule list \<Rightarrow> grammar \<Rightarrow> (nat \<times> nat set) set \<Rightarrow> nat \<Rightarrow> nat \<Rightarrow> bool" for rs g K where
  kernel: "(p, L) \<in> K \<Longrightarrow> t \<in> L \<Longrightarrow> lr_look rs g K p t"
| first: "lr_item g (fst ` K) p \<Longrightarrow> NTBASE \<le> gmem g ! p \<Longrightarrow> s \<in> set (pres_row g (ntix (gmem g ! p))) \<Longrightarrow>
    t \<in> firsts rs (rhs_at (gmem g) (Suc p)) \<Longrightarrow> lr_look rs g K s t"
| pass: "lr_look rs g K p t \<Longrightarrow> NTBASE \<le> gmem g ! p \<Longrightarrow> s \<in> set (pres_row g (ntix (gmem g ! p))) \<Longrightarrow>
    nulls rs (rhs_at (gmem g) (Suc p)) \<Longrightarrow> lr_look rs g K s t"

subsection \<open>The lookahead of an entry\<close>

lemma nulls_nullable:
  assumes "wf_rules st nn rs"
  shows "nulls (all_rules st rs) r \<longleftrightarrow> (\<forall>n \<in> set r. nullable (all_rules st rs) n)"
proof
  assume "nulls (all_rules st rs) r"
  then have "\<forall>n \<in> set r. marked False (all_rules st rs) n"
    using derives_marked [of _ r "[]" False] by (simp add: nulls_def)
  moreover have "\<forall>(B, q) \<in> set (all_rules st rs). \<forall>s \<in> set q. s < NTBASE \<longrightarrow> is_token s"
    using added_not_in_rhs [OF assms] by (fastforce simp: is_nonterm_def)
  ultimately show "\<forall>n \<in> set r. nullable (all_rules st rs) n" by (simp add: nullable_marked)
qed (simp add: nulls_def derives_nulls)

lemma firsts_iff:
  "t \<in> firsts rs r \<longleftrightarrow> (\<exists>y u s v. t = nat y \<and> is_token y \<and> r = u @ s # v \<and>
    (\<forall>n \<in> set u. nullable rs n) \<and> (s = y \<or> begins rs s y))"
proof
  assume "t \<in> firsts rs r"
  then obtain y w where "t = nat y" "is_token y" "derives rs r (y # w)" by (auto simp: firsts_def)
  with derives_begins show "\<exists>y u s v. t = nat y \<and> is_token y \<and> r = u @ s # v \<and>
    (\<forall>n \<in> set u. nullable rs n) \<and> (s = y \<or> begins rs s y)" by blast
next
  assume "\<exists>y u s v. t = nat y \<and> is_token y \<and> r = u @ s # v \<and>
    (\<forall>n \<in> set u. nullable rs n) \<and> (s = y \<or> begins rs s y)"
  then obtain y u s v where y: "t = nat y" "is_token y" "r = u @ s # v" "\<forall>n \<in> set u. nullable rs n"
    "s = y \<or> begins rs s y" by blast
  from y(5) obtain w where "derives rs [s] (y # w)" using begins_derives by blast
  then have "derives rs (u @ [s] @ v) ([] @ (y # w) @ v)"
    by (intro derives_append derives_nulls y(4)) (assumption, rule rtranclp.rtrancl_refl)
  with y(1-3) show "t \<in> firsts rs r" by (auto simp: firsts_def)
qed

lemma firsts_Nil [simp]: "firsts rs [] = {}"
  by (auto simp: firsts_iff)

lemma firsts_Cons:
  "firsts rs (x # r) = {nat y | y. is_token y \<and> (x = y \<or> begins rs x y)} \<union> (if nullable rs x then firsts rs r else {})"
proof -
  define E where "E t s \<longleftrightarrow> (\<exists>y. t = nat y \<and> is_token y \<and> (s = y \<or> begins rs s y))" for t s
  define P where "P s \<longleftrightarrow> (\<exists>u v. r = u @ s # v \<and> (\<forall>n \<in> set u. nullable rs n))" for s
  have "t \<in> firsts rs (x # r) \<longleftrightarrow> (\<exists>s. E t s \<and> (x = s \<or> nullable rs x \<and> P s))" for t
    unfolding firsts_iff E_def P_def prefix_Cons [symmetric] by blast
  moreover have "t \<in> firsts rs r \<longleftrightarrow> (\<exists>s. E t s \<and> P s)" for t
    unfolding firsts_iff E_def P_def by blast
  moreover have "{nat y | y. is_token y \<and> (x = y \<or> begins rs x y)} = {t. E t x}"
    by (auto simp: E_def)
  ultimately show ?thesis by (intro set_eqI) auto
qed

text \<open>The symbols after the dot.\<close>

definition item_ok :: "tables \<Rightarrow> nat \<Rightarrow> bool" where
  "item_ok T p \<longleftrightarrow> good_item (nnonter (tgram T)) (gmem (tgram T)) p \<and>
    (\<forall>x \<in> set (rhs_at (gmem (tgram T)) p). is_token x \<longrightarrow> nat x < 32 * tbitset (tgram T))"

lemma item_ok_lt: "item_ok T p \<Longrightarrow> p < length (gmem (tgram T))"
  by (metis append_is_Nil_conv drop_all good_drop item_ok_def linorder_not_less list.distinct(1))

lemma rhs_at_nth:
  assumes "p < length m" "0 < m ! p"
  shows "rhs_at m p = m ! p # rhs_at m (Suc p)"
  using assms by (simp add: rhs_at_def Cons_nth_drop_Suc [symmetric])

lemma item_ok_Suc:
  assumes "item_ok T p" "0 < gmem (tgram T) ! p"
  shows "item_ok T (Suc p)" "is_token (gmem (tgram T) ! p) \<or> is_nonterm (nnonter (tgram T)) (gmem (tgram T) ! p)"
proof -
  let ?m = "gmem (tgram T)"
  have lt: "p < length ?m" using assms(1) by (rule item_ok_lt)
  note r = rhs_at_nth [OF lt assms(2)]
  from assms(1) have g: "good_item (nnonter (tgram T)) ?m p" by (simp add: item_ok_def)
  then obtain t rest where d: "drop p ?m = rhs_at ?m p @ t # rest" "t \<le> 0" by (rule good_drop)
  from d(1) lt have "drop (Suc p) ?m = rhs_at ?m (Suc p) @ t # rest"
    unfolding r by (simp add: Cons_nth_drop_Suc [symmetric])
  with g d(2) assms(1) show "item_ok T (Suc p)" unfolding item_ok_def good_item_def r by auto
  show "is_token (?m ! p) \<or> is_nonterm (nnonter (tgram T)) (?m ! p)" using g by (simp add: good_item_def r)
qed

lemma follow_set_eq:
  assumes T: "tables_ok st nn tb lsz rs T"
    and r: "\<forall>x \<in> set r. (is_token x \<and> nat x < 32 * tb) \<or> is_nonterm nn x"
    and l: "length cl = tb" "length vl = tb" and t: "t \<le> 0"
  shows "\<exists>cl'. follow_set T vl cl (r @ t # m) = Some cl' \<and> length cl' = tb \<and>
    members cl' = members cl \<union> firsts (all_rules st rs) r \<union>
      (if nulls (all_rules st rs) r then members vl else {})"
  using r l(1)
proof (induction r arbitrary: cl)
  case Nil
  then show ?case using lsets.merge_elems [of cl tb vl] l(2) t by (simp add: nulls_def)
next
  case (Cons x r)
  let ?R = "all_rules st rs"
  have wf: "wf_rules st nn rs" and mk: "marks nn False rs (tpempty T)" using T by (auto simp: tables_ok_def)
  note nls = nulls_nullable [OF wf]
  have nr: "nulls ?R (x # r) \<longleftrightarrow> nullable ?R x \<and> nulls ?R r" by (simp add: nls)
  consider "is_token x" "nat x < 32 * tb" | "is_nonterm nn x" using Cons.prems(1) by auto
  then show ?case
  proof cases
    case 1
    have "\<not> nullable ?R x"
      using nt_null_nullable [OF wf mk, of x] 1(1) by (simp add: nt_null_def is_token_def)
    moreover have "\<not> begins ?R x y" for y
    proof
      assume "begins ?R x y"
      then obtain q where "(x, q) \<in> set ?R" by (metis begins.cases)
      with 1(1) wf_rulesD(1) [OF wf] show False by (fastforce simp: all_rules_def is_token_def)
    qed
    ultimately have "firsts ?R (x # r) = {nat x}" using 1(1) by (auto simp: firsts_Cons)
    with SETBIT_Some [of "nat x" cl] 1 Cons.prems(2) \<open>\<not> nullable ?R x\<close> show ?thesis
      by (auto simp: nr is_token_def)
  next
    case 2
    then have x: "NTBASE \<le> x" "ntix x \<le> nn" "x = NTBASE + int (ntix x)" by (auto simp: is_nonterm_def)
    let ?f = "tlkst T ! (tpfirst T ! ntix x)"
    have f: "ntix x < length (tpfirst T)" "tpfirst T ! ntix x < length (tlkst T)" "length ?f = tb"
      "members ?f = First ?R x" using T x by (auto simp: tables_ok_def)
    have e: "ntix x < length (tpempty T)" using mk x(2) by (simp add: marks_def pe_ok_def)
    have nx: "tpempty T ! ntix x \<noteq> 0 \<longleftrightarrow> nullable ?R x"
      using nt_null_nullable [OF wf mk, of x] 2 x(1) by (simp add: nt_null_def)
    have fx: "First ?R x = {nat y | y. is_token y \<and> (x = y \<or> begins ?R x y)}"
      using First_begins [OF x(1), of ?R] begins_token [of ?R x] x(1) by (auto simp: is_token_def)
    let ?cl = "fst (setunion cl ?f)"
    have cl: "length ?cl = tb" "members ?cl = members cl \<union> First ?R x"
      using lsets.merge_elems [of cl tb ?f] f Cons.prems(2) by simp_all
    show ?thesis
    proof (cases "nullable ?R x")
      case True
      with Cons.IH [of ?cl] cl Cons.prems(1) obtain cl' where "follow_set T vl ?cl (r @ t # m) = Some cl'"
        "length cl' = tb" "members cl' = members ?cl \<union> firsts ?R r \<union> (if nulls ?R r then members vl else {})"
        by auto
      with True x(1) f(1,2) e nx cl(2) show ?thesis
        by (auto simp: firsts_Cons fx [symmetric] nr Let_def simp del: members_setunion)
    next
      case False
      with x(1) f(1,2) e nx cl show ?thesis
        by (auto simp: firsts_Cons fx [symmetric] nr Let_def)
    qed
  qed
qed

subsection \<open>Invariants\<close>

abbreviation rowp :: "tables \<Rightarrow> nat \<Rightarrow> nat list" where
  "rowp T p \<equiv> pres_row (tgram T) (ntix (gmem (tgram T) ! p))"

definition fol :: "rule list \<Rightarrow> tables \<Rightarrow> wset \<Rightarrow> nat set" where
  "fol R T v = firsts R (rhs_at (gmem (tgram T)) (Suc (wpitem v))) \<union>
    (if nulls R (rhs_at (gmem (tgram T)) (Suc (wpitem v))) then members (wlset v) else {})"

definition entry_ok :: "rule list \<Rightarrow> tables \<Rightarrow> bool \<Rightarrow> (nat \<times> nat set) list \<Rightarrow> wset \<Rightarrow> bool" where
  "entry_ok R T nl K v \<longleftrightarrow> length (wlset v) = tbitset (tgram T) \<and> item_ok T (wpitem v) \<and>
    lr_item (tgram T) (fst ` set K) (wpitem v) \<and>
    (nl \<or> members (wlset v) \<subseteq> {t. lr_look R (tgram T) (set K) (wpitem v) t})"

definition kernel_ok :: "bool \<Rightarrow> (nat \<times> nat set) list \<Rightarrow> wset list \<Rightarrow> bool" where
  "kernel_ok nl K ws \<longleftrightarrow> length K \<le> length ws \<and>
    (\<forall>k < length K. wpitem (ws ! k) = fst (K ! k) \<and> snd (K ! k) \<subseteq> members (wlset (ws ! k)) \<and>
      (nl \<longrightarrow> members (wlset (ws ! k)) = snd (K ! k)))"

definition roomy :: "tables \<Rightarrow> nat \<Rightarrow> wstate \<Rightarrow> bool" where
  "roomy T n st \<longleftrightarrow> n + length (prdptr (tgram T)) < wsetsz st \<or> WSETSIZE \<le> wsetsz st"

definition winv :: "rule list \<Rightarrow> tables \<Rightarrow> bool \<Rightarrow> (nat \<times> nat set) list \<Rightarrow> wstate \<Rightarrow> bool" where
  "winv R T nl K st \<longleftrightarrow> (\<forall>v \<in> set (wused st). entry_ok R T nl K v) \<and>
    (\<forall>l \<in> set (wfree st). length l = tbitset (tgram T)) \<and>
    distinct (map wpitem (wused st)) \<and> kernel_ok nl K (wused st) \<and> roomy T (length K) st"

definition entered :: "bool \<Rightarrow> wset list \<Rightarrow> nat \<Rightarrow> nat set \<Rightarrow> bool" where
  "entered nl ws s F \<longleftrightarrow> (\<exists>v \<in> set ws. wpitem v = s \<and> (nl \<or> F \<subseteq> members (wlset v)))"

definition wclosed :: "rule list \<Rightarrow> tables \<Rightarrow> bool \<Rightarrow> wset list \<Rightarrow> bool" where
  "wclosed R T nl ws \<longleftrightarrow> (\<forall>v \<in> set ws. \<not> wflag v \<and> NTBASE \<le> gmem (tgram T) ! wpitem v \<longrightarrow>
    (\<forall>s \<in> set (rowp T (wpitem v)). entered nl ws s (fol R T v)))"

text \<open>How a step may change the entries: they keep their items, their sets grow, and an entry
  that is not flagged is as it was.\<close>

definition wgrow :: "wset list \<Rightarrow> wset list \<Rightarrow> bool" where
  "wgrow ws ws' \<longleftrightarrow> length ws \<le> length ws' \<and>
    (\<forall>k < length ws. wpitem (ws' ! k) = wpitem (ws ! k) \<and>
      members (wlset (ws ! k)) \<subseteq> members (wlset (ws' ! k)) \<and> (\<not> wflag (ws' ! k) \<longrightarrow> ws' ! k = ws ! k)) \<and>
    (\<forall>k < length ws'. length ws \<le> k \<longrightarrow> wflag (ws' ! k))"

lemma wgrow_refl: "wgrow ws ws"
  by (simp add: wgrow_def)

lemma wgrowD:
  assumes "wgrow ws ws'"
  shows "length ws \<le> length ws'"
    and "k < length ws \<Longrightarrow> wpitem (ws' ! k) = wpitem (ws ! k)"
    and "k < length ws \<Longrightarrow> members (wlset (ws ! k)) \<subseteq> members (wlset (ws' ! k))"
    and "k < length ws \<Longrightarrow> \<not> wflag (ws' ! k) \<Longrightarrow> ws' ! k = ws ! k"
    and "k < length ws' \<Longrightarrow> length ws \<le> k \<Longrightarrow> wflag (ws' ! k)"
  using assms unfolding wgrow_def by blast+

lemma wgrow_trans:
  assumes g: "wgrow ws ws'" and h: "wgrow ws' ws''"
  shows "wgrow ws ws''"
  unfolding wgrow_def
proof (intro conjI allI impI)
  show "length ws \<le> length ws''" using wgrowD(1) [OF g] wgrowD(1) [OF h] by simp
next
  fix k assume k: "k < length ws"
  then have k': "k < length ws'" using wgrowD(1) [OF g] by simp
  show "wpitem (ws'' ! k) = wpitem (ws ! k)" using wgrowD(2) [OF g k] wgrowD(2) [OF h k'] by simp
  show "members (wlset (ws ! k)) \<subseteq> members (wlset (ws'' ! k))"
    using wgrowD(3) [OF g k] wgrowD(3) [OF h k'] by (rule subset_trans)
  assume n: "\<not> wflag (ws'' ! k)"
  have "ws'' ! k = ws' ! k" by (rule wgrowD(4) [OF h k' n])
  moreover from this n have "\<not> wflag (ws' ! k)" by metis
  from wgrowD(4) [OF g k this] have "ws' ! k = ws ! k" .
  ultimately show "ws'' ! k = ws ! k" by (rule trans)
next
  fix k assume k: "k < length ws''" "length ws \<le> k"
  show "wflag (ws'' ! k)"
  proof (cases "k < length ws'")
    case True
    from wgrowD(5) [OF g True k(2)] wgrowD(4) [OF h True] show ?thesis by metis
  next
    case False
    with wgrowD(5) [OF h k(1)] show ?thesis by simp
  qed
qed

lemma wgrow_entered: "wgrow ws ws' \<Longrightarrow> entered nl ws s F \<Longrightarrow> entered nl ws' s F"
proof -
  assume g: "wgrow ws ws'" and "entered nl ws s F"
  then obtain v where "v \<in> set ws" "wpitem v = s" "nl \<or> F \<subseteq> members (wlset v)"
    by (auto simp: entered_def)
  then obtain k where k: "k < length ws" "wpitem (ws ! k) = s" "nl \<or> F \<subseteq> members (wlset (ws ! k))"
    by (auto simp: in_set_conv_nth)
  then have "k < length ws'" "wpitem (ws' ! k) = s" "nl \<or> F \<subseteq> members (wlset (ws' ! k))"
    using wgrowD [OF g] by (simp, simp, blast)
  then show "entered nl ws' s F" unfolding entered_def by (intro bexI [of _ "ws' ! k"]) auto
qed

lemma entered_mono: "entered nl ws s F \<Longrightarrow> nl \<or> F' \<subseteq> F \<Longrightarrow> entered nl ws s F'"
  by (auto simp: entered_def)

lemma entered_flags:
  assumes "map wpitem ws' = map wpitem ws" "map wlset ws' = map wlset ws"
  shows "entered nl ws' s F \<longleftrightarrow> entered nl ws s F"
proof -
  have e: "entered nl vs s F \<longleftrightarrow> (\<exists>x \<in> set (zip (map wpitem vs) (map wlset vs)). fst x = s \<and> (nl \<or> F \<subseteq> members (snd x)))" for vs
    by (auto simp: entered_def zip_map_map zip_same_conv_map)
  show ?thesis unfolding e assms ..
qed

lemma wgrow_kernel: "wgrow ws ws' \<Longrightarrow> kernel_ok False K ws \<Longrightarrow> kernel_ok False K ws'"
  unfolding kernel_ok_def wgrow_def by (metis (no_types, lifting) order_less_le_trans order_trans)

lemma tables_okD:
  assumes "tables_ok st nn tb lsz rs T"
  shows "wf_rules st nn rs" "tokens_fit tb (all_rules st rs)" "tgram T = setup_rules st nn tb lsz rs"
    "nnonter (tgram T) = nn" "tbitset (tgram T) = tb" "tpres T = map (pres_row (tgram T)) [0..<nn + 1]"
  using assms by (auto simp: tables_ok_def)

lemma row_item_ok:
  assumes T: "tables_ok st nn tb lsz rs T" and s: "s \<in> set (pres_row (tgram T) i)"
  shows "item_ok T s"
proof -
  note t = tables_okD [OF T]
  have g: "good_item nn (gmem (tgram T)) s" "(NTBASE + int i, rhs_at (gmem (tgram T)) s) \<in> set (all_rules st rs)"
    using pres_row_good [OF t(1)] s unfolding t(3) by blast+
  have "\<forall>x \<in> set (rhs_at (gmem (tgram T)) s). is_token x \<longrightarrow> nat x < 32 * tb"
    using t(2) g(2) by (auto simp: tokens_fit_def)
  with g(1) t(4,5) show ?thesis by (simp add: item_ok_def)
qed

lemma row_ent:
  assumes T: "tables_ok st nn tb lsz rs T" and p: "item_ok T p" "NTBASE \<le> gmem (tgram T) ! p"
  shows "ent (tpres T) (ntix (gmem (tgram T) ! p)) = Some (rowp T p)"
proof -
  note t = tables_okD [OF T]
  have "is_token (gmem (tgram T) ! p) \<or> is_nonterm nn (gmem (tgram T) ! p)"
    using item_ok_Suc(2) [OF p(1)] p(2) t(4) by simp
  with p(2) have "ntix (gmem (tgram T) ! p) < nn + 1" by (auto simp: is_token_def is_nonterm_def)
  then show ?thesis unfolding t(6) by (simp del: upt_Suc)
qed

text \<open>The items of the working sets are the kernel and productions, so their number is bounded.\<close>

lemma lr_item_bound: "lr_item g K p \<Longrightarrow> p \<in> K \<or> p \<in> Suc ` set (prdptr g)"
  by (induction rule: lr_item.induct) (auto simp: pres_row_def)

lemma winv_bound:
  assumes "winv R T nl K st" "lr_item (tgram T) (fst ` set K) s" "s \<notin> wpitem ` set (wused st)"
  shows "length (wused st) + 1 \<le> length K + length (prdptr (tgram T))"
proof -
  let ?A = "set (map fst K @ map Suc (prdptr (tgram T)))"
  have "insert s (set (map wpitem (wused st))) \<subseteq> ?A"
    using assms(1,2) lr_item_bound by (fastforce simp: winv_def entry_ok_def)
  then have "card (insert s (set (map wpitem (wused st)))) \<le> card ?A" by (intro card_mono) auto
  also have "\<dots> \<le> length K + length (prdptr (tgram T))"
    using card_length [of "map fst K @ map Suc (prdptr (tgram T))"] by simp
  finally show ?thesis
    using assms(1,3) by (simp add: winv_def distinct_card del: set_map) (simp add: distinct_card flip: set_map)
qed

subsection \<open>The steps keep the invariants\<close>

lemma winv_entry: "winv R T nl K st \<Longrightarrow> k < length (wused st) \<Longrightarrow> entry_ok R T nl K (wused st ! k)"
  by (simp add: winv_def)

lemma add_seen:
  assumes inv: "winv R T nl K st" and k: "find_item (wused st) s = Some k"
    and cl: "length cl = tbitset (tgram T)" "nl \<or> members cl \<subseteq> {t. lr_look R (tgram T) (set K) s t}"
  shows "\<exists>st' w'. add_prod T nl cl s st w = Some (st', w') \<and> winv R T nl K st' \<and>
    wgrow (wused st) (wused st') \<and> entered nl (wused st') s (members cl) \<and>
    (\<not> w' \<longrightarrow> \<not> w \<and> (\<forall>j < length (wused st). wused st' ! j = wused st ! j))"
proof -
  let ?v = "wused st ! k"
  let ?u = "setunion (wlset ?v) cl"
  let ?x = "?v\<lparr>wlset := fst ?u, wflag := True\<rparr>"
  have kk: "k < length (wused st)" "wpitem ?v = s" using find_item_Some [OF k] by auto
  have e: "entry_ok R T nl K ?v" using inv kk(1) by (rule winv_entry)
  then have lv: "length (wlset ?v) = tbitset (tgram T)" by (simp add: entry_ok_def)
  show ?thesis
  proof (cases "nl \<or> \<not> snd ?u")
    case True
    have "entered nl (wused st) s (members cl)"
      unfolding entered_def using kk True lsets.merge_changed [OF lv cl(1)]
      by (intro bexI [of _ ?v]) auto
    then show ?thesis using True k inv by (auto simp: add_prod_def Let_def wgrow_refl)
  next
    case False
    have mx: "members (wlset ?x) = members (wlset ?v) \<union> members cl"
      using lsets.merge_elems [OF lv cl(1)] by simp
    have "entry_ok R T nl K ?x" using e cl kk(2) mx by (auto simp: entry_ok_def)
    moreover have "map wpitem ((wused st)[k := ?x]) = map wpitem (wused st)"
      using kk by (simp add: map_update) (metis list_update_id nth_map)
    moreover have g: "wgrow (wused st) ((wused st)[k := ?x])"
      using kk mx by (auto simp: wgrow_def nth_list_update)
    moreover have "kernel_ok nl K ((wused st)[k := ?x])"
      using wgrow_kernel [OF g] inv False by (simp add: winv_def)
    ultimately have "winv R T nl K (st\<lparr>wused := (wused st)[k := ?x]\<rparr>)"
      using inv set_update_subset_insert [of "wused st" k ?x]
      by (auto simp: winv_def roomy_def wsetsz_def)
    moreover have "entered nl ((wused st)[k := ?x]) s (members cl)"
      unfolding entered_def using kk mx by (intro bexI [of _ ?x]) (auto intro: set_update_memI)
    ultimately show ?thesis using False k g by (auto simp: add_prod_def Let_def)
  qed
qed

lemma add_new:
  assumes T: "tables_ok st0 nn tb lsz rs T" and inv: "winv R T nl K st" and n: "find_item (wused st) s = None"
    and s: "item_ok T s" "lr_item (tgram T) (fst ` set K) s"
    and cl: "length cl = tbitset (tgram T)" "nl \<or> members cl \<subseteq> {t. lr_look R (tgram T) (set K) s t}"
  shows "\<exists>st' w'. add_prod T nl cl s st w = Some (st', w') \<and> winv R T nl K st' \<and>
    wgrow (wused st) (wused st') \<and> entered nl (wused st') s (members cl) \<and>
    (\<not> w' \<longrightarrow> \<not> w \<and> (\<forall>j < length (wused st). wused st' ! j = wused st ! j))"
proof -
  have ns: "s \<notin> wpitem ` set (wused st)" using n by (simp add: find_item_None)
  note b = winv_bound [OF inv s(2) ns]
  let ?ex = "if length (wused st) + 1 \<ge> wsetsz st then exp_wsets (tbitset (tgram T)) st else Some st"
  have "\<exists>st1. ?ex = Some st1 \<and> wused st1 = wused st \<and> roomy T (length K) st1 \<and> wfree st1 \<noteq> [] \<and>
      (\<forall>l \<in> set (wfree st1). length l = tbitset (tgram T))"
    using inv b by (auto simp: winv_def roomy_def exp_wsets_def wsetsz_def)
  then obtain st1 l ls where st1: "?ex = Some st1" "wused st1 = wused st" "roomy T (length K) st1"
    "wfree st1 = l # ls" "\<forall>l \<in> set (wfree st1). length l = tbitset (tgram T)"
    by (metis neq_Nil_conv)
  let ?x = "\<lparr> wpitem = s, wflag = True, wlset = if nl then l else cl \<rparr>"
  let ?st = "\<lparr> wused = wused st @ [?x], wfree = ls \<rparr>"
  have a: "add_prod T nl cl s st w = Some (?st, if nl then w else True)"
    using n st1 by (simp add: add_prod_def)
  have "entry_ok R T nl K ?x" using s cl st1(4,5) by (auto simp: entry_ok_def)
  then have "winv R T nl K ?st"
    using inv ns st1 by (auto simp: winv_def kernel_ok_def nth_append roomy_def wsetsz_def)
  moreover have "wgrow (wused st) (wused ?st)" by (auto simp: wgrow_def nth_append less_Suc_eq)
  moreover have "entered nl (wused ?st) s (members cl)" by (auto simp: entered_def)
  ultimately show ?thesis using a by (auto simp: nth_append)
qed

lemma add_prods_step:
  assumes T: "tables_ok st0 nn tb lsz rs T"
    and p: "item_ok T p" "lr_item (tgram T) (fst ` set K) p" "NTBASE \<le> gmem (tgram T) ! p"
    and cl: "length cl = tbitset (tgram T)"
    and inv: "winv R T nl K st" and ss: "set ss \<subseteq> set (rowp T p)"
    and snd: "nl \<or> (\<forall>s \<in> set ss. members cl \<subseteq> {t. lr_look R (tgram T) (set K) s t})"
  shows "\<exists>st' w'. add_prods T nl cl ss st w = Some (st', w') \<and> winv R T nl K st' \<and>
    wgrow (wused st) (wused st') \<and> (\<forall>s \<in> set ss. entered nl (wused st') s (members cl)) \<and>
    (\<not> w' \<longrightarrow> \<not> w \<and> (\<forall>j < length (wused st). wused st' ! j = wused st ! j))"
  using inv ss snd
proof (induction ss arbitrary: st w)
  case (Cons s ss)
  have s: "item_ok T s" "lr_item (tgram T) (fst ` set K) s"
    using row_item_ok [OF T] lr_item.enter [OF p(2,3)] Cons.prems(2) by auto
  have "nl \<or> members cl \<subseteq> {t. lr_look R (tgram T) (set K) s t}" using Cons.prems(3) by auto
  then obtain st1 w1 where 1: "add_prod T nl cl s st w = Some (st1, w1)" "winv R T nl K st1"
    "wgrow (wused st) (wused st1)" "entered nl (wused st1) s (members cl)"
    "\<not> w1 \<longrightarrow> \<not> w \<and> (\<forall>j < length (wused st). wused st1 ! j = wused st ! j)"
    using add_seen [OF Cons.prems(1) _ cl, of s _ w] add_new [OF T Cons.prems(1) _ s cl, of w]
    by (cases "find_item (wused st) s") metis+
  obtain st2 w2 where 2: "add_prods T nl cl ss st1 w1 = Some (st2, w2)" "winv R T nl K st2"
    "wgrow (wused st1) (wused st2)" "\<forall>s \<in> set ss. entered nl (wused st2) s (members cl)"
    "\<not> w2 \<longrightarrow> \<not> w1 \<and> (\<forall>j < length (wused st1). wused st2 ! j = wused st1 ! j)"
    using Cons.IH [OF 1(2), of w1] Cons.prems(2,3) by auto
  have "\<not> w2 \<longrightarrow> \<not> w \<and> (\<forall>j < length (wused st). wused st2 ! j = wused st ! j)"
    using 1(5) 2(5) wgrowD(1) [OF 1(3)] by simp
  then show ?case
    using 1(1) 2 wgrow_trans [OF 1(3) 2(3)] wgrow_entered [OF 2(3) 1(4)] by simp
qed (simp add: wgrow_refl)

text \<open>Gathering takes the flag off the entries it uses and collects what they contribute.\<close>

definition unflag :: "tables \<Rightarrow> int \<Rightarrow> wset \<Rightarrow> wset" where
  "unflag T c v = (if wflag v \<and> gmem (tgram T) ! wpitem v = c then v\<lparr>wflag := False\<rparr> else v)"

lemma unflag_sel [simp]: "wpitem (unflag T c v) = wpitem v" "wlset (unflag T c v) = wlset v"
  by (simp_all add: unflag_def)

lemma follow_entry:
  assumes T: "tables_ok st0 nn tb lsz rs T" and v: "entry_ok (all_rules st0 rs) T nl K v"
    and c: "NTBASE \<le> gmem (tgram T) ! wpitem v" and cl: "length cl = tb"
  shows "\<exists>cl'. follow_set T (wlset v) cl (drop (Suc (wpitem v)) (gmem (tgram T))) = Some cl' \<and>
    length cl' = tb \<and> members cl' = members cl \<union> fol (all_rules st0 rs) T v"
proof -
  let ?m = "gmem (tgram T)" and ?p = "Suc (wpitem v)"
  note t = tables_okD [OF T]
  have i: "item_ok T ?p" using item_ok_Suc(1) [of T "wpitem v"] v c by (simp add: entry_ok_def)
  then obtain t rest where d: "drop ?p ?m = rhs_at ?m ?p @ t # rest" "t \<le> 0"
    by (auto simp: item_ok_def elim: good_drop)
  have r: "\<forall>x \<in> set (rhs_at ?m ?p). is_token x \<and> nat x < 32 * tb \<or> is_nonterm nn x"
    using i t(4,5) by (auto simp: item_ok_def good_item_def)
  have "length (wlset v) = tb" using v t(5) by (simp add: entry_ok_def)
  from follow_set_eq [OF T r cl this d(2), of rest] show ?thesis
    unfolding d(1) fol_def by (simp add: Un_assoc)
qed

lemma gather_eq:
  assumes T: "tables_ok st0 nn tb lsz rs T"
    and vs: "\<forall>v \<in> set vs. entry_ok (all_rules st0 rs) T nl K v" and c: "NTBASE \<le> c" and cl: "length cl = tb"
  shows "\<exists>cl'. gather T nl c cl vs = Some (map (unflag T c) vs, cl') \<and> length cl' = tb \<and>
    (if nl then cl' = cl else members cl' = members cl \<union>
      (\<Union>v \<in> {v \<in> set vs. wflag v \<and> gmem (tgram T) ! wpitem v = c}. fol (all_rules st0 rs) T v))"
  using vs cl
proof (induction vs arbitrary: cl)
  case (Cons v vs)
  let ?m = "gmem (tgram T)"
  have v: "entry_ok (all_rules st0 rs) T nl K v" using Cons.prems by simp
  then have lt: "wpitem v < length ?m" by (auto simp: entry_ok_def intro: item_ok_lt)
  show ?case
  proof (cases "wflag v \<and> ?m ! wpitem v = c")
    case False
    have "{x \<in> set (v # vs). wflag x \<and> ?m ! wpitem x = c} = {x \<in> set vs. wflag x \<and> ?m ! wpitem x = c}"
      "unflag T c v = v" using False by (auto simp: unflag_def)
    moreover from Cons.IH [of cl] Cons.prems obtain cl' where
      "gather T nl c cl vs = Some (map (unflag T c) vs, cl')" "length cl' = tb"
      "if nl then cl' = cl else members cl' = members cl \<union>
        (\<Union>v \<in> {v \<in> set vs. wflag v \<and> ?m ! wpitem v = c}. fol (all_rules st0 rs) T v)" by auto
    moreover from this(1) False lt have "gather T nl c cl (v # vs) = Some (v # map (unflag T c) vs, cl')"
      by auto
    ultimately show ?thesis by (intro exI [of _ cl']) (simp only: list.map simp_thms)
  next
    case True
    obtain cl1 where cl1: "(if nl then Some cl else follow_set T (wlset v) cl (drop (Suc (wpitem v)) ?m)) = Some cl1"
      "length cl1 = tb" "if nl then cl1 = cl else members cl1 = members cl \<union> fol (all_rules st0 rs) T v"
      using follow_entry [OF T v _ Cons.prems(2)] True c Cons.prems(2) by (cases nl) auto
    obtain cl' where cl': "gather T nl c cl1 vs = Some (map (unflag T c) vs, cl')" "length cl' = tb"
      "if nl then cl' = cl1 else members cl' = members cl1 \<union>
        (\<Union>v \<in> {v \<in> set vs. wflag v \<and> ?m ! wpitem v = c}. fol (all_rules st0 rs) T v)"
      using Cons.IH [of cl1] Cons.prems(1) cl1(2) by auto
    have "{x \<in> set (v # vs). wflag x \<and> ?m ! wpitem x = c} = insert v {x \<in> set vs. wflag x \<and> ?m ! wpitem x = c}"
      using True by auto
    then have "if nl then cl' = cl else members cl' = members cl \<union>
        (\<Union>v \<in> {x \<in> set (v # vs). wflag x \<and> ?m ! wpitem x = c}. fol (all_rules st0 rs) T v)"
      using cl1(3) cl'(3) by (auto split: if_splits)
    then show ?thesis using True lt cl1(1) cl'(1,2) by (auto simp: unflag_def)
  qed
qed simp

lemma flags_off:
  assumes inv: "winv R T nl K st" and maps: "map wpitem ws = map wpitem (wused st)"
    "map wlset ws = map wlset (wused st)"
  shows "winv R T nl K (st\<lparr>wused := ws\<rparr>)"
proof -
  have len: "length ws = length (wused st)" using map_eq_imp_length_eq [OF maps(1)] .
  have nth: "wpitem (ws ! k) = wpitem (wused st ! k) \<and> wlset (ws ! k) = wlset (wused st ! k)"
    if "k < length ws" for k using that len maps by (metis nth_map)
  have "entry_ok R T nl K v" if "v \<in> set ws" for v
  proof -
    from that obtain k where "k < length ws" "v = ws ! k" by (auto simp: in_set_conv_nth)
    with nth len winv_entry [OF inv, of k] show ?thesis by (simp add: entry_ok_def)
  qed
  moreover have "kernel_ok nl K ws" using inv nth len by (simp add: winv_def kernel_ok_def)
  ultimately show ?thesis using inv maps(1) len by (simp add: winv_def roomy_def wsetsz_def)
qed

text \<open>One entry worked off.\<close>

definition done_to :: "nat \<Rightarrow> bool \<Rightarrow> wset list \<Rightarrow> bool" where
  "done_to i w ws \<longleftrightarrow> (\<not> w \<longrightarrow> (\<forall>k < i. k < length ws \<longrightarrow> \<not> wflag (ws ! k)))"

lemma wclosed_flags_off:
  assumes cl: "wclosed R T nl ws" and maps: "map wpitem ws1 = map wpitem ws" "map wlset ws1 = map wlset ws"
    and k: "k < length ws" "ws1 ! k = ws ! k" "\<not> wflag (ws ! k)" "NTBASE \<le> gmem (tgram T) ! wpitem (ws ! k)"
    and s: "s \<in> set (rowp T (wpitem (ws ! k)))"
  shows "entered nl ws1 s (fol R T (ws ! k))"
  unfolding entered_flags [OF maps] using cl k s by (simp add: wclosed_def)

lemma close_terminal:
  assumes inv: "winv R T nl K st" and cl: "wclosed R T nl (wused st)"
    and i: "i < length (wused st)" and c: "gmem (tgram T) ! wpitem (wused st ! i) < NTBASE"
  defines "ws \<equiv> (wused st)[i := (wused st ! i)\<lparr>wflag := False\<rparr>]"
  shows "winv R T nl K (st\<lparr>wused := ws\<rparr>)" "wclosed R T nl ws"
proof -
  have maps: "map wpitem ws = map wpitem (wused st)" "map wlset ws = map wlset (wused st)"
    using i by (simp_all add: ws_def map_update) (metis list_update_id nth_map)+
  show "winv R T nl K (st\<lparr>wused := ws\<rparr>)" by (rule flags_off [OF inv maps])
  show "wclosed R T nl ws"
    unfolding wclosed_def
  proof (intro ballI impI, elim conjE)
    fix v s assume v: "v \<in> set ws" "\<not> wflag v" "NTBASE \<le> gmem (tgram T) ! wpitem v"
      and s: "s \<in> set (rowp T (wpitem v))"
    then obtain k where k: "k < length (wused st)" "v = ws ! k" by (auto simp: in_set_conv_nth ws_def)
    with v(3) c have "k \<noteq> i" by (auto simp: ws_def)
    then have "ws ! k = wused st ! k" by (simp add: ws_def)
    with wclosed_flags_off [OF cl maps k(1), of s] v(2,3) s k(2) show "entered nl ws s (fol R T v)" by simp
  qed
qed

lemma close_one_step:
  assumes T: "tables_ok st0 nn tb lsz rs T" and inv: "winv (all_rules st0 rs) T nl K st"
    and cl: "wclosed (all_rules st0 rs) T nl (wused st)" and i: "i < length (wused st)"
    and dn: "done_to i w (wused st)"
  shows "\<exists>st' w'. close_one T nl i st w = Some (st', w') \<and> winv (all_rules st0 rs) T nl K st' \<and>
    wclosed (all_rules st0 rs) T nl (wused st') \<and> done_to (i + 1) w' (wused st')"
proof -
  let ?R = "all_rules st0 rs" and ?u = "wused st ! i" and ?m = "gmem (tgram T)"
  let ?c = "?m ! wpitem ?u"
  have u: "entry_ok ?R T nl K ?u" by (rule winv_entry [OF inv i])
  then have uo: "item_ok T (wpitem ?u)" "lr_item (tgram T) (fst ` set K) (wpitem ?u)"
    by (auto simp: entry_ok_def)
  note lt = item_ok_lt [OF uo(1)]
  consider "\<not> wflag ?u" | "wflag ?u" "?c < NTBASE" | "wflag ?u" "NTBASE \<le> ?c" by linarith
  then show ?thesis
  proof cases
    case 1
    then have "done_to (i + 1) w (wused st)" using dn by (auto simp: done_to_def less_Suc_eq)
    with 1 i inv cl show ?thesis by (simp add: close_one_def)
  next
    case 2
    let ?ws = "(wused st)[i := ?u\<lparr>wflag := False\<rparr>]"
    have "done_to (i + 1) w ?ws" using dn i by (auto simp: done_to_def less_Suc_eq nth_list_update)
    with 2 i lt close_terminal [OF inv cl i 2(2)] show ?thesis by (simp add: close_one_def)
  next
    case 3
    let ?D = "drop i (wused st)"
    let ?ws = "take i (wused st) @ map (unflag T ?c) ?D"
    have "\<forall>v \<in> set ?D. entry_ok ?R T nl K v" using inv by (auto simp: winv_def dest: in_set_dropD)
    from gather_eq [OF T this 3(2), of "aryfil tb 0"] obtain clk where
      g: "gather T nl ?c (aryfil tb 0) ?D = Some (map (unflag T ?c) ?D, clk)" "length clk = tb"
      "nl \<or> members clk = (\<Union>v \<in> {v \<in> set ?D. wflag v \<and> ?m ! wpitem v = ?c}. fol ?R T v)"
      by (auto simp: aryfil_def split: if_splits)
    have maps: "map wpitem ?ws = map wpitem (wused st)" "map wlset ?ws = map wlset (wused st)"
      by (simp_all add: comp_def flip: take_map drop_map)
    have inv1: "winv ?R T nl K (st\<lparr>wused := ?ws\<rparr>)" by (rule flags_off [OF inv maps])
    have wsk: "?ws ! k = (if k < i then wused st ! k else unflag T ?c (wused st ! k))"
      if "k < length (wused st)" for k using that i by (auto simp: nth_append)
    have snd: "nl \<or> (\<forall>s \<in> set (rowp T (wpitem ?u)). members clk \<subseteq> {t. lr_look ?R (tgram T) (set K) s t})"
    proof (cases nl)
      case False
      have "lr_look ?R (tgram T) (set K) s t" if s: "s \<in> set (rowp T (wpitem ?u))" and t: "t \<in> members clk" for s t
      proof -
        from t g(3) False obtain v where v: "v \<in> set ?D" "?m ! wpitem v = ?c" "t \<in> fol ?R T v" by auto
        then have e: "entry_ok ?R T nl K v" using inv by (auto simp: winv_def dest: in_set_dropD)
        have vc: "NTBASE \<le> ?m ! wpitem v" "s \<in> set (rowp T (wpitem v))" using s v(2) 3(2) by simp_all
        show ?thesis
        proof (cases "t \<in> firsts ?R (rhs_at ?m (Suc (wpitem v)))")
          case True
          then show ?thesis using e by (intro lr_look.first [OF _ vc]) (auto simp: entry_ok_def)
        next
          case n: False
          with v(3) have "nulls ?R (rhs_at ?m (Suc (wpitem v)))" "t \<in> members (wlset v)"
            by (auto simp: fol_def split: if_splits)
          with e False show ?thesis by (intro lr_look.pass [OF _ vc]) (auto simp: entry_ok_def)
        qed
      qed
      then show ?thesis by blast
    qed simp
    obtain st' w' where a: "add_prods T nl clk (rowp T (wpitem ?u)) (st\<lparr>wused := ?ws\<rparr>) w = Some (st', w')"
      "winv ?R T nl K st'" "wgrow ?ws (wused st')"
      "\<forall>s \<in> set (rowp T (wpitem ?u)). entered nl (wused st') s (members clk)"
      "\<not> w' \<longrightarrow> \<not> w \<and> (\<forall>j < length ?ws. wused st' ! j = ?ws ! j)"
      using add_prods_step [OF T uo 3(2) _ inv1 subset_refl snd, of w] g(2) tables_okD(5) [OF T] by auto
    have "close_one T nl i st w = Some (st', w')"
      using 3 i lt g(1) a(1) row_ent [OF T uo(1) 3(2)] tables_okD(5) [OF T] by (simp add: close_one_def)
    moreover have "wclosed ?R T nl (wused st')"
      unfolding wclosed_def
    proof (intro ballI impI, elim conjE)
      fix v s assume v: "v \<in> set (wused st')" "\<not> wflag v" "NTBASE \<le> ?m ! wpitem v"
        and s: "s \<in> set (rowp T (wpitem v))"
      then obtain k where k: "k < length (wused st')" "v = wused st' ! k" by (auto simp: in_set_conv_nth)
      have kl: "k < length ?ws" using wgrowD(5) [OF a(3) k(1)] v(2) k(2) by (meson linorder_not_less)
      have vk: "v = ?ws ! k" using wgrowD(4) [OF a(3) kl] v(2) k(2) by simp
      have kw: "k < length (wused st)" using kl i by simp
      show "entered nl (wused st') s (fol ?R T v)"
      proof (cases "i \<le> k \<and> wflag (wused st ! k) \<and> ?m ! wpitem (wused st ! k) = ?c")
        case True
        then have vx: "wpitem v = wpitem (wused st ! k)" "wlset v = wlset (wused st ! k)"
          using vk wsk [OF kw] by simp_all
        have "wused st ! k \<in> set ?D" using True kw i by (metis in_set_conv_nth le_add_diff_inverse length_drop less_diff_iff nth_drop less_imp_le)
        then have "nl \<or> fol ?R T v \<subseteq> members clk"
          using g(3) True vx by (auto simp: fol_def)
        moreover have "s \<in> set (rowp T (wpitem ?u))" using s vx(1) True by simp
        ultimately show ?thesis using a(4) entered_mono by blast
      next
        case False
        then have "?ws ! k = wused st ! k" using wsk [OF kw] by (auto simp: unflag_def)
        with wclosed_flags_off [OF cl maps kw this, of s] v(2,3) s vk wgrow_entered [OF a(3)]
        show ?thesis by simp
      qed
    qed
    moreover have "done_to (i + 1) w' (wused st')"
      unfolding done_to_def
    proof (intro impI allI)
      fix k assume w': "\<not> w'" and k: "k < i + 1" "k < length (wused st')"
      then have kw: "k < length (wused st)" using i by simp
      then have "wused st' ! k = ?ws ! k" using a(5) w' i by simp
      moreover have "\<not> wflag (?ws ! k)"
      proof (cases "k < i")
        case True
        then show ?thesis using dn a(5) w' wsk [OF kw] kw by (simp add: done_to_def)
      next
        case False
        then have "k = i" using k(1) by simp
        then show ?thesis using wsk [OF kw] by (simp add: unflag_def)
      qed
      ultimately show "\<not> wflag (wused st' ! k)" by simp
    qed
    ultimately show ?thesis using a(2) by blast
  qed
qed

subsection \<open>The loops reach the closure\<close>

lemma cl_pass_step:
  assumes "tables_ok st0 nn tb lsz rs T" "winv (all_rules st0 rs) T nl K st"
    and "wclosed (all_rules st0 rs) T nl (wused st)" "done_to i w (wused st)"
  shows "\<exists>st' w'. cl_pass T nl i st w = Some (st', w') \<and> winv (all_rules st0 rs) T nl K st' \<and>
    wclosed (all_rules st0 rs) T nl (wused st') \<and> (\<not> w' \<longrightarrow> (\<forall>v \<in> set (wused st'). \<not> wflag v))"
  using assms
proof (induction T nl i st w rule: cl_pass.induct)
  case (1 T nl i st w)
  show ?case
  proof (cases "i < length (wused st)")
    case True
    from close_one_step [OF 1(2,3,4) True 1(5)] obtain st1 w1 where c:
      "close_one T nl i st w = Some (st1, w1)" "winv (all_rules st0 rs) T nl K st1"
      "wclosed (all_rules st0 rs) T nl (wused st1)" "done_to (i + 1) w1 (wused st1)" by blast
    have "cl_pass T nl i st w = cl_pass T nl (i + 1) st1 w1"
      using True c(1) by (subst cl_pass.simps) simp
    with 1(1) [OF True c(1) refl 1(2) c(2-4)] show ?thesis by simp
  next
    case False
    then have "cl_pass T nl i st w = Some (st, w)" by (subst cl_pass.simps) simp
    with 1(3-5) False show ?thesis by (auto simp: done_to_def in_set_conv_nth)
  qed
qed

lemma cl_loop_step:
  assumes "tables_ok st0 nn tb lsz rs T" "winv (all_rules st0 rs) T nl K st"
    and "wclosed (all_rules st0 rs) T nl (wused st)"
  shows "\<exists>st'. cl_loop T nl st = Some st' \<and> winv (all_rules st0 rs) T nl K st' \<and>
    wclosed (all_rules st0 rs) T nl (wused st') \<and> (\<forall>v \<in> set (wused st'). \<not> wflag v)"
  using assms
proof (induction T nl st rule: cl_loop.induct)
  case (1 T nl st)
  from cl_pass_step [OF 1(2-4), of 0 False] obtain st1 w1 where p:
    "cl_pass T nl 0 st False = Some (st1, w1)" "winv (all_rules st0 rs) T nl K st1"
    "wclosed (all_rules st0 rs) T nl (wused st1)" "\<not> w1 \<longrightarrow> (\<forall>v \<in> set (wused st1). \<not> wflag v)"
    by (auto simp: done_to_def)
  show ?case
  proof (cases w1)
    case True
    then have "cl_loop T nl st = cl_loop T nl st1" using p(1) by (subst cl_loop.simps) simp
    with 1(1) [OF p(1) refl True 1(2) p(2,3)] show ?thesis by simp
  next
    case False
    then have "cl_loop T nl st = Some st1" using p(1) by (subst cl_loop.simps) simp
    with p False show ?thesis by simp
  qed
qed

text \<open>A closed set of entries none of which is flagged holds the closure.\<close>

lemma closed_items:
  assumes inv: "winv R T nl K st" and cl: "wclosed R T nl (wused st)"
    and off: "\<forall>v \<in> set (wused st). \<not> wflag v"
  shows "set (map wpitem (wused st)) = {p. lr_item (tgram T) (fst ` set K) p}"
proof -
  have "p \<in> wpitem ` set (wused st)" if "lr_item (tgram T) (fst ` set K) p" for p
    using that
  proof (induction rule: lr_item.induct)
    case (kernel p)
    then obtain k where "k < length K" "p = fst (K ! k)" by (auto simp: in_set_conv_nth)
    with inv have "k < length (wused st)" "wpitem (wused st ! k) = p" by (auto simp: winv_def kernel_ok_def)
    then show ?case by (metis image_eqI nth_mem)
  next
    case (enter p s)
    then obtain v where "v \<in> set (wused st)" "wpitem v = p" by auto
    with cl off enter have "entered nl (wused st) s (fol R T v)" by (auto simp: wclosed_def)
    then show ?case by (auto simp: entered_def)
  qed
  then show ?thesis using inv by (auto simp: winv_def entry_ok_def)
qed

lemma closed_entry:
  assumes "winv R T nl K st" "wclosed R T nl (wused st)" "\<forall>v \<in> set (wused st). \<not> wflag v"
    and "lr_item (tgram T) (fst ` set K) p"
  shows "\<exists>u \<in> set (wused st). wpitem u = p"
proof -
  have "p \<in> set (map wpitem (wused st))" unfolding closed_items [OF assms(1-3)] using assms(4) by simp
  then show ?thesis by auto
qed

lemma winv_unique:
  "winv R T nl K st \<Longrightarrow> v \<in> set (wused st) \<Longrightarrow> v' \<in> set (wused st) \<Longrightarrow> wpitem v = wpitem v' \<Longrightarrow> v = v'"
  by (auto simp: winv_def distinct_map inj_on_def)

lemma lr_look_item: "lr_look R g K p t \<Longrightarrow> lr_item g (fst ` K) p"
proof (induction rule: lr_look.induct)
  case (kernel p L t)
  then have "p \<in> fst ` K" by force
  then show ?case by (rule lr_item.kernel)
qed (auto intro: lr_item.enter)

lemma closed_looks:
  assumes inv: "winv R T False K st" and cl: "wclosed R T False (wused st)"
    and off: "\<forall>v \<in> set (wused st). \<not> wflag v" and v: "v \<in> set (wused st)"
  shows "members (wlset v) = {t. lr_look R (tgram T) (set K) (wpitem v) t}"
proof -
  have into: "t \<in> members (wlset v)"
    if u: "u \<in> set (wused st)" "NTBASE \<le> gmem (tgram T) ! wpitem u" "s \<in> set (rowp T (wpitem u))"
      "t \<in> fol R T u" and v: "v \<in> set (wused st)" "wpitem v = s" for u s t v
  proof -
    from cl off u have "entered False (wused st) s (fol R T u)" by (auto simp: wclosed_def)
    then obtain v' where "v' \<in> set (wused st)" "wpitem v' = s" "fol R T u \<subseteq> members (wlset v')"
      by (auto simp: entered_def)
    with winv_unique [OF inv this(1) v(1)] v(2) u(4) show ?thesis by auto
  qed
  have "\<forall>v \<in> set (wused st). wpitem v = p \<longrightarrow> t \<in> members (wlset v)" if "lr_look R (tgram T) (set K) p t" for p t
    using that
  proof (induction rule: lr_look.induct)
    case (kernel p L t)
    then obtain k where k: "k < length K" "K ! k = (p, L)" by (auto simp: in_set_conv_nth)
    with inv have kk: "k < length (wused st)" "wpitem (wused st ! k) = p" "L \<subseteq> members (wlset (wused st ! k))"
      by (fastforce simp: winv_def kernel_ok_def)+
    with kernel(2) winv_unique [OF inv nth_mem [OF kk(1)]] show ?case by (metis subsetD)
  next
    case (first p s t)
    then obtain u where u: "u \<in> set (wused st)" "wpitem u = p"
      using closed_entry [OF inv cl off] by blast
    with into [OF u(1), of s t] first show ?case by (auto simp: fol_def)
  next
    case (pass p t s)
    from pass(1) have "lr_item (tgram T) (fst ` set K) p" by (rule lr_look_item)
    then obtain u where u: "u \<in> set (wused st)" "wpitem u = p"
      using closed_entry [OF inv cl off] by blast
    with into [OF u(1), of s t] pass show ?case by (auto simp: fol_def)
  qed
  then show ?thesis using inv v by (auto simp: winv_def entry_ok_def)
qed

definition kernel_of :: "tables \<Rightarrow> item list \<Rightarrow> (nat \<times> nat set) list" where
  "kernel_of T K = map (\<lambda>k. (pitem k, members (tlkst T ! look k))) K"

lemma fst_kernel_of: "fst ` set (kernel_of T K) = pitem ` set K"
  by (simp add: kernel_of_def image_image)

definition wstate_ok :: "tables \<Rightarrow> nat \<Rightarrow> wstate \<Rightarrow> bool" where
  "wstate_ok T n st \<longleftrightarrow> (\<forall>l \<in> set (map wlset (wused st) @ wfree st). length l = tbitset (tgram T)) \<and>
    n \<le> wsetsz st \<and> roomy T n st"

definition kernel_items :: "tables \<Rightarrow> item list \<Rightarrow> bool" where
  "kernel_items T K \<longleftrightarrow> distinct (map pitem K) \<and> (\<forall>k \<in> set K. item_ok T (pitem k) \<and>
    look k < length (tlkst T) \<and> length (tlkst T ! look k) = tbitset (tgram T))"

lemma cl_kernel_step:
  assumes K: "kernel_items T K" and st: "wstate_ok T (length K) st"
  shows "\<exists>st'. cl_kernel T K st = Some st' \<and> winv R T nl (kernel_of T K) st' \<and> wclosed R T nl (wused st')"
proof -
  let ?KK = "kernel_of T K" and ?slots = "map wlset (wused st) @ wfree st"
  let ?e = "\<lambda>k. \<lparr> wpitem = pitem k, wflag = True, wlset = tlkst T ! look k \<rparr>"
  let ?st = "\<lparr> wused = map ?e K, wfree = drop (length K) ?slots \<rparr>"
  have "map (\<lambda>k. ent (tlkst T) (look k)) K = map (\<lambda>k. Some (tlkst T ! look k)) K"
    using K by (simp add: kernel_items_def)
  then have "those (map (\<lambda>k. ent (tlkst T) (look k)) K) = Some (map (\<lambda>k. tlkst T ! look k) K)"
    by (simp only: those_Some)
  moreover have "map2 (\<lambda>k l. \<lparr> wpitem = pitem k, wflag = True, wlset = l \<rparr>) K (map (\<lambda>k. tlkst T ! look k) K) = map ?e K"
    by (induction K) auto
  ultimately have k: "cl_kernel T K st = Some ?st"
    using st by (simp add: cl_kernel_def wstate_ok_def wsetsz_def Let_def)
  have "entry_ok R T nl ?KK (?e k)" if "k \<in> set K" for k
  proof -
    have in_KK: "(pitem k, members (tlkst T ! look k)) \<in> set ?KK" using that by (auto simp: kernel_of_def)
    then have "pitem k \<in> fst ` set ?KK" by force
    then have "lr_item (tgram T) (fst ` set ?KK) (pitem k)" by (rule lr_item.kernel)
    moreover have "members (tlkst T ! look k) \<subseteq> {t. lr_look R (tgram T) (set ?KK) (pitem k) t}"
      using lr_look.kernel [OF in_KK] by blast
    ultimately show ?thesis using that K by (simp add: entry_ok_def kernel_items_def)
  qed
  moreover have "kernel_ok nl ?KK (map ?e K)" by (simp add: kernel_ok_def kernel_of_def)
  moreover have "roomy T (length ?KK) ?st" using st
    by (auto simp: wstate_ok_def roomy_def wsetsz_def kernel_of_def)
  moreover have "\<forall>l \<in> set (drop (length K) ?slots). length l = tbitset (tgram T)"
    using st by (auto simp: wstate_ok_def dest!: in_set_dropD)
  moreover have "distinct (map wpitem (map ?e K))" using K by (simp add: kernel_items_def comp_def)
  ultimately have "winv R T nl ?KK ?st" by (simp add: winv_def)
  moreover have "wclosed R T nl (wused ?st)" by (auto simp: wclosed_def)
  ultimately show ?thesis using k by blast
qed

lemma closure_total:
  assumes T: "tables_ok st0 nn tb lsz rs T" and K: "kernel_items T K" and st: "wstate_ok T (length K) st"
  shows "\<exists>st'. closure T nl K st = Some st' \<and> winv (all_rules st0 rs) T nl (kernel_of T K) st' \<and>
    wclosed (all_rules st0 rs) T nl (wused st') \<and> (\<forall>v \<in> set (wused st'). \<not> wflag v)"
proof -
  obtain st1 where 1: "cl_kernel T K st = Some st1" "winv (all_rules st0 rs) T nl (kernel_of T K) st1"
    "wclosed (all_rules st0 rs) T nl (wused st1)"
    using cl_kernel_step [OF K st] by blast
  from cl_loop_step [OF T 1(2,3)] 1(1) show ?thesis by (auto simp: closure_def)
qed

lemma winv_kernel:
  assumes "winv R T nl (kernel_of T K) st"
  shows "take (length K) (map wpitem (wused st)) = map pitem K"
  using assms by (intro nth_equalityI) (auto simp: winv_def kernel_ok_def kernel_of_def)

text \<open>
  C24. The closure of a kernel ends, within the working sets, and is the LR(1) closure: the
  kernel items come first, in order, and no entry waits to be worked off; the items are exactly
  those that the kernel leads to by entering the productions of a nonterminal behind the dot,
  each once; and the lookahead of each item is exactly the set of tokens that come to it, from
  its kernel, from what the symbols after the dot begin with, and through symbols that derive
  the empty string.
\<close>

theorem closure_lr1:
  assumes "tables_ok st nn tb lsz rs T" "kernel_items T K" "wstate_ok T (length K) w"
  shows "\<exists>w'. closure T False K w = Some w' \<and> (\<forall>v \<in> set (wused w'). \<not> wflag v) \<and>
    take (length K) (map wpitem (wused w')) = map pitem K \<and> distinct (map wpitem (wused w')) \<and>
    set (map wpitem (wused w')) = {p. lr_item (tgram T) (pitem ` set K) p} \<and>
    (\<forall>v \<in> set (wused w'). members (wlset v) =
      {t. lr_look (all_rules st rs) (tgram T) (set (kernel_of T K)) (wpitem v) t})"
proof -
  obtain w' where w': "closure T False K w = Some w'" "winv (all_rules st rs) T False (kernel_of T K) w'"
    "wclosed (all_rules st rs) T False (wused w')" "\<forall>v \<in> set (wused w'). \<not> wflag v"
    using closure_total [OF assms, of False] by blast
  from w'(2) have "distinct (map wpitem (wused w'))" by (simp add: winv_def)
  with w'(1,4) winv_kernel [OF w'(2)] closed_items [OF w'(2-4)] closed_looks [OF w'(2-4)]
  show ?thesis by (simp only: fst_kernel_of) blast
qed

text \<open>
  Without lookaheads the closure finds the same items, and the lookaheads of the kernel stay
  as they were given.
\<close>

theorem closure_items_only:
  assumes "tables_ok st nn tb lsz rs T" "kernel_items T K" "wstate_ok T (length K) w"
  shows "\<exists>w'. closure T True K w = Some w' \<and> (\<forall>v \<in> set (wused w'). \<not> wflag v) \<and>
    set (map wpitem (wused w')) = {p. lr_item (tgram T) (pitem ` set K) p} \<and>
    (\<forall>k < length K. wpitem (wused w' ! k) = pitem (K ! k) \<and>
      members (wlset (wused w' ! k)) = members (tlkst T ! look (K ! k)))"
proof -
  obtain w' where w': "closure T True K w = Some w'" "winv (all_rules st rs) T True (kernel_of T K) w'"
    "wclosed (all_rules st rs) T True (wused w')" "\<forall>v \<in> set (wused w'). \<not> wflag v"
    using closure_total [OF assms, of True] by blast
  from w'(2) have k: "kernel_ok True (kernel_of T K) (wused w')" by (simp add: winv_def)
  have "\<forall>k < length K. wpitem (wused w' ! k) = pitem (K ! k) \<and>
      members (wlset (wused w' ! k)) = members (tlkst T ! look (K ! k))"
    using k by (simp add: kernel_ok_def kernel_of_def)
  with w'(1,4) closed_items [OF w'(2-4)] show ?thesis by (simp only: fst_kernel_of) blast
qed

definition demo_kernel :: "item list" where
  "demo_kernel = [\<lparr> pitem = 1, look = 0 \<rparr>]"

definition demo_wstate :: wstate where
  "demo_wstate = \<lparr> wused = [], wfree = replicate 8 [0] \<rparr>"

lemma demo_closure_ok:
  "kernel_items demo_tables demo_kernel" "wstate_ok demo_tables (length demo_kernel) demo_wstate"
proof -
  have d: "gmem (tgram demo_tables) = [4096, 4097, 1, 0, 4097, 4098, - 1, 4098, 2, 4098, 3, - 2, 4098, - 3]"
    "tbitset (tgram demo_tables) = 1" "nnonter (tgram demo_tables) = 2" "length (prdptr (tgram demo_tables)) = 4"
    by code_simp+
  have r: "rhs_at (gmem (tgram demo_tables)) 1 = [4097, 1]" unfolding d rhs_at_def by code_simp
  have "good_item 2 (gmem (tgram demo_tables)) 1"
    unfolding good_item_def d(1) by (simp add: rhs_at_def is_token_def is_nonterm_def)
  then show "kernel_items demo_tables demo_kernel"
    using r d(2,3) by (simp add: kernel_items_def item_ok_def demo_kernel_def is_token_def demo_tables_def)
  show "wstate_ok demo_tables (length demo_kernel) demo_wstate"
    using d(2,4) by (simp add: wstate_ok_def roomy_def demo_wstate_def demo_kernel_def wsetsz_def)
qed

theorem closure_lr1_witness:
  "\<exists>w. closure demo_tables False demo_kernel demo_wstate = Some w \<and>
    map wpitem (wused w) = [1, 5, 8, 13] \<and>
    (\<forall>v \<in> set (wused w). members (wlset v) =
      {t. lr_look (all_rules 4097 demo_rules) (tgram demo_tables) (set (kernel_of demo_tables demo_kernel)) (wpitem v) t})"
proof -
  have "map_option (map wpitem \<circ> wused) (closure demo_tables False demo_kernel demo_wstate) = Some [1, 5, 8, 13]"
    by code_simp
  then show ?thesis using closure_lr1 [OF demo_tables_ok demo_closure_ok] by auto
qed

theorem closure_items_only_witness:
  "\<exists>w. closure demo_tables True demo_kernel demo_wstate = Some w \<and>
    map wpitem (wused w) = [1, 5, 8, 13] \<and> members (wlset (wused w ! 0)) = members [6]"
proof -
  have "map_option (map wpitem \<circ> wused) (closure demo_tables True demo_kernel demo_wstate) = Some [1, 5, 8, 13]"
    by code_simp
  moreover have "tlkst demo_tables ! look (demo_kernel ! 0) = [6]" "length demo_kernel = 1"
    by (simp_all add: demo_tables_def demo_kernel_def)
  ultimately show ?thesis using closure_items_only [OF demo_tables_ok demo_closure_ok] by auto
qed

end
