(* ===== verification/Ystate.thy ===== *)
theory Ystate
  imports Ylr
begin

text \<open>
  The generation of the states in \<^verbatim>\<open>unix/boot/xyacc\<close>: \<open>putitem\<close>, \<open>state\<close> and \<open>stagen\<close> of \<^verbatim>\<open>y1.c\<close> and
  \<open>apack\<close> of \<^verbatim>\<open>y3.c\<close>.  The kernels of the states, which \<^verbatim>\<open>pstate\<close> points to in one block of items,
  are a list of item lists; the states a symbol leads to are chained through \<^verbatim>\<open>mstates\<close> from
  \<^verbatim>\<open>tstates\<close> and \<^verbatim>\<open>ntstates\<close>.  The blocks of states and items grow without an effect; when the table
  of lookahead sets or the action array would have to grow, the result is \<open>Full\<close>.
\<close>

subsection \<open>Results\<close>

datatype 'a res = Undef | Full | Ret 'a

fun bindr :: "'a res \<Rightarrow> ('a \<Rightarrow> 'b res) \<Rightarrow> 'b res" where
  "bindr Undef f = Undef"
| "bindr Full f = Full"
| "bindr (Ret x) f = f x"

definition defined :: "'a option \<Rightarrow> 'a res" where
  "defined x = (case x of None \<Rightarrow> Undef | Some y \<Rightarrow> Ret y)"

definition grown :: "'a option \<Rightarrow> 'a res" where
  "grown x = (case x of None \<Rightarrow> Full | Some y \<Rightarrow> Ret y)"

lemma defined_simps [simp]: "defined None = Undef" "defined (Some x) = Ret x"
  by (simp_all add: defined_def)

lemma grown_simps [simp]: "grown None = Full" "grown (Some x) = Ret x"
  by (simp_all add: grown_def)

subsection \<open>The states\<close>

abbreviation (input) DONE :: nat where "DONE \<equiv> 0"
abbreviation (input) MUSTDO :: nat where "MUSTDO \<equiv> 1"
abbreviation (input) MUSTLOOKAHEAD :: nat where "MUSTLOOKAHEAD \<equiv> 2"

record automaton =
  kern :: "item list list"
  styp :: "nat list"
  tstates :: "nat list"
  ntstates :: "nat list"
  mstates :: "nat list"
  gindgo :: "int list"
  gact :: "nat list"
  gmemp :: nat
  slk :: "lset list"
  sws :: wstate

subsection \<open>Items of a new state\<close>

text \<open>The items a goto puts behind the last state, with their interned lookahead sets.\<close>

fun put_items :: "nat \<Rightarrow> lset list \<Rightarrow> wset list \<Rightarrow> (item list \<times> lset list) res" where
  "put_items lsz lk [] = Ret ([], lk)"
| "put_items lsz lk (v # vs) =
    bindr (grown (flset lsz lk (wlset v))) (\<lambda>(lk, q).
      bindr (put_items lsz lk vs) (\<lambda>(K, lk).
        Ret (\<lparr> pitem = Suc (wpitem v), look = q \<rparr> # K, lk)))"

text \<open>The exchange sort: item \<open>k\<close> is compared with those below it.\<close>

primrec sort_below :: "nat \<Rightarrow> nat \<Rightarrow> item list \<Rightarrow> item list" where
  "sort_below k 0 xs = xs"
| "sort_below k (Suc l) xs =
    sort_below k l (if pitem (xs ! k) < pitem (xs ! l) then xs[k := xs ! l, l := xs ! k] else xs)"

primrec sort_items :: "nat \<Rightarrow> item list \<Rightarrow> item list" where
  "sort_items 0 xs = xs"
| "sort_items (Suc k) xs = sort_items k (sort_below k k xs)"

subsection \<open>\<open>state\<close>\<close>

text \<open>The walk along a chain; 0 when no state of the chain has these items.\<close>

partial_function (option) find_state :: "item list list \<Rightarrow> nat list \<Rightarrow> nat list \<Rightarrow> nat \<Rightarrow> nat option" where
  [code]: "find_state ks ms ps i =
    (if i = 0 then Some 0
     else do {
       k \<leftarrow> ent ks i;
       if map pitem k = ps then Some i
       else do { j \<leftarrow> ent ms i; find_state ks ms ps j }
     })"

text \<open>The lookaheads of an old state are united with the new ones.\<close>

fun fix_looks :: "nat \<Rightarrow> lset list \<Rightarrow> (item \<times> item) list \<Rightarrow> (item list \<times> lset list \<times> bool) res" where
  "fix_looks lsz lk [] = Ret ([], lk, False)"
| "fix_looks lsz lk ((l, k) # r) =
    bindr (defined (ent lk (look l))) (\<lambda>a.
    bindr (defined (ent lk (look k))) (\<lambda>b.
      let u = setunion a b in
      if snd u then
        bindr (grown (flset lsz lk (fst u))) (\<lambda>(lk, q).
        bindr (fix_looks lsz lk r) (\<lambda>(K, lk, ch). Ret (l\<lparr>look := q\<rparr> # K, lk, True)))
      else
        bindr (fix_looks lsz lk r) (\<lambda>(K, lk, ch). Ret (l # K, lk, ch))))"

definition chain_head :: "automaton \<Rightarrow> int \<Rightarrow> nat option" where
  "chain_head A c = (if NTBASE \<le> c then ent (ntstates A) (ntix c) else ent (tstates A) (nat c))"

definition new_state :: "int \<Rightarrow> nat \<Rightarrow> item list \<Rightarrow> automaton \<Rightarrow> automaton" where
  "new_state c h K A =
    (let n = length (kern A) in
     A\<lparr>kern := kern A @ [K], styp := styp A @ [MUSTDO], mstates := mstates A @ [h],
       gindgo := gindgo A @ [0],
       tstates := (if NTBASE \<le> c then tstates A else (tstates A)[nat c := n]),
       ntstates := (if NTBASE \<le> c then (ntstates A)[ntix c := n] else ntstates A)\<rparr>)"

definition state :: "nat \<Rightarrow> int \<Rightarrow> item list \<Rightarrow> automaton \<Rightarrow> (automaton \<times> nat) res" where
  "state lsz c K A =
    (if K = [] then Ret (A, 0)
     else let K = sort_items (length K) K in
       bindr (defined (chain_head A c)) (\<lambda>h.
       bindr (defined (find_state (kern A) (mstates A) (map pitem K) h)) (\<lambda>i.
         if i = 0 then Ret (new_state c h K A, length (kern A))
         else bindr (fix_looks lsz (slk A) (zip (kern A ! i) K)) (\<lambda>(k, lk, ch).
           Ret (A\<lparr>kern := (kern A)[i := k], slk := lk,
             styp := (if ch then (styp A)[i := MUSTDO] else styp A)\<rparr>, i)))))"

subsection \<open>\<open>apack\<close>\<close>

text \<open>Does the row fit at \<open>rr\<close>?  Entries that are 0 are not compared.\<close>

fun apack_try :: "nat list \<Rightarrow> nat \<Rightarrow> nat list \<Rightarrow> bool option" where
  "apack_try am rr [] = Some True"
| "apack_try am rr (y # ys) =
    (if y = 0 then apack_try am (rr + 1) ys
     else if length am \<le> rr + 1 then None
     else if y \<noteq> am ! rr \<and> am ! rr \<noteq> 0 then Some False
     else apack_try am (rr + 1) ys)"

function apack_find :: "nat list \<Rightarrow> nat \<Rightarrow> nat list \<Rightarrow> nat option" where
  "apack_find am rr ys =
    (if length am \<le> rr + 1 then None
     else case apack_try am rr ys of
       None \<Rightarrow> None
     | Some ok \<Rightarrow> if ok then Some rr else apack_find am (rr + 1) ys)"
  by pat_completeness auto

termination by (relation "measure (\<lambda>(am, rr, ys). length am - rr)") auto

declare apack_find.simps [simp del]

fun apack_put :: "nat list \<Rightarrow> nat \<Rightarrow> nat \<Rightarrow> nat list \<Rightarrow> nat list \<times> nat" where
  "apack_put am mp rr [] = (am, mp)"
| "apack_put am mp rr (y # ys) =
    (if y = 0 then apack_put am mp (rr + 1) ys
     else apack_put (am[rr := y]) (max mp rr) (rr + 1) ys)"

definition apack :: "nat list \<Rightarrow> nat \<Rightarrow> nat list \<Rightarrow> (nat list \<times> nat \<times> int) option" where
  "apack am mp row =
    (let z = length (takeWhile (\<lambda>y. y = 0) row); ys = drop z row in
     if ys = [] then Some (am, mp, 0)
     else case apack_find am 0 ys of
       None \<Rightarrow> None
     | Some rr \<Rightarrow> let r = apack_put am mp rr ys in Some (fst r, snd r, int rr - int z))"

subsection \<open>\<open>stagen\<close>\<close>

text \<open>The gotos of a state: an entry that is not flagged starts the goto on its symbol.\<close>

function gotos :: "nat \<Rightarrow> int list \<Rightarrow> nat \<Rightarrow> nat \<Rightarrow> wset list \<Rightarrow> nat list \<Rightarrow> automaton \<Rightarrow>
    (automaton \<times> nat list) res" where
  "gotos lsz m i n [] row A = Ret (A, row)"
| "gotos lsz m i n (v # vs) row A =
    (if wflag v then gotos lsz m i (n + 1) vs row A
     else bindr (defined (ent m (wpitem v))) (\<lambda>c.
       if c \<le> 1 then
         gotos lsz m i (n + 1) vs row
           (if length (kern A ! i) \<le> n then A\<lparr>styp := (styp A)[i := MUSTLOOKAHEAD]\<rparr> else A)
       else
         bindr (put_items lsz (slk A) (v # filter (\<lambda>q. m ! wpitem q = c) vs)) (\<lambda>(K, lk).
         bindr (state lsz c K (A\<lparr>slk := lk\<rparr>)) (\<lambda>(A, j).
           gotos lsz m i (n + 1) (map (\<lambda>q. if m ! wpitem q = c then q\<lparr>wflag := True\<rparr> else q) vs)
             (if c < NTBASE then row else row[ntix c := j]) A))))"
  by pat_completeness auto

termination by (relation "measure (\<lambda>(lsz, m, i, n, vs, row, A). length vs)") auto

definition stagen_step :: "tables \<Rightarrow> nat \<Rightarrow> automaton \<Rightarrow> automaton res" where
  "stagen_step T i A =
    (let g = tgram T in
     bindr (defined (closure (T\<lparr>tlkst := slk A\<rparr>) False (kern A ! i) (sws A))) (\<lambda>w.
     bindr (gotos (lsetsize g) (gmem g) i 0 (wused w) (aryfil (nnonter g + 1) 0)
         (A\<lparr>styp := (styp A)[i := DONE]\<rparr>)) (\<lambda>(A, row).
     bindr (grown (apack (gact A) (gmemp A) (tl row))) (\<lambda>(am, mp, off).
       Ret (A\<lparr>gact := am, gmemp := mp, gindgo := (gindgo A)[i := off - 1],
         sws := w\<lparr>wused := map (\<lambda>v. v\<lparr>wflag := True\<rparr>) (wused w)\<rparr>\<rparr>)))))"

text \<open>The first state that must be worked off.\<close>

primrec next_todo :: "nat list \<Rightarrow> nat option" where
  "next_todo [] = None"
| "next_todo (t # ts) = (if t = MUSTDO then Some 0 else map_option Suc (next_todo ts))"

partial_function (option) stagen_loop :: "tables \<Rightarrow> automaton \<Rightarrow> automaton res option" where
  [code]: "stagen_loop T A =
    (case next_todo (styp A) of
       None \<Rightarrow> Some (Ret A)
     | Some i \<Rightarrow>
       (case stagen_step T i A of
          Undef \<Rightarrow> Some Undef
        | Full \<Rightarrow> Some Full
        | Ret A' \<Rightarrow> stagen_loop T A'))"

text \<open>The first state has the added production, with no lookahead.\<close>

definition stagen :: "tables \<Rightarrow> nat \<Rightarrow> nat \<Rightarrow> wstate \<Rightarrow> automaton res option" where
  "stagen T ntk actsize w =
    (let g = tgram T in
     case prdptr g of
       [] \<Rightarrow> Some Undef
     | p # ps \<Rightarrow>
       (case flset (lsetsize g) (tlkst T) (aryfil (tbitset g) 0) of
          None \<Rightarrow> Some Full
        | Some (lk, q) \<Rightarrow> stagen_loop T
            \<lparr> kern = [[\<lparr> pitem = p + 1, look = q \<rparr>]], styp = [MUSTDO],
              tstates = aryfil (ntk + 1) 0, ntstates = aryfil (nnonter g + 1) 0, mstates = [0],
              gindgo = [0], gact = aryfil actsize 0, gmemp = 0, slk = lk, sws = w \<rparr>))"

end
