(* ===== verification/Ylalr.thy ===== *)
theory Ylalr
  imports Ystate "HOL-Library.Multiset"
begin

text \<open>
  The specification of \<open>stagen\<close>: the collection of LR(0) states, each a set of items, and the
  LALR(1) lookaheads, which are what the items of the collection pass on to each other.  Then
  the lemmas on the parts of \<open>stagen\<close>: the sort, the chains, \<open>state\<close>.
\<close>

subsection \<open>States and lookaheads\<close>

definition gotoset :: "grammar \<Rightarrow> nat set \<Rightarrow> int \<Rightarrow> nat set" where
  "gotoset g K c = {Suc p | p. lr_item g K p \<and> gmem g ! p = c}"

inductive lr_state :: "grammar \<Rightarrow> nat set \<Rightarrow> bool" for g where
  start: "lr_state g {Suc (prdptr g ! 0)}"
| move: "lr_state g K \<Longrightarrow> 1 < c \<Longrightarrow> gotoset g K c \<noteq> {} \<Longrightarrow> lr_state g (gotoset g K c)"

inductive lalr :: "rule list \<Rightarrow> grammar \<Rightarrow> nat set \<Rightarrow> nat \<Rightarrow> nat \<Rightarrow> bool" for rs g where
  first: "lr_state g K \<Longrightarrow> lr_item g K p \<Longrightarrow> NTBASE \<le> gmem g ! p \<Longrightarrow>
    s \<in> set (pres_row g (ntix (gmem g ! p))) \<Longrightarrow> t \<in> firsts rs (rhs_at (gmem g) (Suc p)) \<Longrightarrow> lalr rs g K s t"
| pass: "lalr rs g K p t \<Longrightarrow> NTBASE \<le> gmem g ! p \<Longrightarrow> s \<in> set (pres_row g (ntix (gmem g ! p))) \<Longrightarrow>
    nulls rs (rhs_at (gmem g) (Suc p)) \<Longrightarrow> lalr rs g K s t"
| move: "lalr rs g K p t \<Longrightarrow> 1 < gmem g ! p \<Longrightarrow> lalr rs g (gotoset g K (gmem g ! p)) (Suc p) t"

lemma gotoset_sym: "q \<in> gotoset g K c \<Longrightarrow> 0 < q \<and> gmem g ! (q - 1) = c"
  by (auto simp: gotoset_def)

text \<open>The lookaheads of a closure whose kernel has no more than the LALR lookaheads.\<close>

lemma lr_look_lalr:
  assumes K: "lr_state g (fst ` KK)" and sound: "\<forall>(p, L) \<in> KK. \<forall>t \<in> L. lalr rs g (fst ` KK) p t"
  shows "lr_look rs g KK p t \<Longrightarrow> lalr rs g (fst ` KK) p t"
proof (induction rule: lr_look.induct)
  case (first p s t)
  then show ?case using lalr.first [OF K] by blast
next
  case (pass p t s)
  then show ?case using lalr.pass by blast
qed (use sound in blast)

subsection \<open>The sort\<close>

lemma mset_swap_items: "k < length xs \<Longrightarrow> l < length xs \<Longrightarrow> mset (xs[k := xs ! l, l := xs ! k]) = mset xs"
  by (metis mset_swap)

lemma sort_below_spec:
  assumes "l \<le> k" "k < length xs" "\<forall>j. l \<le> j \<and> j < k \<longrightarrow> pitem (xs ! j) \<le> pitem (xs ! k)"
  shows "mset (sort_below k l xs) = mset xs \<and> drop (Suc k) (sort_below k l xs) = drop (Suc k) xs \<and>
    (\<forall>j < k. pitem (sort_below k l xs ! j) \<le> pitem (sort_below k l xs ! k))"
  using assms
proof (induction l arbitrary: xs)
  case (Suc l)
  let ?ys = "if pitem (xs ! k) < pitem (xs ! l) then xs[k := xs ! l, l := xs ! k] else xs"
  have lk: "l < k" "l < length xs" using Suc.prems by simp_all
  have m: "mset ?ys = mset xs" using mset_swap_items [OF Suc.prems(2) lk(2)] by simp
  have d: "drop (Suc k) ?ys = drop (Suc k) xs" using lk by (simp add: drop_update_cancel)
  have le: "\<forall>j. l \<le> j \<and> j < k \<longrightarrow> pitem (?ys ! j) \<le> pitem (?ys ! k)"
  proof (intro allI impI)
    fix j assume j: "l \<le> j \<and> j < k"
    show "pitem (?ys ! j) \<le> pitem (?ys ! k)"
    proof (cases "j = l")
      case True
      then show ?thesis using lk Suc.prems(2) by (simp add: nth_list_update)
    next
      case False
      then have "pitem (xs ! j) \<le> pitem (xs ! k)" using j Suc.prems(3) by simp
      then show ?thesis using False j lk Suc.prems(2) by (simp add: nth_list_update)
    qed
  qed
  have len: "k < length ?ys" using Suc.prems(2) by simp
  from Suc.IH [OF less_imp_le [OF lk(1)] len le] m d show ?case by simp
qed simp

lemma sort_items_inv:
  assumes "n \<le> length xs" "sorted (map pitem (drop n xs))"
    and "\<forall>x \<in> set (take n xs). \<forall>y \<in> set (drop n xs). pitem x \<le> pitem y"
  shows "mset (sort_items n xs) = mset xs \<and> sorted (map pitem (sort_items n xs))"
  using assms
proof (induction n arbitrary: xs)
  case (Suc k)
  let ?ys = "sort_below k k xs"
  have kx: "k < length xs" using Suc.prems(1) by simp
  have s: "mset ?ys = mset xs" "drop (Suc k) ?ys = drop (Suc k) xs" "\<forall>j < k. pitem (?ys ! j) \<le> pitem (?ys ! k)"
    using sort_below_spec [OF _ kx, of k] by auto
  have len: "length ?ys = length xs" using s(1) by (rule mset_eq_length)
  have "mset (take (Suc k) ?ys) + mset (drop (Suc k) ?ys) = mset (take (Suc k) xs) + mset (drop (Suc k) xs)"
    using s(1) by (metis append_take_drop_id mset_append)
  then have front: "set (take (Suc k) ?ys) = set (take (Suc k) xs)" using s(2) by (metis add_right_cancel mset_eq_setD)
  have d: "drop k ?ys = ?ys ! k # drop (Suc k) xs" using kx len s(2) by (metis Cons_nth_drop_Suc)
  have k: "?ys ! k \<in> set (take (Suc k) xs)" unfolding front [symmetric] using kx len by (simp add: take_Suc_conv_app_nth)
  have sub: "set (take k ?ys) \<subseteq> set (take (Suc k) xs)" unfolding front [symmetric] by (simp add: set_take_subset_set_take)
  have "\<forall>x \<in> set (take k ?ys). pitem x \<le> pitem (?ys ! k)"
    using s(3) kx len by (auto simp: in_set_conv_nth)
  then have "\<forall>x \<in> set (take k ?ys). \<forall>y \<in> set (drop k ?ys). pitem x \<le> pitem y"
    unfolding d using Suc.prems(3) sub by auto
  moreover have "sorted (map pitem (drop k ?ys))"
    unfolding d using Suc.prems(2,3) k by simp
  ultimately show ?case using Suc.IH [of ?ys] kx len s(1) by simp
qed simp

lemma sort_items_spec:
  shows "mset (sort_items (length xs) xs) = mset xs" "sorted (map pitem (sort_items (length xs) xs))"
    "set (sort_items (length xs) xs) = set xs"
proof -
  show m: "mset (sort_items (length xs) xs) = mset xs" and "sorted (map pitem (sort_items (length xs) xs))"
    using sort_items_inv [of "length xs" xs] by simp_all
  show "set (sort_items (length xs) xs) = set xs" by (rule mset_eq_setD [OF m])
qed

lemma sorted_items_eq:
  "sorted ps \<Longrightarrow> distinct ps \<Longrightarrow> sorted qs \<Longrightarrow> distinct qs \<Longrightarrow> set ps = set qs \<Longrightarrow> ps = (qs :: nat list)"
  by (rule sorted_distinct_set_unique)

subsection \<open>The chains\<close>

primrec chain :: "nat list \<Rightarrow> nat \<Rightarrow> nat list \<Rightarrow> bool" where
  "chain ms i [] \<longleftrightarrow> i = 0"
| "chain ms i (x # xs) \<longleftrightarrow> i = x \<and> i \<noteq> 0 \<and> i < length ms \<and> chain ms (ms ! i) xs"

lemma chain_append: "chain ms i xs \<Longrightarrow> chain (ms @ ys) i xs"
  by (induction xs arbitrary: i) (auto simp: nth_append)

lemma find_state_chain:
  assumes "chain ms i xs" "\<forall>x \<in> set xs. x < length ks"
  shows "find_state ks ms ps i = Some (case find (\<lambda>x. map pitem (ks ! x) = ps) xs of None \<Rightarrow> 0 | Some x \<Rightarrow> x)"
  using assms
proof (induction xs arbitrary: i)
  case Nil
  then show ?case by (subst find_state.simps) simp
next
  case (Cons x xs)
  then have "i = x" "0 < x" "x < length ms" "x < length ks" "chain ms (ms ! x) xs" by auto
  with Cons.IH [of "ms ! x"] Cons.prems(2) show ?case by (subst find_state.simps) auto
qed

end
