(* ===== verification/Ystagen.thy ===== *)
theory Ystagen
  imports Ylalr
begin

text \<open>
  The states \<open>stagen\<close> generates: every kernel is an LR(0) state, no state occurs twice, the chains
  hold all states of a symbol, the lookaheads are LALR(1) lookaheads.
\<close>

subsection \<open>The invariant\<close>

definition pits :: "automaton \<Rightarrow> nat \<Rightarrow> nat list" where
  "pits A i = map pitem (kern A ! i)"

abbreviation kset :: "automaton \<Rightarrow> nat \<Rightarrow> nat set" where
  "kset A i \<equiv> set (pits A i)"

abbreviation tabs_at :: "tables \<Rightarrow> lset list \<Rightarrow> tables" where
  "tabs_at T lk \<equiv> T\<lparr>tlkst := lk\<rparr>"

definition look_at :: "automaton \<Rightarrow> nat \<Rightarrow> nat \<Rightarrow> nat set" where
  "look_at A i q = (\<Union>k \<in> {k \<in> set (kern A ! i). pitem k = q}. members (slk A ! look k))"

text \<open>All items of a kernel stand behind the same symbol.\<close>

definition entry_sym :: "grammar \<Rightarrow> nat set \<Rightarrow> int \<Rightarrow> bool" where
  "entry_sym g P c \<longleftrightarrow> (\<forall>q \<in> P. 0 < q \<and> gmem g ! (q - 1) = c)"

definition sym_range :: "nat \<Rightarrow> nat \<Rightarrow> int \<Rightarrow> bool" where
  "sym_range nn ntk c \<longleftrightarrow> NTBASE \<le> c \<and> ntix c \<le> nn \<or> 0 \<le> c \<and> c < NTBASE \<and> nat c \<le> ntk"

definition chains_ok :: "grammar \<Rightarrow> nat \<Rightarrow> automaton \<Rightarrow> bool" where
  "chains_ok g ntk A \<longleftrightarrow> (\<forall>c. sym_range (nnonter g) ntk c \<longrightarrow>
    (\<exists>h xs. chain_head A c = Some h \<and> chain (mstates A) h xs \<and>
      set xs = {j. 0 < j \<and> j < length (kern A) \<and> entry_sym g (kset A j) c}))"

definition sized :: "automaton \<Rightarrow> bool" where
  "sized A \<longleftrightarrow> kern A \<noteq> [] \<and> length (styp A) = length (kern A) \<and> length (mstates A) = length (kern A) \<and>
    length (gindgo A) = length (kern A)"

definition looks_ok :: "tables \<Rightarrow> lset list \<Rightarrow> bool" where
  "looks_ok T lk \<longleftrightarrow> (\<exists>x. lk = tlkst T @ x) \<and> distinct lk"

definition kernels_ok :: "rule list \<Rightarrow> tables \<Rightarrow> automaton \<Rightarrow> bool" where
  "kernels_ok R T A \<longleftrightarrow> pits A 0 = [Suc (prdptr (tgram T) ! 0)] \<and>
    (\<forall>i < length (kern A). kern A ! i \<noteq> [] \<and> sorted (pits A i) \<and> kernel_items (tabs_at T (slk A)) (kern A ! i) \<and>
      lr_state (tgram T) (kset A i) \<and>
      (\<forall>k \<in> set (kern A ! i). \<forall>t \<in> members (slk A ! look k). lalr R (tgram T) (kset A i) (pitem k) t) \<and>
      (\<forall>j < length (kern A). kset A i = kset A j \<longrightarrow> i = j))"

definition ainv :: "rule list \<Rightarrow> tables \<Rightarrow> nat \<Rightarrow> automaton \<Rightarrow> bool" where
  "ainv R T ntk A \<longleftrightarrow> sized A \<and> looks_ok T (slk A) \<and> kernels_ok R T A \<and> chains_ok (tgram T) ntk A"

lemma ainvD:
  assumes "ainv R T ntk A"
  shows "sized A" "looks_ok T (slk A)" "kernels_ok R T A" "chains_ok (tgram T) ntk A"
  using assms by (simp_all add: ainv_def)

lemma kernels_okD:
  assumes "kernels_ok R T A" "i < length (kern A)"
  shows "kern A ! i \<noteq> []" "sorted (pits A i)" "kernel_items (tabs_at T (slk A)) (kern A ! i)"
    "lr_state (tgram T) (kset A i)"
    "\<And>k t. k \<in> set (kern A ! i) \<Longrightarrow> t \<in> members (slk A ! look k) \<Longrightarrow> lalr R (tgram T) (kset A i) (pitem k) t"
    "\<And>j. j < length (kern A) \<Longrightarrow> kset A i = kset A j \<Longrightarrow> i = j"
  using assms unfolding kernels_ok_def by blast+

subsection \<open>Interning lookaheads\<close>

lemma looks_ok_flset:
  assumes "looks_ok T lk" "flset lsz lk l = Some (lk', q)"
  shows "looks_ok T lk'" "\<exists>x. lk' = lk @ x" "q < length lk'" "lk' ! q = l"
  using flset_spec [OF assms(2)] assms(1) by (auto simp: looks_ok_def)

lemma kernel_items_extend:
  assumes "kernel_items (tabs_at T lk) K" "lk' = lk @ x"
  shows "kernel_items (tabs_at T lk') K"
  using assms by (auto simp: kernel_items_def item_ok_def nth_append)

lemma put_items_spec:
  assumes "looks_ok T lk"
  shows "put_items lsz lk vs = Full \<or> (\<exists>K lk'. put_items lsz lk vs = Ret (K, lk') \<and> looks_ok T lk' \<and>
    (\<exists>x. lk' = lk @ x) \<and>
    list_all2 (\<lambda>v k. pitem k = Suc (wpitem v) \<and> look k < length lk' \<and> lk' ! look k = wlset v) vs K)"
  using assms
proof (induction vs arbitrary: lk)
  case (Cons v vs)
  show ?case
  proof (cases "flset lsz lk (wlset v)")
    case (Some r)
    obtain lk1 q where r: "r = (lk1, q)" by (cases r)
    note f = looks_ok_flset [OF Cons.prems Some [unfolded r]]
    from Cons.IH [OF f(1)] show ?thesis
    proof
      assume "put_items lsz lk1 vs = Full"
      then show ?thesis using Some r by simp
    next
      assume "\<exists>K lk'. put_items lsz lk1 vs = Ret (K, lk') \<and> looks_ok T lk' \<and> (\<exists>x. lk' = lk1 @ x) \<and>
        list_all2 (\<lambda>v k. pitem k = Suc (wpitem v) \<and> look k < length lk' \<and> lk' ! look k = wlset v) vs K"
      then obtain K lk' x where K: "put_items lsz lk1 vs = Ret (K, lk')" "looks_ok T lk'" "lk' = lk1 @ x"
        "list_all2 (\<lambda>v k. pitem k = Suc (wpitem v) \<and> look k < length lk' \<and> lk' ! look k = wlset v) vs K" by blast
      have "q < length lk'" "lk' ! q = wlset v" using f(3,4) K(3) by (simp_all add: nth_append)
      moreover have "\<exists>x. lk' = lk @ x" using f(2) K(3) by auto
      ultimately show ?thesis using Some r K by simp
    qed
  qed simp
qed (use assms in auto)

definition pair_ok :: "nat \<Rightarrow> lset list \<Rightarrow> item \<times> item \<Rightarrow> bool" where
  "pair_ok tb lk p \<longleftrightarrow> look (fst p) < length lk \<and> look (snd p) < length lk \<and>
    length (lk ! look (fst p)) = tb \<and> length (lk ! look (snd p)) = tb"

definition merged :: "nat \<Rightarrow> lset list \<Rightarrow> lset list \<Rightarrow> item \<times> item \<Rightarrow> item \<Rightarrow> bool" where
  "merged tb lk lk' p l \<longleftrightarrow> pitem l = pitem (fst p) \<and> look l < length lk' \<and> length (lk' ! look l) = tb \<and>
    members (lk' ! look l) = members (lk ! look (fst p)) \<union> members (lk ! look (snd p))"

lemma merged_extend: "merged tb lk lk1 p l \<Longrightarrow> merged tb lk (lk1 @ x) p l"
  by (auto simp: merged_def nth_append)

lemma merged_prefix: "pair_ok tb lk p \<Longrightarrow> merged tb (lk @ x) lk' p l \<Longrightarrow> merged tb lk lk' p l"
  by (auto simp: merged_def pair_ok_def nth_append)

abbreviation item_room :: "lset list \<Rightarrow> item \<Rightarrow> nat" where
  "item_room lk k \<equiv> room (lk ! look k)"

definition fixed :: "tables \<Rightarrow> nat \<Rightarrow> lset list \<Rightarrow> (item \<times> item) list \<Rightarrow> item list \<Rightarrow> lset list \<Rightarrow> bool \<Rightarrow> bool" where
  "fixed T tb lk ps K lk' ch \<longleftrightarrow> looks_ok T lk' \<and> (\<exists>x. lk' = lk @ x) \<and>
    list_all2 (merged tb lk lk') ps K \<and> (\<not> ch \<longrightarrow> K = map fst ps) \<and>
    sum_list (map (item_room lk') K) \<le> sum_list (map (item_room lk \<circ> fst) ps) \<and>
    (ch \<longrightarrow> sum_list (map (item_room lk') K) < sum_list (map (item_room lk \<circ> fst) ps))"

lemma fix_looks_spec:
  assumes "looks_ok T lk" "\<forall>p \<in> set ps. pair_ok tb lk p"
  shows "fix_looks lsz lk ps = Full \<or> (\<exists>K lk' ch. fix_looks lsz lk ps = Ret (K, lk', ch) \<and> fixed T tb lk ps K lk' ch)"
  using assms
proof (induction ps arbitrary: lk)
  case (Cons p ps)
  obtain l k where p: "p = (l, k)" by (cases p)
  let ?a = "lk ! look l" and ?b = "lk ! look k"
  let ?u = "setunion ?a ?b"
  have pk: "look l < length lk" "look k < length lk" "length ?a = tb" "length ?b = tb"
    using Cons.prems(2) p by (simp_all add: pair_ok_def)
  have mu: "members (fst ?u) = members ?a \<union> members ?b" "length (fst ?u) = tb"
    "snd ?u \<longleftrightarrow> \<not> members ?b \<subseteq> members ?a"
    using lsets.merge_elems [OF pk(3,4)] lsets.merge_ok [OF pk(3,4)] lsets.merge_changed [OF pk(3,4)] by simp_all
  define step where "step = (if snd ?u then grown (flset lsz lk (fst ?u)) else Ret (lk, look l))"
  have step: "step = Full \<or> (\<exists>lk1 q. step = Ret (lk1, q) \<and> looks_ok T lk1 \<and> (\<exists>x. lk1 = lk @ x) \<and>
      q < length lk1 \<and> lk1 ! q = fst ?u \<and> (\<not> snd ?u \<longrightarrow> lk1 = lk \<and> q = look l))"
  proof (cases "snd ?u")
    case True
    then show ?thesis
      using looks_ok_flset [OF Cons.prems(1)] unfolding step_def
      by (cases "flset lsz lk (fst ?u)") (auto simp: split_paired_Ex)
  next
    case False
    then have "fst ?u = ?a" by (rule lsets.merge_same)
    then show ?thesis using False Cons.prems(1) pk(1) by (auto simp: step_def)
  qed
  have eq: "fix_looks lsz lk (p # ps) =
      bindr step (\<lambda>(lk1, q). bindr (fix_looks lsz lk1 ps) (\<lambda>(K, lk2, ch). Ret (l\<lparr>look := q\<rparr> # K, lk2, snd ?u \<or> ch)))"
  proof (cases "snd ?u")
    case False
    then show ?thesis using pk by (simp add: p step_def Let_def)
  next
    case True
    then show ?thesis using pk by (simp add: p step_def Let_def)
  qed
  from step show ?case
  proof
    assume "step = Full"
    then show ?thesis unfolding eq by simp
  next
    assume "\<exists>lk1 q. step = Ret (lk1, q) \<and> looks_ok T lk1 \<and> (\<exists>x. lk1 = lk @ x) \<and>
      q < length lk1 \<and> lk1 ! q = fst ?u \<and> (\<not> snd ?u \<longrightarrow> lk1 = lk \<and> q = look l)"
    then obtain lk1 q x where s: "step = Ret (lk1, q)" "looks_ok T lk1" "lk1 = lk @ x" "q < length lk1"
      "lk1 ! q = fst ?u" "\<not> snd ?u \<longrightarrow> lk1 = lk \<and> q = look l" by blast
    have pok: "\<forall>p \<in> set ps. pair_ok tb lk p" using Cons.prems(2) by simp
    then have "\<forall>p \<in> set ps. pair_ok tb lk1 p" using s(3) by (auto simp: pair_ok_def nth_append)
    from Cons.IH [OF s(2) this] show ?thesis
    proof
      assume "fix_looks lsz lk1 ps = Full"
      then show ?thesis unfolding eq s(1) by simp
    next
      assume "\<exists>K lk' ch. fix_looks lsz lk1 ps = Ret (K, lk', ch) \<and> fixed T tb lk1 ps K lk' ch"
      then obtain K lk2 ch y where i: "fix_looks lsz lk1 ps = Ret (K, lk2, ch)" "looks_ok T lk2" "lk2 = lk1 @ y"
        "list_all2 (merged tb lk1 lk2) ps K" "\<not> ch \<longrightarrow> K = map fst ps"
        "sum_list (map (item_room lk2) K) \<le> sum_list (map (item_room lk1 \<circ> fst) ps)"
        "ch \<longrightarrow> sum_list (map (item_room lk2) K) < sum_list (map (item_room lk1 \<circ> fst) ps)"
        unfolding fixed_def by blast
      let ?l = "l\<lparr>look := q\<rparr>"
      have q2: "lk2 ! q = fst ?u" using s(4,5) i(3) by (simp add: nth_append)
      have "merged tb lk lk2 p ?l"
        using s(4) i(3) q2 mu by (simp add: merged_def p)
      moreover have "list_all2 (merged tb lk lk2) ps K"
        using i(4) pok unfolding list_all2_iff s(3) by (metis merged_prefix set_zip_leftD surj_pair case_prodD case_prodI2)
      ultimately have m: "list_all2 (merged tb lk lk2) (p # ps) (?l # K)" by simp
      have old: "sum_list (map (item_room lk1 \<circ> fst) ps) = sum_list (map (item_room lk \<circ> fst) ps)"
      proof -
        have "map (item_room lk1 \<circ> fst) ps = map (item_room lk \<circ> fst) ps"
          using pok s(3) by (auto simp: pair_ok_def nth_append)
        then show ?thesis by (rule arg_cong)
      qed
      have r: "room (fst ?u) \<le> room ?a" "snd ?u \<Longrightarrow> room (fst ?u) < room ?a"
        using room_setunion_le [of ?a ?b] room_setunion_less [of ?a ?b] by auto
      have sums: "sum_list (map (item_room lk2) (?l # K)) = room (fst ?u) + sum_list (map (item_room lk2) K)"
        "sum_list (map (item_room lk \<circ> fst) (p # ps)) = room ?a + sum_list (map (item_room lk \<circ> fst) ps)"
        by (simp_all add: q2 p)
      have le: "sum_list (map (item_room lk2) (?l # K)) \<le> sum_list (map (item_room lk \<circ> fst) (p # ps))"
        unfolding sums using i(6) r(1) unfolding old by (rule add_mono [rotated])
      have less: "sum_list (map (item_room lk2) (?l # K)) < sum_list (map (item_room lk \<circ> fst) (p # ps))"
        if "snd ?u \<or> ch"
        unfolding sums using that i(6,7) r unfolding old by linarith
      have same: "?l # K = map fst (p # ps)" if "\<not> (snd ?u \<or> ch)"
        using that s(6) i(5) by (simp add: p)
      have z: "\<exists>z. lk2 = lk @ z" using i(3) s(3) by simp
      have "fixed T tb lk (p # ps) (?l # K) lk2 (snd ?u \<or> ch)"
        unfolding fixed_def by (intro conjI impI i(2) z m le less same)
      moreover have "fix_looks lsz lk (p # ps) = Ret (?l # K, lk2, snd ?u \<or> ch)"
        unfolding eq s(1) using i(1) by simp
      ultimately show ?thesis by blast
    qed
  qed
qed (use assms in \<open>auto simp: fixed_def\<close>)

subsection \<open>How the automaton changes\<close>

definition troom :: "automaton \<Rightarrow> nat" where
  "troom A = sum_list (map (\<lambda>k. sum_list (map (item_room (slk A)) k)) (kern A))"

definition evolves :: "automaton \<Rightarrow> automaton \<Rightarrow> bool" where
  "evolves A A' \<longleftrightarrow> length (kern A) \<le> length (kern A') \<and>
    (\<forall>i < length (kern A). pits A' i = pits A i \<and> (\<forall>q. look_at A i q \<subseteq> look_at A' i q) \<and>
      gindgo A' ! i = gindgo A ! i) \<and>
    (\<exists>x. slk A' = slk A @ x) \<and> gact A' = gact A \<and> gmemp A' = gmemp A \<and> sws A' = sws A \<and>
    (length (kern A') = length (kern A) \<longrightarrow> troom A' \<le> troom A)"

lemma evolvesD:
  assumes "evolves A A'"
  shows "length (kern A) \<le> length (kern A')" "i < length (kern A) \<Longrightarrow> pits A' i = pits A i"
    "i < length (kern A) \<Longrightarrow> look_at A i q \<subseteq> look_at A' i q"
    "i < length (kern A) \<Longrightarrow> gindgo A' ! i = gindgo A ! i"
    "\<exists>x. slk A' = slk A @ x" "gact A' = gact A" "gmemp A' = gmemp A" "sws A' = sws A"
    "length (kern A') = length (kern A) \<Longrightarrow> troom A' \<le> troom A"
  using assms unfolding evolves_def by blast+

lemma evolves_refl: "evolves A A"
  by (simp add: evolves_def)

lemma evolves_trans:
  assumes f: "evolves A B" and g: "evolves B C"
  shows "evolves A C"
  unfolding evolves_def
proof (intro conjI allI impI)
  show l: "length (kern A) \<le> length (kern C)" using evolvesD(1) [OF f] evolvesD(1) [OF g] by simp
  show "\<exists>x. slk C = slk A @ x" using evolvesD(5) [OF f] evolvesD(5) [OF g] by auto
  show "gact C = gact A" "gmemp C = gmemp A" "sws C = sws A"
    using evolvesD(6-8) [OF f] evolvesD(6-8) [OF g] by simp_all
next
  fix i assume i: "i < length (kern A)"
  then have j: "i < length (kern B)" using evolvesD(1) [OF f] by simp
  show "pits C i = pits A i" using evolvesD(2) [OF f i] evolvesD(2) [OF g j] by simp
  show "look_at A i q \<subseteq> look_at C i q" for q using evolvesD(3) [OF f i] evolvesD(3) [OF g j] by blast
  show "gindgo C ! i = gindgo A ! i" using evolvesD(4) [OF f i] evolvesD(4) [OF g j] by simp
next
  assume "length (kern C) = length (kern A)"
  then have "length (kern B) = length (kern A)" "length (kern C) = length (kern B)"
    using evolvesD(1) [OF f] evolvesD(1) [OF g] by simp_all
  then show "troom C \<le> troom A" using evolvesD(9) [OF f] evolvesD(9) [OF g] by simp
qed

text \<open>Interning more sets changes nothing.\<close>

lemma item_room_extend:
  assumes "kernel_items (tabs_at T lk) K"
  shows "map (item_room (lk @ x)) K = map (item_room lk) K"
  using assms by (auto simp: kernel_items_def nth_append)

lemma ainv_extend:
  assumes inv: "ainv R T ntk A" and lk: "looks_ok T (slk A @ x)"
  shows "ainv R T ntk (A\<lparr>slk := slk A @ x\<rparr>)" "evolves A (A\<lparr>slk := slk A @ x\<rparr>)"
    "troom (A\<lparr>slk := slk A @ x\<rparr>) = troom A"
proof -
  let ?A = "A\<lparr>slk := slk A @ x\<rparr>"
  note k = kernels_okD [OF ainvD(3) [OF inv]]
  have lt: "look e < length (slk A)" if "i < length (kern A)" "e \<in> set (kern A ! i)" for i e
    using k(3) [OF that(1)] that(2) by (simp add: kernel_items_def)
  have p: "pits ?A = pits A" by (rule ext) (simp add: pits_def)
  have ch: "chain_head ?A c = chain_head A c" for c by (simp add: chain_head_def)
  have "kernels_ok R T ?A"
    unfolding kernels_ok_def p
    using k lt ainvD(3) [OF inv] by (auto simp: kernels_ok_def nth_append intro: kernel_items_extend)
  moreover have "chains_ok (tgram T) ntk ?A"
    using ainvD(4) [OF inv] by (simp add: chains_ok_def ch p)
  ultimately show "ainv R T ntk ?A" using ainvD(1) [OF inv] lk by (simp add: ainv_def sized_def)
  have "look_at ?A i q = look_at A i q" if "i < length (kern A)" for i q
    using lt [OF that] by (auto simp: look_at_def nth_append)
  moreover show t: "troom ?A = troom A"
  proof -
    have "map (\<lambda>k. sum_list (map (item_room (slk A @ x)) k)) (kern A) = map (\<lambda>k. sum_list (map (item_room (slk A)) k)) (kern A)"
    proof (rule map_cong [OF refl])
      fix k' assume "k' \<in> set (kern A)"
      then obtain i where "i < length (kern A)" "k' = kern A ! i" by (auto simp: in_set_conv_nth)
      with item_room_extend [OF k(3)]
      have "map (item_room (slk A @ x)) k' = map (item_room (slk A)) k'" by blast
      then show "sum_list (map (item_room (slk A @ x)) k') = sum_list (map (item_room (slk A)) k')"
        by (rule arg_cong)
    qed
    then have "sum_list (map (\<lambda>k. sum_list (map (item_room (slk A @ x)) k)) (kern A)) =
        sum_list (map (\<lambda>k. sum_list (map (item_room (slk A)) k)) (kern A))" by (rule arg_cong)
    then show ?thesis by (simp add: troom_def)
  qed
  ultimately show "evolves A ?A" using p by (simp add: evolves_def)
qed

subsection \<open>\<open>state\<close>\<close>

definition state_ready :: "rule list \<Rightarrow> tables \<Rightarrow> nat \<Rightarrow> automaton \<Rightarrow> int \<Rightarrow> item list \<Rightarrow> bool" where
  "state_ready R T ntk A c K \<longleftrightarrow> K \<noteq> [] \<and> kernel_items (tabs_at T (slk A)) K \<and>
    lr_state (tgram T) (pitem ` set K) \<and> entry_sym (tgram T) (pitem ` set K) c \<and>
    \<not> entry_sym (tgram T) {Suc (prdptr (tgram T) ! 0)} c \<and> sym_range (nnonter (tgram T)) ntk c \<and>
    (\<forall>k \<in> set K. \<forall>t \<in> members (slk A ! look k). lalr R (tgram T) (pitem ` set K) (pitem k) t)"

definition state_post :: "rule list \<Rightarrow> tables \<Rightarrow> nat \<Rightarrow> automaton \<Rightarrow> item list \<Rightarrow> automaton \<Rightarrow> nat \<Rightarrow> bool" where
  "state_post R T ntk A K A' j \<longleftrightarrow> ainv R T ntk A' \<and> evolves A A' \<and> j < length (kern A') \<and> j \<noteq> 0 \<and>
    kset A' j = pitem ` set K \<and> (\<forall>k \<in> set K. members (slk A ! look k) \<subseteq> look_at A' j (pitem k)) \<and>
    (\<forall>i < length (kern A). kern A' ! i = kern A ! i \<and> styp A' ! i = styp A ! i \<or>
      i = j \<and> styp A' ! i = MUSTDO \<and> troom A' < troom A) \<and>
    (\<forall>i < length (kern A'). length (kern A) \<le> i \<longrightarrow> styp A' ! i = MUSTDO)"

lemma ready_sorted:
  assumes "state_ready R T ntk A c K"
  shows "state_ready R T ntk A c (sort_items (length K) K)"
    "sorted (map pitem (sort_items (length K) K))" "set (sort_items (length K) K) = set K"
    "distinct (map pitem (sort_items (length K) K))"
proof -
  let ?K = "sort_items (length K) K"
  note s = sort_items_spec [of K]
  show "sorted (map pitem ?K)" "set ?K = set K" by (rule s)+
  have "mset (map pitem ?K) = mset (map pitem K)" using s(1) by simp
  then show d: "distinct (map pitem ?K)"
    using assms by (metis kernel_items_def mset_eq_imp_distinct_iff state_ready_def)
  have "?K \<noteq> []" using s(1) assms by (metis mset_zero_iff state_ready_def)
  then show "state_ready R T ntk A c ?K"
    using assms d s(3) by (simp add: state_ready_def kernel_items_def)
qed

lemma entry_symD: "entry_sym g P c \<Longrightarrow> entry_sym g P d \<Longrightarrow> P \<noteq> {} \<Longrightarrow> c = d"
  by (auto simp: entry_sym_def)

text \<open>The chain of the symbol is searched for the kernel.\<close>

lemma find_items:
  assumes inv: "ainv R T ntk A" and so: "sorted (map pitem K)"
    and rd': "K \<noteq> []" "distinct (map pitem K)" "entry_sym (tgram T) (pitem ` set K) c" "sym_range (nnonter (tgram T)) ntk c"
      "\<not> entry_sym (tgram T) {Suc (prdptr (tgram T) ! 0)} c"
  obtains h where "chain_head A c = Some h"
    "find_state (kern A) (mstates A) (map pitem K) h = Some 0 \<Longrightarrow> \<forall>i < length (kern A). kset A i \<noteq> pitem ` set K"
    "\<And>i. find_state (kern A) (mstates A) (map pitem K) h = Some i \<Longrightarrow> i \<noteq> 0 \<Longrightarrow> i < length (kern A) \<and> pits A i = map pitem K"
    "find_state (kern A) (mstates A) (map pitem K) h \<noteq> None"
proof -
  let ?P = "pitem ` set K"
  obtain h xs where h: "chain_head A c = Some h" "chain (mstates A) h xs"
    "set xs = {j. 0 < j \<and> j < length (kern A) \<and> entry_sym (tgram T) (kset A j) c}"
    using ainvD(4) [OF inv] rd'(4) unfolding chains_ok_def by blast
  let ?f = "\<lambda>x. map pitem (kern A ! x) = map pitem K"
  have fs: "find_state (kern A) (mstates A) (map pitem K) h = Some (case find ?f xs of None \<Rightarrow> 0 | Some x \<Rightarrow> x)"
    by (rule find_state_chain [OF h(2)]) (use h(3) in auto)
  have none: "\<forall>i < length (kern A). kset A i \<noteq> ?P" if "find ?f xs = None"
  proof (intro allI impI notI)
    fix i assume i: "i < length (kern A)" "kset A i = ?P"
    note k = kernels_okD [OF ainvD(3) [OF inv] i(1)]
    have "kset A i \<noteq> {Suc (prdptr (tgram T) ! 0)}" using i(2) rd'(3,5) by metis
    then have "i \<noteq> 0" using ainvD(3) [OF inv] by (auto simp: kernels_ok_def)
    then have "i \<in> set xs" using i rd'(3) h(3) by simp
    moreover have "distinct (pits A i)" using k(3) by (simp add: kernel_items_def pits_def)
    then have "pits A i = map pitem K"
      using sorted_items_eq [OF k(2) _ so rd'(2)] i(2) by simp
    ultimately show False using that by (auto simp: find_None_iff pits_def)
  qed
  have fx: "0 < x \<and> x < length (kern A) \<and> ?f x" if "find ?f xs = Some x" for x
  proof -
    from that have "x \<in> set xs" "?f x" by (auto simp: find_Some_iff)
    then show ?thesis using h(3) by simp
  qed
  show thesis
  proof (rule that [OF h(1)])
    show "find_state (kern A) (mstates A) (map pitem K) h \<noteq> None" using fs by simp
    show "\<forall>i < length (kern A). kset A i \<noteq> ?P" if "find_state (kern A) (mstates A) (map pitem K) h = Some 0"
    proof (rule none)
      show "find ?f xs = None" using that fs fx by (cases "find ?f xs") auto
    qed
    show "i < length (kern A) \<and> pits A i = map pitem K"
      if "find_state (kern A) (mstates A) (map pitem K) h = Some i" "i \<noteq> 0" for i
    proof -
      from that fs have "find ?f xs = Some i" by (simp split: option.splits)
      from fx [OF this] show ?thesis by (simp add: pits_def)
    qed
  qed
qed

lemma find_kernel:
  assumes inv: "ainv R T ntk A" and rd: "state_ready R T ntk A c K" and so: "sorted (map pitem K)"
  obtains h where "chain_head A c = Some h"
    "find_state (kern A) (mstates A) (map pitem K) h = Some 0 \<Longrightarrow> \<forall>i < length (kern A). kset A i \<noteq> pitem ` set K"
    "\<And>i. find_state (kern A) (mstates A) (map pitem K) h = Some i \<Longrightarrow> i \<noteq> 0 \<Longrightarrow> i < length (kern A) \<and> pits A i = map pitem K"
    "find_state (kern A) (mstates A) (map pitem K) h \<noteq> None"
proof -
  have "K \<noteq> []" "distinct (map pitem K)" "entry_sym (tgram T) (pitem ` set K) c" "sym_range (nnonter (tgram T)) ntk c"
    "\<not> entry_sym (tgram T) {Suc (prdptr (tgram T) ! 0)} c"
    using rd by (simp_all add: state_ready_def kernel_items_def)
  from find_items [OF inv so this] that show thesis by blast
qed

lemma new_state_sel:
  "kern (new_state c h K A) = kern A @ [K]" "styp (new_state c h K A) = styp A @ [MUSTDO]"
  "mstates (new_state c h K A) = mstates A @ [h]" "gindgo (new_state c h K A) = gindgo A @ [0]"
  "slk (new_state c h K A) = slk A" "gact (new_state c h K A) = gact A" "gmemp (new_state c h K A) = gmemp A"
  "sws (new_state c h K A) = sws A"
  by (simp_all add: new_state_def Let_def)

lemma new_state_head:
  assumes "chain_head A c = Some h"
  shows "chain_head (new_state c h K A) c = Some (length (kern A))"
    and "0 \<le> c \<Longrightarrow> 0 \<le> d \<Longrightarrow> d \<noteq> c \<Longrightarrow> chain_head (new_state c h K A) d = chain_head A d"
  using assms by (auto simp: chain_head_def new_state_def Let_def ent_def split: if_splits)

lemma state_new:
  assumes inv: "ainv R T ntk A" and rd: "state_ready R T ntk A c K" and so: "sorted (map pitem K)"
    and h: "chain_head A c = Some h" and new: "\<forall>i < length (kern A). kset A i \<noteq> pitem ` set K"
  shows "state_post R T ntk A K (new_state c h K A) (length (kern A))"
proof -
  let ?A = "new_state c h K A" and ?n = "length (kern A)"
  note sz = ainvD(1) [OF inv] and sel = new_state_sel [of c h K A]
  have p: "pits ?A i = (if i < ?n then pits A i else map pitem K)" if "i < Suc ?n" for i
    using that by (simp add: pits_def sel nth_append)
  have la: "look_at ?A i q = look_at A i q" if "i < ?n" for i q
    using that by (simp add: look_at_def sel nth_append)
  have n0: "?n \<noteq> 0" using sz by (simp add: sized_def)
  have kn: "kern ?A ! i = kern A ! i" if "i < ?n" for i using that by (simp add: sel nth_append)
  have kk: "kern ?A ! ?n = K" by (simp add: sel)
  have "kernels_ok R T ?A"
    unfolding kernels_ok_def
  proof (intro conjI allI impI)
    show "pits ?A 0 = [Suc (prdptr (tgram T) ! 0)]" using ainvD(3) [OF inv] n0 p [of 0] by (simp add: kernels_ok_def)
  next
    fix i assume i: "i < length (kern ?A)"
    then consider "i < ?n" | "i = ?n" unfolding sel by fastforce
    then have "kern ?A ! i \<noteq> [] \<and> sorted (pits ?A i) \<and> kernel_items (tabs_at T (slk ?A)) (kern ?A ! i) \<and>
        lr_state (tgram T) (kset ?A i) \<and>
        (\<forall>k \<in> set (kern ?A ! i). \<forall>t \<in> members (slk ?A ! look k). lalr R (tgram T) (kset ?A i) (pitem k) t)"
    proof cases
      case 1
      then show ?thesis using kernels_okD [OF ainvD(3) [OF inv] 1] p [of i] kn [OF 1] by (simp add: sel)
    next
      case 2
      then show ?thesis using rd so p [of ?n] kk by (auto simp: state_ready_def sel)
    qed
    then show "kern ?A ! i \<noteq> []" "sorted (pits ?A i)" "kernel_items (tabs_at T (slk ?A)) (kern ?A ! i)"
      "lr_state (tgram T) (kset ?A i)"
      "\<forall>k \<in> set (kern ?A ! i). \<forall>t \<in> members (slk ?A ! look k). lalr R (tgram T) (kset ?A i) (pitem k) t"
      by blast+
    fix j assume j: "j < length (kern ?A)" "kset ?A i = kset ?A j"
    have "i < Suc ?n" "j < Suc ?n" using i j(1) by (simp_all add: sel)
    with j(2) p [of i] p [of j] new kernels_okD(6) [OF ainvD(3) [OF inv]] show "i = j"
      by (auto simp: less_Suc_eq)
  qed
  moreover have "chains_ok (tgram T) ntk ?A"
    unfolding chains_ok_def
  proof (intro allI impI)
    fix d assume d: "sym_range (nnonter (tgram T)) ntk d"
    then obtain e xs where e: "chain_head A d = Some e" "chain (mstates A) e xs"
      "set xs = {j. 0 < j \<and> j < ?n \<and> entry_sym (tgram T) (kset A j) d}"
      using ainvD(4) [OF inv] unfolding chains_ok_def by blast
    have esK: "entry_sym (tgram T) (pitem ` set K) c" "K \<noteq> []" "sym_range (nnonter (tgram T)) ntk c"
      using rd by (simp_all add: state_ready_def)
    have es: "entry_sym (tgram T) (kset ?A j) d \<longleftrightarrow> (if j < ?n then entry_sym (tgram T) (kset A j) d else d = c)"
      if "j < Suc ?n" for j
    proof (cases "j < ?n")
      case True
      then show ?thesis using p [OF that] by simp
    next
      case False
      then show ?thesis using p [OF that] entry_symD [OF esK(1), of d] esK by auto
    qed
    have mem: "{j. 0 < j \<and> j < length (kern ?A) \<and> entry_sym (tgram T) (kset ?A j) d} =
        set xs \<union> (if d = c then {?n} else {})"
    proof (intro set_eqI)
      fix j
      show "j \<in> {j. 0 < j \<and> j < length (kern ?A) \<and> entry_sym (tgram T) (kset ?A j) d} \<longleftrightarrow>
        j \<in> set xs \<union> (if d = c then {?n} else {})"
      proof (cases "j < Suc ?n")
        case True
        with es [OF True] n0 show ?thesis by (cases "j = ?n") (simp_all add: sel e(3))
      next
        case False
        then show ?thesis by (simp add: sel e(3))
      qed
    qed
    show "\<exists>h' xs. chain_head ?A d = Some h' \<and> chain (mstates ?A) h' xs \<and>
      set xs = {j. 0 < j \<and> j < length (kern ?A) \<and> entry_sym (tgram T) (kset ?A j) d}"
    proof (cases "d = c")
      case True
      with e(1) h have "e = h" by simp
      then have "chain (mstates ?A) ?n (?n # xs)"
        using chain_append [OF e(2), of "[h]"] n0 sz by (simp add: sel sized_def nth_append)
      moreover have "set (?n # xs) = {j. 0 < j \<and> j < length (kern ?A) \<and> entry_sym (tgram T) (kset ?A j) d}"
        unfolding mem using True by simp
      ultimately show ?thesis using new_state_head(1) [OF h] True by blast
    next
      case False
      have "0 \<le> c" "0 \<le> d" using esK(3) d by (auto simp: sym_range_def)
      then have "chain_head ?A d = Some e" using new_state_head(2) [OF h _ _ False] e(1) by simp
      moreover have "chain (mstates ?A) e xs" using chain_append [OF e(2)] by (simp add: sel)
      moreover have "set xs = {j. 0 < j \<and> j < length (kern ?A) \<and> entry_sym (tgram T) (kset ?A j) d}"
        unfolding mem using False by simp
      ultimately show ?thesis by blast
    qed
  qed
  moreover have "sized ?A" using sz by (simp add: sized_def sel)
  ultimately have inv': "ainv R T ntk ?A" using ainvD(2) [OF inv] by (simp add: ainv_def sel)
  have ev: "evolves A ?A"
    using sz p la by (auto simp: evolves_def sel nth_append sized_def)
  have lk: "\<forall>k \<in> set K. members (slk A ! look k) \<subseteq> look_at ?A ?n (pitem k)"
    by (auto simp: look_at_def kk sel)
  have st: "length (styp A) = ?n" using sz by (simp add: sized_def)
  have old: "kern ?A ! i = kern A ! i \<and> styp ?A ! i = styp A ! i" if "i < ?n" for i
    using that st by (simp add: sel nth_append)
  have ty: "styp ?A ! i = MUSTDO" if "i < length (kern ?A)" "?n \<le> i" for i
  proof -
    from that have "i = ?n" by (simp add: sel)
    then show ?thesis using st by (simp add: sel nth_append)
  qed
  have ks: "kset ?A ?n = pitem ` set K" using p [of ?n] by simp
  have nl: "?n < length (kern ?A)" by (simp add: sel)
  show ?thesis
    unfolding state_post_def by (intro conjI inv' ev nl n0 ks lk) (use old ty in blast)+
qed

lemma sum_list_update_le:
  assumes "i < length xs" "f y \<le> f (xs ! i)"
  shows "sum_list (map f (xs[i := y])) + (f (xs ! i) - f y) = sum_list (map (f :: 'a \<Rightarrow> nat) xs)"
  using assms elem_le_sum_list [of i "map f xs"] by (simp add: map_update sum_list_update)

lemma state_old:
  assumes inv: "ainv R T ntk A" and rd: "state_ready R T ntk A c K" and i: "i < length (kern A)" "i \<noteq> 0"
    and eq: "pits A i = map pitem K"
    and fl: "fixed T (tbitset (tgram T)) (slk A) (zip (kern A ! i) K) k lk ch"
  defines "A' \<equiv> A\<lparr>kern := (kern A)[i := k], slk := lk, styp := (if ch then (styp A)[i := MUSTDO] else styp A)\<rparr>"
  shows "state_post R T ntk A K A' i"
proof -
  let ?ki = "kern A ! i" and ?n = "length (kern A)"
  note sz = ainvD(1) [OF inv] and kd = kernels_okD [OF ainvD(3) [OF inv]]
  have len: "length ?ki = length K" using map_eq_imp_length_eq [of pitem ?ki pitem K] eq by (simp add: pits_def)
  obtain x where x: "lk = slk A @ x" "looks_ok T lk" using fl by (auto simp: fixed_def)
  have mg: "list_all2 (merged (tbitset (tgram T)) (slk A) lk) (zip ?ki K) k" and same: "\<not> ch \<Longrightarrow> k = ?ki"
    using fl len by (simp_all add: fixed_def)
  have lk: "length k = length K" using list_all2_lengthD [OF mg] len by simp
  have kj: "pitem (k ! j) = pitem (?ki ! j)" "look (k ! j) < length lk" "length (lk ! look (k ! j)) = tbitset (tgram T)"
    "members (lk ! look (k ! j)) = members (slk A ! look (?ki ! j)) \<union> members (slk A ! look (K ! j))"
    if "j < length K" for j
    using list_all2_nthD [OF mg, of j] that len by (simp_all add: merged_def)
  have pk: "map pitem k = map pitem ?ki" using kj(1) lk len by (intro nth_equalityI) simp_all
  have kern': "kern A' ! j = (if j = i then k else kern A ! j)" if "j < ?n" for j
    using that i by (simp add: A'_def)
  have p: "pits A' j = pits A j" for j
    using pk i by (cases "j = i") (simp_all add: pits_def A'_def)
  have lt: "look e < length (slk A)" if "j < ?n" "e \<in> set (kern A ! j)" for j e
    using kd(3) [OF that(1)] that(2) by (simp add: kernel_items_def)
  have slk': "slk A' = lk" "length (kern A') = ?n" by (simp_all add: A'_def)
  have ki: "kernel_items (tabs_at T lk) k"
    unfolding kernel_items_def
  proof (intro conjI ballI)
    have "distinct (map pitem ?ki)" using kd(3) [OF i(1)] by (simp add: kernel_items_def)
    then show "distinct (map pitem k)" unfolding pk .
    fix e assume "e \<in> set k"
    then obtain j where j: "j < length K" "e = k ! j" using lk by (auto simp: in_set_conv_nth)
    have "?ki ! j \<in> set ?ki" using j(1) len by simp
    then show "item_ok (tabs_at T lk) (pitem e)"
      using kd(3) [OF i(1)] j kj(1) by (simp add: kernel_items_def item_ok_def)
    show "look e < length (tlkst (tabs_at T lk))" using j kj(2) by simp
    show "length (tlkst (tabs_at T lk) ! look e) = tbitset (tgram (tabs_at T lk))" using j kj(3) by simp
  qed
  have snd: "lalr R (tgram T) (kset A i) (pitem e) t" if "e \<in> set k" "t \<in> members (lk ! look e)" for e t
  proof -
    from that(1) obtain j where j: "j < length K" "e = k ! j" using lk by (auto simp: in_set_conv_nth)
    have eqs: "pitem (?ki ! j) = pitem (K ! j)" "kset A i = pitem ` set K"
      using eq j(1) len by (auto simp: pits_def dest: arg_cong [of _ _ "\<lambda>xs. xs ! j"])
    from that(2) kj(4) [OF j(1)] j(2) consider "t \<in> members (slk A ! look (?ki ! j))" | "t \<in> members (slk A ! look (K ! j))"
      by blast
    then show ?thesis
    proof cases
      case 1
      then show ?thesis using kd(5) [OF i(1), of "?ki ! j"] j kj(1) len by simp
    next
      case 2
      then have "lalr R (tgram T) (pitem ` set K) (pitem (K ! j)) t" using rd j(1) by (simp add: state_ready_def)
      then show ?thesis using eqs j kj(1) by simp
    qed
  qed
  have "kernels_ok R T A'"
    unfolding kernels_ok_def p slk'
  proof (intro conjI allI impI)
    show "pits A 0 = [Suc (prdptr (tgram T) ! 0)]" using ainvD(3) [OF inv] by (simp add: kernels_ok_def)
  next
    fix j assume j: "j < ?n"
    show "sorted (pits A j)" "lr_state (tgram T) (kset A j)" using kd(2,4) [OF j] by simp_all
    show "kern A' ! j \<noteq> []"
      using kern' [OF j] kd(1) [OF j] lk len by (cases "j = i") auto
    show "kernel_items (tabs_at T lk) (kern A' ! j)"
      using kern' [OF j] ki kernel_items_extend [OF kd(3) [OF j] x(1)] by simp
    show "\<forall>e \<in> set (kern A' ! j). \<forall>t \<in> members (lk ! look e). lalr R (tgram T) (kset A j) (pitem e) t"
    proof (cases "j = i")
      case True
      then show ?thesis using snd kern' [OF j] by simp
    next
      case False
      then show ?thesis using kd(5) [OF j] lt [OF j] kern' [OF j] by (simp add: x(1) nth_append)
    qed
    fix j' assume "j' < ?n" "kset A j = kset A j'"
    then show "j = j'" using kd(6) [OF j] by blast
  qed
  moreover have "chains_ok (tgram T) ntk A'"
  proof -
    have "chain_head A' d = chain_head A d" for d by (simp add: chain_head_def A'_def)
    moreover have "mstates A' = mstates A" by (simp add: A'_def)
    ultimately show ?thesis using ainvD(4) [OF inv] by (simp add: chains_ok_def p slk')
  qed
  moreover have "sized A'" using sz by (simp add: sized_def A'_def)
  ultimately have inv': "ainv R T ntk A'" using x(2) by (simp add: ainv_def slk')
  have la: "look_at A j q \<subseteq> look_at A' j q" if j: "j < ?n" for j q
  proof
    fix t assume "t \<in> look_at A j q"
    then obtain e where e: "e \<in> set (kern A ! j)" "pitem e = q" "t \<in> members (slk A ! look e)" by (auto simp: look_at_def)
    show "t \<in> look_at A' j q"
    proof (cases "j = i")
      case True
      with e(1) obtain l where l: "l < length K" "e = ?ki ! l" using len by (auto simp: in_set_conv_nth)
      then have "k ! l \<in> set k" "pitem (k ! l) = q" "t \<in> members (lk ! look (k ! l))"
        using kj [OF l(1)] lk e by auto
      then show ?thesis using kern' [OF j] True by (auto simp: look_at_def slk')
    next
      case False
      with e lt [OF j e(1)] show ?thesis using kern' [OF j] by (auto simp: look_at_def slk' x(1) nth_append)
    qed
  qed
  have new: "members (slk A ! look e) \<subseteq> look_at A' i (pitem e)" if "e \<in> set K" for e
  proof -
    from that obtain l where l: "l < length K" "e = K ! l" by (auto simp: in_set_conv_nth)
    have "pitem (?ki ! l) = pitem (K ! l)" using eq l(1) len by (metis length_map nth_map pits_def)
    then have "k ! l \<in> set k" "pitem (k ! l) = pitem e" "members (slk A ! look e) \<subseteq> members (lk ! look (k ! l))"
      using kj [OF l(1)] lk l by auto
    then show ?thesis using kern' [OF i(1)] by (auto simp: look_at_def slk')
  qed
  define f where "f lk k = sum_list (map (item_room lk) k)" for lk k
  have rest: "f lk (kern A ! j) = f (slk A) (kern A ! j)" if "j < ?n" for j
    unfolding f_def x(1) by (rule arg_cong [OF item_room_extend [OF kd(3) [OF that]]])
  have tr: "troom A = sum_list (map (f lk) (kern A))"
  proof -
    have "map (f lk) (kern A) = map (f (slk A)) (kern A)" using rest by (auto simp: in_set_conv_nth)
    then have "sum_list (map (f lk) (kern A)) = sum_list (map (f (slk A)) (kern A))" by (rule arg_cong)
    then show ?thesis by (simp add: troom_def f_def [abs_def])
  qed
  have "map fst (zip ?ki K) = ?ki" using len by simp
  then have fk: "f lk k \<le> f lk ?ki" "ch \<Longrightarrow> f lk k < f lk ?ki"
    using fl rest [OF i(1)] by (simp_all add: fixed_def f_def flip: map_map)
  have "troom A' = sum_list (map (f lk) ((kern A)[i := k]))" by (simp add: troom_def A'_def f_def [abs_def])
  then have tr': "troom A' + (f lk ?ki - f lk k) = troom A"
    using sum_list_update_le [of i "kern A" "f lk" k] i(1) fk(1) tr by simp
  have "evolves A A'"
    using la p tr' slk' x(1) by (auto simp: evolves_def A'_def)
  moreover have "kern A' ! j = kern A ! j \<and> styp A' ! j = styp A ! j \<or>
      j = i \<and> styp A' ! j = MUSTDO \<and> troom A' < troom A" if "j < ?n" for j
  proof (cases "j = i \<and> ch")
    case True
    then have "troom A' < troom A" using tr' fk(2) by linarith
    moreover have "styp A' ! j = MUSTDO" using True i(1) sz by (simp add: A'_def sized_def)
    ultimately show ?thesis using True by blast
  next
    case False
    then show ?thesis using that same i(1) by (auto simp: A'_def)
  qed
  moreover have "kset A' i = pitem ` set K" using p [of i] eq by simp
  ultimately show ?thesis
    using inv' i new slk'(2) by (auto simp: state_post_def)
qed

lemma state_spec:
  assumes inv: "ainv R T ntk A" and rd: "state_ready R T ntk A c K"
  shows "state lsz c K A = Full \<or> (\<exists>A' j. state lsz c K A = Ret (A', j) \<and> state_post R T ntk A K A' j)"
proof -
  let ?K = "sort_items (length K) K"
  note rs = ready_sorted [OF rd]
  obtain h where h: "chain_head A c = Some h"
    "find_state (kern A) (mstates A) (map pitem ?K) h = Some 0 \<Longrightarrow> \<forall>i < length (kern A). kset A i \<noteq> pitem ` set ?K"
    "\<And>i. find_state (kern A) (mstates A) (map pitem ?K) h = Some i \<Longrightarrow> i \<noteq> 0 \<Longrightarrow> i < length (kern A) \<and> pits A i = map pitem ?K"
    "find_state (kern A) (mstates A) (map pitem ?K) h \<noteq> None"
    using find_kernel [OF inv rs(1,2)] by blast
  have K: "K \<noteq> []" using rd by (simp add: state_ready_def)
  have post: "state_post R T ntk A K A' j \<longleftrightarrow> state_post R T ntk A ?K A' j" for A' j
    by (simp add: state_post_def rs(3))
  obtain i where i: "find_state (kern A) (mstates A) (map pitem ?K) h = Some i" using h(4) by blast
  show ?thesis
  proof (cases "i = 0")
    case True
    with i h(1) K have "state lsz c K A = Ret (new_state c h ?K A, length (kern A))"
      by (simp add: state_def Let_def)
    moreover have "state_post R T ntk A K (new_state c h ?K A) (length (kern A))"
      unfolding post using state_new [OF inv rs(1,2) h(1)] h(2) i True by simp
    ultimately show ?thesis by blast
  next
    case False
    from h(3) [OF i False] have il: "i < length (kern A)" "pits A i = map pitem ?K" by simp_all
    have "\<forall>p \<in> set (zip (kern A ! i) ?K). pair_ok (tbitset (tgram T)) (slk A) p"
    proof
      fix p assume p: "p \<in> set (zip (kern A ! i) ?K)"
      have "fst p \<in> set (kern A ! i)" "snd p \<in> set ?K"
        using set_zip_leftD [of "fst p" "snd p"] set_zip_rightD [of "fst p" "snd p"] p by auto
      moreover have "kernel_items (tabs_at T (slk A)) ?K" using rs(1) by (simp add: state_ready_def)
      ultimately show "pair_ok (tbitset (tgram T)) (slk A) p"
        using kernels_okD(3) [OF ainvD(3) [OF inv] il(1)] by (simp add: pair_ok_def kernel_items_def)
    qed
    from fix_looks_spec [OF ainvD(2) [OF inv] this, of lsz] show ?thesis
    proof
      assume "fix_looks lsz (slk A) (zip (kern A ! i) ?K) = Full"
      with i h(1) K False have "state lsz c K A = Full" by (simp add: state_def Let_def)
      then show ?thesis ..
    next
      assume "\<exists>k lk ch. fix_looks lsz (slk A) (zip (kern A ! i) ?K) = Ret (k, lk, ch) \<and>
        fixed T (tbitset (tgram T)) (slk A) (zip (kern A ! i) ?K) k lk ch"
      then obtain k lk ch where f: "fix_looks lsz (slk A) (zip (kern A ! i) ?K) = Ret (k, lk, ch)"
        "fixed T (tbitset (tgram T)) (slk A) (zip (kern A ! i) ?K) k lk ch" by blast
      from state_old [OF inv rs(1) il(1) False il(2) f(2)] f(1) i h(1) K False show ?thesis
        unfolding post by (auto simp: state_def Let_def)
    qed
  qed
qed

end
