(* ===== verification/Ygen.thy ===== *)
theory Ygen
  imports Ystagen
begin

text \<open>
  The loop of \<open>stagen\<close>: what working off a state does, and that the loop ends.
\<close>

subsection \<open>The closure of a state\<close>

text \<open>The entries \<open>gotos\<close> works on: the closure of the kernel \<open>P\<close>, whose first entries are \<open>ps\<close>.\<close>

definition closed_at :: "rule list \<Rightarrow> tables \<Rightarrow> nat set \<Rightarrow> nat list \<Rightarrow> wset list \<Rightarrow> bool" where
  "closed_at R T P ps W \<longleftrightarrow> distinct (map wpitem W) \<and> set (map wpitem W) = {p. lr_item (tgram T) P p} \<and>
    take (length ps) (map wpitem W) = ps \<and> set ps = P \<and>
    (\<forall>v \<in> set W. \<not> wflag v \<and> item_ok T (wpitem v) \<and> length (wlset v) = tbitset (tgram T) \<and>
      (\<forall>t \<in> members (wlset v). lalr R (tgram T) P (wpitem v) t))"

definition mem_toks :: "nat \<Rightarrow> grammar \<Rightarrow> bool" where
  "mem_toks ntk g \<longleftrightarrow> (\<forall>x \<in> set (gmem g). is_token x \<longrightarrow> nat x \<le> ntk)"

lemma closed_gotoset:
  assumes "closed_at R T P ps W"
  shows "gotoset (tgram T) P c = Suc ` wpitem ` {v \<in> set W. gmem (tgram T) ! wpitem v = c}"
proof -
  have *: "lr_item (tgram T) P p \<longleftrightarrow> p \<in> wpitem ` set W" for p
    using assms by (auto simp: closed_at_def)
  show ?thesis unfolding gotoset_def * by auto
qed

definition goto_done :: "tables \<Rightarrow> nat set \<Rightarrow> wset list \<Rightarrow> automaton \<Rightarrow> nat list \<Rightarrow> int \<Rightarrow> bool" where
  "goto_done T P W A row c \<longleftrightarrow> (\<exists>j < length (kern A). j \<noteq> 0 \<and> kset A j = gotoset (tgram T) P c \<and>
    (NTBASE \<le> c \<longrightarrow> row ! ntix c = j) \<and>
    (\<forall>v \<in> set W. gmem (tgram T) ! wpitem v = c \<longrightarrow> members (wlset v) \<subseteq> look_at A j (Suc (wpitem v))))"

lemma goto_done_evolves:
  assumes "goto_done T P W A row c" "evolves A A'" "NTBASE \<le> c \<Longrightarrow> row' ! ntix c = row ! ntix c"
  shows "goto_done T P W A' row' c"
proof -
  from assms(1) obtain j where j: "j < length (kern A)" "j \<noteq> 0" "kset A j = gotoset (tgram T) P c"
    "NTBASE \<le> c \<longrightarrow> row ! ntix c = j"
    "\<forall>v \<in> set W. gmem (tgram T) ! wpitem v = c \<longrightarrow> members (wlset v) \<subseteq> look_at A j (Suc (wpitem v))"
    unfolding goto_done_def by blast
  have "j < length (kern A')" "kset A' j = gotoset (tgram T) P c"
    using evolvesD(1,2) [OF assms(2)] j(1,3) by simp_all
  moreover have "members (wlset v) \<subseteq> look_at A' j (Suc (wpitem v))"
    if "v \<in> set W" "gmem (tgram T) ! wpitem v = c" for v
    using j(5) that evolvesD(3) [OF assms(2) j(1), of "Suc (wpitem v)"] by blast
  moreover have "NTBASE \<le> c \<longrightarrow> row' ! ntix c = j" using j(4) assms(3) by simp
  ultimately show ?thesis using j(2) unfolding goto_done_def by blast
qed

subsection \<open>The gotos\<close>

text \<open>An entry behind the kernel with the dot at the end, or before the end of the input.\<close>

definition ended :: "int list \<Rightarrow> nat \<Rightarrow> wset list \<Rightarrow> bool" where
  "ended m k W \<longleftrightarrow> (\<exists>n < length W. k \<le> n \<and> m ! wpitem (W ! n) \<le> 1)"

definition typ_ok :: "int list \<Rightarrow> nat \<Rightarrow> nat \<Rightarrow> wset list \<Rightarrow> bool" where
  "typ_ok m t k W \<longleftrightarrow> t \<le> 2 \<and> (t = MUSTLOOKAHEAD \<longrightarrow> ended m k W) \<and> (ended m k W \<longrightarrow> t \<noteq> DONE)"

lemma ended_snoc: "ended m k (W @ [v]) \<longleftrightarrow> ended m k W \<or> (k \<le> length W \<and> m ! wpitem v \<le> 1)"
proof -
  have "(\<exists>n < Suc l. Q n) \<longleftrightarrow> (\<exists>n < l. Q n) \<or> Q l" for Q :: "nat \<Rightarrow> bool" and l
    by (metis less_Suc_eq)
  from this [of "length W" "\<lambda>n. k \<le> n \<and> m ! wpitem ((W @ [v]) ! n) \<le> 1"] show ?thesis
    by (simp add: ended_def nth_append cong: conj_cong)
qed

definition others_ok :: "automaton \<Rightarrow> nat \<Rightarrow> automaton \<Rightarrow> bool" where
  "others_ok A0 i A \<longleftrightarrow>
    (\<forall>x < length (kern A). x \<noteq> i \<longrightarrow>
      (x < length (kern A0) \<and> kern A ! x = kern A0 ! x \<and> styp A ! x = styp A0 ! x) \<or> styp A ! x = MUSTDO) \<and>
    (length (kern A) = length (kern A0) \<and> troom A = troom A0 \<longrightarrow>
      styp A ! i \<noteq> MUSTDO \<and> (\<forall>x < length (kern A). kern A ! x = kern A0 ! x \<and>
        (x \<noteq> i \<longrightarrow> styp A ! x = styp A0 ! x)))"

definition ginv :: "rule list \<Rightarrow> tables \<Rightarrow> nat \<Rightarrow> automaton \<Rightarrow> nat \<Rightarrow> wset list \<Rightarrow> wset list \<Rightarrow> int set \<Rightarrow>
    nat list \<Rightarrow> automaton \<Rightarrow> bool" where
  "ginv R T ntk A0 i W pre D row A \<longleftrightarrow> ainv R T ntk A \<and> evolves A0 A \<and>
    length row = nnonter (tgram T) + 1 \<and>
    (\<forall>c \<in> D. 1 < c \<and> goto_done T (kset A0 i) W A row c) \<and>
    (\<forall>v \<in> set pre. 1 < gmem (tgram T) ! wpitem v \<longrightarrow> gmem (tgram T) ! wpitem v \<in> D) \<and>
    typ_ok (gmem (tgram T)) (styp A ! i) (length (kern A0 ! i)) pre \<and>
    (kern A ! i \<noteq> kern A0 ! i \<longrightarrow> styp A ! i \<noteq> DONE \<and> (\<exists>c \<in> D. gotoset (tgram T) (kset A0 i) c = kset A0 i)) \<and>
    others_ok A0 i A"

lemma ginvD:
  assumes "ginv R T ntk A0 i W pre D row A"
  shows "ainv R T ntk A" "evolves A0 A" "length row = nnonter (tgram T) + 1"
    "\<And>c. c \<in> D \<Longrightarrow> 1 < c" "\<And>c. c \<in> D \<Longrightarrow> goto_done T (kset A0 i) W A row c"
    "\<And>v. v \<in> set pre \<Longrightarrow> 1 < gmem (tgram T) ! wpitem v \<Longrightarrow> gmem (tgram T) ! wpitem v \<in> D"
    "typ_ok (gmem (tgram T)) (styp A ! i) (length (kern A0 ! i)) pre"
    "kern A ! i \<noteq> kern A0 ! i \<Longrightarrow> styp A ! i \<noteq> DONE \<and> (\<exists>c \<in> D. gotoset (tgram T) (kset A0 i) c = kset A0 i)"
    "others_ok A0 i A"
  using assms unfolding ginv_def by blast+

text \<open>An entry that is passed over.\<close>

lemma ginv_skip:
  assumes "ginv R T ntk A0 i W pre D row A" "gmem (tgram T) ! wpitem v \<in> D"
  shows "ginv R T ntk A0 i W (pre @ [v]) D row A"
proof -
  have "\<not> gmem (tgram T) ! wpitem v \<le> 1" using ginvD(4) [OF assms(1,2)] by simp
  with assms show ?thesis by (simp add: ginv_def typ_ok_def ended_snoc)
qed

lemma ainv_styp:
  assumes "ainv R T ntk A"
  shows "ainv R T ntk (A\<lparr>styp := (styp A)[i := t]\<rparr>)" "evolves A (A\<lparr>styp := (styp A)[i := t]\<rparr>)"
    "troom (A\<lparr>styp := (styp A)[i := t]\<rparr>) = troom A"
proof -
  let ?A = "A\<lparr>styp := (styp A)[i := t]\<rparr>"
  have p: "pits ?A = pits A" by (rule ext) (simp add: pits_def)
  have ch: "chain_head ?A c = chain_head A c" for c by (simp add: chain_head_def)
  have la: "look_at ?A j q = look_at A j q" for j q by (simp add: look_at_def)
  show t: "troom ?A = troom A" by (simp add: troom_def)
  show "evolves A ?A" using t by (simp add: evolves_def p la)
  show "ainv R T ntk ?A"
    using assms by (simp add: ainv_def sized_def kernels_ok_def chains_ok_def p ch)
qed

lemma ginv_end:
  assumes g: "ginv R T ntk A0 i W pre D row A" and i: "i < length (kern A0)" and c: "gmem (tgram T) ! wpitem v \<le> 1"
  shows "ginv R T ntk A0 i W (pre @ [v]) D row
    (if length (kern A ! i) \<le> length pre then A\<lparr>styp := (styp A)[i := MUSTLOOKAHEAD]\<rparr> else A)"
proof -
  note gd = ginvD [OF g]
  have len: "length (kern A ! i) = length (kern A0 ! i)"
    using evolvesD(2) [OF gd(2) i] map_eq_imp_length_eq by (auto simp: pits_def)
  show ?thesis
  proof (cases "length (kern A ! i) \<le> length pre")
    case False
    then show ?thesis using g c len by (auto simp: ginv_def typ_ok_def ended_snoc)
  next
    case True
    let ?A = "A\<lparr>styp := (styp A)[i := MUSTLOOKAHEAD]\<rparr>"
    note s = ainv_styp [OF gd(1), of i MUSTLOOKAHEAD]
    have il: "i < length (styp A)" "i < length (kern A)"
      using i evolvesD(1) [OF gd(2)] ainvD(1) [OF gd(1)] by (simp_all add: sized_def)
    have "goto_done T (kset A0 i) W ?A row c" if "c \<in> D" for c
      by (rule goto_done_evolves [OF gd(5) [OF that] s(2)]) simp
    moreover have "others_ok A0 i ?A"
      using gd(9) il s(3) by (simp add: others_ok_def)
    moreover have "typ_ok (gmem (tgram T)) (styp ?A ! i) (length (kern A0 ! i)) (pre @ [v])"
      using True len c il by (simp add: typ_ok_def ended_snoc)
    moreover have "kern ?A ! i \<noteq> kern A0 ! i \<longrightarrow> styp ?A ! i \<noteq> DONE \<and> (\<exists>c \<in> D. gotoset (tgram T) (kset A0 i) c = kset A0 i)"
      using gd(8) il by simp
    ultimately show ?thesis
      using True c gd(3,4,6) s(1) evolves_trans [OF gd(2) s(2)] by (auto simp: ginv_def)
  qed
qed

text \<open>The items of a goto.\<close>

definition goto_items :: "int list \<Rightarrow> wset list \<Rightarrow> int \<Rightarrow> lset list \<Rightarrow> item list \<Rightarrow> bool" where
  "goto_items m W c lk K \<longleftrightarrow> distinct (map pitem K) \<and>
    (\<forall>k \<in> set K. \<exists>u \<in> set W. m ! wpitem u = c \<and> pitem k = Suc (wpitem u) \<and> look k < length lk \<and> lk ! look k = wlset u) \<and>
    (\<forall>u \<in> set W. m ! wpitem u = c \<longrightarrow> (\<exists>k \<in> set K. pitem k = Suc (wpitem u) \<and> lk ! look k = wlset u))"

lemma list_all2_map_eq:
  "list_all2 (\<lambda>v k. f k = h v \<and> Q v k) vs ks \<Longrightarrow> map f ks = map h vs"
  by (induction rule: list_all2_induct) auto

lemma goto_items_put:
  assumes W: "W = pre @ v # vs0" "distinct (map wpitem W)" "\<forall>u \<in> set pre. m ! wpitem u \<noteq> c" "m ! wpitem v = c"
    and vs: "wpitem v' = wpitem v" "wlset v' = wlset v" "map wpitem vs = map wpitem vs0" "map wlset vs = map wlset vs0"
    and K: "list_all2 (\<lambda>v k. pitem k = Suc (wpitem v) \<and> look k < length lk \<and> lk ! look k = wlset v)
      (v' # filter (\<lambda>q. m ! wpitem q = c) vs) K"
  shows "goto_items m W c lk K"
proof -
  let ?E = "v' # filter (\<lambda>q. m ! wpitem q = c) vs" and ?k = "\<lambda>u. (wpitem u, wlset u)"
  have len: "length vs = length vs0" using vs(3) by (rule map_eq_imp_length_eq)
  have km: "map ?k vs = map ?k vs0"
    using vs(3,4) len by (intro nth_equalityI) (auto dest: arg_cong [of _ _ "\<lambda>xs. xs ! _"] simp: list_eq_iff_nth_eq)
  have "map ?k (filter (\<lambda>q. m ! wpitem q = c) vs) = filter (\<lambda>x. m ! fst x = c) (map ?k vs)"
    by (simp add: filter_map comp_def)
  also have "\<dots> = map ?k (filter (\<lambda>q. m ! wpitem q = c) vs0)"
    unfolding km by (simp add: filter_map comp_def)
  finally have "map ?k ?E = map ?k (filter (\<lambda>q. m ! wpitem q = c) (v # vs0))"
    using vs(1,2) W(4) by simp
  moreover have "filter (\<lambda>q. m ! wpitem q = c) W = filter (\<lambda>q. m ! wpitem q = c) (v # vs0)"
    using W(1,3) by (simp add: filter_empty_conv)
  ultimately have e: "map ?k ?E = map ?k (filter (\<lambda>q. m ! wpitem q = c) W)" by simp
  have "map pitem K = map (\<lambda>v. Suc (wpitem v)) ?E"
    using K by (rule list_all2_map_eq)
  also have "\<dots> = map Suc (map fst (map ?k ?E))" by simp
  also have "\<dots> = map Suc (filter (\<lambda>p. m ! p = c) (map wpitem W))"
    unfolding e by (simp add: filter_map comp_def)
  finally have "distinct (map pitem K)" using W(2) by (simp add: distinct_map)
  moreover have "\<exists>u \<in> set W. m ! wpitem u = c \<and> pitem k = Suc (wpitem u) \<and> look k < length lk \<and> lk ! look k = wlset u"
    if "k \<in> set K" for k
  proof -
    from that obtain n where n: "n < length K" "k = K ! n" by (auto simp: in_set_conv_nth)
    then have "n < length ?E" using list_all2_lengthD [OF K] by simp
    have nE: "pitem k = Suc (wpitem (?E ! n))" "look k < length lk" "lk ! look k = wlset (?E ! n)"
      using list_all2_nthD2 [OF K n(1)] n(2) by blast+
    have "?E ! n \<in> set ?E" by (rule nth_mem) fact
    then have "?k (?E ! n) \<in> ?k ` set ?E" by (rule imageI)
    then have "?k (?E ! n) \<in> set (map ?k ?E)" by (simp only: set_map)
    then obtain u where "u \<in> set W" "m ! wpitem u = c" "?k (?E ! n) = ?k u" unfolding e by (auto simp del: list.map)
    with nE show ?thesis by auto
  qed
  moreover have "\<exists>k \<in> set K. pitem k = Suc (wpitem u) \<and> lk ! look k = wlset u"
    if "u \<in> set W" "m ! wpitem u = c" for u
  proof -
    from that have "?k u \<in> set (map ?k ?E)" unfolding e by auto
    then obtain n where n: "n < length ?E" "?k u = ?k (?E ! n)" by (auto simp: in_set_conv_nth simp del: set_map list.map)
    then have "K ! n \<in> set K" "pitem (K ! n) = Suc (wpitem (?E ! n))" "lk ! look (K ! n) = wlset (?E ! n)"
      using K by (auto simp: list_all2_conv_all_nth)
    with n(2) show ?thesis by auto
  qed
  ultimately show ?thesis by (simp add: goto_items_def)
qed

lemma goto_items_set:
  assumes "goto_items (gmem (tgram T)) W c lk K" "closed_at R T P ps W"
  shows "pitem ` set K = gotoset (tgram T) P c"
  unfolding closed_gotoset [OF assms(2)]
proof (intro equalityI subsetI)
  fix q assume "q \<in> pitem ` set K"
  then obtain u where "u \<in> set W" "gmem (tgram T) ! wpitem u = c" "q = Suc (wpitem u)"
    using assms(1) unfolding goto_items_def by blast
  then show "q \<in> Suc ` wpitem ` {v \<in> set W. gmem (tgram T) ! wpitem v = c}" by blast
next
  fix q assume "q \<in> Suc ` wpitem ` {v \<in> set W. gmem (tgram T) ! wpitem v = c}"
  then obtain u where "u \<in> set W" "gmem (tgram T) ! wpitem u = c" "q = Suc (wpitem u)" by blast
  then show "q \<in> pitem ` set K" using assms(1) unfolding goto_items_def by force
qed

lemma goto_items_ready:
  assumes T: "tables_ok st nn tb lsz rs T" and toks: "mem_toks ntk (tgram T)"
    and lr: "lr_state (tgram T) P" and cl: "closed_at R T P ps W" and c: "1 < c"
    and K: "goto_items (gmem (tgram T)) W c (slk A) K" and ne: "\<exists>u \<in> set W. gmem (tgram T) ! wpitem u = c"
  shows "state_ready R T ntk A c K"
proof -
  let ?m = "gmem (tgram T)"
  note t = tables_okD [OF T]
  have P: "pitem ` set K = gotoset (tgram T) P c" by (rule goto_items_set [OF K cl])
  have from_W: "\<exists>u \<in> set W. ?m ! wpitem u = c \<and> pitem k = Suc (wpitem u) \<and> look k < length (slk A) \<and> slk A ! look k = wlset u"
    if "k \<in> set K" for k using K that by (simp add: goto_items_def)
  obtain u where u: "u \<in> set W" "?m ! wpitem u = c" using ne by blast
  have oku: "item_ok T (wpitem u)" using cl u(1) by (simp add: closed_at_def)
  have K0: "K \<noteq> []" using K u by (auto simp: goto_items_def)
  have sym: "is_token c \<or> is_nonterm nn c" using item_ok_Suc(2) [OF oku] u(2) c t(4) by simp
  have "c \<in> set ?m" using item_ok_lt [OF oku] u(2) by auto
  then have range: "sym_range (nnonter (tgram T)) ntk c"
    using sym toks t(4) by (auto simp: sym_range_def mem_toks_def is_token_def is_nonterm_def)
  have start: "\<not> entry_sym (tgram T) {Suc (prdptr (tgram T) ! 0)} c"
    using sym t(3) by (auto simp: entry_sym_def setup_rules_def is_token_def is_nonterm_def)
  have ki: "kernel_items (tabs_at T (slk A)) K"
    unfolding kernel_items_def
  proof (intro conjI ballI)
    show "distinct (map pitem K)" using K by (simp add: goto_items_def)
    fix k assume "k \<in> set K"
    then obtain w where w: "w \<in> set W" "?m ! wpitem w = c" "pitem k = Suc (wpitem w)" "look k < length (slk A)"
      "slk A ! look k = wlset w" using from_W by blast
    have "item_ok T (wpitem w)" "length (wlset w) = tbitset (tgram T)" using cl w(1) by (simp_all add: closed_at_def)
    with item_ok_Suc(1) [of T "wpitem w"] w c show "item_ok (tabs_at T (slk A)) (pitem k)"
      "look k < length (tlkst (tabs_at T (slk A)))"
      "length (tlkst (tabs_at T (slk A)) ! look k) = tbitset (tgram (tabs_at T (slk A)))"
      by (simp_all add: item_ok_def)
  qed
  have ne': "gotoset (tgram T) P c \<noteq> {}" using P K0 by (metis image_is_empty set_empty)
  have lr': "lr_state (tgram T) (pitem ` set K)" unfolding P by (rule lr_state.move [OF lr c ne'])
  have es: "entry_sym (tgram T) (pitem ` set K) c" unfolding P using gotoset_sym by (auto simp: entry_sym_def)
  have "lalr R (tgram T) (pitem ` set K) (pitem k) t" if kt: "k \<in> set K" "t \<in> members (slk A ! look k)" for k t
  proof -
    obtain w where w: "w \<in> set W" "?m ! wpitem w = c" "pitem k = Suc (wpitem w)" "slk A ! look k = wlset w"
      using from_W [OF kt(1)] by blast
    have "lalr R (tgram T) P (wpitem w) t" using cl w(1,4) kt(2) by (simp add: closed_at_def)
    from lalr.move [OF this] c w(2,3) show ?thesis unfolding P by simp
  qed
  then show ?thesis using K0 ki lr' es start range by (simp add: state_ready_def)
qed

text \<open>One goto.\<close>

lemma others_step:
  assumes o: "others_ok A0 i A" and ev: "evolves A0 A" and st: "state_post R T ntk A1 K A' j"
    and A1: "kern A1 = kern A" "styp A1 = styp A" "troom A1 = troom A" and i: "i < length (kern A)"
  shows "others_ok A0 i A'"
proof -
  have ev': "evolves A1 A'"
    and old: "\<And>x. x < length (kern A) \<Longrightarrow> kern A' ! x = kern A ! x \<and> styp A' ! x = styp A ! x \<or>
      x = j \<and> styp A' ! x = MUSTDO \<and> troom A' < troom A"
    and new: "\<And>x. x < length (kern A') \<Longrightarrow> length (kern A) \<le> x \<Longrightarrow> styp A' ! x = MUSTDO"
    using st A1 by (simp_all add: state_post_def)
  have len: "length (kern A0) \<le> length (kern A)" "length (kern A) \<le> length (kern A')"
    using evolvesD(1) [OF ev] evolvesD(1) [OF ev'] A1 by simp_all
  show ?thesis
    unfolding others_ok_def
  proof (intro conjI allI impI)
    fix x assume x: "x < length (kern A')" "x \<noteq> i"
    show "(x < length (kern A0) \<and> kern A' ! x = kern A0 ! x \<and> styp A' ! x = styp A0 ! x) \<or> styp A' ! x = MUSTDO"
    proof (cases "x < length (kern A)")
      case True
      have "(x < length (kern A0) \<and> kern A ! x = kern A0 ! x \<and> styp A ! x = styp A0 ! x) \<or> styp A ! x = MUSTDO"
        using o True x(2) by (simp add: others_ok_def)
      with old [OF True] show ?thesis by auto
    next
      case False
      with new [OF x(1)] show ?thesis by simp
    qed
  next
    assume same: "length (kern A') = length (kern A0) \<and> troom A' = troom A0"
    then have l: "length (kern A) = length (kern A0)" "length (kern A') = length (kern A)" using len by simp_all
    have "troom A \<le> troom A0" "troom A' \<le> troom A"
      using evolvesD(9) [OF ev] evolvesD(9) [OF ev'] l A1 by simp_all
    then have tr: "troom A = troom A0" "\<not> troom A' < troom A" using same by simp_all
    have keep: "kern A' ! x = kern A ! x \<and> styp A' ! x = styp A ! x" if "x < length (kern A)" for x
      using old [OF that] tr(2) by blast
    have oo: "styp A ! i \<noteq> MUSTDO" "\<And>x. x < length (kern A) \<Longrightarrow> kern A ! x = kern A0 ! x \<and> (x \<noteq> i \<longrightarrow> styp A ! x = styp A0 ! x)"
      using o l(1) tr(1) by (auto simp: others_ok_def)
    show "styp A' ! i \<noteq> MUSTDO" using keep [OF i] oo(1) by simp
    fix x assume "x < length (kern A')"
    then have x: "x < length (kern A)" using l(2) by simp
    show "kern A' ! x = kern A0 ! x" using keep [OF x] oo(2) [OF x] by simp
    show "x \<noteq> i \<Longrightarrow> styp A' ! x = styp A0 ! x" using keep [OF x] oo(2) [OF x] by simp
  qed
qed

lemma ginv_goto:
  assumes T: "tables_ok st nn tb lsz rs T" and toks: "mem_toks ntk (tgram T)"
    and g: "ginv R T ntk A0 i W pre D row A" and i: "i < length (kern A0)"
    and lr: "lr_state (tgram T) (kset A0 i)" and cl: "closed_at R T (kset A0 i) ps W"
    and W: "W = pre @ v # vs0" and c: "gmem (tgram T) ! wpitem v = c" "1 < c" "c \<notin> D"
    and lk: "looks_ok T (slk A @ x)" and K: "goto_items (gmem (tgram T)) W c (slk A @ x) K"
    and st: "state_post R T ntk (A\<lparr>slk := slk A @ x\<rparr>) K A' j"
  shows "ginv R T ntk A0 i W (pre @ [v]) (insert c D) (if c < NTBASE then row else row[ntix c := j]) A'"
    (is "ginv R T ntk A0 i W _ _ ?row A'")
proof -
  let ?A1 = "A\<lparr>slk := slk A @ x\<rparr>" and ?m = "gmem (tgram T)" and ?P = "kset A0 i"
  note gd = ginvD [OF g]
  note ext = ainv_extend [OF gd(1) lk]
  have sp: "ainv R T ntk A'" "evolves ?A1 A'" "j < length (kern A')" "j \<noteq> 0" "kset A' j = pitem ` set K"
    "\<And>k. k \<in> set K \<Longrightarrow> members ((slk A @ x) ! look k) \<subseteq> look_at A' j (pitem k)"
    and old: "\<And>y. y < length (kern A) \<Longrightarrow> kern A' ! y = kern A ! y \<and> styp A' ! y = styp A ! y \<or>
      y = j \<and> styp A' ! y = MUSTDO \<and> troom A' < troom ?A1"
    using st by (simp_all add: state_post_def)
  have ev: "evolves A A'" by (rule evolves_trans [OF ext(2) sp(2)])
  have ilt: "i < length (kern A)" using i evolvesD(1) [OF gd(2)] by simp
  have Pj: "kset A' j = gotoset (tgram T) ?P c" using sp(5) goto_items_set [OF K cl] by simp
  have len: "length ?row = nnonter (tgram T) + 1" using gd(3) by simp
  have ixc: "NTBASE \<le> c \<Longrightarrow> ntix c < length row"
  proof -
    have oku: "item_ok T (wpitem v)" using cl W by (simp add: closed_at_def)
    have "is_token c \<or> is_nonterm nn c" using item_ok_Suc(2) [OF oku] c tables_okD(4) [OF T] by simp
    then show "NTBASE \<le> c \<Longrightarrow> ntix c < length row"
      using gd(3) tables_okD(4) [OF T] by (auto simp: is_token_def is_nonterm_def)
  qed
  have keep: "?row ! ntix d = row ! ntix d" if "d \<in> D" "NTBASE \<le> d" for d
  proof (cases "NTBASE \<le> c")
    case True
    moreover have "d \<noteq> c" using that(1) c(3) by metis
    ultimately have "ntix d \<noteq> ntix c" using that(2) by (simp add: eq_nat_nat_iff)
    then show ?thesis by simp
  qed simp
  have done_c: "goto_done T ?P W A' ?row c"
    unfolding goto_done_def
  proof (intro exI [of _ j] conjI)
    show "NTBASE \<le> c \<longrightarrow> ?row ! ntix c = j" using ixc by simp
    show "\<forall>u \<in> set W. ?m ! wpitem u = c \<longrightarrow> members (wlset u) \<subseteq> look_at A' j (Suc (wpitem u))"
    proof (intro ballI impI)
      fix u assume "u \<in> set W" "?m ! wpitem u = c"
      then obtain k where k: "k \<in> set K" "pitem k = Suc (wpitem u)" "(slk A @ x) ! look k = wlset u"
        using K unfolding goto_items_def by blast
      from sp(6) [OF k(1)] k(2,3) show "members (wlset u) \<subseteq> look_at A' j (Suc (wpitem u))" by simp
    qed
  qed (use sp(3,4) Pj in auto)
  have dn: "1 < d \<and> goto_done T ?P W A' ?row d" if "d \<in> insert c D" for d
  proof (cases "d = c")
    case True
    then show ?thesis using done_c c(2) by simp
  next
    case False
    then have d: "d \<in> D" using that by simp
    show ?thesis using goto_done_evolves [OF gd(5) [OF d] ev, of ?row] keep [OF d] gd(4) [OF d] by blast
  qed
  have ty: "styp A' ! i = styp A ! i \<and> kern A' ! i = kern A ! i \<or> i = j \<and> styp A' ! i = MUSTDO"
    using old [OF ilt] by blast
  have "typ_ok ?m (styp A' ! i) (length (kern A0 ! i)) (pre @ [v])"
    using gd(7) ty c by (auto simp: typ_ok_def ended_snoc)
  moreover have "styp A' ! i \<noteq> DONE \<and> (\<exists>d \<in> insert c D. gotoset (tgram T) ?P d = ?P)" if "kern A' ! i \<noteq> kern A0 ! i"
  proof (cases "i = j \<and> styp A' ! i = MUSTDO")
    case True
    have "kset A' i = ?P" using evolvesD(2) [OF evolves_trans [OF gd(2) ev] i] by simp
    then show ?thesis using Pj True by auto
  next
    case False
    with ty that gd(8) show ?thesis by auto
  qed
  moreover have "others_ok A0 i A'"
    by (rule others_step [OF gd(9) gd(2) st]) (use ext(3) ilt in simp_all)
  ultimately show ?thesis
    unfolding ginv_def using sp(1) evolves_trans [OF gd(2) ev] len dn gd(6) c(1) by auto
qed

end
