(* ===== verification/Yloop.thy ===== *)
theory Yloop
  imports Ygen
begin

text \<open>
  The loop of \<open>stagen\<close>.
\<close>

subsection \<open>All gotos of a state\<close>

lemma gotos_inv:
  assumes T: "tables_ok st nn tb lsz rs T" and toks: "mem_toks ntk (tgram T)"
    and i: "i < length (kern A0)" and lr: "lr_state (tgram T) (kset A0 i)" and cl: "closed_at R T (kset A0 i) ps W"
  shows "W = pre @ vs0 \<Longrightarrow> ginv R T ntk A0 i W pre D row A \<Longrightarrow>
    vs = map (\<lambda>v. v\<lparr>wflag := gmem (tgram T) ! wpitem v \<in> D\<rparr>) vs0 \<Longrightarrow> n = length pre \<Longrightarrow>
    gotos sz (gmem (tgram T)) i n vs row A = Full \<or>
    (\<exists>A' row' D'. gotos sz (gmem (tgram T)) i n vs row A = Ret (A', row') \<and> ginv R T ntk A0 i W W D' row' A')"
proof (induction vs0 arbitrary: pre D row A vs n)
  case Nil
  then show ?case by auto
next
  case (Cons v vs0)
  let ?m = "gmem (tgram T)"
  let ?f = "\<lambda>D. map (\<lambda>v. v\<lparr>wflag := ?m ! wpitem v \<in> D\<rparr>) vs0"
  let ?v = "v\<lparr>wflag := ?m ! wpitem v \<in> D\<rparr>"
  have W: "W = (pre @ [v]) @ vs0" and n: "Suc n = length (pre @ [v])" using Cons.prems(1,4) by simp_all
  have vW: "v \<in> set W" using Cons.prems(1) by simp
  have vs: "vs = ?v # ?f D" using Cons.prems(3) by simp
  have e: "ent ?m (wpitem v) = Some (?m ! wpitem v)"
    using cl vW item_ok_lt by (simp add: closed_at_def)
  note g = Cons.prems(2)
  show ?case
  proof (cases "?m ! wpitem v \<in> D")
    case True
    have "gotos sz ?m i n vs row A = gotos sz ?m i (Suc n) (?f D) row A" using vs True by simp
    with Cons.IH [OF W ginv_skip [OF g True] refl n] show ?thesis by (simp only:)
  next
    case nD: False
    show ?thesis
    proof (cases "?m ! wpitem v \<le> 1")
      case True
      let ?A = "if length (kern A ! i) \<le> n then A\<lparr>styp := (styp A)[i := MUSTLOOKAHEAD]\<rparr> else A"
      have "gotos sz ?m i n vs row A = gotos sz ?m i (Suc n) (?f D) row ?A" using vs nD e True by simp
      moreover have "ginv R T ntk A0 i W (pre @ [v]) D row ?A"
        using ginv_end [OF g i True] Cons.prems(4) by simp
      ultimately show ?thesis using Cons.IH [OF W _ refl n] by (simp only:)
    next
      case False
      let ?c = "?m ! wpitem v"
      have c1: "1 < ?c" using False by simp
      let ?E = "?v # filter (\<lambda>q. ?m ! wpitem q = ?c) (?f D)"
      have mark: "map (\<lambda>q. if ?m ! wpitem q = ?c then q\<lparr>wflag := True\<rparr> else q) (?f D) = ?f (insert ?c D)"
        by simp
      have step: "gotos sz ?m i n vs row A = bindr (put_items sz (slk A) ?E) (\<lambda>(K, lk).
         bindr (state sz ?c K (A\<lparr>slk := lk\<rparr>)) (\<lambda>(A, j).
           gotos sz ?m i (Suc n) (?f (insert ?c D)) (if ?c < NTBASE then row else row[ntix ?c := j]) A))"
        unfolding vs gotos.simps mark [symmetric] using nD e False by simp
      note gd = ginvD [OF g]
      note lk0 = ainvD(2) [OF gd(1)]
      from put_items_spec [OF lk0, of sz ?E] show ?thesis
      proof
        assume "put_items sz (slk A) ?E = Full"
        then show ?thesis unfolding step by simp
      next
        assume "\<exists>K lk'. put_items sz (slk A) ?E = Ret (K, lk') \<and> looks_ok T lk' \<and> (\<exists>x. lk' = slk A @ x) \<and>
          list_all2 (\<lambda>v k. pitem k = Suc (wpitem v) \<and> look k < length lk' \<and> lk' ! look k = wlset v) ?E K"
        then obtain K x where K: "put_items sz (slk A) ?E = Ret (K, slk A @ x)" "looks_ok T (slk A @ x)"
          "list_all2 (\<lambda>v k. pitem k = Suc (wpitem v) \<and> look k < length (slk A @ x) \<and> (slk A @ x) ! look k = wlset v) ?E K"
          by blast
        have pre: "\<forall>u \<in> set pre. ?m ! wpitem u \<noteq> ?c" using gd(6) nD c1 by metis
        have dW: "distinct (map wpitem W)" using cl by (simp add: closed_at_def)
        have gi: "goto_items ?m W ?c (slk A @ x) K"
          by (rule goto_items_put [OF Cons.prems(1) dW pre refl _ _ _ _ K(3)]) simp_all
        let ?A = "A\<lparr>slk := slk A @ x\<rparr>"
        have "state_ready R T ntk ?A ?c K"
          by (rule goto_items_ready [OF T toks lr cl c1]) (use gi vW in auto)
        from state_spec [OF ainv_extend(1) [OF gd(1) K(2)] this, of sz] show ?thesis
        proof
          assume "state sz ?c K ?A = Full"
          then show ?thesis unfolding step K(1) by simp
        next
          assume "\<exists>A' j. state sz ?c K ?A = Ret (A', j) \<and> state_post R T ntk ?A K A' j"
          then obtain A' j where s: "state sz ?c K ?A = Ret (A', j)" "state_post R T ntk ?A K A' j" by blast
          let ?row = "if ?c < NTBASE then row else row[ntix ?c := j]"
          have "gotos sz ?m i n vs row A = gotos sz ?m i (Suc n) (?f (insert ?c D)) ?row A'"
            unfolding step K(1) using s(1) by simp
          moreover have "ginv R T ntk A0 i W (pre @ [v]) (insert ?c D) ?row A'"
            by (rule ginv_goto [OF T toks g i lr cl Cons.prems(1) refl c1 nD K(2) gi s(2)])
          ultimately show ?thesis using Cons.IH [OF W _ refl n] by (simp only:)
        qed
      qed
    qed
  qed
qed

subsection \<open>The working sets never shrink\<close>

lemma wsetsz_add_prod:
  assumes "add_prod T nl cl s st w = Some r"
  shows "wsetsz st \<le> wsetsz (fst r)"
  using assms by (auto simp: add_prod_def exp_wsets_def wsetsz_def Let_def
      split: option.splits Option.bind_splits if_splits list.splits)

lemma wsetsz_add_prods:
  "add_prods T nl cl ss st w = Some r \<Longrightarrow> wsetsz st \<le> wsetsz (fst r)"
proof (induction ss arbitrary: st w)
  case (Cons s ss)
  then obtain r' where r': "add_prod T nl cl s st w = Some r'" "add_prods T nl cl ss (fst r') (snd r') = Some r"
    by (auto split: Option.bind_splits)
  from wsetsz_add_prod [OF r'(1)] Cons.IH [OF r'(2)] show ?case by simp
qed auto

lemma wsetsz_close_one:
  assumes "close_one T nl i st w = Some r"
  shows "wsetsz st \<le> wsetsz (fst r)"
proof -
  have ga: "length (fst g) = length (wused st) - i" if "gather T nl c cl (drop i (wused st)) = Some g" for c cl g
    using gather_length [OF that] by (metis length_drop length_map)
  from assms obtain u where u: "i < length (wused st)" "wused st ! i = u"
    by (auto simp: close_one_def ent_eq_Some split: Option.bind_splits)
  show ?thesis
    using assms u(1)
    by (auto simp: close_one_def ent_eq_Some wsetsz_def split: Option.bind_splits if_splits
        dest!: wsetsz_add_prods ga)
qed

lemma wsetsz_cl_pass:
  "cl_pass T nl i st w = Some (st', w') \<Longrightarrow> wsetsz st \<le> wsetsz st'"
proof (induction T nl i st w rule: cl_pass.induct)
  case (1 T nl i st w)
  show ?case
  proof (cases "i < length (wused st)")
    case True
    with 1(2) obtain st1 w1 where c: "close_one T nl i st w = Some (st1, w1)"
      "cl_pass T nl (i + 1) st1 w1 = Some (st', w')"
      by (subst (asm) cl_pass.simps) (auto split: option.splits)
    from wsetsz_close_one [OF c(1)] 1(1) [OF True c(1) refl c(2)] show ?thesis by simp
  next
    case False
    with 1(2) show ?thesis by (subst (asm) cl_pass.simps) simp
  qed
qed

lemma wsetsz_cl_loop: "cl_loop T nl st = Some st' \<Longrightarrow> wsetsz st \<le> wsetsz st'"
proof (induction T nl st rule: cl_loop.induct)
  case (1 T nl st)
  from 1(2) obtain st1 w1 where c: "cl_pass T nl 0 st False = Some (st1, w1)"
    "(if w1 then cl_loop T nl st1 else Some st1) = Some st'"
    by (subst (asm) cl_loop.simps) (auto split: option.splits)
  from wsetsz_cl_pass [OF c(1)] 1(1) [OF c(1) refl] c(2) show ?case by (auto split: if_splits)
qed

lemma those_length: "those xs = Some ys \<Longrightarrow> length ys = length xs"
  by (induction xs arbitrary: ys) (auto split: option.splits)

lemma wsetsz_closure:
  assumes "closure T nl K st = Some st'"
  shows "wsetsz st \<le> wsetsz st'"
proof -
  from assms obtain st1 where c: "cl_kernel T K st = Some st1" "cl_loop T nl st1 = Some st'"
    by (auto simp: closure_def split: Option.bind_splits)
  from c(1) have "wsetsz st \<le> wsetsz st1"
    by (auto simp: cl_kernel_def wsetsz_def those_length Let_def split: Option.bind_splits if_splits)
  with wsetsz_cl_loop [OF c(2)] show ?thesis by simp
qed

subsection \<open>\<open>apack\<close>\<close>

lemma apack_try_True:
  "apack_try am rr ys = Some True \<Longrightarrow> k < length ys \<Longrightarrow> ys ! k \<noteq> 0 \<Longrightarrow>
    rr + k < length am \<and> (am ! (rr + k) = 0 \<or> am ! (rr + k) = ys ! k)"
proof (induction am rr ys arbitrary: k rule: apack_try.induct)
  case (2 am rr y ys)
  show ?case
  proof (cases k)
    case 0
    then show ?thesis using 2(3,5) by (auto split: if_splits)
  next
    case (Suc k')
    with 2(3-5) show ?thesis using 2(1,2) [of k'] by (auto split: if_splits)
  qed
qed simp

lemma apack_find_Some:
  "apack_find am rr ys = Some p \<Longrightarrow> apack_try am p ys = Some True"
proof (induction am rr ys rule: apack_find.induct)
  case (1 am rr ys)
  then show ?case by (subst (asm) (2) apack_find.simps) (auto split: if_splits option.splits)
qed

lemma apack_put_spec:
  "\<forall>k < length ys. ys ! k \<noteq> 0 \<longrightarrow> rr + k < length am \<Longrightarrow>
    length (fst (apack_put am mp rr ys)) = length am \<and>
    (\<forall>j < length am. fst (apack_put am mp rr ys) ! j =
      (if rr \<le> j \<and> j < rr + length ys \<and> ys ! (j - rr) \<noteq> 0 then ys ! (j - rr) else am ! j))"
proof (induction am mp rr ys rule: apack_put.induct)
  case (2 am mp rr y ys)
  have lt: "y \<noteq> 0 \<Longrightarrow> rr < length am" using 2(3) by fastforce
  have fit: "\<forall>k < length ys. ys ! k \<noteq> 0 \<longrightarrow> rr + 1 + k < length am" using 2(3) by force
  show ?case
  proof (cases "y = 0")
    case True
    have "(if rr + 1 \<le> j \<and> j < rr + 1 + length ys \<and> ys ! (j - (rr + 1)) \<noteq> 0 then ys ! (j - (rr + 1)) else am ! j) =
      (if rr \<le> j \<and> j < rr + length (y # ys) \<and> (y # ys) ! (j - rr) \<noteq> 0 then (y # ys) ! (j - rr) else am ! j)" for j
      using True by (cases "j = rr") (auto simp: nth_Cons' Suc_diff_Suc)
    with 2(1) [OF True] fit True show ?thesis by simp
  next
    case False
    have "(if rr + 1 \<le> j \<and> j < rr + 1 + length ys \<and> ys ! (j - (rr + 1)) \<noteq> 0 then ys ! (j - (rr + 1)) else am[rr := y] ! j) =
      (if rr \<le> j \<and> j < rr + length (y # ys) \<and> (y # ys) ! (j - rr) \<noteq> 0 then (y # ys) ! (j - rr) else am ! j)" for j
      using False lt by (cases "j = rr") (auto simp: nth_Cons' Suc_diff_Suc)
    with 2(2) [OF False] fit False show ?thesis by simp
  qed
qed auto

text \<open>Every entry of the row is found at its place, and what was in the array stays.\<close>

lemma apack_spec:
  assumes "apack am mp row = Some (am', mp', off)"
  shows "length am' = length am" "\<And>j. j < length am \<Longrightarrow> am ! j \<noteq> 0 \<Longrightarrow> am' ! j = am ! j"
    "\<And>k. k < length row \<Longrightarrow> row ! k \<noteq> 0 \<Longrightarrow> 0 \<le> off + int k \<and> nat (off + int k) < length am \<and>
      am' ! nat (off + int k) = row ! k"
proof -
  define z where "z = length (takeWhile (\<lambda>y. y = 0) row)"
  let ?ys = "drop z row"
  have z: "row ! k = 0" if "k < z" for k
    using that nth_mem [of k "takeWhile (\<lambda>y. y = 0) row"] unfolding z_def
    by (metis set_takeWhileD takeWhile_nth)
  have "length am' = length am \<and> (\<forall>j < length am. am ! j \<noteq> 0 \<longrightarrow> am' ! j = am ! j) \<and>
    (\<forall>k < length row. row ! k \<noteq> 0 \<longrightarrow> 0 \<le> off + int k \<and> nat (off + int k) < length am \<and>
      am' ! nat (off + int k) = row ! k)"
  proof (cases "?ys = []")
    case True
    then have "row ! k = 0" if "k < length row" for k using z that by simp
    with True assms show ?thesis by (simp add: apack_def z_def [symmetric] Let_def)
  next
    case False
    with assms obtain rr where rr: "apack_find am 0 ?ys = Some rr" "am' = fst (apack_put am mp rr ?ys)"
      "off = int rr - int z"
      by (auto simp: apack_def z_def [symmetric] Let_def split: option.splits)
    note t = apack_try_True [OF apack_find_Some [OF rr(1)]]
    have fit: "\<forall>k < length ?ys. ?ys ! k \<noteq> 0 \<longrightarrow> rr + k < length am" using t by blast
    have p: "length (fst (apack_put am mp rr ?ys)) = length am" "\<And>j. j < length am \<Longrightarrow> fst (apack_put am mp rr ?ys) ! j =
        (if rr \<le> j \<and> j < rr + length ?ys \<and> ?ys ! (j - rr) \<noteq> 0 then ?ys ! (j - rr) else am ! j)"
      using apack_put_spec [OF fit, of mp] by blast+
    have "am' ! j = am ! j" if "j < length am" "am ! j \<noteq> 0" for j
      using t [of "j - rr"] that p unfolding rr(2) by (auto split: if_splits)
    moreover have "0 \<le> off + int k \<and> nat (off + int k) < length am \<and> am' ! nat (off + int k) = row ! k"
      if k: "k < length row" "row ! k \<noteq> 0" for k
    proof -
      have zk: "z \<le> k" using z k(2) by (metis not_le)
      have y: "k - z < length ?ys" "?ys ! (k - z) = row ! k" using zk k(1) by simp_all
      have n: "nat (off + int k) = rr + (k - z)" "0 \<le> off + int k" using zk rr(3) by simp_all
      have l: "rr + (k - z) < length am" using fit y k(2) by simp
      show ?thesis unfolding n(1) using n(2) l p(2) [OF l] y k(2) by (simp add: rr(2))
    qed
    ultimately show ?thesis using p(1) rr(2) by simp
  qed
  then show "length am' = length am" "\<And>j. j < length am \<Longrightarrow> am ! j \<noteq> 0 \<Longrightarrow> am' ! j = am ! j"
    "\<And>k. k < length row \<Longrightarrow> row ! k \<noteq> 0 \<Longrightarrow> 0 \<le> off + int k \<and> nat (off + int k) < length am \<and>
      am' ! nat (off + int k) = row ! k" by blast+
qed

end
