(* ===== verification/Ycoll.thy ===== *)
theory Ycoll
  imports Yloop
begin

text \<open>
  What \<open>stagen\<close> returns: the LR(0) states, each once, with their gotos in the packed array and
  the LALR(1) lookaheads.
\<close>

subsection \<open>What a state that is worked off has\<close>

text \<open>An item with the dot at the end, or before the end of the input, that is not in the kernel.\<close>

definition eps_item :: "grammar \<Rightarrow> nat set \<Rightarrow> bool" where
  "eps_item g P \<longleftrightarrow> (\<exists>p. lr_item g P p \<and> p \<notin> P \<and> gmem g ! p \<le> 1)"

text \<open>The states whose lookaheads may stay behind: a goto of the state on itself raises its lookaheads and
  asks for another turn, and an item behind the kernel takes the request back.\<close>

definition lossy :: "grammar \<Rightarrow> nat set \<Rightarrow> bool" where
  "lossy g P \<longleftrightarrow> eps_item g P \<and> (\<exists>c. 1 < c \<and> gotoset g P c = P)"

definition goto_at :: "tables \<Rightarrow> automaton \<Rightarrow> nat \<Rightarrow> int \<Rightarrow> nat \<Rightarrow> bool" where
  "goto_at T A i c j \<longleftrightarrow> j < length (kern A) \<and> j \<noteq> 0 \<and> kset A j = gotoset (tgram T) (kset A i) c \<and>
    (NTBASE \<le> c \<longrightarrow> 0 \<le> gindgo A ! i + int (ntix c) \<and> nat (gindgo A ! i + int (ntix c)) < length (gact A) \<and>
      gact A ! nat (gindgo A ! i + int (ntix c)) = j)"

definition gotos_made :: "tables \<Rightarrow> automaton \<Rightarrow> nat \<Rightarrow> bool" where
  "gotos_made T A i \<longleftrightarrow> (\<forall>c. 1 < c \<and> gotoset (tgram T) (kset A i) c \<noteq> {} \<longrightarrow> (\<exists>j. goto_at T A i c j))"

definition looks_of :: "rule list \<Rightarrow> tables \<Rightarrow> automaton \<Rightarrow> nat \<Rightarrow> nat \<Rightarrow> nat set" where
  "looks_of R T A i p = {t. lr_look R (tgram T) (set (kernel_of (tabs_at T (slk A)) (kern A ! i))) p t}"

definition passed :: "rule list \<Rightarrow> tables \<Rightarrow> automaton \<Rightarrow> nat \<Rightarrow> bool" where
  "passed R T A i \<longleftrightarrow> (\<forall>p. lr_item (tgram T) (kset A i) p \<and> 1 < gmem (tgram T) ! p \<longrightarrow>
    (\<exists>j < length (kern A). kset A j = gotoset (tgram T) (kset A i) (gmem (tgram T) ! p) \<and>
      looks_of R T A i p \<subseteq> look_at A j (Suc p)))"

definition worked :: "rule list \<Rightarrow> tables \<Rightarrow> automaton \<Rightarrow> nat \<Rightarrow> bool" where
  "worked R T A i \<longleftrightarrow> gotos_made T A i \<and> styp A ! i \<noteq> MUSTDO \<and> styp A ! i \<le> 2 \<and>
    (styp A ! i = MUSTLOOKAHEAD \<longleftrightarrow> eps_item (tgram T) (kset A i)) \<and>
    (lossy (tgram T) (kset A i) \<or> passed R T A i)"

definition sets_sized :: "tables \<Rightarrow> wstate \<Rightarrow> bool" where
  "sets_sized T w \<longleftrightarrow> (\<forall>l \<in> set (map wlset (wused w) @ wfree w). length l = tbitset (tgram T))"

definition linv :: "rule list \<Rightarrow> tables \<Rightarrow> nat \<Rightarrow> wstate \<Rightarrow> automaton \<Rightarrow> bool" where
  "linv R T ntk w0 A \<longleftrightarrow> ainv R T ntk A \<and> sets_sized T (sws A) \<and> wsetsz w0 \<le> wsetsz (sws A) \<and>
    (\<forall>i < length (kern A). styp A ! i \<noteq> MUSTDO \<longrightarrow> worked R T A i)"

lemma ended_eps_item:
  assumes "closed_at R T P ps W"
  shows "ended (gmem (tgram T)) (length ps) W \<longleftrightarrow> eps_item (tgram T) P"
proof -
  let ?m = "gmem (tgram T)" and ?I = "map wpitem W"
  have c: "distinct ?I" "set ?I = {p. lr_item (tgram T) P p}" "take (length ps) ?I = ps" "set ps = P"
    using assms by (simp_all add: closed_at_def)
  have len: "length ps \<le> length W" using c(3) by (metis length_map length_take min.cobounded1)
  have behind: "?I ! n \<notin> P \<longleftrightarrow> length ps \<le> n" if n: "n < length W" for n
  proof
    assume "?I ! n \<notin> P"
    then show "length ps \<le> n" using c(3,4) n by (metis length_map linorder_not_less nth_mem nth_take)
  next
    assume l: "length ps \<le> n"
    show "?I ! n \<notin> P"
    proof
      assume "?I ! n \<in> P"
      then obtain k where k: "k < length ps" "?I ! n = ps ! k" using c(4) by (metis in_set_conv_nth)
      then have "?I ! n = ?I ! k" using c(3) by (metis nth_take)
      then show False using c(1) n k(1) l len by (simp add: nth_eq_iff_index_eq del: nth_map)
    qed
  qed
  show ?thesis
  proof
    assume "ended ?m (length ps) W"
    then obtain n where n: "n < length W" "length ps \<le> n" "?m ! wpitem (W ! n) \<le> 1" by (auto simp: ended_def)
    have "wpitem (W ! n) \<in> set ?I" using n(1) by simp
    then show "eps_item (tgram T) P" using behind [OF n(1)] n c(2) by (auto simp: eps_item_def)
  next
    assume "eps_item (tgram T) P"
    then obtain p where p: "p \<in> set ?I" "p \<notin> P" "?m ! p \<le> 1" using c(2) by (auto simp: eps_item_def)
    then obtain n where n: "n < length W" "p = ?I ! n" by (metis in_set_conv_nth length_map)
    then show "ended ?m (length ps) W" using behind [OF n(1)] p by (auto simp: ended_def)
  qed
qed

lemma worked_keep:
  assumes w: "worked R T A x" and ainv: "ainv R T ntk A" and ev: "evolves A A1" and x: "x < length (kern A)"
    and same: "kern A1 ! x = kern A ! x" "styp A1 ! x = styp A ! x"
    and A': "kern A' = kern A1" "slk A' = slk A1" "styp A' = styp A1" "gindgo A' ! x = gindgo A1 ! x"
    and am: "length (gact A') = length (gact A)" "\<And>j. j < length (gact A) \<Longrightarrow> gact A ! j \<noteq> 0 \<Longrightarrow> gact A' ! j = gact A ! j"
  shows "worked R T A' x"
proof -
  note evd = evolvesD [OF ev]
  have pits: "pits A' = pits A1" by (rule ext) (simp add: pits_def A')
  have look: "look_at A' = look_at A1" by (intro ext) (simp add: look_at_def A')
  have ks: "kset A' j = kset A j" if "j < length (kern A)" for j using evd(2) [OF that] pits by simp
  obtain y where y: "slk A1 = slk A @ y" using evd(5) by blast
  have ki: "kernel_items (tabs_at T (slk A)) (kern A ! x)" by (rule kernels_okD(3) [OF ainvD(3) [OF ainv] x])
  have "kernel_of (tabs_at T (slk A')) (kern A' ! x) = kernel_of (tabs_at T (slk A)) (kern A ! x)"
    using ki by (simp add: kernel_of_def A' same y kernel_items_def nth_append)
  then have lo: "looks_of R T A' x = looks_of R T A x" by (intro ext) (simp add: looks_of_def)
  have "\<exists>j. goto_at T A' x c j" if c: "1 < c" "gotoset (tgram T) (kset A' x) c \<noteq> {}" for c
  proof -
    from c w obtain j where "goto_at T A x c j" unfolding ks [OF x] by (auto simp: worked_def gotos_made_def)
    then have "goto_at T A' x c j"
      using evd(1) evd(4) [OF x] ks x am A' by (auto simp: goto_at_def)
    then show ?thesis by blast
  qed
  moreover have "passed R T A' x" if "passed R T A x"
    unfolding passed_def
  proof (intro allI impI)
    fix p assume "lr_item (tgram T) (kset A' x) p \<and> 1 < gmem (tgram T) ! p"
    with that obtain j where j: "j < length (kern A)" "kset A j = gotoset (tgram T) (kset A x) (gmem (tgram T) ! p)"
      "looks_of R T A x p \<subseteq> look_at A j (Suc p)" unfolding ks [OF x] by (auto simp: passed_def)
    have "looks_of R T A' x p \<subseteq> look_at A' j (Suc p)"
      using j(3) evd(3) [OF j(1), of "Suc p"] by (simp add: lo look)
    with j(1,2) evd(1) show "\<exists>j < length (kern A'). kset A' j = gotoset (tgram T) (kset A' x) (gmem (tgram T) ! p) \<and>
      looks_of R T A' x p \<subseteq> look_at A' j (Suc p)"
      using ks [OF j(1)] ks [OF x] by (intro exI [of _ j]) (simp add: A')
  qed
  ultimately show ?thesis using w ks [OF x] same A'
    by (auto simp: worked_def gotos_made_def)
qed

subsection \<open>One state\<close>

lemma tables_ok_at:
  assumes "tables_ok st nn tb lsz rs T" "looks_ok T lk"
  shows "tables_ok st nn tb lsz rs (tabs_at T lk)"
  using assms by (auto simp: tables_ok_def looks_ok_def nth_append)

text \<open>The working sets suffice for every kernel.\<close>

definition sets_suffice :: "tables \<Rightarrow> wstate \<Rightarrow> bool" where
  "sets_suffice T w \<longleftrightarrow> (\<forall>P. lr_state (tgram T) P \<longrightarrow> wstate_ok T (card P) w)"

lemma kset_card:
  assumes "ainv R T ntk A" "i < length (kern A)"
  shows "card (kset A i) = length (kern A ! i)"
  using kernels_okD(3) [OF ainvD(3) [OF assms(1)] assms(2)]
  by (simp add: kernel_items_def pits_def distinct_card flip: set_map)

lemma closure_at:
  assumes T: "tables_ok st nn tb lsz rs T" and inv: "linv (all_rules st rs) T ntk w0 A"
    and w0: "sets_suffice T w0" and i: "i < length (kern A)"
  shows "\<exists>w. closure (tabs_at T (slk A)) False (kern A ! i) (sws A) = Some w \<and>
    closed_at (all_rules st rs) T (kset A i) (pits A i) (wused w) \<and>
    (\<forall>v \<in> set (wused w). members (wlset v) = looks_of (all_rules st rs) T A i (wpitem v)) \<and>
    sets_sized T w \<and> wsetsz w0 \<le> wsetsz w"
proof -
  let ?T = "tabs_at T (slk A)" and ?K = "kern A ! i" and ?R = "all_rules st rs"
  have ai: "ainv ?R T ntk A" using inv by (simp add: linv_def)
  note kd = kernels_okD [OF ainvD(3) [OF ai] i]
  have T': "tables_ok st nn tb lsz rs ?T" by (rule tables_ok_at [OF T ainvD(2) [OF ai]])
  have "wstate_ok T (length ?K) w0"
    using w0 kd(4) by (auto simp: sets_suffice_def simp flip: kset_card [OF ai i])
  then have ws: "wstate_ok ?T (length ?K) (sws A)"
    using inv by (auto simp: wstate_ok_def linv_def sets_sized_def roomy_def)
  have P: "pitem ` set ?K = kset A i" by (simp add: pits_def)
  obtain w where w: "closure ?T False ?K (sws A) = Some w" "winv ?R ?T False (kernel_of ?T ?K) w"
    "wclosed ?R ?T False (wused w)" "\<forall>v \<in> set (wused w). \<not> wflag v"
    using closure_total [OF T' kd(3) ws, of False] by blast
  have sound: "\<forall>(p, L) \<in> set (kernel_of ?T ?K). \<forall>t \<in> L. lalr ?R (tgram T) (fst ` set (kernel_of ?T ?K)) p t"
    using kd(5) unfolding fst_kernel_of P by (auto simp: kernel_of_def)
  have lk: "members (wlset v) = looks_of ?R T A i (wpitem v)" if "v \<in> set (wused w)" for v
    using closed_looks [OF w(2-4) that] by (simp add: looks_of_def)
  have "lalr ?R (tgram T) (kset A i) (wpitem v) t" if "v \<in> set (wused w)" "t \<in> members (wlset v)" for v t
    using lr_look_lalr [OF _ sound, of "wpitem v" t] kd(4) lk [OF that(1)] that(2)
    unfolding fst_kernel_of P by (simp add: looks_of_def)
  moreover have "item_ok T (wpitem v) \<and> length (wlset v) = tbitset (tgram T)" if "v \<in> set (wused w)" for v
    using w(2) that by (simp add: winv_def entry_ok_def item_ok_def)
  moreover have "take (length (pits A i)) (map wpitem (wused w)) = pits A i"
    using winv_kernel [OF w(2)] by (simp add: pits_def)
  moreover have "distinct (map wpitem (wused w))" using w(2) by (simp add: winv_def)
  moreover have "set (map wpitem (wused w)) = {p. lr_item (tgram T) (kset A i) p}"
    using closed_items [OF w(2-4)] unfolding fst_kernel_of P by simp
  ultimately have cl: "closed_at ?R T (kset A i) (pits A i) (wused w)"
    using w(4) by (simp add: closed_at_def)
  have "sets_sized T w" using w(2) by (auto simp: sets_sized_def winv_def entry_ok_def)
  moreover have "wsetsz w0 \<le> wsetsz w" using wsetsz_closure [OF w(1)] inv by (simp add: linv_def)
  ultimately show ?thesis using w(1) cl lk by blast
qed

text \<open>The state that was worked off.\<close>

lemma worked_now:
  assumes T: "tables_ok st nn tb lsz rs T"
    and g: "ginv R T ntk A0 i W W D row A1" and i: "i < length (kern A0)"
    and cl: "closed_at R T (kset A0 i) (pits A0 i) W"
    and lk: "\<forall>v \<in> set W. members (wlset v) = looks_of R T A0 i (wpitem v)"
    and A': "kern A' = kern A1" "slk A' = slk A1" "styp A' = styp A1" "gindgo A' ! i = off - 1"
    and pk: "apack (gact A1) mp (tl row) = Some (gact A', mp', off)"
    and ty: "styp A1 ! i \<noteq> MUSTDO" and ki: "kernel_items (tabs_at T (slk A0)) (kern A0 ! i)"
  shows "worked R T A' i"
proof -
  let ?m = "gmem (tgram T)" and ?P = "kset A0 i"
  note gd = ginvD [OF g]
  note evd = evolvesD [OF gd(2)]
  have pits: "pits A' = pits A1" by (rule ext) (simp add: pits_def A')
  have look: "look_at A' = look_at A1" by (intro ext) (simp add: look_at_def A')
  have P: "kset A' i = ?P" using evd(2) [OF i] pits by simp
  have eps: "ended ?m (length (kern A0 ! i)) W \<longleftrightarrow> eps_item (tgram T) ?P"
    using ended_eps_item [OF cl] by (simp add: pits_def)
  have D: "?m ! wpitem v \<in> D" if "v \<in> set W" "1 < ?m ! wpitem v" for v using gd(6) that by blast
  have go: "\<exists>j. goto_at T A' i c j" if c: "1 < c" "gotoset (tgram T) ?P c \<noteq> {}" for c
  proof -
    obtain v where v: "v \<in> set W" "?m ! wpitem v = c" using c(2) unfolding closed_gotoset [OF cl] by auto
    then have "c \<in> D" using D c(1) by blast
    from gd(5) [OF this] obtain j where j: "j < length (kern A1)" "j \<noteq> 0" "kset A1 j = gotoset (tgram T) ?P c"
      "NTBASE \<le> c \<longrightarrow> row ! ntix c = j" unfolding goto_done_def by blast
    have "0 \<le> off - 1 + int (ntix c) \<and> nat (off - 1 + int (ntix c)) < length (gact A') \<and>
        gact A' ! nat (off - 1 + int (ntix c)) = j" if n: "NTBASE \<le> c"
    proof -
      have "item_ok T (wpitem v)" using cl v(1) by (simp add: closed_at_def)
      then have "is_nonterm (nnonter (tgram T)) c"
        using item_ok_Suc(2) v(2) c(1) n by (fastforce simp: is_token_def)
      then have x: "0 < ntix c" "ntix c < length row" using gd(3) by (simp_all add: is_nonterm_def nat_less_iff)
      then have "ntix c - 1 < length (tl row)" "tl row ! (ntix c - 1) = j"
        using j(4) n by (simp_all add: nth_tl)
      from apack_spec(3) [OF pk this(1)] this(2) j(2) apack_spec(1) [OF pk] x(1)
      have "0 \<le> off + int (ntix c - 1)" "nat (off + int (ntix c - 1)) < length (gact A')"
        "gact A' ! nat (off + int (ntix c - 1)) = j" by simp_all
      moreover have "off + int (ntix c - 1) = off - 1 + int (ntix c)" using x(1) by simp
      ultimately show ?thesis by (simp only:)
    qed
    then show ?thesis using j A' P unfolding goto_at_def pits by auto
  qed
  have tt: "styp A1 ! i \<le> 2" "styp A1 ! i = MUSTLOOKAHEAD \<longleftrightarrow> eps_item (tgram T) ?P"
    using gd(7) ty eps unfolding typ_ok_def by linarith+
  have "lossy (tgram T) ?P \<or> passed R T A' i"
  proof (cases "kern A1 ! i = kern A0 ! i")
    case False
    from gd(8) [OF this] ty tt have "eps_item (tgram T) ?P" "\<exists>c \<in> D. gotoset (tgram T) ?P c = ?P" by auto
    then show ?thesis using gd(4) by (auto simp: lossy_def)
  next
    case True
    obtain y where y: "slk A1 = slk A0 @ y" using evd(5) by blast
    have "kernel_of (tabs_at T (slk A')) (kern A' ! i) = kernel_of (tabs_at T (slk A0)) (kern A0 ! i)"
      using ki by (simp add: kernel_of_def A' True y kernel_items_def nth_append)
    then have lo: "looks_of R T A' i = looks_of R T A0 i" by (intro ext) (simp add: looks_of_def)
    have "passed R T A' i"
      unfolding passed_def P lo
    proof (intro allI impI)
      fix p assume p: "lr_item (tgram T) ?P p \<and> 1 < ?m ! p"
      then have "p \<in> set (map wpitem W)" using cl by (simp add: closed_at_def)
      then obtain v where v: "v \<in> set W" "wpitem v = p" by auto
      with gd(5) [OF D [OF v(1)]] p obtain j where j: "j < length (kern A1)"
        "kset A1 j = gotoset (tgram T) ?P (?m ! p)"
        "\<forall>u \<in> set W. ?m ! wpitem u = ?m ! p \<longrightarrow> members (wlset u) \<subseteq> look_at A1 j (Suc (wpitem u))"
        unfolding goto_done_def by auto
      have "looks_of R T A0 i p \<subseteq> look_at A' j (Suc p)" using j(3) v lk look by auto
      then show "\<exists>j < length (kern A'). kset A' j = gotoset (tgram T) ?P (?m ! p) \<and>
        looks_of R T A0 i p \<subseteq> look_at A' j (Suc p)"
        using j(1,2) by (intro exI [of _ j]) (simp add: A' pits)
    qed
    then show ?thesis ..
  qed
  then show ?thesis using go ty tt P A'(3) by (simp add: worked_def gotos_made_def)
qed

text \<open>One turn of the loop.  What is left: the states not yet found, the tokens the lookaheads of
  the kernels lack, the states to be worked off.\<close>

definition todo_states :: "automaton \<Rightarrow> nat" where
  "todo_states A = length (filter (\<lambda>t. t = MUSTDO) (styp A))"

definition all_states :: "grammar \<Rightarrow> nat set set" where
  "all_states g = {P. lr_state g P}"

definition turns :: "tables \<Rightarrow> (automaton \<times> automaton) set" where
  "turns T = measures [\<lambda>A. card (all_states (tgram T)) - length (kern A), troom, todo_states]"

lemma next_todo_Some: "next_todo ts = Some i \<Longrightarrow> i < length ts \<and> ts ! i = MUSTDO"
  by (induction ts arbitrary: i) (auto split: if_splits)

lemma next_todo_None: "next_todo ts = None \<longleftrightarrow> MUSTDO \<notin> set ts"
  by (induction ts) auto

lemma todo_states_less:
  assumes "i < length xs" "xs ! i = MUSTDO" "ys ! i \<noteq> MUSTDO" "length ys = length xs"
    "\<forall>x < length xs. x \<noteq> i \<longrightarrow> ys ! x = xs ! x"
  shows "length (filter (\<lambda>t. t = MUSTDO) ys) < length (filter (\<lambda>t. t = (MUSTDO :: nat)) xs)"
proof -
  have "{x. x < length ys \<and> ys ! x = MUSTDO} \<subset> {x. x < length xs \<and> xs ! x = MUSTDO}"
    using assms by (auto simp: psubset_eq)
  then show ?thesis by (simp add: length_filter_conv_card psubset_card_mono)
qed

lemma kernels_card:
  assumes "ainv R T ntk A" "finite (all_states (tgram T))"
  shows "length (kern A) \<le> card (all_states (tgram T))"
proof -
  note k = kernels_okD [OF ainvD(3) [OF assms(1)]]
  have "inj_on (kset A) {..<length (kern A)}" using k(6) by (auto intro!: inj_onI)
  moreover have "kset A ` {..<length (kern A)} \<subseteq> all_states (tgram T)" using k(4) by (auto simp: all_states_def)
  ultimately show ?thesis using card_inj_on_le assms(2) by fastforce
qed

lemma ainv_packed:
  assumes "ainv R T ntk A" "length ix = length (kern A)"
  shows "ainv R T ntk (A\<lparr>gact := am, gmemp := mp, gindgo := ix, sws := w\<rparr>)"
proof -
  let ?A = "A\<lparr>gact := am, gmemp := mp, gindgo := ix, sws := w\<rparr>"
  have p: "pits ?A = pits A" by (rule ext) (simp add: pits_def)
  have ch: "chain_head ?A c = chain_head A c" for c by (simp add: chain_head_def)
  show ?thesis using assms by (simp add: ainv_def sized_def kernels_ok_def chains_ok_def p ch)
qed

lemma stagen_step_ok:
  assumes T: "tables_ok st nn tb lsz rs T" and toks: "mem_toks ntk (tgram T)"
    and fin: "finite (all_states (tgram T))" and w0: "sets_suffice T w0"
    and inv: "linv (all_rules st rs) T ntk w0 A" and nx: "next_todo (styp A) = Some i"
  shows "stagen_step T i A = Full \<or>
    (\<exists>A'. stagen_step T i A = Ret A' \<and> linv (all_rules st rs) T ntk w0 A' \<and> (A', A) \<in> turns T)"
proof -
  let ?R = "all_rules st rs" and ?g = "tgram T"
  have ai: "ainv ?R T ntk A" using inv by (simp add: linv_def)
  have i: "i < length (kern A)" "styp A ! i = MUSTDO" "i < length (styp A)"
    using next_todo_Some [OF nx] ainvD(1) [OF ai] by (simp_all add: sized_def)
  obtain w where w: "closure (tabs_at T (slk A)) False (kern A ! i) (sws A) = Some w"
    "closed_at ?R T (kset A i) (pits A i) (wused w)"
    "\<forall>v \<in> set (wused w). members (wlset v) = looks_of ?R T A i (wpitem v)" "sets_sized T w" "wsetsz w0 \<le> wsetsz w"
    using closure_at [OF T inv w0 i(1)] by blast
  let ?A0 = "A\<lparr>styp := (styp A)[i := DONE]\<rparr>" and ?row0 = "aryfil (nnonter ?g + 1) 0"
  note s0 = ainv_styp [OF ai, of i DONE]
  have p0: "pits ?A0 = pits A" by (rule ext) (simp add: pits_def)
  have i0: "i < length (kern ?A0)" using i(1) by simp
  have lr: "lr_state ?g (kset ?A0 i)" using kernels_okD(4) [OF ainvD(3) [OF ai] i(1)] p0 by simp
  have cl: "closed_at ?R T (kset ?A0 i) (pits ?A0 i) (wused w)" using w(2) by (simp add: p0)
  have g0: "ginv ?R T ntk ?A0 i (wused w) [] {} ?row0 ?A0"
    using s0(1) i by (simp add: ginv_def evolves_refl typ_ok_def ended_def others_ok_def aryfil_def)
  have fl: "wused w = map (\<lambda>v. v\<lparr>wflag := gmem ?g ! wpitem v \<in> {}\<rparr>) (wused w)"
    using w(2) by (intro nth_equalityI) (simp_all add: closed_at_def)
  let ?G = "gotos (lsetsize ?g) (gmem ?g) i 0 (wused w) ?row0 ?A0"
  have step: "stagen_step T i A = bindr ?G (\<lambda>(A, row).
     bindr (grown (apack (gact A) (gmemp A) (tl row))) (\<lambda>(am, mp, off).
       Ret (A\<lparr>gact := am, gmemp := mp, gindgo := (gindgo A)[i := off - 1],
         sws := w\<lparr>wused := map (\<lambda>v. v\<lparr>wflag := True\<rparr>) (wused w)\<rparr>\<rparr>)))"
    using w(1) by (simp add: stagen_step_def Let_def)
  from gotos_inv [OF T toks i0 lr cl, of "[]" "wused w" "{}" ?row0 ?A0 "wused w" 0 "lsetsize ?g"] g0 fl
  consider "?G = Full" | A1 row D where "?G = Ret (A1, row)" "ginv ?R T ntk ?A0 i (wused w) (wused w) D row A1" by auto
  then show ?thesis
  proof cases
    case 1
    then show ?thesis unfolding step by simp
  next
    case 2
    note gd = ginvD [OF 2(2)]
    note evd = evolvesD [OF gd(2)]
    show ?thesis
    proof (cases "apack (gact A1) (gmemp A1) (tl row)")
      case None
      then show ?thesis unfolding step 2(1) by simp
    next
      case (Some r)
      obtain am mp off where r: "r = (am, mp, off)" by (cases r)
      note pk = Some [unfolded r]
      let ?A' = "A1\<lparr>gact := am, gmemp := mp, gindgo := (gindgo A1)[i := off - 1],
         sws := w\<lparr>wused := map (\<lambda>v. v\<lparr>wflag := True\<rparr>) (wused w)\<rparr>\<rparr>"
      have ret: "stagen_step T i A = Ret ?A'" unfolding step 2(1) by (simp add: pk)
      have sz1: "length (gindgo A1) = length (kern A1)" "length (styp A1) = length (kern A1)"
        using ainvD(1) [OF gd(1)] by (simp_all add: sized_def)
      have i1: "i < length (kern A1)" using evd(1) i(1) by simp
      have "ainv ?R T ntk ?A'" using ainv_packed [OF gd(1)] sz1 by simp
      moreover have "sets_sized T (sws ?A')" "wsetsz w0 \<le> wsetsz (sws ?A')"
        using w(4,5) by (auto simp: sets_sized_def wsetsz_def)
      moreover have "worked ?R T ?A' x" if x: "x < length (kern ?A')" "styp ?A' ! x \<noteq> MUSTDO" for x
      proof (cases "x = i")
        case True
        have lk: "\<forall>v \<in> set (wused w). members (wlset v) = looks_of ?R T ?A0 i (wpitem v)"
          using w(3) by (simp add: looks_of_def)
        have ki: "kernel_items (tabs_at T (slk ?A0)) (kern ?A0 ! i)"
          using kernels_okD(3) [OF ainvD(3) [OF ai] i(1)] by simp
        have "worked ?R T ?A' i"
          by (rule worked_now [OF T 2(2) i0 cl lk _ _ _ _ _ _ ki]) (use i1 sz1 pk x True in simp_all)
        then show ?thesis using True by simp
      next
        case False
        have x1: "x < length (kern A1)" "styp A1 ! x \<noteq> MUSTDO" using x by simp_all
        with gd(9) False have o: "x < length (kern A)" "kern A1 ! x = kern A ! x" "styp A1 ! x = styp A ! x"
          by (auto simp: others_ok_def)
        have wk: "worked ?R T A x" using inv x1 o by (simp add: linv_def)
        have ev: "evolves A A1" by (rule evolves_trans [OF s0(2) gd(2)])
        have am: "length am = length (gact A)" "\<And>j. j < length (gact A) \<Longrightarrow> gact A ! j \<noteq> 0 \<Longrightarrow> am ! j = gact A ! j"
          using apack_spec(1,2) [OF pk] evd(6) by simp_all
        show ?thesis by (rule worked_keep [OF wk ai ev o]) (use am False in simp_all)
      qed
      ultimately have li: "linv ?R T ntk w0 ?A'" by (simp add: linv_def)
      have le: "length (kern ?A') \<le> card (all_states ?g)"
        using kernels_card [OF gd(1) fin] by simp
      have tr: "troom ?A' = troom A1" by (simp add: troom_def)
      have "(?A', A) \<in> turns T"
      proof (cases "length (kern A1) = length (kern A)")
        case False
        then have "length (kern A) < length (kern ?A')" using evd(1) by simp
        then show ?thesis using le by (simp add: turns_def diff_less_mono2)
      next
        case len: True
        show ?thesis
        proof (cases "troom A1 = troom A")
          case False
          then have "troom A1 < troom A" using evd(9) len s0(3) by simp
          then show ?thesis using len tr by (simp add: turns_def)
        next
          case True
          have "styp A1 ! i \<noteq> MUSTDO \<and> (\<forall>x < length (kern A1). x \<noteq> i \<longrightarrow> styp A1 ! x = styp A ! x)"
            using gd(9) len True s0(3) by (auto simp: others_ok_def)
          then have "todo_states A1 < todo_states A"
            unfolding todo_states_def using i len sz1(2) ainvD(1) [OF ai] by (intro todo_states_less) (auto simp: sized_def)
          then show ?thesis using len tr True by (simp add: turns_def todo_states_def)
        qed
      qed
      then show ?thesis using ret li by blast
    qed
  qed
qed

subsection \<open>The loop\<close>

lemma wf_turns: "wf (turns T)"
  by (simp add: turns_def)

lemma stagen_loop_ok:
  assumes T: "tables_ok st nn tb lsz rs T" and toks: "mem_toks ntk (tgram T)"
    and fin: "finite (all_states (tgram T))" and w0: "sets_suffice T w0"
  shows "linv (all_rules st rs) T ntk w0 A \<Longrightarrow> stagen_loop T A = Some Full \<or>
    (\<exists>A'. stagen_loop T A = Some (Ret A') \<and> linv (all_rules st rs) T ntk w0 A' \<and> MUSTDO \<notin> set (styp A'))"
proof (induction A rule: wf_induct_rule [OF wf_turns [of T]])
  case (1 A)
  show ?case
  proof (cases "next_todo (styp A)")
    case None
    then have "stagen_loop T A = Some (Ret A)" by (subst stagen_loop.simps) simp
    with None 1(2) show ?thesis by (simp add: next_todo_None)
  next
    case (Some i)
    from stagen_step_ok [OF T toks fin w0 1(2) Some] show ?thesis
    proof
      assume "stagen_step T i A = Full"
      then show ?thesis using Some by (subst (1 2) stagen_loop.simps) simp
    next
      assume "\<exists>A'. stagen_step T i A = Ret A' \<and> linv (all_rules st rs) T ntk w0 A' \<and> (A', A) \<in> turns T"
      then obtain A' where A': "stagen_step T i A = Ret A'" "linv (all_rules st rs) T ntk w0 A'" "(A', A) \<in> turns T"
        by blast
      then have "stagen_loop T A = stagen_loop T A'" using Some by (subst stagen_loop.simps) simp
      with 1(1) [OF A'(3,2)] show ?thesis by (simp only:)
    qed
  qed
qed

text \<open>The states are sets of items of the grammar.\<close>

lemma start_item:
  assumes T: "tables_ok st nn tb lsz rs T"
  shows "item_ok T (Suc (prdptr (tgram T) ! 0))" "prdptr (tgram T) \<noteq> []"
proof -
  note t = tables_okD [OF T]
  show "prdptr (tgram T) \<noteq> []" unfolding t(3) by (simp add: setup_rules_def)
  have "Suc (prdptr (tgram T) ! 0) \<in> set (pres_row (tgram T) 0)"
    unfolding t(3) by (simp add: pres_row_def setup_rules_def)
  then show "item_ok T (Suc (prdptr (tgram T) ! 0))" by (rule row_item_ok [OF T])
qed

lemma lr_item_ok:
  assumes T: "tables_ok st nn tb lsz rs T" and P: "\<forall>p \<in> P. item_ok T p"
  shows "lr_item (tgram T) P p \<Longrightarrow> item_ok T p"
proof (induction rule: lr_item.induct)
  case (enter p s)
  then show ?case using row_item_ok [OF T] by blast
qed (use P in blast)

lemma lr_state_ok:
  assumes T: "tables_ok st nn tb lsz rs T"
  shows "lr_state (tgram T) P \<Longrightarrow> \<forall>p \<in> P. item_ok T p"
proof (induction rule: lr_state.induct)
  case start
  then show ?case using start_item(1) [OF T] by simp
next
  case (move P c)
  have "item_ok T (Suc p)" if "lr_item (tgram T) P p" "gmem (tgram T) ! p = c" for p
    using item_ok_Suc(1) [OF lr_item_ok [OF T move.IH that(1)]] that(2) move.hyps(2) by simp
  then show ?case by (auto simp: gotoset_def)
qed

lemma finite_states:
  assumes T: "tables_ok st nn tb lsz rs T"
  shows "finite (all_states (tgram T))"
proof (rule finite_subset)
  show "all_states (tgram T) \<subseteq> Pow {..<length (gmem (tgram T))}"
    using lr_state_ok [OF T] item_ok_lt by (auto simp: all_states_def)
qed simp

text \<open>The first state.\<close>

definition first_state :: "tables \<Rightarrow> nat \<Rightarrow> nat \<Rightarrow> wstate \<Rightarrow> nat \<Rightarrow> lset list \<Rightarrow> nat \<Rightarrow> automaton" where
  "first_state T ntk actsize w p lk q =
    \<lparr> kern = [[\<lparr> pitem = p + 1, look = q \<rparr>]], styp = [MUSTDO],
      tstates = aryfil (ntk + 1) 0, ntstates = aryfil (nnonter (tgram T) + 1) 0, mstates = [0],
      gindgo = [0], gact = aryfil actsize 0, gmemp = 0, slk = lk, sws = w \<rparr>"

lemma members_aryfil [simp]: "members (aryfil n 0) = {}"
  by (auto simp: members_def aryfil_def BIT_def)

lemma first_state_ok:
  assumes T: "tables_ok st nn tb lsz rs T" and w: "sets_suffice T w"
    and lk: "flset sz (tlkst T) (aryfil (tbitset (tgram T)) 0) = Some (lk, q)"
  shows "linv R T ntk w (first_state T ntk actsize w (prdptr (tgram T) ! 0) lk q)"
proof -
  let ?A = "first_state T ntk actsize w (prdptr (tgram T) ! 0) lk q" and ?g = "tgram T"
  have sel: "kern ?A = [[\<lparr> pitem = prdptr ?g ! 0 + 1, look = q \<rparr>]]" "slk ?A = lk" "styp ?A = [MUSTDO]"
    "mstates ?A = [0]" "gindgo ?A = [0]" "sws ?A = w"
    by (simp_all add: first_state_def)
  have "looks_ok T (tlkst T)" using T by (simp add: looks_ok_def tables_ok_def)
  note f = looks_ok_flset [OF this lk]
  have p: "pits ?A 0 = [Suc (prdptr ?g ! 0)]" by (simp add: pits_def sel)
  have "kernels_ok R T ?A"
    using start_item(1) [OF T] lr_state.start [of ?g] f(3,4) p
    by (simp add: kernels_ok_def sel kernel_items_def item_ok_def) (simp add: aryfil_def)
  moreover have "chain_head ?A c = Some 0" if "sym_range (nnonter ?g) ntk c" for c
    using that by (auto simp: sym_range_def chain_head_def first_state_def ent_def aryfil_def simp del: replicate_Suc)
  then have "chains_ok ?g ntk ?A"
    unfolding chains_ok_def by (intro allI impI exI [of _ 0] exI [of _ "[]"]) (auto simp: sel)
  moreover have "wstate_ok T (card {Suc (prdptr ?g ! 0)}) w"
    using w lr_state.start [of ?g] unfolding sets_suffice_def by blast
  ultimately show ?thesis using f(1) by (simp add: linv_def ainv_def sized_def sel sets_sized_def wstate_ok_def)
qed

lemma stagen_first:
  assumes T: "tables_ok st nn tb lsz rs T"
  shows "stagen T ntk actsize w =
    (case flset (lsetsize (tgram T)) (tlkst T) (aryfil (tbitset (tgram T)) 0) of
       None \<Rightarrow> Some Full
     | Some (lk, q) \<Rightarrow> stagen_loop T (first_state T ntk actsize w (prdptr (tgram T) ! 0) lk q))"
  using start_item(2) [OF T] by (cases "prdptr (tgram T)") (simp_all add: stagen_def Let_def first_state_def split: option.split)

lemma stagen_cases:
  assumes T: "tables_ok st nn tb lsz rs T" and toks: "mem_toks ntk (tgram T)" and w: "sets_suffice T w"
  shows "stagen T ntk actsize w = Some Full \<or> (\<exists>A. stagen T ntk actsize w = Some (Ret A) \<and>
    linv (all_rules st rs) T ntk w A \<and> MUSTDO \<notin> set (styp A))"
proof (cases "flset (lsetsize (tgram T)) (tlkst T) (aryfil (tbitset (tgram T)) 0)")
  case None
  then show ?thesis using stagen_first [OF T] by simp
next
  case (Some r)
  obtain lk q where r: "r = (lk, q)" by (cases r)
  from stagen_loop_ok [OF T toks finite_states [OF T] w first_state_ok [OF T w Some [unfolded r]]]
  show ?thesis using stagen_first [OF T] Some r by simp
qed

subsection \<open>The result\<close>

lemma all_states_found:
  assumes inv: "linv R T ntk w A" and fin: "MUSTDO \<notin> set (styp A)"
  shows "lr_state (tgram T) P \<Longrightarrow> \<exists>i < length (kern A). kset A i = P"
proof (induction rule: lr_state.induct)
  case start
  have "ainv R T ntk A" using inv by (simp add: linv_def)
  from ainvD(1,3) [OF this] show ?case by (intro exI [of _ 0]) (auto simp: sized_def kernels_ok_def)
next
  case (move P c)
  then obtain i where i: "i < length (kern A)" "kset A i = P" by blast
  have "ainv R T ntk A" using inv by (simp add: linv_def)
  then have "i < length (styp A)" using i(1) ainvD(1) by (auto simp: sized_def)
  then have "styp A ! i \<noteq> MUSTDO" using fin by (metis nth_mem)
  then have "worked R T A i" using inv i(1) by (simp add: linv_def)
  then obtain j where "goto_at T A i c j" using move.hyps i(2) by (auto simp: worked_def gotos_made_def)
  then show ?case using i(2) by (auto simp: goto_at_def)
qed

lemma all_looks_passed:
  assumes inv: "linv R T ntk w A" and fin: "MUSTDO \<notin> set (styp A)"
    and ok: "\<forall>P. lr_state (tgram T) P \<longrightarrow> \<not> lossy (tgram T) P"
  shows "lalr R (tgram T) P p t \<Longrightarrow> \<exists>i < length (kern A). kset A i = P \<and> t \<in> looks_of R T A i p"
proof (induction rule: lalr.induct)
  case (first P p s t)
  then obtain i where i: "i < length (kern A)" "kset A i = P" using all_states_found [OF inv fin] by blast
  have "lr_look R (tgram T) (set (kernel_of (tabs_at T (slk A)) (kern A ! i))) s t"
    by (rule lr_look.first [OF _ first.hyps(3-5)]) (use first.hyps(2) i(2) in \<open>simp add: fst_kernel_of pits_def\<close>)
  with i show ?case by (auto simp: looks_of_def)
next
  case (pass P p t s)
  then show ?case using lr_look.pass unfolding looks_of_def by blast
next
  case (move P p t)
  then obtain i where i: "i < length (kern A)" "kset A i = P" "t \<in> looks_of R T A i p" by blast
  have ai: "ainv R T ntk A" using inv by (simp add: linv_def)
  then have "i < length (styp A)" using i(1) ainvD(1) by (auto simp: sized_def)
  then have "styp A ! i \<noteq> MUSTDO" using fin by (metis nth_mem)
  then have "worked R T A i" using inv i(1) by (simp add: linv_def)
  moreover have "\<not> lossy (tgram T) (kset A i)"
    using ok kernels_okD(4) [OF ainvD(3) [OF ai] i(1)] by blast
  ultimately have ps: "passed R T A i" by (simp add: worked_def)
  have "lr_item (tgram T) (kset A i) p"
  proof -
    let ?K = "set (kernel_of (tabs_at T (slk A)) (kern A ! i))"
    have "lr_look R (tgram T) K p t \<Longrightarrow> lr_item (tgram T) (fst ` K) p" for K
      by (induction rule: lr_look.induct) (force intro: lr_item.intros)+
    from this [of ?K] i(3) show ?thesis by (simp add: looks_of_def fst_kernel_of pits_def)
  qed
  with ps move.hyps(2) obtain j where j: "j < length (kern A)" "kset A j = gotoset (tgram T) P (gmem (tgram T) ! p)"
    "looks_of R T A i p \<subseteq> look_at A j (Suc p)" unfolding passed_def i(2) by blast
  with i(3) obtain k where k: "k \<in> set (kern A ! j)" "pitem k = Suc p" "t \<in> members (slk A ! look k)"
    by (auto simp: look_at_def)
  have "(Suc p, members (slk A ! look k)) \<in> set (kernel_of (tabs_at T (slk A)) (kern A ! j))"
    using k(1,2) by (force simp: kernel_of_def)
  from lr_look.kernel [OF this k(3)] j(1,2) show ?case by (auto simp: looks_of_def)
qed

lemma looks_sound:
  assumes inv: "linv R T ntk w A" and i: "i < length (kern A)"
  shows "look_at A i q \<subseteq> {t. lalr R (tgram T) (kset A i) q t}"
proof -
  have ai: "ainv R T ntk A" using inv by (simp add: linv_def)
  show ?thesis using kernels_okD(5) [OF ainvD(3) [OF ai] i] by (auto simp: look_at_def)
qed


lemma linv_worked:
  assumes "linv R T ntk w A" "MUSTDO \<notin> set (styp A)" "i < length (kern A)"
  shows "worked R T A i"
proof -
  have "i < length (styp A)" using assms(1,3) ainvD(1) by (auto simp: linv_def sized_def)
  then have "styp A ! i \<noteq> MUSTDO" using assms(2) by (metis nth_mem)
  then show ?thesis using assms(1,3) by (simp add: linv_def)
qed

lemma all_states_lr: "linv R T ntk w A \<Longrightarrow> i < length (kern A) \<Longrightarrow> lr_state (tgram T) (kset A i)"
  unfolding linv_def using kernels_okD(4) ainvD(3) by blast

text \<open>No item of a kernel is entered by the closure: before the dot of a kernel item there is a symbol
  of a right hand side.\<close>

lemma rule_ptrs_before:
  "pre \<noteq> [] \<Longrightarrow> last pre \<le> 0 \<Longrightarrow> p \<in> set (rule_ptrs (length pre) rs) \<Longrightarrow> (pre @ lay_rules k rs) ! (p - 1) \<le> 0"
proof (induction rs arbitrary: pre k)
  case (Cons r rs)
  let ?pre = "pre @ fst r # snd r @ [- int k]"
  consider "p = length pre" | "p \<in> set (rule_ptrs (length ?pre) rs)" using Cons.prems(3) by auto
  then show ?case
  proof cases
    case 1
    then show ?thesis using Cons.prems(1,2) by (simp add: nth_append last_conv_nth)
  next
    case 2
    from Cons.IH [OF _ _ this, of "Suc k"] show ?thesis by simp
  qed
qed simp

lemma dot_after:
  assumes T: "tables_ok st nn tb lsz rs T" and lr: "lr_state (tgram T) P"
  shows "lr_item (tgram T) P p \<Longrightarrow> 0 < p \<and> 0 < gmem (tgram T) ! (p - 1)"
proof (induction rule: lr_item.induct)
  case (kernel p)
  from lr show ?case
  proof (cases rule: lr_state.cases)
    case start
    then show ?thesis using kernel tables_okD(3) [OF T] by (simp add: setup_rules_def)
  next
    case (move K c)
    then show ?thesis using kernel gotoset_sym by fastforce
  qed
next
  case (enter p s)
  then show ?case by (auto simp: pres_row_def)
qed

lemma kernel_not_entered:
  assumes T: "tables_ok st nn tb lsz rs T" and lr: "lr_state (tgram T) P" and q: "q \<in> P"
    and p: "lr_item (tgram T) P p" "NTBASE \<le> gmem (tgram T) ! p"
  shows "q \<notin> set (pres_row (tgram T) (ntix (gmem (tgram T) ! p)))"
proof
  let ?g = "tgram T" and ?m = "gmem (tgram T)"
  note t = tables_okD [OF T]
  assume "q \<in> set (pres_row ?g (ntix (?m ! p)))"
  then obtain x where x: "q = Suc x" "x \<in> set (prdptr ?g)" "?m ! x = ?m ! p"
    using p(2) by (auto simp: pres_row_def)
  have "item_ok T p" by (rule lr_item_ok [OF T lr_state_ok [OF T lr] p(1)])
  then have "is_nonterm nn (?m ! p)" using item_ok_Suc(2) p(2) t(4) by (fastforce simp: is_token_def)
  then have "?m ! x \<noteq> NTBASE" using x(3) by (simp add: is_nonterm_def)
  moreover have "?m ! 0 = NTBASE" using t(3) by (simp add: setup_rules_def)
  ultimately have x0: "x \<noteq> 0" by metis
  have four: "length [NTBASE, st, 1, 0] = 4" by simp
  have "x \<in> set (rule_ptrs 4 rs)" using x0 x(2) t(3) by (simp add: setup_rules_def)
  then have "x \<in> set (rule_ptrs (length [NTBASE, st, 1, 0]) rs)" unfolding four .
  from rule_ptrs_before [OF _ _ this, of 1] have neg: "?m ! (x - 1) \<le> 0" using t(3) by (simp add: setup_rules_def)
  from lr show False
  proof (cases rule: lr_state.cases)
    case start
    then show False using x(1) x0 q t(3) by (simp add: setup_rules_def)
  next
    case (move K c)
    then have "lr_item ?g K x" using q x(1) by (auto simp: gotoset_def)
    from dot_after [OF T move(2) this] neg show False by simp
  qed
qed

lemma kernel_looks:
  assumes T: "tables_ok st nn tb lsz rs T" and inv: "linv R T ntk w A" "MUSTDO \<notin> set (styp A)"
    and ok: "\<forall>P. lr_state (tgram T) P \<longrightarrow> \<not> lossy (tgram T) P"
    and i: "i < length (kern A)" and q: "q \<in> kset A i" and t: "lalr R (tgram T) (kset A i) q t"
  shows "t \<in> look_at A i q"
proof -
  have ai: "ainv R T ntk A" using inv(1) by (simp add: linv_def)
  note kd = kernels_okD [OF ainvD(3) [OF ai] i]
  let ?K = "set (kernel_of (tabs_at T (slk A)) (kern A ! i))"
  have fK: "fst ` ?K = kset A i" by (simp add: fst_kernel_of pits_def)
  have no: "q \<notin> set (pres_row (tgram T) (ntix (gmem (tgram T) ! p)))"
    if "lr_item (tgram T) (kset A i) p" "NTBASE \<le> gmem (tgram T) ! p" for p
    by (rule kernel_not_entered [OF T kd(4) q that])
  have look_item: "lr_look R (tgram T) K p t \<Longrightarrow> lr_item (tgram T) (fst ` K) p" for K p t
    by (induction rule: lr_look.induct) (force intro: lr_item.intros)+
  from all_looks_passed [OF inv ok t] kd(6) have "lr_look R (tgram T) ?K q t"
    by (auto simp: looks_of_def)
  then show ?thesis
  proof (cases rule: lr_look.cases)
    case (kernel L)
    then show ?thesis by (auto simp: kernel_of_def look_at_def)
  next
    case (first p)
    then show ?thesis using no unfolding fK by blast
  next
    case (pass p)
    then show ?thesis using no look_item [OF pass(1)] unfolding fK by blast
  qed
qed

subsection \<open>The properties\<close>

text \<open>
  C28. The generation of the states ends, for every grammar the analysis accepts, and never looks
  outside its arrays: either the table of lookahead sets or the action array is too small, or
  there is an automaton, in which no state is left to be worked off and a state is marked for
  lookahead exactly when its closure has, behind the kernel, an item with the dot at the end or
  before the end of the input.
\<close>

theorem stagen_returns:
  assumes "wf_rules st nn rs" "tokens_fit tb (all_rules st rs)" "nn + 1 < lsz"
    and "analyse (setup_rules st nn tb lsz rs) = Some (Inr T)"
    and "mem_toks ntk (tgram T)" "sets_suffice T w"
  shows "stagen T ntk actsize w = Some Full \<or> (\<exists>A. stagen T ntk actsize w = Some (Ret A) \<and>
    (\<forall>i < length (kern A). styp A ! i = (if eps_item (tgram T) (kset A i) then MUSTLOOKAHEAD else DONE)))"
proof -
  have T: "tables_ok st nn tb lsz rs T" by (rule analyse_tables_ok [OF assms(1-4)])
  have "styp A ! i = (if eps_item (tgram T) (kset A i) then MUSTLOOKAHEAD else DONE)"
    if "linv (all_rules st rs) T ntk w A" "MUSTDO \<notin> set (styp A)" "i < length (kern A)" for A i
  proof -
    have "worked (all_rules st rs) T A i" by (rule linv_worked [OF that])
    then have "styp A ! i \<noteq> MUSTDO" "styp A ! i \<le> 2" "styp A ! i = MUSTLOOKAHEAD \<longleftrightarrow> eps_item (tgram T) (kset A i)"
      by (simp_all add: worked_def)
    then show ?thesis by (cases "styp A ! i = 0") auto
  qed
  with stagen_cases [OF T assms(5,6), of actsize] show ?thesis by blast
qed

text \<open>
  C22. The automaton has exactly the states of the LR(0) collection of the grammar, each once,
  the first one the start state; and for every state and every symbol its items stand before
  there is the state with these items moved on, which for a nonterminal is the entry of the packed
  action array at the place of the symbol.
\<close>

theorem stagen_states:
  assumes "wf_rules st nn rs" "tokens_fit tb (all_rules st rs)" "nn + 1 < lsz"
    and "analyse (setup_rules st nn tb lsz rs) = Some (Inr T)"
    and "mem_toks ntk (tgram T)" "sets_suffice T w" "stagen T ntk actsize w = Some (Ret A)"
  shows "bij_betw (kset A) {..<length (kern A)} {P. lr_state (tgram T) P} \<and>
    kset A 0 = {Suc (prdptr (tgram T) ! 0)} \<and>
    (\<forall>i < length (kern A). \<forall>c > 1. gotoset (tgram T) (kset A i) c \<noteq> {} \<longrightarrow>
      (\<exists>j < length (kern A). kset A j = gotoset (tgram T) (kset A i) c \<and>
        (NTBASE \<le> c \<longrightarrow> 0 \<le> gindgo A ! i + int (ntix c) \<and> ent (gact A) (nat (gindgo A ! i + int (ntix c))) = Some j)))"
proof -
  have T: "tables_ok st nn tb lsz rs T" by (rule analyse_tables_ok [OF assms(1-4)])
  from stagen_cases [OF T assms(5,6), of actsize] assms(7)
  have inv: "linv (all_rules st rs) T ntk w A" "MUSTDO \<notin> set (styp A)" by auto
  then have ai: "ainv (all_rules st rs) T ntk A" by (simp add: linv_def)
  note kd = kernels_okD [OF ainvD(3) [OF ai]]
  have "inj_on (kset A) {..<length (kern A)}" using kd(6) by (auto intro!: inj_onI)
  moreover have "kset A ` {..<length (kern A)} = {P. lr_state (tgram T) P}"
    using kd(4) all_states_found [OF inv] by fastforce
  moreover have "kset A 0 = {Suc (prdptr (tgram T) ! 0)}" using ainvD(3) [OF ai] by (simp add: kernels_ok_def)
  moreover have "\<exists>j < length (kern A). kset A j = gotoset (tgram T) (kset A i) c \<and>
      (NTBASE \<le> c \<longrightarrow> 0 \<le> gindgo A ! i + int (ntix c) \<and> ent (gact A) (nat (gindgo A ! i + int (ntix c))) = Some j)"
    if i: "i < length (kern A)" and c: "1 < c" "gotoset (tgram T) (kset A i) c \<noteq> {}" for i c
  proof -
    obtain j where "goto_at T A i c j"
      using linv_worked [OF inv i] c by (auto simp: worked_def gotos_made_def)
    then show ?thesis by (intro exI [of _ j]) (auto simp: goto_at_def ent_def)
  qed
  ultimately show ?thesis unfolding bij_betw_def by (intro conjI allI impI)
qed

text \<open>
  C23. A token is in the lookahead of a kernel item only if it is an LALR(1) lookahead of it, and
  it is there if it is one, provided no state of the collection has both a goto on itself and,
  behind its kernel, an item with the dot at the end or before the end of the input.
\<close>

theorem stagen_lookaheads:
  assumes "wf_rules st nn rs" "tokens_fit tb (all_rules st rs)" "nn + 1 < lsz"
    and "analyse (setup_rules st nn tb lsz rs) = Some (Inr T)"
    and "mem_toks ntk (tgram T)" "sets_suffice T w" "stagen T ntk actsize w = Some (Ret A)"
  shows "\<forall>i < length (kern A). \<forall>q \<in> kset A i.
    look_at A i q \<subseteq> {t. lalr (all_rules st rs) (tgram T) (kset A i) q t} \<and>
    ((\<forall>P. lr_state (tgram T) P \<longrightarrow> \<not> lossy (tgram T) P) \<longrightarrow>
      look_at A i q = {t. lalr (all_rules st rs) (tgram T) (kset A i) q t})"
proof -
  let ?R = "all_rules st rs"
  have T: "tables_ok st nn tb lsz rs T" by (rule analyse_tables_ok [OF assms(1-4)])
  from stagen_cases [OF T assms(5,6), of actsize] assms(7)
  have inv: "linv ?R T ntk w A" "MUSTDO \<notin> set (styp A)" by auto
  have "{t. lalr ?R (tgram T) (kset A i) q t} \<subseteq> look_at A i q"
    if "i < length (kern A)" "q \<in> kset A i" "\<forall>P. lr_state (tgram T) P \<longrightarrow> \<not> lossy (tgram T) P" for i q
    using kernel_looks [OF T inv that(3,1,2)] by blast
  with looks_sound [OF inv(1)] show ?thesis by (intro allI ballI impI conjI equalityI) simp_all
qed

text \<open>
  C29. The automaton is well formed: its arrays have one entry for each state; every kernel is not
  empty and sorted by its items, without repetition; every item is a place in the productions and
  points to a set of the right size in the table of lookahead sets; and the states that a
  symbol leads to are exactly those on the chain of the symbol.
\<close>

theorem stagen_well_formed:
  assumes "wf_rules st nn rs" "tokens_fit tb (all_rules st rs)" "nn + 1 < lsz"
    and "analyse (setup_rules st nn tb lsz rs) = Some (Inr T)"
    and "mem_toks ntk (tgram T)" "sets_suffice T w" "stagen T ntk actsize w = Some (Ret A)"
  shows "length (styp A) = length (kern A) \<and> length (mstates A) = length (kern A) \<and> length (gindgo A) = length (kern A) \<and>
    (\<forall>K \<in> set (kern A). K \<noteq> [] \<and> sorted (map pitem K) \<and> distinct (map pitem K) \<and>
      (\<forall>k \<in> set K. item_ok T (pitem k) \<and> look k < length (slk A) \<and> length (slk A ! look k) = tbitset (tgram T))) \<and>
    (\<forall>c. sym_range (nnonter (tgram T)) ntk c \<longrightarrow> (\<exists>h xs. chain_head A c = Some h \<and> chain (mstates A) h xs \<and>
      set xs = {j. 0 < j \<and> j < length (kern A) \<and> entry_sym (tgram T) (kset A j) c}))"
proof -
  have T: "tables_ok st nn tb lsz rs T" by (rule analyse_tables_ok [OF assms(1-4)])
  from stagen_cases [OF T assms(5,6), of actsize] assms(7)
  have ai: "ainv (all_rules st rs) T ntk A" by (auto simp: linv_def)
  note kd = kernels_okD [OF ainvD(3) [OF ai]]
  have "K \<noteq> [] \<and> sorted (map pitem K) \<and> distinct (map pitem K) \<and>
      (\<forall>k \<in> set K. item_ok T (pitem k) \<and> look k < length (slk A) \<and> length (slk A ! look k) = tbitset (tgram T))"
    if "K \<in> set (kern A)" for K
  proof -
    from that obtain i where i: "i < length (kern A)" "K = kern A ! i" by (auto simp: in_set_conv_nth)
    show ?thesis using kd(1-3) [OF i(1)] by (simp add: i(2) pits_def kernel_items_def item_ok_def)
  qed
  with ainvD(1,4) [OF ai] show ?thesis unfolding sized_def chains_ok_def by blast
qed

subsection \<open>Witnesses\<close>

text \<open>The grammar \<open>E: ( E ) | x;\<close> with the tokens 2, 3 and 4.\<close>

definition expr_rules :: "rule list" where
  "expr_rules = [(4097, [2, 4097, 3]), (4097, [4])]"

definition expr_tables :: tables where
  "expr_tables = \<lparr> tgram = setup_rules 4097 1 1 4801 expr_rules, tpempty = [0, 0],
    tpres = [[1], [5, 10]], tlkst = [[20]], tpfirst = [0, 0] \<rparr>"

definition run_wstate :: wstate where
  "run_wstate = \<lparr> wused = [], wfree = replicate 30 [0] \<rparr>"

lemma expr_wf: "wf_rules 4097 1 expr_rules" "tokens_fit 1 (all_rules 4097 expr_rules)"
  by code_simp+

lemma expr_analyse: "analyse (setup_rules 4097 1 1 4801 expr_rules) = Some (Inr expr_tables)"
  by code_simp

lemma sets_suffice_run:
  assumes T: "tables_ok st nn 1 lsz rs T"
    and small: "length (gmem (tgram T)) + length (prdptr (tgram T)) < 30"
  shows "sets_suffice T run_wstate"
  unfolding sets_suffice_def
proof (intro allI impI)
  fix P assume "lr_state (tgram T) P"
  then have "P \<subseteq> {..<length (gmem (tgram T))}" using lr_state_ok [OF T] item_ok_lt by blast
  then have "card P \<le> card {..<length (gmem (tgram T))}" by (intro card_mono) simp
  then show "wstate_ok T (card P) run_wstate"
    using small tables_okD(5) [OF T] by (simp add: wstate_ok_def roomy_def run_wstate_def wsetsz_def)
qed

lemma demo_ready: "mem_toks 3 (tgram demo_tables)" "sets_suffice demo_tables run_wstate"
proof -
  show "mem_toks 3 (tgram demo_tables)" unfolding mem_toks_def by code_simp
  have "length (gmem (tgram demo_tables)) + length (prdptr (tgram demo_tables)) < 30" by code_simp
  then show "sets_suffice demo_tables run_wstate" by (rule sets_suffice_run [OF demo_tables_ok])
qed

lemma expr_tables_ok: "tables_ok 4097 1 1 4801 expr_rules expr_tables"
  by (rule analyse_tables_ok [OF expr_wf _ expr_analyse]) simp

lemma expr_ready: "mem_toks 4 (tgram expr_tables)" "sets_suffice expr_tables run_wstate"
proof -
  show "mem_toks 4 (tgram expr_tables)" unfolding mem_toks_def by code_simp
  have "length (gmem (tgram expr_tables)) + length (prdptr (tgram expr_tables)) < 30" by code_simp
  then show "sets_suffice expr_tables run_wstate" by (rule sets_suffice_run [OF expr_tables_ok])
qed

lemma demo_run:
  obtains A where "stagen demo_tables 3 9 run_wstate = Some (Ret A)"
    "map (map pitem) (kern A) = [[1], [2], [6], [9], [10], [11]]" "styp A = [2, 0, 0, 2, 0, 0]"
    "slk A ! look (kern A ! 3 ! 0) = [10]" "slk A ! look (kern A ! 4 ! 0) = [2]"
proof -
  have "(case stagen demo_tables 3 9 run_wstate of Some (Ret A) \<Rightarrow>
      map (map pitem) (kern A) = [[1], [2], [6], [9], [10], [11]] \<and> styp A = [2, 0, 0, 2, 0, 0] \<and>
      slk A ! look (kern A ! 3 ! 0) = [10] \<and> slk A ! look (kern A ! 4 ! 0) = [2] | _ \<Rightarrow> False)"
    by code_simp
  then show thesis by (auto intro: that split: option.splits res.splits)
qed

lemma expr_run:
  obtains A where "stagen expr_tables 4 9 run_wstate = Some (Ret A)"
    "map (map pitem) (kern A) = [[1], [2], [6], [11], [7], [8]]" "styp A = replicate 6 0"
    "slk A ! look (kern A ! 2 ! 0) = [10]" "gindgo A ! 2 = 0" "gact A ! 1 = 4"
proof -
  have "(case stagen expr_tables 4 9 run_wstate of Some (Ret A) \<Rightarrow>
      map (map pitem) (kern A) = [[1], [2], [6], [11], [7], [8]] \<and> styp A = replicate 6 0 \<and>
      slk A ! look (kern A ! 2 ! 0) = [10] \<and> gindgo A ! 2 = 0 \<and> gact A ! 1 = 4 | _ \<Rightarrow> False)"
    by code_simp
  then show thesis by (auto intro: that split: option.splits res.splits)
qed

lemma kset_run: "map (map pitem) (kern A) = ps \<Longrightarrow> i < length ps \<Longrightarrow> i < length (kern A) \<and> kset A i = set (ps ! i)"
  by (auto simp: pits_def)

lemma look_at_single: "kern A ! i = [k] \<Longrightarrow> pitem k = q \<Longrightarrow> look_at A i q = members (slk A ! look k)"
  by (auto simp: look_at_def)

theorem stagen_returns_witness:
  "\<exists>A. stagen demo_tables 3 9 run_wstate = Some (Ret A) \<and> eps_item (tgram demo_tables) {9} \<and>
    \<not> eps_item (tgram demo_tables) {10}"
proof -
  obtain A where A: "stagen demo_tables 3 9 run_wstate = Some (Ret A)"
    "map (map pitem) (kern A) = [[1], [2], [6], [9], [10], [11]]" "styp A = [2, 0, 0, 2, 0, 0]" by (rule demo_run)
  from stagen_returns [OF demo_wf _ demo_analyse demo_ready, of 9] A(1)
  have "\<forall>i < length (kern A). styp A ! i = (if eps_item (tgram demo_tables) (kset A i) then MUSTLOOKAHEAD else DONE)"
    by simp
  from this [rule_format, of 3] this [rule_format, of 4] kset_run [OF A(2), of 3] kset_run [OF A(2), of 4] A(1,3)
  show ?thesis by (auto split: if_splits)
qed

theorem stagen_well_formed_witness:
  "\<exists>A. stagen demo_tables 3 9 run_wstate = Some (Ret A) \<and> length (mstates A) = 6 \<and>
    (\<exists>h xs. chain_head A 2 = Some h \<and> chain (mstates A) h xs)"
proof -
  obtain A where A: "stagen demo_tables 3 9 run_wstate = Some (Ret A)"
    "map (map pitem) (kern A) = [[1], [2], [6], [9], [10], [11]]" by (rule demo_run)
  have n: "length (kern A) = 6" using arg_cong [OF A(2), of length] by simp
  note wf = stagen_well_formed [OF demo_wf _ demo_analyse demo_ready A(1)]
  have "sym_range (nnonter (tgram demo_tables)) 3 2" by (simp add: sym_range_def)
  with wf n A(1) show ?thesis by fastforce
qed

theorem stagen_states_witness:
  "lr_state (tgram expr_tables) {6} \<and> gotoset (tgram expr_tables) {6} 4097 = {7} \<and>
    card {P. lr_state (tgram expr_tables) P} = 6"
proof -
  obtain A where A: "stagen expr_tables 4 9 run_wstate = Some (Ret A)"
    "map (map pitem) (kern A) = [[1], [2], [6], [11], [7], [8]]"
    "gindgo A ! 2 = 0" "gact A ! 1 = 4" by (rule expr_run)
  note ks = kset_run [OF A(2)]
  have n: "length (kern A) = 6" using arg_cong [OF A(2), of length] by simp
  from stagen_states [OF expr_wf _ expr_analyse expr_ready A(1)]
  have s: "bij_betw (kset A) {..<length (kern A)} {P. lr_state (tgram expr_tables) P}"
    and g: "\<forall>i < length (kern A). \<forall>c > 1. gotoset (tgram expr_tables) (kset A i) c \<noteq> {} \<longrightarrow>
      (\<exists>j < length (kern A). kset A j = gotoset (tgram expr_tables) (kset A i) c \<and>
        (NTBASE \<le> c \<longrightarrow> 0 \<le> gindgo A ! i + int (ntix c) \<and> ent (gact A) (nat (gindgo A ! i + int (ntix c))) = Some j))"
    by simp_all
  have "lr_state (tgram expr_tables) {6}" using bij_betwE [OF s, rule_format, of 2] ks [of 2] n by simp
  moreover have "card {P. lr_state (tgram expr_tables) P} = 6" using bij_betw_same_card [OF s] n by simp
  moreover have "gotoset (tgram expr_tables) {6} 4097 = {7}"
  proof -
    have m: "gmem (tgram expr_tables) ! 6 = 4097" by code_simp
    have "lr_item (tgram expr_tables) {6} 6" by (rule lr_item.kernel) simp
    then have "gotoset (tgram expr_tables) (kset A 2) 4097 \<noteq> {}" using m ks [of 2] by (auto simp: gotoset_def)
    with g [rule_format, of 2 4097] n ks [of 2] obtain j where "kset A j = gotoset (tgram expr_tables) {6} 4097"
      "ent (gact A) (nat (gindgo A ! 2 + int (ntix 4097))) = Some j" by auto
    then show ?thesis using A(3,4) ks [of 4] by (auto simp: ent_eq_Some)
  qed
  ultimately show ?thesis by blast
qed

theorem stagen_lookaheads_witness:
  "{t. lalr (all_rules 4097 expr_rules) (tgram expr_tables) {6} 6 t} = {1, 3}"
proof -
  obtain A where A: "stagen expr_tables 4 9 run_wstate = Some (Ret A)"
    "map (map pitem) (kern A) = [[1], [2], [6], [11], [7], [8]]"
    "styp A = replicate 6 0" "slk A ! look (kern A ! 2 ! 0) = [10]" by (rule expr_run)
  note ks = kset_run [OF A(2)]
  have n: "length (kern A) = 6" using arg_cong [OF A(2), of length] by simp
  from stagen_cases [OF expr_tables_ok expr_ready, of 9] A(1)
  have inv: "linv (all_rules 4097 expr_rules) expr_tables 4 run_wstate A" "MUSTDO \<notin> set (styp A)" by auto
  have "\<not> lossy (tgram expr_tables) P" if lr: "lr_state (tgram expr_tables) P" for P
  proof -
    obtain i where i: "i < length (kern A)" "kset A i = P" using all_states_found [OF inv lr] by blast
    have "styp A ! i = 0" using A(3) i(1) n by simp
    then show ?thesis using linv_worked [OF inv i(1)] i(2) by (simp add: worked_def lossy_def)
  qed
  with stagen_lookaheads [OF expr_wf _ expr_analyse expr_ready A(1)] n ks [of 2]
  have "look_at A 2 6 = {t. lalr (all_rules 4097 expr_rules) (tgram expr_tables) {6} 6 t}" by simp
  moreover have "look_at A 2 6 = members [10]"
  proof -
    have "map pitem (kern A ! 2) = [6]" using arg_cong [OF A(2), of "\<lambda>xs. xs ! 2"] n by simp
    then obtain k where "kern A ! 2 = [k]" "pitem k = 6" by auto
    then show ?thesis using look_at_single A(4) by fastforce
  qed
  moreover have "members [10] = {1, 3}" unfolding members_list by code_simp
  ultimately show ?thesis by simp
qed

text \<open>
  C30. For the grammar \<open>S: A;  A: x A y | ;\<close> the lookahead of the item behind the inner \<open>A\<close> lacks the token
  \<open>y\<close>: the state behind \<open>x\<close> has a goto on itself that raises its lookahead and asks for another
  turn, and the empty production behind its kernel takes the request back.
\<close>

theorem stagen_loses_lookahead:
  "\<exists>A. stagen demo_tables 3 9 run_wstate = Some (Ret A) \<and> 4 < length (kern A) \<and> kset A 4 = {10} \<and>
    lalr (all_rules 4097 demo_rules) (tgram demo_tables) {10} 10 3 \<and> look_at A 4 10 = {1}"
proof -
  let ?R = "all_rules 4097 demo_rules" and ?g = "tgram demo_tables"
  obtain A where A: "stagen demo_tables 3 9 run_wstate = Some (Ret A)"
    "map (map pitem) (kern A) = [[1], [2], [6], [9], [10], [11]]" "slk A ! look (kern A ! 4 ! 0) = [2]" by (rule demo_run)
  have m: "gmem ?g ! 8 = 2" "gmem ?g ! 9 = 4098" "rhs_at (gmem ?g) 10 = [3]" "8 \<in> set (pres_row ?g 2)" by code_simp+
  note ks = kset_run [OF A(2)]
  have n: "length (kern A) = 6" using arg_cong [OF A(2), of length] by simp
  have kl: "kern A ! 4 = [kern A ! 4 ! 0]" "pitem (kern A ! 4 ! 0) = 10"
    using arg_cong [OF A(2), of "\<lambda>xs. xs ! 4"] n by (cases "kern A ! 4"; simp)+
  from stagen_cases [OF demo_tables_ok demo_ready, of 9] A(1)
  have inv: "linv ?R demo_tables 3 run_wstate A" "MUSTDO \<notin> set (styp A)" by auto
  have to: "gotoset ?g {9} (gmem ?g ! p) = {Suc p}" if p: "lr_item ?g {9} p" "1 < gmem ?g ! p" for p
  proof -
    have mem: "Suc p \<in> gotoset ?g {9} (gmem ?g ! p)" using p(1) by (auto simp: gotoset_def)
    with linv_worked [OF inv, of 3] p(2) ks [of 3] n
    obtain j where j: "j < 6" "kset A j = gotoset ?g {9} (gmem ?g ! p)"
      by (auto simp: worked_def gotos_made_def goto_at_def)
    have "\<forall>k < 6. length ([[1], [2], [6], [9], [10], [11 :: nat]] ! k) = 1" by code_simp
    then have "length ([[1], [2], [6], [9], [10], [11 :: nat]] ! j) = Suc 0" using j(1) by simp
    then obtain x where "[[1], [2], [6], [9], [10], [11 :: nat]] ! j = [x]" unfolding length_Suc_conv by blast
    then have "{x} = gotoset ?g {9} (gmem ?g ! p)" using j ks [of j] by simp
    from this [symmetric] mem show ?thesis by simp
  qed
  have i9: "lr_item ?g {9} 9" by (rule lr_item.kernel) simp
  have i8: "lr_item ?g {9} 8" by (rule lr_item.enter [OF i9]) (use m in simp_all)
  have "lr_state ?g {9}" using all_states_lr [OF inv(1), of 3] ks [of 3] by simp
  moreover have "(3 :: nat) \<in> firsts ?R [3]" unfolding firsts_def by (intro CollectI exI [of _ 3] exI [of _ "[]"]) (simp add: is_token_def)
  ultimately have "lalr ?R ?g {9} 8 3"
    using lalr.first [of ?g "{9}" 9 8 3 ?R] i9 m by (simp add: numeral_eq_Suc)
  from lalr.move [OF this] to [OF i8] m have "lalr ?R ?g {9} 9 3" by simp
  from lalr.move [OF this] to [OF i9] m have "lalr ?R ?g {10} 10 3" by simp
  moreover have "look_at A 4 10 = {1}"
  proof -
    have "members [2] = {1}" unfolding members_list by code_simp
    then show ?thesis using look_at_single [OF kl] A(3) by simp
  qed
  ultimately show ?thesis using A(1) n ks [of 4] by auto
qed

end
