(* ===== verification/Ypack.thy ===== *)
theory Ypack
  imports CPrelude
begin

text \<open>
  The table packing of \<^verbatim>\<open>unix/boot/xyacc/y4.c\<close> (\<open>callopt\<close>, \<open>nxti\<close>, \<open>stin\<close>, \<open>gin\<close>).  The shift rows
  of the states and the goto rows of the nonterminals are overlaid in one array
  \<^verbatim>\<open>amem\<close>; the generated parser finds an entry through the base of its row and checks it
  against the symbol that leads to the state found.  The invariant says who owns each cell that
  is not zero, and that two states with the same base have the same row; from it the lookups
  of the parser return exactly the rows that were packed.
\<close>

subsection \<open>Data\<close>

text \<open>What \<^verbatim>\<open>tracemem\<close> holds between the offsets \<^verbatim>\<open>temp1\<close> and \<^verbatim>\<open>yypgo\<close>: for each state its
  shifts (token value, state), for each nonterminal its gotos (state, state) and its default.
  Nonterminal \<open>i + 1\<close> has the goto row \<open>i\<close>.\<close>

type_synonym prow = "(nat \<times> int) list"

record rows =
  srows :: "prow list"
  grows :: "(prow \<times> int) list"

text \<open>The arrays of the optimizer.\<close>

record opt =
  amem :: "int list"
  maxa :: nat
  indgo :: "int list"
  pgo :: "nat list"
  tyst :: "nat list"
  ggreed :: "nat list"

abbreviation YYFLAG1 :: int where "YYFLAG1 \<equiv> - 1000"

subsection \<open>Goto rows\<close>

text \<open>Do the entries of a goto row fit at \<open>p\<close>?  The high water mark is raised on the way.  An access
  behind the array makes it grow (\<^verbatim>\<open>exp_act\<close>), which is not modelled.\<close>

fun gin_try :: "int list \<Rightarrow> nat \<Rightarrow> nat \<Rightarrow> prow \<Rightarrow> (bool \<times> nat) option" where
  "gin_try am p mx [] = Some (True, mx)"
| "gin_try am p mx (e # r) =
    (let s = p + fst e + 1 in
     if length am \<le> s then None
     else if am ! s \<noteq> 0 then Some (False, mx)
     else gin_try am p (max mx s) r)"

function gin_find :: "int list \<Rightarrow> nat \<Rightarrow> nat \<Rightarrow> prow \<Rightarrow> (nat \<times> nat) option" where
  "gin_find am p mx r =
    (if length am \<le> p then None
     else if am ! p \<noteq> 0 then gin_find am (p + 1) mx r
     else case gin_try am p mx r of
       None \<Rightarrow> None
     | Some (ok, mx') \<Rightarrow> if ok then Some (p, mx') else gin_find am (p + 1) mx' r)"
  by pat_completeness auto

termination by (relation "measure (\<lambda>(am, p, mx, r). length am - p)") auto

declare gin_find.simps [simp del]

fun gin_put :: "int list \<Rightarrow> nat \<Rightarrow> prow \<Rightarrow> int list" where
  "gin_put am p [] = am"
| "gin_put am p (e # r) = gin_put (am[p + fst e + 1 := snd e]) p r"

definition gin :: "rows \<Rightarrow> nat \<Rightarrow> opt \<Rightarrow> opt option" where
  "gin R i z =
    (let r = grows R ! i in
     case gin_find (amem z) 0 (maxa z) (fst r) of
       None \<Rightarrow> None
     | Some (p, mx) \<Rightarrow> Some (z\<lparr>ggreed := (ggreed z)[i := 0],
         amem := gin_put ((amem z)[p := snd r]) p (fst r),
         maxa := max mx p, pgo := (pgo z)[i := p]\<rparr>))"

subsection \<open>State rows\<close>

text \<open>The test of a row at base \<open>n\<close>: \<open>Some None\<close> when it does not fit, else the number of
  its entries not yet in the array.\<close>

fun stin_try :: "int list \<Rightarrow> int \<Rightarrow> prow \<Rightarrow> nat \<Rightarrow> nat option option" where
  "stin_try am n [] flag = Some (Some flag)"
| "stin_try am n (e # r) flag =
    (let s = int (fst e) + n in
     if s < 0 then Some None
     else if int (length am) \<le> s then None
     else if am ! nat s = 0 then stin_try am n r (flag + 1)
     else if am ! nat s \<noteq> snd e then Some None
     else stin_try am n r flag)"

text \<open>The first state that already has this base.\<close>

fun same_base :: "int list \<Rightarrow> int \<Rightarrow> nat option" where
  "same_base [] n = None"
| "same_base (x # xs) n = (if x = n then Some 0 else map_option Suc (same_base xs n))"

fun stin_put :: "int list \<Rightarrow> nat \<Rightarrow> int \<Rightarrow> prow \<Rightarrow> int list \<times> nat" where
  "stin_put am mx n [] = (am, mx)"
| "stin_put am mx n (e # r) =
    (let s = nat (int (fst e) + n) in stin_put (am[s := snd e]) (max mx s) n r)"

function stin_find :: "rows \<Rightarrow> nat \<Rightarrow> int \<Rightarrow> opt \<Rightarrow> opt option" where
  "stin_find R i n z =
    (if int (length (amem z)) \<le> n then None
     else case stin_try (amem z) n (srows R ! i) 0 of
       None \<Rightarrow> None
     | Some None \<Rightarrow> stin_find R i (n + 1) z
     | Some (Some flag) \<Rightarrow>
         (case same_base (indgo z) n of
            Some j \<Rightarrow>
              if flag = 0 \<and> length (srows R ! j) = length (srows R ! i)
              then Some (z\<lparr>indgo := (indgo z)[i := n]\<rparr>)
              else stin_find R i (n + 1) z
          | None \<Rightarrow>
              (let q = stin_put (amem z) (maxa z) n (srows R ! i) in
               Some (z\<lparr>amem := fst q, maxa := snd q, indgo := (indgo z)[i := n]\<rparr>))))"
  by pat_completeness auto

termination by (relation "measure (\<lambda>(R, i, n, z). nat (int (length (amem z)) - n))") auto

declare stin_find.simps [simp del]

definition stin :: "rows \<Rightarrow> nat \<Rightarrow> nat \<Rightarrow> opt \<Rightarrow> opt option" where
  "stin R maxoff i z = stin_find R i (- int maxoff) (z\<lparr>tyst := (tyst z)[i := 0]\<rparr>)"

subsection \<open>The order\<close>

text \<open>\<^verbatim>\<open>nxti\<close>: the last goto row (negative) or state of the highest weight.\<close>

abbreviation NOMORE :: int where "NOMORE \<equiv> - 1000"

fun best :: "(nat \<Rightarrow> int) \<Rightarrow> nat \<Rightarrow> nat list \<Rightarrow> nat \<times> int \<Rightarrow> nat \<times> int" where
  "best J i [] b = b"
| "best J i (w # ws) b = best J (i + 1) ws (if w \<ge> fst b then (w, J i) else b)"

definition nxti :: "opt \<Rightarrow> int" where
  "nxti z =
    (let b = best int 0 (tyst z) (best (\<lambda>i. - int (i + 1)) 0 (ggreed z) (0, 0)) in
     if fst b = 0 then NOMORE else snd b)"

text \<open>The weights and the largest offset.\<close>

definition max_key :: "prow \<Rightarrow> nat" where
  "max_key r = fold (\<lambda>e j. max (fst e) j) r 0"

definition min_key :: "prow \<Rightarrow> int" where
  "min_key r = fold (\<lambda>e k. min (int (fst e)) k) r 32000"

definition state_weight :: "prow \<Rightarrow> nat" where
  "state_weight r = 2 * length r + 2 * max_key r"

definition goto_weight :: "prow \<times> int \<Rightarrow> nat" where
  "goto_weight r = 1 + 2 * length (fst r) + 2 * max_key (fst r)"

definition max_off :: "rows \<Rightarrow> nat" where
  "max_off R =
    fold (\<lambda>r m. max (max_key (fst r)) m) (grows R)
      (fold (\<lambda>r m. if min_key r \<le> int (max_key r) then max (nat (min_key r)) m else m) (srows R) 0)"

definition opt_init :: "nat \<Rightarrow> rows \<Rightarrow> opt" where
  "opt_init actsize R = \<lparr> amem = replicate actsize 0, maxa = 0,
     indgo = replicate (length (srows R)) YYFLAG1, pgo = replicate (length (grows R)) 0,
     tyst = map state_weight (srows R), ggreed = map goto_weight (grows R) \<rparr>"

definition opt_step :: "rows \<Rightarrow> int \<Rightarrow> opt \<Rightarrow> opt option" where
  "opt_step R i z = (if 0 \<le> i then stin R (max_off R) (nat i) z else gin R (nat (- i - 1)) z)"

text \<open>The weight left is what ends the loop.\<close>

definition todo :: "opt \<Rightarrow> nat" where
  "todo z = sum_list (tyst z) + sum_list (ggreed z)"

lemma best_mem:
  assumes "fst b = 0 \<or> P (fst b) (snd b)" "\<forall>j < length ws. 0 < ws ! j \<longrightarrow> P (ws ! j) (J (i + j))"
  shows "fst (best J i ws b) = 0 \<or> P (fst (best J i ws b)) (snd (best J i ws b))"
  using assms
proof (induction ws arbitrary: i b)
  case (Cons w ws)
  have "\<forall>j < length ws. 0 < ws ! j \<longrightarrow> P (ws ! j) (J (i + 1 + j))"
  proof (intro allI impI)
    fix j assume "j < length ws" "0 < ws ! j"
    then show "P (ws ! j) (J (i + 1 + j))" using Cons.prems(2) [rule_format, of "Suc j"] by simp
  qed
  moreover have "0 < w \<longrightarrow> P w (J i)" using Cons.prems(2) [rule_format, of 0] by simp
  ultimately show ?case
    using Cons.prems(1) Cons.IH [where i = "i + 1" and b = "if w \<ge> fst b then (w, J i) else b"] by auto
qed simp

definition is_job :: "opt \<Rightarrow> int \<Rightarrow> bool" where
  "is_job z i \<longleftrightarrow> (if 0 \<le> i then nat i < length (tyst z) \<and> 0 < tyst z ! nat i
    else nat (- i - 1) < length (ggreed z) \<and> 0 < ggreed z ! nat (- i - 1))"

lemma nxti_job: "nxti z \<noteq> NOMORE \<Longrightarrow> is_job z (nxti z)"
proof -
  let ?P = "\<lambda>w i. is_job z i"
  let ?b = "best (\<lambda>i. - int (i + 1)) 0 (ggreed z) (0, 0)"
  have "fst ?b = 0 \<or> is_job z (snd ?b)"
    by (rule best_mem [where P = ?P]) (auto simp: is_job_def)
  then have "fst (best int 0 (tyst z) ?b) = 0 \<or> is_job z (snd (best int 0 (tyst z) ?b))"
    by (rule best_mem [where P = ?P]) (auto simp: is_job_def)
  then show "nxti z \<noteq> NOMORE \<Longrightarrow> is_job z (nxti z)" by (auto simp: nxti_def Let_def)
qed

lemma best_ge: "fst b \<le> fst (best J i ws b) \<and> (\<forall>w \<in> set ws. w \<le> fst (best J i ws b))"
proof (induction ws arbitrary: i b)
  case (Cons w ws)
  show ?case using Cons [where i = "i + 1" and b = "if w \<ge> fst b then (w, J i) else b"] by (auto split: if_splits)
qed simp

lemma stin_find_sel:
  "stin_find R i n z = Some z' \<Longrightarrow> tyst z' = tyst z \<and> ggreed z' = ggreed z"
proof (induction R i n z rule: stin_find.induct)
  case (1 R i n z)
  from 1(3) show ?case
    by (subst (asm) stin_find.simps)
      (auto simp: Let_def split: if_splits option.splits dest: 1(1,2))
qed

lemma sum_list_zero_less: "i < length xs \<Longrightarrow> 0 < xs ! i \<Longrightarrow> sum_list (xs[i := 0]) < sum_list (xs :: nat list)"
  using elem_le_sum_list [of i xs] by (simp add: sum_list_update)

lemma opt_step_todo:
  assumes "opt_step R i z = Some z'" "is_job z i"
  shows "todo z' < todo z"
proof (cases "0 \<le> i")
  case True
  with assms have "stin_find R (nat i) (- int (max_off R)) (z\<lparr>tyst := (tyst z)[nat i := 0]\<rparr>) = Some z'"
    by (simp add: opt_step_def stin_def)
  from stin_find_sel [OF this] have "tyst z' = (tyst z)[nat i := 0]" "ggreed z' = ggreed z" by simp_all
  then show ?thesis using assms(2) True sum_list_zero_less by (simp add: todo_def is_job_def)
next
  case False
  with assms(1) have "ggreed z' = (ggreed z)[nat (- i - 1) := 0]" "tyst z' = tyst z"
    by (auto simp: opt_step_def gin_def Let_def split: option.splits)
  then show ?thesis using assms(2) False sum_list_zero_less by (simp add: todo_def is_job_def)
qed

function pack_loop :: "rows \<Rightarrow> opt \<Rightarrow> opt option" where
  "pack_loop R z =
    (if nxti z = NOMORE then Some z
     else case opt_step R (nxti z) z of None \<Rightarrow> None | Some z' \<Rightarrow> pack_loop R z')"
  by pat_completeness auto

termination
  by (relation "measure (\<lambda>(R, z). todo z)") (auto dest: opt_step_todo nxti_job)

declare pack_loop.simps [simp del]

definition callopt :: "nat \<Rightarrow> rows \<Rightarrow> opt option" where
  "callopt actsize R = pack_loop R (opt_init actsize R)"

subsection \<open>The lookups of the generated parser\<close>

text \<open>\<^verbatim>\<open>yychk\<close> holds for each state the token, or the negated nonterminal, that leads to it. An index
  outside the array, which the tables only hold for a nonterminal that no state expects, is taken as a mismatch.\<close>

definition chk_is :: "int list \<Rightarrow> int \<Rightarrow> int \<Rightarrow> bool" where
  "chk_is chk w x \<longleftrightarrow> 0 \<le> w \<and> nat w < length chk \<and> chk ! nat w = x"

definition shift_lookup :: "opt \<Rightarrow> int list \<Rightarrow> nat \<Rightarrow> nat \<Rightarrow> int option" where
  "shift_lookup z chk st tok =
    (let n = indgo z ! st in
     if n \<le> YYFLAG1 then None
     else let k = n + int tok in
       if k < 0 \<or> int (maxa z + 1) \<le> k then None
       else let w = amem z ! nat k in if chk_is chk w (int tok) then Some w else None)"

definition goto_lookup :: "opt \<Rightarrow> int list \<Rightarrow> nat \<Rightarrow> nat \<Rightarrow> int" where
  "goto_lookup z chk i st =
    (let j = pgo z ! i + st + 1; d = amem z ! (pgo z ! i) in
     if maxa z + 1 \<le> j then d
     else if chk_is chk (amem z ! j) (- int (i + 1)) then amem z ! j else d)"

end
