(* ===== verification/Yout.thy ===== *)
theory Yout
  imports Ystate Ypack
begin

text \<open>
  The output of the tables in \<^verbatim>\<open>unix/boot/xyacc\<close>: the actions of a state (\<open>output\<close>, \<open>precftn\<close> and
  \<open>wract\<close> of \<^verbatim>\<open>y3.c\<close>), the gotos of the nonterminals (\<open>go2gen\<close>, \<open>go2out\<close>) and the arrays of
  \<open>others\<close> in \<^verbatim>\<open>y1.c\<close>.  The rows go to the optimizer through a temporary file; here they
  are the record \<open>rows\<close> of Ypack.  The levels of the productions (\<^verbatim>\<open>levprd\<close>) and of the tokens
  (\<^verbatim>\<open>toklev\<close>) and the values of the tokens (\<^verbatim>\<open>tokset\<close>) come from the grammar reader.  The mark
  \<^verbatim>\<open>REDFLAG\<close>, which only counts rules never reduced, and the listing are left out.
\<close>

subsection \<open>Precedence\<close>

abbreviation (input) ERRCODE :: int where "ERRCODE \<equiv> 8190"
abbreviation (input) ACCEPTCODE :: int where "ACCEPTCODE \<equiv> 8191"

abbreviation (input) LASC :: int where "LASC \<equiv> 1"
abbreviation (input) RASC :: int where "RASC \<equiv> 2"
abbreviation (input) BASC :: int where "BASC \<equiv> 3"

definition PLEVEL :: "int \<Rightarrow> int" where
  "PLEVEL i = (i div 16) mod 64"

definition ASSOC :: "int \<Rightarrow> int" where
  "ASSOC i = i mod 8"

text \<open>What becomes of the entry \<open>a\<close> of a token, a shift, when rule \<open>r\<close> reduces on it too.\<close>

definition precftn :: "int \<Rightarrow> int \<Rightarrow> nat \<Rightarrow> int \<Rightarrow> int" where
  "precftn lp lt r a =
    (if PLEVEL lt = 0 \<or> PLEVEL lp = 0 then a
     else let action =
         (if PLEVEL lt = PLEVEL lp then ASSOC lt mod 4
          else if PLEVEL lp < PLEVEL lt then RASC else LASC) in
       if action = BASC then ERRCODE
       else if action = LASC then - int r
       else a)"

subsection \<open>The actions of a state\<close>

record levels =
  levprd :: "nat \<Rightarrow> int"
  toklev :: "nat \<Rightarrow> int"

text \<open>\<open>state\<close> while the lookaheads are off: the state must be there.\<close>

definition nolook_state :: "int \<Rightarrow> nat list \<Rightarrow> automaton \<Rightarrow> nat option" where
  "nolook_state c ps A =
    (if ps = [] then Some 0
     else let K = map (\<lambda>p. \<lparr> pitem = p, look = 0 \<rparr>) ps; K' = sort_items (length K) K in
       do {
         h \<leftarrow> chain_head A c;
         i \<leftarrow> find_state (kern A) (mstates A) (map pitem K') h;
         if i = 0 then None else Some i
       })"

fun shifts :: "int list \<Rightarrow> automaton \<Rightarrow> wset list \<Rightarrow> int list \<Rightarrow> int list option" where
  "shifts m A [] t = Some t"
| "shifts m A (v # vs) t = do {
     c \<leftarrow> ent m (wpitem v);
     if 1 < c \<and> c < NTBASE then do {
       a \<leftarrow> ent t (nat c);
       if a = 0 then do {
         j \<leftarrow> nolook_state c (map (\<lambda>q. Suc (wpitem q)) (filter (\<lambda>q. m ! wpitem q = c) (v # vs))) A;
         shifts m A vs (t[nat c := int j])
       } else shifts m A vs t
     } else shifts m A vs t
   }"

definition reduce_tok :: "levels \<Rightarrow> nat \<Rightarrow> nat \<Rightarrow> int \<Rightarrow> int" where
  "reduce_tok L r k a =
    (if a = 0 then - int r
     else if a < 0 then (if int r < - a then - int r else a)
     else precftn (levprd L r) (toklev L k) r a)"

definition reduce_row :: "levels \<Rightarrow> lset \<Rightarrow> nat \<Rightarrow> int list \<Rightarrow> int list" where
  "reduce_row L l r t =
    fold (\<lambda>k t. if BIT l k then t[k := reduce_tok L r k (t ! k)] else t) [1..<length t] t"

fun reductions :: "levels \<Rightarrow> int list \<Rightarrow> wset list \<Rightarrow> int list \<Rightarrow> int list" where
  "reductions L m [] t = t"
| "reductions L m (v # vs) t =
    reductions L m vs
      (if m ! wpitem v \<le> 0 then reduce_row L (wlset v) (nat (- (m ! wpitem v))) t else t)"

text \<open>The conflicts reported on the way, \<^verbatim>\<open>zzsrconf\<close> and \<^verbatim>\<open>zzrrconf\<close>: a shift and a reduction without
  levels for both, two reductions.\<close>

definition sr_conflict :: "levels \<Rightarrow> nat \<Rightarrow> nat \<Rightarrow> int \<Rightarrow> bool" where
  "sr_conflict L r k a \<longleftrightarrow> 0 < a \<and> (PLEVEL (toklev L k) = 0 \<or> PLEVEL (levprd L r) = 0)"

definition rr_conflict :: "int \<Rightarrow> bool" where
  "rr_conflict a \<longleftrightarrow> a < 0"

fun conflicts :: "levels \<Rightarrow> int list \<Rightarrow> wset list \<Rightarrow> int list \<Rightarrow> nat \<times> nat" where
  "conflicts L m [] t = (0, 0)"
| "conflicts L m (v # vs) t =
    (if m ! wpitem v \<le> 0 then
       let r = nat (- (m ! wpitem v));
         ks = filter (BIT (wlset v)) [1..<length t];
         c = conflicts L m vs (reduce_row L (wlset v) r t) in
       (length (filter (\<lambda>k. sr_conflict L r k (t ! k)) ks) + fst c,
        length (filter (\<lambda>k. rr_conflict (t ! k)) ks) + snd c)
     else conflicts L m vs t)"

text \<open>The row has an entry for each token; the entry 0 is not used.\<close>

definition actions :: "tables \<Rightarrow> levels \<Rightarrow> nat \<Rightarrow> automaton \<Rightarrow> nat \<Rightarrow> wstate \<Rightarrow>
    (int list \<times> (nat \<times> nat) \<times> wstate) option" where
  "actions T L ntk A i w = do {
     w \<leftarrow> closure (T\<lparr>tlkst := slk A\<rparr>) (styp A ! i \<noteq> MUSTLOOKAHEAD) (kern A ! i) w;
     t \<leftarrow> shifts (gmem (tgram T)) A (wused w) (aryfil (ntk + 1) 0);
     let t = (if i = 1 then t[1 := ACCEPTCODE] else t);
     Some (reductions L (gmem (tgram T)) (wused w) t, conflicts L (gmem (tgram T)) (wused w) t, w)
   }"

subsection \<open>\<open>wract\<close>\<close>

text \<open>The most frequent reduction, the first one of those.\<close>

definition default_red :: "int list \<Rightarrow> int" where
  "default_red t =
    fst (fold (\<lambda>j (lr, n).
      let a = t ! j in
      if 0 \<le> a \<or> a + lr = 0 then (lr, n)
      else let c = length (filter (\<lambda>p. t ! p = a) [1..<length t]) in
        if n < c then (- a, c) else (lr, n)) [1..<length t] (0, 0))"

text \<open>The exceptions are kept in \<^verbatim>\<open>exca\<close>; the program stops when the array is full, but tests it
  only behind the entry of a token.\<close>

abbreviation (input) EXCASIZE :: nat where "EXCASIZE \<equiv> 1500"

definition exca_put :: "int \<Rightarrow> int \<Rightarrow> int list \<Rightarrow> int list res" where
  "exca_put a b ex = (if length ex + 2 \<le> EXCASIZE then Ret (ex @ [a, b]) else Undef)"

definition exc_value :: "int \<Rightarrow> int option" where
  "exc_value p =
    (if p < 0 then Some (- p)
     else if p = ACCEPTCODE then Some (- 1)
     else if p = ERRCODE then Some 0
     else None)"

fun emit :: "(nat \<Rightarrow> nat) \<Rightarrow> nat \<Rightarrow> int list \<Rightarrow> nat list \<Rightarrow> bool \<Rightarrow> prow \<Rightarrow> int list \<Rightarrow>
    (bool \<times> prow \<times> int list) res" where
  "emit vals i t [] flag row ex = Ret (flag, row, ex)"
| "emit vals i t (k # ks) flag row ex =
    (if t ! k = 0 then emit vals i t ks flag row ex
     else case exc_value (t ! k) of
       Some p \<Rightarrow>
         bindr (if flag then Ret ex else exca_put (- 1) (int i) ex) (\<lambda>ex.
         bindr (exca_put (int (vals k)) p ex) (\<lambda>ex.
           if EXCASIZE \<le> length ex then Full
           else emit vals i t ks True row ex))
     | None \<Rightarrow> emit vals i t ks flag (row @ [(vals k, t ! k)]) ex)"

record outtabs =
  orows :: "prow list"
  exca :: "int list"
  defact :: "int list"
  zzconf :: "nat \<times> nat"

definition wract :: "(nat \<Rightarrow> nat) \<Rightarrow> nat \<Rightarrow> int list \<Rightarrow> outtabs \<Rightarrow> outtabs res" where
  "wract vals i t z =
    (let lr = (if 0 < t ! 1 then 0 else default_red t);
         t = t ! 0 # map (\<lambda>a. if a + lr = 0 then 0 else a) (tl t) in
     bindr (emit vals i t [1..<length t] False [] (exca z)) (\<lambda>(flag, row, ex).
       if flag then bindr (exca_put (- 2) lr ex) (\<lambda>ex.
         Ret (z\<lparr>orows := orows z @ [row], exca := ex, defact := defact z @ [- 2]\<rparr>))
       else Ret (z\<lparr>orows := orows z @ [row], exca := ex, defact := defact z @ [lr]\<rparr>)))"

fun output_loop :: "tables \<Rightarrow> levels \<Rightarrow> (nat \<Rightarrow> nat) \<Rightarrow> nat \<Rightarrow> automaton \<Rightarrow> nat list \<Rightarrow> wstate \<Rightarrow> outtabs \<Rightarrow>
    outtabs res" where
  "output_loop T L vals ntk A [] w z = Ret z"
| "output_loop T L vals ntk A (i # is) w z =
    bindr (defined (actions T L ntk A i w)) (\<lambda>(t, c, w).
    bindr (wract vals i t (z\<lparr>zzconf := (fst (zzconf z) + fst c, snd (zzconf z) + snd c)\<rparr>)) (\<lambda>z.
      output_loop T L vals ntk A is w z))"

definition output_states :: "tables \<Rightarrow> levels \<Rightarrow> (nat \<Rightarrow> nat) \<Rightarrow> nat \<Rightarrow> automaton \<Rightarrow> outtabs res" where
  "output_states T L vals ntk A =
    output_loop T L vals ntk A [0..<length (kern A)] (sws A)
      \<lparr> orows = [], exca = [], defact = [], zzconf = (0, 0) \<rparr>"

subsection \<open>The gotos of the nonterminals\<close>

text \<open>One pass over the productions: the left hand side of a production that begins with a marked
  nonterminal is marked.\<close>

fun lead_pass :: "int list \<Rightarrow> nat list \<Rightarrow> bool list \<Rightarrow> bool \<Rightarrow> (bool list \<times> bool) option" where
  "lead_pass m [] f work = Some (f, work)"
| "lead_pass m (p # ps) f work = do {
     x \<leftarrow> ent m (Suc p);
     if x < NTBASE then lead_pass m ps f work
     else do {
       b \<leftarrow> ent f (ntix x);
       if \<not> b then lead_pass m ps f work
       else do {
         y \<leftarrow> ent m p;
         b' \<leftarrow> ent f (ntix y);
         if b' then lead_pass m ps f work else lead_pass m ps (f[ntix y := True]) True
       }
     }
   }"

lemma count_True_less: "i < length f \<Longrightarrow> \<not> f ! i \<Longrightarrow> count_list (f[i := True]) False < count_list f False"
  by (induction f arbitrary: i) (auto split: nat.splits)

lemma lead_pass_step:
  assumes "lead_pass m (p # ps) f w = Some r"
  obtains "lead_pass m ps f w = Some r"
  | y where "y < length f" "\<not> f ! y" "lead_pass m ps (f[y := True]) True = Some r"
  using assms by (auto simp: ent_eq_Some split: Option.bind_splits if_splits)

lemma lead_pass_count:
  "lead_pass m ps f w = Some (f', w') \<Longrightarrow> count_list f' False \<le> count_list f False \<and>
    (w' \<longrightarrow> w \<or> count_list f' False < count_list f False)"
proof (induction ps arbitrary: f w)
  case (Cons p ps)
  from Cons.prems show ?case
  proof (cases rule: lead_pass_step)
    case 1
    then show ?thesis by (rule Cons.IH)
  next
    case (2 y)
    from Cons.IH [OF 2(3)] count_True_less [OF 2(1,2)] show ?thesis by simp
  qed
qed simp

function lead_loop :: "int list \<Rightarrow> nat list \<Rightarrow> bool list \<Rightarrow> bool list option" where
  "lead_loop m ps f =
    (case lead_pass m ps f False of
       None \<Rightarrow> None
     | Some (f', work) \<Rightarrow> if work then lead_loop m ps f' else Some f')"
  by pat_completeness auto

termination
  by (relation "measure (\<lambda>(m, ps, f). count_list f False)") (auto dest: lead_pass_count)

declare lead_loop.simps [simp del]

text \<open>The gotos of all states on nonterminal \<open>c\<close>, 0 for none.\<close>

definition goto_of :: "int list \<Rightarrow> automaton \<Rightarrow> bool list \<Rightarrow> nat \<Rightarrow> nat \<Rightarrow> nat" where
  "goto_of m A f c i =
    (if \<exists>k \<in> set (kern A ! i). NTBASE \<le> m ! pitem k \<and> f ! ntix (m ! pitem k)
     then gact A ! nat (gindgo A ! i + int c) else 0)"

definition go2gen :: "grammar \<Rightarrow> automaton \<Rightarrow> nat \<Rightarrow> nat list option" where
  "go2gen g A c = do {
     f \<leftarrow> lead_loop (gmem g) (prdptr g) ((replicate (nnonter g + 1) False)[c := True]);
     Some (map (goto_of (gmem g) A f c) [0..<length (kern A)])
   }"

text \<open>The most frequent goto, the first one of those; -1 when there is none.\<close>

definition best_goto :: "nat list \<Rightarrow> int" where
  "best_goto ys =
    fst (fold (\<lambda>j (best, n).
      let y = ys ! j in
      if y = 0 \<or> int y = best then (best, n)
      else let c = length (filter (\<lambda>k. ys ! k = y) [j..<length ys]) in
        if n < c then (int y, c) else (best, n)) [0..<length ys] (- 1, 0))"

definition goto_row :: "nat list \<Rightarrow> prow \<times> int" where
  "goto_row ys =
    (let b = best_goto ys in
     (map (\<lambda>j. (j, int (ys ! j))) (filter (\<lambda>j. ys ! j \<noteq> 0 \<and> int (ys ! j) \<noteq> b) [0..<length ys]), b))"

definition go2out :: "grammar \<Rightarrow> automaton \<Rightarrow> (prow \<times> int) list option" where
  "go2out g A = those (map (\<lambda>i. map_option goto_row (go2gen g A i)) [1..<nnonter g + 1])"

subsection \<open>The arrays of \<open>others\<close>\<close>

text \<open>\<^verbatim>\<open>yychk\<close>: the value of the token, or the negated nonterminal, that leads to each state.\<close>

partial_function (option) mark_chain :: "nat list \<Rightarrow> int \<Rightarrow> nat \<Rightarrow> int list \<Rightarrow> int list option" where
  [code]: "mark_chain ms x j t =
    (if j = 0 then Some t
     else if length t \<le> j then None
     else do { j' \<leftarrow> ent ms j; mark_chain ms x j' (t[j := x]) })"

fun mark_chains :: "nat list \<Rightarrow> (int \<times> nat) list \<Rightarrow> int list \<Rightarrow> int list option" where
  "mark_chains ms [] t = Some t"
| "mark_chains ms ((x, h) # r) t = do { t \<leftarrow> mark_chain ms x h t; mark_chains ms r t }"

definition yychk :: "(nat \<Rightarrow> nat) \<Rightarrow> nat \<Rightarrow> nat \<Rightarrow> automaton \<Rightarrow> int list option" where
  "yychk vals ntk nn A =
    mark_chains (mstates A)
      (map (\<lambda>i. (int (vals i), tstates A ! i)) [1..<ntk + 1] @ map (\<lambda>i. (- int i, ntstates A ! i)) [0..<nn + 1])
      (aryfil (length (kern A)) (- 1000))"

text \<open>The left hand side and the length of each production; \<^verbatim>\<open>prdptr\<close> has one more entry, the end of
  the memory in use.\<close>

definition yyr1 :: "grammar \<Rightarrow> int list" where
  "yyr1 g = 0 # map (\<lambda>p. gmem g ! p - NTBASE) (tl (prdptr g))"

definition yyr2 :: "grammar \<Rightarrow> int list" where
  "yyr2 g = 0 # map (\<lambda>i. int ((prdptr g @ [length (gmem g)]) ! (i + 1)) - int (prdptr g ! i) - 2)
    [1..<length (prdptr g)]"

end
