(* ===== verification/Yparse.thy ===== *)
theory Yparse
  imports Yout
begin

text \<open>
  The parser of \<^verbatim>\<open>unix/boot/xyacc/yaccpar.x\<close> over the generated tables, with its recovery from syntax
  errors but without the semantic actions.  \<open>generate\<close> is the second half of \<^verbatim>\<open>main\<close> in \<^verbatim>\<open>y1.c\<close>,
  from \<open>output\<close> to \<open>others\<close> and the counts of \<open>summary\<close>.
\<close>

subsection \<open>The generated tables\<close>

record ptables =
  popt :: opt
  pchk :: "int list"
  pdef :: "int list"
  pexca :: "int list"
  pr1 :: "int list"
  pr2 :: "int list"
  perr :: nat
  pconf :: "nat \<times> nat"

definition generate :: "tables \<Rightarrow> levels \<Rightarrow> (nat \<Rightarrow> nat) \<Rightarrow> nat \<Rightarrow> nat \<Rightarrow> automaton \<Rightarrow> ptables res" where
  "generate T L vals ntk actsize A =
    (let g = tgram T in
     bindr (output_states T L vals ntk A) (\<lambda>z.
     bindr (defined (go2out g A)) (\<lambda>gr.
     bindr (grown (callopt actsize \<lparr> srows = orows z, grows = gr \<rparr>)) (\<lambda>q.
     bindr (defined (yychk vals ntk (nnonter g) A)) (\<lambda>chk.
       Ret \<lparr> popt = q, pchk = chk, pdef = defact z, pexca = exca z, pr1 = yyr1 g, pr2 = yyr2 g,
         perr = vals 2, pconf = zzconf z \<rparr>)))))"

subsection \<open>The action of a state\<close>

datatype act = Shift int | Reduce nat | Accept | Error

text \<open>The entry of the state in the exception table; the search does not look for its end.\<close>

function exca_find :: "int list \<Rightarrow> nat \<Rightarrow> int \<Rightarrow> nat option" where
  "exca_find ex x st =
    (if length ex \<le> x + 1 then None
     else if ex ! x = - 1 \<and> ex ! (x + 1) = st then Some x
     else exca_find ex (x + 2) st)"
  by pat_completeness auto

termination by (relation "measure (\<lambda>(ex, x, st). length ex - x)") auto

function exca_value :: "int list \<Rightarrow> nat \<Rightarrow> int \<Rightarrow> int option" where
  "exca_value ex x tok =
    (if length ex \<le> x + 1 then None
     else if 0 \<le> ex ! x \<and> ex ! x \<noteq> tok then exca_value ex (x + 2) tok
     else Some (ex ! (x + 1)))"
  by pat_completeness auto

termination by (relation "measure (\<lambda>(ex, x, tok). length ex - x)") auto

declare exca_find.simps [simp del] exca_value.simps [simp del]

definition default_act :: "ptables \<Rightarrow> nat \<Rightarrow> nat \<Rightarrow> act option" where
  "default_act P st tok = do {
     d \<leftarrow> ent (pdef P) st;
     if d = - 2 then do {
       x \<leftarrow> exca_find (pexca P) 0 (int st);
       n \<leftarrow> exca_value (pexca P) (x + 2) (int tok);
       Some (if n < 0 then Accept else if n = 0 then Error else Reduce (nat n))
     } else if d < 0 then None
     else Some (if d = 0 then Error else Reduce (nat d))
   }"

definition parse_act :: "ptables \<Rightarrow> nat \<Rightarrow> nat \<Rightarrow> act option" where
  "parse_act P st tok =
    (case shift_lookup (popt P) (pchk P) st tok of
       Some w \<Rightarrow> Some (Shift w)
     | None \<Rightarrow> default_act P st tok)"

subsection \<open>The loop\<close>

text \<open>\<open>None\<close> is the value -1 of \<^verbatim>\<open>yychar\<close>; the end of the input reads as 0.\<close>

record pstate =
  pstk :: "nat list"
  pych :: "nat option"
  pinp :: "nat list"
  perrflag :: nat
  pnerrs :: nat

definition yylex :: "pstate \<Rightarrow> pstate" where
  "yylex z =
    (case pych z of
       Some _ \<Rightarrow> z
     | None \<Rightarrow> (case pinp z of
         [] \<Rightarrow> z\<lparr>pych := Some 0\<rparr>
       | t # ts \<Rightarrow> z\<lparr>pych := Some t, pinp := ts\<rparr>))"

datatype outcome = Accepted | Aborted | Overflow

datatype pstep = Next pstate | Stop outcome pstate

definition yystack :: "nat \<Rightarrow> nat \<Rightarrow> pstate \<Rightarrow> pstep" where
  "yystack maxdepth w z = (if maxdepth < length (pstk z) + 1 then Stop Overflow z else Next (z\<lparr>pstk := w # pstk z\<rparr>))"

text \<open>Recovery: the states are popped until one has a shift on the token \<^verbatim>\<open>error\<close>.  This lookup does not
  test for \<^verbatim>\<open>YYFLAG\<close>.\<close>

definition err_shift :: "ptables \<Rightarrow> nat \<Rightarrow> int option" where
  "err_shift P st =
    (let k = indgo (popt P) ! st + int (perr P) in
     if k < 0 \<or> int (maxa (popt P) + 1) \<le> k then None
     else let w = amem (popt P) ! nat k in if chk_is (pchk P) w (int (perr P)) then Some w else None)"

fun find_err :: "ptables \<Rightarrow> nat list \<Rightarrow> (nat \<times> nat list) option" where
  "find_err P [] = None"
| "find_err P (st # stk) =
    (case err_shift P st of Some w \<Rightarrow> Some (nat w, st # stk) | None \<Rightarrow> find_err P stk)"

definition recover :: "ptables \<Rightarrow> nat \<Rightarrow> pstate \<Rightarrow> pstep" where
  "recover P maxdepth z =
    (if perrflag z = 3 then
       (if pych z = Some 0 then Stop Aborted z else Next (z\<lparr>pych := None\<rparr>))
     else
       let z = z\<lparr>pnerrs := (if perrflag z = 0 then pnerrs z + 1 else pnerrs z), perrflag := 3\<rparr> in
       case find_err P (pstk z) of
         None \<Rightarrow> Stop Aborted z
       | Some (w, stk) \<Rightarrow> yystack maxdepth w (z\<lparr>pstk := stk\<rparr>))"

definition yyact :: "ptables \<Rightarrow> nat \<Rightarrow> pstate \<Rightarrow> act \<Rightarrow> pstep option" where
  "yyact P maxdepth z a =
    (case a of
       Shift w \<Rightarrow> Some (yystack maxdepth (nat w) (z\<lparr>pych := None, perrflag := perrflag z - 1\<rparr>))
     | Accept \<Rightarrow> Some (Stop Accepted z)
     | Error \<Rightarrow> Some (recover P maxdepth z)
     | Reduce n \<Rightarrow> do {
         l \<leftarrow> ent (pr2 P) n;
         c \<leftarrow> ent (pr1 P) n;
         let z = z\<lparr>pstk := drop (nat l) (pstk z)\<rparr>;
         (case pstk z of
            [] \<Rightarrow> None
          | st # _ \<Rightarrow> Some (yystack maxdepth (nat (goto_lookup (popt P) (pchk P) (nat c - 1) st)) z))
       })"

text \<open>A step processes one state.  A token is read only when the state has shifts or exceptions.\<close>

definition yystep :: "ptables \<Rightarrow> nat \<Rightarrow> pstate \<Rightarrow> pstep option" where
  "yystep P maxdepth z =
    (case pstk z of
       [] \<Rightarrow> None
     | st # _ \<Rightarrow> do {
         n \<leftarrow> ent (indgo (popt P)) st;
         d \<leftarrow> ent (pdef P) st;
         let z = (if YYFLAG1 < n \<or> d = - 2 then yylex z else z);
         a \<leftarrow> parse_act P st (case pych z of None \<Rightarrow> 0 | Some c \<Rightarrow> c);
         yyact P maxdepth z a
       })"

partial_function (option) yyparse :: "ptables \<Rightarrow> nat \<Rightarrow> pstate \<Rightarrow> (outcome \<times> pstate) option" where
  [code]: "yyparse P maxdepth z =
    do {
      r \<leftarrow> yystep P maxdepth z;
      (case r of
         Next z \<Rightarrow> yyparse P maxdepth z
       | Stop r z \<Rightarrow> Some (r, z))
    }"

definition parse_start :: "nat list \<Rightarrow> pstate" where
  "parse_start inp = \<lparr> pstk = [0], pych = None, pinp = inp, perrflag = 0, pnerrs = 0 \<rparr>"

text \<open>The first push tests for a stack without room.\<close>

definition parse :: "ptables \<Rightarrow> nat \<Rightarrow> nat list \<Rightarrow> (outcome \<times> pstate) option" where
  "parse P maxdepth inp =
    (if maxdepth = 0 then Some (Overflow, parse_start inp) else yyparse P maxdepth (parse_start inp))"

end
