(* ===== verification/Yrow.thy ===== *)
theory Yrow
  imports Yparse
begin

text \<open>
  The row of a state: what the reductions make of the entry of a token, and that the row written by
  \<open>wract\<close>, the exceptions and the default action together say what the row said, but that an error
  may have become a reduction.
\<close>

subsection \<open>Reductions\<close>

lemma fold_update:
  assumes "distinct ks" "\<forall>k \<in> set ks. k < length t"
  shows "length (fold (\<lambda>k t. if P k then t[k := f k (t ! k)] else t) ks t) = length t"
    "j < length t \<Longrightarrow> fold (\<lambda>k t. if P k then t[k := f k (t ! k)] else t) ks t ! j =
      (if j \<in> set ks \<and> P j then f j (t ! j) else t ! j)"
  using assms by (induction ks arbitrary: t) (auto simp: nth_list_update)

lemma reduce_row_nth:
  "length (reduce_row L l r t) = length t"
  "j < length t \<Longrightarrow> reduce_row L l r t ! j = (if 0 < j \<and> BIT l j then reduce_tok L r j (t ! j) else t ! j)"
  unfolding reduce_row_def by (subst fold_update; auto)+

text \<open>What one entry of the working sets does to the entry of a token.\<close>

definition reduce_by :: "levels \<Rightarrow> int list \<Rightarrow> nat \<Rightarrow> wset \<Rightarrow> int \<Rightarrow> int" where
  "reduce_by L m k v a =
    (if m ! wpitem v \<le> 0 \<and> BIT (wlset v) k then reduce_tok L (nat (- (m ! wpitem v))) k a else a)"

lemma reductions_nth:
  "length (reductions L m W t) = length t"
  "0 < k \<Longrightarrow> k < length t \<Longrightarrow> reductions L m W t ! k = fold (reduce_by L m k) W (t ! k)"
  by (induction W arbitrary: t) (simp_all add: reduce_row_nth reduce_by_def)

text \<open>The rules that reduce on a token.\<close>

definition redset :: "int list \<Rightarrow> wset list \<Rightarrow> nat \<Rightarrow> nat set" where
  "redset m W k = {nat (- (m ! wpitem v)) | v. v \<in> set W \<and> m ! wpitem v \<le> 0 \<and> BIT (wlset v) k}"

lemma redset_Cons:
  "redset m (v # W) k = (if m ! wpitem v \<le> 0 \<and> BIT (wlset v) k then {nat (- (m ! wpitem v))} else {}) \<union> redset m W k"
  by (auto simp: redset_def)

lemma reductions_none: "redset m W k = {} \<Longrightarrow> fold (reduce_by L m k) W a = a"
  by (induction W arbitrary: a) (auto simp: redset_Cons reduce_by_def split: if_splits)

lemma precftn_cases: "precftn lp lt r a \<in> {a, - int r, ERRCODE}"
  by (simp add: precftn_def Let_def)

lemma reduce_tok_cases: "reduce_tok L r k a \<in> {a, - int r, ERRCODE}"
  using precftn_cases by (auto simp: reduce_tok_def)

text \<open>An entry is what it was, an error, or one of the reductions.\<close>

lemma reductions_cases:
  "fold (reduce_by L m k) W a \<in> {a, ERRCODE} \<union> (\<lambda>r. - int r) ` redset m W k"
proof (induction W arbitrary: a)
  case (Cons v W)
  from Cons [of "reduce_by L m k v a"] show ?case
    using reduce_tok_cases [of L "nat (- (m ! wpitem v))" k a]
    by (auto simp: redset_Cons reduce_by_def split: if_splits)
qed simp

text \<open>Without a shift the smallest rule wins.\<close>

lemma reductions_min:
  assumes "0 \<notin> redset m W k" "a \<le> 0" "a < 0 \<or> redset m W k \<noteq> {}"
  shows "fold (reduce_by L m k) W a = - int (Min (redset m W k \<union> (if a < 0 then {nat (- a)} else {})))"
  using assms
proof (induction W arbitrary: a)
  case Nil
  then show ?case by (simp add: redset_def)
next
  case (Cons v W)
  let ?r = "nat (- (m ! wpitem v))"
  have fin: "finite (redset m W k)" for W by (simp add: redset_def)
  have no: "0 \<notin> redset m W k" using Cons.prems(1) by (auto simp: redset_Cons split: if_splits)
  show ?case
  proof (cases "m ! wpitem v \<le> 0 \<and> BIT (wlset v) k")
    case False
    then have "redset m (v # W) k = redset m W k" by (auto simp: redset_Cons)
    with Cons.IH [OF no Cons.prems(2)] Cons.prems(3) False show ?thesis by (auto simp: reduce_by_def)
  next
    case True
    then have s: "redset m (v # W) k = insert ?r (redset m W k)" by (simp add: redset_Cons)
    have r0: "0 < ?r" using Cons.prems(1) s by auto
    define b where "b = reduce_by L m k v a"
    have b: "b = - int (if a < 0 then min ?r (nat (- a)) else ?r)" using True Cons.prems(2) r0
      by (auto simp: b_def reduce_by_def reduce_tok_def min_def)
    have b0: "b < 0" using b r0 by auto
    have "fold (reduce_by L m k) W b = - int (Min (insert (nat (- b)) (redset m W k)))"
      using Cons.IH [OF no, of b] b0 by simp
    moreover have "Min (insert (nat (- b)) (redset m W k)) =
        Min (redset m (v # W) k \<union> (if a < 0 then {nat (- a)} else {}))"
      using fin [of W] r0 unfolding b s by (cases "redset m W k = {}") (auto simp: min_def)
    ultimately show ?thesis by (simp add: b_def)
  qed
qed

text \<open>Without a conflict at most one rule reduces on a token, and none on a token with a shift.\<close>

lemma filter_none_upt:
  assumes "filter P ks = []" "k \<in> set ks"
  shows "\<not> P k"
  using assms by (auto simp: filter_empty_conv)

lemma no_conflicts:
  assumes "conflicts L m W t = (0, 0)" "\<forall>k. PLEVEL (toklev L k) = 0" "0 \<notin> redset m W k" "0 < k" "k < length t"
  shows "redset m W k = {} \<or> t ! k = 0 \<and> (\<exists>r. redset m W k = {r})"
  using assms
proof (induction W arbitrary: t)
  case Nil
  then show ?case by (simp add: redset_def)
next
  case (Cons v W)
  let ?r = "nat (- (m ! wpitem v))"
  have no: "0 \<notin> redset m W k" using Cons.prems(3) by (auto simp: redset_Cons split: if_splits)
  show ?case
  proof (cases "m ! wpitem v \<le> 0")
    case False
    then show ?thesis using Cons.IH [OF _ Cons.prems(2) no Cons.prems(4,5)] Cons.prems(1) by (simp add: redset_Cons)
  next
    case True
    let ?t = "reduce_row L (wlset v) ?r t"
    have c: "conflicts L m W ?t = (0, 0)"
      and s: "filter (\<lambda>k. sr_conflict L ?r k (t ! k)) (filter (BIT (wlset v)) [1..<length t]) = []"
      and q: "filter (\<lambda>k. rr_conflict (t ! k)) (filter (BIT (wlset v)) [1..<length t]) = []"
      using Cons.prems(1) True by (simp_all add: Let_def prod_eq_iff)
    have k': "k < length ?t" using Cons.prems(5) by (simp add: reduce_row_nth)
    note IH = Cons.IH [OF c Cons.prems(2) no Cons.prems(4) k']
    show ?thesis
    proof (cases "BIT (wlset v) k")
      case False
      then show ?thesis using IH Cons.prems(4,5) by (simp add: redset_Cons reduce_row_nth)
    next
      case b: True
      then have kin: "k \<in> set (filter (BIT (wlset v)) [1..<length t])" using Cons.prems(4,5) by simp
      have "t ! k = 0"
        using filter_none_upt [OF s kin] filter_none_upt [OF q kin] Cons.prems(2)
        by (auto simp: sr_conflict_def rr_conflict_def)
      moreover have "?r \<noteq> 0" using Cons.prems(3) True b by (auto simp: redset_Cons)
      ultimately have "?t ! k \<noteq> 0" using b Cons.prems(4,5) by (simp add: reduce_row_nth reduce_tok_def)
      then have "redset m W k = {}" using IH by blast
      then show ?thesis using True b \<open>t ! k = 0\<close> by (simp add: redset_Cons)
    qed
  qed
qed

subsection \<open>The default reduction\<close>

lemma default_red_cases:
  "default_red t = 0 \<or> (\<exists>k. 0 < k \<and> k < length t \<and> t ! k < 0 \<and> default_red t = - (t ! k))"
proof -
  let ?f = "\<lambda>j (lr, n). let a = t ! j in
      if 0 \<le> a \<or> a + lr = 0 then (lr, n)
      else let c = length (filter (\<lambda>p. t ! p = a) [1..<length t]) in
        if n < c then (- a, c) else (lr, n)"
  have "fst (fold ?f ks z) = fst z \<or> (\<exists>k \<in> set ks. t ! k < 0 \<and> fst (fold ?f ks z) = - (t ! k))" for ks z
  proof (induction ks arbitrary: z)
    case (Cons k ks)
    have "fst (?f k z) = fst z \<or> t ! k < 0 \<and> fst (?f k z) = - (t ! k)"
      by (auto simp: Let_def split: prod.splits)
    with Cons [of "?f k z"] show ?case by auto
  qed simp
  from this [of "[1..<length t]" "(0, 0)"] show ?thesis by (auto simp: default_red_def)
qed

subsection \<open>Rows and exceptions\<close>

definition flat :: "(int \<times> int) list \<Rightarrow> int list" where
  "flat ps = concat (map (\<lambda>(a, b). [a, b]) ps)"

lemma flat_simps [simp]:
  "flat [] = []" "flat ((a, b) # ps) = a # b # flat ps" "flat (ps @ qs) = flat ps @ flat qs"
  by (simp_all add: flat_def)

lemma length_flat [simp]: "length (flat ps) = 2 * length ps"
  by (induction ps) auto

definition is_exc :: "int \<Rightarrow> bool" where
  "is_exc a \<longleftrightarrow> exc_value a \<noteq> None"

definition shift_row :: "(nat \<Rightarrow> nat) \<Rightarrow> int list \<Rightarrow> nat list \<Rightarrow> prow" where
  "shift_row vals t ks = map (\<lambda>k. (vals k, t ! k)) (filter (\<lambda>k. t ! k \<noteq> 0 \<and> \<not> is_exc (t ! k)) ks)"

definition exc_row :: "(nat \<Rightarrow> nat) \<Rightarrow> int list \<Rightarrow> nat list \<Rightarrow> (int \<times> int) list" where
  "exc_row vals t ks = map (\<lambda>k. (int (vals k), the (exc_value (t ! k)))) (filter (\<lambda>k. t ! k \<noteq> 0 \<and> is_exc (t ! k)) ks)"

lemma emit_spec:
  "emit vals i t ks flag row ex = Ret (flag', row', ex') \<Longrightarrow>
    row' = row @ shift_row vals t ks \<and> flag' = (flag \<or> exc_row vals t ks \<noteq> []) \<and>
    ex' = ex @ flat ((if \<not> flag \<and> exc_row vals t ks \<noteq> [] then [(- 1, int i)] else []) @ exc_row vals t ks)"
proof (induction ks arbitrary: flag row ex)
  case Nil
  then show ?case by (simp add: shift_row_def exc_row_def)
next
  case (Cons k ks)
  show ?case
  proof (cases "t ! k = 0 \<or> \<not> is_exc (t ! k)")
    case True
    then consider "t ! k = 0" | "t ! k \<noteq> 0" "exc_value (t ! k) = None" by (auto simp: is_exc_def)
    then show ?thesis
    proof cases
      case 1
      then show ?thesis using Cons.IH [of flag row ex] Cons.prems by (simp add: shift_row_def exc_row_def)
    next
      case 2
      then show ?thesis using Cons.IH [of flag "row @ [(vals k, t ! k)]" ex] Cons.prems
        by (simp add: shift_row_def exc_row_def is_exc_def)
    qed
  next
    case False
    then obtain p where p: "t ! k \<noteq> 0" "exc_value (t ! k) = Some p" by (auto simp: is_exc_def)
    let ?ex = "(if flag then ex else ex @ [- 1, int i]) @ [int (vals k), p]"
    have "emit vals i t ks True row ?ex = Ret (flag', row', ex')"
      using Cons.prems p by (auto simp: exca_put_def split: if_splits)
    from Cons.IH [OF this] p show ?thesis
      by (auto simp: shift_row_def exc_row_def is_exc_def)
  qed
qed

text \<open>The row with the default reduction taken out, and what \<open>wract\<close> writes.\<close>

definition def_of :: "int list \<Rightarrow> int" where
  "def_of t = (if 0 < t ! 1 then 0 else default_red t)"

definition clear_row :: "int list \<Rightarrow> int list" where
  "clear_row t = t ! 0 # map (\<lambda>a. if a + def_of t = 0 then 0 else a) (tl t)"

abbreviation out_row :: "(nat \<Rightarrow> nat) \<Rightarrow> int list \<Rightarrow> prow" where
  "out_row vals t \<equiv> shift_row vals (clear_row t) [1..<length t]"

abbreviation out_exc :: "(nat \<Rightarrow> nat) \<Rightarrow> int list \<Rightarrow> (int \<times> int) list" where
  "out_exc vals t \<equiv> exc_row vals (clear_row t) [1..<length t]"

definition out_seg :: "(nat \<Rightarrow> nat) \<Rightarrow> nat \<Rightarrow> int list \<Rightarrow> (int \<times> int) list" where
  "out_seg vals i t =
    (if out_exc vals t = [] then [] else (- 1, int i) # out_exc vals t @ [(- 2, def_of t)])"

definition out_def :: "(nat \<Rightarrow> nat) \<Rightarrow> int list \<Rightarrow> int" where
  "out_def vals t = (if out_exc vals t = [] then def_of t else - 2)"

lemma bindr_Ret: "bindr x f = Ret y \<longleftrightarrow> (\<exists>a. x = Ret a \<and> f a = Ret y)"
  by (cases x) auto

lemma length_clear_row: "t \<noteq> [] \<Longrightarrow> length (clear_row t) = length t"
  by (cases t) (simp_all add: clear_row_def)

lemma wract_eq:
  "wract vals i t z =
    bindr (emit vals i (clear_row t) [1..<length (clear_row t)] False [] (exca z)) (\<lambda>(flag, row, ex).
      if flag then bindr (exca_put (- 2) (def_of t) ex) (\<lambda>ex.
        Ret (z\<lparr>orows := orows z @ [row], exca := ex, defact := defact z @ [- 2]\<rparr>))
      else Ret (z\<lparr>orows := orows z @ [row], exca := ex, defact := defact z @ [def_of t]\<rparr>))"
  unfolding wract_def clear_row_def def_of_def Let_def ..

lemma wract_spec:
  assumes "wract vals i t z = Ret z'" "t \<noteq> []"
  shows "orows z' = orows z @ [out_row vals t] \<and> exca z' = exca z @ flat (out_seg vals i t) \<and>
    defact z' = defact z @ [out_def vals t] \<and> zzconf z' = zzconf z"
proof -
  note len = length_clear_row [OF assms(2)]
  from assms(1) obtain flag row ex where e: "emit vals i (clear_row t) [1..<length t] False [] (exca z) = Ret (flag, row, ex)"
    "(if flag then bindr (exca_put (- 2) (def_of t) ex) (\<lambda>ex.
         Ret (z\<lparr>orows := orows z @ [row], exca := ex, defact := defact z @ [- 2]\<rparr>))
       else Ret (z\<lparr>orows := orows z @ [row], exca := ex, defact := defact z @ [def_of t]\<rparr>)) = Ret z'"
    unfolding wract_eq len bindr_Ret by auto
  from emit_spec [OF e(1)] e(2) show ?thesis
    by (auto simp: out_seg_def out_def_def exca_put_def bindr_Ret split: if_splits)
qed

subsection \<open>The exception table\<close>

lemma exca_find_flat:
  "(- 1, st) \<notin> set us \<Longrightarrow> exca_find (flat (zs @ us @ (- 1, st) # vs)) (2 * length zs) st = Some (2 * length (zs @ us))"
proof (induction us arbitrary: zs)
  case Nil
  show ?case by (subst exca_find.simps) (simp add: nth_append)
next
  case (Cons u us)
  obtain a b where u: "u = (a, b)" by (cases u)
  have ne: "\<not> (a = - 1 \<and> b = st)" using Cons.prems u by auto
  have "exca_find (flat (zs @ (u # us) @ (- 1, st) # vs)) (2 * length zs) st =
      exca_find (flat ((zs @ [u]) @ us @ (- 1, st) # vs)) (2 * length (zs @ [u])) st"
    using ne by (subst exca_find.simps) (auto simp: u nth_append)
  also have "\<dots> = Some (2 * length ((zs @ [u]) @ us))" by (rule Cons.IH) (use Cons.prems in simp)
  finally show ?case by simp
qed

lemma exca_value_flat:
  "\<forall>(x, y) \<in> set us. 0 \<le> x \<and> x \<noteq> tok \<Longrightarrow> a = tok \<or> a < 0 \<Longrightarrow>
    exca_value (flat (zs @ us @ (a, b) # vs)) (2 * length zs) tok = Some b"
proof (induction us arbitrary: zs)
  case Nil
  then show ?case by (subst exca_value.simps) (auto simp: nth_append)
next
  case (Cons u us)
  obtain x y where u: "u = (x, y)" by (cases u)
  have "exca_value (flat (zs @ (u # us) @ (a, b) # vs)) (2 * length zs) tok =
      exca_value (flat ((zs @ [u]) @ us @ (a, b) # vs)) (2 * length (zs @ [u])) tok"
    using Cons.prems(1) by (subst exca_value.simps) (simp add: u nth_append)
  also have "\<dots> = Some b" by (rule Cons.IH) (use Cons.prems in simp_all)
  finally show ?case by simp
qed

lemma map_of_split: "map_of es k = Some p \<Longrightarrow> \<exists>us ws. es = us @ (k, p) # ws \<and> k \<notin> fst ` set us"
proof (induction es)
  case (Cons e es)
  show ?case
  proof (cases "fst e = k")
    case True
    then have "e # es = [] @ (k, p) # es" using Cons.prems by (cases e) simp
    then show ?thesis by (metis empty_iff image_empty list.set(1))
  next
    case False
    then have "map_of es k = Some p" using Cons.prems by (cases e) auto
    with Cons.IH obtain us ws where "es = us @ (k, p) # ws" "k \<notin> fst ` set us" by blast
    then have "e # es = (e # us) @ (k, p) # ws \<and> k \<notin> fst ` set (e # us)" using False by simp
    then show ?thesis by blast
  qed
qed simp

lemma exca_value_map_of:
  assumes "\<forall>(x, y) \<in> set es. 0 \<le> x"
  shows "exca_value (flat (zs @ es @ (- 2, d) # vs)) (2 * length zs) tok =
    Some (case map_of es tok of Some p \<Rightarrow> p | None \<Rightarrow> d)"
proof (cases "map_of es tok")
  case None
  then have "\<forall>(x, y) \<in> set es. 0 \<le> x \<and> x \<noteq> tok" using assms by (force simp: map_of_eq_None_iff)
  from exca_value_flat [OF this, of "- 2"] None show ?thesis by simp
next
  case (Some p)
  then obtain us ws where es: "es = us @ (tok, p) # ws" "tok \<notin> fst ` set us"
    using map_of_split [OF Some] by blast
  have "\<forall>(x, y) \<in> set us. 0 \<le> x \<and> x \<noteq> tok" using assms es by force
  from exca_value_flat [OF this, of tok zs p "ws @ (- 2, d) # vs"] Some es(1) show ?thesis by simp
qed

subsection \<open>What the parser reads\<close>

text \<open>The action an entry of the row stands for, when \<open>lr\<close> is the default.\<close>

definition act_of :: "int \<Rightarrow> int \<Rightarrow> act" where
  "act_of a lr =
    (if a = 0 \<or> a = - lr then (if lr = 0 then Error else Reduce (nat lr))
     else if a < 0 then Reduce (nat (- a))
     else if a = ACCEPTCODE then Accept
     else if a = ERRCODE then Error
     else Shift a)"

lemma map_of_filter:
  assumes "inj_on f (insert k (set ks))"
  shows "map_of (map (\<lambda>k. (f k, g k)) (filter Q ks)) (f k) = (if k \<in> set ks \<and> Q k then Some (g k) else None)"
  using assms
proof (induction ks)
  case (Cons x ks)
  have "inj_on f (insert k (set ks))" using Cons.prems by (rule inj_on_subset) auto
  note IH = Cons.IH [OF this]
  show ?case
  proof (cases "x = k")
    case False
    then have "f x \<noteq> f k" using Cons.prems by (auto simp: inj_on_def)
    then show ?thesis using IH False by auto
  qed (use IH in auto)
qed simp

lemma def_of_ge: "0 \<le> def_of t"
  using default_red_cases [of t] by (auto simp: def_of_def)

lemma clear_row_nth:
  assumes "0 < k" "k < length t"
  shows "clear_row t ! k = (if t ! k + def_of t = 0 then 0 else t ! k)"
  using assms by (cases t) (simp_all add: clear_row_def nth_Cons')

lemma exc_row_fst: "(x, y) \<in> set (exc_row vals t ks) \<Longrightarrow> 0 \<le> x"
  by (auto simp: exc_row_def)

lemma out_seg_start: "(- 1, j) \<in> set (out_seg vals i t) \<Longrightarrow> j = int i"
  by (auto simp: out_seg_def dest: exc_row_fst split: if_splits)

text \<open>The rows of all states, as \<open>output\<close> leaves them.\<close>

definition rows_written :: "(nat \<Rightarrow> nat) \<Rightarrow> int list list \<Rightarrow> outtabs \<Rightarrow> bool" where
  "rows_written vals ts z \<longleftrightarrow> orows z = map (out_row vals) ts \<and>
    exca z = flat (concat (map (\<lambda>i. out_seg vals i (ts ! i)) [0..<length ts])) \<and>
    defact z = map (out_def vals) ts"

lemma default_act_row:
  assumes P: "pexca P = exca z" "pdef P = defact z" and z: "rows_written vals ts z"
    and i: "i < length ts" and k: "0 < k" "k < length (ts ! i)"
    and inj: "inj_on vals {1..<length (ts ! i)}"
  shows "(case map_of (orows z ! i) (vals k) of Some w \<Rightarrow> Some (Shift w) | None \<Rightarrow> default_act P i (vals k)) =
    Some (act_of (ts ! i ! k) (def_of (ts ! i)))"
proof -
  let ?t = "ts ! i" and ?es = "out_exc vals (ts ! i)" and ?seg = "\<lambda>i. out_seg vals i (ts ! i)"
  let ?a = "clear_row ?t ! k" and ?lr = "def_of ?t"
  have ks: "insert k (set [1..<length ?t]) = {1..<length ?t}" using k by auto
  have ivi: "inj_on (\<lambda>k. int (vals k)) {1..<length ?t}" using inj by (simp add: inj_on_def)
  have kin: "k \<in> set [1..<length ?t]" using k by simp
  have "orows z ! i = out_row vals ?t" using z i by (simp add: rows_written_def)
  then have row: "map_of (orows z ! i) (vals k) = (if ?a \<noteq> 0 \<and> \<not> is_exc ?a then Some ?a else None)"
    unfolding shift_row_def by (simp only:) (subst map_of_filter; use inj ks kin in simp)
  have es: "map_of ?es (int (vals k)) = (if ?a \<noteq> 0 \<and> is_exc ?a then Some (the (exc_value ?a)) else None)"
    unfolding exc_row_def by (subst map_of_filter [where f = "\<lambda>k. int (vals k)"]; use ivi ks kin in simp)
  have def_act: "default_act P i (vals k) =
      Some (let n = (case map_of ?es (int (vals k)) of Some p \<Rightarrow> p | None \<Rightarrow> ?lr) in
        if n < 0 then Accept else if n = 0 then Error else Reduce (nat n))"
  proof (cases "?es = []")
    case True
    then have "ent (pdef P) i = Some ?lr" using P z i by (simp add: rows_written_def out_def_def)
    then show ?thesis using True def_of_ge [of ?t] by (simp add: default_act_def Let_def)
  next
    case False
    let ?us = "concat (map ?seg [0..<i])" and ?vs = "concat (map ?seg [Suc i..<length ts])"
    have "[0..<length ts] = [0..<i] @ i # [Suc i..<length ts]"
      using i by (metis upt_add_eq_append upt_conv_Cons le_add_diff_inverse less_imp_le zero_le)
    then have ex: "pexca P = flat (?us @ (- 1, int i) # (?es @ (- 2, ?lr) # ?vs))"
      using P z False by (simp add: rows_written_def out_seg_def)
    have "(- 1, int i) \<notin> set ?us" by (auto dest: out_seg_start)
    from exca_find_flat [OF this, of "[]" "?es @ (- 2, ?lr) # ?vs"]
    have f: "exca_find (pexca P) 0 (int i) = Some (2 * length ?us)" unfolding ex by simp
    have "exca_value (flat ((?us @ [(- 1, int i)]) @ ?es @ (- 2, ?lr) # ?vs)) (2 * length (?us @ [(- 1, int i)])) (int (vals k)) =
        Some (case map_of ?es (int (vals k)) of Some p \<Rightarrow> p | None \<Rightarrow> ?lr)"
      by (rule exca_value_map_of) (auto dest: exc_row_fst)
    then have v: "exca_value (pexca P) (2 * length ?us + 2) (int (vals k)) =
        Some (case map_of ?es (int (vals k)) of Some p \<Rightarrow> p | None \<Rightarrow> ?lr)"
      unfolding ex by simp
    have "ent (pdef P) i = Some (- 2)" using P z i False by (simp add: rows_written_def out_def_def)
    then show ?thesis using f v by (simp add: default_act_def Let_def)
  qed
  show ?thesis
    unfolding row def_act es using clear_row_nth [OF k] def_of_ge [of ?t]
    by (auto simp: act_of_def is_exc_def exc_value_def Let_def)
qed

end
