(* ===== verification/Ytab.thy ===== *)
theory Ytab
  imports Ycoll Yrow
begin

text \<open>
  The tables of the states: every state of the automaton gets a row that says, for each token,
  the shift to the state with the items moved on, or what the reductions on the token make of it.
\<close>

subsection \<open>Finished automata\<close>

definition finished :: "rule list \<Rightarrow> tables \<Rightarrow> nat \<Rightarrow> wstate \<Rightarrow> automaton \<Rightarrow> bool" where
  "finished R T ntk w A \<longleftrightarrow> linv R T ntk w A \<and> MUSTDO \<notin> set (styp A)"

lemma finishedD:
  assumes "finished R T ntk w A"
  shows "linv R T ntk w A" "MUSTDO \<notin> set (styp A)" "ainv R T ntk A" "kernels_ok R T A" "sized A" "chains_ok (tgram T) ntk A"
    "i < length (kern A) \<Longrightarrow> lr_state (tgram T) (kset A i)" "i < length (kern A) \<Longrightarrow> worked R T A i"
  using assms all_states_lr linv_worked by (auto simp: finished_def linv_def ainv_def)

lemma finished_state:
  assumes "finished R T ntk w A" "lr_state (tgram T) P"
  obtains j where "j < length (kern A)" "kset A j = P"
  using all_states_found [OF finishedD(1,2) [OF assms(1)] assms(2)] by blast

subsection \<open>Symbols with a goto\<close>

lemma goto_sym:
  assumes T: "tables_ok st nn tb lsz rs T" and toks: "mem_toks ntk (tgram T)"
    and p: "item_ok T p" "gmem (tgram T) ! p = c" and c: "1 < c"
  shows "is_token c \<or> is_nonterm nn c" "sym_range (nnonter (tgram T)) ntk c"
    "\<not> entry_sym (tgram T) {Suc (prdptr (tgram T) ! 0)} c"
proof -
  note t = tables_okD [OF T]
  show sym: "is_token c \<or> is_nonterm nn c" using item_ok_Suc(2) [OF p(1)] p(2) c t(4) by simp
  have "c \<in> set (gmem (tgram T))" using item_ok_lt [OF p(1)] p(2) by auto
  then show "sym_range (nnonter (tgram T)) ntk c"
    using sym toks t(4) by (auto simp: sym_range_def mem_toks_def is_token_def is_nonterm_def)
  show "\<not> entry_sym (tgram T) {Suc (prdptr (tgram T) ! 0)} c"
    using sym t(3) by (auto simp: entry_sym_def setup_rules_def is_token_def is_nonterm_def)
qed

lemma nolook_state_ok:
  assumes T: "tables_ok st nn tb lsz rs T" and toks: "mem_toks ntk (tgram T)"
    and f: "finished R T ntk w A" and i: "i < length (kern A)"
    and ps: "distinct ps" "set ps = gotoset (tgram T) (kset A i) c" "ps \<noteq> []" and c: "1 < c"
  shows "\<exists>j. nolook_state c ps A = Some j \<and> j < length (kern A) \<and> j \<noteq> 0 \<and> kset A j = gotoset (tgram T) (kset A i) c"
proof -
  let ?K = "map (\<lambda>p. \<lparr> pitem = p, look = 0 \<rparr>) ps"
  let ?K' = "sort_items (length ?K) ?K"
  note fd = finishedD [OF f]
  note s = sort_items_spec [of ?K]
  have P: "pitem ` set ?K' = gotoset (tgram T) (kset A i) c" unfolding s(3) by (simp add: image_image ps(2))
  have "mset (map pitem ?K') = mset (map pitem ?K)" by (simp only: mset_map s(1))
  also have "map pitem ?K = ps" by (simp add: comp_def)
  finally have d: "distinct (map pitem ?K')" using ps(1) by (metis mset_eq_imp_distinct_iff)
  have ne: "?K' \<noteq> []" using s(3) ps(3) by (metis map_is_Nil_conv set_empty)
  have "gotoset (tgram T) (kset A i) c \<noteq> {}" using ps(2,3) by (metis set_empty)
  then obtain p where p: "lr_item (tgram T) (kset A i) p" "gmem (tgram T) ! p = c" by (auto simp: gotoset_def)
  have "item_ok T p" by (rule lr_item_ok [OF T lr_state_ok [OF T fd(7) [OF i]] p(1)])
  note sym = goto_sym [OF T toks this p(2) c]
  have es: "entry_sym (tgram T) (pitem ` set ?K') c" unfolding P using gotoset_sym by (auto simp: entry_sym_def)
  obtain h where h: "chain_head A c = Some h"
    "find_state (kern A) (mstates A) (map pitem ?K') h = Some 0 \<Longrightarrow> \<forall>i < length (kern A). kset A i \<noteq> pitem ` set ?K'"
    "\<And>i. find_state (kern A) (mstates A) (map pitem ?K') h = Some i \<Longrightarrow> i \<noteq> 0 \<Longrightarrow> i < length (kern A) \<and> pits A i = map pitem ?K'"
    "find_state (kern A) (mstates A) (map pitem ?K') h \<noteq> None"
    using find_items [OF fd(3) s(2) ne d es sym(2,3)] by blast
  obtain j where j: "find_state (kern A) (mstates A) (map pitem ?K') h = Some j" using h(4) by blast
  have "lr_state (tgram T) (gotoset (tgram T) (kset A i) c)"
    using lr_state.move [OF fd(7) [OF i] c] ps(2,3) by (metis set_empty)
  then obtain j' where "j' < length (kern A)" "kset A j' = gotoset (tgram T) (kset A i) c" by (rule finished_state [OF f])
  then have "j \<noteq> 0" using h(2) j P by auto
  with h(3) [OF j] h(1) j P ps(3) show ?thesis by (auto simp: nolook_state_def Let_def)
qed

subsection \<open>The closure once more\<close>

lemma kernel_look_at:
  assumes T: "tables_ok st nn tb lsz rs T" and f: "finished R T ntk w A" and i: "i < length (kern A)" and q: "q \<in> kset A i"
  shows "looks_of R T A i q = look_at A i q"
proof -
  let ?K = "set (kernel_of (tabs_at T (slk A)) (kern A ! i))"
  have fK: "fst ` ?K = kset A i" by (simp add: fst_kernel_of pits_def)
  have no: "q \<notin> set (pres_row (tgram T) (ntix (gmem (tgram T) ! p)))"
    if "lr_item (tgram T) (kset A i) p" "NTBASE \<le> gmem (tgram T) ! p" for p
    by (rule kernel_not_entered [OF T finishedD(7) [OF f i] q that])
  have look_item: "lr_look R (tgram T) K p t \<Longrightarrow> lr_item (tgram T) (fst ` K) p" for K p t
    by (induction rule: lr_look.induct) (force intro: lr_item.intros)+
  have "t \<in> look_at A i q" if "lr_look R (tgram T) ?K q t" for t
    using that
  proof (cases rule: lr_look.cases)
    case (kernel L)
    then show ?thesis by (auto simp: kernel_of_def look_at_def)
  next
    case (first p)
    then show ?thesis using no unfolding fK by blast
  next
    case (pass p)
    then show ?thesis using no look_item [OF pass(1)] unfolding fK by blast
  qed
  moreover have "lr_look R (tgram T) ?K q t" if "t \<in> look_at A i q" for t
  proof -
    from that obtain k where k: "k \<in> set (kern A ! i)" "pitem k = q" "t \<in> members (slk A ! look k)"
      by (auto simp: look_at_def)
    then have "(q, members (slk A ! look k)) \<in> ?K" by (force simp: kernel_of_def)
    then show ?thesis using k(3) by (rule lr_look.kernel)
  qed
  ultimately show ?thesis by (auto simp: looks_of_def)
qed

definition ready_sets :: "tables \<Rightarrow> wstate \<Rightarrow> wstate \<Rightarrow> bool" where
  "ready_sets T w0 w \<longleftrightarrow> sets_sized T w \<and> wsetsz w0 \<le> wsetsz w"

text \<open>The entries \<open>actions\<close> works on: the lookaheads that count are there in both modes.\<close>

definition entries_at :: "rule list \<Rightarrow> tables \<Rightarrow> automaton \<Rightarrow> nat \<Rightarrow> wset list \<Rightarrow> bool" where
  "entries_at R T A i W \<longleftrightarrow> distinct (map wpitem W) \<and> set (map wpitem W) = {p. lr_item (tgram T) (kset A i) p} \<and>
    (\<forall>v \<in> set W. length (wlset v) = tbitset (tgram T) \<and>
      (gmem (tgram T) ! wpitem v \<le> 0 \<longrightarrow> members (wlset v) = looks_of R T A i (wpitem v)))"

lemma closure_entries:
  assumes T: "tables_ok st nn tb lsz rs T" and f: "finished (all_rules st rs) T ntk w0 A"
    and w0: "sets_suffice T w0" and i: "i < length (kern A)" and w: "ready_sets T w0 w"
  shows "\<exists>w'. closure (tabs_at T (slk A)) (styp A ! i \<noteq> MUSTLOOKAHEAD) (kern A ! i) w = Some w' \<and>
    entries_at (all_rules st rs) T A i (wused w') \<and> ready_sets T w0 w'"
proof -
  let ?T = "tabs_at T (slk A)" and ?K = "kern A ! i" and ?R = "all_rules st rs" and ?nl = "styp A ! i \<noteq> MUSTLOOKAHEAD"
  note fd = finishedD [OF f]
  note kd = kernels_okD [OF fd(4) i]
  have T': "tables_ok st nn tb lsz rs ?T" by (rule tables_ok_at [OF T ainvD(2) [OF fd(3)]])
  have "wstate_ok T (length ?K) w0"
    using w0 kd(4) by (auto simp: sets_suffice_def simp flip: kset_card [OF fd(3) i])
  then have ws: "wstate_ok ?T (length ?K) w"
    using w by (auto simp: wstate_ok_def ready_sets_def sets_sized_def roomy_def)
  have P: "pitem ` set ?K = kset A i" by (simp add: pits_def)
  obtain w' where w': "closure ?T ?nl ?K w = Some w'" "winv ?R ?T ?nl (kernel_of ?T ?K) w'"
    "wclosed ?R ?T ?nl (wused w')" "\<forall>v \<in> set (wused w'). \<not> wflag v"
    using closure_total [OF T' kd(3) ws, of ?nl] by blast
  have items: "set (map wpitem (wused w')) = {p. lr_item (tgram T) (kset A i) p}"
    using closed_items [OF w'(2-4)] unfolding fst_kernel_of P by simp
  have dist: "distinct (map wpitem (wused w'))" using w'(2) by (simp add: winv_def)
  have looks: "members (wlset v) = looks_of ?R T A i (wpitem v)"
    if v: "v \<in> set (wused w')" "gmem (tgram T) ! wpitem v \<le> 0" for v
  proof (cases ?nl)
    case False
    then have "winv ?R ?T False (kernel_of ?T ?K) w'" "wclosed ?R ?T False (wused w')" using w'(2,3) by simp_all
    from closed_looks [OF this w'(4) v(1)] show ?thesis by (simp add: looks_of_def)
  next
    case True
    have "\<not> eps_item (tgram T) (kset A i)" using fd(8) [OF i] True by (simp add: worked_def)
    moreover have "lr_item (tgram T) (kset A i) (wpitem v)" using items v(1) by auto
    ultimately have q: "wpitem v \<in> kset A i" using v(2) by (auto simp: eps_item_def)
    then obtain k where k: "k < length ?K" "wpitem v = pitem (?K ! k)" by (auto simp: pits_def in_set_conv_nth)
    have ko: "kernel_ok True (kernel_of ?T ?K) (wused w')" using w'(2) True by (simp add: winv_def)
    then have kw: "k < length (wused w')" "wpitem (wused w' ! k) = pitem (?K ! k)"
      "members (wlset (wused w' ! k)) = members (slk A ! look (?K ! k))"
      using k(1) by (simp_all add: kernel_ok_def kernel_of_def)
    obtain n where n: "n < length (wused w')" "v = wused w' ! n" using v(1) by (auto simp: in_set_conv_nth)
    have "n = k" using nth_eq_iff_index_eq [OF dist, of n k] n kw(1,2) k(2) by simp
    moreover have "look_at A i (pitem (?K ! k)) = members (slk A ! look (?K ! k))"
    proof -
      have "x = ?K ! k" if "x \<in> set ?K" "pitem x = pitem (?K ! k)" for x
        using kd(3) k(1) that by (auto simp: kernel_items_def distinct_map inj_on_def)
      then have "{x \<in> set ?K. pitem x = pitem (?K ! k)} = {?K ! k}" using k(1) by auto
      then show ?thesis by (simp add: look_at_def)
    qed
    ultimately show ?thesis using kernel_look_at [OF T f i q] n kw(3) k(2) by simp
  qed
  have "length (wlset v) = tbitset (tgram T)" if "v \<in> set (wused w')" for v
    using w'(2) that by (simp add: winv_def entry_ok_def)
  then have "entries_at ?R T A i (wused w')" using items dist looks by (simp add: entries_at_def)
  moreover have "ready_sets T w0 w'"
    using w'(2) wsetsz_closure [OF w'(1)] w by (auto simp: ready_sets_def sets_sized_def winv_def entry_ok_def)
  ultimately show ?thesis using w'(1) by blast
qed

subsection \<open>Shifts\<close>

definition shift_ok :: "tables \<Rightarrow> automaton \<Rightarrow> nat \<Rightarrow> nat \<Rightarrow> int \<Rightarrow> bool" where
  "shift_ok T A i k a \<longleftrightarrow>
    (if k = 1 \<or> gotoset (tgram T) (kset A i) (int k) = {} then a = 0
     else \<exists>j < length (kern A). j \<noteq> 0 \<and> kset A j = gotoset (tgram T) (kset A i) (int k) \<and> a = int j)"

lemma entries_gotoset:
  assumes "entries_at R T A i W"
  shows "gotoset (tgram T) (kset A i) c = (\<lambda>v. Suc (wpitem v)) ` {v \<in> set W. gmem (tgram T) ! wpitem v = c}"
proof -
  have *: "lr_item (tgram T) (kset A i) p \<longleftrightarrow> p \<in> wpitem ` set W" for p
    using assms by (auto simp: entries_at_def)
  show ?thesis unfolding gotoset_def * by auto
qed

text \<open>The tokens whose entries have been seen.\<close>

definition shifts_upto :: "tables \<Rightarrow> automaton \<Rightarrow> nat \<Rightarrow> nat \<Rightarrow> wset list \<Rightarrow> int list \<Rightarrow> bool" where
  "shifts_upto T A i ntk pre t \<longleftrightarrow> length t = ntk + 1 \<and>
    (\<forall>k. 0 < k \<and> k \<le> ntk \<longrightarrow>
      (if int k \<in> (\<lambda>v. gmem (tgram T) ! wpitem v) ` set pre then shift_ok T A i k (t ! k) else t ! k = 0))"

lemma shifts_upto_add:
  assumes "shifts_upto T A i ntk pre t"
    and "\<And>k. 0 < k \<Longrightarrow> k \<le> ntk \<Longrightarrow> int k = gmem (tgram T) ! wpitem v \<Longrightarrow> shift_ok T A i k (t' ! k)"
    and "\<And>k. 0 < k \<Longrightarrow> k \<le> ntk \<Longrightarrow> int k \<noteq> gmem (tgram T) ! wpitem v \<Longrightarrow> t' ! k = t ! k" "length t' = length t"
  shows "shifts_upto T A i ntk (pre @ [v]) t'"
  unfolding shifts_upto_def
proof (intro conjI allI impI)
  show "length t' = ntk + 1" using assms(1,4) by (simp add: shifts_upto_def)
  fix k assume k: "0 < k \<and> k \<le> ntk"
  show "if int k \<in> (\<lambda>v. gmem (tgram T) ! wpitem v) ` set (pre @ [v]) then shift_ok T A i k (t' ! k) else t' ! k = 0"
  proof (cases "int k = gmem (tgram T) ! wpitem v")
    case True
    then show ?thesis using assms(2) k by simp
  next
    case False
    then have "(int k \<in> (\<lambda>v. gmem (tgram T) ! wpitem v) ` set (pre @ [v])) = (int k \<in> (\<lambda>v. gmem (tgram T) ! wpitem v) ` set pre)"
      by simp
    then show ?thesis using assms(1,3) k False by (simp add: shifts_upto_def)
  qed
qed

lemma shifts_upto_all:
  assumes "shifts_upto T A i ntk W t" "entries_at R T A i W" "0 < k" "k \<le> ntk"
  shows "shift_ok T A i k (t ! k)"
proof (cases "int k \<in> (\<lambda>v. gmem (tgram T) ! wpitem v) ` set W")
  case False
  then have "gotoset (tgram T) (kset A i) (int k) = {}" unfolding entries_gotoset [OF assms(2)] by (auto simp: image_iff)
  then show ?thesis using assms(1,3,4) False by (simp add: shifts_upto_def shift_ok_def)
qed (use assms in \<open>simp add: shifts_upto_def\<close>)

text \<open>The state looked up for the first entry with a token.\<close>

lemma nolook_entry:
  assumes T: "tables_ok st nn tb lsz rs T" and toks: "mem_toks ntk (tgram T)"
    and f: "finished R T ntk w A" and i: "i < length (kern A)" and W: "entries_at R T A i W"
    and v: "W = pre @ v # vs" "gmem (tgram T) ! wpitem v = int k" "1 < k" "int k \<notin> (\<lambda>v. gmem (tgram T) ! wpitem v) ` set pre"
  shows "\<exists>j. nolook_state (int k) (map (\<lambda>q. Suc (wpitem q)) (filter (\<lambda>q. gmem (tgram T) ! wpitem q = int k) (v # vs))) A = Some j \<and>
    shift_ok T A i k (int j)"
proof -
  let ?m = "gmem (tgram T)"
  let ?ps = "map (\<lambda>q. Suc (wpitem q)) (filter (\<lambda>q. ?m ! wpitem q = int k) (v # vs))"
  have "\<forall>x \<in> set pre. ?m ! wpitem x \<noteq> int k" using v(4) by (auto simp: image_iff)
  then have fW: "filter (\<lambda>q. ?m ! wpitem q = int k) (v # vs) = filter (\<lambda>q. ?m ! wpitem q = int k) W"
    unfolding v(1) by (simp add: filter_empty_conv)
  have "?ps = map Suc (filter (\<lambda>p. ?m ! p = int k) (map wpitem W))"
    unfolding fW by (simp add: filter_map comp_def)
  then have d: "distinct ?ps" using W by (simp add: distinct_map entries_at_def)
  have st: "set ?ps = gotoset (tgram T) (kset A i) (int k)" unfolding fW entries_gotoset [OF W] by simp
  have ne: "?ps \<noteq> []" using v(2) by simp
  have c: "1 < int k" using v(3) by simp
  from nolook_state_ok [OF T toks f i d st ne c] obtain j where j: "nolook_state (int k) ?ps A = Some j"
    "j < length (kern A)" "j \<noteq> 0" "kset A j = gotoset (tgram T) (kset A i) (int k)" by blast
  have "gotoset (tgram T) (kset A i) (int k) \<noteq> {}" using st ne by (metis set_empty)
  then show ?thesis using j v(3) by (auto simp: shift_ok_def)
qed

lemma shifts_ok:
  assumes T: "tables_ok st nn tb lsz rs T" and toks: "mem_toks ntk (tgram T)"
    and ntk: "int ntk < NTBASE"
    and f: "finished R T ntk w A" and i: "i < length (kern A)" and W: "entries_at R T A i W"
  shows "W = pre @ vs \<Longrightarrow> shifts_upto T A i ntk pre t \<Longrightarrow>
    \<exists>t'. shifts (gmem (tgram T)) A vs t = Some t' \<and> shifts_upto T A i ntk W t'"
proof (induction vs arbitrary: pre t)
  case (Cons v vs)
  let ?m = "gmem (tgram T)"
  let ?c = "?m ! wpitem v"
  have W': "W = (pre @ [v]) @ vs" and vW: "v \<in> set W" using Cons.prems(1) by simp_all
  have lr: "lr_item (tgram T) (kset A i) (wpitem v)" using W vW by (auto simp: entries_at_def)
  have ok: "item_ok T (wpitem v)" by (rule lr_item_ok [OF T lr_state_ok [OF T finishedD(7) [OF f i]] lr])
  have e: "ent ?m (wpitem v) = Some ?c" using item_ok_lt [OF ok] by simp
  have len: "length t = ntk + 1" using Cons.prems(2) by (simp add: shifts_upto_def)
  have old: "if int k \<in> (\<lambda>v. ?m ! wpitem v) ` set pre then shift_ok T A i k (t ! k) else t ! k = 0"
    if "0 < k" "k \<le> ntk" for k using Cons.prems(2) that by (simp add: shifts_upto_def)
  show ?case
  proof (cases "1 < ?c \<and> ?c < NTBASE")
    case False
    have "shift_ok T A i k (t ! k)" if k: "0 < k" "k \<le> ntk" "int k = ?c" for k
    proof -
      have "k = 1" using False k ntk by auto
      then show ?thesis using old [of k] k by (auto simp: shift_ok_def split: if_splits)
    qed
    then have "shifts_upto T A i ntk (pre @ [v]) t" by (intro shifts_upto_add [OF Cons.prems(2)]) simp_all
    from Cons.IH [OF W' this] e False show ?thesis by auto
  next
    case True
    define k where "k = nat ?c"
    have k: "int k = ?c" "1 < k" using True unfolding k_def by linarith+
    have "sym_range (nnonter (tgram T)) ntk ?c" using goto_sym(2) [OF T toks ok refl] True by simp
    then have kn: "k \<le> ntk" using True by (auto simp: sym_range_def k_def)
    have ek: "ent t k = Some (t ! k)" using len kn by simp
    have uniq: "x = k" if "int x = ?c" for x using that k(1) by simp
    show ?thesis
    proof (cases "t ! k = 0")
      case False
      then have "shift_ok T A i k (t ! k)" using old [of k] k(2) kn by (simp split: if_splits)
      then have "shifts_upto T A i ntk (pre @ [v]) t"
        using uniq by (intro shifts_upto_add [OF Cons.prems(2)]) auto
      from Cons.IH [OF W' this] e ek False True show ?thesis by (simp add: k_def)
    next
      case zero: True
      have new: "int k \<notin> (\<lambda>v. ?m ! wpitem v) ` set pre"
      proof
        assume "int k \<in> (\<lambda>v. ?m ! wpitem v) ` set pre"
        then have "shift_ok T A i k (t ! k)" "gotoset (tgram T) (kset A i) (int k) \<noteq> {}"
          using old [of k] k kn Cons.prems(1) unfolding entries_gotoset [OF W] by (auto simp: image_iff)
        then show False using zero k(2) by (auto simp: shift_ok_def)
      qed
      obtain j where j: "nolook_state (int k) (map (\<lambda>q. Suc (wpitem q)) (filter (\<lambda>q. ?m ! wpitem q = int k) (v # vs))) A = Some j"
        "shift_ok T A i k (int j)"
        using nolook_entry [OF T toks f i W Cons.prems(1) k(1) [symmetric] k(2) new] by blast
      have "shifts_upto T A i ntk (pre @ [v]) (t[k := int j])"
      proof (rule shifts_upto_add [OF Cons.prems(2)])
        fix x assume "int x = ?c"
        then have "x = k" by (rule uniq)
        then show "shift_ok T A i x (t[k := int j] ! x)" using j(2) len kn by simp
      qed (use k(1) in auto)
      from Cons.IH [OF W' this] e ek zero True j(1) show ?thesis by (simp add: k_def)
    qed
  qed
qed simp

subsection \<open>The row of a state\<close>

text \<open>The rules that reduce on a token.\<close>

definition reds :: "rule list \<Rightarrow> tables \<Rightarrow> automaton \<Rightarrow> nat \<Rightarrow> nat \<Rightarrow> nat set" where
  "reds R T A i k = {r. \<exists>p. lr_item (tgram T) (kset A i) p \<and> gmem (tgram T) ! p = - int r \<and> k \<in> looks_of R T A i p}"

definition row_ok :: "rule list \<Rightarrow> tables \<Rightarrow> levels \<Rightarrow> nat \<Rightarrow> automaton \<Rightarrow> nat \<Rightarrow> int list \<Rightarrow> nat \<times> nat \<Rightarrow> bool" where
  "row_ok R T L ntk A i t c \<longleftrightarrow> length t = ntk + 1 \<and>
    (\<exists>W t0. length t0 = ntk + 1 \<and> c = conflicts L (gmem (tgram T)) W t0 \<and>
      (\<forall>k. 0 < k \<and> k \<le> ntk \<longrightarrow> (if i = 1 \<and> k = 1 then t0 ! k = ACCEPTCODE else shift_ok T A i k (t0 ! k)) \<and>
        redset (gmem (tgram T)) W k = reds R T A i k \<and> t ! k = fold (reduce_by L (gmem (tgram T)) k) W (t0 ! k)))"

lemma redset_reds:
  assumes W: "entries_at R T A i W" and k: "k < 32 * tbitset (tgram T)"
  shows "redset (gmem (tgram T)) W k = reds R T A i k"
proof (intro set_eqI iffI)
  let ?m = "gmem (tgram T)"
  fix r
  have bit: "BIT (wlset v) k \<longleftrightarrow> k \<in> looks_of R T A i (wpitem v)" if "v \<in> set W" "?m ! wpitem v \<le> 0" for v
  proof -
    have "length (wlset v) = tbitset (tgram T)" "members (wlset v) = looks_of R T A i (wpitem v)"
      using W that by (simp_all add: entries_at_def)
    moreover from this(1) have "k \<in> members (wlset v) \<longleftrightarrow> BIT (wlset v) k" using k by (simp add: members_def)
    ultimately show ?thesis by simp
  qed
  {
    assume "r \<in> redset ?m W k"
    then obtain v where v: "v \<in> set W" "?m ! wpitem v \<le> 0" "BIT (wlset v) k" "r = nat (- (?m ! wpitem v))"
      by (auto simp: redset_def)
    have "lr_item (tgram T) (kset A i) (wpitem v)" using W v(1) by (auto simp: entries_at_def)
    then show "r \<in> reds R T A i k" using v bit by (auto simp: reds_def)
  next
    assume "r \<in> reds R T A i k"
    then obtain p where p: "lr_item (tgram T) (kset A i) p" "?m ! p = - int r" "k \<in> looks_of R T A i p"
      by (auto simp: reds_def)
    then have "p \<in> set (map wpitem W)" using W by (simp add: entries_at_def)
    then obtain v where "v \<in> set W" "wpitem v = p" by auto
    then show "r \<in> redset ?m W k" using p bit by (auto simp: redset_def intro!: exI [of _ v])
  }
qed

lemma actions_ok:
  assumes T: "tables_ok st nn tb lsz rs T" and toks: "mem_toks ntk (tgram T)"
    and ntk: "int ntk < NTBASE" "ntk < 32 * tb"
    and f: "finished (all_rules st rs) T ntk w0 A" and w0: "sets_suffice T w0" and i: "i < length (kern A)"
    and w: "ready_sets T w0 w"
  shows "\<exists>t c w'. actions T L ntk A i w = Some (t, c, w') \<and> row_ok (all_rules st rs) T L ntk A i t c \<and> ready_sets T w0 w'"
proof -
  let ?m = "gmem (tgram T)"
  obtain w' where w': "closure (tabs_at T (slk A)) (styp A ! i \<noteq> MUSTLOOKAHEAD) (kern A ! i) w = Some w'"
    "entries_at (all_rules st rs) T A i (wused w')" "ready_sets T w0 w'"
    using closure_entries [OF T f w0 i w] by blast
  have "shifts_upto T A i ntk [] (aryfil (ntk + 1) 0)"
    by (simp add: shifts_upto_def aryfil_def del: replicate_Suc)
  from shifts_ok [OF T toks ntk(1) f i w'(2) _ this]
  obtain t where t: "shifts ?m A (wused w') (aryfil (ntk + 1) 0) = Some t" "shifts_upto T A i ntk (wused w') t" by auto
  then have t: "shifts ?m A (wused w') (aryfil (ntk + 1) 0) = Some t" "length t = ntk + 1"
    "\<forall>k. 0 < k \<and> k \<le> ntk \<longrightarrow> shift_ok T A i k (t ! k)"
    using shifts_upto_all [OF _ w'(2)] by (auto simp: shifts_upto_def)
  let ?t = "if i = 1 then t[1 := ACCEPTCODE] else t"
  let ?r = "reductions L ?m (wused w') ?t" and ?c = "conflicts L ?m (wused w') ?t"
  have len: "length ?t = ntk + 1" using t(2) by simp
  have "actions T L ntk A i w = Some (?r, ?c, w')" using w'(1) t(1) by (simp add: actions_def Let_def)
  moreover have "row_ok (all_rules st rs) T L ntk A i ?r ?c"
    unfolding row_ok_def
  proof (intro conjI exI allI impI)
    show "length ?r = ntk + 1" using len by (simp add: reductions_nth)
    show "length ?t = ntk + 1" by (rule len)
    show "?c = ?c" ..
    fix k assume k: "0 < k \<and> k \<le> ntk"
    then have "k < 32 * tbitset (tgram T)" using ntk(2) tables_okD(5) [OF T] by simp
    then show "redset ?m (wused w') k = reds (all_rules st rs) T A i k" by (rule redset_reds [OF w'(2)])
    show "?r ! k = fold (reduce_by L ?m k) (wused w') (?t ! k)" using k len by (intro reductions_nth) auto
    show "if i = 1 \<and> k = 1 then ?t ! k = ACCEPTCODE else shift_ok T A i k (?t ! k)"
      using t(2,3) k by auto
  qed
  ultimately show ?thesis using w'(3) by blast
qed

text \<open>All rows.\<close>

lemma output_loop_ok:
  assumes T: "tables_ok st nn tb lsz rs T" and toks: "mem_toks ntk (tgram T)"
    and ntk: "int ntk < NTBASE" "ntk < 32 * tb"
    and f: "finished (all_rules st rs) T ntk w0 A" and w0: "sets_suffice T w0"
  shows "\<forall>i \<in> set is. i < length (kern A) \<Longrightarrow> ready_sets T w0 w \<Longrightarrow> output_loop T L vals ntk A is w z = Ret z' \<Longrightarrow>
    \<exists>ts cs. length ts = length is \<and> length cs = length is \<and>
      (\<forall>n < length is. row_ok (all_rules st rs) T L ntk A (is ! n) (ts ! n) (cs ! n)) \<and>
      orows z' = orows z @ map (out_row vals) ts \<and>
      exca z' = exca z @ flat (concat (map2 (out_seg vals) is ts)) \<and> defact z' = defact z @ map (out_def vals) ts \<and>
      zzconf z' = (fst (zzconf z) + sum_list (map fst cs), snd (zzconf z) + sum_list (map snd cs))"
proof (induction "is" arbitrary: w z)
  case (Cons i "is")
  obtain t c w' where t: "actions T L ntk A i w = Some (t, c, w')" "row_ok (all_rules st rs) T L ntk A i t c" "ready_sets T w0 w'"
    using actions_ok [OF T toks ntk f w0 _ Cons.prems(2), of i L] Cons.prems(1) by fastforce
  let ?z = "z\<lparr>zzconf := (fst (zzconf z) + fst c, snd (zzconf z) + snd c)\<rparr>"
  from Cons.prems(3) t(1) obtain z1 where z1: "wract vals i t ?z = Ret z1" "output_loop T L vals ntk A is w' z1 = Ret z'"
    by (auto simp: bindr_Ret)
  have "t \<noteq> []" using t(2) by (auto simp: row_ok_def)
  note ws = wract_spec [OF z1(1) this]
  from Cons.IH [OF _ t(3) z1(2)] Cons.prems(1) obtain ts cs where ts: "length ts = length is" "length cs = length is"
    "\<forall>n < length is. row_ok (all_rules st rs) T L ntk A (is ! n) (ts ! n) (cs ! n)" "orows z' = orows z1 @ map (out_row vals) ts"
    "exca z' = exca z1 @ flat (concat (map2 (out_seg vals) is ts))" "defact z' = defact z1 @ map (out_def vals) ts"
    "zzconf z' = (fst (zzconf z1) + sum_list (map fst cs), snd (zzconf z1) + sum_list (map snd cs))" by auto
  have "\<forall>n < length (i # is). row_ok (all_rules st rs) T L ntk A ((i # is) ! n) ((t # ts) ! n) ((c # cs) ! n)"
    using ts(3) t(2) by (auto simp: less_Suc_eq_0_disj)
  then show ?case using ws ts by (intro exI [of _ "t # ts"] exI [of _ "c # cs"]) simp
qed simp

lemma output_rows:
  assumes T: "tables_ok st nn tb lsz rs T" and toks: "mem_toks ntk (tgram T)"
    and ntk: "int ntk < NTBASE" "ntk < 32 * tb"
    and f: "finished (all_rules st rs) T ntk w0 A" and w0: "sets_suffice T w0"
    and out: "output_states T L vals ntk A = Ret z"
  obtains ts cs where "length ts = length (kern A)" "rows_written vals ts z"
    "\<forall>i < length (kern A). row_ok (all_rules st rs) T L ntk A i (ts ! i) (cs i)"
    "zzconf z = (0, 0) \<longrightarrow> (\<forall>i < length (kern A). cs i = (0, 0))"
proof -
  let ?n = "length (kern A)"
  have w: "ready_sets T w0 (sws A)" using finishedD(1) [OF f] by (simp add: ready_sets_def linv_def)
  have o: "output_loop T L vals ntk A [0..<?n] (sws A) \<lparr> orows = [], exca = [], defact = [], zzconf = (0, 0) \<rparr> = Ret z"
    using out by (simp add: output_states_def)
  from output_loop_ok [OF T toks ntk f w0 _ w o] obtain ts cs where
    ts: "length ts = ?n" "length cs = ?n" "\<forall>n < ?n. row_ok (all_rules st rs) T L ntk A n (ts ! n) (cs ! n)"
    "orows z = map (out_row vals) ts"
    "exca z = flat (concat (map2 (out_seg vals) [0..<?n] ts))" "defact z = map (out_def vals) ts"
    "zzconf z = (sum_list (map fst cs), sum_list (map snd cs))"
    by auto
  have "map2 (out_seg vals) [0..<?n] ts = map (\<lambda>i. out_seg vals i (ts ! i)) [0..<?n]"
    using ts(1) by (intro nth_equalityI) simp_all
  then have "rows_written vals ts z" using ts by (simp add: rows_written_def)
  moreover have "cs ! i = (0, 0)" if "zzconf z = (0, 0)" "i < ?n" for i
  proof -
    have "cs ! i \<in> set cs" using that(2) ts(2) by simp
    then have "fst (cs ! i) \<in> set (map fst cs)" "snd (cs ! i) \<in> set (map snd cs)" by simp_all
    then have "fst (cs ! i) = 0" "snd (cs ! i) = 0" using that(1) ts(7) by (auto simp: sum_list_eq_0_iff)
    then show ?thesis by (simp add: prod_eq_iff)
  qed
  ultimately show thesis using that [of ts "\<lambda>i. cs ! i"] ts(1,3) by blast
qed

end
