(* ===== verification/Yone.thy ===== *)
theory Yone
  imports Ytab
begin

text \<open>
  State 1: the first goto of the first state is the one on the start symbol, so that the second
  state generated, which gets the accepting entry, is the state behind the start symbol.
\<close>

subsection \<open>States keep their items\<close>

lemma find_state_hit:
  assumes "find_state ks ms ps h = Some i"
  shows "i \<noteq> 0 \<longrightarrow> i < length ks \<and> map pitem (ks ! i) = ps"
  using assms
proof (rule find_state.raw_induct [rotated])
  fix f ks ms ps h i
  assume IH: "\<And>ks ms ps h i. f ks ms ps h = Some i \<Longrightarrow> i \<noteq> 0 \<longrightarrow> i < length ks \<and> map pitem (ks ! i) = ps"
    and "(if h = 0 then Some 0
     else do {
       k \<leftarrow> ent ks h;
       if map pitem k = ps then Some h
       else do { j \<leftarrow> ent ms h; f ks ms ps j }
     }) = Some i"
  then show "i \<noteq> 0 \<longrightarrow> i < length ks \<and> map pitem (ks ! i) = ps"
    by (auto simp: ent_eq_Some split: if_splits Option.bind_splits)
qed

definition keeps :: "automaton \<Rightarrow> automaton \<Rightarrow> bool" where
  "keeps A A' \<longleftrightarrow> length (kern A) \<le> length (kern A') \<and> (\<forall>i < length (kern A). pits A' i = pits A i)"

lemma keeps_same: "kern A' = kern A \<Longrightarrow> keeps A A'"
  by (simp add: keeps_def pits_def)

lemma keeps_trans: "keeps A B \<Longrightarrow> keeps B C \<Longrightarrow> keeps A C"
  by (auto simp: keeps_def)

lemma fix_looks_items: "fix_looks lsz lk ps = Ret (K, lk', ch) \<Longrightarrow> map pitem K = map (pitem \<circ> fst) ps"
proof (induction ps arbitrary: lk K lk' ch)
  case (Cons p ps)
  obtain l k where p: "p = (l, k)" by (cases p)
  from Cons.prems show ?case
    unfolding p by (auto simp: bindr_Ret Let_def split: if_splits dest!: Cons.IH)
qed simp

lemma keeps_state:
  assumes "state lsz c K A = Ret (A', j)"
  shows "keeps A A'"
proof (cases "K = []")
  case True
  then show ?thesis using assms by (simp add: state_def keeps_same)
next
  case False
  let ?K = "sort_items (length K) K"
  from assms False obtain h i where h: "chain_head A c = Some h" "find_state (kern A) (mstates A) (map pitem ?K) h = Some i"
    by (auto simp: state_def Let_def bindr_Ret defined_def split: option.splits)
  show ?thesis
  proof (cases "i = 0")
    case True
    then have "A' = new_state c h ?K A" using assms False h by (simp add: state_def Let_def)
    then show ?thesis by (auto simp: keeps_def pits_def new_state_def Let_def nth_append)
  next
    case i: False
    then obtain k lk ch where k: "fix_looks lsz (slk A) (zip (kern A ! i) ?K) = Ret (k, lk, ch)"
      "kern A' = (kern A)[i := k]"
      using assms False h by (auto simp: state_def Let_def bindr_Ret)
    have f: "i < length (kern A)" "map pitem (kern A ! i) = map pitem ?K"
      using find_state_hit [OF h(2)] i by simp_all
    then have "length (kern A ! i) = length ?K" by (rule_tac map_eq_imp_length_eq)
    then have "map fst (zip (kern A ! i) ?K) = kern A ! i" by simp
    then have "map pitem k = map pitem (kern A ! i)"
      using fix_looks_items [OF k(1)] by (metis map_map)
    then have "map pitem (kern A' ! x) = map pitem (kern A ! x)" for x
      unfolding k(2) by (cases "x = i") (use f(1) in simp_all)
    then show ?thesis using k(2) by (simp add: keeps_def pits_def)
  qed
qed

lemma keeps_gotos: "gotos lsz m i n vs row A = Ret (A', row') \<Longrightarrow> keeps A A'"
proof (induction lsz m i n vs row A arbitrary: A' row' rule: gotos.induct)
  case (1 lsz m i n row A)
  then show ?case by (simp add: keeps_same)
next
  case (2 lsz m i n v vs row A)
  show ?case
  proof (cases "wflag v")
    case True
    then show ?thesis using 2 by simp
  next
    case fl: False
    with "2.prems" obtain c where c: "ent m (wpitem v) = Some c" by (cases "ent m (wpitem v)") auto
    show ?thesis
    proof (cases "c \<le> 1")
      case True
      let ?A = "if length (kern A ! i) \<le> n then A\<lparr>styp := (styp A)[i := MUSTLOOKAHEAD]\<rparr> else A"
      have "gotos lsz m i (n + 1) vs row ?A = Ret (A', row')" using "2.prems" fl c True by simp
      from "2.IH"(2) [OF fl True this] show ?thesis by (rule keeps_trans [rotated]) (simp add: keeps_same)
    next
      case False
      with "2.prems" fl c obtain K lk A1 j where s: "state lsz c K (A\<lparr>slk := lk\<rparr>) = Ret (A1, j)"
        "gotos lsz m i (n + 1) (map (\<lambda>q. if m ! wpitem q = c then q\<lparr>wflag := True\<rparr> else q) vs)
             (if c < NTBASE then row else row[ntix c := j]) A1 = Ret (A', row')"
        by (auto simp: bindr_Ret split: if_splits)
      from s(2) have "keeps A1 A'" by (rule "2.IH"(3) [OF fl False])
      moreover have "keeps (A\<lparr>slk := lk\<rparr>) A1" by (rule keeps_state [OF s(1)])
      moreover have "keeps A (A\<lparr>slk := lk\<rparr>)" by (simp add: keeps_same)
      ultimately show ?thesis by (blast intro: keeps_trans)
    qed
  qed
qed

lemma keeps_step:
  assumes "stagen_step T i A = Ret A'"
  shows "keeps A A'"
proof -
  from assms obtain w row A1 row1 where g: "gotos (lsetsize (tgram T)) (gmem (tgram T)) i 0 w row (A\<lparr>styp := (styp A)[i := DONE]\<rparr>) = Ret (A1, row1)"
    "kern A' = kern A1" by (auto simp: stagen_step_def Let_def bindr_Ret)
  have "keeps A (A\<lparr>styp := (styp A)[i := DONE]\<rparr>)" by (simp add: keeps_same)
  moreover note keeps_gotos [OF g(1)]
  moreover have "keeps A1 A'" by (rule keeps_same [OF g(2)])
  ultimately show ?thesis by (blast intro: keeps_trans)
qed

lemma keeps_loop:
  assumes "stagen_loop T A = Some r"
  shows "\<forall>A'. r = Ret A' \<longrightarrow> keeps A A'"
  using assms
proof (rule stagen_loop.raw_induct [rotated])
  fix f T A r
  assume IH: "\<And>T A r. f T A = Some r \<Longrightarrow> \<forall>A'. r = Ret A' \<longrightarrow> keeps A A'"
    and f: "(case next_todo (styp A) of
       None \<Rightarrow> Some (Ret A)
     | Some i \<Rightarrow>
       (case stagen_step T i A of
          Undef \<Rightarrow> Some Undef
        | Full \<Rightarrow> Some Full
        | Ret A' \<Rightarrow> f T A')) = Some r"
  show "\<forall>A'. r = Ret A' \<longrightarrow> keeps A A'"
  proof (intro allI impI)
    fix A' assume r: "r = Ret A'"
    show "keeps A A'"
    proof (cases "next_todo (styp A)")
      case None
      then show ?thesis using f r by (simp add: keeps_same)
    next
      case (Some i)
      with f r obtain A1 where A1: "stagen_step T i A = Ret A1" "f T A1 = Some r"
        by (cases "stagen_step T i A") auto
      from IH [OF A1(2)] r have "keeps A1 A'" by blast
      with keeps_step [OF A1(1)] show ?thesis by (rule keeps_trans)
    qed
  qed
qed

subsection \<open>The second state\<close>

lemma put_items_map: "put_items lsz lk vs = Ret (K, lk') \<Longrightarrow> map pitem K = map (\<lambda>v. Suc (wpitem v)) vs"
proof (induction vs arbitrary: lk K)
  case (Cons v vs)
  then show ?case by (auto simp: bindr_Ret)
qed simp

lemma first_goto:
  assumes T: "tables_ok st nn tb lsz rs T" and c: "closed_at R T P ps W" "ps = [Suc (prdptr (tgram T) ! 0)]"
    and A: "kern A = [K0]" "ntstates A = aryfil (nn + 1) 0"
    and g: "gotos sz (gmem (tgram T)) 0 0 W row A = Ret (A', row')"
  shows "1 < length (kern A') \<and> set (pits A' 1) = gotoset (tgram T) P st"
proof -
  let ?m = "gmem (tgram T)" and ?q = "Suc (prdptr (tgram T) ! 0)"
  note t = tables_okD [OF T]
  have st: "NTBASE < st" "ntix st \<le> nn" using t(1) by (auto simp: wf_rules_def is_nonterm_def)
  have m: "ent ?m ?q = Some st" unfolding t(3) by (simp add: setup_rules_def ent_def)
  have "take 1 (map wpitem W) = [?q]" using c by (simp add: closed_at_def)
  then obtain v vs where W: "W = v # vs" "wpitem v = ?q" by (cases W) auto
  have fl: "\<not> wflag v" using c(1) W(1) by (simp add: closed_at_def)
  let ?E = "v # filter (\<lambda>q. ?m ! wpitem q = st) vs"
  have E: "?E = filter (\<lambda>q. ?m ! wpitem q = st) W" using m W by (simp add: ent_eq_Some)
  from g fl m st(1) W obtain K lk A1 j us row1 where s: "put_items sz (slk A) ?E = Ret (K, lk)" "state sz st K (A\<lparr>slk := lk\<rparr>) = Ret (A1, j)"
    "gotos sz ?m 0 (Suc 0) us row1 A1 = Ret (A', row')"
    by (auto simp: bindr_Ret simp del: put_items.simps)
  note Km = put_items_map [OF s(1)]
  have K: "K \<noteq> []" using Km by auto
  have "chain_head (A\<lparr>slk := lk\<rparr>) st = Some 0" using A(2) st by (simp add: chain_head_def ent_def aryfil_def)
  then have "A1 = new_state st 0 (sort_items (length K) K) (A\<lparr>slk := lk\<rparr>)"
    using s(2) K by (simp add: state_def Let_def find_state.simps)
  then have k1: "kern A1 = [K0, sort_items (length K) K]" using A(1) by (simp add: new_state_def Let_def)
  then have "set (pits A1 1) = pitem ` set K" using sort_items_spec(3) [of K] by (simp add: pits_def)
  also have "\<dots> = set (map pitem K)" by simp
  also have "\<dots> = Suc ` wpitem ` {v \<in> set W. ?m ! wpitem v = st}" unfolding Km E by auto
  also have "\<dots> = gotoset (tgram T) P st" by (rule closed_gotoset [OF c(1), symmetric])
  finally have "set (pits A1 1) = gotoset (tgram T) P st" .
  moreover have "keeps A1 A'" by (rule keeps_gotos [OF s(3)])
  ultimately show ?thesis using k1 by (simp add: keeps_def)
qed

lemma state_one:
  assumes T: "tables_ok st nn tb lsz rs T" and toks: "mem_toks ntk (tgram T)" and w: "sets_suffice T w"
    and run: "stagen T ntk actsize w = Some (Ret A)"
  shows "1 < length (kern A) \<and> kset A 1 = gotoset (tgram T) (kset A 0) st"
proof -
  let ?g = "tgram T"
  note t = tables_okD [OF T]
  from run obtain lk q where lk: "flset (lsetsize ?g) (tlkst T) (aryfil (tbitset ?g) 0) = Some (lk, q)"
    "stagen_loop T (first_state T ntk actsize w (prdptr ?g ! 0) lk q) = Some (Ret A)"
    unfolding stagen_first [OF T] by (auto split: option.splits)
  let ?F = "first_state T ntk actsize w (prdptr ?g ! 0) lk q"
  have inv: "linv (all_rules st rs) T ntk w ?F" by (rule first_state_ok [OF T w lk(1)])
  have F: "kern ?F = [[\<lparr> pitem = Suc (prdptr ?g ! 0), look = q \<rparr>]]" "styp ?F = [MUSTDO]" "slk ?F = lk"
    "ntstates ?F = aryfil (nn + 1) 0"
    using t(4) by (simp_all add: first_state_def)
  have "next_todo (styp ?F) = Some 0" using F by simp
  then obtain A1 where A1: "stagen_step T 0 ?F = Ret A1" "stagen_loop T A1 = Some (Ret A)"
    using lk(2) by (subst (asm) stagen_loop.simps) (auto split: res.splits)
  obtain w1 where w1: "closure (tabs_at T (slk ?F)) False (kern ?F ! 0) (sws ?F) = Some w1"
    "closed_at (all_rules st rs) T (kset ?F 0) (pits ?F 0) (wused w1)"
    using closure_at [OF T inv w, of 0] F(1) by auto
  from A1(1) w1(1) obtain A2 row row2 where A2: "kern A1 = kern A2"
    "gotos (lsetsize ?g) (gmem ?g) 0 0 (wused w1) row (?F\<lparr>styp := (styp ?F)[0 := DONE]\<rparr>) = Ret (A2, row2)"
    by (auto simp: stagen_step_def Let_def bindr_Ret)
  have p0: "pits ?F 0 = [Suc (prdptr ?g ! 0)]" using F(1) by (simp add: pits_def)
  have "1 < length (kern A2) \<and> set (pits A2 1) = gotoset ?g (kset ?F 0) st"
    by (rule first_goto [OF T w1(2) p0 _ _ A2(2)]) (use F in simp_all)
  moreover have "keeps A2 A1" by (rule keeps_same [OF A2(1)])
  moreover have "keeps A1 A" using keeps_loop [OF A1(2)] by blast
  moreover have "keeps ?F A" using keeps_loop [OF lk(2)] by blast
  ultimately show ?thesis using F(1) by (simp add: keeps_def)
qed

end
