(* ===== verification/Yitem.thy ===== *)
theory Yitem
  imports Yone Yparse
begin

text \<open>
  Where the items stand: item \<open>k\<close> of rule \<open>r\<close> is the place behind \<open>k\<close> symbols of its right hand
  side.  From this what the parser relies on: the states on the stack hold the symbols
  of a right hand side that has been read.
\<close>

subsection \<open>The rules in memory\<close>

lemma lay_rules_nth:
  "r < length rs \<Longrightarrow> \<exists>rest. drop (rule_ptrs (length pre) rs ! r) (pre @ lay_rules n rs) =
    fst (rs ! r) # snd (rs ! r) @ (- int (n + r)) # rest"
proof (induction rs arbitrary: pre n r)
  case (Cons x rs)
  show ?case
  proof (cases r)
    case 0
    then show ?thesis by simp
  next
    case (Suc r')
    let ?pre = "pre @ fst x # snd x @ [- int n]"
    from Cons.IH [of r' ?pre "Suc n"] Cons.prems Suc show ?thesis by simp
  qed
qed simp

lemma length_rule_ptrs [simp]: "length (rule_ptrs p rs) = length rs"
  by (induction rs arbitrary: p) auto

lemma rule_ptrs_ge: "q \<in> set (rule_ptrs p rs) \<Longrightarrow> p \<le> q"
  by (induction rs arbitrary: p) (auto dest: Suc_leD, fastforce)

lemma rule_nth:
  assumes T: "tables_ok st nn tb lsz rs T" and r: "r < length (all_rules st rs)"
  shows "\<exists>rest. drop (prdptr (tgram T) ! r) (gmem (tgram T)) =
    fst (all_rules st rs ! r) # snd (all_rules st rs ! r) @ (- int r) # rest"
proof (cases r)
  case 0
  then show ?thesis unfolding tables_okD(3) [OF T] by (simp add: setup_rules_def all_rules_def)
next
  case (Suc r')
  then show ?thesis using lay_rules_nth [of r' rs "[NTBASE, st, 1, 0]" 1] r
    unfolding tables_okD(3) [OF T] by (simp add: setup_rules_def all_rules_def eval_nat_numeral)
qed

lemma length_prdptr: "tables_ok st nn tb lsz rs T \<Longrightarrow> length (prdptr (tgram T)) = length (all_rules st rs)"
  by (simp add: tables_okD(3) setup_rules_def all_rules_def)

text \<open>Item \<open>k\<close> of rule \<open>r\<close>.\<close>

definition item_at :: "rule list \<Rightarrow> grammar \<Rightarrow> nat \<Rightarrow> nat \<Rightarrow> nat \<Rightarrow> bool" where
  "item_at R g p r k \<longleftrightarrow> r < length R \<and> k \<le> length (snd (R ! r)) \<and> p = prdptr g ! r + 1 + k"

lemma drop_nth_append:
  assumes "drop p m = xs @ y # ys"
  shows "p + length xs < length m \<and> m ! (p + length xs) = y"
proof -
  have "length (drop p m) = length xs + 1 + length ys" using assms by simp
  then have l: "p + length xs < length m" by simp
  then have "m ! (p + length xs) = drop p m ! length xs" by simp
  with l assms show ?thesis by simp
qed

lemma rule_cells:
  assumes T: "tables_ok st nn tb lsz rs T" and r: "r < length (all_rules st rs)"
  shows "gmem (tgram T) ! (prdptr (tgram T) ! r) = fst (all_rules st rs ! r)"
    and "k < length (snd (all_rules st rs ! r)) \<Longrightarrow> gmem (tgram T) ! (prdptr (tgram T) ! r + 1 + k) = snd (all_rules st rs ! r) ! k"
    and "gmem (tgram T) ! (prdptr (tgram T) ! r + 1 + length (snd (all_rules st rs ! r))) = - int r"
proof -
  let ?p = "prdptr (tgram T) ! r" and ?A = "fst (all_rules st rs ! r)" and ?x = "snd (all_rules st rs ! r)"
  obtain rest where d: "drop ?p (gmem (tgram T)) = ?A # ?x @ (- int r) # rest" using rule_nth [OF T r] by blast
  show "gmem (tgram T) ! ?p = ?A" using drop_nth_append [of ?p "gmem (tgram T)" "[]"] d by simp
  show "gmem (tgram T) ! (?p + 1 + length ?x) = - int r"
    using drop_nth_append [of ?p _ "?A # ?x"] d by simp
  show "gmem (tgram T) ! (?p + 1 + k) = ?x ! k" if k: "k < length ?x"
  proof -
    have "drop ?p (gmem (tgram T)) = (?A # take k ?x) @ ?x ! k # drop (Suc k) ?x @ (- int r) # rest"
      using d id_take_nth_drop [OF k] by (metis append.assoc append_Cons)
    from drop_nth_append [OF this] k show ?thesis by simp
  qed
qed

lemma rule_syms:
  assumes T: "tables_ok st nn tb lsz rs T" and r: "r < length (all_rules st rs)"
  shows "NTBASE \<le> fst (all_rules st rs ! r)" "\<forall>s \<in> set (snd (all_rules st rs ! r)). is_token s \<or> is_nonterm nn s"
    "0 < r \<Longrightarrow> is_nonterm nn (fst (all_rules st rs ! r))"
proof -
  note wf = tables_okD(1) [OF T]
  have "\<forall>x \<in> set rs. is_nonterm nn (fst x)" using wf by (auto simp: wf_rules_def)
  then show "0 < r \<Longrightarrow> is_nonterm nn (fst (all_rules st rs ! r))" using r by (cases r) (simp_all add: all_rules_def)
  then show "NTBASE \<le> fst (all_rules st rs ! r)" by (cases r) (auto simp: all_rules_def is_nonterm_def)
  have "\<forall>x \<in> set (all_rules st rs). \<forall>s \<in> set (snd x). is_token s \<or> is_nonterm nn s"
    using wf by (fastforce simp: wf_rules_def all_rules_def is_token_def)
  then show "\<forall>s \<in> set (snd (all_rules st rs ! r)). is_token s \<or> is_nonterm nn s" using nth_mem [OF r] by blast
qed

lemma ptr_before:
  assumes T: "tables_ok st nn tb lsz rs T" and r: "0 < r" "r < length (all_rules st rs)"
  shows "4 \<le> prdptr (tgram T) ! r" "gmem (tgram T) ! (prdptr (tgram T) ! r - 1) \<le> 0"
proof -
  note t = tables_okD(3) [OF T]
  have four: "length [NTBASE, st, 1, 0] = 4" by simp
  obtain r' where r': "r = Suc r'" using r(1) gr0_implies_Suc by blast
  have "prdptr (tgram T) ! r = rule_ptrs 4 rs ! r'" "r' < length rs"
    using r(2) unfolding t r' by (simp_all add: setup_rules_def all_rules_def)
  then have x: "prdptr (tgram T) ! r \<in> set (rule_ptrs 4 rs)" by simp
  then show "4 \<le> prdptr (tgram T) ! r" by (rule rule_ptrs_ge)
  from x have "prdptr (tgram T) ! r \<in> set (rule_ptrs (length [NTBASE, st, 1, 0]) rs)" unfolding four .
  from rule_ptrs_before [OF _ _ this, of 1] show "gmem (tgram T) ! (prdptr (tgram T) ! r - 1) \<le> 0"
    unfolding t by (simp add: setup_rules_def)
qed

lemma ptr_zero: "tables_ok st nn tb lsz rs T \<Longrightarrow> prdptr (tgram T) ! 0 = 0"
  by (simp add: tables_okD(3) setup_rules_def)

text \<open>The cell before an item behind the first symbol, and the left hand side, are positive; the cell
  before a rule is not.\<close>

lemma item_at_start:
  assumes T: "tables_ok st nn tb lsz rs T" and i: "item_at (all_rules st rs) (tgram T) (Suc (prdptr (tgram T) ! r')) r k"
    and r': "r' < length (all_rules st rs)"
  shows "k = 0"
proof (rule ccontr)
  assume k: "k \<noteq> 0"
  have ii: "r < length (all_rules st rs)" "k \<le> length (snd (all_rules st rs ! r))" "prdptr (tgram T) ! r' = prdptr (tgram T) ! r + k"
    using i by (simp_all add: item_at_def)
  have "r' \<noteq> 0" using ii(3) k ptr_zero [OF T] by (metis add_is_0)
  then have "gmem (tgram T) ! (prdptr (tgram T) ! r' - 1) \<le> 0" using ptr_before(2) [OF T _ r'] by simp
  moreover have "prdptr (tgram T) ! r' - 1 = prdptr (tgram T) ! r + (k - 1)" using ii(3) k by simp
  moreover have "0 < gmem (tgram T) ! (prdptr (tgram T) ! r + (k - 1))"
  proof (cases "k - 1")
    case 0
    then show ?thesis using rule_cells(1) [OF T ii(1)] rule_syms(1) [OF T ii(1)] by simp
  next
    case (Suc n)
    then have n: "n < length (snd (all_rules st rs ! r))" using ii(2) by simp
    then have "is_token (snd (all_rules st rs ! r) ! n) \<or> is_nonterm nn (snd (all_rules st rs ! r) ! n)"
      using rule_syms(2) [OF T ii(1)] by simp
    then have "0 < snd (all_rules st rs ! r) ! n" by (auto simp: is_token_def is_nonterm_def)
    then show ?thesis using rule_cells(2) [OF T ii(1) n] Suc by simp
  qed
  ultimately show False by simp
qed

lemma item_not_ptr:
  assumes T: "tables_ok st nn tb lsz rs T" and i: "item_at (all_rules st rs) (tgram T) (prdptr (tgram T) ! r') r k"
    and r': "r' < length (all_rules st rs)"
  shows False
proof -
  have ii: "r < length (all_rules st rs)" "k \<le> length (snd (all_rules st rs ! r))" "prdptr (tgram T) ! r' = prdptr (tgram T) ! r + 1 + k"
    using i by (simp_all add: item_at_def)
  have "gmem (tgram T) ! (prdptr (tgram T) ! r') = fst (all_rules st rs ! r')" "NTBASE \<le> fst (all_rules st rs ! r')"
    using rule_cells(1) [OF T r'] rule_syms(1) [OF T r'] by simp_all
  then have nt: "NTBASE \<le> gmem (tgram T) ! (prdptr (tgram T) ! r + 1 + k)" using ii(3) by simp
  then have "k \<noteq> length (snd (all_rules st rs ! r))" using rule_cells(3) [OF T ii(1)] by auto
  then have k: "k < length (snd (all_rules st rs ! r))" using ii(2) by simp
  have "item_at (all_rules st rs) (tgram T) (Suc (prdptr (tgram T) ! r')) r (Suc k)"
    using ii k by (simp add: item_at_def)
  from item_at_start [OF T this r'] show False by simp
qed

lemma item_at_Suc:
  assumes T: "tables_ok st nn tb lsz rs T" and i: "item_at (all_rules st rs) (tgram T) p r k" and c: "0 < gmem (tgram T) ! p"
  shows "k < length (snd (all_rules st rs ! r))" "gmem (tgram T) ! p = snd (all_rules st rs ! r) ! k"
    "item_at (all_rules st rs) (tgram T) (Suc p) r (Suc k)"
proof -
  have ii: "r < length (all_rules st rs)" "k \<le> length (snd (all_rules st rs ! r))" "p = prdptr (tgram T) ! r + 1 + k"
    using i by (simp_all add: item_at_def)
  have "k \<noteq> length (snd (all_rules st rs ! r))" using rule_cells(3) [OF T ii(1)] c ii(3) by auto
  then show k: "k < length (snd (all_rules st rs ! r))" using ii(2) by simp
  show "gmem (tgram T) ! p = snd (all_rules st rs ! r) ! k" using rule_cells(2) [OF T ii(1) k] ii(3) by simp
  show "item_at (all_rules st rs) (tgram T) (Suc p) r (Suc k)" using ii k by (simp add: item_at_def)
qed

lemma entered_item:
  assumes T: "tables_ok st nn tb lsz rs T" and s: "s \<in> set (pres_row (tgram T) n)"
  obtains r where "s = Suc (prdptr (tgram T) ! r)" "r < length (all_rules st rs)" "fst (all_rules st rs ! r) = NTBASE + int n"
proof -
  from s obtain x where x: "s = Suc x" "x \<in> set (prdptr (tgram T))" "gmem (tgram T) ! x = NTBASE + int n"
    by (auto simp: pres_row_def)
  then obtain r where r: "r < length (all_rules st rs)" "x = prdptr (tgram T) ! r"
    using length_prdptr [OF T] by (metis in_set_conv_nth)
  with x rule_cells(1) [OF T r(1)] that show thesis by simp
qed

lemma lr_item_place:
  assumes T: "tables_ok st nn tb lsz rs T" and P: "\<forall>p \<in> P. \<exists>r k. item_at (all_rules st rs) (tgram T) p r k"
  shows "lr_item (tgram T) P p \<Longrightarrow> \<exists>r k. item_at (all_rules st rs) (tgram T) p r k"
proof (induction rule: lr_item.induct)
  case (enter p s)
  from entered_item [OF T enter.hyps(3)] obtain r where "s = Suc (prdptr (tgram T) ! r)" "r < length (all_rules st rs)" by metis
  then have "item_at (all_rules st rs) (tgram T) s r 0" by (simp add: item_at_def)
  then show ?case by blast
qed (use P in blast)

lemma lr_state_place:
  assumes T: "tables_ok st nn tb lsz rs T"
  shows "lr_state (tgram T) P \<Longrightarrow> \<forall>p \<in> P. \<exists>r k. item_at (all_rules st rs) (tgram T) p r k"
proof (induction rule: lr_state.induct)
  case start
  have "item_at (all_rules st rs) (tgram T) (Suc (prdptr (tgram T) ! 0)) 0 0" by (simp add: item_at_def all_rules_def)
  then show ?case by blast
next
  case (move P c)
  have "\<exists>r k. item_at (all_rules st rs) (tgram T) (Suc p) r k" if p: "lr_item (tgram T) P p" "gmem (tgram T) ! p = c" for p
  proof -
    from lr_item_place [OF T move.IH p(1)] obtain r k where "item_at (all_rules st rs) (tgram T) p r k" by blast
    from item_at_Suc(3) [OF T this] p(2) move.hyps(2) show ?thesis by auto
  qed
  then show ?case by (auto simp: gotoset_def)
qed

subsection \<open>The symbols on the stack\<close>

text \<open>The states of a stack, top first, and the symbols between them.\<close>

inductive path :: "grammar \<Rightarrow> automaton \<Rightarrow> nat list \<Rightarrow> int list \<Rightarrow> bool" for g A where
  bottom: "path g A [0] []"
| push: "path g A (s # ss) xs \<Longrightarrow> j < length (kern A) \<Longrightarrow> 1 < x \<Longrightarrow> gotoset g (kset A s) x \<noteq> {} \<Longrightarrow>
    kset A j = gotoset g (kset A s) x \<Longrightarrow> path g A (j # s # ss) (x # xs)"

lemma path_length: "path g A ss xs \<Longrightarrow> length ss = Suc (length xs)"
  by (induction rule: path.induct) auto

lemma path_states: "path g A ss xs \<Longrightarrow> 0 < length (kern A) \<Longrightarrow> \<forall>s \<in> set ss. s < length (kern A)"
  by (induction rule: path.induct) auto

text \<open>An item behind \<open>k\<close> symbols has them on the stack below it.\<close>

lemma item_kernel:
  assumes T: "tables_ok st nn tb lsz rs T" and p: "lr_item (tgram T) P p"
    and i: "item_at (all_rules st rs) (tgram T) p r (Suc k)"
  shows "p \<in> P"
  using p
proof (cases rule: lr_item.cases)
  case (enter p')
  from entered_item [OF T enter(3)] obtain r' where "p = Suc (prdptr (tgram T) ! r')" "r' < length (all_rules st rs)" by metis
  with item_at_start [OF T, of r' r "Suc k"] i show ?thesis by simp
qed

lemma path_back:
  assumes T: "tables_ok st nn tb lsz rs T" and k0: "kset A 0 = {Suc (prdptr (tgram T) ! 0)}"
  shows "path (tgram T) A (s # ss) xs \<Longrightarrow> lr_item (tgram T) (kset A s) p \<Longrightarrow> item_at (all_rules st rs) (tgram T) p r k \<Longrightarrow>
    k \<le> length xs \<and> rev (take k xs) = take k (snd (all_rules st rs ! r)) \<and> path (tgram T) A (drop k (s # ss)) (drop k xs) \<and>
    lr_item (tgram T) (kset A (hd (drop k (s # ss)))) (Suc (prdptr (tgram T) ! r))"
proof (induction k arbitrary: s ss xs p)
  case 0
  then show ?case by (simp add: item_at_def)
next
  case (Suc k)
  let ?R = "all_rules st rs"
  have pk: "p \<in> kset A s" by (rule item_kernel [OF T Suc.prems(2,3)])
  from Suc.prems(1) show ?case
  proof (cases rule: path.cases)
    case bottom
    then have "p = Suc (prdptr (tgram T) ! 0)" using pk k0 by simp
    with item_at_start [OF T, of 0 r "Suc k"] Suc.prems(3) have False by (simp add: all_rules_def)
    then show ?thesis ..
  next
    case (push s' ss' xs' x)
    from pk push(7) obtain p' where p': "p = Suc p'" "lr_item (tgram T) (kset A s') p'" "gmem (tgram T) ! p' = x"
      by (auto simp: gotoset_def)
    have ip: "item_at ?R (tgram T) p' r k"
      using Suc.prems(3) p'(1) by (auto simp: item_at_def)
    have "0 < x" using push(5) by simp
    with item_at_Suc [OF T ip] p'(3) have x: "k < length (snd (?R ! r))" "x = snd (?R ! r) ! k" by simp_all
    from Suc.IH [OF push(3) p'(2) ip] push(1,2) x show ?thesis by (simp add: take_Suc_conv_app_nth)
  qed
qed

subsection \<open>Reductions and the end\<close>

lemma reduce_item:
  assumes T: "tables_ok st nn tb lsz rs T" and lr: "lr_state (tgram T) P"
    and p: "lr_item (tgram T) P p" "gmem (tgram T) ! p = - int r"
  shows "r < length (all_rules st rs)" "item_at (all_rules st rs) (tgram T) p r (length (snd (all_rules st rs ! r)))"
proof -
  let ?R = "all_rules st rs"
  from lr_item_place [OF T lr_state_place [OF T lr] p(1)] obtain r' k where i: "item_at ?R (tgram T) p r' k" by blast
  then have ii: "r' < length ?R" "k \<le> length (snd (?R ! r'))" "p = prdptr (tgram T) ! r' + 1 + k"
    by (simp_all add: item_at_def)
  have "k = length (snd (?R ! r'))"
  proof (rule ccontr)
    assume "k \<noteq> length (snd (?R ! r'))"
    then have k: "k < length (snd (?R ! r'))" using ii(2) by simp
    then have "is_token (snd (?R ! r') ! k) \<or> is_nonterm nn (snd (?R ! r') ! k)" using rule_syms(2) [OF T ii(1)] by simp
    then have "0 < snd (?R ! r') ! k" by (auto simp: is_token_def is_nonterm_def)
    then show False using rule_cells(2) [OF T ii(1) k] ii(3) p(2) by simp
  qed
  moreover from this have "r = r'" using rule_cells(3) [OF T ii(1)] ii(3) p(2) by simp
  ultimately show "r < length ?R" "item_at ?R (tgram T) p r (length (snd (?R ! r)))" using i ii(1) by simp_all
qed

lemma lhs_entered:
  assumes T: "tables_ok st nn tb lsz rs T" and lr: "lr_state (tgram T) P"
    and r: "0 < r" "r < length (all_rules st rs)" and p: "lr_item (tgram T) P (Suc (prdptr (tgram T) ! r))"
  shows "gotoset (tgram T) P (fst (all_rules st rs ! r)) \<noteq> {}"
  using p
proof (cases rule: lr_item.cases)
  case kernel
  from lr have False
  proof (cases rule: lr_state.cases)
    case start
    then show False using kernel ptr_before(1) [OF T r] ptr_zero [OF T] by simp
  next
    case (move K c)
    then have "lr_item (tgram T) K (prdptr (tgram T) ! r)" using kernel by (auto simp: gotoset_def)
    from lr_item_place [OF T lr_state_place [OF T move(2)] this] show False using item_not_ptr [OF T _ r(2)] by blast
  qed
  then show ?thesis ..
next
  case (enter p')
  then have "gmem (tgram T) ! (prdptr (tgram T) ! r) = gmem (tgram T) ! p'" by (auto simp: pres_row_def)
  then have "gmem (tgram T) ! p' = fst (all_rules st rs ! r)" using rule_cells(1) [OF T r(2)] by simp
  with enter(1) show ?thesis by (auto simp: gotoset_def)
qed

lemma start_kernel:
  assumes T: "tables_ok st nn tb lsz rs T" and lr: "lr_state (tgram T) P"
    and p: "lr_item (tgram T) P (Suc (prdptr (tgram T) ! 0))"
  shows "Suc (prdptr (tgram T) ! 0) \<in> P" "\<nexists>K c. P = gotoset (tgram T) K c \<and> lr_state (tgram T) K"
proof -
  let ?q = "Suc (prdptr (tgram T) ! 0)"
  show q: "?q \<in> P"
    using p
  proof (cases rule: lr_item.cases)
    case (enter p')
    from entered_item [OF T enter(3)] obtain r where r: "?q = Suc (prdptr (tgram T) ! r)" "r < length (all_rules st rs)"
      "fst (all_rules st rs ! r) = NTBASE + int (ntix (gmem (tgram T) ! p'))" by metis
    have "r = 0" using r(1,2) ptr_before(1) [OF T _ r(2)] ptr_zero [OF T] by (cases "r = 0") auto
    then have "gmem (tgram T) ! p' = NTBASE" using r(3) enter(2) by (simp add: all_rules_def)
    moreover have "item_ok T p'" by (rule lr_item_ok [OF T lr_state_ok [OF T lr] enter(1)])
    ultimately show ?thesis using item_ok_Suc(2) [of T p'] by (auto simp: is_token_def is_nonterm_def)
  qed
  show "\<nexists>K c. P = gotoset (tgram T) K c \<and> lr_state (tgram T) K"
  proof (rule notI, elim exE conjE)
    fix K c assume K: "P = gotoset (tgram T) K c" "lr_state (tgram T) K"
    with q have "lr_item (tgram T) K (prdptr (tgram T) ! 0)" by (auto simp: gotoset_def)
    from lr_item_place [OF T lr_state_place [OF T K(2)] this] show False
      using item_not_ptr [OF T, of 0] by (auto simp: all_rules_def)
  qed
qed

lemma accept_stack:
  assumes T: "tables_ok st nn tb lsz rs T" and k0: "kset A 0 = {Suc (prdptr (tgram T) ! 0)}"
    and lr: "\<forall>i < length (kern A). lr_state (tgram T) (kset A i)" and n: "0 < length (kern A)"
    and k1: "kset A 1 = gotoset (tgram T) (kset A 0) st" and p: "path (tgram T) A (1 # ss) xs"
  shows "ss = [0] \<and> xs = [st]"
proof -
  let ?R = "all_rules st rs" and ?q = "Suc (prdptr (tgram T) ! 0)"
  have R0: "0 < length ?R" "snd (?R ! 0) = [st, 1]" by (simp_all add: all_rules_def)
  have m: "gmem (tgram T) ! ?q = st" using rule_cells(2) [OF T R0(1), of 0] R0(2) by simp
  have "lr_item (tgram T) (kset A 0) ?q" by (rule lr_item.kernel) (simp add: k0)
  then have "Suc ?q \<in> kset A 1" unfolding k1 using m by (auto simp: gotoset_def)
  then have "lr_item (tgram T) (kset A 1) (Suc ?q)" by (rule lr_item.kernel)
  moreover have "item_at ?R (tgram T) (Suc ?q) 0 1" using R0 by (simp add: item_at_def)
  ultimately have b: "1 \<le> length xs" "rev (take 1 xs) = take 1 [st, 1]" "path (tgram T) A ss (drop 1 xs)"
    "lr_item (tgram T) (kset A (hd ss)) ?q"
    using path_back [OF T k0 p, of "Suc ?q" 0 1] R0 by auto
  have ne: "ss \<noteq> []" using path_length [OF b(3)] by auto
  then obtain s ss' where ss: "ss = s # ss'" by (cases ss) auto
  have "s < length (kern A)" using path_states [OF b(3) n] ss by simp
  then have lrs: "lr_state (tgram T) (kset A s)" using lr by blast
  from b(3) show ?thesis
  proof (cases rule: path.cases)
    case bottom
    then show ?thesis using b(1,2) by (cases xs) auto
  next
    case (push s' ss'' xs' j x)
    then have "kset A s = gotoset (tgram T) (kset A s') x" "s' < length (kern A)"
      using ss path_states [OF push(3) n] by simp_all
    then show ?thesis using start_kernel(2) [OF T lrs] b(4) lr ss by auto
  qed
qed

lemma rule_ptrs_Suc:
  "i < length rs \<Longrightarrow> (rule_ptrs p rs @ [p + length (lay_rules n rs)]) ! Suc i = rule_ptrs p rs ! i + length (snd (rs ! i)) + 2"
proof (induction rs arbitrary: p n i)
  case (Cons r rs)
  let ?p = "p + length (snd r) + 2"
  show ?case
  proof (cases i)
    case 0
    then show ?thesis by (cases rs) simp_all
  next
    case (Suc i')
    then show ?thesis using Cons.IH [of i' ?p "Suc n"] Cons.prems by (simp add: add.assoc)
  qed
qed simp

lemma rule_tables:
  assumes T: "tables_ok st nn tb lsz rs T" and r: "0 < r" "r < length (all_rules st rs)"
  shows "ent (yyr1 (tgram T)) r = Some (fst (all_rules st rs ! r) - NTBASE)"
    "ent (yyr2 (tgram T)) r = Some (int (length (snd (all_rules st rs ! r))))"
proof -
  let ?g = "tgram T" and ?R = "all_rules st rs"
  note t = tables_okD(3) [OF T]
  have len: "length (prdptr ?g) = length ?R" by (rule length_prdptr [OF T])
  obtain r' where r': "r = Suc r'" using r(1) gr0_implies_Suc by blast
  have "prdptr ?g ! r \<in> set (prdptr ?g)" using r len by simp
  then show "ent (yyr1 ?g) r = Some (fst (?R ! r) - NTBASE)"
    using r len rule_cells(1) [OF T r(2)] by (simp add: ent_def yyr1_def nth_Cons' nth_tl r')
  have r'l: "r' < length rs" using r(2) r' by (simp add: all_rules_def)
  have "prdptr ?g @ [length (gmem ?g)] = 0 # (rule_ptrs 4 rs @ [4 + length (lay_rules 1 rs)])"
    unfolding t by (simp add: setup_rules_def eval_nat_numeral)
  then have "(prdptr ?g @ [length (gmem ?g)]) ! (r + 1) = prdptr ?g ! r + length (snd (?R ! r)) + 2"
    using rule_ptrs_Suc [OF r'l, of 4 1] by (simp add: t r' all_rules_def)
  then show "ent (yyr2 ?g) r = Some (int (length (snd (?R ! r))))"
    using r len by (simp add: ent_def yyr2_def r')
qed

end
