(* ===== verification/Ychk.thy ===== *)
theory Ychk
  imports Ytab
begin

text \<open>
  The goto rows of the nonterminals and the check array: a state has a goto on a nonterminal exactly
  when a symbol behind the dot of its kernel begins with the nonterminal; the chains of the
  symbols give the symbol that leads to each state.
\<close>

subsection \<open>The nonterminals that lead to a goto\<close>

inductive lead :: "grammar \<Rightarrow> int \<Rightarrow> int \<Rightarrow> bool" for g c where
  self: "lead g c c"
| prod: "p \<in> set (prdptr g) \<Longrightarrow> NTBASE \<le> gmem g ! Suc p \<Longrightarrow> lead g c (gmem g ! Suc p) \<Longrightarrow> lead g c (gmem g ! p)"

lemma ptr_ok:
  assumes T: "tables_ok st nn tb lsz rs T" and p: "p \<in> set (prdptr (tgram T))"
  shows "Suc p < length (gmem (tgram T))" "NTBASE \<le> gmem (tgram T) ! p" "ntix (gmem (tgram T) ! p) \<le> nn"
    "Suc p \<in> set (pres_row (tgram T) (ntix (gmem (tgram T) ! p)))" "item_ok T (Suc p)"
proof -
  note t = tables_okD [OF T]
  have p': "p \<in> set (0 # rule_ptrs 4 rs)" using p t(3) by (simp add: setup_rules_def)
  show n: "NTBASE \<le> gmem (tgram T) ! p" "ntix (gmem (tgram T) ! p) \<le> nn"
    using ptr_head [OF t(1) p', of tb lsz] t(3) by simp_all
  show s: "Suc p \<in> set (pres_row (tgram T) (ntix (gmem (tgram T) ! p)))" using p n(1) by (simp add: pres_row_def)
  show i: "item_ok T (Suc p)" by (rule row_item_ok [OF T s])
  then show "Suc p < length (gmem (tgram T))" by (rule item_ok_lt)
qed

definition leads_ok :: "grammar \<Rightarrow> int \<Rightarrow> bool list \<Rightarrow> bool" where
  "leads_ok g c f \<longleftrightarrow> length f = nnonter g + 1 \<and> (\<forall>x < length f. f ! x \<longrightarrow> lead g c (NTBASE + int x))"

lemma lead_pass_ok:
  assumes T: "tables_ok st nn tb lsz rs T"
  shows "set ps \<subseteq> set (prdptr (tgram T)) \<Longrightarrow> leads_ok (tgram T) c f \<Longrightarrow>
    \<exists>f' w'. lead_pass (gmem (tgram T)) ps f w = Some (f', w') \<and> leads_ok (tgram T) c f' \<and>
      (\<forall>x < length f. f ! x \<longrightarrow> f' ! x) \<and> (\<not> w' \<longrightarrow> \<not> w \<and> f' = f \<and>
        (\<forall>p \<in> set ps. NTBASE \<le> gmem (tgram T) ! Suc p \<and> f ! ntix (gmem (tgram T) ! Suc p) \<longrightarrow>
          f ! ntix (gmem (tgram T) ! p)))"
proof (induction ps arbitrary: f w)
  case Nil
  then show ?case by simp
next
  case (Cons p ps)
  let ?m = "gmem (tgram T)"
  note t = tables_okD [OF T]
  have p: "p \<in> set (prdptr (tgram T))" and sub: "set ps \<subseteq> set (prdptr (tgram T))" using Cons.prems(1) by auto
  note po = ptr_ok [OF T p]
  have len: "length f = nn + 1" using Cons.prems(2) t(4) by (simp add: leads_ok_def)
  have y: "ntix (?m ! p) < length f" using po(3) len by simp
  have x: "ntix (?m ! Suc p) < length f" if "NTBASE \<le> ?m ! Suc p"
  proof -
    have "is_token (?m ! Suc p) \<or> is_nonterm nn (?m ! Suc p)" using item_ok_Suc(2) [OF po(5)] that t(4) by simp
    then show ?thesis using that len by (auto simp: is_token_def is_nonterm_def)
  qed
  show ?case
  proof (cases "NTBASE \<le> ?m ! Suc p \<and> f ! ntix (?m ! Suc p) \<and> \<not> f ! ntix (?m ! p)")
    case False
    then have "lead_pass ?m (p # ps) f w = lead_pass ?m ps f w" using x y po(1) by auto
    with Cons.IH [OF sub Cons.prems(2), of w] False show ?thesis by fastforce
  next
    case True
    let ?f = "f[ntix (?m ! p) := True]"
    have step: "lead_pass ?m (p # ps) f w = lead_pass ?m ps ?f True" using True x y po(1) by auto
    have "lead (tgram T) c (?m ! Suc p)" using Cons.prems(2) True x by (auto simp: leads_ok_def)
    then have "lead (tgram T) c (?m ! p)" using lead.prod [OF p] True by blast
    moreover have "NTBASE + int (ntix (?m ! p)) = ?m ! p" using po(2) by simp
    ultimately have new: "lead (tgram T) c (NTBASE + int (ntix (?m ! p)))" by simp
    have "leads_ok (tgram T) c ?f"
      unfolding leads_ok_def
    proof (intro conjI allI impI)
      show "length ?f = nnonter (tgram T) + 1" using Cons.prems(2) by (simp add: leads_ok_def)
      fix z assume "z < length ?f" "?f ! z"
      then show "lead (tgram T) c (NTBASE + int z)"
        using new Cons.prems(2) by (cases "z = ntix (?m ! p)") (simp_all add: leads_ok_def)
    qed
    from Cons.IH [OF sub this, of True] obtain f' w' where
      f': "lead_pass ?m ps ?f True = Some (f', w')" "leads_ok (tgram T) c f'" "\<forall>x < length ?f. ?f ! x \<longrightarrow> f' ! x" "w'"
      by blast
    have "f' ! x" if "x < length f" "f ! x" for x
    proof -
      have "?f ! x" using that by (cases "x = ntix (?m ! p)") simp_all
      then show ?thesis using f'(3) that(1) by simp
    qed
    with f' step show ?thesis by auto
  qed
qed

lemma lead_loop_ok:
  assumes T: "tables_ok st nn tb lsz rs T"
  shows "leads_ok (tgram T) c f \<Longrightarrow> \<exists>f'. lead_loop (gmem (tgram T)) (prdptr (tgram T)) f = Some f' \<and>
    leads_ok (tgram T) c f' \<and> (\<forall>x < length f. f ! x \<longrightarrow> f' ! x) \<and>
    (\<forall>p \<in> set (prdptr (tgram T)). NTBASE \<le> gmem (tgram T) ! Suc p \<and> f' ! ntix (gmem (tgram T) ! Suc p) \<longrightarrow>
      f' ! ntix (gmem (tgram T) ! p))"
proof (induction f rule: measure_induct_rule [where f = "\<lambda>f. count_list f False"])
  case (less f)
  let ?m = "gmem (tgram T)" and ?ps = "prdptr (tgram T)"
  obtain f1 w where 1: "lead_pass ?m ?ps f False = Some (f1, w)" "leads_ok (tgram T) c f1" "\<forall>x < length f. f ! x \<longrightarrow> f1 ! x"
    "\<not> w \<longrightarrow> f1 = f \<and> (\<forall>p \<in> set ?ps. NTBASE \<le> ?m ! Suc p \<and> f ! ntix (?m ! Suc p) \<longrightarrow> f ! ntix (?m ! p))"
    using lead_pass_ok [OF T subset_refl less.prems, of False] by blast
  show ?case
  proof (cases w)
    case False
    then have "lead_loop ?m ?ps f = Some f1" using 1(1) by (subst lead_loop.simps) simp
    with 1 False show ?thesis by auto
  next
    case True
    have "count_list f1 False < count_list f False" using lead_pass_count [OF 1(1)] True by simp
    from less.IH [OF this 1(2)] obtain f' where f': "lead_loop ?m ?ps f1 = Some f'" "leads_ok (tgram T) c f'"
      "\<forall>x < length f1. f1 ! x \<longrightarrow> f' ! x"
      "\<forall>p \<in> set ?ps. NTBASE \<le> ?m ! Suc p \<and> f' ! ntix (?m ! Suc p) \<longrightarrow> f' ! ntix (?m ! p)" by blast
    have "lead_loop ?m ?ps f = Some f'" using 1(1) True f'(1) by (subst lead_loop.simps) simp
    moreover have "\<forall>x < length f. f ! x \<longrightarrow> f' ! x" using 1(2,3) f'(3) less.prems by (auto simp: leads_ok_def)
    ultimately show ?thesis using f' by blast
  qed
qed

lemma go2gen_leads:
  assumes T: "tables_ok st nn tb lsz rs T" and c: "c \<le> nn"
  obtains f where "lead_loop (gmem (tgram T)) (prdptr (tgram T)) ((replicate (nn + 1) False)[c := True]) = Some f"
    "\<forall>x \<le> nn. f ! x \<longleftrightarrow> lead (tgram T) (NTBASE + int c) (NTBASE + int x)"
proof -
  note t = tables_okD [OF T]
  let ?c = "NTBASE + int c" and ?m = "gmem (tgram T)"
  let ?f0 = "(replicate (nn + 1) False)[c := True]"
  have "leads_ok (tgram T) ?c ?f0"
    using c t(4) lead.self by (auto simp: leads_ok_def nth_list_update simp del: replicate_Suc)
  from lead_loop_ok [OF T this] obtain f where f: "lead_loop ?m (prdptr (tgram T)) ?f0 = Some f" "leads_ok (tgram T) ?c f"
    "\<forall>x < length ?f0. ?f0 ! x \<longrightarrow> f ! x"
    "\<forall>p \<in> set (prdptr (tgram T)). NTBASE \<le> ?m ! Suc p \<and> f ! ntix (?m ! Suc p) \<longrightarrow> f ! ntix (?m ! p)" by blast
  have "NTBASE \<le> y \<longrightarrow> f ! ntix y" if "lead (tgram T) ?c y" for y
    using that
  proof (induction rule: lead.induct)
    case self
    have "?f0 ! c" "c < length ?f0" using c by (simp_all del: replicate_Suc)
    then have "f ! c" using f(3) by blast
    then show ?case by simp
  next
    case (prod p)
    then show ?case using f(4) by blast
  qed
  then have "\<forall>x \<le> nn. f ! x \<longleftrightarrow> lead (tgram T) ?c (NTBASE + int x)"
    using f(2) t(4) by (force simp: leads_ok_def)
  with f(1) that show thesis by blast
qed

text \<open>The kernel shows whether there is a goto.\<close>

lemma lead_item:
  "lead g c x \<Longrightarrow> NTBASE \<le> x \<Longrightarrow> lr_item g P p \<Longrightarrow> gmem g ! p = x \<Longrightarrow> \<exists>q. lr_item g P q \<and> gmem g ! q = c"
proof (induction arbitrary: p rule: lead.induct)
  case (prod p')
  have "Suc p' \<in> set (pres_row g (ntix (gmem g ! p)))" using prod.hyps(1) prod.prems by (simp add: pres_row_def)
  then have "lr_item g P (Suc p')" using lr_item.enter [OF prod.prems(2)] prod.prems by simp
  from prod.IH [OF prod.hyps(2) this refl] show ?case .
qed blast

lemma item_lead:
  "lr_item g P q \<Longrightarrow> NTBASE \<le> gmem g ! q \<Longrightarrow> lead g c (gmem g ! q) \<Longrightarrow> \<exists>k \<in> P. NTBASE \<le> gmem g ! k \<and> lead g c (gmem g ! k)"
proof (induction rule: lr_item.induct)
  case (enter p s)
  from enter.hyps(2,3) obtain x where x: "s = Suc x" "x \<in> set (prdptr g)" "gmem g ! x = gmem g ! p"
    by (auto simp: pres_row_def)
  have "lead g c (gmem g ! p)" using lead.prod [OF x(2)] enter.prems x by simp
  then show ?case using enter.IH enter.hyps(2) by blast
qed blast

lemma goto_of_ok:
  assumes T: "tables_ok st nn tb lsz rs T" and f: "finished R T ntk w A" and i: "i < length (kern A)" and c: "c \<le> nn"
    and fl: "\<forall>x \<le> nn. fl ! x \<longleftrightarrow> lead (tgram T) (NTBASE + int c) (NTBASE + int x)"
  shows "if gotoset (tgram T) (kset A i) (NTBASE + int c) = {} then goto_of (gmem (tgram T)) A fl c i = 0
    else \<exists>j < length (kern A). j \<noteq> 0 \<and> kset A j = gotoset (tgram T) (kset A i) (NTBASE + int c) \<and>
      goto_of (gmem (tgram T)) A fl c i = j"
proof -
  let ?g = "tgram T" and ?c = "NTBASE + int c" and ?m = "gmem (tgram T)"
  note fd = finishedD [OF f]
  have flx: "fl ! ntix x \<longleftrightarrow> lead ?g ?c x" if "lr_item ?g (kset A i) p" "x = ?m ! p" "NTBASE \<le> x" for p x
  proof -
    have "item_ok T p" by (rule lr_item_ok [OF T lr_state_ok [OF T fd(7) [OF i]] that(1)])
    then have "is_nonterm nn x" using item_ok_Suc(2) that(2,3) tables_okD(4) [OF T] by (fastforce simp: is_token_def)
    then have "ntix x \<le> nn" "NTBASE + int (ntix x) = x" by (auto simp: is_nonterm_def)
    then show ?thesis using fl by metis
  qed
  have kern: "k \<in> set (kern A ! i) \<Longrightarrow> lr_item ?g (kset A i) (pitem k)" for k
    by (rule lr_item.kernel) (simp add: pits_def)
  have ex: "(\<exists>k \<in> set (kern A ! i). NTBASE \<le> ?m ! pitem k \<and> fl ! ntix (?m ! pitem k)) \<longleftrightarrow> gotoset ?g (kset A i) ?c \<noteq> {}"
  proof
    assume "\<exists>k \<in> set (kern A ! i). NTBASE \<le> ?m ! pitem k \<and> fl ! ntix (?m ! pitem k)"
    then obtain k where k: "k \<in> set (kern A ! i)" "NTBASE \<le> ?m ! pitem k" "fl ! ntix (?m ! pitem k)" by blast
    from lead_item [OF _ k(2) kern [OF k(1)] refl] flx [OF kern [OF k(1)] refl k(2)] k(3)
    show "gotoset ?g (kset A i) ?c \<noteq> {}" by (auto simp: gotoset_def)
  next
    assume "gotoset ?g (kset A i) ?c \<noteq> {}"
    then obtain q where q: "lr_item ?g (kset A i) q" "?m ! q = ?c" by (auto simp: gotoset_def)
    from item_lead [OF q(1), of ?c] q(2) lead.self obtain x where x: "x \<in> kset A i" "NTBASE \<le> ?m ! x" "lead ?g ?c (?m ! x)"
      by auto
    then obtain k where "k \<in> set (kern A ! i)" "pitem k = x" by (auto simp: pits_def)
    with x flx [OF kern] show "\<exists>k \<in> set (kern A ! i). NTBASE \<le> ?m ! pitem k \<and> fl ! ntix (?m ! pitem k)" by blast
  qed
  show ?thesis
  proof (cases "gotoset ?g (kset A i) ?c = {}")
    case True
    then have "\<not> (\<exists>k \<in> set (kern A ! i). NTBASE \<le> ?m ! pitem k \<and> fl ! ntix (?m ! pitem k))" using ex by blast
    then have "goto_of ?m A fl c i = 0" unfolding goto_of_def by (simp only: if_False)
    then show ?thesis using True by simp
  next
    case False
    have one: "1 < ?c" by simp
    have "\<forall>c. 1 < c \<and> gotoset ?g (kset A i) c \<noteq> {} \<longrightarrow> (\<exists>j. goto_at T A i c j)"
      using fd(8) [OF i] by (simp add: worked_def gotos_made_def)
    with one False obtain j where "goto_at T A i ?c j" by blast
    then have j: "j < length (kern A)" "j \<noteq> 0" "kset A j = gotoset ?g (kset A i) ?c" "gact A ! nat (gindgo A ! i + int c) = j"
      by (auto simp: goto_at_def)
    have "goto_of ?m A fl c i = j" unfolding goto_of_def using False ex j(4) by (simp only: if_True not_False_eq_True)
    with j False show ?thesis by auto
  qed
qed

subsection \<open>The goto rows\<close>

lemma best_goto_cases:
  "(\<forall>j < length ys. ys ! j = 0) \<and> best_goto ys = - 1 \<or> (\<exists>j < length ys. ys ! j \<noteq> 0 \<and> best_goto ys = int (ys ! j))"
proof -
  let ?f = "\<lambda>j (best, n).
      let y = ys ! j in
      if y = 0 \<or> int y = best then (best, n)
      else let c = length (filter (\<lambda>k. ys ! k = y) [j..<length ys]) in
        if n < c then (int y, c) else (best, n)"
  let ?P = "\<lambda>js z. (\<forall>j \<in> set js. ys ! j = 0) \<and> z = (- 1, 0) \<or> (\<exists>j < length ys. ys ! j \<noteq> 0 \<and> fst z = int (ys ! j))"
  have "?P [0..<k] (fold ?f [0..<k] (- 1, 0))" if "k \<le> length ys" for k
    using that
  proof (induction k)
    case (Suc k)
    define z where "z = fold ?f [0..<k] (- 1 :: int, 0 :: nat)"
    have k: "k < length ys" using Suc.prems by simp
    have IH: "?P [0..<k] z" using Suc by (simp add: z_def)
    have step: "fold ?f [0..<Suc k] (- 1, 0) = ?f k z" by (simp add: z_def)
    have pos: "0 < length (filter (\<lambda>x. ys ! x = ys ! k) [k..<length ys])" using k by (simp add: upt_conv_Cons)
    show ?case
    proof (cases "ys ! k = 0")
      case True
      then have "?f k z = z" by (simp add: Let_def split: prod.splits)
      then show ?thesis using IH True unfolding step by (auto simp: less_Suc_eq)
    next
      case False
      from IH show ?thesis
      proof
        assume "(\<forall>j \<in> set [0..<k]. ys ! j = 0) \<and> z = (- 1, 0)"
        then have "fst (?f k z) = int (ys ! k)" using False pos by (simp add: Let_def)
        then show ?thesis unfolding step using k False by blast
      next
        assume old: "\<exists>j < length ys. ys ! j \<noteq> 0 \<and> fst z = int (ys ! j)"
        have "fst (?f k z) = fst z \<or> fst (?f k z) = int (ys ! k)" by (auto simp: Let_def split: prod.splits)
        then have "\<exists>j < length ys. ys ! j \<noteq> 0 \<and> fst (?f k z) = int (ys ! j)"
          by (elim disjE) (use old in simp, use k False in blast)
        then show ?thesis unfolding step by (rule disjI2)
      qed
    qed
  qed simp
  from this [of "length ys"] show ?thesis by (auto simp: best_goto_def)
qed

lemma goto_row_decode:
  assumes "j < length ys" "ys ! j \<noteq> 0"
  shows "(case map_of (fst (goto_row ys)) j of Some v \<Rightarrow> v | None \<Rightarrow> snd (goto_row ys)) = int (ys ! j)"
  unfolding goto_row_def Let_def fst_conv snd_conv
  by (subst map_of_filter [where f = "\<lambda>j. j"]) (use assms in auto)

lemma those_map: "those (map h xs) = Some ys \<Longrightarrow> length ys = length xs \<and> (\<forall>i < length xs. h (xs ! i) = Some (ys ! i))"
proof (induction xs arbitrary: ys)
  case (Cons x xs)
  from Cons.prems obtain y ys' where y: "h x = Some y" "those (map h xs) = Some ys'" "ys = y # ys'"
    by (auto split: option.splits)
  from Cons.IH [OF y(2)] y(1,3) show ?case by (auto simp: nth_Cons split: nat.splits)
qed simp

definition goto_is :: "tables \<Rightarrow> automaton \<Rightarrow> nat \<Rightarrow> int \<Rightarrow> nat \<Rightarrow> bool" where
  "goto_is T A i c j \<longleftrightarrow> (if gotoset (tgram T) (kset A i) c = {} then j = 0
    else j < length (kern A) \<and> j \<noteq> 0 \<and> kset A j = gotoset (tgram T) (kset A i) c)"

definition goto_rows :: "tables \<Rightarrow> automaton \<Rightarrow> (nat \<Rightarrow> nat list) \<Rightarrow> (prow \<times> int) list \<Rightarrow> bool" where
  "goto_rows T A Y gr \<longleftrightarrow> length gr = nnonter (tgram T) \<and> (\<forall>n < nnonter (tgram T). gr ! n = goto_row (Y n) \<and>
    length (Y n) = length (kern A) \<and> (\<forall>i < length (kern A). goto_is T A i (NTBASE + int (Suc n)) (Y n ! i)))"

lemma go2gen_ok:
  assumes T: "tables_ok st nn tb lsz rs T" and f: "finished R T ntk w A" and c: "c \<le> nn"
  shows "\<exists>ys. go2gen (tgram T) A c = Some ys \<and> length ys = length (kern A) \<and>
    (\<forall>i < length (kern A). goto_is T A i (NTBASE + int c) (ys ! i))"
proof -
  note t = tables_okD [OF T]
  obtain fl where fl: "lead_loop (gmem (tgram T)) (prdptr (tgram T)) ((replicate (nn + 1) False)[c := True]) = Some fl"
    "\<forall>x \<le> nn. fl ! x \<longleftrightarrow> lead (tgram T) (NTBASE + int c) (NTBASE + int x)"
    by (rule go2gen_leads [OF T c])
  have g: "go2gen (tgram T) A c = Some (map (goto_of (gmem (tgram T)) A fl c) [0..<length (kern A)])"
    using fl(1) t(4) by (simp add: go2gen_def del: replicate_Suc)
  have "goto_is T A i (NTBASE + int c) (goto_of (gmem (tgram T)) A fl c i)" if "i < length (kern A)" for i
    using goto_of_ok [OF T f that c fl(2)] unfolding goto_is_def by (cases "gotoset (tgram T) (kset A i) (NTBASE + int c) = {}") auto
  then show ?thesis using g by simp
qed

lemma go2out_ok:
  assumes T: "tables_ok st nn tb lsz rs T" and f: "finished R T ntk w A" and gr: "go2out (tgram T) A = Some gr"
  obtains Y where "goto_rows T A Y gr"
proof -
  note t = tables_okD [OF T]
  let ?xs = "[1..<nn + 1]"
  have th: "length gr = length ?xs \<and> (\<forall>i < length ?xs. map_option goto_row (go2gen (tgram T) A (?xs ! i)) = Some (gr ! i))"
    using gr t(4) by (intro those_map) (simp add: go2out_def)
  have "\<exists>ys. gr ! n = goto_row ys \<and> length ys = length (kern A) \<and>
      (\<forall>i < length (kern A). goto_is T A i (NTBASE + int (Suc n)) (ys ! i))" if n: "n < nn" for n
  proof -
    have "map_option goto_row (go2gen (tgram T) A (?xs ! n)) = Some (gr ! n)" using th n by simp
    moreover have "?xs ! n = Suc n" using n by (subst nth_upt) simp_all
    ultimately have "map_option goto_row (go2gen (tgram T) A (Suc n)) = Some (gr ! n)" by (simp only:)
    moreover obtain ys where "go2gen (tgram T) A (Suc n) = Some ys" "length ys = length (kern A)"
      "\<forall>i < length (kern A). goto_is T A i (NTBASE + int (Suc n)) (ys ! i)"
      using go2gen_ok [OF T f Suc_leI [OF n]] by blast
    ultimately show ?thesis by (intro exI [of _ ys]) simp
  qed
  then have "\<forall>n. \<exists>ys. n < nn \<longrightarrow> gr ! n = goto_row ys \<and> length ys = length (kern A) \<and>
      (\<forall>i < length (kern A). goto_is T A i (NTBASE + int (Suc n)) (ys ! i))" by blast
  from choice [OF this] obtain Y where "\<forall>n. n < nn \<longrightarrow> gr ! n = goto_row (Y n) \<and> length (Y n) = length (kern A) \<and>
      (\<forall>i < length (kern A). goto_is T A i (NTBASE + int (Suc n)) (Y n ! i))" by blast
  then have "goto_rows T A Y gr" using th t(4) by (simp add: goto_rows_def)
  then show thesis by (rule that)
qed

subsection \<open>The check array\<close>

lemma mark_chain_ok:
  "chain ms h xs \<Longrightarrow> length ms = length t \<Longrightarrow>
    \<exists>t'. mark_chain ms x h t = Some t' \<and> length t' = length t \<and> (\<forall>j < length t. t' ! j = (if j \<in> set xs then x else t ! j))"
proof (induction xs arbitrary: h t)
  case Nil
  then show ?case by (subst mark_chain.simps) simp
next
  case (Cons y ys)
  then have y: "h = y" "y \<noteq> 0" "y < length t" "chain ms (ms ! y) ys" by auto
  then have step: "mark_chain ms x h t = mark_chain ms x (ms ! y) (t[y := x])"
    using Cons.prems(2) by (subst mark_chain.simps) simp
  from Cons.IH [OF y(4), of "t[y := x]"] Cons.prems(2) obtain t' where
    t': "mark_chain ms x (ms ! y) (t[y := x]) = Some t'" "length t' = length t"
    "\<forall>j < length t. t' ! j = (if j \<in> set ys then x else t[y := x] ! j)" by auto
  have "t' ! j = (if j \<in> set (y # ys) then x else t ! j)" if "j < length t" for j
    using t'(3) that y(3) by (cases "j = y") simp_all
  then show ?case using t'(1,2) step by (intro exI [of _ t']) simp
qed

lemma mark_chains_ok:
  assumes "\<forall>c \<in> set cs. chain ms (h c) (X c)" "length ms = length t"
  shows "\<exists>t'. mark_chains ms (map (\<lambda>c. (v c, h c)) cs) t = Some t' \<and> length t' = length t \<and>
    (\<forall>j < length t. (\<forall>c \<in> set cs. j \<notin> set (X c)) \<longrightarrow> t' ! j = t ! j) \<and>
    (\<forall>j < length t. \<forall>c \<in> set cs. j \<in> set (X c) \<and> (\<forall>c' \<in> set cs. j \<in> set (X c') \<longrightarrow> c' = c) \<longrightarrow> t' ! j = v c)"
  using assms
proof (induction cs arbitrary: t)
  case (Cons c cs)
  obtain t1 where t1: "mark_chain ms (v c) (h c) t = Some t1" "length t1 = length t"
    "\<forall>j < length t. t1 ! j = (if j \<in> set (X c) then v c else t ! j)"
    using mark_chain_ok [of ms "h c" "X c" t "v c"] Cons.prems by auto
  have cs: "\<forall>c \<in> set cs. chain ms (h c) (X c)" "length ms = length t1" using Cons.prems t1(2) by simp_all
  from Cons.IH [OF cs] t1(2) obtain t' where t': "mark_chains ms (map (\<lambda>c. (v c, h c)) cs) t1 = Some t'"
    "length t' = length t" "\<forall>j < length t. (\<forall>c \<in> set cs. j \<notin> set (X c)) \<longrightarrow> t' ! j = t1 ! j"
    "\<forall>j < length t. \<forall>c \<in> set cs. j \<in> set (X c) \<and> (\<forall>c' \<in> set cs. j \<in> set (X c') \<longrightarrow> c' = c) \<longrightarrow> t' ! j = v c" by (elim exE conjE) (simp only:)
  have "mark_chains ms (map (\<lambda>c. (v c, h c)) (c # cs)) t = Some t'" using t1(1) t'(1) by simp
  moreover have "t' ! j = t ! j" if "j < length t" "\<forall>c \<in> set (c # cs). j \<notin> set (X c)" for j
    using that t1(3) t'(3) by simp
  moreover have "t' ! j = v d" if j: "j < length t" and d: "d \<in> set (c # cs)" "j \<in> set (X d)"
    and u: "\<forall>c' \<in> set (c # cs). j \<in> set (X c') \<longrightarrow> c' = d" for j d
  proof (cases "d \<in> set cs")
    case True
    have "j \<in> set (X d) \<and> (\<forall>c' \<in> set cs. j \<in> set (X c') \<longrightarrow> c' = d)" using d(2) u by auto
    with True j t'(4) show ?thesis by blast
  next
    case False
    then have "d = c" using d(1) by simp
    moreover have "\<forall>c \<in> set cs. j \<notin> set (X c)" using False u by auto
    ultimately show ?thesis using t'(3) t1(3) j d(2) by simp
  qed
  ultimately show ?case using t'(2) by (intro exI [of _ t'] conjI allI impI ballI) blast+
qed simp

text \<open>The value of a symbol in the check array.\<close>

definition sym_val :: "(nat \<Rightarrow> nat) \<Rightarrow> int \<Rightarrow> int" where
  "sym_val vals c = (if NTBASE \<le> c then - int (ntix c) else int (vals (nat c)))"

definition sym_list :: "nat \<Rightarrow> nat \<Rightarrow> int list" where
  "sym_list ntk nn = map int [1..<ntk + 1] @ map (\<lambda>i. NTBASE + int i) [0..<nn + 1]"

definition chk_ok :: "tables \<Rightarrow> (nat \<Rightarrow> nat) \<Rightarrow> nat \<Rightarrow> automaton \<Rightarrow> int list \<Rightarrow> bool" where
  "chk_ok T vals ntk A chk \<longleftrightarrow> length chk = length (kern A) \<and> chk ! 0 = - 1000 \<and>
    (\<forall>c \<in> set (sym_list ntk (nnonter (tgram T))). \<forall>j. 0 < j \<and> j < length (kern A) \<and> entry_sym (tgram T) (kset A j) c \<longrightarrow>
      chk ! j = sym_val vals c)"

lemma yychk_ok:
  assumes T: "tables_ok st nn tb lsz rs T" and f: "finished R T ntk w A" and ntk: "int ntk < NTBASE"
  shows "\<exists>chk. yychk vals ntk (nnonter (tgram T)) A = Some chk \<and> chk_ok T vals ntk A chk"
proof -
  let ?g = "tgram T" and ?n = "length (kern A)" and ?cs = "sym_list ntk (nnonter (tgram T))"
  let ?h = "\<lambda>c. the (chain_head A c)"
  note fd = finishedD [OF f]
  have rng: "sym_range (nnonter ?g) ntk c" if "c \<in> set ?cs" for c
    using that ntk by (auto simp: sym_list_def sym_range_def)
  have "\<exists>xs. chain_head A c = Some (?h c) \<and> chain (mstates A) (?h c) xs \<and> set xs = {j. 0 < j \<and> j < ?n \<and> entry_sym ?g (kset A j) c}"
    if "c \<in> set ?cs" for c
    using fd(6) rng [OF that] unfolding chains_ok_def by fastforce
  then have "\<forall>c. \<exists>xs. c \<in> set ?cs \<longrightarrow> chain_head A c = Some (?h c) \<and> chain (mstates A) (?h c) xs \<and>
      set xs = {j. 0 < j \<and> j < ?n \<and> entry_sym ?g (kset A j) c}" by blast
  from choice [OF this] obtain X where X: "\<And>c. c \<in> set ?cs \<Longrightarrow> chain_head A c = Some (?h c)"
    "\<And>c. c \<in> set ?cs \<Longrightarrow> chain (mstates A) (?h c) (X c)"
    "\<And>c. c \<in> set ?cs \<Longrightarrow> set (X c) = {j. 0 < j \<and> j < ?n \<and> entry_sym ?g (kset A j) c}"
    by blast
  have len: "length (mstates A) = ?n" "0 < ?n" using fd(5) by (auto simp: sized_def)
  have pre: "\<forall>c \<in> set ?cs. chain (mstates A) (?h c) (X c)" "length (mstates A) = length (aryfil ?n (- 1000 :: int))"
    using X(2) len(1) by (simp_all add: aryfil_def)
  have fl: "length (aryfil ?n (- 1000 :: int)) = ?n" by (simp add: aryfil_def)
  obtain chk where chk: "mark_chains (mstates A) (map (\<lambda>c. (sym_val vals c, ?h c)) ?cs) (aryfil ?n (- 1000)) = Some chk"
    "length chk = ?n" "\<forall>j < ?n. (\<forall>c \<in> set ?cs. j \<notin> set (X c)) \<longrightarrow> chk ! j = aryfil ?n (- 1000) ! j"
    "\<forall>j < ?n. \<forall>c \<in> set ?cs. j \<in> set (X c) \<and> (\<forall>c' \<in> set ?cs. j \<in> set (X c') \<longrightarrow> c' = c) \<longrightarrow> chk ! j = sym_val vals c"
    using mark_chains_ok [OF pre, of "sym_val vals"] unfolding fl by blast
  have "chk ! 0 = - 1000" using chk(3) len(2) X(3) by (auto simp: aryfil_def)
  moreover have "chk ! j = sym_val vals c" if c: "c \<in> set ?cs" and j: "0 < j" "j < ?n" "entry_sym ?g (kset A j) c" for c j
  proof -
    have ne: "kset A j \<noteq> {}" using kernels_okD(1) [OF fd(4) j(2)] by (auto simp: pits_def)
    have "c' = c" if "entry_sym ?g (kset A j) c'" for c' using that j(3) ne by (auto simp: entry_sym_def)
    then have "\<forall>c' \<in> set ?cs. j \<in> set (X c') \<longrightarrow> c' = c" using X(3) by blast
    moreover have "j \<in> set (X c)" using X(3) [OF c] j by simp
    ultimately show ?thesis using chk(4) j(2) c by blast
  qed
  moreover have "yychk vals ntk (nnonter ?g) A = Some chk"
  proof -
    have "map (\<lambda>i. (int (vals i), tstates A ! i)) [1..<ntk + 1] @ map (\<lambda>i. (- int i, ntstates A ! i)) [0..<nnonter ?g + 1] =
        map (\<lambda>c. (sym_val vals c, ?h c)) ?cs"
    proof -
      have "tstates A ! i = ?h (int i)" if "i \<in> set [1..<ntk + 1]" for i
      proof -
        have "int i \<in> set ?cs" using that unfolding sym_list_def set_append set_map by blast
        from X(1) [OF this] that ntk show ?thesis by (auto simp: chain_head_def ent_def split: if_splits)
      qed
      moreover have "ntstates A ! i = ?h (NTBASE + int i)" if "i \<in> set [0..<nnonter ?g + 1]" for i
      proof -
        have "NTBASE + int i \<in> set ?cs" using that unfolding sym_list_def set_append set_map by blast
        from X(1) [OF this] show ?thesis by (auto simp: chain_head_def ent_def split: if_splits)
      qed
      moreover have "sym_val vals (int i) = int (vals i)" if "i \<in> set [1..<ntk + 1]" for i
        using that ntk by (auto simp: sym_val_def)
      ultimately show ?thesis by (simp add: sym_list_def sym_val_def del: upt_Suc)
    qed
    then show ?thesis using chk(1) by (simp add: yychk_def del: upt_Suc)
  qed
  ultimately show ?thesis using chk(2) unfolding chk_ok_def by blast
qed

end
