(* ===== verification/Ycomb.thy ===== *)
theory Ycomb
  imports Ypack
begin

text \<open>
  The overlaid rows of \<open>Ypack\<close> are decoded by the lookups of the parser: the invariant of
  the array and its preservation by \<open>gin\<close> and \<open>stin\<close>.
\<close>

subsection \<open>Rows the generator writes\<close>

text \<open>Each token, or state, occurs once in a row, and the state found is one that the token, or the
  nonterminal, leads to.\<close>

definition rows_ok :: "rows \<Rightarrow> int list \<Rightarrow> bool" where
  "rows_ok R chk \<longleftrightarrow> max_off R < 1000 \<and> length (grows R) < 1000 \<and>
    (\<forall>r \<in> set (srows R). distinct (map fst r) \<and> (\<forall>(k, v) \<in> set r. 0 < v \<and> chk_is chk v (int k))) \<and>
    (\<forall>g < length (grows R). distinct (map fst (fst (grows R ! g))) \<and>
      0 < snd (grows R ! g) \<and> chk_is chk (snd (grows R ! g)) (- int (g + 1)) \<and>
      (\<forall>(k, v) \<in> set (fst (grows R ! g)). 0 < v \<and> chk_is chk v (- int (g + 1))))"

lemma chk_is_inj: "chk_is chk w x \<Longrightarrow> chk_is chk w y \<Longrightarrow> x = y"
  by (simp add: chk_is_def)

lemma rows_okD:
  assumes "rows_ok R chk"
  shows "max_off R < 1000"
    and "i < length (srows R) \<Longrightarrow> distinct (map fst (srows R ! i))"
    and "i < length (srows R) \<Longrightarrow> (k, v) \<in> set (srows R ! i) \<Longrightarrow> 0 < v \<and> chk_is chk v (int k)"
    and "g < length (grows R) \<Longrightarrow> distinct (map fst (fst (grows R ! g)))"
    and "g < length (grows R) \<Longrightarrow> 0 < snd (grows R ! g) \<and> chk_is chk (snd (grows R ! g)) (- int (g + 1))"
    and "g < length (grows R) \<Longrightarrow> (k, v) \<in> set (fst (grows R ! g)) \<Longrightarrow> 0 < v \<and> chk_is chk v (- int (g + 1))"
  using assms by (auto simp: rows_ok_def)

subsection \<open>Stores\<close>

text \<open>Writing a row at computed places.\<close>

definition put_row :: "(nat \<Rightarrow> nat) \<Rightarrow> prow \<Rightarrow> int list \<Rightarrow> int list" where
  "put_row f r am = fold (\<lambda>e am. am[f (fst e) := snd e]) r am"

lemma gin_put_row: "gin_put am p r = put_row (\<lambda>k. p + k + 1) r am"
  by (induction r arbitrary: am) (simp_all add: put_row_def)

lemma stin_put_row:
  "stin_put am mx n r = (put_row (\<lambda>k. nat (int k + n)) r am, fold (\<lambda>e m. max m (nat (int (fst e) + n))) r mx)"
  by (induction r arbitrary: am mx) (simp_all add: put_row_def Let_def)

lemma length_put_row [simp]: "length (put_row f r am) = length am"
  unfolding put_row_def by (induction r arbitrary: am) auto

lemma put_row_other: "\<forall>(k, v) \<in> set r. f k \<noteq> c \<Longrightarrow> put_row f r am ! c = am ! c"
  unfolding put_row_def by (induction r arbitrary: am) auto

lemma put_row_at:
  assumes "distinct (map fst r)" "inj_on f (fst ` set r)" "(k, v) \<in> set r" "f k < length am"
  shows "put_row f r am ! f k = v"
  using assms
proof (induction r arbitrary: am)
  case (Cons e r)
  show ?case
  proof (cases "(k, v) = e")
    case True
    have "\<forall>(k', v') \<in> set r. f k' \<noteq> f k"
    proof safe
      fix k' v' assume "(k', v') \<in> set r" and eq: "f k' = f k"
      then have k': "k' \<in> fst ` set r" by force
      moreover have "k' = k" by (rule inj_onD [OF Cons.prems(2) eq]) (use k' True in force)+
      moreover have "k \<notin> fst ` set r" using Cons.prems(1) unfolding True [symmetric] by simp
      ultimately show False by metis
    qed
    from put_row_other [OF this, of "am[f k := v]"] True Cons.prems(4) show ?thesis
      by (auto simp: put_row_def)
  next
    case False
    with Cons.prems have "put_row f r (am[f (fst e) := snd e]) ! f k = v"
      by (intro Cons.IH) (auto simp: inj_on_def)
    then show ?thesis by (simp add: put_row_def)
  qed
qed simp

lemma fold_max_ge: "mx \<le> fold (\<lambda>e m. max m (f (fst e))) r mx \<and>
    (\<forall>(k, v) \<in> set r. f k \<le> fold (\<lambda>e m. max m (f (fst e))) r mx)" for f :: "nat \<Rightarrow> nat"
proof (induction r arbitrary: mx)
  case (Cons e r)
  show ?case using Cons [of "max mx (f (fst e))"] by auto
qed simp

subsection \<open>What the searches find\<close>

lemma gin_try_fits:
  "gin_try am p mx r = Some (True, mx') \<Longrightarrow> mx \<le> mx' \<and>
    (\<forall>(k, v) \<in> set r. p + k + 1 < length am \<and> am ! (p + k + 1) = 0 \<and> p + k + 1 \<le> mx')"
proof (induction r arbitrary: mx)
  case (Cons e r)
  then have "gin_try am p (max mx (p + fst e + 1)) r = Some (True, mx')"
    "p + fst e + 1 < length am" "am ! (p + fst e + 1) = 0"
    by (auto simp: Let_def split: if_splits)
  with Cons.IH [OF this(1)] show ?case by auto
qed simp

lemma gin_try_mx: "gin_try am p mx r = Some (b, mx') \<Longrightarrow> mx \<le> mx' \<and> (mx < length am \<longrightarrow> mx' < length am)"
proof (induction r arbitrary: mx)
  case (Cons e r)
  then show ?case by (fastforce simp: Let_def split: if_splits)
qed simp

lemma gin_find_fits:
  "gin_find am p mx r = Some (q, mx') \<Longrightarrow> mx \<le> mx' \<and> (mx < length am \<longrightarrow> mx' < length am) \<and> q < length am \<and> am ! q = 0 \<and>
    (\<forall>(k, v) \<in> set r. q + k + 1 < length am \<and> am ! (q + k + 1) = 0 \<and> q + k + 1 \<le> mx')"
proof (induction am p mx r rule: gin_find.induct)
  case (1 am p mx r)
  consider "length am \<le> p" | "p < length am" "am ! p \<noteq> 0" | "p < length am" "am ! p = 0" by linarith
  then show ?case
  proof cases
    case 3
    with 1(3) obtain b m where t: "gin_try am p mx r = Some (b, m)"
      "(if b then Some (p, m) else gin_find am (p + 1) m r) = Some (q, mx')"
      by (subst (asm) gin_find.simps) (auto split: option.splits)
    show ?thesis
    proof (cases b)
      case True
      with t gin_try_fits [of am p mx r m] gin_try_mx [of am p mx r b m] 3 show ?thesis by auto
    next
      case False
      with t have "gin_find am (p + 1) m r = Some (q, mx')" by simp
      from 1(2) [OF _ _ t(1) refl False this] 3 gin_try_mx [OF t(1)] show ?thesis by auto
    qed
  next
    case 2
    with 1(3) have "gin_find am (p + 1) mx r = Some (q, mx')" by (subst (asm) gin_find.simps) simp
    with 1(1) 2 show ?thesis by simp
  qed (use 1(3) in \<open>subst (asm) gin_find.simps, simp\<close>)
qed

lemma stin_try_fits:
  "stin_try am n r flag = Some (Some flag') \<Longrightarrow> flag \<le> flag' \<and>
    (\<forall>(k, v) \<in> set r. 0 \<le> int k + n \<and> nat (int k + n) < length am \<and>
      (am ! nat (int k + n) = 0 \<or> am ! nat (int k + n) = v)) \<and>
    (flag' = flag \<longrightarrow> (\<forall>(k, v) \<in> set r. am ! nat (int k + n) = v))"
proof (induction r arbitrary: flag)
  case (Cons e r)
  let ?s = "int (fst e) + n"
  have s: "0 \<le> ?s" "nat ?s < length am" using Cons.prems by (auto simp: Let_def split: if_splits)
  consider "am ! nat ?s = 0" "stin_try am n r (flag + 1) = Some (Some flag')"
    | "am ! nat ?s \<noteq> 0" "am ! nat ?s = snd e" "stin_try am n r flag = Some (Some flag')"
    using Cons.prems s by (auto simp: Let_def split: if_splits)
  then show ?case
  proof cases
    case 1
    from Cons.IH [OF 1(2)] 1(1) s show ?thesis by (cases e) auto
  next
    case 2
    from Cons.IH [OF 2(3)] 2(1,2) s show ?thesis by (cases e) auto
  qed
qed simp

lemma same_base_Some: "same_base xs n = Some j \<Longrightarrow> j < length xs \<and> xs ! j = n"
  by (induction xs arbitrary: j) (auto split: if_splits)

lemma same_base_None: "same_base xs n = None \<longleftrightarrow> n \<notin> set xs"
  by (induction xs) auto

text \<open>The two ways \<open>stin\<close> ends: sharing the base of an equal row, or at a new base.\<close>

definition stin_end :: "rows \<Rightarrow> nat \<Rightarrow> opt \<Rightarrow> int \<Rightarrow> opt \<Rightarrow> bool" where
  "stin_end R i z m z' \<longleftrightarrow>
    (\<exists>j. same_base (indgo z) m = Some j \<and> stin_try (amem z) m (srows R ! i) 0 = Some (Some 0) \<and>
      length (srows R ! j) = length (srows R ! i) \<and> z' = z\<lparr>indgo := (indgo z)[i := m]\<rparr>) \<or>
    (\<exists>flag. same_base (indgo z) m = None \<and> stin_try (amem z) m (srows R ! i) 0 = Some (Some flag) \<and>
      z' = z\<lparr>amem := put_row (\<lambda>k. nat (int k + m)) (srows R ! i) (amem z),
        maxa := fold (\<lambda>e x. max x (nat (int (fst e) + m))) (srows R ! i) (maxa z),
        indgo := (indgo z)[i := m]\<rparr>)"

lemma stin_find_end: "stin_find R i n z = Some z' \<Longrightarrow> \<exists>m \<ge> n. stin_end R i z m z'"
proof (induction R i n z rule: stin_find.induct)
  case (1 R i n z)
  from 1(3) have lt: "n < int (length (amem z))" by (subst (asm) stin_find.simps) (auto split: if_splits)
  with 1(3) obtain f where f: "stin_try (amem z) n (srows R ! i) 0 = Some f"
    by (subst (asm) stin_find.simps) (auto split: option.splits)
  have step: ?case if "stin_find R i (n + 1) z = Some z'" "\<exists>m \<ge> n + 1. stin_end R i z m z'"
    using that(2) by (meson add_le_same_cancel1 dual_order.trans int_one_le_iff_zero_less le_add_same_cancel1 zero_le_one)
  show ?case
  proof (cases f)
    case None
    with 1(3) lt f have "stin_find R i (n + 1) z = Some z'" by (subst (asm) stin_find.simps) simp
    with 1(1) lt f None step show ?thesis by simp
  next
    case (Some flag)
    show ?thesis
    proof (cases "same_base (indgo z) n")
      case None
      with 1(3) lt f Some have "stin_end R i z n z'"
        unfolding stin_end_def by (subst (asm) stin_find.simps) (simp add: Let_def stin_put_row)
      then show ?thesis by blast
    next
      case sb: (Some j)
      show ?thesis
      proof (cases "flag = 0 \<and> length (srows R ! j) = length (srows R ! i)")
        case True
        with 1(3) lt f Some sb have "stin_end R i z n z'"
          unfolding stin_end_def by (subst (asm) stin_find.simps) simp
        then show ?thesis by blast
      next
        case False
        with 1(3) lt f Some sb have "stin_find R i (n + 1) z = Some z'"
          by (subst (asm) stin_find.simps) (simp split: if_splits)
        with 1(2) [of "Some flag" flag j] lt f Some sb False step show ?thesis by simp
      qed
    qed
  qed
qed

subsection \<open>The invariant\<close>

definition placed :: "opt \<Rightarrow> nat \<Rightarrow> bool" where
  "placed z i \<longleftrightarrow> i < length (indgo z) \<and> indgo z ! i \<noteq> YYFLAG1"

definition gdone :: "opt \<Rightarrow> nat \<Rightarrow> bool" where
  "gdone z g \<longleftrightarrow> g < length (ggreed z) \<and> ggreed z ! g = 0"

text \<open>The cell \<open>c\<close> belongs to an entry of a row that was packed.\<close>

definition owned :: "rows \<Rightarrow> opt \<Rightarrow> nat \<Rightarrow> int \<Rightarrow> bool" where
  "owned R z c v \<longleftrightarrow>
    (\<exists>i k. placed z i \<and> (k, v) \<in> set (srows R ! i) \<and> int c = int k + indgo z ! i) \<or>
    (\<exists>g. gdone z g \<and> (c = pgo z ! g \<and> v = snd (grows R ! g) \<or>
      (\<exists>k. (k, v) \<in> set (fst (grows R ! g)) \<and> c = pgo z ! g + k + 1)))"

definition cell :: "opt \<Rightarrow> nat \<Rightarrow> int \<Rightarrow> bool" where
  "cell z c v \<longleftrightarrow> c < length (amem z) \<and> c \<le> maxa z \<and> amem z ! c = v"

definition sizes :: "rows \<Rightarrow> opt \<Rightarrow> bool" where
  "sizes R z \<longleftrightarrow> length (indgo z) = length (srows R) \<and> length (tyst z) = length (srows R) \<and>
    length (pgo z) = length (grows R) \<and> length (ggreed z) = length (grows R) \<and>
    maxa z < length (amem z)"

definition pinv :: "rows \<Rightarrow> opt \<Rightarrow> bool" where
  "pinv R z \<longleftrightarrow> sizes R z \<and>
    (\<forall>i < length (srows R). tyst z ! i = 0 \<longrightarrow> srows R ! i = [] \<or> placed z i) \<and>
    (\<forall>i. placed z i \<longrightarrow> tyst z ! i = 0) \<and>
    (\<forall>i < length (srows R). srows R ! i = [] \<longrightarrow> tyst z ! i = 0 \<and> \<not> placed z i) \<and>
    (\<forall>i. placed z i \<longrightarrow> - 1000 < indgo z ! i \<and>
      (\<forall>(k, v) \<in> set (srows R ! i). 0 \<le> int k + indgo z ! i \<and> cell z (nat (int k + indgo z ! i)) v)) \<and>
    (\<forall>g. gdone z g \<longrightarrow> cell z (pgo z ! g) (snd (grows R ! g)) \<and>
      (\<forall>(k, v) \<in> set (fst (grows R ! g)). cell z (pgo z ! g + k + 1) v)) \<and>
    (\<forall>c < length (amem z). amem z ! c \<noteq> 0 \<longrightarrow> owned R z c (amem z ! c)) \<and>
    (\<forall>i j. placed z i \<longrightarrow> placed z j \<longrightarrow> indgo z ! i = indgo z ! j \<longrightarrow>
      set (srows R ! i) = set (srows R ! j))"

lemma pinvD:
  assumes "pinv R z"
  shows "sizes R z"
    and "i < length (srows R) \<Longrightarrow> tyst z ! i = 0 \<Longrightarrow> srows R ! i = [] \<or> placed z i"
    and "placed z i \<Longrightarrow> - 1000 < indgo z ! i"
    and "placed z i \<Longrightarrow> (k, v) \<in> set (srows R ! i) \<Longrightarrow> 0 \<le> int k + indgo z ! i"
    and "placed z i \<Longrightarrow> (k, v) \<in> set (srows R ! i) \<Longrightarrow> cell z (nat (int k + indgo z ! i)) v"
    and "gdone z g \<Longrightarrow> cell z (pgo z ! g) (snd (grows R ! g))"
    and "gdone z g \<Longrightarrow> (k, v) \<in> set (fst (grows R ! g)) \<Longrightarrow> cell z (pgo z ! g + k + 1) v"
    and "c < length (amem z) \<Longrightarrow> amem z ! c \<noteq> 0 \<Longrightarrow> owned R z c (amem z ! c)"
    and "placed z i \<Longrightarrow> placed z j \<Longrightarrow> indgo z ! i = indgo z ! j \<Longrightarrow> set (srows R ! i) = set (srows R ! j)"
    and "placed z i \<Longrightarrow> tyst z ! i = 0"
    and "i < length (srows R) \<Longrightarrow> srows R ! i = [] \<Longrightarrow> tyst z ! i = 0 \<and> \<not> placed z i"
  using assms unfolding pinv_def by (blast, blast, blast, blast, blast, blast, blast, blast, blast, blast, blast)

lemma placed_lt: "sizes R z \<Longrightarrow> placed z i \<Longrightarrow> i < length (srows R)"
  by (simp add: sizes_def placed_def)

lemma gdone_lt: "sizes R z \<Longrightarrow> gdone z g \<Longrightarrow> g < length (grows R)"
  by (simp add: sizes_def gdone_def)

text \<open>Only the rows of the token, or of the nonterminal, that leads to a state hold it.\<close>

lemma owned_token:
  assumes ok: "rows_ok R chk" and inv: "pinv R z" and o: "owned R z c v" and chk: "chk_is chk v (int k)"
  obtains i where "placed z i" "(k, v) \<in> set (srows R ! i)" "int c = int k + indgo z ! i"
proof -
  have no: False if g: "gdone z g" and c: "chk_is chk v (- int (g + 1))" for g
    using chk_is_inj [OF chk c] by simp
  from o consider i k' where "placed z i" "(k', v) \<in> set (srows R ! i)" "int c = int k' + indgo z ! i"
    | g where "gdone z g" "v = snd (grows R ! g)" | g k' where "gdone z g" "(k', v) \<in> set (fst (grows R ! g))"
    unfolding owned_def by blast
  then show thesis
  proof cases
    case 1
    then have "chk_is chk v (int k')" using rows_okD(3) [OF ok] placed_lt [OF pinvD(1) [OF inv]] by blast
    with chk_is_inj [OF chk] have "k' = k" by force
    with 1 that show thesis by blast
  next
    case 2
    then show thesis using rows_okD(5) [OF ok gdone_lt [OF pinvD(1) [OF inv] 2(1)]] no by blast
  next
    case 3
    then show thesis using rows_okD(6) [OF ok gdone_lt [OF pinvD(1) [OF inv] 3(1)]] no by blast
  qed
qed

lemma owned_nonterm:
  assumes ok: "rows_ok R chk" and inv: "pinv R z" and o: "owned R z c v" and chk: "chk_is chk v (- int (g + 1))"
  shows "gdone z g \<and> (c = pgo z ! g \<and> v = snd (grows R ! g) \<or>
    (\<exists>k. (k, v) \<in> set (fst (grows R ! g)) \<and> c = pgo z ! g + k + 1))"
proof -
  have eq: "h = g" if "chk_is chk v (- int (h + 1))" for h
    using chk_is_inj [OF chk that] by simp
  from o consider i k' where "placed z i" "(k', v) \<in> set (srows R ! i)"
    | h where "gdone z h" "c = pgo z ! h \<and> v = snd (grows R ! h)"
    | h k' where "gdone z h" "(k', v) \<in> set (fst (grows R ! h))" "c = pgo z ! h + k' + 1"
    unfolding owned_def by blast
  then show ?thesis
  proof cases
    case 1
    then have "chk_is chk v (int k')" using rows_okD(3) [OF ok] placed_lt [OF pinvD(1) [OF inv]] by blast
    from chk_is_inj [OF chk this] show ?thesis by simp
  next
    case 2
    have "h = g" using rows_okD(5) [OF ok gdone_lt [OF pinvD(1) [OF inv] 2(1)]] 2 eq by blast
    with 2 show ?thesis by blast
  next
    case 3
    have "h = g" using rows_okD(6) [OF ok gdone_lt [OF pinvD(1) [OF inv] 3(1)] 3(2)] eq by blast
    with 3 show ?thesis by blast
  qed
qed

subsection \<open>Decoding\<close>

lemma map_of_distinct: "distinct (map fst r) \<Longrightarrow> map_of r k = Some v \<longleftrightarrow> (k, v) \<in> set r"
  by (rule map_of_eq_Some_iff)

lemma cell_nonzero: "cell z c v \<Longrightarrow> v \<noteq> 0 \<Longrightarrow> c < length (amem z) \<and> amem z ! c \<noteq> 0"
  by (auto simp: cell_def)

lemma shift_lookup_row:
  assumes ok: "rows_ok R chk" and inv: "pinv R z" and i: "i < length (srows R)" "tyst z ! i = 0"
    and c0: "\<not> chk_is chk 0 (int tok)"
  shows "shift_lookup z chk i tok = map_of (srows R ! i) tok"
proof (cases "placed z i")
  case False
  then have "srows R ! i = []" "indgo z ! i = YYFLAG1"
    using pinvD(2) [OF inv i] pinvD(1) [OF inv] i(1) by (auto simp: placed_def sizes_def)
  then show ?thesis by (simp add: shift_lookup_def)
next
  case pl: True
  let ?n = "indgo z ! i" and ?r = "srows R ! i"
  have mx: "maxa z < length (amem z)" using pinvD(1) [OF inv] by (simp add: sizes_def)
  let ?k = "?n + int tok"
  note d = map_of_distinct [OF rows_okD(2) [OF ok i(1)]]
  have n: "\<not> ?n \<le> YYFLAG1" using pinvD(3) [OF inv pl] by simp
  show ?thesis
  proof (cases "map_of ?r tok")
    case (Some v)
    then have v: "(tok, v) \<in> set ?r" using d by simp
    have "0 \<le> ?k" "cell z (nat ?k) v"
      using pinvD(4,5) [OF inv pl v] by (simp_all add: add.commute)
    then have k: "\<not> (?k < 0 \<or> int (maxa z + 1) \<le> ?k)" "amem z ! nat ?k = v"
      by (auto simp: cell_def)
    moreover have "chk_is chk v (int tok)" using rows_okD(3) [OF ok i(1) v] by simp
    ultimately show ?thesis using n Some by (simp add: shift_lookup_def Let_def)
  next
    case None
    have "\<not> chk_is chk (amem z ! nat ?k) (int tok)" if k: "0 \<le> ?k" "?k < int (maxa z + 1)"
    proof
      assume chk: "chk_is chk (amem z ! nat ?k) (int tok)"
      with c0 have "amem z ! nat ?k \<noteq> 0" by metis
      moreover have "nat ?k < length (amem z)" using k mx by simp
      ultimately have "owned R z (nat ?k) (amem z ! nat ?k)" using pinvD(8) [OF inv] by blast
      from owned_token [OF ok inv this chk] obtain j where j: "placed z j"
        "(tok, amem z ! nat ?k) \<in> set (srows R ! j)" "int (nat ?k) = int tok + indgo z ! j" by blast
      then have "indgo z ! j = ?n" using k(1) by simp
      with pinvD(9) [OF inv j(1) pl] j(2) have "(tok, amem z ! nat ?k) \<in> set ?r" by simp
      with d None show False by (metis option.distinct(1))
    qed
    then show ?thesis using n None by (auto simp: shift_lookup_def Let_def)
  qed
qed

lemma goto_lookup_row:
  assumes ok: "rows_ok R chk" and inv: "pinv R z" and g: "gdone z g"
    and c0: "\<not> chk_is chk 0 (- int (g + 1))"
  shows "goto_lookup z chk g s = (case map_of (fst (grows R ! g)) s of Some v \<Rightarrow> v | None \<Rightarrow> snd (grows R ! g))"
proof -
  let ?p = "pgo z ! g" and ?r = "fst (grows R ! g)"
  have mx: "maxa z < length (amem z)" using pinvD(1) [OF inv] by (simp add: sizes_def)
  have gl: "g < length (grows R)" using gdone_lt [OF pinvD(1) [OF inv] g] .
  note d = map_of_distinct [OF rows_okD(4) [OF ok gl]]
  have def: "amem z ! ?p = snd (grows R ! g)" using pinvD(6) [OF inv g] by (simp add: cell_def)
  show ?thesis
  proof (cases "map_of ?r s")
    case (Some v)
    then have v: "(s, v) \<in> set ?r" using d by simp
    have "cell z (?p + s + 1) v" by (rule pinvD(7) [OF inv g v])
    moreover have "chk_is chk v (- int (g + 1))" using rows_okD(6) [OF ok gl v] by simp
    ultimately show ?thesis using Some by (auto simp: goto_lookup_def Let_def cell_def)
  next
    case None
    have "\<not> chk_is chk (amem z ! (?p + s + 1)) (- int (g + 1))" if k: "?p + s + 1 < maxa z + 1"
    proof
      assume chk: "chk_is chk (amem z ! (?p + s + 1)) (- int (g + 1))"
      with c0 have "amem z ! (?p + s + 1) \<noteq> 0" by metis
      moreover have "?p + s + 1 < length (amem z)" using k mx by simp
      ultimately have "owned R z (?p + s + 1) (amem z ! (?p + s + 1))" using pinvD(8) [OF inv] by blast
      from owned_nonterm [OF ok inv this chk] have "(s, amem z ! (?p + s + 1)) \<in> set ?r" by auto
      with d None show False by (metis option.distinct(1))
    qed
    then show ?thesis using None def by (auto simp: goto_lookup_def Let_def)
  qed
qed

subsection \<open>Adding a row\<close>

text \<open>What was packed stays in place.\<close>

definition extends :: "opt \<Rightarrow> opt \<Rightarrow> bool" where
  "extends z z' \<longleftrightarrow> length (amem z') = length (amem z) \<and> maxa z \<le> maxa z' \<and>
    (\<forall>c < length (amem z). amem z ! c \<noteq> 0 \<longrightarrow> amem z' ! c = amem z ! c) \<and>
    (\<forall>j. placed z j \<longrightarrow> placed z' j \<and> indgo z' ! j = indgo z ! j) \<and>
    (\<forall>g. gdone z g \<longrightarrow> gdone z' g \<and> pgo z' ! g = pgo z ! g)"

lemma extends_cell: "extends z z' \<Longrightarrow> cell z c v \<Longrightarrow> 0 < v \<Longrightarrow> cell z' c v"
  by (auto simp: extends_def cell_def)

lemma extends_owned:
  assumes "extends z z'" "owned R z c v"
  shows "owned R z' c v"
proof -
  from assms(2) consider j k where "placed z j" "(k, v) \<in> set (srows R ! j)" "int c = int k + indgo z ! j"
    | g where "gdone z g" "c = pgo z ! g \<and> v = snd (grows R ! g) \<or>
        (\<exists>k. (k, v) \<in> set (fst (grows R ! g)) \<and> c = pgo z ! g + k + 1)"
    unfolding owned_def by blast
  then show ?thesis
  proof cases
    case 1
    with assms(1) show ?thesis unfolding owned_def extends_def by metis
  next
    case 2
    with assms(1) have "gdone z' g" "pgo z' ! g = pgo z ! g" by (auto simp: extends_def)
    with 2(2) show ?thesis unfolding owned_def by metis
  qed
qed

definition row_stored :: "rows \<Rightarrow> opt \<Rightarrow> nat \<Rightarrow> bool" where
  "row_stored R z i \<longleftrightarrow> - 1000 < indgo z ! i \<and>
    (\<forall>(k, v) \<in> set (srows R ! i). 0 \<le> int k + indgo z ! i \<and> cell z (nat (int k + indgo z ! i)) v)"

definition goto_stored :: "rows \<Rightarrow> opt \<Rightarrow> nat \<Rightarrow> bool" where
  "goto_stored R z g \<longleftrightarrow> cell z (pgo z ! g) (snd (grows R ! g)) \<and>
    (\<forall>(k, v) \<in> set (fst (grows R ! g)). cell z (pgo z ! g + k + 1) v)"

lemma pinv_stored:
  assumes "pinv R z"
  shows "placed z i \<Longrightarrow> row_stored R z i" "gdone z g \<Longrightarrow> goto_stored R z g"
  using assms unfolding pinv_def row_stored_def goto_stored_def by blast+

lemma extends_stored:
  assumes ok: "rows_ok R chk" and ex: "extends z z'" and sz: "sizes R z"
  shows "placed z i \<Longrightarrow> row_stored R z i \<Longrightarrow> row_stored R z' i"
    and "gdone z g \<Longrightarrow> goto_stored R z g \<Longrightarrow> goto_stored R z' g"
proof -
  assume p: "placed z i" and st: "row_stored R z i"
  have "cell z' (nat (int k + indgo z ! i)) v" if "(k, v) \<in> set (srows R ! i)" for k v
    using rows_okD(3) [OF ok placed_lt [OF sz p] that] extends_cell [OF ex] st that
    by (auto simp: row_stored_def)
  with ex p st show "row_stored R z' i" by (auto simp: row_stored_def extends_def)
next
  assume g: "gdone z g" and st: "goto_stored R z g"
  note gl = gdone_lt [OF sz g]
  have "cell z' (pgo z ! g + k + 1) v" if "(k, v) \<in> set (fst (grows R ! g))" for k v
    using rows_okD(6) [OF ok gl that] extends_cell [OF ex] st that by (auto simp: goto_stored_def)
  moreover have "cell z' (pgo z ! g) (snd (grows R ! g))"
    using rows_okD(5) [OF ok gl] extends_cell [OF ex] st by (auto simp: goto_stored_def)
  ultimately show "goto_stored R z' g" using ex g by (auto simp: goto_stored_def extends_def)
qed

lemma pinv_extend:
  assumes ok: "rows_ok R chk" and inv: "pinv R z" and ex: "extends z z'" and sz: "sizes R z'"
    and ty: "\<And>j. j < length (srows R) \<Longrightarrow> tyst z' ! j = 0 \<Longrightarrow> tyst z ! j = 0 \<or> placed z' j"
      "\<And>j. placed z' j \<Longrightarrow> tyst z' ! j = 0"
      "\<And>j. j < length (srows R) \<Longrightarrow> srows R ! j = [] \<Longrightarrow> tyst z' ! j = 0 \<and> \<not> placed z' j"
    and new: "\<And>j. placed z' j \<Longrightarrow> \<not> placed z j \<Longrightarrow> row_stored R z' j"
      "\<And>g. gdone z' g \<Longrightarrow> \<not> gdone z g \<Longrightarrow> goto_stored R z' g"
    and src: "\<And>c. c < length (amem z) \<Longrightarrow> amem z' ! c \<noteq> 0 \<Longrightarrow>
      amem z' ! c = amem z ! c \<or> owned R z' c (amem z' ! c)"
    and same: "\<And>i j. placed z' i \<Longrightarrow> \<not> placed z i \<Longrightarrow> placed z' j \<Longrightarrow> indgo z' ! i = indgo z' ! j \<Longrightarrow>
      set (srows R ! i) = set (srows R ! j)"
  shows "pinv R z'"
  unfolding pinv_def
proof (intro conjI allI impI)
  show "sizes R z'" by (rule sz)
next
  fix j assume j: "j < length (srows R)" "tyst z' ! j = 0"
  then show "srows R ! j = [] \<or> placed z' j"
    using ty(1) [OF j] pinvD(2) [OF inv] ex by (auto simp: extends_def)
next
  fix j assume "j < length (srows R)" "srows R ! j = []"
  from ty(3) [OF this] show "tyst z' ! j = 0" "\<not> placed z' j" by simp_all
next
  fix j assume "placed z' j"
  then have "row_stored R z' j"
    using new(1) pinv_stored(1) [OF inv] extends_stored(1) [OF ok ex pinvD(1) [OF inv]] by blast
  then show "- 1000 < indgo z' ! j"
    "\<forall>(k, v) \<in> set (srows R ! j). 0 \<le> int k + indgo z' ! j \<and> cell z' (nat (int k + indgo z' ! j)) v"
    by (simp_all add: row_stored_def)
next
  fix g assume "gdone z' g"
  then have "goto_stored R z' g"
    using new(2) pinv_stored(2) [OF inv] extends_stored(2) [OF ok ex pinvD(1) [OF inv]] by blast
  then show "cell z' (pgo z' ! g) (snd (grows R ! g))"
    "\<forall>(k, v) \<in> set (fst (grows R ! g)). cell z' (pgo z' ! g + k + 1) v"
    by (simp_all add: goto_stored_def)
next
  fix c assume c: "c < length (amem z')" "amem z' ! c \<noteq> 0"
  then have cz: "c < length (amem z)" using ex by (simp add: extends_def)
  from src [OF cz c(2)] show "owned R z' c (amem z' ! c)"
    using pinvD(8) [OF inv cz] extends_owned [OF ex] c(2) by auto
next
  fix i j assume p: "placed z' i" "placed z' j" "indgo z' ! i = indgo z' ! j"
  show "set (srows R ! i) = set (srows R ! j)"
  proof (cases "placed z i \<and> placed z j")
    case True
    with p(3) ex pinvD(9) [OF inv] show ?thesis by (auto simp: extends_def)
  next
    case False
    with same p show ?thesis by metis
  qed
qed (rule ty(2))

subsection \<open>Packing a goto row\<close>

lemma gin_store:
  assumes ok: "rows_ok R chk" and gi: "i < length (grows R)"
    and f: "gin_find am 0 mx0 (fst (grows R ! i)) = Some (p, mx)"
  defines "am' \<equiv> put_row (\<lambda>k. p + k + 1) (fst (grows R ! i)) (am[p := snd (grows R ! i)])"
  shows "am' ! p = snd (grows R ! i)"
    and "(k, v) \<in> set (fst (grows R ! i)) \<Longrightarrow> am' ! (p + k + 1) = v"
    and "am ! c \<noteq> 0 \<Longrightarrow> am' ! c = am ! c"
    and "am' ! c = am ! c \<or> c = p \<or> (\<exists>(k, v) \<in> set (fst (grows R ! i)). c = p + k + 1)"
proof -
  let ?r = "fst (grows R ! i)"
  note fit = gin_find_fits [OF f]
  show "am' ! p = snd (grows R ! i)"
    unfolding am'_def using fit put_row_other [of ?r "\<lambda>k. p + k + 1" p] by simp
  show "am' ! (p + k + 1) = v" if "(k, v) \<in> set ?r"
    unfolding am'_def using put_row_at [OF rows_okD(4) [OF ok gi] _ that, of "\<lambda>k. p + k + 1"] fit that
    by (auto simp: inj_on_def)
  have other: "am' ! c = am ! c" if "c \<noteq> p" "\<forall>(k, v) \<in> set ?r. p + k + 1 \<noteq> c" for c
    unfolding am'_def using put_row_other [OF that(2)] that(1) by simp
  show "am ! c \<noteq> 0 \<Longrightarrow> am' ! c = am ! c" by (rule other) (use fit in auto)
  show "am' ! c = am ! c \<or> c = p \<or> (\<exists>(k, v) \<in> set ?r. c = p + k + 1)"
    using other [of c] by blast
qed

lemma pinv_gin:
  assumes ok: "rows_ok R chk" and inv: "pinv R z" and i: "i < length (ggreed z)" "0 < ggreed z ! i"
    and z': "gin R i z = Some z'"
  shows "pinv R z'"
proof -
  let ?r = "fst (grows R ! i)" and ?d = "snd (grows R ! i)"
  note sz = pinvD(1) [OF inv]
  have gi: "i < length (grows R)" using i(1) sz by (simp add: sizes_def)
  obtain p mx where f: "gin_find (amem z) 0 (maxa z) ?r = Some (p, mx)"
    and e: "z' = z\<lparr>ggreed := (ggreed z)[i := 0], amem := put_row (\<lambda>k. p + k + 1) ?r ((amem z)[p := ?d]),
         maxa := max mx p, pgo := (pgo z)[i := p]\<rparr>"
    using z' by (auto simp: gin_def Let_def gin_put_row split: option.splits)
  have fit: "maxa z \<le> mx" "mx < length (amem z)" "p < length (amem z)"
    "\<And>k v. (k, v) \<in> set ?r \<Longrightarrow> p + k + 1 < length (amem z) \<and> p + k + 1 \<le> mx"
    using gin_find_fits [OF f] sz by (auto simp: sizes_def)
  note st = gin_store [OF ok gi f]
  have pl: "placed z' j \<longleftrightarrow> placed z j" "indgo z' = indgo z" "tyst z' = tyst z" for j
    by (simp_all add: e placed_def)
  have nd: "\<not> gdone z i" using i(2) by (simp add: gdone_def)
  have gd: "gdone z' g \<longleftrightarrow> g = i \<or> gdone z g" for g
    using i(1) by (auto simp: e gdone_def nth_list_update)
  have pg: "pgo z' ! g = (if g = i then p else pgo z ! g)" for g
    using gi sz by (auto simp: e sizes_def)
  have am: "amem z' = put_row (\<lambda>k. p + k + 1) ?r ((amem z)[p := ?d])" "maxa z' = max mx p"
    by (simp_all add: e)
  show ?thesis
  proof (rule pinv_extend [OF ok inv])
    show "extends z z'"
      unfolding extends_def using st(3) fit(1) nd gd pg pl by (auto simp: am)
    show "sizes R z'" using sz fit by (simp add: sizes_def e)
    show "tyst z' ! j = 0 \<Longrightarrow> tyst z ! j = 0 \<or> placed z' j" for j by (simp add: pl)
    show "placed z' j \<Longrightarrow> tyst z' ! j = 0" for j using pinvD(10) [OF inv] by (simp add: pl)
    show "j < length (srows R) \<Longrightarrow> srows R ! j = [] \<Longrightarrow> tyst z' ! j = 0 \<and> \<not> placed z' j" for j
      using pinvD(11) [OF inv] by (simp add: pl)
    show "placed z' j \<Longrightarrow> \<not> placed z j \<Longrightarrow> row_stored R z' j" for j by (simp add: pl)
    have stored: "goto_stored R z' i"
    proof -
      have "cell z' p ?d" using st(1) fit by (simp add: cell_def am)
      moreover have "cell z' (p + k + 1) v" if "(k, v) \<in> set ?r" for k v
        using st(2) [OF that] fit(4) [OF that] fit(1) by (simp add: cell_def am)
      ultimately show ?thesis using pg [of i] by (auto simp: goto_stored_def)
    qed
    show "goto_stored R z' g" if "gdone z' g" "\<not> gdone z g" for g
      using that gd [of g] stored by auto
    show "amem z' ! c = amem z ! c \<or> owned R z' c (amem z' ! c)" for c
    proof -
      consider "amem z' ! c = amem z ! c" | "c = p" | k v where "(k, v) \<in> set ?r" "c = p + k + 1"
        using st(4) [of c] by (auto simp: am)
      then show ?thesis
      proof cases
        case 2
        with st(1) have "amem z' ! c = ?d" by (simp add: am)
        with 2 gd [of i] pg [of i] show ?thesis unfolding owned_def by auto
      next
        case 3
        with st(2) have "amem z' ! c = v" by (simp add: am)
        with 3 gd [of i] pg [of i] show ?thesis unfolding owned_def by auto
      qed simp
    qed
    show "set (srows R ! j) = set (srows R ! j')"
      if "placed z' j" "\<not> placed z j" for j j' using that pl(1) by blast
  qed
qed

subsection \<open>Packing a state row\<close>

lemma same_row:
  assumes ok: "rows_ok R chk" and inv: "pinv R z" and i: "i < length (srows R)"
    and t: "stin_try (amem z) m (srows R ! i) 0 = Some (Some flag)"
    and e: "(k, v) \<in> set (srows R ! i)" "amem z ! nat (int k + m) \<noteq> 0"
  obtains j where "placed z j" "indgo z ! j = m" "(k, v) \<in> set (srows R ! j)"
proof -
  from stin_try_fits [OF t] e have a: "amem z ! nat (int k + m) = v" "0 \<le> int k + m"
    "nat (int k + m) < length (amem z)" by auto
  have chk: "chk_is chk v (int k)" using rows_okD(3) [OF ok i e(1)] by simp
  from pinvD(8) [OF inv a(3) e(2)] have "owned R z (nat (int k + m)) v" using a(1) by simp
  from owned_token [OF ok inv this chk] obtain j where
    "placed z j" "(k, v) \<in> set (srows R ! j)" "int (nat (int k + m)) = int k + indgo z ! j" by blast
  with a(2) that show thesis by simp
qed

text \<open>The array after a state row: nothing lost, the row in place, nothing else added, and the
  rows with this base are the same.\<close>

definition row_added :: "rows \<Rightarrow> nat \<Rightarrow> int \<Rightarrow> opt \<Rightarrow> int list \<Rightarrow> nat \<Rightarrow> bool" where
  "row_added R i m z am mx \<longleftrightarrow> length am = length (amem z) \<and> maxa z \<le> mx \<and> mx < length (amem z) \<and>
    (\<forall>c < length (amem z). amem z ! c \<noteq> 0 \<longrightarrow> am ! c = amem z ! c) \<and>
    (\<forall>(k, v) \<in> set (srows R ! i). am ! nat (int k + m) = v \<and> nat (int k + m) \<le> mx) \<and>
    (\<forall>c < length (amem z). am ! c = amem z ! c \<or>
      (\<exists>(k, v) \<in> set (srows R ! i). c = nat (int k + m) \<and> am ! c = v)) \<and>
    (\<forall>j. placed z j \<longrightarrow> indgo z ! j = m \<longrightarrow> set (srows R ! j) = set (srows R ! i))"

lemma row_shared:
  assumes ok: "rows_ok R chk" and inv: "pinv R z" and i: "i < length (srows R)"
    and t: "stin_try (amem z) m (srows R ! i) 0 = Some (Some 0)" and mb: "- 1000 < m"
    and j: "same_base (indgo z) m = Some j" and len: "length (srows R ! j) = length (srows R ! i)"
  shows "row_added R i m z (amem z) (maxa z)"
proof -
  let ?r = "srows R ! i"
  note sz = pinvD(1) [OF inv]
  from same_base_Some [OF j] mb have pj: "placed z j" "indgo z ! j = m" by (auto simp: placed_def)
  have lj: "j < length (srows R)" by (rule placed_lt [OF sz pj(1)])
  have full: "amem z ! nat (int k + m) = v" if "(k, v) \<in> set ?r" for k v
    using stin_try_fits [OF t] that by auto
  have "set ?r \<subseteq> set (srows R ! j)"
  proof safe
    fix k v assume kv: "(k, v) \<in> set ?r"
    then have "amem z ! nat (int k + m) \<noteq> 0" using full rows_okD(3) [OF ok i kv] by simp
    from same_row [OF ok inv i t kv this] obtain j' where
      "placed z j'" "indgo z ! j' = m" "(k, v) \<in> set (srows R ! j')" by blast
    then show "(k, v) \<in> set (srows R ! j)" using pinvD(9) [OF inv _ pj(1)] pj(2) by auto
  qed
  moreover have "card (set ?r) = card (set (srows R ! j))"
    using len rows_okD(2) [OF ok i] rows_okD(2) [OF ok lj] by (simp add: distinct_card distinct_map)
  ultimately have eq: "set ?r = set (srows R ! j)" by (intro card_subset_eq) simp_all
  have "nat (int k + m) \<le> maxa z" if "(k, v) \<in> set ?r" for k v
    using pinvD(5) [OF inv pj(1), of k v] that eq pj(2) by (simp add: cell_def)
  moreover have "set (srows R ! j') = set ?r" if "placed z j'" "indgo z ! j' = m" for j'
    using pinvD(9) [OF inv that(1) pj(1)] that(2) pj(2) eq by simp
  ultimately show ?thesis using full sz by (auto simp: row_added_def sizes_def)
qed

lemma fold_max_less:
  "a < N \<Longrightarrow> \<forall>(k, v) \<in> set r. f k < N \<Longrightarrow> fold (\<lambda>e x. max x (f (fst e))) r a < (N :: nat)"
  by (induction r arbitrary: a) auto

lemma row_fresh:
  assumes ok: "rows_ok R chk" and inv: "pinv R z" and i: "i < length (srows R)"
    and t: "stin_try (amem z) m (srows R ! i) 0 = Some (Some flag)"
    and sb: "same_base (indgo z) m = None"
  shows "row_added R i m z (put_row (\<lambda>k. nat (int k + m)) (srows R ! i) (amem z))
    (fold (\<lambda>e x. max x (nat (int (fst e) + m))) (srows R ! i) (maxa z))"
proof -
  let ?r = "srows R ! i" and ?f = "\<lambda>k. nat (int k + m)"
  let ?am = "put_row ?f ?r (amem z)" and ?mx = "fold (\<lambda>e x. max x (?f (fst e))) ?r (maxa z)"
  have fit: "0 \<le> int k + m" "?f k < length (amem z)" if "(k, v) \<in> set ?r" for k v
    using stin_try_fits [OF t] that by auto
  have none: "\<not> (placed z j \<and> indgo z ! j = m)" for j
    using sb by (auto simp: same_base_None placed_def)
  have zero: "amem z ! ?f k = 0" if "(k, v) \<in> set ?r" for k v
    using same_row [OF ok inv i t that] none by blast
  have inj: "inj_on ?f (fst ` set ?r)"
  proof (rule inj_onI)
    fix x y assume "x \<in> fst ` set ?r" "y \<in> fst ` set ?r" "?f x = ?f y"
    moreover from this have "0 \<le> int x + m" "0 \<le> int y + m" using fit(1) by auto
    ultimately show "x = y" by simp
  qed
  have at: "?am ! ?f k = v" if "(k, v) \<in> set ?r" for k v
    by (rule put_row_at [OF rows_okD(2) [OF ok i] inj that fit(2) [OF that]])
  have other: "?am ! c = amem z ! c" if "\<forall>(k, v) \<in> set ?r. ?f k \<noteq> c" for c
    by (rule put_row_other [OF that])
  have "?am ! c = amem z ! c" if "amem z ! c \<noteq> 0" for c by (rule other) (use that zero in auto)
  moreover have "?am ! c = amem z ! c \<or> (\<exists>(k, v) \<in> set ?r. c = ?f k \<and> ?am ! c = v)" for c
    using other [of c] at by fastforce
  moreover have "?mx < length (amem z)"
    by (rule fold_max_less) (use pinvD(1) [OF inv] fit(2) in \<open>auto simp: sizes_def\<close>)
  moreover have "maxa z \<le> ?mx" "\<forall>(k, v) \<in> set ?r. ?f k \<le> ?mx"
    using fold_max_ge [of "maxa z" ?f ?r] by blast+
  ultimately show ?thesis using at none by (auto simp: row_added_def)
qed

lemma pinv_row_added:
  assumes ok: "rows_ok R chk" and inv: "pinv R z" and i: "i < length (srows R)" "0 < tyst z ! i"
    and mb: "- 1000 < m" and fit: "\<forall>(k, v) \<in> set (srows R ! i). 0 \<le> int k + m \<and> nat (int k + m) < length (amem z)"
    and ra: "row_added R i m z am mx"
  shows "pinv R (z\<lparr>amem := am, maxa := mx, indgo := (indgo z)[i := m], tyst := (tyst z)[i := 0]\<rparr>)"
    (is "pinv R ?z")
proof (rule pinv_extend [OF ok inv])
  note sz = pinvD(1) [OF inv]
  have np: "\<not> placed z i" using pinvD(10) [OF inv, of i] i(2) by auto
  have pl: "placed ?z j \<longleftrightarrow> j = i \<or> placed z j" for j
    using i(1) sz mb by (auto simp: placed_def sizes_def nth_list_update)
  have ix: "indgo ?z ! j = (if j = i then m else indgo z ! j)" if "placed ?z j" for j
    using that sz by (auto simp: placed_def nth_list_update)
  have gd: "gdone ?z g \<longleftrightarrow> gdone z g" for g by (simp add: gdone_def)
  show ex: "extends z ?z"
    using ra np pl ix gd by (auto simp: extends_def row_added_def)
  show "sizes R ?z" using sz ra by (simp add: sizes_def row_added_def)
  show "tyst ?z ! j = 0 \<Longrightarrow> tyst z ! j = 0 \<or> placed ?z j" for j using pl by (cases "j = i") auto
  show "placed ?z j \<Longrightarrow> tyst ?z ! j = 0" for j
    using pl [of j] pinvD(10) [OF inv, of j] i(1) sz by (auto simp: nth_list_update sizes_def)
  have "srows R ! i \<noteq> []" using pinvD(11) [OF inv, of i] i by auto
  then show "j < length (srows R) \<Longrightarrow> srows R ! j = [] \<Longrightarrow> tyst ?z ! j = 0 \<and> \<not> placed ?z j" for j
    using pinvD(11) [OF inv, of j] pl [of j] by (cases "j = i") auto
  show "placed ?z j \<Longrightarrow> \<not> placed z j \<Longrightarrow> row_stored R ?z j" for j
    using pl [of j] ix [of j] ra fit mb by (auto simp: row_stored_def cell_def row_added_def)
  show "gdone ?z g \<Longrightarrow> \<not> gdone z g \<Longrightarrow> goto_stored R ?z g" for g using gd by simp
  show "amem ?z ! c = amem z ! c \<or> owned R ?z c (amem ?z ! c)" if "c < length (amem z)" for c
  proof -
    from ra that have "am ! c = amem z ! c \<or> (\<exists>(k, v) \<in> set (srows R ! i). c = nat (int k + m) \<and> am ! c = v)"
      by (auto simp: row_added_def)
    then show ?thesis
    proof
      assume "\<exists>(k, v) \<in> set (srows R ! i). c = nat (int k + m) \<and> am ! c = v"
      then obtain k where "(k, am ! c) \<in> set (srows R ! i)" "c = nat (int k + m)" by blast
      with pl [of i] ix [of i] fit have "placed ?z i \<and> (k, am ! c) \<in> set (srows R ! i) \<and> int c = int k + indgo ?z ! i"
        by auto
      then have "owned R ?z c (am ! c)" unfolding owned_def by blast
      then show ?thesis by simp
    qed simp
  qed
  show "set (srows R ! j) = set (srows R ! j')"
    if "placed ?z j" "\<not> placed z j" "placed ?z j'" "indgo ?z ! j = indgo ?z ! j'" for j j'
  proof -
    have "j = i" using that(1,2) pl by blast
    show ?thesis
    proof (cases "j' = i")
      case False
      with that(3) pl have "placed z j'" by blast
      moreover have "indgo z ! j' = m" using ix [OF that(1)] ix [OF that(3)] that(4) \<open>j = i\<close> False by simp
      ultimately show ?thesis using ra \<open>j = i\<close> by (auto simp: row_added_def)
    qed (simp add: \<open>j = i\<close>)
  qed
qed

lemma stin_end_row:
  assumes ok: "rows_ok R chk" and inv: "pinv R z" and i: "i < length (srows R)" and mb: "- 1000 < m"
    and e: "stin_end R i (z\<lparr>tyst := (tyst z)[i := 0]\<rparr>) m z'"
  shows "\<exists>am mx flag. z' = z\<lparr>amem := am, maxa := mx, indgo := (indgo z)[i := m], tyst := (tyst z)[i := 0]\<rparr> \<and>
    stin_try (amem z) m (srows R ! i) 0 = Some (Some flag) \<and> row_added R i m z am mx"
  using e unfolding stin_end_def
proof (elim disjE exE conjE, goal_cases)
  case (1 j)
  then have t: "stin_try (amem z) m (srows R ! i) 0 = Some (Some 0)" and j: "same_base (indgo z) m = Some j" by simp_all
  from 1 have "z' = z\<lparr>amem := amem z, maxa := maxa z, indgo := (indgo z)[i := m], tyst := (tyst z)[i := 0]\<rparr>" by simp
  with t row_shared [OF ok inv i t mb j 1(3)] show ?case by blast
next
  case (2 flag)
  then have t: "stin_try (amem z) m (srows R ! i) 0 = Some (Some flag)" and n: "same_base (indgo z) m = None" by simp_all
  from 2 have "z' = z\<lparr>amem := put_row (\<lambda>k. nat (int k + m)) (srows R ! i) (amem z),
      maxa := fold (\<lambda>e x. max x (nat (int (fst e) + m))) (srows R ! i) (maxa z),
      indgo := (indgo z)[i := m], tyst := (tyst z)[i := 0]\<rparr>" by simp
  with t row_fresh [OF ok inv i t n] show ?case by blast
qed

lemma pinv_stin:
  assumes ok: "rows_ok R chk" and inv: "pinv R z" and i: "i < length (tyst z)" "0 < tyst z ! i"
    and z': "stin R (max_off R) i z = Some z'"
  shows "pinv R z'"
proof -
  let ?z = "z\<lparr>tyst := (tyst z)[i := 0]\<rparr>"
  have si: "i < length (srows R)" using i(1) pinvD(1) [OF inv] by (simp add: sizes_def)
  from z' obtain m where m: "- int (max_off R) \<le> m" "stin_end R i ?z m z'"
    using stin_find_end unfolding stin_def by blast
  have mb: "- 1000 < m" using m(1) rows_okD(1) [OF ok] by simp
  from stin_end_row [OF ok inv si mb m(2)] obtain am mx flag where
    z'_eq: "z' = z\<lparr>amem := am, maxa := mx, indgo := (indgo z)[i := m], tyst := (tyst z)[i := 0]\<rparr>"
    and t: "stin_try (amem z) m (srows R ! i) 0 = Some (Some flag)"
    and ra: "row_added R i m z am mx" by blast
  have "\<forall>(k, v) \<in> set (srows R ! i). 0 \<le> int k + m \<and> nat (int k + m) < length (amem z)"
    using stin_try_fits [OF t] by auto
  from pinv_row_added [OF ok inv si i(2) mb this ra] show ?thesis unfolding z'_eq .
qed

subsection \<open>The whole packing\<close>

lemma pinv_init:
  assumes "rows_ok R chk" "0 < actsize"
  shows "pinv R (opt_init actsize R)"
proof -
  have "state_weight r = 0 \<Longrightarrow> r = []" for r by (simp add: state_weight_def)
  then have "\<forall>i < length (srows R). tyst (opt_init actsize R) ! i = 0 \<longrightarrow> srows R ! i = []"
    by (simp add: opt_init_def)
  moreover have "\<not> placed (opt_init actsize R) i" for i by (auto simp: placed_def opt_init_def)
  moreover have "tyst (opt_init actsize R) ! i = 0" if "i < length (srows R)" "srows R ! i = []" for i
    using that by (simp add: opt_init_def state_weight_def max_key_def)
  moreover have "\<not> gdone (opt_init actsize R) g" for g
    by (auto simp: gdone_def opt_init_def goto_weight_def)
  ultimately show ?thesis
    using assms(2) by (auto simp: pinv_def sizes_def opt_init_def)
qed

lemma pinv_step:
  assumes "rows_ok R chk" "pinv R z" "is_job z i" "opt_step R i z = Some z'"
  shows "pinv R z'"
proof (cases "0 \<le> i")
  case True
  with assms show ?thesis by (intro pinv_stin [OF assms(1,2)]) (auto simp: opt_step_def is_job_def)
next
  case False
  with assms show ?thesis by (intro pinv_gin [OF assms(1,2)]) (auto simp: opt_step_def is_job_def)
qed

lemma nxti_none:
  assumes "nxti z = NOMORE" "length (ggreed z) < 1000"
  shows "(\<forall>w \<in> set (tyst z). w = 0) \<and> (\<forall>w \<in> set (ggreed z). w = 0)"
proof -
  let ?b = "best (\<lambda>i. - int (i + 1)) 0 (ggreed z) (0, 0)"
  let ?c = "best int 0 (tyst z) ?b"
  have "fst ?c = 0"
  proof (rule ccontr)
    assume n: "fst ?c \<noteq> 0"
    have "fst ?b = 0 \<or> - 1000 < snd ?b"
      by (rule best_mem [where P = "\<lambda>w i. - 1000 < i"]) (use assms(2) in auto)
    then have "fst ?c = 0 \<or> - 1000 < snd ?c"
      by (rule best_mem [where P = "\<lambda>w i. - 1000 < i"]) auto
    with n assms(1) show False by (simp add: nxti_def Let_def)
  qed
  then show ?thesis
    using best_ge [of ?b int 0 "tyst z"] best_ge [of "(0, 0)" "\<lambda>i. - int (i + 1)" 0 "ggreed z"] by auto
qed

lemma pack_loop_inv:
  assumes "rows_ok R chk" "pinv R z" "pack_loop R z = Some z'"
  shows "pinv R z' \<and> (\<forall>w \<in> set (tyst z'). w = 0) \<and> (\<forall>w \<in> set (ggreed z'). w = 0)"
  using assms
proof (induction R z rule: pack_loop.induct)
  case (1 R z)
  show ?case
  proof (cases "nxti z = NOMORE")
    case True
    with 1(4) have "z' = z" by (subst (asm) pack_loop.simps) simp
    moreover have "length (ggreed z) < 1000" using pinvD(1) [OF 1(3)] 1(2) by (simp add: sizes_def rows_ok_def)
    ultimately show ?thesis using nxti_none [OF True] 1(3) by simp
  next
    case False
    with 1(4) obtain z1 where z1: "opt_step R (nxti z) z = Some z1" "pack_loop R z1 = Some z'"
      by (subst (asm) pack_loop.simps) (auto split: option.splits)
    from pinv_step [OF 1(2,3) nxti_job [OF False] z1(1)] 1(1) [OF False z1(1) 1(2) _ z1(2)] show ?thesis by blast
  qed
qed

lemma callopt_inv:
  assumes "rows_ok R chk" "0 < actsize" "callopt actsize R = Some z"
  shows "pinv R z \<and> (\<forall>i < length (srows R). tyst z ! i = 0) \<and> (\<forall>g < length (grows R). gdone z g)"
proof -
  from pack_loop_inv [OF assms(1) pinv_init [OF assms(1,2)]] assms(3)
  have *: "pinv R z" "\<forall>w \<in> set (tyst z). w = 0" "\<forall>w \<in> set (ggreed z). w = 0"
    by (simp_all add: callopt_def)
  with pinvD(1) [OF *(1)] show ?thesis by (simp add: sizes_def gdone_def)
qed

subsection \<open>The array is long enough\<close>

text \<open>The largest key; a row always fits behind what is packed, so each takes at most so many cells
  more.\<close>

definition spread :: "rows \<Rightarrow> nat" where
  "spread R = fold max (map fst (concat (srows R) @ concat (map fst (grows R)))) 0"

definition cells_needed :: "rows \<Rightarrow> nat" where
  "cells_needed R = (length (srows R) + length (grows R)) * (spread R + 2) + 1"

definition jobs :: "opt \<Rightarrow> nat" where
  "jobs z = length (filter (\<lambda>w. 0 < w) (tyst z)) + length (filter (\<lambda>w. 0 < w) (ggreed z))"

lemma fold_max_mem: "(a :: nat) \<le> fold max xs a \<and> (\<forall>x \<in> set xs. x \<le> fold max xs a)"
proof (induction xs arbitrary: a)
  case (Cons x xs)
  show ?case using Cons [of "max x a"] by auto
qed simp

lemma spread_ge:
  shows "i < length (srows R) \<Longrightarrow> (k, v) \<in> set (srows R ! i) \<Longrightarrow> k \<le> spread R"
    and "g < length (grows R) \<Longrightarrow> (k, v) \<in> set (fst (grows R ! g)) \<Longrightarrow> k \<le> spread R"
proof -
  let ?xs = "map fst (concat (srows R) @ concat (map fst (grows R)))"
  have le: "k \<in> set ?xs \<Longrightarrow> k \<le> spread R" for k using fold_max_mem [of 0 ?xs] by (simp add: spread_def)
  show "k \<le> spread R" if "i < length (srows R)" "(k, v) \<in> set (srows R ! i)"
  proof (rule le)
    have "(k, v) \<in> set (concat (srows R))" using that nth_mem by (metis UN_I set_concat)
    then show "k \<in> set ?xs" by force
  qed
  show "k \<le> spread R" if "g < length (grows R)" "(k, v) \<in> set (fst (grows R ! g))"
  proof (rule le)
    have "(k, v) \<in> set (concat (map fst (grows R)))" using that nth_mem by fastforce
    then show "k \<in> set ?xs" by force
  qed
qed

lemma gin_try_total:
  assumes "\<forall>(k, v) \<in> set r. k \<le> M" "p + M + 1 < length am"
  shows "\<exists>b mx'. gin_try am p mx r = Some (b, mx') \<and> mx' \<le> max mx (p + M + 1) \<and>
    ((\<forall>c. p < c \<and> c < length am \<longrightarrow> am ! c = 0) \<longrightarrow> b)"
  using assms
proof (induction r arbitrary: mx)
  case (Cons e r)
  let ?s = "p + fst e + 1"
  have s: "?s \<le> p + M + 1" using Cons.prems(1) by auto
  show ?case
  proof (cases "am ! ?s = 0")
    case True
    obtain b mx' where i: "gin_try am p (max mx ?s) r = Some (b, mx')"
      "mx' \<le> max (max mx ?s) (p + M + 1)" "(\<forall>c. p < c \<and> c < length am \<longrightarrow> am ! c = 0) \<longrightarrow> b"
      using Cons.IH [of "max mx ?s"] Cons.prems by auto
    have "gin_try am p mx (e # r) = Some (b, mx')" using i(1) True s Cons.prems(2) by (simp add: Let_def)
    moreover have "mx' \<le> max mx (p + M + 1)" using i(2) s by simp
    ultimately show ?thesis using i(3) by blast
  next
    case False
    then have "gin_try am p mx (e # r) = Some (False, mx)" using s Cons.prems(2) by (simp add: Let_def)
    moreover have "p < ?s" "?s < length am" using s Cons.prems(2) by simp_all
    ultimately show ?thesis using False by (metis max.cobounded1)
  qed
qed (auto intro!: exI [of _ True])

lemma gin_find_total:
  assumes "p \<le> q" "q + M + 1 < length am" "\<forall>c. q \<le> c \<and> c < length am \<longrightarrow> am ! c = 0"
    and "\<forall>(k, v) \<in> set r. k \<le> M"
  shows "\<exists>p' mx'. gin_find am p mx r = Some (p', mx') \<and> mx' \<le> max mx (q + M + 1) \<and> p' \<le> q"
  using assms
proof (induction am p mx r rule: gin_find.induct)
  case (1 am p mx r)
  show ?case
  proof (cases "am ! p = 0")
    case False
    then have "p < q" using 1(3-5) by (cases "p = q") auto
    with 1(1) [OF _ False] 1(3-6) False show ?thesis by (subst gin_find.simps) auto
  next
    case True
    from gin_try_total [OF 1(6), of p am mx] 1(3,4) obtain b m where
      t: "gin_try am p mx r = Some (b, m)" "m \<le> max mx (p + M + 1)"
      "(\<forall>c. p < c \<and> c < length am \<longrightarrow> am ! c = 0) \<longrightarrow> b" by auto
    show ?thesis
    proof (cases b)
      case True
      with t \<open>am ! p = 0\<close> 1(3,4) show ?thesis by (subst gin_find.simps) auto
    next
      case False
      with t(3) 1(3,5) have "p < q" by (metis le_neq_implies_less less_imp_le)
      then have p1: "p + 1 \<le> q" and pl: "p < length am" using 1(4) by simp_all
      from 1(2) [OF _ _ t(1) refl False p1 1(4-6)] pl True obtain p' mx' where
        "gin_find am (p + 1) m r = Some (p', mx')" "mx' \<le> max m (q + M + 1)" "p' \<le> q" by auto
      with False t True pl \<open>p < q\<close> show ?thesis by (subst gin_find.simps) auto
    qed
  qed
qed

definition clear :: "int list \<Rightarrow> int \<Rightarrow> prow \<Rightarrow> bool" where
  "clear am n r \<longleftrightarrow> (\<forall>(k, v) \<in> set r. 0 \<le> int k + n \<and> am ! nat (int k + n) = 0)"

lemma clear_Cons: "clear am n (e # r) \<longleftrightarrow> 0 \<le> int (fst e) + n \<and> am ! nat (int (fst e) + n) = 0 \<and> clear am n r"
  by (cases e) (simp add: clear_def)

lemma stin_try_total:
  assumes "\<forall>(k, v) \<in> set r. k \<le> M" "n + int M < int (length am)"
  shows "\<exists>x. stin_try am n r flag = Some x \<and>
    (clear am n r \<longrightarrow> x \<noteq> None)"
  using assms
proof (induction r arbitrary: flag)
  case (Cons e r)
  then have "\<not> int (length am) \<le> int (fst e) + n" by auto
  moreover have "\<exists>x. stin_try am n r flag = Some x \<and> (clear am n r \<longrightarrow> x \<noteq> None)" for flag
    using Cons.IH [of flag] Cons.prems by simp
  from this [of flag] this [of "flag + 1"] obtain x y where
    "stin_try am n r flag = Some x" "stin_try am n r (flag + 1) = Some y"
    "clear am n r \<longrightarrow> x \<noteq> None \<and> y \<noteq> None" by blast
  ultimately show ?case by (auto simp: Let_def clear_Cons)
qed simp

lemma stin_find_total:
  assumes "n \<le> int q" "q + M < length (amem z)" "\<forall>c. q \<le> c \<and> c < length (amem z) \<longrightarrow> amem z ! c = 0"
    and "\<forall>(k, v) \<in> set (srows R ! i). k \<le> M" "int q \<notin> set (indgo z)"
  shows "\<exists>z'. stin_find R i n z = Some z' \<and> length (amem z') = length (amem z) \<and> maxa z' \<le> max (maxa z) (q + M)"
  using assms
proof (induction R i n z rule: stin_find.induct)
  case (1 R i n z)
  let ?r = "srows R ! i"
  have lt: "\<not> int (length (amem z)) \<le> n" using 1(3,4) by simp
  obtain x where x: "stin_try (amem z) n ?r 0 = Some x"
    "clear (amem z) n ?r \<longrightarrow> x \<noteq> None"
    using stin_try_total [OF 1(6), of n "amem z" 0] 1(3,4) by auto
  have at_q: "x \<noteq> None \<and> same_base (indgo z) n = None" if "n = int q"
  proof
    have "clear (amem z) n ?r"
      unfolding clear_def using 1(4,5,6) that by (fastforce simp: nat_add_distrib)
    with x(2) show "x \<noteq> None" by blast
    show "same_base (indgo z) n = None" using that 1(7) by (simp add: same_base_None)
  qed
  have next_ok: "n + 1 \<le> int q" if "n \<noteq> int q" using that 1(3) by simp
  show ?case
  proof (cases x)
    case None
    with at_q next_ok have "n + 1 \<le> int q" by blast
    from 1(1) [OF lt x(1) None this 1(4-7)] show ?thesis
      using lt x(1) None by (subst stin_find.simps) simp
  next
    case (Some flag)
    show ?thesis
    proof (cases "same_base (indgo z) n")
      case None
      have "fold (\<lambda>e m. max m (nat (int (fst e) + n))) ?r (maxa z) < Suc (max (maxa z) (q + M))"
        by (rule fold_max_less [where f = "\<lambda>k. nat (int k + n)"]) (use 1(3,6) in auto)
      then show ?thesis using lt x(1) Some None
        by (subst stin_find.simps) (simp add: Let_def stin_put_row)
    next
      case sb: (Some j)
      show ?thesis
      proof (cases "flag = 0 \<and> length (srows R ! j) = length ?r")
        case True
        then show ?thesis using lt x(1) Some sb by (subst stin_find.simps) simp
      next
        case False
        from sb at_q next_ok have "n + 1 \<le> int q" by (metis option.distinct(1))
        from 1(2) [OF lt x(1) Some sb False this 1(4-7)] show ?thesis
          using lt x(1) Some sb False by (subst stin_find.simps) auto
      qed
    qed
  qed
qed

lemma owned_below:
  assumes "pinv R z" "owned R z c v"
  shows "c \<le> maxa z"
proof -
  from assms(2) consider i k where "placed z i" "(k, v) \<in> set (srows R ! i)" "int c = int k + indgo z ! i"
    | g where "gdone z g" "c = pgo z ! g" | g k where "gdone z g" "(k, v) \<in> set (fst (grows R ! g))" "c = pgo z ! g + k + 1"
    unfolding owned_def by blast
  then show ?thesis
  proof cases
    case 1
    then have "nat (int k + indgo z ! i) = c" by simp
    with pinvD(5) [OF assms(1) 1(1,2)] show ?thesis by (simp add: cell_def)
  qed (use pinvD(6,7) [OF assms(1)] in \<open>auto simp: cell_def\<close>)
qed

lemma above_zero: "pinv R z \<Longrightarrow> maxa z < c \<Longrightarrow> c < length (amem z) \<Longrightarrow> amem z ! c = 0"
  using pinvD(8) owned_below by (metis not_less)

lemma filter_job:
  assumes "i < length ws" "0 < ws ! i"
  shows "Suc (length (filter (\<lambda>w. 0 < w) (ws[i := 0]))) = length (filter (\<lambda>w. 0 < (w :: nat)) ws)"
  using assms
proof (induction ws arbitrary: i)
  case (Cons w ws)
  then show ?case by (cases i) auto
qed simp

lemma step_total:
  assumes ok: "rows_ok R chk" and inv: "pinv R z" and j: "is_job z i"
    and room: "maxa z + jobs z * (spread R + 2) < length (amem z)"
  shows "\<exists>z'. opt_step R i z = Some z' \<and> length (amem z') = length (amem z) \<and>
    maxa z' + jobs z' * (spread R + 2) < length (amem z)"
proof (cases "0 \<le> i")
  case True
  let ?i = "nat i" and ?z = "z\<lparr>tyst := (tyst z)[nat i := 0]\<rparr>"
  have ji: "?i < length (tyst z)" "0 < tyst z ! ?i" using j True by (simp_all add: is_job_def)
  have si: "?i < length (srows R)" using ji(1) pinvD(1) [OF inv] by (simp add: sizes_def)
  have job: "jobs z = Suc (jobs ?z)" using filter_job [OF ji] by (simp add: jobs_def)
  have fresh: "int (maxa z + 1) \<notin> set (indgo z)"
  proof
    assume "int (maxa z + 1) \<in> set (indgo z)"
    then obtain l where l: "l < length (indgo z)" "indgo z ! l = int (maxa z + 1)" by (auto simp: in_set_conv_nth)
    then have pl: "placed z l" by (simp add: placed_def)
    have "srows R ! l \<noteq> []" using pinvD(11) [OF inv] pl placed_lt [OF pinvD(1) [OF inv] pl] by blast
    then obtain k v where "(k, v) \<in> set (srows R ! l)" by (cases "srows R ! l") auto
    from pinvD(5) [OF inv pl this] have "nat (int k + indgo z ! l) \<le> maxa z" by (simp add: cell_def)
    then show False unfolding l(2) by linarith
  qed
  have "\<exists>z'. stin_find R ?i (- int (max_off R)) ?z = Some z' \<and> length (amem z') = length (amem ?z) \<and>
      maxa z' \<le> max (maxa ?z) ((maxa z + 1) + spread R)"
    by (rule stin_find_total)
      (use above_zero [OF inv] spread_ge(1) [OF si] fresh room job in auto)
  then obtain z' where z': "stin_find R ?i (- int (max_off R)) ?z = Some z'"
    "length (amem z') = length (amem z)" "maxa z' \<le> maxa z + 1 + spread R" by auto
  from stin_find_sel [OF z'(1)] have "jobs z' = jobs ?z" by (simp add: jobs_def)
  with z' job room True show ?thesis by (simp add: opt_step_def stin_def)
next
  case False
  let ?g = "nat (- i - 1)"
  have ji: "?g < length (ggreed z)" "0 < ggreed z ! ?g" using j False by (simp_all add: is_job_def)
  have gi: "?g < length (grows R)" using ji(1) pinvD(1) [OF inv] by (simp add: sizes_def)
  have job: "jobs z = Suc (jobs (z\<lparr>ggreed := (ggreed z)[?g := 0]\<rparr>))" using filter_job [OF ji] by (simp add: jobs_def)
  have "\<exists>p mx. gin_find (amem z) 0 (maxa z) (fst (grows R ! ?g)) = Some (p, mx) \<and>
      mx \<le> max (maxa z) ((maxa z + 1) + spread R + 1) \<and> p \<le> maxa z + 1"
    by (rule gin_find_total) (use above_zero [OF inv] spread_ge(2) [OF gi] room job in auto)
  then obtain p mx where p: "gin_find (amem z) 0 (maxa z) (fst (grows R ! ?g)) = Some (p, mx)"
    "mx \<le> maxa z + spread R + 2" "p \<le> maxa z + 1" by auto
  with job room False show ?thesis
    by (simp add: opt_step_def gin_def Let_def gin_put_row jobs_def)
qed

lemma pack_loop_total:
  assumes "rows_ok R chk" "pinv R z" "maxa z + jobs z * (spread R + 2) < length (amem z)"
  shows "pack_loop R z \<noteq> None"
  using assms
proof (induction R z rule: pack_loop.induct)
  case (1 R z)
  show ?case
  proof (cases "nxti z = NOMORE")
    case True
    then show ?thesis by (subst pack_loop.simps) simp
  next
    case False
    from step_total [OF 1(2,3) nxti_job [OF False] 1(4)] obtain z' where
      z': "opt_step R (nxti z) z = Some z'" "maxa z' + jobs z' * (spread R + 2) < length (amem z')" by auto
    from 1(1) [OF False z'(1) 1(2) pinv_step [OF 1(2,3) nxti_job [OF False] z'(1)] z'(2)] z'(1) False
    show ?thesis by (subst pack_loop.simps) simp
  qed
qed

lemma callopt_total:
  assumes "rows_ok R chk" "cells_needed R \<le> actsize"
  obtains z where "callopt actsize R = Some z" "pinv R z" "\<forall>i < length (srows R). tyst z ! i = 0"
    "\<forall>g < length (grows R). gdone z g"
proof -
  have a: "0 < actsize" using assms(2) by (simp add: cells_needed_def)
  let ?z = "opt_init actsize R"
  have "jobs ?z \<le> length (srows R) + length (grows R)"
    unfolding jobs_def opt_init_def by (simp add: add_mono length_filter_le [THEN order_trans])
  then have "jobs ?z * (spread R + 2) \<le> (length (srows R) + length (grows R)) * (spread R + 2)"
    by (rule mult_le_mono1)
  then have "maxa ?z + jobs ?z * (spread R + 2) < length (amem ?z)"
    using assms(2) by (simp add: cells_needed_def opt_init_def)
  from pack_loop_total [OF assms(1) pinv_init [OF assms(1) a] this]
  obtain z where z: "callopt actsize R = Some z" by (auto simp: callopt_def)
  from callopt_inv [OF assms(1) a z] z that show thesis by blast
qed

subsection \<open>Properties\<close>

text \<open>
  C26. Packing ends, within an array long enough for the rows one behind the other, and the
  overlaid shift rows are decoded by the parser: for every state and every token the lookup
  through the base of the state and the check array gives what the row of the state says, a
  shift when it has one and nothing when it has none, although the rows share cells.
\<close>

theorem packed_shifts:
  assumes "rows_ok R chk" "cells_needed R \<le> actsize"
  shows "\<exists>z. callopt actsize R = Some z \<and>
    (\<forall>i < length (srows R). \<forall>tok. \<not> chk_is chk 0 (int tok) \<longrightarrow>
      shift_lookup z chk i tok = map_of (srows R ! i) tok)"
proof -
  obtain z where z: "callopt actsize R = Some z" "pinv R z" "\<forall>i < length (srows R). tyst z ! i = 0"
    by (rule callopt_total [OF assms])
  then show ?thesis using shift_lookup_row [OF assms(1) z(2)] by blast
qed

text \<open>
  C27. The goto rows are decoded the same way: for every nonterminal and every state the lookup
  gives the entry of the state, and the default of the nonterminal when the state has no entry.
\<close>

theorem packed_gotos:
  assumes "rows_ok R chk" "cells_needed R \<le> actsize"
  shows "\<exists>z. callopt actsize R = Some z \<and>
    (\<forall>g < length (grows R). \<forall>s. \<not> chk_is chk 0 (- int (g + 1)) \<longrightarrow>
      goto_lookup z chk g s =
        (case map_of (fst (grows R ! g)) s of Some v \<Rightarrow> v | None \<Rightarrow> snd (grows R ! g)))"
proof -
  obtain z where z: "callopt actsize R = Some z" "pinv R z" "\<forall>g < length (grows R). gdone z g"
    by (rule callopt_total [OF assms])
  then show ?thesis using goto_lookup_row [OF assms(1) z(2)] by blast
qed

text \<open>Two states shift token 2 to the same state, two of them token 3 as well; a goto row.\<close>

definition demo_rows :: rows where
  "demo_rows = \<lparr> srows = [[(2, 1), (3, 2)], [(2, 1)], [], [(3, 2), (2, 1)]], grows = [([(1, 3)], 4)] \<rparr>"

definition demo_chk :: "int list" where
  "demo_chk = [- 1000, 2, 3, - 1, - 1]"

lemma demo_rows_ok: "rows_ok demo_rows demo_chk"
proof -
  have "max_off demo_rows < 1000" by code_simp
  then show ?thesis by (simp add: rows_ok_def demo_rows_def demo_chk_def chk_is_def)
qed

lemma demo_cells: "cells_needed demo_rows \<le> 30"
  by code_simp

theorem packed_shifts_witness:
  "\<exists>z. callopt 30 demo_rows = Some z \<and> shift_lookup z demo_chk 0 3 = Some 2 \<and>
    shift_lookup z demo_chk 1 3 = None"
proof -
  have "\<not> chk_is demo_chk 0 (int 3)" by (simp add: chk_is_def demo_chk_def)
  moreover obtain z where z: "callopt 30 demo_rows = Some z"
    "\<And>i tok. i < 4 \<Longrightarrow> \<not> chk_is demo_chk 0 (int tok) \<Longrightarrow>
      shift_lookup z demo_chk i tok = map_of (srows demo_rows ! i) tok"
    using packed_shifts [OF demo_rows_ok demo_cells] by (auto simp: demo_rows_def)
  ultimately have "shift_lookup z demo_chk 0 3 = Some 2" "shift_lookup z demo_chk 1 3 = None"
    by (simp_all add: demo_rows_def)
  with z(1) show ?thesis by blast
qed

theorem packed_gotos_witness:
  "\<exists>z. callopt 30 demo_rows = Some z \<and> goto_lookup z demo_chk 0 1 = 3 \<and> goto_lookup z demo_chk 0 2 = 4"
proof -
  have "\<not> chk_is demo_chk 0 (- int (0 + 1))" by (simp add: chk_is_def demo_chk_def)
  moreover obtain z where z: "callopt 30 demo_rows = Some z"
    "\<And>s. \<not> chk_is demo_chk 0 (- int (0 + 1)) \<Longrightarrow> goto_lookup z demo_chk 0 s =
      (case map_of (fst (grows demo_rows ! 0)) s of Some v \<Rightarrow> v | None \<Rightarrow> snd (grows demo_rows ! 0))"
    using packed_gotos [OF demo_rows_ok demo_cells] by (auto simp: demo_rows_def)
  ultimately have "goto_lookup z demo_chk 0 1 = 3" "goto_lookup z demo_chk 0 2 = 4"
    by (simp_all add: demo_rows_def)
  with z(1) show ?thesis by blast
qed

end
