(* ===== verification/Ydec.thy ===== *)
theory Ydec
  imports Ychk Ycomb
begin

text \<open>
  The packed tables decode to the rows and gotos of the states: \<open>decodes\<close> is what the parser may
  rely on, and \<open>generate_decodes\<close> shows that the generator provides it.
\<close>

subsection \<open>The rows can be packed\<close>

lemma max_key_less: "\<forall>e \<in> set r. fst e < b \<Longrightarrow> 0 < b \<Longrightarrow> max_key r < b"
proof -
  have "\<forall>e \<in> set r. fst e < b \<Longrightarrow> j < b \<Longrightarrow> fold (\<lambda>e j. max (fst e) j) r j < b" for j
    by (induction r arbitrary: j) auto
  then show "\<forall>e \<in> set r. fst e < b \<Longrightarrow> 0 < b \<Longrightarrow> max_key r < b" by (simp add: max_key_def)
qed

lemma max_off_less:
  assumes "\<forall>r \<in> set (srows R). \<forall>e \<in> set r. fst e < b" "\<forall>r \<in> set (grows R). \<forall>e \<in> set (fst r). fst e < b" "0 < b"
  shows "max_off R < b"
proof -
  let ?f = "\<lambda>r m. if min_key r \<le> int (max_key r) then max (nat (min_key r)) m else m"
  have 1: "\<forall>r \<in> set rs. \<forall>e \<in> set r. fst e < b \<Longrightarrow> m < b \<Longrightarrow> fold ?f rs m < b" for rs m
  proof (induction rs arbitrary: m)
    case (Cons r rs)
    have "max_key r < b" using Cons.prems(1) assms(3) by (intro max_key_less) auto
    then have "?f r m < b" using Cons.prems(2) by auto
    with Cons show ?case by simp
  qed simp
  have 2: "\<forall>r \<in> set rs. \<forall>e \<in> set (fst r). fst e < b \<Longrightarrow> m < b \<Longrightarrow> fold (\<lambda>r m. max (max_key (fst r)) m) rs m < b"
    for rs :: "(prow \<times> int) list" and m
  proof (induction rs arbitrary: m)
    case (Cons r rs)
    have "max_key (fst r) < b" using Cons.prems(1) assms(3) by (intro max_key_less) auto
    with Cons show ?case by simp
  qed simp
  show ?thesis unfolding max_off_def by (rule 2 [OF assms(2) 1 [OF assms(1,3)]])
qed

text \<open>The ranges in which the parser's constants do not clash: \<^verbatim>\<open>YYFLAG\<close> is -1000, \<^verbatim>\<open>ERRCODE\<close> 8190.\<close>

definition in_range :: "(nat \<Rightarrow> nat) \<Rightarrow> nat \<Rightarrow> nat \<Rightarrow> automaton \<Rightarrow> bool" where
  "in_range vals ntk nn A \<longleftrightarrow> 2 \<le> ntk \<and> int ntk < NTBASE \<and> inj_on vals {1..ntk} \<and> vals 1 = 0 \<and>
    (\<forall>k. 0 < k \<and> k \<le> ntk \<longrightarrow> vals k < 1000) \<and> nn < 1000 \<and> length (kern A) < 1000"

text \<open>Every nonterminal is expected in some state.\<close>

definition all_used :: "grammar \<Rightarrow> bool" where
  "all_used g \<longleftrightarrow> (\<forall>n < nnonter g. \<exists>P. lr_state g P \<and> gotoset g P (NTBASE + int (Suc n)) \<noteq> {})"

lemma row_okD:
  assumes "row_ok R T L ntk A i t c" "0 < k" "k \<le> ntk"
  obtains a where "if i = 1 \<and> k = 1 then a = ACCEPTCODE else shift_ok T A i k a"
    "t ! k \<in> {a, ERRCODE} \<union> (\<lambda>r. - int r) ` reds R T A i k" "length t = ntk + 1"
  using assms reductions_cases unfolding row_ok_def by metis

lemma shift_entry:
  assumes r: "row_ok R T L ntk A i t c" and len: "length (kern A) < 1000"
    and e: "(x, v) \<in> set (out_row vals t)"
  obtains k j where "x = vals k" "0 < k" "k \<le> ntk" "v = int j" "0 < j" "j < length (kern A)"
    "entry_sym (tgram T) (kset A j) (int k)"
proof -
  from r have lt: "length t = ntk + 1" by (simp add: row_ok_def)
  from e obtain k where k: "x = vals k" "v = clear_row t ! k" "k \<in> set [1..<length t]" "clear_row t ! k \<noteq> 0"
    "\<not> is_exc (clear_row t ! k)" by (auto simp: shift_row_def)
  have k': "0 < k" "k \<le> ntk" "k < length t" using k(3) lt by auto
  have v: "v = t ! k" "0 < v" "v \<noteq> ACCEPTCODE" "v \<noteq> ERRCODE"
    using k(2,4,5) clear_row_nth [OF k'(1,3)] by (auto simp: is_exc_def exc_value_def split: if_splits)
  obtain a where a: "if i = 1 \<and> k = 1 then a = ACCEPTCODE else shift_ok T A i k a"
    "t ! k \<in> {a, ERRCODE} \<union> (\<lambda>r. - int r) ` reds R T A i k" by (rule row_okD [OF r k'(1,2)])
  have "v = a" using a(2) v by auto
  then have "shift_ok T A i k v" using a(1) v(3) by (auto split: if_splits)
  then obtain j where j: "j < length (kern A)" "j \<noteq> 0" "kset A j = gotoset (tgram T) (kset A i) (int k)" "v = int j"
    using v(2) by (auto simp: shift_ok_def split: if_splits)
  have "entry_sym (tgram T) (kset A j) (int k)" unfolding j(3) entry_sym_def using gotoset_sym by blast
  with that k(1) k'(1,2) j show thesis by blast
qed

lemma goto_entry:
  assumes g: "goto_is T A i (NTBASE + int (Suc n)) j" "j \<noteq> 0"
  shows "j < length (kern A)" "entry_sym (tgram T) (kset A j) (NTBASE + int (Suc n))"
proof -
  from g have j: "j < length (kern A)" "kset A j = gotoset (tgram T) (kset A i) (NTBASE + int (Suc n))"
    by (auto simp: goto_is_def split: if_splits)
  show "j < length (kern A)" by (rule j(1))
  show "entry_sym (tgram T) (kset A j) (NTBASE + int (Suc n))" unfolding j(2) entry_sym_def using gotoset_sym by blast
qed

lemma chk_entry:
  assumes "chk_ok T vals ntk A chk" "c \<in> set (sym_list ntk (nnonter (tgram T)))"
    "0 < j" "j < length (kern A)" "entry_sym (tgram T) (kset A j) c"
  shows "chk_is chk (int j) (sym_val vals c)"
  using assms by (auto simp: chk_ok_def chk_is_def)

lemma generated_rows_ok:
  assumes f: "finished R T ntk w A" and rng: "in_range vals ntk (nnonter (tgram T)) A" and used: "all_used (tgram T)"
    and rows: "\<forall>i < length (kern A). row_ok R T L ntk A i (ts ! i) (cs i)" "length ts = length (kern A)" "rows_written vals ts z"
    and gr: "goto_rows T A Y gr" and chk: "chk_ok T vals ntk A chk"
  shows "rows_ok \<lparr> srows = orows z, grows = gr \<rparr> chk"
proof -
  let ?R = "\<lparr> srows = orows z, grows = gr \<rparr>" and ?nn = "nnonter (tgram T)"
  have rg: "int ntk < NTBASE" "inj_on vals {1..ntk}" "\<And>k. 0 < k \<Longrightarrow> k \<le> ntk \<Longrightarrow> vals k < 1000" "?nn < 1000" "length (kern A) < 1000"
    using rng by (auto simp: in_range_def)
  have sr: "orows z = map (out_row vals) ts" using rows(3) by (simp add: rows_written_def)
  have row: "\<exists>i < length (kern A). r = out_row vals (ts ! i)" if "r \<in> set (orows z)" for r
    using that rows(2) unfolding sr by (auto simp: in_set_conv_nth)
  have shift: "\<exists>k j. x = vals k \<and> 0 < k \<and> k \<le> ntk \<and> v = int j \<and> 0 < j \<and> j < length (kern A) \<and>
      entry_sym (tgram T) (kset A j) (int k)" if "r \<in> set (orows z)" "(x, v) \<in> set r" for r x v
  proof -
    from row [OF that(1)] obtain i where i: "i < length (kern A)" "r = out_row vals (ts ! i)" by blast
    from rows(1) i(1) have "row_ok R T L ntk A i (ts ! i) (cs i)" by blast
    from shift_entry [OF this rg(5)] that(2) i(2) show ?thesis by metis
  qed
  have grow: "gr ! n = goto_row (Y n)" "length (Y n) = length (kern A)"
    "\<And>i. i < length (kern A) \<Longrightarrow> goto_is T A i (NTBASE + int (Suc n)) (Y n ! i)" if "n < ?nn" for n
    using gr that by (auto simp: goto_rows_def)
  have lg: "length gr = ?nn" using gr by (simp add: goto_rows_def)
  have tok: "int k \<in> set (sym_list ntk ?nn)" if "0 < k" "k \<le> ntk" for k
    using that unfolding sym_list_def set_append set_map by (intro UnI1 image_eqI [of _ _ k]) auto
  have nt: "NTBASE + int (Suc n) \<in> set (sym_list ntk ?nn)" if "n < ?nn" for n
    using that unfolding sym_list_def set_append set_map by (intro UnI2 image_eqI [of _ _ "Suc n"]) auto
  have nv: "sym_val vals (NTBASE + int (Suc n)) = - int (n + 1)" for n by (simp add: sym_val_def)
  have gkey: "x < 1000 \<and> 0 < v \<and> chk_is chk v (- int (n + 1))"
    if n: "n < ?nn" and e: "(x, v) \<in> set (fst (gr ! n))" for n x v
  proof -
    from e have x: "x < length (kern A)" "Y n ! x \<noteq> 0" "v = int (Y n ! x)"
      using grow(1,2) [OF n] by (auto simp: goto_row_def Let_def)
    note ge = goto_entry [OF grow(3) [OF n x(1)] x(2)]
    have "chk_is chk v (- int (n + 1))" using chk_entry [OF chk nt [OF n] _ ge] x(2,3) unfolding nv by simp
    then show ?thesis using x rg(5) by simp
  qed
  have gdef: "0 < snd (gr ! n) \<and> chk_is chk (snd (gr ! n)) (- int (n + 1))" if n: "n < ?nn" for n
  proof -
    obtain K where K: "lr_state (tgram T) K" "gotoset (tgram T) K (NTBASE + int (Suc n)) \<noteq> {}"
      using used n unfolding all_used_def by blast
    obtain i where i: "i < length (kern A)" "kset A i = K" by (rule finished_state [OF f K(1)])
    have "Y n ! i \<noteq> 0" using grow(3) [OF n i(1)] K(2) i(2) by (auto simp: goto_is_def)
    then obtain x where x: "x < length (kern A)" "Y n ! x \<noteq> 0" "best_goto (Y n) = int (Y n ! x)"
      using best_goto_cases [of "Y n"] i(1) grow(2) [OF n] by auto
    note ge = goto_entry [OF grow(3) [OF n x(1)] x(2)]
    have "chk_is chk (int (Y n ! x)) (- int (n + 1))" using chk_entry [OF chk nt [OF n] _ ge] x(2) unfolding nv by simp
    moreover have "snd (gr ! n) = int (Y n ! x)" using grow(1) [OF n] x(3) by (simp add: goto_row_def Let_def)
    ultimately show ?thesis using x(2) by simp
  qed
  have "max_off ?R < 1000"
  proof (rule max_off_less)
    show "\<forall>r \<in> set (srows ?R). \<forall>e \<in> set r. fst e < 1000"
    proof (intro ballI)
      fix r e assume "r \<in> set (srows ?R)" "e \<in> set r"
      then show "fst e < 1000" using shift [of r "fst e" "snd e"] rg(3) by auto
    qed
    show "\<forall>r \<in> set (grows ?R). \<forall>e \<in> set (fst r). fst e < 1000"
    proof (intro ballI)
      fix r e assume "r \<in> set (grows ?R)" "e \<in> set (fst r)"
      then obtain n where "n < ?nn" "e \<in> set (fst (gr ! n))" using lg by (auto simp: in_set_conv_nth)
      then show "fst e < 1000" using gkey [of n "fst e" "snd e"] by simp
    qed
  qed simp
  moreover have "distinct (map fst r) \<and> (\<forall>(k, v) \<in> set r. 0 < v \<and> chk_is chk v (int k))" if r: "r \<in> set (orows z)" for r
  proof
    from row [OF r] obtain i where i: "i < length (kern A)" "r = out_row vals (ts ! i)" by blast
    let ?ks = "filter (\<lambda>k. clear_row (ts ! i) ! k \<noteq> 0 \<and> \<not> is_exc (clear_row (ts ! i) ! k)) [1..<length (ts ! i)]"
    have len: "length (ts ! i) = ntk + 1" using rows(1) i(1) by (simp add: row_ok_def)
    have "set ?ks \<subseteq> {1..ntk}" unfolding len by auto
    then have "inj_on vals (set ?ks)" by (rule inj_on_subset [OF rg(2)])
    then have "distinct (map vals ?ks)" by (simp add: distinct_map del: set_filter)
    then show "distinct (map fst r)" unfolding i(2) shift_row_def map_map comp_def fst_conv .
    show "\<forall>(k, v) \<in> set r. 0 < v \<and> chk_is chk v (int k)"
    proof (intro ballI, clarify)
      fix x v assume "(x, v) \<in> set r"
      from shift [OF r this] obtain k j where k: "x = vals k" "0 < k" "k \<le> ntk" "v = int j" "0 < j" "j < length (kern A)"
        "entry_sym (tgram T) (kset A j) (int k)" by blast
      have "sym_val vals (int k) = int x" using k(1,3) rg(1) by (simp add: sym_val_def)
      then show "0 < v \<and> chk_is chk v (int x)" using chk_entry [OF chk tok [OF k(2,3)] k(5-7)] k(4,5) by simp
    qed
  qed
  moreover have "distinct (map fst (fst (gr ! n)))" if n: "n < ?nn" for n
    using grow(1) [OF n] by (simp add: goto_row_def Let_def comp_def)
  ultimately show ?thesis using gkey gdef lg rg(4) by (fastforce simp: rows_ok_def)
qed

subsection \<open>What the parser may rely on\<close>

text \<open>\<open>ts\<close> are the rows of the states, \<open>cs\<close> the conflicts found in them.\<close>

definition decodes :: "rule list \<Rightarrow> tables \<Rightarrow> levels \<Rightarrow> (nat \<Rightarrow> nat) \<Rightarrow> nat \<Rightarrow> automaton \<Rightarrow> ptables \<Rightarrow>
    int list list \<Rightarrow> (nat \<Rightarrow> nat \<times> nat) \<Rightarrow> bool" where
  "decodes R T L vals ntk A P ts cs \<longleftrightarrow>
    length (indgo (popt P)) = length (kern A) \<and> length (pdef P) = length (kern A) \<and>
    pr1 P = yyr1 (tgram T) \<and> pr2 P = yyr2 (tgram T) \<and> perr P = vals 2 \<and>
    (\<forall>i < length (kern A).
      row_ok R T L ntk A i (ts ! i) (cs i) \<and> (pconf P = (0, 0) \<longrightarrow> cs i = (0, 0)) \<and>
      (\<forall>k. 0 < k \<and> k \<le> ntk \<longrightarrow> parse_act P i (vals k) = Some (act_of (ts ! i ! k) (def_of (ts ! i)))) \<and>
      (\<forall>n < nnonter (tgram T). gotoset (tgram T) (kset A i) (NTBASE + int (Suc n)) \<noteq> {} \<longrightarrow>
        (\<exists>j < length (kern A). goto_lookup (popt P) (pchk P) n i = int j \<and>
          kset A j = gotoset (tgram T) (kset A i) (NTBASE + int (Suc n)))) \<and>
      err_shift P i = shift_lookup (popt P) (pchk P) i (vals 2))"

lemma decodesD:
  assumes "decodes R T L vals ntk A P ts cs"
  shows "length (indgo (popt P)) = length (kern A)" "length (pdef P) = length (kern A)"
    "pr1 P = yyr1 (tgram T)" "pr2 P = yyr2 (tgram T)" "perr P = vals 2"
    and "i < length (kern A) \<Longrightarrow> row_ok R T L ntk A i (ts ! i) (cs i)"
    and "i < length (kern A) \<Longrightarrow> pconf P = (0, 0) \<Longrightarrow> cs i = (0, 0)"
    and "i < length (kern A) \<Longrightarrow> 0 < k \<Longrightarrow> k \<le> ntk \<Longrightarrow>
      parse_act P i (vals k) = Some (act_of (ts ! i ! k) (def_of (ts ! i)))"
    and "i < length (kern A) \<Longrightarrow> n < nnonter (tgram T) \<Longrightarrow> gotoset (tgram T) (kset A i) (NTBASE + int (Suc n)) \<noteq> {} \<Longrightarrow>
      \<exists>j < length (kern A). goto_lookup (popt P) (pchk P) n i = int j \<and>
        kset A j = gotoset (tgram T) (kset A i) (NTBASE + int (Suc n))"
    and "i < length (kern A) \<Longrightarrow> err_shift P i = shift_lookup (popt P) (pchk P) i (vals 2)"
  using assms unfolding decodes_def by blast+

lemma err_shift_row:
  assumes inv: "pinv R (popt P)" and i: "i < length (srows R)" and e: "perr P < 1000"
  shows "err_shift P i = shift_lookup (popt P) (pchk P) i (perr P)"
proof (cases "placed (popt P) i")
  case True
  then show ?thesis using pinvD(3) [OF inv True] by (simp add: err_shift_def shift_lookup_def Let_def)
next
  case False
  then have "indgo (popt P) ! i = YYFLAG1" using pinvD(1) [OF inv] i by (simp add: placed_def sizes_def)
  then show ?thesis using e by (simp add: err_shift_def shift_lookup_def)
qed

text \<open>What the tables are built from.\<close>

definition built :: "int \<Rightarrow> nat \<Rightarrow> nat \<Rightarrow> nat \<Rightarrow> rule list \<Rightarrow> tables \<Rightarrow> levels \<Rightarrow> (nat \<Rightarrow> nat) \<Rightarrow> nat \<Rightarrow> nat \<Rightarrow>
    wstate \<Rightarrow> automaton \<Rightarrow> ptables \<Rightarrow> bool" where
  "built st nn tb lsz rs T L vals ntk actsize w A P \<longleftrightarrow>
    wf_rules st nn rs \<and> tokens_fit tb (all_rules st rs) \<and> nn + 1 < lsz \<and> ntk < 32 * tb \<and>
    analyse (setup_rules st nn tb lsz rs) = Some (Inr T) \<and> mem_toks ntk (tgram T) \<and> sets_suffice T w \<and>
    stagen T ntk actsize w = Some (Ret A) \<and> generate T L vals ntk actsize A = Ret P \<and> 0 < actsize \<and>
    in_range vals ntk nn A \<and> all_used (tgram T)"

lemma builtD:
  assumes "built st nn tb lsz rs T L vals ntk actsize w A P"
  shows "tables_ok st nn tb lsz rs T" "nnonter (tgram T) = nn" "mem_toks ntk (tgram T)" "sets_suffice T w" "ntk < 32 * tb"
    "finished (all_rules st rs) T ntk w A" "generate T L vals ntk actsize A = Ret P" "0 < actsize"
    "in_range vals ntk nn A" "all_used (tgram T)"
proof -
  note b = assms [unfolded built_def]
  show T: "tables_ok st nn tb lsz rs T" by (rule analyse_tables_ok) (use b in blast)+
  show "nnonter (tgram T) = nn" by (rule tables_okD(4) [OF T])
  show "mem_toks ntk (tgram T)" "sets_suffice T w" "ntk < 32 * tb" "generate T L vals ntk actsize A = Ret P" "0 < actsize"
    "in_range vals ntk nn A" "all_used (tgram T)" using b by blast+
  have "mem_toks ntk (tgram T)" "sets_suffice T w" "stagen T ntk actsize w = Some (Ret A)" using b by blast+
  with stagen_cases [OF T, of ntk w actsize] show "finished (all_rules st rs) T ntk w A" by (auto simp: finished_def)
qed

lemma generate_decodes:
  assumes b: "built st nn tb lsz rs T L vals ntk actsize w A P"
  obtains ts cs where "decodes (all_rules st rs) T L vals ntk A P ts cs"
proof -
  let ?R = "all_rules st rs" and ?n = "length (kern A)"
  note bd = builtD [OF b]
  have rg: "int ntk < NTBASE" "2 \<le> ntk" "inj_on vals {1..ntk}" "\<And>k. 0 < k \<Longrightarrow> k \<le> ntk \<Longrightarrow> vals k < 1000" "nn < 1000"
    using bd(9) by (auto simp: in_range_def)
  from bd(7) obtain z gr q chk where gen: "output_states T L vals ntk A = Ret z" "go2out (tgram T) A = Some gr"
    "callopt actsize \<lparr> srows = orows z, grows = gr \<rparr> = Some q" "yychk vals ntk (nnonter (tgram T)) A = Some chk"
    "P = \<lparr> popt = q, pchk = chk, pdef = defact z, pexca = exca z, pr1 = yyr1 (tgram T), pr2 = yyr2 (tgram T),
       perr = vals 2, pconf = zzconf z \<rparr>"
    by (auto simp: generate_def Let_def bindr_Ret defined_def grown_def split: option.splits)
  have Ps: "popt P = q" "pchk P = chk" "pdef P = defact z" "pexca P = exca z" "pr1 P = yyr1 (tgram T)"
    "pr2 P = yyr2 (tgram T)" "perr P = vals 2" "pconf P = zzconf z" by (simp_all add: gen(5))
  obtain ts cs where rows: "length ts = ?n" "rows_written vals ts z" "\<forall>i < ?n. row_ok ?R T L ntk A i (ts ! i) (cs i)"
    "zzconf z = (0, 0) \<longrightarrow> (\<forall>i < ?n. cs i = (0, 0))"
    by (rule output_rows [OF bd(1,3) rg(1) bd(5,6,4) gen(1)])
  obtain Y where Y: "goto_rows T A Y gr" by (rule go2out_ok [OF bd(1,6) gen(2)])
  have chk: "chk_ok T vals ntk A chk" using yychk_ok [OF bd(1,6) rg(1), of vals] gen(4) by auto
  let ?R2 = "\<lparr> srows = orows z, grows = gr \<rparr>"
  have rng: "in_range vals ntk (nnonter (tgram T)) A" using bd(2,9) by simp
  have ok: "rows_ok ?R2 chk" by (rule generated_rows_ok [OF bd(6) rng bd(10) rows(3,1,2) Y chk])
  have inv: "pinv ?R2 q" "\<forall>i < length (srows ?R2). tyst q ! i = 0" "\<forall>g < length (grows ?R2). gdone q g"
    using callopt_inv [OF ok bd(8) gen(3)] by blast+
  have so: "length (orows z) = ?n" using rows(1,2) by (simp add: rows_written_def)
  have lg: "length gr = nnonter (tgram T)" using Y by (simp add: goto_rows_def)
  have c0: "chk ! 0 = - 1000" "0 < length chk" using chk finishedD(5) [OF bd(6)] by (auto simp: chk_ok_def sized_def)
  have "parse_act P i (vals k) = Some (act_of (ts ! i ! k) (def_of (ts ! i)))"
    if i: "i < ?n" and k: "0 < k" "k \<le> ntk" for i k
  proof -
    have lt: "length (ts ! i) = ntk + 1" using rows(3) i by (auto simp: row_ok_def)
    have "shift_lookup q chk i (vals k) = map_of (orows z ! i) (vals k)"
      using shift_lookup_row [OF ok inv(1), of i "vals k"] inv(2) i so c0 by (simp add: chk_is_def)
    moreover have "{1..<length (ts ! i)} = {1..ntk}" using lt by auto
    ultimately show ?thesis
      using default_act_row [of P z vals ts i k] rows(1,2) i k lt rg(3) by (simp add: parse_act_def Ps)
  qed
  moreover have "\<exists>j < ?n. goto_lookup q chk n i = int j \<and> kset A j = gotoset (tgram T) (kset A i) (NTBASE + int (Suc n))"
    if i: "i < ?n" and n: "n < nnonter (tgram T)" "gotoset (tgram T) (kset A i) (NTBASE + int (Suc n)) \<noteq> {}" for i n
  proof -
    have Yn: "gr ! n = goto_row (Y n)" "length (Y n) = ?n" "goto_is T A i (NTBASE + int (Suc n)) (Y n ! i)"
      using Y n(1) i by (auto simp: goto_rows_def)
    have y: "Y n ! i < ?n" "Y n ! i \<noteq> 0" "kset A (Y n ! i) = gotoset (tgram T) (kset A i) (NTBASE + int (Suc n))"
      using Yn(3) n(2) by (auto simp: goto_is_def)
    have "\<not> chk_is chk 0 (- int (n + 1))" using c0 n(1) rg(5) bd(2) by (simp add: chk_is_def)
    moreover have "gdone q n" "grows ?R2 = gr" using inv(3) n(1) lg by simp_all
    ultimately have "goto_lookup q chk n i = (case map_of (fst (gr ! n)) i of Some v \<Rightarrow> v | None \<Rightarrow> snd (gr ! n))"
      using goto_lookup_row [OF ok inv(1), of n i] by metis
    also have "\<dots> = int (Y n ! i)" unfolding Yn(1) by (rule goto_row_decode) (use i Yn(2) y(2) in simp_all)
    finally have "goto_lookup q chk n i = int (Y n ! i)" .
    then show ?thesis using y by blast
  qed
  moreover have "err_shift P i = shift_lookup q chk i (vals 2)" if i: "i < ?n" for i
    using err_shift_row [of ?R2 P i] inv(1) rg(2,4) i so by (simp add: Ps)
  moreover have "length (indgo q) = ?n" using pinvD(1) [OF inv(1)] so by (simp add: sizes_def)
  moreover have "length (defact z) = ?n" using rows(1,2) by (simp add: rows_written_def)
  ultimately have "decodes ?R T L vals ntk A P ts cs"
    using rows(3,4) unfolding decodes_def by (simp add: Ps)
  then show thesis by (rule that)
qed

end
