(* ===== verification/Ysnd.thy ===== *)
theory Ysnd
  imports Yitem Ydec
begin

text \<open>
  The parser over the generated tables: it never leaves the tables or the stack, and what it
  accepts without an error is a sentence of the grammar.  The invariant of a configuration says
  that the states of the stack are joined by symbols that derive what has been read.
\<close>

subsection \<open>The actions of a state\<close>

lemma act_cases:
  assumes r: "row_ok R T L ntk A i t c" and k: "0 < k" "k \<le> ntk" and len: "length (kern A) < 1000"
  shows "case act_of (t ! k) (def_of t) of
      Shift a \<Rightarrow> k \<noteq> 1 \<and> (\<exists>j < length (kern A). a = int j \<and> gotoset (tgram T) (kset A i) (int k) \<noteq> {} \<and>
        kset A j = gotoset (tgram T) (kset A i) (int k))
    | Reduce n \<Rightarrow> 0 < n \<and> (\<exists>p. lr_item (tgram T) (kset A i) p \<and> gmem (tgram T) ! p = - int n)
    | Accept \<Rightarrow> i = 1 \<and> k = 1
    | Error \<Rightarrow> True"
proof -
  have red: "\<exists>p. lr_item (tgram T) (kset A i) p \<and> gmem (tgram T) ! p = - int (nat (- a))"
    if a: "t ! k' = a" "a < 0" "0 < k'" "k' \<le> ntk" for k' a
  proof -
    obtain b where b: "if i = 1 \<and> k' = 1 then b = ACCEPTCODE else shift_ok T A i k' b"
      "t ! k' \<in> {b, ERRCODE} \<union> (\<lambda>r. - int r) ` reds R T A i k'" by (rule row_okD [OF r a(3,4)])
    have "0 \<le> b" using b(1) by (auto simp: shift_ok_def split: if_splits)
    then have "a \<in> (\<lambda>r. - int r) ` reds R T A i k'" using a b(2) by auto
    then show ?thesis by (auto simp: reds_def)
  qed
  have lt: "length t = ntk + 1" using r by (simp add: row_ok_def)
  have def: "\<exists>p. lr_item (tgram T) (kset A i) p \<and> gmem (tgram T) ! p = - int (nat (def_of t))" if d: "def_of t \<noteq> 0"
  proof -
    from d have "def_of t = default_red t" by (simp add: def_of_def split: if_splits)
    with default_red_cases [of t] d obtain k' where "0 < k'" "k' < length t" "t ! k' < 0" "def_of t = - (t ! k')" by auto
    then show ?thesis using red [of k' "t ! k'"] lt by simp
  qed
  obtain b where b: "if i = 1 \<and> k = 1 then b = ACCEPTCODE else shift_ok T A i k b"
    "t ! k \<in> {b, ERRCODE} \<union> (\<lambda>r. - int r) ` reds R T A i k" by (rule row_okD [OF r k])
  consider "t ! k = 0 \<or> t ! k = - def_of t" | "t ! k < 0" "t ! k \<noteq> - def_of t"
    | "t ! k = ACCEPTCODE" | "t ! k = ERRCODE" | "0 < t ! k" "t ! k \<noteq> ACCEPTCODE" "t ! k \<noteq> ERRCODE" by linarith
  then show ?thesis
  proof cases
    case 1
    then show ?thesis using def def_of_ge [of t] by (auto simp: act_of_def)
  next
    case 2
    then show ?thesis using red [OF refl 2(1) k] by (simp add: act_of_def)
  next
    case 3
    have "b = ACCEPTCODE" using 3 b(2) by auto
    then have "i = 1 \<and> k = 1" using b(1) len by (auto simp: shift_ok_def split: if_splits)
    then show ?thesis using 3 def_of_ge [of t] by (simp add: act_of_def)
  next
    case 4
    then show ?thesis using def_of_ge [of t] by (simp add: act_of_def)
  next
    case 5
    have "t ! k = b" using 5 b(2) by auto
    then have "shift_ok T A i k (t ! k)" using b(1) 5 by (auto split: if_splits)
    then have s: "k \<noteq> 1" "gotoset (tgram T) (kset A i) (int k) \<noteq> {}"
      "\<exists>j < length (kern A). j \<noteq> 0 \<and> kset A j = gotoset (tgram T) (kset A i) (int k) \<and> t ! k = int j"
      using 5 by (auto simp: shift_ok_def split: if_splits)
    have "act_of (t ! k) (def_of t) = Shift (t ! k)" using 5 def_of_ge [of t] by (simp add: act_of_def)
    then show ?thesis using s by auto
  qed
qed

lemma simple_act:
  assumes "st < length (indgo (popt P))" "st < length (pdef P)" "\<not> (YYFLAG1 < indgo (popt P) ! st \<or> pdef P ! st = - 2)"
  shows "parse_act P st c = parse_act P st 0" "parse_act P st c \<noteq> Some (Shift w)" "parse_act P st c \<noteq> Some Accept"
  using assms by (auto simp: parse_act_def shift_lookup_def default_act_def)

subsection \<open>Configurations\<close>

text \<open>\<open>rest\<close> are the tokens not yet read, with the one in \<^verbatim>\<open>yychar\<close>; behind them comes the end.\<close>

definition pending :: "(nat \<Rightarrow> nat) \<Rightarrow> pstate \<Rightarrow> nat list \<Rightarrow> bool" where
  "pending vals z rest \<longleftrightarrow>
    (case pych z of
       None \<Rightarrow> pinp z = map vals rest
     | Some c \<Rightarrow> c = vals (case rest of [] \<Rightarrow> 1 | k # _ \<Rightarrow> k) \<and> pinp z = map vals (tl rest))"

lemma pending_upd [simp]:
  "pending vals (pstk_update f z) rest = pending vals z rest"
  "pending vals (perrflag_update g z) rest = pending vals z rest"
  "pending vals (pnerrs_update g z) rest = pending vals z rest"
  by (cases "pych z"; simp add: pending_def)+

lemma pending_lex:
  assumes "pending vals z rest" "vals 1 = 0"
  shows "pending vals (yylex z) rest" "pych (yylex z) \<noteq> None" "pstk (yylex z) = pstk z"
    "perrflag (yylex z) = perrflag z" "pnerrs (yylex z) = pnerrs z"
  using assms by (auto simp: yylex_def pending_def split: option.splits list.splits)

definition cfg_ok :: "rule list \<Rightarrow> tables \<Rightarrow> nat \<Rightarrow> (nat \<Rightarrow> nat) \<Rightarrow> automaton \<Rightarrow> nat list \<Rightarrow> pstate \<Rightarrow> bool" where
  "cfg_ok R T ntk vals A ks z \<longleftrightarrow>
    (\<exists>xs rest. path (tgram T) A (pstk z) xs \<and> pending vals z rest \<and> set rest \<subseteq> {2..ntk} \<and>
      (perrflag z \<noteq> 0 \<longrightarrow> pnerrs z \<noteq> 0) \<and>
      (pnerrs z = 0 \<longrightarrow> (\<exists>rd. ks = rd @ rest \<and> derives R (rev xs) (map int rd))))"

definition step_ok :: "rule list \<Rightarrow> int \<Rightarrow> tables \<Rightarrow> nat \<Rightarrow> (nat \<Rightarrow> nat) \<Rightarrow> automaton \<Rightarrow> nat list \<Rightarrow> pstep \<Rightarrow> bool" where
  "step_ok R st T ntk vals A ks r \<longleftrightarrow>
    (case r of
       Next z \<Rightarrow> cfg_ok R T ntk vals A ks z
     | Stop r z \<Rightarrow> r = Accepted \<longrightarrow> pnerrs z = 0 \<longrightarrow> derives R [st] (map int ks))"

lemma step_ok_stack:
  "cfg_ok R T ntk vals A ks (z\<lparr>pstk := w # pstk z\<rparr>) \<Longrightarrow> step_ok R st T ntk vals A ks (yystack maxd w z)"
  by (simp add: step_ok_def yystack_def)

lemma path_tl: "path g A (s # ss) xs \<Longrightarrow> ss \<noteq> [] \<Longrightarrow> path g A ss (tl xs)"
  by (erule path.cases) auto

lemma find_err_path:
  "path g A stk xs \<Longrightarrow> find_err P stk = Some (w, stk') \<Longrightarrow>
    \<exists>s ss xs' w'. stk' = s # ss \<and> path g A (s # ss) xs' \<and> err_shift P s = Some w' \<and> w = nat w'"
proof (induction stk arbitrary: xs)
  case (Cons s ss)
  show ?case
  proof (cases "err_shift P s")
    case None
    then have f: "find_err P ss = Some (w, stk')" using Cons.prems(2) by simp
    then have "ss \<noteq> []" by auto
    from Cons.IH [OF path_tl [OF Cons.prems(1) this] f] show ?thesis .
  next
    case (Some w')
    then show ?thesis using Cons.prems by auto
  qed
qed simp

lemma derives_shift:
  assumes "derives R u (map int rd)"
  shows "derives R (u @ [int k]) (map int (rd @ [k]))"
  using derives_append [OF assms, of "[int k]" "[int k]"] by simp

lemma derives_reduce:
  assumes "r < length R" "derives R (u @ snd (R ! r)) w"
  shows "derives R (u @ [fst (R ! r)]) w"
proof -
  have "(fst (R ! r), snd (R ! r)) \<in> set R" using assms(1) by simp
  from derives_append [OF rtranclp.rtrancl_refl [of _ u] derives_rule [OF this]] assms(2)
  show ?thesis by (metis rtranclp_trans)
qed

subsection \<open>A step\<close>

text \<open>What a step relies on: the tables, and the state behind the start symbol.\<close>

definition ready :: "int \<Rightarrow> nat \<Rightarrow> nat \<Rightarrow> nat \<Rightarrow> rule list \<Rightarrow> tables \<Rightarrow> levels \<Rightarrow> (nat \<Rightarrow> nat) \<Rightarrow> nat \<Rightarrow> wstate \<Rightarrow>
    automaton \<Rightarrow> ptables \<Rightarrow> int list list \<Rightarrow> (nat \<Rightarrow> nat \<times> nat) \<Rightarrow> bool" where
  "ready st nn tb lsz rs T L vals ntk w A P ts cs \<longleftrightarrow>
    tables_ok st nn tb lsz rs T \<and> finished (all_rules st rs) T ntk w A \<and> in_range vals ntk nn A \<and>
    kset A 1 = gotoset (tgram T) (kset A 0) st \<and> 1 < length (kern A) \<and>
    decodes (all_rules st rs) T L vals ntk A P ts cs"

lemma built_ready:
  assumes b: "built st nn tb lsz rs T L vals ntk actsize w A P"
  obtains ts cs where "ready st nn tb lsz rs T L vals ntk w A P ts cs"
proof -
  note bd = builtD [OF b]
  obtain ts cs where d: "decodes (all_rules st rs) T L vals ntk A P ts cs" by (rule generate_decodes [OF b])
  have "stagen T ntk actsize w = Some (Ret A)" using b by (simp add: built_def)
  from state_one [OF bd(1,3,4) this] d bd(1,6,9) show thesis by (intro that) (simp add: ready_def)
qed

lemma readyD:
  assumes "ready st nn tb lsz rs T L vals ntk w A P ts cs"
  shows "tables_ok st nn tb lsz rs T" "decodes (all_rules st rs) T L vals ntk A P ts cs"
    "kset A 1 = gotoset (tgram T) (kset A 0) st" "1 < length (kern A)"
    "kset A 0 = {Suc (prdptr (tgram T) ! 0)}" "\<forall>i < length (kern A). lr_state (tgram T) (kset A i)"
    "2 \<le> ntk" "int ntk < NTBASE" "inj_on vals {1..ntk}" "vals 1 = 0" "length (kern A) < 1000"
    "0 < length (kern A)"
proof -
  note r = assms [unfolded ready_def]
  show "tables_ok st nn tb lsz rs T" "decodes (all_rules st rs) T L vals ntk A P ts cs"
    "kset A 1 = gotoset (tgram T) (kset A 0) st" and one: "1 < length (kern A)" using r by blast+
  show "0 < length (kern A)" using one by linarith
  have f: "finished (all_rules st rs) T ntk w A" using r by blast
  show "\<forall>i < length (kern A). lr_state (tgram T) (kset A i)" using finishedD(7) [OF f] by blast
  show "kset A 0 = {Suc (prdptr (tgram T) ! 0)}" using finishedD(4) [OF f] by (simp add: kernels_ok_def)
  show "2 \<le> ntk" "int ntk < NTBASE" "inj_on vals {1..ntk}" "vals 1 = 0" "length (kern A) < 1000"
    using r by (simp_all add: in_range_def)
qed

lemma step_shift:
  assumes p: "path (tgram T) A (pstk z) xs" "pstk z = s # ss" and rest: "pending vals z (k # rest)" "set (k # rest) \<subseteq> {2..ntk}"
    and e: "pych z \<noteq> None" "perrflag z \<noteq> 0 \<longrightarrow> pnerrs z \<noteq> 0"
    and d: "pnerrs z = 0 \<longrightarrow> (\<exists>rd. ks = rd @ k # rest \<and> derives R (rev xs) (map int rd))"
    and j: "j < length (kern A)" "gotoset (tgram T) (kset A s) (int k) \<noteq> {}" "kset A j = gotoset (tgram T) (kset A s) (int k)"
  shows "cfg_ok R T ntk vals A ks (z\<lparr>pych := None, perrflag := perrflag z - 1, pstk := j # pstk z\<rparr>)"
proof -
  let ?z = "z\<lparr>pych := None, perrflag := perrflag z - 1, pstk := j # pstk z\<rparr>"
  have "1 < int k" using rest(2) by simp
  then have "path (tgram T) A (pstk ?z) (int k # xs)" using path.push [OF p(1) [unfolded p(2)] j(1) _ j(2,3)] p(2) by simp
  moreover have "pending vals ?z rest" using rest(1) e(1) by (auto simp: pending_def)
  moreover have "pnerrs ?z = 0 \<longrightarrow> (\<exists>rd. ks = rd @ rest \<and> derives R (rev (int k # xs)) (map int rd))"
  proof
    assume "pnerrs ?z = 0"
    then obtain rd where "ks = rd @ k # rest" "derives R (rev xs) (map int rd)" using d by auto
    with derives_shift [of R "rev xs" rd k] show "\<exists>rd. ks = rd @ rest \<and> derives R (rev (int k # xs)) (map int rd)"
      by (intro exI [of _ "rd @ [k]"]) simp
  qed
  moreover have "perrflag ?z \<noteq> 0 \<longrightarrow> pnerrs ?z \<noteq> 0" using e(2) by simp
  moreover have "set rest \<subseteq> {2..ntk}" using rest(2) by simp
  ultimately show ?thesis unfolding cfg_ok_def by (intro exI conjI)
qed

lemma reduce_stack:
  assumes rdy: "ready st nn tb lsz rs T L vals ntk w A P ts cs"
    and p: "path (tgram T) A (s # ss) xs" and q: "lr_item (tgram T) (kset A s) q" "gmem (tgram T) ! q = - int r" "0 < r"
  obtains n s' ss' j where "ent (pr2 P) r = Some (int (length (snd (all_rules st rs ! r))))"
    "ent (pr1 P) r = Some (int (Suc n))" "drop (length (snd (all_rules st rs ! r))) (s # ss) = s' # ss'"
    "goto_lookup (popt P) (pchk P) n s' = int j" "j < length (kern A)" "fst (all_rules st rs ! r) = NTBASE + int (Suc n)"
    "kset A j = gotoset (tgram T) (kset A s') (NTBASE + int (Suc n))"
    "path (tgram T) A (j # s' # ss') ((NTBASE + int (Suc n)) # drop (length (snd (all_rules st rs ! r))) xs)"
    "rev xs = rev (drop (length (snd (all_rules st rs ! r))) xs) @ snd (all_rules st rs ! r)" "r < length (all_rules st rs)"
proof -
  let ?R = "all_rules st rs" and ?g = "tgram T"
  let ?l = "length (snd (?R ! r))"
  note rd = readyD [OF rdy]
  note dd = decodesD [OF rd(2)]
  have s: "s < length (kern A)" using path_states [OF p rd(12)] by simp
  have ri: "r < length ?R" "item_at ?R ?g q r ?l"
    using reduce_item [OF rd(1) _ q(1,2)] rd(6) s by blast+
  have b: "?l \<le> length xs" "rev (take ?l xs) = snd (?R ! r)" "path ?g A (drop ?l (s # ss)) (drop ?l xs)"
    "lr_item ?g (kset A (hd (drop ?l (s # ss)))) (Suc (prdptr ?g ! r))"
    using path_back [OF rd(1,5) p q(1) ri(2)] by simp_all
  have "length (drop ?l (s # ss)) = Suc (length (drop ?l xs))" by (rule path_length [OF b(3)])
  then obtain s' ss' where ss: "drop ?l (s # ss) = s' # ss'" by (cases "drop ?l (s # ss)") auto
  have s': "s' < length (kern A)" using path_states [OF b(3) rd(12)] ss by simp
  have "is_nonterm nn (fst (?R ! r))" by (rule rule_syms(3) [OF rd(1) ri(1) q(3)])
  then have "0 \<le> fst (?R ! r) - NTBASE - 1" "fst (?R ! r) - NTBASE - 1 < int nn" by (auto simp: is_nonterm_def)
  then obtain n where n: "fst (?R ! r) - NTBASE - 1 = int n" "n < nn" by (metis nonneg_int_cases of_nat_less_iff)
  then have A: "fst (?R ! r) = NTBASE + int (Suc n)" by simp
  have ne: "gotoset ?g (kset A s') (NTBASE + int (Suc n)) \<noteq> {}"
    using lhs_entered [OF rd(1) _ q(3) ri(1), of "kset A s'"] rd(6) s' b(4) ss unfolding A by simp
  have "n < nnonter ?g" using n(2) tables_okD(4) [OF rd(1)] by simp
  from dd(9) [OF s' this ne] obtain j where j: "j < length (kern A)" "goto_lookup (popt P) (pchk P) n s' = int j"
    "kset A j = gotoset ?g (kset A s') (NTBASE + int (Suc n))" by blast
  have "path ?g A (j # s' # ss') ((NTBASE + int (Suc n)) # drop ?l xs)"
    using path.push [OF b(3) [unfolded ss] j(1) _ ne j(3)] by simp
  moreover have "rev xs = rev (drop ?l xs) @ snd (?R ! r)"
  proof -
    have "rev (take ?l xs @ drop ?l xs) = rev (drop ?l xs) @ rev (take ?l xs)" by (rule rev_append)
    then show ?thesis unfolding b(2) append_take_drop_id .
  qed
  moreover have "ent (pr2 P) r = Some (int ?l)" "ent (pr1 P) r = Some (int (Suc n))"
    using rule_tables [OF rd(1) q(3) ri(1)] dd(3,4) A by simp_all
  ultimately show thesis using that ss j A ri(1) by blast
qed

lemma step_error:
  assumes rdy: "ready st nn tb lsz rs T L vals ntk w A P ts cs"
    and p: "path (tgram T) A (pstk z) xs" and rest: "pending vals z rest" "set rest \<subseteq> {2..ntk}"
    and e: "perrflag z \<noteq> 0 \<longrightarrow> pnerrs z \<noteq> 0"
  shows "step_ok (all_rules st rs) st T ntk vals A ks (recover P maxd z)"
proof (cases "perrflag z = 3")
  case three: True
  show ?thesis
  proof (cases "pych z = Some 0")
    case True
    then show ?thesis using three by (simp add: recover_def step_ok_def)
  next
    case False
    have "pending vals (z\<lparr>pych := None\<rparr>) (if pych z = None then rest else tl rest)"
      using rest(1) by (auto simp: pending_def)
    moreover have "set (if pych z = None then rest else tl rest) \<subseteq> {2..ntk}"
      using rest(2) by (cases rest) auto
    ultimately have "cfg_ok (all_rules st rs) T ntk vals A ks (z\<lparr>pych := None\<rparr>)"
      using p e three unfolding cfg_ok_def by (intro exI [of _ xs] exI [of _ "if pych z = None then rest else tl rest"]) simp
    then show ?thesis using False three by (simp add: recover_def step_ok_def)
  qed
next
  case False
  note rd = readyD [OF rdy]
  note dd = decodesD [OF rd(2)]
  let ?z = "z\<lparr>pnerrs := (if perrflag z = 0 then pnerrs z + 1 else pnerrs z), perrflag := 3\<rparr>"
  have r: "recover P maxd z = (case find_err P (pstk z) of None \<Rightarrow> Stop Aborted ?z
      | Some (w, stk) \<Rightarrow> yystack maxd w (?z\<lparr>pstk := stk\<rparr>))"
    using False by (simp add: recover_def Let_def)
  show ?thesis
  proof (cases "find_err P (pstk z)")
    case None
    then show ?thesis unfolding r by (simp add: step_ok_def)
  next
    case (Some wr)
    obtain w0 stk where wr: "wr = (w0, stk)" by (cases wr)
    from find_err_path [OF p Some [unfolded wr]] obtain s ss xs' w' where
      s: "stk = s # ss" "path (tgram T) A (s # ss) xs'" "err_shift P s = Some w'" "w0 = nat w'" by blast
    have sl: "s < length (kern A)" using path_states [OF s(2) rd(12)] by simp
    have "shift_lookup (popt P) (pchk P) s (vals 2) = Some w'" using dd(10) [OF sl] s(3) by simp
    then have "parse_act P s (vals 2) = Some (Shift w')" by (simp add: parse_act_def)
    then have a: "act_of (ts ! s ! 2) (def_of (ts ! s)) = Shift w'" using dd(8) [OF sl, of 2] rd(7) by simp
    from act_cases [OF dd(6) [OF sl], of 2] rd(7,11) obtain j where j: "j < length (kern A)" "w' = int j"
      "gotoset (tgram T) (kset A s) 2 \<noteq> {}" "kset A j = gotoset (tgram T) (kset A s) 2"
      unfolding a by auto
    have "path (tgram T) A (j # s # ss) (2 # xs')" by (rule path.push [OF s(2) j(1) _ j(3,4)]) simp
    then have "cfg_ok (all_rules st rs) T ntk vals A ks (?z\<lparr>pstk := j # s # ss\<rparr>)"
      using rest e unfolding cfg_ok_def
      by (intro exI [of _ "2 # xs'"] exI [of _ rest]) auto
    then have "step_ok (all_rules st rs) st T ntk vals A ks (yystack maxd j (?z\<lparr>pstk := s # ss\<rparr>))"
      by (intro step_ok_stack) simp
    then show ?thesis unfolding r Some wr using s(1,4) j(2) by simp
  qed
qed

text \<open>A step is always defined, and keeps the invariant.\<close>

lemma step_defined:
  assumes rdy: "ready st nn tb lsz rs T L vals ntk w A P ts cs" and cfg: "cfg_ok (all_rules st rs) T ntk vals A ks z"
  shows "\<exists>r. yystep P maxd z = Some r \<and> step_ok (all_rules st rs) st T ntk vals A ks r"
proof -
  let ?R = "all_rules st rs" and ?g = "tgram T"
  note rd = readyD [OF rdy]
  note dd = decodesD [OF rd(2)]
  from cfg obtain xs rest where p: "path ?g A (pstk z) xs" and pe: "pending vals z rest" "set rest \<subseteq> {2..ntk}"
    and e: "perrflag z \<noteq> 0 \<longrightarrow> pnerrs z \<noteq> 0"
    and der: "pnerrs z = 0 \<longrightarrow> (\<exists>rd. ks = rd @ rest \<and> derives ?R (rev xs) (map int rd))"
    unfolding cfg_ok_def by (elim exE conjE) (rule that)
  obtain s ss where stk: "pstk z = s # ss" using path_length [OF p] by (cases "pstk z") auto
  have s: "s < length (kern A)" using path_states [OF p rd(12)] stk by simp
  have en: "ent (indgo (popt P)) s = Some (indgo (popt P) ! s)" "ent (pdef P) s = Some (pdef P ! s)"
    using s dd(1,2) by simp_all
  let ?need = "YYFLAG1 < indgo (popt P) ! s \<or> pdef P ! s = - 2"
  define z1 where "z1 = (if ?need then yylex z else z)"
  have z1: "pending vals z1 rest" "pstk z1 = s # ss" "perrflag z1 = perrflag z" "pnerrs z1 = pnerrs z" "?need \<longrightarrow> pych z1 \<noteq> None"
    using pending_lex [OF pe(1) rd(10)] pe(1) stk by (simp_all add: z1_def)
  define k where "k = (if pych z1 = None then 1 else case rest of [] \<Rightarrow> 1 | k # _ \<Rightarrow> k)"
  have k: "0 < k" "k \<le> ntk" using pe(2) rd(7) by (auto simp: k_def split: list.splits)
  have tok: "(case pych z1 of None \<Rightarrow> 0 | Some c \<Rightarrow> c) = vals k"
    using z1(1) rd(10) by (auto simp: k_def pending_def split: option.splits)
  let ?a = "act_of (ts ! s ! k) (def_of (ts ! s))"
  have act: "parse_act P s (vals k) = Some ?a" by (rule dd(8) [OF s k])
  note ac = act_cases [OF dd(6) [OF s] k rd(11)]
  have step: "yystep P maxd z = yyact P maxd z1 ?a"
    unfolding yystep_def Let_def stk
    by (simp only: list.case en Option.bind.bind_lunit z1_def [symmetric] tok act)
  have lexed: "pych z1 \<noteq> None" if "?a = Accept \<or> (\<exists>w. ?a = Shift w)"
  proof
    assume "pych z1 = None"
    then have "\<not> ?need" using z1(5) by blast
    from simple_act(2,3) [OF _ _ this, of "vals k"] s dd(1,2) act that show False by auto
  qed
  have rest_k: "rest = k # tl rest \<or> rest = [] \<and> k = 1" if "pych z1 \<noteq> None"
    using that by (cases rest) (auto simp: k_def)
  show ?thesis
  proof (cases ?a)
    case (Shift w0)
    then obtain j where j: "k \<noteq> 1" "j < length (kern A)" "w0 = int j" "gotoset ?g (kset A s) (int k) \<noteq> {}"
      "kset A j = gotoset ?g (kset A s) (int k)" using ac by auto
    have ne: "pych z1 \<noteq> None" using lexed Shift by blast
    then have r: "rest = k # tl rest" using rest_k j(1) by blast
    have "cfg_ok ?R T ntk vals A ks (z1\<lparr>pych := None, perrflag := perrflag z1 - 1, pstk := j # pstk z1\<rparr>)"
    proof (rule step_shift [OF _ z1(2) _ _ ne _ _ j(2,4,5)])
      show "path ?g A (pstk z1) xs" using p stk z1(2) by simp
      show "pending vals z1 (k # tl rest)" "set (k # tl rest) \<subseteq> {2..ntk}" using z1(1) pe(2) r by simp_all
      show "perrflag z1 \<noteq> 0 \<longrightarrow> pnerrs z1 \<noteq> 0" using e z1(3,4) by simp
      show "pnerrs z1 = 0 \<longrightarrow> (\<exists>rd. ks = rd @ k # tl rest \<and> derives ?R (rev xs) (map int rd))"
        using der z1(4) r by simp
    qed
    then have "step_ok ?R st T ntk vals A ks (yystack maxd j (z1\<lparr>pych := None, perrflag := perrflag z1 - 1\<rparr>))"
      by (intro step_ok_stack) simp
    then show ?thesis unfolding step Shift using j(3) by (simp add: yyact_def)
  next
    case (Reduce r)
    then obtain q where q: "0 < r" "lr_item ?g (kset A s) q" "gmem ?g ! q = - int r" using ac by auto
    obtain n s' ss' j where j: "ent (pr2 P) r = Some (int (length (snd (?R ! r))))"
      "ent (pr1 P) r = Some (int (Suc n))" "drop (length (snd (?R ! r))) (s # ss) = s' # ss'"
      "goto_lookup (popt P) (pchk P) n s' = int j" "j < length (kern A)" "fst (?R ! r) = NTBASE + int (Suc n)"
      "kset A j = gotoset ?g (kset A s') (NTBASE + int (Suc n))"
      "path ?g A (j # s' # ss') ((NTBASE + int (Suc n)) # drop (length (snd (?R ! r))) xs)"
      "rev xs = rev (drop (length (snd (?R ! r))) xs) @ snd (?R ! r)" "r < length ?R"
      by (rule reduce_stack [OF rdy p [unfolded stk] q(2,3,1)])
    have "pnerrs z1 = 0 \<longrightarrow> (\<exists>rd. ks = rd @ rest \<and>
        derives ?R (rev ((NTBASE + int (Suc n)) # drop (length (snd (?R ! r))) xs)) (map int rd))"
      using der z1(4) derives_reduce [OF j(10), of "rev (drop (length (snd (?R ! r))) xs)"] j(6,9) by auto
    then have "cfg_ok ?R T ntk vals A ks (z1\<lparr>pstk := j # s' # ss'\<rparr>)"
      using j(8) z1(1,3,4) pe(2) e unfolding cfg_ok_def
      by (intro exI [of _ "(NTBASE + int (Suc n)) # drop (length (snd (?R ! r))) xs"] exI [of _ rest]) simp
    then have "step_ok ?R st T ntk vals A ks (yystack maxd j (z1\<lparr>pstk := s' # ss'\<rparr>))"
      by (intro step_ok_stack) simp
    then show ?thesis unfolding step Reduce using j(1-4) z1(2) by (simp add: yyact_def Let_def del: of_nat_Suc)
  next
    case Accept
    then have sk: "s = 1" "k = 1" using ac by auto
    have "pych z1 \<noteq> None" using lexed Accept by blast
    then have "rest = []" using rest_k sk(2) pe(2) by (cases rest) auto
    moreover have "xs = [st]" using accept_stack [OF rd(1,5,6,12,3)] p stk sk(1) by simp
    ultimately have "pnerrs z1 = 0 \<longrightarrow> derives ?R [st] (map int ks)" using der z1(4) by auto
    then show ?thesis unfolding step Accept by (simp add: yyact_def step_ok_def)
  next
    case Error
    have "path ?g A (pstk z1) xs" using p stk z1(2) by simp
    from step_error [OF rdy this z1(1) pe(2)] e z1(3,4) show ?thesis unfolding step Error by (simp add: yyact_def)
  qed
qed

text \<open>The configurations of a run.\<close>

inductive yyreach :: "ptables \<Rightarrow> nat \<Rightarrow> nat list \<Rightarrow> pstate \<Rightarrow> bool" for P maxd inp where
  start: "yyreach P maxd inp (parse_start inp)"
| step: "yyreach P maxd inp z \<Longrightarrow> yystep P maxd z = Some (Next z') \<Longrightarrow> yyreach P maxd inp z'"

lemma reach_ok:
  assumes rdy: "ready st nn tb lsz rs T L vals ntk w A P ts cs" and ks: "set ks \<subseteq> {2..ntk}"
  shows "yyreach P maxd (map vals ks) z \<Longrightarrow> cfg_ok (all_rules st rs) T ntk vals A ks z"
proof (induction rule: yyreach.induct)
  case start
  have "path (tgram T) A [0] []" by (rule path.bottom)
  then show ?case using ks unfolding cfg_ok_def parse_start_def pending_def
    by (intro exI [of _ "[]"] exI [of _ ks]) simp
next
  case (step z z')
  from step_defined [OF rdy step.IH, of maxd] step.hyps(2) show ?case by (simp add: step_ok_def)
qed

lemma yyparse_reach:
  assumes "yyparse P maxd z = Some r" "yyreach P maxd inp z"
  shows "\<exists>z'. yyreach P maxd inp z' \<and> yystep P maxd z' = Some (Stop (fst r) (snd r))"
proof -
  let ?Q = "\<lambda>((P, maxd), z) r. yyreach P maxd inp z \<longrightarrow>
    (\<exists>z'. yyreach P maxd inp z' \<and> yystep P maxd z' = Some (Stop (fst r) (snd r)))"
  have "?Q ((P, maxd), z) r"
    using assms(1)
  proof (rule yyparse.raw_induct [where Pa = ?Q, rotated])
    fix f P maxd z r
    assume IH: "\<And>P maxd z r. f P maxd z = Some r \<Longrightarrow> ?Q ((P, maxd), z) r"
      and f: "do { r \<leftarrow> yystep P maxd z; (case r of Next z \<Rightarrow> f P maxd z | Stop r z \<Rightarrow> Some (r, z)) } = Some r"
    from f obtain q where q: "yystep P maxd z = Some q" "(case q of Next z \<Rightarrow> f P maxd z | Stop r z \<Rightarrow> Some (r, z)) = Some r"
      by (auto split: Option.bind_splits)
    show "?Q ((P, maxd), z) r"
    proof (cases q)
      case (Next z1)
      then show ?thesis using IH [of P maxd z1 r] q yyreach.step [of P maxd inp z z1] by auto
    next
      case (Stop o1 z1)
      then show ?thesis using q by auto
    qed
  qed
  with assms(2) show ?thesis by simp
qed

end
