(* ===== verification/Ycmp.thy ===== *)
theory Ycmp
  imports Ysnd
begin

text \<open>
  The other direction: when no conflict was reported, no levels were given and no state lost a lookahead,
  the parser accepts every sentence.  \<open>yields\<close> is a derivation read from the left; the
  parser follows it.
\<close>

subsection \<open>Derivations from the left\<close>

inductive yields :: "rule list \<Rightarrow> int list \<Rightarrow> nat list \<Rightarrow> bool" for R where
  nil: "yields R [] []"
| tok: "yields R xs w \<Longrightarrow> yields R (int k # xs) (k # w)"
| rule: "(A, r) \<in> set R \<Longrightarrow> yields R r u \<Longrightarrow> yields R xs w \<Longrightarrow> yields R (A # xs) (u @ w)"

lemma yields_append: "yields R xs u \<Longrightarrow> yields R ys w \<Longrightarrow> yields R (xs @ ys) (u @ w)"
  by (induction rule: yields.induct) (auto intro: yields.intros)

lemma yields_split: "yields R zs w \<Longrightarrow> zs = xs @ ys \<Longrightarrow> \<exists>u v. w = u @ v \<and> yields R xs u \<and> yields R ys v"
proof (induction arbitrary: xs rule: yields.induct)
  case nil
  then show ?case by (auto intro: yields.nil)
next
  case (tok zs w k)
  show ?case
  proof (cases xs)
    case Nil
    then show ?thesis using tok.prems yields.tok [OF tok.hyps] yields.nil by fastforce
  next
    case (Cons x xs')
    then obtain u v where "w = u @ v" "yields R xs' u" "yields R ys v" using tok.IH [of xs'] tok.prems by auto
    then show ?thesis using Cons tok.prems yields.tok [of R xs' u k] by (intro exI [of _ "k # u"] exI [of _ v]) simp
  qed
next
  case (rule A r u zs w)
  show ?case
  proof (cases xs)
    case Nil
    then show ?thesis using rule.prems yields.rule [OF rule.hyps(1-3)] yields.nil by fastforce
  next
    case (Cons x xs')
    then obtain u' v where "w = u' @ v" "yields R xs' u'" "yields R ys v" using rule.IH(2) [of xs'] rule.prems by auto
    then show ?thesis using Cons rule.prems yields.rule [OF rule.hyps(1,2), of xs' u']
      by (intro exI [of _ "u @ u'"] exI [of _ v]) simp
  qed
qed

lemma yields_toks: "yields R (map int w) w"
  by (induction w) (auto intro: yields.intros)

lemma derives_yields: "derives R xs (map int w) \<Longrightarrow> yields R xs w"
proof (induction rule: converse_rtranclp_induct)
  case base
  show ?case by (rule yields_toks)
next
  case (step xs ys)
  from step.hyps(1) obtain A r u v where d: "(A, r) \<in> set R" "xs = u @ A # v" "ys = u @ r @ v" by (auto elim: dstep.cases)
  from yields_split [OF step.IH d(3)] obtain w1 w23 where 1: "w = w1 @ w23" "yields R u w1" "yields R (r @ v) w23" by blast
  from yields_split [OF 1(3) refl] obtain w2 w3 where "w23 = w2 @ w3" "yields R r w2" "yields R v w3" by blast
  then show ?case using yields_append [OF 1(2) yields.rule [OF d(1), of w2 v w3]] 1(1) d(2) by simp
qed

lemma yields_derives: "yields R xs w \<Longrightarrow> derives R xs (map int w)"
proof (induction rule: yields.induct)
  case (tok xs w k)
  from derives_append [OF _ tok.IH, of "[int k]" "[int k]"] show ?case by simp
next
  case (rule A r u xs w)
  have "derives R [A] (map int u)" using derives_rule [OF rule.hyps(1)] rule.IH(1) by (rule rtranclp_trans)
  from derives_append [OF this rule.IH(2)] show ?case by simp
qed simp

subsection \<open>The actions without conflicts\<close>

lemma no_zero_item:
  assumes T: "tables_ok st nn tb lsz rs T" and lr: "lr_state (tgram T) P"
    and p: "lr_item (tgram T) P p" "gmem (tgram T) ! p = 0"
  shows False
proof -
  let ?R = "all_rules st rs"
  have R0: "snd (?R ! 0) = [st, 1]" "0 < length ?R" by (simp_all add: all_rules_def)
  have i: "item_at ?R (tgram T) p 0 (Suc 1)" using reduce_item(2) [OF T lr p(1), of 0] p(2) R0 by (simp add: eval_nat_numeral)
  have pP: "p \<in> P" by (rule item_kernel [OF T p(1) i])
  have p3: "p = Suc (Suc (Suc (prdptr (tgram T) ! 0)))" using i by (simp add: item_at_def)
  have "gmem (tgram T) ! (prdptr (tgram T) ! 0 + 1 + 1) = 1" using rule_cells(2) [OF T R0(2), of 1] R0(1) by simp
  then have one: "gmem (tgram T) ! (p - 1) = 1" using p3 by simp
  from lr show False
  proof (cases rule: lr_state.cases)
    case start
    then show ?thesis using pP p3 by simp
  next
    case (move K c)
    then show ?thesis using pP gotoset_sym [of p "tgram T" K c] one by simp
  qed
qed

definition clean :: "tables \<Rightarrow> levels \<Rightarrow> ptables \<Rightarrow> bool" where
  "clean T L P \<longleftrightarrow> pconf P = (0, 0) \<and> (\<forall>k. PLEVEL (toklev L k) = 0) \<and> (\<forall>K. lr_state (tgram T) K \<longrightarrow> \<not> lossy (tgram T) K)"

lemma clean_row:
  assumes rdy: "ready st nn tb lsz rs T L vals ntk w A P ts cs" and cl: "clean T L P"
    and i: "i < length (kern A)" and k: "0 < k" "k \<le> ntk"
  obtains a where "if i = 1 \<and> k = 1 then a = ACCEPTCODE else shift_ok T A i k a"
    "reds (all_rules st rs) T A i k = {} \<longrightarrow> ts ! i ! k = a"
    "\<And>r. r \<in> reds (all_rules st rs) T A i k \<Longrightarrow> a = 0 \<and> ts ! i ! k = - int r"
proof -
  let ?R = "all_rules st rs" and ?m = "gmem (tgram T)"
  note rd = readyD [OF rdy]
  note dd = decodesD [OF rd(2)]
  have conf: "pconf P = (0, 0)" "\<forall>k. PLEVEL (toklev L k) = 0" using cl by (simp_all add: clean_def)
  from dd(6) [OF i] dd(7) [OF i conf(1)] obtain W t0 where W: "length t0 = ntk + 1" "conflicts L ?m W t0 = (0, 0)"
    and all: "\<forall>k. 0 < k \<and> k \<le> ntk \<longrightarrow> (if i = 1 \<and> k = 1 then t0 ! k = ACCEPTCODE else shift_ok T A i k (t0 ! k)) \<and>
        redset ?m W k = reds ?R T A i k \<and> ts ! i ! k = fold (reduce_by L ?m k) W (t0 ! k)"
    unfolding row_ok_def by auto
  from all k have t0: "if i = 1 \<and> k = 1 then t0 ! k = ACCEPTCODE else shift_ok T A i k (t0 ! k)"
    and rk: "redset ?m W k = reds ?R T A i k" and tk: "ts ! i ! k = fold (reduce_by L ?m k) W (t0 ! k)" by blast+
  have "0 \<notin> reds ?R T A i k"
  proof
    assume "0 \<in> reds ?R T A i k"
    then obtain p where "lr_item (tgram T) (kset A i) p" "?m ! p = 0" by (auto simp: reds_def)
    with no_zero_item [OF rd(1), of "kset A i" p] rd(6) i show False by simp
  qed
  then have no: "0 \<notin> redset ?m W k" using rk by simp
  have nc: "redset ?m W k = {} \<or> t0 ! k = 0 \<and> (\<exists>r. redset ?m W k = {r})"
    using no_conflicts [OF W(2) conf(2) no k(1)] k(2) W(1) by simp
  have "reds ?R T A i k = {} \<longrightarrow> ts ! i ! k = t0 ! k" using tk rk reductions_none by auto
  moreover have "t0 ! k = 0 \<and> ts ! i ! k = - int r" if r: "r \<in> reds ?R T A i k" for r
  proof -
    from nc r rk have "t0 ! k = 0" "redset ?m W k = {r}" by auto
    then show ?thesis using reductions_min [OF no, of "t0 ! k" L] tk by simp
  qed
  ultimately show thesis using that [OF t0] by blast
qed

lemma clean_reduce:
  assumes rdy: "ready st nn tb lsz rs T L vals ntk w A P ts cs" and cl: "clean T L P"
    and i: "i < length (kern A)" and k: "0 < k" "k \<le> ntk"
    and p: "lr_item (tgram T) (kset A i) p" "gmem (tgram T) ! p = - int r" "lalr (all_rules st rs) (tgram T) (kset A i) p k"
    and r: "0 < r"
  shows "parse_act P i (vals k) = Some (Reduce r)"
proof -
  let ?R = "all_rules st rs"
  note rd = readyD [OF rdy]
  note dd = decodesD [OF rd(2)]
  have f: "finished ?R T ntk w A" using rdy by (simp add: ready_def)
  have ok: "\<forall>K. lr_state (tgram T) K \<longrightarrow> \<not> lossy (tgram T) K" using cl by (simp add: clean_def)
  from all_looks_passed [OF finishedD(1,2) [OF f] ok p(3)] obtain i' where
    i': "i' < length (kern A)" "kset A i' = kset A i" "k \<in> looks_of ?R T A i' p" by blast
  have "i' = i" by (rule kernels_okD(6) [OF finishedD(4) [OF f] i'(1) i i'(2)])
  then have "r \<in> reds ?R T A i k" using p(1,2) i'(3) by (auto simp: reds_def)
  with clean_row [OF rdy cl i k] have "ts ! i ! k = - int r" by metis
  then have "act_of (ts ! i ! k) (def_of (ts ! i)) = Reduce r" using r by (auto simp: act_of_def)
  then show ?thesis using dd(8) [OF i k] by simp
qed

lemma clean_shift:
  assumes rdy: "ready st nn tb lsz rs T L vals ntk w A P ts cs" and cl: "clean T L P"
    and i: "i < length (kern A)" and k: "1 < k" "k \<le> ntk"
    and j: "j < length (kern A)" "gotoset (tgram T) (kset A i) (int k) \<noteq> {}" "kset A j = gotoset (tgram T) (kset A i) (int k)"
  shows "parse_act P i (vals k) = Some (Shift (int j))"
proof -
  note rd = readyD [OF rdy]
  note dd = decodesD [OF rd(2)]
  have f: "finished (all_rules st rs) T ntk w A" using rdy by (simp add: ready_def)
  have k0: "0 < k" using k(1) by simp
  obtain a where a: "if i = 1 \<and> k = 1 then a = ACCEPTCODE else shift_ok T A i k a"
    "reds (all_rules st rs) T A i k = {} \<longrightarrow> ts ! i ! k = a" "\<And>r. r \<in> reds (all_rules st rs) T A i k \<Longrightarrow> a = 0"
    using clean_row [OF rdy cl i k0 k(2)] by metis
  from a(1) k(1) have "shift_ok T A i k a" by simp
  with j(2) k(1) obtain j' where j': "j' < length (kern A)" "j' \<noteq> 0" "kset A j' = kset A j" "a = int j'"
    unfolding shift_ok_def j(3) by auto
  have "j' = j" by (rule kernels_okD(6) [OF finishedD(4) [OF f] j'(1) j(1) j'(3)])
  then have a': "a = int j" "0 < j" using j'(2,4) by simp_all
  then have "reds (all_rules st rs) T A i k = {}" using a(3) by fastforce
  then have "ts ! i ! k = int j" using a(2) a'(1) by simp
  then have "act_of (ts ! i ! k) (def_of (ts ! i)) = Shift (int j)"
    using a'(2) def_of_ge [of "ts ! i"] j(1) rd(11) by (simp add: act_of_def)
  then show ?thesis using dd(8) [OF i k0 k(2)] by simp
qed

lemma clean_accept:
  assumes rdy: "ready st nn tb lsz rs T L vals ntk w A P ts cs" and cl: "clean T L P"
  shows "parse_act P 1 (vals 1) = Some Accept"
proof -
  note rd = readyD [OF rdy]
  note dd = decodesD [OF rd(2)]
  have k: "0 < (1 :: nat)" "1 \<le> ntk" using rd(7) by simp_all
  obtain a where a: "if (1 :: nat) = 1 \<and> (1 :: nat) = 1 then a = ACCEPTCODE else shift_ok T A 1 1 a"
    "reds (all_rules st rs) T A 1 1 = {} \<longrightarrow> ts ! 1 ! 1 = a" "\<And>r. r \<in> reds (all_rules st rs) T A 1 1 \<Longrightarrow> a = 0"
    using clean_row [OF rdy cl rd(4) k] by metis
  have "reds (all_rules st rs) T A 1 1 = {}" using a(1,3) by fastforce
  then have "ts ! 1 ! 1 = ACCEPTCODE" using a(1,2) by simp
  then have "act_of (ts ! 1 ! 1) (def_of (ts ! 1)) = Accept" by (simp add: act_of_def def_of_def)
  then show ?thesis using dd(8) [OF rd(4) k] by simp
qed

subsection \<open>Steps\<close>

definition at_cfg :: "(nat \<Rightarrow> nat) \<Rightarrow> pstate \<Rightarrow> nat list \<Rightarrow> nat list \<Rightarrow> bool" where
  "at_cfg vals z stk rest \<longleftrightarrow> pstk z = stk \<and> pending vals z rest \<and> perrflag z = 0 \<and> pnerrs z = 0"

text \<open>The token the parser sees: the next one, or the end.\<close>

definition ahead :: "nat list \<Rightarrow> nat" where
  "ahead rest = (case rest of [] \<Rightarrow> 1 | k # _ \<Rightarrow> k)"

lemma ahead_simps [simp]: "ahead [] = 1" "ahead (k # rest) = k"
  by (simp_all add: ahead_def)

lemma ahead_range: "set rest \<subseteq> {2..ntk} \<Longrightarrow> 2 \<le> ntk \<Longrightarrow> 0 < ahead rest \<and> ahead rest \<le> ntk"
  by (cases rest) auto

lemma step_act:
  assumes rdy: "ready st nn tb lsz rs T L vals ntk w A P ts cs" and z: "at_cfg vals z (s # ss) rest" and s: "s < length (kern A)"
    and a: "parse_act P s (vals (ahead rest)) = Some a"
  obtains z1 where "at_cfg vals z1 (s # ss) rest" "yystep P maxd z = yyact P maxd z1 a"
    "a = Accept \<or> (\<exists>w. a = Shift w) \<Longrightarrow> pych z1 \<noteq> None"
proof -
  note rd = readyD [OF rdy]
  note dd = decodesD [OF rd(2)]
  have en: "ent (indgo (popt P)) s = Some (indgo (popt P) ! s)" "ent (pdef P) s = Some (pdef P ! s)"
    using s dd(1,2) by simp_all
  let ?need = "YYFLAG1 < indgo (popt P) ! s \<or> pdef P ! s = - 2"
  define z1 where "z1 = (if ?need then yylex z else z)"
  have zz: "pstk z = s # ss" "pending vals z rest" "perrflag z = 0" "pnerrs z = 0" using z by (simp_all add: at_cfg_def)
  have z1: "at_cfg vals z1 (s # ss) rest" "?need \<longrightarrow> pych z1 \<noteq> None"
    using pending_lex [OF zz(2) rd(10)] zz by (simp_all add: z1_def at_cfg_def)
  have act: "parse_act P s (case pych z1 of None \<Rightarrow> 0 | Some c \<Rightarrow> c) = Some a"
  proof (cases "pych z1")
    case None
    then have "\<not> ?need" using z1(2) by blast
    from simple_act(1) [OF _ _ this, of "vals (ahead rest)"] a s dd(1,2) None show ?thesis by simp
  next
    case (Some c)
    then have "c = vals (ahead rest)" using z1(1) by (simp add: at_cfg_def pending_def ahead_def)
    then show ?thesis using a Some by simp
  qed
  have "yystep P maxd z = yyact P maxd z1 a"
    unfolding yystep_def Let_def zz(1)
    by (simp only: list.case en Option.bind.bind_lunit z1_def [symmetric] act)
  moreover have "pych z1 \<noteq> None" if "a = Accept \<or> (\<exists>w. a = Shift w)"
  proof
    assume "pych z1 = None"
    then have "\<not> ?need" using z1(2) by blast
    from simple_act(2,3) [OF _ _ this, of "vals (ahead rest)"] s dd(1,2) a that show False by auto
  qed
  ultimately show thesis using that [OF z1(1)] by blast
qed

definition runs :: "ptables \<Rightarrow> nat \<Rightarrow> pstate \<Rightarrow> pstate \<Rightarrow> bool" where
  "runs P maxd = rtranclp (\<lambda>z z'. yystep P maxd z = Some (Next z'))"

lemma runs_refl: "runs P maxd z z"
  by (simp add: runs_def)

lemma runs_trans: "runs P maxd z z' \<Longrightarrow> runs P maxd z' z'' \<Longrightarrow> runs P maxd z z''"
  unfolding runs_def by (rule rtranclp_trans)

lemma runs_one: "yystep P maxd z = Some (Next z') \<Longrightarrow> runs P maxd z z'"
  by (simp add: runs_def r_into_rtranclp)

lemma yyparse_runs: "runs P maxd z z' \<Longrightarrow> yyparse P maxd z = yyparse P maxd z'"
  unfolding runs_def
proof (induction rule: converse_rtranclp_induct)
  case (step z z1)
  then show ?case by (subst yyparse.simps) simp
qed simp

lemma run_shift:
  assumes rdy: "ready st nn tb lsz rs T L vals ntk w A P ts cs" and cl: "clean T L P"
    and z: "at_cfg vals z (s # ss) (k # rest)" and s: "s < length (kern A)" and k: "1 < k" "k \<le> ntk"
    and j: "j < length (kern A)" "gotoset (tgram T) (kset A s) (int k) \<noteq> {}" "kset A j = gotoset (tgram T) (kset A s) (int k)"
    and d: "length (s # ss) < maxd"
  shows "\<exists>z'. runs P maxd z z' \<and> at_cfg vals z' (j # s # ss) rest"
proof -
  have a: "parse_act P s (vals (ahead (k # rest))) = Some (Shift (int j))" using clean_shift [OF rdy cl s k j] by simp
  obtain z1 where z1: "at_cfg vals z1 (s # ss) (k # rest)" "yystep P maxd z = yyact P maxd z1 (Shift (int j))" "pych z1 \<noteq> None"
    by (rule step_act [OF rdy z s a, of maxd]) blast
  let ?z = "z1\<lparr>pych := None, perrflag := perrflag z1 - 1, pstk := j # s # ss\<rparr>"
  have "yystep P maxd z = Some (Next ?z)"
    using z1(1,2) d by (simp add: yyact_def yystack_def at_cfg_def)
  moreover have "at_cfg vals ?z (j # s # ss) rest" using z1(1,3) by (auto simp: at_cfg_def pending_def)
  ultimately show ?thesis using runs_one by blast
qed

lemma run_reduce:
  assumes rdy: "ready st nn tb lsz rs T L vals ntk w A P ts cs" and cl: "clean T L P"
    and z: "at_cfg vals z (s # ss) rest" and p: "path (tgram T) A (s # ss) xs" and rest: "set rest \<subseteq> {2..ntk}"
    and q: "lr_item (tgram T) (kset A s) q" "gmem (tgram T) ! q = - int r" "0 < r"
      "lalr (all_rules st rs) (tgram T) (kset A s) q (ahead rest)"
    and dr: "drop (length (snd (all_rules st rs ! r))) (s # ss) = s' # ss'"
    and j: "j < length (kern A)" "kset A j = gotoset (tgram T) (kset A s') (fst (all_rules st rs ! r))"
    and d: "length (s' # ss') < maxd"
  shows "\<exists>z'. runs P maxd z z' \<and> at_cfg vals z' (j # s' # ss') rest"
proof -
  note rd = readyD [OF rdy]
  have f: "finished (all_rules st rs) T ntk w A" using rdy by (simp add: ready_def)
  have s: "s < length (kern A)" using path_states [OF p rd(12)] by simp
  have k: "0 < ahead rest" "ahead rest \<le> ntk" using ahead_range [OF rest rd(7)] by simp_all
  have a: "parse_act P s (vals (ahead rest)) = Some (Reduce r)" by (rule clean_reduce [OF rdy cl s k q(1,2,4,3)])
  obtain z1 where z1: "at_cfg vals z1 (s # ss) rest" "yystep P maxd z = yyact P maxd z1 (Reduce r)"
    by (rule step_act [OF rdy z s a, of maxd]) blast
  obtain n s2 ss2 j2 where r: "ent (pr2 P) r = Some (int (length (snd (all_rules st rs ! r))))"
    "ent (pr1 P) r = Some (int (Suc n))" "drop (length (snd (all_rules st rs ! r))) (s # ss) = s2 # ss2"
    "goto_lookup (popt P) (pchk P) n s2 = int j2" "j2 < length (kern A)" "fst (all_rules st rs ! r) = NTBASE + int (Suc n)"
    "kset A j2 = gotoset (tgram T) (kset A s2) (NTBASE + int (Suc n))"
    by (rule reduce_stack [OF rdy p q(1-3)])
  have ss: "s2 = s'" "ss2 = ss'" using r(3) dr by simp_all
  have "j2 = j" by (rule kernels_okD(6) [OF finishedD(4) [OF f] r(5) j(1)]) (use r(6,7) j(2) ss in simp)
  then have "yystep P maxd z = Some (Next (z1\<lparr>pstk := j # s' # ss'\<rparr>))"
    using z1 r(1-4) ss d by (simp add: yyact_def yystack_def at_cfg_def Let_def del: of_nat_Suc)
  moreover have "at_cfg vals (z1\<lparr>pstk := j # s' # ss'\<rparr>) (j # s' # ss') rest" using z1(1) by (simp add: at_cfg_def)
  ultimately show ?thesis using runs_one by blast
qed

subsection \<open>The parser follows a derivation\<close>

lemma rhs_at_item:
  assumes T: "tables_ok st nn tb lsz rs T" and i: "item_at (all_rules st rs) (tgram T) p r k"
  shows "rhs_at (gmem (tgram T)) p = drop k (snd (all_rules st rs ! r))"
proof -
  let ?x = "snd (all_rules st rs ! r)"
  have ii: "r < length (all_rules st rs)" "k \<le> length ?x" "p = prdptr (tgram T) ! r + 1 + k" using i by (simp_all add: item_at_def)
  obtain rest where "drop (prdptr (tgram T) ! r) (gmem (tgram T)) = fst (all_rules st rs ! r) # ?x @ (- int r) # rest"
    using rule_nth [OF T ii(1)] by blast
  then have "drop (1 + k) (drop (prdptr (tgram T) ! r) (gmem (tgram T))) = drop k ?x @ (- int r) # rest" using ii(2) by simp
  then have d: "drop p (gmem (tgram T)) = drop k ?x @ (- int r) # rest" using ii(3) by (simp add: add.commute)
  have "\<forall>s \<in> set (drop k ?x). 0 < s"
    using rule_syms(2) [OF T ii(1)] by (auto dest!: in_set_dropD simp: is_token_def is_nonterm_def)
  then show ?thesis unfolding rhs_at_def d by (simp add: takeWhile_append2)
qed

definition walks :: "rule list \<Rightarrow> tables \<Rightarrow> (nat \<Rightarrow> nat) \<Rightarrow> automaton \<Rightarrow> ptables \<Rightarrow> nat \<Rightarrow> nat \<Rightarrow> nat list \<Rightarrow> nat \<Rightarrow>
    nat list \<Rightarrow> nat list \<Rightarrow> bool" where
  "walks R T vals A P n s ss p u v \<longleftrightarrow>
    (\<exists>s' st1 xs d. length (s' # st1) = Suc n \<and> drop n (s' # st1 @ ss) = s # ss \<and>
      path (tgram T) A (s' # st1 @ ss) xs \<and>
      lr_item (tgram T) (kset A s') (p + n) \<and> lalr R (tgram T) (kset A s') (p + n) (ahead v) \<and>
      (\<forall>maxd \<ge> d. \<forall>z. at_cfg vals z (s # ss) (u @ v) \<longrightarrow> (\<exists>z'. runs P maxd z z' \<and> at_cfg vals z' (s' # st1 @ ss) v)))"

lemma walks_step:
  assumes w: "walks R T vals A P n j (s # ss) (Suc p) w v"
    and f: "\<forall>maxd \<ge> d0. \<forall>z. at_cfg vals z (s # ss) (u @ w @ v) \<longrightarrow> (\<exists>z'. runs P maxd z z' \<and> at_cfg vals z' (j # s # ss) (w @ v))"
  shows "walks R T vals A P (Suc n) s ss p (u @ w) v"
proof -
  from w obtain s' st1 xs d where w: "length (s' # st1) = Suc n" "drop n (s' # st1 @ s # ss) = j # s # ss"
    "path (tgram T) A (s' # st1 @ s # ss) xs" "lr_item (tgram T) (kset A s') (Suc p + n)"
    "lalr R (tgram T) (kset A s') (Suc p + n) (ahead v)"
    "\<forall>maxd \<ge> d. \<forall>z. at_cfg vals z (j # s # ss) (w @ v) \<longrightarrow> (\<exists>z'. runs P maxd z z' \<and> at_cfg vals z' (s' # st1 @ s # ss) v)"
    unfolding walks_def by blast
  have "drop (Suc n) (s' # st1 @ s # ss) = tl (drop n (s' # st1 @ s # ss))" by (simp add: drop_Suc tl_drop)
  then have dr: "drop (Suc n) (s' # (st1 @ [s]) @ ss) = s # ss" using w(2) by simp
  have r: "\<exists>z'. runs P maxd z z' \<and> at_cfg vals z' (s' # (st1 @ [s]) @ ss) v"
    if m: "max d0 d \<le> maxd" and z: "at_cfg vals z (s # ss) ((u @ w) @ v)" for maxd z
  proof -
    from f m z obtain z1 where z1: "runs P maxd z z1" "at_cfg vals z1 (j # s # ss) (w @ v)" by auto
    from w(6) m z1(2) obtain z2 where "runs P maxd z1 z2" "at_cfg vals z2 (s' # st1 @ s # ss) v" by auto
    with runs_trans [OF z1(1)] show ?thesis by auto
  qed
  have "length (s' # st1 @ [s]) = Suc (Suc n)" "path (tgram T) A (s' # (st1 @ [s]) @ ss) xs"
    "lr_item (tgram T) (kset A s') (p + Suc n)" "lalr R (tgram T) (kset A s') (p + Suc n) (ahead v)"
    using w(1,3-5) by simp_all
  with dr r show ?thesis unfolding walks_def
    by (intro exI [of _ s'] exI [of _ "st1 @ [s]"] exI [of _ xs] exI [of _ "max d0 d"]) blast
qed

lemma goto_step:
  assumes rdy: "ready st nn tb lsz rs T L vals ntk w A P ts cs"
    and p: "path (tgram T) A (s # ss) xs" "lr_item (tgram T) (kset A s) p" "item_at (all_rules st rs) (tgram T) p r k"
    and c: "gmem (tgram T) ! p = c" "1 < c" and la: "lalr (all_rules st rs) (tgram T) (kset A s) p t"
  obtains j where "j < length (kern A)" "gotoset (tgram T) (kset A s) c \<noteq> {}" "kset A j = gotoset (tgram T) (kset A s) c"
    "path (tgram T) A (j # s # ss) (c # xs)" "lr_item (tgram T) (kset A j) (Suc p)"
    "item_at (all_rules st rs) (tgram T) (Suc p) r (Suc k)" "lalr (all_rules st rs) (tgram T) (kset A j) (Suc p) t"
proof -
  let ?g = "tgram T"
  note rd = readyD [OF rdy]
  have f: "finished (all_rules st rs) T ntk w A" using rdy by (simp add: ready_def)
  have s: "s < length (kern A)" using path_states [OF p(1) rd(12)] by simp
  then have lr: "lr_state ?g (kset A s)" using rd(6) by blast
  have q: "Suc p \<in> gotoset ?g (kset A s) c" using p(2) c(1) by (auto simp: gotoset_def)
  then have ne: "gotoset ?g (kset A s) c \<noteq> {}" by blast
  obtain j where j: "j < length (kern A)" "kset A j = gotoset ?g (kset A s) c"
    by (rule finished_state [OF f lr_state.move [OF lr c(2) ne]])
  have "path ?g A (j # s # ss) (c # xs)" by (rule path.push [OF p(1) j(1) c(2) ne j(2)])
  moreover have "lr_item ?g (kset A j) (Suc p)" by (rule lr_item.kernel) (use q j(2) in simp)
  moreover have "item_at (all_rules st rs) ?g (Suc p) r (Suc k)" using item_at_Suc(3) [OF rd(1) p(3)] c by simp
  moreover have "lalr (all_rules st rs) ?g (kset A j) (Suc p) t" using lalr.move [OF la] c j(2) by simp
  ultimately show thesis using that [OF j(1) ne j(2)] by blast
qed

lemma item_sym:
  assumes T: "tables_ok st nn tb lsz rs T" and i: "item_at (all_rules st rs) (tgram T) p r k"
    and d: "drop k (snd (all_rules st rs ! r)) = x # xs"
  shows "gmem (tgram T) ! p = x" "is_token x \<or> is_nonterm nn x" "drop (Suc k) (snd (all_rules st rs ! r)) = xs"
proof -
  have ii: "r < length (all_rules st rs)" "p = prdptr (tgram T) ! r + 1 + k" using i by (simp_all add: item_at_def)
  have k: "k < length (snd (all_rules st rs ! r))" using d by (metis drop_all linorder_not_less list.distinct(1))
  then have x: "snd (all_rules st rs ! r) ! k = x" using d by (metis Cons_nth_drop_Suc list.inject)
  then show "gmem (tgram T) ! p = x" using rule_cells(2) [OF T ii(1) k] ii(2) by simp
  show "is_token x \<or> is_nonterm nn x" using rule_syms(2) [OF T ii(1)] k x by fastforce
  show "drop (Suc k) (snd (all_rules st rs ! r)) = xs" using d k by (metis Cons_nth_drop_Suc list.inject)
qed

lemma entered_look:
  assumes T: "tables_ok st nn tb lsz rs T" and lr: "lr_state (tgram T) K" and ntk: "int ntk < NTBASE"
    and p: "lr_item (tgram T) K p" "item_at (all_rules st rs) (tgram T) p r k" "drop k (snd (all_rules st rs ! r)) = x # xs"
    and la: "lalr (all_rules st rs) (tgram T) K p (ahead v)" and y: "yields (all_rules st rs) xs w" "set w \<subseteq> {2..ntk}"
    and x: "NTBASE \<le> x" and r0: "r0 < length (all_rules st rs)" "fst (all_rules st rs ! r0) = x"
  shows "lr_item (tgram T) K (Suc (prdptr (tgram T) ! r0))" "lalr (all_rules st rs) (tgram T) K (Suc (prdptr (tgram T) ! r0)) (ahead (w @ v))"
proof -
  let ?g = "tgram T" and ?R = "all_rules st rs" and ?q = "Suc (prdptr (tgram T) ! r0)"
  note sy = item_sym [OF T p(2,3)]
  have px: "NTBASE \<le> gmem ?g ! p" using sy(1) x by simp
  have ptr: "prdptr ?g ! r0 \<in> set (prdptr ?g)" using r0(1) length_prdptr [OF T] by simp
  have q: "?q \<in> set (pres_row ?g (ntix (gmem ?g ! p)))"
    using rule_cells(1) [OF T r0(1)] r0(2) sy(1) x ptr by (simp add: pres_row_def)
  show "lr_item ?g K ?q" by (rule lr_item.enter [OF p(1) px q])
  have "item_at ?R ?g (Suc p) r (Suc k)" using item_at_Suc(3) [OF T p(2)] px by simp
  then have rhs: "rhs_at (gmem ?g) (Suc p) = xs" using rhs_at_item [OF T] sy(3) by simp
  show "lalr ?R ?g K ?q (ahead (w @ v))"
  proof (cases w)
    case Nil
    then have "nulls ?R (rhs_at (gmem ?g) (Suc p))" using yields_derives [OF y(1)] rhs by (simp add: nulls_def)
    from lalr.pass [OF la px q this] Nil show ?thesis by simp
  next
    case (Cons b w')
    have "is_token (int b)" using y(2) Cons ntk by (auto simp: is_token_def)
    moreover have "derives ?R xs (int b # map int w')" using yields_derives [OF y(1)] Cons by simp
    ultimately have "nat (int b) \<in> firsts ?R xs" unfolding firsts_def by blast
    then have "b \<in> firsts ?R (rhs_at (gmem ?g) (Suc p))" using rhs by simp
    from lalr.first [OF lr p(1) px q this] Cons show ?thesis by simp
  qed
qed

lemma walk:
  assumes rdy: "ready st nn tb lsz rs T L vals ntk w0 A P ts cs" and cl: "clean T L P"
  shows "yields (all_rules st rs) xs u \<Longrightarrow> path (tgram T) A (s # ss) X \<Longrightarrow> lr_item (tgram T) (kset A s) p \<Longrightarrow>
    item_at (all_rules st rs) (tgram T) p r k \<Longrightarrow> drop k (snd (all_rules st rs ! r)) = xs \<Longrightarrow>
    lalr (all_rules st rs) (tgram T) (kset A s) p (ahead v) \<Longrightarrow> set (u @ v) \<subseteq> {2..ntk} \<Longrightarrow>
    walks (all_rules st rs) T vals A P (length xs) s ss p u v"
proof (induction arbitrary: s ss X p r k v rule: yields.induct)
  case nil
  then show ?case unfolding walks_def
    by (intro exI [of _ s] exI [of _ "[]"] exI [of _ X] exI [of _ 0]) (auto intro: runs_refl)
next
  case (tok xs w b)
  note rd = readyD [OF rdy]
  note sy = item_sym [OF rd(1) tok.prems(3,4)]
  have b: "1 < b" "b \<le> ntk" and wv: "set (w @ v) \<subseteq> {2..ntk}" using tok.prems(6) by auto
  have b1: "1 < int b" using b by simp
  obtain j where j: "j < length (kern A)" "gotoset (tgram T) (kset A s) (int b) \<noteq> {}" "kset A j = gotoset (tgram T) (kset A s) (int b)"
    "path (tgram T) A (j # s # ss) (int b # X)" "lr_item (tgram T) (kset A j) (Suc p)"
    "item_at (all_rules st rs) (tgram T) (Suc p) r (Suc k)" "lalr (all_rules st rs) (tgram T) (kset A j) (Suc p) (ahead v)"
    by (rule goto_step [OF rdy tok.prems(1-3) sy(1) b1 tok.prems(5)])
  have s: "s < length (kern A)" using path_states [OF tok.prems(1) rd(12)] by simp
  have "\<forall>maxd \<ge> Suc (length (s # ss)). \<forall>z. at_cfg vals z (s # ss) ([b] @ w @ v) \<longrightarrow>
      (\<exists>z'. runs P maxd z z' \<and> at_cfg vals z' (j # s # ss) (w @ v))"
    using run_shift [OF rdy cl _ s b j(1-3)] by auto
  from walks_step [OF tok.IH [OF j(4-6) sy(3) j(7) wv] this] show ?case by simp
next
  case (rule B rr u xs w)
  let ?R = "all_rules st rs" and ?g = "tgram T"
  note rd = readyD [OF rdy]
  note sy = item_sym [OF rd(1) rule.prems(3,4)]
  have s: "s < length (kern A)" using path_states [OF rule.prems(1) rd(12)] by simp
  then have lr: "lr_state ?g (kset A s)" using rd(6) by blast
  obtain r0 where r0: "r0 < length ?R" "?R ! r0 = (B, rr)" using rule.hyps(1) by (auto simp: in_set_conv_nth)
  have B: "NTBASE \<le> B" using rule_syms(1) [OF rd(1) r0(1)] r0(2) by simp
  have "B \<noteq> NTBASE" using sy(2) B by (auto simp: is_token_def is_nonterm_def)
  then have pos: "0 < r0" using r0(2) by (cases r0) (simp_all add: all_rules_def)
  have toks: "set w \<subseteq> {2..ntk}" "set (u @ w @ v) \<subseteq> {2..ntk}" "set (w @ v) \<subseteq> {2..ntk}" using rule.prems(6) by auto
  let ?q = "Suc (prdptr ?g ! r0)"
  have q: "lr_item ?g (kset A s) ?q" "lalr ?R ?g (kset A s) ?q (ahead (w @ v))"
    using entered_look [OF rd(1) lr rd(8) rule.prems(2,3,4,5) rule.hyps(3) toks(1) B r0(1)] r0(2) by simp_all
  have qi: "item_at ?R ?g ?q r0 0" using r0(1) by (simp add: item_at_def)
  have "drop 0 (snd (?R ! r0)) = rr" using r0(2) by simp
  from rule.IH(1) [OF rule.prems(1) q(1) qi this q(2) toks(2)]
  obtain s1 st1 X1 d1 where w1: "drop (length rr) (s1 # st1 @ ss) = s # ss" "path ?g A (s1 # st1 @ ss) X1"
    "lr_item ?g (kset A s1) (?q + length rr)" "lalr ?R ?g (kset A s1) (?q + length rr) (ahead (w @ v))"
    "\<forall>maxd \<ge> d1. \<forall>z. at_cfg vals z (s # ss) (u @ w @ v) \<longrightarrow> (\<exists>z'. runs P maxd z z' \<and> at_cfg vals z' (s1 # st1 @ ss) (w @ v))"
    unfolding walks_def by blast
  have qe: "gmem ?g ! (?q + length rr) = - int r0" using rule_cells(3) [OF rd(1) r0(1)] r0(2) by simp
  have B1: "1 < B" using B by simp
  obtain j where j: "j < length (kern A)" "gotoset ?g (kset A s) B \<noteq> {}" "kset A j = gotoset ?g (kset A s) B"
    "path ?g A (j # s # ss) (B # X)" "lr_item ?g (kset A j) (Suc p)"
    "item_at ?R ?g (Suc p) r (Suc k)" "lalr ?R ?g (kset A j) (Suc p) (ahead v)"
    by (rule goto_step [OF rdy rule.prems(1-3) sy(1) B1 rule.prems(5)])
  have red: "\<exists>z'. runs P maxd z z' \<and> at_cfg vals z' (j # s # ss) (w @ v)"
    if m: "max d1 (Suc (length (s # ss))) \<le> maxd" and z: "at_cfg vals z (s # ss) (u @ w @ v)" for maxd z
  proof -
    from w1(5) m z obtain z1 where z1: "runs P maxd z z1" "at_cfg vals z1 (s1 # st1 @ ss) (w @ v)" by auto
    have "\<exists>z'. runs P maxd z1 z' \<and> at_cfg vals z' (j # s # ss) (w @ v)"
      by (rule run_reduce [OF rdy cl z1(2) w1(2) toks(3) w1(3) qe pos w1(4) _ j(1)]) (use r0(2) w1(1) j(3) m in simp_all)
    with runs_trans [OF z1(1)] show ?thesis by blast
  qed
  from walks_step [OF rule.IH(2) [OF j(4-6) sy(3) j(7) toks(3)], of "max d1 (Suc (length (s # ss)))" u] red
  show ?case by simp
qed

end
