(* ===== verification/Ylang.thy ===== *)
theory Ylang
  imports Ycmp
begin

text \<open>
  The language of the generated parser: what the tables say of a token, that the parser never
  leaves them, and that it accepts the sentences of the grammar.
\<close>

subsection \<open>What is left of a conflict\<close>

lemma precftn_sel:
  "(\<forall>a. precftn lp lt r a = a) \<or> (\<forall>a. precftn lp lt r a = ERRCODE) \<or> (\<forall>a. precftn lp lt r a = - int r)"
proof -
  define act where "act = (if PLEVEL lt = PLEVEL lp then ASSOC lt mod 4 else if PLEVEL lp < PLEVEL lt then RASC else LASC)"
  have p: "precftn lp lt r a = (if PLEVEL lt = 0 \<or> PLEVEL lp = 0 then a
      else if act = BASC then ERRCODE else if act = LASC then - int r else a)" for a
    unfolding precftn_def Let_def act_def ..
  consider "PLEVEL lt = 0 \<or> PLEVEL lp = 0" | "PLEVEL lt \<noteq> 0" "PLEVEL lp \<noteq> 0" "act = BASC"
    | "PLEVEL lt \<noteq> 0" "PLEVEL lp \<noteq> 0" "act = LASC" | "act \<noteq> BASC" "act \<noteq> LASC" by blast
  then show ?thesis unfolding p by cases simp_all
qed

lemma reduce_tok_again: "reduce_tok L r k (reduce_tok L r k a) = reduce_tok L r k a"
  using precftn_sel [of "levprd L r" "toklev L k" r] by (elim disjE) (simp_all add: reduce_tok_def)

lemma reductions_again:
  "redset m W k \<subseteq> {r} \<Longrightarrow> fold (reduce_by L m k) W (reduce_tok L r k a) = reduce_tok L r k a"
proof (induction W)
  case (Cons v W)
  have "reduce_by L m k v (reduce_tok L r k a) = reduce_tok L r k a"
    using Cons.prems reduce_tok_again by (auto simp: reduce_by_def redset_Cons split: if_splits)
  moreover have "redset m W k \<subseteq> {r}" using Cons.prems by (auto simp: redset_Cons split: if_splits)
  ultimately show ?case using Cons.IH by simp
qed simp

lemma reductions_one: "redset m W k = {r} \<Longrightarrow> fold (reduce_by L m k) W a = reduce_tok L r k a"
proof (induction W)
  case Nil
  then show ?case by (simp add: redset_def)
next
  case (Cons v W)
  show ?case
  proof (cases "m ! wpitem v \<le> 0 \<and> BIT (wlset v) k")
    case True
    then have r: "nat (- (m ! wpitem v)) = r" "redset m W k \<subseteq> {r}" using Cons.prems by (auto simp: redset_Cons)
    from True r(1) have "reduce_by L m k v a = reduce_tok L r k a" by (simp add: reduce_by_def)
    with reductions_again [OF r(2)] show ?thesis by simp
  next
    case False
    then have "redset m W k = {r}" using Cons.prems unfolding redset_Cons by (simp only: if_False Un_empty_left)
    moreover have "reduce_by L m k v a = a" using False by (simp only: reduce_by_def if_False)
    ultimately show ?thesis using Cons.IH by simp
  qed
qed

subsection \<open>Rows\<close>

lemma built_row:
  assumes rdy: "ready st nn tb lsz rs T L vals ntk w A P ts cs"
    and i: "i < length (kern A)" and k: "0 < k" "k \<le> ntk"
  obtains W a where "if i = 1 \<and> k = 1 then a = ACCEPTCODE else shift_ok T A i k a"
    "redset (gmem (tgram T)) W k = reds (all_rules st rs) T A i k" "0 \<notin> reds (all_rules st rs) T A i k"
    "parse_act P i (vals k) = Some (act_of (fold (reduce_by L (gmem (tgram T)) k) W a) (def_of (ts ! i)))"
    "0 \<le> def_of (ts ! i)"
proof -
  note rd = readyD [OF rdy]
  note dd = decodesD [OF rd(2)]
  from dd(6) [OF i] k obtain W a where "if i = 1 \<and> k = 1 then a = ACCEPTCODE else shift_ok T A i k a"
    "redset (gmem (tgram T)) W k = reds (all_rules st rs) T A i k" "ts ! i ! k = fold (reduce_by L (gmem (tgram T)) k) W a"
    unfolding row_ok_def by blast
  moreover have "0 \<notin> reds (all_rules st rs) T A i k"
  proof
    assume "0 \<in> reds (all_rules st rs) T A i k"
    then obtain p where "lr_item (tgram T) (kset A i) p" "gmem (tgram T) ! p = 0" by (auto simp: reds_def)
    with no_zero_item [OF rd(1), of "kset A i" p] rd(6) i show False by simp
  qed
  ultimately show thesis using that dd(8) [OF i k] def_of_ge [of "ts ! i"] by metis
qed

text \<open>What the levels make of a shift to state \<open>j\<close> and a reduction of rule \<open>r\<close>.\<close>

definition resolved :: "int \<Rightarrow> int \<Rightarrow> nat \<Rightarrow> nat \<Rightarrow> act" where
  "resolved lp lt r j =
    (if PLEVEL lt = 0 \<or> PLEVEL lp = 0 \<or> PLEVEL lp < PLEVEL lt then Shift (int j)
     else if PLEVEL lt < PLEVEL lp then Reduce r
     else if ASSOC lt mod 4 = LASC then Reduce r
     else if ASSOC lt mod 4 = BASC then Error
     else Shift (int j))"

lemma act_resolved:
  assumes "0 < j" "j < 1000" "0 < r" "0 \<le> d"
  shows "act_of (reduce_tok L r k (int j)) d = resolved (levprd L r) (toklev L k) r j"
proof -
  have t: "reduce_tok L r k (int j) = precftn (levprd L r) (toklev L k) r (int j)" using assms(1) by (simp add: reduce_tok_def)
  have a: "act_of (int j) d = Shift (int j)" "act_of ERRCODE d = Error" "act_of (- int r) d = Reduce r"
    using assms by (auto simp: act_of_def)
  show ?thesis unfolding t
  proof (cases "PLEVEL (toklev L k) = 0 \<or> PLEVEL (levprd L r) = 0 \<or> PLEVEL (levprd L r) < PLEVEL (toklev L k)")
    case True
    then have "precftn (levprd L r) (toklev L k) r (int j) = int j" by (auto simp: precftn_def Let_def)
    then show "act_of (precftn (levprd L r) (toklev L k) r (int j)) d = resolved (levprd L r) (toklev L k) r j"
      using True a by (simp add: resolved_def)
  next
    case False
    then show "act_of (precftn (levprd L r) (toklev L k) r (int j)) d = resolved (levprd L r) (toklev L k) r j"
      using a by (simp add: precftn_def resolved_def Let_def)
  qed
qed

lemma act_min:
  assumes f: "redset m W k = D" "0 \<notin> D" "D \<noteq> {}"
  shows "act_of (fold (reduce_by L m k) W 0) d = Reduce (Min D)"
proof -
  have "finite D" using f(1) by (auto simp: redset_def)
  then have "Min D \<in> D" using f(3) by (rule Min_in)
  then have pos: "0 < Min D" using f(2) by (metis gr0I)
  have "fold (reduce_by L m k) W 0 = - int (Min D)" using reductions_min [of m W k 0 L] f by simp
  then show ?thesis using pos by (auto simp: act_of_def)
qed

subsection \<open>Properties\<close>

text \<open>
  C9. The generated tables, packed, say for each state and token what the automaton says: a shift to
  the state with the items moved on when no rule reduces; the reduction of the smallest
  rule when there is no shift; and between a shift and one reduction what the levels and the
  associativity of the token decide.
\<close>

theorem generated_actions:
  assumes "built st nn tb lsz rs T L vals ntk actsize w A P" "i < length (kern A)" "0 < k" "k \<le> ntk"
    and "D = reds (all_rules st rs) T A i k" "G = gotoset (tgram T) (kset A i) (int k)"
  shows "(1 < k \<and> G \<noteq> {} \<longrightarrow> (\<exists>j < length (kern A). kset A j = G \<and>
      (D = {} \<longrightarrow> parse_act P i (vals k) = Some (Shift (int j))) \<and>
      (\<forall>r. D = {r} \<longrightarrow> parse_act P i (vals k) = Some (resolved (levprd L r) (toklev L k) r j)))) \<and>
    ((k = 1 \<or> G = {}) \<and> \<not> (i = 1 \<and> k = 1) \<and> D \<noteq> {} \<longrightarrow> parse_act P i (vals k) = Some (Reduce (Min D)))"
proof -
  let ?m = "gmem (tgram T)"
  obtain ts cs where rdy: "ready st nn tb lsz rs T L vals ntk w A P ts cs" by (rule built_ready [OF assms(1)])
  obtain W a where a: "if i = 1 \<and> k = 1 then a = ACCEPTCODE else shift_ok T A i k a"
    "redset ?m W k = D" "0 \<notin> D" "parse_act P i (vals k) = Some (act_of (fold (reduce_by L ?m k) W a) (def_of (ts ! i)))"
    "0 \<le> def_of (ts ! i)"
    unfolding assms(5) by (rule built_row [OF rdy assms(2-4)])
  show ?thesis
  proof (intro conjI impI)
    assume k: "1 < k \<and> G \<noteq> {}"
    then have "shift_ok T A i k a" using a(1) by simp
    then obtain j where j: "j < length (kern A)" "j \<noteq> 0" "kset A j = G" "a = int j"
      using k unfolding shift_ok_def assms(6) [symmetric] by (auto split: if_splits)
    have jl: "j < 1000" using j(1) readyD(11) [OF rdy] by simp
    have "parse_act P i (vals k) = Some (Shift (int j))" if "D = {}"
      using a(2,4,5) that reductions_none [of ?m W k L a] j(2,4) jl by (simp add: act_of_def)
    moreover have "parse_act P i (vals k) = Some (resolved (levprd L r) (toklev L k) r j)" if "D = {r}" for r
    proof -
      have "0 < r" using a(3) that by (cases r) simp_all
      then show ?thesis using a(2,4,5) that reductions_one [of ?m W k r L a] act_resolved [of j r _ L k] j(2,4) jl by simp
    qed
    ultimately show "\<exists>j < length (kern A). kset A j = G \<and>
      (D = {} \<longrightarrow> parse_act P i (vals k) = Some (Shift (int j))) \<and>
      (\<forall>r. D = {r} \<longrightarrow> parse_act P i (vals k) = Some (resolved (levprd L r) (toklev L k) r j))"
      using j(1,3) by blast
  next
    assume k: "(k = 1 \<or> G = {}) \<and> \<not> (i = 1 \<and> k = 1) \<and> D \<noteq> {}"
    then have "shift_ok T A i k a" using a(1) by auto
    then have "a = 0" using k unfolding shift_ok_def assms(6) by auto
    then show "parse_act P i (vals k) = Some (Reduce (Min D))" using a(4) act_min [OF a(2,3), of L] k by simp
  qed
qed

text \<open>
  C8. Whatever the tokens are, the parser, its recovery from errors included, stays inside its tables:
  in every configuration of a run the stack holds states of the automaton and is not empty,
  and the next step is defined.
\<close>

theorem parser_safe:
  assumes "built st nn tb lsz rs T L vals ntk actsize w A P" "set ks \<subseteq> {2..ntk}"
    and "yyreach P maxd (map vals ks) z"
  shows "pstk z \<noteq> [] \<and> (\<forall>s \<in> set (pstk z). s < length (kern A)) \<and> (\<exists>r. yystep P maxd z = Some r)"
proof -
  obtain ts cs where rdy: "ready st nn tb lsz rs T L vals ntk w A P ts cs" by (rule built_ready [OF assms(1)])
  have c: "cfg_ok (all_rules st rs) T ntk vals A ks z" by (rule reach_ok [OF rdy assms(2,3)])
  then obtain xs where p: "path (tgram T) A (pstk z) xs" by (auto simp: cfg_ok_def)
  have "pstk z \<noteq> []" using path_length [OF p] by auto
  with path_states [OF p readyD(12) [OF rdy]] step_defined [OF rdy c, of maxd] show ?thesis by blast
qed

text \<open>
  C5. What the parser accepts without a syntax error is a sentence of the grammar, for every grammar, with or
  without conflicts.
\<close>

theorem parser_sound:
  assumes "built st nn tb lsz rs T L vals ntk actsize w A P" "set ks \<subseteq> {2..ntk}"
    and "parse P maxd (map vals ks) = Some (Accepted, z)" "pnerrs z = 0"
  shows "derives (all_rules st rs) [st] (map int ks)"
proof -
  obtain ts cs where rdy: "ready st nn tb lsz rs T L vals ntk w A P ts cs" by (rule built_ready [OF assms(1)])
  have "yyparse P maxd (parse_start (map vals ks)) = Some (Accepted, z)"
    using assms(3) by (auto simp: parse_def split: if_splits)
  from yyparse_reach [OF this yyreach.start] obtain z' where z': "yyreach P maxd (map vals ks) z'"
    "yystep P maxd z' = Some (Stop Accepted z)" by auto
  from step_defined [OF rdy reach_ok [OF rdy assms(2) z'(1)], of maxd] z'(2) assms(4)
  show ?thesis by (simp add: step_ok_def)
qed

text \<open>
  C4. When no conflict was reported, no levels were given and no state lost a lookahead, the parser
  returns for every sentence, and accepts it without a syntax error, given room on the stack.
\<close>

theorem parser_complete:
  assumes "built st nn tb lsz rs T L vals ntk actsize w A P" "clean T L P" "set ks \<subseteq> {2..ntk}"
    and "derives (all_rules st rs) [st] (map int ks)"
  shows "\<exists>d. \<forall>maxd \<ge> d. \<exists>z. parse P maxd (map vals ks) = Some (Accepted, z) \<and> pnerrs z = 0"
proof -
  let ?R = "all_rules st rs" and ?g = "tgram T"
  obtain ts cs where rdy: "ready st nn tb lsz rs T L vals ntk w A P ts cs" by (rule built_ready [OF assms(1)])
  note rd = readyD [OF rdy]
  note cl = assms(2)
  let ?qs = "Suc (prdptr ?g ! 0)"
  have R0: "0 < length ?R" "snd (?R ! 0) = [st, 1]" by (simp_all add: all_rules_def)
  have st: "NTBASE < st" using tables_okD(1) [OF rd(1)] by (simp add: wf_rules_def is_nonterm_def)
  have lr0: "lr_state ?g (kset A 0)" using rd(6,12) by blast
  have i0: "lr_item ?g (kset A 0) ?qs" by (rule lr_item.kernel) (simp add: rd(5))
  have m0: "gmem ?g ! ?qs = st" using rule_cells(2) [OF rd(1) R0(1), of 0] R0(2) by simp
  have "yields ?R [st] ks" by (rule derives_yields [OF assms(4)])
  then obtain rr u w where rr: "(st, rr) \<in> set ?R" "yields ?R rr u" "yields ?R [] w" "ks = u @ w"
    using st rd(8) assms(3) by (cases rule: yields.cases) auto
  from rr(3) have "w = []" by (auto elim: yields.cases)
  with rr have rr: "(st, rr) \<in> set ?R" "yields ?R rr ks" by simp_all
  obtain r0 where r0: "r0 < length ?R" "?R ! r0 = (st, rr)" using rr(1) by (auto simp: in_set_conv_nth)
  then have pos: "0 < r0" using st by (cases r0) (simp_all add: all_rules_def)
  let ?q = "Suc (prdptr ?g ! r0)"
  have ptr: "prdptr ?g ! r0 \<in> set (prdptr ?g)" using r0(1) length_prdptr [OF rd(1)] by simp
  have pr: "?q \<in> set (pres_row ?g (ntix (gmem ?g ! ?qs)))"
    using rule_cells(1) [OF rd(1) r0(1)] r0(2) m0 st ptr by (simp add: pres_row_def)
  have px: "NTBASE \<le> gmem ?g ! ?qs" using m0 st by simp
  have iq: "lr_item ?g (kset A 0) ?q" by (rule lr_item.enter [OF i0 px pr])
  have "item_at ?R ?g (Suc ?qs) 0 1" using R0 by (simp add: item_at_def)
  from rhs_at_item [OF rd(1) this] have "rhs_at (gmem ?g) (Suc ?qs) = [1]" using R0(2) by simp
  moreover have "1 \<in> firsts ?R [1]"
    unfolding firsts_def by (intro CollectI exI [of _ 1] exI [of _ "[]"]) (simp add: is_token_def)
  ultimately have la: "lalr ?R ?g (kset A 0) ?q (ahead [])" using lalr.first [OF lr0 i0 px pr] by simp
  have qi: "item_at ?R ?g ?q r0 0" using r0(1) by (simp add: item_at_def)
  have dr: "drop 0 (snd (?R ! r0)) = rr" using r0(2) by simp
  have ks: "set (ks @ []) \<subseteq> {2..ntk}" using assms(3) by simp
  from walk [OF rdy cl rr(2) path.bottom iq qi dr la ks]
  obtain s1 st1 X d where w: "drop (length rr) (s1 # st1 @ []) = [0]" "path ?g A (s1 # st1 @ []) X"
    "lr_item ?g (kset A s1) (?q + length rr)" "lalr ?R ?g (kset A s1) (?q + length rr) (ahead [])"
    "\<forall>maxd \<ge> d. \<forall>z. at_cfg vals z [0] (ks @ []) \<longrightarrow> (\<exists>z'. runs P maxd z z' \<and> at_cfg vals z' (s1 # st1 @ []) [])"
    unfolding walks_def by blast
  have qe: "gmem ?g ! (?q + length rr) = - int r0" using rule_cells(3) [OF rd(1) r0(1)] r0(2) by simp
  have "\<exists>z. parse P maxd (map vals ks) = Some (Accepted, z) \<and> pnerrs z = 0" if m: "max d 2 \<le> maxd" for maxd
  proof -
    have start: "at_cfg vals (parse_start (map vals ks)) [0] (ks @ [])"
      by (simp add: at_cfg_def parse_start_def pending_def)
    with w(5) m obtain z1 where z1: "runs P maxd (parse_start (map vals ks)) z1" "at_cfg vals z1 (s1 # st1 @ []) []" by auto
    have "\<exists>z'. runs P maxd z1 z' \<and> at_cfg vals z' (1 # 0 # []) []"
      by (rule run_reduce [OF rdy cl z1(2) w(2) _ w(3) qe pos w(4) _ rd(4)]) (use r0(2) w(1) rd(3) m in simp_all)
    then obtain z2 where z2: "runs P maxd z1 z2" "at_cfg vals z2 [1, 0] []" by auto
    have acc: "parse_act P 1 (vals (ahead [])) = Some Accept" using clean_accept [OF rdy cl] by simp
    obtain z3 where z3: "at_cfg vals z3 [1, 0] []" "yystep P maxd z2 = yyact P maxd z3 Accept"
      by (rule step_act [OF rdy z2(2) rd(4) acc, of maxd]) blast
    have "yyparse P maxd (parse_start (map vals ks)) = yyparse P maxd z2"
      by (rule yyparse_runs [OF runs_trans [OF z1(1) z2(1)]])
    also have "\<dots> = Some (Accepted, z3)" using z3(2) by (subst yyparse.simps) (simp add: yyact_def)
    finally show ?thesis using z3(1) m by (auto simp: parse_def at_cfg_def)
  qed
  then show ?thesis by blast
qed

subsection \<open>Witnesses\<close>

text \<open>The tables of \<open>E: ( E ) | x;\<close>, with the token values 1, 2 and 3.\<close>

definition no_levels :: levels where
  "no_levels = \<lparr> levprd = \<lambda>_. 0, toklev = \<lambda>_. 0 \<rparr>"

definition expr_vals :: "nat \<Rightarrow> nat" where
  "expr_vals k = k - 1"

definition expr_built :: "automaton \<Rightarrow> ptables \<Rightarrow> bool" where
  "expr_built A P \<longleftrightarrow> built 4097 1 1 4801 expr_rules expr_tables no_levels expr_vals 4 9 run_wstate A P"

lemma expr_used: "all_used (tgram expr_tables)"
proof -
  let ?g = "tgram expr_tables" and ?q = "Suc (prdptr (tgram expr_tables) ! 0)"
  have m: "gmem ?g ! ?q = 4097" and n: "nnonter ?g = 1" by code_simp+
  have "lr_item ?g {?q} ?q" by (rule lr_item.kernel) simp
  with m have "Suc ?q \<in> gotoset ?g {?q} 4097" by (auto simp: gotoset_def)
  then show ?thesis unfolding all_used_def n using lr_state.start [of ?g] by auto
qed

lemma expr_parser:
  obtains A P where "expr_built A P" "clean expr_tables no_levels P"
    "map (map pitem) (kern A) = [[1], [2], [6], [11], [7], [8]]"
    "slk A ! look (kern A ! 3 ! 0) = [10]" "parse_act P 3 2 = Some (Reduce 2)"
    "\<exists>z. parse P 9 [1, 1, 3, 2, 2] = Some (Accepted, z) \<and> pnerrs z = 0"
proof -
  have "(case stagen expr_tables 4 9 run_wstate of Some (Ret A) \<Rightarrow>
      (case generate expr_tables no_levels expr_vals 4 9 A of Ret P \<Rightarrow>
        map (map pitem) (kern A) = [[1], [2], [6], [11], [7], [8]] \<and> styp A = replicate 6 0 \<and>
        slk A ! look (kern A ! 3 ! 0) = [10] \<and> pconf P = (0, 0) \<and> parse_act P 3 2 = Some (Reduce 2) \<and>
        (case parse P 9 [1, 1, 3, 2, 2] of Some (r, z) \<Rightarrow> r = Accepted \<and> pnerrs z = 0 | None \<Rightarrow> False)
      | _ \<Rightarrow> False) | _ \<Rightarrow> False)"
    by code_simp
  then obtain A P where A: "stagen expr_tables 4 9 run_wstate = Some (Ret A)"
    and P: "generate expr_tables no_levels expr_vals 4 9 A = Ret P"
    and k: "map (map pitem) (kern A) = [[1], [2], [6], [11], [7], [8]]" "styp A = replicate 6 0"
      "slk A ! look (kern A ! 3 ! 0) = [10]" "pconf P = (0, 0)" "parse_act P 3 2 = Some (Reduce 2)"
      "\<exists>z. parse P 9 [1, 1, 3, 2, 2] = Some (Accepted, z) \<and> pnerrs z = 0"
    by (auto split: option.splits res.splits)
  have n: "length (kern A) = 6" using arg_cong [OF k(1), of length] by simp
  from stagen_cases [OF expr_tables_ok expr_ready, of 9] A
  have inv: "linv (all_rules 4097 expr_rules) expr_tables 4 run_wstate A" "MUSTDO \<notin> set (styp A)" by auto
  have "\<not> lossy (tgram expr_tables) K" if lr: "lr_state (tgram expr_tables) K" for K
  proof -
    obtain i where i: "i < length (kern A)" "kset A i = K" using all_states_found [OF inv lr] by blast
    have "styp A ! i = 0" using k(2) i(1) n by simp
    then show ?thesis using linv_worked [OF inv i(1)] i(2) by (simp add: worked_def lossy_def)
  qed
  then have cl: "clean expr_tables no_levels P" using k(4) by (simp add: clean_def no_levels_def PLEVEL_def)
  have "in_range expr_vals 4 1 A" using n by (auto simp: in_range_def expr_vals_def inj_on_def)
  then have b: "expr_built A P" using A P expr_wf expr_analyse expr_ready expr_used by (simp add: expr_built_def built_def)
  show thesis by (rule that [OF b cl k(1,3,5,6)])
qed

theorem generated_actions_witness:
  "\<exists>A P. expr_built A P \<and> Min (reds (all_rules 4097 expr_rules) expr_tables A 3 3) = 2"
proof -
  let ?R = "all_rules 4097 expr_rules" and ?g = "tgram expr_tables"
  obtain A P where A: "expr_built A P" "map (map pitem) (kern A) = [[1], [2], [6], [11], [7], [8]]"
    "slk A ! look (kern A ! 3 ! 0) = [10]" "parse_act P 3 2 = Some (Reduce 2)" by (rule expr_parser)
  have n: "length (kern A) = 6" using arg_cong [OF A(2), of length] by simp
  have m: "gmem ?g ! 11 = - int 2" by code_simp
  have k3: "kset A 3 = {11}" using kset_run [OF A(2), of 3] by simp
  have "lr_item ?g {11} p \<Longrightarrow> p = 11" for p
    by (induction rule: lr_item.induct) (use m in auto)
  then have G: "gotoset ?g (kset A 3) (int 3) = {}" unfolding k3 gotoset_def using m by force
  have "map pitem (kern A ! 3) = [11]" using arg_cong [OF A(2), of "\<lambda>xs. xs ! 3"] n by simp
  then obtain x where x: "kern A ! 3 = [x]" "pitem x = 11" by auto
  have "3 \<in> members [10]" unfolding members_list by code_simp
  then have "lr_look ?R ?g (set (kernel_of (tabs_at expr_tables (slk A)) (kern A ! 3))) 11 3"
    using x A(3) by (intro lr_look.kernel [of 11 "members [10]"]) (auto simp: kernel_of_def)
  moreover have "lr_item ?g (kset A 3) 11" by (rule lr_item.kernel) (simp add: k3)
  ultimately have "2 \<in> reds ?R expr_tables A 3 3" using m by (auto simp: reds_def looks_of_def)
  then have ne: "reds ?R expr_tables A 3 3 \<noteq> {}" by blast
  have i: "3 < length (kern A)" "0 < (3 :: nat)" "(3 :: nat) \<le> 4" using n by simp_all
  from generated_actions [OF A(1) [unfolded expr_built_def] i refl refl] G ne
  have "parse_act P 3 (expr_vals 3) = Some (Reduce (Min (reds ?R expr_tables A 3 3)))" by simp
  then have "Min (reds ?R expr_tables A 3 3) = 2" using A(4) by (simp add: expr_vals_def)
  with A(1) show ?thesis by blast
qed

theorem parser_safe_witness:
  "\<exists>A P r. expr_built A P \<and> yystep P 9 (parse_start [2, 3, 3]) = Some r"
proof -
  obtain A P where A: "expr_built A P" by (rule expr_parser)
  have v: "map expr_vals [3, 4, 4] = [2, 3, 3]" by (simp add: expr_vals_def)
  have "set [3, 4, 4] \<subseteq> {2..4 :: nat}" by simp
  from parser_safe [OF A [unfolded expr_built_def] this yyreach.start, of 9] A v show ?thesis by auto
qed

theorem parser_sound_witness:
  "derives (all_rules 4097 expr_rules) [4097] [2, 2, 4, 3, 3]"
proof -
  obtain A P where A: "expr_built A P" "\<exists>z. parse P 9 [1, 1, 3, 2, 2] = Some (Accepted, z) \<and> pnerrs z = 0" by (rule expr_parser)
  then obtain z where z: "parse P 9 [1, 1, 3, 2, 2] = Some (Accepted, z)" "pnerrs z = 0" by blast
  have v: "map expr_vals [2, 2, 4, 3, 3] = [1, 1, 3, 2, 2]" by (simp add: expr_vals_def)
  have "set [2, 2, 4, 3, 3] \<subseteq> {2..4 :: nat}" by simp
  from parser_sound [OF A(1) [unfolded expr_built_def] this _ z(2), of 9] z(1) v show ?thesis by simp
qed

theorem parser_complete_witness:
  "\<exists>A P d. expr_built A P \<and> (\<forall>maxd \<ge> d. \<exists>z. parse P maxd [1, 3, 2] = Some (Accepted, z) \<and> pnerrs z = 0)"
proof -
  let ?R = "all_rules 4097 expr_rules"
  obtain A P where A: "expr_built A P" "clean expr_tables no_levels P" by (rule expr_parser)
  have v: "map expr_vals [2, 4, 3] = [1, 3, 2]" by (simp add: expr_vals_def)
  have "dstep ?R ([] @ 4097 # []) ([] @ [2, 4097, 3] @ [])" "dstep ?R ([2] @ 4097 # [3]) ([2] @ [4] @ [3])"
    by (intro dstep; simp add: all_rules_def expr_rules_def)+
  then have "derives ?R [4097] (map int [2, 4, 3])" by simp
  moreover have "set [2, 4, 3] \<subseteq> {2..4 :: nat}" by simp
  ultimately show ?thesis
    using parser_complete [OF A(1) [unfolded expr_built_def] A(2), of "[2, 4, 3]"] A(1) v by metis
qed

end
