(* ===== verification/Spec2Isabelle.thy ===== *)
theory Spec2Isabelle
  imports Strpak Osb Zopdir TarRound Arscan Sflist Ifstack Ylang
begin

text \<open>
  A verification library for the C core of the image processing system in \<^verbatim>\<open>src/iraf.v2161\<close>: the
  machine dependent primitives of the kernel, the string routines of its C library, the directory
  driver and the bootstrap programs \<^verbatim>\<open>wtar\<close>, \<^verbatim>\<open>rtar\<close>, \<^verbatim>\<open>mkpkg\<close> and \<^verbatim>\<open>xyacc\<close>. The virtual operating system and the
  applications above them are written in SPP and Fortran; the programs here build and install them.

  \<^bold>\<open>Conventions.\<close> A byte is a \<open>8 word\<close>, \<^verbatim>\<open>short\<close>, \<^verbatim>\<open>int\<close> and \<^verbatim>\<open>long\<close> are words of 16, 32 and 64 bits, with
  \<open>sint\<close> for signed values. Where aliasing matters memory is a partial map from addresses to bytes
  (\<open>mem\<close> of CPrelude), otherwise an array is a list with its bounds written out. Undefined behaviour
  (a null pointer, a store outside an array, an overflow that C leaves open) is \<open>None\<close> or the value
  \<open>Undef\<close>; an exit of the program is \<open>Exit\<close>, \<open>Fatals\<close> or \<open>SExit\<close>. A loop over outside data that need not end
  is a \<open>partial_function\<close>, so that not returning is \<open>None\<close>; no fuel is used, and where a theorem says
  that a function returns, the value \<open>None\<close> is excluded. What the host answers (files, dates, the
  environment, the standard input) is an argument of the definitions that use it.

  \<^bold>\<open>Primitives.\<close> CPrelude holds the types, the memory and generic lemmas. Bytes models the overlapping
  copy \<^verbatim>\<open>BYTMOV\<close> and \<^verbatim>\<open>os_amovb\<close> and the conversion loops of \<^verbatim>\<open>sys/osb\<close>, Acht their integer instances, Osb
  the byte swaps, the array conversions between 32 and 64 bits, bit fields, shifts and logical
  operations, Strpak the packing of strings. The lemmas show each in place or overlapping use equal to
  the conversion of a copy, and the round trips between the types. LibcStr models the string routines
  and \<^verbatim>\<open>atoi\<close>, \<^verbatim>\<open>atol\<close> of \<^verbatim>\<open>sys/libc\<close> over memory, Qsort the sort of \<^verbatim>\<open>sys/libc/qsort.c\<close> on lists, with
  sortedness and permutation as its contract; Zopdir the directory driver \<^verbatim>\<open>unix/os/zopdir.c\<close> that
  sorts through it.

  \<^bold>\<open>Archives.\<close> Tar is the header block shared by \<^verbatim>\<open>unix/boot/wtar/wtar.c\<close> and \<^verbatim>\<open>unix/boot/rtar/rtar.c\<close>. Wtar
  models the writer: the blocked output (\<open>wtape\<close>), copying and padding, headers, path names and the
  walk of a directory tree. Rtar models the reader: the blocked input, whose contract is the locale
  \<open>block_source\<close> (an invariant of the tape state and the bytes that are still to come), the recovery of
  headers, extraction with the stripping of blank lines, skipping, selection and the creation of
  directories. TarRound joins them: the records of the writer are a list of members, the reader does to
  each member what a reader without a tape does, and an extracted archive holds the selected files, byte for byte
  with \<^verbatim>\<open>-n\<close> and without the blank lines at the end of text files by default.

  \<^bold>\<open>mkpkg\<close> (\<^verbatim>\<open>unix/boot/mkpkg\<close>). Lru is the doubly linked list of slots of both caches, with the locale
  \<open>recency_list\<close>; Fdcache (\<^verbatim>\<open>fdcache.c\<close>) and Fncache (\<^verbatim>\<open>fncache.c\<close>, with \<^verbatim>\<open>os_sysfile\<close> of the bootstrap
  library) refine a list of recent entries. Mlb is the hash table of module dates in \<^verbatim>\<open>scanlib.c\<close>, with the
  locale \<open>date_table\<close>, and Arscan the scan of an archive that fills it and \<^verbatim>\<open>h_ardate\<close>. Pushback
  (\<^verbatim>\<open>char.c\<close>) is the input of the interpreter: a file behind a stack of strings pushed back, and \<^verbatim>\<open>m_getc\<close>,
  which replaces macro references. Its abstraction is the list \<open>pending\<close> of characters to come; \<open>expand\<close>
  is the specification over that list. That \<^verbatim>\<open>m_getc\<close> returns follows from a weight of the stack: a
  character taken at one level outweighs all that fits in the buffer at the next, and at the end of the
  file the number of characters falls. Symtab is the macro table over the string buffer, with the locale
  \<open>scoped_table\<close> for its scopes; Sflist the special file list (\<^verbatim>\<open>sflist.c\<close>); Tokens the scanners for strings,
  arguments, commands and keyword pairs of \<^verbatim>\<open>tok.c\<close>, which read through \<^verbatim>\<open>m_getc\<close> and look up system
  files through Fncache; Ifstack the conditional directives, whose predicates use the macro table and the
  cache of dates, and whose stack refines a list of truth values.

  \<^bold>\<open>xyacc\<close> (\<^verbatim>\<open>unix/boot/xyacc\<close>), the parser generator. Ygram lays the rules out in memory as \<^verbatim>\<open>setup\<close> of
  \<^verbatim>\<open>y2.c\<close> leaves them and defines derivations, the specification of what follows. Ysets holds the sets of
  lookahead tokens and the table of distinct sets, with the locale \<open>set_union\<close> for loops that merge sets
  until nothing changes; Yempty the marking loops of \<^verbatim>\<open>cpres\<close> and \<^verbatim>\<open>cempty\<close>; Yfirst \<^verbatim>\<open>cpfir\<close> and the analysis
  \<^verbatim>\<open>main\<close> makes (\<open>analyse\<close>). Yclosure is \<^verbatim>\<open>closure\<close> of \<^verbatim>\<open>y1.c\<close> and the proof that it ends, Ylr the proof that
  it is the LR(1) closure: the invariant of the worklist says that the productions of an entry that is
  not flagged are entered with all that it contributes. Ypack is the packing of the tables in \<^verbatim>\<open>y4.c\<close> and the
  lookups of the generated parser (\<^verbatim>\<open>yaccpar.x\<close>), Ycomb its invariant: who owns each cell of the array, and
  that rows at the same base are the same. Ystate holds the rest of the generator of states: \<^verbatim>\<open>putitem\<close>,
  \<^verbatim>\<open>state\<close> and \<^verbatim>\<open>stagen\<close> of \<^verbatim>\<open>y1.c\<close> and \<^verbatim>\<open>apack\<close> of \<^verbatim>\<open>y3.c\<close>, over the record \<open>automaton\<close> of the arrays and
  chains. Ylalr is the specification, the LR(0) states and the LALR(1) lookaheads; Ystagen and Ygen hold the
  invariant of the generation, Yloop the proof that it ends, by a measure on the states still marked, Ycoll
  the theorems on its result. A state is \<open>lossy\<close> when it has a goto on itself and an ended item behind its kernel;
  for those the program may lose lookaheads, and a theorem shows a grammar for which it does.

  Yout is the output of the tables: the row of actions of each state with its conflicts and precedence, the
  exceptions, the default reductions (\<^verbatim>\<open>output\<close>, \<^verbatim>\<open>precftn\<close>, \<^verbatim>\<open>wract\<close> of \<^verbatim>\<open>y3.c\<close>), the gotos (\<^verbatim>\<open>go2gen\<close>,
  \<^verbatim>\<open>go2out\<close>) and the arrays of \<^verbatim>\<open>others\<close>. Yparse is the generated parser of \<^verbatim>\<open>yaccpar.x\<close> with its recovery from
  syntax errors, and \<open>generate\<close> the second half of \<^verbatim>\<open>main\<close>. The theories behind it join all of that: Yrow, Ytab and
  Ychk say what the rows, the exceptions and the check array hold for each state, Ydec that the packed tables
  decode to it, Yone and Yitem that a chain of states on the stack spells the symbols read, Ysnd the invariant
  of a run (\<open>cfg_ok\<close>), Ycmp the walk of the parser along a derivation. Ylang states the result for the language of the
  grammar: what is accepted without a syntax error is a sentence, with conflicts or without; every sentence is accepted
  when no conflict is reported, no levels are given and no lookahead can be lost (\<open>clean\<close>); and no input
  takes the parser out of its tables.

  \<^bold>\<open>Bounds.\<close> The sizes of arrays are those of the source. The stream lemmas of Wtar and Rtar assume the
  block size limit that the option parsing of the programs enforces; the archive scan assumes that the
  names fit the table of 8192 slots and the buffer of 10240 bytes; expansion is proved for every input,
  with the exit of the program as the result when the pushback buffer is full. In \<^verbatim>\<open>xyacc\<close> the growth of the
  table of sets and of the action array is not modelled: a full table is the result \<open>Full\<close> (or \<open>None\<close> in the
  packing), and the theorems bound what is needed (\<open>nn + 1\<close> sets for the analysis, the working sets \<open>roomy\<close>, the cells
  \<open>cells_needed\<close>). The theorems on the parser take a complete run of the generator (\<open>built\<close>): tables that did not run full,
  token values that are different and below 1000, fewer than 1000 states and nonterminals (\<open>in_range\<close>, the
  flags of the tables are -1000), and a grammar whose nonterminals are all expected in some state (\<open>all_used\<close>). Values of tables are unbounded integers where the SPP
  text declares them \<^verbatim>\<open>short\<close>. A default goto of -1 (a nonterminal that no state expects) makes the parser read in
  front of \<^verbatim>\<open>yychk\<close>; the models treat such a read as a mismatch, and \<open>all_used\<close> excludes the case. Counters and sizes of
  type \<^verbatim>\<open>int\<close> are unbounded where they count bytes of one string or of the names of one directory (\<open>STRUPK\<close>,
  \<open>read_entries\<close>): those models differ from the code for strings of \<open>2 ^ 31\<close> bytes and for more than 1 GiB of names.

  \<^bold>\<open>Not modelled.\<close> Printed messages and debugging output everywhere. The option parsing and listings of
  \<^verbatim>\<open>wtar\<close> and \<^verbatim>\<open>rtar\<close>; floating point and complex conversions of \<^verbatim>\<open>sys/osb\<close>; in \<^verbatim>\<open>mkpkg\<close> the token loop
  \<^verbatim>\<open>gettok\<close>, the reading of the special file list, contexts of nested files and the commands that run host
  programs. In \<^verbatim>\<open>xyacc\<close> the reader of grammar files, the semantic actions, the
  listing and the text of the output.
  Of the other C code the \<^verbatim>\<open>xpp\<close> preprocessor, \<^verbatim>\<open>vmcache\<close>, the
  formatted I/O of \<^verbatim>\<open>sys/libc\<close> and the device drivers are left for later; generated parsers and vendored
  libraries are not part of the development.
\<close>

end
